(* ===== verification/RG_Prelude.thy ===== *)
theory RG_Prelude
  imports Complex_Main "HOL-Library.Word" "HOL-Library.AList"
begin

text \<open>
  Shared vocabulary of the development.

  \<^item> Python's \<open>str\<close> is a list of code points (\<open>pystr\<close>), so lengths and slices count
    what Python counts; \<open>str ''abc''\<close> is the literal \<open>"abc"\<close>.
  \<^item> Python's \<open>bytes\<close> is a list of 8-bit words.
  \<^item> An operation that may raise returns \<open>exn + 'a\<close>: \<open>Inl\<close> of the exception or \<open>Inr\<close>
    of the result; \<open>rbind\<close> is sequencing that stops at the first exception.
  \<^item> A \<open>dict\<close> whose order matters is an association list; \<open>d[k] = v\<close> is \<open>AList.update\<close>
    (in place when the key is there, appended otherwise), \<open>d.get(k)\<close> is \<open>map_of d k\<close>.
\<close>

named_theorems rg_defs \<open>definitions unfolded when a component is evaluated\<close>
named_theorems res_simps \<open>rules that see through the result type\<close>

section \<open>Strings and bytes\<close>

type_synonym pystr = "nat list"
type_synonym bytes = "8 word list"

definition str :: "string \<Rightarrow> pystr" where
  "str cs = map of_char cs"

lemma str_eq_iff [simp]: "str a = str b \<longleftrightarrow> a = b"
proof -
  have "inj (of_char :: char \<Rightarrow> nat)" by (rule injI) simp
  then show ?thesis by (simp add: str_def inj_map_eq_map)
qed

lemma length_str [simp]: "length (str cs) = length cs"
  by (simp add: str_def)

lemma str_Nil [simp]: "str [] = []" and str_eq_Nil [simp]: "str cs = [] \<longleftrightarrow> cs = []"
  by (simp_all add: str_def)

text \<open>\<open>s[a:b]\<close> for non-negative bounds, with Python's clamping.\<close>

definition slice :: "'a list \<Rightarrow> nat \<Rightarrow> nat \<Rightarrow> 'a list" where
  "slice s a b = take (b - a) (drop a s)"

lemma length_slice [simp]: "length (slice s a b) = min b (length s) - a"
  by (auto simp: slice_def)

lemma slice_append_left: "b \<le> length xs \<Longrightarrow> slice (xs @ ys) a b = slice xs a b"
  by (cases "a \<le> length xs") (simp_all add: slice_def)

lemma slice_append_right:
  "length xs \<le> a \<Longrightarrow> slice (xs @ ys) a b = slice ys (a - length xs) (b - length xs)"
  by (cases "a \<le> b") (simp_all add: slice_def)

lemma slice_full [simp]: "slice s 0 (length s) = s"
  by (simp add: slice_def)

lemma slice_empty [simp]: "b \<le> a \<Longrightarrow> slice s a b = []"
  by (simp add: slice_def)

lemma take_slice_drop: "a \<le> b \<Longrightarrow> take a s @ slice s a b @ drop b s = s"
  by (metis append_assoc append_take_drop_id slice_def take_add le_add_diff_inverse)

lemma slice_slice_append: "a \<le> b \<Longrightarrow> b \<le> c \<Longrightarrow> slice s a b @ slice s b c = slice s a c"
proof -
  assume "a \<le> b" "b \<le> c"
  then have *: "c - a = (b - a) + (c - b)" by simp
  have "drop (b - a) (drop a s) = drop b s" using \<open>a \<le> b\<close> by simp
  then show ?thesis
    unfolding slice_def * take_add by simp
qed

lemma nth_slice: "i < b - a \<Longrightarrow> b \<le> length s \<Longrightarrow> slice s a b ! i = s ! (a + i)"
  by (simp add: slice_def)

definition startswith :: "'a list \<Rightarrow> 'a list \<Rightarrow> bool" where
  "startswith s p \<longleftrightarrow> take (length p) s = p"

lemma startswith_append [simp]: "startswith (p @ s) p"
  by (simp add: startswith_def)

text \<open>\<open>p in s\<close> for strings.\<close>

fun contains :: "'a list \<Rightarrow> 'a list \<Rightarrow> bool" where
  "contains [] p = (p = [])"
| "contains (c # s) p = (startswith (c # s) p \<or> contains s p)"

lemma contains_iff: "contains s p \<longleftrightarrow> (\<exists>a b. s = a @ p @ b)"
proof (induction s)
  case Nil
  then show ?case by auto
next
  case (Cons c s)
  have "startswith (c # s) p \<longleftrightarrow> (\<exists>b. c # s = p @ b)"
    by (metis append_take_drop_id startswith_append startswith_def)
  moreover have "(\<exists>a b. c # s = a @ p @ b) \<longleftrightarrow> (\<exists>b. c # s = p @ b) \<or> (\<exists>a b. s = a @ p @ b)"
    by (auto simp: Cons_eq_append_conv)
  ultimately show ?case using Cons by simp
qed

text \<open>\<open>xs.pop(i)\<close> for an index in range.\<close>

definition list_pop :: "nat \<Rightarrow> 'a list \<Rightarrow> 'a list" where
  "list_pop i xs = take i xs @ drop (Suc i) xs"

lemma set_list_pop: "set (list_pop i xs) \<subseteq> set xs"
  by (auto simp: list_pop_def dest: in_set_takeD in_set_dropD)

lemma list_pop_last: "list_pop (length xs) (xs @ [x]) = xs"
  by (simp add: list_pop_def)

text \<open>Sorting by a key leaves a list alone that is sorted by it.\<close>

lemma sort_key_id: "sorted (map f xs) \<Longrightarrow> sort_key f xs = xs"
  by (induction xs) (simp_all add: insort_is_Cons)

section \<open>Exceptions and results\<close>

text \<open>
  The exceptions the modelled code raises or catches. The numeric argument of
  \<open>ProviderError\<close> and \<open>HTTPException\<close> is the status code.
\<close>

datatype exn =
    TypeError
  | ValueError
  | KeyError
  | IndexError
  | AttributeError
  | StopIteration
  | UnicodeError
  | RuntimeError pystr
  | InvalidTag
  | IntegrityError
  | HardBlockError "pystr list"
  | ProviderError pystr int pystr
  | HTTPException int pystr
  | VaultLocked
  | BadPassword pystr
  | UnsupportedFormat pystr
  | OcrUnavailable
  | DataError

type_synonym 'a res = "exn + 'a"

definition rbind :: "'a res \<Rightarrow> ('a \<Rightarrow> 'b res) \<Rightarrow> 'b res" where
  "rbind m f = (case m of Inl e \<Rightarrow> Inl e | Inr x \<Rightarrow> f x)"

lemma rbind_simps [simp, res_simps]: "rbind (Inl e) f = Inl e" "rbind (Inr x) f = f x"
  by (simp_all add: rbind_def)

lemma rbind_Inr_iff [res_simps]: "rbind m f = Inr y \<longleftrightarrow> (\<exists>x. m = Inr x \<and> f x = Inr y)"
  by (cases m) auto

lemma rbind_InrE: "rbind m f = Inr y \<Longrightarrow> (\<And>x. m = Inr x \<Longrightarrow> f x = Inr y \<Longrightarrow> P) \<Longrightarrow> P"
  by (cases m) auto

lemma rbind_Inl_iff: "rbind m f = Inl e \<longleftrightarrow> m = Inl e \<or> (\<exists>x. m = Inr x \<and> f x = Inl e)"
  by (cases m) auto

text \<open>Running a result-returning step over a list, left to right, threading a state.\<close>

fun rfold :: "('a \<Rightarrow> 's \<Rightarrow> 's res) \<Rightarrow> 'a list \<Rightarrow> 's \<Rightarrow> 's res" where
  "rfold f [] s = Inr s"
| "rfold f (x # xs) s = rbind (f x s) (rfold f xs)"

lemma rfold_append: "rfold f (xs @ ys) s = rbind (rfold f xs s) (rfold f ys)"
  by (induction xs arbitrary: s) (auto simp: rbind_def split: sum.splits)

lemma rfold_invariant:
  assumes "rfold f xs s = Inr s'" and "I s"
    and "\<And>x s s'. x \<in> set xs \<Longrightarrow> I s \<Longrightarrow> f x s = Inr s' \<Longrightarrow> I s'"
  shows "I s'"
  using assms by (induction xs arbitrary: s) (auto simp: rbind_Inr_iff)

section \<open>Dictionaries\<close>

lemma map_of_update [simp]: "map_of (AList.update k v d) = (map_of d)(k \<mapsto> v)"
  by (rule update_conv')

lemma update_same [simp]: "map_of d k = Some v \<Longrightarrow> AList.update k v d = d"
  by (induction d) auto

lemma update_fresh: "k \<notin> fst ` set d \<Longrightarrow> AList.update k v d = d @ [(k, v)]"
  by (induction d) auto

text \<open>\<open>out[k] = out.get(k, 0) + n\<close>, the counting idiom of the code.\<close>

definition bump_count :: "'k \<Rightarrow> int \<Rightarrow> ('k \<times> int) list \<Rightarrow> ('k \<times> int) list" where
  "bump_count k n d = AList.update k ((case map_of d k of None \<Rightarrow> 0 | Some c \<Rightarrow> c) + n) d"

lemma map_of_bump_count:
  "map_of (bump_count k n d) j =
     (if j = k then Some ((case map_of d k of None \<Rightarrow> 0 | Some c \<Rightarrow> c) + n) else map_of d j)"
  by (simp add: bump_count_def)

fun count_by :: "('a \<Rightarrow> 'k) \<Rightarrow> 'a list \<Rightarrow> ('k \<times> int) list \<Rightarrow> ('k \<times> int) list" where
  "count_by f [] d = d"
| "count_by f (x # xs) d = count_by f xs (bump_count (f x) 1 d)"

lemma count_by_spec:
  "map_of (count_by f xs d) k =
     (if k \<in> f ` set xs \<or> map_of d k \<noteq> None
      then Some ((case map_of d k of None \<Rightarrow> 0 | Some c \<Rightarrow> c) + int (length (filter (\<lambda>x. f x = k) xs)))
      else None)"
  by (induction xs arbitrary: d) (auto simp: map_of_bump_count split: option.splits)

lemma count_by_empty:
  "map_of (count_by f xs []) k =
     (if k \<in> f ` set xs then Some (int (length (filter (\<lambda>x. f x = k) xs))) else None)"
  by (simp add: count_by_spec)

lemma distinct_keys_update: "distinct (map fst d) \<Longrightarrow> distinct (map fst (AList.update k v d))"
  by (rule distinct_update)

lemma distinct_keys_count_by: "distinct (map fst d) \<Longrightarrow> distinct (map fst (count_by f xs d))"
  by (induction xs arbitrary: d) (simp_all add: bump_count_def distinct_keys_update)

end
