(* ===== verification/Unicode_Data.thy ===== *)
theory Unicode_Data
  imports RG_Prelude
begin

text \<open>
  What the code uses of Python's Unicode tables. The tables belong to the interpreter and change
  with its version, so they are a parameter (\<open>ucd\<close>) of every definition that consults them;
  \<open>ucd_ascii\<close> is what they say of ASCII, and \<open>ascii_ucd\<close> is the smallest table with that
  property, used to evaluate examples.
\<close>

record ucd =
  u_decimal :: "nat \<Rightarrow> nat option"   \<comment> \<open>decimal value; the characters of \<open>\d\<close> and of \<open>int()\<close>\<close>
  u_digit :: "nat \<Rightarrow> bool"           \<comment> \<open>\<open>str.isdigit\<close>: the decimals and the other digits\<close>
  u_space :: "nat \<Rightarrow> bool"           \<comment> \<open>\<open>str.isspace\<close> and \<open>\s\<close>\<close>
  u_alnum :: "nat \<Rightarrow> bool"           \<comment> \<open>\<open>str.isalnum\<close>; \<open>\w\<close> adds the underscore\<close>
  u_alpha :: "nat \<Rightarrow> bool"
  u_upper :: "nat \<Rightarrow> pystr"          \<comment> \<open>full upper-case mapping of a character\<close>
  u_lower :: "pystr \<Rightarrow> pystr"        \<comment> \<open>lower-casing looks at the context (final sigma)\<close>
  u_title :: "pystr \<Rightarrow> pystr"        \<comment> \<open>title-casing, word by word\<close>
  u_fold :: "nat \<Rightarrow> pystr"           \<comment> \<open>full case folding of a character\<close>
  u_lower1 :: "nat \<Rightarrow> nat"           \<comment> \<open>simple lower-case mapping, as the regex engine uses it\<close>
  u_casefix :: "nat \<Rightarrow> nat list"     \<comment> \<open>the extra case variants the regex engine adds\<close>
  u_nfkc :: "pystr \<Rightarrow> pystr"         \<comment> \<open>\<open>unicodedata.normalize("NFKC", s)\<close>\<close>

section \<open>ASCII\<close>

definition ascii_digit :: "nat \<Rightarrow> bool" where "ascii_digit c \<longleftrightarrow> 48 \<le> c \<and> c \<le> 57"
definition ascii_uppercase :: "nat \<Rightarrow> bool" where "ascii_uppercase c \<longleftrightarrow> 65 \<le> c \<and> c \<le> 90"
definition ascii_lowercase :: "nat \<Rightarrow> bool" where "ascii_lowercase c \<longleftrightarrow> 97 \<le> c \<and> c \<le> 122"
definition ascii_alpha :: "nat \<Rightarrow> bool" where "ascii_alpha c \<longleftrightarrow> ascii_uppercase c \<or> ascii_lowercase c"
definition ascii_space :: "nat \<Rightarrow> bool" where
  "ascii_space c \<longleftrightarrow> 9 \<le> c \<and> c \<le> 13 \<or> 28 \<le> c \<and> c \<le> 32"
definition ascii_lower :: "nat \<Rightarrow> nat" where "ascii_lower c = (if ascii_uppercase c then c + 32 else c)"
definition ascii_upper :: "nat \<Rightarrow> nat" where "ascii_upper c = (if ascii_lowercase c then c - 32 else c)"

lemmas ascii_defs = ascii_digit_def ascii_uppercase_def ascii_lowercase_def ascii_alpha_def
  ascii_space_def ascii_lower_def ascii_upper_def

definition ucd_ascii :: "ucd \<Rightarrow> bool" where
  "ucd_ascii u \<longleftrightarrow>
     (\<forall>c<128. u_decimal u c = (if ascii_digit c then Some (c - 48) else None)
        \<and> u_digit u c = ascii_digit c \<and> u_space u c = ascii_space c
        \<and> u_alnum u c = (ascii_digit c \<or> ascii_alpha c) \<and> u_alpha u c = ascii_alpha c
        \<and> u_upper u c = [ascii_upper c] \<and> u_fold u c = [ascii_lower c] \<and> u_lower1 u c = ascii_lower c)
   \<and> (\<forall>s. (\<forall>c\<in>set s. c < 128) \<longrightarrow> u_lower u s = map ascii_lower s \<and> u_nfkc u s = s)
   \<and> (\<forall>c. u_decimal u c \<noteq> None \<longrightarrow> u_digit u c)"

fun ascii_title :: "bool \<Rightarrow> pystr \<Rightarrow> pystr" where
  "ascii_title cased [] = []"
| "ascii_title cased (c # s) = (if cased then ascii_lower c else ascii_upper c) # ascii_title (ascii_alpha c) s"

definition ascii_ucd :: ucd where
  "ascii_ucd =
     \<lparr>u_decimal = \<lambda>c. if ascii_digit c then Some (c - 48) else None,
      u_digit = ascii_digit, u_space = ascii_space,
      u_alnum = \<lambda>c. ascii_digit c \<or> ascii_alpha c, u_alpha = ascii_alpha,
      u_upper = \<lambda>c. [ascii_upper c], u_lower = map ascii_lower, u_title = ascii_title False, u_fold = \<lambda>c. [ascii_lower c],
      u_lower1 = ascii_lower, u_casefix = \<lambda>_. [], u_nfkc = \<lambda>s. s\<rparr>"

lemma ucd_ascii_ascii_ucd: "ucd_ascii ascii_ucd"
  by (simp add: ucd_ascii_def ascii_ucd_def ascii_digit_def)

lemma ucd_asciiD:
  assumes "ucd_ascii u" "c < 128"
  shows "u_decimal u c = (if ascii_digit c then Some (c - 48) else None)"
    "u_digit u c = ascii_digit c" "u_space u c = ascii_space c"
    "u_alnum u c = (ascii_digit c \<or> ascii_alpha c)" "u_alpha u c = ascii_alpha c"
    "u_upper u c = [ascii_upper c]" "u_fold u c = [ascii_lower c]" "u_lower1 u c = ascii_lower c"
  using assms unfolding ucd_ascii_def by blast+

section \<open>String methods\<close>

definition py_isdigit :: "ucd \<Rightarrow> pystr \<Rightarrow> bool" where
  "py_isdigit u s \<longleftrightarrow> s \<noteq> [] \<and> list_all (u_digit u) s"

definition py_upper :: "ucd \<Rightarrow> pystr \<Rightarrow> pystr" where
  "py_upper u s = concat (map (u_upper u) s)"

definition py_casefold :: "ucd \<Rightarrow> pystr \<Rightarrow> pystr" where
  "py_casefold u s = concat (map (u_fold u) s)"

definition py_lstrip :: "ucd \<Rightarrow> pystr \<Rightarrow> pystr" where
  "py_lstrip u s = dropWhile (u_space u) s"

definition py_rstrip :: "ucd \<Rightarrow> pystr \<Rightarrow> pystr" where
  "py_rstrip u s = rev (dropWhile (u_space u) (rev s))"

definition py_strip :: "ucd \<Rightarrow> pystr \<Rightarrow> pystr" where
  "py_strip u s = py_rstrip u (py_lstrip u s)"

text \<open>\<open>str.split(sep)\<close> for a one-character separator, and \<open>str.join\<close>.\<close>

fun split_on :: "nat \<Rightarrow> pystr \<Rightarrow> pystr list" where
  "split_on d [] = [[]]"
| "split_on d (c # s) = (if c = d then [] # split_on d s
     else (case split_on d s of [] \<Rightarrow> [[c]] | w # ws \<Rightarrow> (c # w) # ws))"

fun join_with :: "pystr \<Rightarrow> pystr list \<Rightarrow> pystr" where
  "join_with sep [] = []"
| "join_with sep [w] = w"
| "join_with sep (w # v # ws) = w @ sep @ join_with sep (v # ws)"

lemma split_on_not_Nil [simp]: "split_on d s \<noteq> []"
  by (induction s) (auto split: list.splits)

lemma join_split_on: "join_with [d] (split_on d s) = s"
proof (induction s)
  case (Cons c s)
  obtain w ws where w: "split_on d s = w # ws" by (cases "split_on d s") simp_all
  have "join_with [d] ((c # w) # ws) = c # join_with [d] (w # ws)" by (cases ws) simp_all
  then show ?case using Cons w by simp
qed simp

lemma split_on_sound: "w \<in> set (split_on d s) \<Longrightarrow> d \<notin> set w"
proof (induction s arbitrary: w)
  case (Cons c s)
  then show ?case by (cases "split_on d s") (auto split: if_splits)
qed simp

text \<open>Python's \<open>int(s)\<close> on a string of digits: every character must be a decimal.\<close>

fun digits_val :: "ucd \<Rightarrow> nat \<Rightarrow> pystr \<Rightarrow> nat option" where
  "digits_val u acc [] = Some acc"
| "digits_val u acc (c # s) =
     (case u_decimal u c of None \<Rightarrow> None | Some d \<Rightarrow> digits_val u (10 * acc + d) s)"

definition py_int_digits :: "ucd \<Rightarrow> pystr \<Rightarrow> nat res" where
  "py_int_digits u s = (if s = [] then Inl ValueError else
     case digits_val u 0 s of None \<Rightarrow> Inl ValueError | Some n \<Rightarrow> Inr n)"

lemma digits_val_append:
  "digits_val u acc (s @ t) = (case digits_val u acc s of None \<Rightarrow> None | Some a \<Rightarrow> digits_val u a t)"
  by (induction s arbitrary: acc) (auto split: option.splits)

text \<open>\<open>str(n)\<close> for a natural number.\<close>

fun dec_rev :: "nat \<Rightarrow> pystr" where
  "dec_rev n = (if n < 10 then [48 + n] else (48 + n mod 10) # dec_rev (n div 10))"

declare dec_rev.simps [simp del]

definition str_nat :: "nat \<Rightarrow> pystr" where
  "str_nat n = rev (dec_rev n)"

definition str_int :: "int \<Rightarrow> pystr" where
  "str_int i = (if i < 0 then 45 # str_nat (nat (- i)) else str_nat (nat i))"

lemma dec_rev_digits: "c \<in> set (dec_rev n) \<Longrightarrow> 48 \<le> c \<and> c \<le> 57"
proof (induction n rule: dec_rev.induct)
  case (1 n)
  then show ?case by (cases "n < 10") (auto simp: dec_rev.simps [of n])
qed

lemma str_nat_digits: "c \<in> set (str_nat n) \<Longrightarrow> 48 \<le> c \<and> c \<le> 57"
  by (simp add: str_nat_def dec_rev_digits)

fun dec_val :: "pystr \<Rightarrow> nat" where
  "dec_val [] = 0"
| "dec_val (c # s) = (c - 48) + 10 * dec_val s"

lemma dec_val_dec_rev: "dec_val (dec_rev n) = n"
proof (induction n rule: dec_rev.induct)
  case (1 n)
  then show ?case by (cases "n < 10") (simp_all add: dec_rev.simps [of n])
qed

lemma str_nat_inj: "str_nat a = str_nat b \<Longrightarrow> a = b"
  by (metis dec_val_dec_rev rev_rev_ident str_nat_def)

lemma str_nat_not_Nil [simp]: "str_nat n \<noteq> []"
  by (subst str_nat_def) (simp add: dec_rev.simps [of n])

lemma digits_val_str_nat: "ucd_ascii u \<Longrightarrow> digits_val u 0 (str_nat n) = Some n"
  unfolding str_nat_def
proof (induction n rule: dec_rev.induct)
  case (1 n)
  have d: "u_decimal u (48 + k) = Some k" if "k < 10" for k using that 1(2) by (simp add: ucd_ascii_def ascii_digit_def)
  show ?case
  proof (cases "n < 10")
    case True
    then show ?thesis using d [of n] by (simp add: dec_rev.simps [of n])
  next
    case False
    then show ?thesis using 1 d [of "n mod 10"] by (simp add: dec_rev.simps [of n] digits_val_append)
  qed
qed

lemma length_str_nat: "n < 10 ^ Suc k \<Longrightarrow> length (str_nat n) \<le> Suc k"
  unfolding str_nat_def
proof (induction n arbitrary: k rule: dec_rev.induct)
  case (1 n)
  show ?case
  proof (cases "n < 10")
    case True
    then show ?thesis by (simp add: dec_rev.simps [of n])
  next
    case False
    with 1 show ?thesis by (cases k) (auto simp: dec_rev.simps [of n])
  qed
qed

lemma str_int_inj: "str_int a = str_int b \<Longrightarrow> a = b"
proof -
  assume eq: "str_int a = str_int b"
  have no: "str_nat n \<noteq> 45 # s" for n s
    using str_nat_digits [of 45 n] by auto
  show "a = b"
    using eq no no [THEN not_sym] by (auto simp: str_int_def split: if_splits dest!: str_nat_inj)
qed

end
