(* ===== verification/Regex.thy ===== *)
theory Regex
  imports Unicode_Data
begin

text \<open>
  The part of Python's \<open>re\<close> that the code uses: a backtracking matcher. \<open>ms u s r i c\<close> lists
  the ways \<open>r\<close> matches \<open>s\<close> from position \<open>i\<close>, in the order the backtracking engine tries
  them, each with its end position and the captured groups (last capture first); a match is
  the first of the list. \<open>ms_lang\<close> relates it to the language of the pattern.
\<close>

section \<open>Patterns\<close>

datatype citem =
    CRange nat nat
  | CDigit        \<comment> \<open>\<open>\d\<close>\<close>
  | CSpace        \<comment> \<open>\<open>\s\<close>\<close>
  | CWord         \<comment> \<open>\<open>\w\<close>\<close>
  | CNotDigit
  | CNotWord

datatype re =
    Eps
  | Cls bool bool "citem list"           \<comment> \<open>ignore case, negated, items\<close>
  | Seq re re
  | Alt re re
  | Rep bool re nat "nat option"         \<comment> \<open>greedy, body, minimum, maximum\<close>
  | Grp pystr re                         \<comment> \<open>a group, by its name or number\<close>
  | Ahead bool re                        \<comment> \<open>\<open>(?=r)\<close> and \<open>(?!r)\<close>\<close>
  | Behind bool re                       \<comment> \<open>\<open>(?<=r)\<close> and \<open>(?<!r)\<close> for a one-character \<open>r\<close>\<close>
  | Bos                                  \<comment> \<open>\<open>^\<close>\<close>
  | Eos                                  \<comment> \<open>\<open>$\<close>: at the end, or before a final newline\<close>
  | WordB                                \<comment> \<open>\<open>\b\<close>\<close>

type_synonym caps = "(pystr \<times> nat \<times> nat) list"

definition word_char :: "ucd \<Rightarrow> nat \<Rightarrow> bool" where
  "word_char u c \<longleftrightarrow> u_alnum u c \<or> c = 95"

fun citem_in :: "ucd \<Rightarrow> citem \<Rightarrow> nat \<Rightarrow> bool" where
  "citem_in u (CRange a b) c = (a \<le> c \<and> c \<le> b)"
| "citem_in u CDigit c = (u_decimal u c \<noteq> None)"
| "citem_in u CSpace c = u_space u c"
| "citem_in u CWord c = word_char u c"
| "citem_in u CNotDigit c = (u_decimal u c = None)"
| "citem_in u CNotWord c = (\<not> word_char u c)"

text \<open>
  Under \<open>IGNORECASE\<close> the engine lower-cases the character it reads and compares with the
  lower-cased characters of the set and their extra case variants.
\<close>

fun citem_in_ci :: "ucd \<Rightarrow> citem \<Rightarrow> nat \<Rightarrow> bool" where
  "citem_in_ci u (CRange a b) c =
     list_ex (\<lambda>x. let l = u_lower1 u x in u_lower1 u c = l \<or> u_lower1 u c \<in> set (u_casefix u l)) [a..<Suc b]"
| "citem_in_ci u it c = citem_in u it (u_lower1 u c)"

definition cls_in :: "ucd \<Rightarrow> bool \<Rightarrow> bool \<Rightarrow> citem list \<Rightarrow> nat \<Rightarrow> bool" where
  "cls_in u ci neg its c \<longleftrightarrow>
     (neg \<longleftrightarrow> \<not> (if ci then list_ex (\<lambda>it. citem_in_ci u it c) its else list_ex (\<lambda>it. citem_in u it c) its))"

section \<open>The matcher\<close>

fun must :: "(nat \<Rightarrow> 'c \<Rightarrow> (nat \<times> 'c) list) \<Rightarrow> nat \<Rightarrow> nat \<Rightarrow> 'c \<Rightarrow> (nat \<times> 'c) list" where
  "must f 0 i c = [(i, c)]"
| "must f (Suc n) i c = concat (map (\<lambda>(j, c'). must f n j c') (f i c))"

text \<open>Optional repetitions, each of which has to advance; the first number bounds them.\<close>

fun opts :: "(nat \<Rightarrow> 'c \<Rightarrow> (nat \<times> 'c) list) \<Rightarrow> bool \<Rightarrow> nat \<Rightarrow> nat option \<Rightarrow> nat \<Rightarrow> 'c \<Rightarrow> (nat \<times> 'c) list" where
  "opts f g 0 mx i c = [(i, c)]"
| "opts f g (Suc n) mx i c =
     (if mx = Some 0 then [(i, c)]
      else let more = concat (map (\<lambda>(j, c'). opts f g n (map_option (\<lambda>m. m - 1) mx) j c')
                                  (filter (\<lambda>(j, _). i < j) (f i c)))
           in if g then more @ [(i, c)] else (i, c) # more)"

primrec ms :: "ucd \<Rightarrow> pystr \<Rightarrow> re \<Rightarrow> nat \<Rightarrow> caps \<Rightarrow> (nat \<times> caps) list" where
  "ms u s Eps = (\<lambda>i c. [(i, c)])"
| "ms u s (Cls ci neg its) =
     (\<lambda>i c. if i < length s \<and> cls_in u ci neg its (s ! i) then [(Suc i, c)] else [])"
| "ms u s (Seq a b) = (\<lambda>i c. concat (map (\<lambda>(j, c'). ms u s b j c') (ms u s a i c)))"
| "ms u s (Alt a b) = (\<lambda>i c. ms u s a i c @ ms u s b i c)"
| "ms u s (Rep g a mn mx) =
     (\<lambda>i c. concat (map (\<lambda>(j, c'). opts (ms u s a) g (length s - j) (map_option (\<lambda>m. m - mn) mx) j c')
                       (must (ms u s a) mn i c)))"
| "ms u s (Grp n a) = (\<lambda>i c. map (\<lambda>(j, c'). (j, (n, i, j) # c')) (ms u s a i c))"
| "ms u s (Ahead pos a) =
     (\<lambda>i c. if pos then (case ms u s a i c of [] \<Rightarrow> [] | (_, c') # _ \<Rightarrow> [(i, c')])
            else (if ms u s a i c = [] then [(i, c)] else []))"
| "ms u s (Behind pos a) =
     (\<lambda>i c. if (0 < i \<and> (\<exists>m\<in>set (ms u s a (i - 1) c). fst m = i)) = pos then [(i, c)] else [])"
| "ms u s Bos = (\<lambda>i c. if i = 0 then [(i, c)] else [])"
| "ms u s Eos = (\<lambda>i c. if i = length s \<or> Suc i = length s \<and> s ! i = 10 then [(i, c)] else [])"
| "ms u s WordB =
     (\<lambda>i c. if (0 < i \<and> word_char u (s ! (i - 1))) \<noteq> (i < length s \<and> word_char u (s ! i)) then [(i, c)] else [])"

text \<open>\<open>m.start()\<close>, \<open>m.end()\<close> and the groups of a match.\<close>

type_synonym rmatch = "nat \<times> nat \<times> caps"

definition m_start :: "rmatch \<Rightarrow> nat" where "m_start m = fst m"
definition m_end :: "rmatch \<Rightarrow> nat" where "m_end m = fst (snd m)"
definition m_span :: "rmatch \<Rightarrow> pystr \<Rightarrow> (nat \<times> nat) option" where
  "m_span m g = map_of (snd (snd m)) g"
definition m_group0 :: "pystr \<Rightarrow> rmatch \<Rightarrow> pystr" where
  "m_group0 s m = slice s (m_start m) (m_end m)"
definition m_group :: "pystr \<Rightarrow> rmatch \<Rightarrow> pystr \<Rightarrow> pystr option" where
  "m_group s m g = map_option (\<lambda>(a, b). slice s a b) (m_span m g)"

text \<open>\<open>pattern.match\<close> at a position; \<open>adv\<close> asks for a match that is not empty.\<close>

definition match_at :: "ucd \<Rightarrow> re \<Rightarrow> pystr \<Rightarrow> nat \<Rightarrow> bool \<Rightarrow> rmatch option" where
  "match_at u r s i adv =
     (case filter (\<lambda>(j, _). adv \<longrightarrow> j \<noteq> i) (ms u s r i []) of [] \<Rightarrow> None | (j, c) # _ \<Rightarrow> Some (i, j, c))"

fun search_from :: "ucd \<Rightarrow> re \<Rightarrow> pystr \<Rightarrow> nat \<Rightarrow> nat \<Rightarrow> bool \<Rightarrow> rmatch option" where
  "search_from u r s 0 i adv = None"
| "search_from u r s (Suc n) i adv =
     (case match_at u r s i adv of Some m \<Rightarrow> Some m | None \<Rightarrow> search_from u r s n (Suc i) False)"

definition re_search :: "ucd \<Rightarrow> re \<Rightarrow> pystr \<Rightarrow> rmatch option" where
  "re_search u r s = search_from u r s (Suc (length s)) 0 False"

definition re_match :: "ucd \<Rightarrow> re \<Rightarrow> pystr \<Rightarrow> rmatch option" where
  "re_match u r s = match_at u r s 0 False"

definition re_fullmatch :: "ucd \<Rightarrow> re \<Rightarrow> pystr \<Rightarrow> bool" where
  "re_fullmatch u r s \<longleftrightarrow> list_ex (\<lambda>(j, _). j = length s) (ms u s r 0 [])"

text \<open>
  \<open>finditer\<close>: after a match the scan goes on at its end; after an empty match the next match
  at the same place must not be empty. \<open>2 * length s + 2\<close> rounds always suffice: a round
  either moves on or follows an empty match.
\<close>

fun find_from :: "nat \<Rightarrow> ucd \<Rightarrow> re \<Rightarrow> pystr \<Rightarrow> nat \<Rightarrow> bool \<Rightarrow> rmatch list" where
  "find_from 0 u r s i adv = []"
| "find_from (Suc n) u r s i adv =
     (case search_from u r s (Suc (length s) - i) i adv of
        None \<Rightarrow> []
      | Some m \<Rightarrow> m # find_from n u r s (m_end m) (m_end m = m_start m))"

definition finditer :: "ucd \<Rightarrow> re \<Rightarrow> pystr \<Rightarrow> rmatch list" where
  "finditer u r s = find_from (2 * length s + 2) u r s 0 False"

text \<open>\<open>pattern.sub(f, s)\<close> and \<open>pattern.split(s)\<close> (patterns without groups), from the matches.\<close>

fun sub_from :: "(rmatch \<Rightarrow> pystr) \<Rightarrow> pystr \<Rightarrow> nat \<Rightarrow> rmatch list \<Rightarrow> pystr" where
  "sub_from f s i [] = drop i s"
| "sub_from f s i (m # rest) = slice s i (m_start m) @ f m @ sub_from f s (m_end m) rest"

definition re_sub :: "ucd \<Rightarrow> re \<Rightarrow> (rmatch \<Rightarrow> pystr) \<Rightarrow> pystr \<Rightarrow> pystr" where
  "re_sub u r f s = sub_from f s 0 (finditer u r s)"

fun split_from :: "pystr \<Rightarrow> nat \<Rightarrow> rmatch list \<Rightarrow> pystr list" where
  "split_from s i [] = [drop i s]"
| "split_from s i (m # rest) = slice s i (m_start m) # split_from s (m_end m) rest"

definition re_split :: "ucd \<Rightarrow> re \<Rightarrow> pystr \<Rightarrow> pystr list" where
  "re_split u r s = split_from s 0 (finditer u r s)"

text \<open>Pattern shorthands.\<close>

definition Chr :: "char \<Rightarrow> re" where
  "Chr ch = Cls False False [CRange (of_char ch) (of_char ch)]"

fun seqs :: "re list \<Rightarrow> re" where
  "seqs [] = Eps"
| "seqs [r] = r"
| "seqs (r # r' # rs) = Seq r (seqs (r' # rs))"

fun alts :: "re list \<Rightarrow> re" where
  "alts [] = Cls False False []"
| "alts [r] = r"
| "alts (r # r' # rs) = Alt r (alts (r' # rs))"

definition re_str :: "string \<Rightarrow> re" where
  "re_str cs = seqs (map Chr cs)"

abbreviation star :: "re \<Rightarrow> re" where "star r \<equiv> Rep True r 0 None"
abbreviation plus1 :: "re \<Rightarrow> re" where "plus1 r \<equiv> Rep True r 1 None"
abbreviation opt :: "re \<Rightarrow> re" where "opt r \<equiv> Rep True r 0 (Some 1)"
abbreviation between :: "re \<Rightarrow> nat \<Rightarrow> nat \<Rightarrow> re" where "between r a b \<equiv> Rep True r a (Some b)"

section \<open>Where a match ends\<close>

lemma must_bounds:
  assumes "\<And>i c j c'. (j, c') \<in> set (f i c) \<Longrightarrow> i \<le> n \<Longrightarrow> i \<le> j \<and> j \<le> n"
    and "(j, c') \<in> set (must f k i c)" "i \<le> n"
  shows "i \<le> j \<and> j \<le> n"
  using assms(2,3)
proof (induction k arbitrary: i c)
  case (Suc k)
  then obtain m cm where "(m, cm) \<in> set (f i c)" "(j, c') \<in> set (must f k m cm)" by auto
  then show ?case using Suc assms(1) [of m cm i c] by fastforce
qed simp

lemma opts_bounds:
  assumes "\<And>i c j c'. (j, c') \<in> set (f i c) \<Longrightarrow> i \<le> n \<Longrightarrow> i \<le> j \<and> j \<le> n"
    and "(j, c') \<in> set (opts f g k mx i c)" "i \<le> n"
  shows "i \<le> j \<and> j \<le> n"
  using assms(2,3)
proof (induction k arbitrary: mx i c)
  case (Suc k)
  then consider "(j, c') = (i, c)"
    | m cm where "(m, cm) \<in> set (f i c)" "(j, c') \<in> set (opts f g k (map_option (\<lambda>m. m - 1) mx) m cm)"
    by (auto simp: Let_def split: if_splits)
  then show ?case
  proof cases
    case 2
    then show ?thesis using Suc.prems Suc.IH assms(1) [of m cm i c] by fastforce
  qed (use Suc.prems in auto)
qed simp

lemma ms_bounds: "(j, c') \<in> set (ms u s r i c) \<Longrightarrow> i \<le> length s \<Longrightarrow> i \<le> j \<and> j \<le> length s"
proof (induction r arbitrary: i j c c')
  case (Seq a b)
  then obtain m cm where m: "(m, cm) \<in> set (ms u s a i c)" "(j, c') \<in> set (ms u s b m cm)" by auto
  then show ?case using Seq.IH(1) [OF m(1)] Seq.IH(2) [OF m(2)] Seq.prems(2) by simp
next
  case (Rep g a mn mx)
  from Rep.prems obtain m cm where m: "(m, cm) \<in> set (must (ms u s a) mn i c)"
    "(j, c') \<in> set (opts (ms u s a) g (length s - m) (map_option (\<lambda>m. m - mn) mx) m cm)" by auto
  have body: "(j, c') \<in> set (ms u s a i c) \<Longrightarrow> i \<le> length s \<Longrightarrow> i \<le> j \<and> j \<le> length s" for i c j c'
    by (rule Rep.IH)
  have mb: "i \<le> m \<and> m \<le> length s" by (rule must_bounds [OF body m(1) Rep.prems(2)])
  have "m \<le> j \<and> j \<le> length s" by (rule opts_bounds [OF body m(2)]) (use mb in simp_all)
  then show ?case using mb by simp
next
  case (Alt a b)
  then show ?case by auto
next
  case (Grp n a)
  then show ?case by auto
next
  case (Ahead pos a)
  then show ?case by (auto split: if_splits list.splits)
qed (auto split: if_splits)

section \<open>The language of a pattern\<close>

primrec pow_lang :: "pystr set \<Rightarrow> nat \<Rightarrow> pystr set" where
  "pow_lang L 0 = {[]}"
| "pow_lang L (Suc n) = {x @ y | x y. x \<in> L \<and> y \<in> pow_lang L n}"

primrec lang :: "ucd \<Rightarrow> re \<Rightarrow> pystr set" where
  "lang u Eps = {[]}"
| "lang u (Cls ci neg its) = {[c] | c. cls_in u ci neg its c}"
| "lang u (Seq a b) = {x @ y | x y. x \<in> lang u a \<and> y \<in> lang u b}"
| "lang u (Alt a b) = lang u a \<union> lang u b"
| "lang u (Rep g a mn mx) = (\<Union>n\<in>{n. mn \<le> n \<and> (\<forall>m. mx = Some m \<longrightarrow> n \<le> m)}. pow_lang (lang u a) n)"
| "lang u (Grp n a) = lang u a"
| "lang u (Ahead pos a) = {}"
| "lang u (Behind pos a) = {}"
| "lang u Bos = {}"
| "lang u Eos = {}"
| "lang u WordB = {}"

text \<open>Patterns that look at nothing but what they consume.\<close>

primrec local_re :: "re \<Rightarrow> bool" where
  "local_re Eps = True"
| "local_re (Cls ci neg its) = True"
| "local_re (Seq a b) = (local_re a \<and> local_re b)"
| "local_re (Alt a b) = (local_re a \<and> local_re b)"
| "local_re (Rep g a mn mx) = (local_re a \<and> (case mx of None \<Rightarrow> True | Some m \<Rightarrow> mn \<le> m))"
| "local_re (Grp n a) = local_re a"
| "local_re (Ahead pos a) = False"
| "local_re (Behind pos a) = False"
| "local_re Bos = False"
| "local_re Eos = False"
| "local_re WordB = False"

definition ends_in :: "pystr \<Rightarrow> pystr set \<Rightarrow> nat \<Rightarrow> nat \<Rightarrow> bool" where
  "ends_in s L i j \<longleftrightarrow> i \<le> j \<and> j \<le> length s \<and> slice s i j \<in> L"

lemma ends_in_append:
  "ends_in s {x @ y | x y. x \<in> A \<and> y \<in> B} i j \<longleftrightarrow> (\<exists>m. ends_in s A i m \<and> ends_in s B m j)"
proof
  assume "ends_in s {x @ y | x y. x \<in> A \<and> y \<in> B} i j"
  then obtain x y where *: "i \<le> j" "j \<le> length s" "slice s i j = x @ y" "x \<in> A" "y \<in> B"
    by (auto simp: ends_in_def)
  have len: "length x + length y = j - i" using *(1-3) by (metis length_append length_slice min.absorb1)
  have "slice s i (i + length x) = take (length x) (slice s i j)"
    using len by (simp add: slice_def)
  moreover have "slice s (i + length x) j = drop (length x) (slice s i j)"
    by (simp add: slice_def drop_take add.commute diff_diff_add)
  ultimately have "ends_in s A i (i + length x) \<and> ends_in s B (i + length x) j"
    using * len by (auto simp: ends_in_def)
  then show "\<exists>m. ends_in s A i m \<and> ends_in s B m j" by blast
next
  assume "\<exists>m. ends_in s A i m \<and> ends_in s B m j"
  then obtain m where m: "ends_in s A i m" "ends_in s B m j" by blast
  then have "slice s i j = slice s i m @ slice s m j"
    by (simp add: ends_in_def slice_slice_append)
  then show "ends_in s {x @ y | x y. x \<in> A \<and> y \<in> B} i j"
    using m by (auto simp: ends_in_def)
qed

lemma ends_in_Nil: "i \<le> length s \<Longrightarrow> ends_in s {[]} i j \<longleftrightarrow> j = i"
  by (auto simp: ends_in_def slice_def)

definition reads :: "pystr \<Rightarrow> (nat \<Rightarrow> 'c \<Rightarrow> (nat \<times> 'c) list) \<Rightarrow> pystr set \<Rightarrow> bool" where
  "reads s f L \<longleftrightarrow> (\<forall>i c j. i \<le> length s \<longrightarrow> (\<exists>c'. (j, c') \<in> set (f i c)) \<longleftrightarrow> ends_in s L i j)"

lemma readsD: "reads s f L \<Longrightarrow> i \<le> length s \<Longrightarrow> (\<exists>c'. (j, c') \<in> set (f i c)) \<longleftrightarrow> ends_in s L i j"
  unfolding reads_def by blast

lemma reads_in: "reads s f L \<Longrightarrow> i \<le> length s \<Longrightarrow> (j, c') \<in> set (f i c) \<Longrightarrow> ends_in s L i j"
  unfolding reads_def by blast

lemma reads_out: "reads s f L \<Longrightarrow> i \<le> length s \<Longrightarrow> ends_in s L i j \<Longrightarrow> \<exists>c'. (j, c') \<in> set (f i c)"
  unfolding reads_def by blast

text \<open>Sequencing, the one composition the matcher uses.\<close>

definition andthen :: "(nat \<Rightarrow> 'c \<Rightarrow> (nat \<times> 'c) list) \<Rightarrow> (nat \<Rightarrow> 'c \<Rightarrow> (nat \<times> 'c) list) \<Rightarrow> nat \<Rightarrow> 'c \<Rightarrow> (nat \<times> 'c) list" where
  "andthen f g i c = concat (map (\<lambda>(j, c'). g j c') (f i c))"

lemma in_andthen: "(j, c') \<in> set (andthen f g i c) \<longleftrightarrow> (\<exists>m cm. (m, cm) \<in> set (f i c) \<and> (j, c') \<in> set (g m cm))"
  by (auto simp: andthen_def)

lemma reads_andthen:
  assumes f: "reads s f A" and g: "reads s g B"
  shows "reads s (andthen f g) {x @ y | x y. x \<in> A \<and> y \<in> B}"
  unfolding reads_def
proof (intro allI impI iffI)
  fix i c j
  assume i: "i \<le> length s"
  {
    assume "\<exists>c'. (j, c') \<in> set (andthen f g i c)"
    then obtain c' m cm where m: "(m, cm) \<in> set (f i c)" "(j, c') \<in> set (g m cm)"
      by (auto simp: in_andthen)
    have "ends_in s A i m" using reads_in [OF f i m(1)] .
    moreover from this have "ends_in s B m j"
      using reads_in [OF g _ m(2)] by (simp add: ends_in_def)
    ultimately show "ends_in s {x @ y | x y. x \<in> A \<and> y \<in> B} i j" by (auto simp: ends_in_append)
  }
  {
    assume "ends_in s {x @ y | x y. x \<in> A \<and> y \<in> B} i j"
    then obtain m where m: "ends_in s A i m" "ends_in s B m j" by (auto simp: ends_in_append)
    then have "m \<le> length s" by (simp add: ends_in_def)
    then show "\<exists>c'. (j, c') \<in> set (andthen f g i c)"
      using reads_out [OF f i m(1)] reads_out [OF g _ m(2)] by (fastforce simp: in_andthen)
  }
qed

lemma reads_must:
  assumes f: "reads s f L"
  shows "reads s (must f n) (pow_lang L n)"
proof (induction n)
  case 0
  then show ?case by (simp add: reads_def ends_in_Nil)
next
  case (Suc n)
  have "must f (Suc n) = andthen f (must f n)" by (rule ext)+ (simp add: andthen_def)
  then show ?case using reads_andthen [OF f Suc] by simp
qed

definition at_most :: "nat option \<Rightarrow> nat \<Rightarrow> bool" where
  "at_most mx n \<longleftrightarrow> (\<forall>m. mx = Some m \<longrightarrow> n \<le> m)"

lemma in_opts_Suc:
  "(j, c') \<in> set (opts f g (Suc n) mx i c) \<longleftrightarrow> j = i \<and> c' = c \<or> mx \<noteq> Some 0 \<and>
     (\<exists>m cm. (m, cm) \<in> set (f i c) \<and> i < m \<and> (j, c') \<in> set (opts f g n (map_option (\<lambda>m. m - 1) mx) m cm))"
  by (auto simp: Let_def)

lemma opts_sound:
  assumes f: "reads s f L"
  shows "(j, c') \<in> set (opts f g k mx i c) \<Longrightarrow> i \<le> length s \<Longrightarrow> \<exists>n. at_most mx n \<and> ends_in s (pow_lang L n) i j"
proof (induction k arbitrary: mx i c)
  case 0
  then show ?case by (auto simp: at_most_def ends_in_Nil intro!: exI [of _ 0])
next
  case (Suc k)
  then consider "j = i"
    | m cm where "mx \<noteq> Some 0" "(m, cm) \<in> set (f i c)"
        "(j, c') \<in> set (opts f g k (map_option (\<lambda>m. m - 1) mx) m cm)"
    unfolding in_opts_Suc by blast
  then show ?case
  proof cases
    case 1
    then show ?thesis using Suc.prems by (auto simp: at_most_def ends_in_Nil intro!: exI [of _ 0])
  next
    case 2
    have im: "ends_in s L i m" using reads_in [OF f Suc.prems(2) 2(2)] .
    then obtain n where n: "at_most (map_option (\<lambda>m. m - 1) mx) n" "ends_in s (pow_lang L n) m j"
      using Suc.IH [OF 2(3)] by (auto simp: ends_in_def)
    have "at_most mx (Suc n)" using n(1) 2(1) by (cases mx) (auto simp: at_most_def)
    moreover have "ends_in s (pow_lang L (Suc n)) i j" using im n(2) by (auto simp: ends_in_append)
    ultimately show ?thesis by blast
  qed
qed

lemma opts_complete:
  assumes f: "reads s f L"
  shows "ends_in s (pow_lang L n) i j \<Longrightarrow> at_most mx n \<Longrightarrow> i \<le> length s \<Longrightarrow> length s - i \<le> k \<Longrightarrow>
    \<exists>c'. (j, c') \<in> set (opts f g k mx i c)"
proof (induction n arbitrary: i k mx c)
  case 0
  then show ?case by (cases k) (auto simp: ends_in_Nil Let_def)
next
  case (Suc n)
  obtain m where m: "ends_in s L i m" "ends_in s (pow_lang L n) m j"
    using Suc.prems(1) by (auto simp: ends_in_append)
  show ?case
  proof (cases "m = i")
    case True
    then have "ends_in s (pow_lang L n) i j" using m(2) by simp
    moreover have "at_most mx n" using Suc.prems(2) by (auto simp: at_most_def)
    ultimately show ?thesis using Suc.IH Suc.prems(3,4) by blast
  next
    case False
    then have im: "i < m" "m \<le> length s" using m(1) by (auto simp: ends_in_def)
    then obtain k' where k: "k = Suc k'" using Suc.prems(4) by (cases k) auto
    have mx: "mx \<noteq> Some 0" "at_most (map_option (\<lambda>m. m - 1) mx) n"
      using Suc.prems(2) by (auto simp: at_most_def)
    obtain cm where cm: "(m, cm) \<in> set (f i c)" using reads_out [OF f Suc.prems(3) m(1)] by blast
    have "\<exists>c'. (j, c') \<in> set (opts f g k' (map_option (\<lambda>m. m - 1) mx) m cm)"
      using Suc.prems(4) im k by (intro Suc.IH [OF m(2) mx(2)]) auto
    then show ?thesis using k mx(1) cm im unfolding k in_opts_Suc by blast
  qed
qed

lemma reads_opts:
  assumes f: "reads s f L" and i: "i \<le> length s"
  shows "(\<exists>c'. (j, c') \<in> set (opts f g (length s - i) mx i c)) \<longleftrightarrow>
         (\<exists>n. at_most mx n \<and> ends_in s (pow_lang L n) i j)"
  using opts_sound [OF f _ i] opts_complete [OF f _ _ i] by blast

lemma pow_lang_add: "pow_lang L (m + n) = {x @ y | x y. x \<in> pow_lang L m \<and> y \<in> pow_lang L n}"
proof (induction m)
  case 0
  then show ?case by simp
next
  case (Suc m)
  have "pow_lang L (Suc m + n) = {x @ y @ z | x y z. x \<in> L \<and> y \<in> pow_lang L m \<and> z \<in> pow_lang L n}"
    using Suc by auto
  also have "\<dots> = {x @ z | x z. x \<in> pow_lang L (Suc m) \<and> z \<in> pow_lang L n}"
    by (simp, safe) (metis append_assoc)+
  finally show ?case .
qed

lemma ends_in_UN: "ends_in s (\<Union>n\<in>N. F n) i j \<longleftrightarrow> (\<exists>n\<in>N. ends_in s (F n) i j)"
  by (auto simp: ends_in_def)

lemma reads_rep:
  assumes f: "reads s (ms u s a) L" and mx: "case mx of None \<Rightarrow> True | Some m \<Rightarrow> mn \<le> m"
  shows "reads s (ms u s (Rep g a mn mx)) (\<Union>n\<in>{n. mn \<le> n \<and> (\<forall>m. mx = Some m \<longrightarrow> n \<le> m)}. pow_lang L n)"
    (is "reads s _ ?L")
proof -
  let ?mx = "map_option (\<lambda>m. m - mn) mx"
  let ?o = "\<lambda>i. opts (ms u s a) g (length s - i) ?mx i"
  have rep: "ms u s (Rep g a mn mx) = andthen (must (ms u s a) mn) ?o"
    by (rule ext)+ (simp add: andthen_def)
  have o: "reads s ?o (\<Union>n\<in>{n. at_most ?mx n}. pow_lang L n)"
    unfolding reads_def ends_in_UN using reads_opts [OF f] by blast
  have ex: "(\<exists>n. at_most ?mx n \<and> P (mn + n)) \<longleftrightarrow> (\<exists>n. (mn \<le> n \<and> (\<forall>m. mx = Some m \<longrightarrow> n \<le> m)) \<and> P n)" for P
  proof
    assume "\<exists>n. at_most ?mx n \<and> P (mn + n)"
    then obtain n where "at_most ?mx n" "P (mn + n)" by blast
    then show "\<exists>n. (mn \<le> n \<and> (\<forall>m. mx = Some m \<longrightarrow> n \<le> m)) \<and> P n"
      using mx by (intro exI [of _ "mn + n"]) (auto simp: at_most_def split: option.splits)
  next
    assume "\<exists>n. (mn \<le> n \<and> (\<forall>m. mx = Some m \<longrightarrow> n \<le> m)) \<and> P n"
    then obtain n where "mn \<le> n" "\<forall>m. mx = Some m \<longrightarrow> n \<le> m" "P n" by blast
    then show "\<exists>n. at_most ?mx n \<and> P (mn + n)"
      by (intro exI [of _ "n - mn"]) (auto simp: at_most_def)
  qed
  have "{x @ y | x y. x \<in> pow_lang L mn \<and> y \<in> (\<Union>n\<in>{n. at_most ?mx n}. pow_lang L n)} =
        {w. \<exists>n. at_most ?mx n \<and> w \<in> pow_lang L (mn + n)}"
    unfolding pow_lang_add by blast
  also have "\<dots> = ?L"
  proof (rule set_eqI)
    fix w
    show "w \<in> {w. \<exists>n. at_most ?mx n \<and> w \<in> pow_lang L (mn + n)} \<longleftrightarrow> w \<in> ?L"
      using ex [of "\<lambda>n. w \<in> pow_lang L n"] by simp
  qed
  finally have eq: "{x @ y | x y. x \<in> pow_lang L mn \<and> y \<in> (\<Union>n\<in>{n. at_most ?mx n}. pow_lang L n)} = ?L" .
  from reads_andthen [OF reads_must [OF f, of mn] o] show ?thesis unfolding rep eq .
qed

lemma slice_single: "slice s i j = [c] \<Longrightarrow> i \<le> j \<Longrightarrow> j \<le> length s \<Longrightarrow> i < length s \<and> j = Suc i \<and> s ! i = c"
proof -
  assume *: "slice s i j = [c]" "i \<le> j" "j \<le> length s"
  then have j: "j = Suc i" using length_slice [of s i j] by simp
  then show ?thesis using * nth_slice [of 0 j i s] by simp
qed

lemma slice_Suc: "i < length s \<Longrightarrow> slice s i (Suc i) = [s ! i]"
  by (simp add: slice_def take_Suc_conv_app_nth hd_drop_conv_nth take_Suc)

lemma ms_lang: "local_re r \<Longrightarrow> reads s (ms u s r) (lang u r)"
proof (induction r)
  case Eps
  then show ?case by (auto simp: reads_def ends_in_Nil)
next
  case (Cls ci neg its)
  have "ends_in s {[c] | c. P c} i j \<longleftrightarrow> i < length s \<and> P (s ! i) \<and> j = Suc i" for P i j
    by (auto simp: ends_in_def slice_Suc dest!: slice_single)
  then show ?case by (auto simp: reads_def)
next
  case (Seq a b)
  then have a: "reads s (ms u s a) (lang u a)" and b: "reads s (ms u s b) (lang u b)" by simp_all
  have "ms u s (Seq a b) = andthen (ms u s a) (ms u s b)" by (rule ext)+ (simp add: andthen_def)
  then show ?case using reads_andthen [OF a b] by simp
next
  case (Alt a b)
  then have a: "reads s (ms u s a) (lang u a)" and b: "reads s (ms u s b) (lang u b)" by simp_all
  have "ends_in s (lang u a \<union> lang u b) i j \<longleftrightarrow> ends_in s (lang u a) i j \<or> ends_in s (lang u b) i j" for i j
    by (auto simp: ends_in_def)
  then show ?case using a b unfolding reads_def by (auto simp: ex_disj_distrib)
next
  case (Rep g a mn mx)
  then show ?case using reads_rep [of s u a "lang u a"] by simp
next
  case (Grp n a)
  have "(\<exists>c'. (j, c') \<in> set (ms u s (Grp n a) i c)) \<longleftrightarrow> (\<exists>c'. (j, c') \<in> set (ms u s a i c))" for i j c
    by force
  then show ?case using Grp unfolding reads_def lang.simps local_re.simps by blast
qed simp_all

section \<open>Scanning\<close>

text \<open>Runs of one character class.\<close>

lemma pow_lang_class: "pow_lang {[c] | c. P c} n = {w. length w = n \<and> list_all P w}"
proof (induction n)
  case 0
  then show ?case by auto
next
  case (Suc n)
  show ?case
  proof (rule set_eqI)
    fix w
    show "w \<in> pow_lang {[c] | c. P c} (Suc n) \<longleftrightarrow> w \<in> {w. length w = Suc n \<and> list_all P w}"
      by (cases w) (auto simp: Suc, metis append_Cons append_Nil)
  qed
qed

lemma lang_Rep_class:
  "lang u (Rep g (Cls ci neg its) mn mx) =
     {w. mn \<le> length w \<and> (\<forall>m. mx = Some m \<longrightarrow> length w \<le> m) \<and> list_all (cls_in u ci neg its) w}"
  unfolding lang.simps pow_lang_class by blast

lemma lang_Chr [simp]: "lang u (Chr ch) = {[of_char ch]}"
  by (auto simp: Chr_def cls_in_def)

text \<open>A match of a local pattern, first as an occurrence of its language.\<close>

abbreviation occurs :: "ucd \<Rightarrow> re \<Rightarrow> pystr \<Rightarrow> nat \<Rightarrow> nat \<Rightarrow> bool" where
  "occurs u r s \<equiv> ends_in s (lang u r)"

definition never_empty :: "ucd \<Rightarrow> re \<Rightarrow> bool" where
  "never_empty u r \<longleftrightarrow> local_re r \<and> [] \<notin> lang u r"

lemma occurs_advances: "never_empty u r \<Longrightarrow> occurs u r s i j \<Longrightarrow> i < j"
  by (cases "i = j") (auto simp: never_empty_def ends_in_def)

lemma ms_occurs: "never_empty u r \<Longrightarrow> i \<le> length s \<Longrightarrow> (j, c) \<in> set (ms u s r i []) \<Longrightarrow> occurs u r s i j"
  using ms_lang [of r s u] unfolding never_empty_def by (blast dest: reads_in)

lemma match_at_None:
  assumes "never_empty u r" "i \<le> length s"
  shows "match_at u r s i adv = None \<longleftrightarrow> (\<forall>j. \<not> occurs u r s i j)"
proof -
  have keep: "filter (\<lambda>(j, _). adv \<longrightarrow> j \<noteq> i) (ms u s r i []) = ms u s r i []"
    using assms by (intro filter_True) (auto dest: ms_occurs occurs_advances)
  have "ms u s r i [] = [] \<longleftrightarrow> (\<forall>j. \<not> occurs u r s i j)"
    using ms_lang [of r s u] assms unfolding never_empty_def reads_def
    by (metis empty_iff empty_set list.set_intros(1) neq_Nil_conv old.prod.exhaust)
  then show ?thesis by (auto simp: match_at_def keep split: list.splits)
qed

lemma match_at_Some:
  assumes "never_empty u r" "i \<le> length s" "match_at u r s i adv = Some m"
  shows "m_start m = i \<and> occurs u r s i (m_end m) \<and> snd m \<in> set (ms u s r i [])"
proof -
  obtain j c rest where f: "filter (\<lambda>(j, _). adv \<longrightarrow> j \<noteq> i) (ms u s r i []) = (j, c) # rest" and m: "m = (i, j, c)"
    using assms(3) unfolding match_at_def by (auto split: list.splits)
  have "(j, c) \<in> set (filter (\<lambda>(j, _). adv \<longrightarrow> j \<noteq> i) (ms u s r i []))" unfolding f by simp
  then have in_ms: "(j, c) \<in> set (ms u s r i [])" by simp
  then show ?thesis
    using ms_occurs [OF assms(1,2) in_ms] by (simp add: m m_start_def m_end_def)
qed

lemma search_from_None:
  assumes "never_empty u r"
  shows "n + i = Suc (length s) \<Longrightarrow> search_from u r s n i adv = None \<Longrightarrow> i \<le> a \<Longrightarrow> \<not> occurs u r s a b"
proof (induction n arbitrary: i adv)
  case 0
  then show ?case by (auto simp: ends_in_def)
next
  case (Suc n)
  have "match_at u r s i adv = None" "search_from u r s n (Suc i) False = None"
    using Suc.prems(2) by (auto split: option.splits)
  then show ?case
    using Suc.IH [of "Suc i" False] Suc.prems match_at_None [OF assms, of i s adv] by (cases "a = i") auto
qed

lemma search_from_Some:
  assumes "never_empty u r"
  shows "n + i = Suc (length s) \<Longrightarrow> search_from u r s n i adv = Some m \<Longrightarrow>
    i \<le> m_start m \<and> occurs u r s (m_start m) (m_end m) \<and> snd m \<in> set (ms u s r (m_start m) []) \<and>
    (\<forall>a b. i \<le> a \<and> a < m_start m \<longrightarrow> \<not> occurs u r s a b)"
proof (induction n arbitrary: i adv)
  case (Suc n)
  show ?case
  proof (cases "match_at u r s i adv")
    case None
    then have "search_from u r s n (Suc i) False = Some m" using Suc.prems(2) by simp
    then have "Suc i \<le> m_start m \<and> occurs u r s (m_start m) (m_end m) \<and> snd m \<in> set (ms u s r (m_start m) []) \<and>
        (\<forall>a b. Suc i \<le> a \<and> a < m_start m \<longrightarrow> \<not> occurs u r s a b)"
      using Suc.prems(1) by (intro Suc.IH [of "Suc i" False]) simp_all
    moreover have "\<forall>b. \<not> occurs u r s i b" using None Suc.prems(1) match_at_None [OF assms, of i s adv] by simp
    ultimately show ?thesis by (metis Suc_leD Suc_leI le_neq_implies_less)
  next
    case (Some m')
    then show ?thesis using Suc.prems match_at_Some [OF assms _ Some] by auto
  qed
qed simp

text \<open>
  For a pattern whose occurrences in a text never overlap, \<open>finditer\<close> finds exactly the
  occurrences, in order.
\<close>

definition no_overlaps :: "ucd \<Rightarrow> re \<Rightarrow> pystr \<Rightarrow> bool" where
  "no_overlaps u r s \<longleftrightarrow>
     (\<forall>a b a' b'. occurs u r s a b \<longrightarrow> occurs u r s a' b' \<longrightarrow> a = a' \<and> b = b' \<or> b \<le> a' \<or> b' \<le> a)"

definition found :: "rmatch \<Rightarrow> nat \<times> nat" where "found m = (m_start m, m_end m)"

lemma find_from_spec:
  assumes ne: "never_empty u r" and no: "no_overlaps u r s"
  shows "i \<le> length s \<Longrightarrow> length s - i < n \<Longrightarrow>
    found ` set (find_from n u r s i adv) = {(a, b). i \<le> a \<and> occurs u r s a b} \<and>
    sorted_wrt (\<lambda>x y. m_end x \<le> m_start y) (find_from n u r s i adv) \<and>
    (\<forall>m\<in>set (find_from n u r s i adv). snd m \<in> set (ms u s r (m_start m) []))"
proof (induction n arbitrary: i adv)
  case (Suc n)
  show ?case
  proof (cases "search_from u r s (Suc (length s) - i) i adv")
    case None
    then have "\<not> occurs u r s a b" if "i \<le> a" for a b
      using search_from_None [OF ne _ None that] Suc.prems(1) by simp
    then show ?thesis using None by auto
  next
    case (Some m)
    have m: "i \<le> m_start m" "occurs u r s (m_start m) (m_end m)" "snd m \<in> set (ms u s r (m_start m) [])"
      "\<And>a b. i \<le> a \<Longrightarrow> a < m_start m \<Longrightarrow> \<not> occurs u r s a b"
      using search_from_Some [OF ne _ Some] Suc.prems(1) by auto
    have lt: "m_start m < m_end m" "m_end m \<le> length s"
      using occurs_advances [OF ne m(2)] m(2) by (auto simp: ends_in_def)
    let ?rest = "find_from n u r s (m_end m) False"
    have rest: "found ` set ?rest = {(a, b). m_end m \<le> a \<and> occurs u r s a b}"
      "sorted_wrt (\<lambda>x y. m_end x \<le> m_start y) ?rest"
      "\<forall>m\<in>set ?rest. snd m \<in> set (ms u s r (m_start m) [])"
      using Suc.IH [of "m_end m" False] lt m(1) Suc.prems by auto
    have ff: "find_from (Suc n) u r s i adv = m # ?rest" using Some lt by simp
    have new: "{(a, b). i \<le> a \<and> occurs u r s a b} = insert (found m) {(a, b). m_end m \<le> a \<and> occurs u r s a b}"
    proof (intro equalityI subsetI)
      fix x assume "x \<in> {(a, b). i \<le> a \<and> occurs u r s a b}"
      then obtain a b where x: "x = (a, b)" "i \<le> a" "occurs u r s a b" by auto
      have "m_start m \<le> a" using m(4) [OF x(2)] x(3) by (meson not_le)
      moreover have "a < b" using occurs_advances [OF ne x(3)] .
      moreover have "a = m_start m \<and> b = m_end m \<or> b \<le> m_start m \<or> m_end m \<le> a"
        using no m(2) x(3) unfolding no_overlaps_def by blast
      ultimately show "x \<in> insert (found m) {(a, b). m_end m \<le> a \<and> occurs u r s a b}"
        using x by (auto simp: found_def)
    next
      fix x assume "x \<in> insert (found m) {(a, b). m_end m \<le> a \<and> occurs u r s a b}"
      then show "x \<in> {(a, b). i \<le> a \<and> occurs u r s a b}"
        using m(1,2) lt by (auto simp: found_def simp del: lang.simps)
    qed
    have later: "\<forall>y\<in>set ?rest. m_end m \<le> m_start y"
    proof
      fix y assume "y \<in> set ?rest"
      then have "found y \<in> found ` set ?rest" by (rule imageI)
      then have "found y \<in> {(a, b). m_end m \<le> a \<and> occurs u r s a b}" unfolding rest(1) .
      then show "m_end m \<le> m_start y" by (simp add: found_def)
    qed
    have "found ` set (m # ?rest) = insert (found m) (found ` set ?rest)" by simp
    then have "found ` set (m # ?rest) = {(a, b). i \<le> a \<and> occurs u r s a b}" by (simp only: rest(1) new)
    moreover have "sorted_wrt (\<lambda>x y. m_end x \<le> m_start y) (m # ?rest)" using later rest(2) by simp
    moreover have "\<forall>m\<in>set (m # ?rest). snd m \<in> set (ms u s r (m_start m) [])" using rest(3) m(3) by simp
    ultimately show ?thesis unfolding ff by blast
  qed
qed simp

lemma finditer_spec:
  assumes "never_empty u r" "no_overlaps u r s"
  shows "found ` set (finditer u r s) = {(a, b). occurs u r s a b}"
    and "sorted_wrt (\<lambda>x y. m_end x \<le> m_start y) (finditer u r s)"
    and "m \<in> set (finditer u r s) \<Longrightarrow> snd m \<in> set (ms u s r (m_start m) [])"
  using find_from_spec [OF assms, of 0 "2 * length s + 2" False] unfolding finditer_def
  by (simp_all del: find_from.simps)

section \<open>Groups\<close>

primrec no_groups :: "re \<Rightarrow> bool" where
  "no_groups Eps = True"
| "no_groups (Cls ci neg its) = True"
| "no_groups (Seq a b) = (no_groups a \<and> no_groups b)"
| "no_groups (Alt a b) = (no_groups a \<and> no_groups b)"
| "no_groups (Rep g a mn mx) = no_groups a"
| "no_groups (Grp n a) = False"
| "no_groups (Ahead pos a) = no_groups a"
| "no_groups (Behind pos a) = no_groups a"
| "no_groups Bos = True"
| "no_groups Eos = True"
| "no_groups WordB = True"

lemma must_keeps:
  "(\<And>i c j c'. (j, c') \<in> set (f i c) \<Longrightarrow> c' = c) \<Longrightarrow> (j, c') \<in> set (must f n i c) \<Longrightarrow> c' = c"
proof (induction n arbitrary: i c)
  case (Suc n)
  obtain m cm where "(m, cm) \<in> set (f i c)" "(j, c') \<in> set (must f n m cm)" using Suc.prems(2) by auto
  then show ?case using Suc.IH [of m cm] Suc.prems(1) by blast
qed simp

lemma opts_keeps:
  "(\<And>i c j c'. (j, c') \<in> set (f i c) \<Longrightarrow> c' = c) \<Longrightarrow> (j, c') \<in> set (opts f g n mx i c) \<Longrightarrow> c' = c"
proof (induction n arbitrary: i c mx)
  case (Suc n)
  from Suc.prems(2) consider "c' = c"
    | m cm where "(m, cm) \<in> set (f i c)" "(j, c') \<in> set (opts f g n (map_option (\<lambda>m. m - 1) mx) m cm)"
    unfolding in_opts_Suc by blast
  then show ?case
  proof cases
    case 2
    have "cm = c" by (rule Suc.prems(1) [OF 2(1)])
    moreover have "c' = cm" by (rule Suc.IH [OF Suc.prems(1) 2(2)])
    ultimately show ?thesis by simp
  qed
qed simp

lemma ms_no_groups: "no_groups r \<Longrightarrow> (j, c') \<in> set (ms u s r i c) \<Longrightarrow> c' = c"
proof (induction r arbitrary: i j c c')
  case (Seq a b)
  obtain m cm where m: "(m, cm) \<in> set (ms u s a i c)" "(j, c') \<in> set (ms u s b m cm)" using Seq.prems(2) by auto
  have "cm = c" using Seq.prems(1) by (intro Seq.IH(1) [OF _ m(1)]) simp
  moreover have "c' = cm" using Seq.prems(1) by (intro Seq.IH(2) [OF _ m(2)]) simp
  ultimately show ?case by simp
next
  case (Rep g a mn mx)
  have body: "(j, c') \<in> set (ms u s a i c) \<Longrightarrow> c' = c" for i j c c'
    using Rep.prems(1) by (intro Rep.IH) simp_all
  obtain m cm where m: "(m, cm) \<in> set (must (ms u s a) mn i c)"
    "(j, c') \<in> set (opts (ms u s a) g (length s - m) (map_option (\<lambda>m. m - mn) mx) m cm)"
    using Rep.prems(2) by auto
  have "cm = c" by (rule must_keeps [OF body m(1)])
  moreover have "c' = cm" by (rule opts_keeps [OF body m(2)])
  ultimately show ?case by simp
next
  case (Alt a b)
  then show ?case by auto
next
  case (Ahead pos a)
  then show ?case
  proof (cases "ms u s a i c")
    case (Cons x xs)
    then have "x \<in> set (ms u s a i c)" by simp
    then have "snd x = c" using Ahead.IH [of "fst x" "snd x" i c] Ahead.prems(1) by simp
    then show ?thesis using Ahead.prems(2) Cons by (auto split: if_splits prod.splits)
  qed (auto split: if_splits)
qed (auto split: if_splits)

lemma in_ms_Seq: "(j, c') \<in> set (ms u s (Seq a b) i c) \<longleftrightarrow>
    (\<exists>m cm. (m, cm) \<in> set (ms u s a i c) \<and> (j, c') \<in> set (ms u s b m cm))"
  by auto

lemma in_ms_Grp: "(j, c') \<in> set (ms u s (Grp n a) i c) \<longleftrightarrow>
    (\<exists>cm. (j, cm) \<in> set (ms u s a i c) \<and> c' = (n, i, j) # cm)"
  by auto

lemma in_ms_Chr: "(j, c') \<in> set (ms u s (Chr ch) i c) \<longleftrightarrow> i < length s \<and> s ! i = of_char ch \<and> j = Suc i \<and> c' = c"
  by (auto simp: Chr_def cls_in_def)

lemma in_ms_anchor:
  "(j, c') \<in> set (ms u s Bos i c) \<longleftrightarrow> i = 0 \<and> j = i \<and> c' = c"
  "(j, c') \<in> set (ms u s Eos i c) \<longleftrightarrow> (i = length s \<or> Suc i = length s \<and> s ! i = 10) \<and> j = i \<and> c' = c"
  by auto

lemma in_ms_assoc: "(j, c') \<in> set (ms u s (Seq (Seq a b) d) i c) \<longleftrightarrow> (j, c') \<in> set (ms u s (Seq a (Seq b d)) i c)"
  unfolding in_ms_Seq by blast

end
