(* ===== verification/Placeholders.thy ===== *)
theory Placeholders
  imports Regex
begin

text \<open>
  The placeholder grammar (\<open>app/redaction/placeholders.py\<close>): \<open>[[TYPE_hex]]\<close>. \<open>is_ph\<close> is the
  grammar as a predicate on strings; \<open>find_placeholders\<close> and \<open>trailing_partial_len\<close> are the
  code's two routines over the patterns. The pattern mentions ASCII classes only, so the
  Unicode tables do not matter to it.
\<close>

section \<open>The code\<close>

definition upper_cls :: re where "upper_cls = Cls False False [CRange 65 90]"
definition type_cls :: re where "type_cls = Cls False False [CRange 65 90, CRange 48 57, CRange 95 95]"
definition hex_cls :: re where "hex_cls = Cls False False [CRange 48 57, CRange 97 102]"

text \<open>\<open>\[\[([A-Z][A-Z0-9_]*)_([0-9a-f]{4,12})\]\]\<close>\<close>

definition PLACEHOLDER_RE :: re where
  "PLACEHOLDER_RE =
     Seq (Chr CHR ''['') (Seq (Chr CHR ''['') (Seq (Grp (str ''1'') (Seq upper_cls (star type_cls)))
       (Seq (Chr CHR ''_'') (Seq (Grp (str ''2'') (between hex_cls 4 12))
         (Seq (Chr CHR '']'') (Chr CHR '']''))))))"

definition MAX_PLACEHOLDER_LEN :: nat where "MAX_PLACEHOLDER_LEN = 64"

definition make_placeholder :: "pystr \<Rightarrow> pystr \<Rightarrow> pystr" where
  "make_placeholder entity_type token_hex = str ''[['' @ entity_type @ str ''_'' @ token_hex @ str '']]''"

definition find_placeholders :: "ucd \<Rightarrow> pystr \<Rightarrow> (nat \<times> nat \<times> pystr option \<times> pystr option) list" where
  "find_placeholders u text =
     map (\<lambda>m. (m_start m, m_end m, m_group text m (str ''1''), m_group text m (str ''2'')))
         (finditer u PLACEHOLDER_RE text)"

text \<open>\<open>\[(?:\[[A-Z0-9_]*(?:_[0-9a-f]*)?\]?)?$\<close>\<close>

definition partial_body :: re where
  "partial_body =
     Seq (Chr CHR ''['') (Seq (star type_cls) (Seq (opt (Seq (Chr CHR ''_'') (star hex_cls))) (opt (Chr CHR '']''))))"

definition PARTIAL_TAIL_RE :: re where
  "PARTIAL_TAIL_RE = Seq (Seq (Chr CHR ''['') (opt partial_body)) Eos"

definition trailing_partial_len :: "ucd \<Rightarrow> pystr \<Rightarrow> nat" where
  "trailing_partial_len u text =
     (if text = [] then 0
      else case re_search u PARTIAL_TAIL_RE text of
             Some m \<Rightarrow> length text - m_start m
           | None \<Rightarrow> 0)"

section \<open>The grammar\<close>

definition up_char :: "nat \<Rightarrow> bool" where "up_char c \<longleftrightarrow> 65 \<le> c \<and> c \<le> 90"
definition ty_char :: "nat \<Rightarrow> bool" where
  "ty_char c \<longleftrightarrow> up_char c \<or> 48 \<le> c \<and> c \<le> 57 \<or> c = 95"
definition hex_char :: "nat \<Rightarrow> bool" where
  "hex_char c \<longleftrightarrow> 48 \<le> c \<and> c \<le> 57 \<or> 97 \<le> c \<and> c \<le> 102"

definition ph_type :: "pystr \<Rightarrow> bool" where
  "ph_type t \<longleftrightarrow> (case t of [] \<Rightarrow> False | c # cs \<Rightarrow> up_char c \<and> list_all ty_char cs)"

definition ph_hex :: "pystr \<Rightarrow> bool" where
  "ph_hex h \<longleftrightarrow> 4 \<le> length h \<and> length h \<le> 12 \<and> list_all hex_char h"

definition is_ph :: "pystr \<Rightarrow> bool" where
  "is_ph w \<longleftrightarrow> (\<exists>t h. ph_type t \<and> ph_hex h \<and> w = make_placeholder t h)"

lemma cls_in_simps [simp]:
  "cls_in u False False [CRange 65 90] = up_char"
  "cls_in u False False [CRange 65 90, CRange 48 57, CRange 95 95] = ty_char"
  "cls_in u False False [CRange 48 57, CRange 97 102] = hex_char"
  by (auto simp: fun_eq_iff cls_in_def up_char_def ty_char_def hex_char_def)

lemma chr_codes [simp]:
  "of_char CHR ''['' = (91::nat)" "of_char CHR '']'' = (93::nat)" "of_char CHR ''_'' = (95::nat)"
  by simp_all

lemma make_placeholder_codes: "make_placeholder t h = 91 # 91 # t @ 95 # h @ [93, 93]"
  by (simp add: make_placeholder_def str_def)

lemma ph_type_iff: "ph_type t \<longleftrightarrow> (\<exists>c cs. t = c # cs \<and> up_char c \<and> list_all ty_char cs)"
  by (cases t) (auto simp: ph_type_def)

lemma type_hd_lang: "lang u (Seq upper_cls (star type_cls)) = {t. ph_type t}"
proof -
  have "lang u (star type_cls) = {w. list_all ty_char w}"
    unfolding type_cls_def lang_Rep_class by simp
  then have "t \<in> lang u (Seq upper_cls (star type_cls)) \<longleftrightarrow> (\<exists>c cs. t = c # cs \<and> up_char c \<and> list_all ty_char cs)" for t
    unfolding lang.simps(3) by (auto simp: upper_cls_def simp del: lang.simps(5)) (metis append_Cons append_Nil)
  then show ?thesis by (simp add: set_eq_iff ph_type_iff del: lang.simps)
qed

lemma hex_lang: "lang u (between hex_cls 4 12) = {h. ph_hex h}"
  unfolding hex_cls_def lang_Rep_class by (auto simp: ph_hex_def)

lemma placeholder_lang: "lang u PLACEHOLDER_RE = {w. is_ph w}"
proof -
  have "lang u (Seq (Grp (str ''2'') (between hex_cls 4 12)) (Seq (Chr CHR '']'') (Chr CHR '']'')))
      = {h @ [93, 93] | h. ph_hex h}"
    unfolding lang.simps(3,6) hex_lang by auto
  then have "lang u (Seq (Chr CHR ''_'') (Seq (Grp (str ''2'') (between hex_cls 4 12)) (Seq (Chr CHR '']'') (Chr CHR '']''))))
      = {95 # h @ [93, 93] | h. ph_hex h}"
    unfolding lang.simps(3) [of u "Chr CHR ''_''"] by auto
  then have "lang u (Seq (Grp (str ''1'') (Seq upper_cls (star type_cls))) (Seq (Chr CHR ''_'')
        (Seq (Grp (str ''2'') (between hex_cls 4 12)) (Seq (Chr CHR '']'') (Chr CHR '']'')))))
      = {t @ 95 # h @ [93, 93] | t h. ph_type t \<and> ph_hex h}"
    unfolding lang.simps(3) [of u "Grp _ _"] lang.simps(6) type_hd_lang by blast
  then show ?thesis
    unfolding PLACEHOLDER_RE_def lang.simps(3) [of u "Chr CHR ''[''"] by (auto simp: is_ph_def make_placeholder_codes)
qed

lemma placeholder_local: "local_re PLACEHOLDER_RE"
  by (simp add: PLACEHOLDER_RE_def Chr_def upper_cls_def type_cls_def hex_cls_def)

lemma placeholder_never_empty: "never_empty u PLACEHOLDER_RE"
  by (simp add: never_empty_def placeholder_local placeholder_lang is_ph_def make_placeholder_codes)

text \<open>The characters between the brackets are no brackets.\<close>

lemma ty_char_not: "ty_char c \<Longrightarrow> c \<noteq> 91 \<and> c \<noteq> 93" and hex_char_not: "hex_char c \<Longrightarrow> c \<noteq> 91 \<and> c \<noteq> 93 \<and> c \<noteq> 95"
  and up_ty_char: "up_char c \<Longrightarrow> ty_char c"
  by (auto simp: ty_char_def up_char_def hex_char_def)

definition ph_body :: "pystr \<Rightarrow> bool" where
  "ph_body b \<longleftrightarrow> b \<noteq> [] \<and> up_char (hd b) \<and> 91 \<notin> set b \<and> 93 \<notin> set b"

lemma is_ph_shape: "is_ph w \<Longrightarrow> \<exists>b. ph_body b \<and> w = 91 # 91 # b @ [93, 93]"
proof -
  assume "is_ph w"
  then obtain t h where th: "ph_type t" "ph_hex h" "w = 91 # 91 # (t @ 95 # h) @ [93, 93]"
    by (auto simp: is_ph_def make_placeholder_codes)
  have "ph_body (t @ 95 # h)"
    using th(1,2) by (auto simp: ph_body_def ph_type_def ph_hex_def list_all_iff dest: ty_char_not hex_char_not up_ty_char
        split: list.splits)
  then show ?thesis using th(3) by blast
qed

lemma is_ph_prefix_unique:
  assumes "is_ph v" "is_ph w" "v @ x = w @ y"
  shows "v = w"
proof -
  obtain b c where b: "ph_body b" "v = 91 # 91 # b @ [93, 93]" and c: "ph_body c" "w = 91 # 91 # c @ [93, 93]"
    using assms(1,2) is_ph_shape by blast
  have eq: "b @ 93 # (93 # x) = c @ 93 # (93 # y)" using assms(3) b(2) c(2) by simp
  have "takeWhile (\<lambda>a. a \<noteq> 93) (b @ 93 # z) = b" "takeWhile (\<lambda>a. a \<noteq> 93) (c @ 93 # z) = c" for z
    using b(1) c(1) by (auto simp: ph_body_def takeWhile_tail intro!: takeWhile_tail [THEN trans] takeWhile_eq_all_conv [THEN iffD2])
  then have "b = c" using eq by metis
  then show ?thesis using b c by simp
qed

text \<open>Two occurrences of a placeholder in a text are equal or disjoint.\<close>

lemma slice_eq_nth: "slice s i j = w \<Longrightarrow> i \<le> j \<Longrightarrow> j \<le> length s \<Longrightarrow> k < length w \<Longrightarrow> s ! (i + k) = w ! k"
  by (metis length_slice min.absorb1 nth_slice)

lemma placeholder_occurs: "occurs u PLACEHOLDER_RE s i j \<longleftrightarrow> i \<le> j \<and> j \<le> length s \<and> is_ph (slice s i j)"
  by (simp add: ends_in_def placeholder_lang)

lemma occurs_chars:
  assumes "occurs u PLACEHOLDER_RE s i j"
  shows "s ! i = 91" "s ! (i + 1) = 91" "up_char (s ! (i + 2))" "\<And>k. i + 2 \<le> k \<Longrightarrow> k < j \<Longrightarrow> s ! k \<noteq> 91"
    "i + 5 \<le> j"
proof -
  have *: "i \<le> j" "j \<le> length s" "is_ph (slice s i j)" using assms by (auto simp: placeholder_occurs)
  then obtain b where b: "ph_body b" "slice s i j = 91 # 91 # b @ [93, 93]" using is_ph_shape by blast
  have len: "length b + 4 = j - i"
    using b(2) *(1,2) length_slice [of s i j] by simp
  have at: "k < length b + 4 \<Longrightarrow> s ! (i + k) = (91 # 91 # b @ [93, 93]) ! k" for k
    using slice_eq_nth [OF b(2) *(1,2), of k] by simp
  have bne: "b \<noteq> []" using b(1) by (simp add: ph_body_def)
  show "s ! i = 91" "s ! (i + 1) = 91" using at [of 0] at [of 1] by simp_all
  show "up_char (s ! (i + 2))"
    using at [of 2] b(1) by (cases b) (simp_all add: ph_body_def)
  show "i + 5 \<le> j" using len bne *(1) by (cases b) auto
  show "s ! k \<noteq> 91" if k: "i + 2 \<le> k" "k < j" for k
  proof -
    have "s ! (i + (k - i)) = (b @ [93, 93]) ! (k - i - 2)"
      using at [of "k - i"] k len by (cases "k - i") (auto simp: nth_Cons' split: if_splits)
    moreover have "(b @ [93, 93]) ! (k - i - 2) \<in> set (b @ [93, 93])" using k len by (intro nth_mem) simp
    ultimately show ?thesis using b(1) k(1) by (auto simp: ph_body_def)
  qed
qed

lemma placeholder_no_overlaps: "no_overlaps u PLACEHOLDER_RE s"
proof -
  have same: "b = b'" if "occurs u PLACEHOLDER_RE s a b" "occurs u PLACEHOLDER_RE s a b'" for a b b'
  proof -
    have o: "a \<le> b" "b \<le> length s" "is_ph (slice s a b)" "a \<le> b'" "b' \<le> length s" "is_ph (slice s a b')"
      using that by (auto simp: placeholder_occurs)
    have "slice s a b @ drop b s = drop a s" "slice s a b' @ drop b' s = drop a s"
      using o take_slice_drop [of a b s] take_slice_drop [of a b' s] append_take_drop_id [of a s]
      by (metis append_same_eq same_append_eq)+
    then have "slice s a b = slice s a b'" using is_ph_prefix_unique o(3,6) by metis
    then have "b - a = b' - a" using o length_slice [of s a b] length_slice [of s a b'] by (simp add: min_def)
    then show ?thesis using o by simp
  qed
  have apart: "b \<le> a'" if o: "occurs u PLACEHOLDER_RE s a b" "occurs u PLACEHOLDER_RE s a' b'" and lt: "a < a'" for a b a' b'
  proof (rule ccontr)
    assume "\<not> b \<le> a'"
    then have "\<not> a + 2 \<le> a'" using occurs_chars(4) [OF o(1), of a'] occurs_chars(1) [OF o(2)] by auto
    then have "a' = a + 1" using lt by simp
    then have "s ! (a + 2) = 91" using occurs_chars(2) [OF o(2)] by (simp add: numeral_2_eq_2)
    then show False using occurs_chars(3) [OF o(1)] by (simp add: up_char_def)
  qed
  show ?thesis
    unfolding no_overlaps_def
  proof (intro allI impI)
    fix a b a' b' assume o: "occurs u PLACEHOLDER_RE s a b" "occurs u PLACEHOLDER_RE s a' b'"
    show "a = a' \<and> b = b' \<or> b \<le> a' \<or> b' \<le> a"
      using same o apart [OF o] apart [OF o(2,1)] by (cases a a' rule: linorder_cases) auto
  qed
qed

section \<open>Groups\<close>

lemma local_parts:
  "local_re (Seq upper_cls (star type_cls))" "local_re (between hex_cls 4 12)"
  "no_groups (Seq upper_cls (star type_cls))" "no_groups (between hex_cls 4 12)"
  by (simp_all add: upper_cls_def type_cls_def hex_cls_def)

lemma in_ms_part:
  assumes "local_re r" "no_groups r" "lang u r = {w. P w}" "i \<le> length s" "(j, c') \<in> set (ms u s r i c)"
  shows "c' = c \<and> i \<le> j \<and> j \<le> length s \<and> P (slice s i j)"
  using ms_no_groups [OF assms(2,5)] reads_in [OF ms_lang [OF assms(1), of s u] assms(4,5)]
  by (simp add: assms(3) ends_in_def)

lemma placeholder_groups:
  assumes "i \<le> length s" "(j, c) \<in> set (ms u s PLACEHOLDER_RE i [])"
  shows "\<exists>p q. c = [(str ''2'', Suc p, q), (str ''1'', i + 2, p)] \<and> j = q + 2 \<and> j \<le> length s \<and>
    ph_type (slice s (i + 2) p) \<and> ph_hex (slice s (Suc p) q) \<and>
    slice s i j = make_placeholder (slice s (i + 2) p) (slice s (Suc p) q)"
proof -
  obtain p q c1 c2 where o: "i < length s" "s ! i = 91" "Suc i < length s" "s ! Suc i = 91"
    "(p, c1) \<in> set (ms u s (Seq upper_cls (star type_cls)) (Suc (Suc i)) [])"
    "p < length s" "s ! p = 95"
    "(q, c2) \<in> set (ms u s (between hex_cls 4 12) (Suc p) ((str ''1'', Suc (Suc i), p) # c1))"
    "q < length s" "s ! q = 93" "Suc q < length s" "s ! Suc q = 93"
    "j = Suc (Suc q)" "c = (str ''2'', Suc p, q) # c2"
    using assms(2) unfolding PLACEHOLDER_RE_def in_ms_Seq in_ms_Grp in_ms_Chr chr_codes by blast
  have t: "c1 = [] \<and> Suc (Suc i) \<le> p \<and> p \<le> length s \<and> ph_type (slice s (Suc (Suc i)) p)"
    using in_ms_part [OF local_parts(1,3) type_hd_lang _ o(5)] o(3) by simp
  have h: "c2 = (str ''1'', Suc (Suc i), p) # c1 \<and> Suc p \<le> q \<and> q \<le> length s \<and> ph_hex (slice s (Suc p) q)"
    using in_ms_part [OF local_parts(2,4) hex_lang _ o(8)] o(6) by simp
  have "slice s i j = slice s i (Suc i) @ slice s (Suc i) (Suc (Suc i)) @ slice s (Suc (Suc i)) p @ slice s p (Suc p)
      @ slice s (Suc p) q @ slice s q (Suc q) @ slice s (Suc q) (Suc (Suc q))"
    using t h o(13) by (simp add: slice_slice_append)
  also have "\<dots> = make_placeholder (slice s (Suc (Suc i)) p) (slice s (Suc p) q)"
    using o by (simp add: slice_Suc make_placeholder_codes)
  finally show ?thesis using o t h by (intro exI [of _ p] exI [of _ q]) (simp add: numeral_2_eq_2)
qed

lemma make_placeholder_inj:
  assumes "ph_hex h" "ph_hex h'" "make_placeholder t h = make_placeholder t' h'"
  shows "t = t' \<and> h = h'"
proof -
  have eq: "rev h @ 95 # rev t = rev h' @ 95 # rev t'"
    using assms(3) by (simp add: make_placeholder_codes) (metis append.assoc append_Cons append_Nil rev.simps(2) rev_append)
  have "takeWhile (\<lambda>a. a \<noteq> 95) (rev x @ 95 # z) = rev x" if "ph_hex x" for x z
    using that by (subst takeWhile_append2) (auto simp: ph_hex_def list_all_iff dest: hex_char_not)
  then have "rev h = rev h'" using assms(1,2) eq by metis
  then show ?thesis using eq by simp
qed

lemma find_placeholders_set:
  "set (find_placeholders u text) =
     {(i, j, Some t, Some h) | i j t h. i \<le> j \<and> j \<le> length text \<and> ph_type t \<and> ph_hex h \<and>
        slice text i j = make_placeholder t h}"
    (is "?F = ?R")
proof (intro equalityI subsetI)
  fix x assume "x \<in> ?F"
  then obtain m where m: "m \<in> set (finditer u PLACEHOLDER_RE text)"
    "x = (m_start m, m_end m, m_group text m (str ''1''), m_group text m (str ''2''))"
    by (auto simp: find_placeholders_def)
  obtain i j c where mm: "m = (i, j, c)" by (cases m) auto
  have occ: "occurs u PLACEHOLDER_RE text i j"
    using imageI [OF m(1), where f = found] finditer_spec(1) [OF placeholder_never_empty placeholder_no_overlaps, of u "text"]
    by (auto simp: mm found_def m_start_def m_end_def simp del: lang.simps)
  have "(j, c) \<in> set (ms u text PLACEHOLDER_RE i [])"
    using finditer_spec(3) [OF placeholder_never_empty placeholder_no_overlaps m(1)]
    by (simp add: mm m_start_def)
  moreover have "i \<le> length text" using occ by (simp add: ends_in_def)
  ultimately obtain p q where g: "c = [(str ''2'', Suc p, q), (str ''1'', i + 2, p)]"
    "ph_type (slice text (i + 2) p)" "ph_hex (slice text (Suc p) q)"
    "slice text i j = make_placeholder (slice text (i + 2) p) (slice text (Suc p) q)"
    using placeholder_groups by blast
  then show "x \<in> ?R"
    using m(2) occ by (auto simp: mm m_group_def m_span_def m_start_def m_end_def ends_in_def)
next
  fix x assume "x \<in> ?R"
  then obtain i j t h where x: "x = (i, j, Some t, Some h)" "i \<le> j" "j \<le> length text" "ph_type t" "ph_hex h"
    "slice text i j = make_placeholder t h" by blast
  have "(i, j) \<in> found ` set (finditer u PLACEHOLDER_RE text)"
    unfolding finditer_spec(1) [OF placeholder_never_empty placeholder_no_overlaps]
    using x by (auto simp: placeholder_occurs is_ph_def)
  then obtain c where m: "(i, j, c) \<in> set (finditer u PLACEHOLDER_RE text)"
    by (auto simp: found_def m_start_def m_end_def)
  have "(j, c) \<in> set (ms u text PLACEHOLDER_RE i [])"
    using finditer_spec(3) [OF placeholder_never_empty placeholder_no_overlaps m] by (simp add: m_start_def)
  then obtain p q where g: "c = [(str ''2'', Suc p, q), (str ''1'', i + 2, p)]"
    "ph_hex (slice text (Suc p) q)"
    "slice text i j = make_placeholder (slice text (i + 2) p) (slice text (Suc p) q)"
    using placeholder_groups [of i "text" j c u] x(2,3) by auto
  have "t = slice text (i + 2) p \<and> h = slice text (Suc p) q"
    by (rule make_placeholder_inj [OF x(5) g(2)]) (use x(6) g(3) in simp)
  then show "x \<in> ?F"
    using m x(1) g(1) unfolding find_placeholders_def
    by (auto simp: m_group_def m_span_def m_start_def m_end_def intro!: bexI [of _ "(i, j, c)"] image_eqI [of _ _ "(i, j, c)"])
qed

section \<open>Replacing every placeholder\<close>

text \<open>
  \<open>ph_len s\<close> is the length of the placeholder \<open>s\<close> begins with, and \<open>swap f s\<close> replaces every
  placeholder \<open>w\<close> of \<open>s\<close> by \<open>f w\<close>: the reference definition of what the code does with
  \<open>finditer\<close> or \<open>sub\<close>.
\<close>

definition ph_len :: "pystr \<Rightarrow> nat option" where
  "ph_len s = map_option m_end (match_at ascii_ucd PLACEHOLDER_RE s 0 False)"

function swap :: "(pystr \<Rightarrow> pystr) \<Rightarrow> pystr \<Rightarrow> pystr" where
  "swap f [] = []"
| "swap f (c # s) =
     (case ph_len (c # s) of
        None \<Rightarrow> c # swap f s
      | Some n \<Rightarrow> f (take n (c # s)) @ swap f (drop (n - 1) s))"
  by pat_completeness auto
termination by (relation "measure (\<lambda>(f, s). length s)") auto

lemma ph_len_Some: "ph_len s = Some n \<longleftrightarrow> n \<le> length s \<and> is_ph (take n s)"
proof -
  have occ: "occurs ascii_ucd PLACEHOLDER_RE s 0 j \<longleftrightarrow> j \<le> length s \<and> is_ph (take j s)" for j
    by (simp add: placeholder_occurs slice_def)
  have "n = j" if "occurs ascii_ucd PLACEHOLDER_RE s 0 n" "occurs ascii_ucd PLACEHOLDER_RE s 0 j" for j
    using placeholder_no_overlaps [of ascii_ucd s] that occurs_advances [OF placeholder_never_empty that(1)]
      occurs_advances [OF placeholder_never_empty that(2)] unfolding no_overlaps_def by fastforce
  then show ?thesis
    using match_at_None [OF placeholder_never_empty, of 0 s ascii_ucd False]
      match_at_Some [OF placeholder_never_empty, of 0 s ascii_ucd False] occ
    unfolding ph_len_def by (cases "match_at ascii_ucd PLACEHOLDER_RE s 0 False") auto
qed

lemma ph_len_None: "ph_len s = None \<longleftrightarrow> (\<forall>n\<le>length s. \<not> is_ph (take n s))"
  using ph_len_Some [of s] by (metis not_None_eq)

lemma is_ph_ne: "is_ph w \<Longrightarrow> w \<noteq> []"
  using is_ph_shape by blast

lemma ph_len_prefix: "is_ph w \<Longrightarrow> ph_len (w @ s) = Some (length w)"
  by (simp add: ph_len_Some)

lemma swap_ph: "is_ph w \<Longrightarrow> swap f (w @ s) = f w @ swap f s"
proof -
  assume w: "is_ph w"
  then obtain c v where cv: "w = c # v" using is_ph_ne by (cases w) auto
  have len: "ph_len (c # v @ s) = Some (Suc (length v))" using ph_len_prefix [OF w, of s] cv by simp
  show ?thesis unfolding cv append_Cons swap.simps(2) len by simp
qed

lemma swap_skip: "ph_len (c # s) = None \<Longrightarrow> swap f (c # s) = c # swap f s"
  by simp

declare swap.simps(2) [simp del]

text \<open>No placeholder of \<open>a @ b\<close> lies across the border.\<close>

definition no_straddle :: "pystr \<Rightarrow> pystr \<Rightarrow> bool" where
  "no_straddle a b \<longleftrightarrow> (\<forall>p x y q. a = p @ x \<longrightarrow> b = y @ q \<longrightarrow> x \<noteq> [] \<longrightarrow> y \<noteq> [] \<longrightarrow> \<not> is_ph (x @ y))"

lemma no_straddleD: "no_straddle (p @ x) (y @ q) \<Longrightarrow> is_ph (x @ y) \<Longrightarrow> x = [] \<or> y = []"
  unfolding no_straddle_def by blast

lemma no_straddle_drop: "no_straddle (v @ a) b \<Longrightarrow> no_straddle a b"
  unfolding no_straddle_def by (metis append.assoc)

lemma swap_append: "no_straddle a b \<Longrightarrow> swap f (a @ b) = swap f a @ swap f b"
proof (induction "length a" arbitrary: a rule: less_induct)
  case less
  show ?case
  proof (cases a)
    case Nil
    then show ?thesis by simp
  next
    case (Cons c a')
    show ?thesis
    proof (cases "ph_len (a @ b)")
      case None
      have "ph_len a = None"
      proof (rule ccontr)
        assume "ph_len a \<noteq> None"
        then obtain n where "n \<le> length a" "is_ph (take n a)" by (auto simp: ph_len_Some)
        then show False using None by (auto simp: ph_len_None dest!: spec [of _ n])
      qed
      moreover have "swap f (a' @ b) = swap f a' @ swap f b"
        using less.prems no_straddle_drop [of "[c]" a' b] Cons by (intro less.hyps) auto
      ultimately show ?thesis using None Cons by (simp add: swap_skip)
    next
      case (Some n)
      then have n: "n \<le> length (a @ b)" "is_ph (take n (a @ b))" by (auto simp: ph_len_Some)
      let ?w = "take n (a @ b)"
      have le: "n \<le> length a"
      proof (rule ccontr)
        assume "\<not> n \<le> length a"
        then have w: "?w = a @ take (n - length a) b" and ne: "take (n - length a) b \<noteq> []"
          using n(1) by auto
        have "no_straddle ([] @ a) (take (n - length a) b @ drop (n - length a) b)" using less.prems by simp
        from no_straddleD [OF this] show False using n(2) w ne Cons by simp
      qed
      then have w: "?w = take n a" "a = ?w @ drop n a" by simp_all
      have pos: "0 < n" using is_ph_ne [OF n(2)] by (cases n) auto
      have "swap f (drop n a @ b) = swap f (drop n a) @ swap f b"
        using less.prems no_straddle_drop [of ?w "drop n a" b] w pos Cons by (intro less.hyps) auto
      moreover have "swap f (a @ b) = f ?w @ swap f (drop n a @ b)"
        using swap_ph [OF n(2), of f "drop n a @ b"] w by (metis append.assoc)
      moreover have "swap f a = f ?w @ swap f (drop n a)"
        using swap_ph [OF n(2), of f "drop n a"] w by simp
      ultimately show ?thesis by simp
    qed
  qed
qed

text \<open>Where a placeholder can be cut in two.\<close>

lemma is_ph_split:
  assumes "is_ph (x @ y)" "x \<noteq> []" "y \<noteq> []"
  shows "(x = [91] \<and> (\<exists>b. ph_body b \<and> y = 91 # b @ [93, 93]))
    \<or> (\<exists>b1 b2. ph_body (b1 @ b2) \<and> x = 91 # 91 # b1 \<and> y = b2 @ [93, 93])
    \<or> (\<exists>b. ph_body b \<and> x = 91 # 91 # b @ [93] \<and> y = [93])"
proof -
  obtain b where b: "ph_body b" "x @ y = 91 # 91 # b @ [93, 93]" using is_ph_shape [OF assms(1)] by blast
  obtain x1 where x1: "x = 91 # x1" "x1 @ y = 91 # b @ [93, 93]" using b(2) assms(2) by (cases x) auto
  show ?thesis
  proof (cases x1)
    case Nil
    then show ?thesis using x1 b(1) by auto
  next
    case (Cons c x2)
    then have x2: "x1 = 91 # x2" "x2 @ y = b @ [93, 93]" using x1 by auto
    then consider z where "x2 @ z = b" "y = z @ [93, 93]" | z where "x2 = b @ z" "z @ y = [93, 93]"
      by (auto simp: append_eq_append_conv2)
    then show ?thesis
    proof cases
      case 1
      then show ?thesis using x1 x2 b(1) by blast
    next
      case 2
      then have "z = [] \<and> y = [93, 93] \<or> z = [93] \<and> y = [93]"
        using assms(3) by (auto simp: append_eq_Cons_conv Cons_eq_append_conv)
      then show ?thesis using x1 x2 2 b(1) by (metis append_Nil append_Nil2)
    qed
  qed
qed

lemma no_straddle_before: "is_ph w \<Longrightarrow> no_straddle a (w @ s)"
  unfolding no_straddle_def
proof (intro allI impI notI)
  fix p x y q
  assume w: "is_ph w" and y: "w @ s = y @ q" "x \<noteq> []" "y \<noteq> []" "is_ph (x @ y)"
  obtain b where b: "ph_body b" "w = 91 # 91 # b @ [93, 93]" using is_ph_shape [OF w] by blast
  have ys: "91 # 91 # b @ 93 # 93 # s = y @ q" using y(1) b(2) by simp
  have "hd y = 91" using ys y(3) by (cases y) auto
  from is_ph_split [OF y(4,2,3)] show False
  proof (elim disjE exE conjE)
    fix d assume d: "ph_body d" "y = 91 # d @ [93, 93]"
    then obtain e ds where e: "d = e # ds" by (cases d) (auto simp: ph_body_def)
    then have "e = 91" using ys d(2) by simp
    then show False using d(1) e by (simp add: ph_body_def)
  next
    fix b1 b2 assume d: "ph_body (b1 @ b2)" "y = b2 @ [93, 93]"
    then show False using \<open>hd y = 91\<close> by (cases b2) (auto simp: ph_body_def)
  next
    assume "y = [93]"
    then show False using \<open>hd y = 91\<close> by simp
  qed
qed

lemma no_straddle_after: "is_ph w \<Longrightarrow> no_straddle (g @ w) b"
  unfolding no_straddle_def
proof (intro allI impI notI)
  fix p x y q
  assume w: "is_ph w" and x: "g @ w = p @ x" "x \<noteq> []" "y \<noteq> []" "is_ph (x @ y)"
  obtain d where d: "ph_body d" "w = 91 # 91 # d @ [93, 93]" using is_ph_shape [OF w] by blast
  have r: "rev p @ [] = rev p" by simp
  have xs: "93 # 93 # rev d @ 91 # 91 # rev g = rev x @ rev p"
    using arg_cong [OF x(1), of rev] d(2) by simp
  have "last x = 93" using xs x(2) by (cases x rule: rev_cases) auto
  with is_ph_split [OF x(4,2,3)] show False
  proof (elim disjE exE conjE)
    fix b1 b2 assume "last x = 93" "ph_body (b1 @ b2)" "x = 91 # 91 # b1"
    then show False by (auto simp: ph_body_def split: if_splits dest: last_in_set)
  next
    fix b assume b: "ph_body b" "x = 91 # 91 # b @ [93]"
    then have "rev x = 93 # rev b @ [91, 91]" by simp
    then have "hd (rev b) = 93" using xs b(1) by (cases "rev b") (auto simp: ph_body_def)
    then show False using b(1) by (auto simp: ph_body_def hd_rev dest: last_in_set)
  qed auto
qed

lemma swap_gap_ph: "is_ph w \<Longrightarrow> swap f (g @ w @ s) = swap f g @ f w @ swap f s"
  by (simp add: swap_append [OF no_straddle_before] swap_ph)

text \<open>Only the placeholders of the text matter.\<close>

lemma swap_cong:
  assumes "\<And>p w q. s = p @ w @ q \<Longrightarrow> is_ph w \<Longrightarrow> f w = g w"
  shows "swap f s = swap g s"
  using assms
proof (induction s rule: swap.induct [of _ f])
  case (2 f c s)
  show ?case
  proof (cases "ph_len (c # s)")
    case None
    have "swap f s = swap g s"
    proof (rule "2.IH"(1) [OF None])
      fix p w q assume "s = p @ w @ q" "is_ph w"
      then show "f w = g w" by (intro "2.prems" [of "c # p" w q]) auto
    qed
    then show ?thesis using None by (simp add: swap_skip)
  next
    case (Some n)
    then have n: "n \<le> length (c # s)" "is_ph (take n (c # s))" by (auto simp: ph_len_Some)
    obtain m where m: "n = Suc m" using is_ph_ne [OF n(2)] by (cases n) auto
    have "swap f (drop (n - 1) s) = swap g (drop (n - 1) s)"
    proof (rule "2.IH"(2) [OF Some])
      fix p w q assume "drop (n - 1) s = p @ w @ q" "is_ph w"
      then show "f w = g w"
        by (intro "2.prems" [of "take n (c # s) @ p" w q]) (auto simp: m, metis append_take_drop_id)
    qed
    moreover have "f (take n (c # s)) = g (take n (c # s))"
      using n by (intro "2.prems" [of "[]" _ "drop n (c # s)"]) auto
    ultimately show ?thesis
      using swap_ph [OF n(2), of f "drop n (c # s)"] swap_ph [OF n(2), of g "drop n (c # s)"] by (simp add: m)
  qed
qed simp

text \<open>A text whose placeholders \<open>f\<close> leaves alone is left alone.\<close>

lemma swap_id:
  assumes "\<And>p w q. s = p @ w @ q \<Longrightarrow> is_ph w \<Longrightarrow> f w = w"
  shows "swap f s = s"
  using assms
proof (induction s rule: swap.induct [of _ f])
  case (2 f c s)
  show ?case
  proof (cases "ph_len (c # s)")
    case None
    have "swap f s = s"
    proof (rule "2.IH"(1) [OF None])
      fix p w q assume "s = p @ w @ q" "is_ph w"
      then show "f w = w" by (intro "2.prems" [of "c # p" w q]) auto
    qed
    then show ?thesis using None by (simp add: swap_skip)
  next
    case (Some n)
    then have n: "n \<le> length (c # s)" "is_ph (take n (c # s))" by (auto simp: ph_len_Some)
    obtain m where m: "n = Suc m" using is_ph_ne [OF n(2)] by (cases n) auto
    have "swap f (drop (n - 1) s) = drop (n - 1) s"
    proof (rule "2.IH"(2) [OF Some])
      fix p w q assume "drop (n - 1) s = p @ w @ q" "is_ph w"
      then show "f w = w"
        by (intro "2.prems" [of "take n (c # s) @ p" w q]) (auto simp: m, metis append_take_drop_id)
    qed
    moreover have "f (take n (c # s)) = take n (c # s)"
      using n by (intro "2.prems" [of "[]" _ "drop n (c # s)"]) auto
    ultimately show ?thesis using swap_ph [OF n(2), of f "drop n (c # s)"] by (simp add: m)
  qed
qed simp

text \<open>
  A placeholder \<open>f\<close> leaves alone may be cut anywhere: neither part holds a placeholder, and
  the second part does not become one with what follows.
\<close>

lemma count_bracket_ph: "is_ph w \<Longrightarrow> count_list w 91 = 2 \<and> count_list w 93 = 2 \<and> 4 < length w"
proof -
  assume "is_ph w"
  then obtain b where b: "ph_body b" "w = 91 # 91 # b @ [93, 93]" using is_ph_shape by blast
  then have "count_list b 91 = 0" "count_list b 93 = 0" "b \<noteq> []"
    by (auto simp: ph_body_def count_list_0_iff)
  then show ?thesis using b(2) by (cases b) auto
qed

lemma cut_no_ph:
  assumes "is_ph (x @ y)" "x \<noteq> []" "y \<noteq> []"
  shows "x = p @ w @ q \<Longrightarrow> \<not> is_ph w" "y = p @ w @ q \<Longrightarrow> \<not> is_ph w"
proof -
  have c: "count_list x 91 + count_list y 91 = 2" "count_list x 93 + count_list y 93 = 2"
    using count_bracket_ph [OF assms(1)] by simp_all
  have "0 < count_list x 91 \<and> 0 < count_list y 93"
    using is_ph_split [OF assms] by auto
  then have lt: "count_list x 93 < 2" "count_list y 91 < 2" using c by auto
  show "x = p @ w @ q \<Longrightarrow> \<not> is_ph w"
    using lt(1) count_bracket_ph [of w] by auto
  show "y = p @ w @ q \<Longrightarrow> \<not> is_ph w"
    using lt(2) count_bracket_ph [of w] by auto
qed

lemma cut_no_straddle:
  assumes "is_ph (x @ y)" "x \<noteq> []" "y \<noteq> []"
  shows "no_straddle y q"
  unfolding no_straddle_def
proof (intro allI impI notI)
  fix p x' y' q'
  assume s: "y = p @ x'" "x' \<noteq> []" "y' \<noteq> []" "is_ph (x' @ y')"
  have "last y = 93" using is_ph_split [OF assms] by auto
  then have last: "last x' = 93" using s(1,2) by simp
  have "0 < count_list x 91" using is_ph_split [OF assms] by auto
  then have "count_list x' 91 < 2" using s(1) count_bracket_ph [OF assms(1)] by simp
  moreover from is_ph_split [OF s(4,2,3)] last have "count_list x' 91 = 2 \<or> x' = [91]"
    using count_bracket_ph [OF s(4)] by auto
  ultimately show False using last by auto
qed

definition no_cut :: "(pystr \<Rightarrow> pystr) \<Rightarrow> pystr \<Rightarrow> pystr \<Rightarrow> bool" where
  "no_cut f a b \<longleftrightarrow> (\<forall>p x y q. a = p @ x \<longrightarrow> b = y @ q \<longrightarrow> x \<noteq> [] \<longrightarrow> y \<noteq> [] \<longrightarrow> is_ph (x @ y) \<longrightarrow> f (x @ y) = x @ y)"

lemma no_cut_drop: "no_cut f (v @ a) b \<Longrightarrow> no_cut f a b"
  unfolding no_cut_def by (metis append.assoc)

lemma no_cutD: "no_cut f (p @ x) (y @ q) \<Longrightarrow> is_ph (x @ y) \<Longrightarrow> x \<noteq> [] \<Longrightarrow> y \<noteq> [] \<Longrightarrow> f (x @ y) = x @ y"
  unfolding no_cut_def by blast

lemma swap_append_cut: "no_cut f a b \<Longrightarrow> swap f (a @ b) = swap f a @ swap f b"
proof (induction "length a" arbitrary: a rule: less_induct)
  case less
  show ?case
  proof (cases "ph_len (a @ b)")
    case None
    show ?thesis
    proof (cases a)
      case (Cons c a')
      have "ph_len a = None"
      proof (rule ccontr)
        assume "ph_len a \<noteq> None"
        then obtain n where "n \<le> length a" "is_ph (take n a)" by (auto simp: ph_len_Some)
        then show False using None by (auto simp: ph_len_None dest!: spec [of _ n])
      qed
      moreover have "swap f (a' @ b) = swap f a' @ swap f b"
        using less.prems no_cut_drop [of f "[c]" a' b] Cons by (intro less.hyps) auto
      ultimately show ?thesis using None Cons by (simp add: swap_skip)
    qed simp
  next
    case (Some n)
    then have n: "n \<le> length (a @ b)" "is_ph (take n (a @ b))" by (auto simp: ph_len_Some)
    let ?w = "take n (a @ b)"
    have sw: "swap f (a @ b) = f ?w @ swap f (drop n (a @ b))"
      using swap_ph [OF n(2), of f "drop n (a @ b)"] by (simp only: append_take_drop_id)
    have pos: "0 < n" using is_ph_ne [OF n(2)] by (cases n) auto
    consider "a = []" | "n \<le> length a" "a \<noteq> []" | "length a < n" "a \<noteq> []" by fastforce
    then show ?thesis
    proof cases
      case 2
      have w: "?w = take n a" "drop n (a @ b) = drop n a @ b" using 2(1) by simp_all
      have "swap f (drop n a @ b) = swap f (drop n a) @ swap f b"
        using less.prems no_cut_drop [of f "take n a" "drop n a" b] pos 2 by (intro less.hyps) auto
      moreover have "swap f a = f ?w @ swap f (drop n a)"
        using swap_ph [OF n(2) [unfolded w(1)], of f "drop n a"] unfolding w(1) append_take_drop_id .
      ultimately show ?thesis using sw w by simp
    next
      case 3
      let ?y = "take (n - length a) b" and ?q = "drop (n - length a) b"
      have w: "?w = a @ ?y" "?y \<noteq> []" using 3 n(1) by auto
      have ph: "is_ph (a @ ?y)" using n(2) w(1) by simp
      have "f (a @ ?y) = a @ ?y"
        using less.prems no_cutD [of f "[]" a ?y ?q] ph w(2) 3(2) by simp
      moreover have "swap f a = a"
        using cut_no_ph(1) [OF ph 3(2) w(2)] by (intro swap_id) blast
      moreover have "swap f (?y @ ?q) = ?y @ swap f ?q"
        using swap_append [OF cut_no_straddle [OF ph 3(2) w(2)]] cut_no_ph(2) [OF ph 3(2) w(2)] swap_id by metis
      ultimately show ?thesis using sw w(1) 3(1) by simp
    qed simp
  qed
qed

end
