(* ===== verification/Placeholder_Tail.thy ===== *)
theory Placeholder_Tail
  imports Placeholders
begin

text \<open>
  Two facts the vault needs of the placeholder routines: a loop over \<open>finditer\<close> that rebuilds
  the text is \<open>swap\<close>, and \<open>trailing_partial_len\<close> holds back enough (every proper beginning of
  a placeholder that the buffer can end with). The properties of
  \<open>app/redaction/placeholders.py\<close> are stated here.
\<close>

section \<open>Rebuilding a text from its matches\<close>

lemma drop_occurs: "occurs u PLACEHOLDER_RE s i j \<Longrightarrow> drop i s = slice s i j @ drop j s"
  by (metis append_take_drop_id ends_in_def slice_def drop_drop le_add_diff_inverse2)

lemma ph_len_drop: "i \<le> length s \<Longrightarrow> ph_len (drop i s) = None \<longleftrightarrow> (\<forall>j. \<not> occurs u PLACEHOLDER_RE s i j)"
proof -
  assume i: "i \<le> length s"
  have "(\<exists>n\<le>length (drop i s). is_ph (take n (drop i s))) \<longleftrightarrow> (\<exists>j. occurs u PLACEHOLDER_RE s i j)"
  proof
    assume "\<exists>n\<le>length (drop i s). is_ph (take n (drop i s))"
    then obtain n where "n \<le> length (drop i s)" "is_ph (take n (drop i s))" by blast
    then have "occurs u PLACEHOLDER_RE s i (i + n)" using i by (simp add: placeholder_occurs slice_def)
    then show "\<exists>j. occurs u PLACEHOLDER_RE s i j" by blast
  next
    assume "\<exists>j. occurs u PLACEHOLDER_RE s i j"
    then obtain j where "i \<le> j" "j \<le> length s" "is_ph (slice s i j)" by (auto simp: placeholder_occurs)
    then show "\<exists>n\<le>length (drop i s). is_ph (take n (drop i s))"
      by (intro exI [of _ "j - i"]) (simp add: slice_def)
  qed
  then show ?thesis by (auto simp: ph_len_None)
qed

lemma swap_no_occurs:
  assumes "\<And>a b. i \<le> a \<Longrightarrow> a < k \<Longrightarrow> \<not> occurs u PLACEHOLDER_RE s a b" "i \<le> k" "k \<le> length s"
  shows "swap f (drop i s) = slice s i k @ swap f (drop k s)"
  using assms
proof (induction "k - i" arbitrary: i)
  case 0
  then show ?case by (simp add: slice_def)
next
  case (Suc d)
  then have i: "i < k" "i < length s" by auto
  have "ph_len (drop i s) = None" using Suc.prems(1) [OF order_refl i(1)] ph_len_drop [of i s u] i by simp
  then have "swap f (drop i s) = s ! i # swap f (drop (Suc i) s)"
    using i by (simp add: Cons_nth_drop_Suc [symmetric] swap_skip)
  also have "swap f (drop (Suc i) s) = slice s (Suc i) k @ swap f (drop k s)"
    using Suc i by (intro Suc.hyps(1)) auto
  also have "s ! i # slice s (Suc i) k @ swap f (drop k s) = slice s i k @ swap f (drop k s)"
    using slice_slice_append [of i "Suc i" k s] i by (simp add: slice_Suc)
  finally show ?case .
qed

text \<open>\<open>pattern.sub(f, text)\<close> is \<open>swap\<close>.\<close>

lemma sub_from_swap:
  "i \<le> length s \<Longrightarrow> length s - i < n \<Longrightarrow>
    sub_from (\<lambda>m. f (m_group0 s m)) s i (find_from n u PLACEHOLDER_RE s i adv) = swap f (drop i s)"
proof (induction n arbitrary: i adv)
  case (Suc n)
  show ?case
  proof (cases "search_from u PLACEHOLDER_RE s (Suc (length s) - i) i adv")
    case None
    then have "\<not> occurs u PLACEHOLDER_RE s a b" if "i \<le> a" for a b
      using search_from_None [OF placeholder_never_empty _ None that] Suc.prems(1) by simp
    then have "swap f (drop i s) = slice s i (length s) @ swap f (drop (length s) s)"
      using Suc.prems(1) by (intro swap_no_occurs) auto
    then show ?thesis using None by (simp add: slice_def)
  next
    case (Some m)
    have m: "i \<le> m_start m" "occurs u PLACEHOLDER_RE s (m_start m) (m_end m)"
      "\<And>a b. i \<le> a \<Longrightarrow> a < m_start m \<Longrightarrow> \<not> occurs u PLACEHOLDER_RE s a b"
      using search_from_Some [OF placeholder_never_empty _ Some] Suc.prems(1) by auto
    have lt: "m_start m < m_end m" "m_end m \<le> length s" "m_start m \<le> length s"
      using occurs_advances [OF placeholder_never_empty m(2)] m(2) by (auto simp: ends_in_def)
    have ph: "is_ph (slice s (m_start m) (m_end m))" using m(2) by (simp add: placeholder_occurs)
    have "swap f (drop i s) = slice s i (m_start m) @ swap f (drop (m_start m) s)"
      using m(1,3) lt(3) by (intro swap_no_occurs) auto
    also have "drop (m_start m) s = slice s (m_start m) (m_end m) @ drop (m_end m) s"
      by (rule drop_occurs [OF m(2)])
    also have "swap f \<dots> = f (m_group0 s m) @ swap f (drop (m_end m) s)"
      using swap_ph [OF ph] by (simp add: m_group0_def)
    also have "swap f (drop (m_end m) s) =
        sub_from (\<lambda>m. f (m_group0 s m)) s (m_end m) (find_from n u PLACEHOLDER_RE s (m_end m) (m_end m = m_start m))"
      using lt m(1) Suc.prems by (intro Suc.IH [symmetric]) auto
    finally show ?thesis using Some by simp
  qed
qed simp

lemma re_sub_swap: "re_sub u PLACEHOLDER_RE (\<lambda>m. f (m_group0 s m)) s = swap f s"
  unfolding re_sub_def finditer_def using sub_from_swap [of 0 s "2 * length s + 2" f u False] by simp

lemma finditer_groups_ph: "m \<in> set (finditer u PLACEHOLDER_RE s) \<Longrightarrow> is_ph (m_group0 s m)"
proof -
  assume m: "m \<in> set (finditer u PLACEHOLDER_RE s)"
  have "found m \<in> found ` set (finditer u PLACEHOLDER_RE s)" using m by (rule imageI)
  then have "found m \<in> {(a, b). occurs u PLACEHOLDER_RE s a b}"
    unfolding finditer_spec(1) [OF placeholder_never_empty placeholder_no_overlaps] .
  then show ?thesis by (simp add: found_def m_group0_def placeholder_occurs)
qed

section \<open>Partial placeholders\<close>

definition core_re :: re where "core_re = Seq (Chr CHR ''['') (opt partial_body)"

lemma core_local: "local_re core_re" and core_no_groups: "no_groups core_re"
  by (simp_all add: core_re_def partial_body_def type_cls_def hex_cls_def Chr_def)

text \<open>The match of the tail pattern at a position.\<close>

definition tail_at :: "ucd \<Rightarrow> pystr \<Rightarrow> nat \<Rightarrow> bool" where
  "tail_at u s i \<longleftrightarrow> (\<exists>j. ends_in s (lang u core_re) i j \<and> (j = length s \<or> Suc j = length s \<and> s ! j = 10))"

lemma ms_tail: "i \<le> length s \<Longrightarrow> ms u s PARTIAL_TAIL_RE i [] \<noteq> [] \<longleftrightarrow> tail_at u s i"
proof -
  assume i: "i \<le> length s"
  have "ms u s PARTIAL_TAIL_RE i [] \<noteq> [] \<longleftrightarrow> (\<exists>j c. (j, c) \<in> set (ms u s (Seq core_re Eos) i []))"
    unfolding PARTIAL_TAIL_RE_def core_re_def [symmetric]
    by (metis empty_iff empty_set list.set_intros(1) neq_Nil_conv old.prod.exhaust)
  also have "\<dots> \<longleftrightarrow> (\<exists>j. (\<exists>c. (j, c) \<in> set (ms u s core_re i [])) \<and> (j = length s \<or> Suc j = length s \<and> s ! j = 10))"
    unfolding in_ms_Seq by auto
  also have "\<dots> \<longleftrightarrow> tail_at u s i"
    unfolding tail_at_def using readsD [OF ms_lang [OF core_local] i] by blast
  finally show ?thesis .
qed

lemma search_tail:
  "n + i = Suc (length s) \<Longrightarrow>
    (case search_from u PARTIAL_TAIL_RE s n i False of
       None \<Rightarrow> \<forall>a. i \<le> a \<and> a \<le> length s \<longrightarrow> \<not> tail_at u s a
     | Some m \<Rightarrow> i \<le> m_start m \<and> m_start m \<le> length s \<and> tail_at u s (m_start m) \<and>
         (\<forall>a. i \<le> a \<and> a < m_start m \<longrightarrow> \<not> tail_at u s a))"
proof (induction n arbitrary: i)
  case (Suc n)
  then have i: "i \<le> length s" by simp
  show ?case
  proof (cases "ms u s PARTIAL_TAIL_RE i []")
    case Nil
    then have no: "\<not> tail_at u s i" using ms_tail [OF i, of u] by simp
    have step: "search_from u PARTIAL_TAIL_RE s (Suc n) i False = search_from u PARTIAL_TAIL_RE s n (Suc i) False"
      using Nil by (simp add: match_at_def)
    show ?thesis
      unfolding step using Suc.IH [of "Suc i"] Suc.prems no
      by (auto split: option.splits simp: le_eq_less_or_eq [of i] dest: Suc_leI)
  next
    case (Cons x xs)
    obtain j c where x: "x = (j, c)" by (cases x)
    have "tail_at u s i" using ms_tail [OF i, of u] Cons by simp
    then show ?thesis using Cons i x by (auto simp: match_at_def m_start_def)
  qed
qed auto

lemma tail_not_end: "\<not> tail_at u s (length s)"
  by (auto simp: tail_at_def ends_in_def core_re_def simp del: lang.simps(5))

lemma trailing_spec:
  assumes "n = trailing_partial_len u s"
  shows "n \<le> length s"
    and "0 < n \<Longrightarrow> tail_at u s (length s - n)"
    and "i < length s - n \<Longrightarrow> \<not> tail_at u s i"
    and "n = 0 \<Longrightarrow> \<not> tail_at u s i"
proof -
  have "n \<le> length s \<and> (0 < n \<longrightarrow> tail_at u s (length s - n)) \<and> (\<forall>i. i < length s - n \<longrightarrow> \<not> tail_at u s i)
      \<and> (n = 0 \<longrightarrow> (\<forall>i. \<not> tail_at u s i))"
  proof (cases "s = []")
    case True
    then show ?thesis using assms tail_not_end [of u s]
      by (auto simp: trailing_partial_len_def tail_at_def ends_in_def core_re_def simp del: lang.simps(5))
  next
    case False
    have out: "\<not> tail_at u s i" if "length s < i" for i using that by (auto simp: tail_at_def ends_in_def)
    show ?thesis
    proof (cases "re_search u PARTIAL_TAIL_RE s")
      case None
      then have "\<forall>a. a \<le> length s \<longrightarrow> \<not> tail_at u s a"
        using search_tail [of "Suc (length s)" 0 s u] unfolding re_search_def by (simp del: search_from.simps)
      then have "\<forall>a. \<not> tail_at u s a" using out by (meson not_le)
      then show ?thesis using None False assms by (simp add: trailing_partial_len_def)
    next
      case (Some m)
      then have m: "m_start m \<le> length s" "tail_at u s (m_start m)" "\<forall>a. a < m_start m \<longrightarrow> \<not> tail_at u s a"
        using search_tail [of "Suc (length s)" 0 s u] unfolding re_search_def by (simp_all del: search_from.simps)
      have "m_start m \<noteq> length s" using m(2) tail_not_end by metis
      then show ?thesis using Some False assms m by (simp add: trailing_partial_len_def)
    qed
  qed
  then show "n \<le> length s" "0 < n \<Longrightarrow> tail_at u s (length s - n)" "i < length s - n \<Longrightarrow> \<not> tail_at u s i"
    "n = 0 \<Longrightarrow> \<not> tail_at u s i" by blast+
qed

lemma lang_opt: "lang u (opt r) = insert [] (lang u r)"
proof -
  have "{n. 0 \<le> n \<and> (\<forall>m. Some (1::nat) = Some m \<longrightarrow> n \<le> m)} = {0, 1}" by auto
  then show ?thesis by (auto simp: numeral_eq_Suc)
qed

lemma star_type_lang: "lang u (star type_cls) = {w. list_all ty_char w}"
  and star_hex_lang: "lang u (star hex_cls) = {w. list_all hex_char w}"
  unfolding type_cls_def hex_cls_def lang_Rep_class by simp_all

lemma core_lang: "x \<in> lang u core_re \<longleftrightarrow> x = [91] \<or>
    (\<exists>m v w. x = 91 # 91 # m @ v @ w \<and> list_all ty_char m \<and>
       (v = [] \<or> (\<exists>h. v = 95 # h \<and> list_all hex_char h)) \<and> (w = [] \<or> w = [93]))"
proof -
  have v: "lang u (opt (Seq (Chr CHR ''_'') (star hex_cls))) = {v. v = [] \<or> (\<exists>h. v = 95 # h \<and> list_all hex_char h)}"
    unfolding lang_opt lang.simps(3) star_hex_lang by auto
  have w: "lang u (opt (Chr CHR '']'')) = {w. w = [] \<or> w = [93]}"
    unfolding lang_opt by auto
  have b: "lang u partial_body = {91 # m @ v @ w | m v w. list_all ty_char m \<and>
       (v = [] \<or> (\<exists>h. v = 95 # h \<and> list_all hex_char h)) \<and> (w = [] \<or> w = [93])}"
    unfolding partial_body_def lang.simps(3) star_type_lang v w lang_Chr chr_codes
    by (simp, safe) blast+
  have "x \<in> lang u core_re \<longleftrightarrow> (\<exists>z. x = 91 # z \<and> (z = [] \<or> z \<in> lang u partial_body))"
    unfolding core_re_def lang.simps(3) lang_opt by auto
  then show ?thesis unfolding b by blast
qed

lemma core_shape: "x \<in> lang u core_re \<Longrightarrow> x = [91] \<or> (\<exists>m e. x = 91 # 91 # m @ e \<and> 93 \<notin> set m \<and> (e = [] \<or> e = [93]))"
proof -
  assume "x \<in> lang u core_re"
  then consider "x = [91]" | m v w where "x = 91 # 91 # (m @ v) @ w" "list_all ty_char m"
    "v = [] \<or> (\<exists>h. v = 95 # h \<and> list_all hex_char h)" "w = [] \<or> w = [93]"
    unfolding core_lang append_assoc by blast
  then show ?thesis
  proof cases
    case 2
    have "93 \<notin> set (m @ v)" using 2(2,3) by (auto simp: list_all_iff dest: ty_char_not hex_char_not)
    then show ?thesis using 2(1,4) by blast
  qed simp
qed

text \<open>Every proper beginning of a placeholder is one.\<close>

lemma beginning_core:
  assumes "is_ph (x @ y)" "x \<noteq> []" "y \<noteq> []"
  shows "x \<in> lang u core_re"
proof -
  obtain t h where th: "ph_type t" "ph_hex h" "x @ y = 91 # 91 # (t @ 95 # h) @ [93, 93]"
    using assms(1) by (auto simp: is_ph_def make_placeholder_codes)
  have tt: "list_all ty_char t" using th(1) by (auto simp: ph_type_iff dest: up_ty_char)
  have hh: "list_all hex_char h" using th(2) by (simp add: ph_hex_def)
  from is_ph_split [OF assms] show ?thesis
  proof (elim disjE exE conjE)
    fix b1 b2 assume x: "x = 91 # 91 # b1" "y = b2 @ [93, 93]"
    then have "b1 @ b2 = t @ 95 # h" using th(3) by simp
    then consider z where "t = b1 @ z" | z where "b1 = t @ z" "z @ b2 = 95 # h" "z \<noteq> []"
      by (metis append_eq_append_conv2 append_Nil2)
    then show ?thesis
    proof cases
      case 1
      then show ?thesis unfolding core_lang using tt x
        by (intro disjI2 exI [of _ b1] exI [of _ "[]"]) simp
    next
      case 2
      then obtain h1 where "z = 95 # h1" "h1 @ b2 = h" by (cases z) auto
      then show ?thesis unfolding core_lang using tt hh x 2
        by (intro disjI2 exI [of _ t] exI [of _ z] exI [of _ "[]"]) auto
    qed
  next
    fix b assume x: "x = 91 # 91 # b @ [93]" "y = [93]"
    then have "b = t @ 95 # h" using th(3) by simp
    then show ?thesis unfolding core_lang using tt hh x
      by (intro disjI2 exI [of _ t] exI [of _ "95 # h"] exI [of _ "[93]"]) auto
  qed (simp add: core_lang)
qed

lemma tail_at_suffix: "x \<in> lang u core_re \<Longrightarrow> tail_at u (p @ x) (length p)"
  unfolding tail_at_def ends_in_def by (intro exI [of _ "length (p @ x)"]) (simp add: slice_def)

lemma tail_at_shape:
  assumes "tail_at u s i"
  obtains z e where "drop i s = z @ e" "z \<in> lang u core_re" "e = [] \<or> e = [10]"
proof -
  obtain j where j: "i \<le> j" "j \<le> length s" "slice s i j \<in> lang u core_re" "j = length s \<or> Suc j = length s \<and> s ! j = 10"
    using assms by (auto simp: tail_at_def ends_in_def)
  have "drop i s = slice s i j @ drop j s"
    using j(1) by (metis append_take_drop_id slice_def drop_drop le_add_diff_inverse2)
  moreover have "drop j s = [] \<or> drop j s = [10]"
    using j(4) by (auto simp: Cons_nth_drop_Suc [symmetric])
  ultimately show ?thesis using that j(3) by blast
qed

lemma hold_no_straddle:
  assumes n: "n = trailing_partial_len u s"
  shows "no_straddle (take (length s - n) s) (drop (length s - n) s @ rest)"
  unfolding no_straddle_def
proof (intro allI impI notI)
  fix p x y q
  assume px: "take (length s - n) s = p @ x" and yq: "drop (length s - n) s @ rest = y @ q"
    and ne: "x \<noteq> []" "y \<noteq> []" and ph: "is_ph (x @ y)"
  let ?h = "drop (length s - n) s"
  have s: "s = (p @ x) @ ?h" using px append_take_drop_id [of "length s - n" s] by metis
  have lp: "length p < length s - n"
    using px ne(1) by (metis length_append length_greater_0_conv length_take less_add_same_cancel1 min_less_iff_conj)
  consider (past) y' where "y = ?h @ y'" "y' \<noteq> []" | (inside) h' where "?h = y @ h'"
    using yq by (metis append_eq_append_conv2 append_Nil2)
  then show False
  proof cases
    case past
    have "x @ ?h \<in> lang u core_re" using beginning_core [of "x @ ?h" y' u] ph ne past by simp
    then have "tail_at u s (length p)" using tail_at_suffix [of "x @ ?h" u p] s by simp
    then show False using trailing_spec(3) [OF n lp] by blast
  next
    case inside
    then have "?h \<noteq> []" using ne(2) by simp
    then have "0 < n" by simp
    from trailing_spec(2) [OF n this] obtain z e where z: "?h = z @ e" "z \<in> lang u core_re" "e = [] \<or> e = [10]"
      by (rule tail_at_shape)
    from core_shape [OF z(2)] have h: "?h = [91] \<or> ?h = [91, 10] \<or> (\<exists>r. ?h = 91 # 91 # r)"
      using z(1,3) by auto
    have hd: "hd y = 91" using h inside ne(2) by (cases y) auto
    from is_ph_split [OF ph ne] show False
    proof (elim disjE exE conjE)
      fix b assume b: "ph_body b" "y = 91 # b @ [93, 93]"
      then obtain c b' where c: "b = c # b'" "c \<noteq> 91" by (cases b) (auto simp: ph_body_def)
      then show False using h inside b(2) by auto
    next
      fix b1 b2 assume "ph_body (b1 @ b2)" "y = b2 @ [93, 93]"
      then show False using hd by (cases b2) (auto simp: ph_body_def)
    qed (use hd in simp)
  qed
qed

text \<open>
  The stream de-tokenizer holds back at most \<open>MAX_PLACEHOLDER_LEN\<close> characters: with the cap
  only a placeholder of more than \<open>MAX_PLACEHOLDER_LEN + 1\<close> characters can be cut.
\<close>

lemma hold_capped:
  assumes k: "k = min (trailing_partial_len u s) MAX_PLACEHOLDER_LEN"
    and px: "take (length s - k) s = p @ x" and yq: "drop (length s - k) s @ rest = y @ q"
    and ne: "x \<noteq> []" "y \<noteq> []" and ph: "is_ph (x @ y)"
  shows "MAX_PLACEHOLDER_LEN + 1 < length (x @ y)"
proof (cases "trailing_partial_len u s \<le> MAX_PLACEHOLDER_LEN")
  case True
  then have "no_straddle (p @ x) (y @ q)"
    using hold_no_straddle [OF refl, of s u rest] k px yq by (simp add: min_def)
  then show ?thesis using no_straddleD ph ne by blast
next
  case False
  let ?n = "trailing_partial_len u s" and ?h = "drop (length s - k) s"
  have kk: "k = MAX_PLACEHOLDER_LEN" using False k by simp
  have kn: "k < ?n" "?n \<le> length s" using False k trailing_spec(1) [OF refl, of u s] by auto
  have lh: "length ?h = k" using kn by simp
  consider (past) y' where "y = ?h @ y'" "y' \<noteq> []" | (inside) h' where "?h = y @ h'"
    using yq by (metis append_eq_append_conv2 append_Nil2)
  then show ?thesis
  proof cases
    case past
    then show ?thesis using lh kk ne(1) by (cases x; cases y') auto
  next
    case inside
    have s: "s = p @ (x @ y) @ h'"
      using px inside append_take_drop_id [of "length s - k" s] by simp
    show ?thesis
    proof (cases "length s - ?n \<le> length p")
      case True
      obtain z e where z: "drop (length s - ?n) s = z @ e" "z \<in> lang u core_re" "e = [] \<or> e = [10]"
        using trailing_spec(2) [OF refl, of u s] kn tail_at_shape by (metis gr0I not_less_zero)
      have "count_list z 93 \<le> 1" using core_shape [OF z(2)] by (auto simp: count_list_0_iff)
      then have "count_list (drop (length s - ?n) s) 93 \<le> 1" using z by auto
      moreover have "drop (length s - ?n) s = drop (length s - ?n) p @ (x @ y) @ h'"
        using True by (subst s) simp
      ultimately show ?thesis using count_bracket_ph [OF ph] by simp
    next
      case False
      let ?m = "length s - ?n - length p"
      have lx: "length p + length x = length s - k" using px by (metis length_append length_take min.absorb2 diff_le_self)
      have m: "0 < ?m" "?m < length x" using False lx kn by auto
      have "take (length s - ?n) s = p @ take ?m x" using m False by (subst s) (simp add: take_append)
      moreover have "drop (length s - ?n) s = (drop ?m x @ y) @ h'" using m False by (subst s) simp
      ultimately have "no_straddle (p @ take ?m x) ((drop ?m x @ y) @ h')"
        using hold_no_straddle [OF refl, of s u "[]"] by simp
      from no_straddleD [OF this] have "take ?m x = [] \<or> drop ?m x @ y = []"
        using ph by (simp only: append.assoc [symmetric] append_take_drop_id)
      then show ?thesis using m ne(2) by auto
    qed
  qed
qed

lemma hold_no_cut:
  assumes k: "k = min (trailing_partial_len u s) MAX_PLACEHOLDER_LEN"
    and f: "\<And>w. is_ph w \<Longrightarrow> MAX_PLACEHOLDER_LEN + 1 < length w \<Longrightarrow> f w = w"
  shows "no_cut f (take (length s - k) s) (drop (length s - k) s @ rest)"
  unfolding no_cut_def using hold_capped [OF k] f by blast

section \<open>Properties\<close>

text \<open>C7. \<open>find_placeholders\<close> returns every substring of the text that has the placeholder
  grammar, with its offsets, its type and its token, and nothing else; in text order and without
  overlaps.\<close>

theorem find_placeholders_exact:
  "set (find_placeholders u text) =
     {(i, j, Some t, Some h) | i j t h. i \<le> j \<and> j \<le> length text \<and> ph_type t \<and> ph_hex h \<and>
        slice text i j = make_placeholder t h}
   \<and> sorted_wrt (\<lambda>x y. fst (snd x) \<le> fst y) (find_placeholders u text)"
  using find_placeholders_set finditer_spec(2) [OF placeholder_never_empty placeholder_no_overlaps]
  by (simp add: find_placeholders_def sorted_wrt_map)

text \<open>C8. Withholding \<open>trailing_partial_len\<close> characters never separates a placeholder from its
  beginning: whatever follows, replacing the placeholders of what is emitted and of what is
  withheld plus the rest is replacing those of the whole. No more than the buffer is withheld.\<close>

theorem trailing_partial_safe:
  "trailing_partial_len u s \<le> length s \<and>
   swap f (s @ rest) =
     swap f (take (length s - trailing_partial_len u s) s) @
     swap f (drop (length s - trailing_partial_len u s) s @ rest)"
  using trailing_spec(1) [OF refl] swap_append [OF hold_no_straddle [OF refl]]
  by (metis append.assoc append_take_drop_id)

end
