(* ===== verification/Validators.thy ===== *)
theory Validators
  imports Regex
begin

text \<open>
  The check-digit validators of \<open>app/redaction/validators.py\<close>. Each takes the raw match text.
  \<open>itin_check\<close> is the one that can raise: it calls \<open>int\<close> on characters that only passed
  \<open>isdigit\<close>, which also holds of superscripts and other non-decimal digits.
\<close>

section \<open>The code\<close>

definition NON_DIGIT_RE :: re where
  "NON_DIGIT_RE = Cls False False [CSpace, CRange 45 45]"

definition digits_of :: "ucd \<Rightarrow> pystr \<Rightarrow> pystr" where
  "digits_of u s = re_sub u NON_DIGIT_RE (\<lambda>_. []) s"

text \<open>The loop \<open>for i, ch in enumerate(reversed(cleaned))\<close>.\<close>

fun luhn_loop :: "nat \<Rightarrow> int \<Rightarrow> pystr \<Rightarrow> int" where
  "luhn_loop i tot [] = tot"
| "luhn_loop i tot (ch # rest) =
     (let d = int ch - 48;
          d = (if i mod 2 = 1 then (let d2 = d * 2 in if d2 > 9 then d2 - 9 else d2) else d)
      in luhn_loop (Suc i) (tot + d) rest)"

definition luhn :: "ucd \<Rightarrow> pystr \<Rightarrow> bool" where
  "luhn u s =
     (let cleaned = digits_of u s in
      if length cleaned < 2 \<or> \<not> py_isdigit u cleaned then False
      else luhn_loop 0 0 (rev cleaned) mod 10 = 0)"

definition sin_check :: "ucd \<Rightarrow> pystr \<Rightarrow> bool" where
  "sin_check u s =
     (let cleaned = digits_of u s in
      if length cleaned \<noteq> 9 \<or> \<not> py_isdigit u cleaned then False
      else if cleaned ! 0 = 48 \<or> cleaned ! 0 = 56 then False
      else luhn u cleaned)"

text \<open>\<open>^[A-Z]{2}[0-9]{2}[A-Z0-9]{1,30}$\<close>\<close>

definition iban_inner :: re where
  "iban_inner = Seq (Rep True (Cls False False [CRange 65 90]) 2 (Some 2))
     (Seq (Rep True (Cls False False [CRange 48 57]) 2 (Some 2))
       (between (Cls False False [CRange 65 90, CRange 48 57]) 1 30))"

definition IBAN_RE :: re where
  "IBAN_RE = Seq Bos (Seq iban_inner Eos)"

definition iban_convert :: "ucd \<Rightarrow> pystr \<Rightarrow> pystr" where
  "iban_convert u s = concat (map (\<lambda>ch. if u_digit u ch then [ch] else str_int (int ch - 55)) s)"

definition iban_mod97 :: "ucd \<Rightarrow> pystr \<Rightarrow> bool" where
  "iban_mod97 u s =
     (let cleaned = py_upper u (digits_of u s) in
      if re_match u IBAN_RE cleaned = None then False
      else let rearranged = drop 4 cleaned @ take 4 cleaned in
           case py_int_digits u (iban_convert u rearranged) of
             Inl _ \<Rightarrow> False
           | Inr n \<Rightarrow> n mod 97 = 1)"

definition ssn_check :: "ucd \<Rightarrow> pystr \<Rightarrow> bool" where
  "ssn_check u s =
     (let cleaned = digits_of u s in
      if length cleaned \<noteq> 9 \<or> \<not> py_isdigit u cleaned then False
      else let area = slice cleaned 0 3; grp = slice cleaned 3 5; serial = drop 5 cleaned in
           if area \<in> {str ''000'', str ''666''} \<or> area ! 0 = 57 then False
           else if grp = str ''00'' \<or> serial = str ''0000'' then False
           else True)"

definition invalid_prefixes :: "pystr list" where
  "invalid_prefixes = map str [''07'', ''08'', ''09'', ''17'', ''18'', ''19'', ''28'', ''29'', ''49'', ''78'', ''79'', ''89'']"

definition ein_check :: "ucd \<Rightarrow> pystr \<Rightarrow> bool" where
  "ein_check u s =
     (let cleaned = digits_of u s in
      if length cleaned \<noteq> 9 \<or> \<not> py_isdigit u cleaned then False
      else slice cleaned 0 2 \<notin> set invalid_prefixes)"

definition itin_check :: "ucd \<Rightarrow> pystr \<Rightarrow> bool res" where
  "itin_check u s =
     (let cleaned = digits_of u s in
      if length cleaned \<noteq> 9 \<or> \<not> py_isdigit u cleaned then Inr False
      else if cleaned ! 0 \<noteq> 57 then Inr False
      else rbind (py_int_digits u (slice cleaned 3 5))
             (\<lambda>grp. Inr (50 \<le> grp \<and> grp \<le> 65 \<or> 70 \<le> grp \<and> grp \<le> 88 \<or> 90 \<le> grp \<and> grp \<le> 92 \<or> 94 \<le> grp \<and> grp \<le> 99)))"

definition edrpou_check :: "ucd \<Rightarrow> pystr \<Rightarrow> bool" where
  "edrpou_check u s = (let cleaned = digits_of u s in length cleaned = 8 \<and> py_isdigit u cleaned)"

definition ipn_check :: "ucd \<Rightarrow> pystr \<Rightarrow> bool" where
  "ipn_check u s = (let cleaned = digits_of u s in length cleaned = 10 \<and> py_isdigit u cleaned)"

definition uci_check :: "ucd \<Rightarrow> pystr \<Rightarrow> bool" where
  "uci_check u s = (let cleaned = digits_of u s in 8 \<le> length cleaned \<and> length cleaned \<le> 10 \<and> py_isdigit u cleaned)"

type_synonym validator = "pystr \<Rightarrow> bool res"

definition VALIDATORS :: "ucd \<Rightarrow> (pystr \<times> validator) list" where
  "VALIDATORS u =
     [(str ''luhn'', Inr \<circ> luhn u), (str ''sin_check'', Inr \<circ> sin_check u),
      (str ''iban_mod97'', Inr \<circ> iban_mod97 u), (str ''ssn_check'', Inr \<circ> ssn_check u),
      (str ''ein_check'', Inr \<circ> ein_check u), (str ''itin_check'', itin_check u),
      (str ''edrpou_check'', Inr \<circ> edrpou_check u), (str ''ipn_check'', Inr \<circ> ipn_check u),
      (str ''uci_check'', Inr \<circ> uci_check u)]"

definition get_validator :: "ucd \<Rightarrow> pystr \<Rightarrow> validator option" where
  "get_validator u name = map_of (VALIDATORS u) name"

section \<open>Separators\<close>

text \<open>Removing the matches of a one-character class is filtering.\<close>

lemma class_never_empty: "never_empty u (Cls ci neg its)"
  by (simp add: never_empty_def)

lemma class_occurs: "occurs u (Cls ci neg its) s i j \<longleftrightarrow> i < length s \<and> j = Suc i \<and> cls_in u ci neg its (s ! i)"
  by (auto simp: ends_in_def slice_Suc dest!: slice_single)

lemma filter_skip:
  "(\<And>a. i \<le> a \<Longrightarrow> a < k \<Longrightarrow> P (s ! a)) \<Longrightarrow> i \<le> k \<Longrightarrow> k \<le> length s \<Longrightarrow>
    filter P (drop i s) = slice s i k @ filter P (drop k s)"
proof (induction "k - i" arbitrary: i)
  case 0
  then show ?case by (simp add: slice_def)
next
  case (Suc d)
  then have i: "i < k" "i < length s" by auto
  have "filter P (drop (Suc i) s) = slice s (Suc i) k @ filter P (drop k s)"
    using Suc i by (intro Suc.hyps(1)) auto
  then show ?case
    using Suc.prems(1) [of i] i slice_slice_append [of i "Suc i" k s]
    by (simp add: Cons_nth_drop_Suc [symmetric] slice_Suc)
qed

lemma sub_from_class:
  assumes f: "\<And>m. f m = []"
  shows "i \<le> length s \<Longrightarrow> length s - i < n \<Longrightarrow>
    sub_from f s i (find_from n u (Cls ci neg its) s i adv) = filter (\<lambda>c. \<not> cls_in u ci neg its c) (drop i s)"
proof (induction n arbitrary: i adv)
  case (Suc n)
  let ?r = "Cls ci neg its"
  show ?case
  proof (cases "search_from u ?r s (Suc (length s) - i) i adv")
    case None
    then have no: "\<not> occurs u ?r s a (Suc a)" if "i \<le> a" for a
      using search_from_None [OF class_never_empty _ None that] Suc.prems(1) by simp
    then have "filter (\<lambda>c. \<not> cls_in u ci neg its c) (drop i s) =
        slice s i (length s) @ filter (\<lambda>c. \<not> cls_in u ci neg its c) (drop (length s) s)"
      using Suc.prems(1) by (intro filter_skip) (auto simp: class_occurs simp del: lang.simps)
    then show ?thesis using None by (simp add: slice_def)
  next
    case (Some m)
    have m: "i \<le> m_start m" "occurs u ?r s (m_start m) (m_end m)"
      "\<And>a b. i \<le> a \<Longrightarrow> a < m_start m \<Longrightarrow> \<not> occurs u ?r s a b"
      using search_from_Some [OF class_never_empty _ Some] Suc.prems(1) by auto
    have e: "m_end m = Suc (m_start m)" "m_start m < length s" "cls_in u ci neg its (s ! m_start m)"
      using m(2) unfolding class_occurs by auto
    have "filter (\<lambda>c. \<not> cls_in u ci neg its c) (drop i s) =
        slice s i (m_start m) @ filter (\<lambda>c. \<not> cls_in u ci neg its c) (drop (m_start m) s)"
      using m(1) m(3) [of _ "Suc _"] e by (intro filter_skip) (auto simp: class_occurs simp del: lang.simps)
    also have "filter (\<lambda>c. \<not> cls_in u ci neg its c) (drop (m_start m) s) =
        filter (\<lambda>c. \<not> cls_in u ci neg its c) (drop (m_end m) s)"
      using e by (simp add: Cons_nth_drop_Suc [symmetric])
    also have "\<dots> = sub_from f s (m_end m) (find_from n u ?r s (m_end m) (m_end m = m_start m))"
      using e m(1) Suc.prems by (intro Suc.IH [symmetric]) auto
    finally show ?thesis using Some f [of m] by simp
  qed
qed simp

lemma re_sub_class: "re_sub u (Cls ci neg its) (\<lambda>_. []) s = filter (\<lambda>c. \<not> cls_in u ci neg its c) s"
  unfolding re_sub_def finditer_def using sub_from_class [of "\<lambda>_. []" 0 s "2 * length s + 2" u ci neg its False] by simp

lemma digits_of_filter: "digits_of u s = filter (\<lambda>c. \<not> (u_space u c \<or> c = 45)) s"
  unfolding digits_of_def NON_DIGIT_RE_def re_sub_class by (auto simp: cls_in_def intro: filter_cong)

lemma digits_of_idem: "digits_of u (digits_of u s) = digits_of u s"
  by (simp add: digits_of_filter)

lemma digits_of_ascii:
  assumes "ucd_ascii u" "list_all ascii_digit s"
  shows "digits_of u s = s" "s \<noteq> [] \<Longrightarrow> py_isdigit u s"
proof -
  have c: "c < 128 \<and> \<not> ascii_space c \<and> c \<noteq> 45" if "ascii_digit c" for c
    using that by (auto simp: ascii_defs)
  show "digits_of u s = s"
    using assms c by (auto simp: digits_of_filter list_all_iff filter_id_conv ucd_asciiD)
  show "s \<noteq> [] \<Longrightarrow> py_isdigit u s"
    using assms c by (auto simp: py_isdigit_def list_all_iff ucd_asciiD)
qed

section \<open>Luhn\<close>

definition luhn_weight :: "nat \<Rightarrow> nat \<Rightarrow> int" where
  "luhn_weight i ch =
     (let d = int ch - 48 in
      if i mod 2 = 1 then (let d2 = d * 2 in if d2 > 9 then d2 - 9 else d2) else d)"

lemma luhn_loop_Cons: "luhn_loop i tot (ch # rest) = luhn_loop (Suc i) (tot + luhn_weight i ch) rest"
  by (simp add: luhn_weight_def Let_def)

declare luhn_loop.simps(2) [simp del]

lemma luhn_loop_tot: "luhn_loop i tot s = tot + luhn_loop i 0 s"
proof (induction s arbitrary: i tot)
  case (Cons ch s)
  show ?case
    using Cons [of "Suc i" "tot + luhn_weight i ch"] Cons [of "Suc i" "luhn_weight i ch"]
    by (simp add: luhn_loop_Cons)
qed simp

lemma luhn_loop_append: "luhn_loop i tot (s @ t) = luhn_loop (i + length s) (luhn_loop i tot s) t"
  by (induction s arbitrary: i tot) (simp_all add: luhn_loop_Cons)

lemma luhn_digits:
  assumes "ucd_ascii u" "list_all ascii_digit s" "2 \<le> length s"
  shows "luhn u s \<longleftrightarrow> luhn_loop 0 0 (rev s) mod 10 = 0"
  using assms digits_of_ascii [of u s] by (cases s) (auto simp: luhn_def Let_def)

lemma luhn_weight_inj:
  assumes "ascii_digit c" "ascii_digit d" "luhn_weight i c mod 10 = luhn_weight i d mod 10"
  shows "c = d"
proof -
  have "\<forall>m\<in>set [0..<2]. \<forall>c\<in>set [48..<58]. \<forall>d\<in>set [48..<58].
      luhn_weight m c mod 10 = luhn_weight m d mod 10 \<longrightarrow> c = d" by code_simp
  moreover have "luhn_weight i x = luhn_weight (i mod 2) x" for x by (simp add: luhn_weight_def)
  moreover have "i mod 2 \<in> set [0..<2]" by simp
  moreover have "c \<in> set [48..<58]" "d \<in> set [48..<58]"
    unfolding set_upt atLeastLessThan_iff using assms(1,2) by (simp_all add: ascii_digit_def)
  ultimately show ?thesis using assms(3) by metis
qed

lemma luhn_weight_swap:
  assumes "ascii_digit c" "ascii_digit d"
    "(luhn_weight i c + luhn_weight (Suc i) d) mod 10 = (luhn_weight i d + luhn_weight (Suc i) c) mod 10"
  shows "c = d \<or> {c, d} = {48, 57}"
proof -
  have "\<forall>m\<in>set [0..<2]. \<forall>c\<in>set [48..<58]. \<forall>d\<in>set [48..<58].
      (luhn_weight m c + luhn_weight (Suc m) d) mod 10 = (luhn_weight m d + luhn_weight (Suc m) c) mod 10 \<longrightarrow>
        c = d \<or> c = 48 \<and> d = 57 \<or> c = 57 \<and> d = 48" by code_simp
  moreover have "luhn_weight i x = luhn_weight (i mod 2) x" "luhn_weight (Suc i) x = luhn_weight (Suc (i mod 2)) x" for x
    by (simp_all add: luhn_weight_def mod_Suc)
  moreover have "i mod 2 \<in> set [0..<2]" by simp
  moreover have "c \<in> set [48..<58]" "d \<in> set [48..<58]"
    unfolding set_upt atLeastLessThan_iff using assms(1,2) by (simp_all add: ascii_digit_def)
  ultimately show ?thesis using assms(3) by (metis doubleton_eq_iff)
qed

lemma luhn_loop_split:
  "luhn_loop 0 0 (rev (a @ x @ b)) =
     luhn_loop 0 0 (rev b) + luhn_loop (length b) 0 (rev x) + luhn_loop (length b + length x) 0 (rev a)"
proof -
  have "luhn_loop 0 0 (rev (a @ x @ b)) =
      luhn_loop (length b + length x) (luhn_loop (length b) (luhn_loop 0 0 (rev b)) (rev x)) (rev a)"
    by (simp add: luhn_loop_append)
  then show ?thesis
    using luhn_loop_tot [of "length b + length x" "luhn_loop (length b) (luhn_loop 0 0 (rev b)) (rev x)" "rev a"]
      luhn_loop_tot [of "length b" "luhn_loop 0 0 (rev b)" "rev x"] by simp
qed

lemma luhn_same_middle:
  assumes "ucd_ascii u" "list_all ascii_digit (a @ x @ b)" "list_all ascii_digit y" "length y = length x"
    "2 \<le> length (a @ x @ b)" "luhn u (a @ x @ b)" "luhn u (a @ y @ b)"
  shows "luhn_loop (length b) 0 (rev x) mod 10 = luhn_loop (length b) 0 (rev y) mod 10"
proof -
  have x: "luhn_loop 0 0 (rev (a @ x @ b)) mod 10 = 0"
    by (rule luhn_digits [THEN iffD1]) (use assms in simp_all)
  have y: "luhn_loop 0 0 (rev (a @ y @ b)) mod 10 = 0"
    by (rule luhn_digits [THEN iffD1]) (use assms in simp_all)
  have eq: "(p + v + q) mod 10 = 0 \<Longrightarrow> (p + w + q) mod 10 = 0 \<Longrightarrow> v mod 10 = w mod 10" for p q v w :: int
  proof -
    assume "(p + v + q) mod 10 = 0" "(p + w + q) mod 10 = 0"
    then have "((p + v + q) - (p + q)) mod 10 = ((p + w + q) - (p + q)) mod 10" by (intro mod_diff_cong) simp_all
    then show "v mod 10 = w mod 10" by simp
  qed
  show ?thesis by (rule eq [OF x [unfolded luhn_loop_split] y [unfolded luhn_loop_split assms(4)]])
qed

lemma luhn_single_error:
  assumes "ucd_ascii u" "list_all ascii_digit (a @ c # b)" "ascii_digit d" "c \<noteq> d" "luhn u (a @ c # b)"
  shows "\<not> luhn u (a @ d # b)"
proof
  assume l: "luhn u (a @ d # b)"
  have two: "2 \<le> length (a @ [c] @ b)"
    using assms(5) digits_of_ascii(1) [OF assms(1,2)] unfolding luhn_def Let_def
    by (metis append_Cons append_Nil not_less)
  have "luhn_loop (length b) 0 (rev [c]) mod 10 = luhn_loop (length b) 0 (rev [d]) mod 10"
    using assms l two by (intro luhn_same_middle [of u a "[c]" b "[d]"]) auto
  then show False
    using luhn_weight_inj [of c d "length b"] assms(2,3,4) by (simp add: luhn_loop_Cons)
qed

lemma luhn_transposition:
  assumes "ucd_ascii u" "list_all ascii_digit (a @ c # d # b)" "c \<noteq> d" "{c, d} \<noteq> {48, 57}"
    "luhn u (a @ c # d # b)"
  shows "\<not> luhn u (a @ d # c # b)"
proof
  assume l: "luhn u (a @ d # c # b)"
  have "luhn_loop (length b) 0 (rev [c, d]) mod 10 = luhn_loop (length b) 0 (rev [d, c]) mod 10"
    using assms l by (intro luhn_same_middle [of u a "[c, d]" b "[d, c]"]) auto
  then show False
    using luhn_weight_swap [of d c "length b"] assms(2,3,4) by (auto simp: luhn_loop_Cons add_ac insert_commute)
qed

section \<open>IBAN\<close>

definition iban_shape :: "pystr \<Rightarrow> bool" where
  "iban_shape w \<longleftrightarrow> 5 \<le> length w \<and> length w \<le> 34 \<and> list_all ascii_uppercase (take 2 w) \<and>
     list_all ascii_digit (slice w 2 4) \<and> list_all (\<lambda>c. ascii_uppercase c \<or> ascii_digit c) (drop 4 w)"

lemma iban_inner_lang: "lang u iban_inner = {w. iban_shape w}"
proof -
  have cls: "cls_in u False False [CRange 65 90] = ascii_uppercase" "cls_in u False False [CRange 48 57] = ascii_digit"
    "cls_in u False False [CRange 65 90, CRange 48 57] = (\<lambda>c. ascii_uppercase c \<or> ascii_digit c)"
    by (auto simp: fun_eq_iff cls_in_def ascii_defs)
  have "w \<in> lang u iban_inner \<longleftrightarrow> iban_shape w" for w
  proof
    assume "w \<in> lang u iban_inner"
    then obtain x y z where w: "w = x @ y @ z" "length x = 2" "list_all ascii_uppercase x" "length y = 2"
      "list_all ascii_digit y" "1 \<le> length z" "length z \<le> 30" "list_all (\<lambda>c. ascii_uppercase c \<or> ascii_digit c) z"
      unfolding iban_inner_def lang.simps(3) lang_Rep_class cls by auto
    have "slice w 2 4 = y" using w(1,2,4) by (simp add: slice_def)
    then show "iban_shape w" using w by (simp add: iban_shape_def)
  next
    assume w: "iban_shape w"
    let ?x = "take 2 w" and ?y = "slice w 2 4" and ?z = "drop 4 w"
    have e: "w = ?x @ ?y @ ?z" using take_slice_drop [of 2 4 w] by simp
    have "length ?x = 2" "length ?y = 2" "1 \<le> length ?z" "length ?z \<le> 30"
      using w by (auto simp: iban_shape_def)
    then show "w \<in> lang u iban_inner"
      unfolding iban_inner_def lang.simps(3) lang_Rep_class cls mem_Collect_eq
      using e w unfolding iban_shape_def
      by (intro exI [of _ ?x] exI [of _ "?y @ ?z"] conjI exI [of _ ?y] exI [of _ ?z]) simp_all
  qed
  then show ?thesis by blast
qed

lemma iban_match:
  assumes "10 \<notin> set s"
  shows "re_match u IBAN_RE s \<noteq> None \<longleftrightarrow> iban_shape s"
proof -
  have loc: "local_re iban_inner" by (simp add: iban_inner_def)
  have nl: "s ! j \<noteq> 10" if "Suc j = length s" for j using assms that by (metis lessI nth_mem)
  have "re_match u IBAN_RE s \<noteq> None \<longleftrightarrow> (\<exists>j c. (j, c) \<in> set (ms u s IBAN_RE 0 []))"
    by (auto simp: re_match_def match_at_def split: list.splits prod.splits)
  also have "\<dots> \<longleftrightarrow> (\<exists>c. (length s, c) \<in> set (ms u s iban_inner 0 []))"
  proof -
    have "(j, c) \<in> set (ms u s IBAN_RE 0 []) \<longleftrightarrow> (j, c) \<in> set (ms u s iban_inner 0 []) \<and> j = length s" for j c
      unfolding IBAN_RE_def in_ms_Seq [of _ _ u s Bos] in_ms_Seq [of _ _ u s iban_inner] in_ms_anchor
      by (simp only: simp_thms ex_simps) (metis nl)
    then show ?thesis by simp
  qed
  also have "\<dots> \<longleftrightarrow> iban_shape s"
    using readsD [OF ms_lang [OF loc], of 0 s "length s" u "[]"] by (simp add: ends_in_def iban_inner_lang)
  finally show ?thesis .
qed

text \<open>
  The reference: ISO 7064 mod-97 with the letters read as two digits, keeping only the
  remainder, over the text with its first four characters moved to the end.
\<close>

definition mod97_step :: "nat \<Rightarrow> nat \<Rightarrow> nat" where
  "mod97_step r ch = (if ascii_digit ch then 10 * r + (ch - 48) else 100 * r + (ch - 55)) mod 97"

definition mod97 :: "pystr \<Rightarrow> nat" where
  "mod97 s = foldl mod97_step 0 s"

lemma str_nat_two: "10 \<le> n \<Longrightarrow> n < 100 \<Longrightarrow> str_nat n = [48 + n div 10, 48 + n mod 10]"
proof -
  assume n: "10 \<le> n" "n < 100"
  then have "n div 10 < 10" by auto
  then show ?thesis using n by (simp add: str_nat_def dec_rev.simps [of n] dec_rev.simps [of "n div 10"])
qed

lemma mod97_step_mod:
  "mod97_step (a mod 97) c = (if ascii_digit c then 10 * a + (c - 48) else 100 * a + (c - 55)) mod 97"
proof -
  have "(k * (a mod 97) + x) mod 97 = (k * a + x) mod 97" for k x :: nat
    by (metis mod_add_left_eq mod_mult_right_eq)
  then show ?thesis by (simp add: mod97_step_def)
qed

lemma iban_convert_val:
  assumes "ucd_ascii u" "list_all (\<lambda>c. ascii_uppercase c \<or> ascii_digit c) s"
  shows "\<exists>n. digits_val u acc (iban_convert u s) = Some n \<and> n mod 97 = foldl mod97_step (acc mod 97) s"
  using assms(2)
proof (induction s arbitrary: acc)
  case Nil
  then show ?case by (simp add: iban_convert_def)
next
  case (Cons c s)
  have c: "c < 128" using Cons.prems by (auto simp: ascii_defs)
  have dig: "u_decimal u d = Some (d - 48)" if "48 \<le> d" "d \<le> 57" for d
    using ucd_asciiD(1) [OF assms(1), of d] that by (simp add: ascii_digit_def)
  have IH: "\<exists>n. digits_val u a (iban_convert u s) = Some n \<and> n mod 97 = foldl mod97_step (a mod 97) s" for a
    using Cons by simp
  have cv: "iban_convert u (c # s) = (if ascii_digit c then [c] else str_int (int c - 55)) @ iban_convert u s"
    using ucd_asciiD(2) [OF assms(1) c] by (simp add: iban_convert_def)
  show ?case
  proof (cases "ascii_digit c")
    case True
    then show ?thesis
      using IH [of "10 * acc + (c - 48)"] dig [of c]
      by (simp add: cv mod97_step_mod) (simp add: ascii_digit_def)
  next
    case False
    then have r: "65 \<le> c" "c \<le> 90" using Cons.prems by (auto simp: ascii_uppercase_def)
    then have s: "str_int (int c - 55) = [48 + (c - 55) div 10, 48 + (c - 55) mod 10]"
      by (subst str_int_def) (simp add: str_nat_two nat_diff_distrib')
    have "digits_val u acc (iban_convert u (c # s)) = digits_val u (100 * acc + (c - 55)) (iban_convert u s)"
      using False r by (simp add: cv s dig div_le_mono algebra_simps)
    then show ?thesis using IH [of "100 * acc + (c - 55)"] False by (simp add: mod97_step_mod)
  qed
qed

lemma iban_mod97_iff:
  assumes u: "ucd_ascii u" and w: "w = py_upper u (digits_of u s)" and nl: "10 \<notin> set w"
  shows "iban_mod97 u s \<longleftrightarrow> iban_shape w \<and> mod97 (drop 4 w @ take 4 w) = 1"
proof (cases "iban_shape w")
  case False
  then show ?thesis using iban_match [OF nl, of u] w by (auto simp: iban_mod97_def Let_def)
next
  case True
  have "w = take 2 w @ slice w 2 4 @ drop 4 w" using take_slice_drop [of 2 4 w] by simp
  moreover have "list_all (\<lambda>c. ascii_uppercase c \<or> ascii_digit c) (take 2 w @ slice w 2 4 @ drop 4 w)"
    using True by (auto simp: iban_shape_def list_all_iff)
  ultimately have "list_all (\<lambda>c. ascii_uppercase c \<or> ascii_digit c) w" by simp
  then have "list_all (\<lambda>c. ascii_uppercase c \<or> ascii_digit c) (drop 4 w @ take 4 w)"
    by (auto simp: list_all_iff dest: in_set_dropD in_set_takeD)
  then obtain n where n: "digits_val u 0 (iban_convert u (drop 4 w @ take 4 w)) = Some n"
    "n mod 97 = mod97 (drop 4 w @ take 4 w)"
    using iban_convert_val [OF u, of _ 0] unfolding mod97_def by fastforce
  have "drop 4 w @ take 4 w \<noteq> []" using True by (auto simp: iban_shape_def)
  then have "iban_convert u (drop 4 w @ take 4 w) \<noteq> []"
    by (cases "drop 4 w @ take 4 w") (auto simp: iban_convert_def str_int_def)
  moreover obtain m where "re_match u IBAN_RE w = Some m" using True iban_match [OF nl, of u] by blast
  ultimately show ?thesis
    using True n by (simp add: iban_mod97_def Let_def py_int_digits_def w [symmetric])
qed

section \<open>Totality\<close>

lemma digits_val_ascii:
  assumes "ucd_ascii u" "list_all ascii_digit s"
  shows "\<exists>n. digits_val u acc s = Some n"
  using assms(2)
proof (induction s arbitrary: acc)
  case (Cons c s)
  then have "u_decimal u c = Some (c - 48)"
    using ucd_asciiD(1) [OF assms(1), of c] by (simp add: ascii_digit_def)
  then show ?case using Cons by simp
qed simp

lemma itin_check_ascii:
  assumes "ucd_ascii u" "\<forall>c\<in>set s. c < 128"
  shows "\<exists>b. itin_check u s = Inr b"
proof -
  let ?c = "digits_of u s"
  have lt: "\<forall>c\<in>set ?c. c < 128" using assms(2) by (simp add: digits_of_filter)
  show ?thesis
  proof (cases "length ?c = 9 \<and> py_isdigit u ?c")
    case True
    then have "list_all ascii_digit ?c"
      using lt ucd_asciiD(2) [OF assms(1)] by (auto simp: py_isdigit_def list_all_iff)
    then have "list_all ascii_digit (slice ?c 3 5)"
      by (auto simp: list_all_iff slice_def dest: in_set_takeD in_set_dropD)
    then obtain n where "digits_val u 0 (slice ?c 3 5) = Some n" using digits_val_ascii [OF assms(1)] by blast
    moreover have "slice ?c 3 5 \<noteq> []" using True length_slice [of ?c 3 5] by (intro notI) simp
    ultimately have "py_int_digits u (slice ?c 3 5) = Inr n" by (auto simp: py_int_digits_def)
    then show ?thesis unfolding itin_check_def Let_def by (cases "digits_of u s ! 0 = 57") auto
  qed (auto simp: itin_check_def Let_def)
qed

lemma filter_ascii_sep:
  assumes "ucd_ascii u" "\<forall>c\<in>set s. c < 128"
  shows "digits_of u s = filter (\<lambda>c. \<not> ascii_space c \<and> c \<noteq> 45) s"
  using assms by (auto simp: digits_of_filter ucd_asciiD intro: filter_cong)

lemma upper_ascii: "ucd_ascii u \<Longrightarrow> \<forall>c\<in>set s. c < 128 \<Longrightarrow> py_upper u s = map ascii_upper s"
  by (induction s) (simp_all add: py_upper_def ucd_asciiD)

section \<open>Properties\<close>

text \<open>C11. On a number that passes the Luhn check, replacing one digit by another, or swapping two
  neighbouring digits other than 0 and 9, makes the check fail.\<close>

theorem luhn_detects_errors:
  assumes "ucd_ascii u" "list_all ascii_digit (a @ c # d # b)" "luhn u (a @ c # d # b)" "ascii_digit e"
  shows "(e \<noteq> c \<longrightarrow> \<not> luhn u (a @ e # d # b)) \<and> (e \<noteq> d \<longrightarrow> \<not> luhn u (a @ c # e # b)) \<and>
    (c \<noteq> d \<and> {c, d} \<noteq> {48, 57} \<longrightarrow> \<not> luhn u (a @ d # c # b))"
  using assms luhn_single_error [of u a c "d # b" e] luhn_single_error [of u "a @ [c]" d b e]
    luhn_transposition [of u a c d b] by auto

text \<open>C10. On an ASCII text \<open>iban_mod97\<close> is the ISO 13616 check: after dropping white space and
  hyphens and upper-casing, two letters, two digits and one to thirty letters or digits, with
  remainder 1 modulo 97 once the first four characters are moved to the end.\<close>

theorem iban_mod97_correct:
  assumes "ucd_ascii u" "\<forall>c\<in>set s. c < 128"
    and "w = map ascii_upper (filter (\<lambda>c. \<not> ascii_space c \<and> c \<noteq> 45) s)"
  shows "iban_mod97 u s \<longleftrightarrow> iban_shape w \<and> mod97 (drop 4 w @ take 4 w) = 1"
proof (rule iban_mod97_iff [OF assms(1)])
  have "\<forall>c\<in>set (digits_of u s). c < 128" using assms(2) by (simp add: digits_of_filter)
  then show "w = py_upper u (digits_of u s)"
    using assms filter_ascii_sep upper_ascii by simp
  show "10 \<notin> set w"
    using assms(3) by (auto simp: ascii_defs split: if_splits)
qed

text \<open>On an ASCII match text no registered validator raises.\<close>

lemma validators_total:
  assumes "ucd_ascii u" "\<forall>c\<in>set s. c < 128" "get_validator u name = Some v"
  shows "\<exists>b. v s = Inr b"
  using assms(3) itin_check_ascii [OF assms(1,2)]
  by (auto simp: get_validator_def VALIDATORS_def split: if_splits)

text \<open>No text is both an ITIN and an SSN: the two validators never both accept.\<close>

lemma itin_not_ssn:
  assumes "itin_check u s = Inr True"
  shows "\<not> ssn_check u s"
proof -
  have "digits_of u s ! 0 = 57" "length (digits_of u s) = 9"
    using assms by (auto simp: itin_check_def Let_def split: if_splits)
  then have "slice (digits_of u s) 0 3 ! 0 = 57" by (simp add: nth_slice)
  then show ?thesis unfolding ssn_check_def Let_def by (simp split: if_splits)
qed

text \<open>Digits outside ASCII: Arabic-Indic digits (decimals) and a superscript (a digit, no decimal).\<close>

definition wide_ucd :: ucd where
  "wide_ucd = ascii_ucd
     \<lparr>u_decimal := \<lambda>c. if ascii_digit c then Some (c - 48)
                       else if 1632 \<le> c \<and> c \<le> 1641 then Some (c - 1632) else None,
      u_digit := \<lambda>c. ascii_digit c \<or> 1632 \<le> c \<and> c \<le> 1641 \<or> c = 178\<rparr>"

lemma wide_ucd_ascii: "ucd_ascii wide_ucd"
  by (simp add: ucd_ascii_def wide_ucd_def ascii_ucd_def ascii_digit_def)

definition visa :: pystr where "visa = 52 # replicate 15 49"

text \<open>The Luhn check reads a digit as its code minus 48, which is its value for ASCII only: a
  card number that passes is rejected when written with Arabic-Indic digits, which the pattern's
  \<open>\d\<close> and \<open>isdigit\<close> both accept.\<close>

lemma luhn_other_digits:
  "luhn wide_ucd visa \<and> \<not> luhn wide_ucd (map (\<lambda>c. c + 1584) visa)
   \<and> (\<forall>c\<in>set (map (\<lambda>c. c + 1584) visa). u_decimal wide_ucd c \<noteq> None)"
  unfolding luhn_def digits_of_filter by code_simp

text \<open>\<open>itin_check\<close> can raise \<open>ValueError\<close>: a superscript passes \<open>isdigit\<close> and is no input
  for \<open>int\<close>.\<close>

lemma itin_check_raises:
  "itin_check wide_ucd (57 # replicate 3 49 @ 178 # replicate 4 49) = Inl ValueError"
  by (simp add: itin_check_def digits_of_filter wide_ucd_def ascii_ucd_def py_isdigit_def ascii_digit_def
      ascii_space_def Let_def slice_def py_int_digits_def numeral_eq_Suc)

section \<open>Witnesses\<close>

lemma visa_luhn: "luhn ascii_ucd visa"
  unfolding luhn_def digits_of_filter by code_simp

theorem luhn_detects_errors_witness: "\<not> luhn ascii_ucd (49 # 52 # replicate 14 49)"
proof -
  have v: "visa = [] @ 52 # 49 # replicate 14 49" by (simp add: visa_def numeral_eq_Suc)
  have "list_all ascii_digit ([] @ 52 # 49 # replicate 14 49)" by (simp add: ascii_digit_def numeral_eq_Suc)
  then show ?thesis
    using luhn_detects_errors [OF ucd_ascii_ascii_ucd, of "[]" 52 49 "replicate 14 49" 48] visa_luhn
    unfolding v by (simp add: ascii_digit_def doubleton_eq_iff)
qed

text \<open>\<open>gb82 WEST-1234 5698 7654 32\<close>\<close>

definition iban_example :: pystr where
  "iban_example = [103, 98, 56, 50, 32, 87, 69, 83, 84, 45, 49, 50, 51, 52, 32, 53, 54, 57, 56, 32,
     55, 54, 53, 52, 32, 51, 50]"

theorem iban_mod97_correct_witness: "iban_mod97 ascii_ucd iban_example"
proof -
  have a: "\<forall>c\<in>set iban_example. c < 128" by (simp add: iban_example_def)
  show ?thesis
    unfolding iban_mod97_correct [OF ucd_ascii_ascii_ucd a refl]
    by (simp add: iban_example_def ascii_defs iban_shape_def slice_def mod97_def mod97_step_def)
qed

end
