(* ===== verification/Utf8.thy ===== *)
theory Utf8
  imports RG_Prelude
begin

text \<open>
  \<open>str.encode()\<close> and \<open>bytes.decode()\<close>: strict UTF-8, as the vault, the audit log and the desktop
  store use it. A lone surrogate cannot be encoded; the decoder rejects truncated, overlong,
  surrogate and out-of-range sequences.
\<close>

definition surrogate :: "nat \<Rightarrow> bool" where "surrogate c \<longleftrightarrow> 55296 \<le> c \<and> c < 57344"

definition encodable :: "pystr \<Rightarrow> bool" where
  "encodable s \<longleftrightarrow> list_all (\<lambda>c. c < 1114112 \<and> \<not> surrogate c) s"

definition enc1 :: "nat \<Rightarrow> nat list" where
  "enc1 c =
     (if c < 128 then [c]
      else if c < 2048 then [192 + c div 64, 128 + c mod 64]
      else if c < 65536 then [224 + c div 4096, 128 + c div 64 mod 64, 128 + c mod 64]
      else [240 + c div 262144, 128 + c div 4096 mod 64, 128 + c div 64 mod 64, 128 + c mod 64])"

definition utf8_encode :: "pystr \<Rightarrow> bytes res" where
  "utf8_encode s = (if encodable s then Inr (map of_nat (concat (map enc1 s))) else Inl UnicodeError)"

definition cont :: "nat \<Rightarrow> bool" where "cont b \<longleftrightarrow> 128 \<le> b \<and> b < 192"

fun dec :: "nat list \<Rightarrow> nat list option" where
  "dec [] = Some []"
| "dec (a # r) =
     (if a < 128 then map_option ((#) a) (dec r)
      else if 194 \<le> a \<and> a < 224 then
        (case r of b # r1 \<Rightarrow> if cont b then map_option ((#) ((a - 192) * 64 + (b - 128))) (dec r1) else None
         | _ \<Rightarrow> None)
      else if 224 \<le> a \<and> a < 240 then
        (case r of b # c # r2 \<Rightarrow>
           (let v = (a - 224) * 4096 + (b - 128) * 64 + (c - 128) in
            if cont b \<and> cont c \<and> 2048 \<le> v \<and> \<not> surrogate v then map_option ((#) v) (dec r2) else None)
         | _ \<Rightarrow> None)
      else if 240 \<le> a \<and> a < 245 then
        (case r of b # c # d # r3 \<Rightarrow>
           (let v = (a - 240) * 262144 + (b - 128) * 4096 + (c - 128) * 64 + (d - 128) in
            if cont b \<and> cont c \<and> cont d \<and> 65536 \<le> v \<and> v < 1114112 then map_option ((#) v) (dec r3) else None)
         | _ \<Rightarrow> None)
      else None)"

definition utf8_decode :: "bytes \<Rightarrow> pystr res" where
  "utf8_decode b = (case dec (map unat b) of None \<Rightarrow> Inl UnicodeError | Some s \<Rightarrow> Inr s)"

lemma split_digits: "c div 4096 * 4096 + c div 64 mod 64 * 64 + c mod 64 = (c::nat)"
  "c div 262144 * 262144 + c div 4096 mod 64 * 4096 + c div 64 mod 64 * 64 + c mod 64 = c"
proof -
  have a: "c div 64 * 64 + c mod 64 = c" by simp
  have b: "c div 4096 * 64 + c div 64 mod 64 = c div 64"
    using div_mult_mod_eq [of "c div 64" 64] by (simp add: div_mult2_eq [symmetric])
  have d: "c div 262144 * 64 + c div 4096 mod 64 = c div 4096"
    using div_mult_mod_eq [of "c div 4096" 64] by (simp add: div_mult2_eq [symmetric])
  show 1: "c div 4096 * 4096 + c div 64 mod 64 * 64 + c mod 64 = c" using a b by linarith
  show "c div 262144 * 262144 + c div 4096 mod 64 * 4096 + c div 64 mod 64 * 64 + c mod 64 = c" using 1 d by linarith
qed

lemma dec_enc1:
  assumes "c < 1114112" "\<not> surrogate c"
  shows "dec (enc1 c @ r) = map_option ((#) c) (dec r)"
proof -
  consider "c < 128" | "128 \<le> c" "c < 2048" | "2048 \<le> c" "c < 65536" | "65536 \<le> c" by linarith
  then show ?thesis
  proof cases
    case 2
    then have "2 \<le> c div 64" "c div 64 < 32" by auto
    then show ?thesis using 2 by (simp add: enc1_def cont_def)
  next
    case 3
    then have "c div 4096 < 16" by auto
    then show ?thesis using 3 assms split_digits(1) [of c] by (simp add: enc1_def cont_def Let_def)
  next
    case 4
    then have "c div 262144 < 5" using assms(1) by auto
    then show ?thesis using 4 assms split_digits(2) [of c] by (simp add: enc1_def cont_def Let_def)
  qed (simp add: enc1_def)
qed

lemma dec_encode: "encodable s \<Longrightarrow> dec (concat (map enc1 s)) = Some s"
  by (induction s) (simp_all add: encodable_def dec_enc1)

lemma enc1_byte: "c < 1114112 \<Longrightarrow> b \<in> set (enc1 c) \<Longrightarrow> b < 256"
proof -
  assume c: "c < 1114112" "b \<in> set (enc1 c)"
  have "c < 2048 \<Longrightarrow> c div 64 < 32" "c < 65536 \<Longrightarrow> c div 4096 < 16" "c div 262144 < 5"
    "c mod 64 < 64" "c div 64 mod 64 < 64" "c div 4096 mod 64 < 64"
    using c(1) by auto
  then show ?thesis using c(2) unfolding enc1_def by (auto split: if_splits)
qed

lemma utf8_roundtrip: "utf8_encode s = Inr b \<Longrightarrow> utf8_decode b = Inr s"
proof -
  assume enc: "utf8_encode s = Inr b"
  then have s: "encodable s" "b = map of_nat (concat (map enc1 s))" by (auto simp: utf8_encode_def split: if_splits)
  have lt: "x < 256" if "x \<in> set (concat (map enc1 s))" for x
    using that s(1) enc1_byte by (auto simp: encodable_def list_all_iff)
  have "map (unat \<circ> (of_nat :: nat \<Rightarrow> 8 word)) (concat (map enc1 s)) = map id (concat (map enc1 s))"
    using lt by (intro map_cong) (auto simp: unat_of_nat take_bit_eq_mod)
  then have "map unat b = concat (map enc1 s)" unfolding s(2) map_map by simp
  then show ?thesis using dec_encode [OF s(1)] by (simp add: utf8_decode_def)
qed

lemma utf8_encode_inj: "utf8_encode s = Inr b \<Longrightarrow> utf8_encode t = Inr b \<Longrightarrow> s = t"
  by (metis utf8_roundtrip sum.inject(2))

lemma utf8_encode_ok: "encodable s \<Longrightarrow> \<exists>b. utf8_encode s = Inr b"
  by (simp add: utf8_encode_def)

lemma encodable_append [simp]: "encodable (s @ t) \<longleftrightarrow> encodable s \<and> encodable t"
  by (simp add: encodable_def)

lemma encodable_slice: "encodable s \<Longrightarrow> encodable (slice s a b)"
  by (auto simp: encodable_def list_all_iff slice_def dest: in_set_takeD in_set_dropD)

end
