(* ===== verification/Store.thy ===== *)
theory Store
  imports RG_Prelude
begin

text \<open>
  The token store of the vault: the interface \<open>TokenStore\<close> (\<open>app/redaction/store.py\<close>) as a
  record of operations with the laws a client may use, and its two implementations, the
  in-memory store and the Postgres store (\<open>app/redaction/pg_store.py\<close>).
\<close>

section \<open>Records and the interface\<close>

record token_record =
  tr_session :: pystr
  tr_placeholder :: pystr
  tr_type :: pystr
  tr_cipher :: bytes
  tr_fp :: pystr
  tr_occ :: int

text \<open>The operations of the protocol class, over a store state \<open>'s\<close>.\<close>

record 's store_ops =
  so_get_fp :: "'s \<Rightarrow> pystr \<Rightarrow> pystr \<Rightarrow> token_record option res"
  so_get_ph :: "'s \<Rightarrow> pystr \<Rightarrow> pystr \<Rightarrow> token_record option res"
  so_put :: "'s \<Rightarrow> token_record \<Rightarrow> 's res"
  so_bump :: "'s \<Rightarrow> pystr \<Rightarrow> pystr \<Rightarrow> 's res"
  so_all :: "'s \<Rightarrow> pystr \<Rightarrow> token_record list res"

definition bump_rec :: "token_record \<Rightarrow> token_record" where
  "bump_rec r = r\<lparr>tr_occ := tr_occ r + 1\<rparr>"

definition bump_fp :: "pystr \<Rightarrow> token_record list \<Rightarrow> token_record list" where
  "bump_fp fp rs = map (\<lambda>r. if tr_fp r = fp then bump_rec r else r) rs"

lemma bump_rec_fields [simp]:
  "tr_session (bump_rec r) = tr_session r" "tr_placeholder (bump_rec r) = tr_placeholder r"
  "tr_type (bump_rec r) = tr_type r" "tr_cipher (bump_rec r) = tr_cipher r" "tr_fp (bump_rec r) = tr_fp r"
  by (simp_all add: bump_rec_def)

text \<open>
  What an implementation promises: every session holds a list of records with distinct
  fingerprints (\<open>recs\<close>); look-ups find a record of the session; storing a record under a new
  fingerprint adds it to its session and changes no other; it succeeds at least when the
  placeholder is new as well; bumping counts an occurrence. \<open>okid\<close> are the session ids the
  store accepts.
\<close>

locale token_store =
  fixes ops :: "'s store_ops" and inv :: "'s \<Rightarrow> bool" and okid :: "pystr \<Rightarrow> bool"
    and recs :: "'s \<Rightarrow> pystr \<Rightarrow> token_record list"
  assumes recs_session: "inv s \<Longrightarrow> okid sid \<Longrightarrow> r \<in> set (recs s sid) \<Longrightarrow> tr_session r = sid"
    and recs_distinct: "inv s \<Longrightarrow> okid sid \<Longrightarrow> distinct (map tr_fp (recs s sid))"
    and get_fp: "inv s \<Longrightarrow> okid sid \<Longrightarrow> \<exists>q. so_get_fp ops s sid fp = Inr q \<and>
      (case q of None \<Rightarrow> fp \<notin> tr_fp ` set (recs s sid) | Some r \<Rightarrow> r \<in> set (recs s sid) \<and> tr_fp r = fp)"
    and get_ph: "inv s \<Longrightarrow> okid sid \<Longrightarrow> distinct (map tr_placeholder (recs s sid)) \<Longrightarrow>
      \<exists>q. so_get_ph ops s sid ph = Inr q \<and>
      (case q of None \<Rightarrow> ph \<notin> tr_placeholder ` set (recs s sid)
       | Some r \<Rightarrow> r \<in> set (recs s sid) \<and> tr_placeholder r = ph)"
    and put: "inv s \<Longrightarrow> okid (tr_session r) \<Longrightarrow> tr_fp r \<notin> tr_fp ` set (recs s (tr_session r)) \<Longrightarrow>
      so_put ops s r = Inr s' \<Longrightarrow>
      inv s' \<and> recs s' (tr_session r) = recs s (tr_session r) @ [r] \<and>
      (\<forall>sid. okid sid \<longrightarrow> sid \<noteq> tr_session r \<longrightarrow> recs s' sid = recs s sid)"
    and put_ok: "inv s \<Longrightarrow> okid (tr_session r) \<Longrightarrow> tr_fp r \<notin> tr_fp ` set (recs s (tr_session r)) \<Longrightarrow>
      tr_placeholder r \<notin> tr_placeholder ` set (recs s (tr_session r)) \<Longrightarrow> \<exists>s'. so_put ops s r = Inr s'"
    and bump: "inv s \<Longrightarrow> okid sid \<Longrightarrow> \<exists>s'. so_bump ops s sid fp = Inr s' \<and> inv s' \<and>
      recs s' sid = bump_fp fp (recs s sid) \<and>
      (\<forall>sid'. okid sid' \<longrightarrow> sid' \<noteq> sid \<longrightarrow> recs s' sid' = recs s sid')"
    and all: "inv s \<Longrightarrow> okid sid \<Longrightarrow> so_all ops s sid = Inr (recs s sid)"

section \<open>The in-memory store\<close>

text \<open>
  The two dictionaries share the record objects, and \<open>bump_occurrence\<close> mutates the object:
  the records are kept in a heap and the dictionaries hold their addresses.
\<close>

record mem_store =
  ms_heap :: "token_record list"
  ms_by_fp :: "((pystr \<times> pystr) \<times> nat) list"
  ms_by_ph :: "((pystr \<times> pystr) \<times> nat) list"

definition mem_empty :: mem_store where
  "mem_empty = \<lparr>ms_heap = [], ms_by_fp = [], ms_by_ph = []\<rparr>"

definition mem_get_by_fingerprint :: "mem_store \<Rightarrow> pystr \<Rightarrow> pystr \<Rightarrow> token_record option res" where
  "mem_get_by_fingerprint s sid fp = Inr (map_option ((!) (ms_heap s)) (map_of (ms_by_fp s) (sid, fp)))"

definition mem_get_by_placeholder :: "mem_store \<Rightarrow> pystr \<Rightarrow> pystr \<Rightarrow> token_record option res" where
  "mem_get_by_placeholder s sid ph = Inr (map_option ((!) (ms_heap s)) (map_of (ms_by_ph s) (sid, ph)))"

definition mem_put :: "mem_store \<Rightarrow> token_record \<Rightarrow> mem_store res" where
  "mem_put s r =
     (let a = length (ms_heap s) in
      Inr \<lparr>ms_heap = ms_heap s @ [r],
           ms_by_fp = AList.update (tr_session r, tr_fp r) a (ms_by_fp s),
           ms_by_ph = AList.update (tr_session r, tr_placeholder r) a (ms_by_ph s)\<rparr>)"

definition mem_bump_occurrence :: "mem_store \<Rightarrow> pystr \<Rightarrow> pystr \<Rightarrow> mem_store res" where
  "mem_bump_occurrence s sid fp =
     (case map_of (ms_by_fp s) (sid, fp) of
        None \<Rightarrow> Inr s
      | Some a \<Rightarrow> Inr (s\<lparr>ms_heap := (ms_heap s)[a := bump_rec (ms_heap s ! a)]\<rparr>))"

definition mem_all_for_session :: "mem_store \<Rightarrow> pystr \<Rightarrow> token_record list res" where
  "mem_all_for_session s sid =
     Inr (map (\<lambda>(k, a). ms_heap s ! a) (filter (\<lambda>((sid', _), _). sid' = sid) (ms_by_fp s)))"

definition mem_ops :: "mem_store store_ops" where
  "mem_ops =
     \<lparr>so_get_fp = mem_get_by_fingerprint, so_get_ph = mem_get_by_placeholder, so_put = mem_put,
      so_bump = mem_bump_occurrence, so_all = mem_all_for_session\<rparr>"

text \<open>
  The addresses of the first dictionary are distinct and each record sits under its own
  session and fingerprint; the second dictionary points to records of the first, under their
  session and placeholder, and to some record for each placeholder in use.
\<close>

definition mem_inv :: "mem_store \<Rightarrow> bool" where
  "mem_inv s \<longleftrightarrow>
     distinct (map fst (ms_by_fp s)) \<and> distinct (map snd (ms_by_fp s)) \<and>
     (\<forall>(k, a)\<in>set (ms_by_fp s). a < length (ms_heap s) \<and>
        k = (tr_session (ms_heap s ! a), tr_fp (ms_heap s ! a))) \<and>
     (\<forall>k a. map_of (ms_by_ph s) k = Some a \<longrightarrow> a \<in> snd ` set (ms_by_fp s) \<and>
        k = (tr_session (ms_heap s ! a), tr_placeholder (ms_heap s ! a))) \<and>
     (\<forall>a\<in>snd ` set (ms_by_fp s).
        map_of (ms_by_ph s) (tr_session (ms_heap s ! a), tr_placeholder (ms_heap s ! a)) \<noteq> None)"

definition mem_recs :: "mem_store \<Rightarrow> pystr \<Rightarrow> token_record list" where
  "mem_recs s sid = map (\<lambda>(k, a). ms_heap s ! a) (filter (\<lambda>(k, a). fst k = sid) (ms_by_fp s))"

lemma mem_invD:
  assumes "mem_inv s"
  shows "distinct (map fst (ms_by_fp s))" "distinct (map snd (ms_by_fp s))"
    "\<And>k a. (k, a) \<in> set (ms_by_fp s) \<Longrightarrow> a < length (ms_heap s) \<and> k = (tr_session (ms_heap s ! a), tr_fp (ms_heap s ! a))"
    "\<And>k a. map_of (ms_by_ph s) k = Some a \<Longrightarrow> a \<in> snd ` set (ms_by_fp s) \<and>
        k = (tr_session (ms_heap s ! a), tr_placeholder (ms_heap s ! a))"
    "\<And>a. a \<in> snd ` set (ms_by_fp s) \<Longrightarrow>
        \<exists>b. map_of (ms_by_ph s) (tr_session (ms_heap s ! a), tr_placeholder (ms_heap s ! a)) = Some b"
  using assms unfolding mem_inv_def by blast+

lemma in_mem_recs: "mem_inv s \<Longrightarrow> r \<in> set (mem_recs s sid) \<longleftrightarrow>
    (\<exists>a\<in>snd ` set (ms_by_fp s). r = ms_heap s ! a \<and> tr_session r = sid)"
proof -
  assume inv: "mem_inv s"
  have "r \<in> set (mem_recs s sid) \<longleftrightarrow> (\<exists>k a. (k, a) \<in> set (ms_by_fp s) \<and> fst k = sid \<and> r = ms_heap s ! a)"
    by (auto simp: mem_recs_def image_iff)
  also have "\<dots> \<longleftrightarrow> (\<exists>k a. (k, a) \<in> set (ms_by_fp s) \<and> tr_session r = sid \<and> r = ms_heap s ! a)"
    using mem_invD(3) [OF inv] by (metis fst_conv)
  also have "\<dots> \<longleftrightarrow> (\<exists>a\<in>snd ` set (ms_by_fp s). r = ms_heap s ! a \<and> tr_session r = sid)"
    by force
  finally show ?thesis .
qed

lemma mem_recs_distinct:
  assumes "mem_inv s"
  shows "distinct (map tr_fp (mem_recs s sid))"
proof -
  let ?f = "filter (\<lambda>(k, a). fst k = sid) (ms_by_fp s)"
  have "map tr_fp (mem_recs s sid) = map (snd \<circ> fst) ?f"
    unfolding mem_recs_def map_map by (intro map_cong refl) (use mem_invD(3) [OF assms] in auto)
  also have "\<dots> = map snd (map fst ?f)" by simp
  also have "distinct \<dots>"
  proof -
    have "distinct (map fst ?f)" using mem_invD(1) [OF assms] by (rule distinct_map_filter)
    moreover have "inj_on snd (set (map fst ?f))" by (auto simp: inj_on_def)
    ultimately show ?thesis unfolding distinct_map by blast
  qed
  finally show ?thesis .
qed

lemma mem_fp_key: "mem_inv s \<Longrightarrow> fp \<notin> tr_fp ` set (mem_recs s sid) \<Longrightarrow> (sid, fp) \<notin> fst ` set (ms_by_fp s)"
proof
  assume *: "mem_inv s" "fp \<notin> tr_fp ` set (mem_recs s sid)" "(sid, fp) \<in> fst ` set (ms_by_fp s)"
  then obtain a where a: "((sid, fp), a) \<in> set (ms_by_fp s)" by auto
  then have "ms_heap s ! a \<in> set (mem_recs s sid)" "tr_fp (ms_heap s ! a) = fp"
    using in_mem_recs [OF *(1)] mem_invD(3) [OF *(1) a] by force+
  then show False using *(2) by blast
qed

lemma mem_put_inv:
  assumes inv: "mem_inv s" and new: "tr_fp r \<notin> tr_fp ` set (mem_recs s (tr_session r))" and put: "mem_put s r = Inr s'"
  shows "mem_inv s'" and "mem_recs s' sid = mem_recs s sid @ (if sid = tr_session r then [r] else [])"
proof -
  let ?n = "length (ms_heap s)"
  have fresh: "(tr_session r, tr_fp r) \<notin> fst ` set (ms_by_fp s)" using mem_fp_key [OF inv new] .
  have lt: "a < ?n" if "a \<in> snd ` set (ms_by_fp s)" for a using mem_invD(3) [OF inv] that by auto
  have nth: "(ms_heap s @ [r]) ! a = ms_heap s ! a" if "a \<in> snd ` set (ms_by_fp s)" for a
    using lt [OF that] by (simp add: nth_append)
  have s': "ms_heap s' = ms_heap s @ [r]" "ms_by_fp s' = ms_by_fp s @ [((tr_session r, tr_fp r), ?n)]"
    "ms_by_ph s' = AList.update (tr_session r, tr_placeholder r) ?n (ms_by_ph s)"
    using put update_fresh [OF fresh] by (auto simp: mem_put_def Let_def)
  have dom: "snd ` set (ms_by_fp s') = insert ?n (snd ` set (ms_by_fp s))" by (simp add: s')
  show "mem_inv s'"
    unfolding mem_inv_def
  proof (intro conjI)
    show "distinct (map fst (ms_by_fp s'))" using mem_invD(1) [OF inv] fresh by (simp add: s')
    show "distinct (map snd (ms_by_fp s'))" using mem_invD(2) [OF inv] lt by (auto simp: s')
    show "\<forall>(k, a)\<in>set (ms_by_fp s'). a < length (ms_heap s') \<and> k = (tr_session (ms_heap s' ! a), tr_fp (ms_heap s' ! a))"
      using mem_invD(3) [OF inv] by (auto simp: s' nth_append less_Suc_eq)
    show "\<forall>k a. map_of (ms_by_ph s') k = Some a \<longrightarrow> a \<in> snd ` set (ms_by_fp s') \<and>
        k = (tr_session (ms_heap s' ! a), tr_placeholder (ms_heap s' ! a))"
      unfolding dom using mem_invD(4) [OF inv] by (auto simp: s' nth split: if_splits)
    show "\<forall>a\<in>snd ` set (ms_by_fp s').
        map_of (ms_by_ph s') (tr_session (ms_heap s' ! a), tr_placeholder (ms_heap s' ! a)) \<noteq> None"
      unfolding dom using mem_invD(5) [OF inv] by (auto simp: s' nth)
  qed
  have "map (\<lambda>(k, a). (ms_heap s @ [r]) ! a) (filter (\<lambda>(k, a). fst k = sid) (ms_by_fp s)) =
      map (\<lambda>(k, a). ms_heap s ! a) (filter (\<lambda>(k, a). fst k = sid) (ms_by_fp s))"
  proof (intro map_cong refl)
    fix x assume "x \<in> set (filter (\<lambda>(k, a). fst k = sid) (ms_by_fp s))"
    then have "snd x \<in> snd ` set (ms_by_fp s)" by auto
    then show "(case x of (k, a) \<Rightarrow> (ms_heap s @ [r]) ! a) = (case x of (k, a) \<Rightarrow> ms_heap s ! a)"
      using nth by (simp add: case_prod_beta)
  qed
  then show "mem_recs s' sid = mem_recs s sid @ (if sid = tr_session r then [r] else [])"
    by (simp add: mem_recs_def s')
qed

lemma mem_bump_inv:
  assumes inv: "mem_inv s"
  shows "\<exists>s'. mem_bump_occurrence s sid fp = Inr s' \<and> mem_inv s' \<and>
     mem_recs s' sid = bump_fp fp (mem_recs s sid) \<and> (\<forall>sid'. sid' \<noteq> sid \<longrightarrow> mem_recs s' sid' = mem_recs s sid')"
proof (cases "map_of (ms_by_fp s) (sid, fp)")
  case None
  then have "fp \<notin> tr_fp ` set (mem_recs s sid)"
    using mem_invD(3) [OF inv] by (fastforce simp: map_of_eq_None_iff in_mem_recs [OF inv] image_iff)
  then have "bump_fp fp (mem_recs s sid) = mem_recs s sid"
    unfolding bump_fp_def by (intro map_idI) auto
  then show ?thesis using None inv by (simp add: mem_bump_occurrence_def)
next
  case (Some a)
  then have a: "((sid, fp), a) \<in> set (ms_by_fp s)" by (rule map_of_SomeD)
  let ?h = "(ms_heap s)[a := bump_rec (ms_heap s ! a)]"
  let ?s = "s\<lparr>ms_heap := ?h\<rparr>"
  have h: "?h ! b = (if b = a then bump_rec (ms_heap s ! b) else ms_heap s ! b)" for b
    using mem_invD(3) [OF inv a] by (auto simp: nth_list_update)
  have inv': "mem_inv ?s"
  proof -
    have "tr_session (?h ! b) = tr_session (ms_heap s ! b)" "tr_fp (?h ! b) = tr_fp (ms_heap s ! b)"
      "tr_placeholder (?h ! b) = tr_placeholder (ms_heap s ! b)" for b by (simp_all add: h)
    then show ?thesis using inv unfolding mem_inv_def by simp
  qed
  have iff: "tr_fp (ms_heap s ! b) = fp \<longleftrightarrow> b = a" if "((sid, k), b) \<in> set (ms_by_fp s)" for k b
  proof
    assume "tr_fp (ms_heap s ! b) = fp"
    then have "k = fp" using mem_invD(3) [OF inv that] by simp
    then show "b = a" using that a mem_invD(1) [OF inv] by (metis eq_key_imp_eq_value)
  qed (use mem_invD(3) [OF inv a] in simp)
  have "mem_recs ?s sid = bump_fp fp (mem_recs s sid)"
    unfolding mem_recs_def bump_fp_def map_map
  proof (intro map_cong)
    fix x assume "x \<in> set (filter (\<lambda>(k, a). fst k = sid) (ms_by_fp s))"
    then obtain k b where x: "x = ((sid, k), b)" "((sid, k), b) \<in> set (ms_by_fp s)" by auto
    show "(case x of (k, b) \<Rightarrow> ms_heap ?s ! b) =
        ((\<lambda>r. if tr_fp r = fp then bump_rec r else r) \<circ> (\<lambda>(k, a). ms_heap s ! a)) x"
      using iff [OF x(2)] by (simp add: x(1) h)
  qed simp
  moreover have "mem_recs ?s sid' = mem_recs s sid'" if "sid' \<noteq> sid" for sid'
  proof -
    have "(k, b) \<in> set (ms_by_fp s) \<Longrightarrow> fst k = sid' \<Longrightarrow> b \<noteq> a" for k b
      using mem_invD(3) [OF inv, of k b] mem_invD(3) [OF inv a] that by auto
    then show ?thesis unfolding mem_recs_def by (intro map_cong) (auto simp: h)
  qed
  ultimately show ?thesis using Some inv' by (simp add: mem_bump_occurrence_def)
qed

interpretation mem: token_store mem_ops mem_inv "\<lambda>_. True" mem_recs
proof
  fix s sid r fp ph s'
  assume inv: "mem_inv s"
  show "r \<in> set (mem_recs s sid) \<Longrightarrow> tr_session r = sid" by (simp add: in_mem_recs [OF inv])
  show "distinct (map tr_fp (mem_recs s sid))" by (rule mem_recs_distinct [OF inv])
  show "\<exists>q. so_get_fp mem_ops s sid fp = Inr q \<and>
      (case q of None \<Rightarrow> fp \<notin> tr_fp ` set (mem_recs s sid) | Some r \<Rightarrow> r \<in> set (mem_recs s sid) \<and> tr_fp r = fp)"
  proof (cases "map_of (ms_by_fp s) (sid, fp)")
    case None
    then have "fp \<notin> tr_fp ` set (mem_recs s sid)"
      using mem_invD(3) [OF inv] by (fastforce simp: map_of_eq_None_iff in_mem_recs [OF inv] image_iff)
    then show ?thesis using None by (simp add: mem_ops_def mem_get_by_fingerprint_def)
  next
    case (Some a)
    then have a: "((sid, fp), a) \<in> set (ms_by_fp s)" by (rule map_of_SomeD)
    then have "ms_heap s ! a \<in> set (mem_recs s sid)" "tr_fp (ms_heap s ! a) = fp"
      using in_mem_recs [OF inv] mem_invD(3) [OF inv a] by force+
    then show ?thesis using Some by (simp add: mem_ops_def mem_get_by_fingerprint_def)
  qed
  show "\<exists>q. so_get_ph mem_ops s sid ph = Inr q \<and>
      (case q of None \<Rightarrow> ph \<notin> tr_placeholder ` set (mem_recs s sid)
       | Some r \<Rightarrow> r \<in> set (mem_recs s sid) \<and> tr_placeholder r = ph)"
  proof (cases "map_of (ms_by_ph s) (sid, ph)")
    case None
    then have "ph \<notin> tr_placeholder ` set (mem_recs s sid)"
      using mem_invD(5) [OF inv] by (fastforce simp: in_mem_recs [OF inv])
    then show ?thesis using None by (simp add: mem_ops_def mem_get_by_placeholder_def)
  next
    case (Some a)
    then have "ms_heap s ! a \<in> set (mem_recs s sid)" "tr_placeholder (ms_heap s ! a) = ph"
      using in_mem_recs [OF inv] mem_invD(4) [OF inv Some] by force+
    then show ?thesis using Some by (simp add: mem_ops_def mem_get_by_placeholder_def)
  qed
  show "so_all mem_ops s sid = Inr (mem_recs s sid)"
    unfolding mem_ops_def mem_all_for_session_def mem_recs_def
    by (simp, intro arg_cong [of _ _ "map _"] filter_cong) auto
  show "\<exists>s'. so_bump mem_ops s sid fp = Inr s' \<and> mem_inv s' \<and> mem_recs s' sid = bump_fp fp (mem_recs s sid) \<and>
      (\<forall>sid'. True \<longrightarrow> sid' \<noteq> sid \<longrightarrow> mem_recs s' sid' = mem_recs s sid')"
    using mem_bump_inv [OF inv] by (simp add: mem_ops_def)
next
  fix s s' and r :: token_record
  assume inv: "mem_inv s" and new: "tr_fp r \<notin> tr_fp ` set (mem_recs s (tr_session r))"
  show "\<exists>s'. so_put mem_ops s r = Inr s'" by (simp add: mem_ops_def mem_put_def Let_def)
  assume "so_put mem_ops s r = Inr s'"
  then show "mem_inv s' \<and> mem_recs s' (tr_session r) = mem_recs s (tr_session r) @ [r] \<and>
      (\<forall>sid. True \<longrightarrow> sid \<noteq> tr_session r \<longrightarrow> mem_recs s' sid = mem_recs s sid)"
    using mem_put_inv [OF inv new] by (auto simp: mem_ops_def)
qed

section \<open>The Postgres store\<close>

text \<open>
  The table \<open>token_map\<close> as the list of its rows, with its two unique constraints.
  \<open>uuid.UUID(s)\<close> is the parameter \<open>uuid\<close>: the canonical form of a session id, or \<open>ValueError\<close>.
  A query is a selection; \<open>scalar_one_or_none\<close> raises when it returns several rows.
\<close>

definition scalar_one_or_none :: "'r list \<Rightarrow> 'r option res" where
  "scalar_one_or_none rows =
     (case rows of [] \<Rightarrow> Inr None | [r] \<Rightarrow> Inr (Some r) | _ \<Rightarrow> Inl (RuntimeError (str ''MultipleResultsFound'')))"

definition pg_get_by_fingerprint ::
  "(pystr \<Rightarrow> pystr res) \<Rightarrow> token_record list \<Rightarrow> pystr \<Rightarrow> pystr \<Rightarrow> token_record option res" where
  "pg_get_by_fingerprint uuid rows sid fp =
     rbind (uuid sid) (\<lambda>u. scalar_one_or_none (filter (\<lambda>r. tr_session r = u \<and> tr_fp r = fp) rows))"

definition pg_get_by_placeholder ::
  "(pystr \<Rightarrow> pystr res) \<Rightarrow> token_record list \<Rightarrow> pystr \<Rightarrow> pystr \<Rightarrow> token_record option res" where
  "pg_get_by_placeholder uuid rows sid ph =
     rbind (uuid sid) (\<lambda>u. scalar_one_or_none (filter (\<lambda>r. tr_session r = u \<and> tr_placeholder r = ph) rows))"

text \<open>
  \<open>INSERT ... ON CONFLICT (session_id, value_fingerprint) DO NOTHING\<close>: a conflict on the
  fingerprint is silent, one on the placeholder is an \<open>IntegrityError\<close>.
\<close>

definition pg_put :: "(pystr \<Rightarrow> pystr res) \<Rightarrow> token_record list \<Rightarrow> token_record \<Rightarrow> token_record list res" where
  "pg_put uuid rows r =
     rbind (uuid (tr_session r)) (\<lambda>u.
       if list_ex (\<lambda>q. tr_session q = u \<and> tr_fp q = tr_fp r) rows then Inr rows
       else if list_ex (\<lambda>q. tr_session q = u \<and> tr_placeholder q = tr_placeholder r) rows then Inl IntegrityError
       else Inr (rows @ [r\<lparr>tr_session := u\<rparr>]))"

definition pg_bump_occurrence ::
  "(pystr \<Rightarrow> pystr res) \<Rightarrow> token_record list \<Rightarrow> pystr \<Rightarrow> pystr \<Rightarrow> token_record list res" where
  "pg_bump_occurrence uuid rows sid fp =
     rbind (uuid sid) (\<lambda>u.
       Inr (map (\<lambda>r. if tr_session r = u \<and> tr_fp r = fp then bump_rec r else r) rows))"

definition pg_all_for_session :: "(pystr \<Rightarrow> pystr res) \<Rightarrow> token_record list \<Rightarrow> pystr \<Rightarrow> token_record list res" where
  "pg_all_for_session uuid rows sid = rbind (uuid sid) (\<lambda>u. Inr (filter (\<lambda>r. tr_session r = u) rows))"

definition pg_ops :: "(pystr \<Rightarrow> pystr res) \<Rightarrow> token_record list store_ops" where
  "pg_ops uuid =
     \<lparr>so_get_fp = pg_get_by_fingerprint uuid, so_get_ph = pg_get_by_placeholder uuid, so_put = pg_put uuid,
      so_bump = pg_bump_occurrence uuid, so_all = pg_all_for_session uuid\<rparr>"

text \<open>The unique constraints.\<close>

definition pg_inv :: "token_record list \<Rightarrow> bool" where
  "pg_inv rows \<longleftrightarrow> distinct (map (\<lambda>r. (tr_session r, tr_fp r)) rows) \<and>
     distinct (map (\<lambda>r. (tr_session r, tr_placeholder r)) rows)"

definition pg_recs :: "token_record list \<Rightarrow> pystr \<Rightarrow> token_record list" where
  "pg_recs rows sid = filter (\<lambda>r. tr_session r = sid) rows"

lemma distinct_filter_one:
  assumes "distinct (map f xs)"
  shows "filter (\<lambda>x. f x = k) xs = [] \<and> k \<notin> f ` set xs \<or> (\<exists>x\<in>set xs. f x = k \<and> filter (\<lambda>x. f x = k) xs = [x])"
  using assms
proof (induction xs)
  case (Cons x xs)
  then show ?case
  proof (cases "f x = k")
    case True
    then have "filter (\<lambda>x. f x = k) xs = []" using Cons.prems by (auto simp: filter_empty_conv image_iff)
    then show ?thesis using True by simp
  qed auto
qed simp

lemma pg_one:
  assumes "distinct (map (\<lambda>r. (tr_session r, g r)) rows)"
  shows "\<exists>q. scalar_one_or_none (filter (\<lambda>r. tr_session r = sid \<and> g r = k) rows) = Inr q \<and>
    (case q of None \<Rightarrow> k \<notin> g ` set (pg_recs rows sid) | Some r \<Rightarrow> r \<in> set (pg_recs rows sid) \<and> g r = k)"
proof -
  have eq: "filter (\<lambda>r. tr_session r = sid \<and> g r = k) rows = filter (\<lambda>r. (tr_session r, g r) = (sid, k)) rows"
    by (intro filter_cong) auto
  from distinct_filter_one [OF assms, of "(sid, k)"] show ?thesis
    unfolding eq by (auto simp: scalar_one_or_none_def pg_recs_def)
qed

lemma pg_put_inv:
  assumes inv: "pg_inv rows" and new: "tr_fp r \<notin> tr_fp ` set (pg_recs rows (tr_session r))"
    and put: "pg_put Inr rows r = Inr rows'"
  shows "pg_inv rows' \<and> rows' = rows @ [r]"
proof -
  have nofp: "\<not> list_ex (\<lambda>q. tr_session q = tr_session r \<and> tr_fp q = tr_fp r) rows"
    using new by (auto simp: list_ex_iff pg_recs_def image_iff)
  then have noph: "\<not> list_ex (\<lambda>q. tr_session q = tr_session r \<and> tr_placeholder q = tr_placeholder r) rows"
    and rows': "rows' = rows @ [r]"
    using put by (auto simp: pg_put_def split: if_splits)
  show ?thesis using inv nofp noph rows' by (auto simp: pg_inv_def list_ex_iff)
qed

text \<open>Session ids in canonical form, as \<open>create_session\<close> returns them.\<close>

interpretation pg: token_store "pg_ops Inr" pg_inv "\<lambda>_. True" pg_recs
proof
  fix s sid r fp ph s'
  assume inv: "pg_inv s"
  show "r \<in> set (pg_recs s sid) \<Longrightarrow> tr_session r = sid" by (simp add: pg_recs_def)
  have "distinct (map (\<lambda>r. (tr_session r, tr_fp r)) (pg_recs s sid))"
    using inv unfolding pg_inv_def pg_recs_def by (blast intro: distinct_map_filter)
  then have "distinct (map snd (map (\<lambda>r. (tr_session r, tr_fp r)) (pg_recs s sid)))"
    unfolding distinct_map [of snd] by (auto simp: inj_on_def pg_recs_def)
  then show "distinct (map tr_fp (pg_recs s sid))" by (simp add: comp_def)
  show "\<exists>q. so_get_fp (pg_ops Inr) s sid fp = Inr q \<and>
      (case q of None \<Rightarrow> fp \<notin> tr_fp ` set (pg_recs s sid) | Some r \<Rightarrow> r \<in> set (pg_recs s sid) \<and> tr_fp r = fp)"
    using pg_one [of tr_fp s sid fp] inv by (simp add: pg_ops_def pg_get_by_fingerprint_def pg_inv_def)
  show "\<exists>q. so_get_ph (pg_ops Inr) s sid ph = Inr q \<and>
      (case q of None \<Rightarrow> ph \<notin> tr_placeholder ` set (pg_recs s sid)
       | Some r \<Rightarrow> r \<in> set (pg_recs s sid) \<and> tr_placeholder r = ph)"
    using pg_one [of tr_placeholder s sid ph] inv by (simp add: pg_ops_def pg_get_by_placeholder_def pg_inv_def)
  show "so_all (pg_ops Inr) s sid = Inr (pg_recs s sid)"
    by (simp add: pg_ops_def pg_all_for_session_def pg_recs_def)
  let ?b = "map (\<lambda>r. if tr_session r = sid \<and> tr_fp r = fp then bump_rec r else r) s"
  have key: "map (\<lambda>r. (tr_session r, g r)) ?b = map (\<lambda>r. (tr_session r, g r)) s"
    if "\<And>r. g (bump_rec r) = g r" for g :: "token_record \<Rightarrow> pystr"
    unfolding map_map by (intro map_cong) (auto simp: that)
  have "pg_inv ?b"
    using inv unfolding pg_inv_def key [of tr_fp, OF bump_rec_fields(5)]
      key [of tr_placeholder, OF bump_rec_fields(2)] .
  moreover have "pg_recs ?b sid = bump_fp fp (pg_recs s sid)"
    by (induction s) (auto simp: pg_recs_def bump_fp_def)
  moreover have "pg_recs ?b sid' = pg_recs s sid'" if "sid' \<noteq> sid" for sid'
    using that by (induction s) (auto simp: pg_recs_def)
  ultimately show "\<exists>s'. so_bump (pg_ops Inr) s sid fp = Inr s' \<and> pg_inv s' \<and> pg_recs s' sid = bump_fp fp (pg_recs s sid) \<and>
      (\<forall>sid'. True \<longrightarrow> sid' \<noteq> sid \<longrightarrow> pg_recs s' sid' = pg_recs s sid')"
    by (simp add: pg_ops_def pg_bump_occurrence_def)
next
  fix s s' and r :: token_record
  assume inv: "pg_inv s" and new: "tr_fp r \<notin> tr_fp ` set (pg_recs s (tr_session r))"
  show "tr_placeholder r \<notin> tr_placeholder ` set (pg_recs s (tr_session r)) \<Longrightarrow> \<exists>s'. so_put (pg_ops Inr) s r = Inr s'"
    by (auto simp: pg_ops_def pg_put_def list_ex_iff pg_recs_def image_iff)
  assume "so_put (pg_ops Inr) s r = Inr s'"
  then show "pg_inv s' \<and> pg_recs s' (tr_session r) = pg_recs s (tr_session r) @ [r] \<and>
      (\<forall>sid. True \<longrightarrow> sid \<noteq> tr_session r \<longrightarrow> pg_recs s' sid = pg_recs s sid)"
    using pg_put_inv [OF inv new] by (auto simp: pg_ops_def pg_recs_def)
qed

end
