(* ===== verification/Entities.thy ===== *)
theory Entities
  imports RG_Prelude
begin

text \<open>
  The detection and policy data shapes of \<open>app/schemas/entities.py\<close>: the contract between
  detection, vault, policy and audit. Offsets are the code's character offsets (they come
  from matches and \<open>str.find\<close>, hence are natural numbers); \<open>length\<close> is the code's integer
  difference, which may be negative on a malformed span. A score is a finite float, that is
  a rational.
\<close>

record entity_span =
  sp_start :: nat
  sp_end :: nat
  sp_type :: pystr
  sp_text :: pystr
  sp_score :: rat
  sp_source :: pystr
  sp_jurisdiction :: "pystr option"

definition span_length :: "entity_span \<Rightarrow> int" where
  "span_length s = int (sp_end s) - int (sp_start s)"

definition overlaps :: "entity_span \<Rightarrow> entity_span \<Rightarrow> bool" where
  "overlaps s t \<longleftrightarrow> sp_start s < sp_end t \<and> sp_start t < sp_end s"

lemma overlaps_sym: "overlaps s t \<longleftrightarrow> overlaps t s"
  by (auto simp: overlaps_def)

record detection_result =
  dr_text :: pystr
  dr_spans :: "entity_span list"

definition counts :: "detection_result \<Rightarrow> (pystr \<times> int) list" where
  "counts r = count_by sp_type (dr_spans r) []"

datatype policy_mode = TOKENIZE | MASK | HARD_BLOCK

record policy_decision =
  pd_mode :: policy_mode
  pd_blocked :: bool
  pd_blocked_types :: "pystr list"
  pd_allowed_providers :: "pystr list"
  pd_redact_types :: "pystr list option"

definition should_redact :: "policy_decision \<Rightarrow> pystr \<Rightarrow> bool" where
  "should_redact d t = (case pd_redact_types d of None \<Rightarrow> True | Some ts \<Rightarrow> t \<in> set ts)"

text \<open>The generic entity codes every pass shares.\<close>

definition GENERIC_TYPES :: "pystr list" where
  "GENERIC_TYPES = map str
     [''PERSON'', ''ORG'', ''LOCATION'', ''EMAIL'', ''PHONE'', ''CREDIT_CARD'',
      ''IP_ADDRESS'', ''DATE_TIME'', ''URL'', ''IBAN'', ''BANK_ACCOUNT'']"

section \<open>Well-formed spans\<close>

text \<open>
  What a detector promises about the spans it reports over a text: they are non-empty, lie
  inside the text, and their \<open>text\<close> field is the slice they cover.
\<close>

definition wf_span :: "pystr \<Rightarrow> entity_span \<Rightarrow> bool" where
  "wf_span text s \<longleftrightarrow> sp_start s < sp_end s \<and> sp_end s \<le> length text \<and>
     sp_text s = slice text (sp_start s) (sp_end s)"

lemma wf_spanD:
  assumes "wf_span text s"
  shows "sp_start s < sp_end s" "sp_end s \<le> length text" "sp_text s = slice text (sp_start s) (sp_end s)"
  using assms by (simp_all add: wf_span_def)

text \<open>A list of spans that do not overlap and are in text order.\<close>

abbreviation chained :: "entity_span list \<Rightarrow> bool" where
  "chained \<equiv> sorted_wrt (\<lambda>a b. sp_end a \<le> sp_start b)"

lemma chained_disjoint:
  "chained xs \<Longrightarrow> i < length xs \<Longrightarrow> j < length xs \<Longrightarrow> i \<noteq> j \<Longrightarrow> \<not> overlaps (xs ! i) (xs ! j)"
  by (cases "i < j") (auto simp: sorted_wrt_iff_nth_less overlaps_def not_less)

text \<open>The counts of a result: one entry per reported type, with the number of its spans.\<close>

lemma counts_spec:
  "map_of (counts r) t =
     (if t \<in> sp_type ` set (dr_spans r)
      then Some (int (length (filter (\<lambda>s. sp_type s = t) (dr_spans r)))) else None)"
  by (simp add: counts_def count_by_empty)

end
