(* ===== verification/Vault.thy ===== *)
theory Vault
  imports Placeholder_Tail Utf8 Store Entities "HOL-Library.Multiset"
begin

text \<open>
  The reversible token vault (\<open>app/redaction/vault.py\<close>). The cryptographic primitives belong to
  the \<open>cryptography\<close> package and are parameters; \<open>os.urandom\<close> is an oracle whose \<open>i\<close>-th call
  for \<open>n\<close> bytes returns \<open>rng i n\<close>, and the state counts the calls.
\<close>

section \<open>The code\<close>

record crypto =
  c_hkdf :: "bytes \<Rightarrow> bytes \<Rightarrow> bytes \<Rightarrow> bytes"   \<comment> \<open>master key, salt, info\<close>
  c_hmac :: "bytes \<Rightarrow> bytes \<Rightarrow> bytes"            \<comment> \<open>key, message: HMAC-SHA256\<close>
  c_seal :: "bytes \<Rightarrow> bytes \<Rightarrow> bytes \<Rightarrow> bytes"   \<comment> \<open>key, nonce, plaintext: AES-GCM\<close>
  c_open :: "bytes \<Rightarrow> bytes \<Rightarrow> bytes \<Rightarrow> bytes res"

record vault =
  va_crypto :: crypto
  va_master_key :: bytes
  va_fingerprint_key :: bytes

type_synonym rng = "nat \<Rightarrow> nat \<Rightarrow> bytes"

definition NONCE_LEN :: nat where "NONCE_LEN = 12"

definition HKDF_INFO :: bytes where "HKDF_INFO = map of_nat (str ''redactgate-dek-v1'')"

definition hex_digit :: "nat \<Rightarrow> nat" where
  "hex_digit d = (if d < 10 then 48 + d else 87 + d)"

definition hexdigest :: "bytes \<Rightarrow> pystr" where
  "hexdigest bs = concat (map (\<lambda>b. [hex_digit (unat b div 16), hex_digit (unat b mod 16)]) bs)"

definition derive_dek :: "vault \<Rightarrow> pystr \<Rightarrow> bytes res" where
  "derive_dek v sid =
     rbind (utf8_encode sid) (\<lambda>salt. Inr (c_hkdf (va_crypto v) (va_master_key v) salt HKDF_INFO))"

definition fingerprint :: "vault \<Rightarrow> pystr \<Rightarrow> pystr \<Rightarrow> pystr \<Rightarrow> pystr res" where
  "fingerprint v sid entity_type val =
     rbind (utf8_encode (sid @ str '':'' @ entity_type @ str '':'' @ val))
       (\<lambda>msg. Inr (hexdigest (c_hmac (va_crypto v) (va_fingerprint_key v) msg)))"

text \<open>The draws of \<open>for nbytes in (3, 4, 5, 6): for _ in range(8)\<close>.\<close>

definition draw_sizes :: "nat list" where
  "draw_sizes = concat (map (replicate 8) [3, 4, 5, 6])"

fun try_alloc :: "'s store_ops \<Rightarrow> rng \<Rightarrow> 's \<Rightarrow> pystr \<Rightarrow> pystr \<Rightarrow> nat list \<Rightarrow> nat \<Rightarrow> (pystr option \<times> nat) res" where
  "try_alloc ops rng s sid ty [] n = Inr (None, n)"
| "try_alloc ops rng s sid ty (nb # sizes) n =
     (let placeholder = make_placeholder ty (hexdigest (rng n nb)) in
      rbind (so_get_ph ops s sid placeholder) (\<lambda>q.
        case q of None \<Rightarrow> Inr (Some placeholder, Suc n)
        | Some _ \<Rightarrow> try_alloc ops rng s sid ty sizes (Suc n)))"

definition allocate_placeholder ::
  "'s store_ops \<Rightarrow> rng \<Rightarrow> 's \<Rightarrow> pystr \<Rightarrow> pystr \<Rightarrow> pystr \<Rightarrow> nat \<Rightarrow> (pystr \<times> nat) res" where
  "allocate_placeholder ops rng s sid ty fp n =
     rbind (try_alloc ops rng s sid ty draw_sizes n) (\<lambda>(p, n').
       case p of Some ph \<Rightarrow> Inr (ph, n') | None \<Rightarrow> Inr (make_placeholder ty (take 12 fp), n'))"

definition encrypt :: "vault \<Rightarrow> rng \<Rightarrow> pystr \<Rightarrow> pystr \<Rightarrow> nat \<Rightarrow> (bytes \<times> nat) res" where
  "encrypt v rng sid val n =
     rbind (derive_dek v sid) (\<lambda>dek.
       let nonce = rng n NONCE_LEN in
       rbind (utf8_encode val) (\<lambda>pt.
         Inr (nonce @ c_seal (va_crypto v) dek nonce pt, Suc n)))"

definition decrypt :: "vault \<Rightarrow> pystr \<Rightarrow> bytes \<Rightarrow> pystr res" where
  "decrypt v sid blob =
     rbind (derive_dek v sid) (\<lambda>dek.
       rbind (c_open (va_crypto v) dek (take NONCE_LEN blob) (drop NONCE_LEN blob)) utf8_decode)"

text \<open>One iteration of the loop of \<open>tokenize\<close>; the state is the store, the draws made and \<open>out\<close>.\<close>

definition tokenize_step ::
  "'s store_ops \<Rightarrow> vault \<Rightarrow> rng \<Rightarrow> pystr \<Rightarrow> pystr \<Rightarrow> entity_span \<Rightarrow> 's \<times> nat \<times> pystr \<Rightarrow> ('s \<times> nat \<times> pystr) res" where
  "tokenize_step ops v rng sid text sp = (\<lambda>(s, n, out).
     let val = slice text (sp_start sp) (sp_end sp) in
     rbind (fingerprint v sid (sp_type sp) val) (\<lambda>fp.
     rbind (so_get_fp ops s sid fp) (\<lambda>existing.
     rbind (case existing of
              Some r \<Rightarrow> rbind (so_bump ops s sid fp) (\<lambda>s'. Inr (tr_placeholder r, s', n))
            | None \<Rightarrow>
                rbind (allocate_placeholder ops rng s sid (sp_type sp) fp n) (\<lambda>(ph, n1).
                rbind (encrypt v rng sid val n1) (\<lambda>(ct, n2).
                rbind (so_put ops s \<lparr>tr_session = sid, tr_placeholder = ph, tr_type = sp_type sp,
                                     tr_cipher = ct, tr_fp = fp, tr_occ = 1\<rparr>) (\<lambda>s'.
                Inr (ph, s', n2)))))
       (\<lambda>(placeholder, s', n').
          Inr (s', n', take (sp_start sp) out @ placeholder @ drop (sp_end sp) out)))))"

text \<open>\<open>sorted(spans, key=start, reverse=True)\<close> keeps spans with equal starts in order.\<close>

definition tokenize ::
  "'s store_ops \<Rightarrow> vault \<Rightarrow> rng \<Rightarrow> pystr \<Rightarrow> pystr \<Rightarrow> entity_span list \<Rightarrow> 's \<times> nat \<Rightarrow> (pystr \<times> 's \<times> nat) res" where
  "tokenize ops v rng sid text spans = (\<lambda>(s, n).
     if spans = [] then Inr (text, s, n)
     else rbind (rfold (tokenize_step ops v rng sid text)
                   (sort_key (\<lambda>x. - int (sp_start x)) spans) (s, n, text))
            (\<lambda>(s', n', out). Inr (out, s', n')))"

text \<open>The loop of \<open>detokenize\<close>: the parts collected so far (joined) and \<open>last\<close>.\<close>

fun detok_loop ::
  "'s store_ops \<Rightarrow> vault \<Rightarrow> 's \<Rightarrow> pystr \<Rightarrow> pystr \<Rightarrow> rmatch list \<Rightarrow> pystr \<Rightarrow> nat \<Rightarrow> pystr res" where
  "detok_loop ops v s sid text [] out lst = Inr (out @ drop lst text)"
| "detok_loop ops v s sid text (m # rest) out lst =
     rbind (so_get_ph ops s sid (m_group0 text m)) (\<lambda>q.
       case q of
         None \<Rightarrow> detok_loop ops v s sid text rest out lst
       | Some r \<Rightarrow>
           rbind (decrypt v sid (tr_cipher r)) (\<lambda>val.
             detok_loop ops v s sid text rest (out @ slice text lst (m_start m) @ val) (m_end m)))"

definition detokenize :: "ucd \<Rightarrow> 's store_ops \<Rightarrow> vault \<Rightarrow> 's \<Rightarrow> pystr \<Rightarrow> pystr \<Rightarrow> pystr res" where
  "detokenize u ops v s sid text =
     (if \<not> contains text (str ''[['') then Inr text
      else detok_loop ops v s sid text (finditer u PLACEHOLDER_RE text) [] 0)"

definition resolution_map :: "'s store_ops \<Rightarrow> vault \<Rightarrow> 's \<Rightarrow> pystr \<Rightarrow> (pystr \<times> pystr) list res" where
  "resolution_map ops v s sid =
     rbind (so_all ops s sid) (\<lambda>rs.
       rfold (\<lambda>r out. rbind (decrypt v sid (tr_cipher r)) (\<lambda>val. Inr (AList.update (tr_placeholder r) val out))) rs [])"

section \<open>What the proofs assume of the primitives\<close>

text \<open>
  AES-GCM opens what it sealed under the same key and a 12-byte nonce; \<open>os.urandom(n)\<close> returns
  \<open>n\<close> bytes; an HMAC-SHA256 digest has 32 bytes.
\<close>

definition crypto_ok :: "crypto \<Rightarrow> bool" where
  "crypto_ok c \<longleftrightarrow> (\<forall>k n p. length n = NONCE_LEN \<longrightarrow> c_open c k n (c_seal c k n p) = Inr p) \<and>
     (\<forall>k m. length (c_hmac c k m) = 32)"

definition rng_ok :: "rng \<Rightarrow> bool" where
  "rng_ok rng \<longleftrightarrow> (\<forall>i n. length (rng i n) = n)"

lemma hexdigest_length: "length (hexdigest bs) = 2 * length bs"
  by (induction bs) (simp_all add: hexdigest_def)

lemma hexdigest_chars: "list_all hex_char (hexdigest bs)"
proof -
  have "unat b < 256" for b :: "8 word" by (rule order_less_le_trans [OF unsigned_less]) simp
  then have lt: "unat b div 16 < 16" for b :: "8 word" by (simp add: less_mult_imp_div_less)
  have "hex_char (hex_digit d)" if "d < 16" for d using that by (auto simp: hex_digit_def hex_char_def)
  then show ?thesis by (induction bs) (simp_all add: hexdigest_def lt)
qed

lemma list_all_take_hex: "list_all P xs \<Longrightarrow> list_all P (take n xs)"
  by (auto simp: list_all_iff dest: in_set_takeD)

lemma ph_hex_draw: "rng_ok rng \<Longrightarrow> nb \<in> set draw_sizes \<Longrightarrow> ph_hex (hexdigest (rng n nb))"
  by (auto simp: ph_hex_def hexdigest_length hexdigest_chars rng_ok_def draw_sizes_def)

lemma ph_hex_fp: "crypto_ok (va_crypto v) \<Longrightarrow> fingerprint v sid ty val = Inr fp \<Longrightarrow> ph_hex (take 12 fp)"
  by (auto simp: fingerprint_def rbind_Inr_iff ph_hex_def hexdigest_length crypto_ok_def
      intro!: list_all_take_hex hexdigest_chars)

lemma decrypt_encrypt:
  assumes "crypto_ok (va_crypto v)" "rng_ok rng" "encrypt v rng sid val n = Inr (ct, n')"
  shows "decrypt v sid ct = Inr val" "n' = Suc n"
proof -
  obtain dek pt where *: "derive_dek v sid = Inr dek" "utf8_encode val = Inr pt"
    "ct = rng n NONCE_LEN @ c_seal (va_crypto v) dek (rng n NONCE_LEN) pt" "n' = Suc n"
    using assms(3) by (auto simp: encrypt_def Let_def rbind_Inr_iff)
  have "length (rng n NONCE_LEN) = NONCE_LEN" using assms(2) by (simp add: rng_ok_def)
  then show "decrypt v sid ct = Inr val"
    using * assms(1) utf8_roundtrip [OF *(2)] by (simp add: decrypt_def crypto_ok_def)
  show "n' = Suc n" by (rule *(4))
qed

section \<open>Tokenization\<close>

text \<open>The part of a record that never changes.\<close>

definition core :: "token_record \<Rightarrow> pystr \<times> pystr \<times> bytes \<times> pystr" where
  "core r = (tr_placeholder r, tr_type r, tr_cipher r, tr_fp r)"

lemma core_bump [simp]: "map core (bump_fp fp rs) = map core rs"
  by (simp add: bump_fp_def core_def)

text \<open>A session's records as \<open>tokenize\<close> makes them: the record of a value.\<close>

definition stands_for :: "vault \<Rightarrow> pystr \<Rightarrow> token_record \<Rightarrow> pystr \<Rightarrow> pystr \<Rightarrow> bool" where
  "stands_for v sid r ty val \<longleftrightarrow> tr_type r = ty \<and> fingerprint v sid ty val = Inr (tr_fp r) \<and>
     decrypt v sid (tr_cipher r) = Inr val \<and> (\<exists>h. ph_hex h \<and> tr_placeholder r = make_placeholder ty h)"

lemma stands_for_core: "core r = core r' \<Longrightarrow> stands_for v sid r ty val \<longleftrightarrow> stands_for v sid r' ty val"
  by (simp add: stands_for_def core_def)

definition honest :: "vault \<Rightarrow> pystr \<Rightarrow> (pystr \<times> pystr) set \<Rightarrow> token_record list \<Rightarrow> bool" where
  "honest v sid V rs \<longleftrightarrow> (\<forall>r\<in>set rs. \<exists>(ty, val)\<in>V. stands_for v sid r ty val)"

text \<open>The fingerprints of the session tell its values apart.\<close>

definition fp_inj :: "vault \<Rightarrow> pystr \<Rightarrow> (pystr \<times> pystr) set \<Rightarrow> bool" where
  "fp_inj v sid V \<longleftrightarrow> (\<forall>(t, x)\<in>V. \<forall>(t', x')\<in>V. \<forall>fp.
     fingerprint v sid t x = Inr fp \<longrightarrow> fingerprint v sid t' x' = Inr fp \<longrightarrow> t = t' \<and> x = x')"

lemma fp_injD: "fp_inj v sid V \<Longrightarrow> (t, x) \<in> V \<Longrightarrow> (t', x') \<in> V \<Longrightarrow>
    fingerprint v sid t x = Inr fp \<Longrightarrow> fingerprint v sid t' x' = Inr fp \<Longrightarrow> t = t' \<and> x = x'"
  unfolding fp_inj_def by blast

lemma honest_core: "map core rs = map core rs' \<Longrightarrow> honest v sid V rs \<Longrightarrow> honest v sid V rs'"
proof -
  assume m: "map core rs = map core rs'" and h: "honest v sid V rs"
  show ?thesis
    unfolding honest_def
  proof
    fix r assume "r \<in> set rs'"
    then have "core r \<in> set (map core rs)" using m by simp
    then obtain r' where "r' \<in> set rs" "core r' = core r" by auto
    then show "\<exists>(ty, val)\<in>V. stands_for v sid r ty val"
      using h stands_for_core [of r' r] unfolding honest_def by fastforce
  qed
qed

text \<open>The text with the spans replaced, from position \<open>pos\<close> on.\<close>

lemma drop_slice: "a \<le> b \<Longrightarrow> slice s a b @ drop b s = drop a s"
  by (simp add: slice_def) (metis append_take_drop_id drop_drop le_add_diff_inverse2)

fun render :: "pystr \<Rightarrow> nat \<Rightarrow> entity_span list \<Rightarrow> pystr list \<Rightarrow> pystr" where
  "render text pos (s # ss) (p # ps) = slice text pos (sp_start s) @ p @ render text (sp_end s) ss ps"
| "render text pos ss ps = drop pos text"

lemma render_pos:
  assumes "pos \<le> e" "e \<le> length text" "\<forall>s\<in>set ss. e \<le> sp_start s" "\<forall>s\<in>set ss. wf_span text s"
  shows "render text pos ss ps = slice text pos e @ render text e ss ps"
proof (cases ss)
  case Nil
  then show ?thesis using assms(1) by (simp add: drop_slice)
next
  case (Cons s ss')
  show ?thesis
  proof (cases ps)
    case Nil
    then show ?thesis using assms(1) Cons by (simp add: drop_slice)
  next
    case ps: (Cons p ps')
    have "slice text pos (sp_start s) = slice text pos e @ slice text e (sp_start s)"
      using assms(1,3) Cons by (simp add: slice_slice_append)
    then show ?thesis using Cons ps by simp
  qed
qed

text \<open>
  The spans are processed from the last to the first: after the spans \<open>ss\<close> the text is
  rendered with a placeholder for each of them.
\<close>

definition each_stands :: "vault \<Rightarrow> pystr \<Rightarrow> pystr \<Rightarrow> token_record list \<Rightarrow> entity_span list \<Rightarrow> pystr list \<Rightarrow> bool" where
  "each_stands v sid text rs ss ps \<longleftrightarrow> list_all2 (\<lambda>x p. \<exists>r\<in>set rs. tr_placeholder r = p \<and>
      stands_for v sid r (sp_type x) (slice text (sp_start x) (sp_end x))) ss ps"

lemma each_stands_mono:
  assumes "each_stands v sid text rs ss ps" "core ` set rs \<subseteq> core ` set rs'"
  shows "each_stands v sid text rs' ss ps"
proof -
  have "\<exists>r\<in>set rs'. tr_placeholder r = p \<and> stands_for v sid r ty val"
    if "r \<in> set rs" "tr_placeholder r = p" "stands_for v sid r ty val" for r p ty val
  proof -
    have "core r \<in> core ` set rs'" using that(1) assms(2) by blast
    then obtain r' where r': "r' \<in> set rs'" "core r' = core r" by auto
    then have "tr_placeholder r' = p" using that(2) by (simp add: core_def)
    then show ?thesis using r' that(3) stands_for_core [OF r'(2)] by blast
  qed
  then show ?thesis using assms(1) unfolding each_stands_def by (elim list_all2_mono) blast
qed

lemma core_prefix_distinct:
  "map core rs' = map core rs @ map core new \<Longrightarrow> distinct (map tr_placeholder rs') \<Longrightarrow>
    distinct (map tr_placeholder rs) \<and> core ` set rs \<subseteq> core ` set rs'"
proof -
  assume m: "map core rs' = map core rs @ map core new" and d: "distinct (map tr_placeholder rs')"
  have "map fst (map core rs') = map fst (map core rs) @ map fst (map core new)" unfolding m by simp
  then have "map tr_placeholder rs' = map tr_placeholder rs @ map tr_placeholder new"
    by (simp add: core_def comp_def)
  moreover have "core ` set rs \<subseteq> set (map core rs')" unfolding m by auto
  ultimately show ?thesis using d by simp
qed

lemma chained_starts_distinct:
  "chained xs \<Longrightarrow> \<forall>x\<in>set xs. sp_start x < sp_end x \<Longrightarrow> distinct (map sp_start xs)"
proof (induction xs)
  case (Cons x xs)
  then have "sp_start x < sp_start y" if "y \<in> set xs" for y using that by (auto intro: less_le_trans)
  then show ?case using Cons by (auto simp: image_iff)
qed simp

lemma sort_reverse_chained:
  assumes "chained xs" "\<forall>x\<in>set xs. sp_start x < sp_end x"
  shows "sort_key (\<lambda>x. - int (sp_start x)) xs = rev xs"
proof (rule properties_for_sort_key)
  show "mset (rev xs) = mset xs" by simp
  have d: "distinct (map sp_start xs)" using chained_starts_distinct [OF assms] .
  show "filter (\<lambda>x. - int (sp_start k) = - int (sp_start x)) (rev xs) =
      filter (\<lambda>x. - int (sp_start k) = - int (sp_start x)) xs" for k
  proof -
    have eq: "(\<lambda>x. - int (sp_start k) = - int (sp_start x)) = (\<lambda>x. sp_start x = sp_start k)" by auto
    show ?thesis unfolding eq rev_filter [symmetric] using distinct_filter_one [OF d, of "sp_start k"] by auto
  qed
  have "sorted_wrt (\<lambda>a b. sp_start a \<le> sp_start b) xs"
    using assms by (induction xs) (auto intro: less_imp_le dest: less_le_trans)
  then show "sorted (map (\<lambda>x. - int (sp_start x)) (rev xs))"
    by (simp add: sorted_map sorted_wrt_rev)
qed

text \<open>Re-inflation: what a placeholder is replaced by, given the session's records.\<close>

definition known_value :: "vault \<Rightarrow> pystr \<Rightarrow> token_record list \<Rightarrow> pystr \<Rightarrow> pystr" where
  "known_value v sid rs w =
     (case find (\<lambda>r. tr_placeholder r = w) rs of
        None \<Rightarrow> w
      | Some r \<Rightarrow> (case decrypt v sid (tr_cipher r) of Inr x \<Rightarrow> x | Inl _ \<Rightarrow> w))"

lemma known_value_unknown: "w \<notin> tr_placeholder ` set rs \<Longrightarrow> known_value v sid rs w = w"
proof -
  assume "w \<notin> tr_placeholder ` set rs"
  then have "find (\<lambda>r. tr_placeholder r = w) rs = None" by (auto simp: find_None_iff)
  then show ?thesis by (simp add: known_value_def)
qed

lemma known_value_known:
  assumes "distinct (map tr_placeholder rs)" "r \<in> set rs" "decrypt v sid (tr_cipher r) = Inr x"
  shows "known_value v sid rs (tr_placeholder r) = x"
proof -
  have "find (\<lambda>q. tr_placeholder q = tr_placeholder r) rs = Some r"
    using distinct_filter_one [OF assms(1), of "tr_placeholder r"] assms(1,2)
    by (auto simp: find_Some_iff2 in_set_conv_nth find_Some_iff distinct_conv_nth)
  then show ?thesis using assms(3) by (simp add: known_value_def)
qed

lemma sub_from_skip:
  assumes "i \<le> k" "\<forall>m\<in>set found_ms. k \<le> m_start m"
  shows "sub_from f s i found_ms = slice s i k @ sub_from f s k found_ms"
  using assms by (cases found_ms) (simp_all add: drop_slice slice_slice_append)

lemma stands_for_is_ph: "stands_for v sid r ty val \<Longrightarrow> ph_type ty \<Longrightarrow> is_ph (tr_placeholder r)"
  unfolding stands_for_def is_ph_def by blast

lemma swap_render:
  assumes "each_stands v sid text rs ss ps" and dist: "distinct (map tr_placeholder rs)"
    and lit: "\<forall>r\<in>set rs. \<not> contains text (tr_placeholder r)"
    and ty: "\<forall>x\<in>set ss. ph_type (sp_type x) \<and> sp_start x \<le> sp_end x"
    and ch: "chained ss" and pos: "\<forall>x\<in>set ss. pos \<le> sp_start x"
  shows "swap (known_value v sid rs) (render text pos ss ps) = drop pos text"
proof -
  let ?f = "known_value v sid rs"
  have gap: "swap ?f g = g" if g: "text = a @ g @ b" for a g b
  proof (rule swap_id)
    fix p w q assume "g = p @ w @ q" "is_ph w"
    then have "contains text w" using g unfolding contains_iff by (metis append.assoc)
    then have "w \<notin> tr_placeholder ` set rs" using lit by auto
    then show "?f w = w" by (rule known_value_unknown)
  qed
  have tail: "swap ?f (drop k text) = drop k text" for k using gap [of "take k text" "drop k text" "[]"] by simp
  from assms(1) have "list_all2 (\<lambda>x p. \<exists>r\<in>set rs. tr_placeholder r = p \<and>
      stands_for v sid r (sp_type x) (slice text (sp_start x) (sp_end x))) ss ps"
    unfolding each_stands_def .
  then show ?thesis using ty ch pos
  proof (induction ss ps arbitrary: pos rule: list_all2_induct)
    case Nil
    then show ?case using tail by simp
  next
    case (Cons x ss p ps)
    obtain r where r: "r \<in> set rs" "tr_placeholder r = p" "stands_for v sid r (sp_type x) (slice text (sp_start x) (sp_end x))"
      using Cons.hyps(1) by blast
    have ph: "is_ph p" using stands_for_is_ph [OF r(3)] Cons.prems(1) r(2) by simp
    have fp: "?f p = slice text (sp_start x) (sp_end x)"
      using known_value_known [OF dist r(1)] r(2,3) by (auto simp: stands_for_def)
    have le: "pos \<le> sp_start x" "sp_start x \<le> sp_end x" using Cons.prems by auto
    have g: "swap ?f (slice text pos (sp_start x)) = slice text pos (sp_start x)"
      using take_slice_drop [OF le(1), of "text"] gap by metis
    have IH: "swap ?f (render text (sp_end x) ss ps) = drop (sp_end x) text"
      using Cons.prems by (intro Cons.IH) auto
    have "swap ?f (render text pos (x # ss) (p # ps)) =
        slice text pos (sp_start x) @ slice text (sp_start x) (sp_end x) @ drop (sp_end x) text"
      by (simp add: swap_gap_ph [OF ph] g fp IH)
    also have "\<dots> = drop pos text" using le by (simp add: drop_slice)
    finally show ?case .
  qed
qed

lemma stands_for_eq:
  assumes "stands_for v sid r ty val" "stands_for v sid r' ty' val'" "ty = ty'" "val = val'"
  shows "tr_fp r = tr_fp r'"
  using assms by (simp add: stands_for_def)

context token_store
begin

lemma alloc_spec:
  assumes "inv s" "okid sid" "distinct (map tr_placeholder (recs s sid))" "rng_ok rng" "set sizes \<subseteq> set draw_sizes"
  shows "try_alloc ops rng s sid ty sizes n = Inr (q, n') \<Longrightarrow>
    (case q of Some ph \<Rightarrow> ph \<notin> tr_placeholder ` set (recs s sid) \<and> (\<exists>h. ph_hex h \<and> ph = make_placeholder ty h)
     | None \<Rightarrow> n' = n + length sizes \<and>
         (\<forall>i<length sizes. make_placeholder ty (hexdigest (rng (n + i) (sizes ! i))) \<in> tr_placeholder ` set (recs s sid)))"
  using assms(5)
proof (induction sizes arbitrary: n)
  case (Cons nb sizes)
  let ?ph = "make_placeholder ty (hexdigest (rng n nb))"
  obtain q0 where q0: "so_get_ph ops s sid ?ph = Inr q0"
    "case q0 of None \<Rightarrow> ?ph \<notin> tr_placeholder ` set (recs s sid) | Some r \<Rightarrow> r \<in> set (recs s sid) \<and> tr_placeholder r = ?ph"
    using get_ph [OF assms(1-3)] by blast
  show ?case
  proof (cases q0)
    case None
    then have "q = Some ?ph" using Cons.prems(1) q0(1) by (simp add: Let_def)
    then show ?thesis using None q0(2) ph_hex_draw [OF assms(4)] Cons.prems(2) by auto
  next
    case (Some r)
    then have st: "try_alloc ops rng s sid ty sizes (Suc n) = Inr (q, n')" using Cons.prems(1) q0(1) by (simp add: Let_def)
    have "?ph \<in> tr_placeholder ` set (recs s sid)" using Some q0(2) by force
    then show ?thesis
      using Cons.IH [OF st] Cons.prems(2) by (auto simp: nth_Cons split: option.splits nat.splits)
  qed
qed simp

text \<open>
  One iteration: the session gains at most one record, which stands for the span's value; the
  span is replaced by the placeholder of that value's record.
\<close>

lemma step_spec:
  assumes s: "inv s" "okid sid" and hon: "honest v sid V (recs s sid)" and inj: "fp_inj v sid V"
    and prim: "crypto_ok (va_crypto v)" "rng_ok rng"
    and val: "(sp_type sp, slice text (sp_start sp) (sp_end sp)) \<in> V"
    and step: "tokenize_step ops v rng sid text sp (s, n, out) = Inr (s', n', out')"
    and dist: "distinct (map tr_placeholder (recs s' sid))"
  shows "inv s' \<and> honest v sid V (recs s' sid)
    \<and> (\<exists>new. map core (recs s' sid) = map core (recs s sid) @ map core new)
    \<and> (\<forall>sid'. okid sid' \<longrightarrow> sid' \<noteq> sid \<longrightarrow> recs s' sid' = recs s sid')
    \<and> (\<exists>r\<in>set (recs s' sid). stands_for v sid r (sp_type sp) (slice text (sp_start sp) (sp_end sp))
         \<and> out' = take (sp_start sp) out @ tr_placeholder r @ drop (sp_end sp) out)"
proof -
  let ?val = "slice text (sp_start sp) (sp_end sp)" and ?ty = "sp_type sp"
  from step obtain fp q where fp: "fingerprint v sid ?ty ?val = Inr fp" and q: "so_get_fp ops s sid fp = Inr q"
    by (auto simp: tokenize_step_def Let_def rbind_Inr_iff)
  have q_spec: "case q of None \<Rightarrow> fp \<notin> tr_fp ` set (recs s sid) | Some r \<Rightarrow> r \<in> set (recs s sid) \<and> tr_fp r = fp"
    using get_fp [OF s, of fp] q by auto
  show ?thesis
  proof (cases q)
    case (Some r)
    then have r: "r \<in> set (recs s sid)" "tr_fp r = fp" using q_spec by auto
    obtain t x where tx: "(t, x) \<in> V" "stands_for v sid r t x" using hon r(1) unfolding honest_def by blast
    have "t = ?ty \<and> x = ?val"
      using fp_injD [OF inj tx(1) val, of fp] tx(2) fp r(2) by (simp add: stands_for_def)
    then have st: "stands_for v sid r ?ty ?val" using tx(2) by simp
    obtain s1 where b: "so_bump ops s sid fp = Inr s1" "inv s1" "recs s1 sid = bump_fp fp (recs s sid)"
      "\<forall>sid'. okid sid' \<longrightarrow> sid' \<noteq> sid \<longrightarrow> recs s1 sid' = recs s sid'" using bump [OF s, of fp] by blast
    have out: "s' = s1" "out' = take (sp_start sp) out @ tr_placeholder r @ drop (sp_end sp) out"
      using step fp q Some b(1) by (auto simp: tokenize_step_def Let_def)
    have m: "map core (recs s1 sid) = map core (recs s sid)" using b(3) by simp
    then have "core r \<in> core ` set (recs s1 sid)" using r(1) by (metis image_eqI set_map)
    then obtain r' where r': "r' \<in> set (recs s1 sid)" "core r' = core r" by auto
    then have "tr_placeholder r' = tr_placeholder r" by (simp add: core_def)
    then show ?thesis
      using b out m r' st stands_for_core [OF r'(2)] honest_core [OF m [symmetric] hon] by fastforce
  next
    case None
    then have new: "fp \<notin> tr_fp ` set (recs s sid)" using q_spec by simp
    obtain ph n1 ct n2 where a: "allocate_placeholder ops rng s sid ?ty fp n = Inr (ph, n1)"
      "encrypt v rng sid ?val n1 = Inr (ct, n2)"
      "so_put ops s \<lparr>tr_session = sid, tr_placeholder = ph, tr_type = ?ty, tr_cipher = ct, tr_fp = fp, tr_occ = 1\<rparr> = Inr s'"
      "out' = take (sp_start sp) out @ ph @ drop (sp_end sp) out"
      using step fp q None by (auto simp: tokenize_step_def Let_def rbind_Inr_iff)
    let ?r = "\<lparr>tr_session = sid, tr_placeholder = ph, tr_type = ?ty, tr_cipher = ct, tr_fp = fp, tr_occ = 1\<rparr>"
    have put': "inv s'" "recs s' sid = recs s sid @ [?r]"
      "\<forall>sid'. okid sid' \<longrightarrow> sid' \<noteq> sid \<longrightarrow> recs s' sid' = recs s sid'"
      using put [of s ?r s'] s a(3) new by simp_all
    have d: "distinct (map tr_placeholder (recs s sid))" using dist put'(2) by simp
    obtain p0 where p0: "try_alloc ops rng s sid ?ty draw_sizes n = Inr (p0, n1)"
      "ph = (case p0 of Some p \<Rightarrow> p | None \<Rightarrow> make_placeholder ?ty (take 12 fp))"
      using a(1) by (auto simp: allocate_placeholder_def rbind_Inr_iff split: option.splits)
    have "\<exists>h. ph_hex h \<and> ph = make_placeholder ?ty h"
      using alloc_spec [OF s d prim(2) order_refl p0(1)] p0(2) ph_hex_fp [OF prim(1) fp]
      by (auto split: option.splits)
    then have st: "stands_for v sid ?r ?ty ?val"
      using fp decrypt_encrypt(1) [OF prim a(2)] by (simp add: stands_for_def)
    then have "honest v sid V (recs s' sid)" using hon val put'(2) unfolding honest_def by auto
    then show ?thesis using put' st a(4) by (auto intro!: exI [of _ "[?r]"])
  qed
qed

text \<open>Whatever the placeholders, a step keeps the store's invariant and only adds records.\<close>

lemma step_grow:
  assumes s: "inv s" "okid sid" and step: "tokenize_step ops v rng sid text sp (s, n, out) = Inr (s', n', out')"
  shows "inv s' \<and> (\<exists>new. map core (recs s' sid) = map core (recs s sid) @ map core new)"
proof -
  from step obtain fp q where q: "so_get_fp ops s sid fp = Inr q" "fingerprint v sid (sp_type sp) (slice text (sp_start sp) (sp_end sp)) = Inr fp"
    by (auto simp: tokenize_step_def Let_def rbind_Inr_iff)
  show ?thesis
  proof (cases q)
    case (Some r)
    obtain s1 where b: "so_bump ops s sid fp = Inr s1" "inv s1" "recs s1 sid = bump_fp fp (recs s sid)"
      using bump [OF s, of fp] by blast
    then have "s' = s1" using step q Some by (auto simp: tokenize_step_def Let_def)
    then show ?thesis using b by (auto intro!: exI [of _ "[]"])
  next
    case None
    obtain ph ct where p: "so_put ops s \<lparr>tr_session = sid, tr_placeholder = ph, tr_type = sp_type sp, tr_cipher = ct, tr_fp = fp, tr_occ = 1\<rparr> = Inr s'"
      using step q None by (auto simp: tokenize_step_def Let_def rbind_Inr_iff)
    have "fp \<notin> tr_fp ` set (recs s sid)" using get_fp [OF s, of fp] q(1) None by auto
    then have "inv s' \<and> recs s' sid = recs s sid @ [\<lparr>tr_session = sid, tr_placeholder = ph, tr_type = sp_type sp, tr_cipher = ct, tr_fp = fp, tr_occ = 1\<rparr>]"
      using put [OF s(1) _ _ p] s(2) by simp
    then show ?thesis by (metis map_append)
  qed
qed

lemma fold_grow:
  "inv s \<Longrightarrow> okid sid \<Longrightarrow> rfold (tokenize_step ops v rng sid text) ss (s, n, out) = Inr (s', n', out') \<Longrightarrow>
    inv s' \<and> (\<exists>new. map core (recs s' sid) = map core (recs s sid) @ map core new)"
proof (induction ss arbitrary: s n out)
  case Nil
  then show ?case by (auto intro!: exI [of _ "[]"])
next
  case (Cons x ss)
  obtain s1 n1 out1 where st: "tokenize_step ops v rng sid text x (s, n, out) = Inr (s1, n1, out1)"
    "rfold (tokenize_step ops v rng sid text) ss (s1, n1, out1) = Inr (s', n', out')"
    using Cons.prems(3) by (auto simp: rbind_Inr_iff)
  obtain new1 where "inv s1" "map core (recs s1 sid) = map core (recs s sid) @ map core new1"
    using step_grow [OF Cons.prems(1,2) st(1)] by blast
  moreover from this(1) obtain new2 where "inv s'" "map core (recs s' sid) = map core (recs s1 sid) @ map core new2"
    using Cons.IH [OF _ Cons.prems(2) st(2)] by blast
  ultimately show ?case by (auto intro!: exI [of _ "new1 @ new2"])
qed

lemma fold_spec:
  assumes s: "inv s" "okid sid" and hon: "honest v sid V (recs s sid)" and inj: "fp_inj v sid V"
    and prim: "crypto_ok (va_crypto v)" "rng_ok rng"
  shows "\<forall>x\<in>set ss. wf_span text x \<and> (sp_type x, slice text (sp_start x) (sp_end x)) \<in> V \<Longrightarrow> chained ss \<Longrightarrow>
    rfold (tokenize_step ops v rng sid text) (rev ss) (s, n, text) = Inr (s', n', out) \<Longrightarrow>
    distinct (map tr_placeholder (recs s' sid)) \<Longrightarrow>
    inv s' \<and> honest v sid V (recs s' sid)
    \<and> (\<exists>new. map core (recs s' sid) = map core (recs s sid) @ map core new)
    \<and> (\<forall>sid'. okid sid' \<longrightarrow> sid' \<noteq> sid \<longrightarrow> recs s' sid' = recs s sid')
    \<and> (\<exists>ps. each_stands v sid text (recs s' sid) ss ps \<and> out = render text 0 ss ps)"
proof (induction ss arbitrary: s' n' out)
  case Nil
  then show ?case using s hon
    by (auto simp: each_stands_def intro!: exI [of _ "[]"])
next
  case (Cons x ss)
  obtain s1 n1 out1 where st: "rfold (tokenize_step ops v rng sid text) (rev ss) (s, n, text) = Inr (s1, n1, out1)"
    "tokenize_step ops v rng sid text x (s1, n1, out1) = Inr (s', n', out)"
    using Cons.prems(3) by (auto simp: rfold_append rbind_Inr_iff)
  have wf: "wf_span text x" "\<forall>y\<in>set ss. wf_span text y" "\<forall>y\<in>set ss. sp_end x \<le> sp_start y"
    and xV: "(sp_type x, slice text (sp_start x) (sp_end x)) \<in> V" using Cons.prems(1,2) by auto
  have inv1: "inv s1" using fold_grow [OF s st(1)] by blast
  obtain new2 where new2: "map core (recs s' sid) = map core (recs s1 sid) @ map core new2"
    using step_grow [OF inv1 s(2) st(2)] by blast
  note d1 = core_prefix_distinct [OF new2 Cons.prems(4)]
  obtain new1 ps where pre: "honest v sid V (recs s1 sid)"
    "map core (recs s1 sid) = map core (recs s sid) @ map core new1"
    "\<forall>sid'. okid sid' \<longrightarrow> sid' \<noteq> sid \<longrightarrow> recs s1 sid' = recs s sid'"
    "each_stands v sid text (recs s1 sid) ss ps" "out1 = render text 0 ss ps"
    using Cons.IH [OF _ _ st(1) d1 [THEN conjunct1]] Cons.prems(1,2) by auto
  obtain r where r: "inv s'" "honest v sid V (recs s' sid)"
    "\<forall>sid'. okid sid' \<longrightarrow> sid' \<noteq> sid \<longrightarrow> recs s' sid' = recs s1 sid'" "r \<in> set (recs s' sid)"
    "stands_for v sid r (sp_type x) (slice text (sp_start x) (sp_end x))"
    "out = take (sp_start x) out1 @ tr_placeholder r @ drop (sp_end x) out1"
    using step_spec [OF inv1 s(2) pre(1) inj prim xV st(2) Cons.prems(4)] by blast
  have A: "each_stands v sid text (recs s' sid) (x # ss) (tr_placeholder r # ps)"
    using each_stands_mono [OF pre(4) d1 [THEN conjunct2]] r(4,5) by (auto simp: each_stands_def)
  have B: "out = render text 0 (x # ss) (tr_placeholder r # ps)"
  proof -
    have e: "sp_start x \<le> sp_end x" "sp_end x \<le> length text" using wf_spanD [OF wf(1)] by auto
    have "out1 = slice text 0 (sp_end x) @ render text (sp_end x) ss ps"
      unfolding pre(5) by (rule render_pos) (use e wf(2,3) in simp_all)
    moreover have "take (sp_start x) (slice text 0 (sp_end x) @ z) = slice text 0 (sp_start x)"
      "drop (sp_end x) (slice text 0 (sp_end x) @ z) = z" for z
      using e by (simp_all add: slice_def)
    ultimately show ?thesis by (simp add: r(6))
  qed
  have C: "map core (recs s' sid) = map core (recs s sid) @ map core (new1 @ new2)"
    using pre(2) new2 by simp
  show ?case
  proof (intro conjI)
    show "\<exists>new. map core (recs s' sid) = map core (recs s sid) @ map core new" using C by (rule exI)
    show "\<exists>ps. each_stands v sid text (recs s' sid) (x # ss) ps \<and> out = render text 0 (x # ss) ps"
      by (rule exI, rule conjI [OF A B])
    show "\<forall>sid'. okid sid' \<longrightarrow> sid' \<noteq> sid \<longrightarrow> recs s' sid' = recs s sid'" using r(3) pre(3) by simp
  qed (fact r(1,2))+
qed

lemma detok_loop_spec:
  assumes s: "inv s" "okid sid" "distinct (map tr_placeholder (recs s sid))" and hon: "honest v sid V (recs s sid)"
  shows "sorted_wrt (\<lambda>x y. m_end x \<le> m_start y) found_ms \<Longrightarrow>
    \<forall>m\<in>set found_ms. lst \<le> m_start m \<and> m_start m \<le> m_end m \<Longrightarrow>
    detok_loop ops v s sid text found_ms out lst =
      Inr (out @ sub_from (\<lambda>m. known_value v sid (recs s sid) (m_group0 text m)) text lst found_ms)"
proof (induction found_ms arbitrary: out lst)
  case (Cons m rest)
  let ?w = "m_group0 text m" and ?f = "\<lambda>m. known_value v sid (recs s sid) (m_group0 text m)"
  have le: "lst \<le> m_start m" "m_start m \<le> m_end m" "\<forall>x\<in>set rest. m_end m \<le> m_start x" using Cons.prems by auto
  obtain q where q: "so_get_ph ops s sid ?w = Inr q"
    "case q of None \<Rightarrow> ?w \<notin> tr_placeholder ` set (recs s sid) | Some r \<Rightarrow> r \<in> set (recs s sid) \<and> tr_placeholder r = ?w"
    using get_ph [OF s] by blast
  show ?case
  proof (cases q)
    case None
    have "detok_loop ops v s sid text (m # rest) out lst = detok_loop ops v s sid text rest out lst" using q(1) None by simp
    also have "\<dots> = Inr (out @ sub_from ?f text lst rest)"
      using Cons.prems le by (intro Cons.IH) auto
    also have "sub_from ?f text lst rest = slice text lst (m_end m) @ sub_from ?f text (m_end m) rest"
      using le by (intro sub_from_skip) auto
    also have "\<dots> = sub_from ?f text lst (m # rest)"
      using q(2) None le known_value_unknown [of ?w] by (simp add: m_group0_def slice_slice_append)
    finally show ?thesis .
  next
    case (Some r)
    then have r: "r \<in> set (recs s sid)" "tr_placeholder r = ?w" using q(2) by auto
    obtain ty x where "stands_for v sid r ty x" using hon r(1) unfolding honest_def by blast
    then have d: "decrypt v sid (tr_cipher r) = Inr x" by (simp add: stands_for_def)
    then have kv: "?f m = x" using known_value_known [OF s(3) r(1) d] r(2) by simp
    have "detok_loop ops v s sid text (m # rest) out lst =
        detok_loop ops v s sid text rest (out @ slice text lst (m_start m) @ x) (m_end m)" using q(1) Some d by simp
    also have "\<dots> = Inr ((out @ slice text lst (m_start m) @ x) @ sub_from ?f text (m_end m) rest)"
      using Cons.prems le by (intro Cons.IH) auto
    finally show ?thesis using kv by simp
  qed
qed simp

lemma detokenize_swap:
  assumes s: "inv s" "okid sid" "distinct (map tr_placeholder (recs s sid))" and hon: "honest v sid V (recs s sid)"
  shows "detokenize u ops v s sid text = Inr (swap (known_value v sid (recs s sid)) text)"
proof (cases "contains text (str ''[['')")
  case True
  have "\<forall>m\<in>set (finditer u PLACEHOLDER_RE text). m_start m \<le> m_end m"
  proof
    fix m assume "m \<in> set (finditer u PLACEHOLDER_RE text)"
    then have "is_ph (m_group0 text m)" by (rule finditer_groups_ph)
    then show "m_start m \<le> m_end m" using is_ph_ne by (fastforce simp: m_group0_def slice_def not_le)
  qed
  then show ?thesis
    using True detok_loop_spec [OF s hon finditer_spec(2) [OF placeholder_never_empty placeholder_no_overlaps], of _ "text" 0 "text" "[]"]
      re_sub_swap [of u "known_value v sid (recs s sid)" "text"]
    by (simp add: detokenize_def re_sub_def)
next
  case False
  have "swap (known_value v sid (recs s sid)) text = text"
  proof (rule swap_id)
    fix p w q assume *: "text = p @ w @ q" "is_ph w"
    then obtain b where "w = 91 # 91 # b" using is_ph_shape by blast
    then have "text = p @ str ''[['' @ b @ q" using *(1) by (simp add: str_def)
    then show "known_value v sid (recs s sid) w = w" using False unfolding contains_iff by blast
  qed
  then show ?thesis using False by (simp add: detokenize_def)
qed

lemma tokenize_inv: "inv s \<Longrightarrow> okid sid \<Longrightarrow> tokenize ops v rng sid text ss (s, n) = Inr (out, s', n') \<Longrightarrow> inv s'"
proof -
  assume *: "inv s" "okid sid" "tokenize ops v rng sid text ss (s, n) = Inr (out, s', n')"
  show ?thesis
  proof (cases "ss = []")
    case False
    then have "rfold (tokenize_step ops v rng sid text) (sort_key (\<lambda>x. - int (sp_start x)) ss) (s, n, text) = Inr (s', n', out)"
      using *(3) by (auto simp: tokenize_def rbind_Inr_iff)
    then show ?thesis using fold_grow [OF *(1,2)] by blast
  qed (use * in \<open>auto simp: tokenize_def\<close>)
qed

lemma tokenize_spec:
  assumes s: "inv s" "okid sid" and hon: "honest v sid V (recs s sid)" and inj: "fp_inj v sid V"
    and prim: "crypto_ok (va_crypto v)" "rng_ok rng"
    and sp: "\<forall>x\<in>set ss. wf_span text x \<and> (sp_type x, slice text (sp_start x) (sp_end x)) \<in> V" "chained ss"
    and run: "tokenize ops v rng sid text ss (s, n) = Inr (out, s', n')"
    and dist: "distinct (map tr_placeholder (recs s' sid))"
  shows "inv s' \<and> honest v sid V (recs s' sid)
    \<and> (\<exists>new. map core (recs s' sid) = map core (recs s sid) @ map core new)
    \<and> (\<forall>sid'. okid sid' \<longrightarrow> sid' \<noteq> sid \<longrightarrow> recs s' sid' = recs s sid')
    \<and> (\<exists>ps. each_stands v sid text (recs s' sid) ss ps \<and> out = render text 0 ss ps)"
proof (cases "ss = []")
  case True
  then show ?thesis using run s hon by (auto simp: tokenize_def each_stands_def intro!: exI [of _ "[]"])
next
  case False
  have "sort_key (\<lambda>x. - int (sp_start x)) ss = rev ss"
    using sp by (intro sort_reverse_chained) (auto simp: wf_span_def)
  then have "rfold (tokenize_step ops v rng sid text) (rev ss) (s, n, text) = Inr (s', n', out)"
    using run False by (auto simp: tokenize_def rbind_Inr_iff)
  from fold_spec [OF s hon inj prim sp this dist] show ?thesis .
qed

lemma roundtrip:
  assumes s: "inv s" "okid sid" and hon: "honest v sid V (recs s sid)" and inj: "fp_inj v sid V"
    and prim: "crypto_ok (va_crypto v)" "rng_ok rng"
    and sp: "\<forall>x\<in>set ss. wf_span text x \<and> (sp_type x, slice text (sp_start x) (sp_end x)) \<in> V" "chained ss"
    and ty: "\<forall>x\<in>set ss. ph_type (sp_type x)"
    and run: "tokenize ops v rng sid text ss (s, n) = Inr (out, s', n')"
    and dist: "distinct (map tr_placeholder (recs s' sid))"
    and lit: "\<forall>r\<in>set (recs s' sid). \<not> contains text (tr_placeholder r)"
  shows "detokenize u ops v s' sid out = Inr text"
proof -
  obtain ps where *: "inv s'" "honest v sid V (recs s' sid)" "each_stands v sid text (recs s' sid) ss ps" "out = render text 0 ss ps"
    using tokenize_spec [OF s hon inj prim sp run dist] by blast
  have "swap (known_value v sid (recs s' sid)) out = drop 0 text"
    unfolding *(4) by (rule swap_render [OF *(3) dist lit]) (use sp ty in \<open>auto simp: wf_span_def\<close>)
  then show ?thesis using detokenize_swap [OF *(1) s(2) dist *(2)] by simp
qed

text \<open>Two spans get the same placeholder exactly when they have the same type and text.\<close>

lemma referential:
  assumes s: "inv s" "okid sid" and hon: "honest v sid V (recs s sid)" and inj: "fp_inj v sid V"
    and prim: "crypto_ok (va_crypto v)" "rng_ok rng"
    and sp: "\<forall>x\<in>set ss. wf_span text x \<and> (sp_type x, slice text (sp_start x) (sp_end x)) \<in> V" "chained ss"
    and run: "tokenize ops v rng sid text ss (s, n) = Inr (out, s', n')"
    and dist: "distinct (map tr_placeholder (recs s' sid))"
  shows "\<exists>ps. length ps = length ss \<and> out = render text 0 ss ps \<and>
    (\<forall>i<length ss. \<exists>h. ph_hex h \<and> ps ! i = make_placeholder (sp_type (ss ! i)) h) \<and>
    (\<forall>i<length ss. \<forall>j<length ss. ps ! i = ps ! j \<longleftrightarrow> sp_type (ss ! i) = sp_type (ss ! j) \<and> sp_text (ss ! i) = sp_text (ss ! j))"
proof -
  let ?val = "\<lambda>x. slice text (sp_start x) (sp_end x)"
  obtain ps where *: "inv s'" "honest v sid V (recs s' sid)" "each_stands v sid text (recs s' sid) ss ps" "out = render text 0 ss ps"
    using tokenize_spec [OF s hon inj prim sp run dist] by blast
  have len: "length ps = length ss" using *(3) by (auto simp: each_stands_def dest: list_all2_lengthD)
  have at: "\<exists>r\<in>set (recs s' sid). tr_placeholder r = ps ! i \<and> stands_for v sid r (sp_type (ss ! i)) (?val (ss ! i))"
    if "i < length ss" for i
    using *(3) that by (auto simp: each_stands_def list_all2_conv_all_nth)
  have fps: "distinct (map tr_fp (recs s' sid))" using recs_distinct [OF *(1) s(2)] .
  have inj_on: "r = r'" if "r \<in> set (recs s' sid)" "r' \<in> set (recs s' sid)" "g r = g r'" "distinct (map g (recs s' sid))" for r r' and g :: "token_record \<Rightarrow> pystr"
    using that by (auto simp: distinct_map dest: inj_onD)
  have same: "ps ! i = ps ! j \<longleftrightarrow> sp_type (ss ! i) = sp_type (ss ! j) \<and> ?val (ss ! i) = ?val (ss ! j)"
    if i: "i < length ss" and j: "j < length ss" for i j
  proof -
    obtain r r' where r: "r \<in> set (recs s' sid)" "tr_placeholder r = ps ! i" "stands_for v sid r (sp_type (ss ! i)) (?val (ss ! i))"
      and r': "r' \<in> set (recs s' sid)" "tr_placeholder r' = ps ! j" "stands_for v sid r' (sp_type (ss ! j)) (?val (ss ! j))"
      using at [OF i] at [OF j] by blast
    show ?thesis
    proof
      assume "ps ! i = ps ! j"
      then have "r = r'" using inj_on [OF r(1) r'(1) _ dist] r(2) r'(2) by simp
      then show "sp_type (ss ! i) = sp_type (ss ! j) \<and> ?val (ss ! i) = ?val (ss ! j)"
        using r(3) r'(3) by (simp add: stands_for_def)
    next
      assume "sp_type (ss ! i) = sp_type (ss ! j) \<and> ?val (ss ! i) = ?val (ss ! j)"
      then have "tr_fp r = tr_fp r'" using r(3) r'(3) by (simp add: stands_for_def)
      then have "r = r'" using inj_on [OF r(1) r'(1) _ fps] by simp
      then show "ps ! i = ps ! j" using r(2) r'(2) by simp
    qed
  qed
  have cov: "sp_text (ss ! i) = ?val (ss ! i)" if "i < length ss" for i
    using sp(1) that by (auto simp: wf_span_def)
  have form: "\<exists>h. ph_hex h \<and> ps ! i = make_placeholder (sp_type (ss ! i)) h" if "i < length ss" for i
    using at [OF that] unfolding stands_for_def by metis
  show ?thesis using len *(4) form same cov by (intro exI [of _ ps]) simp
qed

text \<open>What a text detokenized to before, it still does: new records do not touch old placeholders.\<close>

lemma known_value_mono:
  assumes "map core rs' = map core rs @ map core new" "distinct (map tr_placeholder rs')" "w \<in> tr_placeholder ` set rs"
  shows "known_value v sid rs' w = known_value v sid rs w"
proof -
  have f: "known_value v sid rs w = (case find (\<lambda>c. fst c = w) (map core rs) of None \<Rightarrow> w
      | Some c \<Rightarrow> (case decrypt v sid (fst (snd (snd c))) of Inr x \<Rightarrow> x | Inl _ \<Rightarrow> w))" for rs
    by (induction rs) (auto simp: known_value_def core_def)
  have "find (\<lambda>c. fst c = w) (map core rs @ cs) = find (\<lambda>c. fst c = w) (map core rs)" for cs
    using assms(3) by (induction rs) (auto simp: core_def)
  then show ?thesis unfolding f assms(1) by simp
qed

end

lemma pg_recs_placeholders: "pg_inv rows \<Longrightarrow> distinct (map tr_placeholder (pg_recs rows sid))"
proof -
  assume "pg_inv rows"
  then have "distinct (map (\<lambda>r. (tr_session r, tr_placeholder r)) (pg_recs rows sid))"
    unfolding pg_inv_def pg_recs_def by (blast intro: distinct_map_filter)
  then have "distinct (map snd (map (\<lambda>r. (tr_session r, tr_placeholder r)) (pg_recs rows sid)))"
    unfolding distinct_map [of snd] by (auto simp: inj_on_def pg_recs_def)
  then show ?thesis by (simp add: comp_def)
qed

lemma wf_values:
  assumes "\<forall>x\<in>set ss. wf_span text x \<and> ph_type (sp_type x) \<and> (sp_type x, sp_text x) \<in> V"
  shows "\<forall>x\<in>set ss. wf_span text x \<and> (sp_type x, slice text (sp_start x) (sp_end x)) \<in> V"
    "\<forall>x\<in>set ss. ph_type (sp_type x)"
  using assms by (auto simp: wf_span_def)

section \<open>Properties\<close>

text \<open>C1. Detokenizing what \<open>tokenize\<close> returned gives the original text back, with the Postgres
  store: the session's earlier records are encryptions of their values, the fingerprints of the
  session tell its values apart, the spans are in order and disjoint, their types follow the
  placeholder grammar, and the text does not itself spell a placeholder of the session.\<close>

theorem vault_roundtrip_pg:
  assumes "pg_inv s" "honest v sid V (pg_recs s sid)" "fp_inj v sid V" "crypto_ok (va_crypto v)" "rng_ok rng"
    and "\<forall>x\<in>set ss. wf_span text x \<and> ph_type (sp_type x) \<and> (sp_type x, sp_text x) \<in> V"
    and "sorted_wrt (\<lambda>a b. sp_end a \<le> sp_start b) ss"
    and "tokenize (pg_ops Inr) v rng sid text ss (s, n) = Inr (out, s', n')"
    and "\<forall>r\<in>set (pg_recs s' sid). \<not> contains text (tr_placeholder r)"
  shows "detokenize u (pg_ops Inr) v s' sid out = Inr text"
proof -
  have "pg_inv s'" by (rule pg.tokenize_inv [OF assms(1) _ assms(8)]) simp
  from pg.roundtrip [OF assms(1) _ assms(2-5) wf_values(1) [OF assms(6)] assms(7) wf_values(2) [OF assms(6)] assms(8)
      pg_recs_placeholders [OF this] assms(9)]
  show ?thesis by simp
qed

text \<open>The same with the in-memory store, whose \<open>put\<close> does not check the placeholder: here the
  placeholders of the session have to have come out distinct.\<close>

lemma vault_roundtrip_mem:
  assumes "mem_inv s" "honest v sid V (mem_recs s sid)" "fp_inj v sid V" "crypto_ok (va_crypto v)" "rng_ok rng"
    and "\<forall>x\<in>set ss. wf_span text x \<and> ph_type (sp_type x) \<and> (sp_type x, sp_text x) \<in> V"
    and "sorted_wrt (\<lambda>a b. sp_end a \<le> sp_start b) ss"
    and "tokenize mem_ops v rng sid text ss (s, n) = Inr (out, s', n')"
    and "distinct (map tr_placeholder (mem_recs s' sid))"
    and "\<forall>r\<in>set (mem_recs s' sid). \<not> contains text (tr_placeholder r)"
  shows "detokenize u mem_ops v s' sid out = Inr text"
  using mem.roundtrip [OF assms(1) _ assms(2-5) wf_values(1) [OF assms(6)] assms(7) wf_values(2) [OF assms(6)] assms(8-10)]
  by simp

text \<open>C2. Referential consistency: the tokenized text is the text with each span replaced by a
  placeholder of its type, and two spans get the same placeholder exactly when they have the
  same type and the same text. The characters outside the spans are unchanged.\<close>

theorem vault_referential:
  assumes "pg_inv s" "honest v sid V (pg_recs s sid)" "fp_inj v sid V" "crypto_ok (va_crypto v)" "rng_ok rng"
    and "\<forall>x\<in>set ss. wf_span text x \<and> ph_type (sp_type x) \<and> (sp_type x, sp_text x) \<in> V"
    and "sorted_wrt (\<lambda>a b. sp_end a \<le> sp_start b) ss"
    and "tokenize (pg_ops Inr) v rng sid text ss (s, n) = Inr (out, s', n')"
  shows "\<exists>ps. length ps = length ss \<and> out = render text 0 ss ps \<and>
    (\<forall>i<length ss. \<exists>h. ph_hex h \<and> ps ! i = make_placeholder (sp_type (ss ! i)) h) \<and>
    (\<forall>i<length ss. \<forall>j<length ss. ps ! i = ps ! j \<longleftrightarrow> sp_type (ss ! i) = sp_type (ss ! j) \<and> sp_text (ss ! i) = sp_text (ss ! j))"
proof -
  have "pg_inv s'" by (rule pg.tokenize_inv [OF assms(1) _ assms(8)]) simp
  from pg.referential [OF assms(1) _ assms(2-5) wf_values(1) [OF assms(6)] assms(7,8) pg_recs_placeholders [OF this]]
  show ?thesis by simp
qed

text \<open>C6. A text that could be re-inflated before a call of \<open>tokenize\<close> is re-inflated the same way
  after it, unless it spells one of the new placeholders.\<close>

theorem detokenize_stable:
  assumes "pg_inv s" "honest v sid V (pg_recs s sid)" "fp_inj v sid V" "crypto_ok (va_crypto v)" "rng_ok rng"
    and "\<forall>x\<in>set ss. wf_span text x \<and> ph_type (sp_type x) \<and> (sp_type x, sp_text x) \<in> V"
    and "sorted_wrt (\<lambda>a b. sp_end a \<le> sp_start b) ss"
    and "tokenize (pg_ops Inr) v rng sid text ss (s, n) = Inr (out, s', n')"
    and "\<forall>r\<in>set (pg_recs s' sid). contains reply (tr_placeholder r) \<longrightarrow> tr_placeholder r \<in> tr_placeholder ` set (pg_recs s sid)"
  shows "detokenize u (pg_ops Inr) v s' sid reply = detokenize u (pg_ops Inr) v s sid reply"
proof -
  have inv': "pg_inv s'" by (rule pg.tokenize_inv [OF assms(1) _ assms(8)]) simp
  note d = pg_recs_placeholders [OF inv', of sid] and d0 = pg_recs_placeholders [OF assms(1), of sid]
  obtain new where hon': "honest v sid V (pg_recs s' sid)"
    and new: "map core (pg_recs s' sid) = map core (pg_recs s sid) @ map core new"
    using pg.tokenize_spec [OF assms(1) _ assms(2-5) wf_values(1) [OF assms(6)] assms(7,8) d] by auto
  have "swap (known_value v sid (pg_recs s' sid)) reply = swap (known_value v sid (pg_recs s sid)) reply"
  proof (rule swap_cong)
    fix p w q assume w: "reply = p @ w @ q"
    show "known_value v sid (pg_recs s' sid) w = known_value v sid (pg_recs s sid) w"
    proof (cases "w \<in> tr_placeholder ` set (pg_recs s sid)")
      case True
      then show ?thesis by (rule pg.known_value_mono [OF new d])
    next
      case False
      then have "w \<notin> tr_placeholder ` set (pg_recs s' sid)" using assms(9) w unfolding contains_iff by fastforce
      then show ?thesis using False by (simp add: known_value_unknown)
    qed
  qed
  then show ?thesis
    using pg.detokenize_swap [OF inv' _ d hon', of u reply] pg.detokenize_swap [OF assms(1) _ d0 assms(2), of u reply] by simp
qed

text \<open>A new placeholder is not in use in the session, unless all 32 draws were: the allocation
  then falls back to the first twelve digits of the fingerprint without looking it up.\<close>

lemma allocate_fresh:
  assumes "mem_inv s" "distinct (map tr_placeholder (mem_recs s sid))" "rng_ok rng"
    and "allocate_placeholder mem_ops rng s sid ty fp n = Inr (ph, n')"
  shows "ph \<notin> tr_placeholder ` set (mem_recs s sid) \<and> (\<exists>h. ph_hex h \<and> ph = make_placeholder ty h)
    \<or> ph = make_placeholder ty (take 12 fp) \<and> n' = n + 32 \<and>
      (\<forall>i<32. make_placeholder ty (hexdigest (rng (n + i) (draw_sizes ! i))) \<in> tr_placeholder ` set (mem_recs s sid))"
proof -
  obtain q where q: "try_alloc mem_ops rng s sid ty draw_sizes n = Inr (q, n')"
    "ph = (case q of Some p \<Rightarrow> p | None \<Rightarrow> make_placeholder ty (take 12 fp))"
    using assms(4) by (auto simp: allocate_placeholder_def rbind_Inr_iff split: option.splits)
  have "length draw_sizes = 32" by (simp add: draw_sizes_def)
  then show ?thesis
    using mem.alloc_spec [OF assms(1) _ assms(2,3) order_refl q(1)] q(2) by (cases q) auto
qed

section \<open>Witnesses\<close>

text \<open>A transparent cipher and a counter for a random source.\<close>

definition plain_crypto :: crypto where
  "plain_crypto =
     \<lparr>c_hkdf = \<lambda>m s i. m, c_hmac = \<lambda>k m. take 32 (m @ replicate 32 0),
      c_seal = \<lambda>k n p. p, c_open = \<lambda>k n c. Inr c\<rparr>"

definition plain_vault :: vault where
  "plain_vault = \<lparr>va_crypto = plain_crypto, va_master_key = [1], va_fingerprint_key = [2]\<rparr>"

definition count_rng :: rng where "count_rng i n = replicate n (of_nat i)"

lemma plain_ok: "crypto_ok (va_crypto plain_vault)" "rng_ok count_rng"
  by (auto simp: crypto_ok_def plain_vault_def plain_crypto_def rng_ok_def count_rng_def min_def)

lemma fp_inj_list:
  "distinct (map (\<lambda>(t, x). fingerprint v sid t x) L) \<Longrightarrow> fp_inj v sid (set L)"
proof -
  assume d: "distinct (map (\<lambda>(t, x). fingerprint v sid t x) L)"
  show ?thesis
    unfolding fp_inj_def
  proof clarify
    fix t x t' x' fp
    assume "(t, x) \<in> set L" "(t', x') \<in> set L" "fingerprint v sid t x = Inr fp" "fingerprint v sid t' x' = Inr fp"
    then have "(t, x) = (t', x')"
      using d unfolding distinct_map by (intro inj_onD [of "\<lambda>(t, x). fingerprint v sid t x" "set L"]) simp_all
    then show "t = t' \<and> x = x'" by simp
  qed
qed

definition john_text :: pystr where "john_text = str ''John met John in Oslo''"

definition john_span :: "nat \<Rightarrow> nat \<Rightarrow> string \<Rightarrow> entity_span" where
  "john_span a b ty = \<lparr>sp_start = a, sp_end = b, sp_type = str ty, sp_text = slice john_text a b, sp_score = 1,
     sp_source = str ''presidio'', sp_jurisdiction = None\<rparr>"

definition john_spans :: "entity_span list" where
  "john_spans = [john_span 0 4 ''PERSON'', john_span 9 13 ''PERSON'', john_span 17 21 ''LOCATION'']"

definition john_values :: "(pystr \<times> pystr) list" where
  "john_values = [(str ''PERSON'', str ''John''), (str ''LOCATION'', str ''Oslo'')]"

lemma john_wf: "\<forall>x\<in>set john_spans. wf_span john_text x \<and> ph_type (sp_type x) \<and> (sp_type x, sp_text x) \<in> set john_values"
  unfolding wf_span_def by code_simp

lemma john_chained: "sorted_wrt (\<lambda>a b. sp_end a \<le> sp_start b) john_spans"
  by (simp add: john_spans_def john_span_def)

lemmas vault_eval = utf8_encode_def encodable_def enc1_def str_def hexdigest_def hex_digit_def surrogate_def
  fingerprint_def derive_dek_def encrypt_def plain_vault_def plain_crypto_def count_rng_def NONCE_LEN_def

lemma john_fp:
  "fingerprint plain_vault [115] [80, 69, 82, 83, 79, 78] [74, 111, 104, 110] =
     Inr (hexdigest (map of_nat (str ''s:PERSON:John'') @ replicate 19 0))"
  "fingerprint plain_vault [115] [76, 79, 67, 65, 84, 73, 79, 78] [79, 115, 108, 111] =
     Inr (hexdigest (map of_nat (str ''s:LOCATION:Oslo'') @ replicate 17 0))"
  "hexdigest (map of_nat (str ''s:PERSON:John'') @ replicate 19 0) \<noteq> hexdigest (map of_nat (str ''s:LOCATION:Oslo'') @ replicate 17 0)"
proof -
  show "hexdigest (map of_nat (str ''s:PERSON:John'') @ replicate 19 0) \<noteq> hexdigest (map of_nat (str ''s:LOCATION:Oslo'') @ replicate 17 0)"
    by (simp add: hexdigest_def hex_digit_def str_def)
qed (simp_all add: fingerprint_def utf8_encode_def encodable_def enc1_def surrogate_def plain_vault_def plain_crypto_def str_def)

lemma john_inj: "fp_inj plain_vault (str ''s'') (set john_values)"
proof (rule fp_inj_list)
  have "str ''s'' = [115]" "str ''PERSON'' = [80, 69, 82, 83, 79, 78]" "str ''John'' = [74, 111, 104, 110]"
    "str ''LOCATION'' = [76, 79, 67, 65, 84, 73, 79, 78]" "str ''Oslo'' = [79, 115, 108, 111]" by (simp_all add: str_def)
  then show "distinct (map (\<lambda>(t, x). fingerprint plain_vault (str ''s'') t x) john_values)"
    using john_fp(3) by (simp add: john_values_def john_fp(1,2))
qed

definition john_run_pg :: "(pystr \<times> token_record list \<times> nat) res" where
  "john_run_pg = tokenize (pg_ops Inr) plain_vault count_rng (str ''s'') john_text john_spans ([], 0)"

lemma john_sorted: "sort_key (\<lambda>x. - int (sp_start x)) john_spans = rev john_spans"
  using john_wf john_chained by (intro sort_reverse_chained) (auto simp: wf_span_def)

lemma john_draws: "draw_sizes = 3 # tl draw_sizes"
  "hexdigest (count_rng 0 3) = [48, 48, 48, 48, 48, 48]" "hexdigest (count_rng 2 3) = [48, 50, 48, 50, 48, 50]"
  "hexdigest (count_rng (Suc (Suc 0)) 3) = [48, 50, 48, 50, 48, 50]"
proof -
  show "draw_sizes = 3 # tl draw_sizes" by (simp add: draw_sizes_def numeral_eq_Suc)
  have "replicate 3 x = [x, x, x]" for x :: "8 word" by (simp add: numeral_eq_Suc)
  then show "hexdigest (count_rng 0 3) = [48, 48, 48, 48, 48, 48]" "hexdigest (count_rng 2 3) = [48, 50, 48, 50, 48, 50]"
    "hexdigest (count_rng (Suc (Suc 0)) 3) = [48, 50, 48, 50, 48, 50]"
    by (simp_all add: count_rng_def hexdigest_def hex_digit_def)
qed

lemma john_encrypt:
  "encrypt plain_vault count_rng [115] [79, 115, 108, 111] n = Inr (replicate 12 (of_nat n) @ [79, 115, 108, 111], Suc n)"
  "encrypt plain_vault count_rng [115] [74, 111, 104, 110] n = Inr (replicate 12 (of_nat n) @ [74, 111, 104, 110], Suc n)"
  by (simp_all add: vault_eval Let_def)

lemmas john_eval = john_fp john_encrypt tokenize_step_def john_spans_def john_span_def john_text_def slice_def str_def Let_def
  allocate_placeholder_def make_placeholder_def startswith_def

lemma alloc_first: "try_alloc ops rng s sid ty draw_sizes n =
    (let placeholder = make_placeholder ty (hexdigest (rng n 3)) in
      rbind (so_get_ph ops s sid placeholder) (\<lambda>q.
        case q of None \<Rightarrow> Inr (Some placeholder, Suc n)
        | Some _ \<Rightarrow> try_alloc ops rng s sid ty (tl draw_sizes) (Suc n)))"
  by (subst john_draws(1)) simp

lemma john_run_pg: "\<exists>out s' n'. john_run_pg = Inr (out, s', n') \<and>
    (\<forall>r\<in>set (pg_recs s' (str ''s'')). \<not> contains john_text (tr_placeholder r))"
  unfolding john_run_pg_def tokenize_def john_sorted
  by (simp add: john_eval alloc_first john_draws(2-4) pg_ops_def pg_get_by_fingerprint_def pg_get_by_placeholder_def pg_put_def
      pg_bump_occurrence_def scalar_one_or_none_def pg_recs_def bump_rec_def john_fp(3) [symmetric]) (auto simp: startswith_def)

lemma empty_stores: "pg_inv []" "honest v sid V (pg_recs [] sid)" "mem_inv mem_empty" "honest v sid V (mem_recs mem_empty sid)"
  by (simp_all add: pg_inv_def honest_def pg_recs_def mem_inv_def mem_empty_def mem_recs_def)

theorem vault_roundtrip_pg_witness:
  "\<exists>out s' n'. john_run_pg = Inr (out, s', n') \<and> detokenize ascii_ucd (pg_ops Inr) plain_vault s' (str ''s'') out = Inr john_text"
proof -
  obtain out s' n' where *: "john_run_pg = Inr (out, s', n')"
    "\<forall>r\<in>set (pg_recs s' (str ''s'')). \<not> contains john_text (tr_placeholder r)"
    using john_run_pg by blast
  show ?thesis
    using vault_roundtrip_pg [OF empty_stores(1,2) john_inj plain_ok john_wf john_chained *(1) [unfolded john_run_pg_def] *(2)] *(1)
    by blast
qed

theorem vault_referential_witness:
  "\<exists>out s' n'. \<exists>ps :: pystr list. john_run_pg = Inr (out, s', n') \<and> length ps = 3 \<and> ps ! 0 = ps ! 1 \<and> ps ! 0 \<noteq> ps ! 2"
proof -
  obtain out s' n' where *: "john_run_pg = Inr (out, s', n')" using john_run_pg by blast
  obtain ps :: "pystr list" where ps: "length ps = length john_spans"
    "\<forall>i<length john_spans. \<forall>j<length john_spans. ps ! i = ps ! j \<longleftrightarrow>
       sp_type (john_spans ! i) = sp_type (john_spans ! j) \<and> sp_text (john_spans ! i) = sp_text (john_spans ! j)"
    using vault_referential [OF empty_stores(1,2) john_inj plain_ok john_wf john_chained *(1) [unfolded john_run_pg_def]] by blast
  have "length ps = 3" "ps ! 0 = ps ! 1" "ps ! 0 \<noteq> ps ! 2"
    using ps(1) ps(2) [rule_format, of 0 1] ps(2) [rule_format, of 0 2]
    by (simp_all add: john_spans_def john_span_def slice_def john_text_def str_def)
  then show ?thesis using * by blast
qed

text \<open>A session in which \<open>John\<close> already has a placeholder, and a text with him and a new value in it.\<close>

definition first_spans :: "entity_span list" where "first_spans = [john_span 0 4 ''PERSON'']"

definition first_run :: "(pystr \<times> token_record list \<times> nat) res" where
  "first_run = tokenize (pg_ops Inr) plain_vault count_rng (str ''s'') (str ''John'') first_spans ([], 0)"

lemma first_wf: "\<forall>x\<in>set first_spans. wf_span (str ''John'') x \<and> ph_type (sp_type x) \<and> (sp_type x, sp_text x) \<in> set john_values"
  unfolding wf_span_def by code_simp

lemma two_runs: "\<exists>out s n out2 s2 n2. first_run = Inr (out, s, n) \<and>
    tokenize (pg_ops Inr) plain_vault count_rng (str ''s'') john_text john_spans (s, n) = Inr (out2, s2, n2) \<and>
    (\<forall>r\<in>set (pg_recs s (str ''s'')). \<not> contains (str ''John'') (tr_placeholder r)) \<and> length (pg_recs s (str ''s'')) = 1 \<and>
    length (pg_recs s2 (str ''s'')) = 2 \<and>
    (\<forall>r\<in>set (pg_recs s2 (str ''s'')). contains out (tr_placeholder r) \<longrightarrow> tr_placeholder r \<in> tr_placeholder ` set (pg_recs s (str ''s'')))"
proof -
  have "sort_key (\<lambda>x. - int (sp_start x)) first_spans = first_spans" by (simp add: first_spans_def)
  then show ?thesis
    unfolding first_run_def tokenize_def john_sorted
    by (simp add: first_spans_def john_eval alloc_first john_draws(2-4) pg_ops_def pg_get_by_fingerprint_def pg_get_by_placeholder_def pg_put_def
        pg_bump_occurrence_def scalar_one_or_none_def pg_recs_def bump_rec_def john_fp(3) [symmetric])
      (use john_fp(3) in \<open>auto simp: str_def\<close>)
qed

theorem detokenize_stable_witness:
  "\<exists>out s n out2 s2 n2. first_run = Inr (out, s, n) \<and>
     tokenize (pg_ops Inr) plain_vault count_rng (str ''s'') john_text john_spans (s, n) = Inr (out2, s2, n2) \<and>
     length (pg_recs s (str ''s'')) = 1 \<and> length (pg_recs s2 (str ''s'')) = 2 \<and>
     detokenize ascii_ucd (pg_ops Inr) plain_vault s (str ''s'') out = Inr (str ''John'') \<and>
     detokenize ascii_ucd (pg_ops Inr) plain_vault s2 (str ''s'') out = Inr (str ''John'')"
proof -
  obtain out s n out2 s2 n2 where *: "first_run = Inr (out, s, n)"
    "tokenize (pg_ops Inr) plain_vault count_rng (str ''s'') john_text john_spans (s, n) = Inr (out2, s2, n2)"
    "\<forall>r\<in>set (pg_recs s (str ''s'')). \<not> contains (str ''John'') (tr_placeholder r)"
    "length (pg_recs s (str ''s'')) = 1" "length (pg_recs s2 (str ''s'')) = 2"
    "\<forall>r\<in>set (pg_recs s2 (str ''s'')). contains out (tr_placeholder r) \<longrightarrow> tr_placeholder r \<in> tr_placeholder ` set (pg_recs s (str ''s''))"
    using two_runs by blast
  note run = *(1) [unfolded first_run_def]
  have ch: "sorted_wrt (\<lambda>a b. sp_end a \<le> sp_start b) first_spans" by (simp add: first_spans_def)
  have inv: "pg_inv s" by (rule pg.tokenize_inv [OF empty_stores(1) _ run]) simp
  note d = pg_recs_placeholders [OF inv]
  have hon: "honest plain_vault (str ''s'') (set john_values) (pg_recs s (str ''s''))"
    using pg.tokenize_spec [OF empty_stores(1) _ empty_stores(2) john_inj plain_ok wf_values(1) [OF first_wf] ch run d] by simp
  have "detokenize ascii_ucd (pg_ops Inr) plain_vault s (str ''s'') out = Inr (str ''John'')"
    using pg.roundtrip [OF empty_stores(1) _ empty_stores(2) john_inj plain_ok wf_values(1) [OF first_wf] ch wf_values(2) [OF first_wf] run d *(3)]
    by simp
  then show ?thesis
    using detokenize_stable [OF inv hon john_inj plain_ok john_wf john_chained *(2,6), of ascii_ucd] * by metis
qed

end
