(* ===== verification/Stream_Detok.thy ===== *)
theory Stream_Detok
  imports Vault
begin

text \<open>
  \<open>StreamDetokenizer\<close> of \<open>app/redaction/vault.py\<close>: re-inflating a text that arrives in chunks.
  The class is a buffer and, for the prepared variant, a snapshot of the session's placeholders.
\<close>

section \<open>The code\<close>

text \<open>\<open>PLACEHOLDER_RE.sub(lambda m: resolved.get(m.group(0), m.group(0)), text)\<close>\<close>

definition resolve_map :: "ucd \<Rightarrow> (pystr \<times> pystr) list \<Rightarrow> pystr \<Rightarrow> pystr" where
  "resolve_map u resolved text =
     re_sub u PLACEHOLDER_RE
       (\<lambda>m. case map_of resolved (m_group0 text m) of None \<Rightarrow> m_group0 text m | Some x \<Rightarrow> x) text"

text \<open>\<open>_resolve\<close>: \<open>resolved\<close> is the snapshot, or \<open>None\<close> for look-ups in the live store.\<close>

definition resolve ::
  "ucd \<Rightarrow> 's store_ops \<Rightarrow> vault \<Rightarrow> 's \<Rightarrow> pystr \<Rightarrow> (pystr \<times> pystr) list option \<Rightarrow> pystr \<Rightarrow> pystr res" where
  "resolve u ops v s sid resolved text =
     (case resolved of
        None \<Rightarrow> detokenize u ops v s sid text
      | Some m \<Rightarrow> if \<not> contains text (str ''[['') then Inr text else Inr (resolve_map u m text))"

definition hold_len :: "ucd \<Rightarrow> pystr \<Rightarrow> nat" where
  "hold_len u buffer = min (trailing_partial_len u buffer) MAX_PLACEHOLDER_LEN"

text \<open>\<open>push\<close> and \<open>flush\<close> take the buffer and return what is emitted and the new buffer.\<close>

definition push :: "ucd \<Rightarrow> (pystr \<Rightarrow> pystr res) \<Rightarrow> pystr \<Rightarrow> pystr \<Rightarrow> (pystr \<times> pystr) res" where
  "push u rslv buffer chunk =
     (let buffer = buffer @ chunk; hold = hold_len u buffer in
      if hold \<ge> length buffer then Inr ([], buffer)
      else let emit_src = (if hold \<noteq> 0 then take (length buffer - hold) buffer else buffer);
               buffer' = (if hold \<noteq> 0 then drop (length buffer - hold) buffer else [])
           in rbind (rslv emit_src) (\<lambda>out. Inr (out, buffer')))"

definition flush :: "(pystr \<Rightarrow> pystr res) \<Rightarrow> pystr \<Rightarrow> (pystr \<times> pystr) res" where
  "flush rslv buffer = (if buffer = [] then Inr ([], []) else rbind (rslv buffer) (\<lambda>out. Inr (out, [])))"

text \<open>A whole stream: every chunk pushed, then \<open>flush\<close>; the pieces are joined.\<close>

fun run_stream :: "ucd \<Rightarrow> (pystr \<Rightarrow> pystr res) \<Rightarrow> pystr \<Rightarrow> pystr list \<Rightarrow> pystr res" where
  "run_stream u rslv buffer [] = rbind (flush rslv buffer) (\<lambda>(out, _). Inr out)"
| "run_stream u rslv buffer (chunk # chunks) =
     rbind (push u rslv buffer chunk) (\<lambda>(out, buffer'). rbind (run_stream u rslv buffer' chunks) (\<lambda>rest. Inr (out @ rest)))"

definition stream_detokenizer_prepared ::
  "ucd \<Rightarrow> 's store_ops \<Rightarrow> vault \<Rightarrow> 's \<Rightarrow> pystr \<Rightarrow> (pystr \<Rightarrow> pystr res) res" where
  "stream_detokenizer_prepared u ops v s sid =
     rbind (resolution_map ops v s sid) (\<lambda>m. Inr (resolve u ops v s sid (Some m)))"

definition stream_detokenizer :: "ucd \<Rightarrow> 's store_ops \<Rightarrow> vault \<Rightarrow> 's \<Rightarrow> pystr \<Rightarrow> pystr \<Rightarrow> pystr res" where
  "stream_detokenizer u ops v s sid = resolve u ops v s sid None"

section \<open>Streams\<close>

lemma no_brackets_swap: "\<not> contains text (str ''[['') \<Longrightarrow> swap f text = text"
proof (rule swap_id)
  fix p w q assume *: "\<not> contains text (str ''[['')" "text = p @ w @ q" "is_ph w"
  then obtain b where "w = 91 # 91 # b" using is_ph_shape by blast
  then have "text = p @ str ''[['' @ b @ q" using *(2) by (simp add: str_def)
  then show "f w = w" using *(1) unfolding contains_iff by blast
qed

lemma resolve_map_swap: "resolve u ops v s sid (Some m) text =
    Inr (swap (\<lambda>w. case map_of m w of None \<Rightarrow> w | Some x \<Rightarrow> x) text)"
  using re_sub_swap [of u "\<lambda>w. case map_of m w of None \<Rightarrow> w | Some x \<Rightarrow> x" "text"]
  by (simp add: resolve_def resolve_map_def no_brackets_swap)

lemma run_stream_swap:
  assumes rslv: "\<And>t. rslv t = Inr (swap f t)"
    and short: "\<And>w. is_ph w \<Longrightarrow> MAX_PLACEHOLDER_LEN + 1 < length w \<Longrightarrow> f w = w"
  shows "run_stream u rslv buffer chunks = Inr (swap f (buffer @ concat chunks))"
proof (induction chunks arbitrary: buffer)
  case Nil
  then show ?case by (simp add: flush_def rslv)
next
  case (Cons chunk chunks)
  let ?b = "buffer @ chunk"
  let ?k = "hold_len u ?b"
  have split: "swap f (take (length ?b - ?k) ?b) @ swap f (drop (length ?b - ?k) ?b @ concat chunks) =
      swap f (?b @ concat chunks)"
  proof -
    have "no_cut f (take (length ?b - ?k) ?b) (drop (length ?b - ?k) ?b @ concat chunks)"
      by (rule hold_no_cut [OF hold_len_def short])
    from swap_append_cut [OF this] show ?thesis by (metis append.assoc append_take_drop_id)
  qed
  show ?case
  proof (cases "?k \<ge> length ?b")
    case True
    then show ?thesis using Cons [of ?b] by (simp add: push_def Let_def)
  next
    case False
    then have "push u rslv buffer chunk = Inr (swap f (take (length ?b - ?k) ?b), drop (length ?b - ?k) ?b)"
      by (simp add: push_def Let_def rslv)
    then show ?thesis using Cons [of "drop (length ?b - ?k) ?b"] split by simp
  qed
qed

context token_store
begin

lemma resolution_map_spec:
  assumes s: "inv s" "okid sid" "distinct (map tr_placeholder (recs s sid))" and hon: "honest v sid V (recs s sid)"
  shows "\<exists>m. resolution_map ops v s sid = Inr m \<and>
    (\<forall>w. known_value v sid (recs s sid) w = (case map_of m w of None \<Rightarrow> w | Some x \<Rightarrow> x))"
proof -
  let ?step = "\<lambda>r out. rbind (decrypt v sid (tr_cipher r)) (\<lambda>val. Inr (AList.update (tr_placeholder r) val out))"
  have "distinct (map tr_placeholder rs) \<Longrightarrow> honest v sid V rs \<Longrightarrow> \<exists>m. rfold ?step rs d = Inr m \<and>
      (\<forall>w. map_of m w = (if w \<in> tr_placeholder ` set rs then Some (known_value v sid rs w) else map_of d w))" for rs d
  proof (induction rs arbitrary: d)
    case (Cons r rs)
    obtain ty x where "stands_for v sid r ty x" using Cons.prems(2) unfolding honest_def by auto
    then have d: "decrypt v sid (tr_cipher r) = Inr x" by (simp add: stands_for_def)
    obtain m where m: "rfold ?step rs (AList.update (tr_placeholder r) x d) = Inr m"
      "\<forall>w. map_of m w = (if w \<in> tr_placeholder ` set rs then Some (known_value v sid rs w)
         else map_of (AList.update (tr_placeholder r) x d) w)"
      using Cons.IH [of "AList.update (tr_placeholder r) x d"] Cons.prems unfolding honest_def by auto
    have "known_value v sid (r # rs) w = (if w = tr_placeholder r then x else known_value v sid rs w)" for w
      using d by (simp add: known_value_def)
    then show ?case using m d Cons.prems(1) by (auto simp: image_iff)
  qed simp
  from this [OF s(3) hon, of "[]"] obtain m where m: "rfold ?step (recs s sid) [] = Inr m"
    "\<forall>w. map_of m w = (if w \<in> tr_placeholder ` set (recs s sid) then Some (known_value v sid (recs s sid) w) else None)"
    by auto
  have "known_value v sid (recs s sid) w = (case map_of m w of None \<Rightarrow> w | Some x \<Rightarrow> x)" for w
    using m(2) known_value_unknown [of w "recs s sid" v sid] by simp
  then show ?thesis using m(1) all [OF s(1,2)] by (simp add: resolution_map_def)
qed

end
lemma run_stream_detokenize:
  assumes "pg_inv s" "honest v sid V (pg_recs s sid)"
    and "\<forall>r\<in>set (pg_recs s sid). length (tr_placeholder r) \<le> MAX_PLACEHOLDER_LEN + 1"
  shows "rbind (stream_detokenizer_prepared u (pg_ops Inr) v s sid) (\<lambda>rslv. run_stream u rslv [] chunks) =
      detokenize u (pg_ops Inr) v s sid (concat chunks)
    \<and> run_stream u (stream_detokenizer u (pg_ops Inr) v s sid) [] chunks =
      detokenize u (pg_ops Inr) v s sid (concat chunks)"
proof -
  note d = pg_recs_placeholders [OF assms(1), of sid]
  let ?f = "known_value v sid (pg_recs s sid)"
  have detok: "detokenize u (pg_ops Inr) v s sid t = Inr (swap ?f t)" for t
    using pg.detokenize_swap [OF assms(1) _ d assms(2)] by simp
  have short: "?f w = w" if "is_ph w" "MAX_PLACEHOLDER_LEN + 1 < length w" for w
    using assms(3) that by (intro known_value_unknown) fastforce
  obtain m where m: "resolution_map (pg_ops Inr) v s sid = Inr m"
    "\<And>w. ?f w = (case map_of m w of None \<Rightarrow> w | Some x \<Rightarrow> x)"
    using pg.resolution_map_spec [OF assms(1) _ d assms(2)] by auto
  have f: "(\<lambda>w. case map_of m w of None \<Rightarrow> w | Some x \<Rightarrow> x) = ?f" using m(2) by (simp add: fun_eq_iff)
  have "run_stream u (resolve u (pg_ops Inr) v s sid (Some m)) [] chunks = Inr (swap ?f ([] @ concat chunks))"
    by (rule run_stream_swap) (simp_all add: resolve_map_swap f short)
  moreover have "run_stream u (resolve u (pg_ops Inr) v s sid None) [] chunks = Inr (swap ?f ([] @ concat chunks))"
    by (rule run_stream_swap) (simp_all add: resolve_def detok short)
  ultimately show ?thesis by (simp add: m(1) detok stream_detokenizer_prepared_def stream_detokenizer_def)
qed

definition long_type :: pystr where "long_type = replicate 64 65"

definition long_map :: "(pystr \<times> pystr) list" where
  "long_map = [(make_placeholder long_type (str ''0a1b2c''), str ''secret'')]"

definition long_chunks :: "pystr list" where
  "long_chunks = [str ''[['' @ long_type, str ''_0a1b2c]]'']"

lemma long_is_ph: "is_ph (make_placeholder long_type (str ''0a1b2c''))"
  unfolding is_ph_def
  by (intro exI conjI, rule_tac [3] refl)
    (simp_all add: long_type_def ph_type_def ph_hex_def str_def up_char_def ty_char_def hex_char_def list_all_iff numeral_eq_Suc)

lemma no_bracket_hold: "91 \<notin> set b \<Longrightarrow> hold_len u b = 0"
proof -
  assume b: "91 \<notin> set b"
  have "\<not> tail_at u b i" for i
  proof
    assume "tail_at u b i"
    then obtain z e where "drop i b = z @ e" "z \<in> lang u core_re" by (rule tail_at_shape)
    then have "91 \<in> set (drop i b)" using core_shape [of z u] by auto
    then show False using b by (auto dest: in_set_dropD)
  qed
  then show ?thesis using trailing_spec(2) [OF refl, where s = b and u = u] by (cases "trailing_partial_len u b") (auto simp: hold_len_def)
qed

lemma no_brackets_swap2: "swap f (str ''[['') = str ''[[''"
proof (rule swap_id)
  fix p w q assume *: "str ''[['' = p @ w @ q" "is_ph w"
  then obtain b where "ph_body b" "w = 91 # 91 # b @ [93, 93]" using is_ph_shape by blast
  then show "f w = w" using arg_cong [OF *(1), of length] by simp
qed

lemma no_bracket_swap: "91 \<notin> set b \<Longrightarrow> swap f b = b"
  by (rule swap_id) (auto dest!: is_ph_shape)

section \<open>Properties\<close>

text \<open>C3. Streaming is detokenization, in a session whose placeholders have at most 65 characters
  (\<open>MAX_PLACEHOLDER_LEN + 1\<close>): whatever the chunks, the pieces emitted by the prepared
  stream de-tokenizer, joined, are the detokenized whole text, and so are those of the live one.
  A longer placeholder may be cut: \<open>stream_cuts_long_placeholder\<close>.\<close>

theorem stream_is_detokenize:
  assumes "pg_inv s" "honest v sid V (pg_recs s sid)"
    and "\<forall>r\<in>set (pg_recs s sid). length (tr_placeholder r) \<le> MAX_PLACEHOLDER_LEN + 1"
  shows "rbind (stream_detokenizer_prepared u (pg_ops Inr) v s sid) (\<lambda>rslv. run_stream u rslv [] chunks) =
      detokenize u (pg_ops Inr) v s sid (concat chunks)
    \<and> run_stream u (stream_detokenizer u (pg_ops Inr) v s sid) [] chunks =
      detokenize u (pg_ops Inr) v s sid (concat chunks)"
  by (rule run_stream_detokenize [OF assms])

text \<open>A longer placeholder can be cut: one with a type of 64 letters, split after the type, is
  emitted as it is by the stream and resolved by the reference.\<close>

lemma stream_cuts_long_placeholder:
  "run_stream u (resolve u mem_ops plain_vault mem_empty [] (Some long_map)) [] long_chunks = Inr (concat long_chunks)
   \<and> resolve u mem_ops plain_vault mem_empty [] (Some long_map) (concat long_chunks) = Inr (str ''secret'')"
proof
  let ?w = "make_placeholder long_type (str ''0a1b2c'')"
  let ?f = "\<lambda>w. case map_of long_map w of None \<Rightarrow> w | Some x \<Rightarrow> x"
  let ?a = "str ''[['' @ long_type" and ?b = "str ''_0a1b2c]]''"
  have w: "?w = ?a @ ?b" by (simp add: make_placeholder_def str_def)
  have "?a \<in> lang u core_re" by (rule beginning_core [of _ ?b]) (use long_is_ph w in simp_all)
  from tail_at_suffix [OF this, of "[]"] have t: "tail_at u ?a 0" by simp
  have la: "length ?a = 66" by (simp add: long_type_def)
  have "\<not> trailing_partial_len u ?a < 66"
    using trailing_spec(3) [OF refl, where s = ?a and u = u and i = 0] t la by (auto simp del: length_append)
  then have hold: "hold_len u ?a = 64" using trailing_spec(1) [OF refl, where s = ?a and u = u] la by (simp add: hold_len_def MAX_PLACEHOLDER_LEN_def del: length_append)
  have no: "91 \<notin> set (long_type @ ?b)" by (simp add: long_type_def str_def)
  have first: "push u (resolve u mem_ops plain_vault mem_empty [] (Some long_map)) [] ?a = Inr (str ''[['', long_type)"
    by (simp add: push_def Let_def hold la [simplified] resolve_map_swap no_brackets_swap2)
  have second: "push u (resolve u mem_ops plain_vault mem_empty [] (Some long_map)) long_type ?b = Inr (long_type @ ?b, [])"
    using no_bracket_hold [OF no] no_bracket_swap [OF no] by (simp add: push_def Let_def resolve_map_swap long_type_def)
  show "run_stream u (resolve u mem_ops plain_vault mem_empty [] (Some long_map)) [] long_chunks = Inr (concat long_chunks)"
    by (simp add: long_chunks_def first second flush_def del: append_assoc)
  have "swap ?f ?w = str ''secret''"
    using swap_ph [OF long_is_ph, of ?f "[]"] by (simp add: long_map_def)
  then show "resolve u mem_ops plain_vault mem_empty [] (Some long_map) (concat long_chunks) = Inr (str ''secret'')"
    using w by (simp add: long_chunks_def resolve_map_swap)
qed

section \<open>Witnesses\<close>

lemma john_session:
  obtains out s' n' where "john_run_pg = Inr (out, s', n')" "pg_inv s'" "honest plain_vault (str ''s'') (set john_values) (pg_recs s' (str ''s''))"
    "\<forall>r\<in>set (pg_recs s' (str ''s'')). length (tr_placeholder r) \<le> MAX_PLACEHOLDER_LEN + 1"
    "detokenize ascii_ucd (pg_ops Inr) plain_vault s' (str ''s'') out = Inr john_text"
proof -
  obtain out s' n' where *: "john_run_pg = Inr (out, s', n')"
    "\<forall>r\<in>set (pg_recs s' (str ''s'')). \<not> contains john_text (tr_placeholder r)" using john_run_pg by blast
  note run = *(1) [unfolded john_run_pg_def]
  have inv: "pg_inv s'" by (rule pg.tokenize_inv [OF empty_stores(1) _ run]) simp
  note d = pg_recs_placeholders [OF inv]
  have hon: "honest plain_vault (str ''s'') (set john_values) (pg_recs s' (str ''s''))"
    using pg.tokenize_spec [OF empty_stores(1) _ empty_stores(2) john_inj plain_ok wf_values(1) [OF john_wf] john_chained run d] by simp
  have "\<forall>r\<in>set (pg_recs s' (str ''s'')). length (tr_placeholder r) \<le> MAX_PLACEHOLDER_LEN + 1"
  proof
    fix r assume "r \<in> set (pg_recs s' (str ''s''))"
    then obtain ty val where "(ty, val) \<in> set john_values" "stands_for plain_vault (str ''s'') r ty val"
      using hon unfolding honest_def by blast
    then have "length ty \<le> 8" "\<exists>h. length h \<le> 12 \<and> tr_placeholder r = make_placeholder ty h"
      by (auto simp: john_values_def stands_for_def ph_hex_def)
    then show "length (tr_placeholder r) \<le> MAX_PLACEHOLDER_LEN + 1"
      by (auto simp: make_placeholder_def MAX_PLACEHOLDER_LEN_def)
  qed
  moreover have "detokenize ascii_ucd (pg_ops Inr) plain_vault s' (str ''s'') out = Inr john_text"
    using pg.roundtrip [OF empty_stores(1) _ empty_stores(2) john_inj plain_ok wf_values(1) [OF john_wf] john_chained wf_values(2) [OF john_wf]
        run d *(2)] by simp
  ultimately show ?thesis using that [OF *(1) inv hon] by blast
qed

lemma concat_chars: "concat (map (\<lambda>c. [c]) xs) = xs"
  by (induction xs) simp_all

text \<open>The tokenized text, one character per chunk: every placeholder of it is cut everywhere.\<close>

theorem stream_is_detokenize_witness:
  "\<exists>out s' n'. john_run_pg = Inr (out, s', n') \<and>
     run_stream ascii_ucd (stream_detokenizer ascii_ucd (pg_ops Inr) plain_vault s' (str ''s'')) [] (map (\<lambda>c. [c]) out) = Inr john_text"
proof -
  obtain out s' n' where *: "john_run_pg = Inr (out, s', n')" "pg_inv s'"
    "honest plain_vault (str ''s'') (set john_values) (pg_recs s' (str ''s''))"
    "\<forall>r\<in>set (pg_recs s' (str ''s'')). length (tr_placeholder r) \<le> MAX_PLACEHOLDER_LEN + 1"
    "detokenize ascii_ucd (pg_ops Inr) plain_vault s' (str ''s'') out = Inr john_text" by (rule john_session)
  show ?thesis using stream_is_detokenize [OF *(2-4), of ascii_ucd "map (\<lambda>c. [c]) out"] *(1,5) unfolding concat_chars by metis
qed

end
