(* ===== verification/Merge.thy ===== *)
theory Merge
  imports Entities "HOL-Library.Product_Lexorder"
begin

text \<open>
  Span overlap resolution (\<open>app/redaction/merge.py\<close>). \<open>merge_spans\<close> is the code's loop
  with its backwards scan over the spans already kept; \<open>push_span\<close> is the one-pass stack
  algorithm it amounts to, and \<open>merge_spans_eq_stack\<close> says so. The properties of the result
  are proved on the stack.
\<close>

section \<open>The code\<close>

definition source_rank :: "pystr \<Rightarrow> int" where
  "source_rank s =
     (if s = str ''manual'' then 4
      else if s = str ''regex'' then 3
      else if s = str ''llm'' then 2
      else if s = str ''presidio'' then 1
      else 0)"

definition span_key :: "entity_span \<Rightarrow> rat \<times> int \<times> int" where
  "span_key s = (sp_score s, span_length s, source_rank (sp_source s))"

definition better :: "entity_span \<Rightarrow> entity_span \<Rightarrow> entity_span" where
  "better a b = (if span_key a \<ge> span_key b then a else b)"

definition order_key :: "entity_span \<Rightarrow> nat \<times> rat \<times> int \<times> int" where
  "order_key s = (sp_start s, - sp_score s, - span_length s, - source_rank (sp_source s))"

text \<open>
  The inner loop \<open>for i in range(len(kept) - 1, -1, -1)\<close>: the first argument is one more than
  the index looked at next. The result is \<open>(dropped, replaced, kept)\<close>.
\<close>

fun scan_kept :: "nat \<Rightarrow> entity_span \<Rightarrow> bool \<Rightarrow> entity_span list \<Rightarrow> bool \<times> bool \<times> entity_span list" where
  "scan_kept 0 sp replaced kept = (False, replaced, kept)"
| "scan_kept (Suc i) sp replaced kept =
     (let existing = kept ! i in
      if sp_end existing \<le> sp_start sp then (False, replaced, kept)
      else if \<not> overlaps existing sp then scan_kept i sp replaced kept
      else if better existing sp = existing then (True, replaced, kept)
      else scan_kept i sp True (list_pop i kept))"

definition merge_step :: "entity_span \<Rightarrow> entity_span list \<Rightarrow> entity_span list" where
  "merge_step sp kept =
     (case scan_kept (length kept) sp False kept of
        (dropped, replaced, kept') \<Rightarrow>
          if dropped then kept'
          else if replaced then sort_key sp_start (kept' @ [sp])
          else kept' @ [sp])"

definition merge_spans :: "entity_span list \<Rightarrow> entity_span list" where
  "merge_spans spans =
     (if spans = [] then []
      else sort_key (\<lambda>s. (sp_start s, sp_end s))
             (fold merge_step (sort_key order_key spans) []))"

section \<open>The stack algorithm\<close>

text \<open>The kept spans, last one first.\<close>

fun push_span :: "entity_span \<Rightarrow> entity_span list \<Rightarrow> entity_span list" where
  "push_span s [] = [s]"
| "push_span s (l # ks) =
     (if sp_end l \<le> sp_start s then s # l # ks
      else if span_key l \<ge> span_key s then l # ks
      else s # ks)"

abbreviation nonempty_span :: "entity_span \<Rightarrow> bool" where
  "nonempty_span s \<equiv> sp_start s < sp_end s"

definition stack_ok :: "entity_span list \<Rightarrow> bool" where
  "stack_ok ks \<longleftrightarrow> chained (rev ks) \<and> (\<forall>k\<in>set ks. nonempty_span k)"

lemma stack_ok_simps [simp]:
  "stack_ok []"
  "stack_ok (l # ks) \<longleftrightarrow> stack_ok ks \<and> nonempty_span l \<and> (\<forall>k\<in>set ks. sp_end k \<le> sp_start l)"
  by (auto simp: stack_ok_def sorted_wrt_append)

lemma set_push_span: "set (push_span s ks) \<subseteq> insert s (set ks)"
  by (cases ks) auto

lemma push_span_ok:
  assumes "stack_ok ks" "nonempty_span s" "\<forall>k\<in>set ks. sp_start k \<le> sp_start s"
  shows "stack_ok (push_span s ks)"
proof (cases ks)
  case (Cons l ks')
  have "sp_end k \<le> sp_start s" if "k \<in> set ks'" for k
    using assms Cons that by (auto dest: less_imp_le le_trans)
  moreover have "sp_end k \<le> sp_start s" if "sp_end l \<le> sp_start s" "k \<in> set ks'" for k
    using calculation that by blast
  ultimately show ?thesis using assms Cons by auto
qed (use assms in simp)

text \<open>One iteration of the code's outer loop is one push.\<close>

lemma better_eq_first: "better a b = a \<longleftrightarrow> span_key a \<ge> span_key b"
  by (auto simp: better_def)

lemma scan_kept_stops:
  assumes "stack_ok ks" "\<forall>k\<in>set ks. sp_end k \<le> sp_start s"
  shows "scan_kept (length ks) s r (rev ks) = (False, r, rev ks)"
  using assms by (cases ks) (auto simp: nth_append Let_def)

lemma chained_imp_sorted_start:
  "chained xs \<Longrightarrow> (\<forall>x\<in>set xs. nonempty_span x) \<Longrightarrow> sorted (map sp_start xs)"
  by (induction xs) (auto intro: less_imp_le dest: less_le_trans)

lemma merge_step_eq_push:
  assumes ok: "stack_ok ks" and ne: "nonempty_span s" and le: "\<forall>k\<in>set ks. sp_start k \<le> sp_start s"
  shows "merge_step s (rev ks) = rev (push_span s ks)"
proof (cases ks)
  case Nil
  then show ?thesis by (simp add: merge_step_def)
next
  case (Cons l ks')
  note C = Cons
  have l: "stack_ok ks'" "nonempty_span l" "\<forall>k\<in>set ks'. sp_end k \<le> sp_start l" "sp_start l \<le> sp_start s"
    using ok le C by auto
  show ?thesis
  proof (cases "sp_end l \<le> sp_start s")
    case True
    then show ?thesis using C by (simp add: merge_step_def nth_append)
  next
    case False
    then have ov: "overlaps l s" using l(2,4) ne by (auto simp: overlaps_def)
    show ?thesis
    proof (cases "span_key l \<ge> span_key s")
      case True
      then show ?thesis
        using C False ov by (simp add: merge_step_def nth_append better_eq_first)
    next
      case lt: False
      have stop: "scan_kept (length ks') s True (rev ks') = (False, True, rev ks')"
        using l by (intro scan_kept_stops) (auto dest: le_trans)
      have pop: "list_pop (length ks') (rev ks' @ [l]) = rev ks'"
        using list_pop_last [of "rev ks'" l] by simp
      have "sorted (map sp_start (rev ks' @ [s]))"
        using push_span_ok [OF ok ne le] C False lt
        by (intro chained_imp_sorted_start) (auto simp: stack_ok_def)
      then have "sort_key sp_start (rev ks' @ [s]) = rev ks' @ [s]"
        by (rule sort_key_id)
      then show ?thesis
        using C False ov lt stop pop by (simp add: merge_step_def nth_append better_eq_first)
    qed
  qed
qed

section \<open>The whole routine\<close>

definition merged_stack :: "entity_span list \<Rightarrow> entity_span list" where
  "merged_stack spans = fold push_span (sort_key order_key spans) []"

text \<open>
  What the loop keeps true after a start-sorted prefix \<open>done\<close>: the stack is chained, made of
  spans of \<open>done\<close>, and every span of \<open>done\<close> that is not on it lost to an overlapping one.
\<close>

definition lost_to :: "entity_span set \<Rightarrow> entity_span \<Rightarrow> bool" where
  "lost_to X s \<longleftrightarrow> (\<exists>t\<in>X. t \<noteq> s \<and> overlaps t s \<and> span_key t \<ge> span_key s)"

definition stack_inv :: "entity_span set \<Rightarrow> entity_span list \<Rightarrow> bool" where
  "stack_inv X ks \<longleftrightarrow> stack_ok ks \<and> set ks \<subseteq> X \<and> (\<forall>s\<in>X. s \<in> set ks \<or> lost_to X s)"

lemma push_span_inv:
  assumes inv: "stack_inv X ks" and ne: "nonempty_span s" and le: "\<forall>k\<in>X. sp_start k \<le> sp_start s"
  shows "stack_inv (insert s X) (push_span s ks)"
proof -
  have ok: "stack_ok ks" and sub: "set ks \<subseteq> X" and lost: "\<forall>t\<in>X. t \<in> set ks \<or> lost_to X t"
    using inv by (auto simp: stack_inv_def)
  have mono: "lost_to X t \<Longrightarrow> lost_to (insert s X) t" for t
    by (auto simp: lost_to_def)
  have step: "s \<in> set (push_span s ks) \<or> lost_to (insert s X) s"
  proof (cases ks)
    case (Cons l ks')
    then have "\<not> sp_end l \<le> sp_start s \<Longrightarrow> overlaps l s"
      using ok ne le sub by (auto simp: overlaps_def)
    then show ?thesis
      using Cons sub by (cases "l = s") (auto simp: lost_to_def)
  qed simp
  have old: "t \<in> set (push_span s ks) \<or> lost_to (insert s X) t" if "t \<in> set ks" for t
  proof (cases ks)
    case Nil
    then show ?thesis using that by simp
  next
    case (Cons l ks')
    have ov: "\<not> sp_end l \<le> sp_start s \<Longrightarrow> overlaps s l"
      using ok ne le sub Cons by (auto simp: overlaps_def)
    show ?thesis
    proof (cases "t = l \<and> \<not> sp_end l \<le> sp_start s \<and> \<not> span_key l \<ge> span_key s")
      case True
      then have "overlaps s t \<and> s \<noteq> t \<and> span_key s \<ge> span_key t"
        using ov by auto
      then show ?thesis by (auto simp: lost_to_def)
    next
      case False
      then show ?thesis using that Cons by auto
    qed
  qed
  have "stack_ok (push_span s ks)"
    using ok ne le sub by (intro push_span_ok) auto
  moreover have "set (push_span s ks) \<subseteq> insert s X"
    using set_push_span [of s ks] sub by auto
  moreover have "t \<in> set (push_span s ks) \<or> lost_to (insert s X) t" if "t \<in> insert s X" for t
    using that step old lost mono by blast
  ultimately show ?thesis by (auto simp: stack_inv_def)
qed

lemma fold_push_inv:
  assumes "sorted (map sp_start xs)" "\<forall>x\<in>set xs. nonempty_span x" "stack_inv X ks"
    "\<forall>k\<in>X. \<forall>x\<in>set xs. sp_start k \<le> sp_start x"
  shows "stack_inv (X \<union> set xs) (fold push_span xs ks) \<and>
         fold merge_step xs (rev ks) = rev (fold push_span xs ks)"
  using assms
proof (induction xs arbitrary: X ks)
  case Nil
  then show ?case by simp
next
  case (Cons x xs)
  have inv: "stack_inv (insert x X) (push_span x ks)"
    using Cons.prems by (intro push_span_inv) auto
  have step: "merge_step x (rev ks) = rev (push_span x ks)"
    using Cons.prems by (intro merge_step_eq_push) (auto simp: stack_inv_def)
  have "stack_inv (insert x X \<union> set xs) (fold push_span xs (push_span x ks)) \<and>
        fold merge_step xs (rev (push_span x ks)) = rev (fold push_span xs (push_span x ks))"
    using Cons.prems inv by (intro Cons.IH) auto
  then show ?case using step by simp
qed

lemma order_key_sorted: "sorted (map order_key xs) \<Longrightarrow> sorted (map sp_start xs)"
  by (induction xs) (auto simp: order_key_def less_eq_prod_def)

lemma merged_stack_inv:
  assumes "\<forall>s\<in>set spans. nonempty_span s"
  shows "stack_inv (set spans) (merged_stack spans)"
    and "fold merge_step (sort_key order_key spans) [] = rev (merged_stack spans)"
proof -
  have "stack_inv ({} \<union> set (sort_key order_key spans)) (fold push_span (sort_key order_key spans) []) \<and>
        fold merge_step (sort_key order_key spans) (rev []) = rev (fold push_span (sort_key order_key spans) [])"
    using assms by (intro fold_push_inv order_key_sorted) (auto simp: stack_inv_def)
  then show "stack_inv (set spans) (merged_stack spans)"
    and "fold merge_step (sort_key order_key spans) [] = rev (merged_stack spans)"
    by (auto simp: merged_stack_def)
qed

lemma chained_sorted_pairs:
  "chained xs \<Longrightarrow> (\<forall>x\<in>set xs. nonempty_span x) \<Longrightarrow> sorted (map (\<lambda>s. (sp_start s, sp_end s)) xs)"
  by (induction xs) (auto simp: less_eq_prod_def intro: less_le_trans)

lemma merge_spans_stack:
  assumes "\<forall>s\<in>set spans. nonempty_span s"
  shows "merge_spans spans = rev (merged_stack spans)"
proof (cases "spans = []")
  case True
  then show ?thesis by (simp add: merge_spans_def merged_stack_def)
next
  case False
  have "sorted (map (\<lambda>s. (sp_start s, sp_end s)) (rev (merged_stack spans)))"
    using merged_stack_inv(1) [OF assms]
    by (intro chained_sorted_pairs) (auto simp: stack_inv_def stack_ok_def)
  then show ?thesis
    using False merged_stack_inv(2) [OF assms] by (simp add: merge_spans_def sort_key_id)
qed

lemma merge_spans_chained: "\<forall>s\<in>set spans. nonempty_span s \<Longrightarrow> chained (merge_spans spans)"
  using merged_stack_inv(1) by (simp add: merge_spans_stack stack_inv_def stack_ok_def)

lemma merge_spans_subset: "\<forall>s\<in>set spans. nonempty_span s \<Longrightarrow> set (merge_spans spans) \<subseteq> set spans"
  using merged_stack_inv(1) by (simp add: merge_spans_stack stack_inv_def)

lemma merge_spans_lost:
  "\<forall>s\<in>set spans. nonempty_span s \<Longrightarrow> s \<in> set spans \<Longrightarrow> s \<in> set (merge_spans spans) \<or> lost_to (set spans) s"
  using merged_stack_inv(1) by (auto simp: merge_spans_stack stack_inv_def)

lemma fold_push_not_Nil: "xs \<noteq> [] \<or> ks \<noteq> [] \<Longrightarrow> fold push_span xs ks \<noteq> []"
proof (induction xs arbitrary: ks)
  case (Cons x xs)
  have "push_span x ks \<noteq> []" by (cases ks) auto
  then show ?case using Cons.IH by simp
qed simp

lemma merge_spans_not_Nil: "\<forall>s\<in>set spans. nonempty_span s \<Longrightarrow> spans \<noteq> [] \<Longrightarrow> merge_spans spans \<noteq> []"
  using fold_push_not_Nil [of "sort_key order_key spans" "[]"] set_sort [of order_key spans]
  unfolding merge_spans_stack merged_stack_def by (metis empty_set rev_is_Nil_conv set_empty)

lemma merge_spans_Nil [simp]: "merge_spans [] = []"
  by (simp add: merge_spans_def)

lemma merge_spans_wf:
  "\<forall>s\<in>set spans. wf_span text s \<Longrightarrow> \<forall>s\<in>set (merge_spans spans). wf_span text s"
  using merge_spans_subset [of spans] by (auto simp: wf_span_def)

text \<open>On a chained list the stack only grows.\<close>

lemma fold_push_chained:
  "chained (rev ks @ xs) \<Longrightarrow> fold push_span xs ks = rev xs @ ks"
proof (induction xs arbitrary: ks)
  case Nil
  then show ?case by simp
next
  case (Cons x xs)
  then have "push_span x ks = x # ks"
    by (cases ks) (auto simp: sorted_wrt_append)
  then show ?case using Cons.IH [of "x # ks"] Cons.prems by simp
qed

lemma chained_order_sorted:
  "chained xs \<Longrightarrow> (\<forall>x\<in>set xs. nonempty_span x) \<Longrightarrow> sorted (map order_key xs)"
  by (induction xs) (auto simp: order_key_def less_eq_prod_def intro: less_le_trans)

lemma merge_spans_chained_id:
  "chained xs \<Longrightarrow> (\<forall>x\<in>set xs. nonempty_span x) \<Longrightarrow> merge_spans xs = xs"
  by (simp add: merge_spans_stack merged_stack_def fold_push_chained chained_order_sorted sort_key_id)

section \<open>Properties\<close>

text \<open>C5. Overlap resolution returns spans in text order of which no two overlap, all of them
  taken from the input; and an input span is missing from the result only if some other input
  span overlaps it and ranks at least as high by score, then length, then source.\<close>

theorem merge_spans_correct:
  assumes "\<forall>s\<in>set spans. sp_start s < sp_end s"
  shows "sorted_wrt (\<lambda>a b. sp_end a \<le> sp_start b) (merge_spans spans)
    \<and> set (merge_spans spans) \<subseteq> set spans
    \<and> (\<forall>s\<in>set spans. s \<in> set (merge_spans spans) \<or>
         (\<exists>t\<in>set spans. t \<noteq> s \<and> overlaps t s \<and> span_key s \<le> span_key t))"
  using merge_spans_chained [OF assms] merge_spans_subset [OF assms] merge_spans_lost [OF assms]
  by (auto simp: lost_to_def)

text \<open>C9. The loop with its backwards scan, removals and re-sorts is a single pass with a stack:
  each span of the sorted input is compared with the last kept span only, and either is dropped,
  takes that span's place, or is added. The final sort changes nothing.\<close>

theorem merge_spans_eq_stack:
  assumes "\<forall>s\<in>set spans. sp_start s < sp_end s"
  shows "merge_spans spans = rev (fold push_span (sort_key order_key spans) [])"
  using merge_spans_stack [OF assms] by (simp add: merged_stack_def)

text \<open>Resolving overlaps again changes nothing.\<close>

lemma merge_spans_idem:
  assumes "\<forall>s\<in>set spans. sp_start s < sp_end s"
  shows "merge_spans (merge_spans spans) = merge_spans spans"
  using assms merge_spans_subset [OF assms]
  by (intro merge_spans_chained_id merge_spans_chained) auto

definition chain_example :: "entity_span list" where
  "chain_example =
     [\<lparr>sp_start = 0, sp_end = 10, sp_type = str ''PERSON'', sp_text = replicate 10 120,
       sp_score = 5/10, sp_source = str ''presidio'', sp_jurisdiction = None\<rparr>,
      \<lparr>sp_start = 8, sp_end = 20, sp_type = str ''ORG'', sp_text = replicate 12 120,
       sp_score = 6/10, sp_source = str ''presidio'', sp_jurisdiction = None\<rparr>,
      \<lparr>sp_start = 18, sp_end = 30, sp_type = str ''URL'', sp_text = replicate 12 120,
       sp_score = 7/10, sp_source = str ''presidio'', sp_jurisdiction = None\<rparr>]"

text \<open>A span that lost to a neighbour does not come back when a third span evicts that
  neighbour: the text of the first span is then covered by no kept span, although nothing in the
  result overlaps it.\<close>

lemma merge_spans_uncovers:
  "merge_spans chain_example = [chain_example ! 2] \<and> \<not> overlaps (chain_example ! 0) (chain_example ! 2)"
  by (simp add: chain_example_def merge_spans_def merge_step_def better_def span_key_def order_key_def
      overlaps_def span_length_def source_rank_def list_pop_def Let_def less_eq_prod_def eval_nat_numeral)

section \<open>Witnesses\<close>

definition merge_example :: "entity_span list" where
  "merge_example =
     [\<lparr>sp_start = 0, sp_end = 9, sp_type = str ''SIN'', sp_text = replicate 9 49,
       sp_score = 1, sp_source = str ''regex'', sp_jurisdiction = Some (str ''CA'')\<rparr>,
      \<lparr>sp_start = 3, sp_end = 12, sp_type = str ''PHONE'', sp_text = replicate 9 49,
       sp_score = 8/10, sp_source = str ''regex'', sp_jurisdiction = None\<rparr>]"

lemma merge_example_nonempty: "\<forall>s\<in>set merge_example. sp_start s < sp_end s"
  by (simp add: merge_example_def)

theorem merge_spans_correct_witness: "set (merge_spans merge_example) \<subseteq> set merge_example"
  using merge_spans_correct [OF merge_example_nonempty] by blast

theorem merge_spans_eq_stack_witness:
  "merge_spans merge_example = rev (fold push_span (sort_key order_key merge_example) [])"
  by (rule merge_spans_eq_stack [OF merge_example_nonempty])

end
