(* ===== verification/Json.thy ===== *)
theory Json
  imports Unicode_Data
begin

text \<open>
  The values the code passes around as \<open>Any\<close>: what \<open>json.loads\<close> returns. A dictionary is an
  association list (its order is Python's insertion order), a float a rational.
\<close>

datatype json =
    JNull
  | JBool bool
  | JInt int
  | JFloat rat
  | JStr pystr
  | JList "json list"
  | JDict "(pystr \<times> json) list"

type_synonym dict = "(pystr \<times> json) list"

fun is_JStr :: "json \<Rightarrow> bool" where
  "is_JStr (JStr _) = True"
| "is_JStr _ = False"

fun is_JDict :: "json \<Rightarrow> bool" where
  "is_JDict (JDict _) = True"
| "is_JDict _ = False"

text \<open>Truth value, as in \<open>if x\<close> and \<open>x or y\<close>.\<close>

fun truthy :: "json \<Rightarrow> bool" where
  "truthy JNull = False"
| "truthy (JBool b) = b"
| "truthy (JInt i) = (i \<noteq> 0)"
| "truthy (JFloat r) = (r \<noteq> 0)"
| "truthy (JStr s) = (s \<noteq> [])"
| "truthy (JList xs) = (xs \<noteq> [])"
| "truthy (JDict d) = (d \<noteq> [])"

text \<open>\<open>d.get(k)\<close> and \<open>d.get(k, default)\<close> on a dictionary.\<close>

definition dget :: "dict \<Rightarrow> pystr \<Rightarrow> json" where
  "dget d k = (case map_of d k of None \<Rightarrow> JNull | Some v \<Rightarrow> v)"

definition dget_or :: "dict \<Rightarrow> pystr \<Rightarrow> json \<Rightarrow> json" where
  "dget_or d k dflt = (case map_of d k of None \<Rightarrow> dflt | Some v \<Rightarrow> v)"

definition has_key :: "dict \<Rightarrow> pystr \<Rightarrow> bool" where
  "has_key d k \<longleftrightarrow> map_of d k \<noteq> None"

text \<open>\<open>x.get(k)\<close> on any value: only dictionaries have the attribute.\<close>

fun py_get :: "json \<Rightarrow> pystr \<Rightarrow> json res" where
  "py_get (JDict d) k = Inr (dget d k)"
| "py_get _ k = Inl AttributeError"

text \<open>Subscription by a string and by an index.\<close>

fun sub_key :: "json \<Rightarrow> pystr \<Rightarrow> json res" where
  "sub_key (JDict d) k = (case map_of d k of None \<Rightarrow> Inl KeyError | Some v \<Rightarrow> Inr v)"
| "sub_key _ k = Inl TypeError"

fun sub_idx :: "json \<Rightarrow> nat \<Rightarrow> json res" where
  "sub_idx (JList xs) i = (if i < length xs then Inr (xs ! i) else Inl IndexError)"
| "sub_idx (JStr s) i = (if i < length s then Inr (JStr [s ! i]) else Inl IndexError)"
| "sub_idx (JDict d) i = Inl KeyError"
| "sub_idx _ i = Inl TypeError"

text \<open>\<open>for x in v\<close>: the elements, the keys or the characters.\<close>

fun py_iter :: "json \<Rightarrow> json list res" where
  "py_iter (JList xs) = Inr xs"
| "py_iter (JDict d) = Inr (map (JStr \<circ> fst) d)"
| "py_iter (JStr s) = Inr (map (\<lambda>c. JStr [c]) s)"
| "py_iter _ = Inl TypeError"

text \<open>\<open>v or []\<close> iterated.\<close>

definition iter_or_empty :: "json \<Rightarrow> json list res" where
  "iter_or_empty v = (if truthy v then py_iter v else Inr [])"

lemma update_keys: "k \<in> fst ` set d \<Longrightarrow> map fst (AList.update k v d) = map fst d"
  by (induction d) auto

lemma update_commute: "j \<in> fst ` set d \<Longrightarrow> k \<in> fst ` set d \<Longrightarrow> j \<noteq> k \<Longrightarrow>
    AList.update j v (AList.update k w d) = AList.update k w (AList.update j v d)"
  by (induction d) auto

lemma update_update: "AList.update k v (AList.update k w d) = AList.update k v d"
  by (induction d) auto

lemma map_of_key: "map_of d k = Some v \<Longrightarrow> k \<in> fst ` set d"
  by (metis domI dom_map_of_conv_image_fst)

end
