(* ===== verification/Openai_Schema.thy ===== *)
theory Openai_Schema
  imports Json
begin

text \<open>
  \<open>app/schemas/openai.py\<close>: the walk over the redactable texts of an OpenAI-style request, which
  \<open>extract_texts\<close> and \<open>inject_texts\<close> share, and the access to the text of a response. The walk's
  \<open>fn\<close> is a callback with a state of its own (the list being collected, the iterator being
  consumed): here it takes that state and returns it, and it may raise.
\<close>

section \<open>The walk\<close>

type_synonym textfn = "pystr \<Rightarrow> pystr list \<Rightarrow> (pystr \<times> pystr list) res"
type_synonym 'a walker = "textfn \<Rightarrow> 'a \<Rightarrow> pystr list \<Rightarrow> ('a \<times> pystr list) res"

definition TEXT_PART_TYPES :: "pystr list" where
  "TEXT_PART_TYPES = map str [''text'', ''input_text'', ''output_text'']"

text \<open>\<open>x[k] = fn(x[k])\<close> when \<open>x[k]\<close> is a string.\<close>

definition apply_at :: "pystr \<Rightarrow> dict walker" where
  "apply_at k fn d s =
     (case dget d k of
        JStr t \<Rightarrow> rbind (fn t s) (\<lambda>(t', s'). Inr (AList.update k (JStr t') d, s'))
      | _ \<Rightarrow> Inr (d, s))"

text \<open>A loop that changes the elements in place.\<close>

fun walk_list :: "json walker \<Rightarrow> json list walker" where
  "walk_list W fn [] s = Inr ([], s)"
| "walk_list W fn (x # xs) s =
     rbind (W fn x s) (\<lambda>(y, s1). rbind (walk_list W fn xs s1) (\<lambda>(ys, s2). Inr (y # ys, s2)))"

text \<open>\<open>for x in v or []\<close>: only a list has elements the body can change.\<close>

definition walk_iter :: "json walker \<Rightarrow> json walker" where
  "walk_iter W fn v s =
     (if \<not> truthy v then Inr (v, s)
      else case v of
             JList xs \<Rightarrow> rbind (walk_list W fn xs s) (\<lambda>(ys, s'). Inr (JList ys, s'))
           | _ \<Rightarrow> rbind (py_iter v) (\<lambda>xs. rbind (walk_list W fn xs s) (\<lambda>(_, s'). Inr (v, s'))))"

fun walk_part :: "json walker" where
  "walk_part fn (JDict part) s =
     (if dget part (str ''type'') \<in> JStr ` set TEXT_PART_TYPES then
        rbind (apply_at (str ''text'') fn part s) (\<lambda>(part', s'). Inr (JDict part', s'))
      else Inr (JDict part, s))"
| "walk_part fn v s = Inr (v, s)"

fun walk_content :: "json walker" where
  "walk_content fn (JStr t) s = rbind (fn t s) (\<lambda>(t', s'). Inr (JStr t', s'))"
| "walk_content fn (JList parts) s = rbind (walk_list walk_part fn parts s) (\<lambda>(ps, s'). Inr (JList ps, s'))"
| "walk_content fn v s = Inr (v, s)"

text \<open>The \<open>arguments\<close> string of a function object.\<close>

fun walk_func :: "json walker" where
  "walk_func fn (JDict f) s = rbind (apply_at (str ''arguments'') fn f s) (\<lambda>(f', s'). Inr (JDict f', s'))"
| "walk_func fn v s = Inr (v, s)"

text \<open>\<open>d[k]\<close> changed in place by a walker, when \<open>d\<close> has the key.\<close>

definition walk_key :: "pystr \<Rightarrow> json walker \<Rightarrow> dict walker" where
  "walk_key k W fn d s =
     (case map_of d k of
        None \<Rightarrow> Inr (d, s)
      | Some v \<Rightarrow> rbind (W fn v s) (\<lambda>(v', s'). Inr (AList.update k v' d, s')))"

fun walk_tool_call :: "json walker" where
  "walk_tool_call fn (JDict tc) s = rbind (walk_key (str ''function'') walk_func fn tc s) (\<lambda>(tc', s'). Inr (JDict tc', s'))"
| "walk_tool_call fn v s = Inr (v, s)"

fun walk_message :: "json walker" where
  "walk_message fn (JDict msg) s =
     rbind (walk_key (str ''content'') walk_content fn msg s) (\<lambda>(msg1, s1).
     rbind (walk_key (str ''tool_calls'') (walk_iter walk_tool_call) fn msg1 s1) (\<lambda>(msg2, s2).
     rbind (walk_key (str ''function_call'') walk_func fn msg2 s2) (\<lambda>(msg3, s3).
     Inr (JDict msg3, s3))))"
| "walk_message fn v s = Inr (v, s)"

text \<open>An item of a Responses-API \<open>input\<close>; the last two branches of the code do the same.\<close>

fun walk_item :: "json walker" where
  "walk_item fn (JDict item) s =
     (if has_key item (str ''content'') \<or> has_key item (str ''tool_calls'') then walk_message fn (JDict item) s
      else if dget item (str ''type'') \<in> JStr ` set TEXT_PART_TYPES \<and> is_JStr (dget item (str ''text'')) then
        rbind (apply_at (str ''text'') fn item s) (\<lambda>(item', s'). Inr (JDict item', s'))
      else if is_JStr (dget item (str ''text'')) then
        rbind (apply_at (str ''text'') fn item s) (\<lambda>(item', s'). Inr (JDict item', s'))
      else Inr (JDict item, s))"
| "walk_item fn v s = Inr (v, s)"

fun walk_input :: "json walker" where
  "walk_input fn (JStr t) s = rbind (fn t s) (\<lambda>(t', s'). Inr (JStr t', s'))"
| "walk_input fn (JList items) s = rbind (walk_list walk_item fn items s) (\<lambda>(is, s'). Inr (JList is, s'))"
| "walk_input fn v s = Inr (v, s)"

definition map_texts :: "dict walker" where
  "map_texts fn payload s =
     rbind (walk_key (str ''messages'') (walk_iter walk_message) fn payload s) (\<lambda>(out, s1).
       walk_key (str ''input'') walk_input fn out s1)"

definition collect :: textfn where "collect t texts = Inr (t, texts @ [t])"

fun next_text :: textfn where
  "next_text t [] = Inl StopIteration"
| "next_text t (u # it) = Inr (u, it)"

definition extract_texts :: "dict \<Rightarrow> pystr list res" where
  "extract_texts payload = rbind (map_texts collect payload []) (\<lambda>(_, texts). Inr texts)"

definition inject_texts :: "dict \<Rightarrow> pystr list \<Rightarrow> dict res" where
  "inject_texts payload new_texts =
     rbind (extract_texts payload) (\<lambda>texts.
       if length new_texts \<noteq> length texts then Inl ValueError
       else rbind (map_texts next_text payload new_texts) (\<lambda>(out, _). Inr out))"

section \<open>The text of a response\<close>

definition completion_path :: "pystr \<Rightarrow> json \<Rightarrow> json res" where
  "completion_path k chunk =
     rbind (sub_key chunk (str ''choices'')) (\<lambda>cs. rbind (sub_idx cs 0) (\<lambda>c. sub_key c k))"

definition extract_completion_text :: "json \<Rightarrow> json" where
  "extract_completion_text chunk =
     (case rbind (completion_path (str ''message'') chunk) (\<lambda>m. sub_key m (str ''content'')) of
        Inr v \<Rightarrow> v
      | Inl _ \<Rightarrow> JNull)"

definition extract_delta_text :: "json \<Rightarrow> json" where
  "extract_delta_text chunk =
     (case rbind (completion_path (str ''delta'') chunk) (\<lambda>m. py_get m (str ''content'')) of
        Inr v \<Rightarrow> v
      | Inl _ \<Rightarrow> JNull)"

text \<open>\<open>chunk["choices"][0][k]["content"] = text\<close>.\<close>

fun set_key :: "json \<Rightarrow> pystr \<Rightarrow> (json \<Rightarrow> json res) \<Rightarrow> json res" where
  "set_key (JDict d) k f =
     (case map_of d k of None \<Rightarrow> Inl KeyError | Some v \<Rightarrow> rbind (f v) (\<lambda>v'. Inr (JDict (AList.update k v' d))))"
| "set_key _ k f = Inl TypeError"

fun set_first :: "json \<Rightarrow> (json \<Rightarrow> json res) \<Rightarrow> json res" where
  "set_first (JList []) f = Inl IndexError"
| "set_first (JList (x # xs)) f = rbind (f x) (\<lambda>x'. Inr (JList (x' # xs)))"
| "set_first (JStr []) f = Inl IndexError"
| "set_first (JStr (_ # _)) f = Inl TypeError"
| "set_first (JDict d) f = Inl KeyError"
| "set_first _ f = Inl TypeError"

fun store_key :: "pystr \<Rightarrow> json \<Rightarrow> json \<Rightarrow> json res" where
  "store_key k v (JDict d) = Inr (JDict (AList.update k v d))"
| "store_key k v _ = Inl TypeError"

definition set_text_at :: "pystr \<Rightarrow> json \<Rightarrow> json \<Rightarrow> json res" where
  "set_text_at k chunk v =
     set_key chunk (str ''choices'') (\<lambda>cs. set_first cs (\<lambda>c. set_key c k (store_key (str ''content'') v)))"

definition set_completion_text :: "json \<Rightarrow> json \<Rightarrow> json res" where
  "set_completion_text = set_text_at (str ''message'')"

definition set_delta_text :: "json \<Rightarrow> json \<Rightarrow> json res" where
  "set_delta_text = set_text_at (str ''delta'')"

section \<open>Errors\<close>

definition error_body :: "pystr \<Rightarrow> pystr \<Rightarrow> pystr option \<Rightarrow> json" where
  "error_body message kind code =
     JDict [(str ''error'', JDict [(str ''message'', JStr message), (str ''type'', JStr kind),
       (str ''code'', (case code of None \<Rightarrow> JNull | Some c \<Rightarrow> JStr c)), (str ''param'', JNull)])]"

section \<open>Walks are lawful\<close>

text \<open>
  What makes reading and rewriting agree: a value \<open>x\<close> is a frame \<open>F\<close> around its texts \<open>ts\<close>.
  Whatever texts the frame is filled with, collecting finds them and leaves the value as it is,
  and supplying new ones consumes exactly as many and fills the frame with them.
\<close>

definition framed :: "'a walker \<Rightarrow> pystr list \<Rightarrow> (pystr list \<Rightarrow> 'a) \<Rightarrow> bool" where
  "framed W ts F \<longleftrightarrow>
     (\<forall>us. length us = length ts \<longrightarrow>
        (\<forall>acc. W collect (F us) acc = Inr (F us, acc @ us)) \<and>
        (\<forall>vs rest. length vs = length ts \<longrightarrow> W next_text (F us) (vs @ rest) = Inr (F vs, rest)))"

definition lawful :: "('a \<Rightarrow> 'a \<Rightarrow> bool) \<Rightarrow> 'a walker \<Rightarrow> 'a \<Rightarrow> bool" where
  "lawful R W x \<longleftrightarrow>
     (\<exists>e. \<forall>s. W collect x s = Inl e) \<or>
     (\<exists>ts F. framed W ts F \<and> F ts = x \<and> (\<forall>us. length us = length ts \<longrightarrow> R x (F us)))"

abbreviation lawful_json :: "json walker \<Rightarrow> bool" where
  "lawful_json W \<equiv> \<forall>x. lawful (\<lambda>_ _. True) W x"

lemma framedD:
  assumes "framed W ts F" "length us = length ts"
  shows "W collect (F us) acc = Inr (F us, acc @ us)"
    and "length vs = length ts \<Longrightarrow> W next_text (F us) (vs @ rest) = Inr (F vs, rest)"
  using assms by (auto simp: framed_def)

lemma lawfulI:
  assumes "F ts = x"
    and "\<And>us acc. length us = length ts \<Longrightarrow> W collect (F us) acc = Inr (F us, acc @ us)"
    and "\<And>us vs rest. length us = length ts \<Longrightarrow> length vs = length ts \<Longrightarrow> W next_text (F us) (vs @ rest) = Inr (F vs, rest)"
    and "\<And>us. length us = length ts \<Longrightarrow> R x (F us)"
  shows "lawful R W x"
  unfolding lawful_def framed_def using assms by (intro disjI2 exI [of _ ts] exI [of _ F]) auto

lemma lawfulE:
  assumes "lawful R W x"
  obtains (error) e where "\<And>s. W collect x s = Inl e"
  | (ok) ts F where "framed W ts F" "F ts = x" "\<And>us. length us = length ts \<Longrightarrow> R x (F us)"
  using assms unfolding lawful_def by blast

lemma lawful_skip:
  assumes "\<And>fn s. W fn x s = Inr (x, s)" "R x x"
  shows "lawful R W x"
  by (rule lawfulI [of "\<lambda>_. x" "[]"]) (simp_all add: assms)

text \<open>A walker that wraps another one's value.\<close>

lemma lawful_wrap:
  assumes W: "lawful R V x"
    and wrap: "\<And>fn y s. R x y \<Longrightarrow> W fn (C y) s = rbind (V fn y s) (\<lambda>(z, s'). Inr (C z, s'))"
    and refl: "R x x"
  shows "lawful (\<lambda>_ _. True) W (C x)"
  using W
proof (cases rule: lawfulE)
  case (error e)
  then show ?thesis by (simp add: lawful_def wrap refl)
next
  case (ok ts F)
  then show ?thesis
    by (intro lawfulI [of "\<lambda>us. C (F us)" ts]) (simp_all add: wrap framedD)
qed

lemma lawful_list: "(\<And>x. x \<in> set xs \<Longrightarrow> lawful (\<lambda>_ _. True) W x) \<Longrightarrow> lawful (\<lambda>_ _. True) (walk_list W) xs"
proof (induction xs)
  case Nil
  show ?case by (rule lawful_skip) simp_all
next
  case (Cons x xs)
  have "lawful (\<lambda>_ _. True) W x" using Cons.prems by simp
  then show ?case
  proof (cases rule: lawfulE)
    case (error e)
    then show ?thesis by (simp add: lawful_def)
  next
    case x: (ok ts F)
    have "lawful (\<lambda>_ _. True) (walk_list W) xs" using Cons by simp
    then show ?thesis
    proof (cases rule: lawfulE)
      case (error e)
      then show ?thesis using framedD(1) [OF x(1) refl] x(2) by (simp add: lawful_def)
    next
      case xs: (ok ts' F')
      let ?n = "length ts"
      show ?thesis
      proof (rule lawfulI [of "\<lambda>us. F (take ?n us) # F' (drop ?n us)" "ts @ ts'"])
        fix us vs rest :: "pystr list" assume *: "length us = length (ts @ ts')" "length vs = length (ts @ ts')"
        have "W next_text (F (take ?n us)) (take ?n vs @ drop ?n vs @ rest) = Inr (F (take ?n vs), drop ?n vs @ rest)"
          by (rule framedD(2) [OF x(1)]) (use * in simp_all)
        then show "walk_list W next_text (F (take ?n us) # F' (drop ?n us)) (vs @ rest) = Inr (F (take ?n vs) # F' (drop ?n vs), rest)"
          using * by (simp add: framedD(2) [OF xs(1)] append_assoc [symmetric] del: append_assoc)
      qed (simp_all add: x xs framedD(1) [OF x(1)] framedD(1) [OF xs(1)])
    qed
  qed
qed

text \<open>Two dictionaries with the same keys and the same values outside \<open>K\<close>.\<close>

definition agree :: "pystr set \<Rightarrow> dict \<Rightarrow> dict \<Rightarrow> bool" where
  "agree K d e \<longleftrightarrow> map fst d = map fst e \<and> (\<forall>k. k \<notin> K \<longrightarrow> map_of d k = map_of e k)"

lemma agree_refl [simp]: "agree K d d"
  by (simp add: agree_def)

lemma agree_update: "k \<in> fst ` set d \<Longrightarrow> k \<in> K \<Longrightarrow> agree K d e \<Longrightarrow> agree K d (AList.update k v e)"
proof -
  assume *: "k \<in> fst ` set d" "k \<in> K" "agree K d e"
  then have "k \<in> fst ` set e" by (metis agree_def list.set_map)
  then show ?thesis using * by (auto simp: agree_def update_keys)
qed

lemma agree_dget: "agree K d e \<Longrightarrow> k \<notin> K \<Longrightarrow> dget e k = dget d k"
  by (simp add: agree_def dget_def)

lemma agree_has_key: "agree K d e \<Longrightarrow> has_key e k = has_key d k"
  unfolding agree_def has_key_def by (metis list.set_map map_of_eq_None_iff)

text \<open>A list of keys walked in turn.\<close>

fun walk_keys :: "(pystr \<times> json walker) list \<Rightarrow> dict walker" where
  "walk_keys [] fn d s = Inr (d, s)"
| "walk_keys ((k, W) # kws) fn d s = rbind (walk_key k W fn d s) (\<lambda>(d', s'). walk_keys kws fn d' s')"

lemma walk_key_absent: "map_of d k = None \<Longrightarrow> walk_key k W fn d s = Inr (d, s)"
  by (simp add: walk_key_def)

lemma walk_key_update: "k \<in> fst ` set d \<Longrightarrow> k \<noteq> j \<Longrightarrow>
    walk_key j W fn (AList.update k v d) s = rbind (walk_key j W fn d s) (\<lambda>(e, s'). Inr (AList.update k v e, s'))"
proof (cases "map_of d j")
  case (Some x)
  assume "k \<in> fst ` set d" "k \<noteq> j"
  then show ?thesis using Some update_commute [OF map_of_key [OF Some], of k]
    by (auto simp: walk_key_def rbind_def split: sum.splits)
qed (simp add: walk_key_def)

lemma walk_key_keys: "walk_key j W fn d s = Inr (e, s') \<Longrightarrow> map fst e = map fst d"
  by (auto simp: walk_key_def rbind_Inr_iff update_keys [OF map_of_key] split: option.splits)

lemma walk_keys_update: "k \<in> fst ` set d \<Longrightarrow> k \<notin> fst ` set kws \<Longrightarrow>
    walk_keys kws fn (AList.update k v d) s = rbind (walk_keys kws fn d s) (\<lambda>(e, s'). Inr (AList.update k v e, s'))"
proof (induction kws arbitrary: d s)
  case (Cons p kws)
  obtain j W where p: "p = (j, W)" by (cases p)
  show ?case
  proof (cases "walk_key j W fn d s")
    case (Inr r)
    obtain e s' where r: "r = (e, s')" by (cases r)
    have "k \<in> fst ` set e" using walk_key_keys Inr r Cons.prems(1) by (metis list.set_map)
    then show ?thesis using Cons Inr r p by (simp add: walk_key_update [OF Cons.prems(1)])
  qed (use Cons.prems p in \<open>simp add: walk_key_update\<close>)
qed simp

lemma lawful_keys:
  assumes "distinct (map fst kws)" "\<And>k W. (k, W) \<in> set kws \<Longrightarrow> lawful_json W" "fst ` set kws \<subseteq> K"
  shows "lawful (agree K) (walk_keys kws) d"
  using assms
proof (induction kws)
  case Nil
  show ?case by (rule lawful_skip) simp_all
next
  case (Cons p kws)
  obtain k W where p: "p = (k, W)" by (cases p)
  have IH: "lawful (agree K) (walk_keys kws) d" using Cons by auto
  show ?case
  proof (cases "map_of d k")
    case None
    have skip: "walk_keys (p # kws) fn e s = walk_keys kws fn e s" if "agree K d e" for fn e s
    proof -
      have "map_of e k = None" using that None unfolding agree_def by (metis list.set_map map_of_eq_None_iff)
      then show ?thesis by (simp add: p walk_key_absent)
    qed
    show ?thesis using IH
    proof (cases rule: lawfulE)
      case (error e)
      then show ?thesis by (simp add: lawful_def skip)
    next
      case (ok ts F)
      then show ?thesis by (intro lawfulI [of F ts]) (simp_all add: skip framedD)
    qed
  next
    case (Some v)
    have k: "k \<in> fst ` set d" "k \<notin> fst ` set kws" "k \<in> K" using Some Cons.prems p by (auto dest: map_of_key)
    have "lawful (\<lambda>_ _. True) W v" using Cons.prems(2) p by auto
    then show ?thesis
    proof (cases rule: lawfulE)
      case (error e)
      then show ?thesis by (simp add: lawful_def p walk_key_def Some)
    next
      case v: (ok ts F)
      show ?thesis using IH
      proof (cases rule: lawfulE)
        case (error e)
        then show ?thesis using framedD(1) [OF v(1) refl] v(2) by (simp add: lawful_def p walk_key_def Some)
      next
        case d: (ok ts' F')
        let ?n = "length ts"
        let ?G = "\<lambda>us. AList.update k (F (take ?n us)) (F' (drop ?n us))"
        have in_F: "k \<in> fst ` set (F' us)" if "length us = length ts'" for us
          using d(3) [OF that] k(1) by (metis agree_def list.set_map)
        show ?thesis
        proof (rule lawfulI [of ?G "ts @ ts'"])
          show "?G (ts @ ts') = d" using v d Some by simp
        next
          fix us :: "pystr list" assume "length us = length (ts @ ts')"
          then show "agree K d (?G us)" using d(3) agree_update k by simp
        next
          fix us acc :: "pystr list" assume *: "length us = length (ts @ ts')"
          then show "walk_keys (p # kws) collect (?G us) acc = Inr (?G us, acc @ us)"
            using in_F k by (simp add: p walk_key_def framedD(1) [OF v(1)] framedD(1) [OF d(1)] update_update walk_keys_update)
        next
          fix us vs rest :: "pystr list" assume *: "length us = length (ts @ ts')" "length vs = length (ts @ ts')"
          have "W next_text (F (take ?n us)) (take ?n vs @ drop ?n vs @ rest) = Inr (F (take ?n vs), drop ?n vs @ rest)"
            by (rule framedD(2) [OF v(1)]) (use * in simp_all)
          then show "walk_keys (p # kws) next_text (?G us) (vs @ rest) = Inr (?G vs, rest)"
            using * in_F k by (simp add: p walk_key_def update_update walk_keys_update framedD(2) [OF d(1)]
                append_assoc [symmetric] del: append_assoc)
        qed
      qed
    qed
  qed
qed

section \<open>The walks of the code\<close>

text \<open>Every walker is \<open>walk_keys\<close> of a table, under guards that look at other keys.\<close>

fun walk_str :: "json walker" where
  "walk_str fn (JStr t) s = rbind (fn t s) (\<lambda>(t', s'). Inr (JStr t', s'))"
| "walk_str fn v s = Inr (v, s)"

lemma lawful_str: "lawful_json walk_str"
proof
  fix x
  show "lawful (\<lambda>_ _. True) walk_str x"
  proof (cases x)
    case (JStr t)
    show ?thesis
      by (rule lawfulI [of "\<lambda>us. JStr (hd us)" "[t]"]) (auto simp: JStr collect_def length_Suc_conv)
  qed (rule lawful_skip; simp)+
qed

lemma apply_at_keys: "apply_at k = walk_keys [(k, walk_str)]"
proof (intro ext)
  fix fn d s
  show "apply_at k fn d s = walk_keys [(k, walk_str)] fn d s"
  proof (cases "map_of d k")
    case (Some v)
    then show ?thesis by (cases v) (simp_all add: apply_at_def dget_def walk_key_def rbind_def split: sum.splits)
  qed (simp add: apply_at_def dget_def walk_key_def)
qed

lemma lawful_at: "lawful (agree {k}) (apply_at k) d"
  unfolding apply_at_keys by (rule lawful_keys) (use lawful_str in auto)

lemma lawful_iter:
  assumes W: "lawful_json W" and skip: "\<And>fn t s. W fn (JStr t) s = Inr (JStr t, s)"
  shows "lawful_json (walk_iter W)"
proof
  fix v
  have strs: "walk_list W fn (map JStr ys) s = Inr (map JStr ys, s)" for fn s ys
    by (induction ys arbitrary: s) (simp_all add: skip)
  show "lawful (\<lambda>_ _. True) (walk_iter W) v"
  proof (cases "truthy v")
    case False
    show ?thesis by (rule lawful_skip) (simp_all add: walk_iter_def False)
  next
    case True
    show ?thesis
    proof (cases v)
      case (JList xs)
      show ?thesis unfolding JList
      proof (rule lawful_wrap [where V = "walk_list W" and R = "\<lambda>xs ys. length ys = length xs"])
        have "lawful (\<lambda>_ _. True) (walk_list W) xs" using W lawful_list by blast
        then show "lawful (\<lambda>xs ys. length ys = length xs) (walk_list W) xs"
        proof (cases rule: lawfulE)
          case (ok ts F)
          have len: "length ys = length xs" if "walk_list W fn xs s = Inr (ys, s')" for fn s s' ys
            using that by (induction xs arbitrary: s ys) (auto simp: rbind_Inr_iff)
          show ?thesis
          proof (rule lawfulI [of F ts, OF ok(2)])
            fix us :: "pystr list" assume "length us = length ts"
            then show "length (F us) = length xs"
              using len framedD(2) [OF ok(1) refl, of us "[]"] ok(2) by metis
          qed (simp_all add: framedD [OF ok(1)])
        qed (simp add: lawful_def)
      qed (use True JList in \<open>auto simp: walk_iter_def\<close>)
    next
      case (JStr t)
      show ?thesis
        by (rule lawful_skip) (use True JStr strs [of _ "map (\<lambda>c. [c]) t"] in \<open>simp_all add: walk_iter_def o_def\<close>)
    next
      case (JDict d)
      show ?thesis
        by (rule lawful_skip) (use True JDict strs [of _ "map fst d"] in \<open>simp_all add: walk_iter_def o_def\<close>)
    qed (use True in \<open>auto simp: walk_iter_def lawful_def\<close>)
  qed
qed

text \<open>A walker that acts on dictionaries only, through a dictionary walker under a guard.\<close>

lemma lawful_on_dict:
  assumes D: "\<And>d. P d \<Longrightarrow> lawful (agree K) V d"
    and step: "\<And>fn d s. P d \<Longrightarrow> W fn (JDict d) s = rbind (V fn d s) (\<lambda>(d', s'). Inr (JDict d', s'))"
    and guard: "\<And>d e. agree K d e \<Longrightarrow> P e = P d"
    and other: "\<And>fn x s. (\<And>d. x = JDict d \<Longrightarrow> \<not> P d) \<Longrightarrow> W fn x s = Inr (x, s)"
  shows "lawful_json W"
proof
  fix x
  show "lawful (\<lambda>_ _. True) W x"
  proof (cases "\<exists>d. x = JDict d \<and> P d")
    case True
    then obtain d where d: "x = JDict d" "P d" by blast
    show ?thesis unfolding d(1)
      by (rule lawful_wrap [OF D [OF d(2)]]) (simp_all add: step guard d(2))
  next
    case False
    then show ?thesis by (intro lawful_skip) (auto intro!: other)
  qed
qed

lemma lawful_part: "lawful_json walk_part"
proof (rule lawful_on_dict [OF lawful_at])
  fix fn x s assume "\<And>d. x = JDict d \<Longrightarrow> \<not> dget d (str ''type'') \<in> JStr ` set TEXT_PART_TYPES"
  then show "walk_part fn x s = Inr (x, s)" by (cases x) auto
qed (auto simp: agree_dget)

lemma lawful_func: "lawful_json walk_func"
proof (rule lawful_on_dict [OF lawful_at])
  fix fn x s assume "\<And>d. x = JDict d \<Longrightarrow> \<not> True"
  then show "walk_func fn x s = Inr (x, s)" by (cases x) auto
qed auto

lemma lawful_tool_call: "lawful_json walk_tool_call"
proof (rule lawful_on_dict)
  fix d show "lawful (agree {str ''function''}) (walk_keys [(str ''function'', walk_func)]) d"
    by (rule lawful_keys) (use lawful_func in auto)
next
  fix fn x s assume "\<And>d. x = JDict d \<Longrightarrow> \<not> True"
  then show "walk_tool_call fn x s = Inr (x, s)" by (cases x) auto
qed (auto simp: rbind_def split: sum.splits)

lemma lawful_list_json: "lawful_json W \<Longrightarrow> lawful (\<lambda>_ _. True) (walk_list W) xs"
  using lawful_list by blast

lemma lawful_content: "lawful_json walk_content"
proof
  fix x
  show "lawful (\<lambda>_ _. True) walk_content x"
  proof (cases x)
    case (JStr t)
    show ?thesis
      by (rule lawfulI [of "\<lambda>us. JStr (hd us)" "[t]"]) (auto simp: JStr collect_def length_Suc_conv)
  next
    case (JList xs)
    show ?thesis unfolding JList by (rule lawful_wrap [OF lawful_list_json [OF lawful_part]]) simp_all
  qed (rule lawful_skip; simp)+
qed

definition message_keys :: "(pystr \<times> json walker) list" where
  "message_keys = [(str ''content'', walk_content), (str ''tool_calls'', walk_iter walk_tool_call),
     (str ''function_call'', walk_func)]"

lemma walk_message_keys:
  "walk_message fn (JDict d) s = rbind (walk_keys message_keys fn d s) (\<lambda>(d', s'). Inr (JDict d', s'))"
  by (auto simp: message_keys_def rbind_def split: sum.splits)

lemma lawful_message_keys: "lawful (agree (fst ` set message_keys)) (walk_keys message_keys) d"
proof (rule lawful_keys)
  fix k W assume "(k, W) \<in> set message_keys"
  then show "lawful_json W"
    using lawful_content lawful_func lawful_iter [OF lawful_tool_call] by (auto simp: message_keys_def)
qed (auto simp: message_keys_def)

lemma lawful_message: "lawful_json walk_message"
proof (rule lawful_on_dict [OF lawful_message_keys])
  fix fn x s assume "\<And>d. x = JDict d \<Longrightarrow> \<not> True"
  then show "walk_message fn x s = Inr (x, s)" by (cases x) auto
qed (auto simp: walk_message_keys simp del: walk_message.simps(1))

text \<open>The two ways an item is walked.\<close>

definition item_is_message :: "dict \<Rightarrow> bool" where
  "item_is_message d \<longleftrightarrow> has_key d (str ''content'') \<or> has_key d (str ''tool_calls'')"

lemma walk_item_eq:
  "walk_item fn (JDict d) s =
     (if item_is_message d then walk_message fn (JDict d) s
      else rbind (apply_at (str ''text'') fn d s) (\<lambda>(d', s'). Inr (JDict d', s')))"
  by (auto simp: item_is_message_def apply_at_def is_JStr.simps split: json.splits simp del: walk_message.simps)

lemma lawful_item: "lawful_json walk_item"
proof
  fix x
  show "lawful (\<lambda>_ _. True) walk_item x"
  proof (cases x)
    case (JDict d)
    show ?thesis
    proof (cases "item_is_message d")
      case True
      have "item_is_message e" if "agree K d e" for e K
        using True agree_has_key [OF that] by (simp add: item_is_message_def)
      then show ?thesis unfolding JDict using lawful_wrap [OF lawful_message_keys [of d], of walk_item JDict]
        by (simp add: walk_item_eq walk_message_keys del: walk_item.simps walk_message.simps)
    next
      case False
      have "\<not> item_is_message e" if "agree K d e" for e K
        using False agree_has_key [OF that] by (simp add: item_is_message_def)
      then show ?thesis unfolding JDict using lawful_wrap [OF lawful_at [of "str ''text''" d], of walk_item JDict]
        by (simp add: walk_item_eq del: walk_item.simps walk_message.simps)
    qed
  qed (rule lawful_skip; simp)+
qed

lemma lawful_input: "lawful_json walk_input"
proof
  fix x
  show "lawful (\<lambda>_ _. True) walk_input x"
  proof (cases x)
    case (JStr t)
    show ?thesis
      by (rule lawfulI [of "\<lambda>us. JStr (hd us)" "[t]"]) (auto simp: JStr collect_def length_Suc_conv)
  next
    case (JList xs)
    show ?thesis unfolding JList by (rule lawful_wrap [OF lawful_list_json [OF lawful_item]]) simp_all
  qed (rule lawful_skip; simp)+
qed

lemma lawful_map_texts: "lawful (agree {str ''messages'', str ''input''}) map_texts d"
proof -
  have "map_texts = walk_keys [(str ''messages'', walk_iter walk_message), (str ''input'', walk_input)]"
    by (auto simp: map_texts_def fun_eq_iff rbind_def split: sum.splits)
  moreover have "lawful (agree {str ''messages'', str ''input''})
      (walk_keys [(str ''messages'', walk_iter walk_message), (str ''input'', walk_input)]) d"
    by (rule lawful_keys) (use lawful_iter [OF lawful_message] lawful_input in auto)
  ultimately show ?thesis by simp
qed

lemma map_texts_update_other:
  assumes "k \<notin> {str ''messages'', str ''input''}"
  shows "map_texts fn (AList.update k v d) s =
    rbind (map_texts fn d s) (\<lambda>(e, s'). Inr (AList.update k v e, s'))"
proof -
  have other: "walk_key j W fn (AList.update k v d) s =
      rbind (walk_key j W fn d s) (\<lambda>(e, s'). Inr (AList.update k v e, s'))" if j: "k \<noteq> j" for j W d s
  proof (cases "map_of d j")
    case (Some x)
    have "AList.update j y (AList.update k v d) = AList.update k v (AList.update j y d)" for y
      using map_of_key [OF Some] j by (induction d) auto
    then show ?thesis using Some j by (auto simp: walk_key_def rbind_def split: sum.splits)
  qed (use j in \<open>simp add: walk_key_def\<close>)
  show ?thesis using assms by (auto simp: map_texts_def other rbind_def split: sum.splits)
qed

lemma extract_Inr:
  assumes "extract_texts p = Inr ts"
  obtains F where "framed map_texts ts F" "F ts = p"
    "\<And>us. length us = length ts \<Longrightarrow> agree {str ''messages'', str ''input''} p (F us)"
    "\<And>us. length us = length ts \<Longrightarrow> extract_texts (F us) = Inr us"
    "\<And>us vs. length us = length ts \<Longrightarrow> inject_texts (F us) vs = (if length vs = length ts then Inr (F vs) else Inl ValueError)"
proof -
  show ?thesis using lawful_map_texts [of p]
  proof (cases rule: lawfulE)
    case (error e)
    then show ?thesis using assms by (simp add: extract_texts_def)
  next
    case (ok ts' F)
    have ts: "ts' = ts"
      using framedD(1) [OF ok(1) refl, of "[]"] ok(2) assms by (simp add: extract_texts_def)
    have ex: "extract_texts (F us) = Inr us" if "length us = length ts" for us
      using framedD(1) [OF ok(1), of us "[]"] that ts by (simp add: extract_texts_def)
    have inj: "inject_texts (F us) vs = (if length vs = length ts then Inr (F vs) else Inl ValueError)"
      if "length us = length ts" for us vs
      using framedD(2) [OF ok(1), of us vs "[]"] that ex ts by (simp add: inject_texts_def)
    show ?thesis by (rule that [of F]) (use ok ts ex inj in auto)
  qed
qed

text \<open>Reading and writing the text of a response.\<close>

lemma set_extract_completion:
  assumes "extract_completion_text c = v" "v \<noteq> JNull"
  obtains d x xs e m where "c = JDict d" "map_of d (str ''choices'') = Some (JList (x # xs))" "x = JDict e"
    "map_of e (str ''message'') = Some (JDict m)" "map_of m (str ''content'') = Some v"
    "\<And>w. set_completion_text c w = Inr (JDict (AList.update (str ''choices'') (JList (JDict (AList.update (str ''message'')
        (JDict (AList.update (str ''content'') w m)) e) # xs)) d))"
    "\<And>w c'. set_completion_text c w = Inr c' \<Longrightarrow> extract_completion_text c' = w"
proof -
  obtain y where y: "completion_path (str ''message'') c = Inr y" "sub_key y (str ''content'') = Inr v"
    using assms by (auto simp: extract_completion_text_def rbind_def split: sum.splits)
  obtain d where d: "c = JDict d" using y(1) by (cases c) (auto simp: completion_path_def)
  obtain cs x where cs: "map_of d (str ''choices'') = Some cs" "sub_idx cs 0 = Inr x" "sub_key x (str ''message'') = Inr y"
    using y(1) d by (auto simp: completion_path_def rbind_Inr_iff split: option.splits)
  obtain e where e: "x = JDict e" "map_of e (str ''message'') = Some y" using cs(3) by (cases x) (auto split: option.splits)
  obtain m where m: "y = JDict m" "map_of m (str ''content'') = Some v" using y(2) by (cases y) (auto split: option.splits)
  obtain xs where xs: "cs = JList (x # xs)"
    using cs(2) e(1) by (cases cs) (auto simp: neq_Nil_conv split: if_splits)
  show ?thesis
    by (rule that [of d x xs e m]) (use d cs e m xs in \<open>auto simp: set_completion_text_def set_text_at_def extract_completion_text_def
        completion_path_def\<close>)
qed

section \<open>Properties\<close>

text \<open>C4. The two functions over the shared walk are aligned: writing back the texts read changes
  nothing; any list of the same length can be written, is what is then read, leaves every other
  top-level field alone, and a second write overwrites the first; any other length is refused.\<close>

theorem inject_extract_laws:
  assumes "extract_texts payload = Inr ts"
  shows "inject_texts payload ts = Inr payload
    \<and> (\<forall>us. length us = length ts \<longrightarrow>
        (\<exists>q. inject_texts payload us = Inr q \<and> extract_texts q = Inr us
           \<and> agree {str ''messages'', str ''input''} payload q
           \<and> (\<forall>vs. inject_texts q vs = inject_texts payload vs)))
    \<and> (\<forall>us. length us \<noteq> length ts \<longrightarrow> inject_texts payload us = Inl ValueError)"
proof -
  obtain F where F: "F ts = payload"
    "\<And>us. length us = length ts \<Longrightarrow> agree {str ''messages'', str ''input''} payload (F us)"
    "\<And>us. length us = length ts \<Longrightarrow> extract_texts (F us) = Inr us"
    "\<And>us vs. length us = length ts \<Longrightarrow> inject_texts (F us) vs = (if length vs = length ts then Inr (F vs) else Inl ValueError)"
    using extract_Inr [OF assms] by metis
  have p: "inject_texts payload vs = (if length vs = length ts then Inr (F vs) else Inl ValueError)" for vs
    using F(4) [OF refl, of vs] F(1) by simp
  show ?thesis using F p by auto
qed

text \<open>Only \<open>messages\<close> and \<open>input\<close> are walked: a text under any other top-level key (the
  Responses API's \<open>instructions\<close>, say) is neither extracted nor rewritten.\<close>

lemma unwalked_fields_pass:
  assumes "k \<notin> {str ''messages'', str ''input''}"
  shows "extract_texts (AList.update k v payload) = extract_texts payload
    \<and> inject_texts (AList.update k v payload) us = rbind (inject_texts payload us) (\<lambda>q. Inr (AList.update k v q))"
proof -
  have e: "extract_texts (AList.update k v payload) = extract_texts payload"
    using map_texts_update_other [OF assms, of collect v payload "[]"]
    by (auto simp: extract_texts_def rbind_def split: sum.splits)
  then show ?thesis
    using map_texts_update_other [OF assms, of next_text v payload us]
    by (auto simp: inject_texts_def rbind_def split: sum.splits)
qed

section \<open>Witnesses\<close>

definition chat_example :: dict where
  "chat_example = [(str ''model'', JStr (str ''m'')), (str ''messages'', JList [JDict [(str ''role'', JStr (str ''user'')),
     (str ''content'', JList [JDict [(str ''type'', JStr (str ''text'')), (str ''text'', JStr (str ''hello''))]]),
     (str ''tool_calls'', JList [JDict [(str ''function'', JDict [(str ''arguments'', JStr (str ''a''))])]])]])]"

lemma chat_example_texts: "extract_texts chat_example = Inr [str ''hello'', str ''a'']"
  by code_simp

theorem inject_extract_laws_witness:
  "\<exists>q. inject_texts chat_example [str ''x'', str ''y''] = Inr q \<and> extract_texts q = Inr [str ''x'', str ''y'']"
  using inject_extract_laws [OF chat_example_texts] by (auto dest!: spec [of _ "[str ''x'', str ''y'']"])

end
