(* ===== verification/Policy.thy ===== *)
theory Policy
  imports Entities Unicode_Data "HOL-Library.List_Lexorder"
begin

text \<open>
  \<open>app/redaction/policy.py\<close>: from a stored policy row to a decision, and its application to the
  detected types. Code points order strings as Python does (\<open>List_Lexorder\<close>). The look-up of the
  row belongs to the database: \<open>resolve_policy\<close> takes it as a function.
\<close>

section \<open>The code\<close>

text \<open>The columns of the \<open>policy\<close> table the code reads; JSON columns may be null.\<close>

record policy_row =
  pr_mode :: pystr
  pr_blocked_types :: "pystr list option"
  pr_allowed_providers :: "pystr list option"

definition policy_mode_of :: "pystr \<Rightarrow> policy_mode res" where
  "policy_mode_of m =
     (if m = str ''tokenize'' then Inr TOKENIZE
      else if m = str ''mask'' then Inr MASK
      else if m = str ''hard_block'' then Inr HARD_BLOCK
      else Inl ValueError)"

definition default_decision :: policy_decision where
  "default_decision = \<lparr>pd_mode = TOKENIZE, pd_blocked = False, pd_blocked_types = [], pd_allowed_providers = [], pd_redact_types = None\<rparr>"

definition or_empty :: "'a list option \<Rightarrow> 'a list" where
  "or_empty x = (case x of None \<Rightarrow> [] | Some ys \<Rightarrow> ys)"

definition resolve_policy :: "(pystr \<Rightarrow> policy_row option res) \<Rightarrow> pystr option \<Rightarrow> policy_decision res" where
  "resolve_policy find_policy policy_id =
     (case policy_id of
        None \<Rightarrow> Inr default_decision
      | Some pid \<Rightarrow>
          rbind (find_policy pid) (\<lambda>row.
            case row of
              None \<Rightarrow> Inr default_decision
            | Some r \<Rightarrow>
                rbind (policy_mode_of (pr_mode r)) (\<lambda>m.
                  Inr \<lparr>pd_mode = m, pd_blocked = False, pd_blocked_types = or_empty (pr_blocked_types r),
                       pd_allowed_providers = or_empty (pr_allowed_providers r), pd_redact_types = None\<rparr>)))"

definition evaluate :: "policy_decision \<Rightarrow> pystr set \<Rightarrow> unit res" where
  "evaluate decision detected_types =
     (let blocked_hit = detected_types \<inter> set (pd_blocked_types decision) in
      if pd_mode decision = HARD_BLOCK \<or> blocked_hit \<noteq> {} then
        Inl (HardBlockError (if blocked_hit \<noteq> {} then sorted_list_of_set blocked_hit else sorted_list_of_set detected_types))
      else Inr ())"

definition filter_spans :: "policy_decision \<Rightarrow> entity_span list \<Rightarrow> entity_span list" where
  "filter_spans decision spans = filter (\<lambda>sp. should_redact decision (sp_type sp)) spans"

definition provider_allowed :: "policy_decision \<Rightarrow> pystr \<Rightarrow> bool" where
  "provider_allowed decision provider \<longleftrightarrow> pd_allowed_providers decision = [] \<or> provider \<in> set (pd_allowed_providers decision)"

section \<open>Lemmas\<close>

lemma evaluate_Inr_iff:
  "evaluate d ts = Inr x \<longleftrightarrow> pd_mode d \<noteq> HARD_BLOCK \<and> ts \<inter> set (pd_blocked_types d) = {}"
  by (auto simp: evaluate_def Let_def)

lemma evaluate_Inl:
  assumes "evaluate d ts = Inl e" "finite ts"
  obtains off where "e = HardBlockError off" "sorted off" "distinct off" "set off \<subseteq> ts"
    "ts \<inter> set (pd_blocked_types d) \<noteq> {} \<Longrightarrow> set off = ts \<inter> set (pd_blocked_types d)"
  using assms by (auto simp: evaluate_def Let_def split: if_splits)

lemma evaluate_mode: "pd_mode d \<noteq> HARD_BLOCK \<Longrightarrow> pd_mode d' \<noteq> HARD_BLOCK \<Longrightarrow>
    pd_blocked_types d = pd_blocked_types d' \<Longrightarrow> evaluate d ts = evaluate d' ts"
  by (simp add: evaluate_def)

lemma filter_spans_subset: "set (filter_spans d ss) \<subseteq> set ss"
  by (auto simp: filter_spans_def)

lemma filter_spans_chained: "chained ss \<Longrightarrow> chained (filter_spans d ss)"
  by (simp add: filter_spans_def sorted_wrt_filter)

lemma filter_spans_all: "pd_redact_types d = None \<Longrightarrow> filter_spans d ss = ss"
  by (simp add: filter_spans_def should_redact_def)

text \<open>A policy that cannot be found redacts everything; a row never exempts a type.\<close>

lemma resolve_policy_redacts_all: "resolve_policy find_policy policy_id = Inr d \<Longrightarrow> pd_redact_types d = None"
  by (auto simp: resolve_policy_def default_decision_def rbind_Inr_iff split: option.splits)

end
