(* ===== verification/Pipeline.thy ===== *)
theory Pipeline
  imports Stream_Detok Openai_Schema Policy
begin

text \<open>
  \<open>app/redaction/pipeline.py\<close> and \<open>normalize.py\<close>: one request from its payload to the sanitized
  payload, and the response back. \<open>asyncio.gather\<close> over the texts is modelled in order. The
  detector and the creation of the session are parameters of the pipeline (their implementations
  are modelled in their own theories); state changes of a run that raises are dropped, as the
  request's database transaction is.
\<close>

section \<open>The code\<close>

definition INVISIBLE :: "nat list" where
  "INVISIBLE = [8203, 8204, 8205, 8288, 65279, 173]"

definition normalize_text :: "ucd \<Rightarrow> pystr \<Rightarrow> pystr" where
  "normalize_text u s = (if s = [] then s else filter (\<lambda>c. c \<notin> set INVISIBLE) (u_nfkc u s))"

record pipeline_context =
  cx_session :: pystr
  cx_counts :: "(pystr \<times> int) list"
  cx_blocked :: bool
  cx_spans :: "entity_span list"

record 's pipeline =
  pl_ops :: "'s store_ops"
  pl_create_session :: "'s \<Rightarrow> (pystr \<times> 's) res"
  pl_vault :: vault
  pl_rng :: rng
  pl_detect :: "pystr \<Rightarrow> detection_result res"
  pl_decision :: policy_decision

definition count_types :: "entity_span list \<Rightarrow> (pystr \<times> int) list" where
  "count_types spans = count_by sp_type spans []"

text \<open>Awaiting a list of results: the first exception is raised.\<close>

fun gather :: "'a res list \<Rightarrow> 'a list res" where
  "gather [] = Inr []"
| "gather (r # rs) = rbind r (\<lambda>x. rbind (gather rs) (\<lambda>xs. Inr (x # xs)))"

fun tokenize_all ::
  "'s store_ops \<Rightarrow> vault \<Rightarrow> rng \<Rightarrow> pystr \<Rightarrow> (pystr \<times> entity_span list) list \<Rightarrow> 's \<times> nat \<Rightarrow> (pystr list \<times> 's \<times> nat) res" where
  "tokenize_all ops v rng sid [] sn = Inr ([], sn)"
| "tokenize_all ops v rng sid ((t, spans) # rest) sn =
     rbind (if spans \<noteq> [] then tokenize ops v rng sid t spans sn else Inr (t, sn)) (\<lambda>(out, sn1).
     rbind (tokenize_all ops v rng sid rest sn1) (\<lambda>(outs, sn2). Inr (out # outs, sn2)))"

definition sanitize_request ::
  "ucd \<Rightarrow> 's pipeline \<Rightarrow> dict \<Rightarrow> 's \<times> nat \<Rightarrow> (dict \<times> pipeline_context \<times> 's \<times> nat) res" where
  "sanitize_request u pl payload = (\<lambda>(s, n).
     rbind (extract_texts payload) (\<lambda>raw.
     let texts = map (normalize_text u) raw in
     rbind (pl_create_session pl s) (\<lambda>(session_id, s1).
     let ctx = \<lparr>cx_session = session_id, cx_counts = [], cx_blocked = False, cx_spans = []\<rparr> in
     if texts = [] then Inr (payload, ctx, s1, n)
     else
       rbind (gather (map (pl_detect pl) texts)) (\<lambda>results.
       let filtered = map (\<lambda>r. filter_spans (pl_decision pl) (dr_spans r)) results;
           all_spans = concat filtered;
           detected_types = sp_type ` set all_spans in
       rbind (evaluate (pl_decision pl) detected_types) (\<lambda>_.
       rbind (tokenize_all (pl_ops pl) (pl_vault pl) (pl_rng pl) session_id (zip texts filtered) (s1, n)) (\<lambda>(sanitized_texts, s2, n2).
       rbind (inject_texts payload sanitized_texts) (\<lambda>sanitized_payload.
       Inr (sanitized_payload, ctx\<lparr>cx_spans := all_spans, cx_counts := count_types all_spans\<rparr>, s2, n2))))))))"

text \<open>\<open>vault.detokenize\<close> on whatever the content is: \<open>"[[" not in text\<close> works on containers too.\<close>

fun detokenize_any :: "ucd \<Rightarrow> 's store_ops \<Rightarrow> vault \<Rightarrow> 's \<Rightarrow> pystr \<Rightarrow> json \<Rightarrow> json res" where
  "detokenize_any u ops v s sid (JStr t) = rbind (detokenize u ops v s sid t) (\<lambda>r. Inr (JStr r))"
| "detokenize_any u ops v s sid (JList xs) = (if JStr (str ''[['') \<in> set xs then Inl TypeError else Inr (JList xs))"
| "detokenize_any u ops v s sid (JDict d) = (if has_key d (str ''[['') then Inl TypeError else Inr (JDict d))"
| "detokenize_any u ops v s sid _ = Inl TypeError"

definition reinflate :: "ucd \<Rightarrow> 's pipeline \<Rightarrow> 's \<Rightarrow> json \<Rightarrow> pipeline_context \<Rightarrow> json res" where
  "reinflate u pl s completion ctx =
     (let t = extract_completion_text completion in
      if truthy t then
        rbind (detokenize_any u (pl_ops pl) (pl_vault pl) s (cx_session ctx) t) (\<lambda>restored.
          set_completion_text completion restored)
      else Inr completion)"

definition prepare_stream_reinflation :: "ucd \<Rightarrow> 's pipeline \<Rightarrow> 's \<Rightarrow> pipeline_context \<Rightarrow> (pystr \<Rightarrow> pystr res) res" where
  "prepare_stream_reinflation u pl s ctx = stream_detokenizer_prepared u (pl_ops pl) (pl_vault pl) s (cx_session ctx)"

definition reinflate_stream :: "ucd \<Rightarrow> 's pipeline \<Rightarrow> 's \<Rightarrow> pipeline_context \<Rightarrow> pystr \<Rightarrow> pystr res" where
  "reinflate_stream u pl s ctx = stream_detokenizer u (pl_ops pl) (pl_vault pl) s (cx_session ctx)"

section \<open>Lemmas\<close>

lemma gather_Inr: "gather rs = Inr xs \<longleftrightarrow> rs = map Inr xs"
  by (induction rs arbitrary: xs) (auto simp: rbind_Inr_iff)

lemma normalize_invisible: "c \<in> set INVISIBLE \<Longrightarrow> c \<notin> set (normalize_text u s)"
  by (simp add: normalize_text_def)

text \<open>A text and the spans the detector reports on it, as the vault needs them.\<close>

definition good_item :: "(pystr \<times> pystr) set \<Rightarrow> pystr \<times> entity_span list \<Rightarrow> bool" where
  "good_item V = (\<lambda>(t, ss). (\<forall>x\<in>set ss. wf_span t x \<and> ph_type (sp_type x) \<and> (sp_type x, sp_text x) \<in> V) \<and> chained ss)"

lemma tokenize_all_pg:
  assumes "pg_inv s" "honest v sid V (pg_recs s sid)" "fp_inj v sid V" "crypto_ok (va_crypto v)" "rng_ok rng"
    and "\<forall>it\<in>set items. good_item V it"
    and "tokenize_all (pg_ops Inr) v rng sid items (s, n) = Inr (outs, s', n')"
  shows "pg_inv s' \<and> honest v sid V (pg_recs s' sid)
    \<and> core ` set (pg_recs s sid) \<subseteq> core ` set (pg_recs s' sid)
    \<and> list_all2 (\<lambda>(t, ss) out. \<exists>ps. each_stands v sid t (pg_recs s' sid) ss ps \<and> out = render t 0 ss ps) items outs"
  using assms
proof (induction items arbitrary: s n outs)
  case (Cons it items)
  obtain t ss where it: "it = (t, ss)" by (cases it)
  obtain out s1 n1 outs' where run: "tokenize (pg_ops Inr) v rng sid t ss (s, n) = Inr (out, s1, n1)"
    "tokenize_all (pg_ops Inr) v rng sid items (s1, n1) = Inr (outs', s', n')" "outs = out # outs'"
    using Cons.prems(7) by (auto simp: it rbind_Inr_iff tokenize_def split: if_splits)
  have good: "\<forall>x\<in>set ss. wf_span t x \<and> ph_type (sp_type x) \<and> (sp_type x, sp_text x) \<in> V" "chained ss"
    using Cons.prems(6) by (auto simp: it good_item_def)
  have inv1: "pg_inv s1" by (rule pg.tokenize_inv [OF Cons.prems(1) _ run(1)]) simp
  have one: "honest v sid V (pg_recs s1 sid)"
    "\<exists>new. map core (pg_recs s1 sid) = map core (pg_recs s sid) @ map core new"
    "\<exists>ps. each_stands v sid t (pg_recs s1 sid) ss ps \<and> out = render t 0 ss ps"
    using pg.tokenize_spec [OF Cons.prems(1) _ Cons.prems(2-5) wf_values(1) [OF good(1)] good(2) run(1) pg_recs_placeholders [OF inv1]]
    by blast+
  have rest: "pg_inv s' \<and> honest v sid V (pg_recs s' sid) \<and> core ` set (pg_recs s1 sid) \<subseteq> core ` set (pg_recs s' sid)
    \<and> list_all2 (\<lambda>(t, ss) out. \<exists>ps. each_stands v sid t (pg_recs s' sid) ss ps \<and> out = render t 0 ss ps) items outs'"
    using Cons.IH [OF inv1 one(1) Cons.prems(3-5) _ run(2)] Cons.prems(6) by simp
  note r = rest [THEN conjunct1] rest [THEN conjunct2, THEN conjunct1] rest [THEN conjunct2, THEN conjunct2, THEN conjunct1]
    rest [THEN conjunct2, THEN conjunct2, THEN conjunct2]
  have sub: "core ` set (pg_recs s sid) \<subseteq> core ` set (pg_recs s1 sid)"
    using one(2) core_prefix_distinct pg_recs_placeholders [OF inv1] by blast
  have "core ` set (pg_recs s sid) \<subseteq> core ` set (pg_recs s' sid)" by (rule subset_trans [OF sub r(3)])
  moreover obtain ps where ps: "each_stands v sid t (pg_recs s1 sid) ss ps" "out = render t 0 ss ps"
    using one(3) by (elim exE conjE)
  moreover have "each_stands v sid t (pg_recs s' sid) ss ps"
    by (rule each_stands_mono [OF ps(1) r(3)])
  ultimately show ?case
    unfolding it run(3) list_all2_Cons case_prod_conv
    by (intro conjI exI [of _ ps] r)
qed auto

text \<open>What the pipeline needs of its parts: a session that is new, sound primitives, and a detector
  that reports well-formed spans with placeholder types, in order and disjoint.\<close>

definition detector_ok :: "(pystr \<times> pystr) set \<Rightarrow> (pystr \<Rightarrow> detection_result res) \<Rightarrow> bool" where
  "detector_ok V detect \<longleftrightarrow> (\<forall>t r. detect t = Inr r \<longrightarrow> good_item V (t, dr_spans r))"

definition pipeline_ok :: "token_record list pipeline \<Rightarrow> token_record list \<Rightarrow> pystr \<Rightarrow> (pystr \<times> pystr) set \<Rightarrow> bool" where
  "pipeline_ok pl s1 sid V \<longleftrightarrow> pl_ops pl = pg_ops Inr \<and> pg_inv s1 \<and> pg_recs s1 sid = [] \<and> fp_inj (pl_vault pl) sid V
     \<and> crypto_ok (va_crypto (pl_vault pl)) \<and> rng_ok (pl_rng pl) \<and> detector_ok V (pl_detect pl)"

lemma good_item_filter: "good_item V (t, ss) \<Longrightarrow> good_item V (t, filter_spans d ss)"
  using filter_spans_subset [of d ss] filter_spans_chained [of ss d] by (auto simp: good_item_def)

lemma list_all2_zip_map:
  "list_all2 P (zip (map f xs) (map g xs)) ys \<longleftrightarrow> list_all2 (\<lambda>x y. P (f x, g x) y) xs ys"
proof -
  have "zip (map f xs) (map g xs) = map (\<lambda>x. (f x, g x)) xs" by (induction xs) auto
  then show ?thesis by (simp add: list_all2_map1)
qed

text \<open>A request that gets through: what each text becomes.\<close>

lemma sanitize_spec:
  assumes ok: "pl_create_session pl s = Inr (sid, s1)" "pipeline_ok pl s1 sid V"
    and run: "sanitize_request u pl payload (s, n) = Inr (p', ctx, s', n')"
  obtains raw outs where "extract_texts payload = Inr raw" "extract_texts p' = Inr outs"
    "agree {str ''messages'', str ''input''} payload p'" "cx_session ctx = sid"
    "pg_inv s'" "honest (pl_vault pl) sid V (pg_recs s' sid)"
    "list_all2 (\<lambda>t out. \<exists>r ps. pl_detect pl (normalize_text u t) = Inr r \<and>
        each_stands (pl_vault pl) sid (normalize_text u t) (pg_recs s' sid) (filter_spans (pl_decision pl) (dr_spans r)) ps \<and>
        out = render (normalize_text u t) 0 (filter_spans (pl_decision pl) (dr_spans r)) ps) raw outs"
    "evaluate (pl_decision pl) (sp_type ` set (cx_spans ctx)) = Inr () \<or> raw = []"
proof -
  let ?v = "pl_vault pl" and ?N = "normalize_text u" and ?fs = "filter_spans (pl_decision pl)"
  note pl = ok(2) [unfolded pipeline_ok_def]
  obtain raw where raw: "extract_texts payload = Inr raw"
    using run by (auto simp: sanitize_request_def rbind_Inr_iff)
  show ?thesis
  proof (cases "raw = []")
    case True
    then have *: "p' = payload" "s' = s1" "cx_session ctx = sid"
      using run raw ok(1) by (auto simp: sanitize_request_def Let_def)
    then show ?thesis using pl raw True by (intro that [of raw "[]"]) (simp_all add: honest_def)
  next
    case False
    obtain results where g: "gather (map (pl_detect pl) (map ?N raw)) = Inr results"
      "rbind (evaluate (pl_decision pl) (sp_type ` set (concat (map (\<lambda>r. ?fs (dr_spans r)) results)))) (\<lambda>_.
       rbind (tokenize_all (pl_ops pl) ?v (pl_rng pl) sid (zip (map ?N raw) (map (\<lambda>r. ?fs (dr_spans r)) results)) (s1, n)) (\<lambda>(outs, s2, n2).
       rbind (inject_texts payload outs) (\<lambda>q.
       Inr (q, \<lparr>cx_session = sid, cx_counts = count_types (concat (map (\<lambda>r. ?fs (dr_spans r)) results)), cx_blocked = False,
          cx_spans = concat (map (\<lambda>r. ?fs (dr_spans r)) results)\<rparr>, s2, n2)))) = Inr (p', ctx, s', n')"
      using run raw ok(1) False unfolding sanitize_request_def Let_def by (auto elim!: rbind_InrE)
    have det: "map (pl_detect pl \<circ> ?N) raw = map Inr results" using g(1) by (simp add: gather_Inr)
    then have len: "length results = length raw" by (metis length_map)
    have at: "pl_detect pl (?N (raw ! i)) = Inr (results ! i)" if "i < length raw" for i
      using det that len by (metis (no_types, lifting) comp_apply nth_map)
    define R where "R i = results ! i" for i
    have res: "results = map R [0..<length raw]" unfolding R_def len [symmetric] by (simp add: map_nth)
    obtain outs where t: "evaluate (pl_decision pl) (sp_type ` set (cx_spans ctx)) = Inr ()"
      "tokenize_all (pg_ops Inr) ?v (pl_rng pl) sid (zip (map ?N raw) (map (\<lambda>r. ?fs (dr_spans r)) results)) (s1, n) = Inr (outs, s', n')"
      "inject_texts payload outs = Inr p'" "cx_session ctx = sid"
      using g(2) pl by (auto simp: rbind_Inr_iff)
    let ?items = "zip (map ?N raw) (map (\<lambda>r. ?fs (dr_spans r)) results)"
    have good: "\<forall>it\<in>set ?items. good_item V it"
    proof
      fix it assume "it \<in> set ?items"
      then obtain i where i: "i < length raw" "it = (?N (raw ! i), ?fs (dr_spans (results ! i)))"
        using len by (auto simp: in_set_conv_nth)
      have "good_item V (?N (raw ! i), dr_spans (results ! i))"
        using at [OF i(1)] pl unfolding detector_ok_def by blast
      then show "good_item V it" unfolding i(2) by (rule good_item_filter)
    qed
    have "pg_inv s1" "honest ?v sid V (pg_recs s1 sid)" "fp_inj ?v sid V" "crypto_ok (va_crypto ?v)" "rng_ok (pl_rng pl)"
      using pl by (simp_all add: honest_def)
    note spec = tokenize_all_pg [OF this good t(2)]
    have l2: "list_all2 (\<lambda>(t, ss) out. \<exists>ps. each_stands ?v sid t (pg_recs s' sid) ss ps \<and> out = render t 0 ss ps) ?items outs"
      using spec by blast
    then have lo: "length outs = length raw" using len by (auto dest!: list_all2_lengthD)
    obtain q where q: "inject_texts payload outs = Inr q" "extract_texts q = Inr outs" "agree {str ''messages'', str ''input''} payload q"
      using extract_Inr [OF raw] lo by (metis (no_types, lifting))
    have "list_all2 (\<lambda>t out. \<exists>r ps. pl_detect pl (?N t) = Inr r \<and>
        each_stands ?v sid (?N t) (pg_recs s' sid) (?fs (dr_spans r)) ps \<and> out = render (?N t) 0 (?fs (dr_spans r)) ps) raw outs"
      using l2 at len by (auto simp: list_all2_conv_all_nth)
    then show ?thesis using that [OF raw] q t spec by simp
  qed
qed

text \<open>The forwarded texts, with what stands for what left out.\<close>

lemma sanitize_rendered:
  assumes "pl_create_session pl s = Inr (sid, s1)" "pipeline_ok pl s1 sid V"
    and "sanitize_request u pl payload (s, n) = Inr (p', ctx, s', n')"
    and "pd_redact_types (pl_decision pl) = None"
  shows "\<exists>raw outs. extract_texts payload = Inr raw \<and> extract_texts p' = Inr outs
    \<and> agree {str ''messages'', str ''input''} payload p'
    \<and> list_all2 (\<lambda>t out. \<exists>r ps. pl_detect pl (normalize_text u t) = Inr r
        \<and> list_all2 (\<lambda>x p. \<exists>h. ph_hex h \<and> p = make_placeholder (sp_type x) h) (dr_spans r) ps
        \<and> out = render (normalize_text u t) 0 (dr_spans r) ps) raw outs"
proof -
  obtain raw outs where *: "extract_texts payload = Inr raw" "extract_texts p' = Inr outs"
    "agree {str ''messages'', str ''input''} payload p'"
    "list_all2 (\<lambda>t out. \<exists>r ps. pl_detect pl (normalize_text u t) = Inr r \<and>
        each_stands (pl_vault pl) sid (normalize_text u t) (pg_recs s' sid) (filter_spans (pl_decision pl) (dr_spans r)) ps \<and>
        out = render (normalize_text u t) 0 (filter_spans (pl_decision pl) (dr_spans r)) ps) raw outs"
    by (rule sanitize_spec [OF assms(1-3)])
  have "list_all2 (\<lambda>x p. \<exists>h. ph_hex h \<and> p = make_placeholder (sp_type x) h) ss ps"
    if "each_stands (pl_vault pl) sid t (pg_recs s' sid) ss ps" for t ss ps
    using that unfolding each_stands_def by (elim list_all2_mono) (auto simp: stands_for_def)
  then have "list_all2 (\<lambda>t out. \<exists>r ps. pl_detect pl (normalize_text u t) = Inr r
        \<and> list_all2 (\<lambda>x p. \<exists>h. ph_hex h \<and> p = make_placeholder (sp_type x) h) (dr_spans r) ps
        \<and> out = render (normalize_text u t) 0 (dr_spans r) ps) raw outs"
    using *(4) by (elim list_all2_mono) (use filter_spans_all [OF assms(4)] in fastforce)
  then show ?thesis using * by blast
qed

section \<open>Properties\<close>


text \<open>The types of the spans the policy does not filter out of what the detector reports.\<close>

definition found_types :: "policy_decision \<Rightarrow> detection_result list \<Rightarrow> pystr set" where
  "found_types d results = sp_type ` (\<Union>r\<in>set results. set (filter_spans d (dr_spans r)))"

lemma sanitize_blocked:
  assumes "extract_texts payload = Inr raw" "raw \<noteq> []" "pl_create_session pl s = Inr (sid, s1)"
    and "map (\<lambda>t. pl_detect pl (normalize_text u t)) raw = map Inr results"
    and "evaluate (pl_decision pl) (found_types (pl_decision pl) results) = Inl e"
  shows "sanitize_request u pl payload (s, n) = Inl e"
proof -
  have "gather (map (pl_detect pl) (map (normalize_text u) raw)) = Inr results" using assms(4) by (simp add: gather_Inr comp_def)
  moreover have "sp_type ` set (concat (map (\<lambda>r. filter_spans (pl_decision pl) (dr_spans r)) results)) = found_types (pl_decision pl) results"
    by (auto simp: found_types_def)
  ultimately show ?thesis using assms(1-3,5) by (simp add: sanitize_request_def Let_def)
qed

lemma sanitize_passed:
  assumes "extract_texts payload = Inr raw" "raw \<noteq> []" "sanitize_request u pl payload (s, n) = Inr r"
  obtains results where "map (\<lambda>t. pl_detect pl (normalize_text u t)) raw = map Inr results"
    "evaluate (pl_decision pl) (found_types (pl_decision pl) results) = Inr ()"
proof -
  obtain results where "gather (map (pl_detect pl) (map (normalize_text u) raw)) = Inr results"
    "evaluate (pl_decision pl) (sp_type ` set (concat (map (\<lambda>r. filter_spans (pl_decision pl) (dr_spans r)) results))) = Inr ()"
    using assms unfolding sanitize_request_def Let_def by (auto elim!: rbind_InrE)
  moreover have "sp_type ` set (concat (map (\<lambda>r. filter_spans (pl_decision pl) (dr_spans r)) results)) = found_types (pl_decision pl) results"
    by (auto simp: found_types_def)
  ultimately show ?thesis using that [of results] by (simp add: gather_Inr comp_def)
qed

text \<open>The mode \<open>mask\<close> is no mode of its own: the pipeline does what it does for \<open>tokenize\<close>, placeholders that
  detokenize included, although the policy form of the web UI offers it as irreversible masking.\<close>

lemma mask_is_tokenize:
  assumes "pd_mode (pl_decision pl) = MASK"
  shows "sanitize_request u pl payload (s, n) =
      sanitize_request u (pl\<lparr>pl_decision := (pl_decision pl)\<lparr>pd_mode := TOKENIZE\<rparr>\<rparr>) payload (s, n)"
proof -
  have e: "evaluate ((pl_decision pl)\<lparr>pd_mode := TOKENIZE\<rparr>) ts = evaluate (pl_decision pl) ts" for ts
    by (intro evaluate_mode) (simp_all add: assms)
  have f: "filter_spans ((pl_decision pl)\<lparr>pd_mode := TOKENIZE\<rparr>) ss = filter_spans (pl_decision pl) ss" for ss
    by (simp add: filter_spans_def should_redact_def)
  show ?thesis unfolding sanitize_request_def Let_def by (simp add: e f cong: if_cong)
qed

text \<open>A payload without a walked text is forwarded before the policy is asked, in hard-block mode too.\<close>

lemma no_text_not_blocked:
  "extract_texts payload = Inr [] \<Longrightarrow> pl_create_session pl s = Inr (sid, s1) \<Longrightarrow>
    \<exists>ctx. sanitize_request u pl payload (s, n) = Inr (payload, ctx, s1, n)"
  by (simp add: sanitize_request_def Let_def)

text \<open>C13. The hard block, for a payload with a redactable text. When the detector has reported on every text, a policy
  in hard-block mode, or one that blocks a reported type its redaction list keeps, makes the request raise the hard-block error with the
  sorted list of the blocked types found (of all types found, when only the mode blocks). And a request gets through only
  when the detector reported on every text and the policy blocks neither by its mode nor any of the reported types it redacts.\<close>

theorem hard_block_enforced:
  assumes "extract_texts payload = Inr raw" "raw \<noteq> []"
  shows "(pl_create_session pl s = Inr (sid, s1) \<longrightarrow> map (\<lambda>t. pl_detect pl (normalize_text u t)) raw = map Inr results \<longrightarrow>
      ts = found_types (pl_decision pl) results \<longrightarrow> hit = ts \<inter> set (pd_blocked_types (pl_decision pl)) \<longrightarrow>
      pd_mode (pl_decision pl) = HARD_BLOCK \<or> hit \<noteq> {} \<longrightarrow>
      sanitize_request u pl payload (s, n) = Inl (HardBlockError (sorted_list_of_set (if hit \<noteq> {} then hit else ts))))
   \<and> (sanitize_request u pl payload (s, n) = Inr r \<longrightarrow>
      pd_mode (pl_decision pl) \<noteq> HARD_BLOCK \<and>
      (\<forall>t\<in>set raw. \<exists>d. pl_detect pl (normalize_text u t) = Inr d \<and>
         (\<forall>x\<in>set (filter_spans (pl_decision pl) (dr_spans d)). sp_type x \<notin> set (pd_blocked_types (pl_decision pl)))))"
proof (rule conjI; intro impI)
  assume *: "pl_create_session pl s = Inr (sid, s1)" "map (\<lambda>t. pl_detect pl (normalize_text u t)) raw = map Inr results"
    "ts = found_types (pl_decision pl) results" "hit = ts \<inter> set (pd_blocked_types (pl_decision pl))"
    "pd_mode (pl_decision pl) = HARD_BLOCK \<or> hit \<noteq> {}"
  have "evaluate (pl_decision pl) ts = Inl (HardBlockError (sorted_list_of_set (if hit \<noteq> {} then hit else ts)))"
    using *(4,5) unfolding evaluate_def Let_def by simp
  then show "sanitize_request u pl payload (s, n) = Inl (HardBlockError (sorted_list_of_set (if hit \<noteq> {} then hit else ts)))"
    using sanitize_blocked [OF assms *(1,2)] *(3) by simp
next
  assume run: "sanitize_request u pl payload (s, n) = Inr r"
  obtain results where res: "map (\<lambda>t. pl_detect pl (normalize_text u t)) raw = map Inr results"
    "evaluate (pl_decision pl) (found_types (pl_decision pl) results) = Inr ()" by (rule sanitize_passed [OF assms run])
  have "\<exists>d. pl_detect pl (normalize_text u t) = Inr d \<and>
      (\<forall>x\<in>set (filter_spans (pl_decision pl) (dr_spans d)). sp_type x \<notin> set (pd_blocked_types (pl_decision pl)))" if "t \<in> set raw" for t
  proof -
    have "pl_detect pl (normalize_text u t) \<in> Inr ` set results" using arg_cong [OF res(1), of set] that by auto
    then show ?thesis using res(2) by (fastforce simp: evaluate_Inr_iff found_types_def)
  qed
  then show "pd_mode (pl_decision pl) \<noteq> HARD_BLOCK \<and>
      (\<forall>t\<in>set raw. \<exists>d. pl_detect pl (normalize_text u t) = Inr d \<and>
         (\<forall>x\<in>set (filter_spans (pl_decision pl) (dr_spans d)). sp_type x \<notin> set (pd_blocked_types (pl_decision pl))))"
    using res(2) by (simp add: evaluate_Inr_iff)
qed

section \<open>Witnesses\<close>

definition john_pipeline :: "token_record list pipeline" where
  "john_pipeline = \<lparr>pl_ops = pg_ops Inr, pl_create_session = (\<lambda>s. Inr (str ''s'', s)), pl_vault = plain_vault, pl_rng = count_rng,
     pl_detect = (\<lambda>t. Inr \<lparr>dr_text = t, dr_spans = (if t = john_text then john_spans else [])\<rparr>), pl_decision = default_decision\<rparr>"

definition john_payload :: dict where
  "john_payload = [(str ''messages'', JList [JDict [(str ''content'', JStr john_text)]])]"

lemma john_texts: "extract_texts john_payload = Inr [john_text]" "normalize_text ascii_ucd john_text = john_text"
proof -
  show "extract_texts john_payload = Inr [john_text]"
    by (simp add: john_payload_def extract_texts_def map_texts_def walk_key_def walk_iter_def collect_def)
  show "normalize_text ascii_ucd john_text = john_text"
    by (simp add: normalize_text_def ascii_ucd_def john_text_def str_def INVISIBLE_def)
qed

lemma john_create: "pl_create_session john_pipeline [] = Inr (str ''s'', [])"
  by (simp add: john_pipeline_def)

lemma john_pipeline_ok: "pipeline_ok john_pipeline [] (str ''s'') (set john_values)"
proof -
  have "detector_ok (set john_values) (pl_detect john_pipeline)"
    using john_wf john_chained by (auto simp: detector_ok_def good_item_def john_pipeline_def)
  then show ?thesis
    using john_inj plain_ok by (simp add: pipeline_ok_def john_pipeline_def pg_inv_def pg_recs_def)
qed

lemma john_sanitize:
  obtains p' ctx s' n' where "sanitize_request ascii_ucd john_pipeline john_payload ([], 0) = Inr (p', ctx, s', n')"
    "\<forall>t\<in>set [john_text]. \<forall>r\<in>set (pg_recs s' (str ''s'')). \<not> contains (normalize_text ascii_ucd t) (tr_placeholder r)"
proof -
  obtain out s' n' where *: "john_run_pg = Inr (out, s', n')" "\<forall>r\<in>set (pg_recs s' (str ''s'')). \<not> contains john_text (tr_placeholder r)"
    using john_run_pg by blast
  obtain q where q: "inject_texts john_payload [out] = Inr q"
    using extract_Inr [OF john_texts(1)] by (metis (no_types, lifting) length_Cons)
  have ne: "john_spans \<noteq> []" by (simp add: john_spans_def)
  have "evaluate default_decision ts = Inr ()" for ts by (simp add: evaluate_def default_decision_def)
  then have "\<exists>ctx. sanitize_request ascii_ucd john_pipeline john_payload ([], 0) = Inr (q, ctx, s', n')"
    using *(1) q ne by (simp add: sanitize_request_def john_texts john_pipeline_def Let_def filter_spans_all default_decision_def john_run_pg_def)
  then show ?thesis using that *(2) john_texts(2) by auto
qed


definition john_under :: "policy_mode \<Rightarrow> pystr list \<Rightarrow> token_record list pipeline" where
  "john_under m blocked = john_pipeline\<lparr>pl_decision := default_decision\<lparr>pd_mode := m, pd_blocked_types := blocked\<rparr>\<rparr>"

lemma john_gets_through:
  assumes "m \<noteq> HARD_BLOCK" "\<forall>x\<in>set john_spans. sp_type x \<notin> set b"
  shows "\<exists>r. sanitize_request ascii_ucd (john_under m b) john_payload ([], 0) = Inr r"
proof -
  obtain out s' n' where *: "john_run_pg = Inr (out, s', n')" using john_run_pg by blast
  obtain q where q: "inject_texts john_payload [out] = Inr q"
    using extract_Inr [OF john_texts(1)] by (metis (no_types, lifting) length_Cons)
  have ne: "john_spans \<noteq> []" by (simp add: john_spans_def)
  have "evaluate (default_decision\<lparr>pd_mode := m, pd_blocked_types := b\<rparr>) (sp_type ` set john_spans) = Inr ()"
    using assms by (auto simp: evaluate_Inr_iff)
  then show ?thesis
    using *(1) q ne by (simp add: sanitize_request_def john_texts john_pipeline_def john_under_def Let_def filter_spans_all default_decision_def john_run_pg_def)
qed

text \<open>One payload under four policies: the mode blocks it, a blocked type that was found blocks it, and a policy that
  blocks another type lets it through, under \<open>tokenize\<close> and under \<open>mask\<close>.\<close>

theorem hard_block_enforced_witness:
  "sanitize_request ascii_ucd (john_under HARD_BLOCK []) john_payload ([], 0) = Inl (HardBlockError [str ''LOCATION'', str ''PERSON''])
   \<and> sanitize_request ascii_ucd (john_under MASK [str ''LOCATION'', str ''SIN'']) john_payload ([], 0) = Inl (HardBlockError [str ''LOCATION''])
   \<and> (\<exists>r. sanitize_request ascii_ucd (john_under MASK [str ''SIN'']) john_payload ([], 0) = Inr r)
   \<and> (\<exists>d. pl_detect (john_under MASK [str ''SIN'']) john_text = Inr d \<and> (\<forall>x\<in>set (dr_spans d). sp_type x \<noteq> str ''SIN''))"
proof -
  let ?r = "[\<lparr>dr_text = john_text, dr_spans = john_spans\<rparr>]" and ?sin = "john_under MASK [str ''SIN'']"
  have u: "pl_create_session (john_under m b) [] = Inr (str ''s'', [])"
    "map (\<lambda>t. pl_detect (john_under m b) (normalize_text ascii_ucd t)) [john_text] = map Inr ?r"
    "pd_mode (pl_decision (john_under m b)) = m" "pd_blocked_types (pl_decision (john_under m b)) = b"
    "pd_redact_types (pl_decision (john_under m b)) = None" for m b
    by (simp_all add: john_under_def john_pipeline_def john_texts default_decision_def)
  have ts: "found_types (pl_decision (john_under m b)) ?r = {str ''LOCATION'', str ''PERSON''}" for m b
    by (auto simp: found_types_def filter_spans_all u john_spans_def john_span_def)
  have ne: "[john_text] \<noteq> []" by simp
  note hb = hard_block_enforced [OF john_texts(1) ne, THEN conjunct1, rule_format, OF u(1,2) refl refl, unfolded ts u]
  have 1: "sanitize_request ascii_ucd (john_under HARD_BLOCK []) john_payload ([], 0) = Inl (HardBlockError [str ''LOCATION'', str ''PERSON''])"
    using hb [of HARD_BLOCK "[]" 0] by (simp add: str_def)
  have 2: "sanitize_request ascii_ucd (john_under MASK [str ''LOCATION'', str ''SIN'']) john_payload ([], 0) = Inl (HardBlockError [str ''LOCATION''])"
    using hb [of MASK "[str ''LOCATION'', str ''SIN'']" 0] by (simp add: str_def)
  obtain r where 3: "sanitize_request ascii_ucd ?sin john_payload ([], 0) = Inr r"
    using john_gets_through [of MASK "[str ''SIN'']"] by (auto simp: john_spans_def john_span_def str_def)
  have "\<exists>d. pl_detect ?sin john_text = Inr d \<and> (\<forall>x\<in>set (dr_spans d). sp_type x \<noteq> str ''SIN'')"
    using hard_block_enforced [OF john_texts(1) ne, THEN conjunct2, rule_format, OF 3]
    by (simp add: john_texts u filter_spans_all)
  then show ?thesis using 1 2 3 by blast
qed

end
