(* ===== verification/Packs.thy ===== *)
theory Packs
  imports Regex Json Validators Entities "HOL-Library.List_Lexorder"
begin

text \<open>
  \<open>app/redaction/regex_packs.py\<close> and \<open>packs_loader.py\<close>: jurisdiction packs, from the parsed YAML
  mapping to compiled patterns, their detection pass, the pack cache and the table the packs are
  published in. The YAML parser, the compilation of a pattern text and \<open>str()\<close> of a float or a
  container are parameters.
\<close>

unbundle bit_operations_syntax

section \<open>Compilation\<close>

definition FLAG_MAP :: "(pystr \<times> nat) list" where
  "FLAG_MAP = map (\<lambda>(k, v). (str k, v))
     [(''IGNORECASE'', 2), (''I'', 2), (''MULTILINE'', 8), (''M'', 8), (''DOTALL'', 16), (''S'', 16),
      (''UNICODE'', 32), (''U'', 32), (''VERBOSE'', 64), (''X'', 64)]"

definition FLAG_SEP_RE :: re where
  "FLAG_SEP_RE = plus1 (Cls False False [CRange 124 124, CRange 44 44, CRange 32 32])"

definition parse_flags :: "ucd \<Rightarrow> pystr option \<Rightarrow> nat" where
  "parse_flags u spec =
     (case spec of
        None \<Rightarrow> 0
      | Some sp \<Rightarrow>
          if sp = [] then 0
          else foldl (\<lambda>flags token. if token = [] then flags
                 else flags OR (case map_of FLAG_MAP (py_upper u token) of None \<Rightarrow> 0 | Some f \<Rightarrow> f))
               0 (re_split u FLAG_SEP_RE (py_strip u sp)))"

record compiled_pattern =
  cp_type :: pystr
  cp_regex :: re
  cp_groups :: "pystr list"      \<comment> \<open>\<open>regex.groupindex\<close>\<close>
  cp_validator :: "validator option"
  cp_validator_name :: json
  cp_description :: json

record pack =
  pk_code :: pystr
  pk_name :: pystr
  pk_entity_types :: "pystr list"
  pk_patterns :: "compiled_pattern list"
  pk_version :: pystr
  pk_raw_patterns :: "json list"

text \<open>\<open>str(v)\<close>.\<close>

definition py_str :: "(json \<Rightarrow> pystr) \<Rightarrow> json \<Rightarrow> pystr" where
  "py_str repr v =
     (case v of JStr s \<Rightarrow> s | JInt i \<Rightarrow> str_int i | JNull \<Rightarrow> str ''None''
      | JBool b \<Rightarrow> (if b then str ''True'' else str ''False'') | _ \<Rightarrow> repr v)"

text \<open>The parts of the library a pack is built with: \<open>re.compile\<close> and \<open>str\<close>.\<close>

record pack_env =
  pe_ucd :: ucd
  pe_compile :: "pystr \<Rightarrow> nat \<Rightarrow> (re \<times> pystr list) res"
  pe_repr :: "json \<Rightarrow> pystr"

definition flags_arg :: "json \<Rightarrow> pystr option res" where
  "flags_arg v = (case v of JStr s \<Rightarrow> Inr (Some s) | _ \<Rightarrow> if truthy v then Inl AttributeError else Inr None)"

definition compile_pattern :: "pack_env \<Rightarrow> json \<Rightarrow> compiled_pattern res" where
  "compile_pattern env raw =
     rbind (py_get raw (str ''validator'')) (\<lambda>validator_name.
     rbind (if truthy validator_name then
              (case validator_name of JStr n \<Rightarrow> Inr (get_validator (pe_ucd env) n)
               | JList _ \<Rightarrow> Inl TypeError | JDict _ \<Rightarrow> Inl TypeError | _ \<Rightarrow> Inr None)
            else Inr None) (\<lambda>validator.
     rbind (sub_key raw (str ''type'')) (\<lambda>ty.
     rbind (sub_key raw (str ''regex'')) (\<lambda>rx.
     rbind (py_get raw (str ''flags'')) (\<lambda>fl.
     rbind (flags_arg fl) (\<lambda>spec.
     rbind (pe_compile env (py_str (pe_repr env) rx) (parse_flags (pe_ucd env) spec)) (\<lambda>(regex, groups).
     rbind (py_get raw (str ''description'')) (\<lambda>descr.
       Inr \<lparr>cp_type = py_str (pe_repr env) ty, cp_regex = regex, cp_groups = groups, cp_validator = validator,
            cp_validator_name = validator_name, cp_description = descr\<rparr>))))))))"

fun compile_patterns :: "pack_env \<Rightarrow> json list \<Rightarrow> compiled_pattern list res" where
  "compile_patterns env [] = Inr []"
| "compile_patterns env (raw # raws) =
     rbind (compile_pattern env raw) (\<lambda>p. rbind (compile_patterns env raws) (\<lambda>ps. Inr (p # ps)))"

definition compile_pack :: "pack_env \<Rightarrow> dict \<Rightarrow> pack res" where
  "compile_pack env data =
     rbind (sub_key (JDict data) (str ''code'')) (\<lambda>c.
     let code = py_upper (pe_ucd env) (py_strip (pe_ucd env) (py_str (pe_repr env) c));
         name = py_str (pe_repr env) (dget_or data (str ''name'') (JStr code)) in
     rbind (iter_or_empty (dget data (str ''entity_types''))) (\<lambda>tys.
     let version = py_str (pe_repr env) (dget_or data (str ''version'') (JStr (str ''1.0.0''))) in
     rbind (iter_or_empty (dget data (str ''patterns''))) (\<lambda>raw_patterns.
     rbind (compile_patterns env raw_patterns) (\<lambda>compiled.
       Inr \<lparr>pk_code = code, pk_name = name, pk_entity_types = map (py_str (pe_repr env)) tys,
            pk_patterns = compiled, pk_version = version, pk_raw_patterns = raw_patterns\<rparr>))))"

section \<open>Detection\<close>

definition pattern_value :: "compiled_pattern \<Rightarrow> rmatch \<Rightarrow> nat \<times> nat" where
  "pattern_value pat m =
     (if str ''value'' \<in> set (cp_groups pat) then
        (case m_span m (str ''value'') of Some ab \<Rightarrow> ab | None \<Rightarrow> (m_start m, m_end m))
      else (m_start m, m_end m))"

definition detect_match :: "pack \<Rightarrow> pystr \<Rightarrow> compiled_pattern \<Rightarrow> rmatch \<Rightarrow> entity_span list \<Rightarrow> entity_span list res" where
  "detect_match pk s pat m spans =
     (let (a, b) = pattern_value pat m; val = slice s a b in
      rbind (case cp_validator pat of None \<Rightarrow> Inr True | Some valid \<Rightarrow> valid val) (\<lambda>ok.
        if \<not> ok then Inr spans
        else Inr (spans @ [\<lparr>sp_start = a, sp_end = b, sp_type = cp_type pat, sp_text = val, sp_score = 19 / 20,
                            sp_source = str ''regex'', sp_jurisdiction = Some (pk_code pk)\<rparr>])))"

definition pack_detect :: "ucd \<Rightarrow> pack \<Rightarrow> pystr \<Rightarrow> entity_span list res" where
  "pack_detect u pk s =
     rfold (\<lambda>pat spans. rfold (detect_match pk s pat) (finditer u (cp_regex pat) s) spans) (pk_patterns pk) []"

text \<open>\<open>dict(p)\<close> of the raw patterns: a list of pairs would do as well, anything else is refused.\<close>

fun copy_dicts :: "json list \<Rightarrow> json list res" where
  "copy_dicts [] = Inr []"
| "copy_dicts (JDict d # ps) = rbind (copy_dicts ps) (\<lambda>qs. Inr (JDict d # qs))"
| "copy_dicts (_ # ps) = Inl TypeError"

definition pack_meta :: "pack \<Rightarrow> dict res" where
  "pack_meta pk =
     rbind (copy_dicts (pk_raw_patterns pk)) (\<lambda>ps.
       Inr [(str ''code'', JStr (pk_code pk)), (str ''name'', JStr (pk_name pk)),
            (str ''entity_types'', JList (map JStr (pk_entity_types pk))), (str ''version'', JStr (pk_version pk)),
            (str ''definition'', JDict [(str ''patterns'', JList ps)])])"

section \<open>Loading\<close>

text \<open>
  The pack files are a function from a lower-case stem to the parsed file (\<open>None\<close>: no such
  file; an empty file parses to null); the state is the cache of \<open>_load_pack\<close>.
\<close>

type_synonym pack_files = "pystr \<Rightarrow> json option res"
type_synonym pack_cache = "(pystr \<times> pack option) list"

definition read_pack :: "pack_env \<Rightarrow> pack_files \<Rightarrow> pystr \<Rightarrow> pack option res" where
  "read_pack env files code =
     rbind (files (u_lower (pe_ucd env) code)) (\<lambda>f.
       case f of
         None \<Rightarrow> Inr None
       | Some data \<Rightarrow>
           (case (if truthy data then data else JDict []) of
              JDict d \<Rightarrow> rbind (compile_pack env d) (\<lambda>p. Inr (Some p))
            | _ \<Rightarrow> Inl TypeError))"

definition load_pack :: "pack_env \<Rightarrow> pack_files \<Rightarrow> pystr \<Rightarrow> pack_cache \<Rightarrow> (pack option \<times> pack_cache) res" where
  "load_pack env files code cache =
     (case map_of cache code of
        Some p \<Rightarrow> Inr (p, cache)
      | None \<Rightarrow> rbind (read_pack env files code) (\<lambda>p. Inr (p, cache @ [(code, p)])))"

fun load_packs_loop :: "pack_env \<Rightarrow> pack_files \<Rightarrow> pystr list \<Rightarrow> pystr list \<Rightarrow> pack list \<Rightarrow> pack_cache \<Rightarrow> (pack list \<times> pack_cache) res" where
  "load_packs_loop env files [] seen packs cache = Inr (packs, cache)"
| "load_packs_loop env files (code # codes) seen packs cache =
     (let norm = py_upper (pe_ucd env) (py_strip (pe_ucd env) code) in
      if norm = [] \<or> norm \<in> set seen then load_packs_loop env files codes seen packs cache
      else rbind (load_pack env files norm cache) (\<lambda>(p, cache').
             load_packs_loop env files codes (norm # seen) (case p of None \<Rightarrow> packs | Some pk \<Rightarrow> packs @ [pk]) cache'))"

definition load_packs :: "pack_env \<Rightarrow> pack_files \<Rightarrow> pystr list \<Rightarrow> pack_cache \<Rightarrow> (pack list \<times> pack_cache) res" where
  "load_packs env files codes cache = load_packs_loop env files codes [] [] cache"

definition clear_cache :: "pack_cache \<Rightarrow> pack_cache" where "clear_cache cache = []"

definition available_pack_codes :: "ucd \<Rightarrow> pystr list option \<Rightarrow> pystr list" where
  "available_pack_codes u stems = (case stems of None \<Rightarrow> [] | Some ss \<Rightarrow> sort (map (py_upper u) ss))"

fun metas_of :: "pack list \<Rightarrow> dict list res" where
  "metas_of [] = Inr []"
| "metas_of (p # ps) = rbind (pack_meta p) (\<lambda>m. rbind (metas_of ps) (\<lambda>ms. Inr (m # ms)))"

definition all_pack_meta :: "pack_env \<Rightarrow> pack_files \<Rightarrow> pystr list option \<Rightarrow> pack_cache \<Rightarrow> (dict list \<times> pack_cache) res" where
  "all_pack_meta env files stems cache =
     rbind (load_packs env files (available_pack_codes (pe_ucd env) stems) cache) (\<lambda>(packs, cache').
       rbind (metas_of packs) (\<lambda>metas. Inr (metas, cache')))"

section \<open>The table of packs\<close>

text \<open>A row is its code and the columns the upsert sets; the other columns are not touched.\<close>

type_synonym pack_table = "(pystr \<times> dict) list"

definition upsert_pack :: "dict \<Rightarrow> pack_table \<Rightarrow> pack_table res" where
  "upsert_pack meta table =
     (case map_of meta (str ''code'') of
        Some (JStr code) \<Rightarrow> Inr (AList.update code (filter (\<lambda>(k, _). k \<noteq> str ''code'') meta) table)
      | _ \<Rightarrow> Inl KeyError)"

definition sync_packs_to_db :: "dict list \<Rightarrow> pack_table \<Rightarrow> (nat \<times> pack_table) res" where
  "sync_packs_to_db metas table =
     (if metas = [] then Inr (0, table)
      else rbind (rfold upsert_pack metas table) (\<lambda>t. Inr (length metas, t)))"

section \<open>The spans a pack reports\<close>

text \<open>Captured groups lie inside the text.\<close>

definition caps_in :: "pystr \<Rightarrow> caps \<Rightarrow> bool" where
  "caps_in s c \<longleftrightarrow> (\<forall>(g, a, b)\<in>set c. a \<le> b \<and> b \<le> length s)"

lemma must_caps:
  assumes f: "\<And>i c j c'. (j, c') \<in> set (f i c) \<Longrightarrow> i \<le> length s \<Longrightarrow> P c \<Longrightarrow> j \<le> length s \<and> P c'"
    and "(j, c') \<in> set (must f n i c)" "i \<le> length s" "P c"
  shows "j \<le> length s \<and> P c'"
  using assms(2-4)
proof (induction n arbitrary: i c)
  case (Suc n)
  then obtain m cm where "(m, cm) \<in> set (f i c)" "(j, c') \<in> set (must f n m cm)" by auto
  then show ?case using Suc f [of m cm i c] by blast
qed simp

lemma opts_caps:
  assumes f: "\<And>i c j c'. (j, c') \<in> set (f i c) \<Longrightarrow> i \<le> length s \<Longrightarrow> P c \<Longrightarrow> j \<le> length s \<and> P c'"
    and "(j, c') \<in> set (opts f g n mx i c)" "i \<le> length s" "P c"
  shows "j \<le> length s \<and> P c'"
  using assms(2-4)
proof (induction n arbitrary: i c mx)
  case (Suc n)
  show ?case
  proof (cases "(j, c') = (i, c)")
    case False
    then obtain m cm where "(m, cm) \<in> set (f i c)" "(j, c') \<in> set (opts f g n (map_option (\<lambda>m. m - 1) mx) m cm)"
      using Suc.prems(1) by (auto simp: Let_def split: if_splits)
    then show ?thesis using Suc.IH Suc.prems(2,3) f [of m cm i c] by blast
  qed (use Suc.prems in simp)
qed simp

lemma ms_caps: "(j, c') \<in> set (ms u s r i c) \<Longrightarrow> i \<le> length s \<Longrightarrow> caps_in s c \<Longrightarrow> j \<le> length s \<and> caps_in s c'"
proof (induction r arbitrary: i c j c')
  case (Rep g a mn mx)
  obtain m cm where "(m, cm) \<in> set (must (ms u s a) mn i c)"
    "(j, c') \<in> set (opts (ms u s a) g (length s - m) (map_option (\<lambda>m. m - mn) mx) m cm)"
    using Rep.prems(1) by auto
  then show ?case
    using must_caps [of "ms u s a" s "caps_in s"] opts_caps [of "ms u s a" s "caps_in s"] Rep by blast
next
  case (Grp n a)
  then obtain c1 where c1: "(j, c1) \<in> set (ms u s a i c)" "c' = (n, i, j) # c1" by auto
  then show ?case using Grp.IH [OF c1(1)] Grp.prems(2,3) ms_bounds [OF c1(1)] by (auto simp: caps_in_def)
next
  case (Ahead pos a)
  show ?case
  proof (cases "pos")
    case True
    then obtain j1 rest where "ms u s a i c = (j1, c') # rest" "j = i"
      using Ahead.prems(1) by (cases "ms u s a i c") auto
    then show ?thesis using Ahead.IH [of j1 c' i c] Ahead.prems(2,3) by simp
  qed (use Ahead.prems in \<open>auto split: if_splits\<close>)
next
  case (Behind pos a)
  then show ?case by (auto split: if_splits)
next
  case (Seq a b)
  then show ?case by fastforce
qed (auto split: if_splits)

lemma search_from_ms: "search_from u r s n i adv = Some m \<Longrightarrow> n + i = Suc (length s) \<Longrightarrow>
    m_start m \<le> length s \<and> snd m \<in> set (ms u s r (m_start m) [])"
proof (induction n arbitrary: i adv)
  case (Suc n)
  show ?case
  proof (cases "match_at u r s i adv")
    case None
    then show ?thesis using Suc by simp
  next
    case (Some m')
    obtain j c where m': "m' = (i, j, c)" "(j, c) \<in> set (filter (\<lambda>(j, _). adv \<longrightarrow> j \<noteq> i) (ms u s r i []))"
      using Some unfolding match_at_def
      by (cases "filter (\<lambda>(j, _). adv \<longrightarrow> j \<noteq> i) (ms u s r i [])") (auto simp del: filter.simps)
    then show ?thesis using Suc.prems Some by (auto simp: m_start_def)
  qed
qed simp

lemma finditer_ms: "m \<in> set (finditer u r s) \<Longrightarrow> m_start m \<le> length s \<and> snd m \<in> set (ms u s r (m_start m) [])"
proof -
  have "m \<in> set (find_from n u r s i adv) \<Longrightarrow> i \<le> length s \<Longrightarrow>
      m_start m \<le> length s \<and> snd m \<in> set (ms u s r (m_start m) [])" for n i adv
  proof (induction n arbitrary: i adv)
    case (Suc n)
    obtain k where k: "search_from u r s (Suc (length s) - i) i adv = Some k"
      "m = k \<or> m \<in> set (find_from n u r s (m_end k) (m_end k = m_start k))"
      using Suc.prems(1) by (cases "search_from u r s (Suc (length s) - i) i adv") (auto simp del: search_from.simps)
    have *: "m_start k \<le> length s \<and> snd k \<in> set (ms u s r (m_start k) [])"
      using search_from_ms [OF k(1)] Suc.prems(2) by simp
    then have "m_end k \<le> length s"
      using ms_bounds [of "m_end k" "snd (snd k)" u s r "m_start k" "[]"] by (simp add: m_end_def)
    then show ?case using k(2) Suc.IH * by blast
  qed simp
  then show "m \<in> set (finditer u r s) \<Longrightarrow> m_start m \<le> length s \<and> snd m \<in> set (ms u s r (m_start m) [])"
    unfolding finditer_def by blast
qed

lemma finditer_caps: "m \<in> set (finditer u r s) \<Longrightarrow>
    m_start m \<le> m_end m \<and> m_end m \<le> length s \<and> caps_in s (snd (snd m))"
proof -
  assume "m \<in> set (finditer u r s)"
  from finditer_ms [OF this] have *: "m_start m \<le> length s" "(m_end m, snd (snd m)) \<in> set (ms u s r (m_start m) [])"
    by (simp_all add: m_end_def)
  have "caps_in s []" by (simp add: caps_in_def)
  then show ?thesis using ms_caps [OF *(2,1)] ms_bounds [OF *(2,1)] by simp
qed

lemma finditer_never_empty: "never_empty u r \<Longrightarrow> m \<in> set (finditer u r s) \<Longrightarrow> m_start m < m_end m"
proof -
  assume ne: "never_empty u r" and "m \<in> set (finditer u r s)"
  from finditer_ms [OF this(2)] have *: "m_start m \<le> length s" "(m_end m, snd (snd m)) \<in> set (ms u s r (m_start m) [])"
    by (simp_all add: m_end_def)
  then show ?thesis using occurs_advances [OF ne ms_occurs [OF ne *]] by simp
qed

text \<open>A pattern never reports an empty value; then what a pack reports is well formed.\<close>

definition pattern_ok :: "ucd \<Rightarrow> compiled_pattern \<Rightarrow> bool" where
  "pattern_ok u pat \<longleftrightarrow> (\<forall>s. \<forall>m\<in>set (finditer u (cp_regex pat) s). fst (pattern_value pat m) \<noteq> snd (pattern_value pat m))"

lemma pattern_value_bounds:
  assumes "pattern_ok u pat" "m \<in> set (finditer u (cp_regex pat) s)" "pattern_value pat m = (a, b)"
  shows "a < b" "b \<le> length s"
proof -
  note caps = finditer_caps [OF assms(2)]
  have "a \<le> b \<and> b \<le> length s"
  proof (cases "pattern_value pat m = (m_start m, m_end m)")
    case True
    then show ?thesis using caps assms(3) by simp
  next
    case False
    then have "map_of (snd (snd m)) (str ''value'') = Some (a, b)"
      using assms(3) by (auto simp: pattern_value_def m_span_def split: if_splits option.splits)
    then have "(str ''value'', a, b) \<in> set (snd (snd m))" by (rule map_of_SomeD)
    then show ?thesis using caps by (auto simp: caps_in_def)
  qed
  moreover have "a \<noteq> b" using assms unfolding pattern_ok_def by fastforce
  ultimately show "a < b" "b \<le> length s" by simp_all
qed

lemma pack_detect_wf:
  assumes ok: "\<forall>pat\<in>set (pk_patterns pk). pattern_ok u pat" and run: "pack_detect u pk s = Inr spans"
  shows "\<forall>x\<in>set spans. wf_span s x \<and> sp_jurisdiction x = Some (pk_code pk) \<and> sp_type x \<in> cp_type ` set (pk_patterns pk)"
proof -
  let ?I = "\<lambda>spans. \<forall>x\<in>set spans. wf_span s x \<and> sp_jurisdiction x = Some (pk_code pk) \<and> sp_type x \<in> cp_type ` set (pk_patterns pk)"
  have inner: "?I out" if pat: "pat \<in> set (pk_patterns pk)" and m: "m \<in> set (finditer u (cp_regex pat) s)"
    and "?I acc" "detect_match pk s pat m acc = Inr out" for pat m acc out
  proof -
    obtain a b where ab: "pattern_value pat m = (a, b)" by (cases "pattern_value pat m")
    have "a < b" "b \<le> length s" using pattern_value_bounds [OF _ m ab] ok pat by auto
    then show ?thesis using that ab
      by (auto simp: detect_match_def Let_def rbind_Inr_iff wf_span_def slice_def split: if_splits)
  qed
  have "?I out" if pat: "pat \<in> set (pk_patterns pk)" and acc: "?I acc"
    and r: "rfold (detect_match pk s pat) (finditer u (cp_regex pat) s) acc = Inr out" for pat acc out
    by (rule rfold_invariant [where I = ?I, OF r acc]) (rule inner [OF pat])
  note outer = this
  show ?thesis
    by (rule rfold_invariant [where I = ?I, OF run [unfolded pack_detect_def]]) (simp, rule outer)
qed

section \<open>The cache\<close>

definition cache_ok :: "pack_env \<Rightarrow> pack_files \<Rightarrow> pack_cache \<Rightarrow> bool" where
  "cache_ok env files cache \<longleftrightarrow> (\<forall>(code, p)\<in>set cache. read_pack env files code = Inr p)"

lemma load_pack_cached:
  assumes "cache_ok env files cache"
  shows "\<exists>c'. cache_ok env files c' \<and> load_pack env files code cache = rbind (read_pack env files code) (\<lambda>p. Inr (p, c'))"
proof (cases "map_of cache code")
  case None
  show ?thesis
  proof (cases "read_pack env files code")
    case (Inr p)
    then show ?thesis using None assms
      by (intro exI [of _ "cache @ [(code, p)]"]) (auto simp: load_pack_def cache_ok_def)
  qed (use None assms in \<open>auto simp: load_pack_def\<close>)
next
  case (Some p)
  then have "read_pack env files code = Inr p" using assms map_of_SomeD [OF Some] by (auto simp: cache_ok_def)
  then show ?thesis using Some assms by (auto simp: load_pack_def)
qed

text \<open>Loading packs through a cache that agrees with the files is loading them without one.\<close>

lemma load_packs_loop_cached:
  assumes "cache_ok env files c1" "cache_ok env files c2"
  shows "(\<exists>e. load_packs_loop env files codes seen packs c1 = Inl e \<and> load_packs_loop env files codes seen packs c2 = Inl e) \<or>
    (\<exists>ps c1' c2'. load_packs_loop env files codes seen packs c1 = Inr (ps, c1') \<and> load_packs_loop env files codes seen packs c2 = Inr (ps, c2')
       \<and> cache_ok env files c1' \<and> cache_ok env files c2')"
  using assms
proof (induction codes arbitrary: seen packs c1 c2)
  case (Cons code codes)
  let ?norm = "py_upper (pe_ucd env) (py_strip (pe_ucd env) code)"
  show ?case
  proof (cases "?norm = [] \<or> ?norm \<in> set seen")
    case True
    then show ?thesis using Cons by (simp add: Let_def)
  next
    case False
    obtain d1 where d1: "cache_ok env files d1" "load_pack env files ?norm c1 = rbind (read_pack env files ?norm) (\<lambda>p. Inr (p, d1))"
      using load_pack_cached [OF Cons.prems(1)] by blast
    obtain d2 where d2: "cache_ok env files d2" "load_pack env files ?norm c2 = rbind (read_pack env files ?norm) (\<lambda>p. Inr (p, d2))"
      using load_pack_cached [OF Cons.prems(2)] by blast
    show ?thesis using False d1 d2 Cons.IH [OF d1(1) d2(1)] by (cases "read_pack env files ?norm") (simp_all add: Let_def)
  qed
qed auto

section \<open>Publishing is idempotent\<close>

lemma update_commute1: "k \<in> fst ` set d \<Longrightarrow> j \<noteq> k \<Longrightarrow>
    AList.update j v (AList.update k w d) = AList.update k w (AList.update j v d)"
  by (induction d) auto

definition upsert_key :: "dict \<Rightarrow> pystr option" where
  "upsert_key meta = (case map_of meta (str ''code'') of Some (JStr c) \<Rightarrow> Some c | _ \<Rightarrow> None)"

lemma upsert_pack_eq: "upsert_pack meta table =
    (case upsert_key meta of Some c \<Rightarrow> Inr (AList.update c (filter (\<lambda>(k, _). k \<noteq> str ''code'') meta) table) | None \<Rightarrow> Inl KeyError)"
  by (simp add: upsert_pack_def upsert_key_def split: option.splits json.splits)

abbreviation upsert_row :: "dict \<Rightarrow> dict" where
  "upsert_row meta \<equiv> filter (\<lambda>(k, _). k \<noteq> str ''code'') meta"

lemma rfold_upsert_Cons:
  "rfold upsert_pack (m # metas) t = Inr t' \<longleftrightarrow>
    (\<exists>c. upsert_key m = Some c \<and> rfold upsert_pack metas (AList.update c (upsert_row m) t) = Inr t')"
  unfolding rfold.simps upsert_pack_eq [of m t] by (cases "upsert_key m") simp_all

lemma upsert_after_update:
  "k \<in> fst ` set t \<Longrightarrow> rfold upsert_pack metas t = Inr t' \<Longrightarrow>
    rfold upsert_pack metas (AList.update k v t) = Inr (if Some k \<in> upsert_key ` set metas then t' else AList.update k v t')"
proof (induction metas arbitrary: t)
  case (Cons m metas)
  obtain c where c: "upsert_key m = Some c" "rfold upsert_pack metas (AList.update c (upsert_row m) t) = Inr t'"
    using Cons.prems(2) unfolding rfold_upsert_Cons by blast
  have in_t: "k \<in> fst ` set (AList.update c (upsert_row m) t)" using Cons.prems(1) by (simp add: dom_update)
  show ?case unfolding rfold_upsert_Cons
  proof (cases "c = k")
    case True
    then show "\<exists>c. upsert_key m = Some c \<and> rfold upsert_pack metas (AList.update c (upsert_row m) (AList.update k v t)) =
        Inr (if Some k \<in> upsert_key ` set (m # metas) then t' else AList.update k v t')"
      using c by (auto simp: update_update image_iff)
  next
    case False
    then have "AList.update c (upsert_row m) (AList.update k v t) = AList.update k v (AList.update c (upsert_row m) t)"
      using Cons.prems(1) by (intro update_commute1) simp_all
    then show "\<exists>c. upsert_key m = Some c \<and> rfold upsert_pack metas (AList.update c (upsert_row m) (AList.update k v t)) =
        Inr (if Some k \<in> upsert_key ` set (m # metas) then t' else AList.update k v t')"
      using Cons.IH [OF in_t c(2)] c False by (auto simp: image_iff)
  qed
qed simp

lemma rfold_upsert_keys: "rfold upsert_pack metas t = Inr t' \<Longrightarrow> fst ` set t \<subseteq> fst ` set t'"
proof (induction metas arbitrary: t)
  case (Cons m metas)
  then obtain c where "rfold upsert_pack metas (AList.update c (upsert_row m) t) = Inr t'"
    unfolding rfold_upsert_Cons by blast
  from Cons.IH [OF this] show ?case by (auto simp: dom_update)
qed simp

lemma rfold_upsert_covers: "rfold upsert_pack metas t = Inr t' \<Longrightarrow> upsert_key ` set metas \<subseteq> Some ` fst ` set t'"
proof (induction metas arbitrary: t)
  case (Cons m metas)
  then obtain c where c: "upsert_key m = Some c" "rfold upsert_pack metas (AList.update c (upsert_row m) t) = Inr t'"
    unfolding rfold_upsert_Cons by blast
  have "c \<in> fst ` set t'" using rfold_upsert_keys [OF c(2)] by (auto simp: dom_update)
  then show ?case using Cons.IH [OF c(2)] c(1) by auto
qed simp

lemma update_append1: "k \<in> fst ` set d \<Longrightarrow> AList.update k v (d @ e) = AList.update k v d @ e"
  by (induction d) auto

lemma rfold_upsert_append:
  "upsert_key ` set metas \<subseteq> Some ` fst ` set t \<Longrightarrow> rfold upsert_pack metas t = Inr t' \<Longrightarrow>
    rfold upsert_pack metas (t @ e) = Inr (t' @ e)"
proof (induction metas arbitrary: t)
  case (Cons m metas)
  then obtain c where c: "upsert_key m = Some c" "rfold upsert_pack metas (AList.update c (upsert_row m) t) = Inr t'"
    unfolding rfold_upsert_Cons by blast
  have ct: "c \<in> fst ` set t" using Cons.prems(1) c(1) by auto
  then have "upsert_key ` set metas \<subseteq> Some ` fst ` set (AList.update c (upsert_row m) t)"
    using Cons.prems(1) by (auto simp: dom_update)
  from Cons.IH [OF this c(2)] show ?case
    unfolding rfold_upsert_Cons using c ct by (auto simp: update_append1)
qed simp

lemma rfold_upsert_idem: "rfold upsert_pack metas t = Inr t' \<Longrightarrow> rfold upsert_pack metas t' = Inr t'"
proof (induction metas arbitrary: t' rule: rev_induct)
  case (snoc m metas)
  obtain t1 where t1: "rfold upsert_pack metas t = Inr t1" "upsert_pack m t1 = Inr t'"
    using snoc.prems by (auto simp: rfold_append rbind_Inr_iff)
  obtain c where c: "upsert_key m = Some c" "t' = AList.update c (upsert_row m) t1"
    using t1(2) by (auto simp: upsert_pack_eq split: option.splits)
  note IH = snoc.IH [OF t1(1)]
  have "\<exists>t2. rfold upsert_pack metas t' = Inr t2 \<and> upsert_pack m t2 = Inr t'"
  proof (cases "c \<in> fst ` set t1")
    case True
    show ?thesis using upsert_after_update [OF True IH, of "upsert_row m"] c by (auto simp: upsert_pack_eq update_update)
  next
    case False
    have "rfold upsert_pack metas (t1 @ [(c, upsert_row m)]) = Inr (t1 @ [(c, upsert_row m)])"
      by (rule rfold_upsert_append [OF rfold_upsert_covers [OF t1(1)] IH])
    then show ?thesis using c update_fresh [OF False, of "upsert_row m"] update_update [of c "upsert_row m" "upsert_row m" t1]
      by (simp add: upsert_pack_eq)
  qed
  then show ?case by (auto simp: rfold_append)
qed simp

end
