(* ===== verification/Detect.thy ===== *)
theory Detect
  imports Packs Merge Openai_Schema Placeholders
begin

text \<open>
  Detection: \<open>app/redaction/presidio_ner.py\<close>, \<open>llm_ner.py\<close> and the orchestration of
  \<open>detect.py\<close>. Presidio's analyzer, the provider the LLM pass asks and \<open>json.loads\<close> are
  parameters; the passes run concurrently in the code and share no state, so their results are
  collected in the order of \<open>gather\<close>.
\<close>

section \<open>The Presidio pass\<close>

record presidio_result =
  ps_type :: pystr
  ps_start :: nat
  ps_end :: nat
  ps_score :: rat

type_synonym analyzer = "pystr \<Rightarrow> pystr \<Rightarrow> presidio_result list res"

definition TYPE_MAP :: "(pystr \<times> pystr) list" where
  "TYPE_MAP = map (\<lambda>(a, b). (str a, str b))
     [(''PERSON'', ''PERSON''), (''EMAIL_ADDRESS'', ''EMAIL''), (''PHONE_NUMBER'', ''PHONE''), (''CREDIT_CARD'', ''CREDIT_CARD''),
      (''IBAN_CODE'', ''IBAN''), (''LOCATION'', ''LOCATION''), (''ORGANIZATION'', ''ORG''), (''IP_ADDRESS'', ''IP_ADDRESS''),
      (''URL'', ''URL''), (''DATE_TIME'', ''DATE_TIME'')]"

fun presidio_spans :: "pystr \<Rightarrow> presidio_result list \<Rightarrow> entity_span list" where
  "presidio_spans s [] = []"
| "presidio_spans s (r # rs) =
     (case map_of TYPE_MAP (ps_type r) of
        None \<Rightarrow> presidio_spans s rs
      | Some mapped \<Rightarrow>
          if ps_end r \<le> ps_start r then presidio_spans s rs
          else \<lparr>sp_start = ps_start r, sp_end = ps_end r, sp_type = mapped, sp_text = slice s (ps_start r) (ps_end r),
                sp_score = ps_score r, sp_source = str ''presidio'', sp_jurisdiction = None\<rparr> # presidio_spans s rs)"

text \<open>\<open>PresidioDetector.__init__\<close> keeps no analyzer when importing or building it fails.\<close>

definition presidio_init :: "analyzer res \<Rightarrow> analyzer option" where
  "presidio_init engine = (case engine of Inl _ \<Rightarrow> None | Inr an \<Rightarrow> Some an)"

definition presidio_detect :: "analyzer option \<Rightarrow> pystr \<Rightarrow> pystr \<Rightarrow> entity_span list" where
  "presidio_detect engine s language =
     (case engine of
        None \<Rightarrow> []
      | Some analyze \<Rightarrow>
          if s = [] then []
          else (case analyze s language of Inl _ \<Rightarrow> [] | Inr results \<Rightarrow> presidio_spans s results))"

section \<open>The LLM pass\<close>

definition REQUESTED_TYPES :: "pystr list" where
  "REQUESTED_TYPES = sort (remdups (GENERIC_TYPES @ map str
     [''ADDRESS'', ''PASSPORT'', ''DRIVER_LICENSE'', ''NATIONAL_ID'', ''TAX_ID'', ''DATE_OF_BIRTH'', ''ACCOUNT_NUMBER'']))"

definition SYSTEM_PROMPT :: pystr where
  "SYSTEM_PROMPT =
     str ''You are a precise PII/financial entity extractor. Given a USER text, return ONLY a '' @
     str ''JSON object of the form {\"entities\": [{\"type\": <TYPE>, \"text\": <exact substring>}]}. '' @
     str ''Use these UPPER_SNAKE types when applicable: '' @ join_with (str '', '') REQUESTED_TYPES @ str ''. '' @
     str ''Copy each entity's text EXACTLY as it appears in the source (same casing/punctuation). '' @
     str ''Do not invent entities, do not include offsets, do not add commentary. '' @
     str ''If there are no entities, return {\"entities\": []}.''"

definition MAX_INPUT_CHARS :: nat where "MAX_INPUT_CHARS = 20000"

definition build_payload :: "pystr \<Rightarrow> dict" where
  "build_payload s =
     [(str ''model'', JStr []),
      (str ''messages'', JList
         [JDict [(str ''role'', JStr (str ''system'')), (str ''content'', JStr SYSTEM_PROMPT)],
          JDict [(str ''role'', JStr (str ''user'')), (str ''content'', JStr (take MAX_INPUT_CHARS s))]]),
      (str ''temperature'', JFloat 0), (str ''max_tokens'', JInt 1024),
      (str ''response_format'', JDict [(str ''type'', JStr (str ''json_object''))])]"

definition JSON_OBJ_RE :: re where
  "JSON_OBJ_RE = seqs [Chr CHR ''{'', star (Cls False True []), Chr CHR ''}'']"

definition strip_char :: "nat \<Rightarrow> pystr \<Rightarrow> pystr" where
  "strip_char c s = rev (dropWhile ((=) c) (rev (dropWhile ((=) c) s)))"

text \<open>\<open>s.split("\n", 1)[-1] if "\n" in s else s\<close>.\<close>

definition after_newline :: "pystr \<Rightarrow> pystr" where
  "after_newline s = (if 10 \<in> set s then tl (dropWhile (\<lambda>c. c \<noteq> 10) s) else s)"

definition caught_loads :: "exn \<Rightarrow> bool" where
  "caught_loads e \<longleftrightarrow> e = ValueError \<or> e = TypeError"

definition parse_entities :: "ucd \<Rightarrow> (pystr \<Rightarrow> json res) \<Rightarrow> pystr option \<Rightarrow> json list res" where
  "parse_entities u loads raw =
     (case raw of None \<Rightarrow> Inr [] | Some [] \<Rightarrow> Inr [] | Some r \<Rightarrow>
       let c1 = py_strip u r;
           candidate = (if startswith c1 (str ''```'') then after_newline (strip_char 96 c1) else c1);
           parsed = (case loads candidate of
               Inr data \<Rightarrow> Inr (Some data)
             | Inl e \<Rightarrow>
                 if \<not> caught_loads e then Inl e
                 else case re_search u JSON_OBJ_RE candidate of
                        None \<Rightarrow> Inr None
                      | Some m \<Rightarrow>
                          (case loads (m_group0 candidate m) of
                             Inr data \<Rightarrow> Inr (Some data)
                           | Inl e \<Rightarrow> if caught_loads e then Inr None else Inl e))
       in rbind parsed (\<lambda>d.
            rbind (case d of
                     Some (JList items) \<Rightarrow> Inr items
                   | Some (JDict data) \<Rightarrow>
                       (let a = dget data (str ''entities''); b = dget data (str ''results'') in
                        if truthy a then py_iter a else iter_or_empty b)
                   | _ \<Rightarrow> Inr []) (\<lambda>items.
              Inr (filter is_JDict items))))"

text \<open>\<open>s.find(v, i)\<close> for a non-empty \<open>v\<close>: the first occurrence at or after \<open>i\<close>.\<close>

fun find_off :: "pystr \<Rightarrow> pystr \<Rightarrow> nat option" where
  "find_off v [] = (if v = [] then Some 0 else None)"
| "find_off v (c # s) = (if startswith (c # s) v then Some 0 else map_option Suc (find_off v s))"

definition str_find :: "pystr \<Rightarrow> pystr \<Rightarrow> nat \<Rightarrow> nat option" where
  "str_find s v i = (if length s < i then None else map_option (\<lambda>k. i + k) (find_off v (drop i s)))"

definition claimed :: "(nat \<times> nat) list \<Rightarrow> nat \<Rightarrow> nat \<Rightarrow> bool" where
  "claimed used a b \<longleftrightarrow> (\<exists>(ua, ub)\<in>set used. a < ub \<and> ua < b)"

lemma find_off_bound: "find_off v s = Some k \<Longrightarrow> k \<le> length s"
  by (induction s arbitrary: k) (auto split: if_splits)

lemma str_find_bound: "str_find s v i = Some k \<Longrightarrow> i \<le> k \<and> k \<le> length s"
  using find_off_bound [of v "drop i s"] by (auto simp: str_find_def split: if_splits)

function anchor_at :: "pystr \<Rightarrow> pystr \<Rightarrow> (nat \<times> nat) list \<Rightarrow> nat \<Rightarrow> (nat \<times> nat) option" where
  "anchor_at s v used i =
     (case str_find s v i of
        None \<Rightarrow> None
      | Some idx \<Rightarrow>
          if claimed used idx (idx + length v) then anchor_at s v used (idx + 1) else Some (idx, idx + length v))"
  by pat_completeness auto

termination
proof (relation "measure (\<lambda>(s, v, used, i). Suc (length s) - i)")
  fix s v and used :: "(nat \<times> nat) list" and i idx
  assume "str_find s v i = Some idx"
  then show "((s, v, used, idx + 1), s, v, used, i) \<in> measure (\<lambda>(s, v, used, i). Suc (length s) - i)"
    using str_find_bound [of s v i idx] by auto
qed simp

declare anchor_at.simps [simp del]

text \<open>\<open>str.replace(" ", "_")\<close> and the normalized type of an item, when the item is usable.\<close>

definition item_value :: "ucd \<Rightarrow> json \<Rightarrow> (pystr \<times> pystr) option" where
  "item_value u it =
     (case it of
        JDict item \<Rightarrow>
          (let val = dget item (str ''text'');
               ty = (if truthy (dget item (str ''type'')) then dget item (str ''type'') else dget item (str ''entity_type'')) in
           case (val, ty) of
             (JStr x, JStr t) \<Rightarrow>
               (let norm_type = map (\<lambda>c. if c = 32 then 95 else c) (py_upper u (py_strip u t)) in
                if x = [] \<or> norm_type = [] then None else Some (x, norm_type))
           | _ \<Rightarrow> None)
      | _ \<Rightarrow> None)"

fun anchor_loop :: "ucd \<Rightarrow> pystr \<Rightarrow> json list \<Rightarrow> (nat \<times> nat) list \<Rightarrow> entity_span list \<Rightarrow> entity_span list" where
  "anchor_loop u s [] used spans = spans"
| "anchor_loop u s (item # items) used spans =
     (case item_value u item of
        None \<Rightarrow> anchor_loop u s items used spans
      | Some (val, norm_type) \<Rightarrow>
          (case anchor_at s val used 0 of
             None \<Rightarrow> anchor_loop u s items used spans
           | Some (a, b) \<Rightarrow>
               anchor_loop u s items (used @ [(a, b)])
                 (spans @ [\<lparr>sp_start = a, sp_end = b, sp_type = norm_type, sp_text = val, sp_score = 3 / 5,
                            sp_source = str ''llm'', sp_jurisdiction = None\<rparr>])))"

definition anchor_spans :: "ucd \<Rightarrow> pystr \<Rightarrow> json list \<Rightarrow> entity_span list" where
  "anchor_spans u s items = anchor_loop u s items [] []"

definition llm_ner :: "ucd \<Rightarrow> (pystr \<Rightarrow> json res) \<Rightarrow> (dict \<Rightarrow> json res) \<Rightarrow> pystr \<Rightarrow> entity_span list res" where
  "llm_ner u loads ask s =
     (if s = [] \<or> py_strip u s = [] then Inr []
      else case ask (build_payload s) of
             Inl _ \<Rightarrow> Inr []
           | Inr reply \<Rightarrow>
               rbind (parse_entities u loads (case extract_completion_text reply of JStr raw \<Rightarrow> Some raw | _ \<Rightarrow> None)) (\<lambda>items.
                 Inr (anchor_spans u s items)))"

section \<open>Orchestration\<close>

record detector =
  dt_ucd :: ucd
  dt_load_packs :: "(pystr list \<Rightarrow> pack list res) option"     \<comment> \<open>\<open>None\<close>: the import failed\<close>
  dt_enable_presidio :: bool
  dt_presidio :: "analyzer option"
  dt_enable_llm_ner :: bool
  dt_llm_ner :: "(pystr \<Rightarrow> entity_span list res) option"

fun detect_packs :: "ucd \<Rightarrow> pack list \<Rightarrow> pystr \<Rightarrow> entity_span list" where
  "detect_packs u [] s = []"
| "detect_packs u (pk # pks) s =
     (case pack_detect u pk s of Inl _ \<Rightarrow> [] | Inr spans \<Rightarrow> spans) @ detect_packs u pks s"

definition run_regex :: "detector \<Rightarrow> pystr \<Rightarrow> pystr list \<Rightarrow> entity_span list res" where
  "run_regex dt s pack_codes =
     (case dt_load_packs dt of
        None \<Rightarrow> Inr []
      | Some load \<Rightarrow>
          if pack_codes = [] then Inr []
          else rbind (load pack_codes) (\<lambda>packs. Inr (detect_packs (dt_ucd dt) packs s)))"

definition run_presidio :: "detector \<Rightarrow> pystr \<Rightarrow> pystr \<Rightarrow> entity_span list res" where
  "run_presidio dt s language = Inr (presidio_detect (dt_presidio dt) s language)"

definition run_llm :: "detector \<Rightarrow> pystr \<Rightarrow> entity_span list res" where
  "run_llm dt s = (case dt_llm_ner dt of None \<Rightarrow> Inr [] | Some ner \<Rightarrow> ner s)"

text \<open>The results of \<open>gather(..., return_exceptions=True)\<close>: a pass that raised contributes nothing.\<close>

fun collect_spans :: "entity_span list res list \<Rightarrow> entity_span list" where
  "collect_spans [] = []"
| "collect_spans (Inl _ # rs) = collect_spans rs"
| "collect_spans (Inr spans # rs) = spans @ collect_spans rs"

definition detect :: "detector \<Rightarrow> pystr list \<Rightarrow> pystr \<Rightarrow> pystr \<Rightarrow> detection_result" where
  "detect dt pack_codes language s =
     (if s = [] then \<lparr>dr_text = s, dr_spans = []\<rparr>
      else
        let results = [run_regex dt s pack_codes]
              @ (if dt_enable_presidio dt then [run_presidio dt s language] else [])
              @ (if dt_enable_llm_ner dt \<and> dt_llm_ner dt \<noteq> None then [run_llm dt s] else [])
        in \<lparr>dr_text = s, dr_spans = merge_spans (collect_spans results)\<rparr>)"

section \<open>What the passes report\<close>

lemma presidio_spans_wf:
  "\<forall>r\<in>set rs. ps_end r \<le> length s \<Longrightarrow>
    \<forall>x\<in>set (presidio_spans s rs). wf_span s x \<and> sp_type x \<in> snd ` set TYPE_MAP"
  by (induction rs) (auto simp: wf_span_def split: option.splits dest!: map_of_SomeD intro: rev_image_eqI)

lemma find_off_found: "find_off v s = Some k \<Longrightarrow> startswith (drop k s) v"
  by (induction s arbitrary: k) (auto simp: startswith_def split: if_splits)

lemma find_off_first: "find_off v s = Some k \<Longrightarrow> j < k \<Longrightarrow> \<not> startswith (drop j s) v"
proof (induction s arbitrary: j k)
  case (Cons c s)
  then obtain k' where k: "k = Suc k'" "find_off v s = Some k'" "\<not> startswith (c # s) v" by (auto split: if_splits)
  show ?case
  proof (cases j)
    case (Suc j')
    then show ?thesis using Cons.IH [OF k(2), of j'] Cons.prems(2) k(1) by simp
  qed (use k in simp)
qed (simp split: if_splits)

lemma str_find_spec:
  assumes "str_find s v i = Some k"
  shows "i \<le> k" "k + length v \<le> length s" "slice s k (k + length v) = v"
    "i \<le> j \<Longrightarrow> j < k \<Longrightarrow> \<not> startswith (drop j s) v"
proof -
  obtain m where m: "find_off v (drop i s) = Some m" "k = i + m" "i \<le> length s"
    using assms by (auto simp: str_find_def split: if_splits)
  have st: "take (length v) (drop k s) = v"
    using find_off_found [OF m(1)] m(2) by (simp add: startswith_def add.commute)
  have "min (length (drop k s)) (length v) = length v" using arg_cong [OF st, of length] by simp
  moreover have "k \<le> length s" using str_find_bound [OF assms] by simp
  ultimately show "k + length v \<le> length s" by (simp add: min_def split: if_splits)
  show "slice s k (k + length v) = v" using st by (simp add: slice_def)
  show "i \<le> k" using m(2) by simp
  show "i \<le> j \<Longrightarrow> j < k \<Longrightarrow> \<not> startswith (drop j s) v"
    using find_off_first [OF m(1), of "j - i"] m(2) by simp
qed

lemma anchor_at_spec:
  "anchor_at s v used i = Some (a, b) \<Longrightarrow>
    b = a + length v \<and> b \<le> length s \<and> slice s a b = v \<and> \<not> claimed used a b"
proof (induction s v used i rule: anchor_at.induct)
  case (1 s v used i)
  show ?case
  proof (cases "str_find s v i")
    case None
    then show ?thesis using "1.prems" by (simp add: anchor_at.simps [of s v used i])
  next
    case (Some idx)
    note f = str_find_spec [OF Some]
    show ?thesis
    proof (cases "claimed used idx (idx + length v)")
      case True
      then show ?thesis using "1.IH" [OF Some True] "1.prems" Some by (auto simp: anchor_at.simps [of s v used i])
    next
      case False
      then have "a = idx" "b = idx + length v" using "1.prems" Some by (simp_all add: anchor_at.simps [of s v used i])
      then show ?thesis using f(1-3) False by simp
    qed
  qed
qed

definition anchored :: "pystr \<Rightarrow> (nat \<times> nat) list \<Rightarrow> entity_span list \<Rightarrow> bool" where
  "anchored s used spans \<longleftrightarrow> used = map (\<lambda>x. (sp_start x, sp_end x)) spans \<and> (\<forall>x\<in>set spans. wf_span s x)
     \<and> sorted_wrt (\<lambda>x y. \<not> overlaps x y) spans"

lemma anchor_loop_spec:
  "anchored s used spans \<Longrightarrow> \<exists>new. anchor_loop u s items used spans = spans @ new
    \<and> anchored s (map (\<lambda>x. (sp_start x, sp_end x)) (spans @ new)) (spans @ new)
    \<and> (\<forall>x\<in>set new. \<exists>it\<in>set items. item_value u it = Some (sp_text x, sp_type x))"
proof (induction items arbitrary: used spans)
  case Nil
  then show ?case by (auto simp: anchored_def)
next
  case (Cons item items)
  show ?case
  proof (cases "case item_value u item of None \<Rightarrow> None | Some (v, ty) \<Rightarrow> anchor_at s v used 0")
    case None
    then have "anchor_loop u s (item # items) used spans = anchor_loop u s items used spans"
      by (auto split: option.splits)
    then show ?thesis using Cons.IH [OF Cons.prems] by fastforce
  next
    case (Some ab)
    then obtain v ty a b where v: "item_value u item = Some (v, ty)" "anchor_at s v used 0 = Some (a, b)"
      by (cases ab) (auto split: option.splits)
    let ?x = "\<lparr>sp_start = a, sp_end = b, sp_type = ty, sp_text = v, sp_score = 3 / 5, sp_source = str ''llm'', sp_jurisdiction = None\<rparr>"
    have "v \<noteq> []" using v(1) by (auto simp: item_value_def Let_def split: json.splits if_splits)
    then have x: "wf_span s ?x" "\<not> claimed used a b"
      using anchor_at_spec [OF v(2)] by (auto simp: wf_span_def)
    have "\<forall>y\<in>set spans. \<not> overlaps y ?x"
      using x(2) Cons.prems by (auto simp: claimed_def anchored_def overlaps_def)
    then have "anchored s (used @ [(a, b)]) (spans @ [?x])"
      using Cons.prems x(1) by (auto simp: anchored_def sorted_wrt_append)
    from Cons.IH [OF this] obtain new where new: "anchor_loop u s items (used @ [(a, b)]) (spans @ [?x]) = (spans @ [?x]) @ new"
      "anchored s (map (\<lambda>x. (sp_start x, sp_end x)) ((spans @ [?x]) @ new)) ((spans @ [?x]) @ new)"
      "\<forall>x\<in>set new. \<exists>it\<in>set items. item_value u it = Some (sp_text x, sp_type x)" by blast
    then show ?thesis using v by (intro exI [of _ "?x # new"]) auto
  qed
qed

lemma anchor_spans_spec:
  "anchored s (map (\<lambda>x. (sp_start x, sp_end x)) (anchor_spans u s items)) (anchor_spans u s items)
   \<and> (\<forall>x\<in>set (anchor_spans u s items). \<exists>it\<in>set items. item_value u it = Some (sp_text x, sp_type x))"
  using anchor_loop_spec [of s "[]" "[]" u items] by (auto simp: anchor_spans_def anchored_def)

lemma llm_ner_wf: "llm_ner u loads ask s = Inr spans \<Longrightarrow> \<forall>x\<in>set spans. wf_span s x"
proof -
  assume run: "llm_ner u loads ask s = Inr spans"
  then consider "spans = []" | items where "spans = anchor_spans u s items"
    by (auto simp: llm_ner_def rbind_Inr_iff split: if_splits sum.splits)
  then show ?thesis using anchor_spans_spec [of s u] by cases (auto simp: anchored_def)
qed

lemma detect_packs_wf:
  "\<forall>pk\<in>set pks. \<forall>pat\<in>set (pk_patterns pk). pattern_ok u pat \<Longrightarrow> \<forall>x\<in>set (detect_packs u pks s). wf_span s x"
proof (induction pks)
  case (Cons pk pks)
  show ?case
  proof (cases "pack_detect u pk s")
    case (Inr spans)
    then show ?thesis using Cons pack_detect_wf [OF _ Inr] by auto
  qed (use Cons in auto)
qed simp

lemma set_collect_spans: "x \<in> set (collect_spans rs) \<longleftrightarrow> (\<exists>spans. Inr spans \<in> set rs \<and> x \<in> set spans)"
  by (induction rs rule: collect_spans.induct) auto

text \<open>What a detector relies on: patterns that match something, offsets inside the text.\<close>

definition detector_wf :: "detector \<Rightarrow> pystr \<Rightarrow> bool" where
  "detector_wf dt s \<longleftrightarrow>
     (\<forall>load codes pks. dt_load_packs dt = Some load \<longrightarrow> load codes = Inr pks \<longrightarrow>
        (\<forall>pk\<in>set pks. \<forall>pat\<in>set (pk_patterns pk). pattern_ok (dt_ucd dt) pat)) \<and>
     (\<forall>analyze lg rs. dt_presidio dt = Some analyze \<longrightarrow> analyze s lg = Inr rs \<longrightarrow> (\<forall>r\<in>set rs. ps_end r \<le> length s)) \<and>
     (\<forall>ner spans. dt_llm_ner dt = Some ner \<longrightarrow> ner s = Inr spans \<longrightarrow> (\<exists>loads ask. ner s = llm_ner (dt_ucd dt) loads ask s))"

lemma passes_wf:
  assumes "detector_wf dt s"
  shows "run_regex dt s codes = Inr spans \<Longrightarrow> \<forall>x\<in>set spans. wf_span s x"
    and "run_presidio dt s lg = Inr spans \<Longrightarrow> \<forall>x\<in>set spans. wf_span s x"
    and "run_llm dt s = Inr spans \<Longrightarrow> \<forall>x\<in>set spans. wf_span s x"
proof -
  show "\<forall>x\<in>set spans. wf_span s x" if run: "run_regex dt s codes = Inr spans"
  proof (cases "spans = []")
    case False
    then obtain load pks where "dt_load_packs dt = Some load" "load codes = Inr pks" "spans = detect_packs (dt_ucd dt) pks s"
      using run by (auto simp: run_regex_def rbind_Inr_iff split: option.splits if_splits)
    then show ?thesis using assms detect_packs_wf [of pks "dt_ucd dt" s] unfolding detector_wf_def by blast
  qed simp
  show "\<forall>x\<in>set spans. wf_span s x" if run: "run_presidio dt s lg = Inr spans"
  proof (cases "spans = []")
    case False
    then obtain an rs where "dt_presidio dt = Some an" "an s lg = Inr rs" "spans = presidio_spans s rs"
      using run by (auto simp: run_presidio_def presidio_detect_def split: option.splits if_splits sum.splits)
    then show ?thesis using assms presidio_spans_wf [of rs s] unfolding detector_wf_def by blast
  qed simp
  show "\<forall>x\<in>set spans. wf_span s x" if run: "run_llm dt s = Inr spans"
  proof (cases "dt_llm_ner dt")
    case (Some ner)
    then have "ner s = Inr spans" using run by (simp add: run_llm_def)
    then obtain loads ask where "llm_ner (dt_ucd dt) loads ask s = Inr spans"
      using assms Some unfolding detector_wf_def by metis
    then show ?thesis by (rule llm_ner_wf)
  qed (use run in \<open>simp add: run_llm_def\<close>)
qed

section \<open>Properties\<close>

text \<open>What the enabled passes report: a pass that raises reports nothing.\<close>

definition reported :: "detector \<Rightarrow> pystr list \<Rightarrow> pystr \<Rightarrow> pystr \<Rightarrow> entity_span set" where
  "reported dt codes lg s =
     {x. \<exists>spans. x \<in> set spans \<and>
        (run_regex dt s codes = Inr spans \<or> dt_enable_presidio dt \<and> run_presidio dt s lg = Inr spans
          \<or> dt_enable_llm_ner dt \<and> run_llm dt s = Inr spans)}"

lemma reported_wf: "detector_wf dt s \<Longrightarrow> x \<in> reported dt codes lg s \<Longrightarrow> wf_span s x"
  using passes_wf [of dt s] unfolding reported_def by blast

lemma detect_reported:
  assumes "detector_wf dt s"
  shows "\<exists>cs. set cs = reported dt codes lg s \<and> dr_spans (detect dt codes lg s) = merge_spans cs"
proof (cases "s = []")
  case True
  have "x \<notin> reported dt codes lg s" for x using reported_wf [OF assms, of x codes lg] True by (auto simp: wf_span_def)
  then have "set [] = reported dt codes lg s" by auto
  then show ?thesis using True by (intro exI [of _ "[]"]) (simp add: detect_def)
next
  case False
  define rs where "rs = [run_regex dt s codes] @ (if dt_enable_presidio dt then [run_presidio dt s lg] else [])
      @ (if dt_enable_llm_ner dt \<and> dt_llm_ner dt \<noteq> None then [run_llm dt s] else [])"
  have none: "dt_llm_ner dt = None \<Longrightarrow> run_llm dt s = Inr spans \<Longrightarrow> spans = []" for spans by (simp add: run_llm_def)
  have "Inr spans \<in> set rs \<or> spans = [] \<longleftrightarrow> (run_regex dt s codes = Inr spans \<or> dt_enable_presidio dt \<and> run_presidio dt s lg = Inr spans
      \<or> dt_enable_llm_ner dt \<and> run_llm dt s = Inr spans) \<or> spans = []" for spans
    using none [of spans] by (auto simp: rs_def eq_commute [of "Inr spans"])
  then have "(\<exists>spans. Inr spans \<in> set rs \<and> x \<in> set spans) \<longleftrightarrow> x \<in> reported dt codes lg s" for x
    unfolding reported_def mem_Collect_eq by (metis empty_iff empty_set)
  then have "set (collect_spans rs) = reported dt codes lg s" by (simp add: set_eq_iff set_collect_spans)
  moreover have "dr_spans (detect dt codes lg s) = merge_spans (collect_spans rs)"
    using False by (simp add: detect_def rs_def Let_def)
  ultimately show ?thesis by blast
qed

text \<open>C14. Detection returns a result whatever the passes do, and its spans are what the vault
  needs: taken from what the enabled passes report, inside the text, each with the text it covers, in order and
  disjoint. A reported span is missing only if another reported span overlaps it and ranks at least as high, and
  where anything is reported something is returned.\<close>

theorem detect_sound:
  assumes "detector_wf dt s"
  shows "set (dr_spans (detect dt codes lg s)) \<subseteq> reported dt codes lg s
    \<and> (\<forall>x\<in>set (dr_spans (detect dt codes lg s)). wf_span s x)
    \<and> sorted_wrt (\<lambda>a b. sp_end a \<le> sp_start b) (dr_spans (detect dt codes lg s))
    \<and> (\<forall>x\<in>reported dt codes lg s. x \<in> set (dr_spans (detect dt codes lg s)) \<or>
         (\<exists>y\<in>reported dt codes lg s. y \<noteq> x \<and> overlaps y x \<and> span_key x \<le> span_key y))
    \<and> (reported dt codes lg s \<noteq> {} \<longrightarrow> dr_spans (detect dt codes lg s) \<noteq> [])"
proof -
  obtain cs where cs: "set cs = reported dt codes lg s" "dr_spans (detect dt codes lg s) = merge_spans cs"
    using detect_reported [OF assms] by blast
  have wf: "\<forall>x\<in>set cs. wf_span s x" using reported_wf [OF assms] cs(1) by blast
  then have ne: "\<forall>x\<in>set cs. sp_start x < sp_end x" by (simp add: wf_span_def)
  have "reported dt codes lg s \<noteq> {} \<longrightarrow> merge_spans cs \<noteq> []" using merge_spans_not_Nil [OF ne] cs(1) by (metis empty_set)
  then show ?thesis
    using merge_spans_subset [OF ne] merge_spans_wf [OF wf] merge_spans_chained [OF ne] merge_spans_lost [OF ne]
    unfolding cs(2) cs(1) [symmetric] lost_to_def by blast
qed

text \<open>C15. The LLM pass anchors every entity it keeps at a place of the source that spells it,
  no two of them overlapping.\<close>

theorem llm_ner_anchored:
  assumes "llm_ner u loads ask s = Inr spans"
  shows "(\<forall>x\<in>set spans. sp_start x < sp_end x \<and> sp_end x \<le> length s \<and> slice s (sp_start x) (sp_end x) = sp_text x)
    \<and> (\<forall>i<length spans. \<forall>j<length spans. i \<noteq> j \<longrightarrow> \<not> overlaps (spans ! i) (spans ! j))"
proof -
  consider "spans = []" | items where "spans = anchor_spans u s items"
    using assms by (auto simp: llm_ner_def rbind_Inr_iff split: if_splits sum.splits)
  then have "(\<forall>x\<in>set spans. wf_span s x) \<and> sorted_wrt (\<lambda>x y. \<not> overlaps x y) spans"
    using anchor_spans_spec [of s u] by cases (auto simp: anchored_def)
  then show ?thesis
    by (auto simp: wf_span_def sorted_wrt_iff_nth_less) (metis linorder_neqE_nat overlaps_sym)
qed

text \<open>When loading the packs raises (one unreadable pack file is enough), the regex pass
  contributes nothing: the text is treated as if no pack had been configured.\<close>

lemma regex_pass_fails_open:
  assumes "dt_load_packs dt = Some load" "load codes = Inl e"
  shows "detect dt codes lg s = detect dt [] lg s"
  using assms by (cases "codes = []") (simp_all add: detect_def run_regex_def Let_def)

text \<open>The type the model names is used as it is: an entity typed \<open>TAX-ID\<close> is tokenized under a
  placeholder that the grammar does not recognize, so it can never be restored.\<close>

lemma llm_type_unrestorable:
  "map sp_type (anchor_spans ascii_ucd (str ''id 77'') [JDict [(str ''type'', JStr (str ''tax-id'')), (str ''text'', JStr (str ''77''))]])
     = [str ''TAX-ID'']
   \<and> find_placeholders ascii_ucd (make_placeholder (str ''TAX-ID'') (str ''0a1b2c'')) = []"
  by code_simp

section \<open>Witnesses\<close>

definition sin_pattern :: compiled_pattern where
  "sin_pattern = \<lparr>cp_type = str ''SIN'', cp_regex = Rep True (Cls False False [CDigit]) 9 (Some 9), cp_groups = [],
     cp_validator = None, cp_validator_name = JNull, cp_description = JNull\<rparr>"

definition sin_detector :: detector where
  "sin_detector = \<lparr>dt_ucd = ascii_ucd,
     dt_load_packs = Some (\<lambda>codes. if codes = [str ''CA''] then Inr [\<lparr>pk_code = str ''CA'', pk_name = str ''Canada'', pk_entity_types = [str ''SIN''],
        pk_patterns = [sin_pattern], pk_version = str ''1.0.0'', pk_raw_patterns = []\<rparr>] else Inl ValueError),
     dt_enable_presidio = False, dt_presidio = None, dt_enable_llm_ner = False, dt_llm_ner = None\<rparr>"

lemma sin_detector_wf: "detector_wf sin_detector s"
proof -
  have "pattern_ok ascii_ucd sin_pattern"
    unfolding pattern_ok_def
  proof (intro allI ballI)
    fix s m assume m: "m \<in> set (finditer ascii_ucd (cp_regex sin_pattern) s)"
    have "never_empty ascii_ucd (cp_regex sin_pattern)"
      by (simp add: never_empty_def sin_pattern_def numeral_eq_Suc)
    from finditer_never_empty [OF this m] show "fst (pattern_value sin_pattern m) \<noteq> snd (pattern_value sin_pattern m)"
      by (simp add: pattern_value_def sin_pattern_def)
  qed
  then show ?thesis by (auto simp: detector_wf_def sin_detector_def split: if_splits)
qed

theorem detect_sound_witness:
  "map sp_text (dr_spans (detect sin_detector [str ''CA''] (str ''en'') (str ''SIN 130692544.''))) = [str ''130692544'']
   \<and> list_all (wf_span (str ''SIN 130692544.'')) (dr_spans (detect sin_detector [str ''CA''] (str ''en'') (str ''SIN 130692544.'')))
   \<and> reported sin_detector [str ''CA''] (str ''en'') (str ''SIN 130692544.'') \<noteq> {}"
proof -
  let ?s = "str ''SIN 130692544.''" and ?c = "[str ''CA'']" and ?l = "str ''en''"
  have texts: "map sp_text (dr_spans (detect sin_detector ?c ?l ?s)) = [str ''130692544'']" by code_simp
  note sound = detect_sound [of sin_detector ?s ?c ?l, OF sin_detector_wf]
  have "dr_spans (detect sin_detector ?c ?l ?s) \<noteq> []" using texts by force
  then have "reported sin_detector ?c ?l ?s \<noteq> {}" using sound [THEN conjunct1] by (metis set_empty subset_empty)
  with texts sound [THEN conjunct2, THEN conjunct1] show ?thesis unfolding list_all_iff by (intro conjI)
qed

definition ann_loads :: "pystr \<Rightarrow> json res" where
  "ann_loads _ = Inr (JList [JDict [(str ''type'', JStr (str ''PERSON'')), (str ''text'', JStr (str ''Ann''))]])"

definition ann_ask :: "dict \<Rightarrow> json res" where
  "ann_ask _ = Inr (JDict [(str ''choices'', JList [JDict [(str ''message'', JDict [(str ''content'', JStr (str ''x''))])]])])"

theorem llm_ner_anchored_witness:
  "\<exists>spans. llm_ner ascii_ucd ann_loads ann_ask (str ''Hi Ann'') = Inr spans
    \<and> map sp_start spans = [3] \<and> list_all (\<lambda>x. slice (str ''Hi Ann'') (sp_start x) (sp_end x) = sp_text x) spans"
proof -
  have "(case llm_ner ascii_ucd ann_loads ann_ask (str ''Hi Ann'') of Inr spans \<Rightarrow> map sp_start spans = [3] | Inl _ \<Rightarrow> False)" by code_simp
  then obtain spans where *: "llm_ner ascii_ucd ann_loads ann_ask (str ''Hi Ann'') = Inr spans" "map sp_start spans = [3]"
    by (cases "llm_ner ascii_ucd ann_loads ann_ask (str ''Hi Ann'')") simp_all
  then show ?thesis using llm_ner_anchored [OF *(1)] by (simp add: list_all_iff)
qed

end
