(* ===== verification/Json_Text.thy ===== *)
theory Json_Text
  imports Json Utf8 "HOL-Library.List_Lexorder"
begin

text \<open>
  \<open>json.dumps\<close> as the code calls it: \<open>ensure_ascii\<close> on, with the item and key separators as
  arguments and keys sorted or not. The \<open>repr\<close> of a float is a parameter.
\<close>

definition hexd :: "nat \<Rightarrow> nat" where
  "hexd d = (if d < 10 then 48 + d else 87 + d)"

definition u_escape :: "nat \<Rightarrow> pystr" where
  "u_escape n = [92, 117, hexd (n div 4096 mod 16), hexd (n div 256 mod 16), hexd (n div 16 mod 16), hexd (n mod 16)]"

definition escape :: "nat \<Rightarrow> pystr" where
  "escape c =
     (if c = 34 \<or> c = 92 then [92, c]
      else if 32 \<le> c \<and> c \<le> 126 then [c]
      else if c = 10 then [92, 110]
      else if c = 13 then [92, 114]
      else if c = 9 then [92, 116]
      else if c = 12 then [92, 102]
      else if c = 8 then [92, 98]
      else if c < 65536 then u_escape c
      else u_escape (55296 + (c - 65536) div 1024) @ u_escape (56320 + (c - 65536) mod 1024))"

definition dump_str :: "pystr \<Rightarrow> pystr" where
  "dump_str s = 34 # concat (map escape s) @ [34]"

record dump_style =
  ds_item_sep :: pystr
  ds_key_sep :: pystr
  ds_sort_keys :: bool

definition default_style :: dump_style where
  "default_style = \<lparr>ds_item_sep = str '', '', ds_key_sep = str '': '', ds_sort_keys = False\<rparr>"

fun dumps :: "(rat \<Rightarrow> pystr) \<Rightarrow> dump_style \<Rightarrow> json \<Rightarrow> pystr" where
  "dumps fl st JNull = str ''null''"
| "dumps fl st (JBool b) = (if b then str ''true'' else str ''false'')"
| "dumps fl st (JInt i) = str_int i"
| "dumps fl st (JFloat r) = fl r"
| "dumps fl st (JStr s) = dump_str s"
| "dumps fl st (JList xs) = 91 # join_with (ds_item_sep st) (map (dumps fl st) xs) @ [93]"
| "dumps fl st (JDict d) =
     (let items = map (\<lambda>(k, v). (k, dumps fl st v)) d;
          items = (if ds_sort_keys st then sort_key fst items else items)
      in 123 # join_with (ds_item_sep st) (map (\<lambda>(k, e). dump_str k @ ds_key_sep st @ e) items) @ [125])"

section \<open>Strings are encoded without ambiguity\<close>

lemma hexd_inj: "a < 16 \<Longrightarrow> b < 16 \<Longrightarrow> hexd a = hexd b \<Longrightarrow> a = b"
  by (auto simp: hexd_def split: if_splits)

lemma u_escape_inj: "m < 65536 \<Longrightarrow> n < 65536 \<Longrightarrow> u_escape m = u_escape n \<Longrightarrow> m = n"
proof -
  assume lt: "m < 65536" "n < 65536" and eq: "u_escape m = u_escape n"
  have d: "m div 4096 mod 16 = n div 4096 mod 16" "m div 256 mod 16 = n div 256 mod 16"
    "m div 16 mod 16 = n div 16 mod 16" "m mod 16 = n mod 16"
    using eq hexd_inj by (auto simp: u_escape_def)
  have dec: "k = ((k div 4096 mod 16 * 16 + k div 256 mod 16) * 16 + k div 16 mod 16) * 16 + k mod 16" if "k < 65536" for k :: nat
  proof -
    have "k div 4096 < 16" using that by simp
    then have "k div 4096 mod 16 = k div 4096" by simp
    moreover have "k div 256 = k div 4096 * 16 + k div 256 mod 16"
      using div_mult2_eq [of k 256 16] div_mult_mod_eq [of "k div 256" 16] by simp
    moreover have "k div 16 = k div 256 * 16 + k div 16 mod 16"
      using div_mult2_eq [of k 16 16] div_mult_mod_eq [of "k div 16" 16] by simp
    moreover have "k = k div 16 * 16 + k mod 16" by simp
    ultimately show ?thesis by presburger
  qed
  have "m = ((n div 4096 mod 16 * 16 + n div 256 mod 16) * 16 + n div 16 mod 16) * 16 + n mod 16"
    using dec [OF lt(1)] unfolding d .
  then show "m = n" by (rule trans [OF _ dec [OF lt(2), symmetric]])
qed

text \<open>A character that a string can hold besides a lone surrogate.\<close>

definition scalar :: "nat \<Rightarrow> bool" where
  "scalar c \<longleftrightarrow> c < 1114112 \<and> \<not> surrogate c"

lemma hexd_ne: "d < 16 \<Longrightarrow> hexd d \<noteq> 34 \<and> hexd d \<noteq> 92"
  by (auto simp: hexd_def)

lemma u_escape_append_inj:
  "m < 65536 \<Longrightarrow> n < 65536 \<Longrightarrow> u_escape m @ x = u_escape n @ y \<longleftrightarrow> m = n \<and> x = y"
  using u_escape_inj [of m n] by (auto simp: u_escape_def)

lemma escape_cases:
  assumes "scalar c"
  obtains (plain) "escape c = [c]" "c \<noteq> 34" "c \<noteq> 92"
  | (short) d where "escape c = [92, d]" "d \<noteq> 117" "(c, d) \<in> {(34, 34), (92, 92), (10, 110), (13, 114), (9, 116), (12, 102), (8, 98)}"
  | (bmp) "escape c = u_escape c" "c < 55296 \<or> 57344 \<le> c" "c < 65536"
  | (pair) h l where "escape c = u_escape h @ u_escape l" "55296 \<le> h" "h < 56320" "l < 65536"
      "c = 65536 + (h - 55296) * 1024 + (l - 56320)"
proof -
  consider "c = 34 \<or> c = 92" | "32 \<le> c" "c \<le> 126" "c \<noteq> 34" "c \<noteq> 92" | "c = 10" | "c = 13" | "c = 9" | "c = 12" | "c = 8"
    | "\<not> (32 \<le> c \<and> c \<le> 126)" "c \<noteq> 10" "c \<noteq> 13" "c \<noteq> 9" "c \<noteq> 12" "c \<noteq> 8" "c < 65536"
    | "65536 \<le> c" by linarith
  then show ?thesis
  proof cases
    case 8
    then have "escape c = u_escape c" by (auto simp: escape_def)
    moreover have "c < 55296 \<or> 57344 \<le> c" using assms by (auto simp: scalar_def surrogate_def)
    ultimately show ?thesis using bmp 8 by blast
  next
    case 9
    define a where "a = c - 65536"
    have a: "a < 1048576" "c = 65536 + a" using 9 assms by (auto simp: a_def scalar_def)
    have e: "escape c = u_escape (55296 + a div 1024) @ u_escape (56320 + a mod 1024)" using 9 by (simp add: escape_def a_def)
    have "a div 1024 < 1024" using a(1) by (simp add: less_mult_imp_div_less)
    moreover have "a mod 1024 < 1024" by simp
    ultimately show ?thesis using pair [OF e] a(2) by simp
  qed (use plain short in \<open>auto simp: escape_def\<close>)
qed

lemma escape_inj:
  assumes "scalar c" "scalar d" "escape c @ x = escape d @ y"
  shows "c = d \<and> x = y"
  using assms(1)
proof (cases rule: escape_cases)
  case c: plain
  show ?thesis using assms(2)
    by (cases rule: escape_cases) (use c assms(3) in \<open>auto simp: u_escape_def\<close>)
next
  case c: (short a)
  show ?thesis using assms(2)
    by (cases rule: escape_cases) (use c assms(3) in \<open>auto simp: u_escape_def\<close>)
next
  case c: bmp
  show ?thesis using assms(2)
  proof (cases rule: escape_cases)
    case d: bmp
    then show ?thesis using c assms(3) u_escape_append_inj by simp
  next
    case d: (pair h l)
    then have "c = h" using c assms(3) u_escape_append_inj [of c h x "u_escape l @ y"] by simp
    then show ?thesis using c d by simp
  qed (use c assms(3) in \<open>auto simp: u_escape_def\<close>)
next
  case c: (pair h l)
  show ?thesis using assms(2)
  proof (cases rule: escape_cases)
    case d: bmp
    then have "h = d" using c assms(3) u_escape_append_inj [of h d "u_escape l @ x" y] by simp
    then show ?thesis using c d by simp
  next
    case d: (pair h' l')
    then have "h = h'" "l = l' \<and> x = y"
      using c assms(3) u_escape_append_inj [of h h' "u_escape l @ x" "u_escape l' @ y"] u_escape_append_inj [of l l' x y] by simp_all
    then show ?thesis using c d by simp
  qed (use c assms(3) in \<open>auto simp: u_escape_def\<close>)
qed

lemma u_escape_head: "u_escape n \<noteq> []" "hd (u_escape n) = 92"
  by (simp_all add: u_escape_def)

lemma escape_head: "escape c \<noteq> [] \<and> hd (escape c) \<noteq> 34"
proof (cases "32 \<le> c \<and> c \<le> 126 \<or> c \<in> {10, 13, 9, 12, 8}")
  case True
  then show ?thesis by (auto simp: escape_def)
next
  case False
  define h l where "h = 55296 + (c - 65536) div 1024" and "l = 56320 + (c - 65536) mod 1024"
  have "escape c = (if c < 65536 then u_escape c else u_escape h @ u_escape l)"
    using False unfolding escape_def h_def l_def by auto
  then show ?thesis by (simp add: u_escape_head)
qed

lemma escapes_inj:
  "list_all scalar s \<Longrightarrow> list_all scalar t \<Longrightarrow> concat (map escape s) @ 34 # x = concat (map escape t) @ 34 # y \<Longrightarrow> s = t \<and> x = y"
proof (induction s arbitrary: t)
  case Nil
  show ?case
  proof (cases t)
    case (Cons d t')
    then show ?thesis using Nil.prems(3) escape_head [of d] by (cases "escape d") auto
  qed (use Nil in simp)
next
  case (Cons c s)
  show ?case
  proof (cases t)
    case Nil
    then show ?thesis using Cons.prems(3) escape_head [of c] by (cases "escape c") auto
  next
    case (Cons d t')
    then have "escape c @ concat (map escape s) @ 34 # x = escape d @ concat (map escape t') @ 34 # y"
      using Cons.prems(3) by simp
    then have "c = d" "concat (map escape s) @ 34 # x = concat (map escape t') @ 34 # y"
      using escape_inj [of c d] Cons.prems(1,2) local.Cons by auto
    then show ?thesis using Cons.IH [of t'] Cons.prems(1,2) local.Cons by simp
  qed
qed

lemma dump_str_inj:
  assumes "list_all scalar s" "list_all scalar t" "dump_str s @ x = dump_str t @ y"
  shows "s = t \<and> x = y"
proof (rule escapes_inj [OF assms(1,2)])
  show "concat (map escape s) @ 34 # x = concat (map escape t) @ 34 # y"
    using assms(3) unfolding dump_str_def by simp
qed

lemma dump_str_ascii: "list_all scalar s \<Longrightarrow> list_all (\<lambda>c. c < 128) (dump_str s)"
proof -
  have "hexd (n mod 16) < 128" for n
  proof -
    have "n mod 16 \<le> 15" using mod_less_divisor [of 16 n] by linarith
    then show ?thesis by (simp add: hexd_def)
  qed
  then have "list_all (\<lambda>c. c < 128) (u_escape n)" for n by (simp add: u_escape_def)
  then have "list_all (\<lambda>c. c < 128) (escape c)" for c by (simp add: escape_def)
  then show ?thesis by (simp add: dump_str_def list_all_iff)
qed

section \<open>Values are encoded without ambiguity\<close>

text \<open>
  The compact form \<open>separators=(",", ":")\<close> of a value without floats can be told from what
  follows it, when that is nothing or a delimiter.
\<close>

definition compact_style :: "bool \<Rightarrow> dump_style" where
  "compact_style srt = \<lparr>ds_item_sep = [44], ds_key_sep = [58], ds_sort_keys = srt\<rparr>"

lemma compact_style_fields [simp]:
  "ds_item_sep (compact_style b) = [44]" "ds_key_sep (compact_style b) = [58]" "ds_sort_keys (compact_style b) = b"
  by (simp_all add: compact_style_def)

abbreviation enc :: "(rat \<Rightarrow> pystr) \<Rightarrow> json \<Rightarrow> pystr" where
  "enc fl \<equiv> dumps fl (compact_style False)"

definition delim :: "pystr \<Rightarrow> bool" where
  "delim x \<longleftrightarrow> x = [] \<or> hd x = 44 \<or> hd x = 93 \<or> hd x = 125"

primrec plain_json :: "json \<Rightarrow> bool" where
  "plain_json JNull = True"
| "plain_json (JBool b) = True"
| "plain_json (JInt i) = True"
| "plain_json (JFloat r) = False"
| "plain_json (JStr s) = list_all scalar s"
| "plain_json (JList xs) = list_all id (map plain_json xs)"
| "plain_json (JDict d) = list_all (\<lambda>(k, p). list_all scalar k \<and> p) (map (map_prod id plain_json) d)"

lemma plain_JList: "plain_json (JList xs) \<longleftrightarrow> (\<forall>x\<in>set xs. plain_json x)"
  and plain_JDict: "plain_json (JDict d) \<longleftrightarrow> (\<forall>(k, v)\<in>set d. list_all scalar k \<and> plain_json v)"
  by (auto simp: list_all_iff)

declare plain_json.simps(6,7) [simp del]

lemma str_int_chars: "c \<in> set (str_int i) \<Longrightarrow> c = 45 \<or> 48 \<le> c \<and> c \<le> 57"
  by (auto simp: str_int_def dest: str_nat_digits split: if_splits)

lemma str_int_ne: "str_int i \<noteq> []"
  by (simp add: str_int_def)

lemma str_int_delim:
  assumes "delim x" "delim y" "str_int i @ x = str_int j @ y"
  shows "i = j \<and> x = y"
proof -
  let ?P = "\<lambda>c. c = 45 \<or> 48 \<le> c \<and> c \<le> (57 :: nat)"
  have tw: "takeWhile ?P (str_int k @ z) = str_int k" if "delim z" for k z
  proof -
    have "takeWhile ?P (str_int k @ z) = str_int k @ takeWhile ?P z"
      by (rule takeWhile_append2) (use str_int_chars in auto)
    moreover have "takeWhile ?P z = []" using that by (cases z) (auto simp: delim_def)
    ultimately show ?thesis by simp
  qed
  have "str_int i = str_int j" using tw [OF assms(1), of i] tw [OF assms(2), of j] assms(3) by simp
  then show ?thesis using assms(3) str_int_inj by simp
qed

lemma join_with_concat: "join_with [44] (w # ws) = w @ concat (map (\<lambda>v. 44 # v) ws)"
  by (induction ws arbitrary: w) simp_all

lemma tail_inj:
  assumes step: "\<And>a b x y. a \<in> set xs \<Longrightarrow> P b \<Longrightarrow> delim x \<Longrightarrow> delim y \<Longrightarrow> f a @ x = f b @ y \<Longrightarrow> a = b \<and> x = y"
    and close: "close = 93 \<or> close = 125"
  shows "list_all P ys \<Longrightarrow>
    concat (map (\<lambda>v. 44 # v) (map f xs)) @ close # x = concat (map (\<lambda>v. 44 # v) (map f ys)) @ close # y \<Longrightarrow> xs = ys \<and> x = y"
  using step
proof (induction xs arbitrary: ys)
  case Nil
  then show ?case using close by (cases ys) auto
next
  case (Cons a xs)
  obtain b ys' where ys: "ys = b # ys'" using Cons.prems(2) close by (cases ys) auto
  have d: "delim (concat (map (\<lambda>v. 44 # v) (map f zs)) @ close # z)" for zs z
    using close by (cases zs) (auto simp: delim_def)
  have "f a @ concat (map (\<lambda>v. 44 # v) (map f xs)) @ close # x = f b @ concat (map (\<lambda>v. 44 # v) (map f ys')) @ close # y"
    using Cons.prems(2) ys by simp
  from Cons.prems(3) [OF _ _ d d this] have "a = b"
    "concat (map (\<lambda>v. 44 # v) (map f xs)) @ close # x = concat (map (\<lambda>v. 44 # v) (map f ys')) @ close # y"
    using Cons.prems(1) ys by auto
  then show ?case using Cons.IH [of ys'] Cons.prems(1,3) ys by auto
qed

lemma join_inj:
  assumes step: "\<And>a b x y. a \<in> set xs \<Longrightarrow> P b \<Longrightarrow> delim x \<Longrightarrow> delim y \<Longrightarrow> f a @ x = f b @ y \<Longrightarrow> a = b \<and> x = y"
    and head: "\<And>a. a \<in> set xs \<or> P a \<Longrightarrow> f a \<noteq> [] \<and> hd (f a) \<noteq> close"
    and close: "close = 93 \<or> close = 125"
    and P: "list_all P ys" and eq: "join_with [44] (map f xs) @ close # x = join_with [44] (map f ys) @ close # y"
  shows "xs = ys \<and> x = y"
proof (cases xs)
  case Nil
  show ?thesis
  proof (cases ys)
    case (Cons b ys')
    then show ?thesis using eq Nil P head [of b] by (cases "f b") (auto simp: join_with_concat)
  qed (use eq Nil in simp)
next
  case xs: (Cons a xs')
  show ?thesis
  proof (cases ys)
    case Nil
    then show ?thesis using eq xs head [of a] by (cases "f a") (auto simp: join_with_concat)
  next
    case ys: (Cons b ys')
    have "concat (map (\<lambda>v. 44 # v) (map f xs)) @ close # x = concat (map (\<lambda>v. 44 # v) (map f ys)) @ close # y"
      using eq xs ys by (simp add: join_with_concat)
    from tail_inj [OF step close P this] show ?thesis .
  qed
qed

fun kind :: "json \<Rightarrow> nat" where
  "kind JNull = 0" | "kind (JBool b) = (if b then 1 else 2)" | "kind (JInt i) = 3" | "kind (JFloat r) = 4"
| "kind (JStr s) = 5" | "kind (JList xs) = 6" | "kind (JDict d) = 7"

definition kind_of_char :: "nat \<Rightarrow> nat" where
  "kind_of_char c = (if c = 110 then 0 else if c = 116 then 1 else if c = 102 then 2 else if c = 34 then 5
     else if c = 91 then 6 else if c = 123 then 7 else 3)"

lemma enc_head: "plain_json a \<Longrightarrow> enc fl a \<noteq> [] \<and> hd (enc fl a) \<noteq> 93 \<and> hd (enc fl a) \<noteq> 125 \<and> kind_of_char (hd (enc fl a)) = kind a"
proof (cases a)
  case (JInt i)
  have "hd (str_int i) = 45 \<or> 48 \<le> hd (str_int i) \<and> hd (str_int i) \<le> 57"
    using str_int_chars [OF hd_in_set [OF str_int_ne [of i]]] .
  then show ?thesis using JInt str_int_ne [of i] by (auto simp: kind_of_char_def)
qed (auto simp: kind_of_char_def dump_str_def str_def Let_def)

lemma enc_JDict: "dumps fl (compact_style b) (JDict c) =
    123 # join_with [44] (map (\<lambda>(k, e). dump_str k @ 58 # e)
      (if b then sort_key fst (map (map_prod id (dumps fl (compact_style b))) c) else map (map_prod id (dumps fl (compact_style b))) c)) @ [125]"
proof -
  have *: "(\<lambda>(k, v). (k, dumps fl (compact_style b) v)) = map_prod id (dumps fl (compact_style b))" by auto
  show ?thesis unfolding dumps.simps(7) * Let_def by simp
qed

lemma enc_inj:
  "plain_json a \<Longrightarrow> plain_json b \<Longrightarrow> delim x \<Longrightarrow> delim y \<Longrightarrow> enc fl a @ x = enc fl b @ y \<Longrightarrow> a = b \<and> x = y"
proof (induction a arbitrary: b x y)
  case (JStr s)
  have "kind b = 5" using enc_head [OF JStr.prems(1), of fl] enc_head [OF JStr.prems(2), of fl] arg_cong [OF JStr.prems(5), of hd] by simp
  then show ?case using JStr dump_str_inj [of s _ x y] by (cases b) (auto split: if_splits)
next
  case (JInt i)
  have "kind b = 3" using enc_head [OF JInt.prems(1), of fl] enc_head [OF JInt.prems(2), of fl] arg_cong [OF JInt.prems(5), of hd] by simp
  then show ?case using JInt str_int_delim [of x y i] by (cases b) (auto split: if_splits)
next
  case (JList xs)
  have "kind b = 6" using enc_head [OF JList.prems(1), of fl] enc_head [OF JList.prems(2), of fl] arg_cong [OF JList.prems(5), of hd] by simp
  then obtain ys where b: "b = JList ys" by (cases b) (auto split: if_splits)
  have eq: "join_with [44] (map (enc fl) xs) @ 93 # x = join_with [44] (map (enc fl) ys) @ 93 # y"
    using JList.prems(5) b by simp
  have px: "\<forall>a\<in>set xs. plain_json a" and py: "\<forall>a\<in>set ys. plain_json a"
    using JList.prems(1,2) b by (simp_all add: plain_JList)
  have "xs = ys \<and> x = y"
  proof (rule join_inj [where P = plain_json, OF _ _ _ _ eq])
    fix a c x y assume "a \<in> set xs" "plain_json c" "delim x" "delim y" "enc fl a @ x = enc fl c @ y"
    then show "a = c \<and> x = y" using JList.IH px by blast
  next
    fix a assume "a \<in> set xs \<or> plain_json a"
    then show "enc fl a \<noteq> [] \<and> hd (enc fl a) \<noteq> 93" using enc_head px by blast
  qed (use py in \<open>simp_all add: list_all_iff\<close>)
  then show ?case using b by simp
next
  case (JDict d)
  have "kind b = 7" using enc_head [OF JDict.prems(1), of fl] enc_head [OF JDict.prems(2), of fl] arg_cong [OF JDict.prems(5), of hd] by simp
  then obtain e where b: "b = JDict e" by (cases b) (auto split: if_splits)
  let ?f = "\<lambda>(k, v). dump_str k @ 58 # enc fl v"
  have form: "enc fl (JDict c) = 123 # join_with [44] (map ?f c) @ [125]" for c
  proof -
    have "map (\<lambda>(k, e). dump_str k @ 58 # e) (map (map_prod id (enc fl)) c) = map ?f c" by auto
    then show ?thesis by (simp only: enc_JDict if_False)
  qed
  have eq: "join_with [44] (map ?f d) @ 125 # x = join_with [44] (map ?f e) @ 125 # y"
    using JDict.prems(5) unfolding b form by simp
  have pd: "\<forall>(k, v)\<in>set d. list_all scalar k \<and> plain_json v" and pe: "\<forall>(k, v)\<in>set e. list_all scalar k \<and> plain_json v"
    using JDict.prems(1,2) b by (simp_all add: plain_JDict)
  have "d = e \<and> x = y"
  proof (rule join_inj [where P = "\<lambda>(k, v). list_all scalar k \<and> plain_json v", OF _ _ _ _ eq])
    fix p q x y assume *: "p \<in> set d" "(\<lambda>(k, v). list_all scalar k \<and> plain_json v) q" "delim x" "delim y" "?f p @ x = ?f q @ y"
    obtain k v k' v' where pq: "p = (k, v)" "q = (k', v')" by (cases p, cases q)
    have p: "list_all scalar k" "plain_json v" using pd *(1) pq by auto
    have "dump_str k @ 58 # enc fl v @ x = dump_str k' @ 58 # enc fl v' @ y" using *(5) pq by simp
    then have "k = k'" "enc fl v @ x = enc fl v' @ y"
      using dump_str_inj [OF p(1), of k' "58 # enc fl v @ x" "58 # enc fl v' @ y"] *(2) pq by auto
    moreover have "v = v' \<and> x = y"
      by (rule JDict.IH [of p v]) (use * pq p calculation in auto)
    ultimately show "p = q \<and> x = y" using pq by simp
  next
    fix p show "?f p \<noteq> [] \<and> hd (?f p) \<noteq> 125" by (cases p) (simp add: dump_str_def)
  qed (use pe in \<open>simp_all add: list_all_iff\<close>)
  then show ?case using b by simp
next
  case JNull
  have "kind b = 0" using enc_head [OF JNull.prems(1), of fl] enc_head [OF JNull.prems(2), of fl] arg_cong [OF JNull.prems(5), of hd] by simp
  then show ?case using JNull by (cases b) (auto split: if_splits)
next
  case (JBool t)
  have "kind b = kind (JBool t)" using enc_head [OF JBool.prems(1), of fl] enc_head [OF JBool.prems(2), of fl] arg_cong [OF JBool.prems(5), of hd]
    by (simp del: kind.simps)
  then show ?case using JBool by (cases b) (auto split: if_splits)
qed simp

text \<open>Sorting the keys is encoding the value with its keys sorted at every level.\<close>

primrec canon :: "json \<Rightarrow> json" where
  "canon JNull = JNull"
| "canon (JBool b) = JBool b"
| "canon (JInt i) = JInt i"
| "canon (JFloat r) = JFloat r"
| "canon (JStr s) = JStr s"
| "canon (JList xs) = JList (map canon xs)"
| "canon (JDict d) = JDict (sort_key fst (map (map_prod id canon) d))"

lemma insort_key_map: "insort_key fst (map_prod id f p) (map (map_prod id f) d) = map (map_prod id f) (insort_key fst p d)"
  by (induction d) (auto simp: map_prod_def split: prod.splits)

lemma sort_key_map_prod: "sort_key fst (map (map_prod id f) d) = map (map_prod id f) (sort_key fst d)"
proof (induction d)
  case (Cons p d)
  show ?case by (simp only: list.map sort_key_simps Cons.IH insort_key_map)
qed simp

lemma dumps_canon: "dumps fl (compact_style True) a = enc fl (canon a)"
proof (induction a)
  case (JList xs)
  then have *: "map (dumps fl (compact_style True)) xs = map (enc fl \<circ> canon) xs" by simp
  show ?case unfolding canon.simps dumps.simps * by simp
next
  case (JDict d)
  let ?D = "dumps fl (compact_style True)"
  have "map (map_prod id ?D) d = map (map_prod id (enc fl)) (map (map_prod id canon) d)"
    using JDict by (auto simp: map_prod_def)
  then have "sort_key fst (map (map_prod id ?D) d) = map (map_prod id (enc fl)) (sort_key fst (map (map_prod id canon) d))"
    by (simp only: sort_key_map_prod)
  then show ?case unfolding canon.simps enc_JDict by simp
qed simp_all

lemma plain_canon: "plain_json a \<Longrightarrow> plain_json (canon a)"
proof (induction a)
  case (JDict d)
  then show ?case by (fastforce simp: plain_JDict map_prod_def)
qed (auto simp: plain_JList)

lemma canonical_inj:
  assumes "plain_json a" "plain_json b" "dumps fl (compact_style True) a = dumps fl (compact_style True) b"
  shows "canon a = canon b"
  using enc_inj [OF plain_canon [OF assms(1)] plain_canon [OF assms(2)], of "[]" "[]" fl] assms(3)
  by (simp add: dumps_canon delim_def)

declare dumps.simps(7) canon.simps(7) [simp del]

section \<open>The printed text is ASCII\<close>

lemma set_join_with: "set (join_with sep ws) \<subseteq> set sep \<union> \<Union>(set ` set ws)"
  by (induction sep ws rule: join_with.induct) auto

lemma str_ascii: "\<forall>c\<in>set (str cs). c < 256"
  by (auto simp: str_def)

lemma enc_ascii: "plain_json a \<Longrightarrow> \<forall>c\<in>set (enc fl a). c < 256"
proof (induction a)
  case (JInt i)
  then show ?case using str_int_chars [of _ i] by fastforce
next
  case (JStr s)
  then show ?case using dump_str_ascii [of s] by (auto simp: list_all_iff intro: less_trans)
next
  case (JList xs)
  have "\<forall>c\<in>set (join_with [44] (map (enc fl) xs)). c < 256"
    using JList set_join_with [of "[44]" "map (enc fl) xs"] by (fastforce simp: plain_JList)
  then show ?case by simp
next
  case (JDict d)
  have "\<forall>w\<in>set (map (\<lambda>(k, e). dump_str k @ 58 # e) (map (map_prod id (enc fl)) d)). \<forall>c\<in>set w. c < 256"
  proof
    fix w assume "w \<in> set (map (\<lambda>(k, e). dump_str k @ 58 # e) (map (map_prod id (enc fl)) d))"
    then obtain k v where kv: "(k, v) \<in> set d" "w = dump_str k @ 58 # enc fl v" by auto
    then have "list_all scalar k" "plain_json v" using JDict.prems by (auto simp: plain_JDict)
    then show "\<forall>c\<in>set w. c < 256"
      using kv JDict.IH [of "(k, v)" v] dump_str_ascii [of k] by (auto simp: list_all_iff intro: less_trans)
  qed
  then have "\<forall>c\<in>set (join_with [44] (map (\<lambda>(k, e). dump_str k @ 58 # e) (map (map_prod id (enc fl)) d))). c < 256"
    using set_join_with [of "[44]"] by fastforce
  then show ?case unfolding enc_JDict if_False by simp
qed (simp_all add: str_def)

lemma low_encodable: "\<forall>c\<in>set t. c < 256 \<Longrightarrow> encodable t"
  unfolding encodable_def list_all_iff surrogate_def by (intro ballI) (drule (1) bspec, linarith)

end
