(* ===== verification/Audit_Log.thy ===== *)
theory Audit_Log
  imports Vault Json_Text
begin

text \<open>
  The tamper-evident audit log (\<open>app/audit.py\<close>): the hash chain over redaction events, in the
  database and in memory. HMAC-SHA256 is the parameter \<open>hm\<close> and the \<open>repr\<close> of floats \<open>fl\<close>;
  here transactions run one after the other; the advisory lock and interleaved transactions are in
  \<open>Audit_Concurrency\<close>. Ids are what \<open>str()\<close> gives. The upstream's token counts are hashed as they are, whatever
  JSON they are, and converted when the row is inserted: \<open>column\<close> is the driver's conversion.
\<close>

section \<open>The code\<close>

definition GENESIS_HASH :: pystr where "GENESIS_HASH = replicate 64 48"

definition canonical_json :: "(rat \<Rightarrow> pystr) \<Rightarrow> dict \<Rightarrow> pystr" where
  "canonical_json fl payload = dumps fl (compact_style True) (JDict payload)"

type_synonym hmac = "bytes \<Rightarrow> bytes \<Rightarrow> bytes"

definition compute_event_hash :: "hmac \<Rightarrow> (rat \<Rightarrow> pystr) \<Rightarrow> pystr \<Rightarrow> dict \<Rightarrow> bytes \<Rightarrow> pystr res" where
  "compute_event_hash hm fl prev_hash payload hmac_key =
     rbind (utf8_encode (prev_hash @ canonical_json fl payload)) (\<lambda>msg. Inr (hexdigest (hm hmac_key msg)))"

record audit_args =
  aa_team :: pystr
  aa_api_key :: "pystr option"
  aa_session :: "pystr option"
  aa_route :: pystr
  aa_provider :: pystr
  aa_counts :: "(pystr \<times> int) list"
  aa_blocked :: bool
  aa_prompt_tokens :: json
  aa_completion_tokens :: json
  aa_latency_ms :: "int option"

definition opt_str :: "pystr option \<Rightarrow> json" where
  "opt_str x = (case x of None \<Rightarrow> JNull | Some s \<Rightarrow> JStr s)"

definition opt_int :: "int option \<Rightarrow> json" where
  "opt_int x = (case x of None \<Rightarrow> JNull | Some i \<Rightarrow> JInt i)"

definition event_payload :: "audit_args \<Rightarrow> dict" where
  "event_payload a =
     [(str ''team_id'', JStr (aa_team a)),
      (str ''api_key_id'', opt_str (aa_api_key a)),
      (str ''session_id'', opt_str (aa_session a)),
      (str ''route'', JStr (aa_route a)),
      (str ''provider'', JStr (aa_provider a)),
      (str ''entity_counts'', JDict (map (\<lambda>(k, v). (k, JInt v)) (aa_counts a))),
      (str ''blocked'', JBool (aa_blocked a)),
      (str ''prompt_tokens'', aa_prompt_tokens a),
      (str ''completion_tokens'', aa_completion_tokens a),
      (str ''latency_ms'', opt_int (aa_latency_ms a))]"

text \<open>The \<open>audit_event\<close> table: its rows, and the next value of the id sequence.\<close>

record audit_event =
  ae_id :: nat
  ae_args :: audit_args
  ae_prev_hash :: pystr
  ae_event_hash :: pystr

record audit_table =
  at_rows :: "audit_event list"
  at_next_id :: nat
  at_failed :: bool             \<comment> \<open>a failed insert has rolled the session's transaction back\<close>

definition team_rows :: "audit_table \<Rightarrow> pystr \<Rightarrow> audit_event list" where
  "team_rows t team = sort_key ae_id (filter (\<lambda>e. aa_team (ae_args e) = team) (at_rows t))"

definition last_hash :: "audit_table \<Rightarrow> pystr \<Rightarrow> pystr" where
  "last_hash t team = (case rev (team_rows t team) of [] \<Rightarrow> GENESIS_HASH | e # _ \<Rightarrow> ae_event_hash e)"

text \<open>The value a token column stores, \<open>None\<close> if the driver refuses it.\<close>

type_synonym column = "json \<Rightarrow> json option"

definition stored :: "column \<Rightarrow> audit_args \<Rightarrow> audit_args option" where
  "stored col a =
     (case (col (aa_prompt_tokens a), col (aa_completion_tokens a), col (opt_int (aa_latency_ms a))) of
        (Some pt, Some ct, Some _) \<Rightarrow> Some (a\<lparr>aa_prompt_tokens := pt, aa_completion_tokens := ct\<rparr>)
      | _ \<Rightarrow> None)"

text \<open>\<open>session.add\<close> and \<open>session.flush\<close>.\<close>

definition insert_event :: "column \<Rightarrow> audit_args \<Rightarrow> pystr \<Rightarrow> pystr \<Rightarrow> audit_table \<Rightarrow> (audit_event \<times> audit_table) res" where
  "insert_event col a prev event_hash t =
     (case stored col a of
        None \<Rightarrow> Inl DataError
      | Some row \<Rightarrow>
          (let event = \<lparr>ae_id = at_next_id t, ae_args = row, ae_prev_hash = prev, ae_event_hash = event_hash\<rparr> in
           Inr (event, t\<lparr>at_rows := at_rows t @ [event], at_next_id := Suc (at_next_id t)\<rparr>)))"

definition record_event ::
  "hmac \<Rightarrow> (rat \<Rightarrow> pystr) \<Rightarrow> bytes \<Rightarrow> column \<Rightarrow> audit_args \<Rightarrow> audit_table \<Rightarrow> (audit_event \<times> audit_table) res" where
  "record_event hm fl key col a t =
     (let payload = event_payload a; prev = last_hash t (aa_team a) in
      rbind (compute_event_hash hm fl prev payload key) (\<lambda>event_hash. insert_event col a prev event_hash t))"

fun verify_loop :: "hmac \<Rightarrow> (rat \<Rightarrow> pystr) \<Rightarrow> bytes \<Rightarrow> pystr \<Rightarrow> audit_event list \<Rightarrow> bool res" where
  "verify_loop hm fl key prev [] = Inr True"
| "verify_loop hm fl key prev (event # events) =
     (if ae_prev_hash event \<noteq> prev then Inr False
      else rbind (compute_event_hash hm fl prev (event_payload (ae_args event)) key) (\<lambda>expected.
        if ae_event_hash event \<noteq> expected then Inr False
        else verify_loop hm fl key (ae_event_hash event) events))"

definition verify_chain :: "hmac \<Rightarrow> (rat \<Rightarrow> pystr) \<Rightarrow> bytes \<Rightarrow> audit_table \<Rightarrow> pystr \<Rightarrow> bool res" where
  "verify_chain hm fl key t team = verify_loop hm fl key GENESIS_HASH (team_rows t team)"

text \<open>\<open>InMemoryAuditSink\<close>: from a team to its list of event dictionaries.\<close>

type_synonym mem_sink = "(pystr \<times> dict list) list"

definition events_for :: "mem_sink \<Rightarrow> pystr \<Rightarrow> dict list" where
  "events_for m team = (case map_of m team of None \<Rightarrow> [] | Some es \<Rightarrow> es)"

definition all_events :: "mem_sink \<Rightarrow> dict list" where
  "all_events m = concat (map snd m)"

definition mem_last_hash :: "mem_sink \<Rightarrow> pystr \<Rightarrow> pystr res" where
  "mem_last_hash m team =
     (case rev (events_for m team) of
        [] \<Rightarrow> Inr GENESIS_HASH
      | e # _ \<Rightarrow> (case map_of e (str ''event_hash'') of Some (JStr h) \<Rightarrow> Inr h | Some _ \<Rightarrow> Inl TypeError | None \<Rightarrow> Inl KeyError))"

definition mem_record :: "hmac \<Rightarrow> (rat \<Rightarrow> pystr) \<Rightarrow> bytes \<Rightarrow> audit_args \<Rightarrow> mem_sink \<Rightarrow> (dict \<times> mem_sink) res" where
  "mem_record hm fl key a m =
     (let payload = event_payload a in
      rbind (mem_last_hash m (aa_team a)) (\<lambda>prev.
      rbind (compute_event_hash hm fl prev payload key) (\<lambda>event_hash.
        let r = AList.update (str ''event_hash'') (JStr event_hash) (AList.update (str ''prev_hash'') (JStr prev) payload) in
        Inr (r, AList.update (aa_team a) (events_for m (aa_team a) @ [r]) m))))"

fun mem_verify_loop :: "hmac \<Rightarrow> (rat \<Rightarrow> pystr) \<Rightarrow> bytes \<Rightarrow> json \<Rightarrow> dict list \<Rightarrow> bool res" where
  "mem_verify_loop hm fl key prev [] = Inr True"
| "mem_verify_loop hm fl key prev (event # events) =
     (let payload = filter (\<lambda>(k, v). k \<noteq> str ''prev_hash'' \<and> k \<noteq> str ''event_hash'') event in
      rbind (sub_key (JDict event) (str ''prev_hash'')) (\<lambda>p.
        if p \<noteq> prev then Inr False
        else
          rbind (case prev of JStr s \<Rightarrow> compute_event_hash hm fl s payload key | _ \<Rightarrow> Inl TypeError) (\<lambda>expected.
          rbind (sub_key (JDict event) (str ''event_hash'')) (\<lambda>h.
            if h \<noteq> JStr expected then Inr False
            else mem_verify_loop hm fl key h events))))"

definition mem_verify :: "hmac \<Rightarrow> (rat \<Rightarrow> pystr) \<Rightarrow> bytes \<Rightarrow> mem_sink \<Rightarrow> pystr \<Rightarrow> bool res" where
  "mem_verify hm fl key m team = mem_verify_loop hm fl key (JStr GENESIS_HASH) (events_for m team)"

section \<open>Appending\<close>

text \<open>The ids of the rows are below the next one.\<close>

definition table_inv :: "audit_table \<Rightarrow> bool" where
  "table_inv t \<longleftrightarrow> (\<forall>e\<in>set (at_rows t). ae_id e < at_next_id t)"

lemma insort_key_snoc: "f y \<le> f x \<Longrightarrow> insort_key f y (xs @ [x]) = insort_key f y xs @ [x]"
  by (induction xs) simp_all

lemma sort_key_snoc: "\<forall>y\<in>set xs. f y \<le> f x \<Longrightarrow> sort_key f (xs @ [x]) = sort_key f xs @ [x]"
  by (induction xs) (simp_all add: insort_key_snoc)

text \<open>The declared type of a token count, what the driver does with such a value, and the arguments whose row
  holds what was hashed.\<close>

definition is_count :: "json \<Rightarrow> bool" where
  "is_count v \<longleftrightarrow> v = JNull \<or> (\<exists>i. v = JInt i)"

definition column_ok :: "column \<Rightarrow> bool" where
  "column_ok col \<longleftrightarrow> col JNull = Some JNull \<and> (\<forall>v w. col v = Some w \<longrightarrow> is_count w \<and> (is_count v \<longrightarrow> w = v))"

definition declared :: "audit_args \<Rightarrow> bool" where
  "declared a \<longleftrightarrow> is_count (aa_prompt_tokens a) \<and> is_count (aa_completion_tokens a)"

lemma is_count_simps [simp]: "is_count JNull" "is_count (JInt i)"
  by (simp_all add: is_count_def)

lemma stored_fields: "stored col a = Some b \<Longrightarrow> aa_team b = aa_team a \<and> aa_api_key b = aa_api_key a \<and> aa_session b = aa_session a
    \<and> aa_route b = aa_route a \<and> aa_provider b = aa_provider a \<and> aa_counts b = aa_counts a \<and> aa_blocked b = aa_blocked a
    \<and> aa_latency_ms b = aa_latency_ms a"
  by (auto simp: stored_def split: option.splits)

lemma stored_declared: "column_ok col \<Longrightarrow> declared a \<Longrightarrow> stored col a = Some b \<Longrightarrow> b = a"
  by (auto simp: stored_def column_ok_def declared_def split: option.splits)

lemma record_event_rows:
  assumes "table_inv t" "record_event hm fl key col a t = Inr (e, t')"
  shows "table_inv t'" "team_rows t' team = (if team = aa_team a then team_rows t team @ [e] else team_rows t team)"
    "stored col a = Some (ae_args e)" "ae_prev_hash e = last_hash t (aa_team a)"
    "compute_event_hash hm fl (last_hash t (aa_team a)) (event_payload a) key = Inr (ae_event_hash e)"
    "at_rows t' = at_rows t @ [e]" "at_failed t' = at_failed t"
proof -
  obtain h b where h: "compute_event_hash hm fl (last_hash t (aa_team a)) (event_payload a) key = Inr h" "stored col a = Some b"
    "e = \<lparr>ae_id = at_next_id t, ae_args = b, ae_prev_hash = last_hash t (aa_team a), ae_event_hash = h\<rparr>"
    "t' = t\<lparr>at_rows := at_rows t @ [e], at_next_id := Suc (at_next_id t)\<rparr>"
    using assms(2) by (auto simp: record_event_def insert_event_def Let_def rbind_Inr_iff split: option.splits)
  have tm: "aa_team b = aa_team a" using stored_fields [OF h(2)] by simp
  have "\<forall>y\<in>set (filter (\<lambda>e. aa_team (ae_args e) = team) (at_rows t)). ae_id y \<le> ae_id e"
    using assms(1) h(3) by (auto simp: table_inv_def intro: less_imp_le)
  then show "team_rows t' team = (if team = aa_team a then team_rows t team @ [e] else team_rows t team)"
    using h tm sort_key_snoc [of _ ae_id e] by (auto simp: team_rows_def)
  show "table_inv t'" using assms(1) h by (auto simp: table_inv_def less_Suc_eq)
  show "stored col a = Some (ae_args e)" "ae_prev_hash e = last_hash t (aa_team a)"
    "compute_event_hash hm fl (last_hash t (aa_team a)) (event_payload a) key = Inr (ae_event_hash e)"
    "at_rows t' = at_rows t @ [e]" "at_failed t' = at_failed t"
    using h by simp_all
qed

definition end_hash :: "pystr \<Rightarrow> audit_event list \<Rightarrow> pystr" where
  "end_hash prev es = (if es = [] then prev else ae_event_hash (last es))"

lemma last_hash_end: "last_hash t team = end_hash GENESIS_HASH (team_rows t team)"
  by (cases "team_rows t team" rule: rev_cases) (simp_all add: last_hash_def end_hash_def)

lemma verify_loop_append:
  "verify_loop hm fl key prev (es @ fs) = Inr True \<longleftrightarrow>
    verify_loop hm fl key prev es = Inr True \<and> verify_loop hm fl key (end_hash prev es) fs = Inr True"
proof (induction es arbitrary: prev)
  case (Cons e es)
  show ?case
  proof (cases "ae_prev_hash e = prev \<and> compute_event_hash hm fl prev (event_payload (ae_args e)) key = Inr (ae_event_hash e)")
    case True
    then show ?thesis using Cons [of "ae_event_hash e"] by (simp add: end_hash_def)
  next
    case False
    then show ?thesis by (auto simp: rbind_Inr_iff)
  qed
qed (simp add: end_hash_def)

section \<open>Tampering\<close>

text \<open>What the chain commits to: the payload up to the order of keys, and the two hashes.\<close>

definition content :: "audit_event \<Rightarrow> json \<times> pystr \<times> pystr" where
  "content e = (canon (JDict (event_payload (ae_args e))), ae_prev_hash e, ae_event_hash e)"

definition message :: "(rat \<Rightarrow> pystr) \<Rightarrow> audit_event \<Rightarrow> pystr" where
  "message fl e = ae_prev_hash e @ canonical_json fl (event_payload (ae_args e))"

definition plain_event :: "audit_event \<Rightarrow> bool" where
  "plain_event e \<longleftrightarrow> plain_json (JDict (event_payload (ae_args e)))"

lemma canonical_canon: "canonical_json fl p = enc fl (canon (JDict p))"
  unfolding canonical_json_def by (rule dumps_canon)

lemma compute_content:
  "canon (JDict p) = canon (JDict q) \<Longrightarrow> compute_event_hash hm fl prev p key = compute_event_hash hm fl prev q key"
  by (simp add: compute_event_hash_def canonical_canon)

lemma verify_content: "map content es = map content fs \<Longrightarrow> verify_loop hm fl key prev es = verify_loop hm fl key prev fs"
proof (induction es arbitrary: fs prev)
  case (Cons e es)
  then obtain f fs' where f: "fs = f # fs'" "content e = content f" "map content es = map content fs'" by (cases fs) auto
  then have "canon (JDict (event_payload (ae_args e))) = canon (JDict (event_payload (ae_args f)))"
    "ae_prev_hash e = ae_prev_hash f" "ae_event_hash e = ae_event_hash f" by (simp_all add: content_def)
  then show ?case using f(1) Cons.IH [OF f(3)] compute_content [of "event_payload (ae_args e)" "event_payload (ae_args f)"]
    by (simp cong: if_cong)
qed simp

text \<open>The hash each event of a verified chain is linked to.\<close>

definition link :: "audit_event list \<Rightarrow> nat \<Rightarrow> pystr" where
  "link es i = (if i = 0 then GENESIS_HASH else ae_event_hash (es ! (i - 1)))"

lemma verify_links:
  assumes "verify_loop hm fl key GENESIS_HASH es = Inr True" "i < length es"
  shows "ae_prev_hash (es ! i) = link es i"
    "compute_event_hash hm fl (link es i) (event_payload (ae_args (es ! i))) key = Inr (ae_event_hash (es ! i))"
proof -
  have s: "es = take i es @ es ! i # drop (Suc i) es" using assms(2) by (rule id_take_nth_drop)
  have "verify_loop hm fl key (end_hash GENESIS_HASH (take i es)) (es ! i # drop (Suc i) es) = Inr True"
    using assms(1) verify_loop_append [of hm fl key GENESIS_HASH "take i es" "es ! i # drop (Suc i) es"] s by simp
  moreover have "end_hash GENESIS_HASH (take i es) = link es i"
    using assms(2) by (auto simp: end_hash_def link_def last_conv_nth)
  ultimately show "ae_prev_hash (es ! i) = link es i"
    "compute_event_hash hm fl (link es i) (event_payload (ae_args (es ! i))) key = Inr (ae_event_hash (es ! i))"
    by (auto simp: rbind_Inr_iff split: if_splits)
qed

text \<open>
  The hypotheses on the HMAC: the genuine events have different hashes when their messages
  differ, none is the anchor, and whoever writes the other rows cannot sign a message that no
  genuine event has: a row whose hash is right has the message of a genuine one.
\<close>

definition unforged :: "hmac \<Rightarrow> (rat \<Rightarrow> pystr) \<Rightarrow> bytes \<Rightarrow> audit_event list \<Rightarrow> audit_event list \<Rightarrow> bool" where
  "unforged hm fl key es fs \<longleftrightarrow>
     (\<forall>e\<in>set es. \<forall>e'\<in>set es. ae_event_hash e = ae_event_hash e' \<longrightarrow> message fl e = message fl e') \<and>
     (\<forall>e\<in>set es. ae_event_hash e \<noteq> GENESIS_HASH \<and> length (ae_event_hash e) = 64) \<and>
     (\<forall>f\<in>set fs. compute_event_hash hm fl (ae_prev_hash f) (event_payload (ae_args f)) key = Inr (ae_event_hash f) \<longrightarrow>
        message fl f \<in> message fl ` set es)"

lemma link_length:
  assumes "unforged hm fl key es fs" "m \<le> length es"
  shows "length (link es m) = 64"
proof (cases m)
  case (Suc l)
  then have "es ! l \<in> set es" using assms(2) by (intro nth_mem) simp
  moreover have "\<forall>e\<in>set es. ae_event_hash e \<noteq> GENESIS_HASH \<and> length (ae_event_hash e) = 64"
    using assms(1) unfolding unforged_def by (elim conjE)
  ultimately show ?thesis using Suc by (simp add: link_def)
qed (simp add: link_def GENESIS_HASH_def)

lemma unforged_later:
  "unforged hm fl key es (f # fs) \<Longrightarrow> unforged hm fl key es fs"
  unfolding unforged_def list.set(2) ball_simps by (elim conjE) (intro conjI)

lemma unforged_head:
  assumes "unforged hm fl key es (f # fs)"
    and "compute_event_hash hm fl (ae_prev_hash f) (event_payload (ae_args f)) key = Inr (ae_event_hash f)"
  shows "message fl f \<in> message fl ` set es"
  by (rule assms(1) [unfolded unforged_def list.set(2) ball_simps, THEN conjunct2, THEN conjunct2, THEN conjunct1, THEN mp, OF assms(2)])

lemma message_split:
  assumes "length (ae_prev_hash e) = length (ae_prev_hash f)" "message fl e = message fl f" "plain_event e" "plain_event f"
  shows "ae_prev_hash e = ae_prev_hash f" "canon (JDict (event_payload (ae_args e))) = canon (JDict (event_payload (ae_args f)))"
proof -
  have *: "ae_prev_hash e = ae_prev_hash f \<and> canonical_json fl (event_payload (ae_args e)) = canonical_json fl (event_payload (ae_args f))"
    using assms(1,2) unfolding message_def by (simp add: append_eq_append_conv)
  then show "ae_prev_hash e = ae_prev_hash f" by blast
  show "canon (JDict (event_payload (ae_args e))) = canon (JDict (event_payload (ae_args f)))"
    by (rule canonical_inj [OF assms(3,4) [unfolded plain_event_def]]) (rule * [THEN conjunct2, unfolded canonical_json_def])
qed

lemma link_inj:
  assumes v: "verify_loop hm fl key GENESIS_HASH es = Inr True" and u: "unforged hm fl key es fs"
    and pl: "\<forall>e\<in>set es. plain_event e"
  shows "i < j \<Longrightarrow> j \<le> length es \<Longrightarrow> link es i \<noteq> link es j"
proof (induction i arbitrary: j)
  case 0
  then have "es ! (j - 1) \<in> set es" by (intro nth_mem) simp
  then show ?case using 0 u unfolding link_def unforged_def by fastforce
next
  case (Suc i)
  obtain k where k: "j = Suc k" "i < k" "k < length es" using Suc.prems by (cases j) auto
  note len = link_length [OF u]
  have in_es: "es ! i \<in> set es" "es ! k \<in> set es" using k by (auto intro: nth_mem)
  show ?case
  proof
    assume "link es (Suc i) = link es j"
    then have "ae_event_hash (es ! i) = ae_event_hash (es ! k)" using k(1) by (simp add: link_def)
    then have "message fl (es ! i) = message fl (es ! k)" using u in_es unfolding unforged_def by blast
    moreover have "ae_prev_hash (es ! i) = link es i" "ae_prev_hash (es ! k) = link es k"
      using verify_links(1) [OF v] k by simp_all
    ultimately have "link es i = link es k"
      using message_split(1) [of "es ! i" "es ! k" fl] len [of i] len [of k] k pl in_es by simp
    then show False using Suc.IH [OF k(2)] k(3) by simp
  qed
qed

lemma verified_is_prefix:
  assumes v: "verify_loop hm fl key GENESIS_HASH es = Inr True" and u: "unforged hm fl key es fs"
    and pl: "\<forall>e\<in>set es. plain_event e" "\<forall>f\<in>set fs. plain_event f"
  shows "n \<le> length es \<Longrightarrow> verify_loop hm fl key (link es n) fs = Inr True \<Longrightarrow>
    length fs \<le> length es - n \<and> map content fs = map content (take (length fs) (drop n es))"
  using u pl(2)
proof (induction fs arbitrary: n)
  case (Cons f fs)
  have f: "ae_prev_hash f = link es n"
    "compute_event_hash hm fl (link es n) (event_payload (ae_args f)) key = Inr (ae_event_hash f)"
    "verify_loop hm fl key (ae_event_hash f) fs = Inr True"
    using Cons.prems(2) by (auto simp: rbind_Inr_iff split: if_splits)
  have u': "unforged hm fl key es fs" using Cons.prems(3) by (rule unforged_later)
  have "message fl f \<in> message fl ` set es"
    using Cons.prems(3) f(2) unfolding f(1) [symmetric] by (rule unforged_head)
  from this obtain g where g: "message fl f = message fl g" "g \<in> set es" by (rule imageE)
  then obtain i where "i < length es" "es ! i = g" unfolding in_set_conv_nth by (elim exE conjE)
  then have i: "i < length es" "message fl f = message fl (es ! i)" using g(1) by simp_all
  note len = link_length [OF u]
  note pi = verify_links [OF v i(1)]
  have same: "link es n = link es i" "canon (JDict (event_payload (ae_args f))) = canon (JDict (event_payload (ae_args (es ! i))))"
    using message_split [of f "es ! i" fl] i f(1) pi(1) len [of n] len [of i] Cons.prems(1,4) pl(1) by simp_all
  have "n = i"
  proof (rule linorder_cases [of n i])
    assume "n < i"
    from link_inj [OF v u pl(1) this] show ?thesis using same(1) i(1) by simp
  next
    assume "i < n"
    from link_inj [OF v u pl(1) this] show ?thesis using same(1) Cons.prems(1) by simp
  qed
  have h: "ae_event_hash f = ae_event_hash (es ! n)"
    using f(2) pi(2) compute_content [OF same(2), of hm fl "link es n" key] \<open>n = i\<close> by simp
  have c: "content f = content (es ! n)" using same(2) f(1) pi(1) h \<open>n = i\<close> by (simp add: content_def)
  have "verify_loop hm fl key (link es (Suc n)) fs = Inr True" using f(3) h by (simp add: link_def)
  then have "length fs \<le> length es - Suc n \<and> map content fs = map content (take (length fs) (drop (Suc n) es))"
    using Cons.IH [of "Suc n", OF _ _ u'] i(1) \<open>n = i\<close> Cons.prems(4) by simp
  moreover have "drop n es = es ! n # drop (Suc n) es" using i(1) \<open>n = i\<close> by (simp add: Cons_nth_drop_Suc)
  ultimately show ?case using c i(1) \<open>n = i\<close> by auto
qed simp

text \<open>A count the column converts: what was hashed is not what is read back, and the chain of the team is
  broken for good (for an HMAC without collisions).\<close>

lemma hexdigest_inj: "hexdigest bs = hexdigest bs' \<Longrightarrow> bs = bs'"
proof (induction bs arbitrary: bs')
  case Nil
  then show ?case by (cases bs') (simp_all add: hexdigest_def)
next
  case (Cons b bs)
  obtain c cs where bs': "bs' = c # cs" using Cons.prems by (cases bs') (simp_all add: hexdigest_def)
  have d: "hex_digit x = hex_digit y \<Longrightarrow> x < 16 \<Longrightarrow> y < 16 \<Longrightarrow> x = y" for x y by (auto simp: hex_digit_def split: if_splits)
  have l: "unat x div 16 < 16" "unat x mod 16 < 16" for x :: "8 word"
  proof -
    have "unat x < 16 * 16" using unsigned_less [of x] by simp
    then show "unat x div 16 < 16" "unat x mod 16 < 16" by (simp_all add: less_mult_imp_div_less)
  qed
  have e: "hex_digit (unat b div 16) = hex_digit (unat c div 16)" "hex_digit (unat b mod 16) = hex_digit (unat c mod 16)"
    "hexdigest bs = hexdigest cs" using Cons.prems by (simp_all add: bs' hexdigest_def)
  have "unat b = unat c" using d [OF e(1) l(1) l(1)] d [OF e(2) l(2) l(2)] by (metis div_mult_mod_eq)
  then have "b = c" by (rule word_unat_eq_iff [THEN iffD2])
  then show ?case using Cons.IH [OF e(3)] by (simp add: bs')
qed

lemma boolean_count_breaks_chain:
  assumes "table_inv t" "record_event hm fl key col a t = Inr (e, t')" "inj (hm key)"
    and "aa_prompt_tokens a = JBool True" "col (JBool True) = Some (JInt 1)" "plain_json (JDict (event_payload a))" "column_ok col"
  shows "verify_chain hm fl key t' (aa_team a) \<noteq> Inr True"
proof
  assume v: "verify_chain hm fl key t' (aa_team a) = Inr True"
  note r = record_event_rows [OF assms(1,2)]
  let ?b = "ae_args e" and ?p = "last_hash t (aa_team a)"
  obtain ct where ct: "col (aa_completion_tokens a) = Some ct" "?b = a\<lparr>aa_prompt_tokens := JInt 1, aa_completion_tokens := ct\<rparr>"
    using r(3) assms(4,5) unfolding stored_def by (auto split: option.splits)
  have "is_count ct" using assms(7) ct(1) by (simp add: column_ok_def)
  then have b: "aa_prompt_tokens ?b = JInt 1" "plain_json (aa_completion_tokens ?b)" by (auto simp: ct(2) is_count_def)
  have pb: "plain_json (JDict (event_payload ?b))"
    using assms(6) b stored_fields [OF r(3)] by (auto simp: plain_JDict event_payload_def)
  have "compute_event_hash hm fl ?p (event_payload ?b) key = compute_event_hash hm fl ?p (event_payload a) key"
    using v r by (auto simp: verify_chain_def verify_loop_append last_hash_end rbind_Inr_iff split: if_splits)
  then obtain m m' where m: "utf8_encode (?p @ canonical_json fl (event_payload ?b)) = Inr m" "utf8_encode (?p @ canonical_json fl (event_payload a)) = Inr m'"
    "hexdigest (hm key m) = hexdigest (hm key m')"
    using r(5) by (auto simp: compute_event_hash_def rbind_Inr_iff)
  then have "canonical_json fl (event_payload ?b) = canonical_json fl (event_payload a)"
    using hexdigest_inj assms(3) utf8_encode_inj by (metis injD same_append_eq)
  then have "canon (JDict (event_payload ?b)) = canon (JDict (event_payload a))"
    using canonical_inj [OF pb assms(6)] unfolding canonical_json_def by blast
  then have "set (map (map_prod id canon) (event_payload ?b)) = set (map (map_prod id canon) (event_payload a))"
    unfolding canon.simps by (metis json.inject(6) set_sort)
  moreover have "(str ''prompt_tokens'', JInt 1) \<in> set (map (map_prod id canon) (event_payload ?b))" using b(1) by (simp add: event_payload_def)
  moreover have "(str ''prompt_tokens'', JInt 1) \<notin> set (map (map_prod id canon) (event_payload a))" using assms(4) by (simp add: event_payload_def str_def)
  ultimately show False by blast
qed

section \<open>The sink in memory\<close>

text \<open>A row as the event dictionary of the in-memory sink, and the two states related.\<close>

definition event_dict :: "audit_event \<Rightarrow> dict" where
  "event_dict e = event_payload (ae_args e) @ [(str ''prev_hash'', JStr (ae_prev_hash e)), (str ''event_hash'', JStr (ae_event_hash e))]"

definition sinks_agree :: "audit_table \<Rightarrow> mem_sink \<Rightarrow> bool" where
  "sinks_agree t m \<longleftrightarrow> table_inv t \<and> (\<forall>team. events_for m team = map event_dict (team_rows t team))"

lemma payload_keys: "str ''prev_hash'' \<notin> fst ` set (event_payload a)" "str ''event_hash'' \<notin> fst ` set (event_payload a)"
  by (auto simp: event_payload_def)

lemma event_dict_parts:
  "map_of (event_dict e) (str ''prev_hash'') = Some (JStr (ae_prev_hash e))"
  "map_of (event_dict e) (str ''event_hash'') = Some (JStr (ae_event_hash e))"
  "filter (\<lambda>(k, v). k \<noteq> str ''prev_hash'' \<and> k \<noteq> str ''event_hash'') (event_dict e) = event_payload (ae_args e)"
proof -
  have n: "map_of (event_payload (ae_args e)) (str ''prev_hash'') = None" "map_of (event_payload (ae_args e)) (str ''event_hash'') = None"
    using payload_keys by (simp_all add: map_of_eq_None_iff)
  then show "map_of (event_dict e) (str ''prev_hash'') = Some (JStr (ae_prev_hash e))"
    "map_of (event_dict e) (str ''event_hash'') = Some (JStr (ae_event_hash e))"
    by (simp_all add: event_dict_def map_add_def)
  have "filter (\<lambda>(k, v). k \<noteq> str ''prev_hash'' \<and> k \<noteq> str ''event_hash'') (event_payload (ae_args e)) = event_payload (ae_args e)"
    by (intro filter_True) (auto simp: event_payload_def)
  then show "filter (\<lambda>(k, v). k \<noteq> str ''prev_hash'' \<and> k \<noteq> str ''event_hash'') (event_dict e) = event_payload (ae_args e)"
    by (simp add: event_dict_def)
qed

lemma mem_last_hash_agree: "events_for m team = map event_dict rows \<Longrightarrow> mem_last_hash m team = Inr (end_hash GENESIS_HASH rows)"
  by (cases rows rule: rev_cases) (simp_all add: mem_last_hash_def end_hash_def event_dict_parts)

lemma mem_verify_agree: "mem_verify_loop hm fl key (JStr prev) (map event_dict es) = verify_loop hm fl key prev es"
proof (induction es arbitrary: prev)
  case (Cons e es)
  have step: "mem_verify_loop hm fl key (JStr prev) (map event_dict (e # es)) =
      (if ae_prev_hash e \<noteq> prev then Inr False
       else rbind (compute_event_hash hm fl prev (event_payload (ae_args e)) key) (\<lambda>expected.
         if ae_event_hash e \<noteq> expected then Inr False
         else mem_verify_loop hm fl key (JStr (ae_event_hash e)) (map event_dict es)))"
    unfolding list.map mem_verify_loop.simps(2) Let_def event_dict_parts sub_key.simps by simp
  show ?case unfolding step Cons.IH verify_loop.simps ..
qed simp

section \<open>Properties\<close>

text \<open>C16. Appending keeps every chain verified: after \<open>record_event\<close> the team's chain is the old one
  with the new event, linked to its last hash, and the chains of other teams are not touched. When the token
  counts are integers or absent, as declared, every chain that verified still verifies; in general the team's does
  exactly when the row read back hashes like the values recorded.\<close>

theorem record_keeps_chain:
  assumes "table_inv t" "column_ok col" "record_event hm fl key col a t = Inr (e, t')"
  shows "table_inv t'
    \<and> team_rows t' (aa_team a) = team_rows t (aa_team a) @ [e]
    \<and> (\<forall>team. team \<noteq> aa_team a \<longrightarrow> team_rows t' team = team_rows t team)
    \<and> (declared a \<longrightarrow> (\<forall>team. verify_chain hm fl key t team = Inr True \<longrightarrow> verify_chain hm fl key t' team = Inr True))
    \<and> (verify_chain hm fl key t (aa_team a) = Inr True \<longrightarrow>
         (verify_chain hm fl key t' (aa_team a) = Inr True \<longleftrightarrow>
          compute_event_hash hm fl (last_hash t (aa_team a)) (event_payload (ae_args e)) key
            = compute_event_hash hm fl (last_hash t (aa_team a)) (event_payload a) key))"
proof -
  note r = record_event_rows [OF assms(1,3)]
  have own: "verify_chain hm fl key t' (aa_team a) = Inr True \<longleftrightarrow>
      compute_event_hash hm fl (last_hash t (aa_team a)) (event_payload (ae_args e)) key
        = compute_event_hash hm fl (last_hash t (aa_team a)) (event_payload a) key"
    if "verify_chain hm fl key t (aa_team a) = Inr True"
    using that r by (auto simp: verify_chain_def verify_loop_append last_hash_end rbind_Inr_iff split: if_splits)
  moreover have "verify_chain hm fl key t' team = Inr True" if "declared a" "verify_chain hm fl key t team = Inr True" for team
    using own that r(2) [of team] stored_declared [OF assms(2) that(1) r(3)] by (cases "team = aa_team a") (simp_all add: verify_chain_def)
  ultimately show ?thesis using r(1,2) by simp
qed

text \<open>C17. What verification detects: rows written by someone who cannot sign new messages verify
  exactly when their contents are an initial part of the genuine chain. So an edit, an insertion,
  a deletion before the end or a reordering is detected; cutting events off the end is not.\<close>

theorem tampering_detected:
  assumes "verify_chain hm fl key t team = Inr True" "unforged hm fl key (team_rows t team) (team_rows t' team)"
    and "\<forall>e\<in>set (team_rows t team). plain_event e" "\<forall>e\<in>set (team_rows t' team). plain_event e"
  shows "verify_chain hm fl key t' team = Inr True \<longleftrightarrow>
    (\<exists>n. map content (team_rows t' team) = map content (take n (team_rows t team)))"
proof
  let ?es = "team_rows t team" and ?fs = "team_rows t' team"
  note v = assms(1) [unfolded verify_chain_def]
  assume "verify_chain hm fl key t' team = Inr True"
  then have "verify_loop hm fl key (link ?es 0) ?fs = Inr True" by (simp add: verify_chain_def link_def)
  from verified_is_prefix [OF v assms(2-4) _ this]
  show "\<exists>n. map content ?fs = map content (take n ?es)" by auto
next
  let ?es = "team_rows t team" and ?fs = "team_rows t' team"
  assume "\<exists>n. map content ?fs = map content (take n ?es)"
  then obtain n where "map content ?fs = map content (take n ?es)" by blast
  from verify_content [OF this, of hm fl key GENESIS_HASH]
  show "verify_chain hm fl key t' team = Inr True"
    using assms(1) verify_loop_append [of hm fl key GENESIS_HASH "take n ?es" "drop n ?es"] by (simp add: verify_chain_def)
qed

text \<open>C18. The in-memory sink keeps the identical chain: recording the same event in both, with token
  counts that are integers or absent, keeps them in agreement and gives the same hash unless the database refuses a
  value, and both verifications give the same answer.\<close>

theorem mem_sink_refines:
  assumes "sinks_agree t m" "column_ok col" "declared a"
  shows "(\<forall>team. mem_verify hm fl key m team = verify_chain hm fl key t team)
    \<and> (case record_event hm fl key col a t of
         Inl x \<Rightarrow> stored col a = None \<or> mem_record hm fl key a m = Inl x
       | Inr (e, t') \<Rightarrow> \<exists>m'. mem_record hm fl key a m = Inr (event_dict e, m') \<and> sinks_agree t' m')"
proof -
  have ev: "events_for m team = map event_dict (team_rows t team)" and inv: "table_inv t" for team
    using assms(1) by (simp_all add: sinks_agree_def)
  have v: "mem_verify hm fl key m team = verify_chain hm fl key t team" for team
    by (simp add: mem_verify_def verify_chain_def ev mem_verify_agree)
  have lh: "mem_last_hash m team = Inr (last_hash t team)" for team
    using mem_last_hash_agree [OF ev] by (simp add: last_hash_end)
  have "case record_event hm fl key col a t of
         Inl x \<Rightarrow> stored col a = None \<or> mem_record hm fl key a m = Inl x
       | Inr (e, t') \<Rightarrow> \<exists>m'. mem_record hm fl key a m = Inr (event_dict e, m') \<and> sinks_agree t' m'"
  proof (cases "record_event hm fl key col a t")
    case (Inl x)
    then show ?thesis
      by (auto simp: record_event_def mem_record_def insert_event_def Let_def lh rbind_Inl_iff split: option.splits)
  next
    case (Inr r)
    obtain e t' where r: "r = (e, t')" by (cases r)
    note rows = record_event_rows [OF inv Inr [unfolded r]]
    have ae: "ae_args e = a" by (rule stored_declared [OF assms(2,3) rows(3)])
    have d: "AList.update (str ''event_hash'') (JStr (ae_event_hash e)) (AList.update (str ''prev_hash'') (JStr (last_hash t (aa_team a))) (event_payload a))
        = event_dict e"
      using payload_keys [of a] ae rows(4) by (simp add: update_fresh event_dict_def)
    let ?m = "AList.update (aa_team a) (events_for m (aa_team a) @ [event_dict e]) m"
    have "mem_record hm fl key a m = Inr (event_dict e, ?m)"
      using rows(5) by (simp add: mem_record_def Let_def lh d)
    moreover have "sinks_agree t' ?m"
      using rows(1,2) ev by (auto simp: sinks_agree_def events_for_def)
    ultimately show ?thesis using Inr r by simp
  qed
  then show ?thesis using v by blast
qed

section \<open>Witnesses\<close>

definition audit_example :: audit_args where
  "audit_example = \<lparr>aa_team = str ''t'', aa_api_key = None, aa_session = Some (str ''s''), aa_route = str ''/v1'', aa_provider = str ''p'',
     aa_counts = [(str ''SIN'', 2)], aa_blocked = False, aa_prompt_tokens = JNull, aa_completion_tokens = JInt 7, aa_latency_ms = Some 12\<rparr>"

definition empty_table :: audit_table where
  "empty_table = \<lparr>at_rows = [], at_next_id = 1, at_failed = False\<rparr>"

lemma empty_table_facts: "table_inv empty_table" "team_rows empty_table team = []" "verify_chain hm fl key empty_table team = Inr True"
  by (simp_all add: empty_table_def table_inv_def team_rows_def verify_chain_def)

text \<open>A recording cannot fail: the message is ASCII after a chain of hexadecimal hashes.\<close>

lemma compute_ok:
  assumes "\<forall>c\<in>set prev. c < 256" "plain_json (JDict p)"
  shows "\<exists>msg. utf8_encode (prev @ canonical_json fl p) = Inr msg \<and> compute_event_hash hm fl prev p key = Inr (hexdigest (hm key msg))"
proof -
  have "encodable (prev @ canonical_json fl p)"
    using assms enc_ascii [OF plain_canon [OF assms(2)]] by (intro low_encodable) (auto simp: canonical_canon)
  then show ?thesis by (simp add: compute_event_hash_def utf8_encode_def)
qed

definition audit_msg :: bytes where
  "audit_msg = (case utf8_encode (GENESIS_HASH @ canonical_json (\<lambda>_. []) (event_payload audit_example)) of Inr m \<Rightarrow> m | Inl _ \<Rightarrow> [])"

definition toy_hmac :: hmac where
  "toy_hmac key msg = (if msg = audit_msg then replicate 32 1 else replicate 32 2)"

definition genuine_event :: audit_event where
  "genuine_event = \<lparr>ae_id = 1, ae_args = audit_example, ae_prev_hash = GENESIS_HASH, ae_event_hash = hexdigest (replicate 32 1)\<rparr>"

definition edited_event :: audit_event where
  "edited_event = genuine_event\<lparr>ae_args := audit_example\<lparr>aa_session := Some (str ''x'')\<rparr>\<rparr>"

definition table_with :: "audit_event \<Rightarrow> audit_table" where
  "table_with e = \<lparr>at_rows = [e], at_next_id = 2, at_failed = False\<rparr>"

lemma example_plain: "plain_event genuine_event" "plain_event edited_event"
  by (simp_all add: plain_event_def genuine_event_def edited_event_def plain_JDict event_payload_def audit_example_def opt_str_def
      opt_int_def str_def scalar_def surrogate_def)

lemma example_rows: "team_rows (table_with genuine_event) (str ''t'') = [genuine_event]"
  "team_rows (table_with edited_event) (str ''t'') = [edited_event]"
  by (simp_all add: team_rows_def table_with_def genuine_event_def edited_event_def audit_example_def)

lemma example_contents: "canon (JDict (event_payload (ae_args edited_event))) \<noteq> canon (JDict (event_payload (ae_args genuine_event)))"
proof
  assume "canon (JDict (event_payload (ae_args edited_event))) = canon (JDict (event_payload (ae_args genuine_event)))"
  then have "sort_key fst (map (map_prod id canon) (event_payload (ae_args edited_event)))
      = sort_key fst (map (map_prod id canon) (event_payload (ae_args genuine_event)))" unfolding canon.simps by (simp only: json.inject)
  then have same: "set (map (map_prod id canon) (event_payload (ae_args edited_event)))
      = set (map (map_prod id canon) (event_payload (ae_args genuine_event)))" by (metis set_sort)
  have "(str ''session_id'', JStr (str ''x'')) \<in> set (map (map_prod id canon) (event_payload (ae_args edited_event)))"
    by (simp add: event_payload_def edited_event_def opt_str_def)
  moreover have "(str ''session_id'', JStr (str ''x'')) \<notin> set (map (map_prod id canon) (event_payload (ae_args genuine_event)))"
    by (simp add: event_payload_def genuine_event_def audit_example_def opt_str_def opt_int_def str_def)
  ultimately show False using same by blast
qed

lemma example_hashes:
  "compute_event_hash toy_hmac (\<lambda>_. []) GENESIS_HASH (event_payload audit_example) [] = Inr (hexdigest (replicate 32 1))"
  "compute_event_hash toy_hmac (\<lambda>_. []) GENESIS_HASH (event_payload (ae_args edited_event)) [] = Inr (hexdigest (replicate 32 2))"
proof -
  have g: "\<forall>c\<in>set GENESIS_HASH. c < 256" by (simp add: GENESIS_HASH_def)
  obtain m where m: "utf8_encode (GENESIS_HASH @ canonical_json (\<lambda>_. []) (event_payload audit_example)) = Inr m"
    "compute_event_hash toy_hmac (\<lambda>_. []) GENESIS_HASH (event_payload audit_example) [] = Inr (hexdigest (toy_hmac [] m))"
    using compute_ok [OF g example_plain(1) [unfolded plain_event_def], of "\<lambda>_. []" toy_hmac "[]"]
    by (auto simp: genuine_event_def)
  obtain m' where m': "utf8_encode (GENESIS_HASH @ canonical_json (\<lambda>_. []) (event_payload (ae_args edited_event))) = Inr m'"
    "compute_event_hash toy_hmac (\<lambda>_. []) GENESIS_HASH (event_payload (ae_args edited_event)) [] = Inr (hexdigest (toy_hmac [] m'))"
    using compute_ok [OF g example_plain(2) [unfolded plain_event_def], of "\<lambda>_. []" toy_hmac "[]"] by blast
  have "m = audit_msg" using m(1) by (simp add: audit_msg_def)
  moreover have "m' \<noteq> audit_msg"
  proof
    assume "m' = audit_msg"
    then have "utf8_encode (GENESIS_HASH @ canonical_json (\<lambda>_. []) (event_payload (ae_args edited_event))) = Inr m"
      using m' \<open>m = audit_msg\<close> by simp
    then have "canonical_json (\<lambda>_. []) (event_payload (ae_args edited_event)) = canonical_json (\<lambda>_. []) (event_payload (ae_args genuine_event))"
      using utf8_encode_inj m(1) by (fastforce simp: genuine_event_def)
    then show False
      using canonical_inj [OF example_plain(2,1) [unfolded plain_event_def]] example_contents unfolding canonical_json_def by blast
  qed
  ultimately show "compute_event_hash toy_hmac (\<lambda>_. []) GENESIS_HASH (event_payload audit_example) [] = Inr (hexdigest (replicate 32 1))"
    "compute_event_hash toy_hmac (\<lambda>_. []) GENESIS_HASH (event_payload (ae_args edited_event)) [] = Inr (hexdigest (replicate 32 2))"
    using m(2) m'(2) by (simp_all add: toy_hmac_def)
qed

lemma visible_tag: "\<forall>c\<in>set (hexdigest (replicate 32 1)). c < 256"
proof -
  have "set (hexdigest (replicate n (1 :: 8 word))) \<subseteq> {48, 49}" for n
    by (induction n) (auto simp: hexdigest_def hex_digit_def)
  then show ?thesis by fastforce
qed

lemma example_tags: "hexdigest (replicate 32 1) \<noteq> hexdigest (replicate 32 2)" "hexdigest (replicate 32 1) \<noteq> GENESIS_HASH"
proof -
  have r: "replicate 32 x = x # replicate 31 x" "replicate 64 y = y # y # replicate 62 y" for x :: "8 word" and y :: nat
    by (simp_all add: eval_nat_numeral)
  show "hexdigest (replicate 32 1) \<noteq> hexdigest (replicate 32 2)" "hexdigest (replicate 32 1) \<noteq> GENESIS_HASH"
    unfolding r GENESIS_HASH_def by (simp_all add: hexdigest_def hex_digit_def)
qed

definition int4 :: column where
  "int4 v = (case v of JNull \<Rightarrow> Some JNull | JInt i \<Rightarrow> if - (2 ^ 31) \<le> i \<and> i < 2 ^ 31 then Some (JInt i) else None
     | JBool b \<Rightarrow> Some (JInt (if b then 1 else 0)) | _ \<Rightarrow> None)"

lemma int4_ok: "column_ok int4"
  by (auto simp: column_ok_def int4_def is_count_def split: json.splits if_splits)

lemma example_stored: "stored int4 audit_example = Some audit_example" "declared audit_example"
  by (simp_all add: stored_def int4_def audit_example_def declared_def opt_int_def)

lemma example_record: "record_event toy_hmac (\<lambda>_. []) [] int4 audit_example empty_table = Inr (genuine_event, table_with genuine_event)"
proof -
  have "last_hash empty_table (aa_team audit_example) = GENESIS_HASH" by (simp add: last_hash_def empty_table_facts)
  then show ?thesis
    by (simp add: record_event_def insert_event_def example_hashes example_stored genuine_event_def table_with_def Let_def)
      (simp add: empty_table_def)
qed

lemma second_recorded:
  "\<exists>e t. record_event toy_hmac (\<lambda>_. []) [] int4 audit_example (table_with genuine_event) = Inr (e, t)"
proof -
  have "last_hash (table_with genuine_event) (aa_team audit_example) = hexdigest (replicate 32 1)"
    using example_rows(1) by (simp add: last_hash_def audit_example_def) (simp add: genuine_event_def)
  then show ?thesis
    using compute_ok [OF visible_tag example_plain(1) [unfolded plain_event_def], of "\<lambda>_. []" toy_hmac "[]"]
    by (auto simp: record_event_def insert_event_def example_stored genuine_event_def Let_def)
qed

theorem record_keeps_chain_witness:
  "verify_chain toy_hmac (\<lambda>_. []) [] (table_with genuine_event) (str ''t'') = Inr True"
  using record_keeps_chain [OF empty_table_facts(1) int4_ok example_record] empty_table_facts(3) example_stored(2) by blast

theorem tampering_detected_witness:
  "verify_chain toy_hmac (\<lambda>_. []) [] (table_with edited_event) (str ''t'') \<noteq> Inr True"
proof -
  let ?t = "table_with genuine_event" and ?t' = "table_with edited_event"
  have v: "verify_chain toy_hmac (\<lambda>_. []) [] ?t (str ''t'') = Inr True"
    by (simp add: verify_chain_def example_rows) (simp add: genuine_event_def example_hashes)
  have "compute_event_hash toy_hmac (\<lambda>_. []) (ae_prev_hash edited_event) (event_payload (ae_args edited_event)) [] \<noteq> Inr (ae_event_hash edited_event)"
    using example_hashes(2) example_tags(1) by (simp add: edited_event_def genuine_event_def)
  then have "unforged toy_hmac (\<lambda>_. []) [] (team_rows ?t (str ''t'')) (team_rows ?t' (str ''t''))"
    using example_tags(2) unfolding unforged_def example_rows by (simp add: genuine_event_def hexdigest_length)
  from tampering_detected [OF v this] have "verify_chain toy_hmac (\<lambda>_. []) [] ?t' (str ''t'') = Inr True \<longleftrightarrow>
      (\<exists>n. map content [edited_event] = map content (take n [genuine_event]))"
    using example_plain by (simp add: example_rows)
  moreover have "map content [edited_event] \<noteq> map content (take n [genuine_event])" for n
    using example_contents by (cases n) (simp_all add: content_def)
  ultimately show ?thesis by blast
qed

text \<open>Two events recorded in both sinks, from the empty ones.\<close>

theorem mem_sink_refines_witness:
  "\<exists>e2 t2 m1 m2. record_event toy_hmac (\<lambda>_. []) [] int4 audit_example (table_with genuine_event) = Inr (e2, t2)
     \<and> mem_record toy_hmac (\<lambda>_. []) [] audit_example [] = Inr (event_dict genuine_event, m1)
     \<and> mem_record toy_hmac (\<lambda>_. []) [] audit_example m1 = Inr (event_dict e2, m2)
     \<and> length (events_for m2 (str ''t'')) = 2
     \<and> mem_verify toy_hmac (\<lambda>_. []) [] m2 (str ''t'') = verify_chain toy_hmac (\<lambda>_. []) [] t2 (str ''t'')"
proof -
  note ex = int4_ok example_stored(2)
  have "sinks_agree empty_table []" by (simp add: sinks_agree_def empty_table_facts events_for_def)
  from mem_sink_refines [OF this ex, of toy_hmac "\<lambda>_. []" "[]"] example_record obtain m1 where
    1: "mem_record toy_hmac (\<lambda>_. []) [] audit_example [] = Inr (event_dict genuine_event, m1)" "sinks_agree (table_with genuine_event) m1"
    by auto
  obtain e2 t2 where 2: "record_event toy_hmac (\<lambda>_. []) [] int4 audit_example (table_with genuine_event) = Inr (e2, t2)"
    using second_recorded by blast
  from mem_sink_refines [OF 1(2) ex, of toy_hmac "\<lambda>_. []" "[]"] 2 obtain m2 where
    3: "mem_record toy_hmac (\<lambda>_. []) [] audit_example m1 = Inr (event_dict e2, m2)" "sinks_agree t2 m2" by auto
  have "team_rows t2 (str ''t'') = [genuine_event, e2]"
    using record_event_rows(2) [OF _ 2, of "str ''t''"] 1(2) example_rows(1) by (simp add: sinks_agree_def audit_example_def)
  then have "length (events_for m2 (str ''t'')) = 2" using 3(2) by (simp add: sinks_agree_def)
  moreover have "mem_verify toy_hmac (\<lambda>_. []) [] m2 (str ''t'') = verify_chain toy_hmac (\<lambda>_. []) [] t2 (str ''t'')"
    using mem_sink_refines [OF 3(2) ex, of toy_hmac "\<lambda>_. []" "[]"] by blast
  ultimately show ?thesis using 1(1) 2 3(1) by blast
qed

end
