(* ===== verification/Audit_Concurrency.thy ===== *)
theory Audit_Concurrency
  imports Audit_Log
begin

text \<open>
  \<open>record_event\<close> of \<open>app/audit.py\<close> in interleaved transactions: the advisory lock of the team, the last hash, the
  insert and the commit as separate steps of many requests. A transaction sees the committed rows (READ COMMITTED);
  ids come from a sequence that no rollback turns back; the lock is held to the end of the transaction. The lock key
  of a team (\<open>hashtext\<close>) is a parameter: teams may share one. Where \<open>pg_advisory_xact_lock\<close> does not exist the code
  goes on without it: \<open>locking\<close> is False there.
\<close>

section \<open>Transactions\<close>

datatype phase = Idle | Holding audit_args | HasRead audit_args pystr | Inserted audit_event

record cdb =
  cd_table :: audit_table                  \<comment> \<open>the committed rows and the sequence\<close>
  cd_lock :: "int \<Rightarrow> nat option"
  cd_tx :: "nat \<Rightarrow> phase"

definition start :: "audit_table \<Rightarrow> cdb" where
  "start t = \<lparr>cd_table = t, cd_lock = (\<lambda>_. None), cd_tx = (\<lambda>_. Idle)\<rparr>"

fun tx_team :: "phase \<Rightarrow> pystr option" where
  "tx_team Idle = None"
| "tx_team (Holding a) = Some (aa_team a)"
| "tx_team (HasRead a prev) = Some (aa_team a)"
| "tx_team (Inserted e) = Some (aa_team (ae_args e))"

definition goes :: "nat \<Rightarrow> phase \<Rightarrow> cdb \<Rightarrow> cdb" where
  "goes i p d = d\<lparr>cd_tx := (cd_tx d)(i := p)\<rparr>"

definition finish :: "nat \<Rightarrow> cdb \<Rightarrow> cdb" where
  "finish i d = d\<lparr>cd_tx := (cd_tx d)(i := Idle), cd_lock := (\<lambda>k. if cd_lock d k = Some i then None else cd_lock d k)\<rparr>"

text \<open>The steps of a transaction \<open>i\<close> that records an event with declared token counts. \<open>insert\<close> is the flush,
  the row stays its own until the commit.\<close>

inductive tx_step :: "bool \<Rightarrow> (pystr \<Rightarrow> int) \<Rightarrow> hmac \<Rightarrow> (rat \<Rightarrow> pystr) \<Rightarrow> bytes \<Rightarrow> column \<Rightarrow> cdb \<Rightarrow> cdb \<Rightarrow> bool"
  for locking lk hm fl key col where
  acquire: "cd_tx d i = Idle \<Longrightarrow> declared a \<Longrightarrow> locking \<longrightarrow> cd_lock d (lk (aa_team a)) = None \<Longrightarrow>
    tx_step locking lk hm fl key col d
      (goes i (Holding a) (d\<lparr>cd_lock := (cd_lock d)(lk (aa_team a) := Some i)\<rparr>))"
| read: "cd_tx d i = Holding a \<Longrightarrow>
    tx_step locking lk hm fl key col d (goes i (HasRead a (last_hash (cd_table d) (aa_team a))) d)"
| insert: "cd_tx d i = HasRead a prev \<Longrightarrow> compute_event_hash hm fl prev (event_payload a) key = Inr h \<Longrightarrow>
    insert_event col a prev h (cd_table d) = Inr (e, t') \<Longrightarrow>
    tx_step locking lk hm fl key col d
      (goes i (Inserted e) (d\<lparr>cd_table := (cd_table d)\<lparr>at_next_id := at_next_id t'\<rparr>\<rparr>))"
| commit: "cd_tx d i = Inserted e \<Longrightarrow>
    tx_step locking lk hm fl key col d
      (finish i (d\<lparr>cd_table := (cd_table d)\<lparr>at_rows := at_rows (cd_table d) @ [e]\<rparr>\<rparr>))"
| rollback: "cd_tx d i \<noteq> Idle \<Longrightarrow> tx_step locking lk hm fl key col d (finish i d)"

section \<open>The invariant\<close>

definition linked :: "hmac \<Rightarrow> (rat \<Rightarrow> pystr) \<Rightarrow> bytes \<Rightarrow> audit_table \<Rightarrow> audit_event \<Rightarrow> bool" where
  "linked hm fl key t e \<longleftrightarrow> ae_prev_hash e = last_hash t (aa_team (ae_args e))
     \<and> compute_event_hash hm fl (ae_prev_hash e) (event_payload (ae_args e)) key = Inr (ae_event_hash e)
     \<and> ae_id e < at_next_id t \<and> (\<forall>f\<in>set (at_rows t). aa_team (ae_args f) = aa_team (ae_args e) \<longrightarrow> ae_id f < ae_id e)"

text \<open>What a transaction in progress knows is still so.\<close>

fun current :: "hmac \<Rightarrow> (rat \<Rightarrow> pystr) \<Rightarrow> bytes \<Rightarrow> audit_table \<Rightarrow> phase \<Rightarrow> bool" where
  "current hm fl key t Idle = True"
| "current hm fl key t (Holding a) = declared a"
| "current hm fl key t (HasRead a prev) = (declared a \<and> prev = last_hash t (aa_team a))"
| "current hm fl key t (Inserted e) = linked hm fl key t e"

definition locked_inv :: "(pystr \<Rightarrow> int) \<Rightarrow> hmac \<Rightarrow> (rat \<Rightarrow> pystr) \<Rightarrow> bytes \<Rightarrow> cdb \<Rightarrow> bool" where
  "locked_inv lk hm fl key d \<longleftrightarrow> table_inv (cd_table d)
     \<and> (\<forall>i team. tx_team (cd_tx d i) = Some team \<longrightarrow> cd_lock d (lk team) = Some i)
     \<and> (\<forall>i. current hm fl key (cd_table d) (cd_tx d i))
     \<and> (\<forall>team. verify_chain hm fl key (cd_table d) team = Inr True)"

lemma team_rows_cong: "at_rows t' = at_rows t \<Longrightarrow> team_rows t' team = team_rows t team"
  "at_rows t' = at_rows t \<Longrightarrow> last_hash t' team = last_hash t team"
  by (simp_all add: team_rows_def last_hash_def)

lemma team_rows_append:
  assumes "at_rows t' = at_rows t @ [e]" "\<forall>f\<in>set (at_rows t). aa_team (ae_args f) = aa_team (ae_args e) \<longrightarrow> ae_id f < ae_id e"
  shows "team_rows t' team = (if team = aa_team (ae_args e) then team_rows t team @ [e] else team_rows t team)"
proof -
  have "\<forall>f\<in>set (filter (\<lambda>f. aa_team (ae_args f) = aa_team (ae_args e)) (at_rows t)). ae_id f \<le> ae_id e" using assms(2) by (auto intro: less_imp_le)
  then show ?thesis using assms(1) sort_key_snoc [of _ ae_id e] by (auto simp: team_rows_def)
qed

text \<open>A step that leaves the rows alone and lets the sequence grow.\<close>

lemma linked_grows: "at_rows t' = at_rows t \<Longrightarrow> at_next_id t \<le> at_next_id t' \<Longrightarrow> linked hm fl key t e \<Longrightarrow> linked hm fl key t' e"
  unfolding linked_def by (metis order.strict_trans2 team_rows_cong(2))

lemma current_grows: "at_rows t' = at_rows t \<Longrightarrow> at_next_id t \<le> at_next_id t' \<Longrightarrow> current hm fl key t p \<Longrightarrow> current hm fl key t' p"
  using team_rows_cong(2) [of t' t] linked_grows [of t' t] by (cases p) simp_all

text \<open>A committed row changes nothing for a transaction of another team.\<close>

lemma current_other:
  assumes "at_rows t' = at_rows t @ [e]" "at_next_id t' = at_next_id t" "tx_team p \<noteq> Some (aa_team (ae_args e))" "current hm fl key t p"
    and "\<forall>f\<in>set (at_rows t). aa_team (ae_args f) = aa_team (ae_args e) \<longrightarrow> ae_id f < ae_id e"
  shows "current hm fl key t' p"
proof -
  have "team \<noteq> aa_team (ae_args e) \<Longrightarrow> last_hash t' team = last_hash t team" for team
    using team_rows_append [OF assms(1,5), of team] by (simp add: last_hash_def)
  then show ?thesis using assms(1-4) by (cases p) (auto simp: linked_def)
qed

lemma locked_inv_start: "table_inv t \<Longrightarrow> \<forall>team. verify_chain hm fl key t team = Inr True \<Longrightarrow> locked_inv lk hm fl key (start t)"
  by (simp add: locked_inv_def start_def)

lemma locked_inv_step:
  assumes "tx_step True lk hm fl key col d d'" "column_ok col" "locked_inv lk hm fl key d"
  shows "locked_inv lk hm fl key d' \<and> (\<exists>es. \<forall>team. \<exists>fs. team_rows (cd_table d') team = team_rows (cd_table d) team @ fs \<and> set fs \<subseteq> set es)"
proof -
  have inv: "table_inv (cd_table d)" and own: "\<And>i team. tx_team (cd_tx d i) = Some team \<Longrightarrow> cd_lock d (lk team) = Some i"
    and cur: "\<And>i. current hm fl key (cd_table d) (cd_tx d i)" and ver: "\<And>team. verify_chain hm fl key (cd_table d) team = Inr True"
    using assms(3) by (simp_all add: locked_inv_def)
  from assms(1) show ?thesis
  proof cases
    case (acquire i a)
    have t: "cd_table d' = cd_table d" and tx: "cd_tx d' = (cd_tx d)(i := Holding a)"
      and l: "cd_lock d' = (cd_lock d)(lk (aa_team a) := Some i)" using acquire(1) by (simp_all add: goes_def)
    have "cd_lock d' (lk team) = Some j" if "tx_team (cd_tx d' j) = Some team" for j team
      using that own [of j team] acquire(4) by (cases "j = i") (auto simp: tx l)
    moreover have "current hm fl key (cd_table d') (cd_tx d' j)" for j using cur [of j] acquire(3) by (simp add: t tx)
    ultimately show ?thesis using inv ver by (simp add: locked_inv_def t)
  next
    case (read i a)
    have t: "cd_table d' = cd_table d" and l: "cd_lock d' = cd_lock d"
      and tx: "cd_tx d' = (cd_tx d)(i := HasRead a (last_hash (cd_table d) (aa_team a)))" using read(1) by (simp_all add: goes_def)
    have "cd_lock d' (lk team) = Some j" if "tx_team (cd_tx d' j) = Some team" for j team
      using that own [of j team] read(2) by (cases "j = i") (simp_all add: tx l)
    moreover have "current hm fl key (cd_table d') (cd_tx d' j)" for j using cur [of j] cur [of i] read(2) by (simp add: t tx)
    ultimately show ?thesis using inv ver by (simp add: locked_inv_def t)
  next
    case (insert i a prev h e t')
    have a: "declared a" "prev = last_hash (cd_table d) (aa_team a)" using cur [of i] insert(2) by simp_all
    obtain b where b: "stored col a = Some b" using insert(4) by (auto simp: insert_event_def split: option.splits)
    have "b = a" by (rule stored_declared [OF assms(2) a(1) b])
    then have e: "ae_args e = a" "ae_prev_hash e = prev" "ae_event_hash e = h" "ae_id e = at_next_id (cd_table d)"
      "at_next_id t' = Suc (at_next_id (cd_table d))" using insert(4) b by (auto simp: insert_event_def Let_def)
    have l: "linked hm fl key (cd_table d') e"
    proof -
      have "last_hash (cd_table d') team = last_hash (cd_table d) team" for team
        by (rule team_rows_cong(2)) (simp add: insert(1) goes_def)
      then have "ae_prev_hash e = last_hash (cd_table d') (aa_team (ae_args e))" using a(2) e(1,2) by simp
      moreover have "compute_event_hash hm fl (ae_prev_hash e) (event_payload (ae_args e)) key = Inr (ae_event_hash e)"
        using insert(3) by (simp only: e)
      moreover have "ae_id e < at_next_id (cd_table d')" using insert(1) e(4,5) by (simp add: goes_def)
      moreover have "\<forall>f\<in>set (at_rows (cd_table d')). ae_id f < ae_id e" using insert(1) e(4) inv by (simp add: goes_def table_inv_def)
      ultimately show ?thesis unfolding linked_def by blast
    qed
    have rows: "at_rows (cd_table d') = at_rows (cd_table d)" "at_next_id (cd_table d) \<le> at_next_id (cd_table d')"
      using insert(1) e(5) by (simp_all add: goes_def)
    have tx: "cd_tx d' = (cd_tx d)(i := Inserted e)" "cd_lock d' = cd_lock d" using insert(1) by (simp_all add: goes_def)
    have "table_inv (cd_table d')" using inv rows unfolding table_inv_def by (metis order.strict_trans2)
    moreover have "cd_lock d' (lk team) = Some j" if "tx_team (cd_tx d' j) = Some team" for j team
      using that own [of j team] insert(2) e(1) by (cases "j = i") (simp_all add: tx)
    moreover have "\<forall>j. current hm fl key (cd_table d') (cd_tx d' j)" using current_grows [OF rows cur] l by (simp add: tx)
    moreover have "\<forall>team. verify_chain hm fl key (cd_table d') team = Inr True"
      using ver unfolding verify_chain_def team_rows_cong(1) [OF rows(1)] by blast
    ultimately show ?thesis using team_rows_cong(1) [OF rows(1)] by (simp add: locked_inv_def)
  next
    case (commit i e)
    have l: "linked hm fl key (cd_table d) e" using cur [of i] commit(2) by simp
    have rows: "at_rows (cd_table d') = at_rows (cd_table d) @ [e]" "at_next_id (cd_table d') = at_next_id (cd_table d)"
      using commit(1) by (simp_all add: finish_def)
    have new: "\<forall>f\<in>set (at_rows (cd_table d)). aa_team (ae_args f) = aa_team (ae_args e) \<longrightarrow> ae_id f < ae_id e" using l by (simp add: linked_def)
    note tr = team_rows_append [OF rows(1) new]
    have tx: "cd_tx d' = (cd_tx d)(i := Idle)" using commit(1) by (simp add: finish_def)
    have other: "tx_team (cd_tx d j) \<noteq> Some (aa_team (ae_args e))" if "j \<noteq> i" for j
      using own [of i] own [of j] commit(2) that by auto
    have "table_inv (cd_table d')" using inv rows l by (auto simp: table_inv_def linked_def)
    moreover have "cd_lock d' (lk team) = Some j" if "tx_team (cd_tx d' j) = Some team" for j team
      using that own [of j team] commit(1) by (cases "j = i") (simp_all add: finish_def)
    moreover have "\<forall>j. current hm fl key (cd_table d') (cd_tx d' j)"
      using current_other [OF rows other cur new] by (simp add: tx)
    moreover have "\<forall>team. verify_chain hm fl key (cd_table d') team = Inr True"
    proof
      fix team show "verify_chain hm fl key (cd_table d') team = Inr True"
        using ver [of team] l tr [of team] by (auto simp: verify_chain_def verify_loop_append linked_def last_hash_end)
    qed
    ultimately have "locked_inv lk hm fl key d'" by (simp add: locked_inv_def)
    moreover have "\<exists>fs. team_rows (cd_table d') team = team_rows (cd_table d) team @ fs \<and> set fs \<subseteq> set [e]" for team
      using tr [of team] by (cases "team = aa_team (ae_args e)") auto
    ultimately show ?thesis by blast
  next
    case (rollback i)
    have t: "cd_table d' = cd_table d" using rollback(1) by (simp add: finish_def)
    have "cd_lock d' (lk team) = Some j" if "tx_team (cd_tx d' j) = Some team" for j team
      using that own [of j team] rollback(1) by (cases "j = i") (simp_all add: finish_def)
    moreover have "current hm fl key (cd_table d') (cd_tx d' j)" for j using cur [of j] rollback(1) by (simp add: finish_def)
    ultimately show ?thesis using inv ver by (simp add: locked_inv_def t)
  qed
qed

text \<open>A transaction that is not disturbed does what \<open>record_event\<close> does.\<close>

lemma serial_records:
  assumes "record_event hm fl key col a (cd_table d) = Inr (e, t')" "cd_tx d i = Idle" "declared a" "cd_lock d (lk (aa_team a)) = None"
  shows "\<exists>d'. (tx_step locking lk hm fl key col)\<^sup>*\<^sup>* d d' \<and> cd_table d' = t' \<and> cd_tx d' i = Idle \<and> cd_lock d' (lk (aa_team a)) = None"
proof -
  let ?s = "tx_step locking lk hm fl key col" and ?prev = "last_hash (cd_table d) (aa_team a)"
  obtain h where h: "compute_event_hash hm fl ?prev (event_payload a) key = Inr h" "insert_event col a ?prev h (cd_table d) = Inr (e, t')"
    using assms(1) by (auto simp: record_event_def Let_def rbind_Inr_iff)
  have t': "t' = (cd_table d)\<lparr>at_rows := at_rows (cd_table d) @ [e], at_next_id := at_next_id t'\<rparr>"
    using h(2) by (auto simp: insert_event_def Let_def split: option.splits)
  define d1 where "d1 = goes i (Holding a) (d\<lparr>cd_lock := (cd_lock d)(lk (aa_team a) := Some i)\<rparr>)"
  define d2 where "d2 = goes i (HasRead a (last_hash (cd_table d1) (aa_team a))) d1"
  define d3 where "d3 = goes i (Inserted e) (d2\<lparr>cd_table := (cd_table d2)\<lparr>at_next_id := at_next_id t'\<rparr>\<rparr>)"
  define d4 where "d4 = finish i (d3\<lparr>cd_table := (cd_table d3)\<lparr>at_rows := at_rows (cd_table d3) @ [e]\<rparr>\<rparr>)"
  have "?s d d1" unfolding d1_def by (rule tx_step.acquire) (simp_all add: assms)
  moreover have "?s d1 d2" unfolding d2_def by (rule tx_step.read) (simp add: d1_def goes_def)
  moreover have "?s d2 d3"
    unfolding d3_def by (rule tx_step.insert [where a = a and prev = ?prev and h = h]) (simp_all add: d2_def d1_def goes_def h)
  moreover have "?s d3 d4" unfolding d4_def by (rule tx_step.commit) (simp add: d3_def goes_def)
  ultimately have "?s\<^sup>*\<^sup>* d d4" by (meson rtranclp.rtrancl_into_rtrancl rtranclp.rtrancl_refl)
  moreover have "cd_table d4 = t'" by (subst t') (simp add: d4_def d3_def d2_def d1_def goes_def finish_def)
  moreover have "cd_tx d4 i = Idle" "cd_lock d4 (lk (aa_team a)) = None" by (simp_all add: d4_def d3_def d2_def d1_def goes_def finish_def)
  ultimately show ?thesis by blast
qed

section \<open>Properties\<close>

text \<open>C23. The lock makes the chains safe: in every interleaving of recordings under the lock, from a table whose chains
  verify, all chains verify at every moment, and no committed event is lost or moved. Without the lock two recordings
  can fork a chain: \<open>unlocked_forks\<close>.\<close>

theorem interleaved_chains_verify:
  assumes "column_ok col" "table_inv t" "\<forall>team. verify_chain hm fl key t team = Inr True"
    and "(tx_step True lk hm fl key col)\<^sup>*\<^sup>* (start t) d"
  shows "verify_chain hm fl key (cd_table d) team = Inr True \<and> (\<exists>es. team_rows (cd_table d) team = team_rows t team @ es)"
proof -
  have "locked_inv lk hm fl key d \<and> (\<exists>es. team_rows (cd_table d) team = team_rows t team @ es)"
    using assms(4)
  proof (induction rule: rtranclp_induct)
    case base
    then show ?case using locked_inv_start [OF assms(2,3)] by (simp add: start_def)
  next
    case (step y z)
    then have "locked_inv lk hm fl key z" "\<exists>fs. team_rows (cd_table z) team = team_rows (cd_table y) team @ fs"
      using locked_inv_step [OF step(2) assms(1)] by blast+
    then show ?case using step.IH by force
  qed
  then show ?thesis by (simp add: locked_inv_def)
qed

section \<open>Witnesses\<close>

definition example_db :: "nat \<Rightarrow> (int \<Rightarrow> nat option) \<Rightarrow> phase \<Rightarrow> phase \<Rightarrow> audit_event list \<Rightarrow> cdb" where
  "example_db n l p q rows =
     \<lparr>cd_table = \<lparr>at_rows = rows, at_next_id = n, at_failed = False\<rparr>, cd_lock = l, cd_tx = (\<lambda>_. Idle)(0 := p, 1 := q)\<rparr>"

definition second_event :: audit_event where "second_event = genuine_event\<lparr>ae_id := 2\<rparr>"

lemma example_insert:
  "insert_event int4 audit_example GENESIS_HASH (hexdigest (replicate 32 1)) \<lparr>at_rows = rows, at_next_id = n, at_failed = f\<rparr>
     = Inr (genuine_event\<lparr>ae_id := n\<rparr>, \<lparr>at_rows = rows @ [genuine_event\<lparr>ae_id := n\<rparr>], at_next_id = Suc n, at_failed = f\<rparr>)"
  by (simp add: insert_event_def example_stored genuine_event_def Let_def)

lemma empty_last: "last_hash \<lparr>at_rows = [], at_next_id = n, at_failed = f\<rparr> team = GENESIS_HASH"
  by (simp add: last_hash_def team_rows_def)

text \<open>Two recordings that read the same last hash.\<close>

lemma unlocked_forks:
  "\<exists>d. (tx_step False (\<lambda>_. 0) toy_hmac (\<lambda>_. []) [] int4)\<^sup>*\<^sup>* (start empty_table) d \<and>
     verify_chain toy_hmac (\<lambda>_. []) [] (cd_table d) (str ''t'') = Inr False"
proof -
  let ?s = "tx_step False (\<lambda>_. 0) toy_hmac (\<lambda>_. []) [] int4" and ?a = audit_example
  let ?l = "\<lambda>i. (\<lambda>_. None)((0::int) := Some (i::nat))" and ?r = "HasRead audit_example GENESIS_HASH"
  have s0: "start empty_table = example_db 1 (\<lambda>_. None) Idle Idle []" by (simp add: start_def example_db_def empty_table_def fun_eq_iff)
  have f1: "finish 0 ((example_db 3 (?l 1) (Inserted genuine_event) (Inserted second_event) [])\<lparr>cd_table :=
      (cd_table (example_db 3 (?l 1) (Inserted genuine_event) (Inserted second_event) []))\<lparr>at_rows :=
        at_rows (cd_table (example_db 3 (?l 1) (Inserted genuine_event) (Inserted second_event) [])) @ [genuine_event]\<rparr>\<rparr>)
      = example_db 3 (?l 1) Idle (Inserted second_event) [genuine_event]"
    by (auto simp: example_db_def finish_def fun_eq_iff)
  have f2: "finish 1 ((example_db 3 (?l 1) Idle (Inserted second_event) [genuine_event])\<lparr>cd_table :=
      (cd_table (example_db 3 (?l 1) Idle (Inserted second_event) [genuine_event]))\<lparr>at_rows :=
        at_rows (cd_table (example_db 3 (?l 1) Idle (Inserted second_event) [genuine_event])) @ [second_event]\<rparr>\<rparr>)
      = example_db 3 (\<lambda>_. None) Idle Idle [genuine_event, second_event]"
    by (auto simp: example_db_def finish_def fun_eq_iff)
  have g1: "genuine_event\<lparr>ae_id := Suc 0\<rparr> = genuine_event" by (simp add: genuine_event_def)
  have "?s (example_db 1 (\<lambda>_. None) Idle Idle []) (example_db 1 (?l 0) (Holding ?a) Idle [])"
    using tx_step.acquire [where i = 0 and a = ?a and d = "example_db 1 (\<lambda>_. None) Idle Idle []" and locking = False and lk = "\<lambda>_. 0"]
    by (simp add: example_db_def goes_def example_stored fun_upd_twist)
  moreover have "?s (example_db 1 (?l 0) (Holding ?a) Idle []) (example_db 1 (?l 1) (Holding ?a) (Holding ?a) [])"
    using tx_step.acquire [where i = 1 and a = ?a and d = "example_db 1 (?l 0) (Holding ?a) Idle []" and locking = False and lk = "\<lambda>_. 0"]
    by (simp add: example_db_def goes_def example_stored)
  moreover have "?s (example_db 1 (?l 1) (Holding ?a) (Holding ?a) []) (example_db 1 (?l 1) ?r (Holding ?a) [])"
    using tx_step.read [where i = 0 and a = ?a and d = "example_db 1 (?l 1) (Holding ?a) (Holding ?a) []"]
    by (simp add: example_db_def goes_def empty_last fun_upd_twist)
  moreover have "?s (example_db 1 (?l 1) ?r (Holding ?a) []) (example_db 1 (?l 1) ?r ?r [])"
    using tx_step.read [where i = 1 and a = ?a and d = "example_db 1 (?l 1) ?r (Holding ?a) []"]
    by (simp add: example_db_def goes_def empty_last)
  moreover have "?s (example_db 1 (?l 1) ?r ?r []) (example_db 2 (?l 1) (Inserted genuine_event) ?r [])"
    using tx_step.insert [where i = 0 and a = ?a and d = "example_db 1 (?l 1) ?r ?r []" and col = int4 and locking = False
        and lk = "\<lambda>_. 0" and e = genuine_event and t' = "\<lparr>at_rows = [genuine_event], at_next_id = 2, at_failed = False\<rparr>", OF _ example_hashes(1)]
    by (simp add: example_db_def goes_def example_insert g1 fun_upd_twist)
  moreover have "?s (example_db 2 (?l 1) (Inserted genuine_event) ?r []) (example_db 3 (?l 1) (Inserted genuine_event) (Inserted second_event) [])"
    using tx_step.insert [where i = 1 and a = ?a and d = "example_db 2 (?l 1) (Inserted genuine_event) ?r []" and col = int4 and locking = False
        and lk = "\<lambda>_. 0" and e = second_event and t' = "\<lparr>at_rows = [second_event], at_next_id = 3, at_failed = False\<rparr>", OF _ example_hashes(1)]
    by (simp add: example_db_def goes_def example_insert second_event_def)
  moreover have "?s (example_db 3 (?l 1) (Inserted genuine_event) (Inserted second_event) []) (example_db 3 (?l 1) Idle (Inserted second_event) [genuine_event])"
    using tx_step.commit [where i = 0 and e = genuine_event and d = "example_db 3 (?l 1) (Inserted genuine_event) (Inserted second_event) []"]
    unfolding f1 [symmetric] by (simp add: example_db_def)
  moreover have "?s (example_db 3 (?l 1) Idle (Inserted second_event) [genuine_event]) (example_db 3 (\<lambda>_. None) Idle Idle [genuine_event, second_event])"
    using tx_step.commit [where i = 1 and e = second_event and d = "example_db 3 (?l 1) Idle (Inserted second_event) [genuine_event]"]
    unfolding f2 [symmetric] by (simp add: example_db_def)
  ultimately have "?s\<^sup>*\<^sup>* (start empty_table) (example_db 3 (\<lambda>_. None) Idle Idle [genuine_event, second_event])"
    unfolding s0 by (meson rtranclp.rtrancl_into_rtrancl rtranclp.rtrancl_refl)
  moreover have "team_rows (cd_table (example_db 3 (\<lambda>_. None) Idle Idle [genuine_event, second_event])) (str ''t'') = [genuine_event, second_event]"
    by (simp add: example_db_def team_rows_def second_event_def genuine_event_def audit_example_def)
  moreover have "verify_loop toy_hmac (\<lambda>_. []) [] GENESIS_HASH [genuine_event, second_event] = Inr False"
    using example_tags(2) by (simp add: second_event_def genuine_event_def example_hashes(1))
  ultimately show ?thesis unfolding verify_chain_def by metis
qed

text \<open>Two recordings under the lock, one after the other.\<close>

theorem interleaved_chains_verify_witness:
  "\<exists>e d. (tx_step True (\<lambda>_. 0) toy_hmac (\<lambda>_. []) [] int4)\<^sup>*\<^sup>* (start empty_table) d \<and> team_rows (cd_table d) (str ''t'') = [genuine_event, e]
     \<and> verify_chain toy_hmac (\<lambda>_. []) [] (cd_table d) (str ''t'') = Inr True"
proof -
  let ?s = "tx_step True (\<lambda>_. 0) toy_hmac (\<lambda>_. []) [] int4"
  obtain d1 where d1: "?s\<^sup>*\<^sup>* (start empty_table) d1" "cd_table d1 = table_with genuine_event" "cd_tx d1 0 = Idle" "cd_lock d1 0 = None"
    using serial_records [OF _ _ example_stored(2), of toy_hmac "\<lambda>_. []" "[]" int4 "start empty_table" genuine_event
        "table_with genuine_event" 0 "\<lambda>_. 0" True] example_record by (auto simp: start_def)
  obtain e t where e: "record_event toy_hmac (\<lambda>_. []) [] int4 audit_example (table_with genuine_event) = Inr (e, t)"
    using second_recorded by blast
  obtain d2 where d2: "?s\<^sup>*\<^sup>* d1 d2" "cd_table d2 = t"
    using serial_records [OF _ d1(3) example_stored(2), of toy_hmac "\<lambda>_. []" "[]" int4 e t "\<lambda>_. 0" True] e d1(2,4) by auto
  have run: "?s\<^sup>*\<^sup>* (start empty_table) d2" using d1(1) d2(1) by (rule rtranclp_trans)
  have "table_inv (table_with genuine_event)" using record_event_rows(1) [OF empty_table_facts(1) example_record] .
  then have "team_rows t (str ''t'') = [genuine_event, e]"
    using record_event_rows(2) [OF _ e, of "str ''t''"] example_rows(1) by (simp add: audit_example_def)
  moreover have "\<forall>team. verify_chain toy_hmac (\<lambda>_. []) [] empty_table team = Inr True" using empty_table_facts(3) by blast
  ultimately show ?thesis
    using interleaved_chains_verify [OF int4_ok empty_table_facts(1) _ run, of "str ''t''"] d2(2) run by blast
qed

end
