(* ===== verification/Gateway.thy ===== *)
theory Gateway
  imports Config Json_Text Openai_Schema
begin

text \<open>
  \<open>app/gateway/base.py\<close>, \<open>openai.py\<close>, \<open>azure.py\<close> and \<open>do_genai.py\<close>: the provider contract, its
  registry, the shared builders and the adapters that pass an OpenAI payload through. The HTTP
  client is a parameter: a request is answered by a response or by the message of an
  \<open>httpx.HTTPError\<close>. An asynchronous generator is the list of what it yields and the exception
  that ends it, if one does. The clock is read once per request.
\<close>

section \<open>Environment\<close>

record http_request =
  rq_url :: pystr
  rq_params :: "(pystr \<times> pystr) list"
  rq_headers :: "(pystr \<times> pystr) list"
  rq_json :: json

record http_response =
  rs_status :: int
  rs_text :: pystr
  rs_json :: "json option"          \<comment> \<open>\<open>None\<close>: \<open>resp.json()\<close> raises\<close>

record http_stream =
  hs_status :: int
  hs_body :: pystr                  \<comment> \<open>\<open>repr(body[:200])\<close>\<close>
  hs_lines :: "pystr list"
  hs_error :: "pystr option"        \<comment> \<open>the transport error after the lines\<close>

record gateway_env =
  ge_ucd :: ucd
  ge_loads :: "pystr \<Rightarrow> json res"
  ge_int :: "pystr \<Rightarrow> int res"
  ge_now :: int
  ge_uuid :: pystr
  ge_post :: "http_request \<Rightarrow> pystr + http_response"
  ge_stream :: "http_request \<Rightarrow> pystr + http_stream"
  ge_boto :: "pystr \<Rightarrow> (pystr \<Rightarrow> json \<Rightarrow> pystr + json) option"

type_synonym chunks = "json list \<times> exn option"

record provider =
  pv_name :: pystr
  pv_default_model :: pystr
  pv_complete :: "dict \<Rightarrow> json res"
  pv_stream :: "dict \<Rightarrow> chunks"

section \<open>Registry\<close>

type_synonym factory = "settings \<Rightarrow> provider"
type_synonym registry = "(pystr \<times> factory) list"
type_synonym instances = "(pystr \<times> provider) list"

definition register_provider :: "pystr \<Rightarrow> factory \<Rightarrow> registry \<Rightarrow> registry" where
  "register_provider name fac reg = AList.update name fac reg"

definition available_providers :: "registry \<Rightarrow> pystr list" where
  "available_providers reg = sort (map fst reg)"

definition get_provider :: "registry \<Rightarrow> pystr \<Rightarrow> settings \<Rightarrow> instances \<Rightarrow> (provider \<times> instances) res" where
  "get_provider reg name st inst =
     (case map_of reg name of
        None \<Rightarrow> Inl (ProviderError (str ''unknown or unconfigured provider '' @ [39] @ name @ [39]) 400 name)
      | Some fac \<Rightarrow>
          (case map_of inst name of
             Some p \<Rightarrow> Inr (p, inst)
           | None \<Rightarrow> Inr (fac st, AList.update name (fac st) inst)))"

definition reset_provider_cache :: "instances \<Rightarrow> instances" where
  "reset_provider_cache inst = []"

text \<open>\<open>app/gateway/__init__.py\<close>: an adapter whose import fails is not registered.\<close>

fun load_adapters :: "(pystr \<times> factory option) list \<Rightarrow> registry \<Rightarrow> registry" where
  "load_adapters [] reg = reg"
| "load_adapters ((name, None) # ms) reg = load_adapters ms reg"
| "load_adapters ((name, Some fac) # ms) reg = load_adapters ms (register_provider name fac reg)"

section \<open>Shared builders\<close>

definition GENERIC_MODELS :: "pystr list" where
  "GENERIC_MODELS = map str ['''', ''default'', ''auto'', ''gpt'', ''model'', ''redactgate'', ''redactgate-default'']"

definition new_id :: "gateway_env \<Rightarrow> pystr" where
  "new_id env = str ''chatcmpl-'' @ ge_uuid env"

fun is_generic_model :: "ucd \<Rightarrow> json \<Rightarrow> bool res" where
  "is_generic_model u (JStr m) = Inr (u_lower u (py_strip u m) \<in> set GENERIC_MODELS)"
| "is_generic_model u v = (if truthy v then Inl AttributeError else Inr (u_lower u (py_strip u []) \<in> set GENERIC_MODELS))"

definition build_completion :: "gateway_env \<Rightarrow> json \<Rightarrow> json \<Rightarrow> json \<Rightarrow> int \<Rightarrow> int \<Rightarrow> json" where
  "build_completion env model content finish_reason prompt_tokens completion_tokens =
     JDict [(str ''id'', JStr (new_id env)), (str ''object'', JStr (str ''chat.completion'')), (str ''created'', JInt (ge_now env)),
       (str ''model'', model),
       (str ''choices'', JList [JDict [(str ''index'', JInt 0),
          (str ''message'', JDict [(str ''role'', JStr (str ''assistant'')), (str ''content'', content)]),
          (str ''finish_reason'', finish_reason)]]),
       (str ''usage'', JDict [(str ''prompt_tokens'', JInt prompt_tokens), (str ''completion_tokens'', JInt completion_tokens),
          (str ''total_tokens'', JInt (prompt_tokens + completion_tokens))])]"

definition build_chunk :: "gateway_env \<Rightarrow> json \<Rightarrow> json option \<Rightarrow> json \<Rightarrow> json" where
  "build_chunk env model content finish_reason =
     JDict [(str ''id'', JStr (new_id env)), (str ''object'', JStr (str ''chat.completion.chunk'')), (str ''created'', JInt (ge_now env)),
       (str ''model'', model),
       (str ''choices'', JList [JDict [(str ''index'', JInt 0),
          (str ''delta'', JDict (case content of None \<Rightarrow> [] | Some c \<Rightarrow> [(str ''content'', c)])),
          (str ''finish_reason'', finish_reason)]])]"

fun iter_sse_data :: "ucd \<Rightarrow> (pystr \<Rightarrow> json res) \<Rightarrow> pystr list \<Rightarrow> exn option \<Rightarrow> chunks" where
  "iter_sse_data u loads [] err = ([], err)"
| "iter_sse_data u loads (raw # ls) err =
     (let line = py_strip u raw in
      if line = [] \<or> startswith line (str '':'') then iter_sse_data u loads ls err
      else if \<not> startswith line (str ''data:'') then iter_sse_data u loads ls err
      else let data = py_strip u (drop 5 line) in
        if data = [] \<or> data = str ''[DONE]'' then iter_sse_data u loads ls err
        else case loads data of
          Inr v \<Rightarrow> apfst ((#) v) (iter_sse_data u loads ls err)
        | Inl e \<Rightarrow> if e = ValueError then iter_sse_data u loads ls err else ([], Some e))"

definition resolve_model :: "ucd \<Rightarrow> dict \<Rightarrow> pystr \<Rightarrow> pystr res" where
  "resolve_model u payload dflt =
     rbind (is_generic_model u (dget payload (str ''model''))) (\<lambda>generic.
       if generic then Inr dflt
       else case dget payload (str ''model'') of JStr m \<Rightarrow> Inr m | _ \<Rightarrow> Inl TypeError)"

definition rstrip_slash :: "pystr \<Rightarrow> pystr" where
  "rstrip_slash s = rev (dropWhile ((=) 47) (rev s))"

section \<open>One exchange\<close>

definition http_complete :: "gateway_env \<Rightarrow> pystr \<Rightarrow> http_request \<Rightarrow> json res" where
  "http_complete env name rq =
     (case ge_post env rq of
        Inl msg \<Rightarrow> Inl (ProviderError msg 502 name)
      | Inr resp \<Rightarrow>
          if 400 \<le> rs_status resp then
            Inl (ProviderError (str ''upstream error: '' @ take 200 (rs_text resp)) (rs_status resp) name)
          else case rs_json resp of
            None \<Rightarrow> Inl (ProviderError (str ''invalid JSON from upstream'') 502 name)
          | Some v \<Rightarrow> Inr v)"

definition http_stream_with :: "gateway_env \<Rightarrow> pystr \<Rightarrow> http_request \<Rightarrow> (pystr list \<Rightarrow> exn option \<Rightarrow> chunks) \<Rightarrow> chunks" where
  "http_stream_with env name rq consume =
     (case ge_stream env rq of
        Inl msg \<Rightarrow> ([], Some (ProviderError msg 502 name))
      | Inr resp \<Rightarrow>
          if 400 \<le> hs_status resp then
            ([], Some (ProviderError (str ''upstream error: '' @ hs_body resp) (hs_status resp) name))
          else consume (hs_lines resp) (map_option (\<lambda>msg. ProviderError msg 502 name) (hs_error resp)))"

definition raises :: "('a \<Rightarrow> chunks) \<Rightarrow> 'a res \<Rightarrow> chunks" where
  "raises f r = (case r of Inl e \<Rightarrow> ([], Some e) | Inr x \<Rightarrow> f x)"

section \<open>The pass-through adapters\<close>

definition bearer_headers :: "pystr \<Rightarrow> (pystr \<times> pystr) list" where
  "bearer_headers key =
     [(str ''Content-Type'', str ''application/json'')] @
     (if key \<noteq> [] then [(str ''Authorization'', str ''Bearer '' @ key)] else [])"

definition openai_body :: "ucd \<Rightarrow> pystr \<Rightarrow> dict \<Rightarrow> bool \<Rightarrow> dict res" where
  "openai_body u dflt payload strm =
     rbind (resolve_model u payload dflt) (\<lambda>m.
       Inr (AList.update (str ''stream'') (JBool strm) (AList.update (str ''model'') (JStr m) payload)))"

definition openai_request :: "pystr \<Rightarrow> pystr \<Rightarrow> dict \<Rightarrow> http_request" where
  "openai_request base key body =
     \<lparr>rq_url = rstrip_slash base @ str ''/chat/completions'', rq_params = [], rq_headers = bearer_headers key, rq_json = JDict body\<rparr>"

definition openai_complete :: "gateway_env \<Rightarrow> pystr \<Rightarrow> pystr \<Rightarrow> pystr \<Rightarrow> pystr \<Rightarrow> dict \<Rightarrow> json res" where
  "openai_complete env name base key dflt payload =
     rbind (openai_body (ge_ucd env) dflt payload False) (\<lambda>body. http_complete env name (openai_request base key body))"

definition openai_stream :: "gateway_env \<Rightarrow> pystr \<Rightarrow> pystr \<Rightarrow> pystr \<Rightarrow> pystr \<Rightarrow> dict \<Rightarrow> chunks" where
  "openai_stream env name base key dflt payload =
     raises (\<lambda>body. http_stream_with env name (openai_request base key body) (iter_sse_data (ge_ucd env) (ge_loads env)))
       (openai_body (ge_ucd env) dflt payload True)"

definition openai_provider :: "gateway_env \<Rightarrow> factory" where
  "openai_provider env st =
     (let g = st_gateway st; name = str ''openai'' in
      \<lparr>pv_name = name, pv_default_model = st_openai_default_model g,
       pv_complete = openai_complete env name (st_openai_base_url g) (st_openai_api_key g) (st_openai_default_model g),
       pv_stream = openai_stream env name (st_openai_base_url g) (st_openai_api_key g) (st_openai_default_model g)\<rparr>)"

text \<open>\<open>do_genai.py\<close> repeats the OpenAI adapter over its own settings.\<close>

definition do_genai_provider :: "gateway_env \<Rightarrow> factory" where
  "do_genai_provider env st =
     (let g = st_gateway st; name = str ''do-genai'' in
      \<lparr>pv_name = name, pv_default_model = st_do_genai_default_model g,
       pv_complete = openai_complete env name (st_do_genai_base_url g) (st_do_genai_api_key g) (st_do_genai_default_model g),
       pv_stream = openai_stream env name (st_do_genai_base_url g) (st_do_genai_api_key g) (st_do_genai_default_model g)\<rparr>)"

definition azure_require_configured :: "gateway_settings \<Rightarrow> unit res" where
  "azure_require_configured g =
     (if rstrip_slash (st_azure_endpoint g) = [] \<or> st_azure_api_key g = []
      then Inl (ProviderError (str ''azure not configured'') 400 (str ''azure'')) else Inr ())"

definition azure_deployment_for :: "ucd \<Rightarrow> gateway_settings \<Rightarrow> dict \<Rightarrow> pystr res" where
  "azure_deployment_for u g payload =
     rbind (is_generic_model u (dget payload (str ''model''))) (\<lambda>generic.
       if \<not> generic then (case dget payload (str ''model'') of JStr m \<Rightarrow> Inr m | _ \<Rightarrow> Inl TypeError)
       else Inr (st_azure_deployment g))"

definition azure_url :: "gateway_settings \<Rightarrow> pystr \<Rightarrow> pystr" where
  "azure_url g deployment =
     rstrip_slash (st_azure_endpoint g) @ str ''/openai/deployments/'' @ deployment @ str ''/chat/completions'' @
     str ''?api-version='' @ st_azure_api_version g"

definition azure_body :: "dict \<Rightarrow> bool \<Rightarrow> dict" where
  "azure_body payload strm = AList.update (str ''stream'') (JBool strm) (AList.delete (str ''model'') payload)"

definition azure_request :: "gateway_settings \<Rightarrow> pystr \<Rightarrow> dict \<Rightarrow> http_request" where
  "azure_request g deployment body =
     \<lparr>rq_url = azure_url g deployment, rq_params = [],
      rq_headers = [(str ''Content-Type'', str ''application/json''), (str ''api-key'', st_azure_api_key g)], rq_json = JDict body\<rparr>"

definition azure_complete :: "gateway_env \<Rightarrow> gateway_settings \<Rightarrow> dict \<Rightarrow> json res" where
  "azure_complete env g payload =
     rbind (azure_require_configured g) (\<lambda>_.
     rbind (azure_deployment_for (ge_ucd env) g payload) (\<lambda>deployment.
       http_complete env (str ''azure'') (azure_request g deployment (azure_body payload False))))"

definition azure_stream :: "gateway_env \<Rightarrow> gateway_settings \<Rightarrow> dict \<Rightarrow> chunks" where
  "azure_stream env g payload =
     raises (\<lambda>deployment. http_stream_with env (str ''azure'') (azure_request g deployment (azure_body payload True))
          (iter_sse_data (ge_ucd env) (ge_loads env)))
       (rbind (azure_require_configured g) (\<lambda>_. azure_deployment_for (ge_ucd env) g payload))"

definition azure_provider :: "gateway_env \<Rightarrow> factory" where
  "azure_provider env st =
     \<lparr>pv_name = str ''azure'', pv_default_model = st_azure_deployment (st_gateway st),
      pv_complete = azure_complete env (st_gateway st), pv_stream = azure_stream env (st_gateway st)\<rparr>"

section \<open>Lemmas\<close>

lemma get_provider_cached:
  assumes "get_provider reg name st inst = Inr (p, inst')"
  shows "get_provider reg name st' inst' = Inr (p, inst') \<and> map_of inst' name = Some p
    \<and> (\<forall>n. n \<noteq> name \<longrightarrow> map_of inst' n = map_of inst n)"
  using assms by (auto simp: get_provider_def split: option.splits)

lemma get_provider_unknown:
  "get_provider reg name st inst = Inl e \<longleftrightarrow> map_of reg name = None \<and>
     e = ProviderError (str ''unknown or unconfigured provider '' @ [39] @ name @ [39]) 400 name"
  by (auto simp: get_provider_def split: option.splits)

lemma load_adapters_lookup:
  "distinct (map fst ms) \<Longrightarrow> map_of (load_adapters ms reg) name =
     (case map_of ms name of Some (Some fac) \<Rightarrow> Some fac | _ \<Rightarrow> map_of reg name)"
proof (induction ms arbitrary: reg)
  case (Cons m ms)
  obtain n x where m: "m = (n, x)" by (cases m)
  have "map_of ms n = None" using Cons.prems m by (simp add: map_of_eq_None_iff)
  then show ?case using Cons m by (cases x) (auto simp: register_provider_def split: option.splits)
qed simp

text \<open>A transport failure, an HTTP error and an unreadable body are provider errors with the status
  the client is to see.\<close>

lemma http_complete_cases:
  "http_complete env name rq = Inl e \<Longrightarrow> \<exists>msg code. e = ProviderError msg code name \<and> (code = 502 \<or> 400 \<le> code)"
  by (auto simp: http_complete_def split: sum.splits if_splits option.splits)

text \<open>The request a pass-through adapter sends carries the payload as it is but for the model and
  the stream flag.\<close>

lemma openai_body_fields:
  assumes "openai_body u dflt payload strm = Inr body" "k \<noteq> str ''model''" "k \<noteq> str ''stream''"
  shows "map_of body k = map_of payload k"
  using assms by (auto simp: openai_body_def rbind_Inr_iff)

lemma azure_body_fields:
  "k \<noteq> str ''model'' \<Longrightarrow> k \<noteq> str ''stream'' \<Longrightarrow> map_of (azure_body payload strm) k = map_of payload k"
  by (simp add: azure_body_def delete_conv')

end
