(* ===== verification/Adapters.thy ===== *)
theory Adapters
  imports Gateway Regex
begin

text \<open>
  \<open>app/gateway/anthropic.py\<close>, \<open>gemini.py\<close>, \<open>bedrock.py\<close> and \<open>ollama.py\<close>: the adapters that translate
  an OpenAI payload to the provider's own shape and its answer back. Each file repeats the helpers
  of the others; so do the definitions.
\<close>

section \<open>Python on JSON values\<close>

text \<open>\<open>x or {}\<close>, \<open>x or y\<close>.\<close>

definition or_dict :: "json \<Rightarrow> json" where "or_dict v = (if truthy v then v else JDict [])"
definition or_else :: "json \<Rightarrow> json \<Rightarrow> json" where "or_else v w = (if truthy v then v else w)"

text \<open>\<open>int(x)\<close>.\<close>

definition py_int :: "gateway_env \<Rightarrow> json \<Rightarrow> int res" where
  "py_int env v =
     (case v of
        JInt i \<Rightarrow> Inr i
      | JBool b \<Rightarrow> Inr (if b then 1 else 0)
      | JFloat r \<Rightarrow> Inr (if 0 \<le> r then floor r else ceiling r)
      | JStr s \<Rightarrow> ge_int env s
      | _ \<Rightarrow> Inl TypeError)"

text \<open>\<open>TABLE.get(v, "stop")\<close>: a list or a dictionary cannot be looked up.\<close>

definition table_get :: "(pystr \<times> pystr) list \<Rightarrow> json \<Rightarrow> json res" where
  "table_get table v =
     (case v of
        JStr s \<Rightarrow> Inr (JStr (case map_of table s of None \<Rightarrow> str ''stop'' | Some x \<Rightarrow> x))
      | JList _ \<Rightarrow> Inl TypeError
      | JDict _ \<Rightarrow> Inl TypeError
      | _ \<Rightarrow> Inr (JStr (str ''stop'')))"

text \<open>\<open>"".join(xs)\<close>.\<close>

fun join_all :: "json list \<Rightarrow> pystr res" where
  "join_all [] = Inr []"
| "join_all (JStr s # xs) = rbind (join_all xs) (\<lambda>t. Inr (s @ t))"
| "join_all (_ # xs) = Inl TypeError"

text \<open>\<open>data.get(key) or []\<close> iterated and the usage counters \<open>int(usage.get(k) or 0)\<close>.\<close>

definition iter_key :: "json \<Rightarrow> pystr \<Rightarrow> json list res" where
  "iter_key d k = rbind (py_get d k) iter_or_empty"

definition usage_count :: "gateway_env \<Rightarrow> json \<Rightarrow> pystr \<Rightarrow> int res" where
  "usage_count env usage k = rbind (py_get usage k) (\<lambda>v. py_int env (or_else v (JInt 0)))"

text \<open>An SSE line as JSON: \<open>None\<close> when the loop skips it.\<close>

definition sse_event :: "ucd \<Rightarrow> (pystr \<Rightarrow> json res) \<Rightarrow> pystr \<Rightarrow> json option res" where
  "sse_event u loads raw =
     (let line = py_strip u raw in
      if \<not> startswith line (str ''data:'') then Inr None
      else let data_str = py_strip u (drop 5 line) in
        if data_str = [] then Inr None
        else case loads data_str of
          Inr v \<Rightarrow> Inr (Some v)
        | Inl e \<Rightarrow> if e = ValueError then Inr None else Inl e)"

section \<open>Anthropic\<close>

definition DEFAULT_MAX_TOKENS :: int where "DEFAULT_MAX_TOKENS = 1024"

definition STOP_MAP :: "(pystr \<times> pystr) list" where
  "STOP_MAP = map (\<lambda>(a, b). (str a, str b))
     [(''end_turn'', ''stop''), (''stop_sequence'', ''stop''), (''max_tokens'', ''length''), (''tool_use'', ''tool_calls'')]"

definition text_part :: "json \<Rightarrow> pystr list" where
  "text_part part =
     (case part of
        JDict d \<Rightarrow>
          if dget d (str ''type'') = JStr (str ''text'') \<or> dget d (str ''type'') = JStr (str ''input_text'')
          then (case dget d (str ''text'') of JStr t \<Rightarrow> [t] | _ \<Rightarrow> [])
          else []
      | _ \<Rightarrow> [])"

definition content_to_text :: "json \<Rightarrow> pystr" where
  "content_to_text content =
     (case content of JStr t \<Rightarrow> t | JList parts \<Rightarrow> concat (concat (map text_part parts)) | _ \<Rightarrow> [])"

fun anthropic_loop :: "json list \<Rightarrow> pystr list \<Rightarrow> json list \<Rightarrow> (pystr list \<times> json list) res" where
  "anthropic_loop [] system messages = Inr (system, messages)"
| "anthropic_loop (msg # msgs) system messages =
     rbind (py_get msg (str ''role'')) (\<lambda>role.
     rbind (py_get msg (str ''content'')) (\<lambda>content.
     let t = content_to_text content in
     if role = JStr (str ''system'') then anthropic_loop msgs (if t \<noteq> [] then system @ [t] else system) messages
     else anthropic_loop msgs system
       (messages @ [JDict [(str ''role'', JStr (if role = JStr (str ''assistant'') then str ''assistant'' else str ''user'')),
                           (str ''content'', JStr t)]])))"

definition anthropic_translate :: "dict \<Rightarrow> (pystr option \<times> json list) res" where
  "anthropic_translate payload =
     rbind (iter_or_empty (dget payload (str ''messages''))) (\<lambda>msgs.
     rbind (anthropic_loop msgs [] []) (\<lambda>(system, messages).
       Inr (if system \<noteq> [] then Some (join_with [10, 10] system) else None, messages)))"

definition max_tokens_or_default :: "dict \<Rightarrow> json" where
  "max_tokens_or_default payload = or_else (dget payload (str ''max_tokens'')) (JInt DEFAULT_MAX_TOKENS)"

definition temperature_field :: "dict \<Rightarrow> dict" where
  "temperature_field payload =
     (if dget payload (str ''temperature'') \<noteq> JNull then [(str ''temperature'', dget payload (str ''temperature''))] else [])"

definition anthropic_body :: "ucd \<Rightarrow> pystr \<Rightarrow> dict \<Rightarrow> bool \<Rightarrow> dict res" where
  "anthropic_body u dflt payload strm =
     rbind (anthropic_translate payload) (\<lambda>(system, messages).
     rbind (resolve_model u payload dflt) (\<lambda>m.
       Inr ([(str ''model'', JStr m), (str ''messages'', JList messages), (str ''max_tokens'', max_tokens_or_default payload),
             (str ''stream'', JBool strm)]
            @ (case system of None \<Rightarrow> [] | Some s \<Rightarrow> if s \<noteq> [] then [(str ''system'', JStr s)] else [])
            @ temperature_field payload)))"

definition anthropic_request :: "gateway_settings \<Rightarrow> dict \<Rightarrow> http_request" where
  "anthropic_request g body =
     \<lparr>rq_url = rstrip_slash (st_anthropic_base_url g) @ str ''/v1/messages'', rq_params = [],
      rq_headers = [(str ''Content-Type'', str ''application/json''), (str ''x-api-key'', st_anthropic_api_key g),
                    (str ''anthropic-version'', str ''2023-06-01'')],
      rq_json = JDict body\<rparr>"

text \<open>The text blocks of an answer.\<close>

definition text_block :: "json \<Rightarrow> json list" where
  "text_block blk =
     (case blk of
        JDict d \<Rightarrow> if dget d (str ''type'') = JStr (str ''text'') then [dget_or d (str ''text'') (JStr [])] else []
      | _ \<Rightarrow> [])"

definition anthropic_answer :: "gateway_env \<Rightarrow> json \<Rightarrow> json \<Rightarrow> json res" where
  "anthropic_answer env model data =
     rbind (iter_key data (str ''content'')) (\<lambda>blks.
     rbind (py_get data (str ''usage'')) (\<lambda>us.
     rbind (join_all (concat (map text_block blks))) (\<lambda>text.
     rbind (py_get data (str ''stop_reason'')) (\<lambda>reason.
     rbind (table_get STOP_MAP (or_else reason (JStr []))) (\<lambda>finish.
     rbind (usage_count env (or_dict us) (str ''input_tokens'')) (\<lambda>pt.
     rbind (usage_count env (or_dict us) (str ''output_tokens'')) (\<lambda>ct.
       Inr (build_completion env model (JStr text) finish pt ct))))))))"

definition anthropic_complete :: "gateway_env \<Rightarrow> gateway_settings \<Rightarrow> dict \<Rightarrow> json res" where
  "anthropic_complete env g payload =
     rbind (resolve_model (ge_ucd env) payload (st_anthropic_default_model g)) (\<lambda>m.
     rbind (anthropic_body (ge_ucd env) (st_anthropic_default_model g) payload False) (\<lambda>body.
     rbind (http_complete env (str ''anthropic'') (anthropic_request g body)) (\<lambda>data.
     rbind (py_get data (str ''model'')) (\<lambda>dm.
       anthropic_answer env (or_else dm (JStr m)) data))))"

definition anthropic_event :: "gateway_env \<Rightarrow> json \<Rightarrow> json \<Rightarrow> json \<Rightarrow> (json list \<times> json \<times> bool) res" where
  "anthropic_event env model finish event =
     rbind (py_get event (str ''type'')) (\<lambda>etype.
     if etype = JStr (str ''content_block_delta'') then
       rbind (py_get event (str ''delta'')) (\<lambda>dl.
       rbind (py_get (or_dict dl) (str ''type'')) (\<lambda>dt.
       if dt = JStr (str ''text_delta'') then
         rbind (py_get (or_dict dl) (str ''text'')) (\<lambda>text.
           Inr (if truthy text then [build_chunk env model (Some text) JNull] else [], finish, False))
       else Inr ([], finish, False)))
     else if etype = JStr (str ''message_delta'') then
       rbind (py_get event (str ''delta'')) (\<lambda>dl.
       rbind (py_get (or_dict dl) (str ''stop_reason'')) (\<lambda>stop.
       if truthy stop then rbind (table_get STOP_MAP stop) (\<lambda>f. Inr ([], f, False)) else Inr ([], finish, False)))
     else Inr ([], finish, etype = JStr (str ''message_stop'')))"

fun anthropic_events :: "gateway_env \<Rightarrow> json \<Rightarrow> json \<Rightarrow> pystr list \<Rightarrow> exn option \<Rightarrow> chunks" where
  "anthropic_events env model finish [] err =
     (case err of None \<Rightarrow> ([build_chunk env model None finish], None) | Some e \<Rightarrow> ([], Some e))"
| "anthropic_events env model finish (raw # ls) err =
     (case sse_event (ge_ucd env) (ge_loads env) raw of
        Inl e \<Rightarrow> ([], Some e)
      | Inr None \<Rightarrow> anthropic_events env model finish ls err
      | Inr (Some event) \<Rightarrow>
          (case anthropic_event env model finish event of
             Inl e \<Rightarrow> ([], Some e)
           | Inr (cs, finish', stopped) \<Rightarrow>
               if stopped then (cs @ [build_chunk env model None finish'], None)
               else apfst ((@) cs) (anthropic_events env model finish' ls err)))"

definition anthropic_stream :: "gateway_env \<Rightarrow> gateway_settings \<Rightarrow> dict \<Rightarrow> chunks" where
  "anthropic_stream env g payload =
     raises (\<lambda>(m, body). http_stream_with env (str ''anthropic'') (anthropic_request g body)
          (anthropic_events env (JStr m) (JStr (str ''stop''))))
       (rbind (resolve_model (ge_ucd env) payload (st_anthropic_default_model g)) (\<lambda>m.
        rbind (anthropic_body (ge_ucd env) (st_anthropic_default_model g) payload True) (\<lambda>body. Inr (m, body))))"

definition anthropic_provider :: "gateway_env \<Rightarrow> factory" where
  "anthropic_provider env st =
     \<lparr>pv_name = str ''anthropic'', pv_default_model = st_anthropic_default_model (st_gateway st),
      pv_complete = anthropic_complete env (st_gateway st), pv_stream = anthropic_stream env (st_gateway st)\<rparr>"

section \<open>Gemini\<close>

text \<open>\<open>^[A-Za-z0-9][A-Za-z0-9._-]{0,63}$\<close>\<close>

definition gemini_inner :: re where
  "gemini_inner = Seq (Cls False False [CRange 65 90, CRange 97 122, CRange 48 57])
     (Rep True (Cls False False [CRange 65 90, CRange 97 122, CRange 48 57, CRange 46 46, CRange 95 95, CRange 45 45]) 0 (Some 63))"

definition MODEL_RE :: re where "MODEL_RE = Seq Bos (Seq gemini_inner Eos)"

definition FINISH_MAP :: "(pystr \<times> pystr) list" where
  "FINISH_MAP = map (\<lambda>(a, b). (str a, str b))
     [(''STOP'', ''stop''), (''MAX_TOKENS'', ''length''), (''SAFETY'', ''content_filter''), (''RECITATION'', ''content_filter'')]"

definition gemini_content_to_text :: "json \<Rightarrow> pystr" where
  "gemini_content_to_text content =
     (case content of JStr t \<Rightarrow> t | JList parts \<Rightarrow> concat (concat (map text_part parts)) | _ \<Rightarrow> [])"

definition gemini_text :: "pystr \<Rightarrow> dict" where
  "gemini_text t = [(str ''parts'', JList [JDict [(str ''text'', JStr t)]])]"

fun gemini_loop :: "json list \<Rightarrow> pystr list \<Rightarrow> json list \<Rightarrow> (pystr list \<times> json list) res" where
  "gemini_loop [] system contents = Inr (system, contents)"
| "gemini_loop (msg # msgs) system contents =
     rbind (py_get msg (str ''role'')) (\<lambda>role.
     rbind (py_get msg (str ''content'')) (\<lambda>content.
     let t = gemini_content_to_text content in
     if role = JStr (str ''system'') then gemini_loop msgs (if t \<noteq> [] then system @ [t] else system) contents
     else gemini_loop msgs system
       (contents @ [JDict ((str ''role'', JStr (if role = JStr (str ''assistant'') then str ''model'' else str ''user'')) # gemini_text t)])))"

definition gemini_translate :: "dict \<Rightarrow> (dict option \<times> json list) res" where
  "gemini_translate payload =
     rbind (iter_or_empty (dget payload (str ''messages''))) (\<lambda>msgs.
     rbind (gemini_loop msgs [] []) (\<lambda>(system, contents).
       Inr (if system \<noteq> [] then Some (gemini_text (join_with [10, 10] system)) else None, contents)))"

definition parts_text :: "json \<Rightarrow> pystr res" where
  "parts_text candidate =
     rbind (py_get candidate (str ''content'')) (\<lambda>c.
     rbind (py_get (or_dict c) (str ''parts'')) (\<lambda>ps.
     rbind (iter_or_empty ps) (\<lambda>parts.
       join_all (concat (map (\<lambda>p. case p of JDict d \<Rightarrow> [dget_or d (str ''text'') (JStr [])] | _ \<Rightarrow> []) parts)))))"

definition gemini_resolve_model :: "ucd \<Rightarrow> pystr \<Rightarrow> dict \<Rightarrow> pystr res" where
  "gemini_resolve_model u dflt payload =
     rbind (is_generic_model u (dget payload (str ''model''))) (\<lambda>generic.
       if generic then Inr dflt
       else case dget payload (str ''model'') of
         JStr resolved \<Rightarrow>
           if re_match u MODEL_RE resolved = None
           then Inl (ProviderError (str ''invalid model name '' @ [39] @ resolved @ [39]) 400 (str ''gemini''))
           else Inr resolved
       | _ \<Rightarrow> Inl TypeError)"

definition gemini_body :: "dict \<Rightarrow> dict res" where
  "gemini_body payload =
     rbind (gemini_translate payload) (\<lambda>(system, contents).
     let gen_config = temperature_field payload @
           (if dget payload (str ''max_tokens'') \<noteq> JNull then [(str ''maxOutputTokens'', dget payload (str ''max_tokens''))] else []) in
       Inr ([(str ''contents'', JList contents)]
         @ (case system of None \<Rightarrow> [] | Some s \<Rightarrow> [(str ''systemInstruction'', JDict s)])
         @ (if gen_config \<noteq> [] then [(str ''generationConfig'', JDict gen_config)] else [])))"

definition gemini_params :: "gateway_settings \<Rightarrow> (pystr \<times> pystr) list \<Rightarrow> (pystr \<times> pystr) list" where
  "gemini_params g extra = (str ''key'', st_gemini_api_key g) # extra"

definition gemini_request :: "gateway_settings \<Rightarrow> pystr \<Rightarrow> pystr \<Rightarrow> (pystr \<times> pystr) list \<Rightarrow> dict \<Rightarrow> http_request" where
  "gemini_request g m verb extra body =
     \<lparr>rq_url = rstrip_slash (st_gemini_base_url g) @ str ''/models/'' @ m @ verb, rq_params = gemini_params g extra,
      rq_headers = [(str ''Content-Type'', str ''application/json'')], rq_json = JDict body\<rparr>"

definition gemini_answer :: "gateway_env \<Rightarrow> pystr \<Rightarrow> json \<Rightarrow> json res" where
  "gemini_answer env m data =
     rbind (py_get data (str ''candidates'')) (\<lambda>cs.
     rbind (if truthy cs then sub_idx cs 0 else Inr (JDict [])) (\<lambda>candidate.
     rbind (py_get data (str ''usageMetadata'')) (\<lambda>us.
     rbind (parts_text candidate) (\<lambda>text.
     rbind (py_get candidate (str ''finishReason'')) (\<lambda>reason.
     rbind (table_get FINISH_MAP (or_else reason (JStr []))) (\<lambda>finish.
     rbind (usage_count env (or_dict us) (str ''promptTokenCount'')) (\<lambda>pt.
     rbind (usage_count env (or_dict us) (str ''candidatesTokenCount'')) (\<lambda>ct.
       Inr (build_completion env (JStr m) (JStr text) finish pt ct)))))))))"

definition gemini_complete :: "gateway_env \<Rightarrow> gateway_settings \<Rightarrow> dict \<Rightarrow> json res" where
  "gemini_complete env g payload =
     rbind (gemini_resolve_model (ge_ucd env) (st_gemini_default_model g) payload) (\<lambda>m.
     rbind (gemini_body payload) (\<lambda>body.
     rbind (http_complete env (str ''gemini'') (gemini_request g m (str '':generateContent'') [] body)) (\<lambda>data.
       gemini_answer env m data)))"

text \<open>What a line yields, and the new finish reason or the exception that follows.\<close>

definition gemini_event :: "gateway_env \<Rightarrow> pystr \<Rightarrow> json \<Rightarrow> json \<Rightarrow> json list \<times> json res" where
  "gemini_event env m finish data =
     (case rbind (py_get data (str ''candidates'')) (\<lambda>cs. if truthy cs then rbind (sub_idx cs 0) (\<lambda>c. Inr (Some c)) else Inr None) of
        Inl e \<Rightarrow> ([], Inl e)
      | Inr None \<Rightarrow> ([], Inr finish)
      | Inr (Some candidate) \<Rightarrow>
          (case parts_text candidate of
             Inl e \<Rightarrow> ([], Inl e)
           | Inr text \<Rightarrow>
               (if text \<noteq> [] then [build_chunk env (JStr m) (Some (JStr text)) JNull] else [],
                rbind (py_get candidate (str ''finishReason'')) (\<lambda>reason.
                  if truthy reason then table_get FINISH_MAP reason else Inr finish))))"

fun gemini_events :: "gateway_env \<Rightarrow> pystr \<Rightarrow> json \<Rightarrow> pystr list \<Rightarrow> exn option \<Rightarrow> chunks" where
  "gemini_events env m finish [] err =
     (case err of None \<Rightarrow> ([build_chunk env (JStr m) None finish], None) | Some e \<Rightarrow> ([], Some e))"
| "gemini_events env m finish (raw # ls) err =
     (case sse_event (ge_ucd env) (ge_loads env) raw of
        Inl e \<Rightarrow> ([], Some e)
      | Inr None \<Rightarrow> gemini_events env m finish ls err
      | Inr (Some data) \<Rightarrow>
          (case gemini_event env m finish data of
             (cs, Inl e) \<Rightarrow> (cs, Some e)
           | (cs, Inr finish') \<Rightarrow> apfst ((@) cs) (gemini_events env m finish' ls err)))"

definition gemini_stream :: "gateway_env \<Rightarrow> gateway_settings \<Rightarrow> dict \<Rightarrow> chunks" where
  "gemini_stream env g payload =
     raises (\<lambda>(m, body). http_stream_with env (str ''gemini'')
          (gemini_request g m (str '':streamGenerateContent'') [(str ''alt'', str ''sse'')] body)
          (gemini_events env m (JStr (str ''stop''))))
       (rbind (gemini_resolve_model (ge_ucd env) (st_gemini_default_model g) payload) (\<lambda>m.
        rbind (gemini_body payload) (\<lambda>body. Inr (m, body))))"

definition gemini_provider :: "gateway_env \<Rightarrow> factory" where
  "gemini_provider env st =
     \<lparr>pv_name = str ''gemini'', pv_default_model = st_gemini_default_model (st_gateway st),
      pv_complete = gemini_complete env (st_gateway st), pv_stream = gemini_stream env (st_gateway st)\<rparr>"

section \<open>Bedrock\<close>

definition bedrock_content_to_text :: "json \<Rightarrow> pystr" where
  "bedrock_content_to_text content =
     (case content of JStr t \<Rightarrow> t | JList parts \<Rightarrow> concat (concat (map text_part parts)) | _ \<Rightarrow> [])"

fun bedrock_loop :: "json list \<Rightarrow> pystr list \<Rightarrow> json list \<Rightarrow> (pystr list \<times> json list) res" where
  "bedrock_loop [] system messages = Inr (system, messages)"
| "bedrock_loop (msg # msgs) system messages =
     rbind (py_get msg (str ''role'')) (\<lambda>role.
     rbind (py_get msg (str ''content'')) (\<lambda>content.
     let t = bedrock_content_to_text content in
     if role = JStr (str ''system'') then bedrock_loop msgs (if t \<noteq> [] then system @ [t] else system) messages
     else bedrock_loop msgs system
       (messages @ [JDict [(str ''role'', JStr (if role = JStr (str ''assistant'') then str ''assistant'' else str ''user'')),
                           (str ''content'', JStr t)]])))"

definition bedrock_body :: "dict \<Rightarrow> dict res" where
  "bedrock_body payload =
     rbind (iter_or_empty (dget payload (str ''messages''))) (\<lambda>msgs.
     rbind (bedrock_loop msgs [] []) (\<lambda>(system, messages).
       Inr ([(str ''anthropic_version'', JStr (str ''bedrock-2023-05-31'')), (str ''messages'', JList messages),
             (str ''max_tokens'', max_tokens_or_default payload)]
            @ (if system \<noteq> [] then [(str ''system'', JStr (join_with [10, 10] system))] else [])
            @ temperature_field payload)))"

definition bedrock_not_configured :: exn where
  "bedrock_not_configured = ProviderError (str ''bedrock not configured'') 400 (str ''bedrock'')"

text \<open>\<open>_client\<close> and \<open>_invoke\<close>: without \<open>boto3\<close> or without a client there is no provider; whatever the
  call raises becomes a 502.\<close>

definition bedrock_invoke :: "gateway_env \<Rightarrow> gateway_settings \<Rightarrow> pystr \<Rightarrow> dict \<Rightarrow> json res" where
  "bedrock_invoke env g m body =
     (case ge_boto env (st_bedrock_region g) of
        None \<Rightarrow> Inl bedrock_not_configured
      | Some client \<Rightarrow>
          (case client m (JDict body) of
             Inl msg \<Rightarrow> Inl (ProviderError msg 502 (str ''bedrock''))
           | Inr data \<Rightarrow> Inr data))"

definition bedrock_answer :: "gateway_env \<Rightarrow> json \<Rightarrow> json \<Rightarrow> json res" where
  "bedrock_answer env model data =
     rbind (iter_key data (str ''content'')) (\<lambda>blks.
     rbind (py_get data (str ''usage'')) (\<lambda>us.
     rbind (join_all (concat (map text_block blks))) (\<lambda>text.
     rbind (py_get data (str ''stop_reason'')) (\<lambda>reason.
     rbind (table_get STOP_MAP (or_else reason (JStr []))) (\<lambda>finish.
     rbind (usage_count env (or_dict us) (str ''input_tokens'')) (\<lambda>pt.
     rbind (usage_count env (or_dict us) (str ''output_tokens'')) (\<lambda>ct.
       Inr (build_completion env model (JStr text) finish pt ct))))))))"

definition bedrock_complete :: "gateway_env \<Rightarrow> gateway_settings \<Rightarrow> dict \<Rightarrow> json res" where
  "bedrock_complete env g payload =
     rbind (resolve_model (ge_ucd env) payload (st_bedrock_default_model g)) (\<lambda>m.
     if \<not> startswith m (str ''anthropic.'') then
       Inl (ProviderError (str ''bedrock adapter supports anthropic.* models only, got '' @ [39] @ m @ [39]) 400 (str ''bedrock''))
     else
       rbind (bedrock_body payload) (\<lambda>body.
       rbind (bedrock_invoke env g m body) (\<lambda>data. bedrock_answer env (JStr m) data)))"

definition bedrock_stream :: "gateway_env \<Rightarrow> gateway_settings \<Rightarrow> dict \<Rightarrow> chunks" where
  "bedrock_stream env g payload =
     raises (\<lambda>(model, content, finish).
         ((if truthy content then [build_chunk env model (Some content) JNull] else []) @ [build_chunk env model None finish], None))
       (rbind (bedrock_complete env g payload) (\<lambda>completion.
        rbind (sub_key completion (str ''model'')) (\<lambda>model.
        rbind (completion_path (str ''message'') completion) (\<lambda>msg.
        rbind (sub_key msg (str ''content'')) (\<lambda>content.
        rbind (completion_path (str ''finish_reason'') completion) (\<lambda>finish.
          Inr (model, content, finish)))))))"

definition bedrock_provider :: "gateway_env \<Rightarrow> factory" where
  "bedrock_provider env st =
     \<lparr>pv_name = str ''bedrock'', pv_default_model = st_bedrock_default_model (st_gateway st),
      pv_complete = bedrock_complete env (st_gateway st), pv_stream = bedrock_stream env (st_gateway st)\<rparr>"

section \<open>Ollama\<close>

definition ollama_body :: "ucd \<Rightarrow> pystr \<Rightarrow> dict \<Rightarrow> bool \<Rightarrow> dict res" where
  "ollama_body u dflt payload strm =
     rbind (resolve_model u payload dflt) (\<lambda>m.
     let options = temperature_field payload @
           (if dget payload (str ''max_tokens'') \<noteq> JNull then [(str ''num_predict'', dget payload (str ''max_tokens''))] else []) in
       Inr ([(str ''model'', JStr m), (str ''messages'', dget_or payload (str ''messages'') (JList [])), (str ''stream'', JBool strm)]
            @ (if options \<noteq> [] then [(str ''options'', JDict options)] else [])))"

definition ollama_request :: "gateway_settings \<Rightarrow> dict \<Rightarrow> http_request" where
  "ollama_request g body =
     \<lparr>rq_url = rstrip_slash (st_ollama_base_url g) @ str ''/api/chat'', rq_params = [], rq_headers = [], rq_json = JDict body\<rparr>"

definition ollama_content :: "json \<Rightarrow> json res" where
  "ollama_content data = rbind (py_get data (str ''message'')) (\<lambda>m. py_get (or_dict m) (str ''content''))"

definition ollama_complete :: "gateway_env \<Rightarrow> gateway_settings \<Rightarrow> dict \<Rightarrow> json res" where
  "ollama_complete env g payload =
     rbind (resolve_model (ge_ucd env) payload (st_ollama_default_model g)) (\<lambda>m.
     rbind (ollama_body (ge_ucd env) (st_ollama_default_model g) payload False) (\<lambda>body.
     rbind (http_complete env (str ''ollama'') (ollama_request g body)) (\<lambda>data.
     rbind (ollama_content data) (\<lambda>content.
     rbind (py_get data (str ''model'')) (\<lambda>dm.
     rbind (usage_count env data (str ''prompt_eval_count'')) (\<lambda>pt.
     rbind (usage_count env data (str ''eval_count'')) (\<lambda>ct.
       Inr (build_completion env (or_else dm (JStr m)) (or_else content (JStr []))
         (JStr (if (case data of JDict d \<Rightarrow> truthy (dget_or d (str ''done'') (JBool True)) | _ \<Rightarrow> True) then str ''stop'' else str ''length''))
         pt ct))))))))"

definition ollama_event :: "gateway_env \<Rightarrow> pystr \<Rightarrow> json \<Rightarrow> json list res" where
  "ollama_event env m data =
     rbind (ollama_content data) (\<lambda>text.
     rbind (py_get data (str ''done'')) (\<lambda>don.
     rbind (py_get data (str ''model'')) (\<lambda>dm.
       Inr ((if truthy text then [build_chunk env (or_else dm (JStr m)) (Some text) JNull] else [])
            @ (if truthy don then [build_chunk env (or_else dm (JStr m)) None (JStr (str ''stop''))] else [])))))"

fun ollama_events :: "gateway_env \<Rightarrow> pystr \<Rightarrow> pystr list \<Rightarrow> exn option \<Rightarrow> chunks" where
  "ollama_events env m [] err = ([], err)"
| "ollama_events env m (raw # ls) err =
     (let line = py_strip (ge_ucd env) raw in
      if line = [] then ollama_events env m ls err
      else case ge_loads env line of
        Inl e \<Rightarrow> if e = ValueError then ollama_events env m ls err else ([], Some e)
      | Inr data \<Rightarrow>
          (case ollama_event env m data of
             Inl e \<Rightarrow> ([], Some e)
           | Inr cs \<Rightarrow> apfst ((@) cs) (ollama_events env m ls err)))"

definition ollama_stream :: "gateway_env \<Rightarrow> gateway_settings \<Rightarrow> dict \<Rightarrow> chunks" where
  "ollama_stream env g payload =
     raises (\<lambda>(m, body). http_stream_with env (str ''ollama'') (ollama_request g body) (ollama_events env m))
       (rbind (resolve_model (ge_ucd env) payload (st_ollama_default_model g)) (\<lambda>m.
        rbind (ollama_body (ge_ucd env) (st_ollama_default_model g) payload True) (\<lambda>body. Inr (m, body))))"

definition ollama_provider :: "gateway_env \<Rightarrow> factory" where
  "ollama_provider env st =
     \<lparr>pv_name = str ''ollama'', pv_default_model = st_ollama_default_model (st_gateway st),
      pv_complete = ollama_complete env (st_gateway st), pv_stream = ollama_stream env (st_gateway st)\<rparr>"

text \<open>The adapters \<open>app/gateway/__init__.py\<close> imports, in its order.\<close>

definition builtin_registry :: "gateway_env \<Rightarrow> registry" where
  "builtin_registry env = load_adapters
     [(str ''anthropic'', Some (anthropic_provider env)), (str ''openai'', Some (openai_provider env)),
      (str ''gemini'', Some (gemini_provider env)), (str ''ollama'', Some (ollama_provider env)),
      (str ''azure'', Some (azure_provider env)), (str ''bedrock'', Some (bedrock_provider env)),
      (str ''do-genai'', Some (do_genai_provider env))] []"

section \<open>Translations\<close>

text \<open>A translated message, and its reading as a Gemini content.\<close>

definition turn :: "pystr \<Rightarrow> pystr \<Rightarrow> json" where
  "turn r t = JDict [(str ''role'', JStr r), (str ''content'', JStr t)]"

fun gemini_turn :: "json \<Rightarrow> json" where
  "gemini_turn (JDict [(_, JStr r), (_, JStr t)]) =
     JDict ((str ''role'', JStr (if r = str ''assistant'' then str ''model'' else str ''user'')) # gemini_text t)"
| "gemini_turn v = v"

lemma content_to_text_same: "gemini_content_to_text = content_to_text" "bedrock_content_to_text = content_to_text"
  by (auto simp: fun_eq_iff gemini_content_to_text_def bedrock_content_to_text_def content_to_text_def)

lemma bedrock_loop_same: "bedrock_loop msgs system messages = anthropic_loop msgs system messages"
  by (induction msgs arbitrary: system messages) (simp_all add: content_to_text_same Let_def cong: if_cong)

lemma gemini_loop_same:
  "gemini_loop msgs system (map gemini_turn messages) =
     rbind (anthropic_loop msgs system messages) (\<lambda>(s, outs). Inr (s, map gemini_turn outs))"
proof (induction msgs arbitrary: system messages)
  case (Cons msg msgs)
  have g: "JDict ((str ''role'', JStr (if b then str ''model'' else str ''user'')) # gemini_text t) =
      gemini_turn (JDict [(str ''role'', JStr (if b then str ''assistant'' else str ''user'')), (str ''content'', JStr t)])" for b t
    by simp
  have step: "gemini_loop msgs system (map gemini_turn messages @ [gemini_turn m]) =
      rbind (anthropic_loop msgs system (messages @ [m])) (\<lambda>(s, outs). Inr (s, map gemini_turn outs))" for system messages m
    using Cons.IH [of system "messages @ [m]"] by simp
  show ?case
    unfolding gemini_loop.simps(2) anthropic_loop.simps(2) Let_def content_to_text_same g step Cons.IH
    by (auto simp: rbind_def split: sum.splits)
qed simp

text \<open>The text of one of the messages.\<close>

definition said :: "json list \<Rightarrow> pystr \<Rightarrow> bool" where
  "said msgs x \<longleftrightarrow> (\<exists>d. JDict d \<in> set msgs \<and> x = content_to_text (dget d (str ''content'')))"

definition turn_of :: "json list \<Rightarrow> json \<Rightarrow> bool" where
  "turn_of msgs m \<longleftrightarrow> (\<exists>x r. said msgs x \<and> r \<in> {str ''assistant'', str ''user''} \<and> m = turn r x)"

lemma said_Cons: "said (JDict d # msgs) x \<longleftrightarrow> x = content_to_text (dget d (str ''content'')) \<or> said msgs x"
  by (auto simp: said_def)

lemma turn_of_Cons: "turn_of msgs m \<Longrightarrow> turn_of (JDict d # msgs) m"
  unfolding turn_of_def said_Cons by blast

lemma turn_of_first: "r \<in> {str ''assistant'', str ''user''} \<Longrightarrow>
    turn_of (JDict d # msgs) (turn r (content_to_text (dget d (str ''content''))))"
  unfolding turn_of_def said_Cons by blast

lemma anthropic_loop_spec:
  assumes "anthropic_loop msgs system messages = Inr (s, outs)"
  shows "(\<forall>x\<in>set s. x \<in> set system \<or> said msgs x) \<and> (\<forall>m\<in>set outs. m \<in> set messages \<or> turn_of msgs m)"
  using assms
proof (induction msgs arbitrary: system messages)
  case (Cons msg msgs)
  obtain d where d: "msg = JDict d" using Cons.prems by (cases msg) simp_all
  let ?t = "content_to_text (dget d (str ''content''))"
  show ?case
  proof (cases "dget d (str ''role'') = JStr (str ''system'')")
    case True
    define system' where "system' = (if ?t \<noteq> [] then system @ [?t] else system)"
    have "anthropic_loop msgs system' messages = Inr (s, outs)"
      using Cons.prems d True by (simp add: Let_def system'_def)
    note ih = Cons.IH [OF this]
    have "set system' \<subseteq> insert ?t (set system)" by (auto simp: system'_def)
    then show ?thesis using ih turn_of_Cons unfolding d said_Cons by blast
  next
    case False
    define r where "r = (if dget d (str ''role'') = JStr (str ''assistant'') then str ''assistant'' else str ''user'')"
    have r: "r \<in> {str ''assistant'', str ''user''}" by (simp add: r_def)
    have "anthropic_loop msgs system (messages @ [turn r ?t]) = Inr (s, outs)"
      using Cons.prems d False by (simp add: Let_def turn_def r_def cong: if_cong)
    note ih = Cons.IH [OF this]
    show ?thesis unfolding d
    proof (intro conjI ballI)
      fix x assume "x \<in> set s"
      then show "x \<in> set system \<or> said (JDict d # msgs) x" using ih said_Cons by blast
    next
      fix m assume "m \<in> set outs"
      then have "m \<in> set (messages @ [turn r ?t]) \<or> turn_of msgs m" using ih by (elim conjE) (drule (1) bspec)
      then have "m \<in> set messages \<or> m = turn r ?t \<or> turn_of msgs m" by auto
      then show "m \<in> set messages \<or> turn_of (JDict d # msgs) m"
        using turn_of_Cons turn_of_first [OF r] by (elim disjE) simp_all
    qed
  qed
qed simp

section \<open>What the walk collects\<close>

definition collects :: "'a walker \<Rightarrow> 'a \<Rightarrow> pystr list \<Rightarrow> bool" where
  "collects W x ts \<longleftrightarrow> (\<forall>acc. W collect x acc = Inr (x, acc @ ts))"

lemma lawful_collects:
  assumes "lawful R W x" "W collect x acc = Inr (y, s)"
  obtains ts where "collects W x ts" "y = x" "s = acc @ ts"
  using assms(1)
proof (cases rule: lawfulE)
  case (error e)
  then show thesis using assms(2) by simp
next
  case (ok ts F)
  show thesis
    by (rule that [of ts]) (use framedD(1) [OF ok(1) refl] ok(2) assms(2) in \<open>auto simp: collects_def\<close>)
qed

lemma collects_list:
  assumes "lawful_json W" "walk_list W collect xs acc = Inr (ys, s)" "x \<in> set xs"
  shows "\<exists>ts. collects W x ts \<and> set ts \<subseteq> set s"
  using assms(2,3)
proof (induction xs arbitrary: acc ys)
  case (Cons z zs)
  obtain y1 s1 ys' where st: "W collect z acc = Inr (y1, s1)" "walk_list W collect zs s1 = Inr (ys', s)"
    using Cons.prems(1) by (auto simp: rbind_Inr_iff)
  have grow: "set a \<subseteq> set b" if "walk_list W collect vs a = Inr (ws, b)" for vs a ws b
    using that
  proof (induction vs arbitrary: a ws)
    case (Cons v vs)
    then obtain y1 a1 ws' where 1: "W collect v a = Inr (y1, a1)" "walk_list W collect vs a1 = Inr (ws', b)"
      by (auto simp: rbind_Inr_iff)
    obtain ts where "a1 = a @ ts" using lawful_collects [OF spec [OF assms(1)] 1(1)] by metis
    then show ?case using Cons.IH [OF 1(2)] by auto
  qed simp
  obtain ts where ts: "collects W z ts" "s1 = acc @ ts" using lawful_collects [OF spec [OF assms(1)] st(1)] by metis
  show ?case
  proof (cases "x = z")
    case True
    then show ?thesis using ts grow [OF st(2)] by auto
  next
    case False
    then show ?thesis using Cons.IH [OF st(2)] Cons.prems(2) by simp
  qed
qed simp

lemma text_part_JDict:
  "text_part (JDict d) =
     (if dget d (str ''type'') = JStr (str ''text'') \<or> dget d (str ''type'') = JStr (str ''input_text'')
      then (case dget d (str ''text'') of JStr t \<Rightarrow> [t] | _ \<Rightarrow> []) else [])"
  by (simp add: text_part_def)

lemma text_part_other: "\<not> is_JDict v \<Longrightarrow> text_part v = []"
  by (cases v) (simp_all add: text_part_def)

lemma part_collected:
  assumes "t \<in> set (text_part v)"
  shows "collects walk_part v [t]"
proof -
  have "is_JDict v" using assms text_part_other [of v] by (cases "is_JDict v") auto
  then obtain d where d: "v = JDict d" by (rule is_JDict.elims(2))
  have ty: "dget d (str ''type'') = JStr (str ''text'') \<or> dget d (str ''type'') = JStr (str ''input_text'')"
    using assms unfolding d text_part_JDict by (rule contrapos_pp) simp
  have "t \<in> set (case dget d (str ''text'') of JStr t \<Rightarrow> [t] | _ \<Rightarrow> [])"
    using assms ty unfolding d text_part_JDict by (simp only: if_True)
  then have tx: "dget d (str ''text'') = JStr t" by (cases "dget d (str ''text'')") simp_all
  then have "map_of d (str ''text'') = Some (JStr t)" by (simp add: dget_def split: option.splits)
  then show ?thesis using d ty tx by (auto simp: collects_def apply_at_def collect_def TEXT_PART_TYPES_def)
qed

lemma collects_unique: "collects W x ts \<Longrightarrow> collects W x ts' \<Longrightarrow> ts = ts'"
  unfolding collects_def by (metis Inr_inject Pair_inject append_Nil)

text \<open>The flattened content is made of walked texts.\<close>

lemma content_collected:
  assumes "collects walk_content c ts"
  shows "\<exists>us. set us \<subseteq> set ts \<and> content_to_text c = concat us"
proof (cases c)
  case (JStr t)
  then have "ts = [t]" using assms by (auto simp: collects_def collect_def)
  then show ?thesis using JStr by (intro exI [of _ "[t]"]) (simp add: content_to_text_def)
next
  case (JList parts)
  have run: "walk_list walk_part collect parts [] = Inr (parts, ts)"
  proof -
    have "walk_content collect (JList parts) [] = Inr (JList parts, ts)" using assms JList by (simp add: collects_def)
    then show ?thesis by (auto simp: rbind_Inr_iff)
  qed
  have "set (concat (map text_part parts)) \<subseteq> set ts"
  proof
    fix t assume "t \<in> set (concat (map text_part parts))"
    then obtain part where part: "part \<in> set parts" "t \<in> set (text_part part)" by auto
    obtain ts' where "collects walk_part part ts'" "set ts' \<subseteq> set ts"
      using collects_list [OF lawful_part run part(1)] by blast
    then show "t \<in> set ts" using collects_unique [OF part_collected [OF part(2)], of ts'] by auto
  qed
  then show ?thesis using JList by (intro exI [of _ "concat (map text_part parts)"]) (simp add: content_to_text_def)
qed (auto intro: exI [of _ "[]"] simp: content_to_text_def)

text \<open>Every message of the payload that a translation reads has been walked.\<close>

lemma message_collected:
  assumes "extract_texts payload = Inr ts" "iter_or_empty (dget payload (str ''messages'')) = Inr msgs"
    and "\<forall>m\<in>set msgs. is_JDict m" "said msgs x"
  shows "\<exists>us. set us \<subseteq> set ts \<and> x = concat us"
proof -
  obtain d where d: "JDict d \<in> set msgs" "x = content_to_text (dget d (str ''content''))"
    using assms(4) unfolding said_def by blast
  let ?v = "dget payload (str ''messages'')"
  have v: "truthy ?v" "py_iter ?v = Inr msgs" using assms(2) d(1) by (auto simp: iter_or_empty_def split: if_splits)
  obtain out s1 fin where w: "walk_key (str ''messages'') (walk_iter walk_message) collect payload [] = Inr (out, s1)"
    "walk_key (str ''input'') walk_input collect out s1 = Inr (fin, ts)"
    using assms(1) by (auto simp: extract_texts_def map_texts_def rbind_Inr_iff)
  have "map_of payload (str ''messages'') = Some ?v" using v(1) by (simp add: dget_def split: option.splits)
  then obtain v' where m: "walk_iter walk_message collect ?v [] = Inr (v', s1)"
    using w(1) by (auto simp: walk_key_def rbind_Inr_iff)
  have grow: "set s1 \<subseteq> set ts"
  proof (cases "map_of out (str ''input'')")
    case None
    then show ?thesis using w(2) by (simp add: walk_key_def)
  next
    case (Some i)
    then obtain y where "walk_input collect i s1 = Inr (y, ts)" using w(2) by (auto simp: walk_key_def rbind_Inr_iff)
    then show ?thesis using lawful_collects [OF spec [OF lawful_input]] by (metis le_sup_iff set_append subset_refl)
  qed
  have list: "?v = JList msgs"
    using v(2) assms(3) d(1) by (cases ?v) auto
  obtain ws where "walk_list walk_message collect msgs [] = Inr (ws, s1)"
    using m v(1) unfolding list walk_iter_def by (auto simp: rbind_Inr_iff)
  from collects_list [OF lawful_message this d(1)]
  obtain tm where tm: "collects walk_message (JDict d) tm" "set tm \<subseteq> set s1" by blast
  show ?thesis
  proof (cases "map_of d (str ''content'')")
    case None
    then show ?thesis using d(2) by (intro exI [of _ "[]"]) (simp add: dget_def content_to_text_def)
  next
    case (Some c)
    have "walk_message collect (JDict d) [] = Inr (JDict d, tm)" using tm(1) by (simp add: collects_def)
    then obtain msg1 a1 msg3 where k: "walk_key (str ''content'') walk_content collect d [] = Inr (msg1, a1)"
      and rest: "walk_keys (tl message_keys) collect msg1 a1 = Inr (msg3, tm)"
      by (auto simp: rbind_Inr_iff message_keys_def)
    obtain c' where c': "walk_content collect c [] = Inr (c', a1)" using k Some by (auto simp: walk_key_def rbind_Inr_iff)
    obtain tc where tc: "collects walk_content c tc" "a1 = tc"
      using lawful_collects [OF spec [OF lawful_content] c'] by auto
    have "lawful (agree (fst ` set (tl message_keys))) (walk_keys (tl message_keys)) msg1"
      by (rule lawful_keys) (use lawful_func lawful_iter [OF lawful_tool_call] in \<open>auto simp: message_keys_def\<close>)
    from lawful_collects [OF this rest] obtain tx where "tm = a1 @ tx" .
    then have "set a1 \<subseteq> set tm" by simp
    then have sub: "set tc \<subseteq> set ts" using tc(2) tm(2) grow by (meson subset_trans)
    obtain us where us: "set us \<subseteq> set tc" "content_to_text c = concat us" using content_collected [OF tc(1)] by blast
    have "x = concat us" using us(2) d(2) Some by (simp add: dget_def)
    moreover have "set us \<subseteq> set ts" using us(1) sub by (rule subset_trans)
    ultimately show ?thesis by blast
  qed
qed

lemma anthropic_loop_dicts: "anthropic_loop msgs system messages = Inr r \<Longrightarrow> \<forall>m\<in>set msgs. is_JDict m"
proof (induction msgs arbitrary: system messages)
  case (Cons msg msgs)
  obtain d where d: "msg = JDict d" using Cons.prems by (cases msg) simp_all
  have "\<forall>m\<in>set msgs. is_JDict m"
    using Cons.prems Cons.IH unfolding d by (simp add: Let_def split: if_split_asm)
  then show ?case using d by simp
qed simp

text \<open>Gemini's model names.\<close>

definition model_char :: "nat \<Rightarrow> bool" where
  "model_char c \<longleftrightarrow> ascii_alpha c \<or> ascii_digit c \<or> c = 46 \<or> c = 95 \<or> c = 45"

definition model_name :: "pystr \<Rightarrow> bool" where
  "model_name w \<longleftrightarrow> w \<noteq> [] \<and> length w \<le> 64 \<and> list_all model_char w \<and> (ascii_alpha (hd w) \<or> ascii_digit (hd w))"

lemma gemini_inner_lang: "w \<in> lang u gemini_inner \<longleftrightarrow> model_name w"
proof -
  have cls: "cls_in u False False [CRange 65 90, CRange 97 122, CRange 48 57] = (\<lambda>c. ascii_alpha c \<or> ascii_digit c)"
    "cls_in u False False [CRange 65 90, CRange 97 122, CRange 48 57, CRange 46 46, CRange 95 95, CRange 45 45] = model_char"
    by (auto simp: fun_eq_iff cls_in_def ascii_defs model_char_def)
  have "w \<in> lang u gemini_inner \<longleftrightarrow>
      (\<exists>c v. w = c # v \<and> (ascii_alpha c \<or> ascii_digit c) \<and> length v \<le> 63 \<and> list_all model_char v)"
    unfolding gemini_inner_def lang.simps(3) lang_Rep_class lang.simps(2) cls
    by auto (metis append_Cons append_Nil)+
  also have "\<dots> \<longleftrightarrow> model_name w"
    by (cases w) (auto simp: model_name_def model_char_def)
  finally show ?thesis .
qed

lemma model_match:
  "re_match u MODEL_RE s \<noteq> None \<longleftrightarrow> model_name s \<or> (\<exists>w. model_name w \<and> s = w @ [10])"
proof -
  have loc: "local_re gemini_inner" by (simp add: gemini_inner_def)
  have inner: "(\<exists>c. (j, c) \<in> set (ms u s gemini_inner 0 [])) \<longleftrightarrow> j \<le> length s \<and> model_name (take j s)" for j
    using readsD [OF ms_lang [OF loc], of 0 s j u "[]"] by (simp add: ends_in_def gemini_inner_lang slice_def)
  have "re_match u MODEL_RE s \<noteq> None \<longleftrightarrow> (\<exists>j c. (j, c) \<in> set (ms u s MODEL_RE 0 []))"
    by (auto simp: re_match_def match_at_def split: list.splits prod.splits)
  also have "\<dots> \<longleftrightarrow> (\<exists>j. (\<exists>c. (j, c) \<in> set (ms u s gemini_inner 0 [])) \<and> (j = length s \<or> Suc j = length s \<and> s ! j = 10))"
    unfolding MODEL_RE_def in_ms_Seq [of _ _ u s Bos] in_ms_Seq [of _ _ u s gemini_inner] in_ms_anchor by auto
  also have "\<dots> \<longleftrightarrow> (\<exists>j\<le>length s. model_name (take j s) \<and> (j = length s \<or> Suc j = length s \<and> s ! j = 10))"
    unfolding inner by auto
  also have "\<dots> \<longleftrightarrow> model_name s \<or> (\<exists>w. model_name w \<and> s = w @ [10])"
  proof
    assume "\<exists>j\<le>length s. model_name (take j s) \<and> (j = length s \<or> Suc j = length s \<and> s ! j = 10)"
    then obtain j where j: "j \<le> length s" "model_name (take j s)" "j = length s \<or> Suc j = length s \<and> s ! j = 10" by blast
    show "model_name s \<or> (\<exists>w. model_name w \<and> s = w @ [10])"
    proof (cases "j = length s")
      case False
      then have "s = take j s @ [10]"
        using j(3) by (metis append_take_drop_id Cons_nth_drop_Suc drop_all lessI order_refl)
      then show ?thesis using j(2) by blast
    qed (use j in simp)
  next
    assume "model_name s \<or> (\<exists>w. model_name w \<and> s = w @ [10])"
    then show "\<exists>j\<le>length s. model_name (take j s) \<and> (j = length s \<or> Suc j = length s \<and> s ! j = 10)"
    proof
      assume "\<exists>w. model_name w \<and> s = w @ [10]"
      then obtain w where "model_name w" "s = w @ [10]" by blast
      then show ?thesis by (intro exI [of _ "length w"]) simp
    qed (intro exI [of _ "length s"], simp)
  qed
  finally show ?thesis .
qed

text \<open>What a stream that ends normally consists of.\<close>

definition ends_once :: "gateway_env \<Rightarrow> json \<Rightarrow> chunks \<Rightarrow> bool" where
  "ends_once env model st \<longleftrightarrow>
     (\<exists>cs finish. (\<forall>c\<in>set cs. truthy c) \<and>
        fst st = map (\<lambda>c. build_chunk env model (Some c) JNull) cs @ [build_chunk env model None finish])"

lemma ends_once_Cons: "truthy c \<Longrightarrow> ends_once env model (cs, e) \<Longrightarrow>
    ends_once env model (build_chunk env model (Some c) JNull # cs, e)"
  unfolding ends_once_def by (elim exE conjE, rule_tac x = "c # csa" in exI) auto

lemma ends_once_last: "ends_once env model ([build_chunk env model None finish], e)"
  unfolding ends_once_def by (intro exI [of _ "[]"] exI [of _ finish]) simp

lemma anthropic_events_end:
  "snd (anthropic_events env model finish ls err) = None \<Longrightarrow> ends_once env model (anthropic_events env model finish ls err)"
proof (induction ls arbitrary: finish)
  case Nil
  then show ?case by (simp add: ends_once_last split: option.splits)
next
  case (Cons raw ls)
  show ?case
  proof (cases "sse_event (ge_ucd env) (ge_loads env) raw")
    case (Inr ev)
    show ?thesis
    proof (cases ev)
      case None
      then show ?thesis using Cons Inr by simp
    next
      case (Some event)
      show ?thesis
      proof (cases "anthropic_event env model finish event")
        case (Inr r)
        obtain cs finish' stopped where r: "r = (cs, finish', stopped)" by (cases r)
        have cs: "cs = [] \<or> \<not> stopped \<and> (\<exists>c. truthy c \<and> cs = [build_chunk env model (Some c) JNull])"
          using Inr unfolding r anthropic_event_def by (auto simp: rbind_Inr_iff split: if_splits)
        show ?thesis
        proof (cases stopped)
          case True
          then show ?thesis
            using cs Some Inr r \<open>sse_event _ _ raw = _\<close> by (simp add: ends_once_last)
        next
          case False
          obtain xs e where rest: "anthropic_events env model finish' ls err = (xs, e)" by (cases "anthropic_events env model finish' ls err")
          have "anthropic_events env model finish (raw # ls) err = (cs @ xs, e)"
            using False Some Inr r rest \<open>sse_event _ _ raw = _\<close> by simp
          moreover have "ends_once env model (xs, e)"
            using Cons.IH [of finish'] Cons.prems calculation rest by simp
          ultimately show ?thesis using cs ends_once_Cons by auto
        qed
      qed (use Cons.prems Some Inr in simp)
    qed
  qed (use Cons.prems in simp)
qed

lemma gemini_events_end:
  "snd (gemini_events env m finish ls err) = None \<Longrightarrow> ends_once env (JStr m) (gemini_events env m finish ls err)"
proof (induction ls arbitrary: finish)
  case Nil
  then show ?case by (simp add: ends_once_last split: option.splits)
next
  case (Cons raw ls)
  show ?case
  proof (cases "sse_event (ge_ucd env) (ge_loads env) raw")
    case (Inr ev)
    show ?thesis
    proof (cases ev)
      case None
      then show ?thesis using Cons Inr by simp
    next
      case (Some data)
      obtain cs r where r: "gemini_event env m finish data = (cs, r)" by (cases "gemini_event env m finish data")
      have cs: "cs = [] \<or> (\<exists>t. t \<noteq> [] \<and> cs = [build_chunk env (JStr m) (Some (JStr t)) JNull])"
        using r unfolding gemini_event_def by (auto split: sum.splits option.splits if_splits)
      obtain finish' where f: "r = Inr finish'" using Cons.prems Some Inr r by (cases r) simp_all
      obtain xs e where rest: "gemini_events env m finish' ls err = (xs, e)" by (cases "gemini_events env m finish' ls err")
      have "gemini_events env m finish (raw # ls) err = (cs @ xs, e)" using Some Inr r f rest by simp
      moreover have "ends_once env (JStr m) (xs, e)"
        using Cons.IH [of finish'] Cons.prems calculation rest by simp
      ultimately show ?thesis using cs ends_once_Cons by auto
    qed
  qed (use Cons.prems in simp)
qed

lemma bedrock_answer_shape:
  assumes "bedrock_answer env model data = Inr v"
  obtains s finish pt ct where "v = build_completion env model (JStr s) finish pt ct"
  using assms by (auto simp: bedrock_answer_def rbind_Inr_iff)

section \<open>Properties\<close>

text \<open>The three translating adapters say the same thing: Gemini's contents and system
  instruction, and Bedrock's body, are the Anthropic translation in their own words, and they
  refuse the same payloads.\<close>

lemma translations_agree:
  "gemini_translate payload =
     rbind (anthropic_translate payload) (\<lambda>(s, outs). Inr (map_option gemini_text s, map gemini_turn outs))
   \<and> bedrock_body payload =
     rbind (anthropic_translate payload) (\<lambda>(s, outs).
       Inr ([(str ''anthropic_version'', JStr (str ''bedrock-2023-05-31'')), (str ''messages'', JList outs),
             (str ''max_tokens'', max_tokens_or_default payload)]
            @ (case s of None \<Rightarrow> [] | Some x \<Rightarrow> [(str ''system'', JStr x)]) @ temperature_field payload))"
  using gemini_loop_same [of _ "[]" "[]"] bedrock_loop_same
  by (auto simp: gemini_translate_def bedrock_body_def anthropic_translate_def rbind_def split: sum.splits)

text \<open>Messages and a system prompt made of the texts \<open>ts\<close> only.\<close>

definition made_of :: "pystr list \<Rightarrow> pystr option \<Rightarrow> json list \<Rightarrow> bool" where
  "made_of ts system outs \<longleftrightarrow>
     (\<forall>m\<in>set outs. \<exists>r us. r \<in> {str ''assistant'', str ''user''} \<and> set us \<subseteq> set ts \<and> m = turn r (concat us)) \<and>
     (\<forall>x. system = Some x \<longrightarrow> (\<exists>ws. x = join_with [10, 10] ws \<and> (\<forall>w\<in>set ws. \<exists>us. set us \<subseteq> set ts \<and> w = concat us)))"

lemma anthropic_made_of:
  assumes "extract_texts payload = Inr ts" "anthropic_translate payload = Inr (system, outs)"
  shows "made_of ts system outs"
proof -
  obtain msgs sys where run: "iter_or_empty (dget payload (str ''messages'')) = Inr msgs"
    "anthropic_loop msgs [] [] = Inr (sys, outs)" "system = (if sys \<noteq> [] then Some (join_with [10, 10] sys) else None)"
    using assms(2) by (auto simp: anthropic_translate_def rbind_Inr_iff)
  note said = message_collected [OF assms(1) run(1) anthropic_loop_dicts [OF run(2)]]
  note spec = anthropic_loop_spec [OF run(2)]
  have "\<exists>r us. r \<in> {str ''assistant'', str ''user''} \<and> set us \<subseteq> set ts \<and> m = turn r (concat us)" if "m \<in> set outs" for m
  proof -
    have "turn_of msgs m" using spec that by simp
    then obtain x r where "said msgs x" "r \<in> {str ''assistant'', str ''user''}" "m = turn r x" unfolding turn_of_def by blast
    then show ?thesis using said [of x] by blast
  qed
  moreover have "\<exists>us. set us \<subseteq> set ts \<and> w = concat us" if "w \<in> set sys" for w
    using spec that said [of w] by simp
  ultimately show ?thesis using run(3) unfolding made_of_def by (auto split: if_splits)
qed

text \<open>C19. What the Anthropic, Gemini and Bedrock adapters send as conversation is made of walked texts only: every
  message and every part of the system prompt is a concatenation of texts that \<open>extract_texts\<close>
  finds in the payload, so sanitizing those sanitizes the whole conversation. (The Ollama adapter translates the
  answer, not the conversation: it sends the messages of the payload as they are.)\<close>

theorem adapter_sends_walked_text:
  assumes "extract_texts payload = Inr ts"
  shows "(anthropic_translate payload = Inr (system, outs) \<longrightarrow> made_of ts system outs)
   \<and> (gemini_translate payload = Inr (instruction, contents) \<longrightarrow>
        (\<exists>system outs. made_of ts system outs \<and> instruction = map_option gemini_text system \<and> contents = map gemini_turn outs))
   \<and> (bedrock_body payload = Inr body \<longrightarrow>
        (\<exists>system outs. made_of ts system outs \<and> dget body (str ''messages'') = JList outs
          \<and> dget body (str ''system'') = (case system of None \<Rightarrow> JNull | Some x \<Rightarrow> JStr x)))"
proof (intro conjI impI)
  show "made_of ts system outs" if "anthropic_translate payload = Inr (system, outs)"
    by (rule anthropic_made_of [OF assms that])
next
  assume "gemini_translate payload = Inr (instruction, contents)"
  then obtain s o' where "anthropic_translate payload = Inr (s, o')" "instruction = map_option gemini_text s" "contents = map gemini_turn o'"
    by (auto simp: translations_agree rbind_Inr_iff)
  then show "\<exists>system outs. made_of ts system outs \<and> instruction = map_option gemini_text system \<and> contents = map gemini_turn outs"
    using anthropic_made_of [OF assms] by blast
next
  assume "bedrock_body payload = Inr body"
  then obtain s o' where so: "anthropic_translate payload = Inr (s, o')" and
    b: "body = [(str ''anthropic_version'', JStr (str ''bedrock-2023-05-31'')), (str ''messages'', JList o'),
             (str ''max_tokens'', max_tokens_or_default payload)]
            @ (case s of None \<Rightarrow> [] | Some x \<Rightarrow> [(str ''system'', JStr x)]) @ temperature_field payload"
    by (auto simp: translations_agree rbind_Inr_iff)
  have "dget body (str ''messages'') = JList o' \<and> dget body (str ''system'') = (case s of None \<Rightarrow> JNull | Some x \<Rightarrow> JStr x)"
    unfolding b by (cases s) (simp_all add: dget_def temperature_field_def str_def)
  then show "\<exists>system outs. made_of ts system outs \<and> dget body (str ''messages'') = JList outs
      \<and> dget body (str ''system'') = (case system of None \<Rightarrow> JNull | Some x \<Rightarrow> JStr x)"
    using anthropic_made_of [OF assms so] by blast
qed

text \<open>C20. The model named by a caller reaches the Gemini URL only when it is made of at most 64
  letters, digits, dots, underscores and hyphens and starts with a letter or a digit, or is such
  a name followed by one newline, which \<open>$\<close> lets through.\<close>

theorem gemini_url_safe:
  assumes "gemini_resolve_model u dflt payload = Inr m"
  shows "m = dflt \<or> (map_of payload (str ''model'') = Some (JStr m) \<and> (model_name m \<or> (\<exists>w. model_name w \<and> m = w @ [10])))"
proof -
  obtain g where g: "is_generic_model u (dget payload (str ''model'')) = Inr g"
    using assms by (auto simp: gemini_resolve_model_def rbind_Inr_iff)
  show ?thesis
  proof (cases g)
    case False
    show ?thesis
    proof (cases "dget payload (str ''model'')")
      case (JStr r)
      have "re_match u MODEL_RE r \<noteq> None \<and> m = r"
        using assms g False unfolding gemini_resolve_model_def JStr by (cases "re_match u MODEL_RE r") simp_all
      moreover have "map_of payload (str ''model'') = Some (JStr r)"
        using JStr by (cases "map_of payload (str ''model'')") (simp_all add: dget_def)
      ultimately show ?thesis using model_match [of u r] by simp
    qed (use assms g False in \<open>simp_all add: gemini_resolve_model_def\<close>)
  qed (use assms g in \<open>simp add: gemini_resolve_model_def\<close>)
qed

text \<open>C21. A stream that ends normally is a series of non-empty content chunks followed by exactly
  one chunk with the finish reason, for Anthropic and Gemini whatever the upstream sends; a
  Bedrock stream carries exactly the content and the finish reason of the completion, or raises
  what the completion raises.\<close>

theorem streams_end_once:
  "(snd (anthropic_events env model finish ls err) = None \<longrightarrow> ends_once env model (anthropic_events env model finish ls err))
   \<and> (snd (gemini_events env m finish ls err) = None \<longrightarrow> ends_once env (JStr m) (gemini_events env m finish ls err))
   \<and> (case bedrock_complete env g payload of
        Inl e \<Rightarrow> bedrock_stream env g payload = ([], Some e)
      | Inr completion \<Rightarrow> \<exists>bm s fin.
          extract_completion_text completion = JStr s \<and>
          completion_path (str ''finish_reason'') completion = Inr fin \<and>
          bedrock_stream env g payload =
            ((if s \<noteq> [] then [build_chunk env (JStr bm) (Some (JStr s)) JNull] else []) @ [build_chunk env (JStr bm) None fin], None))"
proof (intro conjI impI anthropic_events_end gemini_events_end)
  show "case bedrock_complete env g payload of
        Inl e \<Rightarrow> bedrock_stream env g payload = ([], Some e)
      | Inr completion \<Rightarrow> \<exists>bm s fin.
          extract_completion_text completion = JStr s \<and>
          completion_path (str ''finish_reason'') completion = Inr fin \<and>
          bedrock_stream env g payload =
            ((if s \<noteq> [] then [build_chunk env (JStr bm) (Some (JStr s)) JNull] else []) @ [build_chunk env (JStr bm) None fin], None)"
  proof (cases "bedrock_complete env g payload")
    case (Inl e)
    then show ?thesis by (simp add: bedrock_stream_def raises_def)
  next
    case (Inr v)
    obtain bm data where a: "bedrock_answer env (JStr bm) data = Inr v"
      using Inr by (auto simp: bedrock_complete_def rbind_Inr_iff split: if_splits)
    obtain s fin pt ct where v: "v = build_completion env (JStr bm) (JStr s) fin pt ct"
      using bedrock_answer_shape [OF a] by blast
    have "extract_completion_text v = JStr s" "completion_path (str ''finish_reason'') v = Inr fin"
      "sub_key v (str ''model'') = Inr (JStr bm)"
      "rbind (completion_path (str ''message'') v) (\<lambda>msg. sub_key msg (str ''content'')) = Inr (JStr s)"
      by (simp_all add: v build_completion_def extract_completion_text_def completion_path_def)
    then show ?thesis using Inr by (auto simp: bedrock_stream_def raises_def rbind_Inr_iff)
  qed
qed simp_all

text \<open>An Ollama stream has a finish chunk only where a line is done: one that ends without such a line ends normally.\<close>

lemma ollama_unfinished:
  assumes "ge_loads env (py_strip (ge_ucd env) raw) = Inr (JDict [(str ''message'', JDict [(str ''content'', JStr (str ''hi''))])])"
    "py_strip (ge_ucd env) raw \<noteq> []"
  shows "ollama_events env m [raw] None = ([build_chunk env (JStr m) (Some (JStr (str ''hi''))) JNull], None)"
  using assms by (simp add: Let_def ollama_event_def ollama_content_def dget_def or_dict_def or_else_def str_def)

section \<open>Witnesses\<close>

definition turn_payload :: dict where
  "turn_payload = [(str ''model'', JStr (str ''gemini-2.0'')),
     (str ''messages'', JList [JDict [(str ''role'', JStr (str ''system'')), (str ''content'', JStr (str ''be brief''))],
        JDict [(str ''role'', JStr (str ''user'')),
               (str ''content'', JList [JDict [(str ''type'', JStr (str ''text'')), (str ''text'', JStr (str ''hi''))]])]])]"

lemma turn_payload_texts: "extract_texts turn_payload = Inr [str ''be brief'', str ''hi'']"
  by code_simp

lemma turn_payload_translated: "anthropic_translate turn_payload = Inr (Some (str ''be brief''), [turn (str ''user'') (str ''hi'')])"
  by code_simp

theorem adapter_sends_walked_text_witness:
  "made_of [str ''be brief'', str ''hi''] (Some (str ''be brief'')) [turn (str ''user'') (str ''hi'')]
   \<and> (\<exists>instruction contents. gemini_translate turn_payload = Inr (Some instruction, contents) \<and> length contents = 1
     \<and> (\<exists>system outs. made_of [str ''be brief'', str ''hi''] system outs \<and> Some instruction = map_option gemini_text system
       \<and> contents = map gemini_turn outs))"
proof -
  have "gemini_translate turn_payload = Inr (Some (gemini_text (str ''be brief'')), [gemini_turn (turn (str ''user'') (str ''hi''))])"
    using turn_payload_translated by (simp add: translations_agree)
  with adapter_sends_walked_text [OF turn_payload_texts] turn_payload_translated show ?thesis by fastforce
qed

lemma turn_payload_model: "gemini_resolve_model ascii_ucd (str ''gemini-2.5-flash'') turn_payload = Inr (str ''gemini-2.0'')"
  by code_simp

theorem gemini_url_safe_witness:
  "model_name (str ''gemini-2.0'') \<or> (\<exists>w. model_name w \<and> str ''gemini-2.0'' = w @ [10])"
  using gemini_url_safe [OF turn_payload_model] by simp

text \<open>An Anthropic stream whose one event carries a text.\<close>

definition delta_event :: json where
  "delta_event = JDict [(str ''type'', JStr (str ''content_block_delta'')),
     (str ''delta'', JDict [(str ''type'', JStr (str ''text_delta'')), (str ''text'', JStr (str ''hi''))])]"

definition quiet_env :: gateway_env where
  "quiet_env = \<lparr>ge_ucd = ascii_ucd, ge_loads = (\<lambda>_. Inr delta_event), ge_int = (\<lambda>_. Inl ValueError), ge_now = 0, ge_uuid = str ''0'',
     ge_post = (\<lambda>_. Inl (str ''down'')), ge_stream = (\<lambda>_. Inl (str ''down'')), ge_boto = (\<lambda>_. None)\<rparr>"

theorem streams_end_once_witness:
  "anthropic_events quiet_env JNull JNull [str ''data: x''] None
     = ([build_chunk quiet_env JNull (Some (JStr (str ''hi''))) JNull, build_chunk quiet_env JNull None JNull], None)
   \<and> ends_once quiet_env JNull (anthropic_events quiet_env JNull JNull [str ''data: x''] None)"
proof -
  have s: "sse_event (ge_ucd quiet_env) (ge_loads quiet_env) (str ''data: x'') = Inr (Some delta_event)"
    unfolding quiet_env_def by simp (code_simp)
  have e: "anthropic_event quiet_env JNull JNull delta_event = Inr ([build_chunk quiet_env JNull (Some (JStr (str ''hi''))) JNull], JNull, False)"
    by (simp add: anthropic_event_def delta_event_def dget_def or_dict_def str_def)
  have "anthropic_events quiet_env JNull JNull [str ''data: x''] None
     = ([build_chunk quiet_env JNull (Some (JStr (str ''hi''))) JNull, build_chunk quiet_env JNull None JNull], None)"
    by (simp add: s e)
  then show ?thesis using streams_end_once [of quiet_env JNull JNull "[str ''data: x'']" None] by simp
qed

end
