(* ===== verification/Auth.thy ===== *)
theory Auth
  imports Config
begin

text \<open>
  \<open>app/auth.py\<close>: API keys. The argon2 hasher is a parameter: hashing takes the salt it draws,
  verifying answers \<open>None\<close> when it raises one of the exceptions \<open>verify_key\<close> catches. The tables
  are lists of rows in the order the database returns them.
\<close>

section \<open>The code\<close>

record hasher =
  hs_hash :: "nat \<Rightarrow> pystr \<Rightarrow> pystr"
  hs_verify :: "pystr \<Rightarrow> pystr \<Rightarrow> bool option"

record api_key =
  ak_id :: pystr
  ak_team :: pystr
  ak_hash :: pystr
  ak_label :: "pystr option"
  ak_revoked_at :: "int option"

record team =
  tm_id :: pystr
  tm_default_policy :: "pystr option"

record auth_context =
  au_team :: pystr
  au_policy :: "pystr option"
  au_api_key :: "pystr option"

definition DEFAULT_TEAM_ID :: pystr where "DEFAULT_TEAM_ID = str ''00000000-0000-0000-0000-0000000000bb''"
definition DEFAULT_POLICY_ID :: pystr where "DEFAULT_POLICY_ID = str ''00000000-0000-0000-0000-0000000000cc''"
definition KEY_PREFIX :: pystr where "KEY_PREFIX = str ''rg-''"

definition make_key :: "pystr \<Rightarrow> pystr" where
  "make_key token = KEY_PREFIX @ token"

definition hash_key :: "hasher \<Rightarrow> nat \<Rightarrow> pystr \<Rightarrow> pystr" where
  "hash_key h salt raw = hs_hash h salt raw"

definition verify_key :: "hasher \<Rightarrow> pystr \<Rightarrow> pystr \<Rightarrow> bool" where
  "verify_key h hashed raw = (case hs_verify h hashed raw of None \<Rightarrow> False | Some b \<Rightarrow> b)"

text \<open>\<open>s.split(None, 1)\<close>.\<close>

definition split_once :: "ucd \<Rightarrow> pystr \<Rightarrow> pystr list" where
  "split_once u s =
     (let s1 = py_lstrip u s; word = takeWhile (\<lambda>c. \<not> u_space u c) s1; rest = py_lstrip u (drop (length word) s1) in
      if s1 = [] then [] else if rest = [] then [word] else [word, rest])"

definition parse_bearer :: "ucd \<Rightarrow> pystr option \<Rightarrow> pystr option" where
  "parse_bearer u authorization =
     (case authorization of
        None \<Rightarrow> None
      | Some a \<Rightarrow>
          if a = [] then None
          else case split_once u a of
            [scheme, rest] \<Rightarrow>
              if u_lower u scheme \<noteq> str ''bearer'' then None
              else let token = py_strip u rest in if token = [] then None else Some token
          | _ \<Rightarrow> None)"

definition invalid_api_key :: exn where
  "invalid_api_key = ProviderError (str ''invalid api key'') 401 []"

fun first_verified :: "hasher \<Rightarrow> pystr \<Rightarrow> api_key list \<Rightarrow> api_key option" where
  "first_verified h raw [] = None"
| "first_verified h raw (row # rows) = (if verify_key h (ak_hash row) raw then Some row else first_verified h raw rows)"

definition authenticate :: "ucd \<Rightarrow> hasher \<Rightarrow> settings \<Rightarrow> api_key list \<Rightarrow> team list \<Rightarrow> pystr option \<Rightarrow> auth_context res" where
  "authenticate u h st keys teams authorization =
     (if \<not> st_require_api_key st then
        Inr \<lparr>au_team = DEFAULT_TEAM_ID, au_policy = Some DEFAULT_POLICY_ID, au_api_key = None\<rparr>
      else case parse_bearer u authorization of
        None \<Rightarrow> Inl invalid_api_key
      | Some raw \<Rightarrow>
          (case first_verified h raw (filter (\<lambda>k. ak_revoked_at k = None) keys) of
             None \<Rightarrow> Inl invalid_api_key
           | Some row \<Rightarrow>
               Inr \<lparr>au_team = ak_team row,
                    au_policy = (case find (\<lambda>t. tm_id t = ak_team row) teams of None \<Rightarrow> None | Some t \<Rightarrow> tm_default_policy t),
                    au_api_key = Some (ak_id row)\<rparr>))"

text \<open>The new row's id is minted by the table's default; \<open>token\<close> is what \<open>token_urlsafe\<close> returns.\<close>

definition ensure_default_api_key :: "hasher \<Rightarrow> pystr \<Rightarrow> nat \<Rightarrow> pystr \<Rightarrow> api_key list \<Rightarrow> pystr option \<times> api_key list" where
  "ensure_default_api_key h token salt new_id keys =
     (if \<exists>k\<in>set keys. ak_team k = DEFAULT_TEAM_ID then (None, keys)
      else let raw = make_key token in
        (Some raw, keys @ [\<lparr>ak_id = new_id, ak_team = DEFAULT_TEAM_ID, ak_hash = hash_key h salt raw,
                            ak_label = Some (str ''default-dev''), ak_revoked_at = None\<rparr>]))"

section \<open>Lemmas\<close>

text \<open>What the hasher promises: \<open>verify\<close> of a hash answers true for the key it was made of and raises
  \<open>VerifyMismatchError\<close>, an \<open>Argon2Error\<close>, for every other.\<close>

definition hasher_ok :: "hasher \<Rightarrow> bool" where
  "hasher_ok h \<longleftrightarrow> (\<forall>salt raw raw'. hs_verify h (hs_hash h salt raw) raw' = (if raw = raw' then Some True else None))"

lemma hasher_verify: "hasher_ok h \<Longrightarrow> verify_key h (hs_hash h salt raw) raw' \<longleftrightarrow> raw = raw'"
  by (simp add: hasher_ok_def verify_key_def)

lemma first_verified_None: "first_verified h raw keys = None \<longleftrightarrow> (\<forall>k\<in>set keys. \<not> verify_key h (ak_hash k) raw)"
  by (induction keys) auto

lemma first_verified_Some: "first_verified h raw keys = Some k \<Longrightarrow> k \<in> set keys \<and> verify_key h (ak_hash k) raw"
  by (induction keys) (auto split: if_splits)

lemma first_verified_append: "first_verified h raw (xs @ ys) =
    (case first_verified h raw xs of None \<Rightarrow> first_verified h raw ys | Some k \<Rightarrow> Some k)"
  by (induction xs) auto

text \<open>Every stored hash was made by \<open>hash_key\<close>; \<open>made k\<close> is the key it was made of.\<close>

definition made_by :: "hasher \<Rightarrow> (api_key \<Rightarrow> pystr) \<Rightarrow> api_key list \<Rightarrow> bool" where
  "made_by h made keys \<longleftrightarrow> (\<forall>k\<in>set keys. \<exists>salt. ak_hash k = hs_hash h salt (made k))"

lemma made_by_verify:
  assumes "hasher_ok h" "made_by h made keys" "k \<in> set keys"
  shows "verify_key h (ak_hash k) raw \<longleftrightarrow> made k = raw"
  using assms hasher_verify unfolding made_by_def by metis

lemma authenticate_refused:
  assumes "hasher_ok h" "made_by h made keys" "st_require_api_key st"
    and "\<forall>k\<in>set keys. ak_revoked_at k = None \<longrightarrow> parse_bearer u authz \<noteq> Some (made k)"
  shows "authenticate u h st keys teams authz = Inl invalid_api_key"
proof (cases "parse_bearer u authz")
  case (Some raw)
  have "first_verified h raw (filter (\<lambda>k. ak_revoked_at k = None) keys) = None"
    unfolding first_verified_None using made_by_verify [OF assms(1,2)] assms(4) Some by auto
  then show ?thesis using Some assms(3) by (simp add: authenticate_def)
qed (use assms(3) in \<open>simp add: authenticate_def\<close>)

lemma parse_bearer_header:
  assumes "ucd_ascii u" "token \<noteq> []" "\<forall>c\<in>set token. \<not> u_space u c"
  shows "parse_bearer u (Some (str ''Bearer '' @ token)) = Some token"
proof -
  have lower: "u_lower u (str ''Bearer'') = str ''bearer''"
  proof -
    have "\<forall>c\<in>set (str ''Bearer''). c < 128" by (simp add: str_def)
    then have "u_lower u (str ''Bearer'') = map ascii_lower (str ''Bearer'')" using assms(1) unfolding ucd_ascii_def by blast
    then show ?thesis by (simp add: str_def ascii_lower_def ascii_uppercase_def)
  qed
  have sp: "u_space u 32" "\<not> u_space u 66" "\<not> u_space u 101" "\<not> u_space u 97" "\<not> u_space u 114"
    using ucd_asciiD(3) [OF assms(1)] by (simp_all add: ascii_space_def)
  have hd: "dropWhile (u_space u) token = token" using assms(2,3) by (cases token) simp_all
  have "dropWhile (u_space u) (rev token) = rev token"
    using assms(2,3) by (cases token rule: rev_cases) simp_all
  then have strip: "py_strip u token = token" by (simp add: py_strip_def py_rstrip_def py_lstrip_def hd)
  have s: "str ''Bearer '' @ token = str ''Bearer'' @ 32 # token" by (simp add: str_def)
  have "split_once u (str ''Bearer'' @ 32 # token) = [str ''Bearer'', token]"
    using sp hd assms(2) by (simp add: split_once_def str_def py_lstrip_def Let_def)
  then show ?thesis unfolding s by (simp add: parse_bearer_def lower strip assms(2))
qed

section \<open>Properties\<close>

text \<open>C22. Authentication fails closed: with keys required, a request gets a tenant exactly when its
  header is a bearer token from which some stored, unrevoked key was made, and it is that key's
  tenant; everything else is refused with 401, and a revoked key opens nothing.\<close>

theorem authenticate_sound:
  assumes "hasher_ok h" "made_by h made keys" "st_require_api_key st"
  shows "(\<forall>au. authenticate u h st keys teams authz = Inr au \<longrightarrow>
            (\<exists>k\<in>set keys. ak_revoked_at k = None \<and> parse_bearer u authz = Some (made k)
               \<and> au_team au = ak_team k \<and> au_api_key au = Some (ak_id k)))
    \<and> (\<forall>e. authenticate u h st keys teams authz = Inl e \<longrightarrow> e = invalid_api_key)
    \<and> ((\<exists>au. authenticate u h st keys teams authz = Inr au) \<longleftrightarrow>
         (\<exists>k\<in>set keys. ak_revoked_at k = None \<and> parse_bearer u authz = Some (made k)))"
proof -
  let ?live = "filter (\<lambda>k. ak_revoked_at k = None) keys"
  have v: "verify_key h (ak_hash k) raw \<longleftrightarrow> made k = raw" if "k \<in> set ?live" for k raw
    using made_by_verify [OF assms(1,2)] that by simp
  show ?thesis
  proof (cases "parse_bearer u authz")
    case None
    then show ?thesis using assms(3) by (simp add: authenticate_def)
  next
    case (Some raw)
    show ?thesis
    proof (cases "first_verified h raw ?live")
      case None
      then have "\<forall>k\<in>set keys. ak_revoked_at k = None \<longrightarrow> made k \<noteq> raw"
        using v unfolding first_verified_None by auto
      then show ?thesis using assms(3) Some None by (auto simp: authenticate_def)
    next
      case (Some row)
      have "row \<in> set ?live" "made row = raw" using first_verified_Some [OF Some] v by auto
      then show ?thesis using assms(3) Some \<open>parse_bearer u authz = Some raw\<close> by (auto simp: authenticate_def)
    qed
  qed
qed

text \<open>Bootstrapping: the key shown once is accepted afterwards for the default team, and asking
  again creates none.\<close>

lemma default_key_opens:
  assumes "hasher_ok h" "made_by h made keys" "ucd_ascii u" "\<forall>c\<in>set (make_key token). \<not> u_space u c"
    and "ensure_default_api_key h token salt new_id keys = (Some raw, keys')"
    and "\<forall>k\<in>set keys. made k \<noteq> raw" "st_require_api_key st"
  shows "(\<exists>au. authenticate u h st keys' teams (Some (str ''Bearer '' @ raw)) = Inr au \<and> au_team au = DEFAULT_TEAM_ID)
    \<and> ensure_default_api_key h token' salt' new_id' keys' = (None, keys')"
proof -
  obtain row where row: "raw = make_key token" "keys' = keys @ [row]" "ak_team row = DEFAULT_TEAM_ID"
    "ak_hash row = hs_hash h salt raw" "ak_revoked_at row = None"
    using assms(5) by (auto simp: ensure_default_api_key_def hash_key_def Let_def split: if_splits)
  have ne: "raw \<noteq> []" by (simp add: row(1) make_key_def KEY_PREFIX_def)
  have p: "parse_bearer u (Some (str ''Bearer '' @ raw)) = Some raw"
    using parse_bearer_header [OF assms(3) ne] assms(4) row(1) by simp
  let ?live = "filter (\<lambda>k. ak_revoked_at k = None) keys"
  have "first_verified h raw ?live = None"
    unfolding first_verified_None using made_by_verify [OF assms(1,2)] assms(6) by auto
  moreover have "verify_key h (ak_hash row) raw" using hasher_verify [OF assms(1)] row(4) by simp
  ultimately have "first_verified h raw (filter (\<lambda>k. ak_revoked_at k = None) keys') = Some row"
    using row(2,5) by (simp add: first_verified_append)
  then have "\<exists>au. authenticate u h st keys' teams (Some (str ''Bearer '' @ raw)) = Inr au \<and> au_team au = DEFAULT_TEAM_ID"
    using assms(7) p row(3) by (simp add: authenticate_def)
  moreover have "ensure_default_api_key h token' salt' new_id' keys' = (None, keys')"
    using row(2,3) by (simp add: ensure_default_api_key_def)
  ultimately show ?thesis by blast
qed

section \<open>Witnesses\<close>

definition plain_hasher :: hasher where
  "plain_hasher = \<lparr>hs_hash = (\<lambda>salt raw. salt # raw), hs_verify = (\<lambda>hashed raw. if tl hashed = raw then Some True else None)\<rparr>"

lemma plain_hasher_ok: "hasher_ok plain_hasher"
  by (simp add: hasher_ok_def plain_hasher_def)

definition demo_keys :: "api_key list" where
  "demo_keys = [\<lparr>ak_id = str ''1'', ak_team = str ''t'', ak_hash = 7 # str ''rg-a'', ak_label = None, ak_revoked_at = Some 5\<rparr>]"

lemma demo_made: "made_by plain_hasher (\<lambda>k. tl (ak_hash k)) demo_keys"
  by (simp add: made_by_def demo_keys_def plain_hasher_def)

theorem authenticate_sound_witness:
  "authenticate ascii_ucd plain_hasher default_settings demo_keys [] (Some (str ''Bearer rg-a'')) = Inl invalid_api_key"
proof -
  have r: "st_require_api_key default_settings" by (simp add: default_settings_def)
  note s = authenticate_sound [OF plain_hasher_ok demo_made r, of ascii_ucd "[]" "Some (str ''Bearer rg-a'')"]
  have "\<not> (\<exists>k\<in>set demo_keys. ak_revoked_at k = None)" by (simp add: demo_keys_def)
  then have "\<not> (\<exists>au. authenticate ascii_ucd plain_hasher default_settings demo_keys [] (Some (str ''Bearer rg-a'')) = Inr au)"
    using s by blast
  then show ?thesis
    using s by (cases "authenticate ascii_ucd plain_hasher default_settings demo_keys [] (Some (str ''Bearer rg-a''))") auto
qed

end
