(* ===== verification/Proxy.thy ===== *)
theory Proxy
  imports Pipeline Audit_Log Adapters Auth
begin

text \<open>
  \<open>app/routes/proxy.py\<close> and the parts of \<open>app/deps.py\<close> it is built from: a request through the
  whole firewall. The outcome of a handler is the list of payloads handed to the provider, and the
  reply with the new state or the exception that leaves the handler (the transaction is then
  rolled back, so no state is returned). A streamed body is the list of its events and the
  exception that cuts it, if one does.
\<close>

section \<open>Dependencies\<close>

definition build_vault :: "crypto \<Rightarrow> settings \<Rightarrow> vault res" where
  "build_vault cr st =
     rbind (key_bytes st (str ''vault_master_key'')) (\<lambda>mk.
     rbind (key_bytes st (str ''fingerprint_hmac_key'')) (\<lambda>fk.
       Inr \<lparr>va_crypto = cr, va_master_key = mk, va_fingerprint_key = fk\<rparr>))"

text \<open>The float printer of \<open>json.dumps\<close>, the sink of the request and \<open>record_event\<close> on a session of its own, and
  the measured latency.\<close>

record proxy_env =
  px_ucd :: ucd
  px_float :: "rat \<Rightarrow> pystr"
  px_sink :: "(audit_args \<Rightarrow> audit_table \<Rightarrow> (audit_event \<times> audit_table) res) option"
  px_record :: "audit_args \<Rightarrow> audit_table \<Rightarrow> (audit_event \<times> audit_table) res"
  px_latency :: int

datatype reply =
    JSON_Response int json
  | SSE_Response "pystr list" "exn option"

section \<open>Helpers\<close>

definition provider_permitted :: "policy_decision \<Rightarrow> pystr \<Rightarrow> bool" where
  "provider_permitted decision name \<longleftrightarrow> pd_allowed_providers decision = [] \<or> name \<in> set (pd_allowed_providers decision)"

definition provider_name_of :: "settings \<Rightarrow> provider \<Rightarrow> pystr" where
  "provider_name_of st pv = (if pv_name pv \<noteq> [] then pv_name pv else provider_str (st_ai_provider st))"

definition usage_of :: "json \<Rightarrow> json \<times> json" where
  "usage_of completion =
     (case completion of
        JDict c \<Rightarrow>
          (case dget c (str ''usage'') of
             JDict us \<Rightarrow> (dget us (str ''prompt_tokens''), dget us (str ''completion_tokens''))
           | _ \<Rightarrow> (JNull, JNull))
      | _ \<Rightarrow> (JNull, JNull))"

text \<open>The call both audit helpers make.\<close>

record audit_call =
  ac_auth :: auth_context
  ac_route :: pystr
  ac_provider :: pystr
  ac_counts :: "(pystr \<times> int) list"
  ac_blocked :: bool
  ac_prompt_tokens :: json
  ac_completion_tokens :: json
  ac_latency :: "int option"

definition audit_row :: "audit_call \<Rightarrow> pystr option \<Rightarrow> audit_args" where
  "audit_row c session_id =
     \<lparr>aa_team = au_team (ac_auth c), aa_api_key = au_api_key (ac_auth c), aa_session = session_id, aa_route = ac_route c,
      aa_provider = ac_provider c, aa_counts = ac_counts c, aa_blocked = ac_blocked c, aa_prompt_tokens = ac_prompt_tokens c,
      aa_completion_tokens = ac_completion_tokens c, aa_latency_ms = ac_latency c\<rparr>"

text \<open>A failed insert rolls back the transaction of the session it runs on; the other exceptions are raised before it
  and leave the session as it is. The caller sees none of them.\<close>

definition db_error :: "exn \<Rightarrow> bool" where
  "db_error e \<longleftrightarrow> e = DataError \<or> e = IntegrityError"

definition safe_audit :: "proxy_env \<Rightarrow> audit_call \<Rightarrow> pystr option \<Rightarrow> audit_table \<Rightarrow> audit_table" where
  "safe_audit env c session_id t =
     (case px_sink env of
        None \<Rightarrow> t
      | Some record \<Rightarrow>
          (case record (audit_row c session_id) t of
             Inl e \<Rightarrow> if db_error e then t\<lparr>at_failed := True\<rparr> else t
           | Inr (_, t') \<Rightarrow> t'))"

fun safe_audit_fresh :: "proxy_env \<Rightarrow> audit_call \<Rightarrow> pystr option list \<Rightarrow> audit_table \<Rightarrow> audit_table" where
  "safe_audit_fresh env c [] t = t"
| "safe_audit_fresh env c (sid # sids) t =
     (case px_record env (audit_row c sid) t of
        Inr (_, t') \<Rightarrow> t'
      | Inl _ \<Rightarrow> safe_audit_fresh env c sids t)"

definition read_payload :: "json res \<Rightarrow> dict res" where
  "read_payload body =
     (case body of
        Inr (JDict d) \<Rightarrow> Inr d
      | _ \<Rightarrow> Inl (ProviderError (str ''request body must be a JSON object'') 400 []))"

definition sse_chunk :: "(rat \<Rightarrow> pystr) \<Rightarrow> json \<Rightarrow> pystr" where
  "sse_chunk fl chunk = str ''data: '' @ dumps fl (compact_style False) chunk @ [10, 10]"

definition sse_done :: pystr where
  "sse_done = str ''data: [DONE]'' @ [10, 10]"

definition plain_error :: "pystr \<Rightarrow> pystr option \<Rightarrow> json" where
  "plain_error msg code = error_body msg (str ''redactgate_error'') code"

section \<open>The stream\<close>

definition stream_step :: "ucd \<Rightarrow> (pystr \<Rightarrow> pystr res) \<Rightarrow> pystr \<Rightarrow> json \<Rightarrow> (json \<times> pystr) res" where
  "stream_step u rslv buffer chunk =
     (let delta = extract_delta_text chunk in
      if truthy delta then
        (case delta of
           JStr d \<Rightarrow> rbind (push u rslv buffer d) (\<lambda>(out, buffer'). rbind (set_delta_text chunk (JStr out)) (\<lambda>chunk'. Inr (chunk', buffer')))
         | _ \<Rightarrow> Inl TypeError)
      else Inr (chunk, buffer))"

fun stream_loop :: "ucd \<Rightarrow> (pystr \<Rightarrow> pystr res) \<Rightarrow> pystr \<Rightarrow> json list \<Rightarrow> exn option \<Rightarrow> json list \<times> pystr res" where
  "stream_loop u rslv buffer [] err = ([], case err of None \<Rightarrow> Inr buffer | Some e \<Rightarrow> Inl e)"
| "stream_loop u rslv buffer (chunk # chunks) err =
     (case stream_step u rslv buffer chunk of
        Inl e \<Rightarrow> ([], Inl e)
      | Inr (chunk', buffer') \<Rightarrow> apfst ((#) chunk') (stream_loop u rslv buffer' chunks err))"

definition tail_chunk :: "pystr \<Rightarrow> json" where
  "tail_chunk tail =
     JDict [(str ''object'', JStr (str ''chat.completion.chunk'')),
       (str ''choices'', JList [JDict [(str ''index'', JInt 0), (str ''delta'', JDict [(str ''content'', JStr tail)]), (str ''finish_reason'', JNull)]])]"

text \<open>The JSON events of the generator and how it leaves its \<open>try\<close> block.\<close>

definition stream_events :: "ucd \<Rightarrow> (pystr \<Rightarrow> pystr res) \<Rightarrow> chunks \<Rightarrow> json list \<times> unit res" where
  "stream_events u rslv cs =
     (case stream_loop u rslv [] (fst cs) (snd cs) of
        (evs, Inl e) \<Rightarrow> (evs, Inl e)
      | (evs, Inr buffer) \<Rightarrow>
          (case flush rslv buffer of
             Inl e \<Rightarrow> (evs, Inl e)
           | Inr (tail, _) \<Rightarrow> (evs @ (if tail \<noteq> [] then [tail_chunk tail] else []), Inr ())))"

definition stream_response :: "proxy_env \<Rightarrow> (pystr \<Rightarrow> pystr res) \<Rightarrow> chunks \<Rightarrow> audit_call \<Rightarrow> pystr \<Rightarrow> audit_table \<Rightarrow> reply \<times> audit_table" where
  "stream_response env rslv cs c session_id t =
     (let fl = px_float env; audited = safe_audit_fresh env c [Some session_id, None] t in
      case stream_events (px_ucd env) rslv cs of
        (evs, Inr _) \<Rightarrow> (SSE_Response (map (sse_chunk fl) evs @ [sse_done]) None, audited)
      | (evs, Inl (ProviderError msg _ _)) \<Rightarrow>
          (SSE_Response (map (sse_chunk fl) evs @ [sse_chunk fl (plain_error msg (Some (str ''provider_error''))), sse_done]) None, audited)
      | (evs, Inl e) \<Rightarrow> (SSE_Response (map (sse_chunk fl) evs @ [sse_done]) (Some e), t))"

section \<open>The handler\<close>

definition blocked_counts :: "pystr list \<Rightarrow> (pystr \<times> int) list" where
  "blocked_counts types = map (\<lambda>t. (t, 1)) (sorted_list_of_set (set types))"

text \<open>The session a blocked request opened stays; nothing else of it is stored.\<close>

definition opened :: "'s pipeline \<Rightarrow> 's \<Rightarrow> 's" where
  "opened pl s = (case pl_create_session pl s of Inr (_, s1) \<Rightarrow> s1 | Inl _ \<Rightarrow> s)"

type_synonym 's proxy_state = "'s \<times> nat \<times> audit_table"
type_synonym 's outcome = "dict list \<times> (reply \<times> 's proxy_state) res"

definition base_call :: "auth_context \<Rightarrow> pystr \<Rightarrow> pystr \<Rightarrow> (pystr \<times> int) list \<Rightarrow> audit_call" where
  "base_call au route pname cnts =
     \<lparr>ac_auth = au, ac_route = route, ac_provider = pname, ac_counts = cnts, ac_blocked = False,
      ac_prompt_tokens = JNull, ac_completion_tokens = JNull, ac_latency = None\<rparr>"

text \<open>What the request has written once its transaction is rolled back: nothing. (The vault is the store of the same
  session; the commit that follows raises.)\<close>

definition settle :: "'s \<Rightarrow> (reply \<times> 's proxy_state) res \<Rightarrow> (reply \<times> 's proxy_state) res" where
  "settle s r = rbind r (\<lambda>(rep, s', n, t). Inr (rep, if at_failed t then s else s', n, t))"

definition complete_request ::
  "proxy_env \<Rightarrow> 's pipeline \<Rightarrow> provider \<Rightarrow> auth_context \<Rightarrow> pystr \<Rightarrow> pystr \<Rightarrow> dict \<Rightarrow> pipeline_context \<Rightarrow> 's proxy_state \<Rightarrow> (reply \<times> 's proxy_state) res" where
  "complete_request env pl pv au route pname sanitized ctx = (\<lambda>(s, n, t).
     let c = (base_call au route pname (cx_counts ctx))\<lparr>ac_latency := Some (px_latency env)\<rparr> in
     case pv_complete pv sanitized of
       Inl (ProviderError msg code _) \<Rightarrow>
         Inr (JSON_Response code (plain_error msg (Some (str ''provider_error''))), s, n, safe_audit env c (Some (cx_session ctx)) t)
     | Inl e \<Rightarrow> Inl e
     | Inr completion \<Rightarrow>
         rbind (reinflate (px_ucd env) pl s completion ctx) (\<lambda>reinflated.
           let (pt, ct) = usage_of reinflated in
           Inr (JSON_Response 200 reinflated, s, n,
                safe_audit env (c\<lparr>ac_prompt_tokens := pt, ac_completion_tokens := ct\<rparr>) (Some (cx_session ctx)) t)))"

definition stream_request ::
  "proxy_env \<Rightarrow> 's pipeline \<Rightarrow> provider \<Rightarrow> auth_context \<Rightarrow> pystr \<Rightarrow> pystr \<Rightarrow> dict \<Rightarrow> pipeline_context \<Rightarrow> 's proxy_state \<Rightarrow> 's outcome" where
  "stream_request env pl pv au route pname sanitized ctx = (\<lambda>(s, n, t).
     case prepare_stream_reinflation (px_ucd env) pl s ctx of
       Inl e \<Rightarrow> ([], Inl e)
     | Inr detok \<Rightarrow>
         let c = (base_call au route pname (cx_counts ctx))\<lparr>ac_latency := Some (px_latency env)\<rparr>;
             (r, t') = stream_response env detok (pv_stream pv sanitized) c (cx_session ctx) t in
         ([sanitized], Inr (r, s, n, t')))"

definition handle ::
  "proxy_env \<Rightarrow> 's pipeline \<Rightarrow> provider \<Rightarrow> settings \<Rightarrow> auth_context \<Rightarrow> pystr \<Rightarrow> json res \<Rightarrow> 's proxy_state \<Rightarrow> 's outcome" where
  "handle env pl pv st au route body = (\<lambda>(s, n, t).
     let pname = provider_name_of st pv in
     if \<not> provider_permitted (pl_decision pl) pname then
       ([], Inr (JSON_Response 400 (plain_error (str ''provider '' @ [39] @ pname @ [39] @ str '' is not permitted by policy'')
          (Some (str ''provider_not_allowed''))), s, n, t))
     else case read_payload body of
       Inl (ProviderError msg code _) \<Rightarrow> ([], Inr (JSON_Response code (plain_error msg None), s, n, t))
     | Inl e \<Rightarrow> ([], Inl e)
     | Inr payload \<Rightarrow>
         (case build_vault (va_crypto (pl_vault pl)) st of
            Inl e \<Rightarrow> ([], Inl e)
          | Inr v \<Rightarrow>
              let pl = pl\<lparr>pl_vault := v\<rparr> in
              (case sanitize_request (px_ucd env) pl payload (s, n) of
                 Inl (HardBlockError types) \<Rightarrow>
                   ([], settle s (Inr (JSON_Response 422 (plain_error (str ''request blocked by redaction policy'') (Some (str ''hard_blocked''))),
                      opened pl s, n, safe_audit env ((base_call au route pname (blocked_counts types))\<lparr>ac_blocked := True\<rparr>) None t)))
               | Inl e \<Rightarrow> ([], Inl e)
               | Inr (sanitized, ctx, s', n') \<Rightarrow>
                   if truthy (dget payload (str ''stream''))
                   then stream_request env pl pv au route pname sanitized ctx (s', n', t)
                   else ([sanitized], settle s (complete_request env pl pv au route pname sanitized ctx (s', n', t))))))"

definition chat_completions ::
  "proxy_env \<Rightarrow> 's pipeline \<Rightarrow> provider \<Rightarrow> settings \<Rightarrow> auth_context \<Rightarrow> json res \<Rightarrow> 's proxy_state \<Rightarrow> 's outcome" where
  "chat_completions env pl pv st au body = handle env pl pv st au (str ''/v1/chat/completions'') body"

definition responses ::
  "proxy_env \<Rightarrow> 's pipeline \<Rightarrow> provider \<Rightarrow> settings \<Rightarrow> auth_context \<Rightarrow> json res \<Rightarrow> 's proxy_state \<Rightarrow> 's outcome" where
  "responses env pl pv st au body = handle env pl pv st au (str ''/v1/responses'') body"

fun model_entries :: "registry \<Rightarrow> settings \<Rightarrow> pystr list \<Rightarrow> instances \<Rightarrow> json list \<times> instances" where
  "model_entries reg st [] inst = ([], inst)"
| "model_entries reg st (name # names) inst =
     (let (model, inst') = (case get_provider reg name st inst of Inl _ \<Rightarrow> ([], inst) | Inr (p, i) \<Rightarrow> (pv_default_model p, i));
          (rest, inst'') = model_entries reg st names inst' in
      (if model \<noteq> [] then
         JDict [(str ''id'', JStr model), (str ''object'', JStr (str ''model'')), (str ''owned_by'', JStr name)] # rest
       else rest, inst''))"

definition list_models :: "registry \<Rightarrow> settings \<Rightarrow> instances \<Rightarrow> json \<times> instances" where
  "list_models reg st inst =
     (let (entries, inst') = model_entries reg st (available_providers reg) inst in
      (JDict [(str ''object'', JStr (str ''list'')), (str ''data'', JList entries)], inst'))"

section \<open>Lemmas\<close>

text \<open>\<open>json.dumps\<close> prints visible ASCII, so an event is one line.\<close>

definition visible :: "pystr \<Rightarrow> bool" where
  "visible s \<longleftrightarrow> (\<forall>c\<in>set s. 32 \<le> c \<and> c < 128)"

lemma visible_simps [simp]: "visible []" "visible (c # s) \<longleftrightarrow> 32 \<le> c \<and> c < 128 \<and> visible s"
  "visible (s @ s') \<longleftrightarrow> visible s \<and> visible s'"
  by (auto simp: visible_def)

lemma visible_concat: "visible (concat ss) \<longleftrightarrow> (\<forall>s\<in>set ss. visible s)"
  by (induction ss) simp_all

lemma visible_join: "visible sep \<Longrightarrow> \<forall>w\<in>set ws. visible w \<Longrightarrow> visible (join_with sep ws)"
  by (induction sep ws rule: join_with.induct) simp_all

lemma visible_dump_str: "visible (dump_str s)"
proof -
  have h: "32 \<le> hexd (n mod 16) \<and> hexd (n mod 16) < 128" for n
  proof -
    have "n mod 16 \<le> 15" using mod_less_divisor [of 16 n] by linarith
    then show ?thesis by (simp add: hexd_def)
  qed
  have "visible (u_escape n)" for n using h by (simp add: u_escape_def)
  then have "visible (escape c)" for c by (simp add: escape_def)
  then show ?thesis by (simp add: dump_str_def visible_concat)
qed

lemma visible_str_int: "visible (str_int i)"
proof -
  have "visible (str_nat n)" for n using str_nat_digits [of _ n] by (fastforce simp: visible_def)
  then show ?thesis by (simp add: str_int_def)
qed

lemma visible_dumps:
  assumes "\<And>r. visible (fl r)"
  shows "visible (dumps fl (compact_style b) a)"
proof (induction a)
  case (JList xs)
  have "visible (join_with [44] (map (dumps fl (compact_style b)) xs))"
    by (rule visible_join) (use JList in auto)
  then show ?case by simp
next
  case (JDict d)
  let ?items = "map (map_prod id (dumps fl (compact_style b))) d"
  have i: "\<forall>(k, e)\<in>set ?items. visible e" using JDict by (auto simp: map_prod_def snds.simps)
  have "visible (join_with [44] (map (\<lambda>(k, e). dump_str k @ 58 # e) (if b then sort_key fst ?items else ?items)))"
    by (rule visible_join) (use i in \<open>auto simp: visible_dump_str split: if_splits\<close>)
  then show ?case unfolding enc_JDict by simp
qed (simp_all add: assms visible_dump_str visible_str_int, simp_all add: str_def)

text \<open>Recording in the database fails only when a stored hash is not ASCII.\<close>

definition hashes_visible :: "audit_table \<Rightarrow> bool" where
  "hashes_visible t \<longleftrightarrow> (\<forall>e\<in>set (at_rows t). visible (ae_event_hash e))"

lemma visible_encodable: "visible s \<Longrightarrow> encodable s"
  unfolding visible_def encodable_def list_all_iff surrogate_def by (intro ballI) (drule (1) bspec, linarith)

lemma visible_hexdigest: "visible (hexdigest bs)"
proof -
  have "visible [hex_digit (unat (b :: 8 word) div 16), hex_digit (unat b mod 16)]" for b
  proof -
    have "unat b < 256" using unsigned_less [of b] by simp
    then have "unat b div 16 \<le> 15" by simp
    moreover have "unat b mod 16 \<le> 15" using mod_less_divisor [of 16 "unat b"] by linarith
    ultimately show ?thesis by (simp add: hex_digit_def)
  qed
  then show ?thesis by (simp add: hexdigest_def visible_concat)
qed

lemma team_rows_subset: "set (team_rows t team) \<subseteq> set (at_rows t)"
  by (auto simp: team_rows_def)

lemma hash_total:
  assumes "hashes_visible t" "\<And>r. visible (fl r)"
  obtains m where "compute_event_hash hm fl (last_hash t team) (event_payload a) key = Inr (hexdigest (hm key m))"
proof -
  let ?prev = "last_hash t team"
  have "visible ?prev"
  proof (cases "team_rows t team" rule: rev_cases)
    case Nil
    then show ?thesis by (simp add: last_hash_def GENESIS_HASH_def visible_def)
  next
    case (snoc es e)
    then have "e \<in> set (at_rows t)" using team_rows_subset [of t team] by auto
    then show ?thesis using snoc assms(1) by (simp add: last_hash_def hashes_visible_def)
  qed
  then have "encodable (?prev @ canonical_json fl (event_payload a))"
    using visible_dumps [of fl True "JDict (event_payload a)"] assms(2) by (intro visible_encodable) (simp add: canonical_json_def)
  then show ?thesis using that by (auto simp: compute_event_hash_def utf8_encode_def)
qed

text \<open>What one call of an audit helper does to the table: it appends at most one event of the
  request, and exactly one when the values fit their columns.\<close>

definition db_env :: "hmac \<Rightarrow> bytes \<Rightarrow> column \<Rightarrow> proxy_env \<Rightarrow> bool" where
  "db_env hm key col env \<longleftrightarrow> px_sink env = Some (record_event hm (px_float env) key col)
     \<and> px_record env = record_event hm (px_float env) key col \<and> column_ok col \<and> (\<forall>r. visible (px_float env r))"

definition event_of :: "auth_context \<Rightarrow> pystr \<Rightarrow> pystr \<Rightarrow> bool \<Rightarrow> audit_event \<Rightarrow> bool" where
  "event_of au route pname blocked e \<longleftrightarrow> aa_team (ae_args e) = au_team au \<and> aa_api_key (ae_args e) = au_api_key au
     \<and> aa_route (ae_args e) = route \<and> aa_provider (ae_args e) = pname \<and> aa_blocked (ae_args e) = blocked"

definition extends :: "hmac \<Rightarrow> (rat \<Rightarrow> pystr) \<Rightarrow> bytes \<Rightarrow> audit_table \<Rightarrow> audit_event list \<Rightarrow> audit_table \<Rightarrow> bool" where
  "extends hm fl key t new t' \<longleftrightarrow> at_rows t' = at_rows t @ new \<and> hashes_visible t' \<and> table_inv t'
     \<and> (\<forall>team. verify_chain hm fl key t team = Inr True \<longrightarrow> verify_chain hm fl key t' team = Inr True)"

lemma extends_same: "hashes_visible t \<Longrightarrow> table_inv t \<Longrightarrow> extends hm fl key t [] t"
  "hashes_visible t \<Longrightarrow> table_inv t \<Longrightarrow> extends hm fl key t [] (t\<lparr>at_failed := True\<rparr>)"
  by (simp_all add: extends_def hashes_visible_def table_inv_def verify_chain_def team_rows_def)

lemma record_refused:
  assumes "hashes_visible t" "\<And>r. visible (fl r)" "stored col a = None"
  shows "record_event hm fl key col a t = Inl DataError"
proof -
  obtain m where "compute_event_hash hm fl (last_hash t (aa_team a)) (event_payload a) key = Inr (hexdigest (hm key m))"
    by (rule hash_total [OF assms(1,2)])
  then show ?thesis using assms(3) by (simp add: record_event_def insert_event_def Let_def)
qed

lemma record_extends:
  assumes "\<And>r. visible (fl r)" "hashes_visible t" "table_inv t" "column_ok col" "declared a" "stored col a = Some b"
  obtains e t' where "record_event hm fl key col a t = Inr (e, t')" "ae_args e = a" "extends hm fl key t [e] t'" "at_failed t' = at_failed t"
proof -
  obtain m where m: "compute_event_hash hm fl (last_hash t (aa_team a)) (event_payload a) key = Inr (hexdigest (hm key m))"
    by (rule hash_total [OF assms(2,1)])
  obtain e t' where e: "record_event hm fl key col a t = Inr (e, t')" using m assms(6) by (simp add: record_event_def insert_event_def Let_def)
  note r = record_event_rows [OF assms(3) e]
  have a: "ae_args e = a" by (rule stored_declared [OF assms(4,5) r(3)])
  have "verify_chain hm fl key t' team = Inr True" if "verify_chain hm fl key t team = Inr True" for team
    using that r(2,4,5) a by (auto simp: verify_chain_def verify_loop_append last_hash_end)
  moreover have "visible (ae_event_hash e)" using m r(5) visible_hexdigest by simp
  ultimately show ?thesis using that [OF e a] assms(2) r(1,6,7) by (simp add: extends_def hashes_visible_def)
qed

lemma safe_audit_extends:
  assumes env: "db_env hm key col env" and t: "hashes_visible t" "table_inv t" "\<not> at_failed t"
    and c: "is_count (ac_prompt_tokens c)" "is_count (ac_completion_tokens c)"
  obtains new where "extends hm (px_float env) key t new (safe_audit env c sid t)"
    "\<forall>e\<in>set new. event_of (ac_auth c) (ac_route c) (ac_provider c) (ac_blocked c) e"
    "length new = (if stored col (audit_row c sid) = None then 0 else 1)"
    "at_failed (safe_audit env c sid t) \<longleftrightarrow> stored col (audit_row c sid) = None"
proof (cases "stored col (audit_row c sid)")
  case None
  then have "record_event hm (px_float env) key col (audit_row c sid) t = Inl DataError"
    using env by (intro record_refused [OF t(1)]) (simp_all add: db_env_def)
  then have "safe_audit env c sid t = t\<lparr>at_failed := True\<rparr>" using env by (simp add: safe_audit_def db_env_def db_error_def)
  then show ?thesis using that [of "[]"] extends_same(2) [OF t(1,2)] None by simp
next
  case (Some b)
  have d: "declared (audit_row c sid)" using c by (simp add: declared_def audit_row_def)
  obtain e t' where e: "record_event hm (px_float env) key col (audit_row c sid) t = Inr (e, t')" "ae_args e = audit_row c sid"
    "extends hm (px_float env) key t [e] t'" "at_failed t' = at_failed t"
    using record_extends [OF _ t(1,2) _ d Some, of "px_float env" hm key] env unfolding db_env_def by metis
  have "safe_audit env c sid t = t'" using env e(1) by (simp add: safe_audit_def db_env_def)
  then show ?thesis using that [of "[e]"] e t(3) Some by (simp add: event_of_def audit_row_def)
qed

lemma safe_audit_fresh_extends:
  assumes env: "db_env hm key col env" and t: "hashes_visible t" "table_inv t"
    and c: "ac_prompt_tokens c = JNull" "ac_completion_tokens c = JNull"
  obtains new where "extends hm (px_float env) key t new (safe_audit_fresh env c [Some sid, None] t)" "length new \<le> 1"
    "\<forall>e\<in>set new. event_of (ac_auth c) (ac_route c) (ac_provider c) (ac_blocked c) e"
    "col (opt_int (ac_latency c)) \<noteq> None \<longrightarrow> length new = 1"
    "at_failed (safe_audit_fresh env c [Some sid, None] t) = at_failed t"
proof -
  have n: "col JNull = Some JNull" using env by (simp add: db_env_def column_ok_def)
  have st: "stored col (audit_row c x) = None \<longleftrightarrow> col (opt_int (ac_latency c)) = None" for x
    using n c by (simp add: stored_def audit_row_def split: option.splits)
  have d: "declared (audit_row c x)" for x using c by (simp add: declared_def audit_row_def)
  show ?thesis
  proof (cases "col (opt_int (ac_latency c))")
    case None
    then have "record_event hm (px_float env) key col (audit_row c x) t = Inl DataError" for x
      using env st by (intro record_refused [OF t(1)]) (simp_all add: db_env_def)
    then have "safe_audit_fresh env c [Some sid, None] t = t" using env by (simp add: db_env_def)
    then show ?thesis using that [of "[]"] extends_same(1) [OF t] None by simp
  next
    case (Some w)
    then obtain b where b: "stored col (audit_row c (Some sid)) = Some b" using st by fastforce
    obtain e t' where e: "record_event hm (px_float env) key col (audit_row c (Some sid)) t = Inr (e, t')" "ae_args e = audit_row c (Some sid)"
      "extends hm (px_float env) key t [e] t'" "at_failed t' = at_failed t"
      using record_extends [OF _ t _ d b, of "px_float env" hm key] env unfolding db_env_def by metis
    have "safe_audit_fresh env c [Some sid, None] t = t'" using env e(1) by (simp add: db_env_def)
    then show ?thesis using that [of "[e]"] e by (simp add: event_of_def audit_row_def)
  qed
qed

text \<open>A provider is called at most once, with a payload the pipeline has sanitized.\<close>

lemma stream_request_calls:
  "stream_request env pl pv au route pname sanitized ctx x = (calls, r) \<Longrightarrow> calls = [] \<or> calls = [sanitized]"
  by (cases x) (auto simp: stream_request_def Let_def split: sum.splits prod.splits)

lemma handle_calls:
  assumes "handle env pl pv st au route body (s, n, t) = (calls, r)" "calls \<noteq> []"
  obtains payload v p ctx s' n' where "body = Inr (JDict payload)" "build_vault (va_crypto (pl_vault pl)) st = Inr v"
    "provider_permitted (pl_decision pl) (provider_name_of st pv)"
    "sanitize_request (px_ucd env) (pl\<lparr>pl_vault := v\<rparr>) payload (s, n) = Inr (p, ctx, s', n')" "calls = [p]"
proof -
  have perm: "provider_permitted (pl_decision pl) (provider_name_of st pv)"
    using assms by (auto simp: handle_def Let_def split: if_splits)
  have "\<exists>payload. body = Inr (JDict payload)"
  proof (cases body)
    case (Inl e)
    then show ?thesis using assms perm by (simp add: handle_def read_payload_def Let_def)
  next
    case (Inr b)
    then show ?thesis using assms perm by (cases b) (simp_all add: handle_def read_payload_def Let_def)
  qed
  then obtain payload where body: "body = Inr (JDict payload)" by blast
  obtain v where v: "build_vault (va_crypto (pl_vault pl)) st = Inr v"
    using assms perm body by (cases "build_vault (va_crypto (pl_vault pl)) st") (simp_all add: handle_def read_payload_def Let_def)
  let ?pl = "pl\<lparr>pl_vault := v\<rparr>"
  have h: "(case sanitize_request (px_ucd env) ?pl payload (s, n) of
                 Inl (HardBlockError types) \<Rightarrow>
                   ([], settle s (Inr (JSON_Response 422 (plain_error (str ''request blocked by redaction policy'') (Some (str ''hard_blocked''))),
                      opened ?pl s, n, safe_audit env ((base_call au route (provider_name_of st pv) (blocked_counts types))\<lparr>ac_blocked := True\<rparr>) None t)))
               | Inl e \<Rightarrow> ([], Inl e)
               | Inr (sanitized, ctx, s', n') \<Rightarrow>
                   if truthy (dget payload (str ''stream''))
                   then stream_request env ?pl pv au route (provider_name_of st pv) sanitized ctx (s', n', t)
                   else ([sanitized], settle s (complete_request env ?pl pv au route (provider_name_of st pv) sanitized ctx (s', n', t)))) = (calls, r)"
    using assms(1) perm body v by (simp add: handle_def read_payload_def Let_def)
  show ?thesis
  proof (cases "sanitize_request (px_ucd env) ?pl payload (s, n)")
    case (Inl e)
    then show ?thesis using h assms(2) by (cases e) simp_all
  next
    case (Inr x)
    obtain p ctx s' n' where x: "x = (p, ctx, s', n')" by (cases x)
    have "calls = [p]"
      using h Inr x assms(2) stream_request_calls [of env ?pl pv au route _ p ctx "(s', n', t)" calls r]
      by (auto split: if_splits)
    then show ?thesis using that [OF body v perm] Inr x by simp
  qed
qed

text \<open>The text of a chunk's delta.\<close>

definition delta_str :: "json \<Rightarrow> pystr" where
  "delta_str chunk = (case extract_delta_text chunk of JStr d \<Rightarrow> d | _ \<Rightarrow> [])"

definition text_chunk :: "json \<Rightarrow> bool" where
  "text_chunk chunk \<longleftrightarrow> is_JStr (extract_delta_text chunk) \<or> \<not> truthy (extract_delta_text chunk)"

lemma set_extract_delta:
  assumes "extract_delta_text c = JStr d"
  shows "\<exists>c'. set_delta_text c (JStr x) = Inr c' \<and> delta_str c' = x"
proof -
  obtain y where y: "completion_path (str ''delta'') c = Inr y" "py_get y (str ''content'') = Inr (JStr d)"
    using assms by (auto simp: extract_delta_text_def rbind_def split: sum.splits)
  obtain m where m: "y = JDict m" using y(2) by (cases y) auto
  obtain cd where cd: "c = JDict cd" using y(1) by (cases c) (auto simp: completion_path_def)
  obtain cs z where cs: "map_of cd (str ''choices'') = Some cs" "sub_idx cs 0 = Inr z" "sub_key z (str ''delta'') = Inr y"
    using y(1) cd by (auto simp: completion_path_def rbind_Inr_iff split: option.splits)
  obtain e where e: "z = JDict e" "map_of e (str ''delta'') = Some y" using cs(3) by (cases z) (auto split: option.splits)
  obtain xs where xs: "cs = JList (z # xs)" using cs(2) e(1) by (cases cs) (auto simp: neq_Nil_conv split: if_splits)
  show ?thesis
    using cd cs(1) xs e m by (simp add: set_delta_text_def set_text_at_def delta_str_def extract_delta_text_def completion_path_def dget_def)
qed

lemma stream_step_text:
  assumes "text_chunk chunk"
  shows "stream_step u rslv buffer chunk =
     (if delta_str chunk = [] then Inr (chunk, buffer)
      else rbind (push u rslv buffer (delta_str chunk)) (\<lambda>(out, b). rbind (set_delta_text chunk (JStr out)) (\<lambda>c. Inr (c, b))))"
  using assms by (cases "extract_delta_text chunk") (auto simp: text_chunk_def stream_step_def delta_str_def)

lemma stream_loop_run:
  assumes "\<forall>c\<in>set cs. text_chunk c"
    and "run_stream u rslv buffer (filter (\<lambda>d. d \<noteq> []) (map delta_str cs)) = Inr out"
  shows "\<exists>evs b tail. stream_loop u rslv buffer cs None = (evs, Inr b) \<and> flush rslv b = Inr (tail, []) \<and>
     out = concat (map delta_str evs) @ tail"
  using assms
proof (induction cs arbitrary: buffer out)
  case Nil
  then show ?case by (auto simp: flush_def rbind_Inr_iff split: if_splits)
next
  case (Cons c cs)
  show ?case
  proof (cases "delta_str c = []")
    case True
    then have "run_stream u rslv buffer (filter (\<lambda>d. d \<noteq> []) (map delta_str cs)) = Inr out" using Cons.prems by simp
    from Cons.IH [OF _ this] Cons.prems(1) obtain evs b tail where
      "stream_loop u rslv buffer cs None = (evs, Inr b)" "flush rslv b = Inr (tail, [])" "out = concat (map delta_str evs) @ tail" by auto
    then show ?thesis using True Cons.prems(1) by (simp add: stream_step_text)
  next
    case False
    obtain o1 b1 o2 where run: "push u rslv buffer (delta_str c) = Inr (o1, b1)"
      "run_stream u rslv b1 (filter (\<lambda>d. d \<noteq> []) (map delta_str cs)) = Inr o2" "out = o1 @ o2"
      using Cons.prems(2) False by (auto simp: rbind_Inr_iff)
    obtain evs b tail where rest: "stream_loop u rslv b1 cs None = (evs, Inr b)" "flush rslv b = Inr (tail, [])"
      "o2 = concat (map delta_str evs) @ tail"
      using Cons.IH [OF _ run(2)] Cons.prems(1) by auto
    have "is_JStr (extract_delta_text c)"
      using Cons.prems(1) False by (auto simp: text_chunk_def delta_str_def split: json.splits)
    then obtain d where "extract_delta_text c = JStr d" by (cases "extract_delta_text c") simp_all
    from set_extract_delta [OF this, of o1] obtain c' where "set_delta_text c (JStr o1) = Inr c'" "delta_str c' = o1" by blast
    then show ?thesis using run rest False Cons.prems(1) by (simp add: stream_step_text)
  qed
qed

lemma concat_filter_nonempty: "concat (filter (\<lambda>d. d \<noteq> []) xs) = concat xs"
  by (induction xs) auto

text \<open>The token counts of a reply, and whether all that its event stores fits the columns.\<close>

definition counts_of :: "reply \<Rightarrow> json \<times> json" where
  "counts_of rep = (case rep of JSON_Response _ j \<Rightarrow> usage_of j | SSE_Response _ _ \<Rightarrow> (JNull, JNull))"

definition counted :: "reply \<Rightarrow> bool" where
  "counted rep \<longleftrightarrow> is_count (fst (counts_of rep)) \<and> is_count (snd (counts_of rep))"

definition fits :: "column \<Rightarrow> proxy_env \<Rightarrow> reply \<Rightarrow> bool" where
  "fits col env rep \<longleftrightarrow> col (fst (counts_of rep)) \<noteq> None \<and> col (snd (counts_of rep)) \<noteq> None \<and> col (JInt (px_latency env)) \<noteq> None"

lemma error_counts: "counts_of (JSON_Response code (plain_error msg c)) = (JNull, JNull)"
  by (simp add: counts_of_def plain_error_def error_body_def usage_of_def dget_def)

text \<open>What a reply leaves in the audit table.\<close>

definition audited ::
  "hmac \<Rightarrow> bytes \<Rightarrow> column \<Rightarrow> proxy_env \<Rightarrow> auth_context \<Rightarrow> pystr \<Rightarrow> pystr \<Rightarrow> bool \<Rightarrow> bool \<Rightarrow> reply \<Rightarrow> audit_table \<Rightarrow> audit_table \<Rightarrow> bool" where
  "audited hm key col env au route pname blocked req rep t t' \<longleftrightarrow>
     (\<exists>new. extends hm (px_float env) key t new t' \<and> length new \<le> 1 \<and> (\<forall>e\<in>set new. event_of au route pname blocked e)
        \<and> (fits col env rep \<longrightarrow> (req \<longrightarrow> length new = 1) \<and> \<not> at_failed t') \<and> (at_failed t' \<longrightarrow> new = []))"

lemma audited_none:
  "\<not> req \<Longrightarrow> hashes_visible t \<Longrightarrow> table_inv t \<Longrightarrow> \<not> at_failed t \<Longrightarrow> audited hm key col env au route pname blocked req rep t t"
  unfolding audited_def by (intro exI [of _ "[]"]) (simp add: extends_same)

lemma audited_safe:
  assumes env: "db_env hm key col env" and t: "hashes_visible t" "table_inv t" "\<not> at_failed t"
    and c: "ac_auth c = au" "ac_route c = route" "ac_provider c = pname"
    and n: "(ac_prompt_tokens c, ac_completion_tokens c) = counts_of rep" "counted rep" "ac_latency c = None \<or> ac_latency c = Some (px_latency env)"
  shows "audited hm key col env au route pname (ac_blocked c) req rep t (safe_audit env c sid t)"
proof -
  have cnt: "is_count (ac_prompt_tokens c)" "is_count (ac_completion_tokens c)" using n(1) [symmetric] n(2) by (simp_all add: counted_def)
  obtain new where new: "extends hm (px_float env) key t new (safe_audit env c sid t)"
    "\<forall>e\<in>set new. event_of (ac_auth c) (ac_route c) (ac_provider c) (ac_blocked c) e"
    "length new = (if stored col (audit_row c sid) = None then 0 else 1)"
    "at_failed (safe_audit env c sid t) \<longleftrightarrow> stored col (audit_row c sid) = None"
    by (rule safe_audit_extends [OF env t cnt])
  have "col JNull = Some JNull" using env by (simp add: db_env_def column_ok_def)
  then have "stored col (audit_row c sid) \<noteq> None" if "fits col env rep"
    using that n(1) [symmetric] n(3) by (auto simp: fits_def stored_def audit_row_def opt_int_def split: option.splits)
  then show ?thesis unfolding audited_def using new c by (intro exI [of _ new]) (auto split: if_splits)
qed

lemma audited_fresh:
  assumes env: "db_env hm key col env" and t: "hashes_visible t" "table_inv t" "\<not> at_failed t"
  shows "audited hm key col env au route pname False req (SSE_Response evs err) t
    (safe_audit_fresh env ((base_call au route pname cnts)\<lparr>ac_latency := Some (px_latency env)\<rparr>) [Some sid, None] t)"
proof -
  let ?c = "(base_call au route pname cnts)\<lparr>ac_latency := Some (px_latency env)\<rparr>"
  obtain new where "extends hm (px_float env) key t new (safe_audit_fresh env ?c [Some sid, None] t)" "length new \<le> 1"
    "\<forall>e\<in>set new. event_of (ac_auth ?c) (ac_route ?c) (ac_provider ?c) (ac_blocked ?c) e"
    "col (opt_int (ac_latency ?c)) \<noteq> None \<longrightarrow> length new = 1"
    "at_failed (safe_audit_fresh env ?c [Some sid, None] t) = at_failed t"
    by (rule safe_audit_fresh_extends [OF env t(1,2), of ?c sid]) (simp_all add: base_call_def)
  then show ?thesis unfolding audited_def using t(3) by (intro exI [of _ new]) (auto simp: base_call_def fits_def opt_int_def)
qed

lemma complete_request_audited:
  assumes "db_env hm key col env" "hashes_visible t" "table_inv t" "\<not> at_failed t" "counted rep"
    and "complete_request env pl pv au route pname sanitized ctx (s, n, t) = Inr (rep, s', n', t')"
  shows "audited hm key col env au route pname False req rep t t'"
proof -
  have "\<exists>c. t' = safe_audit env c (Some (cx_session ctx)) t \<and> ac_auth c = au \<and> ac_route c = route \<and> ac_provider c = pname \<and> \<not> ac_blocked c
      \<and> (ac_prompt_tokens c, ac_completion_tokens c) = counts_of rep \<and> ac_latency c = Some (px_latency env)"
  proof (cases "pv_complete pv sanitized")
    case (Inl e)
    then show ?thesis using assms(6) by (cases e) (auto simp: complete_request_def base_call_def error_counts)
  next
    case (Inr x)
    obtain y where y: "reinflate (px_ucd env) pl s x ctx = Inr y"
      using assms(6) Inr by (auto simp: complete_request_def rbind_Inr_iff)
    obtain pt ct where "usage_of y = (pt, ct)" by (cases "usage_of y")
    then show ?thesis using assms(6) Inr y by (auto simp: complete_request_def base_call_def counts_of_def)
  qed
  then obtain c where c: "t' = safe_audit env c (Some (cx_session ctx)) t" "ac_auth c = au" "ac_route c = route" "ac_provider c = pname" "\<not> ac_blocked c"
    "(ac_prompt_tokens c, ac_completion_tokens c) = counts_of rep" "ac_latency c = Some (px_latency env)"
    by blast
  show ?thesis using audited_safe [OF assms(1-4) c(2-4,6) assms(5), of req "Some (cx_session ctx)"] c(1,5,7) by simp
qed

definition uncut :: "reply \<Rightarrow> bool" where
  "uncut rep \<longleftrightarrow> (case rep of SSE_Response _ (Some _) \<Rightarrow> False | _ \<Rightarrow> True)"

lemma uncut_simps [simp]: "uncut (JSON_Response code b)" "uncut (SSE_Response evs None)" "\<not> uncut (SSE_Response evs (Some e))"
  by (simp_all add: uncut_def)

lemma stream_request_audited:
  assumes "db_env hm key col env" "hashes_visible t" "table_inv t" "\<not> at_failed t"
    and "stream_request env pl pv au route pname sanitized ctx (s, n, t) = (calls, Inr (rep, s', n', t'))"
  shows "audited hm key col env au route pname False (uncut rep) rep t t' \<and> \<not> at_failed t'"
proof -
  let ?c = "(base_call au route pname (cx_counts ctx))\<lparr>ac_latency := Some (px_latency env)\<rparr>"
  obtain detok where d: "stream_response env detok (pv_stream pv sanitized) ?c (cx_session ctx) t = (rep, t')"
    using assms(5) by (auto simp: stream_request_def Let_def split: sum.splits prod.splits)
  obtain evs x where ev: "stream_events (px_ucd env) detok (pv_stream pv sanitized) = (evs, x)"
    by (cases "stream_events (px_ucd env) detok (pv_stream pv sanitized)")
  have two: "(\<exists>es err. rep = SSE_Response es err) \<and>
      (t' = safe_audit_fresh env ?c [Some (cx_session ctx), None] t \<or> \<not> uncut rep \<and> t' = t)"
  proof (cases x)
    case (Inl e)
    then show ?thesis using d ev by (cases e) (auto simp: stream_response_def Let_def)
  next
    case (Inr y)
    then show ?thesis using d ev by (auto simp: stream_response_def Let_def)
  qed
  then obtain es err where rep: "rep = SSE_Response es err" by blast
  have "at_failed (safe_audit_fresh env ?c [Some (cx_session ctx), None] t) = at_failed t"
    by (rule safe_audit_fresh_extends [OF assms(1-3), of ?c "cx_session ctx"]) (simp_all add: base_call_def)
  then show ?thesis
    using two audited_fresh [OF assms(1-4), of au route pname "uncut rep" es err "cx_counts ctx" "cx_session ctx"]
      audited_none [OF _ assms(2-4)] assms(4) unfolding rep by auto
qed

lemma iter_sse_line:
  assumes "py_strip u raw = line" "startswith line (str ''data:'')" "\<not> startswith line (str '':'')"
    and "py_strip u (drop 5 line) = data" "data \<noteq> []" "data \<noteq> str ''[DONE]''" "loads data = Inr v"
  shows "iter_sse_data u loads (raw # ls) err = apfst ((#) v) (iter_sse_data u loads ls err)"
proof -
  have "line \<noteq> []" using assms(2) by (cases line) (simp_all add: startswith_def str_def)
  then show ?thesis using assms by (simp add: Let_def)
qed

lemma iter_sse_blank: "py_strip u raw = [] \<Longrightarrow> iter_sse_data u loads (raw # ls) err = iter_sse_data u loads ls err"
  by (simp add: Let_def)

section \<open>Properties\<close>

text \<open>C24. End to end: whatever the request, the provider is called at most once, only when policy
  permits it, and every text of what it is given is the normalized text of the request with each
  reported span cut out and a placeholder of its type put in; the other top-level fields are the
  caller's.\<close>

theorem proxy_never_leaks:
  assumes "handle env pl pv st au route body (s, n, t) = (calls, r)" "p \<in> set calls"
    and "pl_create_session pl s = Inr (sid, s1)" "build_vault (va_crypto (pl_vault pl)) st = Inr v"
    and "pipeline_ok (pl\<lparr>pl_vault := v\<rparr>) s1 sid V" "pd_redact_types (pl_decision pl) = None"
  shows "calls = [p] \<and> provider_permitted (pl_decision pl) (provider_name_of st pv) \<and>
    (\<exists>payload raw outs. body = Inr (JDict payload) \<and> extract_texts payload = Inr raw \<and> extract_texts p = Inr outs
      \<and> agree {str ''messages'', str ''input''} payload p
      \<and> list_all2 (\<lambda>x out. \<exists>d ps. pl_detect pl (normalize_text (px_ucd env) x) = Inr d
          \<and> list_all2 (\<lambda>sp w. \<exists>h. ph_hex h \<and> w = make_placeholder (sp_type sp) h) (dr_spans d) ps
          \<and> out = render (normalize_text (px_ucd env) x) 0 (dr_spans d) ps) raw outs)"
proof -
  have ne: "calls \<noteq> []" using assms(2) by auto
  obtain payload v' p' ctx s' n' where h: "body = Inr (JDict payload)" "build_vault (va_crypto (pl_vault pl)) st = Inr v'"
    "provider_permitted (pl_decision pl) (provider_name_of st pv)"
    "sanitize_request (px_ucd env) (pl\<lparr>pl_vault := v'\<rparr>) payload (s, n) = Inr (p', ctx, s', n')" "calls = [p']"
    by (rule handle_calls [OF assms(1) ne])
  have "p' = p" "v' = v" using h(2,5) assms(2,4) by simp_all
  note h4 = h(4) [unfolded this]
  have "pl_create_session (pl\<lparr>pl_vault := v\<rparr>) s = Inr (sid, s1)" using assms(3) by simp
  from sanitize_rendered [OF this assms(5) h4] assms(6) obtain raw outs where
    "extract_texts payload = Inr raw" "extract_texts p = Inr outs" "agree {str ''messages'', str ''input''} payload p"
    "list_all2 (\<lambda>x out. \<exists>d ps. pl_detect pl (normalize_text (px_ucd env) x) = Inr d
          \<and> list_all2 (\<lambda>sp w. \<exists>h. ph_hex h \<and> w = make_placeholder (sp_type sp) h) (dr_spans d) ps
          \<and> out = render (normalize_text (px_ucd env) x) 0 (dr_spans d) ps) raw outs"
    by auto
  then show ?thesis using h(1,3,5) \<open>p' = p\<close> by blast
qed

text \<open>C25. A streamed answer is the re-inflated answer, in a session whose placeholders have at most 65 characters:
  when the upstream stream ends normally, the deltas the client receives, joined, are the de-tokenized text of the
  upstream deltas joined, however the upstream cut them.\<close>

theorem proxy_stream_reinflates:
  assumes "pl_ops pl = pg_ops Inr" "pg_inv s" "honest (pl_vault pl) (cx_session ctx) V (pg_recs s (cx_session ctx))"
    and "\<forall>r\<in>set (pg_recs s (cx_session ctx)). length (tr_placeholder r) \<le> MAX_PLACEHOLDER_LEN + 1"
    and "prepare_stream_reinflation u pl s ctx = Inr rslv" "\<forall>c\<in>set cs. text_chunk c"
  shows "\<exists>evs. stream_events u rslv (cs, None) = (evs, Inr ()) \<and>
    detokenize u (pl_ops pl) (pl_vault pl) s (cx_session ctx) (concat (map delta_str cs)) = Inr (concat (map delta_str evs))"
proof -
  let ?ds = "filter (\<lambda>d. d \<noteq> []) (map delta_str cs)"
  have det: "run_stream u rslv [] ?ds = detokenize u (pg_ops Inr) (pl_vault pl) s (cx_session ctx) (concat (map delta_str cs))"
    using run_stream_detokenize [OF assms(2-4), of u ?ds] assms(1,5) by (simp add: prepare_stream_reinflation_def concat_filter_nonempty)
  note d = pg_recs_placeholders [OF assms(2), of "cx_session ctx"]
  obtain out where out: "detokenize u (pg_ops Inr) (pl_vault pl) s (cx_session ctx) (concat (map delta_str cs)) = Inr out"
    using pg.detokenize_swap [OF assms(2) _ d assms(3)] by simp
  obtain evs b tail where run: "stream_loop u rslv [] cs None = (evs, Inr b)" "flush rslv b = Inr (tail, [])"
    "out = concat (map delta_str evs) @ tail"
    using stream_loop_run [OF assms(6), of u rslv "[]" out] det out by auto
  have "delta_str (tail_chunk tail) = tail"
    by (simp add: delta_str_def tail_chunk_def extract_delta_text_def completion_path_def dget_def)
  then show ?thesis using run out assms(1)
    by (intro exI [of _ "evs @ (if tail \<noteq> [] then [tail_chunk tail] else [])"]) (simp add: stream_events_def)
qed

text \<open>C26. The audit trail of the proxy: when the token counts of the answer are integers or absent, every chain that
  verified still verifies and at most one event is appended, the request's own, marked blocked exactly when no
  provider was called. When the counts fit their columns, exactly one event is appended for every request that reached
  a provider or was blocked by policy, unless the stream was cut by something other than a provider error. An insert
  that the database refuses appends nothing and takes everything else the request has stored with it.\<close>

theorem proxy_audited:
  assumes "db_env hm key col env" "hashes_visible t" "table_inv t" "\<not> at_failed t"
    and "handle env pl pv st au route body (s, n, t) = (calls, Inr (rep, s', n', t'))" "counted rep"
  shows "\<exists>new. extends hm (px_float env) key t new t' \<and> length new \<le> 1
    \<and> (\<forall>e\<in>set new. event_of au route (provider_name_of st pv) (calls = []) e)
    \<and> (fits col env rep \<longrightarrow> ((calls \<noteq> [] \<or> (\<exists>b. rep = JSON_Response 422 b)) \<and> uncut rep \<longrightarrow> length new = 1) \<and> \<not> at_failed t')
    \<and> (at_failed t' \<longrightarrow> new = [] \<and> s' = s)"
proof -
  let ?pn = "provider_name_of st pv"
  let ?req = "(calls \<noteq> [] \<or> (\<exists>b. rep = JSON_Response 422 b)) \<and> uncut rep"
  have "audited hm key col env au route ?pn (calls = []) ?req rep t t' \<and> (at_failed t' \<longrightarrow> s' = s)"
  proof (cases "provider_permitted (pl_decision pl) ?pn")
    case False
    then have "calls = []" "t' = t" "\<not> ?req" using assms(5) by (auto simp: handle_def Let_def)
    then show ?thesis using audited_none [OF \<open>\<not> ?req\<close> assms(2-4)] assms(4) by simp
  next
    case True
    show ?thesis
    proof (cases "read_payload body")
      case (Inl e)
      then have e: "e = ProviderError (str ''request body must be a JSON object'') 400 []"
        by (auto simp: read_payload_def split: sum.splits json.splits)
      then have "calls = []" "t' = t" "\<not> ?req" using assms(5) True Inl by (auto simp: handle_def Let_def)
      then show ?thesis using audited_none [OF \<open>\<not> ?req\<close> assms(2-4)] assms(4) by simp
    next
      case (Inr payload)
      obtain v where v: "build_vault (va_crypto (pl_vault pl)) st = Inr v"
        using assms(5) True Inr by (cases "build_vault (va_crypto (pl_vault pl)) st") (simp_all add: handle_def Let_def)
      let ?pl = "pl\<lparr>pl_vault := v\<rparr>"
      note h = assms(5) [unfolded handle_def Let_def prod.case Inr v, simplified True]
      show ?thesis
      proof (cases "sanitize_request (px_ucd env) ?pl payload (s, n)")
        case (Inl e)
        then obtain types where e: "e = HardBlockError types" using h by (cases e) simp_all
        let ?c = "(base_call au route ?pn (blocked_counts types))\<lparr>ac_blocked := True\<rparr>"
        have r: "calls = []" "t' = safe_audit env ?c None t" "at_failed t' \<longrightarrow> s' = s" "counts_of rep = (JNull, JNull)"
          using h Inl e by (auto simp: settle_def error_counts)
        have "audited hm key col env au route ?pn (ac_blocked ?c) ?req rep t (safe_audit env ?c None t)"
          by (rule audited_safe [OF assms(1-4)]) (use r(4) assms(6) in \<open>simp_all add: base_call_def\<close>)
        then show ?thesis using r by simp
      next
        case (Inr x)
        obtain p ctx s1 n1 where x: "x = (p, ctx, s1, n1)" by (cases x)
        show ?thesis
        proof (cases "truthy (dget payload (str ''stream''))")
          case True
          then have sr: "stream_request env ?pl pv au route ?pn p ctx (s1, n1, t) = (calls, Inr (rep, s', n', t'))"
            using h Inr x by simp
          then have "calls = [p]"
            by (auto simp: stream_request_def Let_def split: sum.splits prod.splits)
          then show ?thesis using stream_request_audited [OF assms(1-4) sr] by simp
        next
          case False
          then have c: "calls = [p]" "settle s (complete_request env ?pl pv au route ?pn p ctx (s1, n1, t)) = Inr (rep, s', n', t')"
            using h Inr x by simp_all
          then obtain s2 where "complete_request env ?pl pv au route ?pn p ctx (s1, n1, t) = Inr (rep, s2, n', t')" "at_failed t' \<longrightarrow> s' = s"
            by (auto simp: settle_def rbind_Inr_iff)
          then show ?thesis
            using c(1) complete_request_audited [OF assms(1-4,6), of ?pl pv au route ?pn p ctx s1 n1 s2 n' t' ?req] by simp
        qed
      qed
    qed
  qed
  then show ?thesis unfolding audited_def by blast
qed

text \<open>C27. The events of a stream read back as the chunks they were made of, by the parser the
  pass-through adapters use: a gateway can stand behind a gateway.\<close>

theorem sse_roundtrip:
  assumes "ucd_ascii u" "\<And>r. visible (fl r)" "\<forall>c\<in>set cs. is_JDict c \<and> loads (dumps fl (compact_style False) c) = Inr c"
  shows "iter_sse_data u loads (split_on 10 (concat (map (sse_chunk fl) cs @ [sse_done]))) None = (cs, None)"
proof -
  have split: "split_on 10 (w @ 10 # 10 # rest) = w # [] # split_on 10 rest" if "10 \<notin> set w" for w rest
    using that by (induction w) simp_all
  have sp: "u_space u 32" "\<not> u_space u 100" "\<not> u_space u 123" "\<not> u_space u 125" "\<not> u_space u 91" "\<not> u_space u 93"
    using ucd_asciiD(3) [OF assms(1)] by (simp_all add: ascii_space_def)
  have step: "iter_sse_data u loads (split_on 10 (sse_chunk fl c @ rest)) None = apfst ((#) c) (iter_sse_data u loads (split_on 10 rest) None)"
    if c: "is_JDict c" "loads (dumps fl (compact_style False) c) = Inr c" for c rest
  proof -
    obtain d where d: "c = JDict d" using c(1) by (rule is_JDict.elims(2))
    obtain x where x: "dumps fl (compact_style False) c = 123 # x @ [125]" unfolding d enc_JDict by simp
    let ?line = "str ''data: '' @ 123 # x @ [125]"
    have vis: "visible (123 # x @ [125])" unfolding x [symmetric] using assms(2) by (rule visible_dumps)
    then have "10 \<notin> set ?line" by (auto simp: visible_def str_def)
    then have s: "split_on 10 (sse_chunk fl c @ rest) = ?line # [] # split_on 10 rest"
      using split [of ?line rest] by (simp add: sse_chunk_def x)
    have strip: "py_strip u ?line = ?line" "py_strip u (32 # 123 # x @ [125]) = 123 # x @ [125]" "py_strip u [] = []"
      using sp by (simp_all add: py_strip_def py_lstrip_def py_rstrip_def str_def)
    have pre: "startswith ?line (str ''data:'')" "\<not> startswith ?line (str '':'')" "drop 5 ?line = 32 # 123 # x @ [125]"
      by (simp_all add: startswith_def str_def)
    have nd: "123 # x @ [125] \<noteq> str ''[DONE]''" by (simp add: str_def)
    show ?thesis unfolding s
      by (subst iter_sse_line [OF strip(1) pre(1,2) strip(2) [folded pre(3)]])
        (use nd c(2) x iter_sse_blank [OF strip(3)] in simp_all)
  qed
  have fin: "iter_sse_data u loads (split_on 10 sse_done) None = ([], None)"
  proof -
    have "split_on 10 sse_done = [str ''data: [DONE]'', [], []]" by (simp add: sse_done_def str_def)
    moreover have "py_strip u (str ''data: [DONE]'') = str ''data: [DONE]''" "py_strip u [] = []"
      "py_strip u (drop 5 (str ''data: [DONE]'')) = str ''[DONE]''"
      using sp by (simp_all add: py_strip_def py_lstrip_def py_rstrip_def str_def)
    ultimately show ?thesis by (simp add: Let_def)
  qed
  show ?thesis using assms(3)
  proof (induction cs)
    case Nil
    then show ?case using fin by simp
  next
    case (Cons c cs)
    then show ?case using step [of c "concat (map (sse_chunk fl) cs @ [sse_done])"] by simp
  qed
qed

section \<open>Witnesses\<close>

text \<open>The toy primitives ignore their keys, so a vault with the configured keys does the same.\<close>

lemma keyless:
  assumes "va_crypto v = plain_crypto"
  shows "fingerprint v = fingerprint plain_vault" "encrypt v = encrypt plain_vault"
    "tokenize_step ops v rng sid = tokenize_step ops plain_vault rng sid" "tokenize ops v rng sid = tokenize ops plain_vault rng sid"
proof -
  show f: "fingerprint v = fingerprint plain_vault"
    using assms by (simp add: fun_eq_iff fingerprint_def plain_vault_def plain_crypto_def)
  show e: "encrypt v = encrypt plain_vault"
    using assms by (auto simp: fun_eq_iff encrypt_def derive_dek_def plain_vault_def plain_crypto_def rbind_def split: sum.splits)
  show s: "tokenize_step ops v rng sid = tokenize_step ops plain_vault rng sid"
    by (rule ext)+ (simp only: tokenize_step_def f e)
  show "tokenize ops v rng sid = tokenize ops plain_vault rng sid"
    by (simp add: fun_eq_iff tokenize_def s)
qed

lemma keyless_all:
  assumes "va_crypto v = plain_crypto"
  shows "tokenize_all ops v rng sid items = tokenize_all ops plain_vault rng sid items"
proof (induction items)
  case (Cons it items)
  obtain x spans where it: "it = (x, spans)" by (cases it)
  show ?case by (rule ext) (simp only: it tokenize_all.simps keyless(4) [OF assms] Cons.IH)
qed (simp add: fun_eq_iff)

definition demo_env :: proxy_env where
  "demo_env = \<lparr>px_ucd = ascii_ucd, px_float = (\<lambda>_. []), px_sink = Some (record_event toy_hmac (\<lambda>_. []) [] int4),
     px_record = record_event toy_hmac (\<lambda>_. []) [] int4, px_latency = 3\<rparr>"

definition down_provider :: provider where
  "down_provider = \<lparr>pv_name = str ''p'', pv_default_model = [], pv_complete = (\<lambda>_. Inl (ProviderError (str ''down'') 503 (str ''p''))),
     pv_stream = (\<lambda>_. ([], None))\<rparr>"

definition demo_auth :: auth_context where
  "demo_auth = \<lparr>au_team = str ''t'', au_policy = None, au_api_key = None\<rparr>"

definition demo_run :: "token_record list outcome" where
  "demo_run = handle demo_env john_pipeline down_provider default_settings demo_auth (str ''/v1'') (Inr (JDict john_payload)) ([], 0, empty_table)"

lemma demo_vault: obtains v where "build_vault (va_crypto (pl_vault john_pipeline)) default_settings = Inr v" "va_crypto v = plain_crypto"
proof -
  have "map_of key_fields (str ''vault_master_key'') = Some st_vault_master_key"
    "map_of key_fields (str ''fingerprint_hmac_key'') = Some st_fingerprint_hmac_key" by (simp_all add: key_fields_def)
  from dev_key [OF this(1), of default_settings] dev_key [OF this(2), of default_settings] show ?thesis
    using that by (auto simp: build_vault_def default_settings_def john_pipeline_def plain_vault_def)
qed

lemma demo_sanitized:
  assumes "va_crypto v = plain_crypto"
  shows "sanitize_request ascii_ucd (john_pipeline\<lparr>pl_vault := v\<rparr>) payload x = sanitize_request ascii_ucd john_pipeline payload x"
proof -
  have "tokenize_all ops v rng sid items = tokenize_all ops (pl_vault john_pipeline) rng sid items"
    for ops :: "token_record list store_ops" and rng sid items
    using keyless_all [OF assms] by (simp add: john_pipeline_def)
  then show ?thesis by (cases x) (simp add: sanitize_request_def Let_def cong: if_cong)
qed

lemma demo_pipeline_ok: "va_crypto v = plain_crypto \<Longrightarrow> pipeline_ok (john_pipeline\<lparr>pl_vault := v\<rparr>) [] (str ''s'') (set john_values)"
  using john_pipeline_ok keyless(1) [of v] by (simp add: pipeline_ok_def fp_inj_def john_pipeline_def plain_vault_def)

lemma demo_run:
  obtains p rep s' n' t' where "demo_run = ([p], Inr (rep, s', n', t'))" "uncut rep" "counts_of rep = (JNull, JNull)"
proof -
  obtain v where v: "build_vault (va_crypto (pl_vault john_pipeline)) default_settings = Inr v" "va_crypto v = plain_crypto"
    by (rule demo_vault)
  obtain p ctx s' n' where p: "sanitize_request ascii_ucd john_pipeline john_payload ([], 0) = Inr (p, ctx, s', n')"
    using john_sanitize by metis
  have allowed: "provider_permitted (pl_decision john_pipeline) x" for x
    by (simp add: provider_permitted_def john_pipeline_def default_decision_def)
  have ns: "dget john_payload (str ''stream'') = JNull" by (simp add: john_payload_def dget_def)
  have px: "px_ucd demo_env = ascii_ucd" by (simp add: demo_env_def)
  show ?thesis
    by (rule that [of p])
      (simp add: demo_run_def handle_def Let_def allowed read_payload_def v px demo_sanitized p ns
        complete_request_def down_provider_def settle_def, simp, rule error_counts)
qed

theorem proxy_never_leaks_witness:
  "\<exists>p r outs. demo_run = ([p], r) \<and> extract_texts p = Inr outs \<and> length outs = 1"
proof -
  obtain p rep s' n' t' where r: "demo_run = ([p], Inr (rep, s', n', t'))" by (rule demo_run)
  obtain v where v: "build_vault (va_crypto (pl_vault john_pipeline)) default_settings = Inr v" "va_crypto v = plain_crypto"
    by (rule demo_vault)
  have pd: "pd_redact_types (pl_decision john_pipeline) = None" by (simp add: john_pipeline_def default_decision_def)
  have "p \<in> set [p]" by simp
  from proxy_never_leaks [OF r [unfolded demo_run_def] this john_create v(1) demo_pipeline_ok [OF v(2)] pd]
  obtain payload raw outs where "JDict john_payload = JDict payload" "extract_texts payload = Inr raw" "extract_texts p = Inr outs"
    "length raw = length outs"
    by (auto dest: list_all2_lengthD)
  then have "length outs = 1" using john_texts(1) by auto
  then show ?thesis using r \<open>extract_texts p = Inr outs\<close> by blast
qed

theorem proxy_audited_witness:
  "\<exists>calls rep s' n' t' e. demo_run = (calls, Inr (rep, s', n', t')) \<and> at_rows t' = [e] \<and> aa_team (ae_args e) = str ''t''
     \<and> verify_chain toy_hmac (\<lambda>_. []) [] t' (str ''t'') = Inr True"
proof -
  obtain p rep s' n' t' where r: "demo_run = ([p], Inr (rep, s', n', t'))" "uncut rep" "counts_of rep = (JNull, JNull)" by (rule demo_run)
  have db: "db_env toy_hmac [] int4 demo_env" using int4_ok by (simp add: db_env_def demo_env_def)
  have hv: "hashes_visible empty_table" "\<not> at_failed empty_table" by (simp_all add: hashes_visible_def empty_table_def)
  have c: "counted rep" "fits int4 demo_env rep" using r(3) by (simp_all add: counted_def fits_def int4_def demo_env_def)
  obtain new where new: "extends toy_hmac (px_float demo_env) [] empty_table new t'"
    "\<forall>e\<in>set new. event_of demo_auth (str ''/v1'') (provider_name_of default_settings down_provider) ([p] = []) e" "length new = 1"
    using proxy_audited [OF db hv(1) empty_table_facts(1) hv(2) r(1) [unfolded demo_run_def] c(1)] r(2) c(2) by auto
  obtain e where "new = [e]" using new(3) by (cases new) auto
  then have "at_rows t' = [e]" "aa_team (ae_args e) = str ''t''" "verify_chain toy_hmac (\<lambda>_. []) [] t' (str ''t'') = Inr True"
    using new empty_table_facts(3) by (simp_all add: extends_def empty_table_def event_of_def demo_auth_def demo_env_def)
  then show ?thesis using r(1) by blast
qed

definition hello_chunk :: json where "hello_chunk = tail_chunk (str ''hello'')"

lemma tail_chunk_delta: "delta_str (tail_chunk x) = x" "text_chunk (tail_chunk x)"
  by (simp_all add: delta_str_def text_chunk_def tail_chunk_def extract_delta_text_def completion_path_def dget_def)

text \<open>The provider echoes the tokenized text, one character per chunk.\<close>

theorem proxy_stream_reinflates_witness:
  "\<exists>out s' n' ctx rslv evs. john_run_pg = Inr (out, s', n') \<and> prepare_stream_reinflation ascii_ucd john_pipeline s' ctx = Inr rslv \<and>
     stream_events ascii_ucd rslv (map (\<lambda>c. tail_chunk [c]) out, None) = (evs, Inr ()) \<and> concat (map delta_str evs) = john_text"
proof -
  obtain out s' n' where j: "john_run_pg = Inr (out, s', n')" "pg_inv s'"
    "honest plain_vault (str ''s'') (set john_values) (pg_recs s' (str ''s''))"
    "\<forall>r\<in>set (pg_recs s' (str ''s'')). length (tr_placeholder r) \<le> MAX_PLACEHOLDER_LEN + 1"
    "detokenize ascii_ucd (pg_ops Inr) plain_vault s' (str ''s'') out = Inr john_text" by (rule john_session)
  define ctx where "ctx = \<lparr>cx_session = str ''s'', cx_counts = [], cx_blocked = False, cx_spans = []\<rparr>"
  have c: "cx_session ctx = str ''s''" "pl_ops john_pipeline = pg_ops Inr" "pl_vault john_pipeline = plain_vault"
    by (simp_all add: ctx_def john_pipeline_def)
  obtain rslv where r: "prepare_stream_reinflation ascii_ucd john_pipeline s' ctx = Inr rslv"
    using run_stream_detokenize [OF j(2-4), of ascii_ucd "[out]"] j(5) by (auto simp: prepare_stream_reinflation_def c rbind_Inr_iff)
  let ?cs = "map (\<lambda>c. tail_chunk [c]) out"
  have d: "concat (map delta_str ?cs) = out" "\<forall>x\<in>set ?cs. text_chunk x" by (simp_all add: tail_chunk_delta comp_def concat_chars)
  obtain evs where "stream_events ascii_ucd rslv (?cs, None) = (evs, Inr ())"
    "detokenize ascii_ucd (pl_ops john_pipeline) (pl_vault john_pipeline) s' (cx_session ctx) (concat (map delta_str ?cs))
       = Inr (concat (map delta_str evs))"
    using proxy_stream_reinflates [OF c(2) j(2) _ _ r d(2), of "set john_values"] j(3,4) c by auto
  then have "stream_events ascii_ucd rslv (?cs, None) = (evs, Inr ())" "concat (map delta_str evs) = john_text"
    using j(5) d(1) c by simp_all
  then show ?thesis using j(1) r by blast
qed

theorem sse_roundtrip_witness:
  "iter_sse_data ascii_ucd (\<lambda>_. Inr hello_chunk) (split_on 10 (concat (map (sse_chunk (\<lambda>_. [])) [hello_chunk] @ [sse_done]))) None = ([hello_chunk], None)"
  by (rule sse_roundtrip [OF ucd_ascii_ascii_ucd]) (simp_all add: hello_chunk_def tail_chunk_def)

end
