(* ===== verification/Admin.thy ===== *)
theory Admin
  imports Audit_Log Auth Policy
begin

text \<open>
  \<open>app/routes/admin.py\<close> with the tables of \<open>app/models.py\<close> it reads, \<open>app/routes/health.py\<close> and
  \<open>app/worker.py\<close>. Tables are lists of rows; timestamps are numbers, printed by a parameter
  (\<open>isoformat\<close>); a query parameter out of its declared bounds is refused with 422.
\<close>

section \<open>Tables\<close>

record policy_table_row =
  pt_id :: pystr
  pt_org :: pystr
  pt_name :: pystr
  pt_pack_ids :: "pystr list"
  pt_mode :: pystr
  pt_blocked_types :: "pystr list"
  pt_allowed_providers :: "pystr list"
  pt_created_at :: int

text \<open>The check constraint of the policy table.\<close>

definition policy_mode_chk :: "pystr \<Rightarrow> bool" where
  "policy_mode_chk m \<longleftrightarrow> m \<in> {str ''tokenize'', str ''mask'', str ''hard_block''}"

record eval_run =
  er_id :: pystr
  er_pack_id :: "pystr option"
  er_provider :: pystr
  er_golden_set :: pystr
  er_recall :: "rat option"
  er_precision :: "rat option"
  er_fidelity :: "rat option"
  er_created_at :: int

section \<open>The gate\<close>

definition require_admin :: "settings \<Rightarrow> pystr option \<Rightarrow> unit res" where
  "require_admin st x_admin_token =
     (if st_admin_token st = [] then
        (if st_environment st = Dev then Inr ()
         else Inl (HTTPException 503 (str ''admin API not configured (set ADMIN_TOKEN)'')))
      else if x_admin_token \<noteq> Some (st_admin_token st) then Inl (HTTPException 401 (str ''invalid or missing admin token''))
      else Inr ())"

section \<open>Statistics\<close>

text \<open>\<open>percentile_cont(0.5)\<close> and Python's \<open>round\<close>, which rounds halves to the even neighbour.\<close>

definition median_cont :: "int list \<Rightarrow> rat option" where
  "median_cont xs =
     (let ys = sort xs; n = length ys in
      if n = 0 then None
      else Some ((of_int (ys ! ((n - 1) div 2)) + of_int (ys ! (n div 2))) / 2))"

definition py_round :: "rat \<Rightarrow> int" where
  "py_round r =
     (let f = floor r in
      if r - of_int f < 1 / 2 then f else if 1 / 2 < r - of_int f then f + 1 else if even f then f else f + 1)"

fun add_counts :: "(pystr \<times> int) list \<Rightarrow> (pystr \<times> int) list \<Rightarrow> (pystr \<times> int) list" where
  "add_counts [] d = d"
| "add_counts ((etype, n) # cs) d = add_counts cs (bump_count etype n d)"

definition entities_by_type :: "audit_event list \<Rightarrow> (pystr \<times> int) list" where
  "entities_by_type rows = fold (\<lambda>e. add_counts (aa_counts (ae_args e))) rows []"

definition by_provider :: "audit_event list \<Rightarrow> (pystr \<times> int) list" where
  "by_provider rows = count_by (\<lambda>e. aa_provider (ae_args e)) rows []"

definition counts_json :: "(pystr \<times> int) list \<Rightarrow> json" where
  "counts_json d = JDict (map (\<lambda>(k, n). (k, JInt n)) d)"

definition latencies :: "audit_event list \<Rightarrow> int list" where
  "latencies rows = concat (map (\<lambda>e. case aa_latency_ms (ae_args e) of None \<Rightarrow> [] | Some x \<Rightarrow> [x]) rows)"

definition stats :: "settings \<Rightarrow> pystr option \<Rightarrow> audit_table \<Rightarrow> nat \<Rightarrow> json res" where
  "stats st tok t sessions =
     rbind (require_admin st tok) (\<lambda>_.
       let rows = at_rows t in
       Inr (JDict [(str ''requests'', JInt (int (length rows))),
         (str ''blocked'', JInt (int (length (filter (\<lambda>e. aa_blocked (ae_args e)) rows)))),
         (str ''sessions'', JInt (int sessions)),
         (str ''median_latency_ms'', (case median_cont (latencies rows) of None \<Rightarrow> JNull | Some r \<Rightarrow> JInt (py_round r))),
         (str ''entities_by_type'', counts_json (entities_by_type rows)),
         (str ''by_provider'', counts_json (by_provider rows))]))"

section \<open>The audit list\<close>

definition event_json :: "(nat \<Rightarrow> json) \<Rightarrow> audit_event \<Rightarrow> json" where
  "event_json created ev =
     (let a = ae_args ev in
      JDict [(str ''id'', JInt (int (ae_id ev))), (str ''team_id'', JStr (aa_team a)),
        (str ''session_id'', opt_str (aa_session a)), (str ''route'', JStr (aa_route a)), (str ''provider'', JStr (aa_provider a)),
        (str ''entity_counts'', counts_json (aa_counts a)), (str ''blocked'', JBool (aa_blocked a)),
        (str ''prompt_tokens'', aa_prompt_tokens a), (str ''completion_tokens'', aa_completion_tokens a),
        (str ''latency_ms'', opt_int (aa_latency_ms a)), (str ''event_hash'', JStr (ae_event_hash ev)),
        (str ''created_at'', created (ae_id ev))])"

definition selected :: "pystr option \<Rightarrow> audit_table \<Rightarrow> audit_event list" where
  "selected team t =
     rev (sort_key ae_id
       (case team of None \<Rightarrow> at_rows t | Some x \<Rightarrow> if x = [] then at_rows t else filter (\<lambda>e. aa_team (ae_args e) = x) (at_rows t)))"

definition page :: "nat \<Rightarrow> nat \<Rightarrow> 'a list \<Rightarrow> 'a list" where
  "page limit offset xs = take limit (drop offset xs)"

definition in_bounds :: "int \<Rightarrow> int \<Rightarrow> int \<Rightarrow> unit res" where
  "in_bounds lo hi x = (if lo \<le> x \<and> x \<le> hi then Inr () else Inl (HTTPException 422 []))"

definition audit_list :: "(nat \<Rightarrow> json) \<Rightarrow> settings \<Rightarrow> pystr option \<Rightarrow> audit_table \<Rightarrow> int \<Rightarrow> int \<Rightarrow> pystr option \<Rightarrow> json res" where
  "audit_list created st tok t limit offset team =
     rbind (require_admin st tok) (\<lambda>_.
     rbind (in_bounds 1 500 limit) (\<lambda>_.
     if offset < 0 then Inl (HTTPException 422 [])
     else
       Inr (JDict [(str ''total'', JInt (int (length (selected team t)))), (str ''limit'', JInt limit), (str ''offset'', JInt offset),
         (str ''items'', JList (map (event_json created) (page (nat limit) (nat offset) (selected team t))))])))"

section \<open>Policies\<close>

definition str_list :: "pystr list \<Rightarrow> json" where "str_list xs = JList (map JStr xs)"

definition policy_json :: "policy_table_row \<Rightarrow> dict" where
  "policy_json p =
     [(str ''id'', JStr (pt_id p)), (str ''org_id'', JStr (pt_org p)), (str ''name'', JStr (pt_name p)), (str ''mode'', JStr (pt_mode p)),
      (str ''pack_ids'', str_list (pt_pack_ids p)), (str ''blocked_types'', str_list (pt_blocked_types p)),
      (str ''allowed_providers'', str_list (pt_allowed_providers p))]"

definition list_policies :: "(int \<Rightarrow> json) \<Rightarrow> settings \<Rightarrow> pystr option \<Rightarrow> policy_table_row list \<Rightarrow> json res" where
  "list_policies stamp st tok rows =
     rbind (require_admin st tok) (\<lambda>_.
       Inr (JDict [(str ''items'',
         JList (map (\<lambda>p. JDict (policy_json p @ [(str ''created_at'', stamp (pt_created_at p))]))
           (sort_key (\<lambda>p. - pt_created_at p) rows)))]))"

text \<open>What the handler hands to the database, which checks the types, the foreign key and the mode
  and mints id and time: \<open>ins\<close> is that check.\<close>

record policy_draft =
  pd_org :: json
  pd_name :: json
  pd_mode_value :: json
  pd_packs :: "json list"
  pd_blocked_list :: "json list"
  pd_allowed_list :: "json list"

definition create_policy ::
  "(policy_draft \<Rightarrow> policy_table_row res) \<Rightarrow> settings \<Rightarrow> pystr option \<Rightarrow> dict \<Rightarrow> policy_table_row list \<Rightarrow> (json \<times> policy_table_row list) res" where
  "create_policy ins st tok body rows =
     rbind (require_admin st tok) (\<lambda>_.
     if \<not> truthy (dget body (str ''org_id'')) \<or> \<not> truthy (dget body (str ''name''))
     then Inl (HTTPException 400 (str ''org_id and name are required''))
     else
       rbind (iter_or_empty (dget body (str ''pack_ids''))) (\<lambda>packs.
       rbind (iter_or_empty (dget body (str ''blocked_types''))) (\<lambda>blocked.
       rbind (iter_or_empty (dget body (str ''allowed_providers''))) (\<lambda>allowed.
       rbind (ins \<lparr>pd_org = dget body (str ''org_id''), pd_name = dget body (str ''name''),
                   pd_mode_value = dget_or body (str ''mode'') (JStr (str ''tokenize'')), pd_packs = packs,
                   pd_blocked_list = blocked, pd_allowed_list = allowed\<rparr>) (\<lambda>p.
         Inr (JDict (policy_json p), rows @ [p]))))))"

text \<open>The look-up \<open>resolve_policy\<close> makes in the table.\<close>

definition find_policy :: "policy_table_row list \<Rightarrow> pystr \<Rightarrow> policy_row option res" where
  "find_policy rows pid =
     Inr (map_option (\<lambda>p. \<lparr>pr_mode = pt_mode p, pr_blocked_types = Some (pt_blocked_types p),
                           pr_allowed_providers = Some (pt_allowed_providers p)\<rparr>)
       (find (\<lambda>p. pt_id p = pid) rows))"

section \<open>Benchmarks, probes and the worker\<close>

definition opt_float :: "rat option \<Rightarrow> json" where
  "opt_float x = (case x of None \<Rightarrow> JNull | Some r \<Rightarrow> JFloat r)"

definition run_json :: "(int \<Rightarrow> json) \<Rightarrow> eval_run \<Rightarrow> json" where
  "run_json stamp r =
     JDict [(str ''id'', JStr (er_id r)), (str ''pack_id'', opt_str (er_pack_id r)), (str ''provider'', JStr (er_provider r)),
       (str ''golden_set'', JStr (er_golden_set r)), (str ''recall'', opt_float (er_recall r)), (str ''precision'', opt_float (er_precision r)),
       (str ''answer_fidelity'', opt_float (er_fidelity r)), (str ''created_at'', stamp (er_created_at r))]"

definition benchmark :: "(int \<Rightarrow> json) \<Rightarrow> settings \<Rightarrow> pystr option \<Rightarrow> eval_run list \<Rightarrow> int \<Rightarrow> json res" where
  "benchmark stamp st tok rows limit =
     rbind (require_admin st tok) (\<lambda>_.
     rbind (in_bounds 1 200 limit) (\<lambda>_.
       Inr (JDict [(str ''items'', JList (map (run_json stamp) (take (nat limit) (sort_key (\<lambda>r. - er_created_at r) rows))))])))"

definition healthz :: json where "healthz = JDict [(str ''status'', JStr (str ''ok''))]"

definition readyz :: "(exn \<Rightarrow> pystr) \<Rightarrow> unit res \<Rightarrow> int \<times> json" where
  "readyz exn_text ping =
     (case ping of
        Inl e \<Rightarrow> (503, JDict [(str ''status'', JStr (str ''unavailable'')), (str ''detail'', JStr (exn_text e))])
      | Inr _ \<Rightarrow> (200, JDict [(str ''status'', JStr (str ''ok''))]))"

text \<open>The job of the worker; the harness is a parameter, its result a dictionary. The row keeps the
  three measures, which the harness reports as numbers or null.\<close>

definition measure_of :: "json \<Rightarrow> rat option res" where
  "measure_of v = (case v of JNull \<Rightarrow> Inr None | JFloat r \<Rightarrow> Inr (Some r) | JInt i \<Rightarrow> Inr (Some (of_int i)) | _ \<Rightarrow> Inl TypeError)"

definition run_fidelity_eval ::
  "ucd \<Rightarrow> (pystr \<Rightarrow> pystr \<Rightarrow> dict res) \<Rightarrow> pystr \<Rightarrow> int \<Rightarrow> pystr \<Rightarrow> pystr \<Rightarrow> eval_run list \<Rightarrow> (dict \<times> eval_run list) res" where
  "run_fidelity_eval u run_eval new_id now pack_code provider rows =
     (let golden_set = u_lower u (py_strip u pack_code) in
      rbind (run_eval golden_set provider) (\<lambda>result.
      rbind (measure_of (dget result (str ''recall''))) (\<lambda>recall.
      rbind (measure_of (dget result (str ''precision''))) (\<lambda>precision.
      rbind (measure_of (dget result (str ''answer_fidelity''))) (\<lambda>fidelity.
        Inr (result, rows @ [\<lparr>er_id = new_id, er_pack_id = None, er_provider = provider, er_golden_set = golden_set,
                              er_recall = recall, er_precision = precision, er_fidelity = fidelity, er_created_at = now\<rparr>]))))))"

section \<open>Lemmas\<close>

lemma map_of_add_counts:
  "map_of (add_counts cs d) k =
     (if k \<in> fst ` set cs \<or> map_of d k \<noteq> None
      then Some ((case map_of d k of None \<Rightarrow> 0 | Some c \<Rightarrow> c) + sum_list (map snd (filter (\<lambda>p. fst p = k) cs)))
      else None)"
  by (induction cs d rule: add_counts.induct) (auto simp: map_of_bump_count split: option.splits)

lemma counts_absent: "k \<notin> fst ` set cs \<Longrightarrow> filter (\<lambda>p. fst p = k) cs = []"
  by (induction cs) auto

definition reported :: "audit_event list \<Rightarrow> pystr \<Rightarrow> int" where
  "reported rows k = sum_list (map (\<lambda>e. sum_list (map snd (filter (\<lambda>p. fst p = k) (aa_counts (ae_args e))))) rows)"

lemma map_of_entities:
  "map_of (fold (\<lambda>e. add_counts (aa_counts (ae_args e))) rows d) k =
     (if (\<exists>e\<in>set rows. k \<in> fst ` set (aa_counts (ae_args e))) \<or> map_of d k \<noteq> None
      then Some ((case map_of d k of None \<Rightarrow> 0 | Some c \<Rightarrow> c) + reported rows k)
      else None)"
proof (induction rows arbitrary: d)
  case (Cons e rows)
  show ?case unfolding fold_Cons comp_def Cons.IH map_of_add_counts
    by (cases "k \<in> fst ` set (aa_counts (ae_args e))") (simp_all add: reported_def counts_absent split: option.split)
qed (auto simp: reported_def)

lemma sum_bump_count: "sum_list (map snd (bump_count k n d)) = sum_list (map snd d) + n"
proof -
  have "sum_list (map snd (AList.update k (c + n) d)) = sum_list (map snd d) + n" if "map_of d k = Some c" for c
    using that by (induction d) auto
  moreover have "sum_list (map snd (AList.update k n d)) = sum_list (map snd d) + n" if "map_of d k = None"
    using that by (induction d) auto
  ultimately show ?thesis by (auto simp: bump_count_def split: option.splits)
qed

lemma sum_count_by: "sum_list (map snd (count_by f xs d)) = sum_list (map snd d) + int (length xs)"
  by (induction xs arbitrary: d) (simp_all add: sum_bump_count)

lemma pages_concat: "0 < limit \<Longrightarrow> concat (map (\<lambda>i. page limit (i * limit) xs) [0..<k]) = take (k * limit) xs"
proof (induction k)
  case (Suc k)
  have "take (Suc k * limit) xs = take (k * limit) xs @ take limit (drop (k * limit) xs)"
    by (metis add.commute mult_Suc take_add)
  then show ?case using Suc by (simp add: page_def)
qed simp

section \<open>Properties\<close>

text \<open>The dashboard adds up: the requests per provider sum to the number of events, and the count
  of a type is the sum of what the events report of it.\<close>

lemma stats_add_up:
  "sum_list (map snd (by_provider rows)) = int (length rows)
   \<and> map_of (entities_by_type rows) k =
       (if \<exists>e\<in>set rows. k \<in> fst ` set (aa_counts (ae_args e)) then Some (reported rows k) else None)"
  by (simp add: by_provider_def sum_count_by entities_by_type_def map_of_entities)

text \<open>Paging through the audit list shows every event of the selection exactly once, newest
  first, and only those.\<close>

lemma audit_pages_complete:
  assumes "0 < limit" "length (selected team t) \<le> k * limit" "distinct (map ae_id (at_rows t))"
  shows "concat (map (\<lambda>i. page limit (i * limit) (selected team t)) [0..<k]) = selected team t
    \<and> distinct (selected team t)
    \<and> set (selected team t) = {e \<in> set (at_rows t). team = None \<or> team = Some [] \<or> team = Some (aa_team (ae_args e))}
    \<and> sorted (rev (map ae_id (selected team t)))"
proof -
  have d: "distinct (at_rows t)" using assms(3) by (simp add: distinct_map)
  have "sorted (map ae_id (rev (selected team t)))" by (simp add: selected_def sorted_sort_key)
  then show ?thesis
    using pages_concat [OF assms(1), of "selected team t" k] assms(2) d
    by (auto simp: selected_def rev_map split: option.splits)
qed

text \<open>A policy that was created is the policy that is enforced: resolving its id gives the mode,
  the blocked types and the providers of the request; \<open>ins\<close> keeps what it is given and admits only rows
  that meet the table's check constraint.\<close>

lemma created_policy_enforced:
  assumes "create_policy ins st tok body rows = Inr (reply, rows')" "\<forall>p\<in>set rows. pt_id p \<noteq> pid"
    and "\<And>dr p. ins dr = Inr p \<Longrightarrow> pt_id p = pid \<and> pd_mode_value dr = JStr (pt_mode p)
           \<and> pd_blocked_list dr = map JStr (pt_blocked_types p) \<and> pd_allowed_list dr = map JStr (pt_allowed_providers p) \<and> policy_mode_chk (pt_mode p)"
  shows "\<exists>blocked allowed m mode.
      iter_or_empty (dget body (str ''blocked_types'')) = Inr (map JStr blocked)
    \<and> iter_or_empty (dget body (str ''allowed_providers'')) = Inr (map JStr allowed)
    \<and> dget_or body (str ''mode'') (JStr (str ''tokenize'')) = JStr m
    \<and> policy_mode_of m = Inr mode
    \<and> resolve_policy (find_policy rows') (Some pid) = Inr \<lparr>pd_mode = mode, pd_blocked = False, pd_blocked_types = blocked,
          pd_allowed_providers = allowed, pd_redact_types = None\<rparr>"
proof -
  obtain packs blocked allowed p where run: "iter_or_empty (dget body (str ''blocked_types'')) = Inr blocked"
    "iter_or_empty (dget body (str ''allowed_providers'')) = Inr allowed" "rows' = rows @ [p]"
    "ins \<lparr>pd_org = dget body (str ''org_id''), pd_name = dget body (str ''name''),
       pd_mode_value = dget_or body (str ''mode'') (JStr (str ''tokenize'')), pd_packs = packs,
       pd_blocked_list = blocked, pd_allowed_list = allowed\<rparr> = Inr p"
    using assms(1) by (auto simp: create_policy_def rbind_Inr_iff split: if_splits)
  note p = assms(3) [OF run(4)]
  have "find (\<lambda>q. pt_id q = pid) rows = None" using assms(2) by (simp add: find_None_iff)
  then have "find (\<lambda>q. pt_id q = pid) rows' = Some p"
    using p run(3) by (induction rows arbitrary: rows') (auto split: if_splits)
  then have "find_policy rows' pid = Inr (Some \<lparr>pr_mode = pt_mode p, pr_blocked_types = Some (pt_blocked_types p),
      pr_allowed_providers = Some (pt_allowed_providers p)\<rparr>)" by (simp add: find_policy_def)
  moreover obtain mode where "policy_mode_of (pt_mode p) = Inr mode" using p by (auto simp: policy_mode_chk_def policy_mode_of_def)
  ultimately show ?thesis using run(1,2) p
    by (intro exI [of _ "pt_blocked_types p"] exI [of _ "pt_allowed_providers p"] exI [of _ "pt_mode p"] exI [of _ mode])
      (simp add: resolve_policy_def or_empty_def)
qed

section \<open>Witnesses\<close>

definition demo_insert :: "policy_draft \<Rightarrow> policy_table_row res" where
  "demo_insert dr =
     (if pd_mode_value dr = JStr (str ''mask'') \<and> pd_blocked_list dr = [] \<and> pd_allowed_list dr = [] then
        Inr \<lparr>pt_id = str ''7'', pt_org = str ''o'', pt_name = str ''n'', pt_pack_ids = [], pt_mode = str ''mask'', pt_blocked_types = [],
             pt_allowed_providers = [], pt_created_at = 0\<rparr>
      else Inl IntegrityError)"

lemma demo_insert_law:
  "demo_insert dr = Inr p \<Longrightarrow> pt_id p = str ''7'' \<and> pd_mode_value dr = JStr (pt_mode p)
     \<and> pd_blocked_list dr = map JStr (pt_blocked_types p) \<and> pd_allowed_list dr = map JStr (pt_allowed_providers p) \<and> policy_mode_chk (pt_mode p)"
  unfolding demo_insert_def policy_mode_chk_def by (auto split: if_split_asm simp del: str_def)

end
