(* ===== verification/App.thy ===== *)
theory App
  imports Proxy Packs Admin
begin

text \<open>
  The service around the routes: \<open>app/main.py\<close>, \<open>app/db.py\<close> (\<open>get_session\<close>), \<open>app/migrate.py\<close> and the
  providers of \<open>app/deps.py\<close>. A computation that may raise keeps the state it reached, so the
  connection of the migration runner is threaded through errors; a request's session is committed
  when its handler returns and rolled back when it raises.
\<close>

section \<open>Migrations\<close>

definition MIGRATION_LOCK_KEY :: int where "MIGRATION_LOCK_KEY = 727274"

definition lock_stmt :: pystr where "lock_stmt = str ''SELECT pg_advisory_lock('' @ str_int MIGRATION_LOCK_KEY @ str '')''"
definition unlock_stmt :: pystr where "unlock_stmt = str ''SELECT pg_advisory_unlock('' @ str_int MIGRATION_LOCK_KEY @ str '')''"

text \<open>A file is its name and what reading it gives.\<close>

type_synonym sql_file = "pystr \<times> pystr res"
type_synonym 'c connection = "pystr \<Rightarrow> 'c \<Rightarrow> unit res \<times> 'c"

definition is_sql :: "pystr \<Rightarrow> bool" where
  "is_sql name \<longleftrightarrow> drop (length name - 4) name = str ''.sql'' \<and> 4 \<le> length name"

definition migration_files :: "sql_file list \<Rightarrow> sql_file list" where
  "migration_files dir = sort_key fst (filter (\<lambda>f. is_sql (fst f)) dir)"

fun run_files :: "'c connection \<Rightarrow> sql_file list \<Rightarrow> pystr list \<Rightarrow> 'c \<Rightarrow> pystr list res \<times> 'c" where
  "run_files ex [] applied c = (Inr applied, c)"
| "run_files ex ((name, Inl e) # fs) applied c = (Inl e, c)"
| "run_files ex ((name, Inr sql) # fs) applied c =
     (case ex sql c of (Inl e, c') \<Rightarrow> (Inl e, c') | (Inr _, c') \<Rightarrow> run_files ex fs (applied @ [name]) c')"

definition apply_migrations :: "'c connection \<Rightarrow> sql_file list \<Rightarrow> 'c \<Rightarrow> pystr list res \<times> 'c" where
  "apply_migrations ex dir c =
     (case ex lock_stmt c of
        (Inl e, c0) \<Rightarrow> (Inl e, c0)
      | (Inr _, c0) \<Rightarrow>
          (let (r, c1) = run_files ex (migration_files dir) [] c0 in
           case ex unlock_stmt c1 of (Inl e, c2) \<Rightarrow> (Inl e, c2) | (Inr _, c2) \<Rightarrow> (r, c2)))"

section \<open>Start-up\<close>

text \<open>The levels and messages of the log, and the best-effort bootstrap before the first request:
  nothing it raises stops the process. \<open>ensure\<close> and \<open>sync\<close> run in a session each.\<close>

datatype log_level = LDebug | LInfo | LWarning | LError

definition bootstrap ::
  "('d \<Rightarrow> pystr list res \<times> 'd) \<Rightarrow> ('d \<Rightarrow> pystr option res \<times> 'd) \<Rightarrow> ('d \<Rightarrow> nat res \<times> 'd) \<Rightarrow> 'd \<Rightarrow> (log_level \<times> pystr) list \<times> 'd" where
  "bootstrap migrations ensure sync d =
     (case migrations d of
        (Inl e, d1) \<Rightarrow> ([(LError, str ''startup migration/bootstrap failed'')], d1)
      | (Inr applied, d1) \<Rightarrow>
          (let (r2, d2) = ensure d1; (r3, d3) = sync d2 in
           ([(LInfo, str ''migrations applied'')]
            @ (case r2 of
                 Inl e \<Rightarrow> [(LWarning, str ''default api key bootstrap skipped'')]
               | Inr None \<Rightarrow> []
               | Inr (Some key) \<Rightarrow> if key = [] then [] else [(LInfo, str ''default dev API key ensured (label=default)'')])
            @ (case r3 of Inl e \<Rightarrow> [(LDebug, str ''pack sync skipped'')] | Inr _ \<Rightarrow> []), d3)))"

record app_config =
  ap_cors_origins :: "pystr list"
  ap_routers :: "pystr list"

definition ROUTERS :: "pystr list" where
  "ROUTERS = [str ''app.routes.health'', str ''app.routes.proxy'', str ''app.routes.admin'']"

definition create_app :: "ucd \<Rightarrow> settings \<Rightarrow> (pystr \<Rightarrow> bool) \<Rightarrow> app_config res" where
  "create_app u st importable =
     (let problems = runtime_problems st; sep = [10] @ str ''  - '' in
      if problems \<noteq> [] then Inl (RuntimeError (str ''insecure configuration:'' @ sep @ join_with sep problems))
      else Inr \<lparr>ap_cors_origins = cors_origin_list u st, ap_routers = filter importable ROUTERS\<rparr>)"

definition root :: "pystr \<Rightarrow> registry \<Rightarrow> settings \<Rightarrow> json" where
  "root version reg st =
     JDict [(str ''service'', JStr (str ''RedactGate'')), (str ''version'', JStr version),
       (str ''providers'', JList (map JStr (available_providers reg))), (str ''active_provider'', JStr (provider_str (st_ai_provider st)))]"

section \<open>Around a request\<close>

text \<open>\<open>int(s)\<close> on a string: blanks around it, one sign, at most 4300
  digits with single underscores between.\<close>

fun digit_groups :: "ucd \<Rightarrow> bool \<Rightarrow> pystr \<Rightarrow> pystr option" where
  "digit_groups u after [] = (if after then Some [] else None)"
| "digit_groups u after (c # cs) =
     (if c = 95 then (if after then digit_groups u False cs else None)
      else if u_decimal u c = None then None
      else map_option ((#) c) (digit_groups u True cs))"

definition int_of_str :: "ucd \<Rightarrow> pystr \<Rightarrow> int res" where
  "int_of_str u s =
     (let s = py_strip u s; neg = (take 1 s = [45]); body = (if take 1 s = [45] \<or> take 1 s = [43] then drop 1 s else s) in
      case digit_groups u False body of
        None \<Rightarrow> Inl ValueError
      | Some ds \<Rightarrow> if 4300 < length ds then Inl ValueError else rbind (py_int_digits u ds) (\<lambda>n. Inr (if neg then - int n else int n)))"

definition limit_body_size :: "ucd \<Rightarrow> settings \<Rightarrow> pystr option \<Rightarrow> (unit \<Rightarrow> 'r) \<Rightarrow> (reply \<Rightarrow> 'r) \<Rightarrow> 'r" where
  "limit_body_size u st content_length call_next answer =
     (case content_length of
        None \<Rightarrow> call_next ()
      | Some cl \<Rightarrow>
          (case int_of_str u cl of
             Inl _ \<Rightarrow> call_next ()
           | Inr n \<Rightarrow>
               if n > st_max_body_bytes st
               then answer (JSON_Response 413 (plain_error (str ''request body too large'') (Some (str ''payload_too_large''))))
               else call_next ()))"

text \<open>What becomes of an exception that leaves a handler or a dependency: FastAPI answers its own
  \<open>HTTPException\<close>, everything else reaches the registered handler.\<close>

definition unhandled :: "(exn \<Rightarrow> pystr) \<Rightarrow> exn \<Rightarrow> reply" where
  "unhandled exn_text e =
     (case e of
        HTTPException code detail \<Rightarrow> JSON_Response code (JDict [(str ''detail'', JStr detail)])
      | _ \<Rightarrow> JSON_Response 500 (plain_error (exn_text e) None))"

definition get_session :: "('d \<Rightarrow> 'd res) \<Rightarrow> ('d \<Rightarrow> ('r \<times> 'd) res) \<Rightarrow> 'd \<Rightarrow> 'r res \<times> 'd" where
  "get_session commit body d =
     (case rbind (body d) (\<lambda>(r, d'). rbind (commit d') (\<lambda>d''. Inr (r, d''))) of
        Inl e \<Rightarrow> (Inl e, d)
      | Inr (r, d') \<Rightarrow> (Inr r, d'))"

section \<open>Dependencies\<close>

definition get_auth :: "ucd \<Rightarrow> hasher \<Rightarrow> settings \<Rightarrow> api_key list \<Rightarrow> team list \<Rightarrow> (pystr \<times> pystr) list \<Rightarrow> auth_context res" where
  "get_auth u h st keys teams headers = authenticate u h st keys teams (map_of headers (str ''authorization''))"

definition get_policy_decision :: "policy_table_row list \<Rightarrow> auth_context \<Rightarrow> policy_decision res" where
  "get_policy_decision policies au = resolve_policy (find_policy policies) (au_policy au)"

definition get_active_provider :: "registry \<Rightarrow> settings \<Rightarrow> instances \<Rightarrow> (provider \<times> instances) res" where
  "get_active_provider reg st inst = get_provider reg (provider_str (st_ai_provider st)) st inst"

text \<open>\<open>DBAuditSink.record\<close>.\<close>

definition db_sink_record ::
  "hmac \<Rightarrow> (rat \<Rightarrow> pystr) \<Rightarrow> settings \<Rightarrow> column \<Rightarrow> audit_args \<Rightarrow> audit_table \<Rightarrow> (audit_event \<times> audit_table) res" where
  "db_sink_record hm fl st col a t = rbind (key_bytes st (str ''audit_hmac_key'')) (\<lambda>key. record_event hm fl key col a t)"

text \<open>The commit of the request's session. After a failed insert it raises: the transaction is gone.\<close>

definition commit_session :: "('s proxy_state \<Rightarrow> 's proxy_state res) \<Rightarrow> 's proxy_state \<Rightarrow> 's proxy_state res" where
  "commit_session commit = (\<lambda>(s, n, t). if at_failed t then Inl (RuntimeError (str ''PendingRollbackError'')) else commit (s, n, t))"

section \<open>The service\<close>

text \<open>The running process: configuration, code it links and the tables it only reads. \<open>sv_pipeline\<close> is
  \<open>build_pipeline\<close> around the store and the detector of the request.\<close>

record 's service =
  sv_ucd :: ucd
  sv_settings :: settings
  sv_hasher :: hasher
  sv_env :: proxy_env
  sv_registry :: registry
  sv_exn_text :: "exn \<Rightarrow> pystr"
  sv_pipeline :: "auth_context \<Rightarrow> 's pipeline"
  sv_keys :: "api_key list"
  sv_teams :: "team list"
  sv_policies :: "policy_table_row list"
  sv_commit :: "'s proxy_state \<Rightarrow> 's proxy_state res"

record request =
  rq_headers :: "(pystr \<times> pystr) list"
  rq_body :: "json res"

text \<open>The dependencies in the order they are solved: authentication, policy, provider.\<close>

definition dependencies :: "'s service \<Rightarrow> request \<Rightarrow> instances \<Rightarrow> (auth_context \<times> policy_decision \<times> provider \<times> instances) res" where
  "dependencies sv rq inst =
     rbind (get_auth (sv_ucd sv) (sv_hasher sv) (sv_settings sv) (sv_keys sv) (sv_teams sv) (rq_headers rq)) (\<lambda>au.
     rbind (get_policy_decision (sv_policies sv) au) (\<lambda>decision.
     rbind (get_active_provider (sv_registry sv) (sv_settings sv) inst) (\<lambda>(pv, inst').
       Inr (au, decision, pv, inst'))))"

text \<open>A POST to a proxied route: what the provider was handed, the answer, the committed state and
  the provider instances.\<close>

definition serve ::
  "'s service \<Rightarrow> pystr \<Rightarrow> request \<Rightarrow> 's proxy_state \<times> instances \<Rightarrow> dict list \<times> reply \<times> 's proxy_state \<times> instances" where
  "serve sv route rq = (\<lambda>(d, inst).
     limit_body_size (sv_ucd sv) (sv_settings sv) (map_of (rq_headers rq) (str ''content-length''))
       (\<lambda>_. case dependencies sv rq inst of
              Inl e \<Rightarrow> ([], unhandled (sv_exn_text sv) e, d, inst)
            | Inr (au, decision, pv, inst') \<Rightarrow>
                (let (calls, r) = handle (sv_env sv) ((sv_pipeline sv au)\<lparr>pl_decision := decision\<rparr>) pv (sv_settings sv) au route (rq_body rq) d;
                     (a, d') = get_session (commit_session (sv_commit sv)) (\<lambda>_. r) d in
                 (calls, (case a of Inl e \<Rightarrow> unhandled (sv_exn_text sv) e | Inr x \<Rightarrow> x), d', inst')))
       (\<lambda>x. ([], x, d, inst)))"

section \<open>Lemmas\<close>

definition traced :: "'c connection \<Rightarrow> ('c \<times> pystr list) connection" where
  "traced ex = (\<lambda>sql (c, tr). let (r, c') = ex sql c in (r, c', tr @ [sql]))"

lemma run_files_trace:
  assumes "run_files (traced ex) fs applied (c, tr) = (r, c', tr')"
  shows "\<exists>stmts k. map Inr stmts = map snd (take k fs) \<and> tr' = tr @ stmts
    \<and> (\<forall>names. r = Inr names \<longrightarrow> length fs \<le> k \<and> names = applied @ map fst fs)"
  using assms
proof (induction fs arbitrary: applied c tr)
  case Nil
  then show ?case by auto
next
  case (Cons f fs)
  obtain name q where f: "f = (name, q)" by (cases f)
  show ?case
  proof (cases q)
    case (Inl e)
    then have "map Inr [] = map snd (take 0 (f # fs)) \<and> tr' = tr @ [] \<and> (\<forall>names. r = Inr names \<longrightarrow> length (f # fs) \<le> 0 \<and> names = applied @ map fst (f # fs))"
      using Cons.prems f by auto
    then show ?thesis by blast
  next
    case (Inr sql)
    obtain o1 c1 where ex: "ex sql c = (o1, c1)" by (cases "ex sql c")
    show ?thesis
    proof (cases o1)
      case (Inl e)
      then have "map Inr [sql] = map snd (take 1 (f # fs)) \<and> tr' = tr @ [sql] \<and> (\<forall>names. r = Inr names \<longrightarrow> length (f # fs) \<le> 1 \<and> names = applied @ map fst (f # fs))"
        using Cons.prems f Inr ex by (auto simp: traced_def)
      then show ?thesis by blast
    next
      case (Inr x)
      then have "run_files (traced ex) fs (applied @ [name]) (c1, tr @ [sql]) = (r, c', tr')"
        using Cons.prems f \<open>q = Inr sql\<close> ex by (simp add: traced_def)
      from Cons.IH [OF this] obtain stmts k where IH: "map Inr stmts = map snd (take k fs)" "tr' = (tr @ [sql]) @ stmts"
        "\<forall>names. r = Inr names \<longrightarrow> length fs \<le> k \<and> names = (applied @ [name]) @ map fst fs" by blast
      then have "map Inr (sql # stmts) = map snd (take (Suc k) (f # fs)) \<and> tr' = tr @ (sql # stmts)
          \<and> (\<forall>names. r = Inr names \<longrightarrow> length (f # fs) \<le> Suc k \<and> names = applied @ map fst (f # fs))"
        using f \<open>q = Inr sql\<close> by simp
      then show ?thesis by blast
    qed
  qed
qed

lemma digit_groups_digits:
  "ucd_ascii u \<Longrightarrow> \<forall>c\<in>set s. 48 \<le> c \<and> c \<le> 57 \<Longrightarrow> s \<noteq> [] \<or> after \<Longrightarrow> digit_groups u after s = Some s"
  by (induction s arbitrary: after) (auto simp: ucd_ascii_def ascii_digit_def)

lemma int_of_str_nat:
  assumes u: "ucd_ascii u" and n: "length (str_nat n) \<le> 4300"
  shows "int_of_str u (str_nat n) = Inr (int n)"
proof -
  let ?s = "str_nat n"
  have sp: "\<not> u_space u c" if "c \<in> set ?s" for c
    using str_nat_digits [OF that] u by (auto simp: ucd_ascii_def ascii_space_def)
  have strip: "py_strip u ?s = ?s"
  proof -
    have "dropWhile (u_space u) ?s = ?s" using sp by (cases ?s) auto
    moreover have "dropWhile (u_space u) (rev ?s) = rev ?s" using sp by (cases ?s rule: rev_cases) auto
    ultimately show ?thesis by (simp add: py_strip_def py_lstrip_def py_rstrip_def)
  qed
  have "take 1 ?s \<noteq> [45] \<and> take 1 ?s \<noteq> [43]"
    using str_nat_digits [of "hd ?s" n] by (cases ?s) auto
  moreover have "digit_groups u False ?s = Some ?s"
    using u str_nat_digits [of _ n] by (intro digit_groups_digits) auto
  moreover have "py_int_digits u ?s = Inr n" using digits_val_str_nat [OF u] by (simp add: py_int_digits_def)
  ultimately show ?thesis using n by (simp add: int_of_str_def strip Let_def)
qed

section \<open>Properties\<close>

text \<open>Migrations run under the lock: once the lock is held, what is executed is the lock, the
  statements of an initial part of the sorted files and the release, whatever fails in between; a
  run that reports success has executed every file.\<close>

lemma migrations_locked:
  assumes "apply_migrations (traced ex) dir (c, []) = (r, c', tr)" "fst (ex lock_stmt c) = Inr ()"
  shows "\<exists>stmts k. map Inr stmts = map snd (take k (migration_files dir)) \<and> tr = lock_stmt # stmts @ [unlock_stmt]
    \<and> (\<forall>names. r = Inr names \<longrightarrow> names = map fst (migration_files dir) \<and> map Inr stmts = map snd (migration_files dir))"
proof -
  obtain c0 where l: "ex lock_stmt c = (Inr (), c0)" using assms(2) by (cases "ex lock_stmt c") auto
  obtain r1 c1 tr1 where f: "run_files (traced ex) (migration_files dir) [] (c0, [lock_stmt]) = (r1, c1, tr1)"
    by (cases "run_files (traced ex) (migration_files dir) [] (c0, [lock_stmt])") auto
  obtain r2 c2 where un: "ex unlock_stmt c1 = (r2, c2)" by (cases "ex unlock_stmt c1")
  have e: "(r, c', tr) = (case r2 of Inl e \<Rightarrow> Inl e | Inr _ \<Rightarrow> r1, c2, tr1 @ [unlock_stmt])"
    using assms(1) l f un by (cases r2) (simp_all add: apply_migrations_def traced_def)
  from run_files_trace [OF f] obtain stmts k where s: "map Inr stmts = map snd (take k (migration_files dir))" "tr1 = [lock_stmt] @ stmts"
    "\<forall>names. r1 = Inr names \<longrightarrow> length (migration_files dir) \<le> k \<and> names = [] @ map fst (migration_files dir)" by blast
  moreover have "tr = lock_stmt # stmts @ [unlock_stmt]" using e s(2) by simp
  moreover have "r1 = Inr names" if "r = Inr names" for names using e that by (cases r2) auto
  ultimately show ?thesis by (intro exI [of _ stmts] exI [of _ k]) auto
qed

text \<open>The body limit is exact for a declared length, and looks at nothing but the declaration: a
  request without a Content-Length header is passed on whatever it carries.\<close>

lemma body_limit_exact:
  assumes "ucd_ascii u" "length (str_nat n) \<le> 4300"
  shows "limit_body_size u st (Some (str_nat n)) call_next answer =
       (if st_max_body_bytes st < int n
        then answer (JSON_Response 413 (plain_error (str ''request body too large'') (Some (str ''payload_too_large''))))
        else call_next ())
    \<and> limit_body_size u st None call_next answer = call_next ()"
  using int_of_str_nat [OF assms] by (simp add: limit_body_size_def)

text \<open>C28. A production service that started is closed: its keys are the configured 32 bytes, the
  admin API opens only to the configured token, and a request whose header names no stored,
  unrevoked key reaches no provider and changes nothing. (The refusal is answered with 500: no
  handler turns it into the 401 it carries.)\<close>

theorem production_fails_closed:
  assumes boot: "create_app u (sv_settings sv) importable = Inr cfg" and prod: "st_environment (sv_settings sv) = Prod"
    and ok: "accepted (sv_settings sv)" and h: "hasher_ok (sv_hasher sv)" "made_by (sv_hasher sv) made (sv_keys sv)"
  shows "(\<exists>v. build_vault cr (sv_settings sv) = Inr v
            \<and> b64decode (st_vault_master_key (sv_settings sv)) = Inr (va_master_key v) \<and> length (va_master_key v) = 32
            \<and> b64decode (st_fingerprint_hmac_key (sv_settings sv)) = Inr (va_fingerprint_key v) \<and> length (va_fingerprint_key v) = 32)
    \<and> (require_admin (sv_settings sv) tok = Inr () \<longleftrightarrow> tok = Some (st_admin_token (sv_settings sv)))
    \<and> ((\<forall>k\<in>set (sv_keys sv). ak_revoked_at k = None \<longrightarrow>
          parse_bearer (sv_ucd sv) (map_of (rq_headers rq) (str ''authorization'')) \<noteq> Some (made k)) \<longrightarrow>
       (\<exists>x. serve sv route rq (d, inst) = ([], x, d, inst)
          \<and> (x = JSON_Response 500 (plain_error (sv_exn_text sv invalid_api_key) None)
             \<or> x = JSON_Response 413 (plain_error (str ''request body too large'') (Some (str ''payload_too_large''))))))"
proof (intro conjI impI)
  let ?st = "sv_settings sv"
  have p: "runtime_problems ?st = []" using boot by (auto simp: create_app_def Let_def split: if_splits)
  then have fields: "(\<forall>(n, f)\<in>set key_fields. f ?st \<noteq> [])" and adm: "st_admin_token ?st \<noteq> []" and req: "st_require_api_key ?st"
    using no_problems_iff [OF prod] by simp_all
  have key: "\<exists>k. b64decode (f ?st) = Inr k \<and> key_bytes ?st n = Inr k \<and> length k = 32" if "map_of key_fields n = Some f" for n f
    using set_key [OF that _ ok] fields key_fields_cases [OF that] by blast
  have "map_of key_fields (str ''vault_master_key'') = Some st_vault_master_key"
    "map_of key_fields (str ''fingerprint_hmac_key'') = Some st_fingerprint_hmac_key" by (simp_all add: key_fields_def)
  from this [THEN key] show "\<exists>v. build_vault cr ?st = Inr v
      \<and> b64decode (st_vault_master_key ?st) = Inr (va_master_key v) \<and> length (va_master_key v) = 32
      \<and> b64decode (st_fingerprint_hmac_key ?st) = Inr (va_fingerprint_key v) \<and> length (va_fingerprint_key v) = 32"
    by (auto simp: build_vault_def)
  show "require_admin ?st tok = Inr () \<longleftrightarrow> tok = Some (st_admin_token ?st)" using adm by (simp add: require_admin_def)
  assume "\<forall>k\<in>set (sv_keys sv). ak_revoked_at k = None \<longrightarrow>
      parse_bearer (sv_ucd sv) (map_of (rq_headers rq) (str ''authorization'')) \<noteq> Some (made k)"
  then have "get_auth (sv_ucd sv) (sv_hasher sv) ?st (sv_keys sv) (sv_teams sv) (rq_headers rq) = Inl invalid_api_key"
    unfolding get_auth_def by (intro authenticate_refused [OF h req])
  then have "dependencies sv rq inst = Inl invalid_api_key" by (simp add: dependencies_def)
  then show "\<exists>x. serve sv route rq (d, inst) = ([], x, d, inst)
      \<and> (x = JSON_Response 500 (plain_error (sv_exn_text sv invalid_api_key) None)
         \<or> x = JSON_Response 413 (plain_error (str ''request body too large'') (Some (str ''payload_too_large''))))"
    by (auto simp: serve_def limit_body_size_def unhandled_def invalid_api_key_def split: option.split sum.split)
qed

section \<open>Witnesses\<close>

definition demo_connection :: "unit connection" where
  "demo_connection sql c = (if sql = str ''bad'' then Inl (RuntimeError []) else Inr (), c)"

definition demo_dir :: "sql_file list" where
  "demo_dir = [(str ''2.sql'', Inr (str ''good'')), (str ''1.sql'', Inr (str ''bad'')), (str ''README'', Inr (str ''x''))]"

lemma demo_files: "migration_files demo_dir = [(str ''1.sql'', Inr (str ''bad'')), (str ''2.sql'', Inr (str ''good''))]"
  by code_simp

lemma demo_stmts: "lock_stmt \<noteq> str ''bad'' \<and> unlock_stmt \<noteq> str ''bad''"
  by (simp add: lock_stmt_def unlock_stmt_def str_def)

lemma demo_migration: "apply_migrations (traced demo_connection) demo_dir ((), []) = (Inl (RuntimeError []), (), [lock_stmt, str ''bad'', unlock_stmt])"
  using demo_stmts by (simp add: apply_migrations_def demo_files traced_def demo_connection_def)

definition demo_service :: "token_record list service" where
  "demo_service =
     \<lparr>sv_ucd = ascii_ucd, sv_settings = prod_settings, sv_hasher = plain_hasher, sv_env = demo_env, sv_registry = [],
      sv_exn_text = (\<lambda>_. []), sv_pipeline = (\<lambda>_. john_pipeline), sv_keys = demo_keys, sv_teams = [], sv_policies = [], sv_commit = Inr\<rparr>"

lemma demo_create_app: "create_app ascii_ucd prod_settings (\<lambda>_. True) = Inr \<lparr>ap_cors_origins = cors_origin_list ascii_ucd prod_settings, ap_routers = ROUTERS\<rparr>"
proof -
  have "runtime_problems prod_settings = []"
    by (simp add: no_problems_iff prod_settings_def key_fields_def default_settings_def) (simp add: zero_key_def)
  then show ?thesis by (simp add: create_app_def)
qed

theorem production_fails_closed_witness:
  "\<exists>x. serve demo_service (str ''/v1/responses'') \<lparr>rq_headers = [(str ''authorization'', str ''Bearer rg-a'')], rq_body = Inl ValueError\<rparr>
         (([], 0, table_with genuine_event), []) = ([], x, ([], 0, table_with genuine_event), [])"
proof -
  let ?rq = "\<lparr>rq_headers = [(str ''authorization'', str ''Bearer rg-a'')], rq_body = Inl ValueError\<rparr>"
  have s: "sv_settings demo_service = prod_settings" "sv_hasher demo_service = plain_hasher" "sv_keys demo_service = demo_keys"
    by (simp_all add: demo_service_def)
  have "st_environment prod_settings = Prod" by (simp add: prod_settings_def)
  moreover have "\<forall>k\<in>set demo_keys. ak_revoked_at k = None \<longrightarrow>
      parse_bearer (sv_ucd demo_service) (map_of (rq_headers ?rq) (str ''authorization'')) \<noteq> Some (tl (ak_hash k))"
    by (simp add: demo_keys_def)
  ultimately show ?thesis
    using production_fails_closed [of ascii_ucd demo_service "\<lambda>_. True" _ "\<lambda>k. tl (ak_hash k)", unfolded s,
        OF demo_create_app _ prod_settings_accepted plain_hasher_ok demo_made] by blast
qed

end
