(* ===== verification/Regex_Cut.thy ===== *)
theory Regex_Cut
  imports Regex
begin

text \<open>
  A character that no class of a pattern accepts cuts a text: the pattern finds in the two
  sides what it finds in each alone (\<open>finditer_cut\<close>).
\<close>

section \<open>Patterns a character stops\<close>

primrec stops :: "ucd \<Rightarrow> nat \<Rightarrow> re \<Rightarrow> bool" where
  "stops u x Eps = True"
| "stops u x (Cls ci neg its) = (\<not> cls_in u ci neg its x)"
| "stops u x (Seq a b) = (stops u x a \<and> stops u x b)"
| "stops u x (Alt a b) = (stops u x a \<and> stops u x b)"
| "stops u x (Rep g a mn mx) = stops u x a"
| "stops u x (Grp n a) = stops u x a"
| "stops u x (Ahead p a) = stops u x a"
| "stops u x (Behind p a) = stops u x a"
| "stops u x Bos = False"
| "stops u x Eos = False"
| "stops u x WordB = False"

lemma opts_stuck: "filter (\<lambda>(j, _). i < j) (f i c) = [] \<Longrightarrow> opts f g k mx i c = [(i, c)]"
  by (cases k) simp_all

lemma opts_fuel:
  assumes f: "\<And>i c j c'. (j, c') \<in> set (f i c) \<Longrightarrow> i \<le> n \<Longrightarrow> i \<le> j \<and> j \<le> n"
  shows "i \<le> n \<Longrightarrow> n - i \<le> k \<Longrightarrow> n - i \<le> k' \<Longrightarrow> opts f g k mx i c = opts f g k' mx i c"
proof (induction k arbitrary: k' mx i c)
  case 0
  then have "filter (\<lambda>(j, _). i < j) (f i c) = []" using f by (fastforce simp: filter_empty_conv)
  then show ?case by (simp only: opts_stuck)
next
  case (Suc k)
  let ?fs = "filter (\<lambda>(j, _). i < j) (f i c)"
  show ?case
  proof (cases k')
    case 0
    then have "?fs = []" using f Suc.prems by (fastforce simp: filter_empty_conv)
    then show ?thesis by (simp only: opts_stuck)
  next
    case (Suc m)
    have "opts f g k mx' j c' = opts f g m mx' j c'" if "(j, c') \<in> set ?fs" for j c' mx'
      using that f [of j c' i c] Suc.prems \<open>k' = Suc m\<close> by (intro Suc.IH) auto
    then have "map (\<lambda>(j, c'). opts f g k (map_option (\<lambda>m. m - 1) mx) j c') ?fs =
        map (\<lambda>(j, c'). opts f g m (map_option (\<lambda>m. m - 1) mx) j c') ?fs"
      by (intro map_cong) auto
    then show ?thesis unfolding Suc opts.simps Let_def by (simp only:)
  qed
qed

lemma must_cong:
  assumes "\<And>i c. i \<le> n \<Longrightarrow> f i c = f' i c"
    and "\<And>i c j c'. (j, c') \<in> set (f i c) \<Longrightarrow> i \<le> n \<Longrightarrow> i \<le> j \<and> j \<le> n"
  shows "i \<le> n \<Longrightarrow> must f k i c = must f' k i c"
proof (induction k arbitrary: i c)
  case (Suc k)
  have "map (\<lambda>(j, c'). must f k j c') (f i c) = map (\<lambda>(j, c'). must f' k j c') (f i c)"
    using Suc.IH assms(2) Suc.prems by (intro map_cong) auto
  then show ?case unfolding must.simps assms(1) [OF Suc.prems, symmetric] by (simp only:)
qed simp

lemma opts_cong:
  assumes "\<And>i c. i \<le> n \<Longrightarrow> f i c = f' i c"
    and "\<And>i c j c'. (j, c') \<in> set (f i c) \<Longrightarrow> i \<le> n \<Longrightarrow> i \<le> j \<and> j \<le> n"
  shows "i \<le> n \<Longrightarrow> opts f g k mx i c = opts f' g k mx i c"
proof (induction k arbitrary: mx i c)
  case (Suc k)
  let ?fs = "filter (\<lambda>(j, _). i < j) (f i c)"
  have "map (\<lambda>(j, c'). opts f g k mx' j c') ?fs = map (\<lambda>(j, c'). opts f' g k mx' j c') ?fs" for mx'
    using Suc.IH assms(2) Suc.prems by (intro map_cong) auto
  then show ?case unfolding opts.simps Let_def assms(1) [OF Suc.prems, symmetric] by (simp only:)
qed simp

section \<open>To the left of the cut\<close>

lemma ms_left:
  "stops u x r \<Longrightarrow> i \<le> length a \<Longrightarrow> ms u (a @ x # b) r i c = ms u a r i c"
proof (induction r arbitrary: i c)
  case (Cls ci neg its)
  then show ?case by (cases "i = length a") (auto simp: nth_append)
next
  case (Seq r1 r2)
  have "ms u (a @ x # b) r2 j c' = ms u a r2 j c'" if "(j, c') \<in> set (ms u a r1 i c)" for j c'
    using that ms_bounds [OF that Seq.prems(2)] Seq.prems(1) by (intro Seq.IH(2)) auto
  then have "map (\<lambda>(j, c'). ms u (a @ x # b) r2 j c') (ms u a r1 i c) = map (\<lambda>(j, c'). ms u a r2 j c') (ms u a r1 i c)"
    by (intro map_cong) auto
  moreover have "ms u (a @ x # b) r1 i c = ms u a r1 i c" using Seq.IH(1) Seq.prems by simp
  ultimately show ?case by (simp only: ms.simps)
next
  case (Rep g r mn mx)
  let ?f = "ms u a r" and ?f' = "ms u (a @ x # b) r" and ?mx = "map_option (\<lambda>m. m - mn) mx"
  have f: "i \<le> length a \<Longrightarrow> ?f i c = ?f' i c" for i c
    using Rep.IH Rep.prems(1) by simp
  have in_a: "(j, c') \<in> set (?f i c) \<Longrightarrow> i \<le> length a \<Longrightarrow> i \<le> j \<and> j \<le> length a" for i c j c'
    by (rule ms_bounds)
  have in_f': "(j, c') \<in> set (?f' i c) \<Longrightarrow> i \<le> length a \<Longrightarrow> i \<le> j \<and> j \<le> length a" for i c j c'
    unfolding f [of i c, symmetric] by (rule in_a)
  have o: "opts ?f' g (length (a @ x # b) - j) ?mx j c' = opts ?f g (length a - j) ?mx j c'" if "(j, c') \<in> set (must ?f mn i c)" for j c'
  proof -
    have j: "j \<le> length a" using must_bounds [OF in_a that Rep.prems(2)] by simp
    have "opts ?f' g (length (a @ x # b) - j) ?mx j c' = opts ?f' g (length a - j) ?mx j c'"
      by (rule opts_fuel [OF in_f' j]) (use j in simp_all)
    also have "\<dots> = opts ?f g (length a - j) ?mx j c'"
      by (rule opts_cong [OF f in_a j, symmetric])
    finally show ?thesis .
  qed
  have "must ?f' mn i c = must ?f mn i c" by (rule must_cong [OF f in_a Rep.prems(2), symmetric])
  moreover have "map (\<lambda>(j, c'). opts ?f' g (length (a @ x # b) - j) ?mx j c') (must ?f mn i c) =
      map (\<lambda>(j, c'). opts ?f g (length a - j) ?mx j c') (must ?f mn i c)"
    using o by (intro map_cong) auto
  ultimately show ?case by (simp only: ms.simps)
qed simp_all

section \<open>To the right of the cut\<close>

abbreviation sh_caps :: "nat \<Rightarrow> caps \<Rightarrow> caps" where
  "sh_caps d \<equiv> map (\<lambda>(n, i, j). (n, i + d, j + d))"

abbreviation sh_ends :: "nat \<Rightarrow> (nat \<times> caps) list \<Rightarrow> (nat \<times> caps) list" where
  "sh_ends d \<equiv> map (\<lambda>(j, c). (j + d, sh_caps d c))"

lemma concat_sh:
  assumes "\<And>j c. (j, c) \<in> set xs \<Longrightarrow> f (j + d) (sh_caps d c) = sh_ends d (f' j c)"
  shows "concat (map (\<lambda>(j, c). f j c) (sh_ends d xs)) = sh_ends d (concat (map (\<lambda>(j, c). f' j c) xs))"
  using assms by (induction xs) (auto split: prod.split)

lemma must_sh:
  assumes "\<And>i c. f (i + d) (sh_caps d c) = sh_ends d (f' i c)"
  shows "must f k (i + d) (sh_caps d c) = sh_ends d (must f' k i c)"
proof (induction k arbitrary: i c)
  case (Suc k)
  show ?case unfolding must.simps assms by (rule concat_sh) (rule Suc.IH)
qed simp

lemma filter_sh: "filter (\<lambda>(j, _). i + d < j) (sh_ends d xs) = sh_ends d (filter (\<lambda>(j, _). i < j) xs)"
  by (induction xs) auto

lemma opts_sh:
  assumes "\<And>i c. f (i + d) (sh_caps d c) = sh_ends d (f' i c)"
  shows "opts f g k mx (i + d) (sh_caps d c) = sh_ends d (opts f' g k mx i c)"
proof (induction k arbitrary: mx i c)
  case (Suc k)
  have "concat (map (\<lambda>(j, c'). opts f g k mx' j c') (sh_ends d fs)) = sh_ends d (concat (map (\<lambda>(j, c'). opts f' g k mx' j c') fs))"
    for mx' fs by (rule concat_sh) (rule Suc.IH)
  then show ?case unfolding opts.simps Let_def assms filter_sh by (simp only: list.map map_append prod.case if_distrib [of "sh_ends d"])
qed simp

lemma ms_right:
  "stops u x r \<Longrightarrow> ms u (a @ x # b) r (i + Suc (length a)) (sh_caps (Suc (length a)) c) = sh_ends (Suc (length a)) (ms u b r i c)"
proof (induction r arbitrary: i c)
  case (Cls ci neg its)
  have "(a @ x # b) ! (i + Suc (length a)) = b ! i" by (simp add: nth_append)
  then show ?case by simp
next
  case (Seq r1 r2)
  have "concat (map (\<lambda>(j, c'). ms u (a @ x # b) r2 j c') (sh_ends (Suc (length a)) xs)) =
      sh_ends (Suc (length a)) (concat (map (\<lambda>(j, c'). ms u b r2 j c') xs))" for xs
    using Seq by (intro concat_sh) simp
  then show ?case using Seq by simp
next
  case (Rep g r mn mx)
  have f: "ms u (a @ x # b) r (i + Suc (length a)) (sh_caps (Suc (length a)) c) = sh_ends (Suc (length a)) (ms u b r i c)" for i c
    using Rep by simp
  note must = must_sh [where f = "ms u (a @ x # b) r" and f' = "ms u b r" and d = "Suc (length a)", OF f]
  note opts = opts_sh [where f = "ms u (a @ x # b) r" and f' = "ms u b r" and d = "Suc (length a)", OF f]
  have len: "length (a @ x # b) - (j + Suc (length a)) = length b - j" for j by simp
  show ?case unfolding ms.simps must by (rule concat_sh) (simp only: opts len)
next
  case (Ahead p r)
  then have "ms u (a @ x # b) r (i + Suc (length a)) (sh_caps (Suc (length a)) c) = sh_ends (Suc (length a)) (ms u b r i c)" by simp
  then show ?case by (auto split: list.splits)
next
  case (Behind p r)
  let ?t = "a @ x # b" and ?d = "Suc (length a)"
  have "(\<exists>m\<in>set (ms u ?t r (i + ?d - 1) (sh_caps ?d c)). fst m = i + ?d) \<longleftrightarrow> 0 < i \<and> (\<exists>m\<in>set (ms u b r (i - 1) c). fst m = i)"
  proof (cases i)
    case 0
    have "ms u ?t r (length a) (sh_caps ?d c) = ms u a r (length a) (sh_caps ?d c)"
      using Behind.prems by (intro ms_left) simp_all
    moreover have "fst m \<le> length a" if "m \<in> set (ms u a r (length a) (sh_caps ?d c))" for m
      using ms_bounds [of "fst m" "snd m" u a r "length a"] that by simp
    ultimately show ?thesis using 0 by fastforce
  next
    case (Suc k)
    have "ms u ?t r (k + ?d) (sh_caps ?d c) = sh_ends ?d (ms u b r k c)" using Behind by simp
    moreover have "(\<exists>m\<in>set (sh_ends ?d xs). fst m = i + ?d) \<longleftrightarrow> (\<exists>m\<in>set xs. fst m = i)" for xs
      by force
    ultimately show ?thesis unfolding Suc by simp
  qed
  then show ?case by simp
qed (auto split: prod.split)

section \<open>The matches of the two sides\<close>

definition advances :: "ucd \<Rightarrow> re \<Rightarrow> bool" where
  "advances u r \<longleftrightarrow> (\<forall>s i j c. i \<le> length s \<longrightarrow> (j, c) \<in> set (ms u s r i []) \<longrightarrow> i < j)"

definition sh_match :: "nat \<Rightarrow> rmatch \<Rightarrow> rmatch" where
  "sh_match d m = (case m of (i, j, c) \<Rightarrow> (i + d, j + d, sh_caps d c))"

lemma sh_match_ends [simp]: "m_start (sh_match d m) = m_start m + d" "m_end (sh_match d m) = m_end m + d"
  by (simp_all add: sh_match_def m_start_def m_end_def split: prod.split)

lemma match_left: "stops u x r \<Longrightarrow> i \<le> length a \<Longrightarrow> match_at u r (a @ x # b) i adv = match_at u r a i adv"
  by (simp add: match_at_def ms_left)

lemma match_right:
  assumes "stops u x r"
  shows "match_at u r (a @ x # b) (i + Suc (length a)) False = map_option (sh_match (Suc (length a))) (match_at u r b i False)"
  using ms_right [OF assms, of a b i "[]"] by (simp add: match_at_def sh_match_def split: list.split)

lemma match_at_bounds:
  assumes "advances u r" "i \<le> length s" "match_at u r s i False = Some m"
  shows "m_start m = i" "i < m_end m" "m_end m \<le> length s"
proof -
  obtain j c where m: "(j, c) \<in> set (ms u s r i [])" "m = (i, j, c)"
    using assms(3) by (auto simp: match_at_def split: list.splits)
  then show "m_start m = i" "i < m_end m" "m_end m \<le> length s"
    using assms(1) [unfolded advances_def, rule_format, OF assms(2) m(1)] ms_bounds [OF m(1) assms(2)]
    by (simp_all add: m_start_def m_end_def)
qed

definition next_match :: "ucd \<Rightarrow> re \<Rightarrow> pystr \<Rightarrow> nat \<Rightarrow> rmatch option" where
  "next_match u r s i = search_from u r s (Suc (length s) - i) i False"

lemma next_match_rec: "i \<le> length s \<Longrightarrow> next_match u r s i =
    (case match_at u r s i False of Some m \<Rightarrow> Some m | None \<Rightarrow> next_match u r s (Suc i))"
  by (simp add: next_match_def Suc_diff_le split: option.split)

lemma next_match_end: "length s < i \<Longrightarrow> next_match u r s i = None"
  by (simp add: next_match_def)

lemma next_match_bounds:
  assumes "advances u r"
  shows "next_match u r s i = Some m \<Longrightarrow> i \<le> m_start m \<and> m_start m < m_end m \<and> m_end m \<le> length s"
proof (induction "Suc (length s) - i" arbitrary: i)
  case 0
  then show ?case by (simp add: next_match_end)
next
  case (Suc k)
  then have i: "i \<le> length s" "k = Suc (length s) - Suc i" by auto
  show ?case
  proof (cases "match_at u r s i False")
    case None
    then have "next_match u r s (Suc i) = Some m" using Suc.prems next_match_rec [OF i(1)] by simp
    then show ?thesis using Suc.hyps(1) [OF i(2)] by simp
  next
    case (Some m')
    then show ?thesis using Suc.prems next_match_rec [OF i(1), of u r] match_at_bounds [OF assms i(1) Some] by simp
  qed
qed

lemma next_match_right:
  assumes "stops u x r"
  shows "next_match u r (a @ x # b) (i + Suc (length a)) = map_option (sh_match (Suc (length a))) (next_match u r b i)"
proof (induction "Suc (length b) - i" arbitrary: i)
  case 0
  then show ?case by (simp add: next_match_end)
next
  case (Suc k)
  then have i: "i \<le> length b" "k = Suc (length b) - Suc i" by auto
  then have "i + Suc (length a) \<le> length (a @ x # b)" by simp
  from next_match_rec [OF this] next_match_rec [OF i(1)] Suc.hyps(1) [OF i(2)] match_right [OF assms, of a b i]
  show ?case by (simp split: option.split)
qed

lemma next_match_left:
  assumes "stops u x r"
  shows "i \<le> Suc (length a) \<Longrightarrow> next_match u r (a @ x # b) i =
    (case next_match u r a i of Some m \<Rightarrow> Some m | None \<Rightarrow> map_option (sh_match (Suc (length a))) (next_match u r b 0))"
proof (induction "Suc (length a) - i" arbitrary: i)
  case 0
  then have "i = Suc (length a)" by simp
  then show ?case using next_match_right [OF assms, of a b 0] by (simp add: next_match_end)
next
  case (Suc k)
  then have i: "i \<le> length a" "k = Suc (length a) - Suc i" by auto
  then have "i \<le> length (a @ x # b)" by simp
  from next_match_rec [OF this] next_match_rec [OF i(1)] Suc.hyps(1) [OF i(2)] match_left [OF assms i(1)] i(1)
  show ?case by (simp split: option.split)
qed

definition matches_from :: "ucd \<Rightarrow> re \<Rightarrow> pystr \<Rightarrow> nat \<Rightarrow> rmatch list" where
  "matches_from u r s i = find_from (Suc (length s - i)) u r s i False"

lemma find_fuel:
  assumes "advances u r"
  shows "i \<le> length s \<Longrightarrow> length s - i < n \<Longrightarrow> length s - i < n' \<Longrightarrow> find_from n u r s i False = find_from n' u r s i False"
proof (induction n arbitrary: n' i)
  case (Suc n)
  then obtain k where n': "n' = Suc k" by (cases n') auto
  show ?case
  proof (cases "next_match u r s i")
    case None
    then show ?thesis using n' by (simp add: next_match_def)
  next
    case (Some m)
    note m = next_match_bounds [OF assms Some]
    then have "find_from n u r s (m_end m) False = find_from k u r s (m_end m) False"
      using Suc.prems n' by (intro Suc.IH) auto
    then show ?thesis using n' m Some by (simp add: next_match_def)
  qed
qed simp

lemma matches_from_rec:
  assumes "advances u r" "i \<le> length s"
  shows "matches_from u r s i = (case next_match u r s i of None \<Rightarrow> [] | Some m \<Rightarrow> m # matches_from u r s (m_end m))"
proof (cases "next_match u r s i")
  case None
  then show ?thesis by (simp add: matches_from_def next_match_def)
next
  case (Some m)
  note m = next_match_bounds [OF assms(1) Some]
  have "find_from (length s - i) u r s (m_end m) False = find_from (Suc (length s - m_end m)) u r s (m_end m) False"
    using m by (intro find_fuel [OF assms(1)]) auto
  then show ?thesis using Some m by (simp add: matches_from_def next_match_def)
qed

lemma next_match_in: "next_match u r s i = Some m \<Longrightarrow> i \<le> length s \<Longrightarrow> snd m \<in> set (ms u s r (m_start m) [])"
proof (induction "Suc (length s) - i" arbitrary: i)
  case (Suc k)
  note step = next_match_rec [OF Suc.prems(2), of u r]
  show ?case
  proof (cases "match_at u r s i False")
    case None
    then have n: "next_match u r s (Suc i) = Some m" using Suc.prems step by simp
    then have "Suc i \<le> length s" using next_match_end [of s "Suc i" u r] by (cases "Suc i \<le> length s") auto
    then show ?thesis using Suc.hyps(2) by (intro Suc.hyps(1) [OF _ n]) auto
  next
    case (Some m')
    then have "m = m'" using Suc.prems step by simp
    then show ?thesis using Some by (auto simp: match_at_def m_start_def split: list.splits)
  qed
qed simp

lemma matches_from_in:
  assumes "advances u r"
  shows "i \<le> length s \<Longrightarrow> m \<in> set (matches_from u r s i) \<Longrightarrow> m_start m \<le> length s \<and> snd m \<in> set (ms u s r (m_start m) [])"
proof (induction "length s - i" arbitrary: i rule: less_induct)
  case less
  obtain m' where m': "next_match u r s i = Some m'" and m: "m = m' \<or> m \<in> set (matches_from u r s (m_end m'))"
    using less.prems matches_from_rec [OF assms less.prems(1)] by (cases "next_match u r s i") auto
  note b = next_match_bounds [OF assms m']
  show ?case
  proof (cases "m = m'")
    case True
    then show ?thesis using next_match_in [OF m' less.prems(1)] b by simp
  next
    case False
    then show ?thesis using m b less.prems by (intro less.hyps [of "m_end m'"]) auto
  qed
qed

lemma finditer_from: "advances u r \<Longrightarrow> finditer u r s = matches_from u r s 0"
  unfolding finditer_def matches_from_def by (rule find_fuel) simp_all

lemma matches_right:
  assumes "advances u r" "stops u x r"
  shows "i \<le> length b \<Longrightarrow> matches_from u r (a @ x # b) (i + Suc (length a)) = map (sh_match (Suc (length a))) (matches_from u r b i)"
proof (induction "length b - i" arbitrary: i rule: less_induct)
  case less
  have i: "i + Suc (length a) \<le> length (a @ x # b)" using less.prems by simp
  show ?case
  proof (cases "next_match u r b i")
    case None
    then show ?thesis
      using matches_from_rec [OF assms(1) i] matches_from_rec [OF assms(1) less.prems] next_match_right [OF assms(2), of a b i] by simp
  next
    case (Some m)
    note m = next_match_bounds [OF assms(1) Some]
    have "matches_from u r (a @ x # b) (m_end m + Suc (length a)) = map (sh_match (Suc (length a))) (matches_from u r b (m_end m))"
      using m less.prems by (intro less.hyps) auto
    then show ?thesis
      using matches_from_rec [OF assms(1) i] matches_from_rec [OF assms(1) less.prems] next_match_right [OF assms(2), of a b i] Some
      by simp
  qed
qed

lemma matches_left:
  assumes "advances u r" "stops u x r"
  shows "i \<le> length a \<Longrightarrow> matches_from u r (a @ x # b) i =
    matches_from u r a i @ map (sh_match (Suc (length a))) (matches_from u r b 0)"
proof (induction "length a - i" arbitrary: i rule: less_induct)
  case less
  have i: "i \<le> length (a @ x # b)" using less.prems by simp
  note recs = matches_from_rec [OF assms(1) i] matches_from_rec [OF assms(1) less.prems]
    next_match_left [OF assms(2) le_SucI [OF less.prems], of b]
  show ?case
  proof (cases "next_match u r a i")
    case None
    have right: "matches_from u r (a @ x # b) (m_end m + Suc (length a)) = map (sh_match (Suc (length a))) (matches_from u r b (m_end m))"
      if "next_match u r b 0 = Some m" for m
      using next_match_bounds [OF assms(1) that] by (intro matches_right [OF assms]) simp
    show ?thesis using right recs None matches_from_rec [OF assms(1), of 0 b] by (cases "next_match u r b 0") simp_all
  next
    case (Some m)
    note m = next_match_bounds [OF assms(1) Some]
    have "matches_from u r (a @ x # b) (m_end m) =
        matches_from u r a (m_end m) @ map (sh_match (Suc (length a))) (matches_from u r b 0)"
      using m less.prems by (intro less.hyps) auto
    then show ?thesis using recs Some by simp
  qed
qed

theorem finditer_cut:
  assumes "advances u r" "stops u x r"
  shows "finditer u r (a @ x # b) = finditer u r a @ map (sh_match (Suc (length a))) (finditer u r b)"
  unfolding finditer_from [OF assms(1)] by (rule matches_left [OF assms]) simp

end
