(* ===== verification/Cyrillic.thy ===== *)
theory Cyrillic
  imports Regex
begin

text \<open>
  Cyrillic text for the desktop application. Theories are ASCII, so \<open>cyr\<close> spells Ukrainian and
  Russian words in a one-to-one transliteration; \<open>cyr_ucd\<close> says what the code relies on about
  the Unicode data of these letters, and \<open>ms_agree\<close> that the matcher looks at nothing else.
\<close>

section \<open>Spelling\<close>

text \<open>
  \<open>h\<close> is the letter ghe and \<open>g\<close> ghe with upturn, \<open>y i 7 1\<close> are the letters i, Ukrainian i, yi and
  short i, \<open>e 3 0 2\<close> are ie, Ukrainian ie, io and e, \<open>x c 4 w 5\<close> are ha, tse, che, sha and shcha,
  \<open># 8\<close> the hard and the soft sign, \<open>6 9 q\<close> are yeru, yu and ya; the others are the Latin letters
  of the same sound. A caret, or an upper-case letter, gives the capital.
\<close>

definition cyr_letters :: "(nat \<times> nat) list" where
  "cyr_letters = zip (str ''abvhgdejzyi71klmnoprstufxc4w5#6829q03'')
     [1072, 1073, 1074, 1075, 1169, 1076, 1077, 1078, 1079, 1080, 1110, 1111, 1081, 1082, 1083, 1084, 1085, 1086, 1087,
      1088, 1089, 1090, 1091, 1092, 1093, 1094, 1095, 1096, 1097, 1098, 1099, 1100, 1101, 1102, 1103, 1105, 1108]"

definition cyr_upper :: "nat \<Rightarrow> nat" where
  "cyr_upper c = (if 1072 \<le> c \<and> c \<le> 1103 then c - 32 else if 1104 \<le> c \<and> c \<le> 1119 then c - 80 else if c = 1169 then 1168 else c)"

definition cyr_lower :: "nat \<Rightarrow> nat" where
  "cyr_lower c = (if 1040 \<le> c \<and> c \<le> 1071 then c + 32 else if 1024 \<le> c \<and> c \<le> 1039 then c + 80 else if c = 1168 then 1169 else c)"

definition cyr_low1 :: "nat \<Rightarrow> nat" where
  "cyr_low1 c = (case map_of cyr_letters c of Some x \<Rightarrow> x | None \<Rightarrow> c)"

definition cyr1 :: "nat \<Rightarrow> nat" where
  "cyr1 c = (if ascii_uppercase c then cyr_upper (cyr_low1 (c + 32)) else cyr_low1 c)"

fun cyr_codes :: "pystr \<Rightarrow> pystr" where
  "cyr_codes [] = []"
| "cyr_codes [c] = [cyr1 c]"
| "cyr_codes (c # d # cs) = (if c = 94 then cyr_upper (cyr_low1 d) # cyr_codes cs else cyr1 c # cyr_codes (d # cs))"

definition cyr :: "string \<Rightarrow> pystr" where
  "cyr s = cyr_codes (str s)"

lemmas cyr_letters_eval = cyr_letters_def [unfolded str_def, simplified]
lemmas cyr_eval = cyr_def str_def cyr1_def cyr_low1_def cyr_letters_eval cyr_upper_def ascii_uppercase_def

section \<open>The Unicode data of Cyrillic letters\<close>

definition cyr_letter :: "nat \<Rightarrow> bool" where
  "cyr_letter c \<longleftrightarrow> 1024 \<le> c \<and> c \<le> 1119 \<or> c = 1168 \<or> c = 1169"

definition dash :: "nat \<Rightarrow> bool" where
  "dash c \<longleftrightarrow> 8208 \<le> c \<and> c \<le> 8212"

text \<open>The characters the desktop patterns are about.\<close>

definition plain_char :: "nat \<Rightarrow> bool" where
  "plain_char c \<longleftrightarrow> c < 128 \<or> cyr_letter c \<or> dash c"

definition plain_lower :: "nat \<Rightarrow> nat" where
  "plain_lower c = (if c < 128 then ascii_lower c else cyr_lower c)"

definition ucd_cyr :: "ucd \<Rightarrow> bool" where
  "ucd_cyr u \<longleftrightarrow> ucd_ascii u
   \<and> (\<forall>c. cyr_letter c \<longrightarrow> u_decimal u c = None \<and> \<not> u_space u c \<and> u_alnum u c \<and> u_lower1 u c = cyr_lower c)
   \<and> (\<forall>c. dash c \<longrightarrow> u_decimal u c = None \<and> \<not> u_space u c \<and> \<not> u_alnum u c \<and> u_lower1 u c = c)
   \<and> (\<forall>c. plain_char c \<longrightarrow> (\<forall>x\<in>set (u_casefix u c). \<not> plain_char x))"

definition cyr_ucd :: ucd where
  "cyr_ucd = ascii_ucd\<lparr>u_alnum := \<lambda>c. ascii_digit c \<or> ascii_alpha c \<or> cyr_letter c,
     u_alpha := \<lambda>c. ascii_alpha c \<or> cyr_letter c, u_lower1 := plain_lower,
     u_lower := map plain_lower, u_fold := \<lambda>c. [plain_lower c]\<rparr>"

lemma plain_lower_plain: "plain_char c \<Longrightarrow> plain_char (plain_lower c)"
  by (auto simp: plain_char_def plain_lower_def cyr_letter_def dash_def cyr_lower_def ascii_lower_def ascii_uppercase_def)

lemma ucd_cyr_cyr_ucd: "ucd_cyr cyr_ucd"
  by (auto simp: ucd_cyr_def ucd_ascii_def cyr_ucd_def ascii_ucd_def plain_lower_def cyr_letter_def dash_def cyr_lower_def
      ascii_defs)

lemma ucd_cyr_plain:
  assumes "ucd_cyr u" "plain_char c"
  shows "u_lower1 u c = plain_lower c" "\<forall>x\<in>set (u_casefix u (plain_lower c)). \<not> plain_char x"
    "u_decimal u c = (if ascii_digit c then Some (c - 48) else None)" "u_space u c = ascii_space c"
    "word_char u c = (ascii_digit c \<or> ascii_alpha c \<or> cyr_letter c \<or> c = 95)"
proof -
  have a: "ucd_ascii u" using assms(1) by (simp add: ucd_cyr_def)
  have dg: "\<not> ascii_digit c" "\<not> ascii_space c" "\<not> ascii_alpha c" if "128 \<le> c" using that by (auto simp: ascii_defs)
  consider "c < 128" | "cyr_letter c" "128 \<le> c" | "dash c" "128 \<le> c"
    using assms(2) by (auto simp: plain_char_def cyr_letter_def dash_def)
  note cases = this
  show "u_lower1 u c = plain_lower c"
    by (cases rule: cases) (use assms(1) a in \<open>auto simp: ucd_cyr_def ucd_asciiD plain_lower_def cyr_lower_def dash_def\<close>)
  show "\<forall>x\<in>set (u_casefix u (plain_lower c)). \<not> plain_char x"
    using assms plain_lower_plain [OF assms(2)] unfolding ucd_cyr_def by blast
  show "u_decimal u c = (if ascii_digit c then Some (c - 48) else None)"
    by (cases rule: cases) (use assms(1) a dg in \<open>auto simp: ucd_cyr_def ucd_asciiD\<close>)
  show "u_space u c = ascii_space c"
    by (cases rule: cases) (use assms(1) a dg in \<open>auto simp: ucd_cyr_def ucd_asciiD\<close>)
  show "word_char u c = (ascii_digit c \<or> ascii_alpha c \<or> cyr_letter c \<or> c = 95)"
    by (cases rule: cases) (use assms(1) a dg in \<open>auto simp: ucd_cyr_def ucd_asciiD word_char_def cyr_letter_def dash_def\<close>)
qed

section \<open>The matcher on plain characters\<close>

fun plain_item :: "citem \<Rightarrow> bool" where
  "plain_item (CRange a b) = (\<forall>c\<in>{a..b}. plain_char c)"
| "plain_item _ = True"

primrec plain_re :: "re \<Rightarrow> bool" where
  "plain_re Eps = True"
| "plain_re (Cls ci neg its) = list_all plain_item its"
| "plain_re (Seq a b) = (plain_re a \<and> plain_re b)"
| "plain_re (Alt a b) = (plain_re a \<and> plain_re b)"
| "plain_re (Rep g a mn mx) = plain_re a"
| "plain_re (Grp n a) = plain_re a"
| "plain_re (Ahead p a) = plain_re a"
| "plain_re (Behind p a) = plain_re a"
| "plain_re Bos = True"
| "plain_re Eos = True"
| "plain_re WordB = False"

lemma plain_citem:
  assumes "ucd_cyr u" "plain_char c" "plain_item it"
  shows "citem_in u it c = citem_in cyr_ucd it c" "citem_in_ci u it c = citem_in_ci cyr_ucd it c"
proof -
  note pl = plain_lower_plain [OF assms(2)]
  have eq: "citem_in u it c = citem_in cyr_ucd it c" if "plain_char c" for c
    by (cases it) (simp_all add: ucd_cyr_plain [OF assms(1) that] ucd_cyr_plain [OF ucd_cyr_cyr_ucd that])
  show "citem_in u it c = citem_in cyr_ucd it c" by (rule eq [OF assms(2)])
  show "citem_in_ci u it c = citem_in_ci cyr_ucd it c"
  proof (cases it)
    case (CRange a b)
    have r: "citem_in_ci v (CRange a b) c \<longleftrightarrow> (\<exists>x\<in>{a..b}. plain_lower x = plain_lower c)" if v: "ucd_cyr v" for v
    proof -
      have "(let l = u_lower1 v x in u_lower1 v c = l \<or> u_lower1 v c \<in> set (u_casefix v l)) \<longleftrightarrow> plain_lower c = plain_lower x"
        if "x \<in> {a..b}" for x
      proof -
        have x: "plain_char x" using assms(3) CRange that by simp
        have "plain_lower c \<notin> set (u_casefix v (plain_lower x))" using ucd_cyr_plain(2) [OF v x] pl by blast
        then show ?thesis by (simp add: ucd_cyr_plain(1) [OF v x] ucd_cyr_plain(1) [OF v assms(2)])
      qed
      then show ?thesis unfolding citem_in_ci.simps list_ex_iff set_upt atLeastLessThanSuc_atLeastAtMost
        by (intro bex_cong) auto
    qed
    show ?thesis unfolding CRange r [OF assms(1)] r [OF ucd_cyr_cyr_ucd] ..
  qed (simp_all add: ucd_cyr_plain(1) [OF assms(1,2)] ucd_cyr_plain(1) [OF ucd_cyr_cyr_ucd assms(2)] eq [OF pl, simplified]
      ucd_cyr_plain(3,4,5) [OF assms(1) pl] ucd_cyr_plain(3,4,5) [OF ucd_cyr_cyr_ucd pl])
qed

lemma plain_cls:
  assumes "ucd_cyr u" "plain_char c" "list_all plain_item its"
  shows "cls_in u ci neg its c = cls_in cyr_ucd ci neg its c"
proof -
  have "list_ex (\<lambda>it. citem_in_ci u it c) its = list_ex (\<lambda>it. citem_in_ci cyr_ucd it c) its"
    "list_ex (\<lambda>it. citem_in u it c) its = list_ex (\<lambda>it. citem_in cyr_ucd it c) its"
    using assms(3) plain_citem [OF assms(1,2)] by (induction its) auto
  then show ?thesis by (simp add: cls_in_def)
qed

lemma ms_agree:
  assumes "ucd_cyr u" "\<forall>c\<in>set s. plain_char c"
  shows "plain_re r \<Longrightarrow> ms u s r = ms cyr_ucd s r"
proof (induction r)
  case (Cls ci neg its)
  then have "i < length s \<Longrightarrow> cls_in u ci neg its (s ! i) = cls_in cyr_ucd ci neg its (s ! i)" for i
    using assms by (intro plain_cls) simp_all
  then show ?case by (intro ext) auto
next
  case (Ahead p r)
  then have "ms u s r = ms cyr_ucd s r" by simp
  then show ?case by (simp only: ms.simps)
qed simp_all

end
