(* ===== verification/Labels.thy ===== *)
theory Labels
  imports Cyrillic Entities
begin

text \<open>
  \<open>app/desktop/labels.py\<close>: the readable labels of the desktop application, rendered in three
  languages and recognised in any of them, in any grammatical case and in capitals.
\<close>

section \<open>Tables\<close>

definition LANGS :: "pystr list" where
  "LANGS = [str ''uk'', str ''ru'', str ''en'']"

definition CATEGORY_OF :: "(pystr \<times> pystr) list" where
  "CATEGORY_OF = map (\<lambda>(a, b). (str a, str b))
     [(''PERSON'', ''PERSON''), (''ORG'', ''ORG''), (''IBAN'', ''ACCOUNT''), (''IBAN_UA'', ''ACCOUNT''), (''BANK_ACCOUNT'', ''ACCOUNT''),
      (''ACCOUNT'', ''ACCOUNT''), (''CREDIT_CARD'', ''CARD''), (''CARD'', ''CARD''), (''EDRPOU'', ''EDRPOU''), (''IPN'', ''IPN''),
      (''SIN'', ''SIN''), (''SSN'', ''SSN''), (''EIN'', ''EIN''), (''ITIN'', ''ITIN''), (''BUSINESS_NUMBER'', ''BN''), (''GST_HST'', ''BN''),
      (''NEQ'', ''BN''), (''BN'', ''BN''), (''VAT'', ''VAT''), (''UCI'', ''UCI''), (''PASSPORT'', ''PASSPORT''), (''ADDRESS'', ''ADDRESS''),
      (''LOCATION'', ''ADDRESS''), (''PHONE'', ''PHONE''), (''EMAIL'', ''EMAIL''), (''AMOUNT'', ''AMOUNT''), (''DATE_OF_BIRTH'', ''DOB''),
      (''DOB'', ''DOB''), (''IP_ADDRESS'', ''IP''), (''IP_ADDRESS_V6'', ''IP''), (''IP'', ''IP'')]"

definition word_row :: "string \<Rightarrow> pystr \<Rightarrow> pystr \<Rightarrow> string \<Rightarrow> pystr \<times> (pystr \<times> pystr) list" where
  "word_row cat uk ru en = (str cat, [(str ''uk'', uk), (str ''ru'', ru), (str ''en'', str en)])"

definition WORDS :: "(pystr \<times> (pystr \<times> pystr) list) list" where
  "WORDS =
     [word_row ''PERSON'' (cyr ''Fizosoba'') (cyr ''Fyzlyco'') ''Person'', word_row ''ORG'' (cyr ''^9rosoba'') (cyr ''^9rlyco'') ''Company'',
      word_row ''ACCOUNT'' (cyr ''Raxunok'') (cyr ''S40t'') ''Account'', word_row ''CARD'' (cyr ''Kartka'') (cyr ''Karta'') ''Card'',
      word_row ''EDRPOU'' (cyr ''^3DRPOU'') (cyr ''EHRPOU'') ''EDRPOU'', word_row ''IPN'' (cyr ''IPN'') (cyr ''YNN'') ''TaxID'',
      word_row ''SIN'' (str ''SIN'') (str ''SIN'') ''SIN'', word_row ''SSN'' (str ''SSN'') (str ''SSN'') ''SSN'',
      word_row ''EIN'' (str ''EIN'') (str ''EIN'') ''EIN'', word_row ''ITIN'' (str ''ITIN'') (str ''ITIN'') ''ITIN'',
      word_row ''BN'' (str ''BN'') (str ''BN'') ''BN'', word_row ''VAT'' (cyr ''PDV'') (cyr ''NDS'') ''VAT'',
      word_row ''UCI'' (str ''UCI'') (str ''UCI'') ''UCI'', word_row ''PASSPORT'' (cyr ''Pasport'') (cyr ''Pasport'') ''Passport'',
      word_row ''ADDRESS'' (cyr ''Adresa'') (cyr ''Adres'') ''Address'', word_row ''PHONE'' (cyr ''Telefon'') (cyr ''Telefon'') ''Phone'',
      word_row ''EMAIL'' (cyr ''Powta'') (cyr ''Po4ta'') ''Email'', word_row ''AMOUNT'' (cyr ''Suma'') (cyr ''Summa'') ''Amount'',
      word_row ''DOB'' (cyr ''DataNarodjennq'') (cyr ''DataRojdenyq'') ''BirthDate'', word_row ''IP'' (str ''IP'') (str ''IP'') ''IP'']"

definition ALL_CATEGORIES :: "pystr list" where
  "ALL_CATEGORIES = map fst WORDS"

definition DEFAULT_OFF :: "pystr list" where
  "DEFAULT_OFF = [str ''AMOUNT'']"

section \<open>Patterns\<close>

definition lit_ci :: "pystr \<Rightarrow> re" where
  "lit_ci s = seqs (map (\<lambda>c. Cls True False [CRange c c]) s)"

text \<open>\<open>\w{0,n}\<close> after a stem, and an optional ending.\<close>

definition inflected :: "pystr \<Rightarrow> nat \<Rightarrow> re" where
  "inflected s n = Seq (lit_ci s) (between (Cls True False [CWord]) 0 n)"

definition ended :: "pystr \<Rightarrow> pystr \<Rightarrow> re" where
  "ended s e = Seq (lit_ci s) (opt (lit_ci e))"

definition STEMS :: "(re \<times> pystr) list" where
  "STEMS =
     [(inflected (cyr ''Fizosob'') 3, str ''PERSON''), (inflected (cyr ''Fyzlyc'') 3, str ''PERSON''),
      (Seq (ended (str ''Person'') (str ''s'')) (opt (lit_ci [39, 115])), str ''PERSON''),
      (inflected (cyr ''^9rosob'') 3, str ''ORG''), (inflected (cyr ''^9rlyc'') 3, str ''ORG''),
      (Seq (lit_ci (str ''Compan'')) (Seq (Alt (lit_ci (str ''y'')) (lit_ci (str ''ies''))) (opt (lit_ci [39, 115]))), str ''ORG''),
      (inflected (cyr ''Raxun'') 3, str ''ACCOUNT''),
      (Seq (lit_ci (cyr ''S4'')) (Seq (Cls True False [CRange 1077 1077, CRange 1105 1105]) (inflected (cyr ''t'') 3)), str ''ACCOUNT''),
      (ended (str ''Account'') (str ''s''), str ''ACCOUNT''),
      (inflected (cyr ''Kart'') 4, str ''CARD''), (ended (str ''Card'') (str ''s''), str ''CARD''),
      (alts [lit_ci (cyr ''^3DRPOU''), lit_ci (cyr ''EHRPOU''), lit_ci (cyr ''EDRPOU''), lit_ci (str ''EDRPOU'')], str ''EDRPOU''),
      (alts [lit_ci (cyr ''IPN''), lit_ci (cyr ''YNN''), lit_ci (str ''TaxID'')], str ''IPN''),
      (lit_ci (str ''SIN''), str ''SIN''), (lit_ci (str ''SSN''), str ''SSN''), (lit_ci (str ''EIN''), str ''EIN''),
      (lit_ci (str ''ITIN''), str ''ITIN''), (lit_ci (str ''BN''), str ''BN''),
      (alts [lit_ci (cyr ''PDV''), lit_ci (cyr ''NDS''), lit_ci (str ''VAT'')], str ''VAT''), (lit_ci (str ''UCI''), str ''UCI''),
      (inflected (cyr ''Pasport'') 3, str ''PASSPORT''), (ended (str ''Passport'') (str ''s''), str ''PASSPORT''),
      (inflected (cyr ''Adres'') 3, str ''ADDRESS''), (ended (str ''Address'') (str ''es''), str ''ADDRESS''),
      (inflected (cyr ''Telefon'') 3, str ''PHONE''), (ended (str ''Phone'') (str ''s''), str ''PHONE''),
      (inflected (cyr ''Powt'') 3, str ''EMAIL''), (inflected (cyr ''Po4t'') 3, str ''EMAIL''),
      (Seq (lit_ci (str ''E'')) (Seq (opt (lit_ci [45])) (ended (str ''mail'') (str ''s''))), str ''EMAIL''),
      (inflected (cyr ''Sum'') 4, str ''AMOUNT''), (ended (str ''Amount'') (str ''s''), str ''AMOUNT''),
      (alts [inflected (cyr ''DataNarodj'') 4, inflected (cyr ''DataRojd'') 4,
             Seq (inflected (cyr ''Dat'') 2) (inflected (cyr ''Narodj'') 4), ended (str ''BirthDate'') (str ''s'')], str ''DOB''),
      (lit_ci (str ''IP''), str ''IP'')]"

definition HYPHEN :: "citem list" where
  "HYPHEN = [CRange 45 45, CRange 8208 8212]"

definition LABEL_RE :: re where
  "LABEL_RE = Seq (Behind False (Cls True False (CWord # HYPHEN)))
     (Seq (Grp (str ''stem'') (alts (map fst STEMS)))
     (Seq (Cls True False HYPHEN)
     (Seq (Grp (str ''n'') (between (Cls True False [CDigit]) 1 6))
       (Ahead False (Cls True False [CDigit, CWord])))))"

section \<open>The code\<close>

record label_hit =
  lh_start :: nat
  lh_end :: nat
  lh_category :: pystr
  lh_number :: nat
  lh_text :: pystr

definition category_for :: "ucd \<Rightarrow> pystr \<Rightarrow> pystr" where
  "category_for u entity_type =
     (case map_of CATEGORY_OF (py_upper u entity_type) of Some c \<Rightarrow> c | None \<Rightarrow> py_upper u entity_type)"

definition label_word :: "ucd \<Rightarrow> pystr \<Rightarrow> pystr \<Rightarrow> pystr" where
  "label_word u category lng =
     (case map_of WORDS category of
        None \<Rightarrow> u_title u category
      | Some ws \<Rightarrow> (case map_of ws lng of Some w \<Rightarrow> w | None \<Rightarrow> (case map_of ws (str ''en'') of Some w \<Rightarrow> w | None \<Rightarrow> [])))"

definition render_label :: "ucd \<Rightarrow> pystr \<Rightarrow> nat \<Rightarrow> pystr \<Rightarrow> pystr" where
  "render_label u category number lng = label_word u category lng @ [45] @ str_nat number"

fun first_stem :: "ucd \<Rightarrow> (re \<times> pystr) list \<Rightarrow> pystr \<Rightarrow> pystr option" where
  "first_stem u [] stem = None"
| "first_stem u ((s, cat) # stems) stem =
     (if re_match u (Seq Bos (Seq s Eos)) stem \<noteq> None then Some cat else first_stem u stems stem)"

definition stem_category :: "ucd \<Rightarrow> pystr \<Rightarrow> pystr option" where
  "stem_category u stem = first_stem u STEMS stem"

text \<open>\<open>int(m.group("n"))\<close>: the group holds decimal digits only, so \<open>int\<close> does not raise.\<close>

fun decimal_of :: "ucd \<Rightarrow> nat \<Rightarrow> pystr \<Rightarrow> nat" where
  "decimal_of u acc [] = acc"
| "decimal_of u acc (c # s) = decimal_of u (10 * acc + (case u_decimal u c of None \<Rightarrow> 0 | Some d \<Rightarrow> d)) s"

definition group_str :: "pystr \<Rightarrow> rmatch \<Rightarrow> pystr \<Rightarrow> pystr" where
  "group_str s m g = (case m_group s m g of None \<Rightarrow> [] | Some x \<Rightarrow> x)"

fun label_hits :: "ucd \<Rightarrow> pystr \<Rightarrow> rmatch list \<Rightarrow> label_hit list" where
  "label_hits u s [] = []"
| "label_hits u s (m # matches) =
     (case stem_category u (group_str s m (str ''stem'')) of
        None \<Rightarrow> label_hits u s matches
      | Some cat \<Rightarrow>
          \<lparr>lh_start = m_start m, lh_end = m_end m, lh_category = cat,
           lh_number = decimal_of u 0 (group_str s m (str ''n'')), lh_text = m_group0 s m\<rparr> # label_hits u s matches)"

definition find_labels :: "ucd \<Rightarrow> pystr \<Rightarrow> label_hit list" where
  "find_labels u s = label_hits u s (finditer u LABEL_RE s)"

definition is_label :: "ucd \<Rightarrow> pystr \<Rightarrow> bool" where
  "is_label u s =
     (case find_labels u (py_strip u s) of
        [h] \<Rightarrow> lh_start h = 0 \<and> lh_end h = length (py_strip u s)
      | _ \<Rightarrow> False)"

section \<open>Which stem a word has\<close>

text \<open>On plain characters case-insensitive matching compares the lower-cased characters.\<close>

abbreviation low :: "pystr \<Rightarrow> pystr" where "low \<equiv> map plain_lower"
abbreviation plain :: "pystr \<Rightarrow> bool" where "plain \<equiv> list_all plain_char"

definition plain_word :: "nat \<Rightarrow> bool" where
  "plain_word c \<longleftrightarrow> ascii_digit c \<or> ascii_alpha c \<or> cyr_letter c \<or> c = 95"

lemma cls_char:
  assumes "ucd_cyr u" "plain_char c" "plain_char x"
  shows "cls_in u True False [CRange x x] c \<longleftrightarrow> plain_lower c = plain_lower x"
proof -
  have "plain_lower c \<notin> set (u_casefix u (plain_lower x))"
    using ucd_cyr_plain(2) [OF assms(1,3)] plain_lower_plain [OF assms(2)] by blast
  then show ?thesis
    by (simp add: cls_in_def Let_def ucd_cyr_plain(1) [OF assms(1,2)] ucd_cyr_plain(1) [OF assms(1,3)])
qed

lemma cls_word:
  assumes "ucd_cyr u" "plain_char c"
  shows "cls_in u True False [CWord] c \<longleftrightarrow> plain_word (plain_lower c)"
  using ucd_cyr_plain(1) [OF assms] ucd_cyr_plain(5) [OF assms(1) plain_lower_plain [OF assms(2)]]
  by (simp add: cls_in_def plain_word_def)

fun strip_prefix :: "pystr \<Rightarrow> pystr \<Rightarrow> pystr option" where
  "strip_prefix [] s = Some s"
| "strip_prefix (x # w) [] = None"
| "strip_prefix (x # w) (c # s) = (if c = x then strip_prefix w s else None)"

lemma strip_prefix_iff: "strip_prefix w s = Some r \<longleftrightarrow> s = w @ r"
  by (induction w s rule: strip_prefix.induct) auto

lemma lang_seqs_Cons: "lang u (seqs (r # rs)) = {x @ y | x y. x \<in> lang u r \<and> y \<in> lang u (seqs rs)}"
  by (cases rs) auto

lemma lang_lit_Cons:
  "s \<in> lang u (lit_ci (x # w)) \<longleftrightarrow> (\<exists>c s'. s = c # s' \<and> cls_in u True False [CRange x x] c \<and> s' \<in> lang u (lit_ci w))"
proof -
  have "s \<in> {xs @ ys | xs ys. xs \<in> {[c] | c. P c} \<and> ys \<in> L} \<longleftrightarrow> (\<exists>c s'. s = c # s' \<and> P c \<and> s' \<in> L)" for P :: "nat \<Rightarrow> bool" and L
    by (auto intro: exI [of _ "[_]"])
  then show ?thesis unfolding lit_ci_def list.map lang_seqs_Cons lang.simps(2) .
qed

lemma lang_lit:
  assumes "ucd_cyr u" "plain s" "plain w"
  shows "s \<in> lang u (lit_ci w) \<longleftrightarrow> low s = low w"
  using assms(2,3)
proof (induction w arbitrary: s)
  case Nil
  then show ?case by (simp add: lit_ci_def)
next
  case (Cons x w)
  then show ?case using cls_char [OF assms(1), of _ x] by (cases s) (auto simp: lang_lit_Cons)
qed

lemma lang_lit_app:
  assumes u: "ucd_cyr u" and "plain s" "plain w"
  shows "s \<in> {x @ y | x y. x \<in> lang u (lit_ci w) \<and> y \<in> L} \<longleftrightarrow>
    (\<exists>x y. s = x @ y \<and> low x = low w \<and> y \<in> L)"
proof -
  have "x \<in> lang u (lit_ci w) \<longleftrightarrow> low x = low w" if "s = x @ y" for x y
    using that assms by (intro lang_lit) auto
  then show ?thesis by blast
qed

lemma split_low: "low s = w @ r \<longleftrightarrow> (\<exists>x y. s = x @ y \<and> low x = w \<and> low y = r)"
  by (auto simp: map_eq_append_conv)

definition is_stem :: "pystr \<Rightarrow> (pystr \<Rightarrow> bool) \<Rightarrow> pystr \<Rightarrow> bool" where
  "is_stem w P s = (case strip_prefix w s of None \<Rightarrow> False | Some r \<Rightarrow> P r)"

lemma is_stem_iff: "is_stem w P s \<longleftrightarrow> (\<exists>r. s = w @ r \<and> P r)"
  by (auto simp: is_stem_def split: option.split) (metis strip_prefix_iff option.distinct(1) option.inject)+

text \<open>A test on lower-cased words that decides the language of a pattern.\<close>

definition decides :: "ucd \<Rightarrow> re \<Rightarrow> (pystr \<Rightarrow> bool) \<Rightarrow> bool" where
  "decides u r P \<longleftrightarrow> (\<forall>s. plain s \<longrightarrow> (s \<in> lang u r \<longleftrightarrow> P (low s)))"

lemma decides_lit:
  assumes "ucd_cyr u" "plain w"
  shows "decides u (lit_ci w) ((=) (low w))"
  using lang_lit [OF assms(1) _ assms(2)] by (auto simp: decides_def)

lemma decides_app:
  assumes "ucd_cyr u" "plain w" "decides u r P"
  shows "decides u (Seq (lit_ci w) r) (is_stem (low w) P)"
  unfolding decides_def
proof (intro allI impI)
  fix s assume s: "plain s"
  have "y \<in> lang u r \<longleftrightarrow> P (low y)" if "s = x @ y" for x y
    using that s assms(3) by (simp add: decides_def)
  then show "s \<in> lang u (Seq (lit_ci w) r) \<longleftrightarrow> is_stem (low w) P (low s)"
    unfolding lang.simps lang_lit_app [OF assms(1) s assms(2)] is_stem_iff split_low by blast
qed

lemma decides_words:
  assumes "ucd_cyr u"
  shows "decides u (between (Cls True False [CWord]) 0 n) (\<lambda>r. length r \<le> n \<and> list_all plain_word r)"
proof -
  have "list_all (cls_in u True False [CWord]) s \<longleftrightarrow> list_all plain_word (low s)" if "plain s" for s
    using that cls_word [OF assms] by (induction s) auto
  then show ?thesis unfolding decides_def lang_Rep_class by auto
qed

lemma decides_opt:
  assumes "decides u r P" "\<not> P []"
  shows "decides u (opt r) (\<lambda>s. s = [] \<or> P s)"
proof -
  have "lang u (opt r) = insert [] (lang u r)"
  proof -
    have "{n. 0 \<le> n \<and> (\<forall>m. Some (1::nat) = Some m \<longrightarrow> n \<le> m)} = {0, Suc 0}" by auto
    then show ?thesis by simp
  qed
  then show ?thesis using assms(1) by (auto simp: decides_def)
qed

lemma decides_alt: "decides u a P \<Longrightarrow> decides u b Q \<Longrightarrow> decides u (Alt a b) (\<lambda>s. P s \<or> Q s)"
  by (simp add: decides_def)

lemma decides_seq:
  assumes "decides u a P" "decides u b Q"
  shows "decides u (Seq a b) (\<lambda>s. list_ex (\<lambda>k. P (take k s) \<and> Q (drop k s)) [0..<Suc (length s)])"
  unfolding decides_def
proof (intro allI impI)
  fix s assume s: "plain s"
  have "s \<in> lang u (Seq a b) \<longleftrightarrow> (\<exists>k\<le>length s. take k s \<in> lang u a \<and> drop k s \<in> lang u b)"
  proof
    assume "s \<in> lang u (Seq a b)"
    then obtain x y where "s = x @ y" "x \<in> lang u a" "y \<in> lang u b" by auto
    then show "\<exists>k\<le>length s. take k s \<in> lang u a \<and> drop k s \<in> lang u b" by (intro exI [of _ "length x"]) simp
  next
    assume "\<exists>k\<le>length s. take k s \<in> lang u a \<and> drop k s \<in> lang u b"
    then obtain k where "take k s \<in> lang u a" "drop k s \<in> lang u b" by blast
    then show "s \<in> lang u (Seq a b)" by (simp, intro exI [of _ "take k s"] exI [of _ "drop k s"]) simp
  qed
  moreover have "plain (take k s)" "plain (drop k s)" for k
    using s by (auto simp: list_all_iff dest: in_set_takeD in_set_dropD)
  ultimately show "s \<in> lang u (Seq a b) \<longleftrightarrow> list_ex (\<lambda>k. P (take k (low s)) \<and> Q (drop k (low s))) [0..<Suc (length (low s))]"
    using assms by (auto simp only: decides_def list_ex_iff take_map drop_map length_map set_upt atLeastLessThan_iff less_Suc_eq_le)
qed

definition words :: "nat \<Rightarrow> pystr \<Rightarrow> bool" where
  "words n r \<longleftrightarrow> length r \<le> n \<and> list_all plain_word r"
definition maybe :: "(pystr \<Rightarrow> bool) \<Rightarrow> pystr \<Rightarrow> bool" where
  "maybe P s \<longleftrightarrow> s = [] \<or> P s"
definition either :: "(pystr \<Rightarrow> bool) \<Rightarrow> (pystr \<Rightarrow> bool) \<Rightarrow> pystr \<Rightarrow> bool" where
  "either P Q s \<longleftrightarrow> P s \<or> Q s"
definition split_at :: "(pystr \<Rightarrow> bool) \<Rightarrow> (pystr \<Rightarrow> bool) \<Rightarrow> pystr \<Rightarrow> bool" where
  "split_at P Q s \<longleftrightarrow> list_ex (\<lambda>k. P (take k s) \<and> Q (drop k s)) [0..<Suc (length s)]"

text \<open>The stems as tests on lower-cased words.\<close>

definition STEM_TESTS :: "((pystr \<Rightarrow> bool) \<times> pystr) list" where
  "STEM_TESTS =
     [((is_stem (low (cyr ''Fizosob'')) (words 3)), str ''PERSON''),
      ((is_stem (low (cyr ''Fyzlyc'')) (words 3)), str ''PERSON''),
      ((split_at (is_stem (low (str ''Person'')) (maybe ((=) (low (str ''s''))))) (maybe ((=) (low [39, 115])))), str ''PERSON''),
      ((is_stem (low (cyr ''^9rosob'')) (words 3)), str ''ORG''),
      ((is_stem (low (cyr ''^9rlyc'')) (words 3)), str ''ORG''),
      ((is_stem (low (str ''Compan'')) (split_at (either ((=) (low (str ''y''))) ((=) (low (str ''ies'')))) (maybe ((=) (low [39, 115]))))), str ''ORG''),
      ((is_stem (low (cyr ''Raxun'')) (words 3)), str ''ACCOUNT''),
      ((is_stem (low (cyr ''S4'')) (split_at (either ((=) [1077]) ((=) [1105])) (is_stem (low (cyr ''t'')) (words 3)))), str ''ACCOUNT''),
      ((is_stem (low (str ''Account'')) (maybe ((=) (low (str ''s''))))), str ''ACCOUNT''),
      ((is_stem (low (cyr ''Kart'')) (words 4)), str ''CARD''),
      ((is_stem (low (str ''Card'')) (maybe ((=) (low (str ''s''))))), str ''CARD''),
      ((either ((=) (low (cyr ''^3DRPOU''))) (either ((=) (low (cyr ''EHRPOU''))) (either ((=) (low (cyr ''EDRPOU''))) ((=) (low (str ''EDRPOU'')))))), str ''EDRPOU''),
      ((either ((=) (low (cyr ''IPN''))) (either ((=) (low (cyr ''YNN''))) ((=) (low (str ''TaxID''))))), str ''IPN''),
      (((=) (low (str ''SIN''))), str ''SIN''),
      (((=) (low (str ''SSN''))), str ''SSN''),
      (((=) (low (str ''EIN''))), str ''EIN''),
      (((=) (low (str ''ITIN''))), str ''ITIN''),
      (((=) (low (str ''BN''))), str ''BN''),
      ((either ((=) (low (cyr ''PDV''))) (either ((=) (low (cyr ''NDS''))) ((=) (low (str ''VAT''))))), str ''VAT''),
      (((=) (low (str ''UCI''))), str ''UCI''),
      ((is_stem (low (cyr ''Pasport'')) (words 3)), str ''PASSPORT''),
      ((is_stem (low (str ''Passport'')) (maybe ((=) (low (str ''s''))))), str ''PASSPORT''),
      ((is_stem (low (cyr ''Adres'')) (words 3)), str ''ADDRESS''),
      ((is_stem (low (str ''Address'')) (maybe ((=) (low (str ''es''))))), str ''ADDRESS''),
      ((is_stem (low (cyr ''Telefon'')) (words 3)), str ''PHONE''),
      ((is_stem (low (str ''Phone'')) (maybe ((=) (low (str ''s''))))), str ''PHONE''),
      ((is_stem (low (cyr ''Powt'')) (words 3)), str ''EMAIL''),
      ((is_stem (low (cyr ''Po4t'')) (words 3)), str ''EMAIL''),
      ((is_stem (low (str ''E'')) (split_at (maybe ((=) (low [45]))) (is_stem (low (str ''mail'')) (maybe ((=) (low (str ''s''))))))), str ''EMAIL''),
      ((is_stem (low (cyr ''Sum'')) (words 4)), str ''AMOUNT''),
      ((is_stem (low (str ''Amount'')) (maybe ((=) (low (str ''s''))))), str ''AMOUNT''),
      ((either (is_stem (low (cyr ''DataNarodj'')) (words 4)) (either (is_stem (low (cyr ''DataRojd'')) (words 4)) (either (split_at (is_stem (low (cyr ''Dat'')) (words 2)) (is_stem (low (cyr ''Narodj'')) (words 4))) (is_stem (low (str ''BirthDate'')) (maybe ((=) (low (str ''s'')))))))), str ''DOB''),
      (((=) (low (str ''IP''))), str ''IP'')]"

lemma decides_cls:
  assumes "ucd_cyr u" "plain_char a" "plain_char b"
  shows "decides u (Cls True False [CRange a a, CRange b b]) (either ((=) [plain_lower a]) ((=) [plain_lower b]))"
proof -
  have "cls_in u True False [CRange a a, CRange b b] c \<longleftrightarrow> plain_lower c = plain_lower a \<or> plain_lower c = plain_lower b"
    if "plain_char c" for c
    using cls_char [OF assms(1) that assms(2)] cls_char [OF assms(1) that assms(3)] by (simp add: cls_in_def)
  then show ?thesis by (auto simp: decides_def either_def)
qed

lemma decides_forms:
  "ucd_cyr u \<Longrightarrow> decides u (between (Cls True False [CWord]) 0 n) (words n)"
  "decides u r P \<Longrightarrow> \<not> P [] \<Longrightarrow> decides u (opt r) (maybe P)"
  "decides u r P \<Longrightarrow> decides u r' Q \<Longrightarrow> decides u (Alt r r') (either P Q)"
  "decides u r P \<Longrightarrow> decides u r' Q \<Longrightarrow> decides u (Seq r r') (split_at P Q)"
  unfolding words_def maybe_def either_def split_at_def
  by (rule decides_words decides_opt decides_alt decides_seq; assumption)+

lemma decides_inflected: "ucd_cyr u \<Longrightarrow> plain w \<Longrightarrow> decides u (inflected w n) (is_stem (low w) (words n))"
  unfolding inflected_def by (intro decides_app decides_forms)

lemma decides_ended: "ucd_cyr u \<Longrightarrow> plain w \<Longrightarrow> plain e \<Longrightarrow> low e \<noteq> [] \<Longrightarrow>
    decides u (ended w e) (is_stem (low w) (maybe ((=) (low e))))"
  unfolding ended_def by (intro decides_app decides_forms decides_lit) auto

lemma local_seqs [simp]: "list_all local_re rs \<Longrightarrow> local_re (seqs rs)" "list_all no_groups rs \<Longrightarrow> no_groups (seqs rs)"
  by (induction rs rule: seqs.induct) simp_all

lemma local_lit [simp]: "local_re (lit_ci w)" "no_groups (lit_ci w)"
  by (simp_all add: lit_ci_def list_all_iff)

lemmas plain_eval = cyr_eval plain_char_def cyr_letter_def dash_def

lemma decides_yo: "ucd_cyr u \<Longrightarrow> decides u (Cls True False [CRange 1077 1077, CRange 1105 1105]) (either ((=) [1077]) ((=) [1105]))"
  using decides_cls [of u 1077 1105] by (simp add: plain_char_def cyr_letter_def plain_lower_def cyr_lower_def)

lemma stems_decided:
  assumes "ucd_cyr u"
  shows "list_all2 (\<lambda>(r, c) (P, c'). c = c' \<and> decides u r P) STEMS STEM_TESTS"
  unfolding STEMS_def STEM_TESTS_def alts.simps
  by (simp only: list_all2_Cons list_all2_Nil prod.case simp_thms, intro conjI)
    (rule decides_inflected decides_ended decides_app decides_forms decides_lit decides_yo assms | simp add: plain_eval; fail)+

lemma stems_local: "list_all (\<lambda>(r, c). local_re r \<and> no_groups r) STEMS"
  by (simp add: STEMS_def inflected_def ended_def)

lemma stem_match:
  assumes "local_re r" "10 \<notin> set s"
  shows "re_match u (Seq Bos (Seq r Eos)) s \<noteq> None \<longleftrightarrow> s \<in> lang u r"
proof -
  have "(\<exists>j c'. (j, c') \<in> set (ms u s (Seq Bos (Seq r Eos)) 0 [])) \<longleftrightarrow> (\<exists>j c'. (j, c') \<in> set (ms u s r 0 []) \<and> j = length s)"
  proof -
    have e: "Suc m = length s \<Longrightarrow> s ! m \<noteq> 10" for m
      using assms(2) by (metis lessI nth_mem)
    show ?thesis using e unfolding in_ms_Seq in_ms_anchor by blast
  qed
  also have "\<dots> \<longleftrightarrow> ends_in s (lang u r) 0 (length s)"
    using readsD [OF ms_lang [OF assms(1), of s u], of 0 "length s" "[]"] by auto
  also have "\<dots> \<longleftrightarrow> s \<in> lang u r" by (simp add: ends_in_def)
  finally have "s \<in> lang u r \<longleftrightarrow> (\<exists>x. x \<in> set (ms u s (Seq Bos (Seq r Eos)) 0 []))" by (simp only: split_paired_Ex)
  then have "s \<in> lang u r \<longleftrightarrow> ms u s (Seq Bos (Seq r Eos)) 0 [] \<noteq> []" by (simp only: ex_in_conv set_empty simp_thms)
  moreover have "match_at u r' s 0 False \<noteq> None \<longleftrightarrow> ms u s r' 0 [] \<noteq> []" for r'
    by (simp add: match_at_def split: list.split)
  ultimately show ?thesis by (simp only: re_match_def)
qed

fun first_test :: "((pystr \<Rightarrow> bool) \<times> pystr) list \<Rightarrow> pystr \<Rightarrow> pystr option" where
  "first_test [] s = None"
| "first_test ((P, cat) # ts) s = (if P s then Some cat else first_test ts s)"

lemma first_stem_test:
  assumes "list_all2 (\<lambda>(r, c) (P, c'). c = c' \<and> decides u r P) rs ts" "list_all (\<lambda>(r, c). local_re r \<and> no_groups r) rs"
    "plain s" "10 \<notin> set s"
  shows "first_stem u rs s = first_test ts (low s)"
  using assms(1,2)
proof (induction rule: list_all2_induct)
  case (Cons x rs y ts)
  obtain r c P c' where xy: "x = (r, c)" "y = (P, c')" by (cases x, cases y)
  then have "re_match u (Seq Bos (Seq r Eos)) s \<noteq> None \<longleftrightarrow> P (low s)"
    using Cons.hyps Cons.prems stem_match [OF _ assms(4), of r u] assms(3) by (simp add: decides_def)
  then show ?case using Cons xy by simp
qed simp

lemma stem_category_test:
  "ucd_cyr u \<Longrightarrow> plain s \<Longrightarrow> 10 \<notin> set s \<Longrightarrow> stem_category u s = first_test STEM_TESTS (low s)"
  unfolding stem_category_def by (rule first_stem_test [OF stems_decided stems_local])


text \<open>Every word of the table is recognised as its own category.\<close>

lemmas plain_lower_eval = plain_lower_def cyr_lower_def ascii_lower_def ascii_uppercase_def
lemmas cyr1_eval = cyr1_def cyr_low1_def cyr_letters_eval cyr_upper_def ascii_uppercase_def
lemmas stem_tests_eval = STEM_TESTS_def [unfolded cyr_def str_def, simplified, unfolded cyr1_eval, simplified,
  unfolded plain_lower_eval, simplified]
lemmas first_test_stems = arg_cong [OF stem_tests_eval, of "\<lambda>ts. first_test ts s" for s, unfolded first_test.simps]
lemmas word_tests = is_stem_def words_def maybe_def either_def split_at_def plain_word_def ascii_defs cyr_letter_def

lemma words_recognised: "list_all (\<lambda>(cat, ws). list_all (\<lambda>(lng, w). first_test STEM_TESTS (low w) = Some cat) ws) WORDS"
  unfolding WORDS_def word_row_def
  apply (simp only: list.pred_inject prod.case simp_thms)
  apply (intro conjI)
  apply (simp add: cyr_eval plain_lower_eval)
  apply (simp add: first_test_stems word_tests str_def split del: if_split)
  apply (simp add: cyr_eval plain_lower_eval)
  apply (simp add: first_test_stems word_tests str_def split del: if_split)
  apply (simp add: cyr_eval plain_lower_eval str_def first_test_stems word_tests split del: if_split; fail)+
  done
lemma words_letters:
  "list_all (\<lambda>(cat, ws). list_all (\<lambda>(lng, w). list_all (\<lambda>c. ascii_alpha c \<or> cyr_letter c) w) ws) WORDS"
  by (simp add: WORDS_def word_row_def cyr_eval ascii_defs cyr_letter_def)

end
