(* ===== verification/Label_Match.thy ===== *)
theory Label_Match
  imports Regex_Cut Labels
begin

text \<open>
  Where \<open>find_labels\<close> finds labels: \<open>label_match\<close> says what a match looks like, \<open>find_labels_cut\<close>
  that a character no label contains separates the labels of a text, and \<open>find_labels_one\<close> that a
  rendered label is found whole.
\<close>

section \<open>Where labels match\<close>

definition STEM_RE :: re where
  "STEM_RE = alts (map fst STEMS)"

lemma stem_re: "local_re STEM_RE" "no_groups STEM_RE"
proof -
  have "local_re (alts rs) \<and> no_groups (alts rs)" if "list_all (\<lambda>r. local_re r \<and> no_groups r) rs" for rs
    using that by (induction rs rule: alts.induct) simp_all
  moreover have "list_all (\<lambda>r. local_re r \<and> no_groups r) (map fst STEMS)"
    using stems_local by (simp add: list_all_iff case_prod_beta)
  ultimately show "local_re STEM_RE" "no_groups STEM_RE" unfolding STEM_RE_def by blast+
qed

lemma in_alts: "s \<in> lang u (alts rs) \<longleftrightarrow> (\<exists>r\<in>set rs. s \<in> lang u r)"
  by (induction rs rule: alts.induct) (auto simp: cls_in_def)

definition glued :: "ucd \<Rightarrow> nat \<Rightarrow> bool" where
  "glued u c = cls_in u True False (CWord # HYPHEN) c"
definition is_hyphen :: "ucd \<Rightarrow> nat \<Rightarrow> bool" where
  "is_hyphen u c = cls_in u True False HYPHEN c"
definition ci_digit :: "ucd \<Rightarrow> nat \<Rightarrow> bool" where
  "ci_digit u c = cls_in u True False [CDigit] c"
definition digit_or_word :: "ucd \<Rightarrow> nat \<Rightarrow> bool" where
  "digit_or_word u c = cls_in u True False [CDigit, CWord] c"

definition label_at :: "ucd \<Rightarrow> pystr \<Rightarrow> nat \<Rightarrow> nat \<Rightarrow> nat \<Rightarrow> bool" where
  "label_at u s i k j \<longleftrightarrow> (0 < i \<longrightarrow> \<not> glued u (s ! (i - 1))) \<and> i \<le> k \<and> slice s i k \<in> lang u STEM_RE \<and>
     is_hyphen u (s ! k) \<and> Suc k < j \<and> j \<le> 7 + k \<and> j \<le> length s \<and> list_all (ci_digit u) (slice s (Suc k) j) \<and>
     (j < length s \<longrightarrow> \<not> digit_or_word u (s ! j))"

definition label_caps :: "nat \<Rightarrow> nat \<Rightarrow> nat \<Rightarrow> caps" where
  "label_caps i k j = [(str ''n'', Suc k, j), (str ''stem'', i, k)]"

lemma in_ms_local:
  assumes "local_re r" "no_groups r" "i \<le> length s"
  shows "(j, c') \<in> set (ms u s r i c) \<longleftrightarrow> c' = c \<and> ends_in s (lang u r) i j"
  using readsD [OF ms_lang [OF assms(1), of s u] assms(3), of j c] ms_no_groups [OF assms(2)] by blast

lemma in_ms_digits:
  assumes "i \<le> length s"
  shows "(j, c') \<in> set (ms u s (between (Cls True False [CDigit]) 1 6) i c) \<longleftrightarrow>
    c' = c \<and> i < j \<and> j \<le> 6 + i \<and> j \<le> length s \<and> list_all (ci_digit u) (slice s i j)"
proof -
  have "ends_in s (lang u (between (Cls True False [CDigit]) 1 6)) i j \<longleftrightarrow>
      i < j \<and> j \<le> 6 + i \<and> j \<le> length s \<and> list_all (ci_digit u) (slice s i j)"
    unfolding lang_Rep_class ends_in_def ci_digit_def [abs_def] by auto
  then show ?thesis using assms by (subst in_ms_local) auto
qed

lemma in_ms_cls: "(j, c') \<in> set (ms u s (Cls ci neg its) i c) \<longleftrightarrow> j = Suc i \<and> c' = c \<and> i < length s \<and> cls_in u ci neg its (s ! i)"
  by auto

lemma in_ms_not_ahead: "(j, c') \<in> set (ms u s (Ahead False (Cls ci neg its)) i c) \<longleftrightarrow>
    j = i \<and> c' = c \<and> \<not> (i < length s \<and> cls_in u ci neg its (s ! i))"
  by auto

lemma in_ms_not_behind: "(j, c') \<in> set (ms u s (Behind False (Cls ci neg its)) i c) \<longleftrightarrow>
    j = i \<and> c' = c \<and> \<not> (0 < i \<and> i - 1 < length s \<and> cls_in u ci neg its (s ! (i - 1)))"
  by auto

lemma label_match:
  assumes "i \<le> length s"
  shows "(j, c') \<in> set (ms u s LABEL_RE i []) \<longleftrightarrow> (\<exists>k. label_at u s i k j \<and> c' = label_caps i k j)"
proof -
  have b: "(m, c1) \<in> set (ms u s (Behind False (Cls True False (CWord # HYPHEN))) i []) \<longleftrightarrow>
      m = i \<and> c1 = [] \<and> (0 < i \<longrightarrow> \<not> glued u (s ! (i - 1)))" for m c1
    unfolding in_ms_not_behind glued_def using assms by auto
  have "(j, c') \<in> set (ms u s LABEL_RE i []) \<longleftrightarrow> (0 < i \<longrightarrow> \<not> glued u (s ! (i - 1))) \<and>
     (\<exists>k. ends_in s (lang u STEM_RE) i k \<and> k < length s \<and> is_hyphen u (s ! k) \<and>
        (\<exists>m c2. (m, c2) \<in> set (ms u s (between (Cls True False [CDigit]) 1 6) (Suc k) [(str ''stem'', i, k)]) \<and>
           j = m \<and> c' = (str ''n'', Suc k, m) # c2 \<and> \<not> (m < length s \<and> digit_or_word u (s ! m))))"
    unfolding LABEL_RE_def STEM_RE_def [symmetric] in_ms_Seq b in_ms_Grp in_ms_cls in_ms_not_ahead
      is_hyphen_def digit_or_word_def
    by (simp only: conj_assoc ex_simps simp_thms in_ms_local [OF stem_re assms]) blast
  also have "\<dots> \<longleftrightarrow> (\<exists>k. label_at u s i k j \<and> c' = label_caps i k j)"
  proof -
    have "k < length s \<Longrightarrow> (m, c2) \<in> set (ms u s (between (Cls True False [CDigit]) 1 6) (Suc k) c) \<longleftrightarrow>
      c2 = c \<and> Suc k < m \<and> m \<le> 7 + k \<and> m \<le> length s \<and> list_all (ci_digit u) (slice s (Suc k) m)" for k m c2 c
      using in_ms_digits [of "Suc k" s m c2 u c] by (auto simp del: ms.simps)
    then show ?thesis unfolding label_at_def label_caps_def ends_in_def by (auto simp del: ms.simps)
  qed
  finally show ?thesis .
qed

lemma labels_advance: "advances u LABEL_RE"
  unfolding advances_def by (auto simp: label_match label_at_def simp del: ms.simps)

section \<open>Characters that separate labels\<close>

text \<open>No stem holds the character, and it is no hyphen, digit or word character.\<close>

definition label_stop :: "ucd \<Rightarrow> nat \<Rightarrow> bool" where
  "label_stop u x \<longleftrightarrow> stops u x LABEL_RE"

lemma find_hits_cut:
  assumes "label_stop u x"
  shows "finditer u LABEL_RE (a @ x # b) = finditer u LABEL_RE a @ map (sh_match (Suc (length a))) (finditer u LABEL_RE b)"
  using finditer_cut [OF labels_advance] assms unfolding label_stop_def .

lemma label_hit_shape:
  assumes "m \<in> set (finditer u LABEL_RE s)"
  obtains k where "label_at u s (m_start m) k (m_end m)" "m = (m_start m, m_end m, label_caps (m_start m) k (m_end m))"
proof -
  have "m_start m \<le> length s" "(m_end m, snd (snd m)) \<in> set (ms u s LABEL_RE (m_start m) [])"
    using matches_from_in [OF labels_advance, of 0 s m u] assms finditer_from [OF labels_advance] by (auto simp: m_end_def)
  then obtain k where "label_at u s (m_start m) k (m_end m)" "snd (snd m) = label_caps (m_start m) k (m_end m)"
    using label_match by blast
  then show ?thesis using that [of k] by (simp add: m_start_def m_end_def prod_eq_iff)
qed

definition hit_of :: "ucd \<Rightarrow> pystr \<Rightarrow> rmatch \<Rightarrow> label_hit option" where
  "hit_of u s m = map_option (\<lambda>cat. \<lparr>lh_start = m_start m, lh_end = m_end m, lh_category = cat,
     lh_number = decimal_of u 0 (group_str s m (str ''n'')), lh_text = m_group0 s m\<rparr>)
     (stem_category u (group_str s m (str ''stem'')))"

lemma label_hits_filter: "label_hits u s matches = List.map_filter (hit_of u s) matches"
  by (induction matches) (simp_all add: hit_of_def map_filter_def split: option.split)

definition sh_hit :: "nat \<Rightarrow> label_hit \<Rightarrow> label_hit" where
  "sh_hit d h = h\<lparr>lh_start := lh_start h + d, lh_end := lh_end h + d\<rparr>"

lemma group_caps:
  "group_str s (i, j, label_caps i k j) (str ''stem'') = slice s i k"
  "group_str s (i, j, label_caps i k j) (str ''n'') = slice s (Suc k) j"
  by (simp_all add: group_str_def m_group_def m_span_def label_caps_def)

lemma hit_of_shape: "hit_of u s (i, j, label_caps i k j) =
    map_option (\<lambda>cat. \<lparr>lh_start = i, lh_end = j, lh_category = cat, lh_number = decimal_of u 0 (slice s (Suc k) j), lh_text = slice s i j\<rparr>)
      (stem_category u (slice s i k))"
  by (simp add: hit_of_def group_caps m_group0_def m_start_def m_end_def)

lemma hit_left:
  assumes "m \<in> set (finditer u LABEL_RE a)"
  shows "hit_of u (a @ b) m = hit_of u a m"
proof -
  from label_hit_shape [OF assms] obtain k where k: "label_at u a (m_start m) k (m_end m)"
    "m = (m_start m, m_end m, label_caps (m_start m) k (m_end m))" .
  then have "m_end m \<le> length a" "k \<le> length a" by (auto simp: label_at_def)
  then show ?thesis by (subst (1 2) k(2)) (simp add: hit_of_shape slice_append_left)
qed

lemma hit_right:
  assumes "m \<in> set (finditer u LABEL_RE b)"
  shows "hit_of u (a @ x # b) (sh_match (Suc (length a)) m) = map_option (sh_hit (Suc (length a))) (hit_of u b m)"
proof -
  obtain i k j where m: "m = (i, j, label_caps i k j)" using label_hit_shape [OF assms] by blast
  have sl: "slice (a @ x # b) (i + Suc (length a)) (j + Suc (length a)) = slice b i j" for i j
    by (simp add: slice_def)
  have "sh_match (Suc (length a)) m = (i + Suc (length a), j + Suc (length a),
      label_caps (i + Suc (length a)) (k + Suc (length a)) (j + Suc (length a)))"
    by (simp add: m sh_match_def label_caps_def)
  moreover have "Suc (k + Suc (length a)) = Suc k + Suc (length a)" by simp
  ultimately show ?thesis
    unfolding m by (simp only: hit_of_shape sl) (simp add: option.map_comp comp_def sh_hit_def)
qed

lemma map_filter_eq: "(\<And>x. x \<in> set xs \<Longrightarrow> f x = g x) \<Longrightarrow> List.map_filter f xs = List.map_filter g xs"
  by (induction xs) (simp_all add: map_filter_def)

lemma map_filter_map_option: "List.map_filter (\<lambda>x. map_option f (g x)) xs = map f (List.map_filter g xs)"
  by (induction xs) (auto simp: map_filter_def)

lemma find_labels_separated:
  assumes "label_stop u x"
  shows "find_labels u (a @ x # b) = find_labels u a @ map (sh_hit (Suc (length a))) (find_labels u b)"
proof -
  let ?d = "Suc (length a)"
  have "List.map_filter (hit_of u (a @ x # b)) (finditer u LABEL_RE a) = List.map_filter (hit_of u a) (finditer u LABEL_RE a)"
    by (intro map_filter_eq hit_left)
  moreover have "List.map_filter (\<lambda>m. hit_of u (a @ x # b) (sh_match ?d m)) (finditer u LABEL_RE b) =
      map (sh_hit ?d) (List.map_filter (hit_of u b) (finditer u LABEL_RE b))"
    unfolding map_filter_map_option [symmetric] by (intro map_filter_eq hit_right)
  moreover have "List.map_filter f (xs @ map g ys) = List.map_filter f xs @ List.map_filter (\<lambda>y. f (g y)) ys"
    for f :: "rmatch \<Rightarrow> label_hit option" and g and xs ys :: "rmatch list"
    by (simp add: map_filter_def filter_map comp_def)
  ultimately show ?thesis unfolding find_labels_def label_hits_filter find_hits_cut [OF assms] by (simp only:)
qed

section \<open>Which characters separate\<close>

definition lit_char :: "nat \<Rightarrow> bool" where
  "lit_char c \<longleftrightarrow> ascii_alpha c \<or> cyr_letter c \<or> c = 39 \<or> c = 45"

text \<open>A plain character that is neither a word character nor a hyphen or apostrophe.\<close>

definition separates :: "nat \<Rightarrow> bool" where
  "separates x \<longleftrightarrow> plain_char x \<and> \<not> plain_word x \<and> x \<noteq> 39 \<and> x \<noteq> 45 \<and> \<not> dash x"

lemma plain_lower_word: "plain_char c \<Longrightarrow> plain_word (plain_lower c) \<longleftrightarrow> plain_word c"
  by (auto simp: plain_word_def plain_lower_def cyr_lower_def cyr_letter_def ascii_lower_def ascii_defs)

lemma plain_lower_other: "plain_char c \<Longrightarrow> \<not> plain_word c \<Longrightarrow> plain_lower c = c"
  by (auto simp: plain_word_def plain_char_def plain_lower_def cyr_lower_def cyr_letter_def dash_def ascii_lower_def ascii_defs)

lemma lit_char_plain: "lit_char c \<Longrightarrow> plain_char c" "lit_char c \<Longrightarrow> plain_word c \<or> c = 39 \<or> c = 45"
  by (auto simp: lit_char_def plain_char_def plain_word_def ascii_defs)

lemma separates_lit: "separates x \<Longrightarrow> lit_char c \<Longrightarrow> plain_lower c \<noteq> plain_lower x"
  using plain_lower_other [of x] plain_lower_other [of c] plain_lower_word [of c] lit_char_plain [of c]
  unfolding separates_def by metis

lemma stops_seqs: "list_all (stops u x) rs \<Longrightarrow> stops u x (seqs rs)"
  by (induction rs rule: seqs.induct) simp_all

lemma stops_lit:
  assumes "ucd_cyr u" "separates x" "list_all lit_char w"
  shows "stops u x (lit_ci w)"
proof -
  have "\<not> cls_in u True False [CRange c c] x" if "c \<in> set w" for c
  proof -
    have c: "lit_char c" using that assms(3) by (simp add: list_all_iff)
    have "plain_char x" using assms(2) by (simp add: separates_def)
    then show ?thesis using cls_char [OF assms(1) _ lit_char_plain(1) [OF c]] separates_lit [OF assms(2) c] by simp
  qed
  then show ?thesis unfolding lit_ci_def by (intro stops_seqs) (simp add: list_all_iff)
qed

lemma hyphen_iff:
  assumes "ucd_cyr u" "plain_char x"
  shows "is_hyphen u x \<longleftrightarrow> x = 45 \<or> dash x"
proof -
  have "list_all plain_item HYPHEN" by (auto simp: HYPHEN_def plain_char_def dash_def)
  then have "is_hyphen u x \<longleftrightarrow> cls_in cyr_ucd True False HYPHEN x"
    unfolding is_hyphen_def by (rule plain_cls [OF assms])
  also have "\<dots> \<longleftrightarrow> plain_lower x \<in> {45, 8208, 8209, 8210, 8211, 8212}"
  proof -
    have e: "[45..<Suc 45] = [45]" "[8208..<Suc 8212] = [8208, 8209, 8210, 8211, 8212]"
      by (simp_all add: upt_rec)
    have "u_casefix cyr_ucd y = []" for y by (simp add: cyr_ucd_def ascii_ucd_def)
    moreover have "u_lower1 cyr_ucd = plain_lower" by (simp add: cyr_ucd_def)
    moreover have "plain_lower y = y" if "y \<in> {45, 8208, 8209, 8210, 8211, 8212}" for y
      using that by (auto simp: plain_lower_def cyr_lower_def ascii_lower_def ascii_uppercase_def)
    ultimately show ?thesis by (simp add: cls_in_def HYPHEN_def e)
  qed
  also have "\<dots> \<longleftrightarrow> x = 45 \<or> dash x"
    using assms(2) by (auto simp: plain_char_def plain_lower_def cyr_lower_def cyr_letter_def dash_def ascii_lower_def ascii_defs
        split: if_splits)
  finally show ?thesis .
qed

lemma stops_word:
  assumes "ucd_cyr u" "separates x"
  shows "\<not> cls_in u True False [CWord] x" "\<not> cls_in u True False [CDigit] x" "\<not> cls_in u True False HYPHEN x"
proof -
  have p: "plain_char x" "plain_lower x = x" "\<not> plain_word x" using assms(2) plain_lower_other [of x] by (auto simp: separates_def)
  show "\<not> cls_in u True False [CWord] x" using cls_word [OF assms(1) p(1)] p by simp
  show "\<not> cls_in u True False [CDigit] x"
    using ucd_cyr_plain(1,3) [OF assms(1) p(1)] p by (simp add: cls_in_def plain_word_def)
  show "\<not> cls_in u True False HYPHEN x"
    using hyphen_iff [OF assms(1) p(1)] assms(2) by (simp add: is_hyphen_def separates_def)
qed

lemma stops_inflected: "ucd_cyr u \<Longrightarrow> separates x \<Longrightarrow> list_all lit_char w \<Longrightarrow> stops u x (inflected w n)"
  by (simp add: inflected_def stops_lit stops_word)

lemma stops_ended: "ucd_cyr u \<Longrightarrow> separates x \<Longrightarrow> list_all lit_char w \<Longrightarrow> list_all lit_char e \<Longrightarrow> stops u x (ended w e)"
  by (simp add: ended_def stops_lit)

lemma stops_yo: "ucd_cyr u \<Longrightarrow> separates x \<Longrightarrow> stops u x (Cls True False [CRange 1077 1077, CRange 1105 1105])"
  using stops_lit [of u x "[1077]"] stops_lit [of u x "[1105]"]
  by (simp add: lit_ci_def cls_in_def lit_char_def cyr_letter_def)

lemma stems_stop:
  assumes "ucd_cyr u" "separates x"
  shows "stops u x STEM_RE"
proof -
  have "list_all (\<lambda>(r, c). stops u x r) STEMS"
    unfolding STEMS_def alts.simps
    by (simp only: list.pred_inject prod.case simp_thms stops.simps(3,4,5), intro conjI)
      (rule stops_inflected stops_ended stops_lit stops_yo assms | simp add: cyr_eval lit_char_def ascii_defs cyr_letter_def; fail)+
  moreover have "stops u x (alts rs)" if "list_all (stops u x) rs" for rs
    using that by (induction rs rule: alts.induct) (simp_all add: cls_in_def)
  ultimately show ?thesis unfolding STEM_RE_def by (simp add: list_all_iff case_prod_beta)
qed

lemma label_stop_separates:
  assumes "ucd_cyr u" "separates x"
  shows "label_stop u x"
proof -
  have "\<not> cls_in u True False (CWord # HYPHEN) x" "\<not> cls_in u True False [CDigit, CWord] x"
    using stops_word [OF assms] by (simp_all add: cls_in_def)
  then show ?thesis unfolding label_stop_def LABEL_RE_def STEM_RE_def [symmetric]
    using stems_stop [OF assms] stops_word [OF assms] by simp
qed

section \<open>A label alone\<close>

lemma first_stem_in: "first_stem u rs s = Some cat \<Longrightarrow> list_all (\<lambda>(r, c). local_re r) rs \<Longrightarrow> 10 \<notin> set s \<Longrightarrow>
    \<exists>r\<in>set (map fst rs). s \<in> lang u r"
proof (induction u rs s rule: first_stem.induct)
  case (2 u r c rs s)
  then show ?case using stem_match [of r s u] by (auto split: if_splits simp del: not_None_eq)
qed simp

lemma stem_category_in: "stem_category u s = Some cat \<Longrightarrow> 10 \<notin> set s \<Longrightarrow> s \<in> lang u STEM_RE"
  unfolding stem_category_def STEM_RE_def in_alts
  using stems_local by (intro first_stem_in) (auto simp: list_all_iff)

lemma decimal_of_digits: "digits_val u acc s = Some v \<Longrightarrow> decimal_of u acc s = v"
  by (induction s arbitrary: acc) (auto split: option.splits)

lemma digit_classes:
  assumes "ucd_cyr u" "ascii_digit c"
  shows "ci_digit u c" "digit_or_word u c" "\<not> is_hyphen u c"
proof -
  have p: "plain_char c" "plain_lower c = c" "c \<noteq> 45 \<and> \<not> dash c"
    using assms(2) by (auto simp: plain_char_def plain_lower_def ascii_lower_def ascii_defs dash_def)
  show "ci_digit u c" "digit_or_word u c"
    using ucd_cyr_plain(1,3) [OF assms(1) p(1)] p(2) assms(2) by (simp_all add: ci_digit_def digit_or_word_def cls_in_def)
  show "\<not> is_hyphen u c" using hyphen_iff [OF assms(1) p(1)] p(3) by simp
qed

text \<open>A word and a hyphen, as a stem of the table needs it.\<close>

definition label_word_ok :: "pystr \<Rightarrow> bool" where
  "label_word_ok w = list_all (\<lambda>c. plain_char c \<and> plain_word c) w"

lemma word_not_hyphen: "plain_char c \<Longrightarrow> plain_word c \<Longrightarrow> c \<noteq> 45 \<and> \<not> dash c \<and> c \<noteq> 10"
  by (auto simp: plain_word_def ascii_defs cyr_letter_def dash_def)

lemma find_labels_one:
  assumes u: "ucd_cyr u" and w: "label_word_ok w" "stem_category u w = Some cat" and h: "h = 45 \<or> dash h"
    and ds: "ds \<noteq> []" "length ds \<le> 6" "list_all ascii_digit ds"
  shows "find_labels u (w @ h # ds) =
    [\<lparr>lh_start = 0, lh_end = length (w @ h # ds), lh_category = cat, lh_number = decimal_of u 0 ds, lh_text = w @ h # ds\<rparr>]"
proof -
  let ?t = "w @ h # ds" and ?k = "length w"
  have hyph: "is_hyphen u h" using hyphen_iff [OF u, of h] h by (auto simp: plain_char_def)
  have not_hyph: "\<not> is_hyphen u (?t ! k)" if "k < length ?t" "k \<noteq> ?k" for k
  proof (cases "k < ?k")
    case True
    then have "plain_char (w ! k) \<and> plain_word (w ! k)" using w(1) by (simp add: label_word_ok_def list_all_iff)
    then show ?thesis using True hyphen_iff [OF u, of "w ! k"] word_not_hyphen [of "w ! k"] by (simp add: nth_append)
  next
    case False
    then have "?t ! k = ds ! (k - Suc ?k)" "k - Suc ?k < length ds" using that by (auto simp: nth_append nth_Cons')
    then show ?thesis using ds(3) digit_classes(3) [OF u, of "ds ! (k - Suc ?k)"] by (simp add: list_all_length)
  qed
  have nl: "10 \<notin> set w" using w(1) word_not_hyphen by (auto simp: label_word_ok_def list_all_iff)
  have st: "slice ?t 0 ?k = w" "slice ?t (Suc ?k) (length ?t) = ds" "slice ?t 0 (length ?t) = ?t"
    by (simp_all add: slice_def)
  have at: "label_at u ?t 0 k j \<longleftrightarrow> k = ?k \<and> j = length ?t" for k j
  proof
    assume l: "label_at u ?t 0 k j"
    then have "k < length ?t" "is_hyphen u (?t ! k)" by (auto simp: label_at_def)
    then have k: "k = ?k" using not_hyph by blast
    have "\<not> j < length ?t"
    proof
      assume j: "j < length ?t"
      then have "?t ! j = ds ! (j - Suc ?k)" "j - Suc ?k < length ds" using l k by (auto simp: label_at_def nth_append nth_Cons')
      then have "digit_or_word u (?t ! j)" using ds(3) digit_classes(2) [OF u, of "ds ! (j - Suc ?k)"] by (simp add: list_all_length)
      then show False using l j by (simp add: label_at_def)
    qed
    then show "k = ?k \<and> j = length ?t" using l k by (auto simp: label_at_def)
  next
    have "list_all (ci_digit u) ds" using ds(3) digit_classes(1) [OF u] by (auto simp: list_all_iff)
    then show "k = ?k \<and> j = length ?t \<Longrightarrow> label_at u ?t 0 k j"
      using st stem_category_in [OF w(2) nl] hyph ds by (cases ds) (auto simp: label_at_def)
  qed
  let ?m = "(0, length ?t, label_caps 0 ?k (length ?t))"
  have only: "set (ms u ?t LABEL_RE 0 []) = {snd ?m}"
    using label_match [of 0 ?t _ _ u] at by (auto simp del: ms.simps)
  then have "match_at u LABEL_RE ?t 0 False = Some ?m"
    by (cases "ms u ?t LABEL_RE 0 []") (auto simp: match_at_def simp del: ms.simps)
  then have first: "next_match u LABEL_RE ?t 0 = Some ?m" by (simp add: next_match_rec)
  have "x \<notin> set (ms u ?t LABEL_RE (length ?t) [])" for x
    using label_match [of "length ?t" ?t "fst x" "snd x" u] by (auto simp: label_at_def simp del: ms.simps)
  then have "set (ms u ?t LABEL_RE (length ?t) []) = {}" by (meson equals0I)
  then have "match_at u LABEL_RE ?t (length ?t) False = None" by (simp add: match_at_def del: ms.simps)
  then have "next_match u LABEL_RE ?t (length ?t) = None" by (simp add: next_match_rec next_match_end)
  then have "finditer u LABEL_RE ?t = [?m]"
    using first matches_from_rec [OF labels_advance, of 0 ?t] matches_from_rec [OF labels_advance, of "length ?t" ?t]
    by (simp add: finditer_from [OF labels_advance] m_end_def)
  then show ?thesis
    unfolding find_labels_def label_hits_filter
    by (simp only: map_filter_simps hit_of_shape st w(2)) (simp add: map_filter_def)
qed

section \<open>Rendered labels\<close>

lemma words_keys: "distinct (map fst WORDS)" "list_all (\<lambda>(cat, ws). distinct (map fst ws)) WORDS"
  by (simp_all add: WORDS_def word_row_def)

lemma render_words: "(cat, ws) \<in> set WORDS \<Longrightarrow> (lng, w) \<in> set ws \<Longrightarrow> render_label u cat n lng = w @ 45 # str_nat n"
proof -
  assume w: "(cat, ws) \<in> set WORDS" "(lng, w) \<in> set ws"
  have "distinct (map fst ws)" using words_keys(2) w(1) unfolding list_all_iff by fast
  then have "map_of WORDS cat = Some ws" "map_of ws lng = Some w"
    using map_of_is_SomeI [OF words_keys(1) w(1)] w(2) by simp_all
  then show ?thesis by (simp add: render_label_def label_word_def)
qed

lemma word_ok: "(cat, ws) \<in> set WORDS \<Longrightarrow> (lng, w) \<in> set ws \<Longrightarrow> label_word_ok w"
proof -
  assume "(cat, ws) \<in> set WORDS" "(lng, w) \<in> set ws"
  then have "list_all (\<lambda>c. ascii_alpha c \<or> cyr_letter c) w" using words_letters unfolding list_all_iff by fast
  then show ?thesis by (auto simp: list_all_iff label_word_ok_def plain_word_def plain_char_def ascii_defs)
qed

lemma low_word_ok: "plain s \<Longrightarrow> low s = low w \<Longrightarrow> label_word_ok w \<Longrightarrow> label_word_ok s"
proof -
  assume a: "plain s" "low s = low w" "label_word_ok w"
  have "plain_word (plain_lower c)" if "c \<in> set s" for c
  proof -
    have "plain_lower c \<in> set (low w)" unfolding a(2) [symmetric] using that by simp
    then show ?thesis using a(3) plain_lower_word by (auto simp: label_word_ok_def list_all_iff)
  qed
  then show ?thesis using a(1) plain_lower_word by (auto simp: label_word_ok_def list_all_iff)
qed

lemma low_other: "plain s \<Longrightarrow> low s = low t \<Longrightarrow> list_all (\<lambda>c. plain_char c \<and> (ascii_digit c \<or> c = 45)) t \<Longrightarrow> s = t"
proof (induction s arbitrary: t)
  case (Cons c s)
  then obtain c' t' where t: "t = c' # t'" by (cases t) auto
  have "c = c'" using Cons.prems unfolding t
    by (auto simp: plain_char_def plain_lower_def cyr_lower_def cyr_letter_def dash_def ascii_lower_def ascii_defs split: if_splits)
  then show ?case using Cons t by auto
qed simp

text \<open>A word of the table in any capitals, a hyphen and a number.\<close>

lemma find_labels_low:
  assumes u: "ucd_cyr u" and cat: "(cat, ws) \<in> set WORDS" "(lng, w) \<in> set ws" and n: "n < 10 ^ 6"
    and t: "plain t" "low t = low (render_label u cat n lng)"
  shows "find_labels u t = [\<lparr>lh_start = 0, lh_end = length t, lh_category = cat, lh_number = n, lh_text = t\<rparr>]"
proof -
  have w: "label_word_ok w" by (rule word_ok [OF cat])
  have "low t = low w @ low (45 # str_nat n)" using t(2) render_words [OF cat] by simp
  then obtain s r where sr: "t = s @ r" "low s = low w" "low r = low (45 # str_nat n)" unfolding split_low by blast
  have d: "list_all ascii_digit (str_nat n)" using str_nat_digits by (auto simp: list_all_iff ascii_digit_def)
  then have "list_all (\<lambda>c. plain_char c \<and> (ascii_digit c \<or> c = 45)) (45 # str_nat n)"
    by (auto simp: list_all_iff plain_char_def ascii_digit_def)
  then have r: "r = 45 # str_nat n" using low_other sr t(1) by simp
  have s: "plain s" "label_word_ok s" using t(1) sr w low_word_ok by auto
  have "10 \<notin> set s" using s(2) word_not_hyphen by (auto simp: label_word_ok_def list_all_iff)
  then have "stem_category u s = first_test STEM_TESTS (low w)"
    using stem_category_test [OF u s(1)] sr(2) by simp
  also have "\<dots> = Some cat" using words_recognised cat by (auto simp: list_all_iff)
  finally have c: "stem_category u s = Some cat" .
  have len: "length (str_nat n) \<le> 6" using length_str_nat [of n 5] n by simp
  have "ucd_ascii u" using u by (simp add: ucd_cyr_def)
  then have "decimal_of u 0 (str_nat n) = n" by (intro decimal_of_digits digits_val_str_nat)
  then show ?thesis using find_labels_one [OF u s(2) c, of 45 "str_nat n"] d len unfolding sr(1) r by simp
qed

section \<open>A label in a text\<close>

text \<open>A piece that ends, or begins, with a character that no label and no stem can hold.\<close>

definition cut_left :: "ucd \<Rightarrow> pystr \<Rightarrow> bool" where "cut_left u g \<longleftrightarrow> g \<noteq> [] \<and> label_stop u (last g)"
definition cut_right :: "ucd \<Rightarrow> pystr \<Rightarrow> bool" where "cut_right u g \<longleftrightarrow> g = [] \<or> label_stop u (hd g)"

lemma sh_hit_0 [simp]: "map (sh_hit 0) hs = hs"
  by (simp add: sh_hit_def map_idI)

lemma sh_hit_add: "map (sh_hit a) (map (sh_hit b) hs) = map (sh_hit (a + b)) hs"
  by (simp add: sh_hit_def)

lemma find_labels_Nil [simp]: "find_labels u [] = []"
proof -
  have "m \<notin> set (finditer u LABEL_RE [])" for m
  proof
    assume "m \<in> set (finditer u LABEL_RE [])"
    then obtain k where "label_at u [] (m_start m) k (m_end m)" by (rule label_hit_shape)
    then show False by (auto simp: label_at_def)
  qed
  then have "finditer u LABEL_RE [] = []" by (metis list.set_intros(1) neq_Nil_conv)
  then show ?thesis unfolding find_labels_def label_hits_filter by (simp add: map_filter_def)
qed

lemma find_labels_cut_right: "cut_right u b \<Longrightarrow> find_labels u (a @ b) = find_labels u a @ map (sh_hit (length a)) (find_labels u b)"
proof (cases b)
  case (Cons x b')
  assume "cut_right u b"
  then have x: "label_stop u x" using Cons by (simp add: cut_right_def)
  have "find_labels u b = map (sh_hit 1) (find_labels u b')" using find_labels_separated [OF x, of "[]" b'] Cons by simp
  then show ?thesis using find_labels_separated [OF x, of a b'] Cons by (simp add: sh_hit_add del: map_map)
qed simp

lemma find_labels_cut_left: "cut_left u a \<Longrightarrow> find_labels u (a @ b) = find_labels u a @ map (sh_hit (length a)) (find_labels u b)"
proof -
  assume a: "cut_left u a"
  then obtain a' x where a': "a = a' @ [x]" "label_stop u x" by (cases a rule: rev_cases) (auto simp: cut_left_def)
  show ?thesis using find_labels_separated [OF a'(2), of a' b] find_labels_separated [OF a'(2), of a' "[]"] a'(1) by simp
qed

definition set_off :: "pystr \<Rightarrow> pystr \<Rightarrow> bool" where
  "set_off l r \<longleftrightarrow> (l = [] \<or> separates (last l)) \<and> (r = [] \<or> separates (hd r))"

lemma find_labels_amid:
  assumes "ucd_cyr u" "set_off l r"
  shows "find_labels u (l @ t @ r) =
    find_labels u l @ map (sh_hit (length l)) (find_labels u t) @ map (sh_hit (length l + length t)) (find_labels u r)"
proof -
  have "cut_right u r" "l = [] \<or> cut_left u l"
    using assms by (auto simp: set_off_def cut_right_def cut_left_def label_stop_separates)
  then show ?thesis
    using find_labels_cut_right [of u r t] find_labels_cut_left [of u l "t @ r"] by (auto simp: sh_hit_add simp del: map_map)
qed

text \<open>C29. Labels round-trip: what \<open>render_label\<close> gives for any category of the table, any of its languages and any number
  below a million, in the case it was written in or any other, is found by \<open>find_labels\<close> as one
  label of that category and number with its place, in any text where it is set off: what is before it ends and what
  follows it begins with a character that is no word character, hyphen or apostrophe, or is empty. The labels around it are found as
  they are without it.\<close>

theorem label_roundtrip:
  assumes "ucd_cyr u" "(cat, ws) \<in> set WORDS" "(lng, w) \<in> set ws" "n < 10 ^ 6"
    "list_all plain_char t" "map plain_lower t = map plain_lower (render_label u cat n lng)"
    and "set_off l r"
  shows "find_labels u (l @ t @ r) = find_labels u l
    @ [\<lparr>lh_start = length l, lh_end = length l + length t, lh_category = cat, lh_number = n, lh_text = t\<rparr>]
    @ map (sh_hit (length l + length t)) (find_labels u r)"
  by (simp add: find_labels_amid [OF assms(1,7)] find_labels_low [OF assms(1-6)] sh_hit_def add.commute)

text \<open>A label in capitals, in brackets.\<close>

lemma label_roundtrip_witness:
  "find_labels cyr_ucd (str ''('' @ (cyr ''FYZLYCO'' @ str ''-120'') @ str '')'') =
     [\<lparr>lh_start = 1, lh_end = 12, lh_category = str ''PERSON'', lh_number = 120, lh_text = cyr ''FYZLYCO'' @ str ''-120''\<rparr>]"
proof -
  let ?ws = "[(str ''uk'', cyr ''Fizosoba''), (str ''ru'', cyr ''Fyzlyco''), (str ''en'', str ''Person'')]"
  have w: "(str ''PERSON'', ?ws) \<in> set WORDS" "(str ''ru'', cyr ''Fyzlyco'') \<in> set ?ws"
    by (simp_all add: WORDS_def word_row_def)
  have n: "str_nat 120 = str ''120''" by (simp add: str_nat_def dec_rev.simps str_def)
  have p: "list_all plain_char (cyr ''FYZLYCO'' @ str ''-120'')" by (simp add: plain_eval)
  have l: "low (cyr ''FYZLYCO'' @ str ''-120'') = low (render_label cyr_ucd (str ''PERSON'') 120 (str ''ru''))"
    unfolding render_words [OF w] n by (simp add: cyr_eval plain_lower_eval)
  have len: "length (cyr ''FYZLYCO'' @ str ''-120'') = 11" by (simp add: cyr_eval)
  have s: "separates 40" "separates 41" by (simp_all add: separates_def plain_eval dash_def plain_word_def ascii_defs)
  then have o: "set_off (str ''('') (str '')'')" by (simp add: set_off_def str_def)
  have "find_labels cyr_ucd [x] = []" if "separates x" for x
    using find_labels_separated [OF label_stop_separates [OF ucd_cyr_cyr_ucd that], of "[]" "[]"] by simp
  then have e: "find_labels cyr_ucd (str ''('') = []" "find_labels cyr_ucd (str '')'') = []" using s by (simp_all add: str_def)
  have f: "length (str ''('') = 1" by (simp add: str_def)
  show ?thesis using label_roundtrip [OF ucd_cyr_cyr_ucd w _ p l o] unfolding e f len by simp
qed

end
