(* ===== verification/Label_Vault.thy ===== *)
theory Label_Vault
  imports Vault Json_Text "HOL-Library.List_Lexorder" "HOL-Library.Product_Lexorder"
begin

text \<open>
  The encrypted label vault of the desktop application (\<open>app/desktop/vaultdb.py\<close>): one SQLite file
  and the decrypted entities kept in memory. The state is the file (its tables), the keys, and
  the memory: a heap of \<open>Entity\<close> objects, which the cache, the index of fingerprints and the callers
  share, so an entity is passed by its address. Every SQL statement commits by itself
  (\<open>isolation_level=None\<close>), so an operation returns its result or exception with the state it
  leaves. The cryptography package, scrypt, \<open>os.urandom\<close>, \<open>uuid4\<close>, the clock and the JSON codec are
  parameters.
\<close>

section \<open>State\<close>

record lv_env =
  le_crypto :: crypto
  le_scrypt :: "bytes \<Rightarrow> bytes \<Rightarrow> bytes"                       \<comment> \<open>password, salt\<close>
  le_wrap :: "bytes \<Rightarrow> bytes \<Rightarrow> bytes \<Rightarrow> bytes \<Rightarrow> bytes"       \<comment> \<open>key, nonce, data, associated data\<close>
  le_unwrap :: "bytes \<Rightarrow> bytes \<Rightarrow> bytes \<Rightarrow> bytes \<Rightarrow> bytes res"
  le_rng :: rng
  le_uuid :: "nat \<Rightarrow> pystr"                                \<comment> \<open>\<open>uuid4().hex\<close> of the n-th draw\<close>
  le_time :: "nat \<Rightarrow> rat"                                  \<comment> \<open>\<open>time.time()\<close> at the n-th call\<close>
  le_dumps :: "bool \<Rightarrow> json \<Rightarrow> pystr"                      \<comment> \<open>\<open>json.dumps\<close>, \<open>ensure_ascii\<close>\<close>
  le_loads :: "pystr \<Rightarrow> json res"

record entity =
  en_pid :: pystr
  en_cat :: pystr
  en_n :: nat
  en_fp :: pystr
  en_value :: pystr
  en_meta :: json
  en_occ :: int
  en_excluded :: bool
  en_origin :: pystr
  en_variants :: "(pystr \<times> pystr) list"

record project_row =
  pr_id :: pystr
  pr_name :: bytes
  pr_lang :: pystr
  pr_options :: pystr
  pr_created :: rat
  pr_updated :: rat

record entity_row =
  er_pid :: pystr
  er_cat :: pystr
  er_n :: nat
  er_fp :: pystr
  er_value :: bytes
  er_meta :: bytes
  er_occ :: int
  er_excluded :: bool
  er_origin :: pystr
  er_created :: rat

record variant_row =
  vr_pid :: pystr
  vr_cat :: pystr
  vr_n :: nat
  vr_fp :: pystr
  vr_value :: bytes

record document_row =
  dr_id :: pystr
  dr_pid :: pystr
  dr_name :: bytes
  dr_kind :: pystr
  dr_direction :: pystr
  dr_digest :: "pystr option"
  dr_restore :: "bytes option"
  dr_stats :: pystr
  dr_created :: rat

type_synonym lkey = "pystr \<times> nat"

record lv =
  lv_meta :: "(pystr \<times> bytes) list"
  lv_projects :: "project_row list"
  lv_entities :: "entity_row list"
  lv_variants :: "variant_row list"
  lv_documents :: "document_row list"
  lv_unlocked :: bool
  lv_master :: bytes
  lv_fpkey :: bytes
  lv_metakey :: bytes
  lv_heap :: "entity list"
  lv_cache :: "(pystr \<times> (lkey \<times> nat) list) list"
  lv_index :: "(pystr \<times> (pystr \<times> nat) list) list"
  lv_draws :: nat
  lv_uuids :: nat
  lv_ticks :: nat

type_synonym 'a lvm = "lv \<Rightarrow> 'a res \<times> lv"

definition ret :: "'a \<Rightarrow> 'a lvm" where "ret x s = (Inr x, s)"
definition raise :: "exn \<Rightarrow> 'a lvm" where "raise e s = (Inl e, s)"

definition mbind :: "'a lvm \<Rightarrow> ('a \<Rightarrow> 'b lvm) \<Rightarrow> 'b lvm" where
  "mbind m f s = (case m s of (Inl e, s') \<Rightarrow> (Inl e, s') | (Inr x, s') \<Rightarrow> f x s')"

definition gets :: "(lv \<Rightarrow> 'a) \<Rightarrow> 'a lvm" where "gets f s = (Inr (f s), s)"
definition upd :: "(lv \<Rightarrow> lv) \<Rightarrow> unit lvm" where "upd f s = (Inr (), f s)"
definition lift :: "'a res \<Rightarrow> 'a lvm" where "lift r s = (r, s)"

definition zero_key :: bytes where "zero_key = replicate 32 0"

text \<open>\<open>LabelVault(path)\<close> on a new file: a locked vault with empty tables.\<close>

definition new_vault :: lv where
  "new_vault = \<lparr>lv_meta = [], lv_projects = [], lv_entities = [], lv_variants = [], lv_documents = [],
     lv_unlocked = False, lv_master = zero_key, lv_fpkey = zero_key, lv_metakey = zero_key,
     lv_heap = [], lv_cache = [], lv_index = [], lv_draws = 0, lv_uuids = 0, lv_ticks = 0\<rparr>"

section \<open>Password and keys\<close>

definition VERIFIER :: pystr where "VERIFIER = str ''redactgate-desktop-vault-v1''"

definition ascii_bytes :: "pystr \<Rightarrow> bytes" where "ascii_bytes = map of_nat"

definition hkdf :: "lv_env \<Rightarrow> bytes \<Rightarrow> string \<Rightarrow> bytes" where
  "hkdf env key info = c_hkdf (le_crypto env) key (ascii_bytes (str ''redactgate-desktop'')) (ascii_bytes (str info))"

definition self_vault :: "lv_env \<Rightarrow> lv \<Rightarrow> vault" where
  "self_vault env s = \<lparr>va_crypto = le_crypto env, va_master_key = lv_master s, va_fingerprint_key = lv_fpkey s\<rparr>"

definition get_meta :: "pystr \<Rightarrow> lv \<Rightarrow> bytes option" where
  "get_meta k s = map_of (lv_meta s) k"

definition set_meta :: "pystr \<Rightarrow> bytes \<Rightarrow> lv \<Rightarrow> lv" where
  "set_meta k v s = s\<lparr>lv_meta := AList.update k v (lv_meta s)\<rparr>"

definition initialized :: "lv \<Rightarrow> bool" where
  "initialized s \<longleftrightarrow> get_meta (str ''verifier'') s \<noteq> None"

definition derive :: "lv_env \<Rightarrow> pystr \<Rightarrow> bytes option \<Rightarrow> bytes res" where
  "derive env password salt =
     rbind (utf8_encode password) (\<lambda>pw. case salt of None \<Rightarrow> Inl TypeError | Some sa \<Rightarrow> Inr (le_scrypt env pw sa))"

definition install_keys :: "lv_env \<Rightarrow> bytes \<Rightarrow> lv \<Rightarrow> lv" where
  "install_keys env key s = s\<lparr>lv_master := hkdf env key ''value-encryption'',
     lv_fpkey := hkdf env key ''value-fingerprint'', lv_metakey := hkdf env key ''metadata-encryption'',
     lv_unlocked := True\<rparr>"

definition urandom :: "lv_env \<Rightarrow> nat \<Rightarrow> bytes lvm" where
  "urandom env n s = (Inr (le_rng env (lv_draws s) n), s\<lparr>lv_draws := Suc (lv_draws s)\<rparr>)"

definition now :: "lv_env \<Rightarrow> rat lvm" where
  "now env s = (Inr (le_time env (lv_ticks s)), s\<lparr>lv_ticks := Suc (lv_ticks s)\<rparr>)"

definition new_uid :: "lv_env \<Rightarrow> pystr lvm" where
  "new_uid env s = (Inr (take 12 (le_uuid env (lv_uuids s))), s\<lparr>lv_uuids := Suc (lv_uuids s)\<rparr>)"

definition enc_meta :: "lv_env \<Rightarrow> pystr \<Rightarrow> bytes lvm" where
  "enc_meta env t = mbind (urandom env NONCE_LEN) (\<lambda>nonce.
     mbind (lift (utf8_encode t)) (\<lambda>pt.
     mbind (gets lv_metakey) (\<lambda>key. ret (nonce @ c_seal (le_crypto env) key nonce pt))))"

definition dec_meta :: "lv_env \<Rightarrow> bytes \<Rightarrow> bytes option \<Rightarrow> pystr res" where
  "dec_meta env key blob =
     (case blob of
        None \<Rightarrow> Inr []
      | Some b \<Rightarrow> if b = [] then Inr []
          else rbind (c_open (le_crypto env) key (take NONCE_LEN b) (drop NONCE_LEN b)) utf8_decode)"

definition lock :: "lv \<Rightarrow> lv" where
  "lock s = s\<lparr>lv_master := zero_key, lv_fpkey := zero_key, lv_metakey := zero_key,
     lv_cache := [], lv_index := [], lv_unlocked := False\<rparr>"

text \<open>The data key is random and wrapped by the key of the password.\<close>

definition unwrap_key :: "lv_env \<Rightarrow> bytes \<Rightarrow> bytes \<Rightarrow> bytes res" where
  "unwrap_key env kek wrapped =
     (case le_unwrap env kek (take 12 wrapped) (drop 12 wrapped) (ascii_bytes VERIFIER) of
        Inl InvalidTag \<Rightarrow> Inl (BadPassword (str ''wrong password''))
      | r \<Rightarrow> r)"

definition initialize :: "lv_env \<Rightarrow> pystr \<Rightarrow> unit lvm" where
  "initialize env password s =
     (if initialized s then raise (RuntimeError (str ''vault already initialized'')) s
      else if length password < 6 then raise (BadPassword (str ''password too short'')) s
      else mbind (urandom env 16) (\<lambda>salt.
           mbind (lift (derive env password (Some salt))) (\<lambda>root.
           mbind (urandom env 32) (\<lambda>data_key.
           mbind (urandom env NONCE_LEN) (\<lambda>nonce.
           mbind (upd (set_meta (str ''salt'') salt)) (\<lambda>_.
           mbind (upd (set_meta (str ''wrapped'')
             (nonce @ le_wrap env (hkdf env root ''key-wrap'') nonce data_key (ascii_bytes VERIFIER)))) (\<lambda>_.
           mbind (upd (install_keys env data_key)) (\<lambda>_.
           mbind (enc_meta env VERIFIER) (\<lambda>v. upd (set_meta (str ''verifier'') v))))))))) s)"

definition unlock :: "lv_env \<Rightarrow> pystr \<Rightarrow> unit lvm" where
  "unlock env password s =
     (case (get_meta (str ''salt'') s, get_meta (str ''wrapped'') s) of
        (Some salt, Some wrapped) \<Rightarrow>
          if salt = [] \<or> wrapped = [] then raise (RuntimeError (str ''vault not initialized'')) s
          else mbind (lift (derive env password (Some salt))) (\<lambda>root.
               mbind (lift (unwrap_key env (hkdf env root ''key-wrap'') wrapped)) (\<lambda>data_key.
               mbind (upd (install_keys env data_key)) (\<lambda>_.
               mbind (gets lv_metakey) (\<lambda>mkey.
               mbind (gets (get_meta (str ''verifier''))) (\<lambda>ver.
               mbind (lift (dec_meta env mkey ver)) (\<lambda>v.
                 if v \<noteq> VERIFIER then mbind (upd lock) (\<lambda>_. raise (BadPassword (str ''vault verifier mismatch'')))
                 else ret ())))))) s
      | _ \<Rightarrow> raise (RuntimeError (str ''vault not initialized'')) s)"

definition change_password :: "lv_env \<Rightarrow> pystr \<Rightarrow> pystr \<Rightarrow> unit lvm" where
  "change_password env old new s =
     (if length new < 6 then raise (BadPassword (str ''password too short'')) s
      else mbind (lift (derive env old (get_meta (str ''salt'') s))) (\<lambda>root.
           mbind (lift (case get_meta (str ''wrapped'') s of None \<Rightarrow> Inl TypeError
                        | Some wrapped \<Rightarrow> unwrap_key env (hkdf env root ''key-wrap'') wrapped)) (\<lambda>data_key.
           mbind (urandom env 16) (\<lambda>salt2.
           mbind (lift (derive env new (Some salt2))) (\<lambda>root2.
           mbind (urandom env NONCE_LEN) (\<lambda>nonce.
           mbind (upd (set_meta (str ''salt'') salt2)) (\<lambda>_.
             upd (set_meta (str ''wrapped'')
               (nonce @ le_wrap env (hkdf env root2 ''key-wrap'') nonce data_key (ascii_bytes VERIFIER))))))))) s)"

definition need :: "unit lvm" where
  "need s = (if lv_unlocked s then ret () s else raise VaultLocked s)"

section \<open>Projects\<close>

definition options_text :: "lv_env \<Rightarrow> json option \<Rightarrow> pystr" where
  "options_text env settings =
     le_dumps env True (case settings of Some d \<Rightarrow> if truthy d then d else JDict [] | None \<Rightarrow> JDict [])"

definition create_project :: "lv_env \<Rightarrow> pystr \<Rightarrow> pystr \<Rightarrow> json option \<Rightarrow> pystr lvm" where
  "create_project env name lng settings =
     mbind need (\<lambda>_. mbind (new_uid env) (\<lambda>pid. mbind (now env) (\<lambda>t. mbind (enc_meta env name) (\<lambda>ct.
     mbind (gets lv_projects) (\<lambda>ps.
       if pid \<in> pr_id ` set ps then raise IntegrityError
       else mbind (upd (\<lambda>s. s\<lparr>lv_projects := lv_projects s @
              [\<lparr>pr_id = pid, pr_name = ct, pr_lang = lng, pr_options = options_text env settings, pr_created = t, pr_updated = t\<rparr>]\<rparr>))
            (\<lambda>_. ret pid))))))"

record project =
  pj_id :: pystr
  pj_name :: pystr
  pj_lang :: pystr
  pj_options :: json
  pj_created :: rat
  pj_updated :: rat
  pj_entities :: nat
  pj_documents :: nat

definition project_of :: "lv_env \<Rightarrow> lv \<Rightarrow> project_row \<Rightarrow> project res" where
  "project_of env s r =
     rbind (dec_meta env (lv_metakey s) (Some (pr_name r))) (\<lambda>name.
     rbind (le_loads env (if pr_options r = [] then str ''{}'' else pr_options r)) (\<lambda>settings.
       Inr \<lparr>pj_id = pr_id r, pj_name = name, pj_lang = pr_lang r, pj_options = settings,
            pj_created = pr_created r, pj_updated = pr_updated r,
            pj_entities = length (filter (\<lambda>e. er_pid e = pr_id r) (lv_entities s)),
            pj_documents = length (filter (\<lambda>d. dr_pid d = pr_id r) (lv_documents s))\<rparr>))"

fun rmap :: "('a \<Rightarrow> 'b res) \<Rightarrow> 'a list \<Rightarrow> 'b list res" where
  "rmap f [] = Inr []"
| "rmap f (x # xs) = rbind (f x) (\<lambda>y. rbind (rmap f xs) (\<lambda>ys. Inr (y # ys)))"

definition list_projects :: "lv_env \<Rightarrow> project list lvm" where
  "list_projects env =
     mbind need (\<lambda>_ s. (rmap (project_of env s) (sort_key (\<lambda>r. - pr_updated r) (lv_projects s)), s))"

definition get_project :: "lv_env \<Rightarrow> pystr \<Rightarrow> project lvm" where
  "get_project env pid =
     mbind (list_projects env) (\<lambda>ps. case find (\<lambda>p. pj_id p = pid) ps of None \<Rightarrow> raise KeyError | Some p \<Rightarrow> ret p)"

definition set_project :: "pystr \<Rightarrow> (project_row \<Rightarrow> project_row) \<Rightarrow> unit lvm" where
  "set_project pid f = upd (\<lambda>s. s\<lparr>lv_projects := map (\<lambda>r. if pr_id r = pid then f r else r) (lv_projects s)\<rparr>)"

definition touch :: "lv_env \<Rightarrow> pystr \<Rightarrow> unit lvm" where
  "touch env pid = mbind (now env) (\<lambda>t. set_project pid (pr_updated_update (\<lambda>_. t)))"

definition update_project :: "lv_env \<Rightarrow> pystr \<Rightarrow> pystr option \<Rightarrow> pystr option \<Rightarrow> json option \<Rightarrow> unit lvm" where
  "update_project env pid name lng settings =
     mbind need (\<lambda>_.
     mbind (case name of None \<Rightarrow> ret ()
            | Some n \<Rightarrow> mbind (enc_meta env n) (\<lambda>ct. set_project pid (pr_name_update (\<lambda>_. ct)))) (\<lambda>_.
     mbind (case lng of None \<Rightarrow> ret () | Some l \<Rightarrow> set_project pid (pr_lang_update (\<lambda>_. l))) (\<lambda>_.
     mbind (case settings of None \<Rightarrow> ret ()
            | Some d \<Rightarrow> set_project pid (pr_options_update (\<lambda>_. le_dumps env True d))) (\<lambda>_.
       touch env pid))))"

definition delete_project :: "pystr \<Rightarrow> unit lvm" where
  "delete_project pid =
     mbind need (\<lambda>_. upd (\<lambda>s. s\<lparr>
       lv_entities := filter (\<lambda>r. er_pid r \<noteq> pid) (lv_entities s),
       lv_variants := filter (\<lambda>r. vr_pid r \<noteq> pid) (lv_variants s),
       lv_documents := filter (\<lambda>r. dr_pid r \<noteq> pid) (lv_documents s),
       lv_projects := filter (\<lambda>r. pr_id r \<noteq> pid) (lv_projects s),
       lv_cache := AList.delete pid (lv_cache s),
       lv_index := AList.delete pid (lv_index s)\<rparr>))"

section \<open>Entities\<close>

definition row_key :: "entity_row \<Rightarrow> lkey" where "row_key r = (er_cat r, er_n r)"
definition en_key :: "entity \<Rightarrow> lkey" where "en_key e = (en_cat e, en_n e)"

definition label_fingerprint :: "lv_env \<Rightarrow> pystr \<Rightarrow> pystr \<Rightarrow> pystr \<Rightarrow> lv \<Rightarrow> pystr res" where
  "label_fingerprint env pid category norm_value s = fingerprint (self_vault env s) pid category norm_value"

text \<open>What \<open>_load\<close> reads from the file for a project, before the objects are put into the memory.\<close>

definition read_entity :: "lv_env \<Rightarrow> lv \<Rightarrow> entity_row \<Rightarrow> entity res" where
  "read_entity env s r =
     rbind (decrypt (self_vault env s) (er_pid r) (er_value r)) (\<lambda>val.
     rbind (dec_meta env (lv_metakey s) (Some (er_meta r))) (\<lambda>mt.
     rbind (le_loads env (if mt = [] then str ''{}'' else mt)) (\<lambda>meta.
       Inr \<lparr>en_pid = er_pid r, en_cat = er_cat r, en_n = er_n r, en_fp = er_fp r, en_value = val, en_meta = meta,
            en_occ = er_occ r, en_excluded = er_excluded r, en_origin = er_origin r, en_variants = []\<rparr>)))"

fun read_entities :: "lv_env \<Rightarrow> lv \<Rightarrow> entity_row list \<Rightarrow> (lkey \<times> entity) list \<Rightarrow> (lkey \<times> entity) list res" where
  "read_entities env s [] ents = Inr ents"
| "read_entities env s (r # rows) ents =
     rbind (read_entity env s r) (\<lambda>e. read_entities env s rows (AList.update (row_key r) e ents))"

definition with_variant :: "pystr \<Rightarrow> pystr \<Rightarrow> entity \<Rightarrow> entity" where
  "with_variant fp surface e = e\<lparr>en_variants := AList.update fp surface (en_variants e)\<rparr>"

fun read_variants :: "lv_env \<Rightarrow> lv \<Rightarrow> variant_row list \<Rightarrow> (lkey \<times> entity) list \<Rightarrow> (lkey \<times> entity) list res" where
  "read_variants env s [] ents = Inr ents"
| "read_variants env s (r # rows) ents =
     (case map_of ents (vr_cat r, vr_n r) of
        None \<Rightarrow> read_variants env s rows ents
      | Some e \<Rightarrow>
          rbind (decrypt (self_vault env s) (vr_pid r) (vr_value r)) (\<lambda>val.
            read_variants env s rows (AList.update (vr_cat r, vr_n r) (with_variant (vr_fp r) val e) ents)))"

definition read_project :: "lv_env \<Rightarrow> lv \<Rightarrow> pystr \<Rightarrow> (lkey \<times> entity) list res" where
  "read_project env s pid =
     rbind (read_entities env s (filter (\<lambda>r. er_pid r = pid) (lv_entities s)) [])
       (read_variants env s (filter (\<lambda>r. vr_pid r = pid) (lv_variants s)))"

text \<open>The index lists an entity under its fingerprint and those of its variants; a later entry wins.\<close>

definition index_entity :: "entity \<Rightarrow> nat \<Rightarrow> (pystr \<times> nat) list \<Rightarrow> (pystr \<times> nat) list" where
  "index_entity e a idx = foldl (\<lambda>m fp. AList.update fp a m) idx (en_fp e # map fst (en_variants e))"

fun build_index :: "(entity \<times> nat) list \<Rightarrow> (pystr \<times> nat) list \<Rightarrow> (pystr \<times> nat) list" where
  "build_index [] idx = idx"
| "build_index ((e, a) # es) idx = build_index es (index_entity e a idx)"

definition load :: "lv_env \<Rightarrow> pystr \<Rightarrow> (lkey \<times> nat) list lvm" where
  "load env pid = mbind need (\<lambda>_ s.
     case map_of (lv_cache s) pid of
       Some ents \<Rightarrow> (Inr ents, s)
     | None \<Rightarrow>
         (case read_project env s pid of
            Inl e \<Rightarrow> (Inl e, s)
          | Inr kes \<Rightarrow>
              (let addrs = [length (lv_heap s)..<length (lv_heap s) + length kes];
                   ents = zip (map fst kes) addrs in
               (Inr ents, s\<lparr>lv_heap := lv_heap s @ map snd kes,
                            lv_cache := AList.update pid ents (lv_cache s),
                            lv_index := AList.update pid (build_index (zip (map snd kes) addrs) []) (lv_index s)\<rparr>))))"

definition deref :: "lv \<Rightarrow> nat \<Rightarrow> entity" where "deref s a = lv_heap s ! a"

definition entities :: "lv_env \<Rightarrow> pystr \<Rightarrow> nat list lvm" where
  "entities env pid = mbind (load env pid) (\<lambda>ents s. (Inr (sort_key (\<lambda>a. (en_cat (deref s a), en_n (deref s a))) (map snd ents)), s))"

definition entity_at :: "lv_env \<Rightarrow> pystr \<Rightarrow> pystr \<Rightarrow> nat \<Rightarrow> nat option lvm" where
  "entity_at env pid category n = mbind (load env pid) (\<lambda>ents. ret (map_of ents (category, n)))"

definition by_fingerprint :: "lv_env \<Rightarrow> pystr \<Rightarrow> pystr \<Rightarrow> nat option lvm" where
  "by_fingerprint env pid fp = mbind (load env pid) (\<lambda>_ s.
     case map_of (lv_index s) pid of None \<Rightarrow> (Inl KeyError, s) | Some idx \<Rightarrow> (Inr (map_of idx fp), s))"

definition set_obj :: "nat \<Rightarrow> (entity \<Rightarrow> entity) \<Rightarrow> unit lvm" where
  "set_obj a f = upd (\<lambda>s. s\<lparr>lv_heap := (lv_heap s)[a := f (deref s a)]\<rparr>)"

definition index_set :: "pystr \<Rightarrow> pystr \<Rightarrow> nat \<Rightarrow> unit lvm" where
  "index_set pid fp a s = (case map_of (lv_index s) pid of
     None \<Rightarrow> (Inl KeyError, s)
   | Some idx \<Rightarrow> (Inr (), s\<lparr>lv_index := AList.update pid (AList.update fp a idx) (lv_index s)\<rparr>))"

text \<open>\<open>_encrypt\<close> of the base class, with the draws counted in the state.\<close>

definition encrypt_value :: "lv_env \<Rightarrow> pystr \<Rightarrow> pystr \<Rightarrow> bytes lvm" where
  "encrypt_value env pid val s =
     (case encrypt (self_vault env s) (le_rng env) pid val (lv_draws s) of
        Inl e \<Rightarrow> (Inl e, s)
      | Inr (ct, n) \<Rightarrow> (Inr ct, s\<lparr>lv_draws := n\<rparr>))"

definition max_n :: "pystr \<Rightarrow> pystr \<Rightarrow> entity_row list \<Rightarrow> nat" where
  "max_n pid category rows = foldr max (map er_n (filter (\<lambda>r. er_pid r = pid \<and> er_cat r = category) rows)) 0"

definition insert_entity :: "entity_row \<Rightarrow> unit lvm" where
  "insert_entity r s =
     (if list_ex (\<lambda>q. er_pid q = er_pid r \<and> (row_key q = row_key r \<or> er_fp q = er_fp r)) (lv_entities s)
      then (Inl IntegrityError, s) else (Inr (), s\<lparr>lv_entities := lv_entities s @ [r]\<rparr>))"

definition add_entity :: "lv_env \<Rightarrow> pystr \<Rightarrow> pystr \<Rightarrow> pystr \<Rightarrow> pystr \<Rightarrow> dict \<Rightarrow> pystr \<Rightarrow> bool \<Rightarrow> nat lvm" where
  "add_entity env pid category canonical fp meta origin excluded =
     mbind (load env pid) (\<lambda>ents.
     mbind (gets (\<lambda>s. max_n pid category (lv_entities s) + 1)) (\<lambda>n.
     mbind (encrypt_value env pid canonical) (\<lambda>vct.
     mbind (enc_meta env (le_dumps env True (JDict meta))) (\<lambda>mct.
     mbind (now env) (\<lambda>t.
     mbind (insert_entity \<lparr>er_pid = pid, er_cat = category, er_n = n, er_fp = fp, er_value = vct, er_meta = mct,
              er_occ = 0, er_excluded = excluded, er_origin = origin, er_created = t\<rparr>) (\<lambda>_.
     mbind (gets (\<lambda>s. length (lv_heap s))) (\<lambda>a.
     mbind (upd (\<lambda>s. s\<lparr>lv_heap := lv_heap s @ [\<lparr>en_pid = pid, en_cat = category, en_n = n, en_fp = fp, en_value = canonical,
              en_meta = JDict meta, en_occ = 0, en_excluded = excluded, en_origin = origin, en_variants = []\<rparr>],
              lv_cache := AList.update pid (AList.update (category, n) a ents) (lv_cache s)\<rparr>)) (\<lambda>_.
     mbind (index_set pid fp a) (\<lambda>_.
     mbind (touch env pid) (\<lambda>_. ret a))))))))))"

definition insert_variant :: "variant_row \<Rightarrow> unit lvm" where
  "insert_variant r = upd (\<lambda>s.
     if list_ex (\<lambda>q. vr_pid q = vr_pid r \<and> vr_fp q = vr_fp r) (lv_variants s) then s
     else s\<lparr>lv_variants := lv_variants s @ [r]\<rparr>)"

definition add_variant :: "lv_env \<Rightarrow> nat \<Rightarrow> pystr \<Rightarrow> pystr \<Rightarrow> unit lvm" where
  "add_variant env a fp surface s =
     (let e = deref s a in
      if fp = en_fp e \<or> fp \<in> fst ` set (en_variants e) then (Inr (), s)
      else mbind (encrypt_value env (en_pid e) surface) (\<lambda>ct.
           mbind (insert_variant \<lparr>vr_pid = en_pid e, vr_cat = en_cat e, vr_n = en_n e, vr_fp = fp, vr_value = ct\<rparr>) (\<lambda>_.
           mbind (set_obj a (with_variant fp surface)) (\<lambda>_.
             index_set (en_pid e) fp a))) s)"

definition set_row :: "entity \<Rightarrow> (entity_row \<Rightarrow> entity_row) \<Rightarrow> unit lvm" where
  "set_row e f = upd (\<lambda>s. s\<lparr>lv_entities := map (\<lambda>r. if er_pid r = en_pid e \<and> row_key r = en_key e then f r else r) (lv_entities s)\<rparr>)"

definition set_canonical :: "lv_env \<Rightarrow> nat \<Rightarrow> pystr \<Rightarrow> json option \<Rightarrow> unit lvm" where
  "set_canonical env a val meta =
     mbind (set_obj a (\<lambda>e. e\<lparr>en_value := val\<rparr>)) (\<lambda>_.
     mbind (case meta of None \<Rightarrow> ret () | Some m \<Rightarrow> set_obj a (\<lambda>e. e\<lparr>en_meta := m\<rparr>)) (\<lambda>_ s.
       let e = deref s a in
       mbind (encrypt_value env (en_pid e) val) (\<lambda>vct.
       mbind (enc_meta env (le_dumps env True (en_meta e))) (\<lambda>mct.
         set_row e (\<lambda>r. r\<lparr>er_value := vct, er_meta := mct\<rparr>))) s))"

definition set_excluded :: "nat \<Rightarrow> bool \<Rightarrow> unit lvm" where
  "set_excluded a excluded =
     mbind (set_obj a (\<lambda>e. e\<lparr>en_excluded := excluded\<rparr>)) (\<lambda>_ s.
       set_row (deref s a) (\<lambda>r. r\<lparr>er_excluded := excluded\<rparr>) s)"

fun bump :: "((pystr \<times> pystr \<times> nat) \<times> int) list \<Rightarrow> lv \<Rightarrow> lv" where
  "bump [] s = s"
| "bump (((pid, cat, n), c) # rest) s =
     (let s1 = s\<lparr>lv_entities := map (\<lambda>r. if er_pid r = pid \<and> row_key r = (cat, n) then r\<lparr>er_occ := er_occ r + c\<rparr> else r)
                  (lv_entities s)\<rparr> in
      bump rest (case Option.bind (map_of (lv_cache s1) pid) (\<lambda>ents. map_of ents (cat, n)) of
         None \<Rightarrow> s1
       | Some a \<Rightarrow> s1\<lparr>lv_heap := (lv_heap s1)[a := (deref s1 a)\<lparr>en_occ := en_occ (deref s1 a) + c\<rparr>]\<rparr>))"

definition delete_entity :: "nat \<Rightarrow> lv \<Rightarrow> lv" where
  "delete_entity a s =
     (let e = deref s a in
      s\<lparr>lv_entities := filter (\<lambda>r. \<not> (er_pid r = en_pid e \<and> row_key r = en_key e)) (lv_entities s),
        lv_variants := filter (\<lambda>r. \<not> (vr_pid r = en_pid e \<and> (vr_cat r, vr_n r) = en_key e)) (lv_variants s),
        lv_cache := AList.delete (en_pid e) (lv_cache s),
        lv_index := AList.delete (en_pid e) (lv_index s)\<rparr>)"

section \<open>Documents\<close>

definition record_document ::
  "lv_env \<Rightarrow> pystr \<Rightarrow> pystr \<Rightarrow> pystr \<Rightarrow> pystr \<Rightarrow> pystr option \<Rightarrow> json option \<Rightarrow> json \<Rightarrow> pystr lvm" where
  "record_document env pid name doc_kind direction digest restore stats =
     mbind need (\<lambda>_. mbind (new_uid env) (\<lambda>did. mbind (enc_meta env name) (\<lambda>nct.
     mbind (case restore of None \<Rightarrow> ret None
            | Some r \<Rightarrow> mbind (encrypt_value env pid (le_dumps env False r)) (\<lambda>ct. ret (Some ct))) (\<lambda>rct.
     mbind (now env) (\<lambda>t.
     mbind (gets (\<lambda>s. did \<in> dr_id ` set (lv_documents s))) (\<lambda>dup.
       if dup then raise IntegrityError
       else mbind (upd (\<lambda>s. s\<lparr>lv_documents := lv_documents s @
              [\<lparr>dr_id = did, dr_pid = pid, dr_name = nct, dr_kind = doc_kind, dr_direction = direction, dr_digest = digest,
                dr_restore = rct, dr_stats = le_dumps env True stats, dr_created = t\<rparr>]\<rparr>)) (\<lambda>_.
            mbind (touch env pid) (\<lambda>_. ret did))))))))"

definition newest :: "document_row list \<Rightarrow> document_row option" where
  "newest rows = (case sort_key (\<lambda>r. - dr_created r) rows of [] \<Rightarrow> None | r # _ \<Rightarrow> Some r)"

definition restore_map :: "lv_env \<Rightarrow> pystr \<Rightarrow> pystr \<Rightarrow> json option lvm" where
  "restore_map env pid digest =
     mbind need (\<lambda>_ s.
       (case Option.bind (newest (filter (\<lambda>r. dr_pid r = pid \<and> dr_digest r = Some digest \<and> dr_direction r = str ''anon'')
                            (lv_documents s))) dr_restore of
          None \<Rightarrow> Inr None
        | Some ct \<Rightarrow> if ct = [] then Inr None else
            rbind (decrypt (self_vault env s) pid ct) (\<lambda>t. rbind (le_loads env t) (\<lambda>j. Inr (Some j))), s))"

record document =
  do_id :: pystr
  do_name :: pystr
  do_kind :: pystr
  do_direction :: pystr
  do_stats :: json
  do_created :: rat

definition document_of :: "lv_env \<Rightarrow> lv \<Rightarrow> document_row \<Rightarrow> document res" where
  "document_of env s r =
     rbind (dec_meta env (lv_metakey s) (Some (dr_name r))) (\<lambda>name.
     rbind (le_loads env (if dr_stats r = [] then str ''{}'' else dr_stats r)) (\<lambda>stats.
       Inr \<lparr>do_id = dr_id r, do_name = name, do_kind = dr_kind r, do_direction = dr_direction r, do_stats = stats,
            do_created = dr_created r\<rparr>))"

definition documents :: "lv_env \<Rightarrow> pystr \<Rightarrow> document list lvm" where
  "documents env pid = mbind need (\<lambda>_ s.
     (rmap (document_of env s) (sort_key (\<lambda>r. - dr_created r) (filter (\<lambda>r. dr_pid r = pid) (lv_documents s))), s))"

definition as_token_records :: "lv_env \<Rightarrow> pystr \<Rightarrow> token_record list lvm" where
  "as_token_records env pid = mbind (entities env pid) (\<lambda>as s.
     (Inr (map (\<lambda>a. let e = deref s a in
        \<lparr>tr_session = pid, tr_placeholder = en_cat e @ [45] @ str_nat (en_n e), tr_type = en_cat e,
         tr_cipher = [], tr_fp = en_fp e, tr_occ = en_occ e\<rparr>) as), s))"

end
