(* ===== verification/Label_Keys.thy ===== *)
theory Label_Keys
  imports Label_Vault
begin

text \<open>
  The password of the label vault (\<open>initialize\<close>, \<open>unlock\<close>, \<open>change_password\<close>, \<open>lock\<close> of
  \<open>app/desktop/vaultdb.py\<close>) as a state machine: which key the file holds, wrapped for which password.
\<close>

section \<open>What the proofs assume of the primitives\<close>

text \<open>
  AES-GCM opens what it sealed under the same key, nonce and associated data, and raises
  \<open>InvalidTag\<close> under another key.
\<close>

definition wrap_ok :: "lv_env \<Rightarrow> bool" where
  "wrap_ok env \<longleftrightarrow> crypto_ok (le_crypto env) \<and> rng_ok (le_rng env) \<and>
     (\<forall>k n p a. length n = NONCE_LEN \<longrightarrow> le_unwrap env k n (le_wrap env k n p a) a = Inr p) \<and>
     (\<forall>k k' n p a. length n = NONCE_LEN \<longrightarrow> k' \<noteq> k \<longrightarrow> le_unwrap env k' n (le_wrap env k n p a) a = Inl InvalidTag)"

definition kek :: "lv_env \<Rightarrow> pystr \<Rightarrow> bytes \<Rightarrow> bytes" where
  "kek env pw salt = (case derive env pw (Some salt) of Inl _ \<Rightarrow> [] | Inr k \<Rightarrow> hkdf env k ''key-wrap'')"

definition keys_of :: "lv_env \<Rightarrow> bytes \<Rightarrow> lv \<Rightarrow> bool" where
  "keys_of env dk s \<longleftrightarrow> lv_master s = hkdf env dk ''value-encryption'' \<and> lv_fpkey s = hkdf env dk ''value-fingerprint'' \<and>
     lv_metakey s = hkdf env dk ''metadata-encryption''"

text \<open>The file holds the data key \<open>dk\<close> for the password \<open>pw\<close>; the memory holds its keys or none.\<close>

definition sealed :: "lv_env \<Rightarrow> pystr \<Rightarrow> bytes \<Rightarrow> lv \<Rightarrow> bool" where
  "sealed env pw dk s \<longleftrightarrow> encodable pw \<and> (\<exists>salt nonce vnonce vtext.
     get_meta (str ''salt'') s = Some salt \<and> salt \<noteq> [] \<and> length nonce = NONCE_LEN \<and> length vnonce = NONCE_LEN \<and>
     get_meta (str ''wrapped'') s = Some (nonce @ le_wrap env (kek env pw salt) nonce dk (ascii_bytes VERIFIER)) \<and>
     utf8_encode VERIFIER = Inr vtext \<and>
     get_meta (str ''verifier'') s = Some (vnonce @ c_seal (le_crypto env) (hkdf env dk ''metadata-encryption'') vnonce vtext)) \<and>
     (lv_unlocked s \<longrightarrow> keys_of env dk s)"

text \<open>Every other operation leaves the \<open>meta\<close> table and the keys as they are.\<close>

definition same_keys :: "lv \<Rightarrow> lv \<Rightarrow> bool" where
  "same_keys s s' \<longleftrightarrow> lv_meta s' = lv_meta s \<and> lv_unlocked s' = lv_unlocked s \<and> lv_master s' = lv_master s \<and>
     lv_fpkey s' = lv_fpkey s \<and> lv_metakey s' = lv_metakey s"

lemma sealedI:
  assumes "encodable pw" "get_meta (str ''salt'') s = Some salt" "salt \<noteq> []" "length nonce = NONCE_LEN" "length vnonce = NONCE_LEN"
    "get_meta (str ''wrapped'') s = Some (nonce @ le_wrap env (kek env pw salt) nonce dk (ascii_bytes VERIFIER))"
    "utf8_encode VERIFIER = Inr vtext"
    "get_meta (str ''verifier'') s = Some (vnonce @ c_seal (le_crypto env) (hkdf env dk ''metadata-encryption'') vnonce vtext)"
    "lv_unlocked s \<Longrightarrow> keys_of env dk s"
  shows "sealed env pw dk s"
  unfolding sealed_def using assms by blast

lemma verifier_text: "\<exists>v. utf8_encode VERIFIER = Inr v"
  by (simp add: utf8_encode_def VERIFIER_def encodable_def str_def surrogate_def)

lemma derive_kek: "encodable pw \<Longrightarrow> \<exists>k. derive env pw (Some salt) = Inr k \<and> kek env pw salt = hkdf env k ''key-wrap''"
  by (simp add: derive_def utf8_encode_def kek_def)

lemma derive_fails: "\<not> encodable pw \<Longrightarrow> derive env pw sa = Inl UnicodeError"
  by (simp add: derive_def utf8_encode_def)

lemmas steps = mbind_def lift_def urandom_def upd_def gets_def ret_def raise_def

lemma unlock_opens:
  assumes "wrap_ok env" "sealed env pw dk s"
  shows "unlock env pw s = (Inr (), install_keys env dk s)"
proof -
  from assms(2) obtain salt nonce vnonce vtext where
    m: "get_meta (str ''salt'') s = Some salt" "salt \<noteq> []" "length nonce = NONCE_LEN" "length vnonce = NONCE_LEN"
      "get_meta (str ''wrapped'') s = Some (nonce @ le_wrap env (kek env pw salt) nonce dk (ascii_bytes VERIFIER))"
      "utf8_encode VERIFIER = Inr vtext"
      "get_meta (str ''verifier'') s = Some (vnonce @ c_seal (le_crypto env) (hkdf env dk ''metadata-encryption'') vnonce vtext)"
    and pw: "encodable pw" unfolding sealed_def by blast
  obtain k where k: "derive env pw (Some salt) = Inr k" "kek env pw salt = hkdf env k ''key-wrap''" using derive_kek [OF pw] by blast
  have ne: "nonce \<noteq> []" "vnonce \<noteq> []" using m(3,4) by (auto simp: NONCE_LEN_def)
  have un: "unwrap_key env (kek env pw salt) (nonce @ le_wrap env (kek env pw salt) nonce dk (ascii_bytes VERIFIER)) = Inr dk"
    using assms(1) m(3) by (simp add: unwrap_key_def wrap_ok_def NONCE_LEN_def)
  have ver: "dec_meta env (hkdf env dk ''metadata-encryption'') (get_meta (str ''verifier'') s) = Inr VERIFIER"
    using assms(1) m(4) ne utf8_roundtrip [OF m(6)] by (simp add: m(7) dec_meta_def wrap_ok_def crypto_ok_def)
  have ik: "lv_metakey (install_keys env dk s) = hkdf env dk ''metadata-encryption''"
    "get_meta x (install_keys env dk s) = get_meta x s" for x
    by (simp_all add: install_keys_def get_meta_def)
  show ?thesis using k m(2) ne un ver
    by (simp add: unlock_def m(1,5) steps ik)
qed

lemma unlock_other:
  assumes "wrap_ok env" "sealed env pw dk s"
  shows "unlock env pw' s = (Inr (), install_keys env dk s) \<or> (\<exists>e. unlock env pw' s = (Inl e, s))"
proof -
  from assms(2) obtain salt nonce where
    m: "get_meta (str ''salt'') s = Some salt" "salt \<noteq> []" "length nonce = NONCE_LEN"
      "get_meta (str ''wrapped'') s = Some (nonce @ le_wrap env (kek env pw salt) nonce dk (ascii_bytes VERIFIER))"
    unfolding sealed_def by blast
  have ne: "nonce \<noteq> []" using m(3) by (auto simp: NONCE_LEN_def)
  show ?thesis
  proof (cases "encodable pw' \<and> kek env pw' salt = kek env pw salt")
    case True
    then have "unlock env pw' s = unlock env pw s"
      using derive_kek [of pw' env salt] derive_kek [of pw env salt] assms(2) m ne by (auto simp: unlock_def steps sealed_def)
    then show ?thesis using unlock_opens [OF assms] by simp
  next
    case False
    show ?thesis
    proof (cases "encodable pw'")
      case True
      then obtain k where k: "derive env pw' (Some salt) = Inr k" "kek env pw' salt = hkdf env k ''key-wrap''" using derive_kek by blast
      have "unwrap_key env (kek env pw' salt) (nonce @ le_wrap env (kek env pw salt) nonce dk (ascii_bytes VERIFIER)) =
          Inl (BadPassword (str ''wrong password''))"
        using assms(1) m(3) False True by (simp add: unwrap_key_def wrap_ok_def NONCE_LEN_def)
      then show ?thesis using k m ne by (simp add: unlock_def steps)
    next
      case False
      then show ?thesis using m ne by (simp add: unlock_def steps derive_fails)
    qed
  qed
qed

lemma initialize_seals:
  assumes "wrap_ok env" "initialize env pw s = (Inr (), s')"
  shows "sealed env pw (le_rng env (Suc (lv_draws s)) 32) s'"
proof -
  have r: "length (le_rng env i n) = n" for i n using assms(1) by (simp add: wrap_ok_def rng_ok_def)
  have e: "encodable pw"
    using assms(2) by (cases "encodable pw") (auto simp: initialize_def steps derive_fails split: if_splits)
  then obtain k where k: "derive env pw (Some (le_rng env (lv_draws s) 16)) = Inr k"
    "kek env pw (le_rng env (lv_draws s) 16) = hkdf env k ''key-wrap''" using derive_kek by blast
  obtain v where v: "utf8_encode VERIFIER = Inr v" using verifier_text by blast
  let ?d = "lv_draws s" and ?dk = "le_rng env (Suc (lv_draws s)) 32"
  have s': "get_meta (str ''salt'') s' = Some (le_rng env ?d 16)"
    "get_meta (str ''wrapped'') s' = Some (le_rng env (Suc (Suc ?d)) NONCE_LEN @
       le_wrap env (hkdf env k ''key-wrap'') (le_rng env (Suc (Suc ?d)) NONCE_LEN) ?dk (ascii_bytes VERIFIER))"
    "get_meta (str ''verifier'') s' = Some (le_rng env (Suc (Suc (Suc ?d))) NONCE_LEN @
       c_seal (le_crypto env) (hkdf env ?dk ''metadata-encryption'') (le_rng env (Suc (Suc (Suc ?d))) NONCE_LEN) v)"
    "keys_of env ?dk s'"
    using assms(2) k v
    by (auto simp: initialize_def steps enc_meta_def install_keys_def set_meta_def get_meta_def keys_of_def split: if_splits)
  have "le_rng env ?d 16 \<noteq> []" using r [of ?d 16] by auto
  then show ?thesis by (intro sealedI [OF e s'(1) _ _ _ _ v s'(3) s'(4)]) (simp_all add: r s'(2) k(2))
qed

lemma change_result:
  assumes "wrap_ok env" "sealed env pw dk s" "change_password env old new s = (r, s')"
  shows "r = Inr () \<and> sealed env new dk s' \<or> (\<exists>e. r = Inl e \<and> same_keys s s')"
proof -
  have rl: "length (le_rng env i n) = n" for i n using assms(1) by (simp add: wrap_ok_def rng_ok_def)
  from assms(2) obtain salt nonce where
    m: "get_meta (str ''salt'') s = Some salt" "length nonce = NONCE_LEN"
      "get_meta (str ''wrapped'') s = Some (nonce @ le_wrap env (kek env pw salt) nonce dk (ascii_bytes VERIFIER))"
    unfolding sealed_def by blast
  have un: "unwrap_key env q (nonce @ le_wrap env (kek env pw salt) nonce dk (ascii_bytes VERIFIER)) =
      (if q = kek env pw salt then Inr dk else Inl (BadPassword (str ''wrong password'')))" for q
    using assms(1) m(2) by (simp add: unwrap_key_def wrap_ok_def NONCE_LEN_def)
  consider "length new < 6" | "derive env old (Some salt) = Inl UnicodeError"
    | k where "\<not> length new < 6" "derive env old (Some salt) = Inr k" by (cases "derive env old (Some salt)") (auto simp: derive_def utf8_encode_def split: if_splits)
  then show ?thesis
  proof cases
    case 1
    then show ?thesis using assms(3) by (auto simp: change_password_def steps same_keys_def split: if_splits)
  next
    case 2
    then show ?thesis using assms(3) m by (auto simp: change_password_def steps same_keys_def split: if_splits)
  next
    case 3
    show ?thesis
    proof (cases "hkdf env k ''key-wrap'' = kek env pw salt \<and> encodable new")
      case False
      then show ?thesis using assms(3) 3 m un derive_fails [of new env]
        by (cases "hkdf env k ''key-wrap'' = kek env pw salt") (auto simp: change_password_def steps same_keys_def split: if_splits)
    next
      case True
      let ?d = "lv_draws s"
      obtain k2 where k2: "derive env new (Some (le_rng env ?d 16)) = Inr k2" "kek env new (le_rng env ?d 16) = hkdf env k2 ''key-wrap''"
        using derive_kek True by blast
      have s': "r = Inr ()" "get_meta (str ''salt'') s' = Some (le_rng env ?d 16)"
        "get_meta (str ''wrapped'') s' = Some (le_rng env (Suc ?d) NONCE_LEN @
          le_wrap env (hkdf env k2 ''key-wrap'') (le_rng env (Suc ?d) NONCE_LEN) dk (ascii_bytes VERIFIER))"
        "get_meta (str ''verifier'') s' = get_meta (str ''verifier'') s" "lv_unlocked s' = lv_unlocked s" "keys_of env dk s' = keys_of env dk s"
        using assms(3) 3 m un True k2(1) by (auto simp: change_password_def steps set_meta_def get_meta_def keys_of_def split: if_splits)
      have "le_rng env ?d 16 \<noteq> []" using rl [of ?d 16] by auto
      obtain vnonce vtext where v: "length vnonce = NONCE_LEN" "utf8_encode VERIFIER = Inr vtext"
        "get_meta (str ''verifier'') s = Some (vnonce @ c_seal (le_crypto env) (hkdf env dk ''metadata-encryption'') vnonce vtext)"
        using assms(2) unfolding sealed_def by blast
      have "lv_unlocked s' \<Longrightarrow> keys_of env dk s'" using assms(2) s' unfolding sealed_def by blast
      with \<open>le_rng env ?d 16 \<noteq> []\<close> have "sealed env new dk s'"
        using True v by (intro sealedI [OF _ s'(2) _ _ v(1) _ v(2)]) (simp_all add: rl s' k2(2))
      then show ?thesis using s'(1) by blast
    qed
  qed
qed

section \<open>The state machine\<close>

text \<open>\<open>key_run env pw dk s\<close>: \<open>s\<close> is reached by calls in any order, \<open>pw\<close> is the password last set.\<close>

inductive key_run :: "lv_env \<Rightarrow> pystr \<Rightarrow> bytes \<Rightarrow> lv \<Rightarrow> bool" for env where
  initialized: "initialize env pw s = (Inr (), s') \<Longrightarrow> key_run env pw (le_rng env (Suc (lv_draws s)) 32) s'"
| unlocked: "key_run env pw dk s \<Longrightarrow> unlock env pw' s = (r, s') \<Longrightarrow> key_run env pw dk s'"
| changed: "key_run env pw dk s \<Longrightarrow> change_password env old new s = (Inr (), s') \<Longrightarrow> key_run env new dk s'"
| not_changed: "key_run env pw dk s \<Longrightarrow> change_password env old new s = (Inl e, s') \<Longrightarrow> key_run env pw dk s'"
| again: "key_run env pw dk s \<Longrightarrow> initialize env pw' s = (Inl e, s') \<Longrightarrow> initialized s \<Longrightarrow> key_run env pw dk s'"
| locked: "key_run env pw dk s \<Longrightarrow> key_run env pw dk (lock s)"
| works: "key_run env pw dk s \<Longrightarrow> same_keys s s' \<Longrightarrow> key_run env pw dk s'"

lemma sealed_same: "sealed env pw dk s \<Longrightarrow> same_keys s s' \<Longrightarrow> sealed env pw dk s'"
  by (auto simp: sealed_def same_keys_def get_meta_def keys_of_def)

lemma sealed_lock: "sealed env pw dk s \<Longrightarrow> sealed env pw dk (lock s)"
  unfolding sealed_def lock_def get_meta_def by simp

lemma sealed_install: "sealed env pw dk s \<Longrightarrow> sealed env pw dk (install_keys env dk s)"
  unfolding sealed_def install_keys_def get_meta_def keys_of_def by simp

lemma key_run_sealed:
  assumes "wrap_ok env"
  shows "key_run env pw dk s \<Longrightarrow> sealed env pw dk s"
proof (induction rule: key_run.induct)
  case (initialized pw s s')
  then show ?case by (rule initialize_seals [OF assms])
next
  case (unlocked pw dk s pw' r s')
  then show ?case using unlock_other [OF assms unlocked.IH, of pw'] sealed_install [OF unlocked.IH] by auto
next
  case (changed pw dk s old new s')
  then show ?case using change_result [OF assms changed.IH changed.hyps(2)] by auto
next
  case (not_changed pw dk s old new e s')
  then have "same_keys s s'" using change_result [OF assms not_changed.IH not_changed.hyps(2)] by auto
  then show ?case by (rule sealed_same [OF not_changed.IH])
next
  case (again pw dk s pw' e s')
  then have "s' = s" by (auto simp: initialize_def raise_def)
  then show ?case using again.IH by simp
next
  case (locked pw dk s)
  then show ?case by (intro sealed_lock)
next
  case (works pw dk s s')
  then show ?case using sealed_same [OF works.IH works.hyps(2)] by simp
qed

lemma initialize_runs:
  assumes "encodable pw" "6 \<le> length pw" "\<not> initialized s"
  shows "fst (initialize env pw s) = Inr ()"
proof -
  obtain k where "derive env pw (Some (le_rng env (lv_draws s) 16)) = Inr k" using derive_kek [OF assms(1)] by blast
  moreover obtain v where "utf8_encode VERIFIER = Inr v" using verifier_text by blast
  ultimately show ?thesis using assms(2,3) by (simp add: initialize_def steps enc_meta_def)
qed

lemma change_runs:
  assumes "wrap_ok env" "sealed env pw dk s" "encodable new" "6 \<le> length new"
  shows "fst (change_password env pw new s) = Inr ()"
proof -
  from assms(2) obtain salt nonce where
    m: "get_meta (str ''salt'') s = Some salt" "length nonce = NONCE_LEN" "encodable pw"
      "get_meta (str ''wrapped'') s = Some (nonce @ le_wrap env (kek env pw salt) nonce dk (ascii_bytes VERIFIER))"
    unfolding sealed_def by blast
  have "unwrap_key env (kek env pw salt) (nonce @ le_wrap env (kek env pw salt) nonce dk (ascii_bytes VERIFIER)) = Inr dk"
    using assms(1) m(2) by (simp add: unwrap_key_def wrap_ok_def NONCE_LEN_def)
  moreover obtain k where "derive env pw (Some salt) = Inr k" "kek env pw salt = hkdf env k ''key-wrap''"
    using derive_kek [OF m(3)] by blast
  moreover obtain k2 where "derive env new (Some (le_rng env (lv_draws s) 16)) = Inr k2" using derive_kek [OF assms(3)] by blast
  ultimately show ?thesis using assms(4) m by (simp add: change_password_def steps)
qed

section \<open>A concrete environment\<close>

text \<open>Wrapping marks every byte of the key and ends it with a zero.\<close>

definition mark :: "bytes \<Rightarrow> bytes" where
  "mark k = concat (map (\<lambda>b. [1, b]) k) @ [0]"

definition demo_loads :: "pystr \<Rightarrow> json res" where
  "demo_loads t = (if \<exists>j. plain_json j \<and> enc (\<lambda>_. []) j = t then Inr (SOME j. plain_json j \<and> enc (\<lambda>_. []) j = t) else Inl ValueError)"

definition demo_env :: lv_env where
  "demo_env = \<lparr>le_crypto = plain_crypto, le_scrypt = \<lambda>pw salt. pw, le_wrap = \<lambda>k n p a. mark k @ p,
     le_unwrap = \<lambda>k n ct a. if take (length (mark k)) ct = mark k then Inr (drop (length (mark k)) ct) else Inl InvalidTag,
     le_rng = count_rng, le_uuid = str_nat, le_time = of_nat, le_dumps = \<lambda>b. enc (\<lambda>_. []), le_loads = demo_loads\<rparr>"

lemma mark_prefix: "take (length (mark k')) (mark k @ p) = mark k' \<Longrightarrow> k' = k"
proof (induction k arbitrary: k')
  case Nil
  then show ?case by (cases k') (auto simp: mark_def)
next
  case (Cons b k)
  then show ?case by (cases k') (auto simp: mark_def)
qed

lemma take_mark: "take (length (mark k)) (mark k @ p) = mark k"
  by simp

lemma wrap_ok_demo: "wrap_ok demo_env"
  unfolding wrap_ok_def
proof (intro conjI allI impI)
  show "crypto_ok (le_crypto demo_env)" by (simp add: demo_env_def plain_crypto_def crypto_ok_def min_def)
  show "rng_ok (le_rng demo_env)" by (simp add: demo_env_def rng_ok_def count_rng_def)
qed (auto simp: demo_env_def take_mark simp del: take_append dest: mark_prefix)

text \<open>Another password, by the key it derives for the salt of the file.\<close>

lemma other_password_refused:
  assumes "wrap_ok env" "get_meta (str ''salt'') s = Some salt" "salt \<noteq> []" "length nonce = NONCE_LEN"
    and "get_meta (str ''wrapped'') s = Some (nonce @ le_wrap env (kek env pw salt) nonce dk (ascii_bytes VERIFIER))"
    and "encodable pw'" "kek env pw' salt \<noteq> kek env pw salt"
  shows "unlock env pw' s = (Inl (BadPassword (str ''wrong password'')), s)"
    and "6 \<le> length new \<Longrightarrow> change_password env pw' new s = (Inl (BadPassword (str ''wrong password'')), s)"
proof -
  obtain k where k: "derive env pw' (Some salt) = Inr k" "kek env pw' salt = hkdf env k ''key-wrap''" using derive_kek [OF assms(6)] by blast
  have u: "unwrap_key env (hkdf env k ''key-wrap'') (nonce @ le_wrap env (kek env pw salt) nonce dk (ascii_bytes VERIFIER)) =
      Inl (BadPassword (str ''wrong password''))"
    using assms(1,4,7) k(2) by (simp add: unwrap_key_def wrap_ok_def NONCE_LEN_def)
  have "nonce \<noteq> []" using assms(4) by (auto simp: NONCE_LEN_def)
  then show "unlock env pw' s = (Inl (BadPassword (str ''wrong password'')), s)" using assms(2,3,5) k u by (simp add: unlock_def steps)
  show "6 \<le> length new \<Longrightarrow> change_password env pw' new s = (Inl (BadPassword (str ''wrong password'')), s)"
    using assms(2,5) k u by (simp add: change_password_def steps)
qed

text \<open>C30. The password protocol, over any run of initialisation, unlocking, password changes, locking and work that
  leaves the keys alone. The file holds the data key drawn at initialisation, wrapped under the key that the password
  last set derives from the salt in the file; that password opens the vault with this data key; a password that
  derives another key from the salt is refused by \<open>unlock\<close> and by \<open>change_password\<close> with nothing changed; and while
  the vault is unlocked its keys are those of the data key, so a changed password keeps every value readable.\<close>

theorem password_protocol:
  assumes "wrap_ok env" "key_run env pw dk s"
  shows "\<exists>salt nonce. get_meta (str ''salt'') s = Some salt \<and> length nonce = NONCE_LEN \<and>
    get_meta (str ''wrapped'') s = Some (nonce @ le_wrap env (kek env pw salt) nonce dk (ascii_bytes VERIFIER)) \<and>
    unlock env pw s = (Inr (), install_keys env dk s) \<and>
    (\<forall>pw' new. encodable pw' \<longrightarrow> kek env pw' salt \<noteq> kek env pw salt \<longrightarrow> 6 \<le> length new \<longrightarrow>
       unlock env pw' s = (Inl (BadPassword (str ''wrong password'')), s) \<and>
       change_password env pw' new s = (Inl (BadPassword (str ''wrong password'')), s)) \<and>
    (lv_unlocked s \<longrightarrow> keys_of env dk s)"
proof -
  have sd: "sealed env pw dk s" by (rule key_run_sealed [OF assms])
  then obtain salt nonce where
    m: "get_meta (str ''salt'') s = Some salt" "salt \<noteq> []" "length nonce = NONCE_LEN"
      "get_meta (str ''wrapped'') s = Some (nonce @ le_wrap env (kek env pw salt) nonce dk (ascii_bytes VERIFIER))"
    and keys: "lv_unlocked s \<longrightarrow> keys_of env dk s" unfolding sealed_def by blast
  show ?thesis
    using m keys unlock_opens [OF assms(1) sd] other_password_refused [OF assms(1) m] by (intro exI [of _ salt] exI [of _ nonce]) simp
qed

text \<open>A vault made with one password and changed to another: the new one opens it, the old one is refused.\<close>

lemma password_protocol_witness:
  "\<exists>s. unlock demo_env (str ''second'') s = (Inr (), install_keys demo_env (replicate 32 1) s) \<and>
    unlock demo_env (str ''first!'') s = (Inl (BadPassword (str ''wrong password'')), s) \<and>
    change_password demo_env (str ''first!'') (str ''third!'') s = (Inl (BadPassword (str ''wrong password'')), s)"
proof -
  have e: "encodable (str ''first!'')" "encodable (str ''second'')"
    by (simp_all add: encodable_def str_def surrogate_def)
  have "\<not> initialized new_vault" by (simp add: initialized_def get_meta_def new_vault_def)
  then obtain s1 where s1: "initialize demo_env (str ''first!'') new_vault = (Inr (), s1)"
    using initialize_runs [OF e(1), of new_vault demo_env] by (cases "initialize demo_env (str ''first!'') new_vault") auto
  have "le_rng demo_env (Suc (lv_draws new_vault)) 32 = replicate 32 1" by (simp add: demo_env_def count_rng_def new_vault_def)
  then have r1: "key_run demo_env (str ''first!'') (replicate 32 1) (lock s1)"
    using key_run.locked [OF key_run.initialized [OF s1]] by simp
  obtain s2 where "change_password demo_env (str ''first!'') (str ''second'') (lock s1) = (Inr (), s2)"
    using change_runs [OF wrap_ok_demo key_run_sealed [OF wrap_ok_demo r1] e(2)]
    by (cases "change_password demo_env (str ''first!'') (str ''second'') (lock s1)") auto
  then have r2: "key_run demo_env (str ''second'') (replicate 32 1) s2" by (rule key_run.changed [OF r1])
  have "kek demo_env (str ''first!'') salt \<noteq> kek demo_env (str ''second'') salt" for salt
    using e by (simp add: kek_def derive_def utf8_encode_def hkdf_def demo_env_def plain_crypto_def str_def enc1_def encodable_def surrogate_def)
  moreover have "6 \<le> length (str ''third!'')" by (simp add: str_def)
  ultimately show ?thesis using password_protocol [OF wrap_ok_demo r2] e(1) by blast
qed

section \<open>Locked\<close>

text \<open>A locked vault gives nothing away: listing projects, entities, fingerprint look-ups, documents and
  restore maps all raise \<open>VaultLocked\<close> and change nothing; locking leaves no key, no cached entity and
  no index behind.\<close>

lemma locked_reads:
  "fst (list_projects env (lock s)) = Inl VaultLocked \<and> entities env pid (lock s) = (Inl VaultLocked, lock s) \<and>
   entity_at env pid category n (lock s) = (Inl VaultLocked, lock s) \<and>
   by_fingerprint env pid fp (lock s) = (Inl VaultLocked, lock s) \<and>
   restore_map env pid digest (lock s) = (Inl VaultLocked, lock s) \<and> documents env pid (lock s) = (Inl VaultLocked, lock s) \<and>
   lv_master (lock s) = zero_key \<and> lv_fpkey (lock s) = zero_key \<and> lv_metakey (lock s) = zero_key \<and>
   lv_cache (lock s) = [] \<and> lv_index (lock s) = []"
  by (simp add: list_projects_def entities_def entity_at_def by_fingerprint_def restore_map_def documents_def load_def need_def steps
      lock_def)

end
