(* ===== verification/Label_Cache.thy ===== *)
theory Label_Cache
  imports Label_Keys
begin

text \<open>
  The entities in memory and in the file (\<open>_load\<close> and the entity operations of
  \<open>app/desktop/vaultdb.py\<close>): whatever is called, the cache, the index of fingerprints and the
  objects are what \<open>_load\<close> would read from the file.
\<close>

section \<open>An entity of the file\<close>

definition rows :: "lv \<Rightarrow> pystr \<Rightarrow> entity_row list" where
  "rows s pid = filter (\<lambda>r. er_pid r = pid) (lv_entities s)"

definition vkey :: "variant_row \<Rightarrow> lkey" where "vkey v = (vr_cat v, vr_n v)"

definition variants_of :: "lv \<Rightarrow> pystr \<Rightarrow> lkey \<Rightarrow> variant_row list" where
  "variants_of s pid k = filter (\<lambda>v. vr_pid v = pid \<and> vkey v = k) (lv_variants s)"

definition add_read :: "lv_env \<Rightarrow> lv \<Rightarrow> variant_row \<Rightarrow> entity \<Rightarrow> entity res" where
  "add_read env s v e = rbind (decrypt (self_vault env s) (vr_pid v) (vr_value v)) (\<lambda>x. Inr (with_variant (vr_fp v) x e))"

definition file_entity :: "lv_env \<Rightarrow> lv \<Rightarrow> entity_row \<Rightarrow> entity res" where
  "file_entity env s r = rbind (read_entity env s r) (rfold (add_read env s) (variants_of s (er_pid r) (row_key r)))"

text \<open>The constraints of the schema, fingerprints used once in a project, and no variant without its entity.\<close>

definition fps_of :: "lv \<Rightarrow> pystr \<Rightarrow> pystr list" where
  "fps_of s pid = map er_fp (rows s pid) @ map vr_fp (filter (\<lambda>v. vr_pid v = pid) (lv_variants s))"

definition tables_ok :: "lv \<Rightarrow> bool" where
  "tables_ok s \<longleftrightarrow> (\<forall>pid. distinct (map row_key (rows s pid)) \<and> distinct (fps_of s pid)) \<and>
     (\<forall>v\<in>set (lv_variants s). vkey v \<in> row_key ` set (rows s (vr_pid v)))"

lemma read_entity_keys: "read_entity env s r = Inr e \<Longrightarrow> en_key e = row_key r \<and> en_pid e = er_pid r \<and> en_fp e = er_fp r \<and> en_variants e = []"
  by (auto simp: read_entity_def rbind_Inr_iff en_key_def row_key_def)

lemma read_entities_iff:
  "distinct (map row_key rs) \<Longrightarrow> row_key ` set rs \<inter> fst ` set acc = {} \<Longrightarrow>
   read_entities env s rs acc = Inr kes \<longleftrightarrow>
     (\<exists>new. kes = acc @ new \<and> list_all2 (\<lambda>r (k, e). k = row_key r \<and> read_entity env s r = Inr e) rs new)"
proof (induction rs arbitrary: acc)
  case (Cons r rs)
  have fresh: "row_key r \<notin> fst ` set acc" using Cons.prems(2) by auto
  show ?case
  proof (cases "read_entity env s r")
    case (Inl x)
    then show ?thesis by (auto simp: list_all2_Cons1)
  next
    case (Inr e)
    have "read_entities env s (r # rs) acc = read_entities env s rs (acc @ [(row_key r, e)])"
      using Inr update_fresh [OF fresh] by simp
    moreover have "row_key ` set rs \<inter> fst ` set (acc @ [(row_key r, e)]) = {}" using Cons.prems by auto
    ultimately show ?thesis using Cons.IH [of "acc @ [(row_key r, e)]"] Cons.prems(1) Inr by (auto simp: list_all2_Cons1 simp del: split_paired_Ex)
  qed
qed auto

lemma update_mapped:
  assumes "distinct (map fst kes)" "map_of kes k = Some e"
  shows "AList.update k e' kes = map (\<lambda>(k', x). (k', if k' = k then e' else x)) kes"
  using assms
proof (induction kes)
  case (Cons p kes)
  show ?case
  proof (cases "fst p = k")
    case True
    then have "k' \<noteq> k" if "(k', x) \<in> set kes" for k' x using Cons.prems(1) that by (cases p) (force simp: image_iff)
    then have "map (\<lambda>(k', x). (k', if k' = k then e' else x)) kes = kes" by (intro map_idI) (auto split: prod.splits)
    then show ?thesis using True by (cases p) simp
  next
    case False
    then show ?thesis using Cons by (cases p) auto
  qed
qed simp

lemma read_variants_iff:
  "distinct (map fst kes) \<Longrightarrow> read_variants env s vs kes = Inr out \<longleftrightarrow>
     list_all2 (\<lambda>(k, e) (k', e'). k' = k \<and> rfold (add_read env s) (filter (\<lambda>v. vkey v = k) vs) e = Inr e') kes out"
proof (induction vs arbitrary: kes)
  case Nil
  have "list_all2 (\<lambda>(k, e) (k', e'). k' = k \<and> e = e') kes out \<longleftrightarrow> kes = out"
    by (induction kes arbitrary: out) (auto simp: list_all2_Cons1)
  then show ?case by simp
next
  case (Cons v vs)
  show ?case
  proof (cases "map_of kes (vkey v)")
    case None
    then have k: "fst p \<noteq> vkey v" if "p \<in> set kes" for p using that by (force simp: map_of_eq_None_iff)
    then have "list_all2 (\<lambda>(k, e) (k', e'). k' = k \<and> rfold (add_read env s) (filter (\<lambda>v. vkey v = k) (v # vs)) e = Inr e') kes out \<longleftrightarrow>
        list_all2 (\<lambda>(k, e) (k', e'). k' = k \<and> rfold (add_read env s) (filter (\<lambda>v. vkey v = k) vs) e = Inr e') kes out"
    proof (intro list.rel_cong refl)
      fix p q assume "p \<in> set kes"
      then have "filter (\<lambda>v. vkey v = fst p) (v # vs) = filter (\<lambda>v. vkey v = fst p) vs" using k [of p] by simp
      then show "(case p of (k, e) \<Rightarrow> \<lambda>(k', e'). k' = k \<and> rfold (add_read env s) (filter (\<lambda>v. vkey v = k) (v # vs)) e = Inr e') q =
          (case p of (k, e) \<Rightarrow> \<lambda>(k', e'). k' = k \<and> rfold (add_read env s) (filter (\<lambda>v. vkey v = k) vs) e = Inr e') q"
        by (cases p) simp
    qed
    then show ?thesis using None Cons by (simp add: vkey_def)
  next
    case (Some e)
    let ?f = "\<lambda>v. decrypt (self_vault env s) (vr_pid v) (vr_value v)"
    show ?thesis
    proof (cases "?f v")
      case (Inl x)
      have "(vkey v, e) \<in> set kes" using Some by (rule map_of_SomeD)
      then obtain i where i: "i < length kes" "kes ! i = (vkey v, e)" by (auto simp: in_set_conv_nth)
      then have "\<not> list_all2 (\<lambda>(k, e) (k', e'). k' = k \<and> rfold (add_read env s) (filter (\<lambda>v. vkey v = k) (v # vs)) e = Inr e') kes out"
        using Inl by (auto simp: list_all2_conv_all_nth add_read_def)
      then show ?thesis using Some Inl by (simp add: vkey_def)
    next
      case (Inr x)
      let ?kes = "map (\<lambda>(k', y). (k', if k' = vkey v then with_variant (vr_fp v) x e else y)) kes"
      have "read_variants env s (v # vs) kes = read_variants env s vs ?kes"
        using Some Inr update_mapped [OF Cons.prems Some] by (simp add: vkey_def)
      moreover have "distinct (map fst ?kes)" using Cons.prems by (simp add: comp_def case_prod_beta)
      ultimately have "read_variants env s (v # vs) kes = Inr out \<longleftrightarrow>
          list_all2 (\<lambda>(k, e) (k', e'). k' = k \<and> rfold (add_read env s) (filter (\<lambda>v. vkey v = k) vs) e = Inr e') ?kes out"
        by (simp only: Cons.IH)
      also have "\<dots> \<longleftrightarrow> list_all2 (\<lambda>(k, y) (k', e'). k' = k \<and> rfold (add_read env s) (filter (\<lambda>v. vkey v = k) vs)
            (if k = vkey v then with_variant (vr_fp v) x e else y) = Inr e') kes out"
        by (simp add: list_all2_map1 case_prod_beta [abs_def])
      also have "\<dots> \<longleftrightarrow> list_all2 (\<lambda>(k, y) (k', e'). k' = k \<and> rfold (add_read env s) (filter (\<lambda>v. vkey v = k) (v # vs)) y = Inr e') kes out"
      proof (intro list.rel_cong refl)
        fix p q assume p: "p \<in> set kes"
        obtain k y where ky: "p = (k, y)" by (cases p)
        have "k = vkey v \<Longrightarrow> y = e" using p ky Some Cons.prems by (metis map_of_eq_Some_iff option.inject)
        then show "(case p of (k, y) \<Rightarrow> \<lambda>(k', e'). k' = k \<and> rfold (add_read env s) (filter (\<lambda>v. vkey v = k) vs)
              (if k = vkey v then with_variant (vr_fp v) x e else y) = Inr e') q =
            (case p of (k, y) \<Rightarrow> \<lambda>(k', e'). k' = k \<and> rfold (add_read env s) (filter (\<lambda>v. vkey v = k) (v # vs)) y = Inr e') q"
          using Inr ky by (auto simp: add_read_def split: prod.split)
      qed
      finally show ?thesis .
    qed
  qed
qed

lemma read_project_iff:
  assumes "tables_ok s"
  shows "read_project env s pid = Inr kes \<longleftrightarrow> list_all2 (\<lambda>r (k, e). k = row_key r \<and> file_entity env s r = Inr e) (rows s pid) kes"
proof -
  let ?R = "\<lambda>r (k, e). k = row_key r \<and> read_entity env s r = Inr e"
  let ?V = "\<lambda>(k, e) (k', e'). k' = k \<and> rfold (add_read env s) (filter (\<lambda>v. vkey v = k) (filter (\<lambda>v. vr_pid v = pid) (lv_variants s))) e = Inr e'"
  have d: "distinct (map row_key (rows s pid))" using assms by (simp add: tables_ok_def)
  have ents: "read_entities env s (rows s pid) [] = Inr new \<longleftrightarrow> list_all2 ?R (rows s pid) new" for new
    using read_entities_iff [OF d, of "[]"] by auto
  have dk: "distinct (map fst new)" if "list_all2 ?R (rows s pid) new" for new
  proof -
    have "map fst new = map row_key (rows s pid)"
      using that by (induction rule: list_all2_induct) auto
    then show ?thesis using d by simp
  qed
  have "read_project env s pid = Inr kes \<longleftrightarrow>
      (\<exists>new. list_all2 ?R (rows s pid) new \<and> list_all2 ?V new kes)"
    unfolding read_project_def rbind_Inr_iff rows_def [symmetric] ents using read_variants_iff [OF dk] by blast
  also have "\<dots> \<longleftrightarrow> list_all2 (?R OO ?V) (rows s pid) kes" by (simp add: list.rel_compp relcompp_apply)
  also have "\<dots> \<longleftrightarrow> list_all2 (\<lambda>r (k, e). k = row_key r \<and> file_entity env s r = Inr e) (rows s pid) kes"
  proof (intro list.rel_cong refl)
    fix r q assume "r \<in> set (rows s pid)"
    then have "er_pid r = pid" by (simp add: rows_def)
    then show "(?R OO ?V) r q = (case q of (k, e) \<Rightarrow> k = row_key r \<and> file_entity env s r = Inr e)"
      by (cases q) (auto simp: relcompp_apply file_entity_def variants_of_def rbind_Inr_iff conj_commute)
  qed
  finally show ?thesis .
qed

section \<open>The memory agrees with the file\<close>

definition fps :: "entity \<Rightarrow> pystr set" where
  "fps e = insert (en_fp e) (fst ` set (en_variants e))"

definition entry_ok :: "lv_env \<Rightarrow> lv \<Rightarrow> entity_row \<Rightarrow> lkey \<times> nat \<Rightarrow> bool" where
  "entry_ok env s r = (\<lambda>(k, a). k = row_key r \<and> file_entity env s r = Inr (deref s a))"

definition index_ok :: "lv \<Rightarrow> (lkey \<times> nat) list \<Rightarrow> (pystr \<times> nat) list \<Rightarrow> bool" where
  "index_ok s ents idx \<longleftrightarrow> (\<forall>fp a. map_of idx fp = Some a \<longleftrightarrow> a \<in> snd ` set ents \<and> fp \<in> fps (deref s a))"

definition addresses :: "lv \<Rightarrow> nat list" where
  "addresses s = concat (map (\<lambda>(pid, ents). map snd ents) (lv_cache s))"

definition coherent :: "lv_env \<Rightarrow> lv \<Rightarrow> bool" where
  "coherent env s \<longleftrightarrow> tables_ok s \<and> distinct (map fst (lv_cache s)) \<and> distinct (addresses s) \<and>
     (\<forall>a\<in>set (addresses s). a < length (lv_heap s)) \<and>
     (\<forall>(pid, ents)\<in>set (lv_cache s). list_all2 (entry_ok env s) (rows s pid) ents \<and>
        (\<exists>idx. map_of (lv_index s) pid = Some idx \<and> index_ok s ents idx))"

lemma rfold_with_variants:
  "rfold (add_read env s) vs e = Inr e' \<Longrightarrow> fps e' = fps e \<union> vr_fp ` set vs \<and> en_key e' = en_key e \<and> en_pid e' = en_pid e \<and> en_fp e' = en_fp e"
proof (induction vs arbitrary: e)
  case (Cons v vs)
  then obtain y where y: "add_read env s v e = Inr y" "rfold (add_read env s) vs y = Inr e'" by (auto simp: rbind_Inr_iff)
  then obtain x where yx: "y = with_variant (vr_fp v) x e" by (auto simp: add_read_def rbind_Inr_iff)
  note x = y(2) [unfolded yx]
  have "fst ` set (AList.update k y d) = insert k (fst ` set d)" for k y and d :: "(pystr \<times> pystr) list"
    by (simp add: dom_map_of_conv_image_fst [symmetric])
  then have "fps (with_variant (vr_fp v) x e) = insert (vr_fp v) (fps e)" by (auto simp: fps_def with_variant_def)
  then show ?case using Cons.IH [OF x] by (auto simp: with_variant_def en_key_def)
qed simp

lemma file_entity_keys:
  "file_entity env s r = Inr e \<Longrightarrow> en_key e = row_key r \<and> en_pid e = er_pid r \<and>
     fps e = insert (er_fp r) (vr_fp ` set (variants_of s (er_pid r) (row_key r)))"
  by (auto simp: file_entity_def rbind_Inr_iff dest!: rfold_with_variants read_entity_keys) (auto simp: fps_def)

text \<open>What an entity of the file depends on.\<close>

lemma file_entity_cong:
  assumes "variants_of s' (er_pid r) (row_key r) = variants_of s (er_pid r) (row_key r)"
    "lv_master s' = lv_master s" "lv_metakey s' = lv_metakey s"
  shows "file_entity env s' r = file_entity env s r"
proof -
  have d: "decrypt (self_vault env s') = decrypt (self_vault env s)"
    using assms(2) by (intro ext) (simp add: decrypt_def derive_dek_def self_vault_def)
  have "add_read env s' = add_read env s" by (intro ext) (simp add: add_read_def d)
  then show ?thesis using assms by (simp add: file_entity_def read_entity_def d)
qed

lemma fps_disjoint:
  assumes "tables_ok s" "r \<in> set (rows s pid)" "r' \<in> set (rows s pid)" "file_entity env s r = Inr e" "file_entity env s r' = Inr e'"
    "fp \<in> fps e" "fp \<in> fps e'"
  shows "r = r'"
proof -
  have pid: "er_pid r = pid" "er_pid r' = pid" using assms(2,3) by (simp_all add: rows_def)
  have d: "distinct (map er_fp (rows s pid))" "distinct (map vr_fp (filter (\<lambda>v. vr_pid v = pid) (lv_variants s)))"
    "er_fp ` set (rows s pid) \<inter> vr_fp ` set (filter (\<lambda>v. vr_pid v = pid) (lv_variants s)) = {}"
    "distinct (map row_key (rows s pid))"
    using assms(1) unfolding tables_ok_def fps_of_def distinct_append set_map by blast+
  have v: "set (variants_of s pid k) = {v \<in> set (filter (\<lambda>v. vr_pid v = pid) (lv_variants s)). vkey v = k}" for k
    by (auto simp: variants_of_def)
  have fe: "fps e = insert (er_fp r) (vr_fp ` set (variants_of s pid (row_key r)))"
    "fps e' = insert (er_fp r') (vr_fp ` set (variants_of s pid (row_key r')))"
    using file_entity_keys [OF assms(4)] file_entity_keys [OF assms(5)] pid by simp_all
  consider "fp = er_fp r" "fp = er_fp r'"
    | v' v'' where "v' \<in> set (variants_of s pid (row_key r))" "v'' \<in> set (variants_of s pid (row_key r'))" "fp = vr_fp v'" "fp = vr_fp v''"
    using assms(6,7) assms(2,3) d(3) unfolding fe v by (auto simp: disjoint_iff image_iff)
  then show ?thesis
  proof cases
    case 1
    then show ?thesis using d(1) assms(2,3) by (auto simp: distinct_map dest: inj_onD)
  next
    case 2
    then have "v' = v''" using d(2) unfolding v by (auto simp: distinct_map dest: inj_onD)
    then have "row_key r = row_key r'" using 2 unfolding v by simp
    then show ?thesis using d(4) assms(2,3) by (auto simp: distinct_map dest: inj_onD)
  qed
qed

lemma index_entity_map: "map_of (index_entity e a idx) fp = (if fp \<in> fps e then Some a else map_of idx fp)"
proof -
  have "map_of (foldl (\<lambda>m fp. AList.update fp a m) idx l) fp = (if fp \<in> set l then Some a else map_of idx fp)" for l
    by (induction l arbitrary: idx) auto
  from this [of "en_fp e # map fst (en_variants e)"] show ?thesis unfolding index_entity_def fps_def by (simp del: foldl_Cons)
qed

lemma build_index_map:
  assumes "\<And>e a e' a' fp. (e, a) \<in> set es \<Longrightarrow> (e', a') \<in> set es \<Longrightarrow> fp \<in> fps e \<Longrightarrow> fp \<in> fps e' \<Longrightarrow> a = a'"
  shows "map_of (build_index es idx) fp = Some a \<longleftrightarrow> (\<exists>e. (e, a) \<in> set es \<and> fp \<in> fps e) \<or>
     ((\<forall>(e, a')\<in>set es. fp \<notin> fps e) \<and> map_of idx fp = Some a)"
  using assms
proof (induction es arbitrary: idx)
  case (Cons p es)
  obtain e0 a0 where p: "p = (e0, a0)" by (cases p)
  have "map_of (build_index es (index_entity e0 a0 idx)) fp = Some a \<longleftrightarrow> (\<exists>e. (e, a) \<in> set es \<and> fp \<in> fps e) \<or>
     ((\<forall>(e, a')\<in>set es. fp \<notin> fps e) \<and> map_of (index_entity e0 a0 idx) fp = Some a)"
    by (rule Cons.IH) (meson Cons.prems list.set_intros(2))
  moreover have "a' = a0" if "(e, a') \<in> set es" "fp \<in> fps e" "fp \<in> fps e0" for e a'
    using Cons.prems [of e a' e0 a0 fp] that p by auto
  ultimately show ?case unfolding p by (auto simp: index_entity_map)
qed simp

definition project_ok :: "lv_env \<Rightarrow> lv \<Rightarrow> pystr \<Rightarrow> (lkey \<times> nat) list \<Rightarrow> bool" where
  "project_ok env s pid ents \<longleftrightarrow> list_all2 (entry_ok env s) (rows s pid) ents \<and>
     (\<exists>idx. map_of (lv_index s) pid = Some idx \<and> index_ok s ents idx)"

lemma coherentI:
  assumes "tables_ok s" "distinct (map fst (lv_cache s))" "distinct (addresses s)"
    "\<And>a. a \<in> set (addresses s) \<Longrightarrow> a < length (lv_heap s)"
    "\<And>pid ents. map_of (lv_cache s) pid = Some ents \<Longrightarrow> project_ok env s pid ents"
  shows "coherent env s"
  unfolding coherent_def using assms by (auto simp: project_ok_def dest!: map_of_is_SomeI [OF assms(2)])

lemma coherentD:
  assumes "coherent env s"
  shows "tables_ok s" "distinct (map fst (lv_cache s))" "distinct (addresses s)"
    "\<And>a. a \<in> set (addresses s) \<Longrightarrow> a < length (lv_heap s)"
    "\<And>pid ents. map_of (lv_cache s) pid = Some ents \<Longrightarrow> project_ok env s pid ents"
  using assms unfolding coherent_def project_ok_def by (auto dest!: map_of_SomeD)

lemma tables_ok_cong: "lv_entities s' = lv_entities s \<Longrightarrow> lv_variants s' = lv_variants s \<Longrightarrow> tables_ok s' = tables_ok s"
  by (simp add: tables_ok_def rows_def fps_of_def)

text \<open>Only the tables of entities and variants, the keys and the memory matter.\<close>

lemma project_ok_cong:
  assumes "rows s' pid = rows s pid" "\<And>r. r \<in> set (rows s pid) \<Longrightarrow> file_entity env s' r = file_entity env s r"
    "\<And>k a. (k, a) \<in> set ents \<Longrightarrow> deref s' a = deref s a" "map_of (lv_index s') pid = map_of (lv_index s) pid"
    "project_ok env s pid ents"
  shows "project_ok env s' pid ents"
proof -
  have "list_all2 (entry_ok env s') (rows s' pid) ents"
    using assms(5) unfolding project_ok_def assms(1)
    by (auto simp: entry_ok_def assms(2,3) elim!: list.rel_mono_strong)
  moreover have "index_ok s ents idx \<Longrightarrow> index_ok s' ents idx" for idx
    unfolding index_ok_def using assms(3) by (metis (no_types, lifting) imageE prod.collapse)
  ultimately show ?thesis using assms(4,5) unfolding project_ok_def by auto
qed

lemma coherent_frame:
  assumes "coherent env s" "lv_entities s' = lv_entities s" "lv_variants s' = lv_variants s" "lv_master s' = lv_master s"
    "lv_metakey s' = lv_metakey s" "lv_heap s' = lv_heap s" "lv_cache s' = lv_cache s" "lv_index s' = lv_index s"
  shows "coherent env s'"
proof (rule coherentI)
  have r: "rows s' pid = rows s pid" "fps_of s' pid = fps_of s pid" for pid using assms(2,3) by (simp_all add: rows_def fps_of_def)
  show "tables_ok s'" using coherentD(1) [OF assms(1)] tables_ok_cong [OF assms(2,3)] by simp
  have v: "file_entity env s' r = file_entity env s r" for r
    using assms by (intro file_entity_cong) (simp_all add: variants_of_def)
  show "project_ok env s' pid ents" if "map_of (lv_cache s') pid = Some ents" for pid ents
    using coherentD(5) [OF assms(1), of pid ents] that
    by (intro project_ok_cong [of s' pid s env ents]) (simp_all add: r v assms deref_def)
qed (use coherentD [OF assms(1)] in \<open>simp_all add: assms addresses_def\<close>)

lemma addresses_cached: "map_of (lv_cache s) pid = Some ents \<Longrightarrow> (k, a) \<in> set ents \<Longrightarrow> a \<in> set (addresses s)"
proof -
  assume m: "map_of (lv_cache s) pid = Some ents" "(k, a) \<in> set ents"
  have "a \<in> snd ` set ents" using m(2) by force
  then show ?thesis unfolding addresses_def using map_of_SomeD [OF m(1)] by auto
qed

text \<open>Two cached objects at one address are the same entry of the same project.\<close>

lemma address_unique:
  assumes "coherent env s" "map_of (lv_cache s) pid = Some ents" "(k, a) \<in> set ents"
    "map_of (lv_cache s) pid' = Some ents'" "(k', a) \<in> set ents'"
  shows "pid' = pid \<and> k' = k"
proof -
  have d: "distinct (concat (map (\<lambda>(pid, ents). map snd ents) c)) \<Longrightarrow> (p, es) \<in> set c \<Longrightarrow> (p', es') \<in> set c \<Longrightarrow>
      (k, a) \<in> set es \<Longrightarrow> (k', a) \<in> set es' \<Longrightarrow> (p, es) = (p', es') \<and> k = k'" for c :: "(pystr \<times> (lkey \<times> nat) list) list" and p es p' es'
  proof (induction c)
    case (Cons q c)
    have "distinct (map snd l) \<Longrightarrow> (k, a) \<in> set l \<Longrightarrow> (k', a) \<in> set l \<Longrightarrow> k = k'" for l :: "(lkey \<times> nat) list"
      by (metis distinct_map inj_onD prod.inject snd_conv)
    moreover have "a \<in> snd ` set es" "a \<in> snd ` set es'" using Cons.prems(4,5) by force+
    moreover have rest: "a \<in> set (concat (map (\<lambda>(pid, ents). map snd ents) c))" if "(x, l) \<in> set c" "a \<in> snd ` set l" for x l
      using that by auto
    moreover have "set (map snd (snd q)) \<inter> set (concat (map (\<lambda>(pid, ents). map snd ents) c)) = {}" "distinct (map snd (snd q))"
      "distinct (concat (map (\<lambda>(pid, ents). map snd ents) c))"
      using Cons.prems(1) by (cases q, simp)+
    moreover note Cons.IH [OF _ _ _ Cons.prems(4,5)]
    moreover have "(p, es) = q \<or> (p, es) \<in> set c" "(p', es') = q \<or> (p', es') \<in> set c" using Cons.prems(2,3) by auto
    ultimately show ?case using Cons.prems(4,5) by (metis disjoint_iff list.set_map snd_conv)
  qed simp
  show ?thesis
    using d [OF coherentD(3) [OF assms(1), unfolded addresses_def] map_of_SomeD [OF assms(2)] map_of_SomeD [OF assms(4)] assms(3,5)] by simp
qed

section \<open>Loading\<close>

lemma load_coherent:
  assumes c: "coherent env s" and l: "load env pid s = (r, s')"
  shows "coherent env s' \<and> (\<forall>ents. r = Inr ents \<longrightarrow> map_of (lv_cache s') pid = Some ents \<and> lv_unlocked s')
    \<and> same_keys s s' \<and> lv_entities s' = lv_entities s \<and> lv_variants s' = lv_variants s \<and> (lv_cache s' = lv_cache s \<or> lv_unlocked s')"
proof (cases "lv_unlocked s \<and> map_of (lv_cache s) pid = None \<and> (\<exists>kes. read_project env s pid = Inr kes)")
  case False
  then have "s' = s" "\<And>ents. r = Inr ents \<Longrightarrow> map_of (lv_cache s) pid = Some ents \<and> lv_unlocked s"
    using l by (auto simp: load_def need_def steps split: if_splits option.splits sum.splits)
  then show ?thesis using c by (auto simp: same_keys_def)
next
  case True
  then obtain kes where u: "lv_unlocked s" "map_of (lv_cache s) pid = None" "read_project env s pid = Inr kes" by blast
  let ?n = "length (lv_heap s)"
  let ?addrs = "[?n..<?n + length kes]"
  let ?ents = "zip (map fst kes) ?addrs"
  have r: "r = Inr ?ents"
    and s': "s' = s\<lparr>lv_heap := lv_heap s @ map snd kes, lv_cache := AList.update pid ?ents (lv_cache s),
       lv_index := AList.update pid (build_index (zip (map snd kes) ?addrs) []) (lv_index s)\<rparr>"
    using l u by (simp_all add: load_def need_def steps Let_def)
  have fresh: "pid \<notin> fst ` set (lv_cache s)" using u(2) by (simp add: map_of_eq_None_iff)
  then have cache: "lv_cache s' = lv_cache s @ [(pid, ?ents)]" by (simp add: s' update_fresh)
  have rows: "rows s' p = rows s p" "fps_of s' p = fps_of s p" for p by (simp_all add: s' rows_def fps_of_def)
  have fe: "file_entity env s' q = file_entity env s q" for q
    by (intro file_entity_cong) (simp_all add: s' variants_of_def)
  have tab: "tables_ok s" by (rule coherentD(1) [OF c])
  have ra: "list_all2 (\<lambda>r (k, e). k = row_key r \<and> file_entity env s r = Inr e) (rows s pid) kes"
    using u(3) read_project_iff [OF tab] by blast
  have old: "deref s' a = deref s a" if "a \<in> set (addresses s)" for a
    using coherentD(4) [OF c that] by (simp add: s' deref_def nth_append)
  have ents_nth: "?ents ! i = (fst (kes ! i), ?n + i)" "deref s' (?n + i) = snd (kes ! i)" if "i < length kes" for i
    using that by (simp_all add: s' deref_def nth_append)
  have all: "list_all2 (entry_ok env s') (rows s' pid) ?ents"
    using ra ents_nth by (auto simp: list_all2_conv_all_nth rows fe entry_ok_def case_prod_beta)
  have disj: "a = a'" if "(e, a) \<in> set (zip (map snd kes) ?addrs)" "(e', a') \<in> set (zip (map snd kes) ?addrs)" "fp \<in> fps e" "fp \<in> fps e'" for e a e' a' fp
  proof -
    note zs = that
    obtain i i' where i: "i < length kes" "e = snd (kes ! i)" "a = ?n + i" "i' < length kes" "e' = snd (kes ! i')" "a' = ?n + i'"
      using zs(1,2) by (auto simp: in_set_conv_nth)
    have len: "length (rows s pid) = length kes" using ra by (rule list_all2_lengthD)
    have "file_entity env s (rows s pid ! i) = Inr e" "file_entity env s (rows s pid ! i') = Inr e'"
      using ra i by (auto simp: list_all2_conv_all_nth case_prod_beta)
    then have "rows s pid ! i = rows s pid ! i'"
      using fps_disjoint [OF tab _ _ _ _ zs(3,4), of "rows s pid ! i" pid "rows s pid ! i'"] i len by simp
    moreover have "distinct (rows s pid)" using tab by (simp add: tables_ok_def distinct_map)
    ultimately show ?thesis using i len by (simp add: nth_eq_iff_index_eq)
  qed
  have idx: "index_ok s' ?ents (build_index (zip (map snd kes) ?addrs) [])"
  proof -
    have "(\<exists>e. (e, a) \<in> set (zip (map snd kes) ?addrs) \<and> fp \<in> fps e) \<longleftrightarrow> a \<in> snd ` set ?ents \<and> fp \<in> fps (deref s' a)" for a fp
    proof -
      have "(e, a) \<in> set (zip (map snd kes) ?addrs) \<longleftrightarrow> (\<exists>i<length kes. e = snd (kes ! i) \<and> a = ?n + i)" for e
        by (auto simp: in_set_conv_nth)
      moreover have "a \<in> snd ` set ?ents \<longleftrightarrow> (\<exists>i<length kes. a = ?n + i)"
        by (force simp: in_set_conv_nth image_iff)
      ultimately show ?thesis using ents_nth(2) by metis
    qed
    moreover have "map_of (build_index (zip (map snd kes) ?addrs) []) fp = Some a \<longleftrightarrow>
        (\<exists>e. (e, a) \<in> set (zip (map snd kes) ?addrs) \<and> fp \<in> fps e) \<or>
        ((\<forall>(e, a')\<in>set (zip (map snd kes) ?addrs). fp \<notin> fps e) \<and> map_of [] fp = Some a)" for fp a
      by (rule build_index_map) (rule disj)
    ultimately show ?thesis unfolding index_ok_def by simp
  qed
  have "coherent env s'"
  proof (rule coherentI)
    show "tables_ok s'" using tab tables_ok_cong [of s' s] by (simp add: s')
    show "distinct (map fst (lv_cache s'))" using coherentD(2) [OF c] fresh unfolding cache by simp
    have addr: "addresses s' = addresses s @ ?addrs" unfolding addresses_def cache by simp
    show "distinct (addresses s')" using coherentD(3,4) [OF c] unfolding addr by fastforce
    show "a < length (lv_heap s')" if "a \<in> set (addresses s')" for a
      using that coherentD(4) [OF c, of a] unfolding addr by (auto simp: s')
    show "project_ok env s' p es" if m: "map_of (lv_cache s') p = Some es" for p es
    proof (cases "p = pid")
      case True
      then have "es = ?ents" using m by (simp add: s')
      then show ?thesis using all idx True by (simp add: project_ok_def s')
    next
      case False
      then have m': "map_of (lv_cache s) p = Some es" using m by (simp add: s')
      show ?thesis
        by (rule project_ok_cong [OF rows(1) fe old _ coherentD(5) [OF c m']])
          (use False addresses_cached [OF m'] in \<open>auto simp: s'\<close>)
    qed
  qed
  then show ?thesis using r u(1) by (simp add: s' same_keys_def)
qed

lemma fps_in_file:
  assumes "file_entity env s r = Inr e" "r \<in> set (rows s pid)"
  shows "fps e \<subseteq> set (fps_of s pid)"
proof -
  have "er_pid r = pid" using assms(2) by (simp add: rows_def)
  then show ?thesis using file_entity_keys [OF assms(1)] assms(2) by (auto simp: fps_of_def variants_of_def)
qed

lemma project_entry:
  assumes "project_ok env s pid ents" "(k, a) \<in> set ents"
  obtains r where "r \<in> set (rows s pid)" "k = row_key r" "file_entity env s r = Inr (deref s a)" "er_pid r = pid"
proof -
  have "list_all2 (entry_ok env s) (rows s pid) ents" using assms(1) by (simp add: project_ok_def)
  then obtain r where "r \<in> set (rows s pid)" "entry_ok env s r (k, a)" using assms(2) by (metis in_set_conv_nth list_all2_conv_all_nth)
  then show thesis using that by (auto simp: entry_ok_def rows_def)
qed

lemma project_fps:
  assumes "project_ok env s pid ents" "b \<in> snd ` set ents"
  shows "fps (deref s b) \<subseteq> set (fps_of s pid)"
proof -
  obtain k where "(k, b) \<in> set ents" using assms(2) by auto
  then obtain r where "r \<in> set (rows s pid)" "file_entity env s r = Inr (deref s b)" by (rule project_entry [OF assms(1)])
  then show ?thesis by (intro fps_in_file)
qed

section \<open>Adding an entity\<close>

text \<open>\<open>json.loads\<close> reads back what \<open>json.dumps\<close> wrote, for values without floats; with \<open>ensure_ascii\<close> it is ASCII.\<close>

definition json_ok :: "lv_env \<Rightarrow> bool" where
  "json_ok env \<longleftrightarrow> (\<forall>b j. plain_json j \<longrightarrow> le_loads env (le_dumps env b j) = Inr j \<and> le_dumps env b j \<noteq> [] \<and>
     encodable (le_dumps env True j))"

definition env_ok :: "lv_env \<Rightarrow> bool" where
  "env_ok env \<longleftrightarrow> wrap_ok env \<and> json_ok env"

lemma enc_meta_dec:
  assumes "env_ok env" "enc_meta env t s = (Inr ct, s')"
  shows "dec_meta env (lv_metakey s) (Some ct) = Inr t" "s' = s\<lparr>lv_draws := Suc (lv_draws s)\<rparr>"
proof -
  let ?n = "le_rng env (lv_draws s) NONCE_LEN"
  obtain pt where pt: "utf8_encode t = Inr pt" "ct = ?n @ c_seal (le_crypto env) (lv_metakey s) ?n pt" "s' = s\<lparr>lv_draws := Suc (lv_draws s)\<rparr>"
    using assms(2) by (auto simp: enc_meta_def steps split: sum.splits)
  have n: "length ?n = NONCE_LEN" using assms(1) by (simp add: env_ok_def wrap_ok_def rng_ok_def)
  then have "?n \<noteq> []" by (auto simp: NONCE_LEN_def)
  then show "dec_meta env (lv_metakey s) (Some ct) = Inr t"
    using assms(1) n utf8_roundtrip [OF pt(1)] by (simp add: dec_meta_def pt(2) env_ok_def wrap_ok_def crypto_ok_def)
  show "s' = s\<lparr>lv_draws := Suc (lv_draws s)\<rparr>" by (rule pt(3))
qed

lemma encrypt_value_dec:
  assumes "env_ok env" "encrypt_value env pid val s = (Inr ct, s')"
  shows "decrypt (self_vault env s) pid ct = Inr val" "s' = s\<lparr>lv_draws := Suc (lv_draws s)\<rparr>"
proof -
  obtain n where n: "encrypt (self_vault env s) (le_rng env) pid val (lv_draws s) = Inr (ct, n)" "s' = s\<lparr>lv_draws := n\<rparr>"
    using assms(2) by (auto simp: encrypt_value_def split: sum.splits)
  have "crypto_ok (va_crypto (self_vault env s))" "rng_ok (le_rng env)"
    using assms(1) by (simp_all add: env_ok_def wrap_ok_def self_vault_def)
  from decrypt_encrypt [OF this n(1)] n(2)
  show "decrypt (self_vault env s) pid ct = Inr val" "s' = s\<lparr>lv_draws := Suc (lv_draws s)\<rparr>" by simp_all
qed

lemma read_entity_eq:
  assumes "json_ok env" "plain_json m" "decrypt (self_vault env s) (er_pid r) (er_value r) = Inr val"
    "dec_meta env (lv_metakey s) (Some (er_meta r)) = Inr (le_dumps env b m)"
  shows "read_entity env s r = Inr \<lparr>en_pid = er_pid r, en_cat = er_cat r, en_n = er_n r, en_fp = er_fp r, en_value = val, en_meta = m,
            en_occ = er_occ r, en_excluded = er_excluded r, en_origin = er_origin r, en_variants = []\<rparr>"
  using assms by (simp add: read_entity_def json_ok_def)

lemma max_n_fresh: "(category, Suc (max_n pid category (lv_entities s))) \<notin> row_key ` set (rows s pid)"
proof -
  have "x \<in> set xs \<Longrightarrow> x \<le> foldr max xs 0" for x :: nat and xs by (induction xs) auto
  then have "er_n r \<le> max_n pid category (lv_entities s)" if "r \<in> set (rows s pid)" "er_cat r = category" for r
    using that by (auto simp: max_n_def rows_def)
  then show ?thesis by (fastforce simp: row_key_def)
qed

lemma mbind_Inr: "mbind m f s = (Inr y, s') \<longleftrightarrow> (\<exists>x s1. m s = (Inr x, s1) \<and> f x s1 = (Inr y, s'))"
  by (auto simp: mbind_def split: prod.splits sum.splits)

lemma simple_Inr:
  "gets f s = (Inr x, s') \<longleftrightarrow> x = f s \<and> s' = s" "upd g s = (Inr u, s') \<longleftrightarrow> s' = g s" "ret y s = (Inr x, s') \<longleftrightarrow> x = y \<and> s' = s"
  "now env s = (Inr t, s') \<longleftrightarrow> t = le_time env (lv_ticks s) \<and> s' = s\<lparr>lv_ticks := Suc (lv_ticks s)\<rparr>"
  "raise e s = (Inr z, s') \<longleftrightarrow> False"
  by (auto simp: steps now_def)

lemma touch_Inr: "touch env pid s = (Inr u, s') \<Longrightarrow> \<exists>ps n. s' = s\<lparr>lv_ticks := n, lv_projects := ps\<rparr>"
  unfolding touch_def set_project_def mbind_Inr simple_Inr by blast

text \<open>What \<open>add_entity\<close> leaves, when it returns.\<close>

lemma add_entity_result:
  assumes env: "env_ok env" and meta: "plain_json (JDict meta)" and c: "coherent env s"
    and run: "add_entity env pid category canonical fp meta origin excluded s = (Inr a, s')"
  obtains s1 ents r idx e where
    "load env pid s = (Inr ents, s1)" "map_of (lv_index s1) pid = Some idx" "a = length (lv_heap s1)"
    "lv_entities s' = lv_entities s1 @ [r]" "lv_variants s' = lv_variants s1"
    "lv_heap s' = lv_heap s1 @ [e]" "row_key r = (category, Suc (max_n pid category (lv_entities s1)))"
    "lv_cache s' = AList.update pid (AList.update (row_key r) a ents) (lv_cache s1)"
    "lv_index s' = AList.update pid (AList.update fp a idx) (lv_index s1)"
    "same_keys s1 s'" "er_pid r = pid" "er_fp r = fp" "read_entity env s1 r = Inr e" "en_value e = canonical" "en_fp e = fp"
    "\<not> list_ex (\<lambda>q. er_pid q = pid \<and> (row_key q = row_key r \<or> er_fp q = fp)) (lv_entities s1)"
proof -
  obtain ents s1 vct s2 mct s3 t s4 u1 s5 u2 s6 u3 where
    l: "load env pid s = (Inr ents, s1)" and
    v: "encrypt_value env pid canonical s1 = (Inr vct, s2)" and
    m: "enc_meta env (le_dumps env True (JDict meta)) s2 = (Inr mct, s3)" and
    i: "insert_entity \<lparr>er_pid = pid, er_cat = category, er_n = Suc (max_n pid category (lv_entities s1)), er_fp = fp, er_value = vct,
        er_meta = mct, er_occ = 0, er_excluded = excluded, er_origin = origin, er_created = t\<rparr> (s3\<lparr>lv_ticks := Suc (lv_ticks s3)\<rparr>) = (Inr u1, s5)" and
    x: "index_set pid fp a (s5\<lparr>lv_heap := lv_heap s5 @ [\<lparr>en_pid = pid, en_cat = category, en_n = Suc (max_n pid category (lv_entities s1)), en_fp = fp,
        en_value = canonical, en_meta = JDict meta, en_occ = 0, en_excluded = excluded, en_origin = origin, en_variants = []\<rparr>],
        lv_cache := AList.update pid (AList.update (category, Suc (max_n pid category (lv_entities s1))) a ents) (lv_cache s5)\<rparr>) = (Inr u2, s6)" and
    tch: "touch env pid s6 = (Inr u3, s')" and a: "a = length (lv_heap s5)"
    using run unfolding add_entity_def by (auto simp: mbind_Inr simple_Inr)
  let ?n = "Suc (max_n pid category (lv_entities s1))"
  let ?r = "\<lparr>er_pid = pid, er_cat = category, er_n = ?n, er_fp = fp, er_value = vct,
        er_meta = mct, er_occ = 0, er_excluded = excluded, er_origin = origin, er_created = t\<rparr>"
  let ?e = "\<lparr>en_pid = pid, en_cat = category, en_n = ?n, en_fp = fp,
        en_value = canonical, en_meta = JDict meta, en_occ = 0, en_excluded = excluded, en_origin = origin, en_variants = []\<rparr>"
  note v' = encrypt_value_dec [OF env v] and m' = enc_meta_dec [OF env m]
  obtain ps k where tch': "s' = s6\<lparr>lv_ticks := k, lv_projects := ps\<rparr>" using touch_Inr [OF tch] by blast
  have i': "s5 = s3\<lparr>lv_ticks := Suc (lv_ticks s3), lv_entities := lv_entities s3 @ [?r]\<rparr>"
    "\<not> list_ex (\<lambda>q. er_pid q = pid \<and> (row_key q = row_key ?r \<or> er_fp q = fp)) (lv_entities s3)"
    using i by (auto simp: insert_entity_def split: if_splits)
  obtain idx where x': "map_of (lv_index s5) pid = Some idx"
    "s6 = s5\<lparr>lv_heap := lv_heap s5 @ [?e], lv_cache := AList.update pid (AList.update (category, ?n) a ents) (lv_cache s5),
       lv_index := AList.update pid (AList.update fp a idx) (lv_index s5)\<rparr>"
    using x by (auto simp: index_set_def split: option.splits)
  have "read_entity env s1 ?r = Inr ?e"
  proof -
    have "lv_metakey s2 = lv_metakey s1" by (simp add: v'(2))
    then have "dec_meta env (lv_metakey s1) (Some mct) = Inr (le_dumps env True (JDict meta))" using m'(1) by simp
    then show ?thesis using v'(1) env meta by (subst read_entity_eq [where val = canonical and b = True]) (simp_all add: env_ok_def)
  qed
  moreover have "row_key ?r = (category, ?n)" by (simp add: row_key_def)
  ultimately show thesis
    using l x' i' a tch' v'(2) m'(2) by (intro that [of ents s1 idx ?r ?e]) (simp_all add: same_keys_def)
qed

lemma variants_entity:
  assumes "tables_ok s" "v \<in> set (variants_of s pid k)"
  shows "k \<in> row_key ` set (rows s pid)"
proof -
  have v: "v \<in> set (lv_variants s)" "vr_pid v = pid" "vkey v = k" using assms(2) by (auto simp: variants_of_def)
  then have "vkey v \<in> row_key ` set (rows s (vr_pid v))" using assms(1) unfolding tables_ok_def by blast
  then show ?thesis unfolding v .
qed

lemma addresses_update:
  "map_of c pid = Some ents \<Longrightarrow> mset (concat (map (\<lambda>(pid, ents). map snd ents) (AList.update pid (ents @ [(k, a)]) c))) =
     add_mset a (mset (concat (map (\<lambda>(pid, ents). map snd ents) c)))"
  by (induction c) (auto split: if_splits)

lemma add_entity_coherent:
  assumes env: "env_ok env" and meta: "plain_json (JDict meta)" and c: "coherent env s" and fresh: "fp \<notin> set (fps_of s pid)"
    and run: "add_entity env pid category canonical fp meta origin excluded s = (Inr a, s')"
  shows "coherent env s' \<and> same_keys s s' \<and> lv_unlocked s'"
proof -
  obtain s1 ents r idx e where
    l: "load env pid s = (Inr ents, s1)" and idx: "map_of (lv_index s1) pid = Some idx" and a: "a = length (lv_heap s1)"
    and s': "lv_entities s' = lv_entities s1 @ [r]" "lv_variants s' = lv_variants s1"
    "lv_heap s' = lv_heap s1 @ [e]" "row_key r = (category, Suc (max_n pid category (lv_entities s1)))"
    "lv_cache s' = AList.update pid (AList.update (row_key r) a ents) (lv_cache s1)"
    "lv_index s' = AList.update pid (AList.update fp a idx) (lv_index s1)"
    "same_keys s1 s'" and r: "er_pid r = pid" "er_fp r = fp" "read_entity env s1 r = Inr e" "en_value e = canonical" "en_fp e = fp"
    "\<not> list_ex (\<lambda>q. er_pid q = pid \<and> (row_key q = row_key r \<or> er_fp q = fp)) (lv_entities s1)"
    by (rule add_entity_result [OF env meta c run])
  have l': "coherent env s1" "map_of (lv_cache s1) pid = Some ents" "same_keys s s1" "fps_of s1 pid = fps_of s pid" "lv_unlocked s1"
    using load_coherent [OF c l] by (auto simp: fps_of_def rows_def)
  have p: "project_ok env s1 pid ents" by (rule coherentD(5) [OF l'(1,2)])
  have rows': "rows s' q = rows s1 q @ (if q = pid then [r] else [])" for q using r by (simp add: rows_def s')
  have fresh_key: "row_key r \<notin> row_key ` set (rows s1 pid)" unfolding s'(4) by (rule max_n_fresh)
  have keys: "fst ` set ents = row_key ` set (rows s1 pid)"
  proof -
    have "list_all2 (entry_ok env s1) (rows s1 pid) ents" using p by (simp add: project_ok_def)
    then have "map fst ents = map row_key (rows s1 pid)" by (induction rule: list_all2_induct) (auto simp: entry_ok_def)
    then show ?thesis by (metis list.set_map)
  qed
  have ents': "AList.update (row_key r) a ents = ents @ [(row_key r, a)]" using fresh_key keys by (intro update_fresh) simp
  have k: "lv_master s' = lv_master s1" "lv_metakey s' = lv_metakey s1" using s'(7) by (simp_all add: same_keys_def)
  have fe: "file_entity env s' q = file_entity env s1 q" for q
    by (intro file_entity_cong) (simp_all add: variants_of_def s' k)
  have fe_r: "file_entity env s' r = Inr e"
  proof -
    have "v \<notin> set (variants_of s1 pid (row_key r))" for v
      using variants_entity [OF coherentD(1) [OF l'(1)], of v pid "row_key r"] fresh_key by blast
    then have "variants_of s1 pid (row_key r) = []" by (metis list.set_intros(1) neq_Nil_conv)
    then show ?thesis unfolding fe using r by (simp add: file_entity_def)
  qed
  have old: "deref s' b = deref s1 b" if "b \<in> set (addresses s1)" for b
    using coherentD(4) [OF l'(1) that] by (simp add: deref_def nth_append s')
  have new: "deref s' a = e" "a \<notin> set (addresses s1)" using coherentD(4) [OF l'(1), of a] by (auto simp: deref_def s' a)
  have "coherent env s'"
  proof (rule coherentI)
    have "fp \<notin> set (fps_of s1 pid)" using fresh l'(4) by simp
    then show "tables_ok s'"
      using coherentD(1) [OF l'(1)] fresh_key unfolding tables_ok_def fps_of_def rows' s'(2) by (auto simp: r(2))
    show "distinct (map fst (lv_cache s'))" unfolding s'(5) by (intro distinct_keys_update coherentD(2) [OF l'(1)])
    have addr: "set (addresses s') = insert a (set (addresses s1))" "distinct (addresses s')"
    proof -
      have "mset (addresses s') = mset (a # addresses s1)"
        unfolding addresses_def s'(5) ents' using addresses_update [OF l'(2)] by simp
      then show "set (addresses s') = insert a (set (addresses s1))" "distinct (addresses s')"
        using new(2) coherentD(3) [OF l'(1)] mset_eq_setD mset_eq_imp_distinct_iff by (metis list.simps(15), metis distinct.simps(2))
    qed
    show "distinct (addresses s')" by (rule addr(2))
    show "b < length (lv_heap s')" if "b \<in> set (addresses s')" for b
      using that coherentD(4) [OF l'(1), of b] unfolding addr by (auto simp: s' a)
    show "project_ok env s' q es" if m: "map_of (lv_cache s') q = Some es" for q es
    proof (cases "q = pid")
      case False
      then have m': "map_of (lv_cache s1) q = Some es" using m by (simp add: s')
      show ?thesis
        by (rule project_ok_cong [OF _ fe old _ coherentD(5) [OF l'(1) m']])
          (use False addresses_cached [OF m'] rows' in \<open>auto simp: s'\<close>)
    next
      case True
      then have es: "es = ents @ [(row_key r, a)]" using m unfolding s'(5) ents' by simp
      have la: "list_all2 (entry_ok env s1) (rows s1 pid) ents" "index_ok s1 ents idx" using p idx by (simp_all add: project_ok_def)
      have "list_all2 (entry_ok env s') (rows s1 pid) ents"
      proof (rule list.rel_mono_strong [OF la(1)])
        fix w x assume x: "x \<in> set ents" "entry_ok env s1 w x"
        have "deref s' (snd x) = deref s1 (snd x)" using old addresses_cached [OF l'(2), of "fst x" "snd x"] x(1) by simp
        then show "entry_ok env s' w x" using x(2) by (simp add: entry_ok_def fe case_prod_beta)
      qed
      moreover have "index_ok s' es (AList.update fp a idx)"
        unfolding index_ok_def
      proof (intro allI)
        fix x b
        have "fps e = {fp}" using r(5) read_entity_keys [OF r(3)] by (simp add: fps_def)
        moreover have "fp \<notin> fps (deref s1 b)" if "b \<in> snd ` set ents" for b
          using project_fps [OF p that] fresh unfolding l'(4) [symmetric] by blast
        moreover have "deref s' b = deref s1 b" if "b \<in> snd ` set ents" for b
          using that addresses_cached [OF l'(2)] old by auto
        moreover have "a \<notin> snd ` set ents" using addresses_cached [OF l'(2)] new(2) by auto
        moreover have "snd ` set es = insert a (snd ` set ents)" by (simp add: es)
        moreover have "map_of idx x = Some b \<longleftrightarrow> b \<in> snd ` set ents \<and> x \<in> fps (deref s1 b)" using la(2) unfolding index_ok_def by blast
        ultimately show "map_of (AList.update fp a idx) x = Some b \<longleftrightarrow> b \<in> snd ` set es \<and> x \<in> fps (deref s' b)"
          using new(1) by (cases "b \<in> snd ` set ents") (auto simp del: imageE)
      qed
      ultimately show ?thesis using True es fe_r new(1) by (simp add: project_ok_def rows' entry_ok_def s' list_all2_appendI)
    qed
  qed
  then show ?thesis using l'(3,5) s'(7) by (auto simp: same_keys_def)
qed

section \<open>Changing an entity\<close>

text \<open>The objects and rows that one operation changes: an entity of a cached project.\<close>

lemma cached_entity:
  assumes "coherent env s" "map_of (lv_cache s) pid = Some ents" "(k, a) \<in> set ents"
  shows "en_pid (deref s a) = pid \<and> en_key (deref s a) = k \<and> a < length (lv_heap s)"
proof -
  obtain r where "k = row_key r" "file_entity env s r = Inr (deref s a)" "er_pid r = pid"
    by (rule project_entry [OF coherentD(5) [OF assms(1,2)] assms(3)])
  then show ?thesis using file_entity_keys [of env s r] coherentD(4) [OF assms(1) addresses_cached [OF assms(2,3)]] by simp
qed

lemma deref_update:
  "lv_heap s' = (lv_heap s)[a := e] \<Longrightarrow> a < length (lv_heap s) \<Longrightarrow> deref s' b = (if b = a then e else deref s b)"
  by (simp add: deref_def)

text \<open>A cached project under an operation that changes the entity at \<open>a\<close>, its row and its variants.\<close>

lemma project_ok_update:
  assumes c: "coherent env s" and pid: "map_of (lv_cache s) pid = Some ents" "(k, a) \<in> set ents"
    and heap: "\<And>b. deref s' b = (if b = a then e else deref s b)"
    and rws: "rows s' q = map (\<lambda>r. if er_pid r = pid \<and> row_key r = k then g r else r) (rows s q)"
    and g: "\<And>r. row_key (g r) = row_key r"
    and same: "\<And>r. r \<in> set (rows s q) \<Longrightarrow> \<not> (er_pid r = pid \<and> row_key r = k) \<Longrightarrow> file_entity env s' r = file_entity env s r"
    and new: "\<And>r. r \<in> set (rows s pid) \<Longrightarrow> row_key r = k \<Longrightarrow> file_entity env s r = Inr (deref s a) \<Longrightarrow> file_entity env s' (g r) = Inr e"
    and q: "map_of (lv_cache s) q = Some es"
    and idx: "q = pid \<Longrightarrow> \<exists>idx. map_of (lv_index s') pid = Some idx \<and> index_ok s' ents idx"
      "q \<noteq> pid \<Longrightarrow> map_of (lv_index s') q = map_of (lv_index s) q"
  shows "project_ok env s' q es"
proof -
  have p: "project_ok env s q es" by (rule coherentD(5) [OF c q])
  have iff: "a = b \<longleftrightarrow> q = pid \<and> k' = k" if "(k', b) \<in> set es" for k' b
  proof
    show "a = b \<Longrightarrow> q = pid \<and> k' = k" using address_unique [OF c pid q, of k'] that by auto
    assume e: "q = pid \<and> k' = k"
    then have "es = ents" using pid q by simp
    have d: "distinct (map fst ents)"
    proof -
      have "list_all2 (entry_ok env s) (rows s pid) ents" using coherentD(5) [OF c pid(1)] by (simp add: project_ok_def)
      then have "map fst ents = map row_key (rows s pid)" by (induction rule: list_all2_induct) (auto simp: entry_ok_def)
      then show ?thesis using coherentD(1) [OF c] by (simp add: tables_ok_def)
    qed
    then show "a = b" using e that pid \<open>es = ents\<close> by (metis map_of_eq_Some_iff option.inject)
  qed
  have "list_all2 (entry_ok env s') (rows s' q) es"
    unfolding rws list_all2_map1
  proof (rule list.rel_mono_strong)
    show "list_all2 (entry_ok env s) (rows s q) es" using p by (simp add: project_ok_def)
    fix r x assume r: "r \<in> set (rows s q)" "x \<in> set es" "entry_ok env s r x"
    obtain b where x: "x = (row_key r, b)" "file_entity env s r = Inr (deref s b)" using r(3) by (cases x) (auto simp: entry_ok_def)
    have erq: "er_pid r = q" using r(1) by (simp add: rows_def)
    show "entry_ok env s' (if er_pid r = pid \<and> row_key r = k then g r else r) x"
    proof (cases "er_pid r = pid \<and> row_key r = k")
      case True
      then have "a = b" using iff [of "row_key r" b] r(2) x(1) erq by simp
      then show ?thesis using new [of r] True r(1) x erq g [of r] heap [of b] by (simp add: entry_ok_def)
    next
      case False
      then have "b \<noteq> a" using iff [of "row_key r" b] r(2) x(1) erq by auto
      then show ?thesis unfolding if_not_P [OF False] using same [OF r(1) False] x heap [of b] by (simp add: entry_ok_def)
    qed
  qed
  moreover have "\<exists>idx. map_of (lv_index s') q = Some idx \<and> index_ok s' es idx"
  proof (cases "q = pid")
    case True
    then have "es = ents" using pid q by simp
    then show ?thesis using idx(1) True by simp
  next
    case False
    then obtain i where i: "map_of (lv_index s') q = Some i" "index_ok s es i" using p idx(2) by (auto simp: project_ok_def)
    have "deref s' b = deref s b" if "b \<in> snd ` set es" for b
    proof -
      note b = that
      obtain k' where "(k', b) \<in> set es" using b by auto
      then have "a \<noteq> b" using iff False by blast
      then show ?thesis using heap [of b] by simp
    qed
    then show ?thesis using i unfolding index_ok_def by metis
  qed
  ultimately show ?thesis by (simp add: project_ok_def)
qed

text \<open>A change of the row and of the object that keeps their fingerprints and variants.\<close>

lemma rfold_commute:
  assumes "\<And>fp x e. h (with_variant fp x e) = with_variant fp x (h e)"
  shows "rfold (add_read env s) vs e = Inr e' \<Longrightarrow> rfold (add_read env s) vs (h e) = Inr (h e')"
proof (induction vs arbitrary: e)
  case (Cons v vs)
  then obtain y where y: "add_read env s v e = Inr y" "rfold (add_read env s) vs y = Inr e'" by (auto simp: rbind_Inr_iff)
  have "add_read env s v (h e) = Inr (h y)" using y(1) by (auto simp: add_read_def rbind_Inr_iff assms)
  then show ?case using Cons.IH [OF y(2)] by simp
qed simp

lemma update_coherent:
  assumes c: "coherent env s" and pid: "map_of (lv_cache s) pid = Some ents" "(k, a) \<in> set ents"
    and s': "lv_entities s' = map (\<lambda>r. if er_pid r = pid \<and> row_key r = k then g r else r) (lv_entities s)" "lv_variants s' = lv_variants s"
      "lv_heap s' = (lv_heap s)[a := h (deref s a)]" "lv_cache s' = lv_cache s" "lv_index s' = lv_index s"
      "lv_master s' = lv_master s" "lv_metakey s' = lv_metakey s"
    and g: "\<And>r. er_pid (g r) = er_pid r \<and> row_key (g r) = row_key r \<and> er_fp (g r) = er_fp r"
    and h: "\<And>fp x e. h (with_variant fp x e) = with_variant fp x (h e)" "\<And>e. fps (h e) = fps e"
    and rd: "\<And>r e. er_pid r = pid \<Longrightarrow> row_key r = k \<Longrightarrow> read_entity env s r = Inr e \<Longrightarrow> read_entity env s (g r) = Inr (h e)"
  shows "coherent env s'"
proof (rule coherentI)
  let ?g = "\<lambda>r. if er_pid r = pid \<and> row_key r = k then g r else r"
  have g': "er_pid (?g r) = er_pid r" "row_key (?g r) = row_key r" "er_fp (?g r) = er_fp r" for r using g [of r] by auto
  have rws: "rows s' q = map ?g (rows s q)" for q
    by (simp only: rows_def s'(1) filter_map comp_def g')
  have m: "map row_key (rows s' q) = map row_key (rows s q)" "map er_fp (rows s' q) = map er_fp (rows s q)" for q
    by (simp_all only: rws list.map_comp comp_def g')
  have "row_key ` set (rows s' q) = row_key ` set (rows s q)" for q using m(1) [of q] by (metis list.set_map)
  then show "tables_ok s'" using coherentD(1) [OF c] by (simp add: tables_ok_def fps_of_def m s'(2))
  show "distinct (map fst (lv_cache s'))" "distinct (addresses s')" using coherentD(2,3) [OF c] by (simp_all add: s' addresses_def)
  show "b < length (lv_heap s')" if "b \<in> set (addresses s')" for b using coherentD(4) [OF c, of b] that by (simp add: s' addresses_def)
  have al: "a < length (lv_heap s)" using cached_entity [OF c pid] by simp
  have heap: "deref s' b = (if b = a then h (deref s a) else deref s b)" for b by (rule deref_update [OF s'(3) al])
  have fe: "file_entity env s' r = file_entity env s r" for r
    by (intro file_entity_cong) (simp_all add: s' variants_of_def)
  show "project_ok env s' q es" if q: "map_of (lv_cache s') q = Some es" for q es
  proof (rule project_ok_update [OF c pid heap rws])
    show "row_key (g r) = row_key r" for r using g by simp
    show "file_entity env s' r = file_entity env s r" for r by (rule fe)
    show "file_entity env s' (g r) = Inr (h (deref s a))" if r: "r \<in> set (rows s pid)" "row_key r = k" "file_entity env s r = Inr (deref s a)" for r
    proof -
      obtain e0 where e0: "read_entity env s r = Inr e0" "rfold (add_read env s) (variants_of s (er_pid r) (row_key r)) e0 = Inr (deref s a)"
        using r(3) by (auto simp: file_entity_def rbind_Inr_iff)
      have "read_entity env s (g r) = Inr (h e0)" using r(1,2) e0(1) by (intro rd) (simp_all add: rows_def)
      then show ?thesis unfolding fe using rfold_commute [OF h(1) e0(2)] g [of r] by (simp add: file_entity_def)
    qed
    show "map_of (lv_cache s) q = Some es" using q by (simp add: s')
    have "fps (deref s' b) = fps (deref s b)" for b using heap [of b] h(2) by simp
    then have "index_ok s' ents i = index_ok s ents i" for i unfolding index_ok_def by (simp only:)
    then show "\<exists>i. map_of (lv_index s') pid = Some i \<and> index_ok s' ents i"
      using coherentD(5) [OF c pid(1)] by (simp add: s' project_ok_def)
    show "map_of (lv_index s') q = map_of (lv_index s) q" by (simp add: s')
  qed
qed

text \<open>Rows that are not cached may change as long as they keep keys and fingerprints.\<close>

lemma update_uncached:
  assumes c: "coherent env s" and no: "\<And>ents. map_of (lv_cache s) pid = Some ents \<Longrightarrow> k \<notin> fst ` set ents"
    and s': "lv_entities s' = map (\<lambda>r. if er_pid r = pid \<and> row_key r = k then g r else r) (lv_entities s)" "lv_variants s' = lv_variants s"
      "lv_heap s' = lv_heap s" "lv_cache s' = lv_cache s" "lv_index s' = lv_index s" "lv_master s' = lv_master s" "lv_metakey s' = lv_metakey s"
    and g: "\<And>r. er_pid (g r) = er_pid r \<and> row_key (g r) = row_key r \<and> er_fp (g r) = er_fp r"
  shows "coherent env s'"
proof (rule coherentI)
  let ?g = "\<lambda>r. if er_pid r = pid \<and> row_key r = k then g r else r"
  have g': "er_pid (?g r) = er_pid r" "row_key (?g r) = row_key r" "er_fp (?g r) = er_fp r" for r using g [of r] by auto
  have rws: "rows s' q = map ?g (rows s q)" for q
    by (simp only: rows_def s'(1) filter_map comp_def g')
  have m: "map row_key (rows s' q) = map row_key (rows s q)" "map er_fp (rows s' q) = map er_fp (rows s q)" for q
    by (simp_all only: rws list.map_comp comp_def g')
  have "row_key ` set (rows s' q) = row_key ` set (rows s q)" for q using m(1) [of q] by (metis list.set_map)
  then show "tables_ok s'" using coherentD(1) [OF c] by (simp add: tables_ok_def fps_of_def m s'(2))
  show "distinct (map fst (lv_cache s'))" "distinct (addresses s')" using coherentD(2,3) [OF c] by (simp_all add: s' addresses_def)
  show "b < length (lv_heap s')" if "b \<in> set (addresses s')" for b using coherentD(4) [OF c, of b] that by (simp add: s' addresses_def)
  show "project_ok env s' q es" if q: "map_of (lv_cache s') q = Some es" for q es
  proof -
    have p: "project_ok env s q es" using coherentD(5) [OF c, of q es] q by (simp add: s')
    have "?g r = r" if "r \<in> set (rows s q)" for r
    proof -
      note w = that
      have "list_all2 (entry_ok env s) (rows s q) es" using p by (simp add: project_ok_def)
      then obtain x where "x \<in> set es" "entry_ok env s r x" using w by (metis in_set_conv_nth list_all2_conv_all_nth)
      moreover from this have "row_key r = fst x" by (simp add: entry_ok_def case_prod_beta)
      ultimately have "row_key r \<in> fst ` set es" by simp
      moreover have "er_pid r = q" using w by (simp add: rows_def)
      ultimately show ?thesis using no [of es] q by (auto simp: s')
    qed
    then have "rows s' q = rows s q" unfolding rws by (intro map_idI) simp
    moreover have "file_entity env s' r = file_entity env s r" for r
      by (intro file_entity_cong) (simp_all add: s' variants_of_def)
    ultimately show ?thesis by (intro project_ok_cong [OF _ _ _ _ p]) (simp_all add: s' deref_def)
  qed
qed

definition live :: "lv \<Rightarrow> nat \<Rightarrow> bool" where
  "live s a \<longleftrightarrow> (\<exists>ents k. map_of (lv_cache s) (en_pid (deref s a)) = Some ents \<and> (k, a) \<in> set ents)"

lemma liveD:
  assumes "coherent env s" "live s a"
  obtains ents where "map_of (lv_cache s) (en_pid (deref s a)) = Some ents" "(en_key (deref s a), a) \<in> set ents" "a < length (lv_heap s)"
proof -
  obtain ents k where "map_of (lv_cache s) (en_pid (deref s a)) = Some ents" "(k, a) \<in> set ents"
    using assms(2) unfolding live_def by blast
  then show thesis using cached_entity [OF assms(1)] that by metis
qed

lemma set_canonical_coherent:
  assumes env: "env_ok env" and c: "coherent env s" and live: "live s a"
    and meta: "case meta of None \<Rightarrow> plain_json (en_meta (deref s a)) | Some m \<Rightarrow> plain_json m"
    and run: "set_canonical env a val meta s = (Inr (), s')"
  shows "coherent env s' \<and> same_keys s s' \<and> (lv_unlocked s \<or> lv_cache s' = lv_cache s)"
proof -
  let ?e = "deref s a"
  let ?m = "case meta of None \<Rightarrow> en_meta ?e | Some m \<Rightarrow> m"
  let ?h = "\<lambda>e. e\<lparr>en_value := val, en_meta := ?m\<rparr>"
  from c live obtain ents where ents: "map_of (lv_cache s) (en_pid ?e) = Some ents" "(en_key ?e, a) \<in> set ents" "a < length (lv_heap s)"
    by (rule liveD)
  define s1 where "s1 = s\<lparr>lv_heap := (lv_heap s)[a := ?h ?e]\<rparr>"
  have s1: "deref s1 a = ?h ?e" using ents(3) by (simp add: s1_def deref_def)
  have "mbind (set_obj a (\<lambda>e. e\<lparr>en_value := val\<rparr>)) (\<lambda>_. case meta of None \<Rightarrow> ret () | Some m \<Rightarrow> set_obj a (\<lambda>e. e\<lparr>en_meta := m\<rparr>)) s = (Inr (), s1)"
    using ents(3) by (cases meta) (simp_all add: s1_def set_obj_def steps deref_def)
  then obtain vct s2 mct s3 where
    v: "encrypt_value env (en_pid ?e) val s1 = (Inr vct, s2)" and
    m: "enc_meta env (le_dumps env True ?m) s2 = (Inr mct, s3)" and
    r: "set_row (?h ?e) (\<lambda>r. r\<lparr>er_value := vct, er_meta := mct\<rparr>) s3 = (Inr (), s')"
    using run s1 by (auto simp: set_canonical_def mbind_Inr Let_def)
  note v' = encrypt_value_dec [OF env v] and m' = enc_meta_dec [OF env m]
  let ?g = "\<lambda>r. r\<lparr>er_value := vct, er_meta := mct\<rparr>"
  have key: "en_key (?h ?e) = en_key ?e" by (simp add: en_key_def)
  have fin: "s' = s3\<lparr>lv_entities := map (\<lambda>r. if er_pid r = en_pid ?e \<and> row_key r = en_key ?e then ?g r else r) (lv_entities s3)\<rparr>"
    using r by (simp add: set_row_def upd_def key)
  have sv: "self_vault env s1 = self_vault env s" "lv_metakey s2 = lv_metakey s" by (simp_all add: s1_def self_vault_def v'(2))
  have "coherent env s'"
  proof (rule update_coherent [OF c ents(1,2), where g = ?g and h = ?h])
    show "fps (?h e) = fps e" for e by (simp add: fps_def)
    show "?h (with_variant fp x e) = with_variant fp x (?h e)" for fp x e by (simp add: with_variant_def)
    fix w e assume w: "er_pid w = en_pid ?e" "row_key w = en_key ?e" "read_entity env s w = Inr e"
    have "plain_json ?m" using meta by (simp split: option.splits)
    then show "read_entity env s (?g w) = Inr (?h e)"
      using w v'(1) m'(1) env unfolding sv
      by (subst read_entity_eq [where val = val and m = ?m and b = True]) (auto simp: env_ok_def read_entity_def rbind_Inr_iff)
  qed (simp_all add: fin m'(2) v'(2) s1_def row_key_def)
  then show ?thesis by (simp add: fin m'(2) v'(2) s1_def same_keys_def)
qed

lemma read_entity_fields:
  "read_entity env s r = Inr e \<Longrightarrow> read_entity env s (r\<lparr>er_excluded := x\<rparr>) = Inr (e\<lparr>en_excluded := x\<rparr>)"
  "read_entity env s r = Inr e \<Longrightarrow> read_entity env s (r\<lparr>er_occ := i\<rparr>) = Inr (e\<lparr>en_occ := i\<rparr>)"
  by (auto simp: read_entity_def rbind_def split: sum.splits)

lemma read_entity_occ: "read_entity env s r = Inr e \<Longrightarrow> en_occ e = er_occ r"
  by (auto simp: read_entity_def rbind_def split: sum.splits)

lemma set_excluded_coherent:
  assumes c: "coherent env s" and live: "live s a" and run: "set_excluded a ex s = (r, s')"
  shows "coherent env s' \<and> same_keys s s' \<and> lv_cache s' = lv_cache s"
proof -
  let ?e = "deref s a" and ?h = "\<lambda>e. e\<lparr>en_excluded := ex\<rparr>" and ?g = "\<lambda>r. r\<lparr>er_excluded := ex\<rparr>"
  from c live obtain ents where ents: "map_of (lv_cache s) (en_pid ?e) = Some ents" "(en_key ?e, a) \<in> set ents" "a < length (lv_heap s)"
    by (rule liveD)
  have s': "s' = s\<lparr>lv_heap := (lv_heap s)[a := ?h ?e],
      lv_entities := map (\<lambda>r. if er_pid r = en_pid ?e \<and> row_key r = en_key ?e then ?g r else r) (lv_entities s)\<rparr>"
    using run ents(3) by (auto simp: set_excluded_def set_obj_def set_row_def steps deref_def en_key_def)
  have "coherent env s'"
  proof (rule update_coherent [OF c ents(1,2), where g = ?g and h = ?h])
    fix w e assume "read_entity env s w = Inr e"
    then show "read_entity env s (?g w) = Inr (?h e)" by (rule read_entity_fields)
  qed (simp_all add: s' row_key_def fps_def with_variant_def)
  then show ?thesis by (simp add: s' same_keys_def)
qed

lemma bump_coherent:
  "coherent env s \<Longrightarrow> coherent env (bump items s) \<and> same_keys s (bump items s) \<and> lv_cache (bump items s) = lv_cache s"
proof (induction items s rule: bump.induct)
  case (2 pid cat n c rest s)
  let ?g = "\<lambda>r. r\<lparr>er_occ := er_occ r + c\<rparr>" and ?h = "\<lambda>e. e\<lparr>en_occ := en_occ e + c\<rparr>"
  let ?s1 = "s\<lparr>lv_entities := map (\<lambda>r. if er_pid r = pid \<and> row_key r = (cat, n) then ?g r else r) (lv_entities s)\<rparr>"
  let ?s2 = "case Option.bind (map_of (lv_cache ?s1) pid) (\<lambda>ents. map_of ents (cat, n)) of None \<Rightarrow> ?s1
     | Some a \<Rightarrow> ?s1\<lparr>lv_heap := (lv_heap ?s1)[a := ?h (deref ?s1 a)]\<rparr>"
  have "coherent env ?s2"
  proof (cases "Option.bind (map_of (lv_cache s) pid) (\<lambda>ents. map_of ents (cat, n))")
    case None
    then have no: "(cat, n) \<notin> fst ` set ents" if "map_of (lv_cache s) pid = Some ents" for ents
      using that by (simp add: map_of_eq_None_iff)
    have "coherent env ?s1"
    proof (rule update_uncached [OF 2(2) no, where g = ?g])
      show "er_pid (?g r) = er_pid r \<and> row_key (?g r) = row_key r \<and> er_fp (?g r) = er_fp r" for r by (simp add: row_key_def)
    qed (simp_all del: map_eq_conv)
    then show ?thesis using None by simp
  next
    case (Some a)
    then obtain ents where ents: "map_of (lv_cache s) pid = Some ents" "map_of ents (cat, n) = Some a" by (auto simp: bind_eq_Some_conv)
    have "coherent env (?s1\<lparr>lv_heap := (lv_heap s)[a := ?h (deref s a)]\<rparr>)"
    proof (rule update_coherent [OF 2(2) ents(1) map_of_SomeD [OF ents(2)], where g = ?g and h = ?h])
      fix w e assume "read_entity env s w = Inr e"
      then show "read_entity env s (?g w) = Inr (?h e)"
        using read_entity_fields(2) [of env s w e] read_entity_occ [of env s w e] by simp
    next
      show "er_pid (?g r) = er_pid r \<and> row_key (?g r) = row_key r \<and> er_fp (?g r) = er_fp r" for r by (simp add: row_key_def)
    qed (simp_all add: fps_def with_variant_def del: map_eq_conv)
    then show ?thesis using Some by (simp add: deref_def)
  qed
  moreover have "same_keys s ?s2" "lv_cache ?s2 = lv_cache s" by (simp_all add: same_keys_def split: option.split)
  ultimately show ?case using 2(1) [OF refl] by (auto simp: Let_def same_keys_def)
qed (simp add: same_keys_def)

lemma add_variant_coherent:
  assumes env: "env_ok env" and c: "coherent env s" and live: "live s a"
    and fresh: "fp \<in> fps (deref s a) \<or> fp \<notin> set (fps_of s (en_pid (deref s a)))"
    and run: "add_variant env a fp surface s = (Inr (), s')"
  shows "coherent env s' \<and> same_keys s s' \<and> lv_cache s' = lv_cache s"
proof (cases "fp \<in> fps (deref s a)")
  case True
  then have "s' = s" using run by (auto simp: add_variant_def Let_def fps_def)
  then show ?thesis using c by (simp add: same_keys_def)
next
  case False
  let ?e = "deref s a" and ?pid = "en_pid (deref s a)" and ?k = "en_key (deref s a)"
  from c live obtain ents where ents: "map_of (lv_cache s) ?pid = Some ents" "(?k, a) \<in> set ents" "a < length (lv_heap s)"
    by (rule liveD)
  have p: "project_ok env s ?pid ents" by (rule coherentD(5) [OF c ents(1)])
  then obtain idx where idx: "map_of (lv_index s) ?pid = Some idx" "index_ok s ents idx" by (auto simp: project_ok_def)
  have new: "fp \<notin> set (fps_of s ?pid)" using False fresh by blast
  obtain ct s1 s2 where
    v: "encrypt_value env ?pid surface s = (Inr ct, s1)" and
    i: "insert_variant \<lparr>vr_pid = ?pid, vr_cat = en_cat ?e, vr_n = en_n ?e, vr_fp = fp, vr_value = ct\<rparr> s1 = (Inr (), s2)" and
    x: "index_set ?pid fp a (s2\<lparr>lv_heap := (lv_heap s2)[a := with_variant fp surface (deref s2 a)]\<rparr>) = (Inr (), s')"
    using run False by (auto simp: add_variant_def Let_def fps_def mbind_Inr set_obj_def upd_def)
  note v' = encrypt_value_dec [OF env v]
  let ?v = "\<lparr>vr_pid = ?pid, vr_cat = en_cat ?e, vr_n = en_n ?e, vr_fp = fp, vr_value = ct\<rparr>"
  have "\<not> list_ex (\<lambda>q. vr_pid q = ?pid \<and> vr_fp q = fp) (lv_variants s)"
    using new by (auto simp: list_ex_iff fps_of_def)
  then have i': "s2 = s\<lparr>lv_draws := Suc (lv_draws s), lv_variants := lv_variants s @ [?v]\<rparr>"
    using i by (auto simp: insert_variant_def upd_def v'(2))
  have s': "s' = s2\<lparr>lv_heap := (lv_heap s)[a := with_variant fp surface ?e], lv_index := AList.update ?pid (AList.update fp a idx) (lv_index s)\<rparr>"
    using x idx(1) by (auto simp: index_set_def i' deref_def)
  have heap: "deref s' b = (if b = a then with_variant fp surface ?e else deref s b)" for b
    using ents(3) by (simp add: s' deref_def i')
  have rws: "rows s' q = rows s q" for q by (simp add: s' i' rows_def)
  have vkey: "vkey ?v = ?k" by (simp add: vkey_def en_key_def)
  obtain r0 where r0: "r0 \<in> set (rows s ?pid)" "row_key r0 = ?k" by (rule project_entry [OF p ents(2)]) auto
  have fps': "fps (with_variant fp surface ?e) = insert fp (fps ?e)"
  proof -
    have "fst ` set (AList.update k y d) = insert k (fst ` set d)" for k y and d :: "(pystr \<times> pystr) list"
      by (simp add: dom_map_of_conv_image_fst [symmetric])
    then show ?thesis by (auto simp: fps_def with_variant_def)
  qed
  have "coherent env s'"
  proof (rule coherentI)
    have vs: "lv_variants s' = lv_variants s @ [?v]" by (simp add: s' i')
    show "tables_ok s'"
    proof -
      have f: "fps_of s' q = fps_of s q @ (if q = ?pid then [fp] else [])" for q by (simp add: fps_of_def rws vs)
      have "vkey ?v \<in> row_key ` set (rows s (vr_pid ?v))" using r0 vkey by force
      then show ?thesis using coherentD(1) [OF c] new unfolding tables_ok_def f rws vs by auto
    qed
    show "distinct (map fst (lv_cache s'))" "distinct (addresses s')" using coherentD(2,3) [OF c] by (simp_all add: s' i' addresses_def)
    show "b < length (lv_heap s')" if "b \<in> set (addresses s')" for b using coherentD(4) [OF c, of b] that by (simp add: s' i' addresses_def)
    show "project_ok env s' q es" if q: "map_of (lv_cache s') q = Some es" for q es
    proof (rule project_ok_update [OF c ents(1,2) heap, where g = id])
      show "rows s' q = map (\<lambda>r. if er_pid r = ?pid \<and> row_key r = ?k then id r else r) (rows s q)"
        unfolding rws by (rule map_idI [symmetric]) simp
      show "row_key (id r) = row_key r" for r by simp
      have k: "lv_master s' = lv_master s" "lv_metakey s' = lv_metakey s" by (simp_all add: s' i')
      show "file_entity env s' r = file_entity env s r" if "\<not> (er_pid r = ?pid \<and> row_key r = ?k)" for r
      proof (rule file_entity_cong [OF _ k])
        show "variants_of s' (er_pid r) (row_key r) = variants_of s (er_pid r) (row_key r)"
          using that vkey by (auto simp: variants_of_def vs)
      qed
      show "file_entity env s' (id r) = Inr (with_variant fp surface ?e)"
        if r: "r \<in> set (rows s ?pid)" "row_key r = ?k" "file_entity env s r = Inr ?e" for r
      proof -
        have pid: "er_pid r = ?pid" using r(1) by (simp add: rows_def)
        have "variants_of s' (er_pid r) (row_key r) = variants_of s (er_pid r) (row_key r) @ [?v]"
          using r(2) pid vkey by (simp add: variants_of_def vs)
        moreover have d: "decrypt (self_vault env s') = decrypt (self_vault env s)"
          by (intro ext) (simp add: decrypt_def derive_dek_def self_vault_def k)
        moreover have "add_read env s' = add_read env s" by (intro ext) (simp add: add_read_def d)
        moreover have "read_entity env s' r = read_entity env s r" by (simp add: read_entity_def d k)
        moreover have "add_read env s ?v ?e = Inr (with_variant fp surface ?e)" using v'(1) by (simp add: add_read_def)
        ultimately show ?thesis using r(3) by (auto simp: file_entity_def rfold_append rbind_Inr_iff)
      qed
      show "map_of (lv_cache s) q = Some es" using q by (simp add: s' i')
      show "map_of (lv_index s') q = map_of (lv_index s) q" if "q \<noteq> ?pid" using that by (simp add: s')
      have "index_ok s' ents (AList.update fp a idx)"
        unfolding index_ok_def
      proof (intro allI)
        fix y b
        have "fp \<notin> fps (deref s b)" if "b \<in> snd ` set ents" for b using project_fps [OF p that] new by blast
        moreover have "a \<in> snd ` set ents" using ents(2) by force
        moreover have "map_of idx y = Some b \<longleftrightarrow> b \<in> snd ` set ents \<and> y \<in> fps (deref s b)" using idx(2) unfolding index_ok_def by blast
        ultimately show "map_of (AList.update fp a idx) y = Some b \<longleftrightarrow> b \<in> snd ` set ents \<and> y \<in> fps (deref s' b)"
          using heap [of b] fps' by (cases "b = a"; cases "y = fp") auto
      qed
      then show "\<exists>i. map_of (lv_index s') ?pid = Some i \<and> index_ok s' ents i" by (simp add: s')
    qed
  qed
  then show ?thesis by (simp add: s' i' same_keys_def)
qed

section \<open>Deleting, locking\<close>

text \<open>Dropping a project from the cache, and rows that belong to it.\<close>

lemma drop_coherent:
  assumes c: "coherent env s"
    and e: "\<And>q. q \<noteq> pid \<Longrightarrow> rows s' q = rows s q" "rows s' pid = filter P (rows s pid)"
    and v: "lv_variants s' = filter V (lv_variants s)" "\<And>v. vr_pid v \<noteq> pid \<Longrightarrow> V v"
      "\<And>v r. v \<in> set (lv_variants s) \<Longrightarrow> vr_pid v = pid \<Longrightarrow> V v \<Longrightarrow> r \<in> set (rows s pid) \<Longrightarrow> row_key r = vkey v \<Longrightarrow> P r"
    and m: "lv_cache s' = AList.delete pid (lv_cache s)" "lv_index s' = AList.delete pid (lv_index s)" "lv_heap s' = lv_heap s"
      "lv_master s' = lv_master s" "lv_metakey s' = lv_metakey s"
  shows "coherent env s'"
proof (rule coherentI)
  have sub: "rows s' q = filter (if q = pid then P else (\<lambda>_. True)) (rows s q)" for q using e by (cases "q = pid") auto
  show "tables_ok s'"
    unfolding tables_ok_def
  proof (intro conjI allI ballI)
    fix q
    have t: "distinct (map row_key (rows s q))" "distinct (fps_of s q)" using coherentD(1) [OF c] by (auto simp: tables_ok_def)
    show "distinct (map row_key (rows s' q))" unfolding sub using t(1) by (rule distinct_map_filter)
    have "filter (\<lambda>x. vr_pid x = q) (lv_variants s') = filter V (filter (\<lambda>x. vr_pid x = q) (lv_variants s))"
      unfolding v(1) by (simp add: conj_commute)
    then have "distinct (map vr_fp (filter (\<lambda>x. vr_pid x = q) (lv_variants s')))"
      using t(2) by (simp only: fps_of_def distinct_append distinct_map_filter)
    moreover have "set (map vr_fp (filter (\<lambda>x. vr_pid x = q) (lv_variants s'))) \<subseteq> set (map vr_fp (filter (\<lambda>x. vr_pid x = q) (lv_variants s)))"
      unfolding v(1) by auto
    moreover have "distinct (map er_fp (rows s' q))" unfolding sub using t(2) by (simp only: fps_of_def distinct_append distinct_map_filter)
    moreover have "set (map er_fp (rows s' q)) \<subseteq> set (map er_fp (rows s q))" unfolding sub by auto
    ultimately show "distinct (fps_of s' q)" using t(2) unfolding fps_of_def distinct_append by blast
  next
    fix x assume x: "x \<in> set (lv_variants s')"
    then have x': "x \<in> set (lv_variants s)" "V x" unfolding v(1) by auto
    then obtain r where r: "r \<in> set (rows s (vr_pid x))" "row_key r = vkey x" using coherentD(1) [OF c] unfolding tables_ok_def by force
    then have "r \<in> set (rows s' (vr_pid x))" using v(3) [OF x'(1) _ x'(2)] unfolding sub by (cases "vr_pid x = pid") auto
    then show "vkey x \<in> row_key ` set (rows s' (vr_pid x))" using r(2) by force
  qed
  have d: "distinct (map fst (AList.delete pid (lv_cache s)))" using coherentD(2) [OF c] by (rule distinct_delete)
  then show "distinct (map fst (lv_cache s'))" by (simp add: m)
  have del: "AList.delete pid (lv_cache s) = filter (\<lambda>p. fst p \<noteq> pid) (lv_cache s)" by (auto simp: AList.delete_eq intro!: filter_cong)
  have "distinct (concat (map f xs)) \<Longrightarrow> distinct (concat (map f (filter Q xs))) \<and> set (concat (map f (filter Q xs))) \<subseteq> set (concat (map f xs))"
    for f :: "pystr \<times> (lkey \<times> nat) list \<Rightarrow> nat list" and xs Q by (induction xs) auto
  then have "distinct (addresses s') \<and> set (addresses s') \<subseteq> set (addresses s)"
    using coherentD(3) [OF c] unfolding addresses_def m del by blast
  then show "distinct (addresses s')" "\<And>b. b \<in> set (addresses s') \<Longrightarrow> b < length (lv_heap s')"
    using coherentD(4) [OF c] m(3) by auto
  show "project_ok env s' q es" if q: "map_of (lv_cache s') q = Some es" for q es
  proof -
    have ne: "q \<noteq> pid" and q': "map_of (lv_cache s) q = Some es" using q by (auto simp: m delete_conv' split: if_splits)
    have fe: "file_entity env s' r = file_entity env s r" if "r \<in> set (rows s q)" for r
    proof (rule file_entity_cong [OF _ m(4,5)])
      have "er_pid r \<noteq> pid" using that ne by (simp add: rows_def)
      then show "variants_of s' (er_pid r) (row_key r) = variants_of s (er_pid r) (row_key r)"
        unfolding variants_of_def v(1) using v(2) by (auto intro!: filter_cong)
    qed
    show ?thesis
      by (rule project_ok_cong [OF e(1) [OF ne] fe _ _ coherentD(5) [OF c q']]) (use ne in \<open>simp_all add: m deref_def delete_conv'\<close>)
  qed
qed

lemma delete_entity_coherent: "coherent env s \<Longrightarrow> coherent env (delete_entity a s) \<and> same_keys s (delete_entity a s) \<and>
    (lv_cache s = [] \<longrightarrow> lv_cache (delete_entity a s) = [])"
proof (intro conjI)
  let ?e = "deref s a"
  assume c: "coherent env s"
  show "coherent env (delete_entity a s)"
    by (rule drop_coherent [OF c, where pid = "en_pid ?e" and P = "\<lambda>r. row_key r \<noteq> en_key ?e"
          and V = "\<lambda>v. \<not> (vr_pid v = en_pid ?e \<and> vkey v = en_key ?e)"])
      (auto simp: delete_entity_def Let_def rows_def vkey_def intro!: filter_cong)
qed (simp_all add: delete_entity_def Let_def same_keys_def)

lemma delete_project_coherent:
  assumes "coherent env s" "delete_project pid s = (r, s')"
  shows "coherent env s' \<and> same_keys s s' \<and> (lv_cache s = [] \<longrightarrow> lv_cache s' = [])"
proof (cases "lv_unlocked s")
  case False
  then show ?thesis using assms by (simp add: delete_project_def need_def steps same_keys_def)
next
  case True
  then have s': "s' = s\<lparr>lv_entities := filter (\<lambda>r. er_pid r \<noteq> pid) (lv_entities s),
       lv_variants := filter (\<lambda>r. vr_pid r \<noteq> pid) (lv_variants s), lv_documents := filter (\<lambda>r. dr_pid r \<noteq> pid) (lv_documents s),
       lv_projects := filter (\<lambda>r. pr_id r \<noteq> pid) (lv_projects s),
       lv_cache := AList.delete pid (lv_cache s), lv_index := AList.delete pid (lv_index s)\<rparr>"
    using assms(2) by (simp add: delete_project_def need_def steps)
  have "coherent env s'"
    by (rule drop_coherent [OF assms(1), where pid = pid and P = "\<lambda>_. False" and V = "\<lambda>v. vr_pid v \<noteq> pid"])
      (auto simp: s' rows_def intro!: filter_cong)
  then show ?thesis by (simp add: s' same_keys_def)
qed

lemma no_cache_coherent: "tables_ok s \<Longrightarrow> lv_cache s = [] \<Longrightarrow> coherent env s"
  by (simp add: coherent_def addresses_def)

section \<open>Operations that leave the entities alone\<close>

definition keeps :: "(lv \<Rightarrow> lv \<Rightarrow> bool) \<Rightarrow> 'a lvm \<Rightarrow> bool" where
  "keeps R m \<longleftrightarrow> (\<forall>s. R s (snd (m s)))"

definition same_entities :: "lv \<Rightarrow> lv \<Rightarrow> bool" where
  "same_entities s s' \<longleftrightarrow> lv_entities s' = lv_entities s \<and> lv_variants s' = lv_variants s \<and> lv_master s' = lv_master s \<and>
     lv_fpkey s' = lv_fpkey s \<and> lv_metakey s' = lv_metakey s \<and> lv_unlocked s' = lv_unlocked s \<and>
     lv_heap s' = lv_heap s \<and> lv_cache s' = lv_cache s \<and> lv_index s' = lv_index s"

definition same_but_projects :: "lv \<Rightarrow> lv \<Rightarrow> bool" where
  "same_but_projects s s' \<longleftrightarrow> same_entities s s' \<and> lv_meta s' = lv_meta s"

lemma keeps_mbind [intro]:
  assumes "keeps R m" "\<And>x. keeps R (f x)" "\<And>a b c. R a b \<Longrightarrow> R b c \<Longrightarrow> R a c"
  shows "keeps R (mbind m f)"
proof -
  have "R s (snd (mbind m f s))" for s
    using assms(1) [unfolded keeps_def, rule_format, of s] assms(2) [unfolded keeps_def, rule_format] assms(3)
    by (auto simp: mbind_def split: prod.splits sum.splits)
  then show ?thesis by (simp add: keeps_def)
qed

lemma keeps_change: "keeps same_entities (change_password env old new)"
proof -
  have "keeps same_entities (\<lambda>s. change_password env old new s)"
    unfolding keeps_def change_password_def
    by (auto simp: steps same_entities_def set_meta_def split: sum.split option.split)
  then show ?thesis by simp
qed

lemma keeps_projects:
  "keeps same_but_projects (create_project env name lng settings)"
  "keeps same_but_projects (update_project env pid name' lng' settings)"
  "keeps same_but_projects (record_document env pid name doc_kind direction digest restore stats)"
proof -
  have tr: "same_but_projects a b \<Longrightarrow> same_but_projects b c \<Longrightarrow> same_but_projects a c" for a b c
    by (simp add: same_but_projects_def same_entities_def)
  have b: "keeps same_but_projects need" "keeps same_but_projects (new_uid env)" "keeps same_but_projects (now env)"
    "keeps same_but_projects (gets f)" "keeps same_but_projects (ret x)" "keeps same_but_projects (raise e)" "keeps same_but_projects (lift r)"
    "keeps same_but_projects (urandom env n)" "keeps same_but_projects (set_project pid g)" "keeps same_but_projects (encrypt_value env pid val)"
    "keeps same_but_projects (upd (\<lambda>s. s\<lparr>lv_projects := h s\<rparr>))" "keeps same_but_projects (upd (\<lambda>s. s\<lparr>lv_documents := d s\<rparr>))"
    for f :: "lv \<Rightarrow> 'c" and x :: 'b and e and r :: "'d res" and n g h d pid val
    by (auto simp: keeps_def same_but_projects_def same_entities_def steps need_def new_uid_def now_def set_project_def encrypt_value_def
        split: sum.split)
  have m: "keeps same_but_projects m \<Longrightarrow> (\<And>x. keeps same_but_projects (f x)) \<Longrightarrow> keeps same_but_projects (mbind m f)"
    for m :: "'c lvm" and f :: "'c \<Rightarrow> 'd lvm" by (rule keeps_mbind [OF _ _ tr])
  have o: "keeps same_but_projects x \<Longrightarrow> (\<And>y. keeps same_but_projects (f y)) \<Longrightarrow> keeps same_but_projects (case z of None \<Rightarrow> x | Some y \<Rightarrow> f y)"
    for x :: "'c lvm" and f :: "'d \<Rightarrow> 'c lvm" and z by (cases z) auto
  have i: "keeps same_but_projects x \<Longrightarrow> keeps same_but_projects y \<Longrightarrow> keeps same_but_projects (if p then x else y)"
    for x y :: "'c lvm" and p by simp
  show "keeps same_but_projects (create_project env name lng settings)"
    unfolding create_project_def enc_meta_def by (rule m b i)+
  show "keeps same_but_projects (update_project env pid name' lng' settings)"
    unfolding update_project_def enc_meta_def touch_def by (rule m b o)+
  show "keeps same_but_projects (record_document env pid name doc_kind direction digest restore stats)"
    unfolding record_document_def enc_meta_def touch_def by (rule m b o i)+
qed

section \<open>Calls that raise\<close>

text \<open>An \<open>add_entity\<close> that raises has loaded the project and nothing more.\<close>

lemma add_entity_fails:
  assumes c: "coherent env s" and run: "add_entity env pid category canonical fp meta origin excluded s = (Inl e, s')"
  shows "\<exists>r s1. load env pid s = (r, s1) \<and> same_entities s1 s' \<and> lv_meta s' = lv_meta s1"
proof -
  obtain r s1 where l: "load env pid s = (r, s1)" by (cases "load env pid s")
  have "same_entities s1 s' \<and> lv_meta s' = lv_meta s1"
  proof (cases r)
    case (Inl x)
    then show ?thesis using run l by (simp add: add_entity_def steps same_entities_def)
  next
    case (Inr ents)
    have "coherent env s1" "map_of (lv_cache s1) pid = Some ents" using load_coherent [OF c l] Inr by blast+
    then obtain idx where "map_of (lv_index s1) pid = Some idx" using coherentD(5) by (metis project_ok_def)
    then show ?thesis using run l Inr
      by (auto simp: add_entity_def steps encrypt_value_def enc_meta_def now_def insert_entity_def index_set_def touch_def set_project_def
          same_entities_def split: sum.splits if_splits)
  qed
  then show ?thesis using l by blast
qed

lemma add_variant_fails:
  assumes c: "coherent env s" and live: "live s a" and run: "add_variant env a fp surface s = (Inl e, s')"
  shows "s' = s"
proof -
  from c live obtain ents where "map_of (lv_cache s) (en_pid (deref s a)) = Some ents" by (rule liveD)
  from coherentD(5) [OF c this] obtain idx where "map_of (lv_index s) (en_pid (deref s a)) = Some idx" by (auto simp: project_ok_def)
  then show ?thesis using run
    by (auto simp: add_variant_def Let_def steps encrypt_value_def insert_variant_def set_obj_def index_set_def split: sum.splits if_splits)
qed

text \<open>\<open>set_canonical\<close> returns for a value that UTF-8 can encode.\<close>

lemma set_canonical_returns:
  assumes env: "env_ok env" and c: "coherent env s" and live: "live s a" and val: "encodable val"
    and meta: "case meta of None \<Rightarrow> plain_json (en_meta (deref s a)) | Some m \<Rightarrow> plain_json m"
  shows "\<exists>s'. set_canonical env a val meta s = (Inr (), s')"
proof -
  from c live obtain ents where ents: "map_of (lv_cache s) (en_pid (deref s a)) = Some ents" "(en_key (deref s a), a) \<in> set ents" "a < length (lv_heap s)"
    by (rule liveD)
  obtain r where r: "file_entity env s r = Inr (deref s a)" "er_pid r = en_pid (deref s a)"
    using project_entry [OF coherentD(5) [OF c ents(1)] ents(2)] by blast
  then obtain x where "decrypt (self_vault env s) (en_pid (deref s a)) (er_value r) = Inr x"
    by (auto simp: file_entity_def read_entity_def rbind_Inr_iff)
  then have pid: "encodable (en_pid (deref s a))" by (auto simp: decrypt_def derive_dek_def utf8_encode_def rbind_Inr_iff split: if_splits)
  have "encodable (le_dumps env True (case meta of None \<Rightarrow> en_meta (deref s a) | Some m \<Rightarrow> m))"
    using meta env by (auto simp: env_ok_def json_ok_def split: option.splits)
  then show ?thesis using ents(3) pid val
    by (cases meta) (simp_all add: set_canonical_def set_obj_def steps deref_def Let_def encrypt_value_def encrypt_def derive_dek_def
        utf8_encode_def enc_meta_def set_row_def)
qed

section \<open>Runs\<close>

text \<open>
  \<open>vault_run env pw dk s\<close>: \<open>s\<close> is reached from a new vault by the operations in any order, returning or raising, each
  object passed being one of the cache and each new fingerprint new to its project, as the engine calls them. One case is
  left out: \<open>set_canonical\<close> with a value that UTF-8 cannot encode raises with the memory ahead of the file
  (\<open>set_canonical_half_done\<close>).
\<close>

inductive vault_run :: "lv_env \<Rightarrow> pystr \<Rightarrow> bytes \<Rightarrow> lv \<Rightarrow> bool" for env where
  create: "initialize env pw new_vault = (Inr (), s) \<Longrightarrow> vault_run env pw (le_rng env 1 32) s"
| unlock: "vault_run env pw dk s \<Longrightarrow> unlock env pw' s = (r, s') \<Longrightarrow> vault_run env pw dk s'"
| change: "vault_run env pw dk s \<Longrightarrow> change_password env old new s = (Inr (), s') \<Longrightarrow> vault_run env new dk s'"
| refuse: "vault_run env pw dk s \<Longrightarrow> change_password env old new s = (Inl e, s') \<Longrightarrow> vault_run env pw dk s'"
| lock: "vault_run env pw dk s \<Longrightarrow> vault_run env pw dk (lock s)"
| load: "vault_run env pw dk s \<Longrightarrow> load env pid s = (r, s') \<Longrightarrow> vault_run env pw dk s'"
| add: "vault_run env pw dk s \<Longrightarrow> fp \<notin> set (fps_of s pid) \<Longrightarrow> plain_json (JDict meta) \<Longrightarrow>
    add_entity env pid category canonical fp meta origin excluded s = (r, s') \<Longrightarrow> vault_run env pw dk s'"
| variant: "vault_run env pw dk s \<Longrightarrow> live s a \<Longrightarrow> fp \<in> fps (deref s a) \<or> fp \<notin> set (fps_of s (en_pid (deref s a))) \<Longrightarrow>
    add_variant env a fp surface s = (r, s') \<Longrightarrow> vault_run env pw dk s'"
| canonical: "vault_run env pw dk s \<Longrightarrow> live s a \<Longrightarrow>
    (case m of None \<Rightarrow> plain_json (en_meta (deref s a)) | Some j \<Rightarrow> plain_json j) \<Longrightarrow> encodable val \<Longrightarrow>
    set_canonical env a val m s = (r, s') \<Longrightarrow> vault_run env pw dk s'"
| exclude: "vault_run env pw dk s \<Longrightarrow> live s a \<Longrightarrow> set_excluded a ex s = (r, s') \<Longrightarrow> vault_run env pw dk s'"
| bump: "vault_run env pw dk s \<Longrightarrow> vault_run env pw dk (bump items s)"
| delete: "vault_run env pw dk s \<Longrightarrow> vault_run env pw dk (delete_entity a s)"
| drop_project: "vault_run env pw dk s \<Longrightarrow> delete_project pid s = (r, s') \<Longrightarrow> vault_run env pw dk s'"
| project: "vault_run env pw dk s \<Longrightarrow> vault_run env pw dk (snd (create_project env name lng settings s))"
| update: "vault_run env pw dk s \<Longrightarrow> vault_run env pw dk (snd (update_project env pid name' lng' settings s))"
| document: "vault_run env pw dk s \<Longrightarrow>
    vault_run env pw dk (snd (record_document env pid name dkind direction digest restore stats s))"

definition run_inv :: "lv_env \<Rightarrow> pystr \<Rightarrow> bytes \<Rightarrow> lv \<Rightarrow> bool" where
  "run_inv env pw dk s \<longleftrightarrow> sealed env pw dk s \<and> coherent env s \<and> (lv_unlocked s \<or> lv_cache s = [])"

lemma run_inv_same:
  assumes "run_inv env pw dk s" "coherent env s' \<and> same_keys s s'" "lv_cache s = [] \<Longrightarrow> lv_cache s' = [] \<or> lv_unlocked s'"
  shows "run_inv env pw dk s'"
  using assms sealed_same [of env pw dk s s'] by (auto simp: run_inv_def same_keys_def)

lemma same_entities_coherent: "coherent env s \<Longrightarrow> same_entities s s' \<Longrightarrow> coherent env s'"
  by (rule coherent_frame) (auto simp: same_entities_def)

lemma vault_run_inv:
  assumes env: "env_ok env"
  shows "vault_run env pw dk s \<Longrightarrow> run_inv env pw dk s"
proof (induction rule: vault_run.induct)
  case (create pw s)
  have w: "wrap_ok env" using env by (simp add: env_ok_def)
  have "lv_entities s = [] \<and> lv_variants s = [] \<and> lv_cache s = []"
    using create by (auto simp: initialize_def steps enc_meta_def set_meta_def install_keys_def new_vault_def split: if_splits sum.splits)
  moreover from this have "tables_ok s" by (simp add: tables_ok_def rows_def fps_of_def)
  ultimately show ?case
    using initialize_seals [OF w create] no_cache_coherent [of s env] by (simp add: run_inv_def new_vault_def)
next
  case (unlock pw dk s pw' r s')
  have w: "wrap_ok env" using env by (simp add: env_ok_def)
  have s: "sealed env pw dk s" "coherent env s" using unlock.IH by (simp_all add: run_inv_def)
  show ?case
  proof (cases "s' = s")
    case True
    then show ?thesis using unlock.IH by simp
  next
    case False
    then have s': "s' = install_keys env dk s" using unlock_other [OF w s(1), of pw'] unlock.hyps(2) by auto
    have "coherent env s'"
    proof (cases "lv_unlocked s")
      case True
      then have "keys_of env dk s" using s(1) by (auto simp: sealed_def)
      then show ?thesis by (intro coherent_frame [OF s(2)]) (auto simp: s' install_keys_def keys_of_def)
    next
      case False
      then have "lv_cache s' = []" using unlock.IH by (simp add: run_inv_def s' install_keys_def)
      moreover have "tables_ok s'" using coherentD(1) [OF s(2)] tables_ok_cong [of s' s] by (simp add: s' install_keys_def)
      ultimately show ?thesis by (intro no_cache_coherent)
    qed
    then show ?thesis using sealed_install [OF s(1)] by (simp add: run_inv_def s' install_keys_def)
  qed
next
  case (change pw dk s old new s')
  have e: "same_entities s s'" using keeps_change [of env old new] change.hyps(2) unfolding keeps_def by (metis snd_conv)
  have w: "wrap_ok env" using env by (simp add: env_ok_def)
  have "sealed env new dk s'" using change_result [OF w _ change.hyps(2)] change.IH by (auto simp: run_inv_def)
  then show ?case using same_entities_coherent [OF _ e] change.IH e by (auto simp: run_inv_def same_entities_def)
next
  case (refuse pw dk s old new e s')
  have se: "same_entities s s'" using keeps_change [of env old new] refuse.hyps(2) unfolding keeps_def by (metis snd_conv)
  have w: "wrap_ok env" using env by (simp add: env_ok_def)
  have "same_keys s s'" using change_result [OF w _ refuse.hyps(2)] refuse.IH by (auto simp: run_inv_def)
  then show ?case using same_entities_coherent [OF _ se] refuse.IH se
    by (intro run_inv_same [OF refuse.IH]) (auto simp: run_inv_def same_entities_def)
next
  case (lock pw dk s)
  then have "coherent env (lock s)"
    using coherentD(1) [of env s] tables_ok_cong [of "lock s" s] by (intro no_cache_coherent) (auto simp: run_inv_def lock_def)
  then show ?case using lock.IH sealed_lock by (simp add: run_inv_def lock_def)
next
  case (load pw dk s pid r s')
  then have "coherent env s" by (simp add: run_inv_def)
  from load_coherent [OF this load.hyps(2)] show ?case by (intro run_inv_same [OF load.IH]) auto
next
  case (add pw dk s fp pid meta category canonical origin excluded r s')
  then have c: "coherent env s" by (simp add: run_inv_def)
  show ?case
  proof (cases r)
    case (Inl e)
    obtain q s1 where l: "load env pid s = (q, s1)" "same_entities s1 s'" "lv_meta s' = lv_meta s1"
      using add_entity_fails [OF c] add.hyps(4) Inl by blast
    note lc = load_coherent [OF c l(1)]
    have "coherent env s'" using same_entities_coherent [OF _ l(2)] lc by blast
    then show ?thesis using lc l(2,3)
      by (intro run_inv_same [OF add.IH]) (auto simp: same_keys_def same_entities_def)
  next
    case (Inr a)
    from add_entity_coherent [OF env add.hyps(3) c add.hyps(2,4) [unfolded Inr]] show ?thesis by (intro run_inv_same [OF add.IH]) auto
  qed
next
  case (variant pw dk s a fp surface r s')
  then have c: "coherent env s" by (simp add: run_inv_def)
  show ?case
  proof (cases r)
    case (Inl e)
    then show ?thesis using add_variant_fails [OF c variant.hyps(2)] variant.hyps(4) variant.IH by blast
  next
    case (Inr u)
    from add_variant_coherent [OF env c variant.hyps(2,3) variant.hyps(4) [unfolded Inr unit_eq [of u]]] show ?thesis
      by (intro run_inv_same [OF variant.IH]) auto
  qed
next
  case (canonical pw dk s a m val r s')
  then have c: "coherent env s" by (simp add: run_inv_def)
  have "set_canonical env a val m s = (Inr (), s')"
    using set_canonical_returns [OF env c canonical.hyps(2,4,3)] canonical.hyps(5) by auto
  from set_canonical_coherent [OF env c canonical.hyps(2,3) this] show ?case
    by (intro run_inv_same [OF canonical.IH]) (auto simp: same_keys_def)
next
  case (exclude pw dk s a ex r s')
  then have "coherent env s" by (simp add: run_inv_def)
  from set_excluded_coherent [OF this exclude.hyps(2,3)] show ?case by (intro run_inv_same [OF exclude.IH]) auto
next
  case (bump pw dk s items)
  then have "coherent env s" by (simp add: run_inv_def)
  from bump_coherent [OF this] show ?case by (intro run_inv_same [OF bump.IH]) auto
next
  case (delete pw dk s a)
  then have "coherent env s" by (simp add: run_inv_def)
  from delete_entity_coherent [OF this] show ?case by (intro run_inv_same [OF delete.IH]) auto
next
  case (drop_project pw dk s pid r s')
  then have "coherent env s" by (simp add: run_inv_def)
  from delete_project_coherent [OF this drop_project.hyps(2)] show ?case by (intro run_inv_same [OF drop_project.IH]) auto
next
  case (project pw dk s name lng settings)
  from keeps_projects(1) [of env name lng settings] show ?case using same_entities_coherent project.IH
    by (intro run_inv_same [OF project.IH]) (auto simp: keeps_def same_but_projects_def same_keys_def same_entities_def run_inv_def)
next
  case (update pw dk s pid name' lng' settings)
  from keeps_projects(2) [of env pid name' lng' settings] show ?case using same_entities_coherent update.IH
    by (intro run_inv_same [OF update.IH]) (auto simp: keeps_def same_but_projects_def same_keys_def same_entities_def run_inv_def)
next
  case (document pw dk s pid name dkind direction digest restore stats)
  from keeps_projects(3) [of env pid name dkind direction digest restore stats] show ?case using same_entities_coherent document.IH
    by (intro run_inv_same [OF document.IH]) (auto simp: keeps_def same_but_projects_def same_keys_def same_entities_def run_inv_def)
qed

text \<open>C31. The memory of the vault never departs from its file: after any operations, the cached entities of a
  project are exactly what \<open>_load\<close> would read and decrypt from the file, in the same order, and the
  fingerprint index finds an object exactly under its own fingerprint and those of its variants.\<close>

theorem cache_is_file:
  assumes "env_ok env" "vault_run env pw dk s" "map_of (lv_cache s) pid = Some ents"
  shows "read_project env s pid = Inr (map (\<lambda>(k, a). (k, deref s a)) ents) \<and>
    (fst (by_fingerprint env pid fp s) = Inr (Some a) \<longleftrightarrow> a \<in> snd ` set ents \<and> fp \<in> fps (deref s a))"
proof -
  have i: "run_inv env pw dk s" by (rule vault_run_inv [OF assms(1,2)])
  then have c: "coherent env s" and u: "lv_unlocked s" using assms(3) by (auto simp: run_inv_def)
  have p: "project_ok env s pid ents" by (rule coherentD(5) [OF c assms(3)])
  then have "list_all2 (entry_ok env s) (rows s pid) ents" by (simp add: project_ok_def)
  then have "list_all2 (\<lambda>r (k, e). k = row_key r \<and> file_entity env s r = Inr e) (rows s pid) (map (\<lambda>(k, a). (k, deref s a)) ents)"
    unfolding list_all2_map2 by (rule list.rel_mono_strong) (auto simp: entry_ok_def)
  then have "read_project env s pid = Inr (map (\<lambda>(k, a). (k, deref s a)) ents)"
    using read_project_iff [OF coherentD(1) [OF c]] by blast
  moreover obtain idx where "map_of (lv_index s) pid = Some idx" "index_ok s ents idx" using p by (auto simp: project_ok_def)
  ultimately show ?thesis
    using u assms(3) by (auto simp: by_fingerprint_def load_def need_def steps index_ok_def simp del: split_paired_Ex)
qed

lemma json_ok_demo: "json_ok demo_env"
proof -
  have inj: "i = j" if "plain_json i" "plain_json j" "enc (\<lambda>_. []) i = enc (\<lambda>_. []) j" for i j
    using enc_inj [OF that(1,2), of "[]" "[]"] that(3) by (simp add: delim_def)
  have "demo_loads (enc (\<lambda>_. []) j) = Inr j" if "plain_json j" for j
  proof -
    have "(SOME i. plain_json i \<and> enc (\<lambda>_. []) i = enc (\<lambda>_. []) j) = j"
      using that inj by (intro some_equality) auto
    then show ?thesis using that by (auto simp: demo_loads_def)
  qed
  moreover have "enc (\<lambda>_. []) j \<noteq> []" if "plain_json j" for j using enc_head [OF that] by simp
  moreover have "encodable (enc (\<lambda>_. []) j)" if "plain_json j" for j by (rule low_encodable [OF enc_ascii [OF that]])
  ultimately show ?thesis by (simp add: json_ok_def demo_env_def)
qed

lemma env_ok_demo: "env_ok demo_env"
  by (simp add: env_ok_def wrap_ok_demo json_ok_demo)

lemma first_entity:
  assumes "lv_unlocked s" "lv_entities s = []" "lv_variants s = []" "lv_cache s = []" "encodable pid" "encodable val"
    "encodable (le_dumps env True (JDict []))"
  shows "fst (add_entity env pid category val fp [] origin ex s) = Inr (length (lv_heap s))"
  using assms by (simp add: add_entity_def steps load_def need_def read_project_def encrypt_value_def encrypt_def derive_dek_def
      utf8_encode_def Let_def enc_meta_def now_def insert_entity_def index_set_def touch_def set_project_def update_same)

lemma cache_is_file_witness:
  "\<exists>s ents. read_project demo_env s (str ''p1'') = Inr (map (\<lambda>(k, a). (k, deref s a)) ents) \<and>
    (fst (by_fingerprint demo_env (str ''p1'') (str ''f1'') s) = Inr (Some 0) \<longleftrightarrow>
      0 \<in> snd ` set ents \<and> str ''f1'' \<in> fps (deref s 0))"
proof -
  have e: "encodable (str ''secret1'')" "encodable (str ''p1'')" "encodable (str ''Ada'')" "encodable (le_dumps demo_env True (JDict []))"
    by (simp_all add: encodable_def str_def surrogate_def demo_env_def enc_JDict)
  have "\<not> initialized new_vault" by (simp add: initialized_def get_meta_def new_vault_def)
  then obtain s1 where s1: "initialize demo_env (str ''secret1'') new_vault = (Inr (), s1)"
    using initialize_runs [OF e(1), of new_vault demo_env] by (cases "initialize demo_env (str ''secret1'') new_vault") auto
  then have "lv_unlocked s1 \<and> lv_entities s1 = [] \<and> lv_variants s1 = [] \<and> lv_cache s1 = []"
    by (auto simp: initialize_def steps enc_meta_def set_meta_def install_keys_def new_vault_def split: if_splits sum.splits)
  then obtain a s2 where s2: "add_entity demo_env (str ''p1'') (str ''PERSON'') (str ''Ada'') (str ''f1'') [] (str ''auto'') False s1 = (Inr a, s2)"
    and f: "str ''f1'' \<notin> set (fps_of s1 (str ''p1''))"
    using first_entity [of s1 "str ''p1''" "str ''Ada''" demo_env "str ''PERSON''" "str ''f1''" "str ''auto''" False] e
    by (cases "add_entity demo_env (str ''p1'') (str ''PERSON'') (str ''Ada'') (str ''f1'') [] (str ''auto'') False s1")
      (auto simp: fps_of_def rows_def)
  have r: "vault_run demo_env (str ''secret1'') (le_rng demo_env 1 32) s2"
    using vault_run.add [OF vault_run.create [OF s1] f _ s2] by (simp add: plain_JDict)
  have c: "coherent demo_env s1" using vault_run_inv [OF env_ok_demo vault_run.create [OF s1]] by (simp add: run_inv_def)
  obtain ents where "map_of (lv_cache s2) (str ''p1'') = Some ents"
    by (rule add_entity_result [OF env_ok_demo _ c s2]) (auto simp: plain_JDict)
  from cache_is_file [OF env_ok_demo r this] show ?thesis by blast
qed

section \<open>Where the code falls short\<close>

text \<open>Numbers are reused: the label of a deleted entity goes to the next new value of its category.\<close>

lemma max_n_rows: "max_n pid category l = foldr max (map er_n (filter (\<lambda>r. er_cat r = category) (filter (\<lambda>r. er_pid r = pid) l))) 0"
  by (simp add: max_n_def conj_commute)

lemma label_reused:
  assumes env: "env_ok env" and c: "coherent env s" and meta: "plain_json (JDict m)" "plain_json (JDict m')"
    and fresh: "fp \<notin> set (fps_of s pid)"
    and add: "add_entity env pid category val fp m origin ex s = (Inr a, s1)"
    and again: "add_entity env pid category val' fp' m' origin' ex' (delete_entity a s1) = (Inr b, s2)"
  shows "en_key (deref s2 b) = en_key (deref s1 a) \<and> en_value (deref s2 b) = val' \<and> en_value (deref s1 a) = val"
proof -
  have c1: "coherent env (delete_entity a s1)" using add_entity_coherent [OF env meta(1) c fresh add] delete_entity_coherent by blast
  obtain s0 ents r idx e where l: "load env pid s = (Inr ents, s0)" and
    f: "a = length (lv_heap s0)" "lv_entities s1 = lv_entities s0 @ [r]" "lv_heap s1 = lv_heap s0 @ [e]"
      "row_key r = (category, Suc (max_n pid category (lv_entities s0)))" "er_pid r = pid" "read_entity env s0 r = Inr e" "en_value e = val"
      "\<not> list_ex (\<lambda>q. er_pid q = pid \<and> (row_key q = row_key r \<or> er_fp q = fp)) (lv_entities s0)"
    by (rule add_entity_result [OF env meta(1) c add]) blast
  have ra: "deref s1 a = e" by (simp add: deref_def f)
  have k: "en_key e = row_key r" "en_pid e = pid" using read_entity_keys [OF f(6)] f(5) by simp_all
  obtain s3 ents' r' idx' e' where l': "load env pid (delete_entity a s1) = (Inr ents', s3)" and
    f': "b = length (lv_heap s3)" "lv_heap s2 = lv_heap s3 @ [e']"
      "row_key r' = (category, Suc (max_n pid category (lv_entities s3)))" "read_entity env s3 r' = Inr e'" "en_value e' = val'"
    by (rule add_entity_result [OF env meta(2) c1 again]) blast
  have "lv_entities s3 = lv_entities (delete_entity a s1)" using load_coherent [OF c1 l'] by simp
  also have "\<dots> = filter (\<lambda>q. \<not> (er_pid q = pid \<and> row_key q = row_key r)) (lv_entities s0 @ [r])"
    by (simp add: delete_entity_def Let_def ra k f(2))
  also have "\<dots> = lv_entities s0"
    using f(5,8) by (auto simp: list_ex_iff filter_id_conv)
  finally have "row_key r' = row_key r" using f'(3) f(4) by simp
  moreover have "deref s2 b = e'" by (simp add: deref_def f')
  ultimately show ?thesis using read_entity_keys [OF f'(4)] ra k f(7) f'(5) by simp
qed

text \<open>A value that cannot be encoded changes the object before the encryption raises.\<close>

lemma set_canonical_half_done:
  assumes "\<not> encodable val" "a < length (lv_heap s)" "encodable (en_pid (deref s a))"
  shows "\<exists>s'. set_canonical env a val None s = (Inl UnicodeError, s') \<and> en_value (deref s' a) = val \<and> lv_entities s' = lv_entities s"
  using assms by (simp add: set_canonical_def set_obj_def steps deref_def Let_def encrypt_value_def encrypt_def derive_dek_def utf8_encode_def)

text \<open>A verifier that does not open leaves the vault unlocked behind the exception.\<close>

lemma unlock_unreadable_verifier:
  assumes "wrap_ok env" "sealed env pw dk s" "get_meta (str ''verifier'') s = Some (vn @ c)" "length vn = NONCE_LEN"
    "c_open (le_crypto env) (hkdf env dk ''metadata-encryption'') vn c' = Inl InvalidTag"
  shows "unlock env pw (set_meta (str ''verifier'') (vn @ c') s) = (Inl InvalidTag, install_keys env dk (set_meta (str ''verifier'') (vn @ c') s))"
proof -
  let ?s = "set_meta (str ''verifier'') (vn @ c') s"
  from assms(2) obtain salt nonce where
    m: "get_meta (str ''salt'') s = Some salt" "salt \<noteq> []" "length nonce = NONCE_LEN" "encodable pw"
      "get_meta (str ''wrapped'') s = Some (nonce @ le_wrap env (kek env pw salt) nonce dk (ascii_bytes VERIFIER))"
    unfolding sealed_def by blast
  obtain k where k: "derive env pw (Some salt) = Inr k" "kek env pw salt = hkdf env k ''key-wrap''" using derive_kek [OF m(4)] by blast
  have ne: "nonce \<noteq> []" "vn \<noteq> []" using m(3) assms(4) by (auto simp: NONCE_LEN_def)
  have un: "unwrap_key env (kek env pw salt) (nonce @ le_wrap env (kek env pw salt) nonce dk (ascii_bytes VERIFIER)) = Inr dk"
    using assms(1) m(3) by (simp add: unwrap_key_def wrap_ok_def NONCE_LEN_def)
  have g: "get_meta (str ''salt'') ?s = Some salt" "get_meta (str ''verifier'') ?s = Some (vn @ c')"
    "get_meta (str ''wrapped'') ?s = Some (nonce @ le_wrap env (kek env pw salt) nonce dk (ascii_bytes VERIFIER))"
    using m by (simp_all add: get_meta_def set_meta_def)
  have ik: "lv_metakey (install_keys env dk ?s) = hkdf env dk ''metadata-encryption''"
    "get_meta x (install_keys env dk ?s) = get_meta x ?s" for x
    by (simp_all add: install_keys_def get_meta_def)
  show ?thesis using k m(2) ne un assms(4,5) by (simp add: unlock_def g steps ik dec_meta_def)
qed

end
