(* ===== verification/Ner_Patterns.thy ===== *)
theory Ner_Patterns
  imports Labels
begin

text \<open>
  The patterns of \<open>app/desktop/ner_rules.py\<close>, one definition per name of the code, the fragments the
  code interpolates included. \<open>Is\<close> and \<open>Non\<close> are character sets, \<open>IsCi\<close> and \<open>NonCi\<close> the same under
  \<open>IGNORECASE\<close>; Cyrillic literals are spelled as in theory \<open>Cyrillic\<close>.
\<close>

section \<open>Shorthands\<close>

abbreviation Is :: "citem list \<Rightarrow> re" where "Is its \<equiv> Cls False False its"
abbreviation Non :: "citem list \<Rightarrow> re" where "Non its \<equiv> Cls False True its"
abbreviation IsCi :: "citem list \<Rightarrow> re" where "IsCi its \<equiv> Cls True False its"
abbreviation NonCi :: "citem list \<Rightarrow> re" where "NonCi its \<equiv> Cls True True its"
abbreviation SPC :: re where "SPC \<equiv> Is [CSpace]"

definition ones :: "pystr \<Rightarrow> citem list" where
  "ones cs = map (\<lambda>c. CRange c c) cs"

definition lit :: "pystr \<Rightarrow> re" where
  "lit s = seqs (map (\<lambda>c. Is [CRange c c]) s)"

section \<open>Patterns\<close>

definition UP :: "citem list" where
  "UP =
     [CRange 1040 1071] @ ones (cyr ''I^7^3G^0'')"

definition LO :: "citem list" where
  "LO =
     [CRange 1072 1103] @ ones (cyr ''i73g0'')"

definition AP :: "citem list" where
  "AP =
     ones ([39, 8217, 700])"

definition CW :: re where
  "CW =
     seqs [Is UP, plus1 (Is (LO @ AP)), opt (seqs [lit (str ''-''), Is UP, plus1 (Is (LO @ AP))])]"

definition CU :: re where
  "CU =
     seqs [Is UP, plus1 (Is (UP @ AP)), opt (seqs [lit (str ''-''), Is UP, plus1 (Is (UP @ AP))])]"

definition LW :: re where
  "LW =
     seqs [opt (alts (map (lit \<circ> str) [''Mc'', ''Mac''] @ map lit [str ''O'' @ [39], str ''O'' @ [8217], str ''D'' @ [39]] @
      map (lit \<circ> str) [''De'', ''Van'', ''Di''])), Is [CRange 65 90], plus1 (Is ([CRange 97 122] @ ones ([39, 8217]))),
      opt (seqs [lit (str ''-''), Is [CRange 65 90], plus1 (Is ([CRange 97 122] @ ones ([39, 8217])))])]"

definition LU :: re where
  "LU =
     seqs [Is [CRange 65 90], plus1 (Is ([CRange 65 90] @ ones ([39, 8217]))), opt (seqs [lit (str ''-''), Is [CRange 65 90],
      plus1 (Is ([CRange 65 90] @ ones ([39, 8217])))])]"

definition NB :: re where
  "NB =
     Behind False (Is ([CWord] @ AP @ [CRange 45 45]))"

definition NE :: re where
  "NE =
     Ahead False (Is ([CWord] @ AP))"

definition PATR :: re where
  "PATR =
     seqs [Is UP, Rep False (Is (LO @ AP)) 1 None, alts (map (lit \<circ> cyr) [''ovy4'', ''evy4'', ''1ovy4'', ''8ovy4'', ''ivn'', ''7vn'',
      ''ovn'', ''evn'', ''i4n'', ''y4n'', ''y4'']), between (Is LO) 0 3]"

definition PATR_U :: re where
  "PATR_U =
     seqs [Is UP, Rep False (Is (UP @ AP)) 1 None, alts (map (lit \<circ> cyr) [''OVY^4'', ''EVY^4'', ''^1OVY^4'', ''^8OVY^4'', ''IVN'',
      ''^7VN'', ''OVN'', ''EVN'', ''I^4N'', ''Y^4N'', ''Y^4'']), between (Is UP) 0 3]"

definition INIT :: re where
  "INIT =
     seqs [Is UP, lit (str ''.''), opt SPC, opt (seqs [Is UP, lit (str ''.'')])]"

definition INIT_L :: re where
  "INIT_L =
     seqs [Is [CRange 65 90], lit (str ''.''), opt SPC, opt (seqs [Is [CRange 65 90], lit (str ''.'')])]"

definition SURNAME_SUFFIX :: re where
  "SURNAME_SUFFIX =
     seqs [alts (map (lit \<circ> cyr) [''enko'', ''enka'', ''enku'', ''4uk'', ''5uk'', ''9k'', ''uk'', ''ywyn'', ''s8ky1'', ''s8ka'',
      ''c8ky1'', ''c8ka'', ''s8koho'', ''s8ko7'', ''ov'', ''ova'', ''ev'', ''eva'', ''in'', ''ina'', ''yn'', ''yna'', ''ec8'', ''qnu'',
      ''qn'', ''y4'', ''vy4'', ''ko'', ''ak'', ''qk'', ''uk'', ''ar'', ''i1'']), between (Is ([CRange 1072 1103] @ ones (cyr ''i73g'')))
      0 3, Eos]"

definition STRONG_SURNAME :: re where
  "STRONG_SURNAME =
     seqs [alts (map (lit \<circ> cyr) [''enk'', ''4uk'', ''5uk'', ''9k'', ''ywyn'', ''ovy4'', ''evy4'']), between (Is ([CRange 1072 1103] @
      ones (cyr ''i73g''))) 0 3, Eos]"

definition P_FULL :: "re list" where
  "P_FULL =
     [seqs [NB, CW, plus1 SPC, CW, plus1 SPC, PATR, NE], seqs [NB, CW, plus1 SPC, PATR, plus1 SPC, CW, NE], seqs [NB, CU, plus1 SPC, CU,
      plus1 SPC, PATR_U, NE], seqs [NB, CU, plus1 SPC, PATR_U, plus1 SPC, CU, NE], seqs [NB, CW, plus1 SPC, PATR, NE], seqs [NB, CU,
      plus1 SPC, PATR_U, NE]]"

definition P_INIT :: "re list" where
  "P_INIT =
     [seqs [NB, alts [CW, CU], plus1 SPC, INIT, Ahead False (Is (UP @ LO))], seqs [NB, INIT, opt SPC, alts [CW, CU], NE], seqs [NB,
      alts [LW, LU], opt (lit (str '','')), plus1 SPC, INIT_L, Ahead False (Is [CRange 65 90, CRange 97 122])], seqs [NB, INIT_L, opt SPC,
      LW, NE]]"

definition P_TWO :: "re list" where
  "P_TWO =
     [seqs [NB, Grp (str ''a'') CW, plus1 SPC, Grp (str ''b'') CW, NE], seqs [NB, Grp (str ''a'') CU, plus1 SPC, Grp (str ''b'') CU, NE],
      seqs [NB, Grp (str ''a'') LW, plus1 SPC, opt (seqs [Is [CRange 65 90], lit (str ''.''), opt SPC]), Grp (str ''b'') LW, NE], seqs [NB,
      Grp (str ''a'') LU, plus1 SPC, Grp (str ''b'') LU, NE], seqs [NB, Grp (str ''a'') LW, lit (str '',''), SPC, Grp (str ''b'') LW, NE]]"

definition PERSON_CUE :: re where
  "PERSON_CUE =
     seqs [NB, alts (map (lit_ci \<circ> cyr) [''FOP'', ''FLP''] @ [lit_ci (cyr ''FO'' @ str ''-'' @ cyr ''P'')] @ map (lit_ci \<circ> cyr)
      [''SPD'', ''SPDFO'', ''FO''] @ [lit_ci (cyr ''hr'' @ str ''.''), seqs [lit_ci (cyr ''hromadqn''), alts (map (lit_ci \<circ> cyr)
      [''yn'', ''yna'', ''ka'', ''ky'', ''ci''])], seqs [lit_ci (cyr ''hrajdan''), alts (map (lit_ci \<circ> cyr) [''yn'', ''yna'',
      ''ka''])], lit_ci (cyr ''PIB''), lit_ci (cyr ''P'' @ str ''.'' @ cyr ''I'' @ str ''.'' @ cyr ''B'' @ str ''.''), lit_ci (cyr ''FYO''),
      lit_ci (cyr ''F'' @ str ''.'' @ cyr ''Y'' @ str ''.'' @ cyr ''O'' @ str ''.''), seqs [lit_ci (cyr ''v''), plus1 SPC,
      lit_ci (cyr ''osobi'')], seqs [lit_ci (cyr ''v''), plus1 SPC, lit_ci (cyr ''lyce'')], lit_ci (cyr ''Pidpysant''),
      seqs [lit_ci (str ''Mr''), opt (lit_ci (str ''.''))], seqs [lit_ci (str ''Mrs''), opt (lit_ci (str ''.''))],
      seqs [lit_ci (str ''Ms''), opt (lit_ci (str ''.''))], seqs [lit_ci (str ''Dr''), opt (lit_ci (str ''.''))],
      seqs [lit_ci (str ''Account''), plus1 SPC, lit_ci (str ''holder'')], lit_ci (str ''Cardholder''), seqs [lit_ci (str ''Full''),
      plus1 SPC, lit_ci (str ''name'')], seqs [lit_ci (str ''Client''), plus1 SPC, lit_ci (str ''name'')], seqs [lit_ci (str ''Prepared''),
      plus1 SPC, lit_ci (str ''by'')], seqs [lit_ci (str ''Signed''), plus1 SPC, lit_ci (str ''by'')], seqs [lit_ci (str ''Attn''),
      opt (lit_ci (str ''.''))]] @ map (lit_ci \<circ> str) [''Attention'', ''Dear'', ''Contact'', ''Employee'', ''Customer'', ''Tenant'',
      ''Landlord'', ''Applicant'', ''Claimant'', ''Witness'', ''Beneficiary'', ''Payee'', ''Borrower'', ''Guarantor''] @
      map (lit_ci \<circ> cyr) [''Zaqvnyk'', ''Zaqvytel8'', ''Pozy4al8nyk'', ''Zaem5yk'', ''Poru4ytel8'', ''Orendar'', ''Arendator'',
      ''Svidok'', ''Svydetel8'', ''Pracivnyk'', ''Sotrudnyk''] @ [seqs [lit_ci (cyr ''Kontaktna''), plus1 SPC, lit_ci (cyr ''osoba'')],
      seqs [lit_ci (cyr ''Kontaktnoe''), plus1 SPC, lit_ci (cyr ''lyco'')]]), plus1 (Is ([CSpace] @ ones (str '':,'' @ [8212, 8211] @
      str ''-''))), opt (seqs [alts (map (lit \<circ> str) [''Mr'', ''Mrs'', ''Ms'', ''Miss'', ''Dr'', ''Prof''] @ map (lit \<circ> cyr)
      [''pan'', ''pani''] @ map lit [cyr ''h'' @ str ''-'' @ cyr ''n'', cyr ''h'' @ str ''-'' @ cyr ''ja'']), opt (lit (str ''.'')),
      plus1 SPC]), Grp (str ''v'') (between (seqs [alts [CW, CU, LW, LU, INIT, INIT_L], opt (lit (str '','')), opt SPC]) 1 3)]"

definition SOLE_TRADER :: re where
  "SOLE_TRADER =
     seqs [NB, alts (map (lit \<circ> cyr) [''FOP'', ''FLP''] @ [lit (cyr ''FO'' @ str ''-'' @ cyr ''P'')] @ map (lit \<circ> cyr) [''SPD'',
      ''YP'']), plus1 SPC, Grp (str ''v'') (seqs [alts [CW, CU], between (seqs [plus1 SPC, alts [CW, CU, INIT]]) 0 2])]"

definition LONE_FIRST :: re where
  "LONE_FIRST =
     seqs [NB, Is UP, plus1 (Is (LO @ AP)), NE]"

definition SINGLE_SURNAME :: re where
  "SINGLE_SURNAME =
     seqs [NB, Grp (str ''s'') (seqs [Is UP, plus1 (Is (LO @ AP)), alts [seqs [lit (cyr ''enk''), Is (ones (cyr ''oayui''))],
      lit (cyr ''enkom''), seqs [lit (cyr ''4uk''), between (Is [CWord]) 0 3], seqs [lit (cyr ''5uk''), between (Is [CWord]) 0 3],
      seqs [lit (cyr ''9k''), between (Is [CWord]) 0 3], seqs [lit (cyr ''ywyn''), between (Is [CWord]) 0 3]]]), NE]"

definition FORMS_SHORT :: re where
  "FORMS_SHORT =
     alts (map (lit \<circ> cyr) [''TOV'', ''TzOV'', ''TDV'', ''PP'', ''PrAT'', ''PAT'', ''AT'', ''DP'', ''KP'', ''FH'', ''SH'', ''KT'',
      ''PT'', ''OSBB'', ''HO'', ''BF'', ''MP'', ''VAT'', ''ZAT'', ''OOO'', ''OAO'', ''ZAO'', ''PAO'', ''AO'', ''NAO'', ''ODO'', ''^4P'',
      ''^4UP'', ''HP''] @ map (lit \<circ> str) [''LLC'', ''LTD'', ''Ltd'', ''Inc'', ''JSC'', ''PJSC'', ''PrJSC'', ''LLP''])"

definition FORMS_LONG :: re where
  "FORMS_LONG =
     alts [seqs [lit_ci (cyr ''Tovarystv''), plus1 (Is [CWord]), plus1 SPC, lit_ci (cyr ''z''), plus1 SPC, lit_ci (cyr ''obmejeno9''),
      plus1 SPC, lit_ci (cyr ''vidpovidal8nist9'')], seqs [lit_ci (cyr ''Tovarystv''), plus1 (Is [CWord]), plus1 SPC, lit_ci (cyr ''z''),
      plus1 SPC, lit_ci (cyr ''dodatkovo9''), plus1 SPC, lit_ci (cyr ''vidpovidal8nist9'')], seqs [lit_ci (cyr ''Pryvatn''),
      plus1 (Is [CWord]), plus1 SPC, lit_ci (cyr ''pidpry3mstv''), plus1 (Is [CWord])], seqs [lit_ci (cyr ''Pryvatn''), plus1 (Is [CWord]),
      plus1 SPC, lit_ci (cyr ''akcionern''), plus1 (Is [CWord]), plus1 SPC, lit_ci (cyr ''tovarystv''), plus1 (Is [CWord])],
      seqs [lit_ci (cyr ''Publi4n''), plus1 (Is [CWord]), plus1 SPC, lit_ci (cyr ''akcionern''), plus1 (Is [CWord]), plus1 SPC,
      lit_ci (cyr ''tovarystv''), plus1 (Is [CWord])], seqs [lit_ci (cyr ''Akcionern''), plus1 (Is [CWord]), plus1 SPC,
      lit_ci (cyr ''tovarystv''), plus1 (Is [CWord])], seqs [lit_ci (cyr ''Akcionern''), plus1 (Is [CWord]), plus1 SPC,
      lit_ci (cyr ''bank''), star (Is [CWord])], seqs [lit_ci (cyr ''Komerci1n''), plus1 (Is [CWord]), plus1 SPC, lit_ci (cyr ''bank''),
      star (Is [CWord])], seqs [lit_ci (cyr ''Derjavn''), plus1 (Is [CWord]), plus1 SPC, lit_ci (cyr ''pidpry3mstv''), plus1 (Is [CWord])],
      seqs [lit_ci (cyr ''Komunal8n''), plus1 (Is [CWord]), plus1 SPC, lit_ci (cyr ''pidpry3mstv''), plus1 (Is [CWord])],
      seqs [lit_ci (cyr ''Fermers8k''), plus1 (Is [CWord]), plus1 SPC, lit_ci (cyr ''hospodarstv''), plus1 (Is [CWord])],
      seqs [lit_ci (cyr ''Hromads8k''), plus1 (Is [CWord]), plus1 SPC, lit_ci (cyr ''orhanizaci''), plus1 (Is [CWord])],
      seqs [lit_ci (cyr ''Blahodi1n''), plus1 (Is [CWord]), plus1 SPC, lit_ci (cyr ''fond''), star (Is [CWord])],
      seqs [lit_ci (cyr ''Ob5estvo''), plus1 SPC, lit_ci (cyr ''s''), plus1 SPC, lit_ci (cyr ''ohrany4enno1''), plus1 SPC,
      lit_ci (cyr ''otvetstvennost89'')], seqs [lit_ci (cyr ''Ob5estva''), plus1 SPC, lit_ci (cyr ''s''), plus1 SPC,
      lit_ci (cyr ''ohrany4enno1''), plus1 SPC, lit_ci (cyr ''otvetstvennost89'')], seqs [lit_ci (cyr ''Akcyonern''), plus1 (Is [CWord]),
      plus1 SPC, lit_ci (cyr ''ob5estv''), plus1 (Is [CWord])], seqs [lit_ci (cyr ''^4astn''), plus1 (Is [CWord]), plus1 SPC,
      lit_ci (cyr ''predpryqty''), plus1 (Is [CWord])], seqs [lit_ci (cyr ''Publy4n''), plus1 (Is [CWord]), plus1 SPC,
      lit_ci (cyr ''akcyonern''), plus1 (Is [CWord]), plus1 SPC, lit_ci (cyr ''ob5estv''), plus1 (Is [CWord])]]"

definition QUOTED :: re where
  "QUOTED =
     seqs [Is (ones ([171, 34, 8220, 8222])), Grp (str ''name'') (Rep False (Non (ones ([187, 34, 8221, 8220, 10]))) 1 (Some 80)),
      Is (ones ([187, 34, 8221, 8220]))]"

definition C_QUOTED :: re where
  "C_QUOTED =
     seqs [alts [seqs [NB, FORMS_SHORT, opt (lit (str ''.''))], FORMS_LONG], opt (seqs [plus1 SPC, alts (map (lit \<circ> cyr) [''KB'',
      ''AKB''] @ map lit [[171] @ cyr ''KB'' @ [187], [34] @ cyr ''KB'' @ [34]])]), star SPC, QUOTED]"

definition C_BARE :: re where
  "C_BARE =
     seqs [NB, FORMS_SHORT, opt (seqs [plus1 SPC, alts (map (lit \<circ> cyr) [''KB'', ''AKB''])]), plus1 SPC,
      Ahead False (seqs [alts ([FORMS_SHORT] @ map (lit \<circ> cyr) [''KB'', ''AKB'']), NE]), Grp (str ''name'') (seqs [alts [CW, CU, LW,
      LU], between (seqs [Is (ones (str ''- '')), alts [CW, CU, LW, LU]]) 0 2]), NE]"

definition C_EN :: re where
  "C_EN =
     seqs [Behind False (Is ([CWord] @ ones (str ''&'' @ [39] @ str ''-''))), Grp (str ''name'') (seqs [between (seqs [Is [CRange 65 90],
      star (Is ([CWord] @ ones (str ''&'' @ [39, 8217] @ str ''.-''))), plus1 SPC]) 0 4, Is [CRange 65 90], Rep False (Is ([CWord] @
      ones (str ''&'' @ [39, 8217] @ str ''.-''))) 0 None]), opt (lit (str '','')), plus1 SPC, alts (map (lit \<circ> str) [''LLC'',
      ''L.L.C.'', ''LLP'', ''L.L.P.''] @ [seqs [lit (str ''Inc''), opt (lit (str ''.''))], lit (str ''Incorporated''),
      seqs [lit (str ''Corp''), opt (lit (str ''.''))], lit (str ''Corporation''), seqs [lit (str ''Ltd''), opt (lit (str ''.''))]] @
      map (lit \<circ> str) [''Limited'', ''GmbH'', ''AG'', ''S.A.'', ''S.r.l.'', ''B.V.'', ''N.V.'', ''PLC'', ''plc'', ''ULC'', ''LP'',
      ''L.P.'', ''Co.'', ''Group'', ''Holdings'']), Ahead False (Is [CWord])]"

definition C_BANK :: re where
  "C_BANK =
     seqs [NB, Grp (str ''name'') (alts [seqs [Is UP, star (Is ([CWord] @ AP @ [CRange 45 45])), Is (ones (cyr ''Bb'')), lit (cyr ''ank''),
      star (Is [CWord])], seqs [Is [CRange 65 90], star (Is ([CWord] @ ones (str ''&-''))), lit (str ''Bank'')],
      seqs [between (seqs [Is [CRange 65 90], plus1 (Is ([CWord] @ ones (str ''&.-''))), SPC]) 1 3, lit (str ''Bank'')],
      seqs [lit (str ''Bank''), plus1 SPC, lit (str ''of''), plus1 SPC, Is [CRange 65 90], plus1 (Is [CWord]), opt (seqs [SPC,
      Is [CRange 65 90], plus1 (Is [CWord])])], seqs [alts (map (lit \<circ> str) [''Royal'', ''National'', ''Scotia'']), opt SPC,
      Is (ones (str ''Bb'')), lit (str ''ank''), opt (seqs [plus1 SPC, lit (str ''of''), plus1 SPC, Is [CRange 65 90],
      plus1 (Is [CWord])])]]), Ahead False (Is [CWord])]"

definition C_CUE_QUOTED :: re where
  "C_CUE_QUOTED =
     seqs [alts ([seqs [lit_ci (cyr ''kompani''), star (Is [CWord])], seqs [lit_ci (cyr ''kompany''), star (Is [CWord])],
      seqs [lit_ci (cyr ''firm''), star (Is [CWord])], seqs [lit_ci (cyr ''fyrm''), star (Is [CWord])], seqs [lit_ci (cyr ''pidpry3mstv''),
      star (Is [CWord])], seqs [lit_ci (cyr ''predpryqty''), star (Is [CWord])], seqs [lit_ci (cyr ''kontrahent''), star (Is [CWord])],
      seqs [lit_ci (cyr ''otrymuva4''), star (Is [CWord])], seqs [lit_ci (cyr ''platnyk''), star (Is [CWord])],
      seqs [lit_ci (cyr ''polu4atel''), star (Is [CWord])], seqs [lit_ci (cyr ''platel85yk''), star (Is [CWord])],
      seqs [lit_ci (cyr ''posta4al8nyk''), star (Is [CWord])], seqs [lit_ci (cyr ''postav5yk''), star (Is [CWord])]] @
      map (lit_ci \<circ> cyr) [''pokupec8'', ''pokupatel8'']), star (Is [CSpace, CRange 58 58]), QUOTED]"

definition C_CUE_BARE :: re where
  "C_CUE_BARE =
     seqs [alts ([seqs [lit_ci (cyr ''kompani''), IsCi (ones (cyr ''q973i'')), star (Is [CWord])], seqs [lit_ci (cyr ''kompany''),
      IsCi (ones (cyr ''qy9e1'')), star (Is [CWord])], seqs [lit_ci (cyr ''firm''), IsCi (ones (cyr ''ayoui'')), star (Is [CWord])],
      seqs [lit_ci (cyr ''fyrm''), IsCi (ones (cyr ''a6oue'')), star (Is [CWord])]] @ map (lit_ci \<circ> str) [''company'', ''firm'',
      ''vendor'', ''supplier''] @ [seqs [lit_ci (cyr ''posta4al8nyk''), star (Is [CWord])], seqs [lit_ci (cyr ''postav5yk''),
      star (Is [CWord])]]), plus1 SPC, Grp (str ''name'') (seqs [alts [CW, CU, LW, LU], between (seqs [Is (ones (str ''- '')), alts [CW, CU,
      LW, LU]]) 0 2]), NE]"

definition EN_STOP_LEAD :: re where
  "EN_STOP_LEAD =
     seqs [Bos, alts (map (lit \<circ> str) [''The'', ''This'', ''That'', ''By'', ''And'', ''Of'', ''For'', ''To'', ''With'', ''From'',
      ''Between'', ''Dear''] @ [seqs [lit (str ''A''), opt (lit (str ''n''))]]), plus1 SPC]"

definition STREET_CUE :: re where
  "STREET_CUE =
     alts ([lit_ci (cyr ''vul'' @ str ''.'')] @ map (lit_ci \<circ> cyr) [''vulycq'', ''vulyci''] @ [lit_ci (cyr ''ul'' @ str ''.'')] @
      map (lit_ci \<circ> cyr) [''ulyca'', ''ulyce''] @ [lit_ci (cyr ''prosp'' @ str ''.''), lit_ci (cyr ''prospekt'')] @
      map lit_ci [cyr ''pr'' @ str ''-'' @ cyr ''t'', cyr ''pr'' @ str ''.'', cyr ''bul8v'' @ str ''.'', cyr ''bul'' @ str ''.''] @
      [lit_ci (cyr ''bul8var''), lit_ci (cyr ''prov'' @ str ''.'')] @ map (lit_ci \<circ> cyr) [''provulok'', ''pereulok''] @
      map lit_ci [cyr ''per'' @ str ''.'', cyr ''pl'' @ str ''.''] @ map (lit_ci \<circ> cyr) [''plo5a'', ''plo5ad8'', ''wose'', ''wosse'']
      @ [lit_ci (cyr ''nab'' @ str ''.'')] @ map (lit_ci \<circ> cyr) [''naberejna'', ''naberejnaq'', ''uzviz''] @ [lit_ci (cyr ''mkr'' @
      str ''.'')] @ map (lit_ci \<circ> cyr) [''mikrora1on'', ''mykrora1on'', ''ma1dan''])"

definition ADDR_ANCHORS :: "re list" where
  "ADDR_ANCHORS =
     [seqs [STREET_CUE, opt SPC, seqs [Is (UP @ [CRange 48 57]), star (Is ([CWord] @ AP @ ones (str ''.-'')))], star (seqs [SPC,
      alts [seqs [Is UP, star (Is ([CWord] @ AP @ ones (str ''.-'')))], seqs [plus1 (Is [CDigit]), opt (lit (str ''-'')),
      opt (Is [CRange 1072 1103, CRange 1110 1110])]]]), opt (seqs [opt (lit (str '','')), star SPC, opt (seqs [alts [lit_ci (cyr ''bud'' @
      str ''.''), lit_ci (cyr ''budynok''), lit_ci (cyr ''d'' @ str ''.''), lit_ci (cyr ''dom'')], opt SPC]), between (Is [CDigit]) 1 4,
      opt (seqs [opt (Is (ones (str ''-/''))), Is (UP @ LO @ [CRange 65 90, CRange 97 122, CRange 48 57])])])], seqs [WordB,
      between (Is [CDigit]) 1 6, opt (Is [CRange 65 90, CRange 97 122]), plus1 SPC, between (seqs [Is [CRange 65 90],
      plus1 (Is [CRange 97 122]), opt (lit (str ''.'')), SPC]) 1 3, alts ([lit (str ''Street''), seqs [lit (str ''St''),
      opt (lit (str ''.''))], lit (str ''Avenue''), seqs [lit (str ''Ave''), opt (lit (str ''.''))], lit (str ''Road''),
      seqs [lit (str ''Rd''), opt (lit (str ''.''))], lit (str ''Boulevard''), seqs [lit (str ''Blvd''), opt (lit (str ''.''))],
      lit (str ''Drive''), seqs [lit (str ''Dr''), opt (lit (str ''.''))], lit (str ''Lane''), seqs [lit (str ''Ln''),
      opt (lit (str ''.''))]] @ map (lit \<circ> str) [''Way'', ''Court''] @ [seqs [lit (str ''Ct''), opt (lit (str ''.''))],
      lit (str ''Crescent''), seqs [lit (str ''Cres''), opt (lit (str ''.''))], lit (str ''Place''), seqs [lit (str ''Pl''),
      opt (lit (str ''.''))], lit (str ''Parkway''), seqs [lit (str ''Pkwy''), opt (lit (str ''.''))]] @ map (lit \<circ> str) [''Terrace'',
      ''Circle'']), Ahead False (Is [CWord]), opt (seqs [plus1 SPC, alts (map (lit \<circ> str) [''N'', ''S'', ''E'', ''W'', ''NE'', ''NW'',
      ''SE'', ''SW'']), WordB])]]"

definition ADDR_PART :: re where
  "ADDR_PART =
     alts [seqs [between (Is [CDigit]) 5 5, Ahead False (Is [CDigit])], seqs [Is [CRange 65 90], Is [CDigit], Is [CRange 65 90], opt SPC,
      Is [CDigit], Is [CRange 65 90], Is [CDigit]], alts (map (lit \<circ> cyr) [''Ukra7na'', ''Ukrayna''] @ map (lit \<circ> str)
      [''Ukraine'', ''Canada''] @ [lit (cyr ''Kanada''), lit (str ''USA''), lit (cyr ''SWA'')]), seqs [Is UP, plus1 (Is ([CWord] @ AP @
      [CRange 45 45])), SPC, alts ([lit (cyr ''obl'' @ str ''.'')] @ map (lit \<circ> cyr) [''oblast8'', ''oblasti''] @ [lit (cyr ''r'' @
      str ''-'' @ cyr ''n'')] @ map (lit \<circ> cyr) [''ra1on'', ''ra1onu''])], seqs [alts ([lit (cyr ''m'' @ str ''.''),
      lit (cyr ''misto''), lit (cyr ''h'' @ str ''.''), lit (cyr ''horod''), lit (cyr ''s'' @ str ''.'')] @ map (lit \<circ> cyr) [''selo'',
      ''smt''] @ [lit (cyr ''sel'' @ str ''.''), lit (cyr ''pht'')]), opt SPC, Is UP, plus1 (Is ([CWord] @ AP @ [CRange 45 45])),
      opt (seqs [Is (ones (str '' -'')), Is UP, plus1 (Is ([CWord] @ AP @ [CRange 45 45]))])], seqs [alts ([lit_ci (cyr ''bud'' @
      str ''.''), lit_ci (cyr ''budynok''), lit_ci (cyr ''d'' @ str ''.''), lit_ci (cyr ''dom''), lit_ci (cyr ''korp'' @ str ''.'')] @
      map (lit_ci \<circ> cyr) [''korpus'', ''sekciq''] @ map lit_ci [cyr ''pod'' @ str ''.'', cyr ''pid'' @ str ''.'']), opt SPC,
      plus1 (Is [CDigit]), star (Is ([CWord] @ ones (str ''/-'')))], seqs [alts ([lit_ci (cyr ''kv'' @ str ''.''),
      lit_ci (cyr ''kvartyra''), lit_ci (cyr ''of'' @ str ''.'')] @ map (lit_ci \<circ> cyr) [''ofis'', ''ofys''] @ [lit_ci (cyr ''prym'' @
      str ''.'')] @ map (lit_ci \<circ> cyr) [''prymi5ennq'', ''pome5enye''] @ [lit_ci (str ''suite''), seqs [lit_ci (str ''apt''),
      opt (lit_ci (str ''.''))], lit_ci (str ''unit'')]), opt SPC, opt (lit [8470]), opt SPC, plus1 (Is [CDigit]), star (Is ([CWord] @
      ones (str ''/-'')))], seqs [lit (str ''#''), opt SPC, plus1 (Is [CDigit])], seqs [between (Is [CDigit]) 1 4,
      opt (seqs [opt (Is (ones (str ''-/''))), Is [CRange 1040 1071, CRange 1072 1103, CRange 65 90, CRange 97 122]]),
      opt (seqs [lit (str ''/''), plus1 (Is [CDigit])]), Ahead False (Is ([CDigit] @ ones (str ''.,'')))], seqs [alts (map (lit \<circ> str)
      [''ON'', ''QC'', ''BC'', ''AB'', ''MB'', ''SK'', ''NS'', ''NB'', ''NL'', ''PE'', ''YT'', ''NT'', ''NU'', ''Ontario'', ''Quebec''] @
      [lit (str ''Qu'' @ [233] @ str ''bec'')] @ map (lit \<circ> str) [''NY'', ''CA'', ''TX'', ''FL'', ''WA'', ''IL'', ''MA'', ''NJ'']),
      opt (alts [seqs [SPC, Is [CRange 65 90], Is [CDigit], Is [CRange 65 90], opt SPC, Is [CDigit], Is [CRange 65 90], Is [CDigit]],
      seqs [SPC, between (Is [CDigit]) 5 5]])], alts (map (lit \<circ> str) [''Toronto'', ''Ottawa'', ''Montreal''] @ [lit (str ''Montr'' @
      [233] @ str ''al'')] @ map (lit \<circ> str) [''Vancouver'', ''Calgary'', ''Edmonton'', ''Winnipeg'', ''Mississauga'', ''Hamilton'',
      ''Kingston'', ''Kanata'', ''Nepean'', ''Gatineau'', ''New York'', ''Chicago'', ''Boston''])]"

definition SEP :: re where
  "SEP =
     alts [seqs [star SPC, lit (str '',''), star SPC], plus1 SPC]"

definition BARE_NUM :: re where
  "BARE_NUM =
     seqs [alts [seqs [between (Is [CDigit]) 1 4, opt (seqs [opt (Is (ones (str ''-/''))), Is [CRange 1040 1071, CRange 1072 1103,
      CRange 65 90, CRange 97 122]]), opt (seqs [lit (str ''/''), plus1 (Is [CDigit])])], seqs [lit (str ''#''), opt SPC,
      plus1 (Is [CDigit])]], Eos]"

definition ACCOUNT_CUE :: re where
  "ACCOUNT_CUE =
     seqs [alts (map lit_ci [cyr ''r'' @ str ''/'' @ cyr ''r'', cyr ''p'' @ str ''/'' @ cyr ''r'', cyr ''r'' @ str ''/'' @ cyr ''s''] @
      [lit_ci (str ''IBAN''), seqs [lit_ci (cyr ''raxun''), alts (map (lit_ci \<circ> cyr) [''ok'', ''ku'', ''ka''])],
      seqs [lit_ci (cyr ''ras4''), IsCi (ones (cyr ''e0'')), lit_ci (cyr ''tn61''), plus1 SPC, lit_ci (cyr ''s4''),
      IsCi (ones (cyr ''e0'')), lit_ci (cyr ''t'')], seqs [lit_ci (cyr ''s4''), IsCi (ones (cyr ''e0'')), lit_ci (cyr ''t''),
      star (IsCi [CRange 1072 1103])], seqs [lit_ci (str ''account''), opt (alts [seqs [plus1 SPC, lit_ci (str ''number'')],
      seqs [plus1 SPC, lit_ci (str ''no''), opt (lit_ci (str ''.''))], seqs [plus1 SPC, lit_ci (str ''#'')]])], seqs [lit_ci (str ''acct''),
      opt (lit_ci (str ''.'')), opt (seqs [plus1 SPC, lit_ci (str ''no''), opt (lit_ci (str ''.''))])], lit_ci (str ''transit'')]),
      star SPC, opt (Is (ones (str '':'' @ [8470] @ str ''#''))), star SPC, opt (seqs [lit [8470], star SPC]), Grp (str ''value'')
      (alts [seqs [between (Is [CRange 65 90]) 2 2, between (Is [CDigit]) 2 2, between (seqs [opt SPC, Is [CRange 65 90, CRange 48 57]])
      10 30], seqs [Is [CDigit], between (Is ([CDigit] @ ones (str '' -''))) 4 30, Is [CDigit]]]), Ahead False (Is [CWord])]"

definition PHONE :: "re list" where
  "PHONE =
     [seqs [Behind False (Is [CWord, CRange 43 43]), opt (seqs [opt (lit (str ''+'')), lit (str ''38''), opt SPC]), opt (lit (str ''('')),
      lit (str ''0''), between (Is [CDigit]) 2 2, opt (lit (str '')'')), opt (Is [CSpace, CRange 45 45]), between (Is [CDigit]) 3 3,
      opt (Is [CSpace, CRange 45 45]), between (Is [CDigit]) 2 2, opt (Is [CSpace, CRange 45 45]), between (Is [CDigit]) 2 2,
      Ahead False (Is [CDigit])], seqs [Behind False (Is [CWord, CRange 43 43]), lit (str ''+''), between (Is [CDigit]) 1 3,
      between (seqs [opt (Is [CSpace, CRange 45 45]), opt (lit (str ''('')), between (Is [CDigit]) 1 4, opt (lit (str '')''))]) 2 5,
      Ahead False (Is [CDigit])]]"

definition MASKED_CARD :: re where
  "MASKED_CARD =
     alts [seqs [Behind False (Is [CDigit]), between (Is [CDigit]) 4 4, opt (Is (ones (str '' -''))), alts [between (lit (str ''*'')) 2 4,
      between (lit (str ''X'')) 2 4, between (lit (str ''x'')) 2 4], opt (seqs [opt (Is (ones (str '' -''))),
      alts [between (lit (str ''*'')) 2 4, between (lit (str ''X'')) 2 4, between (lit (str ''x'')) 2 4]]), opt (Is (ones (str '' -''))),
      between (Is [CDigit]) 4 4, Ahead False (Is [CDigit])], seqs [Behind False (Is [CDigit]), between (Is [CDigit]) 6 6,
      between (lit (str ''*'')) 6 6, between (Is [CDigit]) 4 4, Ahead False (Is [CDigit])]]"

definition CARD_CUE :: re where
  "CARD_CUE =
     seqs [alts [seqs [lit_ci (cyr ''kartk''), star (Is [CWord])], seqs [lit_ci (cyr ''kart''), IsCi (ones (cyr ''ayui6'')),
      star (Is [CWord])], seqs [lit_ci (str ''card''), opt (alts [seqs [plus1 SPC, lit_ci (str ''number'')], seqs [plus1 SPC,
      lit_ci (str ''no''), opt (lit_ci (str ''.''))]])]], star SPC, opt (Is (ones (str '':'' @ [8470] @ str ''#''))), star SPC,
      Grp (str ''value'') (seqs [between (Is [CDigit]) 4 4, opt (Is (ones (str '' -''))), between (Is [CDigit]) 4 4,
      opt (Is (ones (str '' -''))), between (Is [CDigit]) 4 4, opt (Is (ones (str '' -''))), between (Is [CDigit]) 4 4,
      opt (between (Is [CDigit]) 1 3)]), Ahead False (Is [CDigit])]"

definition PASSPORT :: "re list" where
  "PASSPORT =
     [seqs [alts [seqs [lit_ci (cyr ''pasport''), star (Is [CWord])], lit_ci (str ''passport'')], Rep False (Non [CRange 10 10, CDigit])
      0 (Some 30), Grp (str ''value'') (seqs [between (Is ([CRange 1040 1071] @ ones (cyr ''I^7^3'') @ [CRange 65 90])) 2 2, opt SPC,
      opt (lit [8470]), opt SPC, between (Is [CDigit]) 6 6, Ahead False (Is [CDigit])])], seqs [alts [seqs [lit_ci (str ''ID''),
      opt (lit_ci (str ''-'')), lit_ci (cyr ''kartk''), star (Is [CWord])], seqs [lit_ci (str ''ID''), opt (lit_ci (str ''-'')),
      lit_ci (cyr ''kart''), star (Is [CWord])], seqs [lit_ci (str ''ID''), plus1 SPC, lit_ci (str ''card'')],
      seqs [lit_ci (cyr ''pasport''), star (Is [CWord]), plus1 SPC, lit_ci (cyr ''hromadqnyna''), plus1 SPC, lit_ci (cyr ''Ukra7ny''),
      plus1 SPC, lit_ci (cyr ''u''), plus1 SPC, lit_ci (cyr ''formi''), plus1 SPC, lit_ci (cyr ''kartky'')]], Rep False (Non [CRange 10 10,
      CDigit]) 0 (Some 30), Grp (str ''value'') (between (Is [CDigit]) 9 9), Ahead False (Is [CDigit])], seqs [lit_ci (str ''passport''),
      star SPC, opt (alts ([seqs [lit (str ''no''), opt (lit (str ''.''))]] @ map (lit \<circ> str) [''number'', ''#''])), star SPC,
      opt (Is (ones (str '':#''))), star SPC, Grp (str ''value'') (seqs [between (Is [CRange 65 90]) 1 2, between (Is [CDigit]) 6 7]),
      Ahead False (Is [CDigit])]]"

definition CUR :: re where
  "CUR =
     alts ([seqs [lit (cyr ''hrn''), opt (lit (str ''.''))]] @ map (lit \<circ> cyr) [''hryven8'', ''hryvni'', ''hryvnq''] @
      map (lit \<circ> str) [''UAH'', ''USD'', ''EUR'', ''CAD'', ''GBP''] @ [seqs [lit (cyr ''dol''), opt (lit (str ''.''))]] @
      map (lit \<circ> cyr) [''dolariv'', ''dollarov'', ''3vro'', ''evro''] @ [seqs [lit (cyr ''rub''), opt (lit (str ''.''))],
      lit (cyr ''ruble1''), lit [8372], lit (str ''$'')] @ map lit [[8364], [163]])"

definition NUM :: re where
  "NUM =
     alts [seqs [between (Is [CDigit]) 1 3, star (seqs [Is (ones (str '' '' @ [160, 8239] @ str ''.,'' @ [39])), between (Is [CDigit])
      3 3]), opt (seqs [Is (ones (str ''.,'')), between (Is [CDigit]) 1 2])], seqs [plus1 (Is [CDigit]), opt (seqs [Is (ones (str ''.,'')),
      between (Is [CDigit]) 1 2])]]"

definition AMOUNT :: "re list" where
  "AMOUNT =
     [seqs [Behind False (Is ([CWord] @ ones (str ''.,''))), NUM, opt SPC, CUR, Ahead False (Is [CWord])], seqs [Behind False (Is [CWord]),
      alts ([Is (ones (str ''$'' @ [8364, 163, 8372])), seqs [lit (str ''CAD''), opt (lit (str ''$''))]] @ map (lit \<circ> str) [''US$'',
      ''C$'']), opt SPC, NUM, Ahead False (Is [CDigit])]]"

definition HEADER_RULES :: "(re \<times> pystr) list" where
  "HEADER_RULES =
     [(alts (map (lit_ci \<circ> cyr) [''^3DRPOU'', ''EDRPOU'', ''EHRPOU''] @ [lit_ci (str ''EDRPOU'')] @ map (lit_ci \<circ> cyr) [''IPN'',
      ''YNN'', ''RNOKPP''] @ [seqs [lit_ci (str ''tax''), star SPC, lit_ci (str ''id'')], seqs [lit_ci (cyr ''kod''), plus1 SPC,
      alts (map (lit_ci \<circ> cyr) [''kontrahenta'', ''otrymuva4a'', ''platnyka''])]]), str ''TAXCODE''), (alts [lit_ci (str ''IBAN''),
      lit_ci (cyr ''raxun''), seqs [lit_ci (cyr ''s4''), IsCi (ones (cyr ''e0'')), lit_ci (cyr ''t'')], lit_ci (str ''account''),
      lit_ci (cyr ''r'' @ str ''/'' @ cyr ''r''), lit_ci (str ''acct'')], str ''ACCOUNT''), (alts [lit_ci (cyr ''adres''),
      lit_ci (str ''address'')], str ''ADDRESS''), (alts [lit_ci (cyr ''telefon''), lit_ci (str ''phone''), seqs [lit_ci (cyr ''tel''),
      opt (lit_ci (str ''.'')), Eos], lit_ci (str ''mobile'')], str ''PHONE''), (alts ([seqs [lit_ci (str ''e''), opt (lit_ci (str ''-'')),
      lit_ci (str ''mail'')]] @ map (lit_ci \<circ> cyr) [''powt'', ''po4t'']), str ''EMAIL''), (alts [seqs [lit_ci (cyr ''data''),
      plus1 SPC, lit_ci (cyr ''narodj'')], seqs [lit_ci (cyr ''data''), plus1 SPC, lit_ci (cyr ''rojd'')], seqs [lit_ci (str ''date''),
      plus1 SPC, lit_ci (str ''of''), plus1 SPC, lit_ci (str ''birth'')], seqs [WordB, lit_ci (str ''dob''), WordB],
      lit_ci (str ''birth'')], str ''DOB''), (alts [lit_ci (cyr ''pasport''), lit_ci (str ''passport'')], str ''PASSPORT''), (seqs [Bos,
      star SPC, alts (map (lit_ci \<circ> str) [''SIN'', ''NAS'']), WordB], str ''SIN''), (seqs [Bos, star SPC, lit_ci (str ''SSN''),
      WordB], str ''SSN''), (alts ([lit_ci (cyr ''PIB''), lit_ci (cyr ''P'' @ str ''.'' @ cyr ''I'' @ str ''.'' @ cyr ''B''),
      lit_ci (cyr ''FYO''), lit_ci (cyr ''F'' @ str ''.'' @ cyr ''Y'' @ str ''.'' @ cyr ''O'')] @ map (lit_ci \<circ> cyr) [''prizvy5e'',
      ''famylyq''] @ map lit_ci [cyr ''im'' @ [39] @ cyr ''q'', cyr ''im'' @ [8217] @ cyr ''q''] @ [lit_ci (cyr ''ymq''),
      seqs [lit_ci (str ''full''), star SPC, lit_ci (str ''name'')], seqs [Bos, lit_ci (str ''name''), Eos], lit_ci (str ''employee'')] @
      map (lit_ci \<circ> cyr) [''pracivnyk'', ''sotrudnyk'', ''kli3nt'', ''klyent''] @ [lit_ci (str ''client'')]), str ''PERSON''),
      (alts ([lit_ci (cyr ''kontrahent'')] @ map (lit_ci \<circ> str) [''counterpart'', ''payee'', ''payer'', ''beneficiar''] @
      map (lit_ci \<circ> cyr) [''otrymuva4'', ''oderjuva4'', ''platnyk'', ''polu4atel'', ''platel85yk'', ''posta4al8nyk'', ''postav5yk''] @
      map (lit_ci \<circ> str) [''vendor'', ''supplier'', ''customer''] @ map (lit_ci \<circ> cyr) [''pokupec8'', ''pokupatel8'',
      ''kompaniq'', ''kompanyq''] @ [lit_ci (str ''company'')] @ map (lit_ci \<circ> cyr) [''orhanizac'', ''orhanyzac'']), str ''PARTY''),
      (alts (map (lit_ci \<circ> cyr) [''suma'', ''summa''] @ [lit_ci (str ''amount'')] @ map (lit_ci \<circ> cyr) [''debet'', ''kredyt''] @
      map (lit_ci \<circ> str) [''debit'', ''credit''] @ map (lit_ci \<circ> cyr) [''zalywok'', ''ostatok''] @ [lit_ci (str ''balance''),
      lit_ci (cyr ''oborot'')]), str ''AMOUNT'')]"

end
