(* ===== verification/Py_Text.thy ===== *)
theory Py_Text
  imports Unicode_Data
begin

text \<open>String methods the desktop code uses beside those of \<open>Unicode_Data\<close>.\<close>

text \<open>\<open>str.split()\<close>: the non-empty pieces between characters that are white space.\<close>

fun pieces :: "(nat \<Rightarrow> bool) \<Rightarrow> pystr \<Rightarrow> pystr list" where
  "pieces P [] = [[]]"
| "pieces P (c # s) =
     (if P c then [] # pieces P s else (case pieces P s of [] \<Rightarrow> [[c]] | w # ws \<Rightarrow> (c # w) # ws))"

definition py_split :: "ucd \<Rightarrow> pystr \<Rightarrow> pystr list" where
  "py_split u s = filter (\<lambda>w. w \<noteq> []) (pieces (u_space u) s)"

definition endswith :: "pystr \<Rightarrow> pystr \<Rightarrow> bool" where
  "endswith s e \<longleftrightarrow> length e \<le> length s \<and> drop (length s - length e) s = e"

definition rstrip_of :: "pystr \<Rightarrow> pystr \<Rightarrow> pystr" where
  "rstrip_of cs s = rev (dropWhile (\<lambda>c. c \<in> set cs) (rev s))"

definition replace_char :: "nat \<Rightarrow> nat \<Rightarrow> pystr \<Rightarrow> pystr" where
  "replace_char a b s = map (\<lambda>c. if c = a then b else c) s"

definition translate :: "(nat \<times> pystr) list \<Rightarrow> pystr \<Rightarrow> pystr" where
  "translate tbl s = concat (map (\<lambda>c. case map_of tbl c of Some t \<Rightarrow> t | None \<Rightarrow> [c]) s)"

definition count_digits :: "ucd \<Rightarrow> pystr \<Rightarrow> nat" where
  "count_digits u s = length (filter (u_digit u) s)"

lemma pieces_not_Nil [simp]: "pieces P s \<noteq> []"
  by (induction s) (auto split: list.splits)

lemma pieces_clean: "w \<in> set (pieces P s) \<Longrightarrow> c \<in> set w \<Longrightarrow> \<not> P c \<and> c \<in> set s"
proof (induction s arbitrary: w)
  case (Cons d s)
  show ?case
  proof (cases "P d")
    case True
    then show ?thesis using Cons by auto
  next
    case False
    obtain v vs where v: "pieces P s = v # vs" by (cases "pieces P s") simp_all
    with False Cons.prems(1) have "w = d # v \<or> w \<in> set vs" by simp
    then show ?thesis
    proof
      assume "w = d # v"
      then show ?thesis using False Cons.prems(2) Cons.IH [of v] v by auto
    next
      assume "w \<in> set vs"
      then show ?thesis using Cons.prems(2) Cons.IH [of w] v by auto
    qed
  qed
qed simp

lemma py_split_clean: "w \<in> set (py_split u s) \<Longrightarrow> w \<noteq> [] \<and> (\<forall>c\<in>set w. \<not> u_space u c \<and> c \<in> set s)"
  using pieces_clean [of w "u_space u" s] by (auto simp: py_split_def)

text \<open>Trimming takes a prefix.\<close>

lemma dropWhile_rev_prefix: "\<exists>n \<le> length s. rev (dropWhile P (rev s)) = take n s"
proof -
  have "s = rev (dropWhile P (rev s)) @ rev (takeWhile P (rev s))"
    using takeWhile_dropWhile_id [of P "rev s"] by (metis rev_append rev_rev_ident)
  then have "rev (dropWhile P (rev s)) = take (length (rev (dropWhile P (rev s)))) s" by (metis append_eq_conv_conj)
  moreover have "length (rev (dropWhile P (rev s))) \<le> length s" using length_dropWhile_le [of P "rev s"] by simp
  ultimately show ?thesis by blast
qed

lemma py_rstrip_take: "py_rstrip u s = take (length (py_rstrip u s)) s"
proof -
  obtain n where n: "n \<le> length s" "py_rstrip u s = take n s" using dropWhile_rev_prefix [of s "u_space u"] by (auto simp: py_rstrip_def)
  then show ?thesis by simp
qed

lemma rstrip_of_take: "rstrip_of cs s = take (length (rstrip_of cs s)) s"
proof -
  obtain n where n: "n \<le> length s" "rstrip_of cs s = take n s" using dropWhile_rev_prefix [of s "\<lambda>c. c \<in> set cs"] by (auto simp: rstrip_of_def)
  then show ?thesis by simp
qed

lemma length_rstrip_of: "length (rstrip_of cs s) \<le> length s"
  using rstrip_of_take [of cs s] by (metis length_take min.cobounded1)

lemma length_py_rstrip: "length (py_rstrip u s) \<le> length s"
  using py_rstrip_take [of u s] by (metis length_take min.cobounded1)

lemma py_lstrip_drop: "py_lstrip u s = drop (length s - length (py_lstrip u s)) s"
proof -
  have "length (takeWhile (u_space u) s) \<le> length s" by (rule length_takeWhile_le)
  then show ?thesis by (simp add: py_lstrip_def dropWhile_eq_drop)
qed

end
