(* ===== verification/Gazetteer.thy ===== *)
theory Gazetteer
  imports Cyrillic Py_Text
begin

text \<open>
  \<open>app/desktop/gazetteer.py\<close>: the first-name lists, the token normalization and the stemmer that
  make declined forms of a name meet, transliteration, and the words that are never part of a name.
  The name sets are built from the lists by the code's own functions, so they depend, as in the
  code, on the case folding of the interpreter.
\<close>

section \<open>Lists\<close>

definition UK_MALE :: "pystr list" where
  "UK_MALE =
     map cyr [''Andri1'', ''Anton'', ''Anatoli1'', ''Arsen'', ''Artem'', ''Artur'', ''Bohdan'', ''Borys'', ''Vadym'', ''Valentyn'',
      ''Valeri1'', ''Vasyl8'', ''Viktor'', ''Vitali1'', ''Volodymyr''] @ [cyr ''V'' @ [700] @ cyr ''q4eslav''] @ map cyr [''Vq4eslav'',
      ''Hennadi1'', ''Heorhi1'', ''Hryhori1'', ''Davyd'', ''Danylo'', ''Denys'', ''Dmytro'', ''^3vhen'', ''Eduard'', ''Zaxar'', ''Ivan'',
      ''Ihor'', ''Illq'', ''^1osyp'', ''Kyrylo'', ''Kostqntyn'', ''Leonid'', ''Lev'', ''Maksym'', ''Marko'', ''Matvi1'', ''Mykyta'',
      ''Mykola'', ''Myxa1lo'', ''Nazar'', ''Oleh'', ''Oleksandr'', ''Oleksi1'', ''Ostap'', ''Pavlo'', ''Petro'', ''Roman'', ''Rostyslav'',
      ''Ruslan'', ''Serhi1'', ''Svqtoslav'', ''Semen'', ''Stanislav'', ''Stepan'', ''Taras'', ''Tymofi1'', ''Tymur'', ''Fedir'', ''^9ri1'',
      ''Qroslav'', ''Qkiv'', ''Zynovi1'', ''Myroslav'', ''Orest'', ''L9bomyr'', ''Vsevolod'', ''Hlib'', ''Ustym'', ''Nestor'', ''Omelqn'',
      ''Xaryton'', ''Filip'', ''Pylyp'']"

definition UK_FEMALE :: "pystr list" where
  "UK_FEMALE =
     map cyr [''Alina'', ''Alla'', ''Anastasiq'', ''Anna'', ''Hanna'', ''Antonina'', ''Valentyna'', ''Valeriq'', ''Viktoriq'', ''Vira'',
      ''Halyna'', ''Daryna'', ''Diana'', ''^3vheniq'', ''^3lyzaveta'', ''Janna'', ''Zoq'', ''Zorqna'', ''Iryna'', ''Inna'', ''Kateryna'',
      ''Kira'', ''Larysa'', ''Lesq'', ''Lidiq'', ''Liliq'', ''L9dmyla'', ''L9bov'', ''Maryna'', ''Mariq'', ''Marharyta'', ''Myroslava'',
      ''Nadiq'', ''Nataliq'', ''Natalq'', ''Nina'', ''Oksana'', ''Olena'', ''Ol8ha'', ''Oleksandra'', ''Polina'', ''Ra7sa'', ''Rymma'',
      ''Svitlana'', ''Sofiq'', ''Solomiq'', ''Tamara'', ''Tetqna'', ''Ulqna'', ''Xrystyna'', ''^9liq'', ''Qna'', ''Qroslava'', ''Bohdana'',
      ''Vasylyna'', ''Vitalina'', ''Zlata'', ''Milana''] @ [cyr ''Mar'' @ [39] @ cyr ''qna''] @ map cyr [''Marqna'', ''Roksolana'',
      ''Emiliq'']"

definition RU :: "pystr list" where
  "RU =
     map cyr [''Aleksandr'', ''Alekse1'', ''Anatoly1'', ''Andre1'', ''Anton'', ''Arkady1'', ''Art0m'', ''Artem'', ''Borys'', ''Vadym'',
      ''Valentyn'', ''Valery1'', ''Vasyly1'', ''Vyktor'', ''Vytaly1'', ''Vladymyr'', ''Vladyslav'', ''Vq4eslav'', ''Hennady1'', ''Heorhy1'',
      ''Hryhory1'', ''Danyyl'', ''Denys'', ''Dmytry1'', ''Evheny1'', ''Ehor'', ''Yvan'', ''Yhor8'', ''Yl8q'', ''Kyryll'', ''Konstantyn'',
      ''Leonyd'', ''Maksym'', ''Myxayl'', ''Nykyta'', ''Nykola1'', ''Oleh'', ''Pavel'', ''P0tr'', ''Petr'', ''Roman'', ''Ruslan'',
      ''Sem0n'', ''Semen'', ''Serhe1'', ''Stanyslav'', ''Stepan'', ''Tymur'', ''F0dor'', ''Fedor'', ''^9ry1'', ''Qroslav'', ''Qkov'',
      ''Anastasyq'', ''Anna'', ''Valentyna'', ''Valeryq'', ''Vera'', ''Vyktoryq'', ''Halyna'', ''Dar8q'', ''Evhenyq'', ''Ekateryna'',
      ''Elena'', ''Elyzaveta'', ''Yryna'', ''Ynna'', ''Karyna'', ''Krystyna'', ''Ksenyq'', ''Larysa'', ''Lydyq'', ''L9bov8'', ''L9dmyla'',
      ''Maryna'', ''Maryq'', ''Nadejda'', ''Natal8q'', ''Nyna'', ''Oksana'', ''Ol8ha'', ''Polyna'', ''Svetlana'', ''Sofyq'', ''Sof8q'',
      ''Tamara'', ''Tat8qna'', ''Ul8qna'', ''^9lyq'', ''Qna'', ''Al0na'', ''Alena'', ''Vasylysa'', ''Zynayda'', ''Marharyta'', ''Olesq'',
      ''Taysyq'', ''^2l8vyra'', ''^2duard'']"

definition EN :: "pystr list" where
  "EN =
     map str [''James'', ''John'', ''Robert'', ''Michael'', ''William'', ''David'', ''Richard'', ''Joseph'', ''Thomas'', ''Charles'',
      ''Christopher'', ''Daniel'', ''Matthew'', ''Anthony'', ''Mark'', ''Donald'', ''Steven'', ''Paul'', ''Andrew'', ''Joshua'',
      ''Kenneth'', ''Kevin'', ''Brian'', ''George'', ''Timothy'', ''Ronald'', ''Edward'', ''Jason'', ''Jeffrey'', ''Ryan'', ''Jacob'',
      ''Gary'', ''Nicholas'', ''Eric'', ''Jonathan'', ''Stephen'', ''Larry'', ''Justin'', ''Scott'', ''Brandon'', ''Benjamin'', ''Samuel'',
      ''Gregory'', ''Alexander'', ''Frank'', ''Patrick'', ''Raymond'', ''Jack'', ''Dennis'', ''Jerry'', ''Tyler'', ''Aaron'', ''Jose'',
      ''Adam'', ''Nathan'', ''Henry'', ''Douglas'', ''Zachary'', ''Peter'', ''Kyle'', ''Noah'', ''Ethan'', ''Jeremy'', ''Walter'',
      ''Christian'', ''Keith'', ''Roger'', ''Terry'', ''Austin'', ''Sean'', ''Gerald'', ''Carl'', ''Harold'', ''Dylan'', ''Arthur'',
      ''Lawrence'', ''Jordan'', ''Jesse'', ''Bryan'', ''Billy'', ''Bruce'', ''Gabriel'', ''Joe'', ''Logan'', ''Alan'', ''Juan'', ''Albert'',
      ''Willie'', ''Elijah'', ''Wayne'', ''Randy'', ''Vincent'', ''Liam'', ''Lucas'', ''Oliver'', ''Owen'', ''Luke'', ''Isaac'', ''Ian'',
      ''Graham'', ''Colin'', ''Neil'', ''Simon'', ''Martin'', ''Philip'', ''Maxim'', ''Maksym'', ''Mary'', ''Patricia'', ''Jennifer'',
      ''Linda'', ''Elizabeth'', ''Barbara'', ''Susan'', ''Jessica'', ''Sarah'', ''Karen'', ''Lisa'', ''Nancy'', ''Betty'', ''Sandra'',
      ''Margaret'', ''Ashley'', ''Kimberly'', ''Emily'', ''Donna'', ''Michelle'', ''Carol'', ''Amanda'', ''Melissa'', ''Deborah'',
      ''Stephanie'', ''Dorothy'', ''Rebecca'', ''Sharon'', ''Laura'', ''Cynthia'', ''Amy'', ''Kathleen'', ''Angela'', ''Shirley'',
      ''Brenda'', ''Emma'', ''Anna'', ''Pamela'', ''Nicole'', ''Samantha'', ''Katherine'', ''Christine'', ''Helen'', ''Debra'', ''Rachel'',
      ''Carolyn'', ''Janet'', ''Maria'', ''Catherine'', ''Heather'', ''Diane'', ''Olivia'', ''Julie'', ''Joyce'', ''Victoria'', ''Ruth'',
      ''Virginia'', ''Lauren'', ''Kelly'', ''Christina'', ''Joan'', ''Evelyn'', ''Judith'', ''Andrea'', ''Hannah'', ''Megan'', ''Cheryl'',
      ''Jacqueline'', ''Martha'', ''Madison'', ''Teresa'', ''Gloria'', ''Sara'', ''Janice'', ''Ann'', ''Kathryn'', ''Abigail'', ''Sophia'',
      ''Frances'', ''Jean'', ''Alice'', ''Judy'', ''Isabella'', ''Julia'', ''Grace'', ''Amber'', ''Denise'', ''Danielle'', ''Marilyn'',
      ''Beverly'', ''Charlotte'', ''Natalie'', ''Theresa'', ''Diana'', ''Brittany'', ''Doris'', ''Kayla'', ''Alexis'', ''Lori'', ''Marie'',
      ''Chloe'', ''Claire'', ''Sophie'', ''Ava'', ''Mia'', ''Zoe'', ''Lily'', ''Ella'', ''Avery'', ''Harper'', ''Aria'', ''Nora'',
      ''Riley'', ''Leah'', ''Hazel'', ''Violet'', ''Aurora'']"

definition TRANSLIT :: "(nat \<times> pystr) list" where
  "TRANSLIT =
     [(1072, str ''a''), (1073, str ''b''), (1074, str ''v''), (1075, str ''h''), (1169, str ''g''), (1076, str ''d''), (1077, str ''e''),
      (1108, str ''ie''), (1078, str ''zh''), (1079, str ''z''), (1080, str ''y''), (1110, str ''i''), (1111, str ''i''), (1081, str ''i''),
      (1082, str ''k''), (1083, str ''l''), (1084, str ''m''), (1085, str ''n''), (1086, str ''o''), (1087, str ''p''), (1088, str ''r''),
      (1089, str ''s''), (1090, str ''t''), (1091, str ''u''), (1092, str ''f''), (1093, str ''kh''), (1094, str ''ts''), (1095,
      str ''ch''), (1096, str ''sh''), (1097, str ''shch''), (1100, []), (1102, str ''iu''), (1103, str ''ia''), (39, []),
      (8217, []), (700, []), (1105, str ''e''), (1099, str ''y''), (1101, str ''e''), (1098, [])]"

definition TRANSLIT_RU :: "(nat \<times> pystr) list" where
  "TRANSLIT_RU =
     [(1075, str ''g''), (1080, str ''i''), (1081, str ''y''), (1093, str ''kh''), (1102, str ''yu''), (1103, str ''ya'')]"

definition ENDINGS :: "pystr list" where
  "ENDINGS =
     sort_key (\<lambda>e. - int (length e)) (map cyr [''ovi'', ''evi'', ''3vi'', ''o9'', ''e9'', ''39'', ''oho'', ''omu'', ''ymy'', ''i1'',
      ''o7'', ''y1'', ''ym'', ''om'', ''em'', ''3m'', ''ax'', ''qm'', ''am'', ''6m'', ''o1'', ''e1'', ''u9'', ''a'', ''q'', ''u'', ''9'',
      ''i'', ''y'', ''e'', ''o'', ''7'', ''8'', ''1'', ''6''])"

definition NOT_NAME_CYR :: "pystr list" where
  "NOT_NAME_CYR =
     map cyr [''Ukra7na'', ''Ukra7ni'', ''Ukra7ny'', ''Ky7v'', ''Ky3va'', ''L8viv'', ''Odesa'', ''Xarkiv'', ''Dnipro'', ''Kanada'',
      ''Toronto'', ''Ottava'', ''Monreal8'', ''Bank'', ''Dohovir'', ''Dohovoru'', ''Raxunok'', ''Suma'', ''Data'', ''Otrymuva4'',
      ''Platnyk'', ''Dyrektor'', ''Buxhalter'', ''Tovarystvo'', ''Pryvatne'', ''Akcionerne'', ''Derjavne'', ''Komunal8ne'', ''Publi4ne'',
      ''Obmejeno9'', ''Vidpovidal8nist9'', ''Dodatok'', ''Akt'', ''Vypyska'', ''Zalywok'', ''Period'', ''Pryzna4ennq'', ''Oplata'',
      ''Podatok'', ''Posluhy'', ''Si4en8'', ''L9ty1'', ''Berezen8'', ''Kviten8'', ''Traven8'', ''^4erven8'', ''Lypen8'', ''Serpen8'',
      ''Veresen8'', ''Jovten8'', ''Lystopad'', ''Hruden8'', ''Ponedilok'', ''Vivtorok'', ''Rossyq'', ''Moskva'', ''Dohovor'', ''S4et'',
      ''Summa'', ''Ytoho'', ''Vseho'', ''Ob5estvo'', ''Ohrany4enno1'', ''Otvetstvennost89'', ''Qnvar8'', ''Fevral8'', ''Mart'', ''Aprel8'',
      ''Ma1'', ''Y9n8'', ''Y9l8'', ''Avhust'', ''Sentqbr8'', ''Oktqbr8'', ''Noqbr8'', ''Dekabr8'', ''Slava'', ''Heroqm'', ''Nova'',
      ''Powta'', ''Ukrpowta'', ''Minfin'', ''Minekonomiky'', ''Nacional8ny1'', ''Derjavna'', ''Podatkova'', ''Slujba'', ''Kazna4e1stvo'',
      ''Re3str'', ''^3dyny1'', ''Audytor'', ''Audytors8ky1'', ''Vysnovok'', ''Zvit'', ''Balans'']"

definition NOT_NAME_LATIN :: "pystr list" where
  "NOT_NAME_LATIN =
     map str [''Bank'', ''Agreement'', ''Invoice'', ''Statement'', ''Account'', ''Balance'', ''Total'', ''Date'', ''Amount'', ''Payment'',
      ''Services'', ''Tax'', ''Canada'', ''Ontario'', ''Toronto'', ''Ottawa'', ''Street'', ''Avenue'', ''Road'', ''Suite'', ''January'',
      ''February'', ''March'', ''April'', ''May'', ''June'', ''July'', ''August'', ''September'', ''October'', ''November'', ''December'',
      ''Monday'', ''Tuesday'', ''Wednesday'', ''Thursday'', ''Friday'', ''Saturday'', ''Sunday'', ''Inc'', ''Ltd'', ''Corp'', ''LLC'',
      ''LLP'', ''Limited'', ''Company'', ''Royal'', ''Dear'', ''Sincerely'', ''Regards'', ''The'', ''This'', ''That'', ''From'', ''Page'',
      ''Report'', ''Summary'', ''Audit'', ''Auditor'', ''Opinion'', ''Note'', ''Notes'', ''Schedule'']"

section \<open>Functions\<close>

definition APOS :: re where
  "APOS = Cls False False (map (\<lambda>c. CRange c c) [39, 8217, 700, 96])"

definition norm_token :: "ucd \<Rightarrow> pystr \<Rightarrow> pystr" where
  "norm_token u token = replace_char 1105 1077 (re_sub u APOS (\<lambda>_. []) (py_casefold u token))"

fun first_ending :: "pystr list \<Rightarrow> pystr \<Rightarrow> pystr" where
  "first_ending [] t = t"
| "first_ending (e # es) t =
     (if endswith t e \<and> 3 \<le> int (length t) - int (length e) then take (length t - length e) t else first_ending es t)"

definition stem :: "ucd \<Rightarrow> pystr \<Rightarrow> pystr" where
  "stem u token =
     (let t = norm_token u token in
      if t = [] \<or> \<not> (1072 \<le> hd t \<and> hd t \<le> 1103 \<or> hd t \<in> {1110, 1111, 1108, 1169})
      then (if endswith t [39, 115] then take (length t - 2) t else t)
      else first_ending ENDINGS t)"

definition translit :: "ucd \<Rightarrow> pystr \<Rightarrow> bool \<Rightarrow> pystr" where
  "translit u token ru =
     (let t = norm_token u token in translate TRANSLIT (if ru then translate TRANSLIT_RU t else t))"

definition FIRST_NAME_STEMS :: "ucd \<Rightarrow> pystr list" where
  "FIRST_NAME_STEMS u = map (stem u) (UK_MALE @ UK_FEMALE @ RU)"

definition FIRST_NAMES_LATIN :: "ucd \<Rightarrow> pystr list" where
  "FIRST_NAMES_LATIN u =
     filter (\<lambda>w. w \<noteq> [])
       (map (py_casefold u) EN @ map (\<lambda>w. translit u w False) (UK_MALE @ UK_FEMALE)
        @ map (\<lambda>w. translit u w True) RU @ map (\<lambda>w. translit u w False) RU)"

definition NOMINATIVE_FIRST :: "ucd \<Rightarrow> pystr list" where
  "NOMINATIVE_FIRST u = map (norm_token u) (UK_MALE @ UK_FEMALE @ RU @ EN)"

definition is_first_name :: "ucd \<Rightarrow> pystr \<Rightarrow> bool" where
  "is_first_name u token =
     (let t = norm_token u token in
      if t = [] then False
      else if 97 \<le> hd t \<and> hd t \<le> 122 then t \<in> set (FIRST_NAMES_LATIN u)
      else stem u token \<in> set (FIRST_NAME_STEMS u))"

definition NOT_NAME_STEMS :: "ucd \<Rightarrow> pystr list" where
  "NOT_NAME_STEMS u = map (stem u) NOT_NAME_CYR @ map (py_casefold u) NOT_NAME_LATIN"

section \<open>The stemmer\<close>

lemma endswith_take: "endswith t e \<Longrightarrow> t = take (length t - length e) t @ e"
  unfolding endswith_def by (metis append_take_drop_id)

lemma first_ending_prefix: "\<exists>e. t = first_ending es t @ e \<and> (e \<noteq> [] \<longrightarrow> e \<in> set es \<and> 3 \<le> length (first_ending es t))"
proof (induction es)
  case (Cons e es)
  show ?case
  proof (cases "endswith t e \<and> 3 \<le> int (length t) - int (length e)")
    case True
    then have "t = take (length t - length e) t @ e" using endswith_take by blast
    moreover have "3 \<le> length (take (length t - length e) t)" using True by auto
    ultimately show ?thesis using True by (intro exI [of _ e]) simp
  next
    case False
    then show ?thesis using Cons by auto
  qed
qed simp

text \<open>A stem is a prefix of the normalized token: it loses at most one ending of the list, and only if
  three letters remain; a token that does not begin with a Cyrillic letter is its own stem.\<close>

lemma re_sub_cls_out:
  "c \<in> set (sub_from (\<lambda>_. []) s i (finditer u r s)) \<Longrightarrow> c \<in> set s"
proof -
  have "c \<in> set (sub_from (\<lambda>_. []) s i ml) \<Longrightarrow> c \<in> set s" for ml i
    by (induction ml arbitrary: i) (auto simp: slice_def dest: in_set_dropD in_set_takeD)
  then show "c \<in> set (sub_from (\<lambda>_. []) s i (finditer u r s)) \<Longrightarrow> c \<in> set s" by blast
qed

lemma stem_prefix: "\<exists>e. norm_token u w = stem u w @ e"
proof -
  let ?t = "norm_token u w"
  have a: "\<exists>e. ?t = first_ending ENDINGS ?t @ e" using first_ending_prefix [of ?t ENDINGS] by blast
  have b: "\<exists>e. ?t = (if endswith ?t [39, 115] then take (length ?t - 2) ?t else ?t) @ e"
    by (cases "endswith ?t [39, 115]") (metis append_take_drop_id, simp)
  show ?thesis using a b unfolding stem_def Let_def by presburger
qed

end
