(* ===== verification/Ner_Rules.thy ===== *)
theory Ner_Rules
  imports Ner_Patterns Gazetteer Entities Detect
begin

text \<open>
  \<open>app/desktop/ner_rules.py\<close>: the local rules that find people, companies, addresses, accounts,
  phones, cards, passports and amounts, and the reading of table headers. The three loops without
  a bound, over overlapping pairs of names and over the parts of an address, are
  \<open>partial_function\<close>s; \<open>detect_all_returns\<close> says that they end.
\<close>

section \<open>Shared pieces\<close>

text \<open>\<open>m.span(g)\<close>; every group the code asks for takes part in every match (\<open>groups_bound\<close>).\<close>

definition grp_span :: "rmatch \<Rightarrow> string \<Rightarrow> nat \<times> nat" where
  "grp_span m g = (case m_span m (str g) of Some ab \<Rightarrow> ab | None \<Rightarrow> (0, 0))"

definition grp_text :: "pystr \<Rightarrow> rmatch \<Rightarrow> string \<Rightarrow> pystr" where
  "grp_text s m g = slice s (fst (grp_span m g)) (snd (grp_span m g))"

definition whole :: "rmatch \<Rightarrow> nat \<times> nat" where
  "whole m = (m_start m, m_end m)"

definition rule_span :: "pystr \<Rightarrow> nat \<times> nat \<Rightarrow> string \<Rightarrow> rat \<Rightarrow> entity_span" where
  "rule_span s ab ty score =
     \<lparr>sp_start = fst ab, sp_end = snd ab, sp_type = str ty, sp_text = slice s (fst ab) (snd ab), sp_score = score,
      sp_source = str ''regex'', sp_jurisdiction = None\<rparr>"

definition name_token_ok :: "ucd \<Rightarrow> pystr \<Rightarrow> bool" where
  "name_token_ok u tok \<longleftrightarrow> stem u tok \<notin> set (NOT_NAME_STEMS u) \<and> py_casefold u tok \<notin> set (NOT_NAME_STEMS u)"

text \<open>\<open>for m in rx.finditer(text): if test: out.append(...)\<close>.\<close>

definition gather_spans :: "ucd \<Rightarrow> re \<Rightarrow> pystr \<Rightarrow> (rmatch \<Rightarrow> entity_span list) \<Rightarrow> entity_span list" where
  "gather_spans u rx s f = concat (map f (finditer u rx s))"

definition gather_all :: "ucd \<Rightarrow> re list \<Rightarrow> pystr \<Rightarrow> (rmatch \<Rightarrow> entity_span list) \<Rightarrow> entity_span list" where
  "gather_all u rxs s f = concat (map (\<lambda>rx. gather_spans u rx s f) rxs)"

definition searches :: "ucd \<Rightarrow> re \<Rightarrow> pystr \<Rightarrow> bool" where
  "searches u rx s \<longleftrightarrow> re_search u rx s \<noteq> None"

section \<open>People\<close>

definition single_surnames :: "ucd \<Rightarrow> pystr \<Rightarrow> entity_span list" where
  "single_surnames u s =
     gather_spans u SINGLE_SURNAME s (\<lambda>m.
       if name_token_ok u (grp_text s m ''s'') \<and> 5 \<le> length (grp_text s m ''s'')
       then [rule_span s (grp_span m ''s'') ''PERSON'' (7 / 10)] else [])"

definition full_names :: "ucd \<Rightarrow> pystr \<Rightarrow> entity_span list" where
  "full_names u s =
     gather_all u P_FULL s (\<lambda>m.
       if list_all (name_token_ok u) (py_split u (m_group0 s m)) then [rule_span s (whole m) ''PERSON'' (93 / 100)] else [])"

definition INIT_SPLIT :: re where
  "INIT_SPLIT = plus1 (Is [CSpace, CRange 46 46, CRange 44 44])"

definition initials_names :: "ucd \<Rightarrow> pystr \<Rightarrow> entity_span list" where
  "initials_names u s =
     gather_all u P_INIT s (\<lambda>m.
       let ws = filter (\<lambda>t. 1 < length t) (re_split u INIT_SPLIT (m_group0 s m)) in
       if ws \<noteq> [] \<and> list_all (name_token_ok u) ws then [rule_span s (whole m) ''PERSON'' (9 / 10)] else [])"

definition sole_traders :: "ucd \<Rightarrow> pystr \<Rightarrow> entity_span list" where
  "sole_traders u s = gather_spans u SOLE_TRADER s (\<lambda>m. [rule_span s (grp_span m ''v'') ''PERSON'' (96 / 100)])"

text \<open>After a cue, the words of the value without the trailing ones that are no names. The end is
  where \<open>v.find\<close> finds the last word, that is at its first occurrence; it is a piece of \<open>v\<close>, so it
  is acc.\<close>

definition cue_words :: "ucd \<Rightarrow> pystr \<Rightarrow> pystr list" where
  "cue_words u v =
     (let ws = filter (\<lambda>w. w \<noteq> []) (re_split u (plus1 SPC) v);
          kept = rev (dropWhile (\<lambda>w. \<not> name_token_ok u (rstrip_of (str ''.,'') w)) (rev ws)) in
      if kept = [] then [] else butlast kept @ [rstrip_of (str '','') (last kept)])"

definition cue_names :: "ucd \<Rightarrow> pystr \<Rightarrow> entity_span list" where
  "cue_names u s =
     gather_spans u PERSON_CUE s (\<lambda>m.
       let v = py_rstrip u (grp_text s m ''v''); a = fst (grp_span m ''v''); ws = cue_words u v in
       if ws = [] then []
       else (let b = (case str_find v (last ws) 0 of Some k \<Rightarrow> a + k + length (last ws) | None \<Rightarrow> a + length (last ws) - 1) in
         if list_ex (u_digit u) (slice s a b) then [] else [rule_span s (a, b) ''PERSON'' (88 / 100)]))"

definition strong_surname :: "ucd \<Rightarrow> pystr \<Rightarrow> bool" where
  "strong_surname u w \<longleftrightarrow> searches u STRONG_SURNAME (py_casefold u w)"

definition pair_span :: "ucd \<Rightarrow> pystr \<Rightarrow> rmatch \<Rightarrow> entity_span list" where
  "pair_span u s m =
     (let a = grp_text s m ''a''; b = grp_text s m ''b'' in
      if \<not> (name_token_ok u a \<and> name_token_ok u b) then []
      else if is_first_name u a \<or> is_first_name u b then [rule_span s (whole m) ''PERSON'' (8 / 10)]
      else if strong_surname u a \<or> strong_surname u b then [rule_span s (whole m) ''PERSON'' (72 / 100)]
      else [])"

definition search_at :: "ucd \<Rightarrow> re \<Rightarrow> pystr \<Rightarrow> nat \<Rightarrow> rmatch option" where
  "search_at u rx s pos = search_from u rx s (Suc (length s) - pos) pos False"

partial_function (option) pair_loop :: "ucd \<Rightarrow> re \<Rightarrow> pystr \<Rightarrow> nat \<Rightarrow> entity_span list \<Rightarrow> entity_span list option" where
  "pair_loop u rx s pos acc =
     (case search_at u rx s pos of
        None \<Rightarrow> Some acc
      | Some m \<Rightarrow> pair_loop u rx s (fst (grp_span m ''b'')) (acc @ pair_span u s m))"

fun pair_names :: "ucd \<Rightarrow> re list \<Rightarrow> pystr \<Rightarrow> entity_span list \<Rightarrow> entity_span list option" where
  "pair_names u [] s acc = Some acc"
| "pair_names u (rx # rxs) s acc = Option.bind (pair_loop u rx s 0 acc) (\<lambda>acc'. pair_names u rxs s acc')"

definition lone_first_names :: "ucd \<Rightarrow> pystr \<Rightarrow> entity_span list" where
  "lone_first_names u s =
     gather_spans u LONE_FIRST s (\<lambda>m.
       let w = m_group0 s m in
       if 4 \<le> length w \<and> is_first_name u w \<and> name_token_ok u w then [rule_span s (whole m) ''PERSON'' (6 / 10)] else [])"

definition detect_people :: "ucd \<Rightarrow> pystr \<Rightarrow> entity_span list option" where
  "detect_people u s =
     Option.bind (pair_names u P_TWO s
       (single_surnames u s @ full_names u s @ initials_names u s @ sole_traders u s @ cue_names u s))
       (\<lambda>acc. Some (acc @ lone_first_names u s))"

section \<open>Companies\<close>

definition quoted_companies :: "ucd \<Rightarrow> pystr \<Rightarrow> re \<Rightarrow> rat \<Rightarrow> entity_span list" where
  "quoted_companies u s rx score =
     gather_spans u rx s (\<lambda>m.
       let g = grp_text s m ''name''; name = py_strip u g;
           a = fst (grp_span m ''name'') + (length g - length (py_lstrip u g)) in
       if name = [] \<or> \<not> list_ex (u_alpha u) name then []
       else [(rule_span s (a, a + length name) ''ORG'' score)\<lparr>sp_text := name\<rparr>])"

text \<open>\<open>name.split()[0]\<close>: the name begins with a letter, so there is a first word.\<close>

definition first_word :: "ucd \<Rightarrow> pystr \<Rightarrow> pystr" where
  "first_word u s = (case py_split u s of w # _ \<Rightarrow> w | [] \<Rightarrow> [])"

definition bare_companies :: "ucd \<Rightarrow> pystr \<Rightarrow> entity_span list" where
  "bare_companies u s =
     gather_spans u C_BARE s (\<lambda>m.
       if stem u (first_word u (grp_text s m ''name'')) \<in> set (NOT_NAME_STEMS u) then []
       else [rule_span s (grp_span m ''name'') ''ORG'' (9 / 10)])"

definition english_companies :: "ucd \<Rightarrow> pystr \<Rightarrow> entity_span list" where
  "english_companies u s =
     gather_spans u C_EN s (\<lambda>m.
       let a = fst (grp_span m ''name'') +
             (case re_match u EN_STOP_LEAD (grp_text s m ''name'') of Some l \<Rightarrow> m_end l | None \<Rightarrow> 0);
           b = snd (grp_span m ''name''); name = slice s a b in
       if length name < 2 \<or> py_casefold u name \<in> set (NOT_NAME_STEMS u) then []
       else [rule_span s (a, b) ''ORG'' (9 / 10)])"

definition cued_companies :: "ucd \<Rightarrow> pystr \<Rightarrow> entity_span list" where
  "cued_companies u s =
     gather_spans u C_CUE_BARE s (\<lambda>m.
       let w = first_word u (grp_text s m ''name'') in
       if stem u w \<in> set (NOT_NAME_STEMS u) \<or> py_casefold u w \<in> set (NOT_NAME_STEMS u) then []
       else [rule_span s (grp_span m ''name'') ''ORG'' (8 / 10)])"

definition detect_companies :: "ucd \<Rightarrow> pystr \<Rightarrow> entity_span list" where
  "detect_companies u s =
     quoted_companies u s C_QUOTED (97 / 100) @ quoted_companies u s C_CUE_QUOTED (9 / 10) @ bare_companies u s
     @ english_companies u s @ gather_spans u C_BANK s (\<lambda>m. [rule_span s (grp_span m ''name'') ''ORG'' (85 / 100)])
     @ cued_companies u s"

section \<open>Addresses\<close>

definition match_from :: "ucd \<Rightarrow> re \<Rightarrow> pystr \<Rightarrow> nat \<Rightarrow> rmatch option" where
  "match_from u rx s i = match_at u rx s i False"

partial_function (option) extend_right :: "ucd \<Rightarrow> pystr \<Rightarrow> nat \<Rightarrow> nat option" where
  "extend_right u s e =
     (case match_from u SEP s e of
        None \<Rightarrow> Some e
      | Some m \<Rightarrow>
          if 10 \<in> set (m_group0 s m) then Some e
          else (case match_from u ADDR_PART s (m_end m) of
                  None \<Rightarrow> Some e
                | Some p \<Rightarrow> if m_end p = m_start p then Some e else extend_right u s (m_end p)))"

text \<open>The last part in the 80 characters before that ends right before a separator.\<close>

definition before_sep :: "ucd \<Rightarrow> pystr \<Rightarrow> rmatch \<Rightarrow> bool" where
  "before_sep u prefix p \<longleftrightarrow>
     (let tail = drop (m_end p) prefix in
      re_fullmatch u SEP tail \<and> 10 \<notin> set tail \<and> \<not> re_fullmatch u BARE_NUM (m_group0 prefix p))"

definition left_part :: "ucd \<Rightarrow> pystr \<Rightarrow> rmatch option" where
  "left_part u prefix =
     (case rev (filter (before_sep u prefix) (finditer u ADDR_PART prefix)) of [] \<Rightarrow> None | p # _ \<Rightarrow> Some p)"

partial_function (option) extend_left :: "ucd \<Rightarrow> pystr \<Rightarrow> nat \<Rightarrow> nat option" where
  "extend_left u s a =
     (case left_part u (slice s (a - 80) a) of
        None \<Rightarrow> Some a
      | Some p \<Rightarrow> extend_left u s ((a - 80) + m_start p))"

definition extend :: "ucd \<Rightarrow> pystr \<Rightarrow> nat \<Rightarrow> nat \<Rightarrow> (nat \<times> nat) option" where
  "extend u s a e = Option.bind (extend_right u s e) (\<lambda>e'. Option.bind (extend_left u s a) (\<lambda>a'. Some (a', e')))"

definition address_span :: "pystr \<Rightarrow> nat \<times> nat \<Rightarrow> entity_span" where
  "address_span s ae =
     (let val = rstrip_of (str '' ,.'') (slice s (fst ae) (snd ae)) in
      rule_span s (fst ae, fst ae + length val) ''ADDRESS'' (86 / 100))"

fun address_spans :: "ucd \<Rightarrow> pystr \<Rightarrow> rmatch list \<Rightarrow> entity_span list option" where
  "address_spans u s [] = Some []"
| "address_spans u s (m # matches) =
     Option.bind (extend u s (m_start m) (m_end m)) (\<lambda>ae.
     Option.bind (address_spans u s matches) (\<lambda>rest. Some (address_span s ae # rest)))"

definition detect_addresses :: "ucd \<Rightarrow> pystr \<Rightarrow> entity_span list option" where
  "detect_addresses u s = address_spans u s (concat (map (\<lambda>rx. finditer u rx s) ADDR_ANCHORS))"

section \<open>Accounts, phones, cards, passports, amounts\<close>

definition account_spans :: "ucd \<Rightarrow> pystr \<Rightarrow> entity_span list" where
  "account_spans u s =
     gather_spans u ACCOUNT_CUE s (\<lambda>m.
       let v = py_strip u (grp_text s m ''value''); a = fst (grp_span m ''value'') in
       if count_digits u v < 6 then []
       else [(rule_span s (a, a + length v) ''BANK_ACCOUNT'' (9 / 10))\<lparr>sp_text := v\<rparr>])"

definition phone_spans :: "ucd \<Rightarrow> pystr \<Rightarrow> entity_span list" where
  "phone_spans u s =
     gather_all u PHONE s (\<lambda>m.
       let digits = count_digits u (m_group0 s m) in
       if 9 \<le> digits \<and> digits \<le> 15 then [rule_span s (whole m) ''PHONE'' (8 / 10)] else [])"

definition detect_misc :: "ucd \<Rightarrow> pystr \<Rightarrow> bool \<Rightarrow> entity_span list" where
  "detect_misc u s amounts =
     account_spans u s @ phone_spans u s
     @ gather_spans u MASKED_CARD s (\<lambda>m. [rule_span s (whole m) ''CREDIT_CARD'' (9 / 10)])
     @ gather_spans u CARD_CUE s (\<lambda>m. [rule_span s (grp_span m ''value'') ''CREDIT_CARD'' (92 / 100)])
     @ gather_all u PASSPORT s (\<lambda>m. [rule_span s (grp_span m ''value'') ''PASSPORT'' (93 / 100)])
     @ (if amounts then gather_all u AMOUNT s (\<lambda>m. [rule_span s (whole m) ''AMOUNT'' (7 / 10)]) else [])"

definition detect_all :: "ucd \<Rightarrow> pystr \<Rightarrow> bool \<Rightarrow> entity_span list option" where
  "detect_all u s amounts =
     Option.bind (detect_people u s) (\<lambda>people. Option.bind (detect_addresses u s) (\<lambda>addresses.
       Some (detect_companies u s @ people @ addresses @ detect_misc u s amounts)))"

section \<open>Table headers\<close>

fun first_rule :: "ucd \<Rightarrow> (re \<times> pystr) list \<Rightarrow> pystr \<Rightarrow> pystr option" where
  "first_rule u [] h = None"
| "first_rule u ((rx, cat) # rules) h = (if searches u rx h then Some cat else first_rule u rules h)"

definition header_category :: "ucd \<Rightarrow> pystr \<Rightarrow> pystr option" where
  "header_category u header =
     (let h = py_strip u header in
      if h = [] \<or> 60 < length h then None else first_rule u HEADER_RULES h)"

definition party_name :: "ucd \<Rightarrow> pystr list \<Rightarrow> bool" where
  "party_name u toks \<longleftrightarrow>
     2 \<le> length toks \<and> length toks \<le> 3 \<and> list_all (re_fullmatch u (alts [CW, CU, LW, LU, INIT, INIT_L])) toks
     \<and> (list_ex (is_first_name u) toks \<or> list_ex (searches u (Alt PATR PATR_U)) toks
        \<or> list_ex (strong_surname u) toks \<or> list_ex (re_fullmatch u INIT) toks)"

definition classify_party :: "ucd \<Rightarrow> pystr \<Rightarrow> pystr" where
  "classify_party u value =
     (let v = py_strip u value in
      if searches u C_QUOTED v \<or> searches u C_EN v \<or> searches u C_BANK v \<or> searches u C_BARE v then str ''ORG''
      else if searches u SOLE_TRADER v then str ''PERSON''
      else if party_name u (py_split u v) then str ''PERSON''
      else str ''ORG'')"

end
