(* ===== verification/Regex_Groups.thy ===== *)
theory Regex_Groups
  imports Packs
begin

text \<open>
  What can be read off a pattern: the least length of its matches, which groups take part in every
  match, and which groups begin later than the match itself.
\<close>

primrec min_len :: "re \<Rightarrow> nat" where
  "min_len Eps = 0"
| "min_len (Cls ci neg its) = 1"
| "min_len (Seq a b) = min_len a + min_len b"
| "min_len (Alt a b) = min (min_len a) (min_len b)"
| "min_len (Rep g a mn mx) = mn * min_len a"
| "min_len (Grp n a) = min_len a"
| "min_len (Ahead pos a) = 0"
| "min_len (Behind pos a) = 0"
| "min_len Bos = 0"
| "min_len Eos = 0"
| "min_len WordB = 0"

primrec binds :: "pystr \<Rightarrow> re \<Rightarrow> bool" where
  "binds h Eps = False"
| "binds h (Cls ci neg its) = False"
| "binds h (Seq a b) = (binds h a \<or> binds h b)"
| "binds h (Alt a b) = (binds h a \<and> binds h b)"
| "binds h (Rep g a mn mx) = (0 < mn \<and> binds h a)"
| "binds h (Grp n a) = (n = h \<or> binds h a)"
| "binds h (Ahead pos a) = False"
| "binds h (Behind pos a) = False"
| "binds h Bos = False"
| "binds h Eos = False"
| "binds h WordB = False"

primrec after :: "pystr \<Rightarrow> re \<Rightarrow> bool" where
  "after h Eps = True"
| "after h (Cls ci neg its) = True"
| "after h (Seq a b) = (after h a \<and> (after h b \<or> 0 < min_len a))"
| "after h (Alt a b) = (after h a \<and> after h b)"
| "after h (Rep g a mn mx) = after h a"
| "after h (Grp n a) = (n \<noteq> h \<and> after h a)"
| "after h (Ahead pos a) = after h a"
| "after h (Behind pos a) = True"
| "after h Bos = True"
| "after h Eos = True"
| "after h WordB = True"

section \<open>Lengths\<close>

lemma must_min:
  assumes "\<And>i c j c'. (j, c') \<in> set (f i c) \<Longrightarrow> i + l \<le> j" and "(j, c') \<in> set (must f n i c)"
  shows "i + n * l \<le> j"
  using assms(2)
proof (induction n arbitrary: i c)
  case (Suc n)
  then obtain m cm where "(m, cm) \<in> set (f i c)" "(j, c') \<in> set (must f n m cm)" by auto
  then show ?case using Suc.IH assms(1) [of m cm i c] by fastforce
qed simp

lemma opts_min: "(j, c') \<in> set (opts f g n mx i c) \<Longrightarrow> i \<le> (j :: nat)"
proof (induction n arbitrary: mx i c)
  case (Suc n)
  then consider "(j, c') = (i, c)"
    | m cm where "(m, cm) \<in> set (f i c)" "i < m" "(j, c') \<in> set (opts f g n (map_option (\<lambda>m. m - 1) mx) m cm)"
    by (auto simp: Let_def split: if_splits)
  then show ?case using Suc.IH by cases fastforce+
qed simp

lemma ms_min_len: "(j, c') \<in> set (ms u s r i c) \<Longrightarrow> i + min_len r \<le> j"
proof (induction r arbitrary: i j c c')
  case (Seq a b)
  then obtain m cm where "(m, cm) \<in> set (ms u s a i c)" "(j, c') \<in> set (ms u s b m cm)" by auto
  then show ?case using Seq.IH by fastforce
next
  case (Rep g a mn mx)
  then obtain m cm where m: "(m, cm) \<in> set (must (ms u s a) mn i c)"
    "(j, c') \<in> set (opts (ms u s a) g (length s - m) (map_option (\<lambda>m. m - mn) mx) m cm)" by auto
  have "i + mn * min_len a \<le> m" by (rule must_min [OF Rep.IH m(1)])
  then show ?case using opts_min [OF m(2)] by simp
next
  case (Alt a b)
  then show ?case by fastforce
next
  case (Ahead pos a)
  then show ?case by (auto split: if_splits list.splits)
qed (auto split: if_splits)

section \<open>Groups\<close>

text \<open>What a match adds to the captures it started from: no group begins before the match, and some only later.\<close>

definition later :: "pystr \<Rightarrow> bool \<Rightarrow> nat \<Rightarrow> caps \<Rightarrow> bool" where
  "later h strict i d \<longleftrightarrow> (\<forall>(g, a, b)\<in>set d. i \<le> a \<and> (strict \<longrightarrow> g = h \<longrightarrow> i < a))"

lemma later_mono: "later h p m d \<Longrightarrow> i \<le> m \<Longrightarrow> (q \<Longrightarrow> p \<or> i < m) \<Longrightarrow> later h q i d"
  unfolding later_def by fastforce

lemma later_append: "later h p i (d @ e) \<longleftrightarrow> later h p i d \<and> later h p i e"
  by (simp add: later_def ball_Un)

lemma must_adds:
  assumes f: "\<And>i c j c'. (j, c') \<in> set (f i c) \<Longrightarrow> i \<le> j \<and> (\<exists>d. c' = d @ c \<and> later h p i d \<and> (q \<longrightarrow> h \<in> fst ` set d))"
    and "(j, c') \<in> set (must f n i c)"
  shows "i \<le> j \<and> (\<exists>d. c' = d @ c \<and> later h p i d \<and> (0 < n \<and> q \<longrightarrow> h \<in> fst ` set d))"
  using assms(2)
proof (induction n arbitrary: i c)
  case 0
  then show ?case by (simp add: later_def)
next
  case (Suc n)
  then obtain m cm where m: "(m, cm) \<in> set (f i c)" "(j, c') \<in> set (must f n m cm)" by auto
  obtain d where d: "i \<le> m" "cm = d @ c" "later h p i d" "q \<longrightarrow> h \<in> fst ` set d" using f [OF m(1)] by blast
  obtain e where e: "m \<le> j" "c' = e @ cm" "later h p m e" using Suc.IH [OF m(2)] by blast
  have "later h p i e" using later_mono [OF e(3) d(1)] by simp
  then show ?case using d e by (intro conjI exI [of _ "e @ d"]) (auto simp: later_append)
qed

lemma opts_adds:
  assumes f: "\<And>i c j c'. (j, c') \<in> set (f i c) \<Longrightarrow> i \<le> j \<and> (\<exists>d. c' = d @ c \<and> later h p i d)"
    and "(j, c') \<in> set (opts f g n mx i c)"
  shows "i \<le> j \<and> (\<exists>d. c' = d @ c \<and> later h p i d)"
  using assms(2)
proof (induction n arbitrary: mx i c)
  case 0
  then show ?case by (simp add: later_def)
next
  case (Suc n)
  then consider "(j, c') = (i, c)"
    | m cm where "(m, cm) \<in> set (f i c)" "(j, c') \<in> set (opts f g n (map_option (\<lambda>m. m - 1) mx) m cm)"
    by (auto simp: Let_def split: if_splits)
  then show ?case
  proof cases
    case 1
    then show ?thesis by (simp add: later_def)
  next
    case 2
    obtain d where d: "i \<le> m" "cm = d @ c" "later h p i d" using f [OF 2(1)] by blast
    obtain e where e: "m \<le> j" "c' = e @ cm" "later h p m e" using Suc.IH [OF 2(2)] by blast
    have "later h p i e" using later_mono [OF e(3) d(1)] by simp
    then show ?thesis using d e by (intro conjI exI [of _ "e @ d"]) (auto simp: later_append)
  qed
qed

lemma ms_adds: "(j, c') \<in> set (ms u s r i c) \<Longrightarrow> \<exists>d. c' = d @ c \<and> later h (after h r) i d \<and> (binds h r \<longrightarrow> h \<in> fst ` set d)"
proof (induction r arbitrary: i j c c')
  case (Seq a b)
  then obtain m cm where m: "(m, cm) \<in> set (ms u s a i c)" "(j, c') \<in> set (ms u s b m cm)" by auto
  obtain d where d: "cm = d @ c" "later h (after h a) i d" "binds h a \<longrightarrow> h \<in> fst ` set d" using Seq.IH(1) [OF m(1)] by blast
  obtain e where e: "c' = e @ cm" "later h (after h b) m e" "binds h b \<longrightarrow> h \<in> fst ` set e" using Seq.IH(2) [OF m(2)] by blast
  have im: "i + min_len a \<le> m" by (rule ms_min_len [OF m(1)])
  have "later h (after h (Seq a b)) i e" by (rule later_mono [OF e(2)]) (use im in auto)
  moreover have "later h (after h (Seq a b)) i d" by (rule later_mono [OF d(2)]) auto
  ultimately show ?case using d e by (intro exI [of _ "e @ d"]) (auto simp: later_append)
next
  case (Rep g a mn mx)
  then obtain m cm where m: "(m, cm) \<in> set (must (ms u s a) mn i c)"
    "(j, c') \<in> set (opts (ms u s a) g (length s - m) (map_option (\<lambda>m. m - mn) mx) m cm)" by auto
  have f: "(j, c') \<in> set (ms u s a i c) \<Longrightarrow> i \<le> j \<and> (\<exists>d. c' = d @ c \<and> later h (after h a) i d \<and> (binds h a \<longrightarrow> h \<in> fst ` set d))"
    for i c j c' using Rep.IH ms_min_len [of j c' u s a i c] by fastforce
  obtain d where d: "i \<le> m" "cm = d @ c" "later h (after h a) i d" "0 < mn \<and> binds h a \<longrightarrow> h \<in> fst ` set d"
    using must_adds [OF f m(1)] by blast
  obtain e where e: "c' = e @ cm" "later h (after h a) m e"
    using opts_adds [OF _ m(2), of h "after h a"] f by blast
  have "later h (after h a) i e" using later_mono [OF e(2) d(1)] by simp
  then show ?case using d e by (intro exI [of _ "e @ d"]) (auto simp: later_append)
next
  case (Alt a b)
  then consider "(j, c') \<in> set (ms u s a i c)" | "(j, c') \<in> set (ms u s b i c)" by auto
  then show ?case
  proof cases
    case 1
    then obtain d where "c' = d @ c" "later h (after h a) i d" "binds h a \<longrightarrow> h \<in> fst ` set d" using Alt.IH(1) by blast
    then show ?thesis by (intro exI [of _ d]) (auto simp: later_def)
  next
    case 2
    then obtain d where "c' = d @ c" "later h (after h b) i d" "binds h b \<longrightarrow> h \<in> fst ` set d" using Alt.IH(2) by blast
    then show ?thesis by (intro exI [of _ d]) (auto simp: later_def)
  qed
next
  case (Grp n a)
  then obtain c1 where c1: "(j, c1) \<in> set (ms u s a i c)" "c' = (n, i, j) # c1" by auto
  then obtain d where "c1 = d @ c" "later h (after h a) i d" "binds h a \<longrightarrow> h \<in> fst ` set d" using Grp.IH by blast
  then show ?case using c1 by (intro exI [of _ "(n, i, j) # d"]) (auto simp: later_def)
next
  case (Ahead pos a)
  show ?case
  proof (cases "pos")
    case True
    then obtain j1 rest where "ms u s a i c = (j1, c') # rest"
      using Ahead.prems by (cases "ms u s a i c") auto
    then obtain d where "c' = d @ c" "later h (after h a) i d" using Ahead.IH [of j1 c' i c] by auto
    then show ?thesis by (intro exI [of _ d]) simp
  qed (use Ahead.prems in \<open>auto simp: later_def split: if_splits\<close>)
qed (auto simp: later_def split: if_splits)

section \<open>Matches\<close>

text \<open>A match found from a position.\<close>

definition found_from :: "ucd \<Rightarrow> re \<Rightarrow> pystr \<Rightarrow> nat \<Rightarrow> rmatch \<Rightarrow> bool" where
  "found_from u r s i m \<longleftrightarrow> i \<le> m_start m \<and> m_start m \<le> length s \<and> snd m \<in> set (ms u s r (m_start m) [])"

lemma found_from_bounds:
  assumes "found_from u r s i m"
  shows "i \<le> m_start m" "m_start m + min_len r \<le> m_end m" "m_start m \<le> m_end m" "m_end m \<le> length s" "caps_in s (snd (snd m))"
proof -
  have m: "i \<le> m_start m" "m_start m \<le> length s" "(m_end m, snd (snd m)) \<in> set (ms u s r (m_start m) [])"
    using assms by (auto simp: found_from_def m_end_def)
  show "i \<le> m_start m" by (rule m(1))
  show "m_start m + min_len r \<le> m_end m" by (rule ms_min_len [OF m(3)])
  show "m_start m \<le> m_end m" "m_end m \<le> length s" using ms_bounds [OF m(3,2)] by simp_all
  show "caps_in s (snd (snd m))" using ms_caps [OF m(3,2)] by (simp add: caps_in_def)
qed

lemma found_from_group:
  assumes m: "found_from u r s i m" and "binds h r"
  obtains a b where "m_span m h = Some (a, b)" "m_start m \<le> a" "after h r \<Longrightarrow> m_start m < a" "a \<le> b" "b \<le> length s"
proof -
  have "(m_end m, snd (snd m)) \<in> set (ms u s r (m_start m) [])" using m by (auto simp: found_from_def m_end_def)
  from ms_adds [OF this, of h] obtain d where d: "snd (snd m) = d" "later h (after h r) (m_start m) d" "h \<in> fst ` set d"
    using \<open>binds h r\<close> by auto
  then obtain a b where ab: "map_of d h = Some (a, b)" by (cases "map_of d h") (auto simp: map_of_eq_None_iff)
  then have "(h, a, b) \<in> set d" by (rule map_of_SomeD)
  moreover from this have "a \<le> b \<and> b \<le> length s"
    using found_from_bounds(5) [OF m] d(1) by (auto simp: caps_in_def)
  moreover have "m_start m \<le> a \<and> (after h r \<longrightarrow> m_start m < a)"
    using calculation(1) d(2) by (auto simp: later_def)
  ultimately show ?thesis using ab d(1) that [of a b] by (simp add: m_span_def)
qed

lemma match_at_found: "match_at u r s i adv = Some m \<Longrightarrow> i \<le> length s \<Longrightarrow> found_from u r s i m \<and> m_start m = i"
proof -
  assume "match_at u r s i adv = Some m" and i: "i \<le> length s"
  then obtain j c where m: "m = (i, j, c)" "(j, c) \<in> set (filter (\<lambda>(j, _). adv \<longrightarrow> j \<noteq> i) (ms u s r i []))"
    unfolding match_at_def
    by (cases "filter (\<lambda>(j, _). adv \<longrightarrow> j \<noteq> i) (ms u s r i [])") (auto simp del: filter.simps)
  then show ?thesis using i by (auto simp: found_from_def m_start_def)
qed

lemma search_from_found: "search_from u r s n i adv = Some m \<Longrightarrow> n + i = Suc (length s) \<Longrightarrow> found_from u r s i m"
proof (induction n arbitrary: i adv)
  case (Suc n)
  show ?case
  proof (cases "match_at u r s i adv")
    case None
    then show ?thesis using Suc by (force simp: found_from_def)
  next
    case (Some m')
    then show ?thesis using Suc.prems match_at_found [OF Some] by simp
  qed
qed simp

lemma re_search_found: "re_search u r s = Some m \<Longrightarrow> found_from u r s 0 m"
  using search_from_found [of u r s "Suc (length s)" 0 False m] by (simp add: re_search_def)

lemma re_match_found: "re_match u r s = Some m \<Longrightarrow> found_from u r s 0 m"
  using match_at_found [of u r s 0 False m] by (simp add: re_match_def)

lemma finditer_found: "m \<in> set (finditer u r s) \<Longrightarrow> found_from u r s 0 m"
  using finditer_ms [of m u r s] by (simp add: found_from_def)

text \<open>Reading \<open>binds\<close> and \<open>min_len\<close> off a sequence.\<close>

lemma min_len_seqs: "min_len (seqs rs) = sum_list (map min_len rs)"
  by (induction rs rule: seqs.induct) simp_all

lemma binds_seqs: "binds h (seqs rs) \<longleftrightarrow> (\<exists>r\<in>set rs. binds h r)"
  by (induction rs rule: seqs.induct) simp_all

lemma binds_alts: "rs \<noteq> [] \<Longrightarrow> binds h (alts rs) \<longleftrightarrow> (\<forall>r\<in>set rs. binds h r)"
  by (induction rs rule: alts.induct) simp_all

end
