(* ===== verification/Ner_Ends.thy ===== *)
theory Ner_Ends
  imports Ner_Rules Regex_Groups
begin

text \<open>
  The local rules end on every text and report spans that lie in it: every group that is asked for
  takes part in the match, and each of the three loops moves on in each round.
\<close>

section \<open>Groups\<close>

definition in_text :: "pystr \<Rightarrow> entity_span \<Rightarrow> bool" where
  "in_text s x \<longleftrightarrow> sp_start x \<le> sp_end x \<and> sp_end x \<le> length s"

lemma in_text_rule: "in_text s (rule_span s ab ty sc) \<longleftrightarrow> fst ab \<le> snd ab \<and> snd ab \<le> length s"
  by (simp add: in_text_def rule_span_def)

lemma grp_in: "found_from u r s i m \<Longrightarrow> fst (grp_span m g) \<le> snd (grp_span m g) \<and> snd (grp_span m g) \<le> length s"
proof -
  assume "found_from u r s i m"
  from found_from_bounds(5) [OF this] have c: "caps_in s (snd (snd m))" .
  show ?thesis
  proof (cases "m_span m (str g)")
    case (Some ab)
    then have "(str g, ab) \<in> set (snd (snd m))" unfolding m_span_def by (rule map_of_SomeD)
    then show ?thesis using c Some by (cases ab) (auto simp: grp_span_def caps_in_def)
  qed (simp add: grp_span_def)
qed

lemma length_grp_text: "found_from u r s i m \<Longrightarrow> length (grp_text s m g) = snd (grp_span m g) - fst (grp_span m g)"
  using grp_in [of u r s i m g] by (simp add: grp_text_def)

lemma binds_member: "r \<in> set rs \<Longrightarrow> binds h r \<Longrightarrow> binds h (seqs rs)"
  by (auto simp: binds_seqs)

lemma binds_Grp: "Grp h r \<in> set rs \<Longrightarrow> binds h (seqs rs)"
  by (erule binds_member) simp

lemmas at_head = list.set_intros(1)
lemmas in_tail = list.set_intros(2)

lemma binds_QUOTED: "binds (str ''name'') QUOTED"
  unfolding QUOTED_def by (rule binds_Grp) ((rule at_head | rule in_tail)+)

lemma groups_bound:
  "binds (str ''s'') SINGLE_SURNAME" "binds (str ''v'') SOLE_TRADER" "binds (str ''v'') PERSON_CUE"
  "binds (str ''name'') C_BARE" "binds (str ''name'') C_EN" "binds (str ''name'') C_BANK" "binds (str ''name'') C_CUE_BARE"
  "binds (str ''value'') ACCOUNT_CUE" "binds (str ''value'') CARD_CUE"
  unfolding SINGLE_SURNAME_def SOLE_TRADER_def PERSON_CUE_def C_BARE_def C_EN_def C_BANK_def C_CUE_BARE_def
    ACCOUNT_CUE_def CARD_CUE_def
  by ((rule binds_Grp, (rule at_head | rule in_tail)+))+

lemma quoted_bound: "binds (str ''name'') C_QUOTED" "binds (str ''name'') C_CUE_QUOTED"
  unfolding C_QUOTED_def C_CUE_QUOTED_def
  by ((rule binds_member [OF _ binds_QUOTED], (rule at_head | rule in_tail)+))+

lemma passport_bound: "r \<in> set PASSPORT \<Longrightarrow> binds (str ''value'') r"
proof -
  have "list_all (binds (str ''value'')) PASSPORT"
    unfolding PASSPORT_def list.pred_inject
    by (intro conjI list.pred_inject(1)) ((rule binds_Grp, (rule at_head | rule in_tail)+))+
  then show "r \<in> set PASSPORT \<Longrightarrow> binds (str ''value'') r" by (simp add: list_all_iff)
qed

lemma pair_bound: "r \<in> set P_TWO \<Longrightarrow> binds (str ''a'') r \<and> binds (str ''b'') r"
proof -
  have "list_all (binds (str ''a'')) P_TWO"
    unfolding P_TWO_def list.pred_inject
    by (intro conjI list.pred_inject(1)) ((rule binds_Grp, (rule at_head | rule in_tail)+)+)
  moreover have "list_all (binds (str ''b'')) P_TWO"
    unfolding P_TWO_def list.pred_inject
    by (intro conjI list.pred_inject(1)) ((rule binds_Grp, (rule at_head | rule in_tail)+)+)
  ultimately show "r \<in> set P_TWO \<Longrightarrow> binds (str ''a'') r \<and> binds (str ''b'') r" by (simp add: list_all_iff)
qed

section \<open>Overlapping pairs\<close>

lemma min_len_member: "r \<in> set rs \<Longrightarrow> 0 < min_len r \<Longrightarrow> 0 < min_len (seqs rs)"
  by (induction rs rule: seqs.induct) auto

lemma min_len_words: "0 < min_len CW" "0 < min_len CU" "0 < min_len LW" "0 < min_len LU"
proof -
  show "0 < min_len CW" "0 < min_len CU" unfolding CW_def CU_def by (rule min_len_member [OF at_head], simp)+
  show "0 < min_len LW" unfolding LW_def by (rule min_len_member [OF in_tail [OF at_head]]) simp
  show "0 < min_len LU" unfolding LU_def by (rule min_len_member [OF at_head]) simp
qed

lemma after_seqs: "list_all (after h) rs \<Longrightarrow> after h (seqs rs)"
  by (induction rs rule: seqs.induct) auto

lemma after_alts: "list_all (after h) rs \<Longrightarrow> after h (alts rs)"
  by (induction rs rule: alts.induct) auto

lemma after_lit [simp]: "after h (lit s)"
  unfolding lit_def by (rule after_seqs) (simp add: list_all_iff)

lemma after_words [simp]: "after h CW" "after h CU" "after h LW" "after h LU"
  unfolding CW_def CU_def LW_def LU_def by (rule after_seqs, simp add: after_seqs after_alts list_all_iff del: seqs.simps alts.simps)+

lemma after_NB [simp]: "after h NB" "after h NE"
  by (simp_all add: NB_def NE_def)

lemma pair_after: "r \<in> set P_TWO \<Longrightarrow> after (str ''b'') r"
proof -
  have "list_all (after (str ''b'')) P_TWO"
    unfolding P_TWO_def list.pred_inject by (intro conjI TrueI) (simp_all add: min_len_words)
  then show "r \<in> set P_TWO \<Longrightarrow> after (str ''b'') r" by (simp add: list_all_iff)
qed

lemma search_at_found: "search_at u r s pos = Some m \<Longrightarrow> pos \<le> length s \<and> found_from u r s pos m"
proof -
  assume m: "search_at u r s pos = Some m"
  have pos: "pos \<le> length s"
  proof (rule ccontr)
    assume "\<not> pos \<le> length s"
    then show False using m by (simp add: search_at_def)
  qed
  then show ?thesis using search_from_found [of u r s "Suc (length s) - pos" pos False m] m by (simp add: search_at_def)
qed

text \<open>The next search starts later than this match did, hence the loop ends.\<close>

lemma pair_loop_returns:
  assumes r: "r \<in> set P_TWO"
  shows "\<exists>more. pair_loop u r s pos acc = Some (acc @ more) \<and> (\<forall>x\<in>set more. in_text s x)"
proof (induction "Suc (length s) - pos" arbitrary: pos acc rule: less_induct)
  case less
  show ?case
  proof (cases "search_at u r s pos")
    case None
    then show ?thesis by (simp add: pair_loop.simps)
  next
    case (Some m)
    note m = search_at_found [OF Some]
    obtain a b where ab: "m_span m (str ''b'') = Some (a, b)" "m_start m < a" "a \<le> b" "b \<le> length s"
      using found_from_group [of u r s pos m "str ''b''"] m pair_bound [OF r] pair_after [OF r] by blast
    have a: "grp_span m ''b'' = (a, b)" using ab(1) by (simp add: grp_span_def)
    have "pos < a" using ab(2) found_from_bounds(1) m by fastforce
    then have "Suc (length s) - a < Suc (length s) - pos" using ab(3,4) by simp
    from less [OF this, of "acc @ pair_span u s m"] obtain more where
      more: "pair_loop u r s a (acc @ pair_span u s m) = Some ((acc @ pair_span u s m) @ more)" "\<forall>x\<in>set more. in_text s x"
      by blast
    have "\<forall>x\<in>set (pair_span u s m). in_text s x"
      using found_from_bounds(3,4) [OF conjunct2 [OF m]] by (auto simp: pair_span_def Let_def in_text_rule whole_def)
    then show ?thesis using more Some a by (intro exI [of _ "pair_span u s m @ more"]) (simp add: pair_loop.simps ball_Un)
  qed
qed

lemma pair_names_returns:
  "set rs \<subseteq> set P_TWO \<Longrightarrow> \<exists>more. pair_names u rs s acc = Some (acc @ more) \<and> (\<forall>x\<in>set more. in_text s x)"
proof (induction rs arbitrary: acc)
  case (Cons r rs)
  then obtain m1 where m1: "pair_loop u r s 0 acc = Some (acc @ m1)" "\<forall>x\<in>set m1. in_text s x"
    using pair_loop_returns [of r u s 0 acc] by auto
  obtain m2 where m2: "pair_names u rs s (acc @ m1) = Some ((acc @ m1) @ m2)" "\<forall>x\<in>set m2. in_text s x"
    using Cons.IH [of "acc @ m1"] Cons.prems by auto
  show ?case using m1 m2 by (intro exI [of _ "m1 @ m2"]) (simp add: ball_Un)
qed simp

section \<open>Spans of the simple rules\<close>

lemma gather_in_text:
  "(\<And>m x. found_from u r s 0 m \<Longrightarrow> x \<in> set (f m) \<Longrightarrow> in_text s x) \<Longrightarrow> x \<in> set (gather_spans u r s f) \<Longrightarrow> in_text s x"
  by (auto simp: gather_spans_def dest: finditer_found)

lemma gather_all_in_text:
  "(\<And>r m x. found_from u r s 0 m \<Longrightarrow> x \<in> set (f m) \<Longrightarrow> in_text s x) \<Longrightarrow> x \<in> set (gather_all u rs s f) \<Longrightarrow> in_text s x"
proof -
  assume f: "\<And>r m x. found_from u r s 0 m \<Longrightarrow> x \<in> set (f m) \<Longrightarrow> in_text s x" and "x \<in> set (gather_all u rs s f)"
  then obtain r where "x \<in> set (gather_spans u r s f)" by (auto simp: gather_all_def)
  from gather_in_text [OF f this] show "in_text s x" .
qed

lemma whole_in_text: "found_from u r s i m \<Longrightarrow> in_text s (rule_span s (whole m) ty sc)"
  using found_from_bounds(3,4) by (simp add: in_text_rule whole_def)

lemma group_in_text: "found_from u r s i m \<Longrightarrow> in_text s (rule_span s (grp_span m g) ty sc)"
  using grp_in by (simp add: in_text_rule)

lemma split_from_length: "w \<in> set (split_from s i ml) \<Longrightarrow> length w \<le> length s"
  by (induction ml arbitrary: i) auto

lemma cue_words_length: "cue_words u v \<noteq> [] \<Longrightarrow> length (last (cue_words u v)) \<le> length v"
proof -
  assume ne: "cue_words u v \<noteq> []"
  define ws where "ws = filter (\<lambda>w. w \<noteq> []) (re_split u (plus1 SPC) v)"
  define kept where "kept = rev (dropWhile (\<lambda>w. \<not> name_token_ok u (rstrip_of (str ''.,'') w)) (rev ws))"
  have cw: "cue_words u v = (if kept = [] then [] else butlast kept @ [rstrip_of (str '','') (last kept)])"
    unfolding cue_words_def kept_def ws_def Let_def by (rule refl)
  then have k: "kept \<noteq> []" using ne by auto
  have "set kept \<subseteq> set ws" unfolding kept_def using set_dropWhileD [of _ _ "rev ws"] by auto
  then have "last kept \<in> set ws" using last_in_set [OF k] by blast
  then have "length (last kept) \<le> length v" using split_from_length by (auto simp: ws_def re_split_def)
  then show ?thesis using cw k length_rstrip_of [of "str '',''" "last kept"] by simp
qed

lemma find_off_end: "find_off v s = Some k \<Longrightarrow> k + length v \<le> length s"
proof (induction s arbitrary: k)
  case (Cons c s)
  show ?case
  proof (cases "startswith (c # s) v")
    case True
    then have "k = 0" using Cons.prems by simp
    moreover have "length v \<le> length (c # s)" using True unfolding startswith_def by (metis length_take min.cobounded1)
    ultimately show ?thesis by simp
  qed (use Cons in auto)
qed (auto split: if_splits)

lemma cue_names_in_text: "x \<in> set (cue_names u s) \<Longrightarrow> in_text s x"
  unfolding cue_names_def
proof (erule gather_in_text [rotated])
  fix m x
  assume m: "found_from u PERSON_CUE s 0 m"
    and x: "x \<in> set (let v = py_rstrip u (grp_text s m ''v''); a = fst (grp_span m ''v''); ws = cue_words u v in
       if ws = [] then []
       else (let b = (case str_find v (last ws) 0 of Some k \<Rightarrow> a + k + length (last ws) | None \<Rightarrow> a + length (last ws) - 1) in
         if list_ex (u_digit u) (slice s a b) then [] else [rule_span s (a, b) ''PERSON'' (88 / 100)]))"
  define v where "v = py_rstrip u (grp_text s m ''v'')"
  define a where "a = fst (grp_span m ''v'')"
  define w where "w = last (cue_words u v)"
  have v: "a + length v \<le> length s"
    using length_py_rstrip [of u "grp_text s m ''v''"] grp_in [OF m, of "''v''"] length_grp_text [OF m, of "''v''"]
    unfolding v_def a_def by linarith
  from x have ne: "cue_words u v \<noteq> []"
    and x: "x = rule_span s (a, case str_find v w 0 of Some k \<Rightarrow> a + k + length w | None \<Rightarrow> a + length w - 1) ''PERSON'' (88 / 100)"
    unfolding Let_def v_def [symmetric] a_def [symmetric] w_def [symmetric] by (auto simp: w_def split: if_split_asm)
  have lw: "length w \<le> length v" unfolding w_def by (rule cue_words_length [OF ne])
  show "in_text s x"
  proof (cases "find_off w v")
    case None
    then have "w \<noteq> []" by (cases v) (auto simp: startswith_def)
    then show ?thesis using None x v lw by (cases w) (auto simp: in_text_rule str_find_def)
  next
    case (Some k)
    then show ?thesis using x v find_off_end [OF Some] by (simp add: in_text_rule str_find_def)
  qed
qed

lemma people_in_text:
  "x \<in> set (single_surnames u s @ full_names u s @ initials_names u s @ sole_traders u s @ cue_names u s @ lone_first_names u s)
    \<Longrightarrow> in_text s x"
  unfolding set_append Un_iff single_surnames_def full_names_def initials_names_def sole_traders_def lone_first_names_def
  by (elim disjE gather_in_text [rotated] gather_all_in_text [rotated] cue_names_in_text)
    (auto simp: Let_def whole_in_text group_in_text split: if_splits)

lemma detect_people_returns: "\<exists>spans. detect_people u s = Some spans \<and> (\<forall>x\<in>set spans. in_text s x)"
proof -
  let ?a = "single_surnames u s @ full_names u s @ initials_names u s @ sole_traders u s @ cue_names u s"
  obtain more where "pair_names u P_TWO s ?a = Some (?a @ more)" "\<forall>x\<in>set more. in_text s x"
    using pair_names_returns [of P_TWO u s ?a] by blast
  then show ?thesis using people_in_text [of _ u s] by (auto simp: detect_people_def)
qed

section \<open>Addresses\<close>

lemma min_len_SEP: "min_len SEP = 1"
  by (simp add: SEP_def lit_def str_def)

lemma fullmatch_min: "re_fullmatch u r s \<Longrightarrow> min_len r \<le> length s"
  using ms_min_len [of _ _ u s r 0 "[]"] by (fastforce simp: re_fullmatch_def list_ex_iff)

text \<open>To the right every round moves over a separator, which is never empty.\<close>

lemma extend_right_returns: "e \<le> length s \<Longrightarrow> \<exists>e'. extend_right u s e = Some e' \<and> e \<le> e' \<and> e' \<le> length s"
proof (induction "length s - e" arbitrary: e rule: less_induct)
  case less
  have "extend_right u s e = Some e \<or> (\<exists>m p. match_from u SEP s e = Some m \<and>
      match_from u ADDR_PART s (m_end m) = Some p \<and> extend_right u s e = extend_right u s (m_end p))"
    unfolding extend_right.simps [of u s e] by (cases "match_from u SEP s e") (auto split: option.split)
  then consider (stop) "extend_right u s e = Some e"
    | (go) m p where "match_from u SEP s e = Some m" "match_from u ADDR_PART s (m_end m) = Some p"
        "extend_right u s e = extend_right u s (m_end p)" by blast
  then show ?case
  proof cases
    case stop
    then show ?thesis using less.prems by simp
  next
    case go
    have m: "found_from u SEP s e m" "m_start m = e"
      using match_at_found go(1) less.prems unfolding match_from_def by blast+
    then have em: "e < m_end m" "m_end m \<le> length s" using found_from_bounds(2,4) [OF m(1)] by (simp_all add: min_len_SEP)
    have p: "found_from u ADDR_PART s (m_end m) p"
      using match_at_found go(2) em(2) unfolding match_from_def by blast
    then have ep: "e < m_end p" "m_end p \<le> length s" using found_from_bounds(1,3,4) [OF p] em(1) by simp_all
    then have "length s - m_end p < length s - e" by linarith
    from less(1) [OF this ep(2)] obtain e' where "extend_right u s (m_end p) = Some e'" "m_end p \<le> e'" "e' \<le> length s"
      by blast
    then show ?thesis using go(3) ep(1) by auto
  qed
qed

text \<open>To the left a part is only taken before a separator, hence it begins before the old start.\<close>

lemma left_part_less: "left_part u w = Some p \<Longrightarrow> m_start p < length w"
proof -
  assume "left_part u w = Some p"
  then have "p \<in> set (rev (filter (before_sep u w) (finditer u ADDR_PART w)))"
    unfolding left_part_def by (cases "rev (filter (before_sep u w) (finditer u ADDR_PART w))") auto
  then have p: "p \<in> set (finditer u ADDR_PART w)" "before_sep u w p" by auto
  have "1 \<le> length (drop (m_end p) w)"
    using fullmatch_min [of u SEP "drop (m_end p) w"] p(2) unfolding before_sep_def Let_def min_len_SEP by blast
  moreover have "m_start p \<le> m_end p" using found_from_bounds(3) [OF finditer_found [OF p(1)]] .
  ultimately show ?thesis by simp
qed

lemma extend_left_returns: "a \<le> length s \<Longrightarrow> \<exists>a'. extend_left u s a = Some a' \<and> a' \<le> a"
proof (induction a rule: less_induct)
  case (less a)
  show ?case
  proof (cases "left_part u (slice s (a - 80) a)")
    case None
    then show ?thesis by (simp add: extend_left.simps)
  next
    case (Some p)
    have "m_start p < length (slice s (a - 80) a)" by (rule left_part_less [OF Some])
    then have lt: "a - 80 + m_start p < a" using less.prems by simp
    then obtain a' where "extend_left u s (a - 80 + m_start p) = Some a'" "a' \<le> a - 80 + m_start p"
      using less.IH [OF lt] less.prems by auto
    then show ?thesis using Some lt by (intro exI [of _ a']) (simp add: extend_left.simps [of u s a])
  qed
qed

lemma extend_returns:
  "a \<le> e \<Longrightarrow> e \<le> length s \<Longrightarrow> \<exists>a' e'. extend u s a e = Some (a', e') \<and> a' \<le> a \<and> e \<le> e' \<and> e' \<le> length s"
  using extend_right_returns [of e s u] extend_left_returns [of a s u] by (fastforce simp: extend_def)

lemma address_span_in_text: "a \<le> e \<Longrightarrow> e \<le> length s \<Longrightarrow> in_text s (address_span s (a, e))"
  using length_rstrip_of [of "str '' ,.''" "slice s a e"] by (simp add: address_span_def Let_def in_text_rule)

lemma address_spans_return:
  "\<forall>m\<in>set ml. m_start m \<le> m_end m \<and> m_end m \<le> length s \<Longrightarrow>
    \<exists>spans. address_spans u s ml = Some spans \<and> (\<forall>x\<in>set spans. in_text s x)"
proof (induction ml)
  case (Cons m ml)
  then obtain a e where ae: "extend u s (m_start m) (m_end m) = Some (a, e)" "a \<le> m_start m" "m_end m \<le> e" "e \<le> length s"
    using extend_returns [of "m_start m" "m_end m" s u] by auto
  obtain spans where "address_spans u s ml = Some spans" "\<forall>x\<in>set spans. in_text s x" using Cons by auto
  moreover have "a \<le> e" using ae Cons.prems by fastforce
  ultimately show ?case using ae address_span_in_text [of a e s] by simp
qed simp

lemma detect_addresses_returns: "\<exists>spans. detect_addresses u s = Some spans \<and> (\<forall>x\<in>set spans. in_text s x)"
  unfolding detect_addresses_def
  by (rule address_spans_return) (auto dest!: finditer_found dest: found_from_bounds(3,4))

section \<open>Companies and the rest\<close>

lemma stripped_in_text:
  assumes m: "found_from u r s i m"
  shows "fst (grp_span m g) + (length (grp_text s m g) - length (py_lstrip u (grp_text s m g)))
      + length (py_strip u (grp_text s m g)) \<le> length s"
proof -
  have "length (py_strip u (grp_text s m g)) \<le> length (py_lstrip u (grp_text s m g))"
    unfolding py_strip_def by (rule length_py_rstrip)
  moreover have "length (py_lstrip u (grp_text s m g)) \<le> length (grp_text s m g)"
    by (simp add: py_lstrip_def length_dropWhile_le)
  ultimately show ?thesis using grp_in [OF m, of g] length_grp_text [OF m, of g] by linarith
qed

lemma companies_in_text: "x \<in> set (detect_companies u s) \<Longrightarrow> in_text s x"
proof -
  have q: "x \<in> set (quoted_companies u s r sc) \<Longrightarrow> in_text s x" for r sc
    unfolding quoted_companies_def
    by (erule gather_in_text [rotated]) (auto simp: Let_def in_text_def rule_span_def dest!: stripped_in_text [of u _ s 0 _ "''name''"] split: if_splits)
  have e: "x \<in> set (english_companies u s) \<Longrightarrow> in_text s x"
    unfolding english_companies_def
    by (erule gather_in_text [rotated]) (auto simp: Let_def in_text_rule dest!: grp_in [of u _ s 0 _ "''name''"] split: if_splits)
  have o: "x \<in> set (bare_companies u s @ gather_spans u C_BANK s (\<lambda>m. [rule_span s (grp_span m ''name'') ''ORG'' (85 / 100)])
      @ cued_companies u s) \<Longrightarrow> in_text s x"
    unfolding set_append Un_iff bare_companies_def cued_companies_def
    by (elim disjE gather_in_text [rotated]) (auto simp: Let_def group_in_text split: if_splits)
  show "x \<in> set (detect_companies u s) \<Longrightarrow> in_text s x" using q e o by (auto simp: detect_companies_def)
qed

lemma account_in_text: "x \<in> set (account_spans u s) \<Longrightarrow> in_text s x"
  unfolding account_spans_def
proof (erule gather_in_text [rotated])
  fix m x
  assume m: "found_from u ACCOUNT_CUE s 0 m"
    and x: "x \<in> set (let v = py_strip u (grp_text s m ''value''); a = fst (grp_span m ''value'') in
       if count_digits u v < 6 then [] else [(rule_span s (a, a + length v) ''BANK_ACCOUNT'' (9 / 10))\<lparr>sp_text := v\<rparr>])"
  have "fst (grp_span m ''value'') + length (py_strip u (grp_text s m ''value'')) \<le> length s"
    using stripped_in_text [OF m, of "''value''"] by linarith
  then show "in_text s x" using x by (auto simp: Let_def in_text_def rule_span_def split: if_splits)
qed

lemma misc_in_text: "x \<in> set (detect_misc u s amounts) \<Longrightarrow> in_text s x"
  unfolding detect_misc_def phone_spans_def set_append Un_iff
  by (elim disjE gather_in_text [rotated] gather_all_in_text [rotated] account_in_text)
    (auto simp: Let_def whole_in_text group_in_text elim!: gather_all_in_text [rotated] split: if_splits)

lemma detect_all_in_text: "\<exists>spans. detect_all u s amounts = Some spans \<and> list_all (in_text s) spans"
proof -
  obtain people where "detect_people u s = Some people" "\<forall>x\<in>set people. in_text s x" using detect_people_returns by blast
  moreover obtain addresses where "detect_addresses u s = Some addresses" "\<forall>x\<in>set addresses. in_text s x"
    using detect_addresses_returns by blast
  ultimately show ?thesis using companies_in_text misc_in_text by (auto simp: detect_all_def list_all_iff)
qed

text \<open>What the engine gets: the value \<open>detect_all\<close> returns.\<close>

definition rule_spans :: "ucd \<Rightarrow> pystr \<Rightarrow> bool \<Rightarrow> entity_span list" where
  "rule_spans u s amounts = (case detect_all u s amounts of Some spans \<Rightarrow> spans | None \<Rightarrow> [])"

lemma rule_spans_in_text: "x \<in> set (rule_spans u s amounts) \<Longrightarrow> in_text s x"
  using detect_all_in_text [of u s amounts] by (auto simp: rule_spans_def list_all_iff)

text \<open>C32. The local rules end on every text: none of their three unbounded loops (overlapping pairs of names, the parts
  of an address to the right and to the left) runs for ever, whatever the text and the Unicode tables, and every
  span that comes back lies inside the text.\<close>

theorem detect_all_returns:
  "\<exists>spans. detect_all u s amounts = Some spans \<and> rule_spans u s amounts = spans \<and>
     list_all (\<lambda>x. sp_start x \<le> sp_end x \<and> sp_end x \<le> length s) spans"
  using detect_all_in_text [of u s amounts] by (auto simp: rule_spans_def in_text_def list_all_iff)

end
