(* ===== verification/Desktop_Text.thy ===== *)
theory Desktop_Text
  imports Ner_Ends Json Vault
begin

text \<open>
  The functions of \<open>app/desktop/engine.py\<close> on texts: replacements and how they are applied, what
  counts as the same value, the parts of a person's name, and the digests of a document.
\<close>

section \<open>Replacements\<close>

record replacement =
  rp_start :: nat
  rp_end :: nat
  rp_new :: pystr
  rp_category :: pystr
  rp_n :: nat
  rp_original :: pystr

definition apply_one :: "pystr \<Rightarrow> replacement \<Rightarrow> pystr" where
  "apply_one out r = take (rp_start r) out @ rp_new r @ drop (rp_end r) out"

definition apply_replacements :: "pystr \<Rightarrow> replacement list \<Rightarrow> pystr" where
  "apply_replacements s reps = foldl apply_one s (sort_key (\<lambda>r. - int (rp_start r)) reps)"

section \<open>Digests\<close>

definition digest_units :: "(bytes \<Rightarrow> bytes) \<Rightarrow> pystr list \<Rightarrow> pystr res" where
  "digest_units sha units =
     rbind (rfold (\<lambda>x acc. rbind (utf8_encode x) (\<lambda>b. Inr (acc @ b @ [30]))) units []) (\<lambda>b. Inr (hexdigest (sha b)))"

definition label_item :: "pystr \<times> nat \<Rightarrow> pystr" where
  "label_item = (\<lambda>(cat, n). cat @ str '':'' @ str_nat n @ str ''|'')"

definition label_digest :: "(bytes \<Rightarrow> bytes) \<Rightarrow> (pystr \<times> nat) list \<Rightarrow> pystr res" where
  "label_digest sha sq =
     rbind (rfold (\<lambda>x acc. rbind (utf8_encode (label_item x)) (\<lambda>b. Inr (acc @ b))) sq []) (\<lambda>b. Inr (hexdigest (sha b)))"

section \<open>Patterns\<close>

definition DATE_IN :: re where
  "DATE_IN =
     alts [seqs [between (Is [CDigit]) 4 4, Is (ones (str ''-/.'')), between (Is [CDigit]) 2 2, Is (ones (str ''-/.'')),
      between (Is [CDigit]) 2 2], seqs [between (Is [CDigit]) 2 2, Is (ones (str ''-/.'')), between (Is [CDigit]) 2 2,
      Is (ones (str ''-/.'')), between (Is [CDigit]) 4 4]]"

definition WS :: re where
  "WS =
     plus1 SPC"

definition PUNCT :: re where
  "PUNCT =
     Is (ones ([34, 171, 187, 8220, 8221, 8222, 39, 8217, 700, 96] @ str ''.,;:()'' @ [91, 93]))"

definition PATR_RX :: re where
  "PATR_RX =
     seqs [alts (map (lit_ci \<circ> cyr) [''ovy4'', ''evy4'', ''ivn'', ''7vn'', ''ovn'', ''evn'', ''i4n'', ''y4n'', ''y4'']),
      between (IsCi ([CRange 1072 1103] @ ones (cyr ''i73g''))) 0 3, Eos]"

definition PATR_NOM :: re where
  "PATR_NOM =
     seqs [alts (map (lit_ci \<circ> cyr) [''ovy4'', ''evy4'', ''ivna'', ''7vna'', ''ovna'', ''evna'', ''y4na'', ''y4'']), Eos]"

definition NOT_ID_CHAR :: re where
  "NOT_ID_CHAR =
     Non ([CRange 48 57, CRange 65 90, CRange 97 122, CRange 1040 1071] @ ones (cyr ''I^7^3G'') @ [CRange 1072 1103] @ ones (cyr ''i73g''))"

definition NOT_DIGIT :: re where
  "NOT_DIGIT =
     Is [CNotDigit]"

definition LETTERS :: re where
  "LETTERS =
     plus1 (Non [CNotWord, CDigit, CRange 95 95])"

definition LETTERS_DOT :: re where
  "LETTERS_DOT =
     seqs [plus1 (Non [CNotWord, CDigit, CRange 95 95]), opt (lit (str ''.''))]"

definition INITIAL :: re where
  "INITIAL =
     seqs [Behind False (Non [CNotWord, CDigit, CRange 95 95]), Non [CNotWord, CDigit, CRange 95 95], lit (str ''.'')]"

definition DICT_LEFT :: re where
  "DICT_LEFT =
     Behind False (IsCi ([CWord] @ ones ([39, 8217, 700] @ str ''-'')))"

definition DICT_RIGHT :: re where
  "DICT_RIGHT =
     Ahead False (IsCi ([CWord] @ ones ([39, 8217, 700] @ str ''-'')))"

definition findall :: "ucd \<Rightarrow> re \<Rightarrow> pystr \<Rightarrow> pystr list" where
  "findall u rx s = map (m_group0 s) (finditer u rx s)"

section \<open>The same value\<close>

definition ID_CATEGORIES :: "pystr list" where
  "ID_CATEGORIES = map str [''ACCOUNT'', ''CARD'', ''EDRPOU'', ''IPN'', ''SIN'', ''SSN'', ''EIN'', ''ITIN'', ''BN'', ''VAT'',
     ''UCI'', ''PASSPORT'', ''IP'']"

definition normalize_value :: "ucd \<Rightarrow> pystr \<Rightarrow> pystr \<Rightarrow> pystr" where
  "normalize_value u category val =
     (let v = py_strip u val in
      if category \<in> set ID_CATEGORIES then py_upper u (re_sub u NOT_ID_CHAR (\<lambda>_. []) v)
      else if category = str ''PHONE'' then (let d = re_sub u NOT_DIGIT (\<lambda>_. []) v in drop (length d - 9) d)
      else if category = str ''AMOUNT'' \<or> category = str ''DOB'' then re_sub u NOT_DIGIT (\<lambda>_. []) v
      else if category = str ''EMAIL'' then py_casefold u v
      else if category = str ''PERSON'' then join_with (str '' '') (map (stem u) (findall u LETTERS v))
      else py_strip u (re_sub u WS (\<lambda>_. str '' '') (re_sub u PUNCT (\<lambda>_. str '' '') (py_casefold u v))))"

section \<open>Names of people\<close>

record name_parts =
  np_initials :: "pystr list"
  np_words :: "pystr list"

definition name_token :: "ucd \<Rightarrow> pystr \<Rightarrow> name_parts \<Rightarrow> name_parts" where
  "name_token u t p =
     (let core = rstrip_of (str ''.'') t in
      if length core = 1 then p\<lparr>np_initials := np_initials p @ [py_casefold u core]\<rparr>
      else if endswith t (str ''.'') \<and> length core \<le> 2 then p\<lparr>np_initials := np_initials p @ [py_casefold u (take 1 core)]\<rparr>
      else p\<lparr>np_words := np_words p @ [core]\<rparr>)"

definition is_patronymic :: "ucd \<Rightarrow> pystr \<Rightarrow> bool" where
  "is_patronymic u w \<longleftrightarrow> searches u PATR_RX w"

text \<open>The state of the loop is surname, given name and patronymic; the number is that of the words.\<close>

fun name_loop :: "ucd \<Rightarrow> nat \<Rightarrow> pystr list \<Rightarrow> pystr option \<times> pystr option \<times> pystr option \<Rightarrow>
    pystr option \<times> pystr option \<times> pystr option" where
  "name_loop u n [] st = st"
| "name_loop u n (w # ws) (surname, given, patr) =
     name_loop u n ws
       (if patr = None \<and> is_patronymic u w \<and> 1 < n then (surname, given, Some w)
        else if given = None \<and> is_first_name u w \<and> \<not> (surname = None \<and> n = 1) then (surname, Some w, patr)
        else if surname = None then (Some w, given, patr)
        else if given = None then (surname, Some w, patr)
        else (surname, given, patr))"

definition initial_of :: "ucd \<Rightarrow> pystr option \<Rightarrow> pystr list \<Rightarrow> nat \<Rightarrow> json" where
  "initial_of u name initials i =
     (case name of
        Some w \<Rightarrow> JStr (py_casefold u (take 1 w))
      | None \<Rightarrow> if i < length initials then JStr (initials ! i) else JNull)"

definition stem_of :: "ucd \<Rightarrow> pystr option \<Rightarrow> json" where
  "stem_of u name = (case name of Some w \<Rightarrow> JStr (stem u w) | None \<Rightarrow> JNull)"

definition parse_person :: "ucd \<Rightarrow> pystr \<Rightarrow> dict" where
  "parse_person u surface =
     (let p = fold (name_token u) (findall u LETTERS_DOT surface) \<lparr>np_initials = [], np_words = []\<rparr>;
          n = length (np_words p);
          (surname, given, patr) = name_loop u n (np_words p) (None, None, None);
          (surname, given) = (if surname = None \<and> given \<noteq> None \<and> 2 \<le> n then (given, None) else (surname, given)) in
      [(str ''s'', stem_of u surname), (str ''g'', initial_of u given (np_initials p) 0),
       (str ''p'', initial_of u patr (np_initials p) 1), (str ''gs'', stem_of u given), (str ''w'', JInt (int n))])"

definition nominative_score :: "ucd \<Rightarrow> pystr \<Rightarrow> rat" where
  "nominative_score u surface =
     (let ws = filter (\<lambda>w. 1 < length w) (findall u LETTERS surface);
          word_score = (\<lambda>w.
            if is_first_name u w then (if norm_token u w \<in> set (NOMINATIVE_FIRST u) then 3 else - 2)
            else if is_patronymic u w then (if searches u PATR_NOM w then 2 else - 2) else 0) in
      of_nat (length ws) / 2 + (if finditer u INITIAL surface \<noteq> [] then 1 else 0) + sum_list (map word_score ws))"

text \<open>\<open>_compatible(a, b)\<close>; \<open>b\<close> is read from the file and need not be a dictionary.\<close>

fun agree_on :: "dict \<Rightarrow> json \<Rightarrow> pystr list \<Rightarrow> bool res" where
  "agree_on a b [] = Inr True"
| "agree_on a b (k # ks) =
     (if truthy (dget a k)
      then rbind (py_get b k) (\<lambda>y. if truthy y \<and> dget a k \<noteq> y then Inr False else agree_on a b ks)
      else agree_on a b ks)"

definition compatible :: "dict \<Rightarrow> json \<Rightarrow> bool res" where
  "compatible a b =
     (if \<not> truthy (dget a (str ''s'')) then Inr False
      else rbind (py_get b (str ''s'')) (\<lambda>y.
        if dget a (str ''s'') \<noteq> y then Inr False else agree_on a b [str ''g'', str ''p'', str ''gs'']))"

end
