(* ===== verification/Desktop_Engine.thy ===== *)
theory Desktop_Engine
  imports Desktop_Text Label_Vault Label_Match Packs Merge
begin

text \<open>
  \<open>app/desktop/engine.py\<close>: the detector of the desktop application with its dictionary of the values
  already labelled in a project, and the anonymizer that turns the spans of a text into labels and
  labels back into values. An \<open>eng\<close> is an \<open>Anonymizer\<close>: the vault it holds, the dictionary cache of
  its detector and the pack cache of the module it calls.
\<close>

section \<open>State\<close>

record eng_env =
  ev_lv :: lv_env
  ev_packs :: pack_env
  ev_files :: pack_files
  ev_sha :: "bytes \<Rightarrow> bytes"      \<comment> \<open>the SHA-256 digest\<close>

type_synonym word_index = "re option \<times> (pystr \<times> nat) list"

record eng =
  eg_vault :: lv
  eg_dict :: "(pystr \<times> nat \<times> word_index) list"
  eg_packs :: pack_cache

type_synonym 'a egm = "eng \<Rightarrow> 'a res \<times> eng"

definition eret :: "'a \<Rightarrow> 'a egm" where "eret x s = (Inr x, s)"

definition ebind :: "'a egm \<Rightarrow> ('a \<Rightarrow> 'b egm) \<Rightarrow> 'b egm" where
  "ebind m f s = (case m s of (Inl e, s') \<Rightarrow> (Inl e, s') | (Inr x, s') \<Rightarrow> f x s')"

definition elift :: "'a res \<Rightarrow> 'a egm" where "elift r s = (r, s)"

definition on_vault :: "'a lvm \<Rightarrow> 'a egm" where
  "on_vault m s = (case m (eg_vault s) of (r, v) \<Rightarrow> (r, s\<lparr>eg_vault := v\<rparr>))"

definition eg_ucd :: "eng_env \<Rightarrow> ucd" where "eg_ucd env = pe_ucd (ev_packs env)"

section \<open>Options\<close>

definition PACKS :: "pystr list" where
  "PACKS = map str [''GENERIC'', ''UA'', ''CA'', ''US'', ''EU'', ''IRCC'']"

record eng_options =
  op_categories :: "pystr list"
  op_packs :: "pystr list"

definition default_options :: eng_options where
  "default_options = \<lparr>op_categories = filter (\<lambda>c. c \<notin> set DEFAULT_OFF) ALL_CATEGORIES, op_packs = PACKS\<rparr>"

fun str_items :: "json list \<Rightarrow> pystr list res" where
  "str_items [] = Inr []"
| "str_items (JStr s # xs) = rbind (str_items xs) (\<lambda>ys. Inr (s # ys))"
| "str_items (_ # xs) = Inl TypeError"

text \<open>\<open>Options.from_dict\<close> of the options of a project or of a request; lists of strings are meant, a
  list with anything else is refused here.\<close>

definition options_from_dict :: "dict \<Rightarrow> eng_options res" where
  "options_from_dict d =
     rbind (if dget d (str ''categories'') = JNull then Inr (op_categories default_options)
            else rbind (py_iter (dget d (str ''categories''))) str_items) (\<lambda>cats.
     rbind (if \<not> truthy (dget d (str ''packs'')) then Inr (op_packs default_options)
            else rbind (py_iter (dget d (str ''packs''))) str_items) (\<lambda>pks.
       Inr \<lparr>op_categories = cats, op_packs = pks\<rparr>))"

section \<open>The dictionary of a project\<close>

definition invalidate :: "pystr \<Rightarrow> unit egm" where
  "invalidate pid s = (Inr (), s\<lparr>eg_dict := AList.delete pid (eg_dict s)\<rparr>)"

definition surface_ok :: "ucd \<Rightarrow> pystr \<Rightarrow> bool" where
  "surface_ok u s \<longleftrightarrow> 3 \<le> length s \<and> \<not> py_isdigit u s \<or> py_isdigit u s \<and> 6 \<le> length s"

definition add_surface :: "ucd \<Rightarrow> nat \<times> pystr \<Rightarrow> (pystr \<times> nat) list \<Rightarrow> (pystr \<times> nat) list" where
  "add_surface u = (\<lambda>(a, w) d.
     let s = py_strip u w in
     if surface_ok u s \<and> map_of d (py_casefold u s) = None then d @ [(py_casefold u s, a)] else d)"

definition surfaces_of :: "ucd \<Rightarrow> (nat \<times> entity) list \<Rightarrow> (pystr \<times> nat) list" where
  "surfaces_of u es =
     fold (add_surface u) (concat (map (\<lambda>(a, e). map (Pair a) (en_value e # map snd (en_variants e))) es)) []"

text \<open>The longest surface first; \<open>re.escape\<close> makes each a literal, under \<open>IGNORECASE\<close>.\<close>

definition dict_re :: "pystr list \<Rightarrow> re" where
  "dict_re keys = seqs [DICT_LEFT, alts (map lit_ci (sort_key (\<lambda>k. - int (length k)) keys)), DICT_RIGHT]"

definition dictionary :: "eng_env \<Rightarrow> pystr \<Rightarrow> word_index egm" where
  "dictionary env pid =
     ebind (on_vault (entities (ev_lv env) pid)) (\<lambda>as s.
       let es = map (\<lambda>a. (a, deref (eg_vault s) a)) as;
           version = sum_list (map (\<lambda>(a, e). 1 + length (en_variants e)) es) * 7 + length es;
           surfaces = surfaces_of (eg_ucd env) es;
           d = (if surfaces = [] then None else Some (dict_re (map fst surfaces)), surfaces) in
       case map_of (eg_dict s) pid of
         Some (v, d0) \<Rightarrow> if v = version then (Inr d0, s) else (Inr d, s\<lparr>eg_dict := AList.update pid (version, d) (eg_dict s)\<rparr>)
       | None \<Rightarrow> (Inr d, s\<lparr>eg_dict := AList.update pid (version, d) (eg_dict s)\<rparr>))"

definition dict_spans :: "ucd \<Rightarrow> lv \<Rightarrow> word_index \<Rightarrow> pystr \<Rightarrow> entity_span list" where
  "dict_spans u v d s =
     (case fst d of None \<Rightarrow> []
      | Some rx \<Rightarrow> concat (map (\<lambda>m. case map_of (snd d) (py_casefold u (m_group0 s m)) of
            None \<Rightarrow> []
          | Some a \<Rightarrow> [\<lparr>sp_start = m_start m, sp_end = m_end m, sp_type = en_cat (deref v a), sp_text = m_group0 s m,
                       sp_score = 99 / 100, sp_source = str ''manual'', sp_jurisdiction = None\<rparr>]) (finditer u rx s)))"

section \<open>Detection\<close>

definition forced_span :: "nat \<Rightarrow> nat \<Rightarrow> pystr \<Rightarrow> pystr \<Rightarrow> entity_span" where
  "forced_span a b cat t = \<lparr>sp_start = a, sp_end = b, sp_type = cat, sp_text = t, sp_score = 995 / 1000,
     sp_source = str ''manual'', sp_jurisdiction = None\<rparr>"

text \<open>The category a forced column stands for; \<open>Inr\<close> are spans that are returned at once.\<close>

definition forced_category :: "ucd \<Rightarrow> pystr \<Rightarrow> pystr \<Rightarrow> nat \<Rightarrow> pystr + entity_span list" where
  "forced_category u force v s =
     (if force = str ''PARTY'' then
        (let cat = classify_party u v in
         if cat = str ''ORG'' then
           (let sub = detect_companies u v in
            if sub = [] then Inl cat
            else Inr (map (\<lambda>x. forced_span (s + sp_start x) (s + sp_end x) (str ''ORG'') (sp_text x)) sub))
         else (case re_search u SOLE_TRADER v of
            None \<Rightarrow> Inl cat
          | Some m \<Rightarrow> Inr [forced_span (s + fst (grp_span m ''v'')) (s + snd (grp_span m ''v'')) (str ''PERSON'') (grp_text v m ''v'')]))
      else if force = str ''TAXCODE'' then
        (let n = length (re_sub u NOT_DIGIT (\<lambda>_. []) v) in
         if n = 8 then Inl (str ''EDRPOU'') else if n = 10 then Inl (str ''IPN'') else if n = 9 then Inl (str ''SIN'') else Inr [])
      else if force \<in> set (map str [''ACCOUNT'', ''PHONE'', ''AMOUNT'', ''DOB'', ''PASSPORT'', ''SIN'', ''SSN'']) then
        (if count_digits u v < (if force \<in> set (map str [''ACCOUNT'', ''PASSPORT'', ''SIN'', ''SSN'']) then 6 else 1)
         then Inr [] else Inl force)
      else Inl force)"

definition forced :: "ucd \<Rightarrow> eng_options \<Rightarrow> pystr \<Rightarrow> pystr \<Rightarrow> entity_span list" where
  "forced u options t force =
     (let v = py_strip u t in
      if v = [] \<or> is_label u v then []
      else (let s = (case str_find t v 0 of Some k \<Rightarrow> k | None \<Rightarrow> 0) in
        case forced_category u force v s of
          Inr spans \<Rightarrow> spans
        | Inl cat \<Rightarrow> if category_for u cat \<notin> set (op_categories options) then [] else [forced_span s (s + length v) cat v]))"

fun packs_detect :: "ucd \<Rightarrow> pack list \<Rightarrow> pystr \<Rightarrow> entity_span list res" where
  "packs_detect u [] s = Inr []"
| "packs_detect u (pk # pks) s = rbind (pack_detect u pk s) (\<lambda>a. rbind (packs_detect u pks s) (\<lambda>b. Inr (a @ b)))"

definition narrow_dob :: "ucd \<Rightarrow> entity_span \<Rightarrow> entity_span option" where
  "narrow_dob u x =
     (case re_search u DATE_IN (sp_text x) of
        None \<Rightarrow> None
      | Some m \<Rightarrow> Some (x\<lparr>sp_start := sp_start x + m_start m, sp_end := sp_start x + m_end m,
                         sp_text := m_group0 (sp_text x) m, sp_jurisdiction := None\<rparr>))"

definition trim_span :: "ucd \<Rightarrow> pystr \<Rightarrow> pystr \<Rightarrow> entity_span \<Rightarrow> entity_span option" where
  "trim_span u s cat x =
     (let t = slice s (sp_start x) (sp_end x);
          ns = sp_start x + (length t - length (py_lstrip u t));
          ne = sp_start x + length (rstrip_of [32, 9, 13, 10, 44, 59, 58] t) in
      if ne \<le> ns then None
      else Some (x\<lparr>sp_start := ns, sp_end := ne, sp_type := cat, sp_text := slice s ns ne\<rparr>))"

definition keep_span :: "ucd \<Rightarrow> eng_options \<Rightarrow> pystr \<Rightarrow> label_hit list \<Rightarrow> entity_span \<Rightarrow> entity_span option" where
  "keep_span u options s hits x =
     (let cat = category_for u (sp_type x) in
      if cat \<notin> set (op_categories options) then None
      else if cat = str ''VAT'' \<and> count_digits u (sp_text x) < 6 then None
      else Option.bind (if cat = str ''DOB'' then narrow_dob u x else Some x) (\<lambda>y.
        if list_ex (\<lambda>h. lh_start h < sp_end y \<and> sp_start y < lh_end h) hits then None
        else trim_span u s cat y))"

definition detect_spans :: "eng_env \<Rightarrow> pystr option \<Rightarrow> eng_options \<Rightarrow> pystr option \<Rightarrow> pystr \<Rightarrow> entity_span list egm" where
  "detect_spans env pid options force t =
     (let u = eg_ucd env in
      if py_strip u t = [] then eret []
      else ebind (\<lambda>s. case load_packs (ev_packs env) (ev_files env) (op_packs options) (eg_packs s) of
             Inl e \<Rightarrow> (Inl e, s) | Inr (pks, cache) \<Rightarrow> (Inr pks, s\<lparr>eg_packs := cache\<rparr>)) (\<lambda>pks.
        ebind (elift (packs_detect u pks t)) (\<lambda>from_packs.
        ebind (case pid of None \<Rightarrow> eret []
               | Some p \<Rightarrow> ebind (dictionary env p) (\<lambda>d s. (Inr (dict_spans u (eg_vault s) d t), s))) (\<lambda>from_dict.
          let spans = (case force of None \<Rightarrow> [] | Some f \<Rightarrow> if f = [] then [] else forced u options t f)
                @ from_packs @ rule_spans u t (str ''AMOUNT'' \<in> set (op_categories options)) @ from_dict in
          eret (merge_spans (List.map_filter (keep_span u options t (find_labels u t)) spans))))))"

end
