(* ===== verification/Desktop_Anonymizer.thy ===== *)
theory Desktop_Anonymizer
  imports Desktop_Engine
begin

text \<open>
  The class \<open>Anonymizer\<close> of \<open>app/desktop/engine.py\<close>: which entity a surface belongs to, the rewriting of a
  text unit into labels, and the way back, exact for a document that returns unchanged.
\<close>

section \<open>The entity of a surface\<close>

definition fp_of :: "eng_env \<Rightarrow> pystr \<Rightarrow> pystr \<Rightarrow> pystr \<Rightarrow> pystr egm" where
  "fp_of env pid category nv s = (label_fingerprint (ev_lv env) pid category nv (eg_vault s), s)"

definition object_at :: "nat \<Rightarrow> entity egm" where
  "object_at a s = (Inr (deref (eg_vault s) a), s)"

definition surface_norm :: "pystr \<Rightarrow> pystr" where
  "surface_norm surface = str ''surface:'' @ surface"

fun keep_compatible :: "lv \<Rightarrow> dict \<Rightarrow> nat list \<Rightarrow> nat list res" where
  "keep_compatible v meta [] = Inr []"
| "keep_compatible v meta (a # as) =
     rbind (if en_cat (deref v a) = str ''PERSON'' then compatible meta (en_meta (deref v a)) else Inr False) (\<lambda>ok.
     rbind (keep_compatible v meta as) (\<lambda>rest. Inr (if ok then a # rest else rest)))"

definition candidates :: "eng_env \<Rightarrow> pystr \<Rightarrow> dict \<Rightarrow> nat list egm" where
  "candidates env pid meta =
     (if truthy (dget meta (str ''s''))
      then ebind (on_vault (entities (ev_lv env) pid)) (\<lambda>as s. (keep_compatible (eg_vault s) meta as, s))
      else eret [])"

text \<open>The keys of both dictionaries; the code iterates over a set, the order of the keys is not its own.\<close>

definition merge_meta :: "dict \<Rightarrow> dict \<Rightarrow> dict" where
  "merge_meta meta old =
     AList.update (str ''w'') (dget meta (str ''w''))
       (map (\<lambda>k. (k, if truthy (dget meta k) then dget meta k else dget old k)) (remdups (map fst meta @ map fst old)))"

definition set_better :: "eng_env \<Rightarrow> pystr \<Rightarrow> pystr \<Rightarrow> pystr \<Rightarrow> dict \<Rightarrow> nat \<Rightarrow> unit egm" where
  "set_better env pid category surface meta a =
     ebind (object_at a) (\<lambda>e.
       if nominative_score (eg_ucd env) (en_value e) < nominative_score (eg_ucd env) surface then
         (case en_meta e of
            JDict old \<Rightarrow>
              ebind (on_vault (set_canonical (ev_lv env) a surface (Some (JDict (merge_meta meta old))))) (\<lambda>_.
              ebind (fp_of env pid category (surface_norm (en_value e))) (\<lambda>ofp.
                on_vault (add_variant (ev_lv env) a ofp (en_value e))))
          | _ \<Rightarrow> elift (Inl AttributeError))
       else eret ())"

definition link_person :: "eng_env \<Rightarrow> pystr \<Rightarrow> pystr \<Rightarrow> pystr \<Rightarrow> pystr \<Rightarrow> dict \<Rightarrow> nat \<Rightarrow> nat egm" where
  "link_person env pid category surface fp meta a =
     ebind (on_vault (add_variant (ev_lv env) a fp surface)) (\<lambda>_.
     ebind (set_better env pid category surface meta a) (\<lambda>_.
     ebind (invalidate pid) (\<lambda>_. eret a)))"

definition new_entity :: "eng_env \<Rightarrow> pystr \<Rightarrow> pystr \<Rightarrow> pystr \<Rightarrow> pystr \<Rightarrow> dict \<Rightarrow> pystr \<Rightarrow> nat egm" where
  "new_entity env pid category surface fp meta origin =
     ebind (on_vault (add_entity (ev_lv env) pid category surface fp meta origin False)) (\<lambda>a.
     ebind (invalidate pid) (\<lambda>_. eret a))"

definition known_surface :: "eng_env \<Rightarrow> pystr \<Rightarrow> pystr \<Rightarrow> pystr \<Rightarrow> nat \<Rightarrow> nat egm" where
  "known_surface env pid category surface a =
     ebind (object_at a) (\<lambda>e.
       if surface \<in> set (en_value e # map snd (en_variants e)) then eret a
       else ebind (fp_of env pid category (surface_norm surface)) (\<lambda>sfp.
            ebind (on_vault (add_variant (ev_lv env) a sfp surface)) (\<lambda>_. eret a)))"

definition resolve_entity :: "eng_env \<Rightarrow> pystr \<Rightarrow> pystr \<Rightarrow> pystr \<Rightarrow> pystr \<Rightarrow> nat egm" where
  "resolve_entity env pid category surface origin =
     ebind (fp_of env pid category (normalize_value (eg_ucd env) category surface)) (\<lambda>fp.
     ebind (on_vault (by_fingerprint (ev_lv env) pid fp)) (\<lambda>hit.
       case hit of
         Some a \<Rightarrow> known_surface env pid category surface a
       | None \<Rightarrow>
           if category = str ''PERSON'' then
             (let meta = parse_person (eg_ucd env) surface in
              ebind (candidates env pid meta) (\<lambda>cands.
                case cands of
                  [a] \<Rightarrow> link_person env pid category surface fp meta a
                | _ \<Rightarrow> new_entity env pid category surface fp meta origin))
           else new_entity env pid category surface fp [] origin))"

definition add_manual :: "eng_env \<Rightarrow> pystr \<Rightarrow> pystr \<Rightarrow> pystr \<Rightarrow> bool \<Rightarrow> nat egm" where
  "add_manual env pid category val excluded =
     ebind (resolve_entity env pid category (py_strip (eg_ucd env) val) (str ''manual'')) (\<lambda>a.
     ebind (object_at a) (\<lambda>e.
     ebind (if excluded \<noteq> en_excluded e then on_vault (set_excluded a excluded) else eret ()) (\<lambda>_.
     ebind (invalidate pid) (\<lambda>_. eret a))))"

section \<open>Texts into labels\<close>

record run_state =
  rs_occurrences :: "(pystr \<times> nat \<times> pystr) list"
  rs_counts :: "((pystr \<times> pystr \<times> nat) \<times> int) list"
  rs_units_out :: "pystr list"
  rs_unknown :: "pystr list"

definition new_run :: run_state where
  "new_run = \<lparr>rs_occurrences = [], rs_counts = [], rs_units_out = [], rs_unknown = []\<rparr>"

definition run_digest :: "eng_env \<Rightarrow> run_state \<Rightarrow> pystr res" where
  "run_digest env st = digest_units (ev_sha env) (rs_units_out st)"

fun resolve_all :: "eng_env \<Rightarrow> pystr \<Rightarrow> pystr \<Rightarrow> entity_span list \<Rightarrow> unit egm" where
  "resolve_all env pid t [] = eret ()"
| "resolve_all env pid t (x # xs) =
     ebind (resolve_entity env pid (sp_type x) (slice t (sp_start x) (sp_end x)) (str ''auto'')) (\<lambda>_. resolve_all env pid t xs)"

definition prescan_unit :: "eng_env \<Rightarrow> pystr \<Rightarrow> pystr \<Rightarrow> eng_options \<Rightarrow> pystr option \<Rightarrow> nat egm" where
  "prescan_unit env pid t options force =
     ebind (detect_spans env (Some pid) options force t) (\<lambda>spans.
     ebind (resolve_all env pid t spans) (\<lambda>_. eret (length spans)))"

definition replacement_of :: "ucd \<Rightarrow> pystr \<Rightarrow> pystr \<Rightarrow> entity_span \<Rightarrow> entity \<Rightarrow> replacement" where
  "replacement_of u lng t x e =
     \<lparr>rp_start = sp_start x, rp_end = sp_end x, rp_new = render_label u (en_cat e) (en_n e) lng,
      rp_category = en_cat e, rp_n = en_n e, rp_original = slice t (sp_start x) (sp_end x)\<rparr>"

fun label_spans :: "eng_env \<Rightarrow> pystr \<Rightarrow> pystr \<Rightarrow> pystr \<Rightarrow> entity_span list \<Rightarrow> replacement list egm" where
  "label_spans env pid lng t [] = eret []"
| "label_spans env pid lng t (x # xs) =
     ebind (resolve_entity env pid (sp_type x) (slice t (sp_start x) (sp_end x)) (str ''auto'')) (\<lambda>a.
     ebind (object_at a) (\<lambda>e.
     ebind (label_spans env pid lng t xs) (\<lambda>rest.
       eret (if en_excluded e then rest else replacement_of (eg_ucd env) lng t x e # rest))))"

definition note_replacement :: "pystr \<Rightarrow> replacement \<Rightarrow> run_state \<Rightarrow> run_state" where
  "note_replacement pid r st =
     st\<lparr>rs_occurrences := rs_occurrences st @ [(rp_category r, rp_n r, rp_original r)],
        rs_counts := bump_count (pid, rp_category r, rp_n r) 1 (rs_counts st)\<rparr>"

definition anonymize_unit ::
  "eng_env \<Rightarrow> pystr \<Rightarrow> pystr \<Rightarrow> run_state \<Rightarrow> pystr \<Rightarrow> eng_options \<Rightarrow> pystr option \<Rightarrow> (replacement list \<times> run_state) egm" where
  "anonymize_unit env pid t st lng options force =
     ebind (detect_spans env (Some pid) options force t) (\<lambda>spans.
     ebind (label_spans env pid lng t spans) (\<lambda>reps0.
       let reps = sort_key rp_start reps0; st1 = fold (note_replacement pid) reps st in
       eret (reps, st1\<lparr>rs_units_out := rs_units_out st1 @ [apply_replacements t reps]\<rparr>)))"

definition finish_anon :: "run_state \<Rightarrow> unit egm" where
  "finish_anon st s = (Inr (), s\<lparr>eg_vault := bump (rs_counts st) (eg_vault s)\<rparr>)"

definition occurrences_json :: "(pystr \<times> nat \<times> pystr) list \<Rightarrow> json" where
  "occurrences_json occ = JList (map (\<lambda>(c, n, x). JList [JStr c, JInt (int n), JStr x]) occ)"

definition label_seq :: "(pystr \<times> nat \<times> pystr) list \<Rightarrow> (pystr \<times> nat) list" where
  "label_seq occ = map (\<lambda>(c, n, x). (c, n)) occ"

definition run_stats :: "(pystr \<times> nat \<times> pystr) list \<Rightarrow> json" where
  "run_stats occ =
     JDict [(str ''counts'', JDict (map (\<lambda>(c, k). (c, JInt k)) (count_by fst occ []))),
            (str ''labels'', JInt (int (length (remdups (label_seq occ)))))]"

definition anonymize_text ::
  "eng_env \<Rightarrow> pystr \<Rightarrow> pystr \<Rightarrow> pystr \<Rightarrow> eng_options \<Rightarrow> pystr option \<Rightarrow> (pystr \<times> run_state \<times> replacement list) egm" where
  "anonymize_text env pid t lng options record_as =
     ebind (anonymize_unit env pid t new_run lng options None) (\<lambda>(reps, st).
     ebind (finish_anon st) (\<lambda>_.
     ebind (case record_as of
              None \<Rightarrow> eret ()
            | Some name \<Rightarrow> if name = [] then eret ()
                else ebind (elift (label_digest (ev_sha env) (label_seq (rs_occurrences st)))) (\<lambda>digest.
                     ebind (on_vault (record_document (ev_lv env) pid name (str ''text'') (str ''anon'') (Some digest)
                              (Some (occurrences_json (rs_occurrences st))) (run_stats (rs_occurrences st)))) (\<lambda>_. eret ()))) (\<lambda>_.
       eret (apply_replacements t reps, st, reps))))"

section \<open>Labels into values\<close>

text \<open>The recorded list, read back. It is authenticated text that \<open>record_document\<close> wrote, so only its
  own shape is read; anything else is refused.\<close>

fun exact_items :: "json list \<Rightarrow> (pystr \<times> nat \<times> pystr) list res" where
  "exact_items [] = Inr []"
| "exact_items (JList [JStr c, JInt n, JStr x] # js) =
     (if n < 0 then Inl ValueError else rbind (exact_items js) (\<lambda>rest. Inr ((c, nat n, x) # rest)))"
| "exact_items (_ # js) = Inl ValueError"

fun exact_list :: "json \<Rightarrow> (pystr \<times> nat \<times> pystr) list res" where
  "exact_list (JList js) = exact_items js"
| "exact_list _ = Inl TypeError"

definition labels_in :: "ucd \<Rightarrow> pystr list \<Rightarrow> (pystr \<times> nat) list" where
  "labels_in u ts = concat (map (\<lambda>t. map (\<lambda>h. (lh_category h, lh_number h)) (find_labels u t)) ts)"

definition exact_map :: "eng_env \<Rightarrow> pystr \<Rightarrow> pystr list \<Rightarrow> (pystr \<times> nat \<times> pystr) list option egm" where
  "exact_map env pid ts =
     (let sq = labels_in (eg_ucd env) ts in
      if sq = [] then eret None
      else ebind (elift (label_digest (ev_sha env) sq)) (\<lambda>digest.
           ebind (on_vault (restore_map (ev_lv env) pid digest)) (\<lambda>known.
             case known of
               None \<Rightarrow> eret None
             | Some j \<Rightarrow> ebind (elift (exact_list j)) (\<lambda>exact. eret (if label_seq exact \<noteq> sq then None else Some exact)))))"

definition exact_value :: "(pystr \<times> nat \<times> pystr) list option \<Rightarrow> nat \<Rightarrow> label_hit \<Rightarrow> pystr \<Rightarrow> pystr \<times> nat" where
  "exact_value exact cursor h val =
     (case exact of
        None \<Rightarrow> (val, cursor)
      | Some items \<Rightarrow>
          if cursor < length items then
            (case items ! cursor of (c, n, x) \<Rightarrow> (if c = lh_category h \<and> n = lh_number h then x else val, Suc cursor))
          else (val, cursor))"

fun restore_hits ::
  "eng_env \<Rightarrow> pystr \<Rightarrow> (pystr \<times> nat \<times> pystr) list option \<Rightarrow> label_hit list \<Rightarrow> run_state \<Rightarrow> nat \<Rightarrow> (replacement list \<times> run_state \<times> nat) egm" where
  "restore_hits env pid exact [] st cursor = eret ([], st, cursor)"
| "restore_hits env pid exact (h # hs) st cursor =
     ebind (on_vault (entity_at (ev_lv env) pid (lh_category h) (lh_number h))) (\<lambda>known.
       case known of
         None \<Rightarrow> restore_hits env pid exact hs (st\<lparr>rs_unknown := rs_unknown st @ [lh_text h]\<rparr>) cursor
       | Some a \<Rightarrow>
           ebind (object_at a) (\<lambda>e.
             let (val, cursor') = exact_value exact cursor h (en_value e) in
             ebind (restore_hits env pid exact hs
                      (st\<lparr>rs_counts := bump_count (pid, lh_category h, lh_number h) 1 (rs_counts st)\<rparr>) cursor')
               (\<lambda>(reps, st', cursor''). eret
                  (\<lparr>rp_start = lh_start h, rp_end = lh_end h, rp_new = val, rp_category = lh_category h,
                    rp_n = lh_number h, rp_original = lh_text h\<rparr> # reps, st', cursor''))))"

definition restore_unit ::
  "eng_env \<Rightarrow> pystr \<Rightarrow> pystr \<Rightarrow> run_state \<Rightarrow> (pystr \<times> nat \<times> pystr) list option \<Rightarrow> nat \<Rightarrow> (replacement list \<times> run_state \<times> nat) egm" where
  "restore_unit env pid t st exact cursor =
     restore_hits env pid exact (find_labels (eg_ucd env) t) (st\<lparr>rs_units_out := rs_units_out st @ [t]\<rparr>) cursor"

definition restore_text :: "eng_env \<Rightarrow> pystr \<Rightarrow> pystr \<Rightarrow> (pystr \<times> run_state \<times> replacement list) egm" where
  "restore_text env pid t =
     ebind (exact_map env pid [t]) (\<lambda>exact.
     ebind (restore_unit env pid t new_run exact 0) (\<lambda>(reps, st, _). eret (apply_replacements t reps, st, reps)))"

end
