(* ===== verification/Desktop_Labels.thy ===== *)
theory Desktop_Labels
  imports Desktop_Anonymizer
begin

text \<open>
  Replacing spans of a text by labels and the labels by the spans' texts: the replacements of an
  ordered list take effect left to right, the labels of the result are the inserted ones when they are
  delimited, and putting the originals back gives the text.
\<close>

section \<open>Replacements in order\<close>

definition in_order :: "pystr \<Rightarrow> replacement list \<Rightarrow> bool" where
  "in_order t reps \<longleftrightarrow> sorted_wrt (\<lambda>r r'. rp_end r \<le> rp_start r') reps \<and> (\<forall>r\<in>set reps. rp_start r < rp_end r \<and> rp_end r \<le> length t)"

fun put :: "pystr \<Rightarrow> nat \<Rightarrow> replacement list \<Rightarrow> pystr" where
  "put t pos [] = drop pos t"
| "put t pos (r # rs) = slice t pos (rp_start r) @ rp_new r @ put t (rp_end r) rs"

lemma in_order_Cons:
  "in_order t (r # rs) \<longleftrightarrow> rp_start r < rp_end r \<and> rp_end r \<le> length t \<and> (\<forall>x\<in>set rs. rp_end r \<le> rp_start x) \<and> in_order t rs"
  by (auto simp: in_order_def)

lemma take_slice: "p \<le> q \<Longrightarrow> take q s = take p s @ slice s p q"
  by (simp add: slice_def take_add [symmetric])

lemma apply_put_from:
  "in_order t rs \<Longrightarrow> \<forall>x\<in>set rs. p \<le> rp_start x \<Longrightarrow> p \<le> length t \<Longrightarrow> foldl apply_one t (rev rs) = take p t @ put t p rs"
proof (induction rs arbitrary: p)
  case (Cons r rs)
  have r: "rp_start r < rp_end r" "rp_end r \<le> length t" "p \<le> rp_start r" using Cons.prems by (simp_all add: in_order_Cons)
  have "foldl apply_one t (rev (r # rs)) = apply_one (take (rp_end r) t @ put t (rp_end r) rs) r"
    using Cons.IH [of "rp_end r"] Cons.prems(1) r by (simp add: in_order_Cons)
  also have "\<dots> = take (rp_start r) t @ rp_new r @ put t (rp_end r) rs"
    using r by (simp add: apply_one_def)
  also have "take (rp_start r) t = take p t @ slice t p (rp_start r)" by (rule take_slice [OF r(3)])
  finally show ?case by simp
qed simp

lemma in_order_sort:
  assumes "in_order t reps"
  shows "sort_key (\<lambda>r. - int (rp_start r)) reps = rev reps" "sort_key rp_start reps = reps"
proof -
  have less: "sorted_wrt (\<lambda>r r'. rp_start r < rp_start r') reps"
    using assms by (induction reps) (fastforce simp: in_order_Cons in_order_def)+
  then have srt: "sorted_wrt (\<lambda>r r'. rp_start r \<le> rp_start r') reps"
    by (rule sorted_wrt_mono_rel [rotated]) simp
  then show "sort_key rp_start reps = reps" by (intro sort_key_id) (simp add: sorted_map)
  have d: "distinct (map rp_start reps)" using less by (simp add: sorted_wrt_map [symmetric] strict_sorted_iff)
  show "sort_key (\<lambda>r. - int (rp_start r)) reps = rev reps"
  proof (rule properties_for_sort_key)
    show "mset (rev reps) = mset reps" by simp
    show "sorted (map (\<lambda>r. - int (rp_start r)) (rev reps))"
      using srt by (simp add: sorted_map sorted_wrt_rev)
    fix k
    assume "k \<in> set (rev reps)"
    have "filter (\<lambda>x. - int (rp_start k) = - int (rp_start x)) xs = (if rp_start k \<in> rp_start ` set xs then [the_elem {x \<in> set xs. rp_start x = rp_start k}] else [])"
      if "distinct (map rp_start xs)" for xs
      using that
    proof (induction xs)
      case (Cons x xs)
      show ?case
      proof (cases "rp_start x = rp_start k")
        case True
        then have "{y \<in> set (x # xs). rp_start y = rp_start k} = {x}" using Cons.prems by (auto simp: image_iff)
        moreover have "rp_start k \<notin> rp_start ` set xs" using True Cons.prems by auto
        ultimately show ?thesis using True Cons by (simp del: Collect_disj_eq)
      next
        case False
        then have "{y \<in> set (x # xs). rp_start y = rp_start k} = {y \<in> set xs. rp_start y = rp_start k}" by auto
        then show ?thesis using False Cons by auto
      qed
    qed simp
    note one = this
    show "filter (\<lambda>x. - int (rp_start k) = - int (rp_start x)) (rev reps) = filter (\<lambda>x. - int (rp_start k) = - int (rp_start x)) reps"
      using one [OF d] one [of "rev reps"] d by (simp add: rev_map [symmetric])
  qed
qed

lemma apply_put: "in_order t reps \<Longrightarrow> apply_replacements t reps = put t 0 reps"
  using apply_put_from [of t reps 0] by (simp add: apply_replacements_def in_order_sort)

section \<open>The labels of the result\<close>

text \<open>Before a label the text has to end, or begin, with a character that ends a label; nothing else
  may stand between two labels but at least one such character.\<close>

fun delimited :: "ucd \<Rightarrow> pystr \<Rightarrow> nat \<Rightarrow> replacement list \<Rightarrow> bool" where
  "delimited u t pos [] = True"
| "delimited u t pos (r # rs) =
     ((pos = 0 \<and> rp_start r = 0 \<or> cut_left u (slice t pos (rp_start r))) \<and> cut_right u (drop (rp_end r) t)
      \<and> delimited u t (rp_end r) rs)"

text \<open>Where the labels of \<open>put\<close> are.\<close>

fun label_places :: "nat \<Rightarrow> nat \<Rightarrow> replacement list \<Rightarrow> label_hit list" where
  "label_places off pos [] = []"
| "label_places off pos (r # rs) =
     (let s = off + (rp_start r - pos) in
      \<lparr>lh_start = s, lh_end = s + length (rp_new r), lh_category = rp_category r, lh_number = rp_n r, lh_text = rp_new r\<rparr>
      # label_places (s + length (rp_new r)) (rp_end r) rs)"

definition reads_as_label :: "ucd \<Rightarrow> replacement \<Rightarrow> bool" where
  "reads_as_label u r \<longleftrightarrow> find_labels u (rp_new r) =
     [\<lparr>lh_start = 0, lh_end = length (rp_new r), lh_category = rp_category r, lh_number = rp_n r, lh_text = rp_new r\<rparr>]"

lemma shift_places: "map (sh_hit d) (label_places off pos rs) = label_places (off + d) pos rs"
  by (induction rs arbitrary: off pos) (simp_all add: Let_def sh_hit_def ac_simps)

lemma put_hd: "cut_right u (drop pos t) \<Longrightarrow> in_order t rs \<Longrightarrow> \<forall>x\<in>set rs. pos \<le> rp_start x \<Longrightarrow>
    delimited u t pos rs \<Longrightarrow> 0 < pos \<Longrightarrow> cut_right u (put t pos rs)"
proof (cases rs)
  case (Cons r rs')
  assume c: "cut_right u (drop pos t)" "delimited u t pos rs" "0 < pos" "in_order t rs" "\<forall>x\<in>set rs. pos \<le> rp_start x"
  then have "slice t pos (rp_start r) \<noteq> []" using Cons by (auto simp: cut_left_def)
  then have "hd (put t pos rs) = hd (slice t pos (rp_start r))" "put t pos rs \<noteq> []" using Cons by simp_all
  moreover have "hd (slice t pos (rp_start r)) = hd (drop pos t)" "drop pos t \<noteq> []"
    using \<open>slice t pos (rp_start r) \<noteq> []\<close> unfolding slice_def by (cases "drop pos t"; cases "rp_start r - pos"; simp)+
  ultimately show ?thesis using c(1) by (simp add: cut_right_def)
qed simp

text \<open>A text without labels, with delimited labels put in, has exactly those.\<close>

lemma find_labels_put:
  assumes "in_order t rs" "\<forall>x\<in>set rs. pos \<le> rp_start x" "pos \<le> length t" "delimited u t pos rs"
    "find_labels u (drop pos t) = []" "\<forall>r\<in>set rs. reads_as_label u r"
  shows "find_labels u (put t pos rs) = label_places 0 pos rs"
  using assms
proof (induction rs arbitrary: pos)
  case (Cons r rs)
  let ?g = "slice t pos (rp_start r)" and ?v = "slice t (rp_start r) (rp_end r)" and ?rest = "put t (rp_end r) rs"
  have r: "pos \<le> rp_start r" "rp_start r < rp_end r" "rp_end r \<le> length t" "in_order t rs" "\<forall>x\<in>set rs. rp_end r \<le> rp_start x"
    using Cons.prems(1,2) by (simp_all add: in_order_Cons)
  have d: "pos = 0 \<and> rp_start r = 0 \<or> cut_left u ?g" "cut_right u (drop (rp_end r) t)" "delimited u t (rp_end r) rs"
    using Cons.prems(4) by simp_all
  have cut: "find_labels u (?g @ b) = find_labels u ?g @ map (sh_hit (length ?g)) (find_labels u b)" for b
    using d(1) find_labels_cut_left by auto
  have "drop pos t = ?g @ ?v @ drop (rp_end r) t" using r by (simp add: slice_def) (metis append_assoc append_take_drop_id drop_drop le_add_diff_inverse2 less_imp_le take_drop)
  then have none: "find_labels u ?g = []" "find_labels u (drop (rp_end r) t) = []"
    using Cons.prems(5) cut [of "?v @ drop (rp_end r) t"] find_labels_cut_right [OF d(2), of ?v] by simp_all
  have ih: "find_labels u ?rest = label_places 0 (rp_end r) rs"
    using Cons.IH [of "rp_end r"] r d none Cons.prems(6) by simp
  have "cut_right u ?rest" by (rule put_hd) (use r d in auto)
  then have "find_labels u (rp_new r @ ?rest) = find_labels u (rp_new r) @ map (sh_hit (length (rp_new r))) (find_labels u ?rest)"
    by (rule find_labels_cut_right)
  then have "find_labels u (put t pos (r # rs)) = map (sh_hit (length ?g)) (find_labels u (rp_new r) @ map (sh_hit (length (rp_new r))) (find_labels u ?rest))"
    using cut none by simp
  also have "\<dots> = label_places 0 pos (r # rs)"
  proof -
    have "length ?g = rp_start r - pos" using r by simp
    then show ?thesis using Cons.prems(6) ih by (simp add: reads_as_label_def shift_places Let_def sh_hit_def add.commute del: length_slice)
  qed
  finally show ?case .
qed simp

section \<open>Putting the originals back\<close>

definition value_for :: "label_hit \<Rightarrow> pystr \<Rightarrow> replacement" where
  "value_for h val = \<lparr>rp_start = lh_start h, rp_end = lh_end h, rp_new = val, rp_category = lh_category h, rp_n = lh_number h,
     rp_original = lh_text h\<rparr>"

lemma length_places [simp]: "length (label_places off pos rs) = length rs"
  by (induction rs arbitrary: off pos) (simp_all add: Let_def)

lemma places_keys: "map (\<lambda>h. (lh_category h, lh_number h)) (label_places off pos rs) = map (\<lambda>r. (rp_category r, rp_n r)) rs"
  by (induction rs arbitrary: off pos) (simp_all add: Let_def)

lemma put_back:
  assumes "in_order t rs" "\<forall>x\<in>set rs. pos \<le> rp_start x" "pos \<le> length t" "out = pre @ put t pos rs"
    "\<forall>r\<in>set rs. rp_original r = slice t (rp_start r) (rp_end r)"
  shows "put out (length pre) (map2 value_for (label_places (length pre) pos rs) (map rp_original rs)) = drop pos t"
  using assms
proof (induction rs arbitrary: pos pre)
  case (Cons r rs)
  let ?g = "slice t pos (rp_start r)" and ?s = "length pre + (rp_start r - pos)"
  have r: "pos \<le> rp_start r" "rp_start r < rp_end r" "rp_end r \<le> length t" "in_order t rs" "\<forall>x\<in>set rs. rp_end r \<le> rp_start x"
    using Cons.prems(1,2) by (simp_all add: in_order_Cons)
  have g: "length ?g = rp_start r - pos" using r by simp
  have out: "out = (pre @ ?g @ rp_new r) @ put t (rp_end r) rs" using Cons.prems(4) by simp
  have "put out (length (pre @ ?g @ rp_new r)) (map2 value_for (label_places (length (pre @ ?g @ rp_new r)) (rp_end r) rs) (map rp_original rs)) = drop (rp_end r) t"
    by (rule Cons.IH) (use r out Cons.prems(5) in auto)
  moreover have "length (pre @ ?g @ rp_new r) = ?s + length (rp_new r)" using g by simp
  moreover have "slice out (length pre) ?s = ?g" using out g by (simp add: slice_append_right slice_append_left del: length_slice) (simp add: slice_def)
  moreover have "?g @ slice t (rp_start r) (rp_end r) @ drop (rp_end r) t = drop pos t"
    using r by (simp add: slice_def) (metis append_assoc append_take_drop_id drop_drop le_add_diff_inverse2 less_imp_le take_drop)
  ultimately show ?case using Cons.prems(5) by (simp add: Let_def value_for_def del: length_slice length_append)
qed simp

lemma places_order:
  assumes "list_all (\<lambda>r. rp_new r \<noteq> []) rs" "in_order t rs" "\<forall>x\<in>set rs. pos \<le> rp_start x" "pos \<le> length t"
    "length pre = off" "length vs = length rs"
  shows "in_order (pre @ put t pos rs) (map2 value_for (label_places off pos rs) vs) \<and>
    (\<forall>h\<in>set (label_places off pos rs). off \<le> lh_start h)"
  using assms
proof (induction rs arbitrary: pos pre off vs)
  case (Cons r rs)
  let ?g = "slice t pos (rp_start r)" and ?s = "off + (rp_start r - pos)"
  obtain v vs' where vs: "vs = v # vs'" "length vs' = length rs" using Cons.prems(6) by (cases vs) auto
  have r: "pos \<le> rp_start r" "rp_start r < rp_end r" "rp_end r \<le> length t" "in_order t rs" "\<forall>x\<in>set rs. rp_end r \<le> rp_start x"
    using Cons.prems(2,3) by (simp_all add: in_order_Cons)
  have l: "length (pre @ ?g @ rp_new r) = ?s + length (rp_new r)" using r Cons.prems(5) by simp
  have "in_order ((pre @ ?g @ rp_new r) @ put t (rp_end r) rs) (map2 value_for (label_places (?s + length (rp_new r)) (rp_end r) rs) vs') \<and>
      (\<forall>h\<in>set (label_places (?s + length (rp_new r)) (rp_end r) rs). ?s + length (rp_new r) \<le> lh_start h)"
    by (rule Cons.IH) (use Cons.prems(1) r l vs in auto)
  moreover have "0 < length (rp_new r)" using Cons.prems(1) by simp
  moreover have "?s + length (rp_new r) \<le> length (pre @ put t pos (r # rs))" using l by simp
  ultimately show ?case using vs
    by (fastforce simp: Let_def value_for_def in_order_Cons dest!: set_zip_leftD simp del: length_slice length_append)
qed (simp add: in_order_def)

end
