(* ===== verification/Desktop_Spans.thy ===== *)
theory Desktop_Spans
  imports Desktop_Labels
begin

text \<open>
  What \<open>Detector.detect\<close> reports: spans in the order of the text, apart from each other and from the
  labels that are already there, of the categories that were asked for, with the text they cover.
\<close>

definition span_ok :: "pystr \<Rightarrow> pystr list \<Rightarrow> label_hit list \<Rightarrow> entity_span \<Rightarrow> bool" where
  "span_ok t cats hits x \<longleftrightarrow> sp_start x < sp_end x \<and> sp_end x \<le> length t \<and> sp_text x = slice t (sp_start x) (sp_end x) \<and>
     sp_type x \<in> set cats \<and> list_all (\<lambda>h. lh_end h \<le> sp_start x \<or> sp_end x \<le> lh_start h) hits"

lemma rstrip_of_prefix: "length (rstrip_of cs t) \<le> length t"
  using length_dropWhile_le [of _ "rev t"] by (simp add: rstrip_of_def)

lemma lstrip_length: "length (py_lstrip u t) \<le> length t"
  by (simp add: py_lstrip_def length_dropWhile_le)

lemma trim_span_within:
  assumes "trim_span u s cat x = Some y"
  shows "sp_start x \<le> sp_start y \<and> sp_end y \<le> sp_end x \<and> sp_start y < sp_end y \<and> sp_end y \<le> length s \<and>
    sp_text y = slice s (sp_start y) (sp_end y) \<and> sp_type y = cat"
proof -
  let ?t = "slice s (sp_start x) (sp_end x)"
  have "length (rstrip_of [32, 9, 13, 10, 44, 59, 58] ?t) \<le> length ?t" by (rule rstrip_of_prefix)
  then show ?thesis using assms unfolding trim_span_def by (auto simp: Let_def min_def split: if_splits)
qed

lemma keep_span_ok:
  assumes "keep_span u options s hits x = Some y"
  shows "span_ok s (op_categories options) hits y"
proof -
  obtain z where z: "\<not> list_ex (\<lambda>h. lh_start h < sp_end z \<and> sp_start z < lh_end h) hits"
    "trim_span u s (category_for u (sp_type x)) z = Some y" "category_for u (sp_type x) \<in> set (op_categories options)"
    using assms unfolding keep_span_def Let_def by (auto simp: bind_eq_Some_conv split: if_splits)
  from trim_span_within [OF z(2)] z(1,3) show ?thesis
    unfolding span_ok_def by (fastforce simp: list_ex_iff list_all_iff not_less)
qed

lemma ebind_Inr: "ebind m f s = (Inr y, s') \<longleftrightarrow> (\<exists>x s1. m s = (Inr x, s1) \<and> f x s1 = (Inr y, s'))"
  by (auto simp: ebind_def split: prod.splits sum.splits)

lemma eret_Inr: "eret x s = (Inr y, s') \<longleftrightarrow> y = x \<and> s' = s"
  by (auto simp: eret_def)

lemma elift_Inr: "elift r s = (Inr y, s') \<longleftrightarrow> r = Inr y \<and> s' = s"
  by (auto simp: elift_def)

lemma on_vault_Inr: "on_vault m s = (Inr y, s') \<longleftrightarrow> (\<exists>v. m (eg_vault s) = (Inr y, v) \<and> s' = s\<lparr>eg_vault := v\<rparr>)"
  by (auto simp: on_vault_def split: prod.splits)

lemmas egm_Inr = ebind_Inr eret_Inr elift_Inr on_vault_Inr

lemma map_filter_in: "y \<in> set (List.map_filter f xs) \<Longrightarrow> \<exists>x\<in>set xs. f x = Some y"
  by (auto simp: map_filter_def)

lemma merged_ok:
  assumes "\<forall>x\<in>set spans. span_ok t cats hits x"
  shows "chained (merge_spans spans) \<and> list_all (span_ok t cats hits) (merge_spans spans)"
proof -
  have n: "\<forall>x\<in>set spans. nonempty_span x" using assms by (simp add: span_ok_def)
  then show ?thesis using merge_spans_chained [OF n] merge_spans_subset [OF n] assms by (auto simp: list_all_iff)
qed

lemma dictionary_vault:
  assumes "dictionary env p s = (Inr d, s')"
  obtains as where "entities (ev_lv env) p (eg_vault s) = (Inr as, eg_vault s')"
proof -
  obtain as v where e: "entities (ev_lv env) p (eg_vault s) = (Inr as, v)"
    using assms by (auto simp: dictionary_def egm_Inr)
  then have "on_vault (entities (ev_lv env) p) s = (Inr as, s\<lparr>eg_vault := v\<rparr>)" by (simp add: on_vault_def)
  then have "eg_vault s' = v"
    using assms unfolding dictionary_def ebind_def by (cases "map_of (eg_dict s) p") (auto simp: Let_def split: if_splits)
  then show thesis using that e by simp
qed

text \<open>What the detector leaves of the state: the vault has only loaded the project.\<close>

lemma detect_spans_result:
  assumes "detect_spans env pid options force t s = (Inr spans, s')"
  shows "chained spans \<and> list_all (span_ok t (op_categories options) (find_labels (eg_ucd env) t)) spans \<and>
    (spans = [] \<and> s' = s \<or> (case pid of None \<Rightarrow> eg_vault s' = eg_vault s
       | Some p \<Rightarrow> \<exists>as. entities (ev_lv env) p (eg_vault s) = (Inr as, eg_vault s')))"
proof (cases "py_strip (eg_ucd env) t = []")
  case True
  then show ?thesis using assms by (simp add: detect_spans_def Let_def eret_Inr)
next
  case False
  let ?hits = "find_labels (eg_ucd env) t"
  obtain pks s1 s2 from_dict more where
    l: "(case load_packs (ev_packs env) (ev_files env) (op_packs options) (eg_packs s) of
             Inl e \<Rightarrow> (Inl e, s) | Inr (pks, cache) \<Rightarrow> (Inr pks, s\<lparr>eg_packs := cache\<rparr>)) = (Inr pks, s1)" and
    d: "(case pid of None \<Rightarrow> eret [] | Some p \<Rightarrow> ebind (dictionary env p) (\<lambda>d s. (Inr (dict_spans (eg_ucd env) (eg_vault s) d t), s))) s1 = (Inr from_dict, s2)" and
    m: "spans = merge_spans (List.map_filter (keep_span (eg_ucd env) options t ?hits) more)" "s' = s2"
    using assms False by (auto simp: detect_spans_def Let_def egm_Inr simp del: map_filter_simps)
  have "\<forall>x\<in>set (List.map_filter (keep_span (eg_ucd env) options t ?hits) more). span_ok t (op_categories options) ?hits x"
    using map_filter_in keep_span_ok by fastforce
  from merged_ok [OF this] have ok: "chained spans \<and> list_all (span_ok t (op_categories options) ?hits) spans" unfolding m(1) .
  have v: "eg_vault s1 = eg_vault s" using l by (auto split: sum.splits prod.splits)
  have "case pid of None \<Rightarrow> eg_vault s' = eg_vault s
       | Some p \<Rightarrow> \<exists>as. entities (ev_lv env) p (eg_vault s) = (Inr as, eg_vault s')"
  proof (cases pid)
    case None
    then show ?thesis using d v m(2) by (simp add: eret_Inr)
  next
    case (Some p)
    then obtain dic where "dictionary env p s1 = (Inr dic, s2)" using d by (auto simp: egm_Inr)
    then show ?thesis using Some v m(2)
      by (auto elim: dictionary_vault)
  qed
  then show ?thesis using ok by blast
qed

end
