(* ===== verification/Desktop_Linked.thy ===== *)
theory Desktop_Linked
  imports Desktop_Spans Label_Cache
begin

text \<open>
  The vault under the operations of the anonymizer: the project stays loaded, the objects of its cache keep
  their keys and addresses, and every entity an operation returns is one of the cache.
\<close>

section \<open>A loaded project\<close>

definition objects_ok :: "lv \<Rightarrow> pystr \<Rightarrow> (lkey \<times> nat) list \<Rightarrow> (pystr \<times> nat) list \<Rightarrow> bool" where
  "objects_ok v pid ents idx \<longleftrightarrow>
     (\<forall>k a. map_of ents k = Some a \<longrightarrow> a < length (lv_heap v) \<and> en_key (deref v a) = k \<and> en_pid (deref v a) = pid) \<and>
     (\<forall>fp a. map_of idx fp = Some a \<longrightarrow> map_of ents (en_key (deref v a)) = Some a) \<and>
     distinct (map fst ents) \<and> fst ` set ents \<subseteq> row_key ` set (rows v pid)"

lemma objects_okD:
  assumes "objects_ok v pid ents idx"
  shows "map_of ents k = Some a \<Longrightarrow> a < length (lv_heap v) \<and> en_key (deref v a) = k \<and> en_pid (deref v a) = pid"
    "map_of idx fp = Some a \<Longrightarrow> map_of ents (en_key (deref v a)) = Some a"
    "distinct (map fst ents)" "fst ` set ents \<subseteq> row_key ` set (rows v pid)"
  using assms unfolding objects_ok_def by blast+

definition linked :: "lv \<Rightarrow> pystr \<Rightarrow> bool" where
  "linked v pid \<longleftrightarrow> lv_unlocked v \<and>
     (\<exists>ents idx. map_of (lv_cache v) pid = Some ents \<and> map_of (lv_index v) pid = Some idx \<and> objects_ok v pid ents idx)"

definition member :: "lv \<Rightarrow> pystr \<Rightarrow> nat \<Rightarrow> bool" where
  "member v pid a \<longleftrightarrow> (\<exists>ents. map_of (lv_cache v) pid = Some ents \<and> map_of ents (en_key (deref v a)) = Some a)"

text \<open>\<open>grows v pid v'\<close>: the operation kept the project linked and took nothing from it.\<close>

definition grows :: "pystr \<Rightarrow> lv \<Rightarrow> lv \<Rightarrow> bool" where
  "grows pid v v' \<longleftrightarrow> linked v' pid \<and> (lv_master v' = lv_master v \<and> lv_fpkey v' = lv_fpkey v) \<and> lv_documents v' = lv_documents v \<and> lv_ticks v \<le> lv_ticks v' \<and>
     (\<forall>ents. map_of (lv_cache v) pid = Some ents \<longrightarrow>
        (\<exists>ents'. map_of (lv_cache v') pid = Some ents' \<and> map_of ents \<subseteq>\<^sub>m map_of ents')) \<and>
     length (lv_heap v) \<le> length (lv_heap v') \<and>
     (\<forall>a<length (lv_heap v). en_key (deref v' a) = en_key (deref v a) \<and> en_pid (deref v' a) = en_pid (deref v a))"

lemma grows_refl: "linked v pid \<Longrightarrow> grows pid v v"
  by (auto simp: grows_def)

lemma grows_trans: "grows pid v v' \<Longrightarrow> grows pid v' v'' \<Longrightarrow> grows pid v v''"
proof -
  assume g: "grows pid v v'" "grows pid v' v''"
  have "\<exists>ents'. map_of (lv_cache v'') pid = Some ents' \<and> map_of ents \<subseteq>\<^sub>m map_of ents'" if "map_of (lv_cache v) pid = Some ents" for ents
    using g that unfolding grows_def by (meson map_le_trans)
  moreover have "lv_ticks v \<le> lv_ticks v''" "length (lv_heap v) \<le> length (lv_heap v'')"
    using g unfolding grows_def by (meson order_trans)+
  moreover have "en_key (deref v'' a) = en_key (deref v a) \<and> en_pid (deref v'' a) = en_pid (deref v a)" if "a < length (lv_heap v)" for a
    using g that unfolding grows_def by (metis order_less_le_trans)
  moreover have "linked v'' pid" "lv_master v'' = lv_master v \<and> lv_fpkey v'' = lv_fpkey v" "lv_documents v'' = lv_documents v"
    using g unfolding grows_def by metis+
  ultimately show ?thesis unfolding grows_def by blast
qed

lemma grows_linked: "grows pid v v' \<Longrightarrow> linked v' pid"
  by (simp add: grows_def)

lemma linkedE:
  assumes "linked v pid"
  obtains ents idx where "map_of (lv_cache v) pid = Some ents" "map_of (lv_index v) pid = Some idx" "objects_ok v pid ents idx" "lv_unlocked v"
  using assms unfolding linked_def by blast

lemma memberD: "member v pid a \<Longrightarrow> map_of (lv_cache v) pid = Some ents \<Longrightarrow> map_of ents (en_key (deref v a)) = Some a"
  unfolding member_def by (metis option.inject)

lemma member_less:
  assumes "linked v pid" "member v pid a"
  shows "a < length (lv_heap v) \<and> en_pid (deref v a) = pid"
proof -
  obtain ents idx where e: "map_of (lv_cache v) pid = Some ents" "objects_ok v pid ents idx" by (rule linkedE [OF assms(1)])
  from objects_okD(1) [OF e(2) memberD [OF assms(2) e(1)]] show ?thesis by blast
qed

lemma growsD:
  assumes "grows pid v v'"
  shows "linked v' pid" "lv_master v' = lv_master v \<and> lv_fpkey v' = lv_fpkey v" "lv_documents v' = lv_documents v" "lv_ticks v \<le> lv_ticks v'"
    "map_of (lv_cache v) pid = Some ents \<Longrightarrow> \<exists>ents'. map_of (lv_cache v') pid = Some ents' \<and> map_of ents \<subseteq>\<^sub>m map_of ents'"
    "a < length (lv_heap v) \<Longrightarrow> en_key (deref v' a) = en_key (deref v a) \<and> en_pid (deref v' a) = en_pid (deref v a)"
  using assms unfolding grows_def by blast+

lemma member_grows:
  assumes "linked v pid" "grows pid v v'" "member v pid a"
  shows "member v' pid a"
proof -
  obtain ents where e: "map_of (lv_cache v) pid = Some ents" by (rule linkedE [OF assms(1)])
  obtain ents' where e': "map_of (lv_cache v') pid = Some ents'" "map_of ents \<subseteq>\<^sub>m map_of ents'" using growsD(5) [OF assms(2) e] by blast
  have "en_key (deref v' a) = en_key (deref v a)" using member_less [OF assms(1,3)] growsD(6) [OF assms(2)] by blast
  then have "map_of ents' (en_key (deref v' a)) = Some a" using memberD [OF assms(3) e] e'(2) by (metis domI map_le_def)
  then show ?thesis using e'(1) unfolding member_def by blast
qed

text \<open>A change of the tables, the draws or the objects that keeps keys, the cache and the index.\<close>

lemma grows_frame:
  assumes "linked v pid" "lv_unlocked v' = lv_unlocked v" "lv_master v' = lv_master v \<and> lv_fpkey v' = lv_fpkey v" "lv_documents v' = lv_documents v" "lv_ticks v \<le> lv_ticks v'"
    "lv_cache v' = lv_cache v" "lv_index v' = lv_index v" "length (lv_heap v') = length (lv_heap v)"
    "\<And>a. a < length (lv_heap v) \<Longrightarrow> en_key (deref v' a) = en_key (deref v a) \<and> en_pid (deref v' a) = en_pid (deref v a)"
    "row_key ` set (rows v' pid) = row_key ` set (rows v pid)"
  shows "grows pid v v'"
proof -
  obtain ents idx where e: "map_of (lv_cache v) pid = Some ents" "map_of (lv_index v) pid = Some idx" "objects_ok v pid ents idx" "lv_unlocked v"
    by (rule linkedE [OF assms(1)])
  have idx: "map_of ents (en_key (deref v' a)) = Some a" if "map_of idx fp = Some a" for fp a
  proof -
    have "map_of ents (en_key (deref v a)) = Some a" using objects_okD(2) [OF e(3) that] .
    moreover from this have "a < length (lv_heap v)" using objects_okD(1) [OF e(3)] by blast
    ultimately show ?thesis using assms(9) by simp
  qed
  have "objects_ok v' pid ents idx"
    using objects_okD [OF e(3)] idx assms(8,9,10) unfolding objects_ok_def by simp
  then show ?thesis using assms e by (auto simp: grows_def linked_def)
qed

section \<open>Coherent vaults\<close>

lemma coherent_linked:
  assumes "coherent env v" "lv_unlocked v" "map_of (lv_cache v) pid = Some ents"
  shows "linked v pid"
proof -
  have p: "project_ok env v pid ents" by (rule coherentD(5) [OF assms(1,3)])
  then obtain idx where i: "map_of (lv_index v) pid = Some idx" "index_ok v ents idx" by (auto simp: project_ok_def)
  have l: "list_all2 (entry_ok env v) (rows v pid) ents" using p by (simp add: project_ok_def)
  then have keys: "map fst ents = map row_key (rows v pid)" by (induction rule: list_all2_induct) (auto simp: entry_ok_def)
  then have d: "distinct (map fst ents)" using coherentD(1) [OF assms(1)] by (simp add: tables_ok_def)
  have "map_of ents (en_key (deref v a)) = Some a" if "map_of idx fp = Some a" for fp a
  proof -
    have as: "a \<in> snd ` set ents" using i(2) that by (simp add: index_ok_def)
    then obtain k where k: "(k, a) \<in> set ents" by auto
    then show ?thesis using cached_entity [OF assms(1,3) k] d by simp
  qed
  moreover have "fst ` set ents \<subseteq> row_key ` set (rows v pid)" using arg_cong [OF keys, of set] by simp
  ultimately have "objects_ok v pid ents idx"
    using cached_entity [OF assms(1,3)] d unfolding objects_ok_def by (blast dest: map_of_SomeD)
  then show ?thesis using assms(2,3) i(1) by (auto simp: linked_def)
qed

lemma load_links:
  assumes "coherent env v" "load env pid v = (Inr ents, v')"
  shows "linked v' pid"
  using load_coherent [OF assms] coherent_linked by blast

lemma entities_links:
  assumes "coherent env v" "entities env pid v = (Inr as, v')"
  shows "linked v' pid"
proof -
  obtain ents where "load env pid v = (Inr ents, v')" using assms(2) by (auto simp: entities_def mbind_Inr)
  then show ?thesis by (rule load_links [OF assms(1)])
qed

section \<open>Operations\<close>

lemma load_linked: "linked v pid \<Longrightarrow> \<exists>ents. load env pid v = (Inr ents, v) \<and> map_of (lv_cache v) pid = Some ents"
  by (auto simp: linked_def load_def need_def steps)

lemma entities_linked:
  assumes "linked v pid" "entities env pid v = (r, v')"
  shows "v' = v \<and> (\<exists>as. r = Inr as \<and> (\<forall>a\<in>set as. member v pid a))"
proof -
  obtain ents where e: "load env pid v = (Inr ents, v)" "map_of (lv_cache v) pid = Some ents" using load_linked [OF assms(1)] by blast
  obtain idx where ok: "objects_ok v pid ents idx" using assms(1) e(2) by (auto simp: linked_def)
  have r: "r = Inr (sort_key (\<lambda>a. (en_cat (deref v a), en_n (deref v a))) (map snd ents))" "v' = v"
    using assms(2) unfolding entities_def mbind_def e(1) by auto
  have "member v pid a" if asm: "a \<in> snd ` set ents" for a
  proof -
    obtain p where "p \<in> set ents" "a = snd p" using asm by blast
    then have m: "map_of ents (fst p) = Some a" using objects_okD(3) [OF ok] by simp
    then show ?thesis using objects_okD(1) [OF ok m] e(2) by (simp add: member_def)
  qed
  then show ?thesis using r by simp
qed

lemma by_fingerprint_linked:
  assumes "linked v pid" "by_fingerprint env pid fp v = (r, v')"
  shows "v' = v \<and> (\<exists>h. r = Inr h \<and> (\<forall>a. h = Some a \<longrightarrow> member v pid a))"
proof -
  obtain ents where e: "load env pid v = (Inr ents, v)" "map_of (lv_cache v) pid = Some ents" using load_linked [OF assms(1)] by blast
  obtain idx where i: "map_of (lv_index v) pid = Some idx" "objects_ok v pid ents idx" using assms(1) e(2) by (auto simp: linked_def)
  then show ?thesis using assms(2) e objects_okD(2) [OF i(2)] by (auto simp: by_fingerprint_def mbind_def member_def)
qed

lemma grows_draws: "linked v pid \<Longrightarrow> lv_draws_update f v = v' \<Longrightarrow> grows pid v v'"
  by (rule grows_frame) (auto simp: deref_def rows_def)

lemma add_variant_grows:
  assumes "linked v pid" "member v pid a" "add_variant env a fp surface v = (Inr u, v')"
  shows "grows pid v v'"
proof (cases "fp = en_fp (deref v a) \<or> fp \<in> fst ` set (en_variants (deref v a))")
  case True
  then show ?thesis using assms by (auto simp: add_variant_def Let_def grows_refl)
next
  case False
  let ?e = "deref v a"
  have a: "a < length (lv_heap v)" "en_pid ?e = pid" using member_less [OF assms(1,2)] by simp_all
  obtain ents idx where e: "map_of (lv_cache v) pid = Some ents" "map_of (lv_index v) pid = Some idx" "objects_ok v pid ents idx" "lv_unlocked v"
    by (rule linkedE [OF assms(1)])
  have m: "map_of ents (en_key ?e) = Some a" by (rule memberD [OF assms(2) e(1)])
  have v': "lv_heap v' = (lv_heap v)[a := with_variant fp surface ?e]" "lv_index v' = AList.update pid (AList.update fp a idx) (lv_index v)"
      "lv_cache v' = lv_cache v" "lv_entities v' = lv_entities v" "lv_unlocked v' = lv_unlocked v" "lv_master v' = lv_master v" "lv_fpkey v' = lv_fpkey v"
      "lv_documents v' = lv_documents v" "lv_ticks v' = lv_ticks v"
    using assms(3) False a e(2) by (auto simp: add_variant_def Let_def mbind_Inr simple_Inr insert_variant_def set_obj_def index_set_def
        encrypt_value_def deref_def split: option.splits sum.splits if_splits)
  have d: "deref v' b = (if b = a then with_variant fp surface ?e else deref v b)" for b using a(1) by (simp add: v' deref_def)
  have k: "en_key (deref v' b) = en_key (deref v b)" "en_pid (deref v' b) = en_pid (deref v b)" for b
    by (simp_all add: d with_variant_def en_key_def)
  have "map_of ents (en_key (deref v b)) = Some b" if "map_of (AList.update fp a idx) f = Some b" for f b
    using that m objects_okD(2) [OF e(3), of f b] by (simp add: update_conv' split: if_splits)
  moreover have "rows v' pid = rows v pid" "length (lv_heap v') = length (lv_heap v)" by (simp_all add: rows_def v')
  ultimately have "objects_ok v' pid ents (AList.update fp a idx)"
    using objects_okD [OF e(3)] unfolding objects_ok_def k by simp
  then show ?thesis using e k by (simp add: grows_def linked_def v' update_conv')
qed

lemma touch_same: "touch env pid v = (Inr u, v') \<Longrightarrow> \<exists>ps. v' = v\<lparr>lv_ticks := Suc (lv_ticks v), lv_projects := ps\<rparr>"
  unfolding touch_def set_project_def mbind_Inr simple_Inr by auto

lemma encrypt_value_draws: "encrypt_value env pid val v = (r, v') \<Longrightarrow> \<exists>n. v' = v\<lparr>lv_draws := n\<rparr>"
  by (auto simp: encrypt_value_def split: sum.splits intro: exI [of _ "lv_draws v"])

lemma enc_meta_draws: "enc_meta env t v = (r, v') \<Longrightarrow> \<exists>n. v' = v\<lparr>lv_draws := n\<rparr>"
  by (auto simp: enc_meta_def steps split: sum.splits)

lemma add_entity_grows:
  assumes "linked v pid" "add_entity env pid category canonical fp meta origin excluded v = (Inr a, v')"
  shows "grows pid v v' \<and> member v' pid a"
proof -
  obtain ents idx where e: "map_of (lv_cache v) pid = Some ents" "map_of (lv_index v) pid = Some idx" "objects_ok v pid ents idx" "lv_unlocked v"
    by (rule linkedE [OF assms(1)])
  let ?n = "Suc (max_n pid category (lv_entities v))"
  have l: "load env pid v = (Inr ents, v)" using load_linked [OF assms(1)] e(1) by auto
  obtain r obj where v': "lv_entities v' = lv_entities v @ [r]" "lv_heap v' = lv_heap v @ [obj]"
      "lv_cache v' = AList.update pid (AList.update (category, ?n) a ents) (lv_cache v)" "lv_unlocked v' = lv_unlocked v"
      "lv_index v' = AList.update pid (AList.update fp a idx) (lv_index v)" "lv_master v' = lv_master v" "lv_fpkey v' = lv_fpkey v" "lv_documents v' = lv_documents v"
      "lv_ticks v' = Suc (Suc (lv_ticks v))"
    and obj: "en_key obj = (category, ?n)" "en_pid obj = pid" "er_pid r = pid" "row_key r = (category, ?n)" "a = length (lv_heap v)"
  proof -
    obtain vct s2 mct s3 t u1 s5 u2 s6 u3 where
      ct: "encrypt_value env pid canonical v = (Inr vct, s2)" "enc_meta env (le_dumps env True (JDict meta)) s2 = (Inr mct, s3)" and
      i: "insert_entity \<lparr>er_pid = pid, er_cat = category, er_n = ?n, er_fp = fp, er_value = vct,
        er_meta = mct, er_occ = 0, er_excluded = excluded, er_origin = origin, er_created = t\<rparr> (s3\<lparr>lv_ticks := Suc (lv_ticks s3)\<rparr>) = (Inr u1, s5)" and
      x: "index_set pid fp a (s5\<lparr>lv_heap := lv_heap s5 @ [\<lparr>en_pid = pid, en_cat = category, en_n = ?n, en_fp = fp,
        en_value = canonical, en_meta = JDict meta, en_occ = 0, en_excluded = excluded, en_origin = origin, en_variants = []\<rparr>],
        lv_cache := AList.update pid (AList.update (category, ?n) a ents) (lv_cache s5)\<rparr>) = (Inr u2, s6)" and
      tch: "touch env pid s6 = (Inr u3, v')" and a: "a = length (lv_heap s5)"
      using assms(2) l unfolding add_entity_def by (auto simp: mbind_Inr simple_Inr)
    obtain n where s3: "s3 = v\<lparr>lv_draws := n\<rparr>" using encrypt_value_draws [OF ct(1)] enc_meta_draws [OF ct(2)] by auto
    obtain ps where tch': "v' = s6\<lparr>lv_ticks := Suc (lv_ticks s6), lv_projects := ps\<rparr>" using touch_same [OF tch] by blast
    let ?r = "\<lparr>er_pid = pid, er_cat = category, er_n = ?n, er_fp = fp, er_value = vct,
        er_meta = mct, er_occ = 0, er_excluded = excluded, er_origin = origin, er_created = t\<rparr>"
    have s5: "s5 = s3\<lparr>lv_ticks := Suc (lv_ticks s3), lv_entities := lv_entities s3 @ [?r]\<rparr>"
      using i by (auto simp: insert_entity_def split: if_splits)
    show thesis
      by (rule that [of ?r]) (use x e(2) in \<open>auto simp: s3 s5 tch' a index_set_def en_key_def row_key_def\<close>)
  qed
  have fresh: "map_of ents (category, ?n) = None"
    using objects_okD(4) [OF e(3)] max_n_fresh [of category pid v] by (auto simp: map_of_eq_None_iff)
  have d: "deref v' b = (if b < length (lv_heap v) then deref v b else obj)" if "b \<le> length (lv_heap v)" for b
    using that by (simp add: v' deref_def nth_append)
  have below: "b < length (lv_heap v)" if "map_of ents k = Some b" for b k using objects_okD(1) [OF e(3) that] by simp
  have "objects_ok v' pid (AList.update (category, ?n) a ents) (AList.update fp a idx)"
    unfolding objects_ok_def
  proof (intro conjI allI impI)
    fix k b assume k: "map_of (AList.update (category, ?n) a ents) k = Some b"
    then have "k = (category, ?n) \<and> b = a \<or> map_of ents k = Some b" by (auto simp: update_conv' split: if_splits)
    then show "b < length (lv_heap v')" "en_key (deref v' b) = k" "en_pid (deref v' b) = pid"
      using objects_okD(1) [OF e(3), of k b] obj d [of b] by (fastforce simp: v')+
  next
    fix f b assume "map_of (AList.update fp a idx) f = Some b"
    then have "b = a \<or> map_of idx f = Some b" by (auto simp: update_conv' split: if_splits)
    then show "map_of (AList.update (category, ?n) a ents) (en_key (deref v' b)) = Some b"
    proof
      assume "map_of idx f = Some b"
      note m = objects_okD(2) [OF e(3) this]
      then have "deref v' b = deref v b" using below [OF m] d [of b] by simp
      then show ?thesis using m fresh by (auto simp: update_conv')
    qed (use obj d [of a] in \<open>simp add: update_conv'\<close>)
  next
    show "fst ` set (AList.update (category, ?n) a ents) \<subseteq> row_key ` set (rows v' pid)"
      using objects_okD(4) [OF e(3)] obj by (auto simp: v' rows_def dom_update)
  qed (use objects_okD(3) [OF e(3)] in \<open>simp add: distinct_update\<close>)
  moreover have "map_of ents \<subseteq>\<^sub>m map_of (AList.update (category, ?n) a ents)" using fresh by (auto simp: map_le_def update_conv')
  ultimately show ?thesis using e d obj by (auto simp: grows_def linked_def member_def v' update_conv')
qed

lemma rows_map: "lv_entities v' = map g (lv_entities v) \<Longrightarrow> (\<And>r. er_pid (g r) = er_pid r \<and> row_key (g r) = row_key r) \<Longrightarrow>
    row_key ` set (rows v' pid) = row_key ` set (rows v pid)"
  by (simp add: rows_def filter_map comp_def image_image)

lemma set_canonical_grows:
  assumes "linked v pid" "member v pid a" "set_canonical env a val meta v = (Inr u, v')"
  shows "grows pid v v'"
proof -
  let ?e = "deref v a"
  have a: "a < length (lv_heap v)" "en_pid ?e = pid" using member_less [OF assms(1,2)] by simp_all
  let ?o = "?e\<lparr>en_value := val, en_meta := (case meta of None \<Rightarrow> en_meta ?e | Some m \<Rightarrow> m)\<rparr>"
  let ?v1 = "v\<lparr>lv_heap := (lv_heap v)[a := ?o]\<rparr>"
  have o: "deref ?v1 a = ?o" "en_key ?o = en_key ?e" "en_pid ?o = pid" using a by (simp_all add: deref_def en_key_def)
  have "mbind (set_obj a (\<lambda>e. e\<lparr>en_value := val\<rparr>)) (\<lambda>_. case meta of None \<Rightarrow> ret () | Some m \<Rightarrow> set_obj a (\<lambda>e. e\<lparr>en_meta := m\<rparr>)) v = (Inr (), ?v1)"
    using a(1) by (cases meta) (simp_all add: set_obj_def steps deref_def)
  then obtain vct s2 mct s3 where
    ct: "encrypt_value env (en_pid ?o) val ?v1 = (Inr vct, s2)" "enc_meta env (le_dumps env True (en_meta ?o)) s2 = (Inr mct, s3)" and
    r: "set_row ?o (\<lambda>r. r\<lparr>er_value := vct, er_meta := mct\<rparr>) s3 = (Inr u, v')"
    using assms(3) o(1) by (auto simp: set_canonical_def mbind_Inr Let_def)
  obtain n where s3: "s3 = ?v1\<lparr>lv_draws := n\<rparr>" using encrypt_value_draws [OF ct(1)] enc_meta_draws [OF ct(2)] by auto
  let ?g = "\<lambda>r. if er_pid r = en_pid ?o \<and> row_key r = en_key ?o then r\<lparr>er_value := vct, er_meta := mct\<rparr> else r"
  have v': "v' = ?v1\<lparr>lv_draws := n, lv_entities := map ?g (lv_entities v)\<rparr>" using r by (simp add: set_row_def upd_def s3)
  have g: "row_key (?g r) = row_key r" "er_pid (?g r) = er_pid r" for r by (simp_all add: row_key_def)
  have rk: "row_key ` set (rows v' pid) = row_key ` set (rows v pid)" by (rule rows_map [where g = ?g], simp add: v') (use g in blast)
  have k: "en_key (deref v' b) = en_key (deref v b) \<and> en_pid (deref v' b) = en_pid (deref v b)" for b
  proof -
    have "deref v' b = (if b = a then ?o else deref v b)" using a(1) by (simp add: v' deref_def)
    then show ?thesis using o(2,3) a(2) by simp
  qed
  show ?thesis by (rule grows_frame [OF assms(1) _ _ _ _ _ _ _ k rk]) (simp_all add: v')
qed

lemma set_excluded_grows:
  assumes "linked v pid" "member v pid a" "set_excluded a ex v = (r, v')"
  shows "grows pid v v' \<and> r = Inr ()"
proof -
  let ?e = "deref v a"
  let ?o = "?e\<lparr>en_excluded := ex\<rparr>"
  let ?g = "\<lambda>r. if er_pid r = en_pid ?o \<and> row_key r = en_key ?o then r\<lparr>er_excluded := ex\<rparr> else r"
  have a: "a < length (lv_heap v)" using member_less [OF assms(1,2)] by simp
  have v': "v' = v\<lparr>lv_heap := (lv_heap v)[a := ?o], lv_entities := map ?g (lv_entities v)\<rparr>" "r = Inr ()"
    using assms(3) a by (auto simp: set_excluded_def set_obj_def set_row_def steps deref_def)
  have g: "row_key (?g r) = row_key r" "er_pid (?g r) = er_pid r" for r by (simp_all add: row_key_def)
  have rk: "row_key ` set (rows v' pid) = row_key ` set (rows v pid)" by (rule rows_map [where g = ?g], simp add: v') (use g in blast)
  have k: "en_key (deref v' b) = en_key (deref v b) \<and> en_pid (deref v' b) = en_pid (deref v b)" for b
    using a by (simp add: v' deref_def nth_list_update en_key_def)
  have "grows pid v v'" by (rule grows_frame [OF assms(1) _ _ _ _ _ _ _ k rk]) (simp_all add: v'(1))
  then show ?thesis using v'(2) by simp
qed

lemma nth_upd: "f e = f (xs ! a) \<Longrightarrow> b < length xs \<Longrightarrow> f (xs[a := e] ! b) = f (xs ! b)"
  by (cases "a = b") simp_all

lemma bump_grows: "linked v pid \<Longrightarrow> grows pid v (bump items v)"
proof (induction items v rule: bump.induct)
  case (2 p cat n c rest v)
  let ?g = "\<lambda>r. if er_pid r = p \<and> row_key r = (cat, n) then r\<lparr>er_occ := er_occ r + c\<rparr> else r"
  let ?v1 = "v\<lparr>lv_entities := map ?g (lv_entities v)\<rparr>"
  let ?v2 = "case Option.bind (map_of (lv_cache ?v1) p) (\<lambda>ents. map_of ents (cat, n)) of None \<Rightarrow> ?v1
     | Some a \<Rightarrow> ?v1\<lparr>lv_heap := (lv_heap ?v1)[a := (deref ?v1 a)\<lparr>en_occ := en_occ (deref ?v1 a) + c\<rparr>]\<rparr>"
  have g: "row_key (?g r) = row_key r" "er_pid (?g r) = er_pid r" for r by (simp_all add: row_key_def)
  have rk: "row_key ` set (rows ?v2 pid) = row_key ` set (rows v pid)"
    by (rule rows_map [where g = ?g], simp split: option.split) (use g in blast)
  have k: "en_key (deref ?v2 b) = en_key (deref v b) \<and> en_pid (deref ?v2 b) = en_pid (deref v b)" if "b < length (lv_heap v)" for b
    using that by (auto simp: deref_def en_key_def split: option.split intro: nth_upd [of en_cat] nth_upd [of en_n] nth_upd [of en_pid])
  have "grows pid v ?v2" by (rule grows_frame [OF 2(2) _ _ _ _ _ _ _ k rk]) (simp_all split: option.split)
  then show ?case using 2(1) [OF refl growsD(1)] grows_trans by (simp add: Let_def)
qed (simp add: grows_refl)

end
