(* ===== verification/Desktop_Resolve.thy ===== *)
theory Desktop_Resolve
  imports Desktop_Linked
begin

text \<open>
  Entity resolution on a loaded project: it returns an entity of the project, and the replacements of a
  text follow its spans and carry labels of entities the project has.
\<close>

lemma fp_of_Inr: "fp_of env pid cat nv s = (Inr fp, s') \<longleftrightarrow> label_fingerprint (ev_lv env) pid cat nv (eg_vault s) = Inr fp \<and> s' = s"
  by (auto simp: fp_of_def)

lemma object_at_Inr: "object_at a s = (Inr e, s') \<longleftrightarrow> e = deref (eg_vault s) a \<and> s' = s"
  by (auto simp: object_at_def)

lemma invalidate_Inr: "invalidate pid s = (Inr u, s') \<longleftrightarrow> s' = s\<lparr>eg_dict := AList.delete pid (eg_dict s)\<rparr>"
  by (auto simp: invalidate_def)

lemmas step_Inr = egm_Inr fp_of_Inr object_at_Inr invalidate_Inr

lemma keep_compatible_in: "keep_compatible v meta as = Inr bs \<Longrightarrow> set bs \<subseteq> set as"
  by (induction as arbitrary: bs) (auto simp: rbind_Inr_iff split: if_splits)

lemma candidates_linked:
  assumes "linked (eg_vault s) pid" "candidates env pid meta s = (Inr as, s')"
  shows "s' = s \<and> (\<forall>a\<in>set as. member (eg_vault s) pid a)"
proof (cases "truthy (dget meta (str ''s''))")
  case True
  then obtain bs v where b: "entities (ev_lv env) pid (eg_vault s) = (Inr bs, v)" "keep_compatible v meta bs = Inr as" "s' = s\<lparr>eg_vault := v\<rparr>"
    using assms(2) by (auto simp: candidates_def step_Inr)
  have "v = eg_vault s" "\<forall>a\<in>set bs. member (eg_vault s) pid a" using entities_linked [OF assms(1) b(1)] by auto
  then show ?thesis using b keep_compatible_in by fastforce
qed (use assms in \<open>simp add: candidates_def step_Inr\<close>)

text \<open>The vault part of an engine step.\<close>

definition egrows :: "pystr \<Rightarrow> eng \<Rightarrow> eng \<Rightarrow> bool" where
  "egrows pid s s' \<longleftrightarrow> grows pid (eg_vault s) (eg_vault s')"

lemma egrows_refl: "linked (eg_vault s) pid \<Longrightarrow> egrows pid s s"
  by (simp add: egrows_def grows_refl)

lemma egrows_trans: "egrows pid s s' \<Longrightarrow> egrows pid s' s'' \<Longrightarrow> egrows pid s s''"
  unfolding egrows_def by (rule grows_trans)

lemma egrows_linked: "egrows pid s s' \<Longrightarrow> linked (eg_vault s') pid"
  unfolding egrows_def by (rule growsD)

lemma egrows_member: "linked (eg_vault s) pid \<Longrightarrow> egrows pid s s' \<Longrightarrow> member (eg_vault s) pid a \<Longrightarrow> member (eg_vault s') pid a"
  unfolding egrows_def by (rule member_grows)

lemma egrows_dict: "egrows pid s s' \<Longrightarrow> eg_vault s'' = eg_vault s' \<Longrightarrow> egrows pid s s''"
  by (simp add: egrows_def)

lemma variant_egrows:
  "linked (eg_vault s) pid \<Longrightarrow> member (eg_vault s) pid a \<Longrightarrow> on_vault (add_variant (ev_lv env) a fp x) s = (Inr u, s') \<Longrightarrow> egrows pid s s'"
  using add_variant_grows by (auto simp: step_Inr egrows_def)

lemma set_better_egrows:
  assumes l: "linked (eg_vault s) pid" and m: "member (eg_vault s) pid a" and r: "set_better env pid category surface meta a s = (Inr u, s')"
  shows "egrows pid s s'"
proof (cases "nominative_score (eg_ucd env) (en_value (deref (eg_vault s) a)) < nominative_score (eg_ucd env) surface")
  case False
  then show ?thesis using r l by (simp add: set_better_def step_Inr egrows_refl)
next
  case True
  then obtain old where old: "en_meta (deref (eg_vault s) a) = JDict old"
    using r by (cases "en_meta (deref (eg_vault s) a)") (auto simp: set_better_def step_Inr)
  obtain ofp s1 where c: "on_vault (set_canonical (ev_lv env) a surface (Some (JDict (merge_meta meta old)))) s = (Inr (), s1)"
    and v: "on_vault (add_variant (ev_lv env) a ofp (en_value (deref (eg_vault s) a))) s1 = (Inr u, s')"
    using r True old by (auto simp: set_better_def ebind_Inr fp_of_Inr object_at_Inr)
  have g: "egrows pid s s1" using set_canonical_grows [OF l m] c by (auto simp: step_Inr egrows_def)
  show ?thesis
    by (rule egrows_trans [OF g]) (rule variant_egrows [OF egrows_linked [OF g] egrows_member [OF l g m] v])
qed

lemma resolve_linked:
  assumes l: "linked (eg_vault s) pid" and r: "resolve_entity env pid category surface origin s = (Inr a, s')"
  shows "egrows pid s s' \<and> member (eg_vault s') pid a"
proof -
  let ?nv = "normalize_value (eg_ucd env) category surface"
  obtain fp hit v where h: "by_fingerprint (ev_lv env) pid fp (eg_vault s) = (Inr hit, v)"
    and rest: "(case hit of Some a \<Rightarrow> known_surface env pid category surface a
       | None \<Rightarrow> if category = str ''PERSON'' then
             (let meta = parse_person (eg_ucd env) surface in
              ebind (candidates env pid meta) (\<lambda>cands.
                case cands of
                  [a] \<Rightarrow> link_person env pid category surface fp meta a
                | _ \<Rightarrow> new_entity env pid category surface fp meta origin))
           else new_entity env pid category surface fp [] origin) (s\<lparr>eg_vault := v\<rparr>) = (Inr a, s')"
    using r unfolding resolve_entity_def step_Inr by blast
  have hv: "v = eg_vault s" and hm: "\<And>b. hit = Some b \<Longrightarrow> member (eg_vault s) pid b"
    using by_fingerprint_linked [OF l h] by auto
  then have s: "s\<lparr>eg_vault := v\<rparr> = s" by simp
  have new: "egrows pid s s' \<and> member (eg_vault s') pid a" if "new_entity env pid category surface fp meta origin s = (Inr a, s')" for meta
    using that add_entity_grows [OF l] by (auto simp: new_entity_def step_Inr egrows_def)
  have link: "egrows pid s s' \<and> member (eg_vault s') pid a"
    if lp: "link_person env pid category surface fp meta b s = (Inr a, s')" and b: "member (eg_vault s) pid b" for meta b
  proof -
    obtain s1 s2 where v: "on_vault (add_variant (ev_lv env) b fp surface) s = (Inr (), s1)"
      and c: "set_better env pid category surface meta b s1 = (Inr (), s2)" and e: "a = b" "eg_vault s' = eg_vault s2"
      using lp by (auto simp: link_person_def ebind_Inr eret_Inr invalidate_Inr)
    have g1: "egrows pid s s1" by (rule variant_egrows [OF l b v])
    have g2: "egrows pid s1 s2" by (rule set_better_egrows [OF egrows_linked [OF g1] egrows_member [OF l g1 b] c])
    have g: "egrows pid s s2" by (rule egrows_trans [OF g1 g2])
    show ?thesis using egrows_dict [OF g e(2)] egrows_member [OF l g b] e by simp
  qed
  show ?thesis
  proof (cases hit)
    case (Some b)
    note b = hm [OF Some]
    show ?thesis
    proof (cases "surface \<in> set (en_value (deref (eg_vault s) b) # map snd (en_variants (deref (eg_vault s) b)))")
      case True
      then show ?thesis using rest Some s b l by (auto simp: known_surface_def step_Inr egrows_refl)
    next
      case False
      then obtain sfp where "on_vault (add_variant (ev_lv env) b sfp surface) s = (Inr (), s')" "a = b"
        using rest Some s by (auto simp: known_surface_def ebind_Inr fp_of_Inr object_at_Inr eret_Inr)
      then show ?thesis using variant_egrows [OF l b] egrows_member [OF l _ b] by blast
    qed
  next
    case None
    show ?thesis
    proof (cases "category = str ''PERSON''")
      case False
      then show ?thesis using rest None s new by simp
    next
      case True
      let ?meta = "parse_person (eg_ucd env) surface"
      obtain cands s1 where c: "candidates env pid ?meta s = (Inr cands, s1)"
        and k: "(case cands of [a] \<Rightarrow> link_person env pid category surface fp ?meta a | _ \<Rightarrow> new_entity env pid category surface fp ?meta origin) s1 = (Inr a, s')"
        using rest None s True by (auto simp: ebind_Inr Let_def)
      have "s1 = s" "\<forall>b\<in>set cands. member (eg_vault s) pid b" using candidates_linked [OF l c] by auto
      then show ?thesis using k new link by (auto split: list.splits)
    qed
  qed
qed

section \<open>The replacements of a text\<close>

definition keyed :: "lv \<Rightarrow> pystr \<Rightarrow> lkey \<Rightarrow> bool" where
  "keyed v pid k \<longleftrightarrow> (\<exists>ents a. map_of (lv_cache v) pid = Some ents \<and> map_of ents k = Some a)"

lemma keyed_grows: "grows pid v v' \<Longrightarrow> keyed v pid k \<Longrightarrow> keyed v' pid k"
proof -
  assume g: "grows pid v v'" "keyed v pid k"
  obtain ents a where e: "map_of (lv_cache v) pid = Some ents" "map_of ents k = Some a" using g(2) unfolding keyed_def by blast
  obtain ents' where "map_of (lv_cache v') pid = Some ents'" "map_of ents \<subseteq>\<^sub>m map_of ents'" using growsD(5) [OF g(1) e(1)] by blast
  moreover from this have "map_of ents' k = Some a" using e(2) by (metis domI map_le_def)
  ultimately show ?thesis unfolding keyed_def by blast
qed

lemma member_keyed: "member v pid a \<Longrightarrow> keyed v pid (en_key (deref v a))"
  by (auto simp: member_def keyed_def)

definition rep_ok :: "ucd \<Rightarrow> pystr \<Rightarrow> pystr \<Rightarrow> entity_span list \<Rightarrow> replacement \<Rightarrow> bool" where
  "rep_ok u lng t xs r \<longleftrightarrow> rp_original r = slice t (rp_start r) (rp_end r) \<and> rp_new r = render_label u (rp_category r) (rp_n r) lng \<and>
     (\<exists>x\<in>set xs. rp_start r = sp_start x \<and> rp_end r = sp_end x)"

lemma label_spans_linked:
  "linked (eg_vault s) pid \<Longrightarrow> label_spans env pid lng t xs s = (Inr reps, s') \<Longrightarrow> chained xs \<Longrightarrow>
     list_all (\<lambda>x. sp_start x < sp_end x \<and> sp_end x \<le> length t) xs \<Longrightarrow>
   egrows pid s s' \<and> in_order t reps \<and> (\<forall>r\<in>set reps. rep_ok (eg_ucd env) lng t xs r \<and> keyed (eg_vault s') pid (rp_category r, rp_n r))"
proof (induction xs arbitrary: s reps s')
  case Nil
  then show ?case by (simp add: eret_Inr egrows_refl in_order_def)
next
  case (Cons x xs)
  obtain a s1 rest where r: "resolve_entity env pid (sp_type x) (slice t (sp_start x) (sp_end x)) (str ''auto'') s = (Inr a, s1)"
    and ls: "label_spans env pid lng t xs s1 = (Inr rest, s')"
    and reps: "reps = (if en_excluded (deref (eg_vault s1) a) then rest
        else replacement_of (eg_ucd env) lng t x (deref (eg_vault s1) a) # rest)"
    using Cons.prems(2) unfolding label_spans.simps step_Inr by blast
  have g: "egrows pid s s1" "member (eg_vault s1) pid a" using resolve_linked [OF Cons.prems(1) r] by auto
  have ih: "egrows pid s1 s'" "in_order t rest" "\<And>r. r \<in> set rest \<Longrightarrow> rep_ok (eg_ucd env) lng t xs r \<and> keyed (eg_vault s') pid (rp_category r, rp_n r)"
    using Cons.IH [OF egrows_linked [OF g(1)] ls] Cons.prems(3,4) by simp_all
  let ?r = "replacement_of (eg_ucd env) lng t x (deref (eg_vault s1) a)"
  have "keyed (eg_vault s') pid (en_key (deref (eg_vault s1) a))"
    using keyed_grows member_keyed [OF g(2)] ih(1) by (simp add: egrows_def)
  then have new: "rep_ok (eg_ucd env) lng t (x # xs) ?r" "keyed (eg_vault s') pid (rp_category ?r, rp_n ?r)"
    by (simp_all add: rep_ok_def replacement_of_def en_key_def)
  have more: "rep_ok (eg_ucd env) lng t (x # xs) r" if "r \<in> set rest" for r
    using ih(3) [OF that] by (auto simp: rep_ok_def)
  have "rp_end ?r \<le> rp_start r" if asm: "r \<in> set rest" for r
  proof -
    obtain y where "y \<in> set xs" "rp_start r = sp_start y" using ih(3) [OF asm] unfolding rep_ok_def by blast
    then show ?thesis using Cons.prems(3) by (simp add: replacement_of_def)
  qed
  then have "in_order t (?r # rest)" using ih(2) Cons.prems(4) by (simp add: in_order_Cons replacement_of_def)
  moreover have "reps = rest \<or> reps = ?r # rest" using reps by (simp add: Let_def split: if_splits)
  ultimately have "in_order t reps" "\<And>r. r \<in> set reps \<Longrightarrow> r = ?r \<or> r \<in> set rest" using ih(2) by auto
  then show ?case using egrows_trans [OF g(1) ih(1)] new more ih(3) by blast
qed

end
