(* ===== verification/Desktop_Restore.thy ===== *)
theory Desktop_Restore
  imports Desktop_Resolve
begin

text \<open>
  The way there and back: \<open>restore_text\<close> on what \<open>anonymize_text\<close> returned, with the recorded document,
  gives the text.
\<close>

section \<open>The recorded document\<close>

definition clock_ahead :: "lv_env \<Rightarrow> pystr \<Rightarrow> lv \<Rightarrow> bool" where
  "clock_ahead env pid v \<longleftrightarrow> list_all (\<lambda>d. dr_pid d = pid \<longrightarrow> (\<forall>k\<ge>lv_ticks v. dr_created d < le_time env k)) (lv_documents v)"

lemma insort_least:
  fixes f :: "'a \<Rightarrow> 'b::linorder"
  shows "\<forall>x\<in>set xs. f d < f x \<Longrightarrow> \<exists>ys. foldr (insort_key f) xs [d] = d # ys"
  by (induction xs) fastforce+

lemma newest_last: "\<forall>x\<in>set xs. dr_created x < dr_created d \<Longrightarrow> newest (xs @ [d]) = Some d"
proof -
  assume "\<forall>x\<in>set xs. dr_created x < dr_created d"
  then have "\<forall>x\<in>set xs. - dr_created d < - dr_created x" by simp
  from insort_least [OF this] obtain ys where "foldr (insort_key (\<lambda>r. - dr_created r)) xs [d] = d # ys" by blast
  then show ?thesis by (simp add: newest_def sort_key_def)
qed

lemma record_result:
  assumes run: "record_document env pid name doc_kind direction (Some digest) (Some j) stats v = (Inr did, v')" and env: "env_ok env"
  obtains d where "lv_documents v' = lv_documents v @ [d]" "dr_pid d = pid" "dr_digest d = Some digest" "dr_direction d = direction"
    "dr_created d = le_time env (lv_ticks v)" "\<exists>ct. dr_restore d = Some ct \<and> ct \<noteq> [] \<and> decrypt (self_vault env v) pid ct = Inr (le_dumps env False j)"
    "lv_unlocked v" "lv_unlocked v' = lv_unlocked v" "lv_master v' = lv_master v" "lv_fpkey v' = lv_fpkey v" "lv_cache v' = lv_cache v" "lv_index v' = lv_index v"
    "lv_heap v' = lv_heap v" "lv_entities v' = lv_entities v"
proof -
  obtain s1 did' nct s2 ct s3 u s5 where
    s1: "new_uid env v = (Inr did', s1)" "lv_unlocked v" and
    nct: "enc_meta env name s1 = (Inr nct, s2)" and
    ct: "encrypt_value env pid (le_dumps env False j) s2 = (Inr ct, s3)" and
    s5: "s5 = s3\<lparr>lv_ticks := Suc (lv_ticks s3), lv_documents := lv_documents s3 @
       [\<lparr>dr_id = did', dr_pid = pid, dr_name = nct, dr_kind = doc_kind, dr_direction = direction, dr_digest = Some digest,
         dr_restore = Some ct, dr_stats = le_dumps env True stats, dr_created = le_time env (lv_ticks s3)\<rparr>]\<rparr>" and
    t: "touch env pid s5 = (Inr u, v')"
    using run by (auto simp: record_document_def mbind_Inr simple_Inr need_def split: if_splits)
  obtain n where s2: "s2 = v\<lparr>lv_uuids := Suc (lv_uuids v), lv_draws := n\<rparr>"
    using s1(1) enc_meta_draws [OF nct] by (auto simp: new_uid_def)
  note ct' = encrypt_value_dec [OF env ct]
  have "ct \<noteq> []"
  proof -
    obtain x m where "ct = le_rng env m NONCE_LEN @ x" using ct by (auto simp: encrypt_value_def encrypt_def Let_def rbind_Inr_iff split: sum.splits)
    then have "NONCE_LEN \<le> length ct" using env by (simp add: env_ok_def wrap_ok_def rng_ok_def)
    then show ?thesis by (auto simp: NONCE_LEN_def)
  qed
  obtain ps where v': "v' = s5\<lparr>lv_ticks := Suc (lv_ticks s5), lv_projects := ps\<rparr>" using touch_same [OF t] by blast
  have "self_vault env s2 = self_vault env v" by (simp add: s2 self_vault_def)
  then show thesis
    using that s1(2) ct'(1) \<open>ct \<noteq> []\<close> by (simp add: v' s5 ct'(2) s2)
qed

section \<open>The occurrences\<close>

definition occ_of :: "replacement \<Rightarrow> pystr \<times> nat \<times> pystr" where
  "occ_of r = (rp_category r, rp_n r, rp_original r)"

lemma note_occurrences: "rs_occurrences (fold (note_replacement pid) reps st) = rs_occurrences st @ map occ_of reps"
  by (induction reps arbitrary: st) (simp_all add: note_replacement_def occ_of_def)

lemma exact_occurrences: "exact_list (occurrences_json occ) = Inr occ"
proof -
  have "exact_items (map (\<lambda>(c, n, x). JList [JStr c, JInt (int n), JStr x]) occ) = Inr occ"
    by (induction occ) auto
  then show ?thesis by (simp add: occurrences_json_def)
qed

lemma words_scalar: "c \<in> fst ` set WORDS \<Longrightarrow> list_all scalar c"
proof -
  have "list_all (\<lambda>(c, ws). list_all scalar c) WORDS"
    by (simp add: WORDS_def word_row_def str_def scalar_def surrogate_def)
  then show "c \<in> fst ` set WORDS \<Longrightarrow> list_all scalar c" by (auto simp: list_all_iff)
qed

lemma plain_occurrences:
  assumes "list_all (\<lambda>(c, n, x). c \<in> fst ` set WORDS \<and> encodable x) occ"
  shows "plain_json (occurrences_json occ)"
proof -
  have "encodable x \<Longrightarrow> list_all scalar x" for x by (simp add: encodable_def scalar_def [abs_def])
  then show ?thesis using assms words_scalar by (fastforce simp: occurrences_json_def plain_JList list_all_iff)
qed

section \<open>Restoring\<close>

lemma entity_at_keyed:
  assumes "linked v pid" "keyed v pid (cat, n)"
  shows "\<exists>a. entity_at env pid cat n v = (Inr (Some a), v)"
proof -
  obtain ents where "load env pid v = (Inr ents, v)" "map_of (lv_cache v) pid = Some ents" using load_linked [OF assms(1)] by blast
  then show ?thesis using assms(2) by (auto simp: entity_at_def mbind_def keyed_def ret_def)
qed

lemma restore_hits_exact:
  assumes "linked (eg_vault s) pid" "list_all (\<lambda>h. keyed (eg_vault s) pid (lh_category h, lh_number h)) hs"
    "map (\<lambda>h. (lh_category h, lh_number h)) hs = label_seq (take (length hs) (drop c items))"
  shows "\<exists>st'. restore_hits env pid (Some items) hs st c s =
    (Inr (map2 value_for hs (map (\<lambda>p. snd (snd p)) (drop c items)), st', c + length hs), s)"
  using assms(2,3)
proof (induction hs arbitrary: c st)
  case Nil
  then show ?case by (simp add: eret_def)
next
  case (Cons h hs)
  obtain a where a: "entity_at (ev_lv env) pid (lh_category h) (lh_number h) (eg_vault s) = (Inr (Some a), eg_vault s)"
    using entity_at_keyed [OF assms(1), of "lh_category h" "lh_number h" "ev_lv env"] Cons.prems(1) by (simp del: split_paired_Ex) blast
  have c: "c < length items"
  proof (rule ccontr)
    assume "\<not> c < length items"
    then show False using Cons.prems(2) by (simp add: label_seq_def)
  qed
  note dr = Cons_nth_drop_Suc [OF c, symmetric]
  obtain k n x where i: "items ! c = (k, n, x)" by (cases "items ! c") auto
  then have x: "items ! c = (lh_category h, lh_number h, x)" "drop c items = (lh_category h, lh_number h, x) # drop (Suc c) items"
    using Cons.prems(2) dr by (simp_all add: label_seq_def)
  have seq: "map (\<lambda>h. (lh_category h, lh_number h)) hs = label_seq (take (length hs) (drop (Suc c) items))"
    using Cons.prems(2) unfolding x(2) by (simp add: label_seq_def)
  have same: "s\<lparr>eg_vault := eg_vault s\<rparr> = s" by simp
  let ?st = "st\<lparr>rs_counts := bump_count (pid, lh_category h, lh_number h) 1 (rs_counts st)\<rparr>"
  obtain st' where ih: "restore_hits env pid (Some items) hs ?st (Suc c) s =
      (Inr (map2 value_for hs (map (\<lambda>p. snd (snd p)) (drop (Suc c) items)), st', Suc c + length hs), s)"
    using Cons.IH [OF _ seq] Cons.prems(1) by fastforce
  have ev: "exact_value (Some items) c h val = (x, Suc c)" for val using c x(1) by (simp add: exact_value_def)
  have "restore_hits env pid (Some items) (h # hs) st c s =
      (Inr (value_for h x # map2 value_for hs (map (\<lambda>p. snd (snd p)) (drop (Suc c) items)), st', c + length (h # hs)), s)"
    using ih by (simp add: ebind_def on_vault_def a object_at_def ev eret_def value_for_def)
  then show ?case unfolding x(2) by auto
qed

section \<open>There and back\<close>

lemma entities_frame:
  assumes "entities env pid v = (r, v')"
  shows "lv_documents v' = lv_documents v \<and> lv_ticks v' = lv_ticks v"
proof -
  have "lv_documents (snd (load env pid v)) = lv_documents v \<and> lv_ticks (snd (load env pid v)) = lv_ticks v"
    by (simp add: load_def need_def steps Let_def split: option.split sum.split)
  then show ?thesis using assms by (auto simp: entities_def mbind_def split: sum.splits prod.splits)
qed

text \<open>A vault on the way from anonymizing to restoring: the replaced entities are there and the last
  document recorded with this sequence of labels is this one.\<close>

definition recorded :: "eng_env \<Rightarrow> pystr \<Rightarrow> replacement list \<Rightarrow> lv \<Rightarrow> bool" where
  "recorded env pid reps v \<longleftrightarrow> linked v pid \<and> list_all (\<lambda>r. keyed v pid (rp_category r, rp_n r)) reps \<and>
     (\<exists>digest. label_digest (ev_sha env) (label_seq (map occ_of reps)) = Inr digest \<and>
        restore_map (ev_lv env) pid digest v = (Inr (Some (occurrences_json (map occ_of reps))), v))"

lemma label_plain:
  assumes "rp_new r = render_label u (rp_category r) (rp_n r) lng" "rp_category r \<in> fst ` set WORDS"
    "lng \<in> set (map str [''uk'', ''ru'', ''en''])"
  obtains ws w where "(rp_category r, ws) \<in> set WORDS" "(lng, w) \<in> set ws" "plain (rp_new r)"
proof -
  have "list_all (\<lambda>(c, ws). list_all (\<lambda>l. l \<in> fst ` set ws) (map str [''uk'', ''ru'', ''en''])) WORDS"
    by (simp add: WORDS_def word_row_def)
  then obtain ws w where w: "(rp_category r, ws) \<in> set WORDS" "(lng, w) \<in> set ws"
    using assms(2,3) unfolding list_all_iff by fastforce
  have "list_all ascii_digit (str_nat (rp_n r))" using str_nat_digits by (auto simp: list_all_iff ascii_digit_def)
  then have "plain (rp_new r)" using word_ok [OF w] unfolding assms(1) render_words [OF w]
    by (auto simp: label_word_ok_def list_all_iff plain_char_def ascii_digit_def)
  then show thesis using that w by blast
qed

lemma reads_all:
  assumes "ucd_cyr u" "rp_new r = render_label u (rp_category r) (rp_n r) lng" "rp_category r \<in> fst ` set WORDS"
    "lng \<in> set (map str [''uk'', ''ru'', ''en''])" "rp_n r < 10 ^ 6"
  shows "reads_as_label u r"
proof -
  obtain ws w where w: "(rp_category r, ws) \<in> set WORDS" "(lng, w) \<in> set ws" "plain (rp_new r)" by (rule label_plain [OF assms(2-4)])
  from find_labels_low [OF assms(1) w(1,2) assms(5)] w(3) show ?thesis by (simp add: assms(2) reads_as_label_def)
qed

text \<open>What undoes the replacements of a text: each label gets the text it stands for.\<close>

definition undo :: "replacement list \<Rightarrow> replacement list" where
  "undo reps = map2 value_for (label_places 0 0 reps) (map rp_original reps)"

definition reversible :: "ucd \<Rightarrow> pystr \<Rightarrow> replacement list \<Rightarrow> bool" where
  "reversible u t reps \<longleftrightarrow> in_order t reps \<and> delimited u t 0 reps \<and> find_labels u t = [] \<and>
     (\<forall>r\<in>set reps. reads_as_label u r \<and> rp_original r = slice t (rp_start r) (rp_end r))"

lemma reversible_undo:
  assumes "reversible u t reps"
  shows "find_labels u (apply_replacements t reps) = label_places 0 0 reps"
    "apply_replacements (apply_replacements t reps) (undo reps) = t"
proof -
  let ?out = "put t 0 reps"
  have ord: "in_order t reps" using assms by (simp add: reversible_def)
  have out: "apply_replacements t reps = ?out" by (rule apply_put [OF ord])
  show "find_labels u (apply_replacements t reps) = label_places 0 0 reps"
    unfolding out by (rule find_labels_put [OF ord]) (use assms in \<open>simp_all add: reversible_def\<close>)
  have "list_all (\<lambda>r. rp_new r \<noteq> []) reps"
    using assms by (fastforce simp: list_all_iff reads_as_label_def reversible_def)
  then have "in_order ?out (undo reps)" using places_order [of reps t 0 "[]" 0 "map rp_original reps"] ord by (simp add: undo_def)
  moreover have "put ?out 0 (undo reps) = t" using put_back [of t reps 0 ?out "[]"] assms by (simp add: reversible_def undo_def)
  ultimately show "apply_replacements (apply_replacements t reps) (undo reps) = t" by (simp add: out apply_put)
qed

lemma occ_seq: "map (\<lambda>h. (lh_category h, lh_number h)) (label_places off pos reps) = label_seq (map occ_of reps)"
  by (simp add: places_keys label_seq_def occ_of_def comp_def)

lemma places_keyed:
  assumes "list_all (\<lambda>r. keyed v pid (rp_category r, rp_n r)) reps"
  shows "list_all (\<lambda>h. keyed v pid (lh_category h, lh_number h)) (label_places off pos reps)"
proof -
  have "list_all (keyed v pid) (map (\<lambda>h. (lh_category h, lh_number h)) (label_places off pos reps))"
    using assms by (simp add: places_keys list.pred_map comp_def)
  then show ?thesis by (simp add: list.pred_map comp_def)
qed

text \<open>Restoring one unit of a document whose recorded occurrences go on with those of the unit.\<close>

lemma restore_unit_undo:
  assumes "reversible (eg_ucd env) t reps" "linked (eg_vault s) pid"
    "list_all (\<lambda>r. keyed (eg_vault s) pid (rp_category r, rp_n r)) reps" "drop c items = map occ_of reps @ rest"
  shows "\<exists>st'. restore_unit env pid (apply_replacements t reps) st (Some items) c s = (Inr (undo reps, st', c + length reps), s)"
proof -
  let ?hs = "label_places 0 0 reps"
  have "map (\<lambda>h. (lh_category h, lh_number h)) ?hs = label_seq (take (length ?hs) (drop c items))"
    using assms(4) by (simp add: occ_seq)
  from restore_hits_exact [OF assms(2) places_keyed [OF assms(3)] this]
  obtain st' where "restore_hits env pid (Some items) ?hs (st\<lparr>rs_units_out := rs_units_out st @ [apply_replacements t reps]\<rparr>) c s =
      (Inr (map2 value_for ?hs (map (\<lambda>p. snd (snd p)) (drop c items)), st', c + length ?hs), s)" by blast
  moreover have "map2 value_for ?hs (map (\<lambda>p. snd (snd p)) (drop c items)) = undo reps"
    using assms(4) by (simp add: undo_def occ_of_def comp_def zip_append2)
  ultimately show ?thesis using reversible_undo(1) [OF assms(1)] by (simp add: restore_unit_def)
qed

lemma exact_map_recorded:
  assumes "recorded env pid reps (eg_vault s)" "reps \<noteq> []" "labels_in (eg_ucd env) ts = label_seq (map occ_of reps)"
  shows "exact_map env pid ts s = (Inr (Some (map occ_of reps)), s)"
proof -
  obtain digest where d: "label_digest (ev_sha env) (label_seq (map occ_of reps)) = Inr digest"
      "restore_map (ev_lv env) pid digest (eg_vault s) = (Inr (Some (occurrences_json (map occ_of reps))), eg_vault s)"
    using assms(1) by (auto simp: recorded_def)
  have "label_seq (map occ_of reps) \<noteq> []" using assms(2) by (simp add: label_seq_def)
  then show ?thesis
    by (simp add: exact_map_def assms(3) ebind_def elift_def d(1) on_vault_def d(2) exact_occurrences eret_def)
qed

lemma restore_recorded:
  assumes rec: "reps = [] \<or> recorded env pid reps (eg_vault s)" and rev: "reversible (eg_ucd env) t reps"
  shows "\<exists>st' reps'. restore_text env pid (apply_replacements t reps) s = (Inr (t, st', reps'), s)"
proof (cases "reps = []")
  case True
  then show ?thesis using reversible_undo [OF rev] unfolding restore_text_def
    by (simp add: exact_map_def labels_in_def restore_unit_def ebind_def eret_def apply_replacements_def)
next
  case False
  let ?out = "apply_replacements t reps"
  have r: "recorded env pid reps (eg_vault s)" using rec False by blast
  have "labels_in (eg_ucd env) [?out] = label_seq (map occ_of reps)" by (simp add: labels_in_def reversible_undo(1) [OF rev] occ_seq)
  note ex = exact_map_recorded [OF r False this]
  obtain st' where "restore_unit env pid ?out new_run (Some (map occ_of reps)) 0 s = (Inr (undo reps, st', 0 + length reps), s)"
    using restore_unit_undo [OF rev, of s pid 0 "map occ_of reps" "[]" new_run] r by (auto simp: recorded_def)
  then show ?thesis using ex reversible_undo(2) [OF rev] unfolding restore_text_def by (simp add: ebind_def eret_def)
qed

lemma keyed_same: "lv_cache v' = lv_cache v \<Longrightarrow> keyed v' pid k = keyed v pid k"
  by (simp add: keyed_def)

lemma linked_same:
  "linked v pid \<Longrightarrow> lv_unlocked v' = lv_unlocked v \<Longrightarrow> lv_cache v' = lv_cache v \<Longrightarrow> lv_index v' = lv_index v \<Longrightarrow> lv_heap v' = lv_heap v \<Longrightarrow>
     lv_entities v' = lv_entities v \<Longrightarrow> linked v' pid"
  by (simp add: linked_def objects_ok_def deref_def rows_def)

lemma record_restores:
  assumes env: "env_ok env" and clock: "clock_ahead env pid v" and j: "plain_json j"
    and run: "record_document env pid name doc_kind (str ''anon'') (Some digest) (Some j) stats v = (Inr did, v')"
  shows "restore_map env pid digest v' = (Inr (Some j), v')"
proof -
  obtain d ct where d: "lv_documents v' = lv_documents v @ [d]" "dr_pid d = pid" "dr_digest d = Some digest" "dr_direction d = str ''anon''"
    "dr_created d = le_time env (lv_ticks v)" "dr_restore d = Some ct" "ct \<noteq> []" "decrypt (self_vault env v) pid ct = Inr (le_dumps env False j)"
    "lv_unlocked v" "lv_unlocked v' = lv_unlocked v" "lv_master v' = lv_master v" "lv_fpkey v' = lv_fpkey v"
    by (rule record_result [OF run env]) blast
  let ?P = "\<lambda>r. dr_pid r = pid \<and> dr_digest r = Some digest \<and> dr_direction r = str ''anon''"
  have "\<forall>x\<in>set (filter ?P (lv_documents v)). dr_created x < dr_created d"
    using clock d(5) by (auto simp: clock_ahead_def list_all_iff)
  from newest_last [OF this] have n: "newest (filter ?P (lv_documents v')) = Some d" using d(1-4) by simp
  have "self_vault env v' = self_vault env v" using d by (simp add: self_vault_def)
  moreover have "le_loads env (le_dumps env False j) = Inr j" using env j by (simp add: env_ok_def json_ok_def)
  ultimately show ?thesis using d n by (simp add: restore_map_def mbind_def need_def ret_def)
qed

text \<open>Anonymizing a unit, from a vault that was read or can be.\<close>

definition ready :: "eng_env \<Rightarrow> pystr \<Rightarrow> lv \<Rightarrow> bool" where
  "ready env pid v \<longleftrightarrow> coherent (ev_lv env) v \<or> linked v pid"

definition labelled :: "ucd \<Rightarrow> pystr \<Rightarrow> pystr \<Rightarrow> replacement list \<Rightarrow> bool" where
  "labelled u lng t reps \<longleftrightarrow> in_order t reps \<and>
     (\<forall>r\<in>set reps. rp_original r = slice t (rp_start r) (rp_end r) \<and> rp_new r = render_label u (rp_category r) (rp_n r) lng)"

definition moved :: "pystr \<Rightarrow> lv \<Rightarrow> replacement list \<Rightarrow> lv \<Rightarrow> bool" where
  "moved pid v reps v' \<longleftrightarrow> lv_documents v' = lv_documents v \<and> lv_ticks v \<le> lv_ticks v' \<and>
     (linked v' pid \<or> reps = [] \<and> v' = v) \<and> (linked v pid \<longrightarrow> grows pid v v') \<and>
     (\<forall>r\<in>set reps. keyed v' pid (rp_category r, rp_n r))"

lemma unit_moves:
  assumes rd: "ready env pid (eg_vault s)" and au: "anonymize_unit env pid t st lng options force s = (Inr (reps, st'), s')"
  shows "labelled (eg_ucd env) lng t reps \<and> rs_occurrences st' = rs_occurrences st @ map occ_of reps \<and>
    moved pid (eg_vault s) reps (eg_vault s')"
proof -
  obtain spans s1 reps0 where ds: "detect_spans env (Some pid) options force t s = (Inr spans, s1)"
    and ls: "label_spans env pid lng t spans s1 = (Inr reps0, s')"
    and reps: "reps = sort_key rp_start reps0" "rs_occurrences st' = rs_occurrences (fold (note_replacement pid) reps st)"
    using au by (auto simp: anonymize_unit_def egm_Inr Let_def)
  have occ: "rs_occurrences st' = rs_occurrences st @ map occ_of reps" using reps(2) by (simp add: note_occurrences)
  have sp: "chained spans" "list_all (\<lambda>x. sp_start x < sp_end x \<and> sp_end x \<le> length t) spans"
    "spans = [] \<and> s1 = s \<or> (\<exists>as. entities (ev_lv env) pid (eg_vault s) = (Inr as, eg_vault s1))"
    using detect_spans_result [OF ds] by (auto simp: span_ok_def list_all_iff)
  show ?thesis
  proof (cases "spans = [] \<and> s1 = s")
    case True
    then have "reps = []" "s' = s" using ls reps(1) by (simp_all add: eret_Inr)
    then show ?thesis using occ by (simp add: labelled_def moved_def in_order_def grows_refl)
  next
    case False
    then obtain as where e: "entities (ev_lv env) pid (eg_vault s) = (Inr as, eg_vault s1)" using sp(3) by blast
    have same1: "eg_vault s1 = eg_vault s" if "linked (eg_vault s) pid" using entities_linked [OF that e] by simp
    have l1: "linked (eg_vault s1) pid" using rd entities_links [OF _ e] same1 by (auto simp: ready_def)
    have f1: "lv_documents (eg_vault s1) = lv_documents (eg_vault s)" "lv_ticks (eg_vault s1) = lv_ticks (eg_vault s)"
      using entities_frame [OF e] by simp_all
    have g: "grows pid (eg_vault s1) (eg_vault s')" "in_order t reps0"
      "\<And>r. r \<in> set reps0 \<Longrightarrow> rep_ok (eg_ucd env) lng t spans r \<and> keyed (eg_vault s') pid (rp_category r, rp_n r)"
      using label_spans_linked [OF l1 ls sp(1,2)] by (auto simp: egrows_def)
    have same: "reps = reps0" using reps(1) in_order_sort(2) [OF g(2)] by simp
    show ?thesis using occ g same f1 same1 growsD(1,3,4) [OF g(1)] by (auto simp: labelled_def moved_def rep_ok_def)
  qed
qed

text \<open>Recording what was replaced.\<close>

lemma recorded_after:
  assumes env: "env_ok (ev_lv env)" and m: "moved pid v reps v2" and clock: "clock_ahead (ev_lv env) pid v" and ne: "reps \<noteq> []"
    and cats: "list_all (\<lambda>r. rp_category r \<in> fst ` set WORDS \<and> encodable (rp_original r)) reps"
    and dg: "label_digest (ev_sha env) (label_seq (map occ_of reps)) = Inr digest"
    and rd: "record_document (ev_lv env) pid name doc_kind (str ''anon'') (Some digest) (Some (occurrences_json (map occ_of reps))) stats
      (bump items v2) = (Inr did, v')"
  shows "recorded env pid reps v'"
proof -
  let ?v = "bump items v2"
  have l2: "linked v2 pid" using m ne by (auto simp: moved_def)
  have gb: "grows pid v2 ?v" by (rule bump_grows [OF l2])
  have "clock_ahead (ev_lv env) pid ?v"
    using clock growsD(3,4) [OF gb] m unfolding clock_ahead_def moved_def by (simp add: list_all_iff)
  moreover have "plain_json (occurrences_json (map occ_of reps))"
    using cats by (intro plain_occurrences) (simp add: list_all_iff occ_of_def)
  ultimately have "restore_map (ev_lv env) pid digest v' = (Inr (Some (occurrences_json (map occ_of reps))), v')"
    using record_restores [OF env _ _ rd] by simp
  moreover have "linked v' pid \<and> (keyed ?v pid k \<longrightarrow> keyed v' pid k)" for k
  proof -
    obtain d where d: "lv_unlocked v' = lv_unlocked ?v" "lv_cache v' = lv_cache ?v" "lv_index v' = lv_index ?v"
        "lv_heap v' = lv_heap ?v" "lv_entities v' = lv_entities ?v"
      by (rule record_result [OF rd env]) blast
    show ?thesis using linked_same [OF growsD(1) [OF gb] d] keyed_same [OF d(2)] by blast
  qed
  moreover have "keyed ?v pid (rp_category r, rp_n r)" if "r \<in> set reps" for r
    using m that keyed_grows [OF gb] by (auto simp: moved_def)
  ultimately show ?thesis using dg by (simp add: recorded_def list_all_iff)
qed

lemma originals_encodable: "labelled u lng t reps \<Longrightarrow> encodable t \<Longrightarrow> r \<in> set reps \<Longrightarrow> encodable (rp_original r)"
  by (simp add: labelled_def encodable_slice)

lemma anonymize_records:
  assumes env: "env_ok (ev_lv env)" and c: "coherent (ev_lv env) (eg_vault s)"
    and clock: "clock_ahead (ev_lv env) pid (eg_vault s)" and enc: "encodable t" and name: "name \<noteq> []"
    and run: "anonymize_text env pid t lng options (Some name) s = (Inr (out, st, reps), s')"
    and cats: "list_all (\<lambda>r. rp_category r \<in> fst ` set WORDS) reps"
  shows "out = apply_replacements t reps \<and> labelled (eg_ucd env) lng t reps \<and> (reps = [] \<or> recorded env pid reps (eg_vault s'))"
proof -
  obtain s2 digest did where au: "anonymize_unit env pid t new_run lng options None s = (Inr (reps, st), s2)"
    and dg: "label_digest (ev_sha env) (label_seq (rs_occurrences st)) = Inr digest"
    and rd: "record_document (ev_lv env) pid name (str ''text'') (str ''anon'') (Some digest)
        (Some (occurrences_json (rs_occurrences st))) (run_stats (rs_occurrences st)) (bump (rs_counts st) (eg_vault s2)) = (Inr did, eg_vault s')"
    and out: "out = apply_replacements t reps"
    using run name by (auto simp: anonymize_text_def egm_Inr finish_anon_def split: prod.splits)
  have u: "labelled (eg_ucd env) lng t reps" "rs_occurrences st = map occ_of reps" "moved pid (eg_vault s) reps (eg_vault s2)"
    using unit_moves [OF _ au] c by (auto simp: ready_def new_run_def)
  have "list_all (\<lambda>r. rp_category r \<in> fst ` set WORDS \<and> encodable (rp_original r)) reps"
    using cats originals_encodable [OF u(1) enc] by (simp add: list_all_iff)
  then have "recorded env pid reps (eg_vault s')" if "reps \<noteq> []"
    using recorded_after [OF env u(3) clock that _ dg [unfolded u(2)] rd [unfolded u(2)]] by blast
  then show ?thesis using out u(1) by blast
qed

end
