(* ===== verification/Desktop_Same.thy ===== *)
theory Desktop_Same
  imports Desktop_Resolve
begin

text \<open>
  Same value, same label: after a surface is resolved its fingerprint leads to the entity it got, so the next
  surface with that normal form gets the same one.
\<close>

definition indexed :: "lv \<Rightarrow> pystr \<Rightarrow> pystr \<Rightarrow> nat \<Rightarrow> bool" where
  "indexed v pid fp a \<longleftrightarrow> (\<exists>idx. map_of (lv_index v) pid = Some idx \<and> map_of idx fp = Some a)"

lemma by_fingerprint_indexed:
  assumes "linked v pid"
  shows "by_fingerprint env pid fp v = (Inr (Some a), v') \<longleftrightarrow> indexed v pid fp a \<and> v' = v"
    "by_fingerprint env pid fp v = (Inr None, v') \<longleftrightarrow> (\<forall>a. \<not> indexed v pid fp a) \<and> v' = v"
proof -
  obtain ents where l: "load env pid v = (Inr ents, v)" using load_linked [OF assms] by blast
  obtain idx where i: "map_of (lv_index v) pid = Some idx" by (rule linkedE [OF assms])
  have b: "by_fingerprint env pid fp v = (Inr (map_of idx fp), v)" using l i by (simp add: by_fingerprint_def mbind_def)
  show "by_fingerprint env pid fp v = (Inr (Some a), v') \<longleftrightarrow> indexed v pid fp a \<and> v' = v"
    using i unfolding b by (auto simp: indexed_def)
  show "by_fingerprint env pid fp v = (Inr None, v') \<longleftrightarrow> (\<forall>a. \<not> indexed v pid fp a) \<and> v' = v"
    using i unfolding b by (auto simp: indexed_def)
qed

lemma add_variant_index:
  assumes "linked v pid" "member v pid a" "add_variant env a fp surface v = (Inr u, v')"
  shows "if fp \<in> fps (deref v a) then v' = v
    else lv_index v' = AList.update pid (AList.update fp a (the (map_of (lv_index v) pid))) (lv_index v)"
proof -
  have p: "en_pid (deref v a) = pid" using member_less [OF assms(1,2)] by simp
  obtain idx where i: "map_of (lv_index v) pid = Some idx" by (rule linkedE [OF assms(1)])
  show ?thesis using assms(3) p i
    by (auto simp: fps_def add_variant_def Let_def mbind_Inr simple_Inr insert_variant_def set_obj_def index_set_def
        encrypt_value_def deref_def split: option.splits sum.splits if_splits)
qed

lemma variant_indexed:
  assumes "linked v pid" "member v pid a" "add_variant env a fp surface v = (Inr u, v')"
  shows "indexed v pid g a \<Longrightarrow> indexed v' pid g a" "fp \<notin> fps (deref v a) \<Longrightarrow> indexed v' pid fp a"
  using add_variant_index [OF assms] by (auto simp: indexed_def update_conv' split: if_splits)

lemma set_canonical_index: "set_canonical env a val meta v = (r, v') \<Longrightarrow> lv_index v' = lv_index v"
  by (cases meta) (auto simp: set_canonical_def steps set_obj_def encrypt_value_def enc_meta_def set_row_def Let_def deref_def
      split: sum.splits prod.splits)

lemma new_indexed:
  assumes "linked v pid" "add_entity env pid category canonical fp meta origin excluded v = (Inr a, v')"
  shows "indexed v' pid fp a"
proof -
  obtain ents idx where e: "map_of (lv_cache v) pid = Some ents" "map_of (lv_index v) pid = Some idx" by (rule linkedE [OF assms(1)])
  have l: "load env pid v = (Inr ents, v)" using load_linked [OF assms(1)] e(1) by auto
  obtain s5 s6 u where x: "index_set pid fp a s5 = (Inr u, s6)" and tch: "touch env pid s6 = (Inr (), v')"
    using assms(2) l unfolding add_entity_def by (auto simp: mbind_Inr simple_Inr)
  have "indexed s6 pid fp a" using x by (auto simp: index_set_def indexed_def update_conv' split: option.splits)
  then show ?thesis using touch_same [OF tch] by (auto simp: indexed_def)
qed

text \<open>In a coherent vault no entity has a fingerprint that is not in the index.\<close>

lemma coherent_missing:
  assumes "coherent env v" "linked v pid" "member v pid a" "\<forall>b. \<not> indexed v pid fp b"
  shows "fp \<notin> fps (deref v a)"
proof
  assume fp: "fp \<in> fps (deref v a)"
  obtain ents where e: "map_of (lv_cache v) pid = Some ents" by (rule linkedE [OF assms(2)])
  have "a \<in> snd ` set ents" using map_of_SomeD [OF memberD [OF assms(3) e]] by force
  moreover obtain idx where "map_of (lv_index v) pid = Some idx" "index_ok v ents idx"
    using coherentD(5) [OF assms(1) e] by (auto simp: project_ok_def)
  ultimately have "indexed v pid fp a" using fp unfolding indexed_def index_ok_def by blast
  then show False using assms(4) by blast
qed

lemma set_better_indexed:
  assumes l: "linked (eg_vault s) pid" and m: "member (eg_vault s) pid a" and r: "set_better env pid category surface meta a s = (Inr u, s')"
    and i: "indexed (eg_vault s) pid fp a"
  shows "indexed (eg_vault s') pid fp a"
proof (cases "nominative_score (eg_ucd env) (en_value (deref (eg_vault s) a)) < nominative_score (eg_ucd env) surface")
  case False
  then show ?thesis using r i by (simp add: set_better_def step_Inr)
next
  case True
  then obtain old where old: "en_meta (deref (eg_vault s) a) = JDict old"
    using r by (cases "en_meta (deref (eg_vault s) a)") (auto simp: set_better_def step_Inr)
  obtain ofp v1 where c: "set_canonical (ev_lv env) a surface (Some (JDict (merge_meta meta old))) (eg_vault s) = (Inr (), v1)"
    and v: "add_variant (ev_lv env) a ofp (en_value (deref (eg_vault s) a)) v1 = (Inr u, eg_vault s')"
    using r True old by (auto simp: set_better_def step_Inr)
  have g: "grows pid (eg_vault s) v1" by (rule set_canonical_grows [OF l m c])
  have "indexed v1 pid fp a" using i set_canonical_index [OF c] by (simp add: indexed_def)
  then show ?thesis by (rule variant_indexed(1) [OF growsD(1) [OF g] member_grows [OF l g m] v])
qed

lemma resolve_indexed:
  assumes c: "coherent (ev_lv env) (eg_vault s)" and l: "linked (eg_vault s) pid" and r: "resolve_entity env pid category surface origin s = (Inr a, s')"
  shows "\<exists>fp. label_fingerprint (ev_lv env) pid category (normalize_value (eg_ucd env) category surface) (eg_vault s) = Inr fp \<and>
    indexed (eg_vault s') pid fp a"
proof -
  let ?nv = "normalize_value (eg_ucd env) category surface"
  obtain fp hit v where f: "label_fingerprint (ev_lv env) pid category ?nv (eg_vault s) = Inr fp"
    and h: "by_fingerprint (ev_lv env) pid fp (eg_vault s) = (Inr hit, v)"
    and rest: "(case hit of Some a \<Rightarrow> known_surface env pid category surface a
       | None \<Rightarrow> if category = str ''PERSON'' then
             (let meta = parse_person (eg_ucd env) surface in
              ebind (candidates env pid meta) (\<lambda>cands.
                case cands of
                  [a] \<Rightarrow> link_person env pid category surface fp meta a
                | _ \<Rightarrow> new_entity env pid category surface fp meta origin))
           else new_entity env pid category surface fp [] origin) (s\<lparr>eg_vault := v\<rparr>) = (Inr a, s')"
    using r unfolding resolve_entity_def step_Inr by blast
  have s: "s\<lparr>eg_vault := v\<rparr> = s" using by_fingerprint_linked [OF l h] by simp
  have new: "indexed (eg_vault s') pid fp a" if "new_entity env pid category surface fp meta origin s = (Inr a, s')" for meta
    using that new_indexed [OF l] by (auto simp: new_entity_def step_Inr)
  have "indexed (eg_vault s') pid fp a"
  proof (cases hit)
    case (Some b)
    then have i: "indexed (eg_vault s) pid fp b" using h by_fingerprint_indexed(1) [OF l] by simp
    have m: "member (eg_vault s) pid b" using by_fingerprint_linked [OF l h] Some by simp
    show ?thesis
    proof (cases "surface \<in> set (en_value (deref (eg_vault s) b) # map snd (en_variants (deref (eg_vault s) b)))")
      case True
      then show ?thesis using rest Some s i by (auto simp: known_surface_def step_Inr)
    next
      case False
      then obtain sfp where "add_variant (ev_lv env) b sfp surface (eg_vault s) = (Inr (), eg_vault s')" "a = b"
        using rest Some s by (auto simp: known_surface_def step_Inr)
      then show ?thesis using variant_indexed(1) [OF l m _ i] by blast
    qed
  next
    case None
    then have no: "\<forall>b. \<not> indexed (eg_vault s) pid fp b" using h by_fingerprint_indexed(2) [OF l] by simp
    have link: "indexed (eg_vault s') pid fp a"
      if lp: "link_person env pid category surface fp meta b s = (Inr a, s')" and b: "member (eg_vault s) pid b" for meta b
    proof -
      obtain v1 s1 s2 where v: "add_variant (ev_lv env) b fp surface (eg_vault s) = (Inr (), v1)" "s1 = s\<lparr>eg_vault := v1\<rparr>"
        and sb: "set_better env pid category surface meta b s1 = (Inr (), s2)" and e: "a = b" "eg_vault s' = eg_vault s2"
        using lp by (auto simp: link_person_def step_Inr)
      have g: "grows pid (eg_vault s) v1" by (rule add_variant_grows [OF l b v(1)])
      have "indexed v1 pid fp b" by (rule variant_indexed(2) [OF l b v(1) coherent_missing [OF c l b no]])
      then show ?thesis
        using set_better_indexed [OF _ _ sb] growsD(1) [OF g] member_grows [OF l g b] e v(2) by simp
    qed
    show ?thesis
    proof (cases "category = str ''PERSON''")
      case False
      then show ?thesis using rest None s new by simp
    next
      case True
      let ?meta = "parse_person (eg_ucd env) surface"
      obtain cands s1 where cd: "candidates env pid ?meta s = (Inr cands, s1)"
        and k: "(case cands of [a] \<Rightarrow> link_person env pid category surface fp ?meta a | _ \<Rightarrow> new_entity env pid category surface fp ?meta origin) s1 = (Inr a, s')"
        using rest None s True by (auto simp: ebind_Inr Let_def)
      have "s1 = s" "\<forall>b\<in>set cands. member (eg_vault s) pid b" using candidates_linked [OF l cd] by auto
      then show ?thesis using k new link by (auto split: list.splits)
    qed
  qed
  then show ?thesis using f by blast
qed

section \<open>Resolving twice\<close>

lemma fingerprint_same: "lv_fpkey v' = lv_fpkey v \<Longrightarrow> label_fingerprint env pid cat nv v' = label_fingerprint env pid cat nv v"
  by (simp add: label_fingerprint_def fingerprint_def self_vault_def)

lemma resolve_loads:
  assumes c: "coherent (ev_lv env) (eg_vault s)" and r: "resolve_entity env pid category surface origin s = (Inr a, s')"
  obtains v where "coherent (ev_lv env) v" "linked v pid" "resolve_entity env pid category surface origin (s\<lparr>eg_vault := v\<rparr>) = (Inr a, s')"
proof -
  let ?nv = "normalize_value (eg_ucd env) category surface"
  obtain fp hit v where f: "label_fingerprint (ev_lv env) pid category ?nv (eg_vault s) = Inr fp"
    and h: "by_fingerprint (ev_lv env) pid fp (eg_vault s) = (Inr hit, v)"
    using r unfolding resolve_entity_def step_Inr by blast
  obtain ents where l: "load (ev_lv env) pid (eg_vault s) = (Inr ents, v)"
    using h by (auto simp: by_fingerprint_def mbind_Inr split: option.splits)
  have v: "coherent (ev_lv env) v" "linked v pid" using load_coherent [OF c l] load_links [OF c l] by auto
  have "lv_fpkey v = lv_fpkey (eg_vault s)" using load_coherent [OF c l] by (simp add: same_keys_def)
  note f' = fingerprint_same [OF this]
  have "load (ev_lv env) pid v = (Inr ents, v)" using load_linked [OF v(2), of "ev_lv env"] load_coherent [OF c l] by auto
  then have "by_fingerprint (ev_lv env) pid fp v = by_fingerprint (ev_lv env) pid fp (eg_vault s)"
    using l by (simp add: by_fingerprint_def mbind_def)
  then have "resolve_entity env pid category surface origin (s\<lparr>eg_vault := v\<rparr>) = resolve_entity env pid category surface origin s"
    using f h by (simp add: resolve_entity_def ebind_def fp_of_def f' on_vault_def)
  then show thesis using that v r by simp
qed

end
