(* ===== verification/Desktop_Roundtrip.thy ===== *)
theory Desktop_Roundtrip
  imports Desktop_Restore Desktop_Same Audit_Log
begin

text \<open>
  The round trip of a pasted text, from a vault reached by its own operations, and an instance of it: one
  known value in a project, a text that mentions it, and the text again.
\<close>

section \<open>Kinds of the rule spans\<close>

definition RULE_TYPES :: "pystr list" where
  "RULE_TYPES = map str [''PERSON'', ''ORG'', ''ADDRESS'', ''BANK_ACCOUNT'', ''PHONE'', ''CREDIT_CARD'', ''PASSPORT'', ''AMOUNT'']"

definition typed :: "entity_span \<Rightarrow> bool" where
  "typed x \<longleftrightarrow> sp_type x \<in> set RULE_TYPES"

lemma typed_rule: "typed (rule_span s ab ty sc) \<longleftrightarrow> str ty \<in> set RULE_TYPES" "typed (x\<lparr>sp_text := w\<rparr>) \<longleftrightarrow> typed x"
  by (simp_all add: typed_def rule_span_def)

lemma kinds: "str ''PERSON'' \<in> set RULE_TYPES" "str ''ORG'' \<in> set RULE_TYPES" "str ''ADDRESS'' \<in> set RULE_TYPES"
  "str ''BANK_ACCOUNT'' \<in> set RULE_TYPES" "str ''PHONE'' \<in> set RULE_TYPES" "str ''CREDIT_CARD'' \<in> set RULE_TYPES"
  "str ''PASSPORT'' \<in> set RULE_TYPES" "str ''AMOUNT'' \<in> set RULE_TYPES"
  by (simp_all add: RULE_TYPES_def)

lemma gather_typed: "(\<And>m x. x \<in> set (f m) \<Longrightarrow> typed x) \<Longrightarrow> x \<in> set (gather_spans u r s f) \<Longrightarrow> typed x"
  by (auto simp: gather_spans_def)

lemma gather_all_typed: "(\<And>m x. x \<in> set (f m) \<Longrightarrow> typed x) \<Longrightarrow> x \<in> set (gather_all u rs s f) \<Longrightarrow> typed x"
  by (auto simp: gather_all_def gather_spans_def)

lemma pair_typed: "x \<in> set (pair_span u s m) \<Longrightarrow> typed x"
  by (auto simp: pair_span_def Let_def typed_rule kinds split: if_splits)

lemma pair_loop_typed:
  assumes "pair_loop u r s pos acc = Some out"
  shows "(\<forall>x\<in>set acc. typed x) \<longrightarrow> (\<forall>x\<in>set out. typed x)"
proof (rule pair_loop.raw_induct [where P = "\<lambda>u r s pos acc out. (\<forall>x\<in>set acc. typed x) \<longrightarrow> (\<forall>x\<in>set out. typed x)", OF _ assms], rule impI)
  fix loop u r s pos acc out
  assume ih: "\<And>u rx s pos acc y. loop u rx s pos acc = Some y \<Longrightarrow> (\<forall>x\<in>set acc. typed x) \<longrightarrow> (\<forall>x\<in>set y. typed x)"
    and st: "(case search_at u r s pos of None \<Rightarrow> Some acc | Some m \<Rightarrow> loop u r s (fst (grp_span m ''b'')) (acc @ pair_span u s m)) = Some out"
    and acc: "\<forall>x\<in>set acc. typed x"
  show "\<forall>x\<in>set out. typed x"
  proof (cases "search_at u r s pos")
    case (Some m)
    then have "loop u r s (fst (grp_span m ''b'')) (acc @ pair_span u s m) = Some out" using st by simp
    moreover have "\<forall>x\<in>set (acc @ pair_span u s m). typed x" using acc pair_typed [of _ u s m] by auto
    ultimately show ?thesis using ih by blast
  qed (use st acc in simp)
qed

lemma pair_names_typed: "pair_names u rs s acc = Some out \<Longrightarrow> \<forall>x\<in>set acc. typed x \<Longrightarrow> \<forall>x\<in>set out. typed x"
  by (induction rs arbitrary: acc) (auto simp: bind_eq_Some_conv dest: pair_loop_typed)

lemma people_typed: "x \<in> set (single_surnames u s @ full_names u s @ initials_names u s @ sole_traders u s @ cue_names u s @ lone_first_names u s) \<Longrightarrow> typed x"
  unfolding set_append Un_iff single_surnames_def full_names_def initials_names_def sole_traders_def lone_first_names_def cue_names_def
  by (elim disjE gather_typed [rotated] gather_all_typed [rotated]) (auto simp: Let_def typed_rule kinds split: if_splits option.splits)

lemma companies_typed: "x \<in> set (detect_companies u s) \<Longrightarrow> typed x"
  unfolding detect_companies_def set_append Un_iff quoted_companies_def bare_companies_def english_companies_def cued_companies_def
  by (elim disjE gather_typed [rotated]) (auto simp: Let_def typed_rule kinds split: if_splits option.splits)

lemma misc_typed: "x \<in> set (detect_misc u s amounts) \<Longrightarrow> typed x"
  unfolding detect_misc_def set_append Un_iff account_spans_def phone_spans_def
  by (elim disjE gather_typed [rotated] gather_all_typed [rotated])
    (auto simp: Let_def typed_rule kinds split: if_splits elim!: gather_all_typed [rotated])

lemma addresses_typed: "address_spans u s ml = Some out \<Longrightarrow> x \<in> set out \<Longrightarrow> typed x"
  by (induction ml arbitrary: out) (auto simp: bind_eq_Some_conv address_span_def Let_def typed_rule kinds)

lemma rule_spans_typed: "x \<in> set (rule_spans u s amounts) \<Longrightarrow> typed x"
proof -
  assume x: "x \<in> set (rule_spans u s amounts)"
  obtain people addresses where p: "detect_people u s = Some people" "detect_addresses u s = Some addresses"
    using detect_people_returns detect_addresses_returns by blast
  then have "x \<in> set (detect_companies u s @ people @ addresses @ detect_misc u s amounts)"
    using x by (simp add: rule_spans_def detect_all_def)
  moreover have "\<forall>x\<in>set people. typed x"
  proof -
    let ?a = "single_surnames u s @ full_names u s @ initials_names u s @ sole_traders u s @ cue_names u s"
    obtain y where y: "pair_names u P_TWO s ?a = Some y" "people = y @ lone_first_names u s"
      using p(1) by (auto simp: detect_people_def bind_eq_Some_conv)
    have "\<forall>x\<in>set ?a. typed x" using people_typed [of _ u s] by auto
    then show ?thesis using pair_names_typed [OF y(1)] y(2) people_typed [of _ u s] by auto
  qed
  moreover have "\<forall>x\<in>set addresses. typed x" using p(2) addresses_typed by (auto simp: detect_addresses_def)
  ultimately show "typed x" using companies_typed misc_typed by auto
qed

section \<open>A concrete project\<close>

definition demo_engine :: eng_env where
  "demo_engine = \<lparr>ev_lv = demo_env, ev_packs = \<lparr>pe_ucd = cyr_ucd, pe_compile = \<lambda>_ _. Inl ValueError, pe_repr = \<lambda>_. []\<rparr>,
     ev_files = \<lambda>_. Inr None, ev_sha = id\<rparr>"

definition demo_options :: eng_options where
  "demo_options = \<lparr>op_categories = [str ''UCI''], op_packs = []\<rparr>"

definition abc :: pystr where "abc = str ''abc''"

lemma demo_fields [simp]: "eg_ucd demo_engine = cyr_ucd" "ev_lv demo_engine = demo_env" "ev_sha demo_engine = id"
  by (simp_all add: demo_engine_def eg_ucd_def)

lemma abc_classes:
  "cls_in cyr_ucd True False (CWord # its) 99"
  "cls_in cyr_ucd True False [CRange 97 97] 97" "cls_in cyr_ucd True False [CRange 98 98] 98" "cls_in cyr_ucd True False [CRange 99 99] 99"
  by (simp_all add: cls_in_def word_char_def cyr_ucd_def ascii_ucd_def ascii_defs plain_lower_def ascii_lower_def)

lemma abc_ms: "ms cyr_ucd abc (dict_re [abc]) 0 [] = [(3, [])]" "ms cyr_ucd abc (dict_re [abc]) 3 [] = []"
  by (simp_all add: dict_re_def DICT_LEFT_def DICT_RIGHT_def lit_ci_def abc_def str_def abc_classes del: One_nat_def)

lemma abc_match: "finditer cyr_ucd (dict_re [abc]) abc = [(0, 3, [])]"
proof -
  have l: "length abc = 3" by (simp add: abc_def str_def)
  have "match_at cyr_ucd (dict_re [abc]) abc 0 False = Some (0, 3, [])" "match_at cyr_ucd (dict_re [abc]) abc 3 False = None"
    using abc_ms by (simp_all add: match_at_def del: ms.simps)
  then have f: "search_from cyr_ucd (dict_re [abc]) abc (Suc 3) 0 False = Some (0, 3, [])"
    "search_from cyr_ucd (dict_re [abc]) abc (Suc 0) 3 False = None" by (simp_all only: search_from.simps option.case)
  have n: "2 * length abc + 2 = Suc (Suc 6)" "Suc (length abc) - 0 = Suc 3" "Suc (length abc) - 3 = Suc 0" using l by simp_all
  show ?thesis unfolding finditer_def n(1) by (simp only: find_from.simps n(2,3) f option.case m_end_def m_start_def fst_conv snd_conv) (simp add: f n(3) del: search_from.simps)
qed

lemma abc_no_label: "find_labels cyr_ucd abc = []"
proof -
  have "m \<notin> set (finditer cyr_ucd LABEL_RE abc)" for m
  proof
    assume "m \<in> set (finditer cyr_ucd LABEL_RE abc)"
    then obtain k where k: "label_at cyr_ucd abc (m_start m) k (m_end m)" by (rule label_hit_shape)
    then have "k < 3" "is_hyphen cyr_ucd (abc ! k)" by (auto simp: label_at_def abc_def str_def)
    moreover have "k = 0 \<or> k = 1 \<or> k = 2" using \<open>k < 3\<close> by auto
    ultimately show False using hyphen_iff [OF ucd_cyr_cyr_ucd, of "abc ! k"]
      by (auto simp: abc_def str_def dash_def plain_char_def)
  qed
  then have "finditer cyr_ucd LABEL_RE abc = []" by (metis list.set_intros(1) neq_Nil_conv)
  then show ?thesis unfolding find_labels_def label_hits_filter by (simp add: map_filter_def)
qed

lemma rule_spans_dropped: "List.map_filter (keep_span cyr_ucd demo_options t hits) (rule_spans cyr_ucd t' amounts) = []"
proof -
  have "category_for cyr_ucd ty \<noteq> str ''UCI''" if "ty \<in> set RULE_TYPES" for ty
    using that by (auto simp: RULE_TYPES_def category_for_def CATEGORY_OF_def py_upper_def cyr_ucd_def ascii_ucd_def str_def ascii_upper_def ascii_lowercase_def)
  then have "keep_span cyr_ucd demo_options t hits x = None" if "x \<in> set (rule_spans cyr_ucd t' amounts)" for x
    using rule_spans_typed [OF that] by (simp add: keep_span_def demo_options_def Let_def typed_def)
  then show ?thesis by (simp add: map_filter_def)
qed

lemma added_entity:
  assumes "lv_unlocked s" "lv_entities s = []" "lv_variants s = []" "lv_cache s = []" "lv_heap s = []" "lv_index s = []"
    "encodable pid" "encodable val" "encodable (le_dumps env True (JDict []))"
  obtains s' where "add_entity env pid category val fp [] origin False s = (Inr 0, s')"
    "lv_heap s' = [\<lparr>en_pid = pid, en_cat = category, en_n = 1, en_fp = fp, en_value = val, en_meta = JDict [], en_occ = 0,
       en_excluded = False, en_origin = origin, en_variants = []\<rparr>]"
    "lv_cache s' = [(pid, [((category, 1), 0)])]" "lv_index s' = [(pid, [(fp, 0)])]" "lv_unlocked s'" "lv_documents s' = lv_documents s"
    "lv_fpkey s' = lv_fpkey s"
  using assms by (simp add: add_entity_def steps load_def need_def read_project_def encrypt_value_def encrypt_def derive_dek_def
      utf8_encode_def Let_def enc_meta_def now_def insert_entity_def index_set_def touch_def set_project_def update_same max_n_def)

definition demo_pid :: pystr where "demo_pid = str ''p1''"

definition demo_ready :: "lv \<Rightarrow> bool" where
  "demo_ready v \<longleftrightarrow> (\<exists>fp. label_fingerprint demo_env demo_pid (str ''UCI'') (normalize_value cyr_ucd (str ''UCI'') abc) v = Inr fp \<and>
     lv_heap v = [\<lparr>en_pid = demo_pid, en_cat = str ''UCI'', en_n = 1, en_fp = fp, en_value = abc, en_meta = JDict [], en_occ = 0,
       en_excluded = False, en_origin = str ''auto'', en_variants = []\<rparr>] \<and>
     lv_cache v = [(demo_pid, [((str ''UCI'', 1), 0)])] \<and> lv_index v = [(demo_pid, [(fp, 0)])] \<and> lv_unlocked v \<and> lv_documents v = [])"

lemma abc_text: "py_strip cyr_ucd abc = abc" "py_casefold cyr_ucd abc = abc" "surface_ok cyr_ucd abc" "length abc = 3" "abc \<noteq> []"
  by (simp_all add: abc_def str_def py_strip_def py_rstrip_def py_lstrip_def py_casefold_def surface_ok_def py_isdigit_def cyr_ucd_def
      ascii_ucd_def ascii_defs plain_lower_def)

lemma no_match: "(\<And>i. ms u s r i [] = []) \<Longrightarrow> finditer u r s = []"
proof -
  assume n: "\<And>i. ms u s r i [] = []"
  then have m: "match_at u r s i adv = None" for i adv by (simp add: match_at_def)
  have "search_from u r s k i adv = None" for k i adv by (induction k arbitrary: i adv) (simp_all add: m)
  then show ?thesis by (simp add: finditer_def del: search_from.simps)
qed

lemma demo_normal: "normalize_value cyr_ucd (str ''UCI'') abc = str ''ABC''"
proof -
  have "cls_in cyr_ucd False True (CRange 48 57 # CRange 65 90 # CRange 97 122 # its) c = False" if "c \<in> set abc" for c its
    using that by (auto simp: cls_in_def abc_def str_def)
  then have "finditer cyr_ucd NOT_ID_CHAR abc = []"
    by (intro no_match) (simp add: NOT_ID_CHAR_def)
  then have "re_sub cyr_ucd NOT_ID_CHAR (\<lambda>_. []) abc = abc" by (simp add: re_sub_def)
  then show ?thesis
    by (simp add: normalize_value_def abc_text ID_CATEGORIES_def)
      (simp add: py_upper_def abc_def str_def cyr_ucd_def ascii_ucd_def ascii_defs)
qed

lemma desk_vault: "\<exists>v. vault_run demo_env (str ''secret1'') (le_rng demo_env 1 32) v \<and> demo_ready v"
proof -
  have e: "encodable (str ''secret1'')" "encodable demo_pid" "encodable abc" "encodable (le_dumps demo_env True (JDict []))"
    by (simp_all add: encodable_def str_def surrogate_def demo_env_def enc_JDict demo_pid_def abc_def)
  have "\<not> initialized new_vault" by (simp add: initialized_def get_meta_def new_vault_def)
  then obtain s1 where s1: "initialize demo_env (str ''secret1'') new_vault = (Inr (), s1)"
    using initialize_runs [OF e(1), of new_vault demo_env] by (cases "initialize demo_env (str ''secret1'') new_vault") auto
  then have m: "lv_unlocked s1" "lv_entities s1 = []" "lv_variants s1 = []" "lv_cache s1 = []" "lv_heap s1 = []" "lv_index s1 = []" "lv_documents s1 = []"
    by (auto simp: initialize_def steps enc_meta_def set_meta_def install_keys_def new_vault_def split: if_splits sum.splits)
  obtain fp where fp: "label_fingerprint demo_env demo_pid (str ''UCI'') (normalize_value cyr_ucd (str ''UCI'') abc) s1 = Inr fp"
    unfolding demo_normal
    by (simp add: label_fingerprint_def fingerprint_def utf8_encode_def encodable_def demo_pid_def str_def surrogate_def)
  obtain s2 where s2: "add_entity demo_env demo_pid (str ''UCI'') abc fp [] (str ''auto'') False s1 = (Inr 0, s2)"
    "lv_heap s2 = [\<lparr>en_pid = demo_pid, en_cat = str ''UCI'', en_n = 1, en_fp = fp, en_value = abc, en_meta = JDict [], en_occ = 0,
       en_excluded = False, en_origin = str ''auto'', en_variants = []\<rparr>]"
    "lv_cache s2 = [(demo_pid, [((str ''UCI'', 1), 0)])]" "lv_index s2 = [(demo_pid, [(fp, 0)])]" "lv_unlocked s2" "lv_documents s2 = lv_documents s1"
    "lv_fpkey s2 = lv_fpkey s1"
    by (rule added_entity [OF m(1-6) e(2,3,4), of "str ''UCI''" fp "str ''auto''"])
  have "fp \<notin> set (fps_of s1 demo_pid)" using m by (simp add: fps_of_def rows_def)
  from vault_run.add [OF vault_run.create [OF s1] this _ s2(1)] have "vault_run demo_env (str ''secret1'') (le_rng demo_env 1 32) s2"
    by (simp add: plain_JDict)
  moreover have "label_fingerprint demo_env demo_pid (str ''UCI'') (normalize_value cyr_ucd (str ''UCI'') abc) s2 = Inr fp"
    using fp s2(7) by (simp add: label_fingerprint_def self_vault_def fingerprint_def)
  ultimately show ?thesis using s2 m(7) by (auto simp: demo_ready_def)
qed

lemma demo_entities: "demo_ready v \<Longrightarrow> entities demo_env demo_pid v = (Inr [0], v)"
  by (auto simp: demo_ready_def entities_def load_def need_def steps)

definition demo_span :: entity_span where
  "demo_span = \<lparr>sp_start = 0, sp_end = 3, sp_type = str ''UCI'', sp_text = abc, sp_score = 99 / 100, sp_source = str ''manual'',
     sp_jurisdiction = None\<rparr>"

lemma demo_surfaces:
  assumes "demo_ready v"
  shows "surfaces_of cyr_ucd [(0, deref v 0)] = [(abc, 0)]"
  using assms abc_text by (auto simp: demo_ready_def surfaces_of_def add_surface_def deref_def Let_def)

lemma filter_append: "List.map_filter f (xs @ ys) = List.map_filter f xs @ List.map_filter f ys"
  by (simp add: map_filter_def)

lemma demo_detect:
  assumes "demo_ready (eg_vault s)" "eg_dict s = []"
  shows "\<exists>s'. detect_spans demo_engine (Some demo_pid) demo_options None abc s = (Inr [demo_span], s') \<and> eg_vault s' = eg_vault s"
proof -
  let ?v = "eg_vault s" and ?d = "(Some (dict_re [abc]), [(abc, 0)])"
  have packs: "load_packs p f (op_packs demo_options) cache = Inr ([], cache)" for p f cache
    by (simp add: load_packs_def demo_options_def)
  obtain n where dic: "dictionary demo_engine demo_pid s = (Inr ?d, s\<lparr>eg_dict := [(demo_pid, n, ?d)]\<rparr>)"
    using demo_entities [OF assms(1)] demo_surfaces [OF assms(1)] assms(2)
    by (simp add: dictionary_def ebind_def on_vault_def Let_def)
  have cat: "en_cat (deref ?v 0) = str ''UCI''" using assms(1) by (auto simp: demo_ready_def deref_def)
  have found: "dict_spans cyr_ucd ?v ?d abc = [demo_span]"
    using abc_text(4) by (simp add: dict_spans_def abc_match m_group0_def m_start_def m_end_def slice_def abc_text cat demo_span_def)
  have keep: "keep_span cyr_ucd demo_options abc [] demo_span = Some demo_span"
  proof -
    have "category_for cyr_ucd (str ''UCI'') = str ''UCI''"
      by (simp add: category_for_def CATEGORY_OF_def py_upper_def cyr_ucd_def ascii_ucd_def str_def ascii_defs)
    moreover have "trim_span cyr_ucd abc (str ''UCI'') demo_span = Some demo_span"
      by (simp add: trim_span_def demo_span_def abc_def str_def slice_def py_lstrip_def rstrip_of_def cyr_ucd_def ascii_ucd_def ascii_defs)
    ultimately show ?thesis by (simp add: keep_span_def demo_options_def demo_span_def Let_def)
  qed
  have "merge_spans [demo_span] = [demo_span]"
    by (simp add: merge_spans_def merge_step_def)
  then show ?thesis
    using packs dic found keep rule_spans_dropped
    by (simp add: detect_spans_def Let_def ebind_def elift_def eret_def abc_text abc_no_label filter_append)
qed

definition demo_rep :: replacement where
  "demo_rep = \<lparr>rp_start = 0, rp_end = 3, rp_new = render_label cyr_ucd (str ''UCI'') 1 (str ''en''), rp_category = str ''UCI'', rp_n = 1,
     rp_original = abc\<rparr>"

lemma demo_labels:
  assumes "demo_ready (eg_vault s)"
  shows "label_spans demo_engine demo_pid (str ''en'') abc [demo_span] s = (Inr [demo_rep], s)"
proof -
  obtain fp where v: "label_fingerprint demo_env demo_pid (str ''UCI'') (normalize_value cyr_ucd (str ''UCI'') abc) (eg_vault s) = Inr fp"
     "lv_heap (eg_vault s) = [\<lparr>en_pid = demo_pid, en_cat = str ''UCI'', en_n = 1, en_fp = fp, en_value = abc, en_meta = JDict [], en_occ = 0,
       en_excluded = False, en_origin = str ''auto'', en_variants = []\<rparr>]"
     "lv_cache (eg_vault s) = [(demo_pid, [((str ''UCI'', 1), 0)])]" "lv_index (eg_vault s) = [(demo_pid, [(fp, 0)])]" "lv_unlocked (eg_vault s)"
    using assms unfolding demo_ready_def by blast
  have t: "slice abc 0 3 = abc" using abc_text(4) by (simp add: slice_def)
  have "by_fingerprint demo_env demo_pid fp (eg_vault s) = (Inr (Some 0), eg_vault s)"
    using v(3-5) by (simp add: by_fingerprint_def load_def need_def steps)
  then have "resolve_entity demo_engine demo_pid (str ''UCI'') abc (str ''auto'') s = (Inr 0, s)"
    using v by (simp add: resolve_entity_def fp_of_def ebind_def on_vault_def known_surface_def object_at_def eret_def deref_def)
  then show ?thesis using v(2) by (simp add: demo_span_def t ebind_def object_at_def eret_def deref_def replacement_of_def demo_rep_def)
qed

lemma bump_frame: "lv_unlocked (bump items v) = lv_unlocked v \<and> lv_documents (bump items v) = lv_documents v"
  by (induction items v rule: bump.induct) (simp_all add: Let_def split: option.split)

lemma demo_record:
  assumes "lv_unlocked v" "lv_documents v = []" "plain_json j" "encodable name"
  shows "\<exists>did v'. record_document demo_env demo_pid name doc_kind (str ''anon'') (Some d) (Some j) stats v = (Inr did, v')"
proof -
  have e: "encodable name" "encodable demo_pid" using assms(4) by (simp_all add: encodable_def demo_pid_def str_def surrogate_def)
  have "encodable (le_dumps demo_env False j)"
    using enc_ascii [OF assms(3), of "\<lambda>_. []"] by (fastforce simp: encodable_def demo_env_def list_all_iff surrogate_def)
  then show ?thesis using assms(1,2) e
    by (simp add: record_document_def steps need_def new_uid_def enc_meta_def encrypt_value_def encrypt_def derive_dek_def utf8_encode_def
        now_def touch_def set_project_def Let_def)
qed

definition demo_st :: run_state where
  "demo_st =
     (let st = note_replacement demo_pid demo_rep new_run in st\<lparr>rs_units_out := rs_units_out st @ [apply_replacements abc [demo_rep]]\<rparr>)"

lemma demo_occ: "rs_occurrences demo_st = [occ_of demo_rep]"
  by (simp add: demo_st_def Let_def note_replacement_def new_run_def occ_of_def)

lemma demo_unit:
  assumes "demo_ready (eg_vault s)" "eg_dict s = []"
  shows "\<exists>s1. anonymize_unit demo_engine demo_pid abc new_run (str ''en'') demo_options None s = (Inr ([demo_rep], demo_st), s1) \<and>
    eg_vault s1 = eg_vault s"
proof -
  obtain s1 where d: "detect_spans demo_engine (Some demo_pid) demo_options None abc s = (Inr [demo_span], s1)" "eg_vault s1 = eg_vault s"
    using demo_detect [OF assms] by blast
  have l: "label_spans demo_engine demo_pid (str ''en'') abc [demo_span] s1 = (Inr [demo_rep], s1)"
    using demo_labels [of s1] assms(1) d(2) by simp
  show ?thesis using d l by (simp add: anonymize_unit_def ebind_def eret_def Let_def demo_st_def)
qed

lemma demo_recorded:
  assumes "demo_ready v" "encodable name"
  shows "\<exists>dg did v'. label_digest id (label_seq (rs_occurrences demo_st)) = Inr dg \<and>
    record_document demo_env demo_pid name doc_kind (str ''anon'') (Some dg)
      (Some (occurrences_json (rs_occurrences demo_st))) (run_stats (rs_occurrences demo_st)) (bump (rs_counts demo_st) v) = (Inr did, v')"
proof -
  obtain dg where dg: "label_digest id (label_seq (rs_occurrences demo_st)) = Inr dg"
    unfolding demo_occ by (simp add: label_seq_def occ_of_def demo_rep_def label_digest_def label_item_def utf8_encode_def encodable_def str_def
        surrogate_def str_nat_def dec_rev.simps)
  have "plain_json (occurrences_json (rs_occurrences demo_st))"
    unfolding demo_occ by (rule plain_occurrences)
      (simp add: occ_of_def demo_rep_def WORDS_def word_row_def encodable_def abc_def str_def surrogate_def)
  moreover have "lv_unlocked v" "lv_documents v = []" using assms(1) by (auto simp: demo_ready_def)
  ultimately have "\<exists>did v'. record_document demo_env demo_pid name doc_kind (str ''anon'') (Some dg)
      (Some (occurrences_json (rs_occurrences demo_st))) (run_stats (rs_occurrences demo_st)) (bump (rs_counts demo_st) v) = (Inr did, v')"
    using bump_frame assms(2) by (intro demo_record) simp_all
  then show ?thesis using dg by blast
qed

lemma desk_run:
  assumes "demo_ready (eg_vault s)" "eg_dict s = []"
  shows "\<exists>out st s'. anonymize_text demo_engine demo_pid abc (str ''en'') demo_options (Some (str ''note'')) s = (Inr (out, st, [demo_rep]), s')"
proof -
  obtain s1 where au: "anonymize_unit demo_engine demo_pid abc new_run (str ''en'') demo_options None s = (Inr ([demo_rep], demo_st), s1)"
    "eg_vault s1 = eg_vault s" using demo_unit [OF assms] by blast
  have e: "encodable (str ''note'')" by (simp add: encodable_def str_def surrogate_def)
  have "demo_ready (eg_vault s1)" using assms(1) au(2) by simp
  then obtain dg did v' where rd: "label_digest id (label_seq (rs_occurrences demo_st)) = Inr dg"
    "record_document demo_env demo_pid (str ''note'') (str ''text'') (str ''anon'') (Some dg)
      (Some (occurrences_json (rs_occurrences demo_st))) (run_stats (rs_occurrences demo_st)) (bump (rs_counts demo_st) (eg_vault s1)) = (Inr did, v')"
    using demo_recorded [OF _ e] by blast
  have "str ''note'' \<noteq> []" by (simp add: str_def)
  then have "anonymize_text demo_engine demo_pid abc (str ''en'') demo_options (Some (str ''note'')) s =
      (Inr (apply_replacements abc [demo_rep], demo_st, [demo_rep]), s1\<lparr>eg_vault := v'\<rparr>)"
    using rd by (simp only: anonymize_text_def ebind_def au finish_anon_def elift_def on_vault_def eret_def sum.case prod.case option.case
        if_False demo_fields) simp
  then show ?thesis by blast
qed

text \<open>C33. A pasted text comes back exactly: for a vault reached by its own operations whose recorded documents
  are older than the clock, a text without labels of its own is anonymized into labels, and restoring what
  \<open>anonymize_text\<close> returned gives the text, every mention in its own spelling, whatever the entity's canonical
  value has become, as long as each replaced span is followed and preceded by a character that ends a label.\<close>

theorem desktop_roundtrip:
  assumes "ucd_cyr (eg_ucd env)" "env_ok (ev_lv env)" "vault_run (ev_lv env) pw dk (eg_vault s)"
    "clock_ahead (ev_lv env) pid (eg_vault s)" "encodable t" "find_labels (eg_ucd env) t = []"
    "lng \<in> set (map str [''uk'', ''ru'', ''en''])" "name \<noteq> []"
    "anonymize_text env pid t lng options (Some name) s = (Inr (out, st, reps), s')"
    "delimited (eg_ucd env) t 0 reps" "list_all (\<lambda>r. rp_category r \<in> fst ` set WORDS \<and> rp_n r < 10 ^ 6) reps"
  shows "\<exists>st' reps'. restore_text env pid out s' = (Inr (t, st', reps'), s')"
proof -
  have c: "coherent (ev_lv env) (eg_vault s)" using vault_run_inv [OF assms(2,3)] by (simp add: run_inv_def)
  have cats: "list_all (\<lambda>r. rp_category r \<in> fst ` set WORDS) reps" using assms(11) by (simp add: list_all_iff)
  note r = anonymize_records [OF assms(2) c assms(4,5,8,9) cats]
  have "\<forall>r\<in>set reps. reads_as_label (eg_ucd env) r"
    using r reads_all [OF assms(1) _ _ assms(7)] assms(11) by (auto simp: list_all_iff labelled_def)
  then show ?thesis using restore_recorded [of reps env pid s' t] r assms(6,10) by (auto simp: labelled_def reversible_def)
qed

lemma desktop_roundtrip_witness:
  "\<exists>s out st s' st' reps'. vault_run demo_env (str ''secret1'') (le_rng demo_env 1 32) (eg_vault s) \<and>
     anonymize_text demo_engine demo_pid abc (str ''en'') demo_options (Some (str ''note'')) s = (Inr (out, st, [demo_rep]), s') \<and>
     restore_text demo_engine demo_pid out s' = (Inr (abc, st', reps'), s')"
proof -
  obtain v where v: "vault_run demo_env (str ''secret1'') (le_rng demo_env 1 32) v" "demo_ready v" using desk_vault by blast
  let ?s = "\<lparr>eg_vault = v, eg_dict = [], eg_packs = []\<rparr>"
  obtain out st s' where r: "anonymize_text demo_engine demo_pid abc (str ''en'') demo_options (Some (str ''note'')) ?s = (Inr (out, st, [demo_rep]), s')"
    using desk_run [of ?s] v(2) by auto
  have "clock_ahead demo_env demo_pid v" using v(2) by (auto simp: demo_ready_def clock_ahead_def)
  moreover have "encodable abc" by (simp add: encodable_def abc_def str_def surrogate_def)
  moreover have "delimited cyr_ucd abc 0 [demo_rep]" by (simp add: demo_rep_def cut_right_def abc_text)
  moreover have "list_all (\<lambda>r. rp_category r \<in> fst ` set WORDS \<and> rp_n r < 10 ^ 6) [demo_rep]"
    by (simp add: demo_rep_def WORDS_def word_row_def)
  ultimately have "\<exists>st' reps'. restore_text demo_engine demo_pid out s' = (Inr (abc, st', reps'), s')"
    using desktop_roundtrip [of demo_engine "str ''secret1''" "le_rng demo_env 1 32" ?s demo_pid abc "str ''en''" "str ''note''" demo_options out st "[demo_rep]" s']
      v(1) r ucd_cyr_cyr_ucd env_ok_demo abc_no_label by (simp add: str_def)
  then show ?thesis using v(1) r by (intro exI [of _ ?s]) auto
qed

text \<open>C34. Same value, same label: in a vault reached by its own operations, when a surface was resolved to an
  entity, resolving any surface of that category with the same normal form next (another case, other blanks,
  another inflection of a name) gives the same entity, and the entity keeps its category and number, so both
  mentions get one label.\<close>

theorem resolve_referential:
  assumes "env_ok (ev_lv env)" "vault_run (ev_lv env) pw dk (eg_vault s)"
    "resolve_entity env pid category x origin s = (Inr a, s1)"
    "normalize_value (eg_ucd env) category y = normalize_value (eg_ucd env) category x"
    "resolve_entity env pid category y origin' s1 = (Inr b, s2)"
  shows "b = a \<and> render_label u (en_cat (deref (eg_vault s2) b)) (en_n (deref (eg_vault s2) b)) lng =
    render_label u (en_cat (deref (eg_vault s1) a)) (en_n (deref (eg_vault s1) a)) lng"
proof -
  have "coherent (ev_lv env) (eg_vault s)" using vault_run_inv [OF assms(1,2)] by (simp add: run_inv_def)
  then obtain v where v: "coherent (ev_lv env) v" "linked v pid" "resolve_entity env pid category x origin (s\<lparr>eg_vault := v\<rparr>) = (Inr a, s1)"
    using assms(3) by (rule resolve_loads)
  let ?s = "s\<lparr>eg_vault := v\<rparr>"
  have g: "grows pid v (eg_vault s1)" "member (eg_vault s1) pid a"
    using resolve_linked [of ?s, OF _ v(3)] v(2) by (simp_all add: egrows_def)
  obtain fp where fp: "label_fingerprint (ev_lv env) pid category (normalize_value (eg_ucd env) category x) v = Inr fp" "indexed (eg_vault s1) pid fp a"
    using resolve_indexed [of env ?s, OF _ _ v(3)] v(1,2) by auto
  have fp': "label_fingerprint (ev_lv env) pid category (normalize_value (eg_ucd env) category y) (eg_vault s1) = Inr fp"
    using fp(1) growsD(2) [OF g(1)] fingerprint_same [of "eg_vault s1" v] assms(4) by simp
  have l1: "linked (eg_vault s1) pid" by (rule growsD(1) [OF g(1)])
  have "by_fingerprint (ev_lv env) pid fp (eg_vault s1) = (Inr (Some a), eg_vault s1)"
    using by_fingerprint_indexed(1) [OF l1] fp(2) by blast
  then have "known_surface env pid category y a s1 = (Inr b, s2)"
    using assms(5) fp' by (simp add: resolve_entity_def ebind_def fp_of_def on_vault_def)
  then have "b = a" by (auto simp: known_surface_def step_Inr split: if_splits)
  moreover have "en_key (deref (eg_vault s2) a) = en_key (deref (eg_vault s1) a)"
    using resolve_linked [OF l1 assms(5)] growsD(6) member_less [OF l1 g(2)] by (auto simp: egrows_def)
  ultimately show ?thesis by (simp add: en_key_def)
qed

lemma demo_again: "normalize_value cyr_ucd (str ''UCI'') (str ''ABC'') = normalize_value cyr_ucd (str ''UCI'') abc"
proof -
  have "cls_in cyr_ucd False True (CRange 48 57 # CRange 65 90 # its) c = False" if "c \<in> set (str ''ABC'')" for c its
    using that by (auto simp: cls_in_def str_def)
  then have "finditer cyr_ucd NOT_ID_CHAR (str ''ABC'') = []"
    by (intro no_match) (simp add: NOT_ID_CHAR_def)
  then have "re_sub cyr_ucd NOT_ID_CHAR (\<lambda>_. []) (str ''ABC'') = str ''ABC''" by (simp add: re_sub_def)
  moreover have "py_strip cyr_ucd (str ''ABC'') = str ''ABC''"
    by (simp add: str_def py_strip_def py_rstrip_def py_lstrip_def cyr_ucd_def ascii_ucd_def ascii_defs)
  ultimately show ?thesis unfolding demo_normal
    by (simp add: normalize_value_def ID_CATEGORIES_def) (simp add: py_upper_def str_def cyr_ucd_def ascii_ucd_def ascii_defs)
qed

lemma resolve_referential_witness:
  "\<exists>s s2. resolve_entity demo_engine demo_pid (str ''UCI'') abc (str ''auto'') s = (Inr 0, s) \<and>
     resolve_entity demo_engine demo_pid (str ''UCI'') (str ''ABC'') (str ''auto'') s = (Inr 0, s2) \<and>
     render_label cyr_ucd (en_cat (deref (eg_vault s2) 0)) (en_n (deref (eg_vault s2) 0)) (str ''en'') =
     render_label cyr_ucd (en_cat (deref (eg_vault s) 0)) (en_n (deref (eg_vault s) 0)) (str ''en'')"
proof -
  obtain v where v: "vault_run demo_env (str ''secret1'') (le_rng demo_env 1 32) v" "demo_ready v" using desk_vault by blast
  let ?s = "\<lparr>eg_vault = v, eg_dict = [], eg_packs = []\<rparr>"
  obtain fp where r: "label_fingerprint demo_env demo_pid (str ''UCI'') (normalize_value cyr_ucd (str ''UCI'') abc) v = Inr fp"
     "lv_heap v = [\<lparr>en_pid = demo_pid, en_cat = str ''UCI'', en_n = 1, en_fp = fp, en_value = abc, en_meta = JDict [], en_occ = 0,
       en_excluded = False, en_origin = str ''auto'', en_variants = []\<rparr>]"
     "lv_cache v = [(demo_pid, [((str ''UCI'', 1), 0)])]" "lv_index v = [(demo_pid, [(fp, 0)])]" "lv_unlocked v"
    using v(2) unfolding demo_ready_def by blast
  have b: "by_fingerprint demo_env demo_pid fp v = (Inr (Some 0), v)"
    using r(3-5) by (simp add: by_fingerprint_def load_def need_def steps)
  have one: "resolve_entity demo_engine demo_pid (str ''UCI'') abc (str ''auto'') ?s = (Inr 0, ?s)"
    using r b by (simp add: resolve_entity_def fp_of_def ebind_def on_vault_def known_surface_def object_at_def eret_def deref_def)
  have ne: "str ''ABC'' \<noteq> abc" by (simp add: abc_def str_def)
  have e: "encodable (str ''ABC'')" "encodable demo_pid" by (simp_all add: encodable_def str_def surrogate_def demo_pid_def)
  obtain sfp where sfp: "label_fingerprint demo_env demo_pid (str ''UCI'') (surface_norm (str ''ABC'')) v = Inr sfp"
    by (simp add: label_fingerprint_def fingerprint_def utf8_encode_def encodable_def demo_pid_def str_def surrogate_def surface_norm_def)
  have "\<exists>v2. add_variant demo_env 0 sfp (str ''ABC'') v = (Inr (), v2)"
    using r e by (simp add: add_variant_def Let_def deref_def steps encrypt_value_def encrypt_def derive_dek_def utf8_encode_def insert_variant_def
        set_obj_def index_set_def)
  then obtain v2 where v2: "add_variant demo_env 0 sfp (str ''ABC'') v = (Inr (), v2)" by blast
  let ?s2 = "?s\<lparr>eg_vault := v2\<rparr>"
  have two: "resolve_entity demo_engine demo_pid (str ''UCI'') (str ''ABC'') (str ''auto'') ?s = (Inr 0, ?s2)"
    using r b ne sfp v2 by (simp add: resolve_entity_def demo_again fp_of_def ebind_def on_vault_def known_surface_def object_at_def eret_def deref_def)
  have "(0 :: nat) = 0 \<and> render_label cyr_ucd (en_cat (deref (eg_vault ?s2) 0)) (en_n (deref (eg_vault ?s2) 0)) (str ''en'') =
    render_label cyr_ucd (en_cat (deref (eg_vault ?s) 0)) (en_n (deref (eg_vault ?s) 0)) (str ''en'')"
    by (rule resolve_referential [of demo_engine "str ''secret1''" "le_rng demo_env 1 32" ?s, OF _ _ one _ two])
      (use v(1) env_ok_demo demo_again in simp_all)
  then show ?thesis using one two by blast
qed

text \<open>C35. What the desktop detector reports can be replaced: the spans are in the order of the text and apart from
  each other, none is empty or reaches beyond the text, each carries the text it covers and a category that was
  asked for, and none touches a label that is already in the text, whatever the packs, the rules, the project's
  dictionary and a forced column propose.\<close>

theorem detect_spans_sound:
  assumes "detect_spans env pid options force t s = (Inr spans, s')"
  shows "sorted_wrt (\<lambda>x y. sp_end x \<le> sp_start y) spans \<and>
    list_all (\<lambda>x. sp_start x < sp_end x \<and> sp_end x \<le> length t \<and> sp_text x = slice t (sp_start x) (sp_end x) \<and>
      sp_type x \<in> set (op_categories options) \<and>
      list_all (\<lambda>h. lh_end h \<le> sp_start x \<or> sp_end x \<le> lh_start h) (find_labels (eg_ucd env) t)) spans"
  using detect_spans_result [OF assms] by (simp add: span_ok_def [abs_def])

lemma detect_spans_sound_witness:
  "\<exists>s s'. detect_spans demo_engine (Some demo_pid) demo_options None abc s = (Inr [demo_span], s') \<and>
     sp_start demo_span < sp_end demo_span \<and> sp_end demo_span \<le> length abc"
proof -
  obtain v where v: "demo_ready v" using desk_vault by blast
  let ?s = "\<lparr>eg_vault = v, eg_dict = [], eg_packs = []\<rparr>"
  obtain s' where d: "detect_spans demo_engine (Some demo_pid) demo_options None abc ?s = (Inr [demo_span], s')"
    using demo_detect [of ?s] v by auto
  from detect_spans_sound [OF d] show ?thesis using d by auto
qed

end
