(* ===== verification/Text_Codecs.thy ===== *)
theory Text_Codecs
  imports Utf8
begin

text \<open>
  \<open>decode_text\<close> and \<open>encode_text\<close> of \<open>app/desktop/formats.py\<close>: the encodings they try, as the standard library has
  them, and the proof that a file that is not changed comes back byte for byte, but for big-endian UTF-16.
\<close>

section \<open>Single-byte encodings\<close>

text \<open>The upper half of the two Windows code pages; 0 marks a byte without a character.\<close>

definition CP1251 :: "nat list" where
  "CP1251 =
     [1026, 1027, 8218, 1107, 8222, 8230, 8224, 8225, 8364, 8240, 1033, 8249, 1034, 1036, 1035, 1039, 1106, 8216,
      8217, 8220, 8221, 8226, 8211, 8212, 0, 8482, 1113, 8250, 1114, 1116, 1115, 1119, 160, 1038, 1118, 1032, 164,
      1168, 166, 167, 1025, 169, 1028, 171, 172, 173, 174, 1031, 176, 177, 1030, 1110, 1169, 181, 182, 183, 1105,
      8470, 1108, 187, 1112, 1029, 1109, 1111, 1040, 1041, 1042, 1043, 1044, 1045, 1046, 1047, 1048, 1049, 1050,
      1051, 1052, 1053, 1054, 1055, 1056, 1057, 1058, 1059, 1060, 1061, 1062, 1063, 1064, 1065, 1066, 1067, 1068,
      1069, 1070, 1071, 1072, 1073, 1074, 1075, 1076, 1077, 1078, 1079, 1080, 1081, 1082, 1083, 1084, 1085, 1086,
      1087, 1088, 1089, 1090, 1091, 1092, 1093, 1094, 1095, 1096, 1097, 1098, 1099, 1100, 1101, 1102, 1103]"

definition CP1252 :: "nat list" where
  "CP1252 =
     [8364, 0, 8218, 402, 8222, 8230, 8224, 8225, 710, 8240, 352, 8249, 338, 0, 381, 0, 0, 8216, 8217, 8220, 8221,
      8226, 8211, 8212, 732, 8482, 353, 8250, 339, 0, 382, 376, 160, 161, 162, 163, 164, 165, 166, 167, 168, 169,
      170, 171, 172, 173, 174, 175, 176, 177, 178, 179, 180, 181, 182, 183, 184, 185, 186, 187, 188, 189, 190, 191,
      192, 193, 194, 195, 196, 197, 198, 199, 200, 201, 202, 203, 204, 205, 206, 207, 208, 209, 210, 211, 212, 213,
      214, 215, 216, 217, 218, 219, 220, 221, 222, 223, 224, 225, 226, 227, 228, 229, 230, 231, 232, 233, 234, 235,
      236, 237, 238, 239, 240, 241, 242, 243, 244, 245, 246, 247, 248, 249, 250, 251, 252, 253, 254, 255]"

definition LATIN1 :: "nat list" where "LATIN1 = [128..<256]"

definition byte_char :: "nat list \<Rightarrow> nat \<Rightarrow> nat res" where
  "byte_char tbl b = (if b < 128 then Inr b else if tbl ! (b - 128) = 0 then Inl UnicodeError else Inr (tbl ! (b - 128)))"

definition char_byte :: "nat list \<Rightarrow> nat \<Rightarrow> nat res" where
  "char_byte tbl c =
     (if c < 128 then Inr c else case map_of (zip tbl [128..<256]) c of None \<Rightarrow> Inl UnicodeError | Some b \<Rightarrow> Inr b)"

fun each :: "('a \<Rightarrow> 'b res) \<Rightarrow> 'a list \<Rightarrow> 'b list res" where
  "each f [] = Inr []"
| "each f (x # xs) = rbind (f x) (\<lambda>y. rbind (each f xs) (\<lambda>ys. Inr (y # ys)))"

definition charmap_decode :: "nat list \<Rightarrow> bytes \<Rightarrow> pystr res" where
  "charmap_decode tbl data = each (byte_char tbl) (map unat data)"

definition charmap_encode :: "nat list \<Rightarrow> pystr \<Rightarrow> bytes res" where
  "charmap_encode tbl s = rbind (each (char_byte tbl) s) (\<lambda>bs. Inr (map of_nat bs))"

section \<open>UTF-16\<close>

text \<open>The codec \<open>utf-16\<close> reads the byte order from the mark and writes a mark and little-endian units, the order
  of the machines the application is built for.\<close>

fun code_units :: "bool \<Rightarrow> nat list \<Rightarrow> nat list option" where
  "code_units big [] = Some []"
| "code_units big [a] = None"
| "code_units big (a # b # r) = map_option ((#) (if big then a * 256 + b else b * 256 + a)) (code_units big r)"

fun join_units :: "nat list \<Rightarrow> nat list option" where
  "join_units [] = Some []"
| "join_units (x # r) =
     (if \<not> surrogate x then map_option ((#) x) (join_units r)
      else if x < 56320 then
        (case r of y # r' \<Rightarrow> if 56320 \<le> y \<and> y < 57344 then map_option ((#) (65536 + (x - 55296) * 1024 + (y - 56320))) (join_units r') else None
         | [] \<Rightarrow> None)
      else None)"

definition utf16_decode :: "bytes \<Rightarrow> pystr res" where
  "utf16_decode data =
     (case Option.bind (code_units (take 2 data = [254, 255]) (map unat (drop 2 data))) join_units of
        None \<Rightarrow> Inl UnicodeError | Some s \<Rightarrow> Inr s)"

definition units_of :: "nat \<Rightarrow> nat list" where
  "units_of c = (if c < 65536 then [c] else [55296 + (c - 65536) div 1024, 56320 + (c - 65536) mod 1024])"

definition utf16_encode :: "pystr \<Rightarrow> bytes res" where
  "utf16_encode s =
     (if encodable s then Inr ([255, 254] @ map of_nat (concat (map (\<lambda>x. [x mod 256, x div 256]) (concat (map units_of s)))))
      else Inl UnicodeError)"

section \<open>Texts of files\<close>

datatype encoding = Utf8 | Utf16 | Cp1251 | Cp1252 | Latin1

definition BOM8 :: bytes where "BOM8 = [239, 187, 191]"

definition decode_text :: "bytes \<Rightarrow> (pystr \<times> encoding \<times> bytes) res" where
  "decode_text data =
     (if take 3 data = BOM8 then rbind (utf8_decode (drop 3 data)) (\<lambda>t. Inr (t, Utf8, BOM8))
      else if take 2 data = [255, 254] \<or> take 2 data = [254, 255] then rbind (utf16_decode data) (\<lambda>t. Inr (t, Utf16, []))
      else case utf8_decode data of
        Inr t \<Rightarrow> Inr (t, Utf8, [])
      | Inl _ \<Rightarrow> (case charmap_decode CP1251 data of
          Inr t \<Rightarrow> Inr (t, Cp1251, [])
        | Inl _ \<Rightarrow> (case charmap_decode CP1252 data of
            Inr t \<Rightarrow> Inr (t, Cp1252, [])
          | Inl _ \<Rightarrow> rbind (charmap_decode LATIN1 data) (\<lambda>t. Inr (t, Latin1, [])))))"

definition encode_in :: "encoding \<Rightarrow> pystr \<Rightarrow> bytes res" where
  "encode_in enc t =
     (case enc of Utf8 \<Rightarrow> utf8_encode t | Utf16 \<Rightarrow> utf16_encode t | Cp1251 \<Rightarrow> charmap_encode CP1251 t
      | Cp1252 \<Rightarrow> charmap_encode CP1252 t | Latin1 \<Rightarrow> charmap_encode LATIN1 t)"

definition encode_text :: "pystr \<Rightarrow> encoding \<Rightarrow> bytes \<Rightarrow> bytes res" where
  "encode_text t enc bom =
     (case encode_in enc t of Inr b \<Rightarrow> Inr (bom @ b) | Inl _ \<Rightarrow> rbind (utf8_encode t) (\<lambda>b. Inr (BOM8 @ b)))"

section \<open>Round trips\<close>

lemma cont_split: "cont b \<Longrightarrow> \<exists>y. b = 128 + y \<and> y < 64"
  by (rule exI [of _ "b - 128"]) (auto simp: cont_def)

lemma lead_split: "k \<le> a \<Longrightarrow> a < k + n \<Longrightarrow> \<exists>x. a = k + x \<and> x < (n :: nat)"
  by (rule exI [of _ "a - k"]) auto

lemma enc1_lead2:
  assumes "194 \<le> a" "a < 224" "cont b"
  shows "enc1 ((a - 192) * 64 + (b - 128)) = [a, b] \<and> (a - 192) * 64 + (b - 128) < 2048"
proof -
  obtain x where x: "a = 192 + x" "x < 32" using lead_split [of 192 a 32] assms(1,2) by auto
  obtain y where y: "b = 128 + y" "y < 64" using cont_split [OF assms(3)] by blast
  have "128 \<le> x * 64 + y" using x assms(1) by simp
  then show ?thesis using x y by (simp add: enc1_def)
qed

lemma low_digit: "z < 64 \<Longrightarrow> (q * 64 + z) div 64 = q \<and> (q * 64 + z) mod 64 = (z :: nat)"
  by simp

lemma enc1_lead3:
  assumes "224 \<le> a" "a < 240" "cont b" "cont c" "2048 \<le> (a - 224) * 4096 + (b - 128) * 64 + (c - 128)"
  shows "enc1 ((a - 224) * 4096 + (b - 128) * 64 + (c - 128)) = [a, b, c] \<and> (a - 224) * 4096 + (b - 128) * 64 + (c - 128) < 65536"
proof -
  obtain x where x: "a = 224 + x" "x < 16" using lead_split [of 224 a 16] assms(1,2) by auto
  obtain y z where y: "b = 128 + y" "y < 64" and z: "c = 128 + z" "z < 64" using cont_split assms(3,4) by blast
  let ?v = "x * 4096 + y * 64 + z"
  have v: "?v = (x * 64 + y) * 64 + z" by simp
  then have d: "?v div 64 = x * 64 + y" "?v mod 64 = z" using low_digit [OF z(2), of "x * 64 + y"] by (simp_all only: v)
  have "?v div 4096 = ?v div 64 div 64" by (simp add: div_mult2_eq [symmetric])
  then have "?v div 4096 = x" "?v div 64 mod 64 = y" using d low_digit [OF y(2), of x] by simp_all
  then show ?thesis using x y z d assms(5) by (simp add: enc1_def)
qed

lemma enc1_lead4:
  assumes "240 \<le> a" "a < 245" "cont b" "cont c" "cont d"
    "65536 \<le> (a - 240) * 262144 + (b - 128) * 4096 + (c - 128) * 64 + (d - 128)"
  shows "enc1 ((a - 240) * 262144 + (b - 128) * 4096 + (c - 128) * 64 + (d - 128)) = [a, b, c, d]"
proof -
  obtain x where x: "a = 240 + x" "x < 5" using lead_split [of 240 a 5] assms(1,2) by auto
  obtain y where y: "b = 128 + y" "y < 64" using cont_split [OF assms(3)] by blast
  obtain z where z: "c = 128 + z" "z < 64" using cont_split [OF assms(4)] by blast
  obtain w where w: "d = 128 + w" "w < 64" using cont_split [OF assms(5)] by blast
  let ?v = "x * 262144 + y * 4096 + z * 64 + w"
  have v: "?v = ((x * 64 + y) * 64 + z) * 64 + w" by simp
  then have d: "?v div 64 = (x * 64 + y) * 64 + z" "?v mod 64 = w" using low_digit [OF w(2), of "(x * 64 + y) * 64 + z"] by (simp_all only: v)
  have "?v div 4096 = ?v div 64 div 64" by (simp add: div_mult2_eq [symmetric])
  then have e: "?v div 4096 = x * 64 + y" "?v div 64 mod 64 = z" using d low_digit [OF z(2), of "x * 64 + y"] by simp_all
  have "?v div 262144 = ?v div 4096 div 64" by (simp add: div_mult2_eq [symmetric])
  then have "?v div 262144 = x" "?v div 4096 mod 64 = y" using e low_digit [OF y(2), of x] by simp_all
  then show ?thesis using x y z w d e assms(6) by (simp add: enc1_def)
qed

lemma dec_step:
  assumes "dec (a # r) = Some s"
  shows "\<exists>c r' s'. s = c # s' \<and> dec r' = Some s' \<and> a # r = enc1 c @ r' \<and> c < 1114112 \<and> \<not> surrogate c \<and> length r' < length (a # r)"
proof -
  consider "a < 128" | "194 \<le> a" "a < 224" | "224 \<le> a" "a < 240" | "240 \<le> a" "a < 245" | "128 \<le> a" "a < 194 \<or> 245 \<le> a" by linarith
  then show ?thesis
  proof cases
    case 1
    then obtain s' where "dec r = Some s'" "s = a # s'" using assms by auto
    then show ?thesis using 1 by (intro exI [of _ a] exI [of _ r] exI [of _ s']) (simp add: surrogate_def enc1_def)
  next
    case 2
    then obtain b r1 s' where r: "r = b # r1" "cont b" "dec r1 = Some s'" "s = ((a - 192) * 64 + (b - 128)) # s'"
      using assms by (auto split: list.splits if_splits)
    then show ?thesis using enc1_lead2 [OF 2 r(2)]
      by (intro exI [of _ "(a - 192) * 64 + (b - 128)"] exI [of _ r1] exI [of _ s']) (simp add: surrogate_def)
  next
    case 3
    let ?v = "\<lambda>b c. (a - 224) * 4096 + (b - 128) * 64 + (c - 128)"
    obtain b c r2 s' where r: "r = b # c # r2" "cont b" "cont c" "2048 \<le> ?v b c" "\<not> surrogate (?v b c)" "dec r2 = Some s'" "s = ?v b c # s'"
      using assms 3 by (auto simp: Let_def split: list.splits if_splits)
    then show ?thesis using enc1_lead3 [OF 3 r(2,3,4)]
      by (intro exI [of _ "?v b c"] exI [of _ r2] exI [of _ s']) simp
  next
    case 4
    let ?v = "\<lambda>b c d. (a - 240) * 262144 + (b - 128) * 4096 + (c - 128) * 64 + (d - 128)"
    obtain b c d r3 s' where r: "r = b # c # d # r3" "cont b" "cont c" "cont d" "65536 \<le> ?v b c d" "?v b c d < 1114112"
        "dec r3 = Some s'" "s = ?v b c d # s'"
      using assms 4 by (auto simp: Let_def split: list.splits if_splits)
    then show ?thesis using enc1_lead4 [OF 4 r(2,3,4,5)]
      by (intro exI [of _ "?v b c d"] exI [of _ r3] exI [of _ s']) (simp add: surrogate_def)
  next
    case 5
    then show ?thesis using assms by auto
  qed
qed

lemma dec_back: "dec bs = Some s \<Longrightarrow> encodable s \<and> concat (map enc1 s) = bs"
proof (induction "length bs" arbitrary: bs s rule: less_induct)
  case less
  show ?case
  proof (cases bs)
    case Nil
    then show ?thesis using less.prems by (simp add: encodable_def)
  next
    case (Cons a r)
    then have "dec (a # r) = Some s" using less.prems by simp
    from dec_step [OF this] obtain c r' s' where
      c: "s = c # s'" "dec r' = Some s'" "bs = enc1 c @ r'" "c < 1114112" "\<not> surrogate c" "length r' < length bs"
      unfolding Cons by blast
    from less.hyps [OF c(6,2)] show ?thesis using c by (simp add: encodable_def)
  qed
qed

lemma map_of_nat_unat: "map of_nat (map unat (bs :: bytes)) = bs"
  by (induction bs) simp_all

lemma utf8_back: "utf8_decode b = Inr t \<Longrightarrow> utf8_encode t = Inr b"
  using dec_back [of "map unat b" t] map_of_nat_unat [of b] by (auto simp: utf8_decode_def utf8_encode_def split: option.splits)

lemma char_byte_back:
  assumes "distinct (filter (\<lambda>x. x \<noteq> 0) tbl)" "length tbl = 128" "\<forall>x\<in>set tbl. x = 0 \<or> 128 \<le> x" "b < 256" "byte_char tbl b = Inr c"
  shows "char_byte tbl c = Inr b"
proof (cases "b < 128")
  case True
  then show ?thesis using assms(5) by (simp add: byte_char_def char_byte_def)
next
  case False
  let ?i = "b - 128"
  have i: "?i < 128" "c = tbl ! ?i" "c \<noteq> 0" using assms(4,5) False by (auto simp: byte_char_def split: if_splits)
  have "tbl ! ?i \<in> set tbl" using i(1) assms(2) by simp
  from bspec [OF assms(3) this] have c: "128 \<le> c" using i(2,3) by simp
  have m: "map_of (zip xs [k..<k + length xs]) (xs ! j) = Some (k + j)"
    if "distinct (filter (\<lambda>x. x \<noteq> 0) xs)" "j < length xs" "xs ! j \<noteq> 0" for xs k j
    using that
  proof (induction xs arbitrary: k j)
    case (Cons x xs)
    have u: "[k..<k + length (x # xs)] = k # [Suc k..<Suc k + length xs]" using upt_conv_Cons [of k "k + length (x # xs)"] by simp
    show ?case
    proof (cases j)
      case (Suc j')
      then have "xs ! j' \<in> set (filter (\<lambda>x. x \<noteq> 0) xs)" using Cons.prems by simp
      then have "xs ! j' \<noteq> x" using Cons.prems(1) by (auto split: if_splits)
      then show ?thesis unfolding u using Cons.IH [of j' "Suc k"] Cons.prems Suc by (simp split: if_splits)
    next
      case 0
      then show ?thesis unfolding u by simp
    qed
  qed simp
  have "map_of (zip tbl [128..<256]) c = Some b" using m [OF assms(1), of ?i 128] i assms(2) False by simp
  then show ?thesis using c by (simp add: char_byte_def)
qed

lemma each_back: "(\<And>x y. x \<in> set xs \<Longrightarrow> f x = Inr y \<Longrightarrow> g y = Inr x) \<Longrightarrow> each f xs = Inr ys \<Longrightarrow> each g ys = Inr xs"
  by (induction xs arbitrary: ys) (auto simp: rbind_Inr_iff)

lemma charmap_back:
  assumes "distinct (filter (\<lambda>x. x \<noteq> 0) tbl)" "length tbl = 128" "\<forall>x\<in>set tbl. x = 0 \<or> 128 \<le> x" "charmap_decode tbl data = Inr t"
  shows "charmap_encode tbl t = Inr data"
proof -
  have "each (char_byte tbl) t = Inr (map unat data)"
  proof (rule each_back [of "map unat data" "byte_char tbl"])
    fix x y assume "x \<in> set (map unat data)" "byte_char tbl x = Inr y"
    moreover from this(1) have "x < 256" by (auto intro: order_less_le_trans [OF unsigned_less])
    ultimately show "char_byte tbl y = Inr x" using char_byte_back [OF assms(1-3)] by blast
  qed (use assms(4) in \<open>simp add: charmap_decode_def\<close>)
  then show ?thesis by (simp add: charmap_encode_def map_of_nat_unat del: map_map)
qed

lemma tables_ok:
  "distinct (filter (\<lambda>x. x \<noteq> 0) CP1251)" "length CP1251 = 128" "\<forall>x\<in>set CP1251. x = 0 \<or> 128 \<le> x"
  "distinct (filter (\<lambda>x. x \<noteq> 0) CP1252)" "length CP1252 = 128" "\<forall>x\<in>set CP1252. x = 0 \<or> 128 \<le> x"
  "distinct (filter (\<lambda>x. x \<noteq> 0) LATIN1)" "length LATIN1 = 128" "\<forall>x\<in>set LATIN1. x = 0 \<or> 128 \<le> x"
  by (simp_all add: CP1251_def CP1252_def LATIN1_def)

lemma units_back:
  "code_units False bs = Some xs \<Longrightarrow> list_all (\<lambda>b. b < 256) bs \<Longrightarrow>
     concat (map (\<lambda>x. [x mod 256, x div 256]) xs) = bs \<and> list_all (\<lambda>x. x < 65536) xs"
proof (induction "False" bs arbitrary: xs rule: code_units.induct)
  case (3 a b r)
  then obtain ys where "code_units False r = Some ys" "xs = (b * 256 + a) # ys" by auto
  then show ?case using 3 by simp
qed simp_all

lemma join_back: "join_units xs = Some s \<Longrightarrow> list_all (\<lambda>x. x < 65536) xs \<Longrightarrow> encodable s \<and> concat (map units_of s) = xs"
proof (induction xs arbitrary: s rule: join_units.induct)
  case (2 x r)
  show ?case
  proof (cases "surrogate x")
    case False
    then obtain s' where "join_units r = Some s'" "s = x # s'" using 2(3) by auto
    then show ?thesis using 2(1) [OF False] 2(4) False by (simp add: encodable_def units_of_def)
  next
    case True
    then obtain y r' s' where y: "x < 56320" "r = y # r'" "56320 \<le> y" "y < 57344" "join_units r' = Some s'"
        "s = (65536 + (x - 55296) * 1024 + (y - 56320)) # s'"
      using 2(3) by (auto split: if_splits list.splits)
    let ?c = "65536 + (x - 55296) * 1024 + (y - 56320)"
    have x: "55296 \<le> x" using True by (simp add: surrogate_def)
    obtain p where p: "x = 55296 + p" "p < 1024" using lead_split [of 55296 x 1024] x y(1) by auto
    obtain q where q: "y = 56320 + q" "q < 1024" using lead_split [of 56320 y 1024] y(3,4) by auto
    have c: "?c = 65536 + (p * 1024 + q)" using p q by simp
    have "(p * 1024 + q) div 1024 = p" "(p * 1024 + q) mod 1024 = q" using q(2) by simp_all
    then have u: "units_of ?c = [x, y]" unfolding c units_of_def using p(1) q(1) by simp
    have "?c < 1114112 \<and> \<not> surrogate ?c" unfolding c surrogate_def using p(2) q(2) by simp
    moreover have "encodable s' \<and> concat (map units_of s') = r'"
      using 2(2) [of y r' s'] True y 2(4) by simp
    ultimately show ?thesis using u y(2,6) by (simp add: encodable_def)
  qed
qed (simp add: encodable_def)

lemma utf16_back: "utf16_decode data = Inr t \<Longrightarrow> take 2 data = [255, 254] \<Longrightarrow> utf16_encode t = Inr data"
proof -
  assume d: "utf16_decode data = Inr t" "take 2 data = [255, 254]"
  then obtain xs where x: "code_units False (map unat (drop 2 data)) = Some xs" "join_units xs = Some t"
    by (auto simp: utf16_decode_def bind_eq_Some_conv split: option.splits)
  have "list_all (\<lambda>b. b < 256) (map unat (drop 2 data))"
    by (auto simp: list_all_iff intro: order_less_le_trans [OF unsigned_less])
  from units_back [OF x(1) this] have u: "concat (map (\<lambda>x. [x mod 256, x div 256]) xs) = map unat (drop 2 data)" "list_all (\<lambda>x. x < 65536) xs"
    by simp_all
  have "data = [255, 254] @ drop 2 data" using d(2) append_take_drop_id [of 2 data] by simp
  then show ?thesis using join_back [OF x(2) u(2)] u(1) by (simp add: utf16_encode_def map_of_nat_unat del: map_map)
qed

lemma decode_encode:
  assumes "decode_text data = Inr (t, enc, bom)" "take 2 data \<noteq> [254, 255]"
  shows "encode_text t enc bom = Inr data"
proof (cases "take 3 data = BOM8")
  case True
  have "data = take 3 data @ drop 3 data" by simp
  then show ?thesis using assms(1) True utf8_back [of "drop 3 data" t]
    by (auto simp: decode_text_def encode_text_def encode_in_def rbind_Inr_iff)
next
  case False
  show ?thesis
  proof (cases "take 2 data = [255, 254]")
    case True
    then show ?thesis using assms(1) False utf16_back [of data t]
      by (auto simp: decode_text_def encode_text_def encode_in_def rbind_Inr_iff)
  next
    case n: False
    then show ?thesis
      using assms False utf8_back [of data t] charmap_back [OF tables_ok(1-3), of data t] charmap_back [OF tables_ok(4-6), of data t]
        charmap_back [OF tables_ok(7-9), of data t]
      by (auto simp: decode_text_def encode_text_def encode_in_def rbind_Inr_iff split: sum.splits)
  qed
qed

text \<open>C36. A text file that is not changed comes back byte for byte: whatever the bytes are (UTF-8 with or without a
  mark, UTF-16 with a little-endian mark, either Windows code page or neither), encoding the text that was
  decoded, in the encoding that was found and with its mark, gives the bytes; only a big-endian UTF-16 file
  does not (\<open>utf16_big_endian\<close>).\<close>

theorem decode_encode_text:
  assumes "decode_text data = Inr (t, enc, bom)" "take 2 data \<noteq> [254, 255]"
  shows "encode_text t enc bom = Inr data"
  by (rule decode_encode [OF assms])

lemma decode_encode_text_witness: "encode_text [1040, 33] Cp1251 [] = Inr [192, 33 :: 8 word]"
proof -
  have "decode_text [192, 33] = Inr ([1040, 33], Cp1251, [])"
    by (simp add: decode_text_def BOM8_def utf8_decode_def charmap_decode_def byte_char_def CP1251_def)
  from decode_encode_text [OF this] show ?thesis by simp
qed

text \<open>A big-endian file comes back in the other byte order.\<close>

lemma utf16_big_endian:
  "decode_text [254, 255, 0, 65] = Inr ([65], Utf16, [])" "encode_text [65] Utf16 [] = Inr [255, 254, 65, 0 :: 8 word]"
  by (simp_all add: decode_text_def BOM8_def utf16_decode_def encode_text_def encode_in_def utf16_encode_def encodable_def surrogate_def units_of_def)

text \<open>A text that no longer fits its code page is written as UTF-8 with a mark.\<close>

lemma encode_fallback: "encode_in enc t = Inl e \<Longrightarrow> utf8_encode t = Inr b \<Longrightarrow> encode_text t enc bom = Inr (BOM8 @ b)"
  by (simp add: encode_text_def)

section \<open>Writing UTF-8\<close>

definition writable :: "pystr \<Rightarrow> encoding \<Rightarrow> bytes \<Rightarrow> bool" where
  "writable t enc bom \<longleftrightarrow> enc = Utf8 \<and> encodable t \<and> (bom = BOM8 \<or> bom = [] \<and> take 1 t \<noteq> [65279])"

lemma bytes_cons: "take 3 b = BOM8 \<Longrightarrow> \<exists>r. map unat b = 239 # 187 # 191 # r"
  "take 2 b = [255, 254] \<or> take 2 b = [254, 255 :: 8 word] \<Longrightarrow> \<exists>x r. map unat b = x # r \<and> 245 \<le> x"
proof -
  assume "take 3 b = BOM8"
  moreover have "b = take 3 b @ drop 3 b" by simp
  ultimately have "b = BOM8 @ drop 3 b" by simp
  then have "map unat b = map unat (BOM8 @ drop 3 b)" by (rule arg_cong)
  then show "\<exists>r. map unat b = 239 # 187 # 191 # r" by (simp add: BOM8_def)
next
  assume h: "take 2 b = [255, 254] \<or> take 2 b = [254, 255]"
  then obtain x r where b: "b = x # r" by (cases b) auto
  then have "x = 255 \<or> x = 254" using h by auto
  then show "\<exists>x r. map unat b = x # r \<and> 245 \<le> x" using b by auto
qed

lemma written_back:
  assumes "writable t enc bom"
  shows "\<exists>b. encode_text t enc bom = Inr b \<and> decode_text b = Inr (t, enc, bom)"
proof -
  obtain b where b: "utf8_encode t = Inr b" using utf8_encode_ok assms by (auto simp: writable_def)
  then have d: "utf8_decode b = Inr t" by (rule utf8_roundtrip)
  then have dec: "dec (map unat b) = Some t" by (simp add: utf8_decode_def split: option.splits)
  have enc: "encode_text t enc bom = Inr (bom @ b)" using b assms by (simp add: encode_text_def encode_in_def writable_def)
  show ?thesis
  proof (cases "bom = BOM8")
    case True
    then show ?thesis using enc d assms by (simp add: decode_text_def writable_def BOM8_def)
  next
    case False
    then have n: "bom = []" "take 1 t \<noteq> [65279]" "enc = Utf8" using assms by (auto simp: writable_def)
    have "take 3 b \<noteq> BOM8"
    proof
      assume "take 3 b = BOM8"
      from bytes_cons(1) [OF this] obtain r where "map unat b = 239 # 187 # 191 # r" by auto
      then have "dec (239 # 187 # 191 # r) = Some t" using dec by simp
      then have "hd t = 65279 \<and> t \<noteq> []" by (auto simp: cont_def surrogate_def Let_def)
      then show False using n(2) by (cases t) auto
    qed
    moreover have "\<not> (take 2 b = [255, 254] \<or> take 2 b = [254, 255])"
    proof
      assume "take 2 b = [255, 254] \<or> take 2 b = [254, 255]"
      from bytes_cons(2) [OF this] obtain x r where "map unat b = x # r" "245 \<le> x" by auto
      then show False using dec by simp
    qed
    ultimately show ?thesis using enc d n by (simp add: decode_text_def)
  qed
qed

lemma decoded_encodable: "utf8_decode b = Inr t \<Longrightarrow> encodable t"
  using dec_back [of "map unat b" t] by (simp add: utf8_decode_def split: option.splits)

lemma decoded_writable: "decode_text data = Inr (t, Utf8, bom) \<Longrightarrow> writable t Utf8 bom"
proof (cases "take 3 data = BOM8")
  case True
  moreover assume "decode_text data = Inr (t, Utf8, bom)"
  ultimately have "bom = BOM8" "utf8_decode (drop 3 data) = Inr t" by (auto simp: decode_text_def rbind_Inr_iff)
  then show ?thesis using decoded_encodable by (auto simp: writable_def)
next
  case False
  moreover assume "decode_text data = Inr (t, Utf8, bom)"
  ultimately have d: "bom = []" "utf8_decode data = Inr t"
    by (auto simp: decode_text_def rbind_Inr_iff split: if_splits sum.splits)
  have e: "encodable t" "data = map of_nat (concat (map enc1 t))"
    using utf8_back [OF d(2)] by (auto simp: utf8_encode_def split: if_splits)
  have "take 1 t \<noteq> [65279]"
  proof
    assume "take 1 t = [65279]"
    then obtain t' where "t = 65279 # t'" by (cases t) auto
    then show False using e(2) False by (simp add: enc1_def BOM8_def)
  qed
  then show ?thesis using d(1) e(1) by (simp add: writable_def)
qed

end
