(* ===== verification/Desktop_Formats.thy ===== *)
theory Desktop_Formats
  imports Desktop_Text Text_Codecs
begin

text \<open>
  The handlers of \<open>app/desktop/formats.py\<close> for plain text and tables, the choice of a handler, and the replacement of
  spans in texts that are spread over several nodes. A handler gives its callback every text unit of a file and puts
  the replacements it answers into the file; the callback has a state, which is handed through.
\<close>

section \<open>Kinds of files\<close>

definition TEXT_EXT :: "pystr list" where
  "TEXT_EXT = map str [''.txt'', ''.md'', ''.text'', ''.log'', ''.json'', ''.xml'', ''.html'', ''.htm'', ''.rtf'', ''.eml'']"

definition CSV_EXT :: "pystr list" where "CSV_EXT = map str [''.csv'', ''.tsv'']"

definition OOXML_EXT :: "pystr list" where
  "OOXML_EXT = map str [''.docx'', ''.xlsx'', ''.pptx'', ''.docm'', ''.xlsm'']"

definition PDF_EXT :: "pystr list" where "PDF_EXT = [str ''.pdf'']"

definition IMAGE_EXT :: "pystr list" where
  "IMAGE_EXT = map str [''.png'', ''.jpg'', ''.jpeg'', ''.tif'', ''.tiff'', ''.bmp'', ''.webp'']"

definition SUPPORTED_EXT :: "pystr list" where
  "SUPPORTED_EXT = remdups (TEXT_EXT @ CSV_EXT @ OOXML_EXT @ PDF_EXT @ IMAGE_EXT)"

text \<open>\<open>Path(name)\<close>: the last component that is not empty or a dot, split at its last dot unless that is its first
  or last character (POSIX paths).\<close>

definition path_name :: "pystr \<Rightarrow> pystr" where
  "path_name p = (let parts = filter (\<lambda>w. w \<noteq> [] \<and> w \<noteq> [46]) (split_on 47 p) in if parts = [] then [] else last parts)"

definition last_dot :: "pystr \<Rightarrow> nat option" where
  "last_dot s = (let e = takeWhile (\<lambda>c. c \<noteq> 46) (rev s) in if length e < length s then Some (length s - Suc (length e)) else None)"

definition split_suffix :: "pystr \<Rightarrow> pystr \<times> pystr" where
  "split_suffix name =
     (case last_dot name of
        Some i \<Rightarrow> if 0 < i \<and> i < length name - 1 then (take i name, drop i name) else (name, [])
      | None \<Rightarrow> (name, []))"

definition path_stem :: "pystr \<Rightarrow> pystr" where "path_stem p = fst (split_suffix (path_name p))"
definition path_suffix :: "pystr \<Rightarrow> pystr" where "path_suffix p = snd (split_suffix (path_name p))"

definition kind_of :: "ucd \<Rightarrow> pystr \<Rightarrow> pystr res" where
  "kind_of u name =
     (let ext = u_lower u (path_suffix name) in
      if ext \<in> set CSV_EXT then Inr (str ''csv'')
      else if ext \<in> set OOXML_EXT then Inr (slice ext 1 5)
      else if ext \<in> set PDF_EXT then Inr (str ''pdf'')
      else if ext \<in> set IMAGE_EXT then Inr (str ''image'')
      else if ext \<in> set TEXT_EXT \<or> ext = [] then Inr (str ''text'')
      else Inl (UnsupportedFormat ext))"

datatype handler = TextHandler | CsvHandler | OoxmlHandler pystr | PdfHandler | ImageHandler

definition handler_for :: "ucd \<Rightarrow> pystr \<Rightarrow> handler res" where
  "handler_for u name =
     rbind (kind_of u name) (\<lambda>k.
       if k = str ''text'' then Inr TextHandler
       else if k = str ''csv'' then Inr CsvHandler
       else if k \<in> set (map str [''docx'', ''xlsx'', ''pptx'', ''docm'', ''xlsm'']) then
         Inr (OoxmlHandler (if k = str ''docm'' then str ''docx'' else if k = str ''xlsm'' then str ''xlsx'' else k))
       else if k = str ''pdf'' then Inr PdfHandler
       else if k = str ''image'' then Inr ImageHandler
       else Inl (UnsupportedFormat name))"

definition output_name :: "ucd \<Rightarrow> pystr \<Rightarrow> pystr \<Rightarrow> pystr res" where
  "output_name u name suffix =
     rbind (kind_of u name) (\<lambda>k.
       Inr (path_stem name @ suffix @ (if k = str ''image'' then str ''.pdf'' else path_suffix name)))"

section \<open>Units and the callback\<close>

record text_unit =
  un_text :: pystr
  un_force :: "pystr option"

type_synonym ('s, 'a) fm = "'s \<Rightarrow> 'a res \<times> 's"
type_synonym 's unit_fn = "pystr \<Rightarrow> pystr option \<Rightarrow> ('s, replacement list) fm"

definition fret :: "'a \<Rightarrow> ('s, 'a) fm" where "fret x s = (Inr x, s)"
definition flift :: "'a res \<Rightarrow> ('s, 'a) fm" where "flift r s = (r, s)"

definition fbind :: "('s, 'a) fm \<Rightarrow> ('a \<Rightarrow> ('s, 'b) fm) \<Rightarrow> ('s, 'b) fm" where
  "fbind m f s = (case m s of (Inl e, s') \<Rightarrow> (Inl e, s') | (Inr x, s') \<Rightarrow> f x s')"

text \<open>The calls for a list of units, one after the other.\<close>

fun visit :: "'s unit_fn \<Rightarrow> text_unit list \<Rightarrow> ('s, replacement list list) fm" where
  "visit f [] = fret []"
| "visit f (x # xs) = fbind (f (un_text x) (un_force x)) (\<lambda>reps. fbind (visit f xs) (\<lambda>rest. fret (reps # rest)))"

section \<open>Plain text\<close>

definition text_units :: "bytes \<Rightarrow> text_unit list res" where
  "text_units data = rbind (decode_text data) (\<lambda>(t, _, _). Inr [\<lparr>un_text = t, un_force = None\<rparr>])"

definition text_rewrite :: "bytes \<Rightarrow> 's unit_fn \<Rightarrow> ('s, bytes) fm" where
  "text_rewrite data f =
     fbind (flift (decode_text data)) (\<lambda>(t, enc, bom).
     fbind (f t None) (\<lambda>reps. flift (encode_text (apply_replacements t reps) enc bom)))"

section \<open>Tables\<close>

type_synonym cell = "nat \<times> nat \<times> bool"

definition cell_stop :: "nat \<Rightarrow> nat \<Rightarrow> bool" where
  "cell_stop sep c \<longleftrightarrow> c = sep \<or> c = 10 \<or> c = 13"

function quote_end :: "pystr \<Rightarrow> nat \<Rightarrow> nat" where
  "quote_end t j =
     (if j < length t then
        if t ! j = 34 then (if Suc j < length t \<and> t ! Suc j = 34 then quote_end t (j + 2) else j)
        else quote_end t (Suc j)
      else j)"
  by auto
termination by (relation "measure (\<lambda>(t, j). length t - j)") auto

function cell_end :: "pystr \<Rightarrow> nat \<Rightarrow> nat \<Rightarrow> nat" where
  "cell_end t sep j = (if j < length t \<and> \<not> cell_stop sep (t ! j) then cell_end t sep (Suc j) else j)"
  by auto
termination by (relation "measure (\<lambda>(t, sep, j). length t - j)") auto

declare quote_end.simps [simp del] cell_end.simps [simp del]

text \<open>One round of the loop of \<open>_csv_cells\<close>: the cell at a position and where it ends.\<close>

definition cell_at :: "pystr \<Rightarrow> nat \<Rightarrow> nat \<Rightarrow> cell \<times> nat" where
  "cell_at t sep i =
     (if i < length t \<and> t ! i = 34
      then (let j = quote_end t (Suc i) in ((Suc i, j, True), cell_end t sep (Suc j)))
      else (let j = cell_end t sep i in ((i, j, False), j)))"

lemma quote_end_le: "j \<le> quote_end t j"
  by (induction t j rule: quote_end.induct) (subst quote_end.simps, auto)

lemma cell_end_le: "j \<le> cell_end t sep j"
  by (induction t sep j rule: cell_end.induct) (subst cell_end.simps, auto)

lemma cell_at_le: "i \<le> snd (cell_at t sep i)"
  using quote_end_le [of "Suc i" t] cell_end_le [of "Suc (quote_end t (Suc i))" t sep] cell_end_le [of i t sep]
  by (simp add: cell_at_def Let_def)

function csv_loop :: "pystr \<Rightarrow> nat \<Rightarrow> nat \<Rightarrow> cell list \<Rightarrow> cell list list" where
  "csv_loop t sep i row =
     (let (c, j) = cell_at t sep i; row' = row @ [c] in
      if length t \<le> j then [row']
      else if t ! j = sep then csv_loop t sep (Suc j) row'
      else (let k = Suc (if t ! j = 13 \<and> Suc j < length t \<and> t ! Suc j = 10 then Suc j else j) in
            if k = length t then [row'] else row' # csv_loop t sep k []))"
  by auto
termination
proof (relation "measure (\<lambda>(t, sep, i, row). length t - i)")
  fix t :: pystr and sep i :: nat and row :: "cell list" and p c j row'
  assume p: "p = cell_at t sep i" "(c, j) = p" and j: "\<not> length t \<le> j"
  have "i \<le> j" using cell_at_le [of i t sep] p by (metis snd_conv)
  then show "((t, sep, Suc j, row'), t, sep, i, row) \<in> measure (\<lambda>(t, sep, i, row). length t - i)" using j by simp
next
  fix t :: pystr and sep i :: nat and row :: "cell list" and p c j row' k
  assume p: "p = cell_at t sep i" "(c, j) = p" and j: "\<not> length t \<le> j"
    and k: "k = Suc (if t ! j = 13 \<and> Suc j < length t \<and> t ! Suc j = 10 then Suc j else j)"
  have "i \<le> j" using cell_at_le [of i t sep] p by (metis snd_conv)
  then show "((t, sep, k, []), t, sep, i, row) \<in> measure (\<lambda>(t, sep, i, row). length t - i)" using j k by auto
qed simp

declare csv_loop.simps [simp del]

definition csv_cells :: "pystr \<Rightarrow> nat \<Rightarrow> cell list list" where
  "csv_cells t sep = csv_loop t sep 0 []"

text \<open>\<open>replace\<close> of a doubled quotation mark, and doubling it.\<close>

fun undouble :: "pystr \<Rightarrow> pystr" where
  "undouble (a # b # s) = (if a = 34 \<and> b = 34 then 34 # undouble s else a # undouble (b # s))"
| "undouble s = s"

definition double_quotes :: "pystr \<Rightarrow> pystr" where
  "double_quotes s = concat (map (\<lambda>c. if c = 34 then [34, 34] else [c]) s)"

definition cell_value :: "pystr \<Rightarrow> cell \<Rightarrow> pystr" where
  "cell_value t c = (case c of (a, b, quoted) \<Rightarrow> if quoted then undouble (slice t a b) else slice t a b)"

definition row_cats :: "ucd \<Rightarrow> pystr \<Rightarrow> cell list \<Rightarrow> (nat \<times> pystr) list" where
  "row_cats u t row =
     List.map_filter (\<lambda>(ci, c). case header_category u (cell_value t c) of Some v \<Rightarrow> if v = [] then None else Some (ci, v) | None \<Rightarrow> None)
       (enumerate 0 row)"

fun header_from :: "ucd \<Rightarrow> pystr \<Rightarrow> nat \<Rightarrow> cell list list \<Rightarrow> (nat \<times> (nat \<times> pystr) list) option" where
  "header_from u t ri [] = None"
| "header_from u t ri (row # rows) =
     (let cats = row_cats u t row in
      if cats \<noteq> [] \<and> 2 \<le> length row then Some (ri, cats) else header_from u t (Suc ri) rows)"

definition header_cats :: "ucd \<Rightarrow> pystr \<Rightarrow> cell list list \<Rightarrow> (nat \<times> (nat \<times> pystr) list) option" where
  "header_cats u t rows = header_from u t 0 (take 10 rows)"

definition forced_of :: "(nat \<times> (nat \<times> pystr) list) option \<Rightarrow> nat \<Rightarrow> nat \<Rightarrow> pystr option" where
  "forced_of header ri ci = (case header of None \<Rightarrow> None | Some (hrow, cats) \<Rightarrow> if hrow < ri then map_of cats ci else None)"

text \<open>The cells in the order of both loops, with the category their column forces.\<close>

definition csv_walk :: "(nat \<times> (nat \<times> pystr) list) option \<Rightarrow> cell list list \<Rightarrow> (cell \<times> pystr option) list" where
  "csv_walk header rows =
     concat (map (\<lambda>(ri, row). map (\<lambda>(ci, c). (c, forced_of header ri ci)) (enumerate 0 row)) (enumerate 0 rows))"

record csv_prep =
  cp_text :: pystr
  cp_enc :: encoding
  cp_bom :: bytes
  cp_sep :: nat
  cp_rows :: "cell list list"
  cp_header :: "(nat \<times> (nat \<times> pystr) list) option"

text \<open>\<open>sniff\<close> is \<open>csv.Sniffer().sniff\<close> for the four delimiters: the one it guesses, \<open>None\<close> when it raises \<open>csv.Error\<close>.\<close>

definition prep_csv :: "ucd \<Rightarrow> (pystr \<Rightarrow> nat option) \<Rightarrow> bytes \<Rightarrow> pystr \<Rightarrow> csv_prep res" where
  "prep_csv u sniff data name =
     rbind (decode_text data) (\<lambda>(t, enc, bom).
       let sep0 = (if endswith (u_lower u name) (str ''.tsv'') then 9 else 44);
           sep = (case sniff (take 4096 t) of Some d \<Rightarrow> d | None \<Rightarrow> sep0);
           rows = csv_cells t sep in
       Inr \<lparr>cp_text = t, cp_enc = enc, cp_bom = bom, cp_sep = sep, cp_rows = rows, cp_header = header_cats u t rows\<rparr>)"

definition csv_units :: "ucd \<Rightarrow> (pystr \<Rightarrow> nat option) \<Rightarrow> bytes \<Rightarrow> pystr \<Rightarrow> text_unit list res" where
  "csv_units u sniff data name =
     rbind (prep_csv u sniff data name) (\<lambda>p.
       Inr (map (\<lambda>(c, force). \<lparr>un_text = cell_value (cp_text p) c, un_force = force\<rparr>) (csv_walk (cp_header p) (cp_rows p))))"

definition quoted_cell :: "pystr \<Rightarrow> pystr" where "quoted_cell v = [34] @ double_quotes v @ [34]"

definition raw_cell :: "bool \<Rightarrow> pystr \<Rightarrow> pystr \<Rightarrow> pystr" where
  "raw_cell quoted val new_val =
     (if quoted then double_quotes new_val
      else if list_ex (\<lambda>c. c \<in> {34, 10, 13}) new_val \<or> 44 \<in> set new_val \<and> 44 \<notin> set val then quoted_cell new_val
      else new_val)"

definition cell_replacement :: "cell \<Rightarrow> pystr \<Rightarrow> replacement" where
  "cell_replacement c raw =
     \<lparr>rp_start = fst c, rp_end = fst (snd c), rp_new = raw, rp_category = [], rp_n = 0, rp_original = []\<rparr>"

fun csv_reps :: "'s unit_fn \<Rightarrow> pystr \<Rightarrow> (cell \<times> pystr option) list \<Rightarrow> ('s, replacement list) fm" where
  "csv_reps f t [] = fret []"
| "csv_reps f t ((c, force) # cs) =
     (let val = cell_value t c in
      fbind (f val force) (\<lambda>reps.
      fbind (csv_reps f t cs) (\<lambda>rest.
        fret (if reps = [] then rest
              else cell_replacement c (raw_cell (snd (snd c)) val (apply_replacements val reps)) # rest))))"

definition csv_rewrite :: "ucd \<Rightarrow> (pystr \<Rightarrow> nat option) \<Rightarrow> bytes \<Rightarrow> 's unit_fn \<Rightarrow> pystr \<Rightarrow> ('s, bytes) fm" where
  "csv_rewrite u sniff data f name =
     fbind (flift (prep_csv u sniff data name)) (\<lambda>p.
     fbind (csv_reps f (cp_text p) (csv_walk (cp_header p) (cp_rows p))) (\<lambda>raw_reps.
       flift (encode_text (apply_replacements (cp_text p) raw_reps) (cp_enc p) (cp_bom p))))"

section \<open>Texts spread over nodes\<close>

text \<open>\<open>b\<close> is where the first node of the list starts in the joined text.\<close>

fun cut_nodes :: "replacement \<Rightarrow> bool \<Rightarrow> nat \<Rightarrow> pystr list \<Rightarrow> pystr list" where
  "cut_nodes r here b [] = []"
| "cut_nodes r here b (t # ts) =
     (if rp_end r \<le> b then t # ts
      else let e = min (rp_end r - b) (length t) in
           (if here then take (rp_start r - b) t @ rp_new r @ drop e t else drop e t) # cut_nodes r False (b + length t) ts)"

fun apply_node :: "replacement \<Rightarrow> nat \<Rightarrow> pystr list \<Rightarrow> pystr list" where
  "apply_node r b [] = []"
| "apply_node r b (t # ts) =
     (if b \<le> rp_start r \<and> rp_start r < b + length t then cut_nodes r True b (t # ts)
      else t # apply_node r (b + length t) ts)"

definition apply_to_nodes :: "pystr list \<Rightarrow> replacement list \<Rightarrow> pystr list" where
  "apply_to_nodes texts reps = foldl (\<lambda>ts r. apply_node r 0 ts) texts (sort_key (\<lambda>r. - int (rp_start r)) reps)"

end
