(* ===== verification/Desktop_Nodes.thy ===== *)
theory Desktop_Nodes
  imports Desktop_Formats Desktop_Labels
begin

text \<open>
  A paragraph whose text is spread over the runs of a document, or a page over its spans: replacing in the nodes is
  replacing in the joined text.
\<close>

lemma cut_rest: "concat (cut_nodes r False b ts) = drop (rp_end r - b) (concat ts)"
proof (induction ts arbitrary: b)
  case (Cons t ts)
  have "drop (min (rp_end r - b) (length t)) t = drop (rp_end r - b) t" by (cases "rp_end r - b \<le> length t") (simp_all add: min_def)
  then show ?case using Cons.IH [of "b + length t"] by (simp add: Let_def)
qed simp

lemma cut_first:
  assumes "b \<le> rp_start r" "rp_start r < b + length t" "rp_start r < rp_end r"
  shows "concat (cut_nodes r True b (t # ts)) = take (rp_start r - b) (concat (t # ts)) @ rp_new r @ drop (rp_end r - b) (concat (t # ts))"
proof -
  have "drop (min (rp_end r - b) (length t)) t = drop (rp_end r - b) t" by (cases "rp_end r - b \<le> length t") (simp_all add: min_def)
  then show ?thesis using assms cut_rest [of r "b + length t" ts] by (simp add: Let_def)
qed

lemma cut_length [simp]: "length (cut_nodes r here b ts) = length ts"
  by (induction r here b ts rule: cut_nodes.induct) (simp_all add: Let_def)

lemma apply_node_length [simp]: "length (apply_node r b ts) = length ts"
  by (induction r b ts rule: apply_node.induct) (simp_all del: cut_nodes.simps)

lemma apply_node_concat:
  assumes "b \<le> rp_start r" "rp_start r < rp_end r" "rp_end r \<le> b + length (concat ts)"
  shows "concat (apply_node r b ts) = take (rp_start r - b) (concat ts) @ rp_new r @ drop (rp_end r - b) (concat ts)"
  using assms
proof (induction ts arbitrary: b)
  case (Cons t ts)
  show ?case
  proof (cases "rp_start r < b + length t")
    case True
    then show ?thesis using Cons.prems cut_first [of b r t ts] by (simp del: cut_nodes.simps)
  next
    case False
    moreover have "concat (apply_node r (b + length t) ts)
        = take (rp_start r - (b + length t)) (concat ts) @ rp_new r @ drop (rp_end r - (b + length t)) (concat ts)"
      by (rule Cons.IH) (use False Cons.prems in simp_all)
    ultimately show ?thesis using Cons.prems by simp
  qed
qed simp

lemma nodes_from:
  assumes "in_order (concat ts) rs"
  shows "concat (foldl (\<lambda>ts r. apply_node r 0 ts) ts (rev rs)) = foldl apply_one (concat ts) (rev rs)
    \<and> length (foldl (\<lambda>ts r. apply_node r 0 ts) ts (rev rs)) = length ts"
  using assms
proof (induction rs)
  case (Cons r rs)
  let ?t = "concat ts"
  have r: "rp_start r < rp_end r" "rp_end r \<le> length ?t" "\<forall>x\<in>set rs. rp_end r \<le> rp_start x" "in_order ?t rs"
    using Cons.prems by (simp_all add: in_order_Cons)
  have "length (foldl apply_one ?t (rev rs)) \<ge> rp_end r"
    using apply_put_from [OF r(4,3,2)] r(2) by simp
  then show ?case using Cons.IH [OF r(4)] apply_node_concat [of 0 r "foldl (\<lambda>ts r. apply_node r 0 ts) ts (rev rs)"] r(1)
    by (simp add: apply_one_def [of _ r])
qed simp

text \<open>C38. Replacing spans in a text that is spread over nodes (the runs of a paragraph, the spans of a page) keeps
  the number of nodes and changes their joined text exactly as replacing in the joined text does, for replacements
  that are in order.\<close>

theorem apply_to_nodes_joined:
  assumes "in_order (concat texts) reps"
  shows "concat (apply_to_nodes texts reps) = apply_replacements (concat texts) reps \<and> length (apply_to_nodes texts reps) = length texts"
  using nodes_from [OF assms] by (simp add: apply_to_nodes_def apply_replacements_def in_order_sort [OF assms])

lemma apply_to_nodes_joined_witness:
  "concat (apply_to_nodes [str ''Jo'', str ''hn x''] [\<lparr>rp_start = 0, rp_end = 4, rp_new = str ''P'', rp_category = [], rp_n = 0, rp_original = []\<rparr>])
    = str ''P x''"
proof -
  let ?r = "\<lparr>rp_start = 0, rp_end = 4, rp_new = str ''P'', rp_category = [], rp_n = 0, rp_original = []\<rparr>" and ?ts = "[str ''Jo'', str ''hn x'']"
  have o: "in_order (concat ?ts) [?r]" by (simp add: in_order_def str_def)
  have "concat (apply_to_nodes ?ts [?r]) = put (concat ?ts) 0 [?r]"
    using apply_to_nodes_joined [OF o] apply_put [OF o] by simp
  then show ?thesis by (simp add: str_def slice_def)
qed

end
