(* ===== verification/Desktop_Pipeline.thy ===== *)
theory Desktop_Pipeline
  imports Desktop_Anonymizer Desktop_Formats
begin

text \<open>
  \<open>app/desktop/pipeline.py\<close>: a file through its handler and the engine, there and back. The callback a handler
  gets is a closure over the anonymizer and the lists of a run: here \<open>file_run\<close>, the state it hands through. The
  handlers of Office, PDF and image files are a parameter; the wall-clock seconds of a run are not modelled.
\<close>

section \<open>A run over a file\<close>

record file_run =
  fr_eng :: eng
  fr_st :: run_state
  fr_cursor :: nat
  fr_in :: "pystr list"
  fr_out :: "pystr list"

record doc_handler =
  dh_units :: "bytes \<Rightarrow> text_unit list res"
  dh_rewrite :: "bytes \<Rightarrow> file_run unit_fn \<Rightarrow> (file_run, bytes) fm"

record file_env =
  fe_eng :: eng_env
  fe_sniff :: "pystr \<Rightarrow> nat option"
  fe_other :: "handler \<Rightarrow> doc_handler"

definition fe_ucd :: "file_env \<Rightarrow> ucd" where "fe_ucd env = eg_ucd (fe_eng env)"

text \<open>\<open>_call\<close>: the table handler is told the name of the file.\<close>

definition handler_ops :: "file_env \<Rightarrow> pystr \<Rightarrow> handler \<Rightarrow> doc_handler" where
  "handler_ops env name h =
     (case h of
        TextHandler \<Rightarrow> \<lparr>dh_units = text_units, dh_rewrite = text_rewrite\<rparr>
      | CsvHandler \<Rightarrow>
          \<lparr>dh_units = \<lambda>data. csv_units (fe_ucd env) (fe_sniff env) data name,
           dh_rewrite = \<lambda>data f. csv_rewrite (fe_ucd env) (fe_sniff env) data f name\<rparr>
      | _ \<Rightarrow> fe_other env h)"

definition start_run :: "eng \<Rightarrow> file_run" where
  "start_run s = \<lparr>fr_eng = s, fr_st = new_run, fr_cursor = 0, fr_in = [], fr_out = []\<rparr>"

definition run_file :: "doc_handler \<Rightarrow> bytes \<Rightarrow> file_run unit_fn \<Rightarrow> (bytes \<times> file_run) egm" where
  "run_file h data f s =
     (case dh_rewrite h data f (start_run s) of
        (Inl e, r) \<Rightarrow> (Inl e, fr_eng r)
      | (Inr out, r) \<Rightarrow> (Inr (out, r), fr_eng r))"

definition anon_fn :: "eng_env \<Rightarrow> pystr \<Rightarrow> pystr \<Rightarrow> eng_options \<Rightarrow> file_run unit_fn" where
  "anon_fn env pid lng options t force r =
     (let r = r\<lparr>fr_in := fr_in r @ [t]\<rparr> in
      case anonymize_unit env pid t (fr_st r) lng options force (fr_eng r) of
        (Inl e, s) \<Rightarrow> (Inl e, r\<lparr>fr_eng := s\<rparr>)
      | (Inr (reps, st), s) \<Rightarrow> (Inr reps, r\<lparr>fr_eng := s, fr_st := st\<rparr>))"

definition restore_fn :: "eng_env \<Rightarrow> pystr \<Rightarrow> (pystr \<times> nat \<times> pystr) list option \<Rightarrow> file_run unit_fn" where
  "restore_fn env pid exact t force r =
     (let r = r\<lparr>fr_in := fr_in r @ [t]\<rparr> in
      case restore_unit env pid t (fr_st r) exact (fr_cursor r) (fr_eng r) of
        (Inl e, s) \<Rightarrow> (Inl e, r\<lparr>fr_eng := s\<rparr>)
      | (Inr (reps, st, cursor), s) \<Rightarrow>
          (Inr reps, r\<lparr>fr_eng := s, fr_st := st, fr_cursor := cursor, fr_out := fr_out r @ [apply_replacements t reps]\<rparr>))"

section \<open>Results\<close>

record file_result =
  fl_name :: pystr
  fl_out_name :: pystr
  fl_kind :: pystr
  fl_data :: bytes
  fl_counts :: "(pystr \<times> int) list"
  fl_labels :: int
  fl_exact :: "bool option"
  fl_unknown :: "pystr list"
  fl_preview_in :: pystr
  fl_preview_out :: pystr
  fl_doc_id :: pystr

definition preview :: "ucd \<Rightarrow> pystr list \<Rightarrow> pystr" where
  "preview u xs = take 20000 (join_with [10] (filter (\<lambda>x. py_strip u x \<noteq> []) xs))"

definition decoded_preview :: "bytes \<Rightarrow> pystr res" where
  "decoded_preview data = rbind (decode_text data) (\<lambda>(t, _, _). Inr (take 20000 t))"

definition previews :: "ucd \<Rightarrow> pystr \<Rightarrow> pystr list \<Rightarrow> pystr list \<Rightarrow> bytes \<Rightarrow> bytes \<Rightarrow> (pystr \<times> pystr) res" where
  "previews u fkind ins outs data out =
     (if fkind = str ''text'' \<or> fkind = str ''csv''
      then rbind (decoded_preview data) (\<lambda>a. rbind (decoded_preview out) (\<lambda>b. Inr (a, b)))
      else Inr (preview u ins, preview u outs))"

section \<open>Anonymizing\<close>

fun prescan_units :: "file_env \<Rightarrow> pystr \<Rightarrow> eng_options \<Rightarrow> text_unit list \<Rightarrow> nat egm" where
  "prescan_units env pid options [] = eret 0"
| "prescan_units env pid options (x # xs) =
     ebind (prescan_unit (fe_eng env) pid (un_text x) options (un_force x)) (\<lambda>n.
     ebind (prescan_units env pid options xs) (\<lambda>m. eret (n + m)))"

fun prescan_files :: "file_env \<Rightarrow> pystr \<Rightarrow> (pystr \<times> bytes) list \<Rightarrow> eng_options \<Rightarrow> nat egm" where
  "prescan_files env pid [] options = eret 0"
| "prescan_files env pid ((name, data) # files) options =
     ebind (elift (handler_for (fe_ucd env) name)) (\<lambda>h.
     ebind (elift (dh_units (handler_ops env name h) data)) (\<lambda>us.
     ebind (prescan_units env pid options us) (\<lambda>n.
     ebind (prescan_files env pid files options) (\<lambda>m. eret (n + m)))))"

definition record_anon :: "file_env \<Rightarrow> pystr \<Rightarrow> pystr \<Rightarrow> pystr \<Rightarrow> (pystr \<times> nat \<times> pystr) list \<Rightarrow> pystr egm" where
  "record_anon env pid name fkind occ =
     ebind (elift (label_digest (ev_sha (fe_eng env)) (label_seq occ))) (\<lambda>digest.
       on_vault (record_document (ev_lv (fe_eng env)) pid name fkind (str ''anon'') (Some digest) (Some (occurrences_json occ)) (run_stats occ)))"

definition anonymize_file :: "file_env \<Rightarrow> pystr \<Rightarrow> pystr \<Rightarrow> bytes \<Rightarrow> pystr \<Rightarrow> eng_options \<Rightarrow> file_result egm" where
  "anonymize_file env pid name data lng options =
     ebind (elift (handler_for (fe_ucd env) name)) (\<lambda>h.
     ebind (run_file (handler_ops env name h) data (anon_fn (fe_eng env) pid lng options)) (\<lambda>(out, r).
     ebind (finish_anon (fr_st r)) (\<lambda>_.
       let occ = rs_occurrences (fr_st r) in
     ebind (elift (kind_of (fe_ucd env) name)) (\<lambda>fkind.
     ebind (elift (previews (fe_ucd env) fkind (fr_in r) (rs_units_out (fr_st r)) data out)) (\<lambda>(pin, pout).
     ebind (elift (output_name (fe_ucd env) name (str ''.anon''))) (\<lambda>out_name.
     ebind (record_anon env pid name fkind occ) (\<lambda>did.
       eret \<lparr>fl_name = name, fl_out_name = out_name, fl_kind = fkind, fl_data = out, fl_counts = count_by fst occ [],
             fl_labels = int (length (remdups (label_seq occ))), fl_exact = None, fl_unknown = [],
             fl_preview_in = pin, fl_preview_out = pout, fl_doc_id = did\<rparr>)))))))"

section \<open>Restoring\<close>

function replace_str :: "pystr \<Rightarrow> pystr \<Rightarrow> pystr \<Rightarrow> pystr" where
  "replace_str old new s =
     (if old = [] \<or> s = [] then s
      else if startswith s old then new @ replace_str old new (drop (length old) s)
      else hd s # replace_str old new (tl s))"
  by auto
termination by (relation "measure (\<lambda>(old, new, s). length s)") auto

declare replace_str.simps [simp del]

definition stem_name :: "pystr \<Rightarrow> pystr" where
  "stem_name name = replace_str (str ''.anon.'') (str ''.'') name"

definition category_counts :: "((pystr \<times> pystr \<times> nat) \<times> int) list \<Rightarrow> (pystr \<times> int) list" where
  "category_counts items = fold (\<lambda>((_, c, _), k) acc. bump_count c k acc) items []"

definition restore_stats :: "(pystr \<times> int) list \<Rightarrow> bool \<Rightarrow> nat \<Rightarrow> json" where
  "restore_stats cts exact unknown =
     JDict [(str ''counts'', JDict (map (\<lambda>(c, k). (c, JInt k)) cts)), (str ''exact'', JBool exact), (str ''unknown'', JInt (int unknown))]"

text \<open>The part of \<open>restore_file\<close> up to the rewritten bytes.\<close>

definition restore_bytes :: "file_env \<Rightarrow> pystr \<Rightarrow> doc_handler \<Rightarrow> bytes \<Rightarrow> (bytes \<times> file_run \<times> (pystr \<times> nat \<times> pystr) list option) egm" where
  "restore_bytes env pid h data =
     ebind (elift (dh_units h data)) (\<lambda>us.
     ebind (exact_map (fe_eng env) pid (map un_text us)) (\<lambda>exact.
     ebind (run_file h data (restore_fn (fe_eng env) pid exact)) (\<lambda>(out, r). eret (out, r, exact))))"

definition restore_file :: "file_env \<Rightarrow> pystr \<Rightarrow> pystr \<Rightarrow> bytes \<Rightarrow> file_result egm" where
  "restore_file env pid name data =
     ebind (elift (handler_for (fe_ucd env) name)) (\<lambda>h.
     ebind (restore_bytes env pid (handler_ops env name h) data) (\<lambda>(out, r, exact).
       let cts = category_counts (rs_counts (fr_st r)); unknown = sort (remdups (rs_unknown (fr_st r))) in
     ebind (elift (kind_of (fe_ucd env) name)) (\<lambda>fkind.
     ebind (elift (previews (fe_ucd env) fkind (fr_in r) (fr_out r) data out)) (\<lambda>(pin, pout).
     ebind (elift (output_name (fe_ucd env) (stem_name name) (str ''.restored''))) (\<lambda>out_name.
     ebind (on_vault (record_document (ev_lv (fe_eng env)) pid name fkind (str ''restore'') None None
              (restore_stats cts (exact \<noteq> None) (length unknown)))) (\<lambda>did.
       eret \<lparr>fl_name = name, fl_out_name = out_name, fl_kind = fkind, fl_data = out, fl_counts = cts,
             fl_labels = sum_list (map snd cts), fl_exact = Some (exact \<noteq> None), fl_unknown = unknown,
             fl_preview_in = pin, fl_preview_out = pout, fl_doc_id = did\<rparr>))))))"

end
