(* ===== verification/Desktop_Cells.thy ===== *)
theory Desktop_Cells
  imports Desktop_Formats Desktop_Labels
begin

text \<open>
  Tables: the rewritten file, read again, has the cells the callback asked for. \<open>quoted_part\<close> and \<open>takeWhile\<close> say what
  the two scanning loops consume.
\<close>

section \<open>What the scanning loops consume\<close>

fun quoted_part :: "pystr \<Rightarrow> pystr" where
  "quoted_part (a # b # s) = (if a = 34 then if b = 34 then a # b # quoted_part s else [] else a # quoted_part (b # s))"
| "quoted_part [a] = (if a = 34 then [] else [a])"
| "quoted_part [] = []"

lemma quote_end_part: "quote_end t j = j + length (quoted_part (drop j t))"
proof (induction t j rule: quote_end.induct)
  case (1 t j)
  show ?case
  proof (cases "j < length t")
    case True
    then have d: "drop j t = t ! j # drop (Suc j) t" by (simp add: Cons_nth_drop_Suc)
    show ?thesis
    proof (cases "Suc j < length t")
      case True
      then have d': "drop (Suc j) t = t ! Suc j # drop (j + 2) t" by (simp add: Cons_nth_drop_Suc)
      then show ?thesis using 1 \<open>j < length t\<close> d True by (subst quote_end.simps) auto
    next
      case False
      then have "drop (Suc j) t = []" by simp
      then show ?thesis using 1 \<open>j < length t\<close> d False by (subst quote_end.simps) auto
    qed
  qed (subst quote_end.simps, simp)
qed

lemma cell_end_part: "cell_end t sep j = j + length (takeWhile (\<lambda>c. \<not> cell_stop sep c) (drop j t))"
proof (induction t sep j rule: cell_end.induct)
  case (1 t sep j)
  show ?case
  proof (cases "j < length t")
    case True
    then have d: "drop j t = t ! j # drop (Suc j) t" by (simp add: Cons_nth_drop_Suc)
    then show ?thesis using 1 True by (subst cell_end.simps) auto
  qed (subst cell_end.simps, simp)
qed

definition ends_quote :: "pystr \<Rightarrow> bool" where
  "ends_quote r \<longleftrightarrow> r = [] \<or> hd r = 34 \<and> (tl r = [] \<or> hd (tl r) \<noteq> 34)"

lemma quoted_part_prefix: "\<exists>r. s = quoted_part s @ r \<and> ends_quote r"
  by (induction s rule: quoted_part.induct) (auto simp: ends_quote_def)

lemma quoted_part_stop: "ends_quote r \<Longrightarrow> quoted_part r = []"
  by (cases r rule: quoted_part.cases) (auto simp: ends_quote_def)

lemma quoted_part_again: "ends_quote r \<Longrightarrow> quoted_part (quoted_part s @ r) = quoted_part s"
proof (induction s rule: quoted_part.induct)
  case (1 a b s)
  show ?case
  proof (cases "a = 34")
    case False
    then have "quoted_part (b # s) = [] \<or> (\<exists>x y. quoted_part (b # s) = x # y)" by (cases "quoted_part (b # s)") auto
    then show ?thesis using 1 False by (cases "quoted_part (b # s) @ r") auto
  qed (use 1 quoted_part_stop in auto)
next
  case (2 a)
  then show ?case using quoted_part_stop [of r] by (cases r) auto
qed (simp add: quoted_part_stop)

lemma other_char: "c \<noteq> 34 \<Longrightarrow> undouble (c # s) = c # undouble s" "c \<noteq> 34 \<Longrightarrow> quoted_part (c # s) = c # quoted_part s"
  by (cases s; simp)+

lemma double_quotes_simps [simp]:
  "double_quotes [] = []" "double_quotes (c # v) = (if c = 34 then [34, 34] else [c]) @ double_quotes v"
  by (simp_all add: double_quotes_def)

lemma quoted_part_double: "ends_quote r \<Longrightarrow> quoted_part (double_quotes v @ r) = double_quotes v"
  by (induction v) (simp_all add: quoted_part_stop other_char)

lemma undouble_double: "undouble (double_quotes v) = v"
  by (induction v) (simp_all add: other_char)

section \<open>One cell\<close>

definition at_stop :: "nat \<Rightarrow> pystr \<Rightarrow> bool" where "at_stop sep r \<longleftrightarrow> r = [] \<or> cell_stop sep (hd r)"
definition inner :: "nat \<Rightarrow> pystr \<Rightarrow> bool" where "inner sep w \<longleftrightarrow> (\<forall>c\<in>set w. \<not> cell_stop sep c)"

lemma take_inner: "inner sep w \<Longrightarrow> at_stop sep r \<Longrightarrow> takeWhile (\<lambda>c. \<not> cell_stop sep c) (w @ r) = w"
  by (cases r) (simp_all add: inner_def at_stop_def takeWhile_append)

lemma split_inner: "\<exists>w r. s = w @ r \<and> inner sep w \<and> at_stop sep r"
proof (intro exI conjI)
  show "s = takeWhile (\<lambda>c. \<not> cell_stop sep c) s @ dropWhile (\<lambda>c. \<not> cell_stop sep c) s" by simp
  show "inner sep (takeWhile (\<lambda>c. \<not> cell_stop sep c) s)" by (auto simp: inner_def dest: set_takeWhileD)
  show "at_stop sep (dropWhile (\<lambda>c. \<not> cell_stop sep c) s)" 
    unfolding at_stop_def by (metis dropWhile_eq_Nil_conv hd_dropWhile)
qed

lemma drop_hd: "drop i t = x # s \<Longrightarrow> i < length t \<and> t ! i = x \<and> drop (Suc i) t = s"
  by (metis drop_Suc drop_eq_Nil2 hd_drop_conv_nth linorder_not_le list.distinct(1) list.sel(1) list.sel(3) tl_drop)

lemma drop_prefix: "drop i t = w @ r \<Longrightarrow> drop (i + length w) t = r \<and> slice t i (i + length w) = w"
  by (simp add: slice_def) (metis add.commute append_eq_conv_conj drop_drop)

lemma cell_at_plain:
  assumes "drop i t = w @ r" "inner sep w" "at_stop sep r" "w @ r = [] \<or> hd (w @ r) \<noteq> 34"
  shows "cell_at t sep i = ((i, i + length w, False), i + length w)"
proof -
  have "\<not> (i < length t \<and> t ! i = 34)" using assms(1,4) by (metis drop_eq_Nil2 hd_drop_conv_nth linorder_not_le)
  then show ?thesis using assms take_inner [OF assms(2,3)] by (simp add: cell_at_def Let_def cell_end_part)
qed

lemma cell_at_quoted:
  assumes "drop i t = 34 # q @ m" "quoted_part (q @ m) = q" "m = [] \<and> junk = [] \<and> r = [] \<or> m = 34 # junk @ r" "inner sep junk" "at_stop sep r"
  shows "cell_at t sep i = ((Suc i, Suc i + length q, True), Suc i + length q + 1 + length junk)"
proof -
  have i: "i < length t" "t ! i = 34" "drop (Suc i) t = q @ m" using drop_hd [OF assms(1)] by simp_all
  have e: "quote_end t (Suc i) = Suc i + length q" using assms(2) i by (simp add: quote_end_part)
  have "drop (Suc i + length q) t = m" using drop_prefix [OF i(3)] by simp
  then have "drop (Suc (Suc i + length q)) t = tl m" by (metis drop_Suc tl_drop)
  then have "takeWhile (\<lambda>c. \<not> cell_stop sep c) (drop (Suc (Suc i + length q)) t) = junk"
    using assms(3) take_inner [OF assms(4,5)] by auto
  then have "cell_end t sep (Suc (Suc i + length q)) = Suc (Suc i + length q) + length junk" by (simp add: cell_end_part del: drop_Suc)
  then show ?thesis using i e by (simp add: cell_at_def Let_def)
qed

lemma cell_at_cases:
  assumes "i \<le> length t"
  obtains (plain) w r where "drop i t = w @ r" "inner sep w" "at_stop sep r" "w @ r = [] \<or> hd (w @ r) \<noteq> 34"
      "cell_at t sep i = ((i, i + length w, False), i + length w)" "drop (i + length w) t = r"
  | (quoted) q m junk r where "drop i t = 34 # q @ m" "q = quoted_part (q @ m)" "m = [] \<and> junk = [] \<and> r = [] \<or> m = 34 # junk @ r"
      "ends_quote m" "inner sep junk" "at_stop sep r"
      "cell_at t sep i = ((Suc i, Suc i + length q, True), Suc i + length q + 1 + length junk)"
      "drop (Suc i + length q + 1 + length junk) t = r"
proof (cases "drop i t \<noteq> [] \<and> hd (drop i t) = 34")
  case False
  obtain w r where w: "drop i t = w @ r" "inner sep w" "at_stop sep r" using split_inner by blast
  moreover have h: "w @ r = [] \<or> hd (w @ r) \<noteq> 34" using False w(1) by auto
  ultimately show thesis using plain cell_at_plain [OF w h] drop_prefix [OF w(1)] by blast
next
  case True
  then obtain s where s: "drop i t = 34 # s" by (cases "drop i t") auto
  obtain m where m: "s = quoted_part s @ m" "ends_quote m" using quoted_part_prefix by blast
  show thesis
  proof (cases m)
    case Nil
    have "cell_at t sep i = ((Suc i, Suc i + length (quoted_part s), True), Suc i + length (quoted_part s) + 1 + length ([] :: pystr))"
      by (rule cell_at_quoted [where m = "[]" and r = "[]"]) (use s m Nil in \<open>simp_all add: inner_def at_stop_def\<close>)
    moreover have "drop (Suc i + length (quoted_part s) + 1 + length ([] :: pystr)) t = []"
      using drop_hd [OF s] m(1) Nil by (metis (no_types, lifting) add.commute append_Nil2 drop_eq_Nil2 drop_prefix le_add1 le_trans plus_1_eq_Suc add_Suc list.size(3) add.right_neutral order_refl)
    ultimately show thesis using quoted [of "quoted_part s" "[]" "[]" "[]"] s m Nil by (simp add: inner_def at_stop_def)
  next
    case (Cons a m')
    then have a: "a = 34" using m(2) by (simp add: ends_quote_def)
    obtain junk r where j: "m' = junk @ r" "inner sep junk" "at_stop sep r" using split_inner by blast
    have "drop i t = (34 # quoted_part s @ 34 # junk) @ r" using s m(1) Cons a j(1) by simp
    then have "drop (i + length (34 # quoted_part s @ 34 # junk)) t = r" using drop_prefix by blast
    moreover have "cell_at t sep i = ((Suc i, Suc i + length (quoted_part s), True), Suc i + length (quoted_part s) + 1 + length junk)"
      by (rule cell_at_quoted [where m = m and r = r]) (use s m Cons a j in simp_all)
    ultimately show thesis using quoted [of "quoted_part s" m junk r] s m Cons a j by (simp add: add.assoc)
  qed
qed

lemma cell_bounds:
  assumes "i \<le> length t" "cell_at t sep i = (c, j)"
  shows "i \<le> fst c \<and> fst c \<le> fst (snd c) \<and> fst (snd c) \<le> length t \<and> fst (snd c) \<le> j"
  using assms(1)
proof (cases rule: cell_at_cases [where sep = sep])
  case (plain w r)
  have "length (drop i t) = length w + length r" using plain(1) by simp
  then show ?thesis using plain(5) assms by auto
next
  case (quoted q m junk r)
  have "length (drop i t) = Suc (length q + length m)" using quoted(1) by simp
  then show ?thesis using quoted(7) assms by auto
qed

text \<open>What follows a cell begins as the text at its end does.\<close>

definition follows :: "pystr \<Rightarrow> nat \<Rightarrow> pystr \<Rightarrow> bool" where
  "follows t j r \<longleftrightarrow> (if j < length t then r \<noteq> [] \<and> hd r = t ! j else r = [])"

lemma follows_stop: "follows t j r \<Longrightarrow> drop j t = r' \<Longrightarrow> at_stop sep r' \<Longrightarrow> at_stop sep r"
  by (auto simp: follows_def at_stop_def hd_drop_conv_nth split: if_splits)

definition new_ok :: "nat \<Rightarrow> pystr \<Rightarrow> cell \<Rightarrow> pystr option \<Rightarrow> bool" where
  "new_ok sep t c nw \<longleftrightarrow>
     (case nw of None \<Rightarrow> True
      | Some v \<Rightarrow> v \<noteq> [] \<and> fst c < fst (snd c) \<and> (snd (snd c) \<or> sep = 44 \<or> sep \<notin> set v))"

definition new_raw :: "pystr \<Rightarrow> cell \<Rightarrow> pystr option \<Rightarrow> pystr" where
  "new_raw t c nw =
     (case nw of None \<Rightarrow> slice t (fst c) (fst (snd c)) | Some v \<Rightarrow> raw_cell (snd (snd c)) (cell_value t c) v)"

definition new_value :: "pystr \<Rightarrow> cell \<Rightarrow> pystr option \<Rightarrow> pystr" where
  "new_value t c nw = (case nw of None \<Rightarrow> cell_value t c | Some v \<Rightarrow> v)"

lemma cell_step:
  assumes i: "i \<le> length t" and c: "cell_at t sep i = (c, j)"
    and d: "drop i2 t2 = slice t i (fst c) @ new_raw t c nw @ slice t (fst (snd c)) j @ rest"
    and f: "follows t j rest" and ok: "new_ok sep t c nw" and sep: "sep \<noteq> 34"
  shows "\<exists>c2 j2. cell_at t2 sep i2 = (c2, j2) \<and> cell_value t2 c2 = new_value t c nw \<and> drop j2 t2 = rest"
  using i
proof (cases rule: cell_at_cases [where sep = sep])
  case (plain w r)
  have e: "c = (i, i + length w, False)" "j = i + length w" using plain(5) c by simp_all
  have w: "slice t i j = w" using drop_prefix [OF plain(1)] e by simp
  have st: "at_stop sep rest" using follows_stop [OF f] plain(3,6) e by blast
  have n34: "rest = [] \<or> hd rest \<noteq> 34" using st sep by (auto simp: at_stop_def cell_stop_def)
  have d': "drop i2 t2 = new_raw t c nw @ rest" using d e by (simp add: slice_def)
  consider (same) x where "new_raw t c nw = x" "new_value t c nw = x" "inner sep x" "x @ rest = [] \<or> hd (x @ rest) \<noteq> 34"
    | (quote) v where "new_raw t c nw = quoted_cell v" "new_value t c nw = v"
  proof (cases nw)
    case None
    then have "new_raw t c nw = w" "new_value t c nw = w" using w e by (simp_all add: new_raw_def new_value_def cell_value_def)
    moreover have "w @ rest = [] \<or> hd (w @ rest) \<noteq> 34" using plain(4) n34 by (cases w) auto
    ultimately show thesis using same plain(2) by blast
  next
    case (Some v)
    have v: "v \<noteq> []" "sep = 44 \<or> sep \<notin> set v" using ok Some e by (simp_all add: new_ok_def)
    show thesis
    proof (cases "list_ex (\<lambda>c. c \<in> {34, 10, 13}) v \<or> 44 \<in> set v \<and> 44 \<notin> set w")
      case True
      then show thesis using quote [of v] Some e w by (simp add: new_raw_def new_value_def raw_cell_def cell_value_def)
    next
      case False
      have "44 \<notin> set w" if "sep = 44" using plain(2) that by (auto simp: inner_def cell_stop_def)
      then have "inner sep v" using False v(2) by (auto simp: inner_def cell_stop_def list_ex_iff)
      moreover have "hd (v @ rest) \<noteq> 34" using False v(1) by (cases v) auto
      moreover have "raw_cell False w v = v" using False unfolding raw_cell_def by (simp only: if_False simp_thms)
      ultimately show thesis using same [of v] Some e w by (simp add: new_raw_def new_value_def cell_value_def)
    qed
  qed
  then show ?thesis
  proof cases
    case (same x)
    then have x: "drop i2 t2 = x @ rest" using d' by simp
    then show ?thesis using cell_at_plain [OF x same(3) st same(4)] drop_prefix [OF x] same(2) by (simp add: cell_value_def)
  next
    case (quote v)
    then have x: "drop i2 t2 = 34 # double_quotes v @ 34 # rest" using d' by (simp add: quoted_cell_def)
    have q: "quoted_part (double_quotes v @ 34 # rest) = double_quotes v"
      by (rule quoted_part_double) (use n34 in \<open>simp add: ends_quote_def\<close>)
    have "cell_at t2 sep i2 = ((Suc i2, Suc i2 + length (double_quotes v), True), Suc i2 + length (double_quotes v) + 1 + length ([] :: pystr))"
      by (rule cell_at_quoted [OF x q, where r = rest]) (use st in \<open>simp_all add: inner_def\<close>)
    moreover have "drop (i2 + length (34 # double_quotes v @ [34])) t2 = rest" by (rule drop_prefix [THEN conjunct1]) (use x in simp)
    moreover have "slice t2 (Suc i2) (Suc i2 + length (double_quotes v)) = double_quotes v" using drop_hd [OF x] drop_prefix by blast
    ultimately show ?thesis using quote(2) undouble_double by (simp add: cell_value_def)
  qed
next
  case (quoted q m junk r)
  let ?b = "Suc i + length q"
  have e: "c = (Suc i, ?b, True)" "j = ?b + 1 + length junk" using quoted(7) c by simp_all
  have st: "at_stop sep rest" using follows_stop [OF f] quoted(6,8) e by blast
  have n34: "rest = [] \<or> hd rest \<noteq> 34" using st sep by (auto simp: at_stop_def cell_stop_def)
  have s: "drop (Suc i) t = q @ m" "slice t i (Suc i) = [34]" "slice t (Suc i) ?b = q" "drop ?b t = m"
    using drop_hd [OF quoted(1)] drop_prefix [of "Suc i" t q m] drop_prefix [of i t "[34]" "q @ m"] quoted(1) by simp_all
  define m' where "m' = slice t ?b j"
  have m': "m' = [] \<and> junk = [] \<and> rest = [] \<or> m' = 34 # junk" (is "?end \<or> ?go")
  proof (cases "m = []")
    case True
    then have "length t \<le> j" "m' = []" using s(4) e by (simp_all add: m'_def slice_def)
    then show ?thesis using True quoted(3) f by (simp add: follows_def)
  next
    case False
    then have "m = (34 # junk) @ r" using quoted(3) by simp
    then show ?thesis using drop_prefix [of ?b t "34 # junk" r] s(4) e by (simp add: m'_def)
  qed
  have en: "ends_quote (m' @ rest)"
    using m' quoted(3,4) n34 by (cases junk) (auto simp: ends_quote_def)
  define x where "x = new_raw t c nw"
  have x: "quoted_part (x @ m' @ rest) = x" "undouble x = new_value t c nw"
  proof -
    have "x = q \<and> new_value t c nw = undouble q \<or> (\<exists>v. x = double_quotes v \<and> new_value t c nw = v)"
      using e s(3) by (cases nw) (simp_all add: x_def new_raw_def new_value_def raw_cell_def cell_value_def)
    then show "quoted_part (x @ m' @ rest) = x" "undouble x = new_value t c nw"
      using quoted_part_double [OF en] quoted_part_again [OF en, of "q @ m"] undouble_double quoted(2) by auto
  qed
  have d': "drop i2 t2 = 34 # x @ m' @ rest" using d e s(2) by (simp add: x_def m'_def)
  have "cell_at t2 sep i2 = ((Suc i2, Suc i2 + length x, True), Suc i2 + length x + 1 + length junk)"
    by (rule cell_at_quoted [OF d' x(1), where r = rest]) (use m' quoted(5) st in auto)
  moreover have "slice t2 (Suc i2) (Suc i2 + length x) = x" using drop_hd [OF d'] drop_prefix by blast
  moreover have "drop (Suc i2 + length x + 1 + length junk) t2 = rest"
  proof -
    have "drop (i2 + length (34 # x @ m')) t2 = rest" by (rule drop_prefix [THEN conjunct1]) (use d' in simp)
    moreover have "length t2 \<le> Suc i2 + length x" if "m' = []" "rest = []"
    proof -
      have "length (drop i2 t2) = Suc (length x)" using d' that by simp
      then show ?thesis by simp
    qed
    ultimately show ?thesis using m' by (auto simp: add.assoc)
  qed
  ultimately show ?thesis using x(2) by (simp add: cell_value_def)
qed

section \<open>All cells\<close>

definition newline_end :: "pystr \<Rightarrow> nat \<Rightarrow> nat" where
  "newline_end t j = Suc (if t ! j = 13 \<and> Suc j < length t \<and> t ! Suc j = 10 then Suc j else j)"

lemma csv_unfold:
  "cell_at t sep i = (c, j) \<Longrightarrow> csv_loop t sep i row =
     (if length t \<le> j then [row @ [c]] else if t ! j = sep then csv_loop t sep (Suc j) (row @ [c])
      else if newline_end t j = length t then [row @ [c]] else (row @ [c]) # csv_loop t sep (newline_end t j) [])"
  by (subst csv_loop.simps) (simp add: Let_def newline_end_def)

lemma csv_later: "cell_at t sep i = (c, j) \<Longrightarrow> j < length t \<Longrightarrow> length t - Suc j < length t - i"
  using cell_at_le [of i t sep] by simp

lemma csv_loop_row: "csv_loop t sep i row = (row @ hd (csv_loop t sep i [])) # tl (csv_loop t sep i [])"
proof (induction "length t - i" arbitrary: i row rule: less_induct)
  case less
  obtain c j where c: "cell_at t sep i = (c, j)" by (cases "cell_at t sep i")
  show ?case
  proof (cases "j < length t \<and> t ! j = sep")
    case True
    then have "csv_loop t sep (Suc j) r = (r @ hd (csv_loop t sep (Suc j) [])) # tl (csv_loop t sep (Suc j) [])" for r
      using less csv_later [OF c] by blast
    from this [of "row @ [c]"] this [of "[c]"] show ?thesis using True csv_unfold [OF c] by simp
  qed (use csv_unfold [OF c] in simp)
qed

definition cells_after :: "pystr \<Rightarrow> nat \<Rightarrow> nat \<Rightarrow> cell list" where
  "cells_after t sep j =
     (if length t \<le> j then [] else if t ! j = sep then concat (csv_loop t sep (Suc j) [])
      else if newline_end t j = length t then [] else concat (csv_loop t sep (newline_end t j) []))"

lemma concat_row: "concat (csv_loop t sep i row) = row @ concat (csv_loop t sep i [])"
  by (subst csv_loop_row) (metis append.assoc append_Nil concat.simps(2) csv_loop_row)

lemma cells_unfold: "cell_at t sep i = (c, j) \<Longrightarrow> concat (csv_loop t sep i []) = c # cells_after t sep j"
  using csv_unfold [of t sep i c j "[]"] concat_row [of t sep "Suc j" "[c]"] by (simp add: cells_after_def)

definition cells_ok :: "pystr \<Rightarrow> nat \<Rightarrow> cell list \<Rightarrow> bool" where
  "cells_ok t i cs \<longleftrightarrow> sorted_wrt (\<lambda>c c'. fst (snd c) < fst c') cs \<and>
     (\<forall>c\<in>set cs. i \<le> fst c \<and> fst c \<le> fst (snd c) \<and> fst (snd c) \<le> length t)"

lemma newline_end_le: "j < length t \<Longrightarrow> Suc j \<le> newline_end t j \<and> newline_end t j \<le> length t"
  by (simp add: newline_end_def)

lemma cells_from: "i \<le> length t \<Longrightarrow> cells_ok t i (concat (csv_loop t sep i []))"
proof (induction "length t - i" arbitrary: i rule: less_induct)
  case less
  obtain c j where c: "cell_at t sep i = (c, j)" by (cases "cell_at t sep i")
  have b: "i \<le> fst c" "fst c \<le> fst (snd c)" "fst (snd c) \<le> length t" "fst (snd c) \<le> j" using cell_bounds [OF less.prems c] by simp_all
  have "cells_ok t (Suc j) (cells_after t sep j)"
  proof (cases "j < length t")
    case True
    then have n: "cells_ok t k (concat (csv_loop t sep k []))" if "Suc j \<le> k" "k \<le> length t" for k
      using less.hyps [of k] that csv_later [OF c True] by simp
    have "cells_ok t (newline_end t j) (concat (csv_loop t sep (newline_end t j) []))"
      using n newline_end_le [OF True] by blast
    then show ?thesis using n [of "Suc j"] newline_end_le [OF True] True by (fastforce simp: cells_after_def cells_ok_def)
  qed (simp add: cells_after_def cells_ok_def)
  then show ?case using b by (fastforce simp: cells_unfold [OF c] cells_ok_def)
qed

lemma cells_after_ok: "cell_at t sep i = (c, j) \<Longrightarrow> i \<le> length t \<Longrightarrow> cells_ok t (Suc j) (cells_after t sep j)"
proof (cases "j < length t")
  case True
  have "cells_ok t (newline_end t j) (concat (csv_loop t sep (newline_end t j) []))"
    using cells_from newline_end_le [OF True] by blast
  then show ?thesis using cells_from [of "Suc j" t sep] newline_end_le [OF True] True by (fastforce simp: cells_after_def cells_ok_def)
qed (simp add: cells_after_def cells_ok_def)

section \<open>The edited table\<close>

fun raws :: "pystr \<Rightarrow> (cell \<Rightarrow> pystr option) \<Rightarrow> cell list \<Rightarrow> replacement list" where
  "raws t new [] = []"
| "raws t new (c # cs) = (if new c = None then raws t new cs else cell_replacement c (new_raw t c (new c)) # raws t new cs)"

lemma raws_start: "x \<in> set (raws t new cs) \<Longrightarrow> \<exists>c\<in>set cs. rp_start x = fst c \<and> rp_end x = fst (snd c)"
  by (induction cs) (auto simp: cell_replacement_def split: if_splits)

lemma raws_after: "cells_ok t i cs \<Longrightarrow> \<forall>x\<in>set (raws t new cs). i \<le> rp_start x"
  by (fastforce simp: cells_ok_def dest: raws_start)

lemma slice_split: "a \<le> b \<Longrightarrow> b \<le> e \<Longrightarrow> slice t a e = slice t a b @ slice t b e"
proof -
  assume o: "a \<le> b" "b \<le> e"
  then have "e - a = (b - a) + (e - b)" "b = (b - a) + a" by simp_all
  then show ?thesis unfolding slice_def by (metis drop_drop take_add)
qed

lemma put_skip: "\<forall>x\<in>set rs. q \<le> rp_start x \<Longrightarrow> p \<le> q \<Longrightarrow> put t p rs = slice t p q @ put t q rs"
proof (cases rs)
  case Nil
  moreover assume "p \<le> q"
  ultimately show ?thesis by (simp add: slice_def) (metis append_take_drop_id drop_drop le_add_diff_inverse2)
next
  case (Cons r rs')
  moreover assume "\<forall>x\<in>set rs. q \<le> rp_start x" "p \<le> q"
  ultimately have "q \<le> rp_start r" by simp
  then have "slice t p (rp_start r) = slice t p q @ slice t q (rp_start r)" by (rule slice_split [OF \<open>p \<le> q\<close>])
  then show ?thesis using Cons by simp
qed

lemma put_cell:
  assumes "p \<le> fst c" "fst c \<le> fst (snd c)" "fst (snd c) \<le> j" "cells_ok t (Suc j) cs"
  shows "put t p (raws t new (c # cs)) = slice t p (fst c) @ new_raw t c (new c) @ slice t (fst (snd c)) j @ put t j (raws t new cs)"
proof -
  have a: "\<forall>x\<in>set (raws t new cs). q \<le> rp_start x" if "q \<le> j" for q using raws_after [OF assms(4), of new] that by fastforce
  show ?thesis
  proof (cases "new c")
    case None
    then show ?thesis using put_skip [OF a, of j p t] put_skip [OF a, of j "fst c" t] put_skip [OF a, of j "fst (snd c)" t]
      put_skip [OF a, of "fst c" p t] put_skip [OF a, of "fst (snd c)" "fst c" t] assms by (simp add: new_raw_def)
  next
    case (Some v)
    then show ?thesis using put_skip [OF a, of j "fst (snd c)" t] assms by (simp add: cell_replacement_def)
  qed
qed

lemma follows_put: "j < length t \<Longrightarrow> cells_ok t (Suc j) cs \<Longrightarrow> put t j (raws t new cs) = t ! j # put t (Suc j) (raws t new cs)"
  using put_skip [OF raws_after [of t "Suc j" cs new], of j t] by (simp add: slice_def take_Suc_conv_app_nth Cons_nth_drop_Suc [symmetric])

lemma table_head:
  assumes "k < length t" "list_all (\<lambda>c. new_ok sep t c (new c)) (concat (csv_loop t sep k []))"
  shows "put t k (raws t new (concat (csv_loop t sep k []))) \<noteq> [] \<and>
    (t ! k \<noteq> 10 \<longrightarrow> hd (put t k (raws t new (concat (csv_loop t sep k [])))) \<noteq> 10)"
proof -
  obtain c j where c: "cell_at t sep k = (c, j)" by (cases "cell_at t sep k")
  let ?cs = "cells_after t sep j"
  have u: "concat (csv_loop t sep k []) = c # ?cs" by (rule cells_unfold [OF c])
  have ok: "cells_ok t (Suc j) ?cs" "k \<le> j" using cells_after_ok [OF c] assms(1) cell_at_le [of k t sep] c by simp_all
  show ?thesis
  proof (cases "new c = None \<or> fst c = Suc k")
    case True
    have "\<forall>x\<in>set (raws t new (c # ?cs)). Suc k \<le> rp_start x"
      using raws_after [OF ok(1), of new] ok(2) True by (auto simp: cell_replacement_def)
    then have "put t k (raws t new (c # ?cs)) = slice t k (Suc k) @ put t (Suc k) (raws t new (c # ?cs))" by (rule put_skip) simp
    then show ?thesis using u assms(1) by (simp add: slice_def take_Suc_conv_app_nth Cons_nth_drop_Suc [symmetric])
  next
    case False
    then obtain v where v: "new c = Some v" by auto
    have a: "fst c = k" "\<not> snd (snd c)" using c False by (auto simp: cell_at_def Let_def split: if_splits)
    have "v \<noteq> []" using assms(2) u v by (simp add: new_ok_def)
    then have "new_raw t c (Some v) \<noteq> [] \<and> hd (new_raw t c (Some v)) \<noteq> 10"
      using a(2) by (cases v) (auto simp: new_raw_def raw_cell_def quoted_cell_def)
    then show ?thesis using u v a(1) by (simp add: cell_replacement_def slice_def)
  qed
qed

lemma newline_again:
  assumes j: "j < length t" "t ! j \<noteq> sep" and j2: "j2 < length t2" "t2 ! j2 = t ! j"
    and d: "drop (Suc j2) t2 = put t (Suc j) (raws t new (cells_after t sep j))"
    and ok: "list_all (\<lambda>c. new_ok sep t c (new c)) (cells_after t sep j)"
  shows "(newline_end t2 j2 = length t2 \<longleftrightarrow> newline_end t j = length t) \<and>
    drop (newline_end t2 j2) t2 = put t (newline_end t j) (raws t new (cells_after t sep j))"
proof -
  let ?k = "newline_end t j" and ?cs = "cells_after t sep j"
  have cs: "?cs = (if ?k = length t then [] else concat (csv_loop t sep ?k []))" using j by (simp add: cells_after_def)
  have ok2: "cells_ok t ?k ?cs" using cs cells_from [of ?k t sep] newline_end_le [OF j(1)] by (auto simp: cells_ok_def)
  have head: "put t ?k (raws t new ?cs) \<noteq> [] \<and> (t ! ?k \<noteq> 10 \<longrightarrow> hd (put t ?k (raws t new ?cs)) \<noteq> 10)" if "?k \<noteq> length t"
    using table_head [of ?k t sep new] cs ok newline_end_le [OF j(1)] that by simp
  consider (two) "t ! j = 13" "Suc j < length t" "t ! Suc j = 10" "?k = Suc (Suc j)"
    | (one) "?k = Suc j" "t ! j = 13 \<longrightarrow> Suc j < length t \<longrightarrow> t ! Suc j \<noteq> 10"
    by (cases "t ! j = 13 \<and> Suc j < length t \<and> t ! Suc j = 10") (auto simp: newline_end_def)
  then show ?thesis
  proof cases
    case two
    have "put t (Suc j) (raws t new ?cs) = 10 # put t ?k (raws t new ?cs)"
      using follows_put [of "Suc j" t ?cs new] ok2 two by simp
    then have n: "Suc j2 < length t2" "t2 ! Suc j2 = 10" "drop (Suc (Suc j2)) t2 = put t ?k (raws t new ?cs)"
      using d drop_hd [of "Suc j2" t2] by simp_all
    then have k2: "newline_end t2 j2 = Suc (Suc j2)" using j2 two by (simp add: newline_end_def)
    show ?thesis
    proof (cases "?k = length t")
      case True
      then have "drop (Suc (Suc j2)) t2 = []" using n(3) cs by simp
      then show ?thesis using True k2 n by simp
    next
      case False
      then show ?thesis using head k2 n by auto
    qed
  next
    case one
    have k2: "newline_end t2 j2 = Suc j2"
    proof (cases "?k = length t")
      case True
      then have "drop (Suc j2) t2 = []" using d one(1) cs by simp
      then show ?thesis using j2 by (simp add: newline_end_def)
    next
      case False
      then have "Suc j < length t" using newline_end_le [OF j(1)] one(1) by simp
      then have "t ! j = 13 \<longrightarrow> hd (drop (Suc j2) t2) \<noteq> 10" using head [OF False] one d by simp
      then show ?thesis using j2 by (auto simp: newline_end_def hd_drop_conv_nth)
    qed
    show ?thesis
    proof (cases "?k = length t")
      case True
      then have "drop (Suc j2) t2 = []" using d one(1) cs by simp
      then show ?thesis using True k2 d one(1) j2 by simp
    next
      case False
      then show ?thesis using head [OF False] k2 d one(1) by auto
    qed
  qed
qed

lemma reread:
  assumes "sep \<noteq> 34" "i \<le> length t" "list_all (\<lambda>c. new_ok sep t c (new c)) (concat (csv_loop t sep i []))"
    "drop i2 t2 = put t i (raws t new (concat (csv_loop t sep i [])))"
    "map (cell_value t2) row2 = map (\<lambda>c. new_value t c (new c)) row"
  shows "map (map (cell_value t2)) (csv_loop t2 sep i2 row2) = map (map (\<lambda>c. new_value t c (new c))) (csv_loop t sep i row)"
  using assms(2-)
proof (induction "length t - i" arbitrary: i i2 row row2 rule: less_induct)
  case less
  obtain c j where c: "cell_at t sep i = (c, j)" by (cases "cell_at t sep i")
  let ?cs = "cells_after t sep j" and ?nv = "\<lambda>c. new_value t c (new c)"
  let ?rest = "put t j (raws t new ?cs)"
  have u: "concat (csv_loop t sep i []) = c # ?cs" by (rule cells_unfold [OF c])
  have b: "i \<le> fst c" "fst c \<le> fst (snd c)" "fst (snd c) \<le> j" using cell_bounds [OF less.prems(1) c] by simp_all
  have okc: "cells_ok t (Suc j) ?cs" by (rule cells_after_ok [OF c less.prems(1)])
  have ok: "new_ok sep t c (new c)" "list_all (\<lambda>c. new_ok sep t c (new c)) ?cs" using less.prems(2) u by simp_all
  have f: "follows t j ?rest"
    using follows_put [OF _ okc, of new] by (simp add: follows_def cells_after_def)
  have d: "drop i2 t2 = slice t i (fst c) @ new_raw t c (new c) @ slice t (fst (snd c)) j @ ?rest"
    using less.prems(3) u put_cell [OF b okc, of new] by simp
  obtain c2 j2 where c2: "cell_at t2 sep i2 = (c2, j2)" "cell_value t2 c2 = ?nv c" "drop j2 t2 = ?rest"
    using cell_step [OF less.prems(1) c d f ok(1) assms(1)] by blast
  have row: "map (cell_value t2) (row2 @ [c2]) = map ?nv (row @ [c])" using less.prems(4) c2(2) by simp
  show ?case
  proof (cases "j < length t")
    case False
    then have "?rest = []" using f by (simp add: follows_def)
    then have "length t2 \<le> j2" using c2(3) by simp
    then show ?thesis using False row csv_unfold [OF c] csv_unfold [OF c2(1)] by simp
  next
    case True
    have r: "?rest = t ! j # put t (Suc j) (raws t new ?cs)" by (rule follows_put [OF True okc])
    then have j2: "j2 < length t2" "t2 ! j2 = t ! j" "drop (Suc j2) t2 = put t (Suc j) (raws t new ?cs)"
      using drop_hd [of j2 t2] c2(3) by simp_all
    show ?thesis
    proof (cases "t ! j = sep")
      case True
      then have "?cs = concat (csv_loop t sep (Suc j) [])" using \<open>j < length t\<close> by (simp add: cells_after_def)
      then have "map (map (cell_value t2)) (csv_loop t2 sep (Suc j2) (row2 @ [c2])) = map (map ?nv) (csv_loop t sep (Suc j) (row @ [c]))"
        using less.hyps [of "Suc j" "Suc j2"] csv_later [OF c \<open>j < length t\<close>] \<open>j < length t\<close> ok(2) j2(3) row by simp
      then show ?thesis using True \<open>j < length t\<close> j2 csv_unfold [OF c] csv_unfold [OF c2(1)] by simp
    next
      case False
      let ?k = "newline_end t j" and ?k2 = "newline_end t2 j2"
      have n: "?k2 = length t2 \<longleftrightarrow> ?k = length t" "drop ?k2 t2 = put t ?k (raws t new ?cs)"
        using newline_again [OF \<open>j < length t\<close> False j2 ok(2)] by blast+
      have "map (map (cell_value t2)) (csv_loop t2 sep ?k2 []) = map (map ?nv) (csv_loop t sep ?k [])" if "?k \<noteq> length t"
      proof -
        have "?cs = concat (csv_loop t sep ?k [])" using \<open>j < length t\<close> False that by (simp add: cells_after_def)
        moreover have "length t - ?k < length t - i" "?k \<le> length t"
          using newline_end_le [OF \<open>j < length t\<close>] csv_later [OF c \<open>j < length t\<close>] by linarith+
        ultimately show ?thesis using less.hyps [of ?k ?k2 "[]" "[]"] ok(2) n(2) by simp
      qed
      then show ?thesis using False \<open>j < length t\<close> j2 n(1) row csv_unfold [OF c] csv_unfold [OF c2(1)] by simp
    qed
  qed
qed

section \<open>The rewritten file\<close>

lemma fbind_simps [simp]: "fbind (fret x) g s = g x s" "fbind (flift (Inr x)) g s = g x s" "fbind (flift (Inl e)) g s = (Inl e, s)"
  by (simp_all add: fbind_def fret_def flift_def)

lemma fbind_Inr: "fbind m g s = (Inr y, s') \<longleftrightarrow> (\<exists>x s1. m s = (Inr x, s1) \<and> g x s1 = (Inr y, s'))"
  by (auto simp: fbind_def split: prod.splits sum.splits)

lemma visit_length: "visit f us s = (Inr repss, s') \<Longrightarrow> length repss = length us"
  by (induction us arbitrary: s repss) (auto simp: fbind_Inr fret_def)

definition cell_unit :: "pystr \<Rightarrow> cell \<times> pystr option \<Rightarrow> text_unit" where
  "cell_unit t = (\<lambda>(c, force). \<lparr>un_text = cell_value t c, un_force = force\<rparr>)"

definition edit_of :: "pystr \<Rightarrow> cell \<Rightarrow> replacement list \<Rightarrow> pystr option" where
  "edit_of t c reps = (if reps = [] then None else Some (apply_replacements (cell_value t c) reps))"

definition edits :: "pystr \<Rightarrow> (cell \<times> replacement list) list \<Rightarrow> cell \<Rightarrow> pystr option" where
  "edits t m c = Option.bind (map_of m c) (edit_of t c)"

lemma raws_cong: "(\<And>c. c \<in> set cs \<Longrightarrow> new c = new' c) \<Longrightarrow> raws t new cs = raws t new' cs"
  by (induction cs) auto

lemma edits_same:
  "distinct cs \<Longrightarrow> length repss = length cs \<Longrightarrow> map (edits t (zip cs repss)) cs = map2 (edit_of t) cs repss"
proof (induction cs arbitrary: repss)
  case (Cons c cs)
  obtain reps rest where r: "repss = reps # rest" using Cons.prems(2) by (cases repss) auto
  have "map (edits t (zip (c # cs) repss)) cs = map (edits t (zip cs rest)) cs"
    by (rule map_cong [OF refl]) (use Cons.prems(1) r in \<open>auto simp: edits_def\<close>)
  moreover have "edits t (zip (c # cs) repss) c = edit_of t c reps" using r by (simp add: edits_def)
  ultimately show ?case using Cons.IH [of rest] Cons.prems r by (simp del: map_eq_conv)
qed simp

lemma csv_reps_raws:
  assumes "visit f (map (cell_unit t) cs) s = (Inr repss, s')" "distinct (map fst cs)"
  shows "csv_reps f t cs s = (Inr (raws t (edits t (zip (map fst cs) repss)) (map fst cs)), s')"
  using assms
proof (induction cs arbitrary: s repss)
  case (Cons x cs)
  obtain c force where x: "x = (c, force)" by (cases x)
  obtain reps rest s1 where f: "f (cell_value t c) force s = (Inr reps, s1)" "visit f (map (cell_unit t) cs) s1 = (Inr rest, s')" "repss = reps # rest"
    using Cons.prems(1) x by (auto simp: fbind_Inr fret_def cell_unit_def)
  have ih: "csv_reps f t cs s1 = (Inr (raws t (edits t (zip (map fst cs) rest)) (map fst cs)), s')"
    using Cons.IH f(2) Cons.prems(2) by simp
  have "raws t (edits t (zip (map fst (x # cs)) repss)) (map fst cs) = raws t (edits t (zip (map fst cs) rest)) (map fst cs)"
    by (rule raws_cong) (use Cons.prems(2) x f(3) in \<open>auto simp: edits_def\<close>)
  moreover have "edits t (zip (map fst (x # cs)) repss) c = edit_of t c reps" using x f(3) by (simp add: edits_def)
  ultimately show ?case using x f(1) ih
    by (simp add: fbind_def fret_def Let_def edit_of_def new_raw_def)
qed (simp add: fret_def)

lemma cells_distinct: "cells_ok t i cs \<Longrightarrow> distinct cs"
proof (induction cs)
  case (Cons c cs)
  then have "cells_ok t i cs" "\<forall>x\<in>set cs. fst (snd c) < fst x" "fst c \<le> fst (snd c)" by (auto simp: cells_ok_def)
  then show ?case using Cons.IH by fastforce
qed simp

lemma raws_in_order:
  assumes "cells_ok t i cs" "list_all (\<lambda>c. new_ok sep t c (new c)) cs"
  shows "in_order t (raws t new cs)"
  using assms
proof (induction cs)
  case (Cons c cs)
  have ih: "in_order t (raws t new cs)" using Cons by (auto simp: cells_ok_def)
  have "\<forall>x\<in>set (raws t new cs). fst (snd c) \<le> rp_start x"
    using Cons.prems(1) raws_start by (fastforce simp: cells_ok_def)
  then show ?case using ih Cons.prems by (auto simp: in_order_Cons cell_replacement_def new_ok_def cells_ok_def split: option.splits)
qed (simp add: in_order_def)

lemma walk_row: "map fst (map (\<lambda>(ci, c). (c, forced_of header ri ci)) (enumerate k row)) = row"
  by (induction row arbitrary: k) auto

lemma walk_cells: "map fst (csv_walk header rows) = concat rows"
proof -
  have "map fst (concat (map (\<lambda>(ri, row). map (\<lambda>(ci, c). (c, forced_of header ri ci)) (enumerate 0 row)) (enumerate k rows))) = concat rows" for k
  proof (induction rows arbitrary: k)
    case (Cons row rows)
    then show ?case using walk_row [of header k 0 row] by (simp del: map_map)
  qed simp
  then show ?thesis by (simp add: csv_walk_def)
qed

lemma edited_value: "new_value t c (edit_of t c reps) = apply_replacements (cell_value t c) reps"
  by (simp add: new_value_def edit_of_def apply_replacements_def)

text \<open>Which answers a table can hold: nothing is put into an empty cell, no cell is emptied, and where the delimiter is
  not the comma a cell without quotation marks gets no delimiter (it would not be quoted for it).\<close>

definition cell_fits :: "csv_prep \<Rightarrow> cell \<Rightarrow> replacement list \<Rightarrow> bool" where
  "cell_fits p c reps \<longleftrightarrow>
     reps = [] \<or>
     cell_value (cp_text p) c \<noteq> [] \<and> apply_replacements (cell_value (cp_text p) c) reps \<noteq> [] \<and>
     (snd (snd c) \<or> cp_sep p = 44 \<or> cp_sep p \<notin> set (apply_replacements (cell_value (cp_text p) c) reps))"

lemma empty_cell: "fst (snd c) \<le> fst c \<Longrightarrow> cell_value t c = []"
  by (cases c) (simp add: cell_value_def slice_def)

lemma fits_ok: "cell_fits p c reps \<Longrightarrow> fst c \<le> fst (snd c) \<Longrightarrow> new_ok (cp_sep p) (cp_text p) c (edit_of (cp_text p) c reps)"
  using empty_cell [of c "cp_text p"] 
  by (cases "fst c < fst (snd c)") (auto simp: cell_fits_def edit_of_def new_ok_def)

text \<open>The text of the rewritten table.\<close>

definition csv_text :: "csv_prep \<Rightarrow> replacement list list \<Rightarrow> pystr" where
  "csv_text p repss =
     (let cs = concat (cp_rows p) in apply_replacements (cp_text p) (raws (cp_text p) (edits (cp_text p) (zip cs repss)) cs))"

lemma csv_rewritten:
  assumes p: "prep_csv u sniff data name = Inr p" and sep: "cp_sep p \<noteq> 34"
    and us: "csv_units u sniff data name = Inr us" and v: "visit f us s = (Inr repss, s')"
    and fits: "list_all2 (cell_fits p) (concat (cp_rows p)) repss"
  shows "csv_rewrite u sniff data f name s = (encode_text (csv_text p repss) (cp_enc p) (cp_bom p), s')"
    "map length (csv_cells (csv_text p repss) (cp_sep p)) = map length (cp_rows p)"
    "map (cell_value (csv_text p repss)) (concat (csv_cells (csv_text p repss) (cp_sep p))) =
      map2 (\<lambda>x reps. apply_replacements (un_text x) reps) us repss"
proof -
  let ?t = "cp_text p" and ?sep = "cp_sep p" and ?walk = "csv_walk (cp_header p) (cp_rows p)" and ?cs = "concat (cp_rows p)"
  have rows: "cp_rows p = csv_loop ?t ?sep 0 []"
    using p by (cases "decode_text data") (auto simp: prep_csv_def Let_def csv_cells_def)
  have ok: "cells_ok ?t 0 ?cs" using cells_from [of 0 ?t ?sep] rows by simp
  have us': "us = map (cell_unit ?t) ?walk" using us p by (simp add: csv_units_def cell_unit_def)
  have w: "map fst ?walk = ?cs" by (rule walk_cells)
  have len: "length repss = length ?cs" using fits by (simp add: list_all2_lengthD)
  define new where "new = edits ?t (zip ?cs repss)"
  have new: "map new ?cs = map2 (edit_of ?t) ?cs repss"
    unfolding new_def by (rule edits_same) (use cells_distinct [OF ok] len in simp_all)
  have each: "new (?cs ! n) = edit_of ?t (?cs ! n) (repss ! n)" if "n < length ?cs" for n
    using arg_cong [OF new, of "\<lambda>xs. xs ! n"] that len by simp
  have nok: "list_all (\<lambda>c. new_ok ?sep ?t c (new c)) ?cs"
    unfolding list_all_length
  proof (intro allI impI)
    fix n assume n: "n < length ?cs"
    then have "cell_fits p (?cs ! n) (repss ! n)" using fits by (simp add: list_all2_nthD)
    moreover have "fst (?cs ! n) \<le> fst (snd (?cs ! n))" using ok nth_mem [OF n] unfolding cells_ok_def by blast
    ultimately show "new_ok ?sep ?t (?cs ! n) (new (?cs ! n))" using each [OF n] fits_ok by simp
  qed
  let ?t2 = "csv_text p repss"
  have t2: "?t2 = put ?t 0 (raws ?t new ?cs)" using apply_put [OF raws_in_order [OF ok nok]] by (simp add: csv_text_def Let_def new_def)
  have "csv_reps f ?t ?walk s = (Inr (raws ?t new ?cs), s')"
    using csv_reps_raws [of f ?t ?walk s repss s'] v us' w cells_distinct [OF ok] by (simp add: new_def)
  then show "csv_rewrite u sniff data f name s = (encode_text ?t2 (cp_enc p) (cp_bom p), s')"
    using p by (simp add: csv_rewrite_def fbind_def flift_def csv_text_def Let_def new_def)
  have again: "map (map (cell_value ?t2)) (csv_cells ?t2 ?sep) = map (map (\<lambda>c. new_value ?t c (new c))) (cp_rows p)"
    using reread [OF sep, of 0 ?t new 0 ?t2 "[]" "[]"] nok rows t2 by (simp add: csv_cells_def)
  show "map length (csv_cells ?t2 ?sep) = map length (cp_rows p)"
    using arg_cong [OF again, of "map length"] by (simp add: comp_def)
  have vals: "map (cell_value ?t2) (concat (csv_cells ?t2 ?sep)) = map (\<lambda>c. new_value ?t c (new c)) ?cs"
    using arg_cong [OF again, of concat] by (simp add: map_concat)
  have new_vals: "map (\<lambda>c. new_value ?t c (new c)) ?cs = map2 (\<lambda>x reps. apply_replacements (un_text x) reps) us repss"
  proof (rule nth_equalityI)
    have un: "map un_text us = map (cell_value ?t) ?cs" using us' arg_cong [OF w, of "map (cell_value ?t)"]
      by (simp add: cell_unit_def comp_def case_prod_beta)
    then have lu: "length us = length ?cs" by (metis length_map)
    then show "length (map (\<lambda>c. new_value ?t c (new c)) ?cs) = length (map2 (\<lambda>x reps. apply_replacements (un_text x) reps) us repss)"
      using len by simp
    fix n assume "n < length (map (\<lambda>c. new_value ?t c (new c)) ?cs)"
    then have n: "n < length ?cs" by (simp only: length_map)
    have "map un_text us ! n = map (cell_value ?t) ?cs ! n" by (simp only: un)
    then have u: "un_text (us ! n) = cell_value ?t (?cs ! n)" using n lu by (simp only: nth_map)
    have "map (\<lambda>c. new_value ?t c (new c)) ?cs ! n = new_value ?t (?cs ! n) (new (?cs ! n))" by (rule nth_map [OF n])
    also have "\<dots> = apply_replacements (un_text (us ! n)) (repss ! n)" by (simp only: each [OF n] edited_value u)
    also have "\<dots> = map2 (\<lambda>x reps. apply_replacements (un_text x) reps) us repss ! n" using n lu len by simp
    finally show "map (\<lambda>c. new_value ?t c (new c)) ?cs ! n = map2 (\<lambda>x reps. apply_replacements (un_text x) reps) us repss ! n" .
  qed
  show "map (cell_value ?t2) (concat (csv_cells ?t2 ?sep)) = map2 (\<lambda>x reps. apply_replacements (un_text x) reps) us repss"
    by (simp only: vals new_vals)
qed

text \<open>C37. A rewritten table, read again with the same delimiter, has the rows and columns of the original, and the value
  of each cell is what the answer of the callback for that cell makes of it, quoted or not, when the answers fit.\<close>

theorem csv_rewrite_cells:
  assumes p: "prep_csv u sniff data name = Inr p" and sep: "cp_sep p \<noteq> 34"
    and us: "csv_units u sniff data name = Inr us" and v: "visit f us s = (Inr repss, s')"
    and fits: "list_all2 (cell_fits p) (concat (cp_rows p)) repss"
  shows "\<exists>t2. csv_rewrite u sniff data f name s = (encode_text t2 (cp_enc p) (cp_bom p), s') \<and>
    map length (csv_cells t2 (cp_sep p)) = map length (cp_rows p) \<and>
    map (cell_value t2) (concat (csv_cells t2 (cp_sep p))) = map2 (\<lambda>x reps. apply_replacements (un_text x) reps) us repss"
  using csv_rewritten [OF p sep us v fits] by blast

definition demo_fn :: "unit unit_fn" where
  "demo_fn x force s =
     (Inr (if x = str ''b'' then [\<lparr>rp_start = 0, rp_end = 1, rp_new = str ''X,Y'', rp_category = [], rp_n = 0, rp_original = []\<rparr>] else []), s)"

definition demo_table :: bytes where "demo_table = [97, 44, 98]"

lemma demo_cells: "csv_cells (str ''a,b'') 44 = [[(0, 1, False), (2, 3, False)]]"
  by code_simp

lemma demo_decoded: "decode_text demo_table = Inr (str ''a,b'', Utf8, [])"
  by code_simp

lemma csv_rewrite_cells_witness:
  "\<exists>t2. csv_rewrite cyr_ucd (\<lambda>_. None) demo_table demo_fn (str ''t.csv'') () = (encode_text t2 Utf8 [], ()) \<and>
     map length (csv_cells t2 44) = [2] \<and> map (cell_value t2) (concat (csv_cells t2 44)) = [str ''a'', str ''X,Y'']"
proof -
  let ?t = "str ''a,b''" and ?reps = "[\<lparr>rp_start = 0, rp_end = 1, rp_new = str ''X,Y'', rp_category = [], rp_n = 0, rp_original = []\<rparr>]"
  define h where "h = header_cats cyr_ucd ?t [[(0, 1, False), (2, 3, False)]]"
  define p where "p = \<lparr>cp_text = ?t, cp_enc = Utf8, cp_bom = [], cp_sep = 44, cp_rows = [[(0, 1, False), (2, 3, False)]], cp_header = h\<rparr>"
  have "\<not> endswith (u_lower cyr_ucd (str ''t.csv'')) (str ''.tsv'')"
    by (simp add: cyr_ucd_def ascii_ucd_def str_def plain_lower_def ascii_defs endswith_def)
  then have p: "prep_csv cyr_ucd (\<lambda>_. None) demo_table (str ''t.csv'') = Inr p"
    by (simp add: prep_csv_def demo_decoded demo_cells p_def h_def Let_def)
  let ?us = "[\<lparr>un_text = str ''a'', un_force = forced_of h 0 0\<rparr>, \<lparr>un_text = str ''b'', un_force = forced_of h 0 1\<rparr>]"
  have vals: "cell_value ?t (0, 1, False) = str ''a''" "cell_value ?t (2, 3, False) = str ''b''" by (simp_all add: cell_value_def str_def slice_def)
  have us: "csv_units cyr_ucd (\<lambda>_. None) demo_table (str ''t.csv'') = Inr ?us"
    using p vals by (simp add: csv_units_def p_def csv_walk_def)
  have v: "visit demo_fn ?us () = (Inr [[], ?reps], ())" by (simp add: fbind_def fret_def demo_fn_def str_def)
  have new: "apply_replacements (str ''b'') ?reps = str ''X,Y''" by (simp add: apply_replacements_def apply_one_def str_def)
  have fits: "list_all2 (cell_fits p) (concat (cp_rows p)) [[], ?reps]"
    using vals new by (simp add: cell_fits_def p_def str_def)
  have sep: "cp_sep p \<noteq> 34" by (simp add: p_def)
  obtain t2 where t2: "csv_rewrite cyr_ucd (\<lambda>_. None) demo_table demo_fn (str ''t.csv'') () = (encode_text t2 (cp_enc p) (cp_bom p), ())"
    "map length (csv_cells t2 (cp_sep p)) = map length (cp_rows p)"
    "map (cell_value t2) (concat (csv_cells t2 (cp_sep p))) = map2 (\<lambda>x reps. apply_replacements (un_text x) reps) ?us [[], ?reps]"
    using csv_rewrite_cells [OF p sep us v fits] by blast
  have "apply_replacements (str ''a'') [] = str ''a''" by (simp add: apply_replacements_def)
  then show ?thesis using t2 new by (intro exI [of _ t2]) (simp add: p_def)
qed

end
