(* ===== verification/Desktop_Files.thy ===== *)
theory Desktop_Files
  imports Desktop_Pipeline Desktop_Roundtrip Desktop_Cells
begin

text \<open>
  The contract between the pipeline and a document handler, as the locale \<open>document_format\<close>: the handler asks the callback
  about its units in order, and what it writes reads as the units with the answers applied. From it follows the round trip
  of a file; the handlers of text and of tables satisfy it.
\<close>

section \<open>The units of a run\<close>

lemma anon_fn_Inr:
  "anon_fn env pid lng options t force r = (Inr reps, r') \<Longrightarrow>
     \<exists>st s'. anonymize_unit env pid t (fr_st r) lng options force (fr_eng r) = (Inr (reps, st), s') \<and> fr_st r' = st \<and> fr_eng r' = s'"
  by (auto simp: anon_fn_def Let_def split: prod.splits sum.splits)

lemma moved_trans:
  assumes "moved pid v reps v1" "moved pid v1 reps' v2"
  shows "moved pid v (reps @ reps') v2"
proof -
  have "keyed v2 pid (rp_category x, rp_n x)" if "x \<in> set reps" for x
  proof -
    have "linked v1 pid" using assms(1) that by (auto simp: moved_def)
    then have "grows pid v1 v2" using assms(2) by (simp add: moved_def)
    then show ?thesis using keyed_grows assms(1) that by (simp add: moved_def)
  qed
  moreover have "linked v2 pid \<or> reps @ reps' = [] \<and> v2 = v"
  proof (cases "linked v2 pid")
    case False
    then have e: "reps' = []" "v2 = v1" using assms(2) by (auto simp: moved_def)
    then show ?thesis using False assms(1) by (auto simp: moved_def)
  qed simp
  moreover have "grows pid v v2" if "linked v pid"
    using assms that grows_trans growsD(1) unfolding moved_def by blast
  moreover have "lv_ticks v \<le> lv_ticks v2" using assms order_trans unfolding moved_def by blast
  ultimately show ?thesis using assms by (auto simp: moved_def)
qed

lemma moved_ready: "ready env pid v \<Longrightarrow> moved pid v reps v' \<Longrightarrow> ready env pid v'"
  by (auto simp: ready_def moved_def)

lemma moved_refl: "moved pid v [] v"
  by (simp add: moved_def grows_refl)

lemma visit_anon:
  assumes "visit (anon_fn env pid lng options) us r = (Inr repss, r')" "ready env pid (eg_vault (fr_eng r))"
  shows "list_all2 (\<lambda>x reps. labelled (eg_ucd env) lng (un_text x) reps) us repss \<and>
    rs_occurrences (fr_st r') = rs_occurrences (fr_st r) @ map occ_of (concat repss) \<and>
    moved pid (eg_vault (fr_eng r)) (concat repss) (eg_vault (fr_eng r'))"
  using assms
proof (induction us arbitrary: r repss)
  case Nil
  then show ?case by (simp add: fret_def moved_refl)
next
  case (Cons x us)
  obtain reps rest r1 where f: "anon_fn env pid lng options (un_text x) (un_force x) r = (Inr reps, r1)"
    and v: "visit (anon_fn env pid lng options) us r1 = (Inr rest, r')" and repss: "repss = reps # rest"
    using Cons.prems(1) by (auto simp: fbind_Inr fret_def)
  obtain st s1 where a: "anonymize_unit env pid (un_text x) (fr_st r) lng options (un_force x) (fr_eng r) = (Inr (reps, st), s1)"
    and r1: "fr_st r1 = st" "fr_eng r1 = s1" using anon_fn_Inr [OF f] by blast
  have u: "labelled (eg_ucd env) lng (un_text x) reps" "rs_occurrences st = rs_occurrences (fr_st r) @ map occ_of reps"
    "moved pid (eg_vault (fr_eng r)) reps (eg_vault s1)" using unit_moves [OF Cons.prems(2) a] by simp_all
  have "ready env pid (eg_vault (fr_eng r1))" using moved_ready [OF Cons.prems(2) u(3)] r1 by simp
  note ih = Cons.IH [OF v this]
  have "moved pid (eg_vault (fr_eng r)) (reps @ concat rest) (eg_vault (fr_eng r'))"
    using moved_trans [OF u(3)] ih r1 by simp
  then show ?case using ih u(1,2) r1 repss by simp
qed

lemma restore_fn_Inr:
  assumes "restore_unit env pid t (fr_st r) exact (fr_cursor r) (fr_eng r) = (Inr (reps, st, c), s)"
  shows "\<exists>r'. restore_fn env pid exact t force r = (Inr reps, r') \<and> fr_eng r' = s \<and> fr_st r' = st \<and> fr_cursor r' = c"
  using assms by (simp add: restore_fn_def Let_def)

lemma visit_restore:
  assumes "list_all2 (reversible (eg_ucd env)) ts repss" "map un_text us = map2 apply_replacements ts repss"
    "linked (eg_vault (fr_eng r)) pid" "list_all (\<lambda>x. keyed (eg_vault (fr_eng r)) pid (rp_category x, rp_n x)) (concat repss)"
    "drop (fr_cursor r) items = map occ_of (concat repss)"
  shows "\<exists>r'. visit (restore_fn env pid (Some items)) us r = (Inr (map undo repss), r') \<and> fr_eng r' = fr_eng r"
  using assms
proof (induction ts repss arbitrary: us r rule: list_all2_induct)
  case Nil
  then show ?case by (simp add: fret_def)
next
  case (Cons t ts reps repss)
  obtain x us' where us: "us = x # us'" "un_text x = apply_replacements t reps" "map un_text us' = map2 apply_replacements ts repss"
    using Cons.prems(1) by (cases us) auto
  have k: "list_all (\<lambda>x. keyed (eg_vault (fr_eng r)) pid (rp_category x, rp_n x)) reps" using Cons.prems(3) by simp
  have d: "drop (fr_cursor r) items = map occ_of reps @ map occ_of (concat repss)" using Cons.prems(4) by simp
  obtain st where "restore_unit env pid (apply_replacements t reps) (fr_st r) (Some items) (fr_cursor r) (fr_eng r) =
      (Inr (undo reps, st, fr_cursor r + length reps), fr_eng r)"
    using restore_unit_undo [OF Cons.hyps(1) Cons.prems(2) k d] by blast
  then have "restore_unit env pid (un_text x) (fr_st r) (Some items) (fr_cursor r) (fr_eng r) =
      (Inr (undo reps, st, fr_cursor r + length reps), fr_eng r)" using us(2) by simp
  from restore_fn_Inr [OF this, of "un_force x"]
  obtain r1 where r1: "restore_fn env pid (Some items) (un_text x) (un_force x) r = (Inr (undo reps), r1)" "fr_eng r1 = fr_eng r"
    "fr_cursor r1 = fr_cursor r + length reps" by blast
  have "drop (length reps) (drop (fr_cursor r) items) = map occ_of (concat repss)" using d by simp
  then have "drop (fr_cursor r1) items = map occ_of (concat repss)" using r1(3) by (simp add: add.commute)
  then obtain r' where "visit (restore_fn env pid (Some items)) us' r1 = (Inr (map undo repss), r')" "fr_eng r' = fr_eng r1"
    using Cons.IH [of us' r1] us(3) Cons.prems r1(2) by auto
  then show ?case using us(1) r1 by (simp add: fbind_def fret_def)
qed

text \<open>Without labels nothing is restored.\<close>

lemma visit_no_labels:
  "list_all (\<lambda>x. find_labels (eg_ucd env) (un_text x) = []) us \<Longrightarrow>
     \<exists>r'. visit (restore_fn env pid exact) us r = (Inr (map (\<lambda>_. []) us), r') \<and> fr_eng r' = fr_eng r"
proof (induction us arbitrary: r)
  case Nil
  then show ?case by (simp add: fret_def)
next
  case (Cons x us)
  let ?st = "fr_st r\<lparr>rs_units_out := rs_units_out (fr_st r) @ [un_text x]\<rparr>"
  have "restore_unit env pid (un_text x) (fr_st r) exact (fr_cursor r) (fr_eng r) = (Inr ([], ?st, fr_cursor r), fr_eng r)"
    using Cons.prems by (simp add: restore_unit_def eret_def)
  from restore_fn_Inr [OF this, of "un_force x"]
  obtain r1 where r1: "restore_fn env pid exact (un_text x) (un_force x) r = (Inr [], r1)" "fr_eng r1 = fr_eng r" by blast
  obtain r' where "visit (restore_fn env pid exact) us r1 = (Inr (map (\<lambda>_. []) us), r')" "fr_eng r' = fr_eng r1"
    using Cons.IH [of r1] Cons.prems by auto
  then show ?case using r1 by (simp add: fbind_def fret_def)
qed

lemma labels_in_units:
  "list_all2 (reversible u) ts repss \<Longrightarrow> labels_in u (map2 apply_replacements ts repss) = label_seq (map occ_of (concat repss))"
proof (induction ts repss rule: list_all2_induct)
  case (Cons t ts reps repss)
  have "labels_in u [apply_replacements t reps] = label_seq (map occ_of reps)"
    by (simp add: labels_in_def reversible_undo(1) [OF Cons.hyps(1)] occ_seq)
  then show ?case using Cons.IH by (simp add: labels_in_def label_seq_def)
qed (simp add: labels_in_def label_seq_def)

lemma undone: "list_all2 (reversible u) ts repss \<Longrightarrow>
    map2 apply_replacements (map2 apply_replacements ts repss) (map undo repss) = ts"
  by (induction ts repss rule: list_all2_induct) (simp_all add: reversible_undo(2))

text \<open>What a unit and its replacements have to be for the labels to be read back.\<close>

definition unit_fits :: "ucd \<Rightarrow> pystr \<Rightarrow> replacement list \<Rightarrow> bool" where
  "unit_fits u t reps \<longleftrightarrow> encodable t \<and> find_labels u t = [] \<and> delimited u t 0 reps \<and>
     list_all (\<lambda>r. rp_category r \<in> fst ` set WORDS \<and> rp_n r < 10 ^ 6) reps"

lemma both_all2: "list_all2 P xs ys \<Longrightarrow> list_all2 Q xs ys \<Longrightarrow> list_all2 (\<lambda>x y. P x y \<and> Q x y) xs ys"
  by (simp add: list_all2_conv_all_nth)

section \<open>The contract of a handler\<close>

locale document_format =
  fixes ops :: doc_handler and fits :: "bytes \<Rightarrow> replacement list list \<Rightarrow> bool"
  assumes asks: "dh_rewrite ops data f r = (Inr out, r') \<Longrightarrow>
      \<exists>us repss. dh_units ops data = Inr us \<and> visit f us r = (Inr repss, r')"
    and writes: "dh_units ops data = Inr us \<Longrightarrow> visit f us r = (Inr repss, r') \<Longrightarrow> fits data repss \<Longrightarrow>
      \<exists>out us'. dh_rewrite ops data f r = (Inr out, r') \<and> dh_units ops out = Inr us' \<and>
        map un_text us' = map2 (\<lambda>x reps. apply_replacements (un_text x) reps) us repss"
begin

lemma run_asks:
  assumes "run_file ops data f s = (Inr (out, r), s')"
  obtains us repss where "dh_units ops data = Inr us" "visit f us (start_run s) = (Inr repss, r)" "fr_eng r = s'"
    "dh_rewrite ops data f (start_run s) = (Inr out, r)"
proof -
  have d: "dh_rewrite ops data f (start_run s) = (Inr out, r)" "fr_eng r = s'"
    using assms by (auto simp: run_file_def split: prod.splits sum.splits)
  then show thesis using asks [OF d(1)] that by blast
qed

text \<open>The second run answers with what undoes the first.\<close>

definition undone_by :: "file_env \<Rightarrow> pystr \<Rightarrow> bytes \<Rightarrow> (pystr \<times> nat \<times> pystr) list option \<Rightarrow> eng \<Rightarrow> bytes \<Rightarrow> file_run \<Rightarrow>
    replacement list list \<Rightarrow> bool" where
  "undone_by env pid out exact s final r repss \<longleftrightarrow>
     (\<exists>us. dh_units ops out = Inr us \<and> visit (restore_fn (fe_eng env) pid exact) us (start_run s) = (Inr (map undo repss), r) \<and>
        dh_rewrite ops out (restore_fn (fe_eng env) pid exact) (start_run s) = (Inr final, r))"

text \<open>A document whose units were labelled, and recorded, comes back unit by unit.\<close>

lemma restores:
  assumes us: "dh_units ops data = Inr us" and v: "visit f us r0 = (Inr repss, r)" and out: "dh_rewrite ops data f r0 = (Inr out, r)"
    and fits: "fits data repss" "fits out (map undo repss)"
    and rev: "list_all2 (reversible (eg_ucd (fe_eng env))) (map un_text us) repss"
    and rec: "concat repss = [] \<or> recorded (fe_eng env) pid (concat repss) (eg_vault s)"
  shows "\<exists>final r' exact us'. restore_bytes env pid ops out s = (Inr (final, r', exact), s) \<and> dh_units ops final = Inr us' \<and>
    map un_text us' = map un_text us \<and> undone_by env pid out exact s final r' repss"
proof -
  let ?env = "fe_eng env" and ?ts = "map un_text us"
  obtain us1 where us1: "dh_units ops out = Inr us1" "map un_text us1 = map2 apply_replacements ?ts repss"
    using writes [OF us v fits(1)] out by (auto simp: zip_map1 comp_def case_prod_beta)
  have labs: "labels_in (eg_ucd ?env) (map un_text us1) = label_seq (map occ_of (concat repss))"
    using labels_in_units [OF rev] us1(2) by simp
  have len: "length us1 = length repss" using arg_cong [OF us1(2), of length] list_all2_lengthD [OF rev] by simp
  obtain exact r' where ex: "exact_map ?env pid (map un_text us1) s = (Inr exact, s)"
    "visit (restore_fn ?env pid exact) us1 (start_run s) = (Inr (map undo repss), r')" "fr_eng r' = s"
  proof (cases "concat repss = []")
    case True
    have "repss = replicate (length us1) []" by (rule replicate_eqI) (use len True in auto)
    then have e: "repss = map (\<lambda>_. []) us1" by (simp only: map_replicate_const)
    have "find_labels (eg_ucd ?env) x = []" if "x \<in> set (map un_text us1)" for x
      using labs True that by (auto simp: labels_in_def label_seq_def)
    then have "list_all (\<lambda>x. find_labels (eg_ucd ?env) (un_text x) = []) us1" by (simp add: list_all_iff)
    from visit_no_labels [OF this, of pid None "start_run s"]
    obtain r' where "visit (restore_fn ?env pid None) us1 (start_run s) = (Inr (map (\<lambda>_. []) us1), r')" "fr_eng r' = s"
      by (auto simp: start_run_def)
    moreover have "map (\<lambda>_. []) us1 = map undo repss" by (subst e) (simp add: undo_def comp_def)
    ultimately show thesis using that [of None r'] labs True by (simp add: exact_map_def label_seq_def eret_def)
  next
    case False
    then have r: "recorded ?env pid (concat repss) (eg_vault s)" using rec by blast
    have l: "linked (eg_vault (fr_eng (start_run s))) pid"
      "list_all (\<lambda>x. keyed (eg_vault (fr_eng (start_run s))) pid (rp_category x, rp_n x)) (concat repss)"
      "drop (fr_cursor (start_run s)) (map occ_of (concat repss)) = map occ_of (concat repss)"
      using r by (simp_all add: recorded_def start_run_def)
    obtain r' where "visit (restore_fn ?env pid (Some (map occ_of (concat repss)))) us1 (start_run s) = (Inr (map undo repss), r')" "fr_eng r' = s"
      using visit_restore [OF rev us1(2) l] by (auto simp: start_run_def)
    then show thesis using that exact_map_recorded [OF r False labs] by blast
  qed
  obtain final us' where f: "dh_rewrite ops out (restore_fn ?env pid exact) (start_run s) = (Inr final, r')" "dh_units ops final = Inr us'"
    "map un_text us' = map2 (\<lambda>x reps. apply_replacements (un_text x) reps) us1 (map undo repss)"
    using writes [OF us1(1) ex(2) fits(2)] by blast
  have "map un_text us' = map2 apply_replacements (map un_text us1) (map undo repss)" using f(3) by (simp add: zip_map1 comp_def case_prod_beta)
  also have "\<dots> = ?ts" unfolding us1(2) by (rule undone [OF rev])
  finally have "map un_text us' = ?ts" .
  moreover have "restore_bytes env pid ops out s = (Inr (final, r', exact), s)"
    using us1(1) ex f(1) by (simp add: restore_bytes_def ebind_def elift_def run_file_def eret_def)
  moreover have "undone_by env pid out exact s final r' repss" unfolding undone_by_def using us1(1) ex(2) f(1) by blast
  ultimately show ?thesis using f(2) by blast
qed

text \<open>Anonymizing the file and recording what was replaced make the restoring exact.\<close>

lemma there_and_back:
  assumes u: "ucd_cyr (fe_ucd env)" and env: "env_ok (ev_lv (fe_eng env))" and c: "coherent (ev_lv (fe_eng env)) (eg_vault s)"
    and clock: "clock_ahead (ev_lv (fe_eng env)) pid (eg_vault s)" and lng: "lng \<in> set (map str [''uk'', ''ru'', ''en''])"
    and us: "dh_units ops data = Inr us" and v: "visit (anon_fn (fe_eng env) pid lng options) us (start_run s) = (Inr repss, r)"
    and out: "dh_rewrite ops data (anon_fn (fe_eng env) pid lng options) (start_run s) = (Inr out, r)"
    and rd: "record_anon env pid name doc_kind (rs_occurrences (fr_st r)) ((fr_eng r)\<lparr>eg_vault := bump (rs_counts (fr_st r)) (eg_vault (fr_eng r))\<rparr>)
      = (Inr did, s')"
    and ok: "list_all2 (\<lambda>x reps. unit_fits (fe_ucd env) (un_text x) reps) us repss"
    and fits: "fits data repss" "fits out (map undo repss)"
  shows "\<exists>final r' exact us'. restore_bytes env pid ops out s' = (Inr (final, r', exact), s') \<and> dh_units ops final = Inr us' \<and>
    map un_text us' = map un_text us \<and> undone_by env pid out exact s' final r' repss"
proof -
  let ?env = "fe_eng env"
  have l: "list_all2 (\<lambda>x reps. labelled (eg_ucd ?env) lng (un_text x) reps) us repss"
    "rs_occurrences (fr_st r) = map occ_of (concat repss)" "moved pid (eg_vault s) (concat repss) (eg_vault (fr_eng r))"
    using visit_anon [OF v] c by (auto simp: ready_def start_run_def new_run_def)
  have rev: "list_all2 (reversible (eg_ucd ?env)) (map un_text us) repss"
    unfolding list_all2_map1
  proof (rule list_all2_mono [OF both_all2 [OF l(1) ok]])
    fix x reps
    assume a: "labelled (eg_ucd ?env) lng (un_text x) reps \<and> unit_fits (fe_ucd env) (un_text x) reps"
    then have "reads_as_label (eg_ucd ?env) y" if "y \<in> set reps" for y
      using reads_all [OF u [unfolded fe_ucd_def], of y lng] lng that by (auto simp: labelled_def unit_fits_def list_all_iff)
    then show "reversible (eg_ucd ?env) (un_text x) reps" using a by (simp add: reversible_def labelled_def unit_fits_def fe_ucd_def)
  qed
  have cats: "list_all (\<lambda>y. rp_category y \<in> fst ` set WORDS \<and> encodable (rp_original y)) (concat repss)"
  proof -
    have "list_all (\<lambda>y. rp_category y \<in> fst ` set WORDS \<and> encodable (rp_original y)) (repss ! n)" if "n < length repss" for n
    proof -
      have n: "n < length us" using that list_all2_lengthD [OF ok] by simp
      have "labelled (eg_ucd ?env) lng (un_text (us ! n)) (repss ! n)" "unit_fits (fe_ucd env) (un_text (us ! n)) (repss ! n)"
        using list_all2_nthD [OF l(1) n] list_all2_nthD [OF ok n] by simp_all
      then show ?thesis using originals_encodable by (auto simp: unit_fits_def list_all_iff)
    qed
    then have "list_all (list_all (\<lambda>y. rp_category y \<in> fst ` set WORDS \<and> encodable (rp_original y))) repss"
      by (simp add: list_all_length [of _ repss])
    then show ?thesis by (simp add: list_all_iff)
  qed
  have "recorded ?env pid (concat repss) (eg_vault s')" if ne: "concat repss \<noteq> []"
  proof -
    obtain digest where dg: "label_digest (ev_sha ?env) (label_seq (map occ_of (concat repss))) = Inr digest"
      and rdd: "record_document (ev_lv ?env) pid name doc_kind (str ''anon'') (Some digest) (Some (occurrences_json (map occ_of (concat repss))))
         (run_stats (map occ_of (concat repss))) (bump (rs_counts (fr_st r)) (eg_vault (fr_eng r))) = (Inr did, eg_vault s')"
      using rd unfolding l(2) record_anon_def by (auto simp: egm_Inr)
    show ?thesis by (rule recorded_after [OF env l(3) clock ne cats dg rdd])
  qed
  then show ?thesis using restores [OF us v out fits rev] by blast
qed

end

section \<open>Text files\<close>

definition text_ops :: doc_handler where "text_ops = \<lparr>dh_units = text_units, dh_rewrite = text_rewrite\<rparr>"

definition text_fits :: "bytes \<Rightarrow> replacement list list \<Rightarrow> bool" where
  "text_fits data repss \<longleftrightarrow>
     (case decode_text data of
        Inr (t, ec, bom) \<Rightarrow> writable (apply_replacements t (hd repss)) ec bom
      | Inl _ \<Rightarrow> False)"

lemma fbind_flift [simp]: "fbind (flift x) g s = (case x of Inl e \<Rightarrow> (Inl e, s) | Inr y \<Rightarrow> g y s)"
  by (simp add: fbind_def flift_def split: sum.split)

interpretation text_file: document_format text_ops text_fits
proof unfold_locales
  fix data and f :: "file_run unit_fn" and r out r'
  assume "dh_rewrite text_ops data f r = (Inr out, r')"
  then obtain t ec bom reps where "decode_text data = Inr (t, ec, bom)" "f t None r = (Inr reps, r')"
    by (auto simp: text_ops_def text_rewrite_def fbind_Inr flift_def split: sum.splits)
  then show "\<exists>us repss. dh_units text_ops data = Inr us \<and> visit f us r = (Inr repss, r')"
    by (intro exI [of _ "[\<lparr>un_text = t, un_force = None\<rparr>]"] exI [of _ "[reps]"]) (simp add: text_ops_def text_units_def fbind_def fret_def)
next
  fix data us and f :: "file_run unit_fn" and r repss r'
  assume us: "dh_units text_ops data = Inr us" and v: "visit f us r = (Inr repss, r')" and fits: "text_fits data repss"
  obtain t ec bom where d: "decode_text data = Inr (t, ec, bom)" "us = [\<lparr>un_text = t, un_force = None\<rparr>]"
    using us by (auto simp: text_ops_def text_units_def rbind_Inr_iff)
  obtain reps where reps: "f t None r = (Inr reps, r')" "repss = [reps]"
    using v d(2) by (auto simp: fbind_Inr fret_def)
  obtain b where b: "encode_text (apply_replacements t reps) ec bom = Inr b" "decode_text b = Inr (apply_replacements t reps, ec, bom)"
    using fits d(1) reps(2) written_back [of "apply_replacements t reps" ec bom] by (auto simp: text_fits_def)
  show "\<exists>out us'. dh_rewrite text_ops data f r = (Inr out, r') \<and> dh_units text_ops out = Inr us' \<and>
      map un_text us' = map2 (\<lambda>x reps. apply_replacements (un_text x) reps) us repss"
    using d reps b by (simp add: text_ops_def text_rewrite_def text_units_def fbind_def flift_def)
qed

section \<open>Tables\<close>

definition csv_ops :: "ucd \<Rightarrow> (pystr \<Rightarrow> nat option) \<Rightarrow> pystr \<Rightarrow> doc_handler" where
  "csv_ops u sniff name =
     \<lparr>dh_units = \<lambda>data. csv_units u sniff data name, dh_rewrite = \<lambda>data f. csv_rewrite u sniff data f name\<rparr>"

text \<open>The answers fit the cells, the file can be written as UTF-8, and the delimiter is guessed again.\<close>

definition csv_fits :: "ucd \<Rightarrow> (pystr \<Rightarrow> nat option) \<Rightarrow> pystr \<Rightarrow> bytes \<Rightarrow> replacement list list \<Rightarrow> bool" where
  "csv_fits u sniff name data repss \<longleftrightarrow>
     (case prep_csv u sniff data name of
        Inl _ \<Rightarrow> False
      | Inr p \<Rightarrow> cp_sep p \<noteq> 34 \<and> list_all2 (cell_fits p) (concat (cp_rows p)) repss \<and>
          writable (csv_text p repss) (cp_enc p) (cp_bom p) \<and>
          (case sniff (take 4096 (csv_text p repss)) of
             Some d \<Rightarrow> d = cp_sep p | None \<Rightarrow> cp_sep p = (if endswith (u_lower u name) (str ''.tsv'') then 9 else 44)))"

lemma csv_asks:
  "csv_reps f t cs s = (Inr reps, s') \<Longrightarrow> \<exists>repss. visit f (map (cell_unit t) cs) s = (Inr repss, s')"
proof (induction cs arbitrary: s reps)
  case (Cons x cs)
  obtain c force where x: "x = (c, force)" by (cases x)
  obtain r1 s1 rest where f: "f (cell_value t c) force s = (Inr r1, s1)" "csv_reps f t cs s1 = (Inr rest, s')"
    using Cons.prems x by (auto simp: fbind_Inr fret_def Let_def)
  obtain repss where "visit f (map (cell_unit t) cs) s1 = (Inr repss, s')" using Cons.IH [OF f(2)] by blast
  then show ?case using f(1) x by (auto simp: fbind_Inr fret_def cell_unit_def)
qed (simp add: fret_def)

interpretation csv_file: document_format "csv_ops u sniff name" "csv_fits u sniff name" for u sniff name
proof unfold_locales
  fix data and f :: "file_run unit_fn" and r out r'
  assume "dh_rewrite (csv_ops u sniff name) data f r = (Inr out, r')"
  then obtain p raws where p: "prep_csv u sniff data name = Inr p" "csv_reps f (cp_text p) (csv_walk (cp_header p) (cp_rows p)) r = (Inr raws, r')"
    by (auto simp: csv_ops_def csv_rewrite_def fbind_Inr flift_def split: sum.splits)
  then show "\<exists>us repss. dh_units (csv_ops u sniff name) data = Inr us \<and> visit f us r = (Inr repss, r')"
    using csv_asks [OF p(2)] by (simp add: csv_ops_def csv_units_def cell_unit_def)
next
  fix data us and f :: "file_run unit_fn" and r repss r'
  assume us: "dh_units (csv_ops u sniff name) data = Inr us" and v: "visit f us r = (Inr repss, r')" and fits: "csv_fits u sniff name data repss"
  obtain p where p: "prep_csv u sniff data name = Inr p" "cp_sep p \<noteq> 34" "list_all2 (cell_fits p) (concat (cp_rows p)) repss"
    "writable (csv_text p repss) (cp_enc p) (cp_bom p)"
    "case sniff (take 4096 (csv_text p repss)) of Some d \<Rightarrow> d = cp_sep p
       | None \<Rightarrow> cp_sep p = (if endswith (u_lower u name) (str ''.tsv'') then 9 else 44)"
    using fits by (auto simp: csv_fits_def split: sum.splits)
  let ?t2 = "csv_text p repss"
  have us': "csv_units u sniff data name = Inr us" using us by (simp add: csv_ops_def)
  note w = csv_rewritten [OF p(1,2) us' v p(3)]
  obtain b where b: "encode_text ?t2 (cp_enc p) (cp_bom p) = Inr b" "decode_text b = Inr (?t2, cp_enc p, cp_bom p)"
    using written_back [OF p(4)] by blast
  have sep: "(case sniff (take 4096 ?t2) of Some d \<Rightarrow> d | None \<Rightarrow> if endswith (u_lower u name) (str ''.tsv'') then 9 else 44) = cp_sep p"
    using p(5) by (simp split: option.splits)
  let ?rows = "csv_cells ?t2 (cp_sep p)"
  have "prep_csv u sniff b name = Inr \<lparr>cp_text = ?t2, cp_enc = cp_enc p, cp_bom = cp_bom p, cp_sep = cp_sep p, cp_rows = ?rows,
      cp_header = header_cats u ?t2 ?rows\<rparr>"
    using b(2) sep by (simp add: prep_csv_def Let_def)
  then have "csv_units u sniff b name = Inr (map (cell_unit ?t2) (csv_walk (header_cats u ?t2 ?rows) ?rows))"
    by (simp add: csv_units_def cell_unit_def)
  moreover have "map un_text (map (cell_unit ?t2) (csv_walk h ?rows)) = map2 (\<lambda>x reps. apply_replacements (un_text x) reps) us repss" for h
  proof -
    have "map un_text (map (cell_unit ?t2) (csv_walk h ?rows)) = map (cell_value ?t2) (map fst (csv_walk h ?rows))"
      by (simp add: cell_unit_def comp_def case_prod_beta)
    then show ?thesis using w(3) by (simp only: walk_cells)
  qed
  ultimately show "\<exists>out us'. dh_rewrite (csv_ops u sniff name) data f r = (Inr out, r') \<and> dh_units (csv_ops u sniff name) out = Inr us' \<and>
      map un_text us' = map2 (\<lambda>x reps. apply_replacements (un_text x) reps) us repss"
    using w(1) b(1) by (simp add: csv_ops_def)
qed

end
