(* ===== verification/Desktop_There.thy ===== *)
theory Desktop_There
  imports Desktop_Files
begin

text \<open>
  A file anonymized by \<open>anonymize_file\<close> and restored by \<open>restore_file\<close>: byte for byte for a text, cell by cell for a table.
\<close>

section \<open>What is written\<close>

lemma plain_char_ok: "plain_char c \<Longrightarrow> c < 1114112 \<and> \<not> surrogate c \<and> c \<noteq> 65279"
  by (auto simp: plain_char_def cyr_letter_def dash_def surrogate_def)

lemma put_encodable:
  "encodable t \<Longrightarrow> list_all (\<lambda>r. encodable (rp_new r)) reps \<Longrightarrow> encodable (put t p reps)"
proof (induction reps arbitrary: p)
  case Nil
  then show ?case by (auto simp: encodable_def list_all_iff dest: in_set_dropD)
qed (simp add: encodable_slice)

lemma put_start: "take 1 (put t 0 reps) = [c] \<Longrightarrow> list_all (\<lambda>r. rp_new r \<noteq> []) reps \<Longrightarrow>
    take 1 t = [c] \<or> (\<exists>r\<in>set reps. c \<in> set (rp_new r))"
proof (cases reps)
  case (Cons r rs)
  assume c: "take 1 (put t 0 reps) = [c]" "list_all (\<lambda>r. rp_new r \<noteq> []) reps"
  show ?thesis
  proof (cases "slice t 0 (rp_start r)")
    case Nil
    then show ?thesis using c Cons by (cases "rp_new r") auto
  next
    case (Cons x xs)
    then show ?thesis using c \<open>reps = r # rs\<close> by (cases t; cases "rp_start r") (auto simp: slice_def)
  qed
qed simp

lemma label_ok:
  assumes "labelled u lng t reps" "lng \<in> set (map str [''uk'', ''ru'', ''en''])" "list_all (\<lambda>r. rp_category r \<in> fst ` set WORDS) reps"
    "r \<in> set reps"
  shows "plain (rp_new r)"
proof -
  have "rp_new r = render_label u (rp_category r) (rp_n r) lng" "rp_category r \<in> fst ` set WORDS"
    using assms by (auto simp: labelled_def list_all_iff)
  then show ?thesis using label_plain [OF _ _ assms(2)] by blast
qed

lemma labelled_writable:
  assumes l: "labelled u lng t reps" and lng: "lng \<in> set (map str [''uk'', ''ru'', ''en''])"
    and cats: "list_all (\<lambda>r. rp_category r \<in> fst ` set WORDS) reps" and w: "writable t ec bom" and ne: "list_all (\<lambda>r. rp_new r \<noteq> []) reps"
  shows "writable (apply_replacements t reps) ec bom"
proof -
  have ord: "in_order t reps" using l by (simp add: labelled_def)
  have pl: "plain (rp_new r)" if "r \<in> set reps" for r by (rule label_ok [OF l lng cats that])
  have "encodable (rp_new r)" if "r \<in> set reps" for r
    using pl [OF that] plain_char_ok by (auto simp: encodable_def list_all_iff)
  then have "encodable (put t 0 reps)" using put_encodable w by (simp add: writable_def list_all_iff)
  moreover have "take 1 (put t 0 reps) \<noteq> [65279]" if t: "take 1 t \<noteq> [65279]"
  proof
    assume "take 1 (put t 0 reps) = [65279]"
    then obtain r where "r \<in> set reps" "65279 \<in> set (rp_new r)" using put_start [OF _ ne] t by blast
    then show False using pl plain_char_ok by (auto simp: list_all_iff)
  qed
  ultimately show ?thesis using w by (auto simp: writable_def apply_put [OF ord])
qed

section \<open>The parts of a run\<close>

lemma anonymize_file_parts:
  assumes "anonymize_file env pid name data lng options s = (Inr res, s')"
  obtains h r did where "handler_for (fe_ucd env) name = Inr h"
    "run_file (handler_ops env name h) data (anon_fn (fe_eng env) pid lng options) s = (Inr (fl_data res, r), fr_eng r)"
    "record_anon env pid name (fl_kind res) (rs_occurrences (fr_st r)) ((fr_eng r)\<lparr>eg_vault := bump (rs_counts (fr_st r)) (eg_vault (fr_eng r))\<rparr>)
      = (Inr did, s')"
proof -
  obtain h out r s1 k did where p: "handler_for (fe_ucd env) name = Inr h"
    "run_file (handler_ops env name h) data (anon_fn (fe_eng env) pid lng options) s = (Inr (out, r), s1)"
    "record_anon env pid name k (rs_occurrences (fr_st r)) (s1\<lparr>eg_vault := bump (rs_counts (fr_st r)) (eg_vault s1)\<rparr>) = (Inr did, s')"
    "fl_data res = out" "fl_kind res = k"
    using assms by (auto simp: anonymize_file_def egm_Inr Let_def finish_anon_def split: prod.splits)
  moreover have "s1 = fr_eng r" using p(2) by (auto simp: run_file_def split: prod.splits sum.splits)
  ultimately show thesis using that by blast
qed

lemma restore_file_data:
  assumes "restore_bytes env pid (handler_ops env name h) data s = (Inr (out, r, exact), s1)" "handler_for (fe_ucd env) name = Inr h"
    "restore_file env pid name data s = (Inr res, s')"
  shows "fl_data res = out"
  using assms by (auto simp: restore_file_def egm_Inr Let_def split: prod.splits)

lemma csv_handler: "handler_ops env name CsvHandler = csv_ops (fe_ucd env) (fe_sniff env) name"
  by (simp add: handler_ops_def csv_ops_def)

lemma text_handler: "handler_ops env name TextHandler = text_ops"
  by (simp add: handler_ops_def text_ops_def)

section \<open>There and back\<close>

definition sound_start :: "file_env \<Rightarrow> pystr \<Rightarrow> bytes \<Rightarrow> pystr \<Rightarrow> pystr \<Rightarrow> eng \<Rightarrow> bool" where
  "sound_start env pw dk pid lng s \<longleftrightarrow>
     ucd_cyr (fe_ucd env) \<and> env_ok (ev_lv (fe_eng env)) \<and> vault_run (ev_lv (fe_eng env)) pw dk (eg_vault s) \<and>
     clock_ahead (ev_lv (fe_eng env)) pid (eg_vault s) \<and> lng \<in> set (map str [''uk'', ''ru'', ''en''])"

lemma sound_coherent: "sound_start env pw dk pid lng s \<Longrightarrow> coherent (ev_lv (fe_eng env)) (eg_vault s)"
  using vault_run_inv by (auto simp: sound_start_def run_inv_def)

section \<open>An instance\<close>

definition demo_files :: file_env where
  "demo_files = \<lparr>fe_eng = demo_engine, fe_sniff = \<lambda>_. None, fe_other = \<lambda>_. text_ops\<rparr>"

definition demo_data :: bytes where "demo_data = [97, 98, 99]"
definition demo_label :: pystr where "demo_label = str ''UCI-1''"
definition demo_out :: bytes where "demo_out = [85, 67, 73, 45, 49]"

lemma demo_files_fields [simp]: "fe_eng demo_files = demo_engine" "fe_sniff demo_files = (\<lambda>_. None)" "fe_ucd demo_files = cyr_ucd"
  by (simp_all add: demo_files_def fe_ucd_def)

lemma demo_decoded2: "decode_text demo_data = Inr (abc, Utf8, [])" "decode_text demo_out = Inr (demo_label, Utf8, [])"
  by code_simp+

lemma demo_encoded: "encode_text abc Utf8 [] = Inr demo_data" "encode_text demo_label Utf8 [] = Inr demo_out"
  using decode_encode [OF demo_decoded2(1)] decode_encode [OF demo_decoded2(2)] by (simp_all add: demo_data_def demo_out_def)

lemma demo_new: "rp_new demo_rep = demo_label"
  by (simp add: demo_rep_def render_label_def demo_label_def label_word_def WORDS_def word_row_def str_nat_def dec_rev.simps str_def
      py_upper_def cyr_ucd_def ascii_ucd_def ascii_upper_def ascii_lowercase_def)

lemma demo_apply: "apply_replacements abc [demo_rep] = demo_label" "apply_replacements demo_label (undo [demo_rep]) = abc"
proof -
  show "apply_replacements abc [demo_rep] = demo_label"
    using demo_new by (simp add: apply_replacements_def apply_one_def demo_rep_def abc_text)
  have "undo [demo_rep] = [\<lparr>rp_start = 0, rp_end = 5, rp_new = abc, rp_category = str ''UCI'', rp_n = 1, rp_original = demo_label\<rparr>]"
    using demo_new by (simp add: undo_def value_for_def demo_rep_def demo_label_def)
  then show "apply_replacements demo_label (undo [demo_rep]) = abc"
    by (simp add: apply_replacements_def apply_one_def demo_label_def)
qed

lemma demo_unit_fits: "unit_fits cyr_ucd abc [demo_rep]"
  by (simp add: unit_fits_def abc_no_label demo_rep_def cut_right_def abc_text WORDS_def word_row_def encodable_def surrogate_def)
    (simp add: abc_def str_def)

lemma demo_anon:
  assumes "demo_ready (eg_vault s)" "eg_dict s = []"
  shows "\<exists>r. anon_fn demo_engine demo_pid (str ''en'') demo_options abc None (start_run s) = (Inr [demo_rep], r) \<and> fr_st r = demo_st \<and>
    eg_vault (fr_eng r) = eg_vault s"
proof -
  obtain s1 where "anonymize_unit demo_engine demo_pid abc new_run (str ''en'') demo_options None s = (Inr ([demo_rep], demo_st), s1)"
    "eg_vault s1 = eg_vault s" using demo_unit [OF assms] by blast
  then show ?thesis by (simp add: anon_fn_def start_run_def Let_def)
qed

text \<open>A file with one unit, the text that is known to the project.\<close>

lemma demo_file:
  assumes s: "demo_ready (eg_vault s)" and h: "handler_for cyr_ucd name = Inr h" and k: "kind_of cyr_ucd name = Inr k"
    "k = str ''text'' \<or> k = str ''csv''" and name: "encodable name"
    and out: "dh_rewrite (handler_ops demo_files name h) demo_data (anon_fn demo_engine demo_pid (str ''en'') demo_options) (start_run s) = (Inr demo_out, r)"
    and r: "fr_st r = demo_st" "eg_vault (fr_eng r) = eg_vault s"
  shows "\<exists>res s'. anonymize_file demo_files demo_pid name demo_data (str ''en'') demo_options s = (Inr res, s') \<and> fl_data res = demo_out"
proof -
  have run: "run_file (handler_ops demo_files name h) demo_data (anon_fn demo_engine demo_pid (str ''en'') demo_options) s = (Inr (demo_out, r), fr_eng r)"
    using out by (simp add: run_file_def)
  have pv: "previews cyr_ucd k ins outs demo_data demo_out = Inr (take 20000 abc, take 20000 demo_label)" for ins outs
    using k(2) by (auto simp: previews_def decoded_preview_def demo_decoded2)
  obtain on where on: "output_name cyr_ucd name (str ''.anon'') = Inr on" using k(1) by (simp add: output_name_def)
  obtain dg did v' where rec: "label_digest id (label_seq (rs_occurrences demo_st)) = Inr dg"
    "record_document demo_env demo_pid name k (str ''anon'') (Some dg)
      (Some (occurrences_json (rs_occurrences demo_st))) (run_stats (rs_occurrences demo_st)) (bump (rs_counts demo_st) (eg_vault s)) = (Inr did, v')"
    using demo_recorded [OF s name] by blast
  have "\<exists>did s'. record_anon demo_files demo_pid name k (rs_occurrences demo_st) ((fr_eng r)\<lparr>eg_vault := bump (rs_counts demo_st) (eg_vault s)\<rparr>) = (Inr did, s')"
    using rec by (simp add: record_anon_def ebind_def elift_def on_vault_def)
  then obtain did' s' where ra: "record_anon demo_files demo_pid name k (rs_occurrences demo_st) ((fr_eng r)\<lparr>eg_vault := bump (rs_counts demo_st) (eg_vault s)\<rparr>) = (Inr did', s')"
    by blast
  show ?thesis
    using h k(1) run pv on ra r by (simp add: anonymize_file_def ebind_def elift_def finish_anon_def eret_def Let_def)
qed

lemma demo_start: "demo_ready v \<Longrightarrow> vault_run demo_env (str ''secret1'') (le_rng demo_env 1 32) v \<Longrightarrow>
    sound_start demo_files (str ''secret1'') (le_rng demo_env 1 32) demo_pid (str ''en'') \<lparr>eg_vault = v, eg_dict = [], eg_packs = []\<rparr>"
  using ucd_cyr_cyr_ucd env_ok_demo by (auto simp: sound_start_def demo_ready_def clock_ahead_def)

lemma demo_names:
  "handler_for cyr_ucd (str ''note'') = Inr TextHandler" "kind_of cyr_ucd (str ''note'') = Inr (str ''text'')"
  "handler_for cyr_ucd (str ''n.csv'') = Inr CsvHandler" "kind_of cyr_ucd (str ''n.csv'') = Inr (str ''csv'')"
  "endswith (u_lower cyr_ucd (str ''n.csv'')) (str ''.tsv'') = False"
  by code_simp+

text \<open>C39. A text file comes back byte for byte: in a vault reached by its own operations, its documents older than the
  clock, a UTF-8 file without labels of
  its own, anonymized by \<open>anonymize_file\<close> and given to \<open>restore_file\<close> under any name of a text file, is rewritten to the
  bytes it had, byte order mark included, when each replaced span is delimited and the labels number below a million. \<open>restore_bytes\<close> is \<open>restore_file\<close> up to
  the rewritten bytes and does not fail; what \<open>restore_file\<close> returns, it returns with them.\<close>

theorem text_file_roundtrip:
  assumes start: "sound_start env pw dk pid lng s"
    and h: "handler_for (fe_ucd env) name = Inr TextHandler" "handler_for (fe_ucd env) name' = Inr TextHandler"
    and d: "decode_text data = Inr (t, Utf8, bom)"
    and run: "anonymize_file env pid name data lng options s = (Inr res, s')"
    and au: "anonymize_unit (fe_eng env) pid t new_run lng options None s = (Inr (reps, st), s1)"
    and ok: "unit_fits (fe_ucd env) t reps"
  shows "(\<exists>r exact. restore_bytes env pid (handler_ops env name' TextHandler) (fl_data res) s' = (Inr (data, r, exact), s')) \<and>
    (\<forall>res' s2. restore_file env pid name' (fl_data res) s' = (Inr res', s2) \<longrightarrow> fl_data res' = data)"
proof -
  let ?us = "[\<lparr>un_text = t, un_force = None\<rparr>]"
  obtain r did where r: "run_file text_ops data (anon_fn (fe_eng env) pid lng options) s = (Inr (fl_data res, r), fr_eng r)"
    and rd: "record_anon env pid name (fl_kind res) (rs_occurrences (fr_st r)) ((fr_eng r)\<lparr>eg_vault := bump (rs_counts (fr_st r)) (eg_vault (fr_eng r))\<rparr>) = (Inr did, s')"
    using anonymize_file_parts [OF run] h(1) text_handler by (metis sum.inject(2))
  obtain us repss where v: "dh_units text_ops data = Inr us" "visit (anon_fn (fe_eng env) pid lng options) us (start_run s) = (Inr repss, r)"
    "dh_rewrite text_ops data (anon_fn (fe_eng env) pid lng options) (start_run s) = (Inr (fl_data res), r)"
    using text_file.run_asks [OF r] by blast
  have us: "us = ?us" using v(1) d by (simp add: text_ops_def text_units_def)
  have reps: "repss = [reps]"
    using v(2) au unfolding us by (auto simp: fbind_Inr fret_def anon_fn_def start_run_def Let_def split: prod.splits sum.splits)
  have w: "writable t Utf8 bom" by (rule decoded_writable [OF d])
  have l: "labelled (fe_ucd env) lng t reps"
    using unit_moves [OF _ au] sound_coherent [OF start] by (simp add: ready_def fe_ucd_def)
  have lng: "lng \<in> set (map str [''uk'', ''ru'', ''en''])" using start by (simp add: sound_start_def)
  have cats: "list_all (\<lambda>r. rp_category r \<in> fst ` set WORDS) reps" using ok by (simp add: unit_fits_def list_all_iff)
  have rds: "\<forall>y\<in>set reps. reads_as_label (fe_ucd env) y"
    using reads_all [OF _ _ _ lng] l ok start by (auto simp: labelled_def unit_fits_def list_all_iff sound_start_def)
  then have ne: "list_all (\<lambda>r. rp_new r \<noteq> []) reps" by (fastforce simp: list_all_iff reads_as_label_def)
  have rev: "reversible (fe_ucd env) t reps" using l ok rds by (simp add: reversible_def labelled_def unit_fits_def)
  have w2: "writable (apply_replacements t reps) Utf8 bom" by (rule labelled_writable [OF l lng cats w ne])
  obtain b where b: "encode_text (apply_replacements t reps) Utf8 bom = Inr b" "decode_text b = Inr (apply_replacements t reps, Utf8, bom)"
    using written_back [OF w2] by blast
  have out: "fl_data res = b" using v(3) d b(1) reps v(2) unfolding us
    by (auto simp: text_ops_def text_rewrite_def fbind_Inr fret_def flift_def)
  have fits: "text_fits data repss" "text_fits (fl_data res) (map undo repss)"
    using d w2 w b(2) out reps reversible_undo(2) [OF rev] by (simp_all add: text_fits_def)
  obtain final r' exact us' where f: "restore_bytes env pid text_ops (fl_data res) s' = (Inr (final, r', exact), s')"
    "text_file.undone_by env pid (fl_data res) exact s' final r' repss"
    using text_file.there_and_back [OF _ _ sound_coherent [OF start] _ lng v rd _ fits] ok start us reps by (auto simp: sound_start_def)
  have "final = data"
  proof -
    obtain us1 where u: "dh_units text_ops b = Inr us1" "visit (restore_fn (fe_eng env) pid exact) us1 (start_run s') = (Inr (map undo repss), r')"
      "dh_rewrite text_ops b (restore_fn (fe_eng env) pid exact) (start_run s') = (Inr final, r')"
      using f(2) out by (auto simp: text_file.undone_by_def)
    have "us1 = [\<lparr>un_text = apply_replacements t reps, un_force = None\<rparr>]" using u(1) b(2) by (simp add: text_ops_def text_units_def)
    then have "restore_fn (fe_eng env) pid exact (apply_replacements t reps) None (start_run s') = (Inr (undo reps), r')"
      using u(2) reps by (auto simp: fbind_Inr fret_def)
    then have "encode_text t Utf8 bom = Inr final"
      using u(3) b(2) reversible_undo(2) [OF rev] by (simp add: text_ops_def text_rewrite_def fbind_def flift_def)
    moreover have "take 2 data \<noteq> [254, 255]"
    proof
      assume h: "take 2 data = [254, 255]"
      have "take 3 data \<noteq> BOM8" using bytes_cons(1) [of data] bytes_cons(2) [of data] h by auto
      then show False using d h by (auto simp: decode_text_def rbind_Inr_iff)
    qed
    ultimately show ?thesis using decode_encode [OF d] by simp
  qed
  then have fin: "restore_bytes env pid (handler_ops env name' TextHandler) (fl_data res) s' = (Inr (data, r', exact), s')"
    using f(1) by (simp add: text_handler)
  then show ?thesis using restore_file_data [OF fin h(2)] by blast
qed

lemma text_file_roundtrip_witness:
  "\<exists>s res s' r exact. sound_start demo_files (str ''secret1'') (le_rng demo_env 1 32) demo_pid (str ''en'') s \<and>
     anonymize_file demo_files demo_pid (str ''note'') demo_data (str ''en'') demo_options s = (Inr res, s') \<and> fl_data res = demo_out \<and>
     restore_bytes demo_files demo_pid (handler_ops demo_files (str ''note'') TextHandler) demo_out s' = (Inr (demo_data, r, exact), s')"
proof -
  obtain v where v: "vault_run demo_env (str ''secret1'') (le_rng demo_env 1 32) v" "demo_ready v" using desk_vault by blast
  let ?s = "\<lparr>eg_vault = v, eg_dict = [], eg_packs = []\<rparr>"
  have start: "sound_start demo_files (str ''secret1'') (le_rng demo_env 1 32) demo_pid (str ''en'') ?s" by (rule demo_start [OF v(2,1)])
  obtain s1 where au: "anonymize_unit (fe_eng demo_files) demo_pid abc new_run (str ''en'') demo_options None ?s = (Inr ([demo_rep], demo_st), s1)"
    using demo_unit [of ?s] v(2) by auto
  obtain r where r: "anon_fn demo_engine demo_pid (str ''en'') demo_options abc None (start_run ?s) = (Inr [demo_rep], r)" "fr_st r = demo_st"
    "eg_vault (fr_eng r) = v" using demo_anon [of ?s] v(2) by auto
  have "dh_rewrite (handler_ops demo_files (str ''note'') TextHandler) demo_data (anon_fn demo_engine demo_pid (str ''en'') demo_options) (start_run ?s)
      = (Inr demo_out, r)"
    using r(1) by (simp add: text_handler text_ops_def text_rewrite_def fbind_def flift_def demo_decoded2 demo_apply demo_encoded)
  then obtain res s' where run: "anonymize_file demo_files demo_pid (str ''note'') demo_data (str ''en'') demo_options ?s = (Inr res, s')" "fl_data res = demo_out"
    using demo_file [of ?s "str ''note''" TextHandler "str ''text''" r] v(2) r demo_names by (auto simp: encodable_def str_def surrogate_def)
  have h: "handler_for (fe_ucd demo_files) (str ''note'') = Inr TextHandler" using demo_names by simp
  have ok: "unit_fits (fe_ucd demo_files) abc [demo_rep]" using demo_unit_fits by simp
  show ?thesis
    using text_file_roundtrip [OF start h h demo_decoded2(1) run(1) au ok] start run by auto
qed

lemma demo_table_read:
  "csv_cells abc 44 = [[(0, 3, False)]]" "csv_cells demo_label 44 = [[(0, 5, False)]]"
  by code_simp+

lemma one_cell:
  assumes "decode_text data = Inr (t, Utf8, [])" "csv_cells t 44 = [[(0, n, False)]]" "length t = n"
  shows "\<exists>p. prep_csv cyr_ucd (\<lambda>_. None) data (str ''n.csv'') = Inr p \<and> cp_text p = t \<and> cp_enc p = Utf8 \<and> cp_bom p = [] \<and> cp_sep p = 44 \<and>
    cp_rows p = [[(0, n, False)]]" "csv_units cyr_ucd (\<lambda>_. None) data (str ''n.csv'') = Inr [\<lparr>un_text = t, un_force = None\<rparr>]"
  using assms demo_names(5)
  by (simp_all add: prep_csv_def csv_units_def Let_def csv_walk_def forced_of_def cell_value_def slice_def split: option.split)

lemma one_cell_fits:
  assumes d: "decode_text data = Inr (t, Utf8, [])" "csv_cells t 44 = [[(0, n, False)]]" "length t = n" and t: "t \<noteq> []"
    and new: "apply_replacements t reps = x" "x \<noteq> []" "reps \<noteq> []" "writable x Utf8 []" "list_all (\<lambda>c. c \<notin> {34, 10, 13, 44}) x"
  shows "csv_fits cyr_ucd (\<lambda>_. None) (str ''n.csv'') data [reps]"
    "csv_units cyr_ucd (\<lambda>_. None) data (str ''n.csv'') = Inr [\<lparr>un_text = t, un_force = None\<rparr>]"
    "f t None s = (Inr reps, s') \<Longrightarrow> csv_rewrite cyr_ucd (\<lambda>_. None) data f (str ''n.csv'') s = (encode_text x Utf8 [], s')"
proof -
  obtain p where p: "prep_csv cyr_ucd (\<lambda>_. None) data (str ''n.csv'') = Inr p" "cp_text p = t" "cp_enc p = Utf8" "cp_bom p = []" "cp_sep p = 44"
    "cp_rows p = [[(0, n, False)]]" using one_cell [OF d] by blast
  have v: "cell_value t (0, n, False) = t" using d(3) by (simp add: cell_value_def slice_def)
  have "raw_cell False t x = x" using new(5) by (auto simp: raw_cell_def list_ex_iff list_all_iff)
  then have tx: "csv_text p [reps] = x"
    using p v new d(3) by (simp add: csv_text_def Let_def edits_def edit_of_def new_raw_def cell_replacement_def apply_replacements_def [of t]
        apply_one_def)
  show "csv_fits cyr_ucd (\<lambda>_. None) (str ''n.csv'') data [reps]"
    using p v new t tx demo_names(5) by (simp add: csv_fits_def cell_fits_def)
  show units: "csv_units cyr_ucd (\<lambda>_. None) data (str ''n.csv'') = Inr [\<lparr>un_text = t, un_force = None\<rparr>]" by (rule one_cell(2) [OF d])
  assume f: "f t None s = (Inr reps, s')"
  have "visit f [\<lparr>un_text = t, un_force = None\<rparr>] s = (Inr [reps], s')" using f by (simp add: fbind_def fret_def)
  from csv_rewritten(1) [OF p(1) _ units this] show "csv_rewrite cyr_ucd (\<lambda>_. None) data f (str ''n.csv'') s = (encode_text x Utf8 [], s')"
    using p(2-) v new t tx by (simp add: cell_fits_def)
qed

text \<open>C40. A table comes back cell by cell: in a vault reached by its own operations, its documents older than the clock, a
  table whose cells hold no labels,
  anonymized by \<open>anonymize_file\<close> and given to \<open>restore_file\<close> under any name of a table with the same default
  delimiter, is rewritten to a table whose cells have the values they had, when each replaced span is delimited in its
  cell with labels below a million, the answers fit the cells, the text can be written in the encoding of the file and the
  delimiter is recognised again both times.\<close>

theorem table_file_roundtrip:
  assumes start: "sound_start env pw dk pid lng s"
    and h: "handler_for (fe_ucd env) name = Inr CsvHandler" "handler_for (fe_ucd env) name' = Inr CsvHandler"
    and tsv: "endswith (u_lower (fe_ucd env) name') (str ''.tsv'') = endswith (u_lower (fe_ucd env) name) (str ''.tsv'')"
    and us: "csv_units (fe_ucd env) (fe_sniff env) data name = Inr us"
    and run: "anonymize_file env pid name data lng options s = (Inr res, s')"
    and v: "visit (anon_fn (fe_eng env) pid lng options) us (start_run s) = (Inr repss, r)"
    and ok: "list_all2 (\<lambda>x reps. unit_fits (fe_ucd env) (un_text x) reps) us repss"
    and fits: "csv_fits (fe_ucd env) (fe_sniff env) name data repss"
      "csv_fits (fe_ucd env) (fe_sniff env) name (fl_data res) (map undo repss)"
  shows "\<exists>final r' exact us'. restore_bytes env pid (handler_ops env name' CsvHandler) (fl_data res) s' = (Inr (final, r', exact), s') \<and>
    csv_units (fe_ucd env) (fe_sniff env) final name' = Inr us' \<and> map un_text us' = map un_text us \<and>
    (\<forall>res' s2. restore_file env pid name' (fl_data res) s' = (Inr res', s2) \<longrightarrow> fl_data res' = final)"
proof -
  let ?ops = "csv_ops (fe_ucd env) (fe_sniff env) name"
  have same: "csv_ops (fe_ucd env) (fe_sniff env) name' = ?ops"
    using tsv by (simp add: csv_ops_def csv_units_def [abs_def] csv_rewrite_def [abs_def] prep_csv_def [abs_def])
  obtain r1 did where r1: "run_file ?ops data (anon_fn (fe_eng env) pid lng options) s = (Inr (fl_data res, r1), fr_eng r1)"
    and rd: "record_anon env pid name (fl_kind res) (rs_occurrences (fr_st r1)) ((fr_eng r1)\<lparr>eg_vault := bump (rs_counts (fr_st r1)) (eg_vault (fr_eng r1))\<rparr>) = (Inr did, s')"
    using anonymize_file_parts [OF run] h(1) csv_handler by (metis sum.inject(2))
  have u: "dh_units ?ops data = Inr us" using us by (simp add: csv_ops_def)
  have rr: "r1 = r" "dh_rewrite ?ops data (anon_fn (fe_eng env) pid lng options) (start_run s) = (Inr (fl_data res), r)"
    using csv_file.run_asks [OF r1] u v by (metis prod.inject sum.inject(2))+
  obtain final r' exact us' where f: "restore_bytes env pid ?ops (fl_data res) s' = (Inr (final, r', exact), s')"
    "dh_units ?ops final = Inr us'" "map un_text us' = map un_text us"
    using csv_file.there_and_back [OF _ _ sound_coherent [OF start] _ _ u v rr(2) rd [unfolded rr(1)] ok fits] start
    by (auto simp: sound_start_def)
  have fin: "restore_bytes env pid (handler_ops env name' CsvHandler) (fl_data res) s' = (Inr (final, r', exact), s')"
    using f(1) by (simp add: csv_handler same)
  have "dh_units (csv_ops (fe_ucd env) (fe_sniff env) name') final = Inr us'" using f(2) by (simp only: same)
  then have "csv_units (fe_ucd env) (fe_sniff env) final name' = Inr us'" by (simp add: csv_ops_def)
  then show ?thesis using fin f(3) restore_file_data [OF fin h(2)] by blast
qed

lemma demo_writable: "writable abc Utf8 []" "writable demo_label Utf8 []"
  using decoded_writable [OF demo_decoded2(1)] decoded_writable [OF demo_decoded2(2)] by simp_all

lemma table_file_roundtrip_witness:
  "\<exists>s res s' final r' exact us'. sound_start demo_files (str ''secret1'') (le_rng demo_env 1 32) demo_pid (str ''en'') s \<and>
     anonymize_file demo_files demo_pid (str ''n.csv'') demo_data (str ''en'') demo_options s = (Inr res, s') \<and> fl_data res = demo_out \<and>
     restore_bytes demo_files demo_pid (handler_ops demo_files (str ''n.csv'') CsvHandler) demo_out s' = (Inr (final, r', exact), s') \<and>
     csv_units cyr_ucd (\<lambda>_. None) final (str ''n.csv'') = Inr us' \<and> map un_text us' = [abc]"
proof -
  obtain v where v: "vault_run demo_env (str ''secret1'') (le_rng demo_env 1 32) v" "demo_ready v" using desk_vault by blast
  let ?s = "\<lparr>eg_vault = v, eg_dict = [], eg_packs = []\<rparr>" and ?us = "[\<lparr>un_text = abc, un_force = None\<rparr>]" and ?name = "str ''n.csv''"
  have start: "sound_start demo_files (str ''secret1'') (le_rng demo_env 1 32) demo_pid (str ''en'') ?s" by (rule demo_start [OF v(2,1)])
  obtain r where r: "anon_fn demo_engine demo_pid (str ''en'') demo_options abc None (start_run ?s) = (Inr [demo_rep], r)" "fr_st r = demo_st"
    "eg_vault (fr_eng r) = v" using demo_anon [of ?s] v(2) by auto
  have d: "length demo_label = 5" "demo_label \<noteq> []" "list_all (\<lambda>c. c \<notin> {34, 10, 13, 44}) demo_label"
    "list_all (\<lambda>c. c \<notin> {34, 10, 13, 44}) abc" by (simp_all add: demo_label_def abc_def str_def)
  have u: "undo [demo_rep] \<noteq> []" by (simp add: undo_def demo_rep_def Let_def)
  note there = one_cell_fits [OF demo_decoded2(1) demo_table_read(1) abc_text(4,5) demo_apply(1) d(2) _ demo_writable(2) d(3)]
  note fro = one_cell_fits [OF demo_decoded2(2) demo_table_read(2) d(1,2) demo_apply(2) abc_text(5) u demo_writable(1) d(4)]
  have "dh_rewrite (handler_ops demo_files ?name CsvHandler) demo_data (anon_fn demo_engine demo_pid (str ''en'') demo_options) (start_run ?s)
      = (Inr demo_out, r)"
    using there(3) [of "anon_fn demo_engine demo_pid (str ''en'') demo_options" "start_run ?s" r] r(1) demo_encoded(2)
    by (simp add: csv_handler csv_ops_def)
  then obtain res s' where run: "anonymize_file demo_files demo_pid ?name demo_data (str ''en'') demo_options ?s = (Inr res, s')" "fl_data res = demo_out"
    using demo_file [of ?s ?name CsvHandler "str ''csv''" r] v(2) r demo_names by (auto simp: encodable_def str_def surrogate_def)
  have h: "handler_for (fe_ucd demo_files) ?name = Inr CsvHandler" using demo_names by simp
  have us: "csv_units (fe_ucd demo_files) (fe_sniff demo_files) demo_data ?name = Inr ?us" using there(2) by simp
  have vi: "visit (anon_fn (fe_eng demo_files) demo_pid (str ''en'') demo_options) ?us (start_run ?s) = (Inr [[demo_rep]], r)"
    using r(1) by (simp add: fbind_def fret_def)
  have ok: "list_all2 (\<lambda>x reps. unit_fits (fe_ucd demo_files) (un_text x) reps) ?us [[demo_rep]]" using demo_unit_fits by simp
  have fits: "csv_fits (fe_ucd demo_files) (fe_sniff demo_files) ?name demo_data [[demo_rep]]"
    "csv_fits (fe_ucd demo_files) (fe_sniff demo_files) ?name (fl_data res) (map undo [[demo_rep]])"
    using there(1) fro(1) run(2) by simp_all
  obtain final r' exact us' where f: "restore_bytes demo_files demo_pid (handler_ops demo_files ?name CsvHandler) (fl_data res) s' = (Inr (final, r', exact), s')"
    "csv_units (fe_ucd demo_files) (fe_sniff demo_files) final ?name = Inr us'" "map un_text us' = map un_text ?us"
    using table_file_roundtrip [OF start h h refl us run(1) vi ok fits] by blast
  then show ?thesis using start run by auto
qed

end
