(* ===== verification/Spec2Isabelle.thy ===== *)
theory Spec2Isabelle
  imports RG_Prelude Unicode_Data Placeholder_Tail Validators Stream_Detok Merge Openai_Schema Pipeline Detect Audit_Log Audit_Concurrency Adapters App
    Label_Match Label_Keys Label_Cache Ner_Ends Desktop_Roundtrip Desktop_Nodes Desktop_There
begin

text \<open>
  RedactGate: a verification development for the Python service under \<open>app/\<close>.

  \<^bold>\<open>The program.\<close> RedactGate stands between an application and a provider of language models. It has two
  products on one core. The \<^emph>\<open>gateway\<close> (\<open>app/main.py\<close>, \<open>app/routes\<close>, \<open>app/gateway\<close>) takes an OpenAI-style request,
  authenticates the caller (\<open>app/auth.py\<close>), detects personal data in every text of it (\<open>app/redaction/detect.py\<close>: packs
  of patterns with check-digit validators, Presidio, an LLM pass), asks the team's policy (\<open>policy.py\<close>), replaces the
  values by placeholders kept in an encrypted vault (\<open>vault.py\<close> over \<open>store.py\<close> or \<open>pg_store.py\<close>), sends what is left to
  the provider through an adapter, puts the values back into the answer or into its stream, and appends an event to a
  chain of hashes (\<open>app/audit.py\<close>). The \<^emph>\<open>desktop application\<close> (\<open>app/desktop\<close>) replaces the personal data of local
  documents by readable labels, numbered per project in an encrypted SQLite file, and restores them later.

  \<^bold>\<open>Theories and files.\<close> Definitions keep the names of the code; the fields of a record are those of the class.
  \<^item> \<open>RG_Prelude\<close>: strings as lists of code points, bytes, exceptions as values, Python slices and loops over lists.
    \<open>Unicode_Data\<close>, \<open>Py_Text\<close>: string methods over tables that are a parameter (\<open>ucd\<close>). \<open>Utf8\<close>, \<open>Text_Codecs\<close>: encodings.
    \<open>Regex\<close>, \<open>Regex_Groups\<close>, \<open>Regex_Cut\<close>: a backtracking matcher for the part of \<open>re\<close> the code uses, and what can be
    read off a pattern. \<open>Json\<close>, \<open>Json_Text\<close>: JSON values and \<open>json.dumps\<close>.
  \<^item> \<open>Entities\<close>: \<open>app/schemas/entities.py\<close>. \<open>Openai_Schema\<close>: \<open>app/schemas/openai.py\<close>. \<open>Config\<close>: \<open>app/config.py\<close>.
    \<open>Auth\<close>: \<open>app/auth.py\<close>. \<open>Audit_Log\<close> and \<open>Audit_Concurrency\<close> (recordings interleaved under the advisory lock): \<open>app/audit.py\<close>.
  \<^item> \<open>app/redaction\<close>: \<open>Placeholders\<close> and \<open>Placeholder_Tail\<close> (\<open>placeholders.py\<close>), \<open>Store\<close> (\<open>store.py\<close>, \<open>pg_store.py\<close>),
    \<open>Vault\<close> and \<open>Stream_Detok\<close> (\<open>vault.py\<close>), \<open>Merge\<close> (\<open>merge.py\<close>), \<open>Validators\<close> (\<open>validators.py\<close>), \<open>Policy\<close> (\<open>policy.py\<close>),
    \<open>Packs\<close> (\<open>regex_packs.py\<close>, \<open>packs_loader.py\<close>), \<open>Detect\<close> (\<open>detect.py\<close>, \<open>presidio_ner.py\<close>, \<open>llm_ner.py\<close>), \<open>Pipeline\<close>
    (\<open>pipeline.py\<close>, \<open>normalize.py\<close>).
  \<^item> The service: \<open>Gateway\<close> (\<open>base.py\<close>, \<open>openai.py\<close>, \<open>azure.py\<close>, \<open>do_genai.py\<close>), \<open>Adapters\<close> (\<open>anthropic.py\<close>, \<open>gemini.py\<close>,
    \<open>bedrock.py\<close>, \<open>ollama.py\<close>), \<open>Proxy\<close> (\<open>routes/proxy.py\<close>, \<open>deps.py\<close>), \<open>Admin\<close> (\<open>routes/admin.py\<close>, \<open>health.py\<close>, \<open>worker.py\<close>),
    \<open>App\<close> (\<open>main.py\<close>, \<open>db.py\<close>, \<open>migrate.py\<close>).
  \<^item> \<open>app/desktop\<close>: \<open>Cyrillic\<close> (how Cyrillic literals are spelled here), \<open>Labels\<close> and \<open>Label_Match\<close> (\<open>labels.py\<close>), \<open>Label_Vault\<close>,
    \<open>Label_Keys\<close> and \<open>Label_Cache\<close> (\<open>vaultdb.py\<close>), \<open>Gazetteer\<close> (\<open>gazetteer.py\<close>), \<open>Ner_Patterns\<close>, \<open>Ner_Rules\<close> and \<open>Ner_Ends\<close>
    (\<open>ner_rules.py\<close>), \<open>Desktop_Text\<close>, \<open>Desktop_Engine\<close> and \<open>Desktop_Anonymizer\<close> (\<open>engine.py\<close>), with its proofs in
    \<open>Desktop_Labels\<close>, \<open>Desktop_Spans\<close>, \<open>Desktop_Linked\<close>, \<open>Desktop_Resolve\<close>, \<open>Desktop_Same\<close>, \<open>Desktop_Restore\<close> and
    \<open>Desktop_Roundtrip\<close>; \<open>Text_Codecs\<close>, \<open>Desktop_Formats\<close>, \<open>Desktop_Cells\<close> and \<open>Desktop_Nodes\<close> (\<open>formats.py\<close>: encodings, the handlers of text and of
    tables, texts spread over nodes), \<open>Desktop_Pipeline\<close>, \<open>Desktop_Files\<close> and \<open>Desktop_There\<close> (\<open>pipeline.py\<close>).

  \<^bold>\<open>State and errors.\<close> Operations that change state take it and return it: the vault with its store and its count of
  random draws, the database of the gateway as lists of rows, the desktop vault as file, keys and heap of shared
  \<open>Entity\<close> objects. What may raise returns \<open>exn + 'a\<close>; where the state a failing operation reached matters (migrations,
  the desktop vault, the pack cache) it is returned beside the error. A handler returns what it handed to the provider, too.

  \<^bold>\<open>What is proved.\<close>
  \<^item> Text machinery: the matcher finds what the language of a pattern says (\<open>ms_lang\<close>), placeholders are found exactly
    and never cut by the stream, overlap resolution equals a one-pass stack algorithm, check digits detect errors.
  \<^item> Gateway vault: tokenize and detokenize are inverse, same value means same placeholder, later calls do not change
    what a session resolves. Clients of a store use the laws of the locale \<open>token_store\<close>; both stores interpret it.
  \<^item> Pipeline and routes: what a provider is handed has every reported value replaced; hard blocks hold; the stream
    carries the detokenized text while placeholders have at most 65 characters; each request appends at most its own
    event; the chain detects tampering, and the advisory lock keeps interleaved recordings from forking it.
  \<^item> Adapters: what Anthropic, Gemini and Bedrock are sent as conversation is made of walked texts; their streams end once.
  \<^item> Shell: start-up in production fails closed; keys have 32 bytes; authentication accepts keys that were issued only.
  \<^item> Desktop: labels are read back in every case and language; the password protocol and the cache of the vault are
    invariants over all operation sequences; the local rules end on every text; the spans of the detector are ordered and
    disjoint; same normal form means same entity; anonymizing and restoring a pasted text gives it back; a text file that is not changed comes back byte for byte; a rewritten table has
    the cells the callback answered; a text file comes back byte for byte and a table cell by cell, for every handler that
    satisfies the locale \<open>document_format\<close>, which the text and the table handler interpret.

  \<^bold>\<open>Bounds and fuel.\<close> The matcher is structural in the pattern; an unbounded repetition is bounded by the characters
  that are left, enough since an iteration that consumes nothing ends the repetition, as in CPython. Loops over lists are
  structural or have a measure. The three loops of the local rules without an evident bound are
  \<open>partial_function (option)\<close>, and \<open>detect_all_returns\<close> says that they return. Label numbers are below one million where
  a round trip is stated: the recognising pattern reads at most six digits. A placeholder is drawn at most 32 times and
  then taken from the fingerprint, as in the code.

  \<^bold>\<open>Parameters.\<close> Code that is not under \<open>src/\<close>: the cryptographic primitives (HMAC, HKDF, AES-GCM, scrypt, argon2), random
  bytes and UUIDs, clocks, the tables of \<open>unicodedata\<close> and NFKC, \<open>json.loads\<close> and the \<open>repr\<close> of floats, the YAML parser,
  the compilation of pattern texts, Presidio, the HTTP client and boto3, and the database server, which is a list of rows.
  Theorems that need a fact of such code name it as a hypothesis (decryption inverts encryption, the HMAC of different
  messages differs) and have a witness in which the parameter is a concrete function.

  \<^bold>\<open>Not modelled.\<close> The ORM mapping of \<open>app/models.py\<close> beyond its rows, pydantic's validation of requests, CORS and logging; the
  handlers of Office files, PDF and images in \<open>app/desktop/formats.py\<close>, which walk the objects of lxml and PyMuPDF; the
  HTTP server, window and network guard of the desktop application and the seconds of a run; the benchmarks under \<open>eval/\<close>, the packaging
  scripts and the mock provider, which are tools around the program.
\<close>

end
